(* ===== verification/Prelude.thy ===== *)
theory Prelude
  imports Main "HOL-Library.Word"
begin

text \<open>
  The vocabulary every other theory shares: the machine integer \<open>size_t\<close> of the code as a
  64-bit word, the C++ exceptions as values of a datatype, sequencing of computations that may
  throw, the checked additions and multiplications of \<open>src/src/iom_internal.hpp\<close>, and
  generic lemmas on words and lists.
\<close>

section \<open>Collections of facts\<close>

named_theorems unat_simps \<open>rules that read word terms as natural numbers\<close>
named_theorems exn_simps \<open>rules for computations that may throw\<close>

section \<open>Machine integers and exceptions\<close>

type_synonym usize = "64 word"

text \<open>
  The exception classes the modelled code throws or catches, one constructor for each class
  that \<open>DeviceOps::map_failure\<close> tells apart, the other standard classes by name. The
  message texts of the exceptions are not modelled.
\<close>

datatype exn =
    InvalidArgument
  | OverflowError
  | OutOfRange
  | RuntimeError
  | LogicError
  | BadAlloc
  | UnsupportedOperation
  | OtherException

type_synonym 'a throws = "exn + 'a"

definition andThen :: "'a throws \<Rightarrow> ('a \<Rightarrow> 'b throws) \<Rightarrow> 'b throws" where
  "andThen m f = (case m of Inl e \<Rightarrow> Inl e | Inr x \<Rightarrow> f x)"

lemma andThen_simps [simp]:
  "andThen (Inl e) f = Inl e"
  "andThen (Inr x) f = f x"
  by (simp_all add: andThen_def)

lemma andThen_Inr_iff [exn_simps]:
  "andThen m f = Inr y \<longleftrightarrow> (\<exists>x. m = Inr x \<and> f x = Inr y)"
  by (cases m) auto

lemma andThen_Inl_iff [exn_simps]:
  "andThen m f = Inl e \<longleftrightarrow> m = Inl e \<or> (\<exists>x. m = Inr x \<and> f x = Inl e)"
  by (cases m) auto

lemma andThen_unit_iff: "andThen m (\<lambda>_ :: unit. n) = Inr y \<longleftrightarrow> m = Inr () \<and> n = Inr y"
  by (cases m) auto

lemma guard_Inr_iff [exn_simps]:
  "(if b then Inl e else m) = Inr y \<longleftrightarrow> \<not> b \<and> m = Inr y"
  by simp

lemma andThen_cong [fundef_cong]:
  "m = m' \<Longrightarrow> (\<And>x. m' = Inr x \<Longrightarrow> f x = g x) \<Longrightarrow> andThen m f = andThen m' g"
  by (cases m') auto

lemma andThen_assoc [exn_simps]:
  "andThen (andThen m f) g = andThen m (\<lambda>x. andThen (f x) g)"
  by (cases m) auto

section \<open>Checked arithmetic\<close>

text \<open>\<open>checked_add\<close> and \<open>checked_mul\<close>: the result, or \<open>std::overflow_error\<close>.\<close>

definition checked_add :: "usize \<Rightarrow> usize \<Rightarrow> usize throws" where
  "checked_add lhs rhs = (if rhs > - 1 - lhs then Inl OverflowError else Inr (lhs + rhs))"

definition checked_mul :: "usize \<Rightarrow> usize \<Rightarrow> usize throws" where
  "checked_mul lhs rhs =
     (if lhs \<noteq> 0 \<and> rhs > (- 1) div lhs then Inl OverflowError else Inr (lhs * rhs))"

definition bits_to_bytes :: "usize \<Rightarrow> usize throws" where
  "bits_to_bytes bits = andThen (checked_add bits 7) (\<lambda>b. Inr (b div 8))"

lemma unat_max [unat_simps]: "unat (- 1 :: usize) = 2 ^ 64 - 1"
  by (simp add: unsigned_minus_1_eq_mask mask_eq_exp_minus_1)

lemma unat_less: "unat (x :: usize) < 2 ^ 64"
  using unsigned_less [of x, where ?'a = nat] by simp

lemma unat_max_minus: "unat (- 1 - (a :: usize)) = 2 ^ 64 - 1 - unat a"
proof -
  have "a \<le> - 1" by simp
  then show ?thesis
    by (simp only: unat_sub unat_max)
qed

lemma unat_add_small: "unat (a :: usize) + unat b < 2 ^ 64 \<Longrightarrow> unat (a + b) = unat a + unat b"
  by (simp add: unat_add_lem [THEN iffD1])

lemma unat_mult_small: "unat (a :: usize) * unat b < 2 ^ 64 \<Longrightarrow> unat (a * b) = unat a * unat b"
  by (simp add: unat_mult_lem [THEN iffD1])

lemma checked_add_cases:
  "checked_add a b =
     (if unat a + unat b < 2 ^ 64 then Inr (a + b) else Inl OverflowError)"
proof -
  have "b > - 1 - a \<longleftrightarrow> \<not> unat a + unat b < 2 ^ 64"
    using unat_less [of a] by (simp add: word_less_nat_alt unat_max_minus) linarith
  then show ?thesis by (simp add: checked_add_def)
qed

lemma checked_add_Inr [unat_simps]:
  "checked_add a b = Inr c \<longleftrightarrow> unat c = unat a + unat b"
proof
  assume "checked_add a b = Inr c"
  then show "unat c = unat a + unat b"
    by (auto simp: checked_add_cases unat_add_small split: if_splits)
next
  assume c: "unat c = unat a + unat b"
  then have lt: "unat a + unat b < 2 ^ 64" using unat_less [of c] by simp
  then have "unat c = unat (a + b)" using c by (simp add: unat_add_small)
  then have "c = a + b" by (simp only: word_unat_eq_iff)
  with lt show "checked_add a b = Inr c" by (simp add: checked_add_cases)
qed

lemma checked_add_Inl [unat_simps]:
  "checked_add a b = Inl e \<longleftrightarrow> e = OverflowError \<and> 2 ^ 64 \<le> unat a + unat b"
  by (auto simp: checked_add_cases)

lemma checked_mul_cases:
  "checked_mul a b =
     (if unat a * unat b < 2 ^ 64 then Inr (a * b) else Inl OverflowError)"
proof (cases "a = 0")
  case True
  then show ?thesis by (simp add: checked_mul_def)
next
  case False
  then have a: "0 < unat a" by (simp add: unat_gt_0)
  have "b > (- 1) div a \<longleftrightarrow> \<not> unat b \<le> (2 ^ 64 - 1) div unat a"
    by (simp only: word_less_nat_alt unat_div unat_max not_le)
  also have "\<dots> \<longleftrightarrow> \<not> unat a * unat b < 2 ^ 64"
    using a by (simp add: less_eq_div_iff_mult_less_eq mult.commute) linarith
  finally show ?thesis using False by (simp add: checked_mul_def)
qed

lemma checked_mul_Inr [unat_simps]:
  "checked_mul a b = Inr c \<longleftrightarrow> unat c = unat a * unat b"
proof
  assume "checked_mul a b = Inr c"
  then show "unat c = unat a * unat b"
    by (auto simp: checked_mul_cases unat_mult_small split: if_splits)
next
  assume c: "unat c = unat a * unat b"
  then have lt: "unat a * unat b < 2 ^ 64" using unat_less [of c] by simp
  then have "unat c = unat (a * b)" using c by (simp add: unat_mult_small)
  then have "c = a * b" by (simp only: word_unat_eq_iff)
  with lt show "checked_mul a b = Inr c" by (simp add: checked_mul_cases)
qed

lemma checked_mul_Inl [unat_simps]:
  "checked_mul a b = Inl e \<longleftrightarrow> e = OverflowError \<and> 2 ^ 64 \<le> unat a * unat b"
  by (auto simp: checked_mul_cases)

lemma bits_to_bytes_Inr [unat_simps]:
  "bits_to_bytes b = Inr c \<longleftrightarrow> unat b + 7 < 2 ^ 64 \<and> unat c = (unat b + 7) div 8"
proof -
  have "bits_to_bytes b = Inr c \<longleftrightarrow> unat b + 7 < 2 ^ 64 \<and> c = (b + 7) div 8"
    by (auto simp: bits_to_bytes_def checked_add_cases)
  moreover have "unat b + 7 < 2 ^ 64 \<Longrightarrow> unat ((b + 7) div 8) = (unat b + 7) div 8"
    using unat_add_small [of b 7] by (simp add: unat_div)
  ultimately show ?thesis
    by (metis word_unat_eq_iff)
qed

lemma bits_to_bytes_Inl [unat_simps]:
  "bits_to_bytes b = Inl e \<longleftrightarrow> e = OverflowError \<and> 2 ^ 64 \<le> unat b + 7"
  by (auto simp: bits_to_bytes_def checked_add_cases)

section \<open>Mixed-radix numbers\<close>

text \<open>The digit bounds that make \<open>hi * n + lo\<close> an injective and bounded code.\<close>

lemma mixed_radix_less:
  fixes a :: nat
  assumes "a < m" and "b < n"
  shows "a * n + b < m * n"
proof -
  have "a * n + b < Suc a * n" using assms(2) by simp
  also have "\<dots> \<le> m * n" using assms(1) by (intro mult_le_mono1) simp
  finally show ?thesis .
qed

lemma mixed_radix_inj:
  fixes a :: nat
  assumes "b < n" and "b' < n" and "a * n + b = a' * n + b'"
  shows "a = a' \<and> b = b'"
proof -
  have "a = (a * n + b) div n" using assms(1) by simp
  moreover have "a' = (a' * n + b') div n" using assms(2) by simp
  ultimately have "a = a'" using assms(3) by simp
  with assms(3) show ?thesis by simp
qed

lemma div_mod_eq_iff:
  fixes a :: nat
  shows "a div n = b div n \<Longrightarrow> a mod n = b mod n \<Longrightarrow> a = b"
  by (metis div_mult_mod_eq)

lemma prod_list_pos: "0 \<notin> set (xs :: nat list) \<Longrightarrow> 0 < prod_list xs"
  by (induction xs) auto

lemma unat_0_notin: "0 \<notin> set (ds :: usize list) \<Longrightarrow> 0 \<notin> unat ` set ds"
  by (auto simp: unat_eq_0)

lemma unat_of_nat_fits: "n < 2 ^ 64 \<Longrightarrow> unat (of_nat n :: usize) = n"
  by (simp add: unat_of_nat)

text \<open>Forward rules for a checked operation whose exact result is known to fit.\<close>

lemma checked_add_ok:
  "unat a + unat b < 2 ^ 64 \<Longrightarrow> checked_add a b = Inr (a + b) \<and> unat (a + b) = unat a + unat b"
  by (simp add: checked_add_cases unat_add_small)

lemma checked_mul_ok:
  "unat a * unat b < 2 ^ 64 \<Longrightarrow> checked_mul a b = Inr (a * b) \<and> unat (a * b) = unat a * unat b"
  by (simp add: checked_mul_cases unat_mult_small)

text \<open>The same rules for operands whose values are already named.\<close>

lemma checked_add_ex:
  "unat a = m \<Longrightarrow> unat b = n \<Longrightarrow> m + n < 2 ^ 64 \<Longrightarrow>
   \<exists>c. checked_add a b = Inr c \<and> unat c = m + n"
  using checked_add_ok by blast

lemma checked_mul_ex:
  "unat a = m \<Longrightarrow> unat b = n \<Longrightarrow> m * n < 2 ^ 64 \<Longrightarrow>
   \<exists>c. checked_mul a b = Inr c \<and> unat c = m * n"
  using checked_mul_ok by blast

section \<open>Alignment\<close>

unbundle bit_operations_syntax

lemma power_of_two_nat: "v \<noteq> 0 \<Longrightarrow> v AND (v - 1) = (0 :: nat) \<Longrightarrow> \<exists>n. v = 2 ^ n"
proof (induction v rule: less_induct)
  case (less v)
  show ?case
  proof (cases "even v")
    case True
    then obtain w where w: "v = 2 * w" by blast
    have w0: "w \<noteq> 0" using less.prems(1) w by simp
    then have "v - 1 = 1 + 2 * (w - 1)" using w by simp
    then have "v AND (v - 1) = 2 * (w AND (w - 1))" using w by (simp add: and_nat_rec [of "2 * w"])
    then have "w AND (w - 1) = 0" using less.prems(2) by simp
    then obtain n where "w = 2 ^ n" using less.IH [of w] w w0 by auto
    then have "v = 2 ^ Suc n" using w by simp
    then show ?thesis ..
  next
    case False
    then obtain w where w: "v = 2 * w + 1" by (blast elim: oddE)
    then have "v AND (v - 1) = 2 * w" by (simp add: and_nat_rec [of "Suc (2 * w)"])
    then have "v = 2 ^ 0" using less.prems(2) w by simp
    then show ?thesis ..
  qed
qed

lemma and_not_mask_push: "(y :: usize) AND NOT (mask n) = push_bit n (drop_bit n y)"
  by (rule bit_word_eqI) (auto simp: bit_simps)

lemma unat_align_down: "unat ((y :: usize) AND NOT (mask n)) = unat y div 2 ^ n * 2 ^ n"
proof -
  have "unat y div 2 ^ n * 2 ^ n \<le> unat y" by simp
  then have lt: "unat y div 2 ^ n * 2 ^ n < 2 ^ 64" using unat_less [of y] by linarith
  have "unat (push_bit n (drop_bit n y)) = take_bit 64 (push_bit n (drop_bit n (take_bit 64 (unat y))))"
    by (simp only: unsigned_push_bit_eq unsigned_drop_bit_eq) simp
  also have "\<dots> = unat y div 2 ^ n * 2 ^ n"
    using lt unat_less [of y] by (simp only: take_bit_nat_eq_self push_bit_eq_mult drop_bit_eq_div)
  finally show ?thesis by (simp only: and_not_mask_push)
qed

definition is_power_of_two :: "usize \<Rightarrow> bool" where
  "is_power_of_two value = (value \<noteq> 0 \<and> value AND (value - 1) = 0)"

lemma is_power_of_two_ex:
  assumes "is_power_of_two a"
  shows "\<exists>n < 64. a = 2 ^ n \<and> unat a = 2 ^ n"
proof -
  have "unat a AND (unat a - 1) = 0"
    using assms unsigned_and_eq [of a "a - 1", where ?'a = nat]
    by (simp add: is_power_of_two_def unat_minus_one)
  then obtain n where n: "unat a = 2 ^ n"
    using power_of_two_nat [of "unat a"] assms by (auto simp: is_power_of_two_def unat_eq_0)
  then have "(2 :: nat) ^ n < 2 ^ 64" using unat_less [of a] by simp
  then have lt: "n < 64" by (simp only: power_strict_increasing_iff)
  have "a = of_nat (unat a)" by simp
  then have "a = 2 ^ n" by (simp only: n of_nat_power of_nat_numeral)
  with n lt show ?thesis by blast
qed
lemma is_power_of_two_32: "is_power_of_two 32" by (simp add: is_power_of_two_def)

section \<open>Address ranges\<close>

text \<open>The addresses of \<open>sz\<close> bytes from \<open>p\<close> on.\<close>

definition span :: "usize \<Rightarrow> usize \<Rightarrow> nat set" where
  "span p sz = {unat p..<unat p + unat sz}"

lemma range_end_fits: "\<not> (n :: usize) > - 1 - p \<longleftrightarrow> unat p + unat n < 2 ^ 64"
  using unat_less [of p] by (simp add: word_less_nat_alt unat_max_minus) linarith

lemma span_disjoint_iff:
  assumes "unat p + unat m < 2 ^ 64" and "unat q + unat n < 2 ^ 64" and "m \<noteq> 0" and "n \<noteq> 0"
  shows "span p m \<inter> span q n = {} \<longleftrightarrow> \<not> (p < q + n \<and> q < p + m)"
proof -
  have pos: "0 < unat m" "0 < unat n" using assms(3,4) by (simp_all add: unat_gt_0)
  have "p < q + n \<longleftrightarrow> unat p < unat q + unat n" "q < p + m \<longleftrightarrow> unat q < unat p + unat m"
    using assms(1,2) by (simp_all add: word_less_nat_alt unat_add_small)
  moreover have "span p m \<inter> span q n = {} \<longleftrightarrow> unat q + unat n \<le> unat p \<or> unat p + unat m \<le> unat q"
  proof
    assume dis: "span p m \<inter> span q n = {}"
    show "unat q + unat n \<le> unat p \<or> unat p + unat m \<le> unat q"
    proof (rule ccontr)
      assume "\<not> ?thesis"
      then have "max (unat p) (unat q) \<in> span p m \<inter> span q n" using pos by (auto simp: span_def)
      with dis show False by blast
    qed
  qed (auto simp: span_def)
  ultimately show ?thesis by auto
qed

section \<open>Loops\<close>

text \<open>A loop whose body may throw.\<close>

fun for_each :: "'a list \<Rightarrow> ('a \<Rightarrow> 's \<Rightarrow> 's throws) \<Rightarrow> 's \<Rightarrow> 's throws" where
  "for_each [] f s = Inr s"
| "for_each (x # xs) f s = andThen (f x s) (for_each xs f)"

lemma for_each_append: "for_each (xs @ ys) f s = andThen (for_each xs f s) (for_each ys f)"
proof (induction xs arbitrary: s)
  case (Cons x xs)
  then have "for_each (xs @ ys) f = (\<lambda>s. andThen (for_each xs f s) (for_each ys f))" by blast
  then show ?case by (simp add: andThen_assoc)
qed simp

lemma for_each_concat: "for_each (concat xss) f s = for_each xss (\<lambda>xs. for_each xs f) s"
proof (induction xss arbitrary: s)
  case (Cons xs xss)
  then have "for_each (concat xss) f = for_each xss (\<lambda>xs. for_each xs f)" by blast
  then show ?case by (simp add: for_each_append)
qed simp

lemma for_each_cong [fundef_cong]:
  assumes "xs = ys" and "\<And>x s. x \<in> set ys \<Longrightarrow> f x s = g x s" and "s = t"
  shows "for_each xs f s = for_each ys g t"
proof -
  have "for_each ys f t = for_each ys g t" using assms(2)
  proof (induction ys arbitrary: t)
    case (Cons y ys)
    then have "for_each ys f = for_each ys g" by (intro ext) simp
    with Cons.prems show ?case by simp
  qed simp
  with assms show ?thesis by simp
qed

lemma for_each_map: "for_each (map h xs) f s = for_each xs (\<lambda>x. f (h x)) s"
proof (induction xs arbitrary: s)
  case (Cons x xs)
  then have "for_each (map h xs) f = for_each xs (\<lambda>x. f (h x))" by blast
  then show ?case by simp
qed simp

section \<open>Computations that keep their state when they throw\<close>

text \<open>
  Code that has changed memory before an exception leaves it changed: the result is the state with the
  outcome. \<open>reading\<close> runs code on the value of an expression that may throw, \<open>then_do\<close> is sequencing
  and \<open>effects\<close> a loop; \<open>settle\<close> forgets the state of a computation that threw.
\<close>

type_synonym 's effect = "'s \<times> unit throws"

definition reading :: "'a throws \<Rightarrow> ('a \<Rightarrow> 's \<Rightarrow> 's effect) \<Rightarrow> 's \<Rightarrow> 's effect" where
  "reading m f s = (case m of Inl e \<Rightarrow> (s, Inl e) | Inr x \<Rightarrow> f x s)"

definition then_do :: "'s effect \<Rightarrow> ('s \<Rightarrow> 's effect) \<Rightarrow> 's effect" where
  "then_do m f = (case m of (s, Inl e) \<Rightarrow> (s, Inl e) | (s, Inr _) \<Rightarrow> f s)"

fun effects :: "'a list \<Rightarrow> ('a \<Rightarrow> 's \<Rightarrow> 's effect) \<Rightarrow> 's \<Rightarrow> 's effect" where
  "effects [] f s = (s, Inr ())"
| "effects (x # xs) f s = then_do (f x s) (effects xs f)"

definition settle :: "'s effect \<Rightarrow> 's throws" where
  "settle m = (case m of (s, Inl e) \<Rightarrow> Inl e | (s, Inr _) \<Rightarrow> Inr s)"

lemma settle_outcome [simp]: "settle (s, Inl e) = Inl e" "settle (s, Inr u) = Inr s"
  by (simp_all add: settle_def)

lemma settle_Inr_iff: "settle m = Inr s \<longleftrightarrow> m = (s, Inr ())"
  by (cases m) (auto simp: settle_def split: sum.splits)

lemma settle_Inl_iff: "settle m = Inl e \<longleftrightarrow> snd m = Inl e"
  by (cases m) (auto simp: settle_def split: sum.splits)

lemma settle_reading: "settle (reading m f s) = andThen m (\<lambda>x. settle (f x s))"
  by (cases m) (simp_all add: reading_def)

lemma settle_then_do: "settle (then_do m f) = andThen (settle m) (\<lambda>s. settle (f s))"
  by (cases m) (auto simp: then_do_def settle_def split: sum.splits)

lemma settle_effects: "settle (effects xs f s) = for_each xs (\<lambda>x s. settle (f x s)) s"
proof (induction xs arbitrary: s)
  case (Cons x xs)
  then show ?case by (cases "settle (f x s)") (simp_all add: settle_then_do)
qed simp

lemma settle_if: "settle (if b then m else n) = (if b then settle m else settle n)"
  by simp

lemmas settle_simps = settle_reading settle_then_do settle_effects settle_if settle_outcome

text \<open>A loop whose body leaves the state alone.\<close>

lemma fst_reading: "(\<And>x. fst (f x s) = s) \<Longrightarrow> fst (reading m f s) = s"
  by (simp add: reading_def split: sum.split)

lemma fst_effects: "(\<And>x. fst (f x s) = s) \<Longrightarrow> fst (effects xs f s) = s"
proof (induction xs)
  case (Cons x xs)
  then have "fst (f x s) = s" "fst (effects xs f s) = s" by blast+
  then show ?case by (cases "f x s") (auto simp: then_do_def split: sum.splits)
qed simp

end
