(* ===== verification/Allocators.thy ===== *)
theory Allocators
  imports Prelude
begin

text \<open>
  The allocators of \<open>src/src/alloc.cpp\<close> over one caller-supplied buffer (bump pointer,
  best-fit free list, fixed-size slots) and the aligned storage helpers of
  \<open>src/include/iom/detail/aligned_storage.hpp\<close> that every backend's \<open>create_tensor\<close> uses.
  An operation returns the new state and a result, so that what a throwing call leaves behind is
  visible. A pointer is its address. Running out of host memory for the allocators' own
  containers is not modelled. The locale \<open>allocator\<close> is the contract of \<open>iom::Allocator\<close>.
\<close>

section \<open>The common buffer\<close>

record SingleBufferAllocatorBase =
  raw_begin :: usize
  raw_end :: usize
  begin_addr :: usize
  align :: usize

definition checked_raw_begin :: "usize \<Rightarrow> usize \<Rightarrow> usize \<Rightarrow> usize throws" where
  "checked_raw_begin buffer nbytes alignment =
     (if buffer = 0 \<and> nbytes \<noteq> 0 then Inl InvalidArgument
      else if \<not> is_power_of_two alignment then Inl InvalidArgument
      else Inr buffer)"

definition checked_raw_end :: "usize \<Rightarrow> usize \<Rightarrow> usize throws" where
  "checked_raw_end raw nbytes =
     (if nbytes > - 1 - raw then Inl OverflowError else Inr (raw + nbytes))"

definition align_up_addr :: "'a SingleBufferAllocatorBase_scheme \<Rightarrow> usize \<Rightarrow> usize throws" where
  "align_up_addr b address =
     (let mask = align b - 1 in
      if address > - 1 - mask then Inl OverflowError
      else Inr ((address + mask) AND NOT mask))"

definition make_single_buffer ::
  "usize \<Rightarrow> usize \<Rightarrow> usize \<Rightarrow> SingleBufferAllocatorBase throws" where
  "make_single_buffer buffer nbytes alignment =
     andThen (checked_raw_begin buffer nbytes alignment) (\<lambda>raw.
     andThen (checked_raw_end raw nbytes) (\<lambda>top.
     let b = \<lparr>raw_begin = raw, raw_end = top, begin_addr = 0, align = alignment\<rparr> in
     andThen (align_up_addr b raw) (\<lambda>first.
     Inr (b\<lparr>begin_addr := if first > top then top else first\<rparr>))))"

definition capacity :: "'a SingleBufferAllocatorBase_scheme \<Rightarrow> usize" where
  "capacity b = raw_end b - begin_addr b"

definition offset_of :: "'a SingleBufferAllocatorBase_scheme \<Rightarrow> usize \<Rightarrow> usize throws" where
  "offset_of b address =
     (if address < begin_addr b \<or> address > raw_end b then Inl InvalidArgument
      else Inr (address - begin_addr b))"

section \<open>The linear allocator\<close>

record LinearAllocator = SingleBufferAllocatorBase +
  current :: usize

definition make_linear :: "usize \<Rightarrow> usize \<Rightarrow> usize \<Rightarrow> LinearAllocator throws" where
  "make_linear buffer nbytes alignment =
     andThen (make_single_buffer buffer nbytes alignment) (\<lambda>b.
     Inr (SingleBufferAllocatorBase.extend b \<lparr>current = begin_addr b\<rparr>))"

definition linear_alloc :: "LinearAllocator \<Rightarrow> usize \<Rightarrow> LinearAllocator \<times> usize throws" where
  "linear_alloc s sz =
     (case align_up_addr s (current s) of
        Inl e \<Rightarrow> (s, Inl e)
      | Inr aligned \<Rightarrow>
          if aligned > raw_end s \<or> raw_end s - aligned < sz then (s, Inl BadAlloc)
          else (s\<lparr>current := if sz = 0 then aligned else aligned + sz\<rparr>, Inr aligned))"

definition linear_free :: "LinearAllocator \<Rightarrow> usize \<Rightarrow> LinearAllocator \<times> unit throws" where
  "linear_free s buffer = (s, Inr ())"

definition linear_reset :: "LinearAllocator \<Rightarrow> LinearAllocator" where
  "linear_reset s = s\<lparr>current := begin_addr s\<rparr>"

section \<open>The best-fit list allocator\<close>

record Block =
  block_offset :: usize
  block_size :: usize

record ListAllocator = SingleBufferAllocatorBase +
  free_blocks :: "Block list"
  allocated :: "usize \<rightharpoonup> usize"

definition list_reset :: "ListAllocator \<Rightarrow> ListAllocator" where
  "list_reset s =
     (let nbytes = capacity s in
      s\<lparr>free_blocks := if nbytes \<noteq> 0 then [\<lparr>block_offset = 0, block_size = nbytes\<rparr>] else [],
        allocated := Map.empty\<rparr>)"

definition make_list :: "usize \<Rightarrow> usize \<Rightarrow> usize \<Rightarrow> ListAllocator throws" where
  "make_list buffer nbytes alignment =
     andThen (make_single_buffer buffer nbytes alignment) (\<lambda>b.
     Inr (list_reset
       (SingleBufferAllocatorBase.extend b \<lparr>free_blocks = [], allocated = Map.empty\<rparr>)))"

text \<open>
  The search loop of \<open>alloc\<close> with its four \<open>best_\<close> variables; the index sentinel
  \<open>size_t\<close> maximum is \<open>None\<close>.
\<close>

record BestFit =
  best_index :: "nat option"
  best_waste :: usize
  best_addr :: usize
  best_total :: usize

fun best_fit ::
  "'a SingleBufferAllocatorBase_scheme \<Rightarrow> usize \<Rightarrow> nat \<Rightarrow> Block list \<Rightarrow> BestFit \<Rightarrow> BestFit throws" where
  "best_fit b sz i [] best = Inr best"
| "best_fit b sz i (block # blocks) best =
     (let block_addr = begin_addr b + block_offset block in
      andThen (align_up_addr b block_addr) (\<lambda>aligned.
      let padding = aligned - block_addr in
      if padding > block_size block then best_fit b sz (Suc i) blocks best
      else let available = block_size block - padding in
      if available < sz then best_fit b sz (Suc i) blocks best
      else let total = padding + sz; waste = block_size block - total in
      if waste < best_waste best
      then best_fit b sz (Suc i) blocks
             \<lparr>best_index = Some i, best_waste = waste, best_addr = aligned, best_total = total\<rparr>
      else best_fit b sz (Suc i) blocks best))"

definition list_alloc :: "ListAllocator \<Rightarrow> usize \<Rightarrow> ListAllocator \<times> usize throws" where
  "list_alloc s sz =
     (if sz = 0 then (s, Inr 0)
      else case best_fit s sz 0 (free_blocks s)
             \<lparr>best_index = None, best_waste = - 1, best_addr = 0, best_total = 0\<rparr> of
        Inl e \<Rightarrow> (s, Inl e)
      | Inr best \<Rightarrow> (case best_index best of
          None \<Rightarrow> (s, Inl BadAlloc)
        | Some index \<Rightarrow>
            let chosen = free_blocks s ! index;
                block_addr = begin_addr s + block_offset chosen;
                padding = best_addr best - block_addr;
                suffix_offset = block_offset chosen + best_total best;
                suffix_size = block_size chosen - best_total best;
                next = take index (free_blocks s)
                  @ (if padding \<noteq> 0
                     then [\<lparr>block_offset = block_offset chosen, block_size = padding\<rparr>] else [])
                  @ (if suffix_size \<noteq> 0
                     then [\<lparr>block_offset = suffix_offset, block_size = suffix_size\<rparr>] else [])
                  @ drop (index + 1) (free_blocks s)
            in (s\<lparr>free_blocks := next, allocated := (allocated s)(best_addr best \<mapsto> sz)\<rparr>,
                Inr (best_addr best))))"

definition insert_free_block :: "Block list \<Rightarrow> Block \<Rightarrow> Block list" where
  "insert_free_block blocks block =
     takeWhile (\<lambda>lhs. block_offset lhs < block_offset block) blocks
     @ block # dropWhile (\<lambda>lhs. block_offset lhs < block_offset block) blocks"

text \<open>\<open>blocks[out]\<close> is the head of the first argument list, \<open>blocks[i]\<close> the block after it.\<close>

fun coalesce :: "Block list \<Rightarrow> Block list" where
  "coalesce [] = []"
| "coalesce [block] = [block]"
| "coalesce (out # block # blocks) =
     (if block_offset out + block_size out = block_offset block
      then coalesce (out\<lparr>block_size := block_size out + block_size block\<rparr> # blocks)
      else out # coalesce (block # blocks))"

definition list_free :: "ListAllocator \<Rightarrow> usize \<Rightarrow> ListAllocator \<times> unit throws" where
  "list_free s address =
     (if address = 0 then (s, Inr ())
      else case allocated s address of
        None \<Rightarrow> (s, Inl InvalidArgument)
      | Some sz \<Rightarrow>
          let released = \<lparr>block_offset = address - begin_addr s, block_size = sz\<rparr>;
              next = coalesce (insert_free_block (free_blocks s) released)
          in (s\<lparr>free_blocks := next, allocated := (allocated s)(address := None)\<rparr>, Inr ()))"

definition free_bytes :: "ListAllocator \<Rightarrow> usize" where
  "free_bytes s = fold (\<lambda>block result. result + block_size block) (free_blocks s) 0"

section \<open>The fixed-size allocator\<close>

record FixedSizeAllocator = SingleBufferAllocatorBase +
  payload_size :: usize
  stride :: usize
  block_count :: usize
  free_indices :: "usize list"
  in_use :: "bool list"

definition align_up_payload :: "usize \<Rightarrow> usize \<Rightarrow> usize throws" where
  "align_up_payload nbytes alignment =
     (if nbytes = 0 then Inl InvalidArgument
      else if \<not> is_power_of_two alignment then Inl InvalidArgument
      else let mask = alignment - 1 in
      if nbytes > - 1 - mask then Inl OverflowError
      else Inr ((nbytes + mask) AND NOT mask))"

text \<open>The last element of \<open>free_indices_\<close>, the top of the stack, is the last of the list.\<close>

definition fixed_reset :: "FixedSizeAllocator \<Rightarrow> FixedSizeAllocator" where
  "fixed_reset s =
     s\<lparr>free_indices := map (\<lambda>i. block_count s - 1 - of_nat i) [0..<unat (block_count s)],
       in_use := replicate (length (in_use s)) False\<rparr>"

definition make_fixed :: "usize \<Rightarrow> usize \<Rightarrow> usize \<Rightarrow> usize \<Rightarrow> FixedSizeAllocator throws" where
  "make_fixed buffer nbytes alignment payload =
     andThen (make_single_buffer buffer nbytes alignment) (\<lambda>b.
     andThen (align_up_payload payload alignment) (\<lambda>st.
     let count = capacity b div st in
     Inr (fixed_reset (SingleBufferAllocatorBase.extend b
       \<lparr>payload_size = payload, stride = st, block_count = count, free_indices = [],
        in_use = replicate (unat count) False\<rparr>))))"

definition fixed_alloc :: "FixedSizeAllocator \<Rightarrow> usize \<Rightarrow> FixedSizeAllocator \<times> usize throws" where
  "fixed_alloc s sz =
     (if sz = 0 then (s, Inr 0)
      else if sz > payload_size s \<or> free_indices s = [] then (s, Inl BadAlloc)
      else let index = last (free_indices s);
               s = s\<lparr>free_indices := butlast (free_indices s)\<rparr> in
      if in_use s ! unat index then (s, Inl RuntimeError)
      else (s\<lparr>in_use := (in_use s)[unat index := True]\<rparr>, Inr (begin_addr s + index * stride s)))"

definition index_of :: "FixedSizeAllocator \<Rightarrow> usize \<Rightarrow> usize throws" where
  "index_of s address =
     (let end_addr = begin_addr s + block_count s * stride s in
      if address < begin_addr s \<or> address \<ge> end_addr then Inl InvalidArgument
      else let delta = address - begin_addr s in
      if delta mod stride s \<noteq> 0 then Inl InvalidArgument
      else Inr (delta div stride s))"

definition ptr_from_index :: "FixedSizeAllocator \<Rightarrow> usize \<Rightarrow> usize throws" where
  "ptr_from_index s index =
     (if index \<ge> block_count s then Inl OutOfRange else Inr (begin_addr s + index * stride s))"

definition fixed_free :: "FixedSizeAllocator \<Rightarrow> usize \<Rightarrow> FixedSizeAllocator \<times> unit throws" where
  "fixed_free s address =
     (if address = 0 then (s, Inr ())
      else case index_of s address of
        Inl e \<Rightarrow> (s, Inl e)
      | Inr index \<Rightarrow>
          if \<not> in_use s ! unat index then (s, Inl InvalidArgument)
          else (s\<lparr>free_indices := free_indices s @ [index],
                  in_use := (in_use s)[unat index := False]\<rparr>, Inr ()))"

definition free_count :: "FixedSizeAllocator \<Rightarrow> nat" where
  "free_count s = length (free_indices s)"

section \<open>Aligned storage\<close>

abbreviation kStorageAlignment :: usize where "kStorageAlignment \<equiv> 32"

text \<open>
  The allocator's two virtual functions and the outcome of the \<open>pre_allocate\<close> hook are
  arguments. An exception of \<open>free\<close> in the misaligned branch replaces the intended one.
\<close>

definition allocate_aligned_storage ::
  "('s \<Rightarrow> usize \<Rightarrow> 's \<times> usize throws) \<Rightarrow> ('s \<Rightarrow> usize \<Rightarrow> 's \<times> unit throws) \<Rightarrow> unit throws
     \<Rightarrow> 's \<Rightarrow> usize \<Rightarrow> 's \<times> usize throws" where
  "allocate_aligned_storage alloc free pre_allocate s nbytes =
     (case pre_allocate of
        Inl e \<Rightarrow> (s, Inl e)
      | Inr _ \<Rightarrow> (case alloc s nbytes of
          (s', Inl e) \<Rightarrow> (s', Inl e)
        | (s', Inr address) \<Rightarrow>
            if address = 0 then (s', Inl BadAlloc)
            else if address mod kStorageAlignment \<noteq> 0 then
              (case free s' address of
                 (s'', Inl e) \<Rightarrow> (s'', Inl e)
               | (s'', Inr _) \<Rightarrow> (s'', Inl RuntimeError))
            else (s', Inr address)))"

text \<open>Both \<open>catch (...)\<close> blocks swallow; the address is nulled, so nothing is returned.\<close>

definition release_aligned_storage ::
  "('s \<Rightarrow> usize \<Rightarrow> 's \<times> unit throws) \<Rightarrow> unit throws \<Rightarrow> 's \<Rightarrow> usize \<Rightarrow> 's" where
  "release_aligned_storage free pre_release s address =
     (if address = 0 then s else fst (free s address))"

section \<open>The common buffer: facts\<close>

text \<open>What every constructor establishes: a power-of-two alignment and an aligned, ordered range.\<close>

definition buffer_ok :: "'a SingleBufferAllocatorBase_scheme \<Rightarrow> bool" where
  "buffer_ok b \<longleftrightarrow> is_power_of_two (align b) \<and> begin_addr b \<le> raw_end b
     \<and> (begin_addr b = raw_end b \<or> unat (align b) dvd unat (begin_addr b))"

definition region :: "'a SingleBufferAllocatorBase_scheme \<Rightarrow> nat set" where
  "region b = {unat (begin_addr b)..<unat (raw_end b)}"

lemma unat_capacity: "buffer_ok b \<Longrightarrow> unat (capacity b) = unat (raw_end b) - unat (begin_addr b)"
  by (simp add: buffer_ok_def capacity_def unat_sub)

lemma word_not_mask_le: "\<not> (x :: usize) > - 1 - m \<longleftrightarrow> unat x + unat m < 2 ^ 64"
  using unat_less [of m] by (simp add: word_less_nat_alt unat_max_minus) linarith

lemma align_up_word:
  assumes "is_power_of_two a" and "unat (x :: usize) + unat (a - 1) < 2 ^ 64"
  shows "unat ((x + (a - 1)) AND NOT (a - 1)) = (unat x + unat (a - 1)) div unat a * unat a"
proof -
  from is_power_of_two_ex [OF assms(1)] obtain n where n: "n < 64" "a = 2 ^ n" "unat a = 2 ^ n" by blast
  have "a - 1 = mask n" by (simp add: n(2) mask_eq_exp_minus_1)
  then show ?thesis
    using unat_align_down [of "x + (a - 1)" n] unat_add_small [OF assms(2)] n(3) by simp
qed

lemma align_up_nat:
  assumes "0 < (a :: nat)"
  shows "a dvd (x + (a - 1)) div a * a" and "x \<le> (x + (a - 1)) div a * a"
    and "(x + (a - 1)) div a * a < x + a" and "a dvd x \<Longrightarrow> (x + (a - 1)) div a * a = x"
    and "\<And>y. \<lbrakk>a dvd y; x \<le> y\<rbrakk> \<Longrightarrow> (x + (a - 1)) div a * a \<le> y"
proof -
  have e: "(x + (a - 1)) div a * a + (x + (a - 1)) mod a = x + (a - 1)" by simp
  have m: "(x + (a - 1)) mod a < a" using assms by simp
  show "a dvd (x + (a - 1)) div a * a" by simp
  show 1: "x \<le> (x + (a - 1)) div a * a" using e m by linarith
  show 2: "(x + (a - 1)) div a * a < x + a" using e m assms by linarith
  show upper: "(x + (a - 1)) div a * a \<le> y" if y: "a dvd y" "x \<le> y" for y
  proof -
    obtain k where k: "y = k * a" using y(1) by (auto simp: dvd_def mult.commute)
    have "(x + (a - 1)) div a < k + 1"
      using y(2) assms unfolding k by (subst div_less_iff_less_mult) (auto simp: algebra_simps)
    then show ?thesis unfolding k by (intro mult_le_mono1) simp
  qed
  show "(x + (a - 1)) div a * a = x" if "a dvd x"
    using upper [of x] that 1 by simp
qed

lemma power_of_two_pos: "is_power_of_two a \<Longrightarrow> 0 < unat a \<and> unat (a - 1) = unat a - 1"
  by (auto simp: is_power_of_two_def unat_gt_0 unat_minus_one)

definition align_up :: "nat \<Rightarrow> nat \<Rightarrow> nat" where
  "align_up a x = (x + (a - 1)) div a * a"

lemma align_up_addr_cases:
  assumes "is_power_of_two (align b)"
  shows "align_up_addr b x =
    (if unat x + (unat (align b) - 1) < 2 ^ 64
     then Inr ((x + (align b - 1)) AND NOT (align b - 1)) else Inl OverflowError)"
proof -
  define m where "m = align b - 1"
  have "unat m = unat (align b) - 1" using power_of_two_pos [OF assms] by (simp add: m_def)
  then have "\<not> x > - 1 - m \<longleftrightarrow> unat x + (unat (align b) - 1) < 2 ^ 64"
    using word_not_mask_le [of m x] by (simp only:)
  then show ?thesis unfolding align_up_addr_def m_def [symmetric] Let_def by (cases "x > - 1 - m") simp_all
qed

lemma align_up_addr_Inr:
  assumes "is_power_of_two (align b)"
  shows "align_up_addr b x = Inr y \<longleftrightarrow>
    unat x + (unat (align b) - 1) < 2 ^ 64 \<and> unat y = align_up (unat (align b)) (unat x)"
proof (cases "unat x + (unat (align b) - 1) < 2 ^ 64")
  case True
  then have "unat ((x + (align b - 1)) AND NOT (align b - 1)) = align_up (unat (align b)) (unat x)"
    using align_up_word [OF assms, of x] power_of_two_pos [OF assms] by (simp add: align_up_def)
  then show ?thesis
    using True unfolding align_up_addr_cases [OF assms] by (auto simp: word_unat_eq_iff)
qed (simp add: align_up_addr_cases [OF assms])

lemma align_up_addr_Inl:
  assumes "is_power_of_two (align b)"
  shows "align_up_addr b x = Inl e \<longleftrightarrow> e = OverflowError \<and> 2 ^ 64 \<le> unat x + (unat (align b) - 1)"
  unfolding align_up_addr_cases [OF assms] by auto

lemmas align_up_facts = align_up_nat [folded align_up_def]

lemma make_single_buffer_ok:
  assumes "make_single_buffer buffer nbytes alignment = Inr b"
  shows "buffer_ok b \<and> raw_begin b = buffer \<and> unat (raw_end b) = unat buffer + unat nbytes
    \<and> align b = alignment \<and> region b \<subseteq> {unat buffer..<unat buffer + unat nbytes}"
proof -
  from assms obtain raw top first where raw: "checked_raw_begin buffer nbytes alignment = Inr raw"
    and top: "checked_raw_end raw nbytes = Inr top"
    and first: "align_up_addr \<lparr>raw_begin = raw, raw_end = top, begin_addr = 0, align = alignment\<rparr> raw
      = Inr first"
    and b: "b = \<lparr>raw_begin = raw, raw_end = top, begin_addr = (if first > top then top else first),
      align = alignment\<rparr>"
    by (auto simp: make_single_buffer_def exn_simps Let_def)
  from raw have rb: "raw = buffer" and p2: "is_power_of_two alignment"
    by (auto simp: checked_raw_begin_def split: if_splits)
  have "\<not> nbytes > - 1 - raw" "top = raw + nbytes"
    using top by (auto simp: checked_raw_end_def split: if_splits)
  then have t: "unat top = unat raw + unat nbytes"
    using unat_add_small [of raw nbytes] by (simp add: word_not_mask_le add.commute)
  have f: "unat first = align_up (unat alignment) (unat raw)"
    using first p2 by (simp add: align_up_addr_Inr)
  have "unat alignment dvd unat first" "unat raw \<le> unat first"
    using align_up_facts(1,2) power_of_two_pos [OF p2] unfolding f by blast+
  with rb p2 t b show ?thesis
    by (auto simp: buffer_ok_def region_def not_less word_less_nat_alt word_le_nat_alt)
qed

section \<open>Free lists as byte sets\<close>

definition block_bytes :: "Block \<Rightarrow> nat set" where
  "block_bytes b = {unat (block_offset b)..<unat (block_offset b) + unat (block_size b)}"

definition bytes_of :: "Block list \<Rightarrow> nat set" where
  "bytes_of bs = (\<Union>b \<in> set bs. block_bytes b)"

lemma bytes_of_simps [simp]:
  "bytes_of [] = {}" "bytes_of (b # bs) = block_bytes b \<union> bytes_of bs"
  "bytes_of (xs @ ys) = bytes_of xs \<union> bytes_of ys"
  by (auto simp: bytes_of_def)

text \<open>
  Positive blocks in increasing order between two bounds: with gap \<open>0\<close> neighbours may touch,
  with gap \<open>1\<close> they may not, as after \<open>coalesce\<close>.
\<close>

fun ordered :: "nat \<Rightarrow> nat \<Rightarrow> nat \<Rightarrow> Block list \<Rightarrow> bool" where
  "ordered gap lo hi [] \<longleftrightarrow> True"
| "ordered gap lo hi (b # bs) \<longleftrightarrow> lo \<le> unat (block_offset b) \<and> 0 < unat (block_size b)
     \<and> unat (block_offset b) + unat (block_size b) \<le> hi
     \<and> ordered gap (unat (block_offset b) + unat (block_size b) + gap) hi bs"

lemma ordered_lower: "ordered gap lo hi bs \<Longrightarrow> lo' \<le> lo \<Longrightarrow> ordered gap lo' hi bs"
  by (cases bs) auto

lemma ordered_gap: "ordered gap lo hi bs \<Longrightarrow> ordered 0 lo hi bs"
proof (induction bs arbitrary: lo)
  case (Cons b bs)
  then show ?case using ordered_lower by fastforce
qed simp

lemma ordered_bytes: "ordered gap lo hi bs \<Longrightarrow> bytes_of bs \<subseteq> {lo..<hi}"
proof (induction bs arbitrary: lo)
  case (Cons b bs)
  then have "bytes_of bs \<subseteq> {unat (block_offset b) + unat (block_size b) + gap..<hi}" by simp
  with Cons.prems show ?case by (auto simp: block_bytes_def)
qed simp

lemma finite_bytes [simp]: "finite (bytes_of bs)"
  by (simp add: bytes_of_def block_bytes_def)

lemma ordered_nth:
  "ordered gap lo hi bs \<Longrightarrow> k < length bs \<Longrightarrow>
   lo \<le> unat (block_offset (bs ! k)) \<and> 0 < unat (block_size (bs ! k))
   \<and> unat (block_offset (bs ! k)) + unat (block_size (bs ! k)) \<le> hi"
proof (induction bs arbitrary: lo k)
  case (Cons b bs)
  show ?case
  proof (cases k)
    case (Suc j)
    then show ?thesis using Cons.IH [of _ j] Cons.prems by fastforce
  qed (use Cons.prems in simp)
qed simp

text \<open>A coalesced list is determined by its bytes.\<close>

lemma ordered_head_bytes:
  assumes "ordered 1 lo hi (b # bs)"
  shows "unat (block_offset b) = Min (bytes_of (b # bs))"
    and "unat (block_offset b) + unat (block_size b) = (LEAST n. Min (bytes_of (b # bs)) \<le> n \<and> n \<notin> bytes_of (b # bs))"
    and "bytes_of bs = bytes_of (b # bs) - {..unat (block_offset b) + unat (block_size b)}"
proof -
  let ?e = "unat (block_offset b) + unat (block_size b)"
  have sub: "bytes_of bs \<subseteq> {?e + 1..<hi}" and pos: "0 < unat (block_size b)"
    using assms ordered_bytes [of 1 "?e + 1" hi bs] by simp_all
  show m: "unat (block_offset b) = Min (bytes_of (b # bs))"
    using sub pos by (intro Min_eqI [symmetric]) (auto simp: block_bytes_def)
  show "?e = (LEAST n. Min (bytes_of (b # bs)) \<le> n \<and> n \<notin> bytes_of (b # bs))"
    using sub unfolding m [symmetric]
    by (intro Least_equality [symmetric]) (auto simp: block_bytes_def not_less)
  show "bytes_of bs = bytes_of (b # bs) - {..?e}"
    using sub by (auto simp: block_bytes_def)
qed

lemma ordered_unique:
  "ordered 1 lo hi xs \<Longrightarrow> ordered 1 lo' hi' ys \<Longrightarrow> bytes_of xs = bytes_of ys \<Longrightarrow> xs = ys"
proof (induction xs arbitrary: lo lo' ys)
  case Nil
  then show ?case by (cases ys) (auto simp: block_bytes_def)
next
  case (Cons x xs)
  have "bytes_of (x # xs) \<noteq> {}" using Cons.prems(1) by (auto simp: block_bytes_def)
  then obtain y ys' where ys: "ys = y # ys'" using Cons.prems(3) by (cases ys) auto
  note hx = ordered_head_bytes [OF Cons.prems(1)]
  note hy = ordered_head_bytes [OF Cons.prems(2) [unfolded ys]]
  have o: "unat (block_offset x) = unat (block_offset y)"
    using hx(1) hy(1) Cons.prems(3) ys by simp
  moreover have e: "unat (block_offset x) + unat (block_size x) = unat (block_offset y) + unat (block_size y)"
    using hx(2) hy(2) Cons.prems(3) unfolding ys by metis
  ultimately have "block_offset x = block_offset y" "block_size x = block_size y"
    by (simp_all add: word_unat_eq_iff)
  then have xy: "x = y" by simp
  have "bytes_of xs = bytes_of ys'"
    using hx(3) hy(3) Cons.prems(3) xy unfolding ys by simp
  then have "xs = ys'"
    using Cons.IH Cons.prems(1,2) unfolding ys by (meson ordered.simps(2))
  with xy ys show ?case by simp
qed

section \<open>The list allocator: best fit\<close>

text \<open>
  What a block offers a request: the bytes skipped to align its start, whether the request fits
  after them, and the bytes left over.
\<close>

definition aligned_start :: "'a SingleBufferAllocatorBase_scheme \<Rightarrow> Block \<Rightarrow> nat" where
  "aligned_start s block = align_up (unat (align s)) (unat (begin_addr s) + unat (block_offset block))"

definition pad_of :: "'a SingleBufferAllocatorBase_scheme \<Rightarrow> Block \<Rightarrow> nat" where
  "pad_of s block = aligned_start s block - (unat (begin_addr s) + unat (block_offset block))"

definition fits :: "'a SingleBufferAllocatorBase_scheme \<Rightarrow> usize \<Rightarrow> Block \<Rightarrow> bool" where
  "fits s sz block \<longleftrightarrow> pad_of s block + unat sz \<le> unat (block_size block)"

definition waste_of :: "'a SingleBufferAllocatorBase_scheme \<Rightarrow> usize \<Rightarrow> Block \<Rightarrow> nat" where
  "waste_of s sz block = unat (block_size block) - (pad_of s block + unat sz)"

text \<open>The buffer does not end within one alignment unit of the end of the address space.\<close>

definition below_top :: "'a SingleBufferAllocatorBase_scheme \<Rightarrow> bool" where
  "below_top s \<longleftrightarrow> unat (raw_end s) + unat (align s) \<le> 2 ^ 64"

definition in_buffer :: "'a SingleBufferAllocatorBase_scheme \<Rightarrow> Block \<Rightarrow> bool" where
  "in_buffer s block \<longleftrightarrow>
     unat (begin_addr s) + unat (block_offset block) + unat (block_size block) \<le> unat (raw_end s)"

lemma unat_sub_le: "unat b \<le> unat a \<Longrightarrow> unat (a - b :: usize) = unat a - unat b"
  by (simp add: unat_sub word_le_nat_alt)

lemma block_address:
  assumes "in_buffer s block"
  shows "unat (begin_addr s + block_offset block) = unat (begin_addr s) + unat (block_offset block)"
  using assms unat_less [of "raw_end s"] by (intro unat_add_small) (simp add: in_buffer_def)

lemma best_fit_block:
  assumes ok: "buffer_ok s" and top: "below_top s" and block: "in_buffer s block"
  obtains aligned where "align_up_addr s (begin_addr s + block_offset block) = Inr aligned"
    and "unat aligned = aligned_start s block"
    and "unat (aligned - (begin_addr s + block_offset block)) = pad_of s block"
    and "unat (begin_addr s) + unat (block_offset block) \<le> aligned_start s block"
proof -
  let ?x = "begin_addr s + block_offset block"
  have p2: "is_power_of_two (align s)" using ok by (simp add: buffer_ok_def)
  note a0 = power_of_two_pos [OF p2]
  have x: "unat ?x = unat (begin_addr s) + unat (block_offset block)" "unat ?x \<le> unat (raw_end s)"
    using block_address [OF block] block by (simp_all add: in_buffer_def)
  have lt: "unat ?x + (unat (align s) - 1) < 2 ^ 64"
    using x(2) top a0 unfolding below_top_def by linarith
  obtain aligned where al: "align_up_addr s ?x = Inr aligned"
    using align_up_addr_cases [OF p2, of ?x] lt by simp
  then have ua: "unat aligned = aligned_start s block"
    using align_up_addr_Inr [OF p2] x(1) by (simp add: aligned_start_def)
  have ge: "unat (begin_addr s) + unat (block_offset block) \<le> aligned_start s block"
    using align_up_facts(2) a0 by (simp add: aligned_start_def)
  then have "unat (aligned - ?x) = pad_of s block"
    using ua x(1) by (simp add: unat_sub_le pad_of_def)
  with al ua ge show thesis by (intro that)
qed

definition best_for :: "'a SingleBufferAllocatorBase_scheme \<Rightarrow> usize \<Rightarrow> Block list \<Rightarrow> BestFit \<Rightarrow> bool" where
  "best_for s sz seen best \<longleftrightarrow> (case best_index best of
       None \<Rightarrow> best_waste best = - 1 \<and> (\<forall>b \<in> set seen. \<not> fits s sz b)
     | Some k \<Rightarrow> k < length seen \<and> fits s sz (seen ! k)
         \<and> unat (best_addr best) = aligned_start s (seen ! k)
         \<and> unat (best_total best) = pad_of s (seen ! k) + unat sz
         \<and> unat (best_waste best) = waste_of s sz (seen ! k)
         \<and> (\<forall>b \<in> set seen. fits s sz b \<longrightarrow> waste_of s sz (seen ! k) \<le> waste_of s sz b))"

lemma best_for_skip:
  assumes "best_for s sz seen best"
    and "\<not> fits s sz b \<or> unat (best_waste best) \<le> waste_of s sz b \<and> best_index best \<noteq> None"
  shows "best_for s sz (seen @ [b]) best"
  using assms by (auto simp: best_for_def nth_append split: option.splits)

lemma best_for_take:
  assumes "best_for s sz seen best" and "fits s sz b" and "waste_of s sz b < unat (best_waste best)"
    and "unat a = aligned_start s b" and "unat t = pad_of s b + unat sz" and "unat w = waste_of s sz b"
  shows "best_for s sz (seen @ [b])
    \<lparr>best_index = Some (length seen), best_waste = w, best_addr = a, best_total = t\<rparr>"
  using assms by (auto simp: best_for_def nth_append split: option.splits)

lemma best_fit_finds:
  assumes ok: "buffer_ok s" and top: "below_top s" and sz: "sz \<noteq> 0"
  shows "\<forall>b \<in> set blocks. in_buffer s b \<Longrightarrow> best_for s sz seen best \<Longrightarrow>
    \<exists>best'. best_fit s sz (length seen) blocks best = Inr best' \<and> best_for s sz (seen @ blocks) best'"
proof (induction blocks arbitrary: seen best)
  case (Cons block blocks)
  have rest: "\<forall>b \<in> set blocks. in_buffer s b" and block: "in_buffer s block" using Cons.prems(1) by simp_all
  have step: "\<exists>best''. best_fit s sz (Suc (length seen)) blocks best' = Inr best''
      \<and> best_for s sz (seen @ block # blocks) best''" if "best_for s sz (seen @ [block]) best'" for best'
    using Cons.IH [OF rest that] by simp
  obtain aligned where al: "align_up_addr s (begin_addr s + block_offset block) = Inr aligned"
    and ua: "unat aligned = aligned_start s block"
    and pad: "unat (aligned - (begin_addr s + block_offset block)) = pad_of s block"
    using best_fit_block [OF ok top block] by blast
  define p where "p = aligned - (begin_addr s + block_offset block)"
  have p: "unat p = pad_of s block" using pad by (simp add: p_def)
  have eq: "best_fit s sz (length seen) (block # blocks) best =
     (if p > block_size block then best_fit s sz (Suc (length seen)) blocks best
      else if block_size block - p < sz then best_fit s sz (Suc (length seen)) blocks best
      else if block_size block - (p + sz) < best_waste best
      then best_fit s sz (Suc (length seen)) blocks
        \<lparr>best_index = Some (length seen), best_waste = block_size block - (p + sz),
         best_addr = aligned, best_total = p + sz\<rparr>
      else best_fit s sz (Suc (length seen)) blocks best)"
    by (simp add: al Let_def p_def)
  show ?case
  proof (cases "fits s sz block")
    case False
    have "unat (block_size block - p) < unat sz" if "unat p \<le> unat (block_size block)"
      using False that unfolding unat_sub_le [OF that] fits_def p by linarith
    then have "p > block_size block \<or> block_size block - p < sz"
      unfolding word_less_nat_alt by linarith
    then have "best_fit s sz (length seen) (block # blocks) best
        = best_fit s sz (Suc (length seen)) blocks best" unfolding eq by auto
    then show ?thesis using step [OF best_for_skip [OF Cons.prems(2)]] False by simp
  next
    case True
    then have le: "unat p \<le> unat (block_size block)" "unat p + unat sz \<le> unat (block_size block)"
      by (simp_all add: fits_def p)
    have t: "unat (p + sz) = pad_of s block + unat sz"
      using le(2) unat_less [of "block_size block"] unfolding p [symmetric]
      by (intro unat_add_small) linarith
    have w: "unat (block_size block - (p + sz)) = waste_of s sz block"
      using le(2) p t by (simp add: unat_sub_le waste_of_def)
    have no: "\<not> p > block_size block" "\<not> block_size block - p < sz"
      using le by (simp_all add: word_less_nat_alt unat_sub_le)
    show ?thesis
    proof (cases "block_size block - (p + sz) < best_waste best")
      case less: True
      then have "waste_of s sz block < unat (best_waste best)" by (simp add: word_less_nat_alt w)
      note take = best_for_take [OF Cons.prems(2) True this ua t w]
      show ?thesis using step [OF take] less no unfolding eq by simp
    next
      case False
      then have ge: "unat (best_waste best) \<le> waste_of s sz block" by (simp add: word_less_nat_alt w)
      have "0 < unat sz" using sz by (simp add: unat_gt_0)
      then have "waste_of s sz block < 2 ^ 64 - 1"
        using unat_less [of "block_size block"] le(2) unfolding waste_of_def by linarith
      then have "best_waste best \<noteq> - 1" using ge by (auto simp: unat_max)
      then have "best_index best \<noteq> None"
        using Cons.prems(2) by (auto simp: best_for_def split: option.splits)
      then show ?thesis
        using step [OF best_for_skip [OF Cons.prems(2)]] ge False no unfolding eq by simp
    qed
  qed
qed simp

section \<open>The list allocator: splitting and coalescing\<close>

lemma ordered_append:
  "ordered gap lo hi (xs @ ys) \<longleftrightarrow> ordered gap lo hi xs
     \<and> ordered gap (if xs = [] then lo else unat (block_offset (last xs)) + unat (block_size (last xs)) + gap) hi ys"
  by (induction xs arbitrary: lo) auto

lemma ordered_split:
  assumes "ordered 1 lo hi (xs @ b # ys)" and "0 < n"
    and "unat (block_offset p) = unat (block_offset b)" "unat (block_size p) = pad"
    and "unat (block_offset q) = unat (block_offset b) + pad + n"
    and "pad + n + unat (block_size q) = unat (block_size b)"
  shows "ordered 1 lo hi (xs @ (if pad \<noteq> 0 then [p] else []) @ (if unat (block_size q) \<noteq> 0 then [q] else []) @ ys)"
    and "bytes_of (xs @ (if pad \<noteq> 0 then [p] else []) @ (if unat (block_size q) \<noteq> 0 then [q] else []) @ ys)
      = bytes_of (xs @ b # ys)
        - {unat (block_offset b) + pad..<unat (block_offset b) + pad + n}"
proof -
  let ?off = "unat (block_offset b)" and ?e = "unat (block_offset b) + unat (block_size b)"
  define lo' where "lo' = (if xs = [] then lo else unat (block_offset (last xs)) + unat (block_size (last xs)) + 1)"
  have xs: "ordered 1 lo hi xs" and b: "lo' \<le> ?off" "?e \<le> hi" and ys: "ordered 1 (?e + 1) hi ys"
    using assms(1) unfolding ordered_append lo'_def [symmetric] by simp_all
  have "ordered 1 lo' hi ((if pad \<noteq> 0 then [p] else []) @ (if unat (block_size q) \<noteq> 0 then [q] else []) @ ys)"
    using assms(2-) b ys ordered_lower [OF ys] by auto
  then show "ordered 1 lo hi (xs @ (if pad \<noteq> 0 then [p] else []) @ (if unat (block_size q) \<noteq> 0 then [q] else []) @ ys)"
    unfolding ordered_append [of 1 lo hi xs] lo'_def [symmetric] using xs by simp
  have "bytes_of xs \<subseteq> {..<?off}"
  proof (cases "xs = []")
    case False
    have "bytes_of xs \<subseteq> {..<unat (block_offset (last xs)) + unat (block_size (last xs))}"
      using xs
    proof (induction xs arbitrary: lo)
      case (Cons x xs)
      show ?case
      proof (cases "xs = []")
        case False
        then have l: "last xs = xs ! (length xs - 1)" "length xs - 1 < length xs" by (simp_all add: last_conv_nth)
        have "ordered 1 (unat (block_offset x) + unat (block_size x) + 1) hi xs" using Cons.prems by simp
        note this ordered_nth [OF this l(2), folded l(1)]
        with Cons.IH False show ?thesis by (fastforce simp: block_bytes_def)
      qed (auto simp: block_bytes_def)
    qed simp
    with False b(1) show ?thesis by (auto simp: lo'_def)
  qed simp
  moreover have "bytes_of ys \<subseteq> {?e + 1..<hi}" using ys by (rule ordered_bytes)
  ultimately show "bytes_of (xs @ (if pad \<noteq> 0 then [p] else []) @ (if unat (block_size q) \<noteq> 0 then [q] else []) @ ys)
      = bytes_of (xs @ b # ys) - {?off + pad..<?off + pad + n}"
    using assms(2-) by (auto simp: block_bytes_def subset_iff)
qed

lemma insert_free_block_Cons:
  "insert_free_block (b # bs) x =
     (if block_offset b < block_offset x then b # insert_free_block bs x else x # b # bs)"
  by (simp add: insert_free_block_def)

lemma insert_ordered:
  assumes "ordered 0 lo hi bs" and "0 < unat (block_size x)" and "lo \<le> unat (block_offset x)"
    and "unat (block_offset x) + unat (block_size x) \<le> hi" and "block_bytes x \<inter> bytes_of bs = {}"
  shows "ordered 0 lo hi (insert_free_block bs x)
    \<and> bytes_of (insert_free_block bs x) = block_bytes x \<union> bytes_of bs"
  using assms
proof (induction bs arbitrary: lo)
  case Nil
  then show ?case by (simp add: insert_free_block_def)
next
  case (Cons b bs)
  let ?eb = "unat (block_offset b) + unat (block_size b)"
  let ?ex = "unat (block_offset x) + unat (block_size x)"
  have disj: "block_bytes x \<inter> block_bytes b = {}" "block_bytes x \<inter> bytes_of bs = {}"
    using Cons.prems(5) by auto
  have bpos: "0 < unat (block_size b)" using Cons.prems(1) by simp
  show ?case
  proof (cases "block_offset b < block_offset x")
    case True
    then have lt: "unat (block_offset b) < unat (block_offset x)" by (simp add: word_less_nat_alt)
    have "?eb \<le> unat (block_offset x)"
    proof (rule ccontr)
      assume "\<not> ?thesis"
      then have "unat (block_offset x) \<in> block_bytes x \<inter> block_bytes b"
        using lt Cons.prems(2) by (simp add: block_bytes_def)
      with disj(1) show False by blast
    qed
    then show ?thesis
      using Cons.IH [of ?eb] Cons.prems disj(2) True by (auto simp: insert_free_block_Cons)
  next
    case False
    then have le: "unat (block_offset x) \<le> unat (block_offset b)" by (simp add: word_less_nat_alt)
    have "?ex \<le> unat (block_offset b)"
    proof (rule ccontr)
      assume "\<not> ?thesis"
      then have "unat (block_offset b) \<in> block_bytes x \<inter> block_bytes b"
        using le bpos by (simp add: block_bytes_def)
      with disj(1) show False by blast
    qed
    then show ?thesis using Cons.prems False by (simp add: insert_free_block_Cons)
  qed
qed

lemma coalesce_ordered:
  assumes "hi < 2 ^ 64"
  shows "ordered 0 lo hi bs \<Longrightarrow> ordered 1 lo hi (coalesce bs) \<and> bytes_of (coalesce bs) = bytes_of bs"
proof (induction bs arbitrary: lo rule: coalesce.induct)
  case (3 out block blocks)
  let ?eo = "unat (block_offset out) + unat (block_size out)"
  have o: "lo \<le> unat (block_offset out)" "0 < unat (block_size out)" "?eo \<le> hi"
    and b: "?eo \<le> unat (block_offset block)" "0 < unat (block_size block)"
      "unat (block_offset block) + unat (block_size block) \<le> hi"
    and rest: "ordered 0 (unat (block_offset block) + unat (block_size block)) hi blocks"
    using "3.prems" by simp_all
  have u: "unat (block_offset out + block_size out) = ?eo"
    using o(3) assms by (intro unat_add_small) linarith
  show ?case
  proof (cases "block_offset out + block_size out = block_offset block")
    case True
    then have adj: "unat (block_offset block) = ?eo" using u by simp
    have us: "unat (block_size out + block_size block) = unat (block_size out) + unat (block_size block)"
      using adj b(3) assms by (intro unat_add_small) linarith
    let ?m = "out\<lparr>block_size := block_size out + block_size block\<rparr>"
    have "ordered 0 lo hi (?m # blocks)"
      using o(1,2) b rest adj us by (simp add: add.assoc)
    note IH = "3.IH"(1) [OF True this]
    moreover have "block_bytes ?m = block_bytes out \<union> block_bytes block"
      using adj us o(2) b(2) by (auto simp: block_bytes_def)
    ultimately show ?thesis using True by (simp add: Un_assoc)
  next
    case False
    then have "unat (block_offset block) \<noteq> ?eo" using u by (metis word_unat_eq_iff)
    then have "ordered 0 (?eo + 1) hi (block # blocks)" using b rest by simp
    with "3.IH"(2) [OF False this] False o show ?thesis by simp
  qed
qed auto

section \<open>The allocator contract\<close>

text \<open>
  The contract of \<open>alloc\<close> and \<open>free\<close> over an invariant: \<open>used\<close> are the
  bytes that may be in a client's hands, \<open>owned s p\<close> those that freeing \<open>p\<close> may give back.
\<close>

text \<open>
  A client that holds aligned storages and releases only those it holds, as the backends do with
  the tensors they own: the allocator's state and the list of live storages.
\<close>

inductive storage_reach ::
  "('s \<Rightarrow> usize \<Rightarrow> 's \<times> usize throws) \<Rightarrow> ('s \<Rightarrow> usize \<Rightarrow> 's \<times> unit throws) \<Rightarrow> 's
     \<Rightarrow> 's \<Rightarrow> (usize \<times> usize) list \<Rightarrow> bool"
  for alloc free init where
  start: "storage_reach alloc free init init []"
| allocate: "\<lbrakk>storage_reach alloc free init s live; nbytes \<noteq> 0;
      allocate_aligned_storage alloc free pre s nbytes = (s', Inr p)\<rbrakk>
    \<Longrightarrow> storage_reach alloc free init s' ((p, nbytes) # live)"
| refuse: "\<lbrakk>storage_reach alloc free init s live; nbytes \<noteq> 0;
      allocate_aligned_storage alloc free pre s nbytes = (s', Inl e)\<rbrakk>
    \<Longrightarrow> storage_reach alloc free init s' live"
| release: "\<lbrakk>storage_reach alloc free init s (xs @ (p, nbytes) # ys);
      release_aligned_storage free pre' s p = s'\<rbrakk>
    \<Longrightarrow> storage_reach alloc free init s' (xs @ ys)"

definition storages_ok :: "nat set \<Rightarrow> (usize \<times> usize) list \<Rightarrow> bool" where
  "storages_ok area live \<longleftrightarrow> (\<forall>(p, n) \<in> set live. p \<noteq> 0 \<and> n \<noteq> 0 \<and> p mod kStorageAlignment = 0
       \<and> span p n \<subseteq> area)
     \<and> sorted_wrt (\<lambda>(p, n) (q, m). span p n \<inter> span q m = {}) live"

locale allocator =
  fixes alloc :: "'s \<Rightarrow> usize \<Rightarrow> 's \<times> usize throws"
    and free :: "'s \<Rightarrow> usize \<Rightarrow> 's \<times> unit throws"
    and inv :: "'s \<Rightarrow> bool" and area :: "'s \<Rightarrow> nat set"
    and used :: "'s \<Rightarrow> nat set" and owned :: "'s \<Rightarrow> usize \<Rightarrow> nat set"
  assumes owned_used: "inv s \<Longrightarrow> owned s p \<subseteq> used s"
    and alloc_ok: "\<lbrakk>inv s; sz \<noteq> 0; alloc s sz = (s', Inr p)\<rbrakk> \<Longrightarrow>
      inv s' \<and> area s' = area s \<and> span p sz \<subseteq> area s \<and> span p sz \<inter> used s = {}
      \<and> used s \<union> span p sz \<subseteq> used s' \<and> owned s' p \<inter> used s = {}
      \<and> (\<forall>q. q \<noteq> p \<longrightarrow> owned s' q = owned s q)"
    and alloc_fail: "\<lbrakk>inv s; sz \<noteq> 0; alloc s sz = (s', Inl e)\<rbrakk> \<Longrightarrow> s' = s"
    and free_any: "\<lbrakk>inv s; free s p = (s', r)\<rbrakk> \<Longrightarrow>
      inv s' \<and> area s' = area s \<and> used s - owned s p \<subseteq> used s' \<and> owned s' p \<subseteq> owned s p
      \<and> (\<forall>q. q \<noteq> p \<longrightarrow> owned s' q = owned s q)"
begin

definition client_ok :: "'s \<Rightarrow> 's \<Rightarrow> (usize \<times> usize) list \<Rightarrow> bool" where
  "client_ok init s live \<longleftrightarrow> inv s \<and> area s = area init \<and> storages_ok (area init) live
     \<and> (\<forall>p n. (p, n) \<in> set live \<longrightarrow> span p n \<subseteq> used s)
     \<and> (\<forall>p n q m. (p, n) \<in> set live \<longrightarrow> (q, m) \<in> set live \<longrightarrow> p \<noteq> q \<longrightarrow> owned s p \<inter> span q m = {})"

lemma span_nonempty: "n \<noteq> 0 \<Longrightarrow> unat p \<in> span p n"
  by (simp add: span_def unat_gt_0)

lemma storages_nonzero: "storages_ok a live \<Longrightarrow> (p, n) \<in> set live \<Longrightarrow> n \<noteq> 0 \<and> p \<noteq> 0"
  by (auto simp: storages_ok_def)

lemma client_other:
  assumes ok: "client_ok init s live" and inv': "inv s'" and area: "area s' = area s"
    and used: "\<And>q m. (q, m) \<in> set live \<Longrightarrow> span q m \<subseteq> used s'"
    and owned: "\<And>q m. (q, m) \<in> set live \<Longrightarrow> owned s' q = owned s q"
  shows "client_ok init s' live"
  unfolding client_ok_def
proof (intro conjI allI impI)
  show "inv s'" by (rule inv')
  show "area s' = area init" "storages_ok (area init) live" using ok area by (simp_all add: client_ok_def)
  show "span p n \<subseteq> used s'" if "(p, n) \<in> set live" for p n using used that .
  show "owned s' p \<inter> span q m = {}" if "(p, n) \<in> set live" "(q, m) \<in> set live" "p \<noteq> q" for p n q m
    using owned [OF that(1)] ok that unfolding client_ok_def by blast
qed

lemma fresh_pointer:
  assumes "client_ok init s live" and "n \<noteq> 0" and "span p n \<inter> used s = {}" and "(q, m) \<in> set live"
  shows "q \<noteq> p"
proof
  assume "q = p"
  have "m \<noteq> 0" using assms(1,4) storages_nonzero unfolding client_ok_def by blast
  then have "unat q \<in> span q m" by (rule span_nonempty)
  moreover have "span q m \<subseteq> used s" using assms(1,4) unfolding client_ok_def by blast
  ultimately show False using assms(3) span_nonempty [OF assms(2), of p] \<open>q = p\<close> by blast
qed

lemma client_grow:
  assumes ok: "client_ok init s live" and n: "n \<noteq> 0" and got: "alloc s n = (s', Inr p)"
  shows "client_ok init s' live" and "p \<noteq> 0 \<Longrightarrow> p mod kStorageAlignment = 0 \<Longrightarrow> client_ok init s' ((p, n) # live)"
proof -
  have inv: "inv s" and area: "area s = area init" and st: "storages_ok (area init) live"
    and sp: "\<And>q m. (q, m) \<in> set live \<Longrightarrow> span q m \<subseteq> used s"
    using ok unfolding client_ok_def by blast+
  note a = alloc_ok [OF inv n got]
  have fresh: "q \<noteq> p" if "(q, m) \<in> set live" for q m using fresh_pointer [OF ok n _ that] a by blast
  have keep: "owned s' q = owned s q" if "(q, m) \<in> set live" for q m using a fresh [OF that] by blast
  have sp': "span q m \<subseteq> used s'" if "(q, m) \<in> set live" for q m using a sp [OF that] by blast
  have inv': "inv s'" and area': "area s' = area s" using a by blast+
  show live': "client_ok init s' live" using client_other [OF ok inv' area' sp' keep] .
  assume p: "p \<noteq> 0" "p mod kStorageAlignment = 0"
  have dis: "span p n \<inter> span q m = {}" if "(q, m) \<in> set live" for q m
    using a sp [OF that] by blast
  have o1: "owned s' p \<inter> span q m = {}" if "(q, m) \<in> set live" for q m using a sp [OF that] by blast
  have o2: "owned s' q \<inter> span p n = {}" if "(q, m) \<in> set live" for q m
    using a keep [OF that] owned_used [OF inv, of q] by blast
  have spn: "span p n \<subseteq> used s'" "span p n \<subseteq> area init" using a area by auto
  have "storages_ok (area init) ((p, n) # live)"
    using st dis p n spn(2) by (auto simp: storages_ok_def)
  then show "client_ok init s' ((p, n) # live)"
    using live' o1 o2 spn(1) unfolding client_ok_def by auto
qed

lemma client_drop:
  assumes ok: "client_ok init s (xs @ (p, n) # ys)" and free: "free s p = (s', r)"
  shows "client_ok init s' (xs @ ys)"
proof -
  let ?live = "xs @ (p, n) # ys"
  have inv: "inv s" and area: "area s = area init" and st: "storages_ok (area init) ?live"
    and sp: "\<And>q m. (q, m) \<in> set ?live \<Longrightarrow> span q m \<subseteq> used s"
    and ow: "\<And>q m r k. (q, m) \<in> set ?live \<Longrightarrow> (r, k) \<in> set ?live \<Longrightarrow> q \<noteq> r \<Longrightarrow> owned s q \<inter> span r k = {}"
    using ok unfolding client_ok_def by blast+
  note f = free_any [OF inv free]
  have st': "storages_ok (area init) (xs @ ys)"
    using st by (auto simp: storages_ok_def sorted_wrt_append)
  have dis: "span p n \<inter> span q m = {}" if "(q, m) \<in> set (xs @ ys)" for q m
    using st that by (auto simp: storages_ok_def sorted_wrt_append)
  have pn: "(p, n) \<in> set ?live" and sub: "set (xs @ ys) \<subseteq> set ?live" by auto
  have other: "q \<noteq> p" if "(q, m) \<in> set (xs @ ys)" for q m
  proof
    assume "q = p"
    have "m \<noteq> 0" "n \<noteq> 0" using storages_nonzero [OF st] that pn sub by blast+
    then show False using dis [OF that] span_nonempty \<open>q = p\<close> by blast
  qed
  have small: "client_ok init s (xs @ ys)"
    using inv area st' sp ow sub unfolding client_ok_def by blast
  have inv': "inv s'" and area': "area s' = area s" using f by blast+
  have "span q m \<subseteq> used s'" if "(q, m) \<in> set (xs @ ys)" for q m
    using f sp [of q m] ow [OF pn, of q m] other [OF that] that sub by blast
  moreover have "owned s' q = owned s q" if "(q, m) \<in> set (xs @ ys)" for q m
    using f other [OF that] by blast
  ultimately show ?thesis by (rule client_other [OF small inv' area'])
qed

lemma client_free_other:
  assumes ok: "client_ok init s live"
    and dis: "\<And>q m. (q, m) \<in> set live \<Longrightarrow> owned s p \<inter> span q m = {} \<and> q \<noteq> p"
    and free: "free s p = (s', r)"
  shows "client_ok init s' live"
proof -
  have inv: "inv s" and sp: "\<And>q m. (q, m) \<in> set live \<Longrightarrow> span q m \<subseteq> used s"
    using ok unfolding client_ok_def by blast+
  note f = free_any [OF inv free]
  have inv': "inv s'" and area': "area s' = area s" using f by blast+
  have "span q m \<subseteq> used s'" if "(q, m) \<in> set live" for q m using f sp [OF that] dis [OF that] by blast
  moreover have "owned s' q = owned s q" if "(q, m) \<in> set live" for q m using f dis [OF that] by blast
  ultimately show ?thesis by (rule client_other [OF ok inv' area'])
qed

lemma client_allocate:
  assumes ok: "client_ok init s live" and n: "n \<noteq> 0"
    and run: "allocate_aligned_storage alloc free pre s n = (s', r)"
  shows "case r of Inr p \<Rightarrow> client_ok init s' ((p, n) # live) | Inl e \<Rightarrow> client_ok init s' live"
proof (cases pre)
  case (Inl e)
  then show ?thesis using run ok by (auto simp: allocate_aligned_storage_def)
next
  case (Inr u)
  have inv: "inv s" using ok by (simp add: client_ok_def)
  obtain t q where t: "alloc s n = (t, q)" by (cases "alloc s n")
  show ?thesis
  proof (cases q)
    case (Inl e)
    then have "t = s" using alloc_fail [OF inv n] t by simp
    with t Inl Inr ok run show ?thesis by (auto simp: allocate_aligned_storage_def)
  next
    case q: (Inr p)
    note got = t [unfolded q]
    note grow = client_grow [OF ok n got]
    note a = alloc_ok [OF inv n got]
    show ?thesis
    proof (cases "p = 0 \<or> p mod kStorageAlignment = 0")
      case True
      with run t q Inr grow show ?thesis
        by (auto simp: allocate_aligned_storage_def split: if_splits)
    next
      case False
      obtain s'' r' where f: "free t p = (s'', r')" by (cases "free t p")
      have "owned t p \<inter> span q m = {} \<and> q \<noteq> p" if "(q, m) \<in> set live" for q m
      proof -
        have sp: "span q m \<subseteq> used s" using ok that unfolding client_ok_def by blast
        have "q \<noteq> p" using a by (intro fresh_pointer [OF ok n _ that]) blast
        with a sp show ?thesis by blast
      qed
      from client_free_other [OF grow(1) this f] have c: "client_ok init s'' live" .
      have "s' = s'' \<and> (\<exists>e. r = Inl e)"
        using run t q Inr False f
        by (auto simp: allocate_aligned_storage_def split: sum.splits)
      with c show ?thesis by auto
    qed
  qed
qed

lemma storage_reach_ok:
  assumes "storage_reach alloc free init s live" and "inv init"
  shows "client_ok init s live"
  using assms
proof (induction rule: storage_reach.induct)
  case start
  then show ?case by (simp add: client_ok_def storages_ok_def)
next
  case (allocate s live nbytes pre s' p)
  from client_allocate [OF allocate.IH [OF allocate.prems] allocate.hyps(2,3)] show ?case by simp
next
  case (refuse s live nbytes pre s' e)
  from client_allocate [OF refuse.IH [OF refuse.prems] refuse.hyps(2,3)] show ?case by simp
next
  case (release s xs p nbytes ys pre' s')
  then have ok: "client_ok init s (xs @ (p, nbytes) # ys)" by blast
  then have "p \<noteq> 0" by (auto simp: client_ok_def storages_ok_def)
  then show ?case
    using client_drop [OF ok, of s' "snd (free s p)"] release.hyps(2)
    by (auto simp: release_aligned_storage_def)
qed

lemma storages_disjoint:
  "storage_reach alloc free init s live \<Longrightarrow> inv init \<Longrightarrow> inv s \<and> storages_ok (area init) live"
  using storage_reach_ok by (simp add: client_ok_def)

end

section \<open>The list allocator meets the contract\<close>

definition free_span :: "ListAllocator \<Rightarrow> nat set" where
  "free_span s = (\<lambda>n. unat (begin_addr s) + n) ` bytes_of (free_blocks s)"

definition live_span :: "ListAllocator \<Rightarrow> nat set" where
  "live_span s = (\<Union>p \<in> dom (allocated s). span p (the (allocated s p)))"

definition list_owned :: "ListAllocator \<Rightarrow> usize \<Rightarrow> nat set" where
  "list_owned s p = (case allocated s p of None \<Rightarrow> {} | Some sz \<Rightarrow> span p sz)"

text \<open>
  The free list is sorted and coalesced, the live blocks are positive, aligned and disjoint, and
  the bytes of the buffer are exactly the free ones and the live ones.
\<close>

definition list_inv :: "ListAllocator \<Rightarrow> bool" where
  "list_inv s \<longleftrightarrow> buffer_ok s \<and> below_top s \<and> ordered 1 0 (unat (capacity s)) (free_blocks s)
     \<and> finite (dom (allocated s))
     \<and> (\<forall>p sz. allocated s p = Some sz \<longrightarrow> sz \<noteq> 0 \<and> unat (align s) dvd unat p \<and> span p sz \<subseteq> region s)
     \<and> (\<forall>p q a b. allocated s p = Some a \<longrightarrow> allocated s q = Some b \<longrightarrow> p \<noteq> q \<longrightarrow> span p a \<inter> span q b = {})
     \<and> live_span s = region s - free_span s"

lemma list_inv_in_buffer:
  assumes "list_inv s" shows "\<forall>b \<in> set (free_blocks s). in_buffer s b"
proof
  fix b assume "b \<in> set (free_blocks s)"
  then obtain k where k: "k < length (free_blocks s)" "b = free_blocks s ! k" by (metis in_set_conv_nth)
  have "begin_addr s \<le> raw_end s" "ordered 1 0 (unat (capacity s)) (free_blocks s)"
    "unat (capacity s) = unat (raw_end s) - unat (begin_addr s)"
    using assms unat_capacity by (auto simp: list_inv_def buffer_ok_def)
  then show "in_buffer s b"
    using ordered_nth [OF _ k(1)] k(2) by (fastforce simp: in_buffer_def word_le_nat_alt)
qed

lemma free_span_region: "list_inv s \<Longrightarrow> free_span s \<subseteq> region s"
  using ordered_bytes unat_capacity by (fastforce simp: list_inv_def free_span_def region_def)

text \<open>\<open>alloc\<close> of a positive size on a state that satisfies the invariant.\<close>

lemma list_alloc_none:
  assumes inv: "list_inv s" and sz: "sz \<noteq> 0" and none: "\<forall>b \<in> set (free_blocks s). \<not> fits s sz b"
  shows "list_alloc s sz = (s, Inl BadAlloc)"
proof -
  let ?best = "\<lparr>best_index = None, best_waste = - 1, best_addr = 0, best_total = 0\<rparr>"
  have ok: "buffer_ok s" "below_top s" using inv by (simp_all add: list_inv_def)
  have "best_for s sz [] ?best" by (simp add: best_for_def)
  then obtain best where "best_fit s sz 0 (free_blocks s) ?best = Inr best"
    and "best_for s sz (free_blocks s) best"
    using best_fit_finds [OF ok sz list_inv_in_buffer [OF inv]] by fastforce
  moreover from this have "best_index best = None"
    using none by (auto simp: best_for_def split: option.splits)
  ultimately show ?thesis using sz by (simp add: list_alloc_def)
qed

lemma list_alloc_some:
  assumes inv: "list_inv s" and sz: "sz \<noteq> 0" and some: "b \<in> set (free_blocks s)" "fits s sz b"
  shows "\<exists>k s' p. list_alloc s sz = (s', Inr p) \<and> k < length (free_blocks s)
    \<and> fits s sz (free_blocks s ! k)
    \<and> (\<forall>b \<in> set (free_blocks s). fits s sz b \<longrightarrow> waste_of s sz (free_blocks s ! k) \<le> waste_of s sz b)
    \<and> unat p = aligned_start s (free_blocks s ! k)
    \<and> s' = s\<lparr>free_blocks := free_blocks s', allocated := (allocated s)(p \<mapsto> sz)\<rparr>
    \<and> ordered 1 0 (unat (capacity s)) (free_blocks s')
    \<and> bytes_of (free_blocks s') = bytes_of (free_blocks s)
        - {unat p - unat (begin_addr s)..<unat p - unat (begin_addr s) + unat sz}
    \<and> span p sz \<subseteq> free_span s \<and> unat (begin_addr s) \<le> unat p \<and> unat (align s) dvd unat p"
proof -
  let ?best = "\<lparr>best_index = None, best_waste = - 1, best_addr = 0, best_total = 0\<rparr>"
  let ?fs = "free_blocks s" and ?B = "unat (begin_addr s)"
  have ok: "buffer_ok s" "below_top s" and ord: "ordered 1 0 (unat (capacity s)) ?fs"
    using inv by (simp_all add: list_inv_def)
  have "best_for s sz [] ?best" by (simp add: best_for_def)
  then obtain best where bf: "best_fit s sz 0 ?fs ?best = Inr best" and best: "best_for s sz ?fs best"
    using best_fit_finds [OF ok sz list_inv_in_buffer [OF inv]] by fastforce
  then obtain k where k: "best_index best = Some k" using some by (auto simp: best_for_def split: option.splits)
  let ?c = "?fs ! k" and ?p = "best_addr best"
  have kl: "k < length ?fs" and fit: "fits s sz ?c" and pa: "unat ?p = aligned_start s ?c"
    and tot: "unat (best_total best) = pad_of s ?c + unat sz"
    and min: "\<forall>b \<in> set ?fs. fits s sz b \<longrightarrow> waste_of s sz ?c \<le> waste_of s sz b"
    using best k by (simp_all add: best_for_def)
  have inb: "in_buffer s ?c" using list_inv_in_buffer [OF inv] kl by simp
  have ge: "?B + unat (block_offset ?c) \<le> unat ?p"
    using best_fit_block [OF ok inb] unfolding pa by metis
  have ba: "unat (begin_addr s + block_offset ?c) = ?B + unat (block_offset ?c)" using inb by (rule block_address)
  define pad where "pad = ?p - (begin_addr s + block_offset ?c)"
  have upad: "unat pad = pad_of s ?c"
    using ge ba by (simp add: pad_def unat_sub_le pad_of_def pa)
  have padeq: "unat ?p = ?B + unat (block_offset ?c) + pad_of s ?c" using ge by (simp add: pad_of_def pa)
  have le: "pad_of s ?c + unat sz \<le> unat (block_size ?c)" using fit by (simp add: fits_def)
  have soff: "unat (block_offset ?c + best_total best) = unat (block_offset ?c) + pad_of s ?c + unat sz"
    using le inb unat_less [of "raw_end s"] tot by (subst unat_add_small) (simp_all add: in_buffer_def)
  have ssz: "pad_of s ?c + unat sz + unat (block_size ?c - best_total best) = unat (block_size ?c)"
    using le tot by (simp add: unat_sub_le)
  let ?pb = "\<lparr>block_offset = block_offset ?c, block_size = pad\<rparr>"
  let ?qb = "\<lparr>block_offset = block_offset ?c + best_total best, block_size = block_size ?c - best_total best\<rparr>"
  let ?next = "take k ?fs @ (if pad \<noteq> 0 then [?pb] else [])
    @ (if block_size ?c - best_total best \<noteq> 0 then [?qb] else []) @ drop (k + 1) ?fs"
  let ?s' = "s\<lparr>free_blocks := ?next, allocated := (allocated s)(?p \<mapsto> sz)\<rparr>"
  have run: "list_alloc s sz = (?s', Inr ?p)"
    using sz by (simp add: list_alloc_def bf k Let_def pad_def)
  have decomp: "?fs = take k ?fs @ ?c # drop (k + 1) ?fs" using kl by (simp add: id_take_nth_drop)
  have split: "ordered 1 0 (unat (capacity s)) (take k ?fs @ ?c # drop (k + 1) ?fs)" "0 < unat sz"
    using ord decomp sz by (simp_all add: unat_gt_0)
  have nexteq: "?next = take k ?fs @ (if pad_of s ?c \<noteq> 0 then [?pb] else [])
      @ (if unat (block_size ?qb) \<noteq> 0 then [?qb] else []) @ drop (k + 1) ?fs"
    by (simp add: unat_eq_0 flip: upad)
  note facts = ordered_split [OF split, of ?pb "pad_of s ?c" ?qb, folded nexteq]
  have off: "unat (block_offset ?c) + pad_of s ?c = unat ?p - ?B" using padeq by simp
  have ord': "ordered 1 0 (unat (capacity s)) ?next"
    by (rule facts(1)) (use upad soff ssz in simp_all)
  have bytes': "bytes_of ?next = bytes_of ?fs - {unat ?p - ?B..<unat ?p - ?B + unat sz}"
    unfolding off [symmetric] by (subst (2) decomp, rule facts(2)) (use upad soff ssz in simp_all)
  have sub: "span ?p sz \<subseteq> free_span s"
  proof
    fix n assume n: "n \<in> span ?p sz"
    then have "n - ?B \<in> block_bytes ?c" using le padeq by (auto simp: span_def block_bytes_def)
    moreover have "?c \<in> set ?fs" using kl by simp
    ultimately have "n - ?B \<in> bytes_of ?fs" unfolding bytes_of_def by blast
    moreover have "n = ?B + (n - ?B)" using n padeq by (simp add: span_def)
    ultimately show "n \<in> free_span s" unfolding free_span_def by blast
  qed
  have "0 < unat (align s)" using ok power_of_two_pos by (simp add: buffer_ok_def)
  then have dvd: "unat (align s) dvd unat ?p"
    using align_up_facts(1) by (simp add: pa aligned_start_def)
  have s': "?s' = s\<lparr>free_blocks := free_blocks ?s', allocated := (allocated s)(?p \<mapsto> sz)\<rparr>" by simp
  have fs': "free_blocks ?s' = ?next" by simp
  have "?B \<le> unat ?p" using padeq by simp
  with run kl fit min pa ord' bytes' sub dvd s' show ?thesis by (intro exI [of _ k] exI [of _ ?s'] exI [of _ ?p]) simp
qed

lemma live_span_iff: "n \<in> live_span s \<longleftrightarrow> (\<exists>p sz. allocated s p = Some sz \<and> n \<in> span p sz)"
proof
  assume "n \<in> live_span s"
  then obtain p sz where "n \<in> span p sz" "allocated s p = Some sz" by (auto simp: live_span_def)
  then show "\<exists>p sz. allocated s p = Some sz \<and> n \<in> span p sz" by blast
next
  assume "\<exists>p sz. allocated s p = Some sz \<and> n \<in> span p sz"
  then obtain p sz where "allocated s p = Some sz" "n \<in> span p sz" by blast
  then show "n \<in> live_span s" by (force simp: live_span_def)
qed

lemma live_span_memI: "allocated s p = Some sz \<Longrightarrow> n \<in> span p sz \<Longrightarrow> n \<in> live_span s"
  using live_span_iff by blast

lemma live_span_memE:
  assumes "n \<in> live_span s" obtains p sz where "allocated s p = Some sz" "n \<in> span p sz"
  using assms live_span_iff by blast

lemma live_span_add:
  assumes al: "allocated s' = (allocated s)(p \<mapsto> sz)" and fresh: "allocated s p = None"
  shows "live_span s' = span p sz \<union> live_span s"
proof (intro equalityI subsetI)
  fix n assume "n \<in> live_span s'"
  then obtain q a where q: "allocated s' q = Some a" "n \<in> span q a" by (rule live_span_memE)
  show "n \<in> span p sz \<union> live_span s"
  proof (cases "q = p")
    case True
    then show ?thesis using q by (simp add: al)
  next
    case False
    then have "allocated s q = Some a" using q(1) by (simp add: al)
    then show ?thesis using q(2) live_span_memI by blast
  qed
next
  fix n assume "n \<in> span p sz \<union> live_span s"
  then consider "n \<in> span p sz" | q a where "allocated s q = Some a" "n \<in> span q a"
    using live_span_memE by blast
  then show "n \<in> live_span s'"
  proof cases
    case 1
    then show ?thesis by (intro live_span_memI [of s' p sz]) (simp_all add: al)
  next
    case 2
    then have "q \<noteq> p" using fresh by auto
    with 2 show ?thesis by (intro live_span_memI [of s' q a]) (simp_all add: al)
  qed
qed

lemma live_span_remove:
  assumes al: "allocated s' = (allocated s)(p := None)" and p: "allocated s p = Some sz"
    and dis: "\<And>q a. allocated s q = Some a \<Longrightarrow> q \<noteq> p \<Longrightarrow> span q a \<inter> span p sz = {}"
  shows "live_span s' = live_span s - span p sz"
proof (intro equalityI subsetI)
  fix n assume "n \<in> live_span s'"
  then obtain q a where q: "allocated s' q = Some a" "n \<in> span q a" by (rule live_span_memE)
  then have "q \<noteq> p" "allocated s q = Some a" by (auto simp: al split: if_splits)
  with q(2) dis show "n \<in> live_span s - span p sz" using live_span_memI by blast
next
  fix n assume n: "n \<in> live_span s - span p sz"
  then obtain q a where q: "allocated s q = Some a" "n \<in> span q a" using live_span_memE by blast
  have "q \<noteq> p"
  proof
    assume "q = p"
    then have "a = sz" using q(1) p by simp
    with q(2) n \<open>q = p\<close> show False by blast
  qed
  with q show "n \<in> live_span s'" by (intro live_span_memI [of s' q a]) (simp_all add: al)
qed

lemma allocated_live: "allocated s p = Some sz \<Longrightarrow> span p sz \<subseteq> live_span s"
  using live_span_iff by blast

lemma span_self: "sz \<noteq> 0 \<Longrightarrow> unat p \<in> span p sz"
  by (simp add: span_def unat_gt_0)

lemma list_alloc_inv:
  assumes inv: "list_inv s" and sz: "sz \<noteq> 0" and run: "list_alloc s sz = (s', Inr p)"
  shows "list_inv s'" and "region s' = region s" and "allocated s' = (allocated s)(p \<mapsto> sz)"
    and "allocated s p = None" and "span p sz \<subseteq> free_span s" and "free_span s' = free_span s - span p sz"
    and "unat (align s) dvd unat p"
proof -
  have "\<exists>b \<in> set (free_blocks s). fits s sz b" using list_alloc_none [OF inv sz] run by auto
  then have s': "s' = s\<lparr>free_blocks := free_blocks s', allocated := (allocated s)(p \<mapsto> sz)\<rparr>"
    and ord: "ordered 1 0 (unat (capacity s)) (free_blocks s')"
    and bytes: "bytes_of (free_blocks s') = bytes_of (free_blocks s)
        - {unat p - unat (begin_addr s)..<unat p - unat (begin_addr s) + unat sz}"
    and sub: "span p sz \<subseteq> free_span s" and ge: "unat (begin_addr s) \<le> unat p"
    and dvd: "unat (align s) dvd unat p"
    using list_alloc_some [OF inv sz] run by auto
  have base: "begin_addr s' = begin_addr s" "raw_end s' = raw_end s" "align s' = align s"
    by (subst s', simp)+
  have old: "buffer_ok s" "below_top s" "finite (dom (allocated s))" "live_span s = region s - free_span s"
    and each: "\<And>q a. allocated s q = Some a \<Longrightarrow> a \<noteq> 0 \<and> unat (align s) dvd unat q \<and> span q a \<subseteq> region s"
    and dis: "\<And>q r a b. allocated s q = Some a \<Longrightarrow> allocated s r = Some b \<Longrightarrow> q \<noteq> r \<Longrightarrow> span q a \<inter> span r b = {}"
    using inv unfolding list_inv_def by blast+
  show al: "allocated s' = (allocated s)(p \<mapsto> sz)" by (subst s') simp
  show r: "region s' = region s" by (simp add: region_def base)
  have new: "span p sz \<inter> span q a = {}" if "allocated s q = Some a" for q a
    using sub allocated_live [OF that] old(4) by blast
  show fresh: "allocated s p = None"
  proof (rule ccontr)
    assume "allocated s p \<noteq> None"
    then obtain a where a: "allocated s p = Some a" by blast
    with new [OF a] each [OF a] span_self [of a p] span_self [OF sz, of p] show False by blast
  qed
  show "span p sz \<subseteq> free_span s" "unat (align s) dvd unat p" by fact+
  show free: "free_span s' = free_span s - span p sz"
    using ge unfolding free_span_def bytes base span_def by force
  have "live_span s' = span p sz \<union> live_span s"
    using al fresh by (rule live_span_add)
  then have live: "live_span s' = region s' - free_span s'"
    using old(4) sub free_span_region [OF inv] free r by blast
  show "list_inv s'" unfolding list_inv_def
  proof (intro conjI allI impI)
    show "buffer_ok s'" "below_top s'" using old(1,2) by (simp_all add: buffer_ok_def below_top_def base)
    show "ordered 1 0 (unat (capacity s')) (free_blocks s')" using ord by (simp add: capacity_def base)
    show "finite (dom (allocated s'))" using old(3) by (simp add: al)
    show "live_span s' = region s' - free_span s'" by (rule live)
    show "a \<noteq> 0" "unat (align s') dvd unat q" "span q a \<subseteq> region s'" if "allocated s' q = Some a" for q a
      using that each [of q a] sz dvd sub free_span_region [OF inv]
      by (auto simp: al base r split: if_splits)
    show "span q a \<inter> span t b = {}" if "allocated s' q = Some a" "allocated s' t = Some b" "q \<noteq> t" for q t a b
      using that dis [of q a t b] new [of q a] new [of t b] by (auto simp: al split: if_splits)
  qed
qed

lemma list_free_inv:
  assumes inv: "list_inv s" and p: "allocated s p = Some sz" and p0: "p \<noteq> 0"
    and run: "list_free s p = (s', r)"
  shows "list_inv s'" and "r = Inr ()" and "region s' = region s" and "allocated s' = (allocated s)(p := None)"
    and "free_span s' = free_span s \<union> span p sz"
    and "s' = s\<lparr>free_blocks := free_blocks s', allocated := (allocated s)(p := None)\<rparr>"
proof -
  let ?B = "unat (begin_addr s)"
  let ?x = "\<lparr>block_offset = p - begin_addr s, block_size = sz\<rparr>"
  let ?next = "coalesce (insert_free_block (free_blocks s) ?x)"
  have s'r: "s' = s\<lparr>free_blocks := ?next, allocated := (allocated s)(p := None)\<rparr>" "r = Inr ()"
    using run p p0 by (simp_all add: list_free_def Let_def)
  have old: "buffer_ok s" "below_top s" "finite (dom (allocated s))" "live_span s = region s - free_span s"
    "ordered 1 0 (unat (capacity s)) (free_blocks s)"
    and each: "\<And>q a. allocated s q = Some a \<Longrightarrow> a \<noteq> 0 \<and> unat (align s) dvd unat q \<and> span q a \<subseteq> region s"
    and dis: "\<And>q r a b. allocated s q = Some a \<Longrightarrow> allocated s r = Some b \<Longrightarrow> q \<noteq> r \<Longrightarrow> span q a \<inter> span r b = {}"
    using inv unfolding list_inv_def by blast+
  have sz: "0 < unat sz" "sz \<noteq> 0" using each [OF p] by (simp_all add: unat_gt_0)
  have in_region: "?B \<le> unat p" "unat p + unat sz \<le> unat (raw_end s)"
    using each [OF p] sz(1) by (auto simp: span_def region_def)
  have off: "unat (p - begin_addr s) = unat p - ?B" using in_region by (simp add: unat_sub_le)
  have cap: "unat (capacity s) = unat (raw_end s) - ?B" using old(1) by (rule unat_capacity)
  have "block_bytes ?x \<inter> bytes_of (free_blocks s) = {}"
  proof (rule ccontr)
    assume "\<not> ?thesis"
    then obtain n where n: "n \<in> block_bytes ?x" "n \<in> bytes_of (free_blocks s)" by blast
    then have "?B + n \<in> span p sz" "?B + n \<in> free_span s"
      using in_region off by (auto simp: block_bytes_def span_def free_span_def)
    then show False using allocated_live [OF p] old(4) by blast
  qed
  then have ins: "ordered 0 0 (unat (capacity s)) (insert_free_block (free_blocks s) ?x)
      \<and> bytes_of (insert_free_block (free_blocks s) ?x) = block_bytes ?x \<union> bytes_of (free_blocks s)"
    using in_region sz cap off ordered_gap [OF old(5)] by (intro insert_ordered) simp_all
  then have co: "ordered 1 0 (unat (capacity s)) ?next \<and> bytes_of ?next = block_bytes ?x \<union> bytes_of (free_blocks s)"
    using coalesce_ordered [OF unat_less] by blast
  have base: "begin_addr s' = begin_addr s" "raw_end s' = raw_end s" "align s' = align s"
    by (simp_all add: s'r)
  show "r = Inr ()" by (rule s'r)
  show al: "allocated s' = (allocated s)(p := None)" by (simp add: s'r)
  show r: "region s' = region s" by (simp add: region_def base)
  show "s' = s\<lparr>free_blocks := free_blocks s', allocated := (allocated s)(p := None)\<rparr>" by (simp add: s'r)
  have "(\<lambda>n. ?B + n) ` block_bytes ?x = span p sz"
    using in_region off by (simp add: block_bytes_def span_def)
  then show free: "free_span s' = free_span s \<union> span p sz"
    using co by (simp add: free_span_def base image_Un Un_commute) (simp add: s'r image_Un Un_commute)
  have "live_span s' = live_span s - span p sz"
    using dis [OF _ p] by (rule live_span_remove [OF al p])
  then have live: "live_span s' = region s' - free_span s'" using old(4) free r by blast
  show "list_inv s'" unfolding list_inv_def
  proof (intro conjI allI impI)
    show "buffer_ok s'" "below_top s'" using old(1,2) by (simp_all add: buffer_ok_def below_top_def base)
    show "ordered 1 0 (unat (capacity s')) (free_blocks s')"
      using co by (simp add: capacity_def base) (simp add: s'r)
    show "finite (dom (allocated s'))" using old(3) by (simp add: al)
    show "live_span s' = region s' - free_span s'" by (rule live)
    show "a \<noteq> 0" "unat (align s') dvd unat q" "span q a \<subseteq> region s'" if "allocated s' q = Some a" for q a
      using that each [of q a] by (auto simp: al base r split: if_splits)
    show "span q a \<inter> span t b = {}" if "allocated s' q = Some a" "allocated s' t = Some b" "q \<noteq> t" for q t a b
      using that dis [of q a t b] by (auto simp: al split: if_splits)
  qed
qed

lemma list_free_unknown:
  "p = 0 \<Longrightarrow> list_free s p = (s, Inr ())"
  "p \<noteq> 0 \<Longrightarrow> allocated s p = None \<Longrightarrow> list_free s p = (s, Inl InvalidArgument)"
  by (simp_all add: list_free_def)

lemma list_region_free: "list_free s p = (s', r) \<Longrightarrow> list_inv s \<Longrightarrow>
    (s' = s \<and> (p = 0 \<or> allocated s p = None)) \<or> (p \<noteq> 0 \<and> (\<exists>sz. allocated s p = Some sz))"
  by (cases "p = 0"; cases "allocated s p") (auto simp: list_free_def)

interpretation list_heap: allocator list_alloc list_free list_inv region live_span list_owned
proof unfold_locales
  fix s p assume "list_inv s"
  show "list_owned s p \<subseteq> live_span s"
    using allocated_live by (auto simp: list_owned_def split: option.splits)
next
  fix s s' and sz p :: usize
  assume inv: "list_inv s" and sz: "sz \<noteq> 0" and run: "list_alloc s sz = (s', Inr p)"
  note f = list_alloc_inv [OF inv sz run]
  have live: "live_span s' = span p sz \<union> live_span s" using f(3,4) by (rule live_span_add)
  have "live_span s = region s - free_span s" using inv by (simp add: list_inv_def)
  then have dis: "span p sz \<inter> live_span s = {}" using f(5) by blast
  have "span p sz \<subseteq> region s" using f(5) free_span_region [OF inv] by blast
  with f live dis show "list_inv s' \<and> region s' = region s \<and> span p sz \<subseteq> region s
      \<and> span p sz \<inter> live_span s = {} \<and> live_span s \<union> span p sz \<subseteq> live_span s'
      \<and> list_owned s' p \<inter> live_span s = {} \<and> (\<forall>q. q \<noteq> p \<longrightarrow> list_owned s' q = list_owned s q)"
    by (auto simp: list_owned_def)
next
  fix s s' and sz :: usize and e
  assume inv: "list_inv s" and sz: "sz \<noteq> 0" and run: "list_alloc s sz = (s', Inl e)"
  show "s' = s"
  proof (cases "\<exists>b \<in> set (free_blocks s). fits s sz b")
    case True
    then show ?thesis using list_alloc_some [OF inv sz] run by fastforce
  next
    case False
    then show ?thesis using list_alloc_none [OF inv sz] run by auto
  qed
next
  fix s s' and p :: usize and r
  assume inv: "list_inv s" and run: "list_free s p = (s', r)"
  from list_region_free [OF run inv]
  show "list_inv s' \<and> region s' = region s \<and> live_span s - list_owned s p \<subseteq> live_span s'
      \<and> list_owned s' p \<subseteq> list_owned s p \<and> (\<forall>q. q \<noteq> p \<longrightarrow> list_owned s' q = list_owned s q)"
  proof
    assume "s' = s \<and> (p = 0 \<or> allocated s p = None)"
    then show ?thesis using inv by auto
  next
    assume "p \<noteq> 0 \<and> (\<exists>sz. allocated s p = Some sz)"
    then obtain sz where p: "allocated s p = Some sz" "p \<noteq> 0" by blast
    note f = list_free_inv [OF inv p run]
    have "live_span s' = region s' - free_span s'" "live_span s = region s - free_span s"
      using f(1) inv by (simp_all add: list_inv_def)
    then have "live_span s - span p sz \<subseteq> live_span s'" using f(3,5) by blast
    with f p show ?thesis by (auto simp: list_owned_def)
  qed
qed

lemma list_inv_reset:
  assumes "buffer_ok s" and "below_top s"
  shows "list_inv (list_reset s)"
proof -
  let ?s = "list_reset s" and ?B = "unat (begin_addr s)"
  have base: "begin_addr ?s = begin_addr s" "raw_end ?s = raw_end s" "align ?s = align s"
    "allocated ?s = Map.empty"
    by (simp_all add: list_reset_def Let_def)
  have cap: "unat (capacity s) = unat (raw_end s) - ?B" using assms(1) by (rule unat_capacity)
  have fb: "free_blocks ?s = (if capacity s \<noteq> 0 then [\<lparr>block_offset = 0, block_size = capacity s\<rparr>] else [])"
    by (simp add: list_reset_def Let_def)
  have "bytes_of (free_blocks ?s) = {0..<unat (capacity s)}"
    by (simp add: fb block_bytes_def)
  moreover have "(\<lambda>n. ?B + n) ` {0..<unat (capacity s)} = region s"
    using assms(1) by (simp add: cap region_def buffer_ok_def word_le_nat_alt)
  ultimately have "free_span ?s = region ?s" by (simp add: free_span_def base region_def)
  moreover have "ordered 1 0 (unat (capacity ?s)) (free_blocks ?s)"
    by (simp add: fb capacity_def base unat_gt_0)
  ultimately show ?thesis
    using assms by (simp add: list_inv_def buffer_ok_def below_top_def base live_span_def)
qed

lemma list_inv_all_free:
  assumes inv: "list_inv s" and empty: "allocated s = Map.empty"
  shows "s = list_reset s"
proof -
  have ok: "buffer_ok s" "below_top s" "ordered 1 0 (unat (capacity s)) (free_blocks s)"
    and live: "live_span s = region s - free_span s"
    using inv by (simp_all add: list_inv_def)
  let ?r = "list_reset s"
  have r: "list_inv ?r" using ok(1,2) by (rule list_inv_reset)
  have base: "begin_addr ?r = begin_addr s" "capacity ?r = capacity s" "region ?r = region s"
    by (simp_all add: list_reset_def Let_def capacity_def region_def)
  have "live_span ?r = {}" "live_span s = {}"
    using empty by (simp_all add: live_span_def list_reset_def Let_def)
  then have "free_span s = free_span ?r"
    using live r free_span_region [OF inv] free_span_region [OF r] base by (auto simp: list_inv_def)
  then have "bytes_of (free_blocks s) = bytes_of (free_blocks ?r)"
    by (simp add: free_span_def base inj_image_eq_iff)
  moreover have "ordered 1 0 (unat (capacity s)) (free_blocks ?r)"
    using r by (simp add: list_inv_def base)
  ultimately have "free_blocks s = free_blocks ?r" using ordered_unique [OF ok(3)] by blast
  then show ?thesis using empty by (simp add: list_reset_def Let_def)
qed

lemma list_free_alloc:
  assumes inv: "list_inv s" and sz: "sz \<noteq> 0" and run: "list_alloc s sz = (s', Inr p)" and p: "p \<noteq> 0"
  shows "list_free s' p = (s, Inr ())"
proof -
  note a = list_alloc_inv [OF inv sz run]
  obtain t r where run': "list_free s' p = (t, r)" by (cases "list_free s' p")
  have ap: "allocated s' p = Some sz" by (simp add: a(3))
  note f = list_free_inv [OF a(1) ap p run']
  have "\<exists>b \<in> set (free_blocks s). fits s sz b" using list_alloc_none [OF inv sz] run by auto
  then have s': "s' = s\<lparr>free_blocks := free_blocks s', allocated := (allocated s)(p \<mapsto> sz)\<rparr>"
    using list_alloc_some [OF inv sz] run by auto
  have "(allocated s')(p := None) = allocated s" using a(4) by (simp add: a(3) fun_upd_idem)
  with f(6) have "t = s'\<lparr>free_blocks := free_blocks t, allocated := allocated s\<rparr>" by (simp only:)
  also have "\<dots> = s\<lparr>free_blocks := free_blocks t, allocated := allocated s\<rparr>"
    by (subst (1) s') simp
  finally have t: "t = s\<lparr>free_blocks := free_blocks t, allocated := allocated s\<rparr>" .
  have base: "begin_addr t = begin_addr s" "capacity t = capacity s"
    by (subst t, simp add: capacity_def)+
  have "free_span t = free_span s" using f(5) a(5,6) by blast
  then have "bytes_of (free_blocks t) = bytes_of (free_blocks s)"
    by (simp add: free_span_def base inj_image_eq_iff)
  moreover have "ordered 1 0 (unat (capacity s)) (free_blocks t)" "ordered 1 0 (unat (capacity s)) (free_blocks s)"
    using f(1) inv by (simp_all add: list_inv_def base)
  ultimately have "free_blocks t = free_blocks s" using ordered_unique by blast
  then have "t = s" using t by simp
  then show ?thesis using run' f(2) by simp
qed

lemma ordered_sum: "ordered 1 lo hi bs \<Longrightarrow> sum_list (map (\<lambda>b. unat (block_size b)) bs) = card (bytes_of bs)"
proof (induction bs arbitrary: lo)
  case (Cons b bs)
  have "block_bytes b \<inter> bytes_of bs = {}"
    using ordered_bytes Cons.prems by (fastforce simp: block_bytes_def)
  moreover have "finite (block_bytes b)" "card (block_bytes b) = unat (block_size b)"
    by (simp_all add: block_bytes_def)
  ultimately show ?case using Cons by (auto simp: card_Un_disjoint)
qed simp

lemma fold_sizes:
  "unat r + sum_list (map (\<lambda>b. unat (block_size b)) bs) < 2 ^ 64 \<Longrightarrow>
   unat (fold (\<lambda>block result. result + block_size block) bs r)
     = unat r + sum_list (map (\<lambda>b. unat (block_size b)) bs)"
proof (induction bs arbitrary: r)
  case (Cons b bs)
  have "unat r + unat (block_size b) < 2 ^ 64" using Cons.prems by simp
  then have "unat (r + block_size b) = unat r + unat (block_size b)" by (rule unat_add_small)
  then show ?case using Cons.IH [of "r + block_size b"] Cons.prems by simp
qed simp

lemma card_span: "card (span p sz) = unat sz" "finite (span p sz)"
  by (simp_all add: span_def)

lemma card_live:
  assumes "list_inv s"
  shows "card (live_span s) = (\<Sum>p \<in> dom (allocated s). unat (the (allocated s p)))"
  unfolding live_span_def
proof (subst card_UN_disjoint)
  show "finite (dom (allocated s))" using assms by (simp add: list_inv_def)
  show "\<forall>p \<in> dom (allocated s). finite (span p (the (allocated s p)))" by (simp add: card_span)
  have dis: "span p a \<inter> span q b = {}" if "allocated s p = Some a" "allocated s q = Some b" "p \<noteq> q" for p q a b
    using assms that unfolding list_inv_def by blast
  show "\<forall>p \<in> dom (allocated s). \<forall>q \<in> dom (allocated s). p \<noteq> q \<longrightarrow>
      span p (the (allocated s p)) \<inter> span q (the (allocated s q)) = {}"
    using dis by (auto simp: dom_def)
qed (simp add: card_span)

lemma list_conservation:
  assumes inv: "list_inv s"
  shows "unat (free_bytes s) + (\<Sum>p \<in> dom (allocated s). unat (the (allocated s p))) = unat (capacity s)"
proof -
  have ord: "ordered 1 0 (unat (capacity s)) (free_blocks s)" and live: "live_span s = region s - free_span s"
    and ok: "buffer_ok s"
    using inv by (simp_all add: list_inv_def)
  have sum: "sum_list (map (\<lambda>b. unat (block_size b)) (free_blocks s)) = card (bytes_of (free_blocks s))"
    using ord by (rule ordered_sum)
  have cf: "card (free_span s) = card (bytes_of (free_blocks s))"
    unfolding free_span_def by (intro card_image) (simp add: inj_on_def)
  have cr: "card (region s) = unat (capacity s)" using unat_capacity [OF ok] by (simp add: region_def)
  have fin: "finite (region s)" by (simp add: region_def)
  have sub: "free_span s \<subseteq> region s" using inv by (rule free_span_region)
  then have "card (live_span s) = card (region s) - card (free_span s)"
    unfolding live using fin by (simp add: card_Diff_subset finite_subset)
  moreover have le: "card (free_span s) \<le> card (region s)" using sub fin by (simp add: card_mono)
  moreover have "unat (free_bytes s) = card (free_span s)"
    unfolding free_bytes_def
    by (subst fold_sizes) (use le unat_less [of "capacity s"] in \<open>simp_all only: sum cf cr, simp_all\<close>)
  ultimately show ?thesis using card_live [OF inv] cr by simp
qed

section \<open>The linear allocator meets the contract\<close>

definition linear_inv :: "LinearAllocator \<Rightarrow> bool" where
  "linear_inv s \<longleftrightarrow> buffer_ok s \<and> begin_addr s \<le> current s \<and> current s \<le> raw_end s"

definition linear_used :: "LinearAllocator \<Rightarrow> nat set" where
  "linear_used s = {unat (begin_addr s)..<unat (current s)}"

lemma linear_alloc_inv:
  assumes inv: "linear_inv s" and run: "linear_alloc s sz = (s', Inr p)"
  shows "linear_inv s'" and "region s' = region s" and "span p sz \<subseteq> region s"
    and "span p sz \<inter> linear_used s = {}" and "linear_used s \<union> span p sz \<subseteq> linear_used s'"
    and "unat (align s) dvd unat p"
proof -
  have ok: "buffer_ok s" "begin_addr s \<le> current s" using inv by (simp_all add: linear_inv_def)
  have p2: "is_power_of_two (align s)" using ok by (simp add: buffer_ok_def)
  from run have al: "align_up_addr s (current s) = Inr p"
    and fit: "\<not> p > raw_end s" "\<not> raw_end s - p < sz"
    and s': "s' = s\<lparr>current := if sz = 0 then p else p + sz\<rparr>"
    by (auto simp: linear_alloc_def split: sum.splits if_splits)
  have up: "unat p = align_up (unat (align s)) (unat (current s))"
    using al align_up_addr_Inr [OF p2] by simp
  have ge: "unat (current s) \<le> unat p" and dvd: "unat (align s) dvd unat p"
    using align_up_facts(1,2) power_of_two_pos [OF p2] by (simp_all add: up)
  have le: "unat p + unat sz \<le> unat (raw_end s)"
    using fit by (simp add: word_less_nat_alt unat_sub_le)
  then have e: "unat (p + sz) = unat p + unat sz"
    using unat_less [of "raw_end s"] by (intro unat_add_small) linarith
  have cur: "unat (current s') = unat p + unat sz" using e by (simp add: s')
  have base: "begin_addr s' = begin_addr s" "raw_end s' = raw_end s" "align s' = align s" by (simp_all add: s')
  show "linear_inv s'"
    using ok le ge cur by (simp add: linear_inv_def buffer_ok_def base word_le_nat_alt)
  show "region s' = region s" by (simp add: region_def base)
  show "span p sz \<subseteq> region s" "span p sz \<inter> linear_used s = {}"
    "linear_used s \<union> span p sz \<subseteq> linear_used s'" "unat (align s) dvd unat p"
    using ge le cur dvd ok(2) by (auto simp: span_def region_def linear_used_def base word_le_nat_alt)
qed

interpretation linear_heap: allocator linear_alloc linear_free linear_inv region linear_used "\<lambda>s p. {}"
proof unfold_locales
  fix s s' and sz p :: usize
  assume "linear_inv s" and "linear_alloc s sz = (s', Inr p)"
  from linear_alloc_inv [OF this]
  show "linear_inv s' \<and> region s' = region s \<and> span p sz \<subseteq> region s
      \<and> span p sz \<inter> linear_used s = {} \<and> linear_used s \<union> span p sz \<subseteq> linear_used s'
      \<and> {} \<inter> linear_used s = {} \<and> (\<forall>q. q \<noteq> p \<longrightarrow> ({} :: nat set) = {})"
    by simp
next
  fix s s' and sz :: usize and e
  assume "linear_alloc s sz = (s', Inl e)"
  then show "s' = s" by (auto simp: linear_alloc_def split: sum.splits if_splits)
qed (auto simp: linear_free_def)

section \<open>The fixed-size allocator meets the contract\<close>

definition slot_span :: "FixedSizeAllocator \<Rightarrow> nat \<Rightarrow> nat set" where
  "slot_span s i = {unat (begin_addr s) + i * unat (stride s)..<
      unat (begin_addr s) + i * unat (stride s) + unat (stride s)}"

text \<open>The free indices are exactly the slots not in use, each once, and every slot is inside the buffer.\<close>

definition fixed_inv :: "FixedSizeAllocator \<Rightarrow> bool" where
  "fixed_inv s \<longleftrightarrow> buffer_ok s \<and> stride s \<noteq> 0 \<and> unat (align s) dvd unat (stride s)
     \<and> payload_size s \<le> stride s
     \<and> unat (begin_addr s) + unat (block_count s) * unat (stride s) \<le> unat (raw_end s)
     \<and> length (in_use s) = unat (block_count s) \<and> distinct (free_indices s)
     \<and> set (free_indices s) = {i. unat i < unat (block_count s) \<and> \<not> in_use s ! unat i}"

definition fixed_used :: "FixedSizeAllocator \<Rightarrow> nat set" where
  "fixed_used s = (\<Union>i \<in> {i. i < length (in_use s) \<and> in_use s ! i}. slot_span s i)"

definition fixed_owned :: "FixedSizeAllocator \<Rightarrow> usize \<Rightarrow> nat set" where
  "fixed_owned s p = (\<Union>i \<in> {i. i < length (in_use s) \<and> in_use s ! i
      \<and> unat p = unat (begin_addr s) + i * unat (stride s)}. slot_span s i)"

lemma slot_fits:
  assumes "fixed_inv s" and "i < unat (block_count s)"
  shows "unat (begin_addr s) + i * unat (stride s) + unat (stride s) \<le> unat (raw_end s)"
proof -
  have "(i + 1) * unat (stride s) \<le> unat (block_count s) * unat (stride s)"
    using assms(2) by (intro mult_le_mono1) simp
  then show ?thesis using assms(1) by (simp add: fixed_inv_def)
qed

lemma slot_address:
  assumes inv: "fixed_inv s" and i: "unat i < unat (block_count s)"
  shows "unat (begin_addr s + i * stride s) = unat (begin_addr s) + unat i * unat (stride s)"
proof -
  have le: "unat (begin_addr s) + unat i * unat (stride s) < 2 ^ 64"
    using slot_fits [OF inv i] unat_less [of "raw_end s"] by linarith
  then have "unat (i * stride s) = unat i * unat (stride s)" by (intro unat_mult_small) linarith
  then show ?thesis using le by (simp add: unat_add_small)
qed

lemma slot_disjoint: "i \<noteq> j \<Longrightarrow> slot_span s i \<inter> slot_span s j = {}"
proof -
  assume "i \<noteq> j"
  then consider "i + 1 \<le> j" | "j + 1 \<le> i" by linarith
  then show ?thesis
  proof cases
    case 1
    then have "(i + 1) * unat (stride s) \<le> j * unat (stride s)" by (rule mult_le_mono1)
    then show ?thesis by (auto simp: slot_span_def)
  next
    case 2
    then have "(j + 1) * unat (stride s) \<le> i * unat (stride s)" by (rule mult_le_mono1)
    then show ?thesis by (auto simp: slot_span_def)
  qed
qed

lemma slots_end:
  assumes "fixed_inv s"
  shows "unat (begin_addr s + block_count s * stride s)
    = unat (begin_addr s) + unat (block_count s) * unat (stride s)"
proof -
  have le: "unat (begin_addr s) + unat (block_count s) * unat (stride s) < 2 ^ 64"
    using assms unat_less [of "raw_end s"] unfolding fixed_inv_def by linarith
  then have "unat (block_count s * stride s) = unat (block_count s) * unat (stride s)"
    by (intro unat_mult_small) linarith
  then show ?thesis using le by (simp add: unat_add_small)
qed

lemma index_of_Inr:
  assumes inv: "fixed_inv s"
  shows "index_of s p = Inr i \<longleftrightarrow>
    unat i < unat (block_count s) \<and> unat p = unat (begin_addr s) + unat i * unat (stride s)"
proof -
  let ?B = "unat (begin_addr s)" and ?S = "unat (stride s)" and ?C = "unat (block_count s)"
  have S: "0 < ?S" using inv by (simp add: fixed_inv_def unat_gt_0)
  have split: "index_of s p = Inr i \<longleftrightarrow> ?B \<le> unat p \<and> unat p < ?B + ?C * ?S
      \<and> (unat p - ?B) mod ?S = 0 \<and> unat i = (unat p - ?B) div ?S"
    using slots_end [OF inv]
    by (auto simp: index_of_def Let_def word_less_nat_alt word_le_nat_alt word_unat_eq_iff unat_mod unat_div
        unat_sub_le not_less not_le split: if_splits)
  show ?thesis unfolding split
  proof
    assume a: "?B \<le> unat p \<and> unat p < ?B + ?C * ?S \<and> (unat p - ?B) mod ?S = 0 \<and> unat i = (unat p - ?B) div ?S"
    then have "unat p - ?B = unat i * ?S" by (metis add_0_right div_mult_mod_eq)
    moreover from this have "unat i * ?S < ?C * ?S" using a by linarith
    then have "unat i < ?C" using mult_less_cancel2 by blast
    ultimately show "unat i < ?C \<and> unat p = ?B + unat i * ?S" using a by linarith
  next
    assume "unat i < ?C \<and> unat p = ?B + unat i * ?S"
    then show "?B \<le> unat p \<and> unat p < ?B + ?C * ?S \<and> (unat p - ?B) mod ?S = 0 \<and> unat i = (unat p - ?B) div ?S"
      using S by simp
  qed
qed

lemma index_of_Inl: "index_of s p = Inl e \<Longrightarrow> e = InvalidArgument"
  by (auto simp: index_of_def Let_def split: if_splits)

lemma fixed_alloc_inv:
  assumes inv: "fixed_inv s" and sz: "sz \<noteq> 0" and run: "fixed_alloc s sz = (s', r)"
  shows "(r = Inl BadAlloc \<and> s' = s \<and> (sz > payload_size s \<or> free_indices s = []))
    \<or> (\<exists>i. sz \<le> payload_size s \<and> i = last (free_indices s) \<and> free_indices s = free_indices s' @ [i]
        \<and> unat i < unat (block_count s) \<and> \<not> in_use s ! unat i
        \<and> s' = s\<lparr>free_indices := butlast (free_indices s), in_use := (in_use s)[unat i := True]\<rparr>
        \<and> r = Inr (begin_addr s + i * stride s))"
proof (cases "sz > payload_size s \<or> free_indices s = []")
  case True
  then show ?thesis using run sz by (auto simp: fixed_alloc_def)
next
  case False
  let ?i = "last (free_indices s)"
  have "?i \<in> set (free_indices s)" using False by simp
  then have i: "unat ?i < unat (block_count s)" "\<not> in_use s ! unat ?i"
    using inv unfolding fixed_inv_def by auto
  have eq: "fixed_alloc s sz = (s\<lparr>free_indices := butlast (free_indices s),
      in_use := (in_use s)[unat ?i := True]\<rparr>, Inr (begin_addr s + ?i * stride s))"
    using False sz i by (simp add: fixed_alloc_def Let_def)
  then have s': "s' = s\<lparr>free_indices := butlast (free_indices s), in_use := (in_use s)[unat ?i := True]\<rparr>"
    "r = Inr (begin_addr s + ?i * stride s)"
    using run by simp_all
  have "free_indices s = free_indices s' @ [?i]" using False by (simp add: s')
  with False i s' show ?thesis by (intro disjI2 exI [of _ ?i]) (simp add: not_less)
qed

lemma fixed_alloc_keeps:
  assumes inv: "fixed_inv s" and fs: "free_indices s = fs @ [i]"
  shows "fixed_inv (s\<lparr>free_indices := fs, in_use := (in_use s)[unat i := True]\<rparr>)"
proof -
  have len: "length (in_use s) = unat (block_count s)"
    and set: "set (free_indices s) = {j. unat j < unat (block_count s) \<and> \<not> in_use s ! unat j}"
    and dist: "distinct (free_indices s)"
    using inv by (simp_all add: fixed_inv_def)
  have dist': "distinct fs" "i \<notin> set fs" using dist unfolding fs by simp_all
  have "i \<in> set (free_indices s)" by (simp add: fs)
  then have i: "unat i < unat (block_count s)" unfolding set by blast
  have "j \<in> set fs \<longleftrightarrow> unat j < unat (block_count s) \<and> \<not> (in_use s)[unat i := True] ! unat j" for j
  proof (cases "j = i")
    case True
    then show ?thesis using dist'(2) i len by simp
  next
    case False
    then have "unat i \<noteq> unat j" by (simp add: word_unat_eq_iff)
    moreover have "j \<in> set fs \<longleftrightarrow> j \<in> set (free_indices s)" using False by (simp add: fs)
    ultimately show ?thesis unfolding set by simp
  qed
  then have "set fs = {j. unat j < unat (block_count s) \<and> \<not> (in_use s)[unat i := True] ! unat j}"
    by blast
  moreover have "buffer_ok s \<Longrightarrow> buffer_ok (s\<lparr>free_indices := fs, in_use := us\<rparr>)" for us
    by (simp add: buffer_ok_def)
  ultimately show ?thesis
    using inv dist'(1) unfolding fixed_inv_def by simp
qed

lemma fixed_free_keeps:
  assumes inv: "fixed_inv s" and i: "unat i < unat (block_count s)" "in_use s ! unat i"
  shows "fixed_inv (s\<lparr>free_indices := free_indices s @ [i], in_use := (in_use s)[unat i := False]\<rparr>)"
proof -
  have len: "length (in_use s) = unat (block_count s)" and dist: "distinct (free_indices s)"
    and set: "set (free_indices s) = {j. unat j < unat (block_count s) \<and> \<not> in_use s ! unat j}"
    using inv by (auto simp: fixed_inv_def)
  then have "i \<notin> set (free_indices s)" using i by auto
  moreover have "insert i (set (free_indices s))
      = {j. unat j < unat (block_count s) \<and> \<not> (in_use s)[unat i := False] ! unat j}"
    using i len by (auto simp: set nth_list_update word_unat_eq_iff)
  ultimately show ?thesis using inv dist by (simp add: fixed_inv_def buffer_ok_def)
qed

lemma fixed_free_cases:
  assumes inv: "fixed_inv s" and run: "fixed_free s p = (s', r)"
  shows "(s' = s) \<or> (\<exists>i. p \<noteq> 0 \<and> unat i < unat (block_count s) \<and> in_use s ! unat i
      \<and> unat p = unat (begin_addr s) + unat i * unat (stride s) \<and> r = Inr ()
      \<and> s' = s\<lparr>free_indices := free_indices s @ [i], in_use := (in_use s)[unat i := False]\<rparr>)"
  using run index_of_Inr [OF inv] by (auto simp: fixed_free_def split: if_splits sum.splits)

lemma slot_span_base [simp]:
  "slot_span (s\<lparr>free_indices := fs, in_use := us\<rparr>) i = slot_span s i"
  by (simp add: slot_span_def)

lemma slot_index_unique:
  assumes "fixed_inv s" "B + i * unat (stride s) = B + j * unat (stride s)"
  shows "i = j"
  using assms by (simp add: fixed_inv_def unat_eq_0)

interpretation fixed_heap: allocator fixed_alloc fixed_free fixed_inv region fixed_used fixed_owned
proof unfold_locales
  fix s p assume "fixed_inv s"
  show "fixed_owned s p \<subseteq> fixed_used s" by (auto simp: fixed_owned_def fixed_used_def)
next
  fix s s' and sz p :: usize
  assume inv: "fixed_inv s" and sz: "sz \<noteq> 0" and run: "fixed_alloc s sz = (s', Inr p)"
  from fixed_alloc_inv [OF this] obtain i where i: "unat i < unat (block_count s)" "\<not> in_use s ! unat i"
    and pl: "sz \<le> payload_size s" and fs: "free_indices s = free_indices s' @ [i]"
    and s': "s' = s\<lparr>free_indices := butlast (free_indices s), in_use := (in_use s)[unat i := True]\<rparr>"
    and p: "p = begin_addr s + i * stride s"
    by auto
  have len: "length (in_use s) = unat (block_count s)" and st: "payload_size s \<le> stride s"
    using inv by (simp_all add: fixed_inv_def)
  have up: "unat p = unat (begin_addr s) + unat i * unat (stride s)"
    using slot_address [OF inv i(1)] by (simp add: p)
  have sub: "span p sz \<subseteq> slot_span s (unat i)"
    using pl st by (auto simp: span_def slot_span_def up word_le_nat_alt)
  have "butlast (free_indices s) = free_indices s'" using fs by simp
  then have inv': "fixed_inv s'"
    using fixed_alloc_keeps [OF inv fs] unfolding s' by simp
  have set': "{j. j < length (in_use s') \<and> in_use s' ! j} = insert (unat i) {j. j < length (in_use s) \<and> in_use s ! j}"
    using i len by (auto simp: s' nth_list_update)
  have used': "fixed_used s' = slot_span s (unat i) \<union> fixed_used s"
    unfolding fixed_used_def set' by (simp add: s')
  have "slot_span s (unat i) \<inter> slot_span s j = {}" if "in_use s ! j" for j
    using i(2) that by (intro slot_disjoint) auto
  then have dis: "slot_span s (unat i) \<inter> fixed_used s = {}"
    unfolding fixed_used_def by blast
  have inr: "slot_span s (unat i) \<subseteq> region s"
    using slot_fits [OF inv i(1)] by (auto simp: slot_span_def region_def)
  have base: "begin_addr s' = begin_addr s" "raw_end s' = raw_end s" "stride s' = stride s" by (simp_all add: s')
  have own: "fixed_owned s' p \<subseteq> slot_span s (unat i)"
  proof -
    have "j = unat i" if "unat p = unat (begin_addr s) + j * unat (stride s)" for j
      using that slot_index_unique [OF inv, of "unat (begin_addr s)" j "unat i"] up by metis
    moreover have "slot_span s' j = slot_span s j" for j by (simp add: s')
    ultimately show ?thesis unfolding fixed_owned_def base by blast
  qed
  have other: "fixed_owned s' q = fixed_owned s q" if "q \<noteq> p" for q
  proof -
    have "unat q \<noteq> unat (begin_addr s) + unat i * unat (stride s)"
      using that up by (metis word_unat_eq_iff)
    then have "{j. j < length (in_use s') \<and> in_use s' ! j \<and> unat q = unat (begin_addr s) + j * unat (stride s)}
        = {j. j < length (in_use s) \<and> in_use s ! j \<and> unat q = unat (begin_addr s) + j * unat (stride s)}"
      by (auto simp: s' nth_list_update split: if_splits)
    then show ?thesis unfolding fixed_owned_def base by (simp add: s')
  qed
  have "region s' = region s" by (simp add: region_def base)
  with inv' used' sub dis inr own other
  show "fixed_inv s' \<and> region s' = region s \<and> span p sz \<subseteq> region s \<and> span p sz \<inter> fixed_used s = {}
      \<and> fixed_used s \<union> span p sz \<subseteq> fixed_used s' \<and> fixed_owned s' p \<inter> fixed_used s = {}
      \<and> (\<forall>q. q \<noteq> p \<longrightarrow> fixed_owned s' q = fixed_owned s q)"
    by blast
next
  fix s s' and sz :: usize and e
  assume "fixed_inv s" and "sz \<noteq> 0" and "fixed_alloc s sz = (s', Inl e)"
  from fixed_alloc_inv [OF this] show "s' = s" by auto
next
  fix s s' and p :: usize and r
  assume inv: "fixed_inv s" and run: "fixed_free s p = (s', r)"
  from fixed_free_cases [OF this]
  show "fixed_inv s' \<and> region s' = region s \<and> fixed_used s - fixed_owned s p \<subseteq> fixed_used s'
      \<and> fixed_owned s' p \<subseteq> fixed_owned s p \<and> (\<forall>q. q \<noteq> p \<longrightarrow> fixed_owned s' q = fixed_owned s q)"
  proof
    assume "s' = s"
    then show ?thesis using inv by auto
  next
    assume "\<exists>i. p \<noteq> 0 \<and> unat i < unat (block_count s) \<and> in_use s ! unat i
      \<and> unat p = unat (begin_addr s) + unat i * unat (stride s) \<and> r = Inr ()
      \<and> s' = s\<lparr>free_indices := free_indices s @ [i], in_use := (in_use s)[unat i := False]\<rparr>"
    then obtain i where i: "unat i < unat (block_count s)" "in_use s ! unat i"
      and up: "unat p = unat (begin_addr s) + unat i * unat (stride s)"
      and s': "s' = s\<lparr>free_indices := free_indices s @ [i], in_use := (in_use s)[unat i := False]\<rparr>"
      by blast
    have len: "length (in_use s) = unat (block_count s)" using inv by (simp add: fixed_inv_def)
    have inv': "fixed_inv s'" using fixed_free_keeps [OF inv i] by (simp add: s')
    have base: "begin_addr s' = begin_addr s" "raw_end s' = raw_end s" "stride s' = stride s" by (simp_all add: s')
    have set': "{j. j < length (in_use s') \<and> in_use s' ! j} = {j. j < length (in_use s) \<and> in_use s ! j} - {unat i}"
      using i len by (auto simp: s' nth_list_update split: if_splits)
    have own: "slot_span s (unat i) \<subseteq> fixed_owned s p"
      using i len by (auto simp: fixed_owned_def up)
    have used: "fixed_used s - fixed_owned s p \<subseteq> fixed_used s'"
      using own unfolding fixed_used_def set' by (auto simp: s')
    have "fixed_owned s' p \<subseteq> fixed_owned s p"
      using i len unfolding fixed_owned_def base by (auto simp: s' nth_list_update split: if_splits)
    moreover have "fixed_owned s' q = fixed_owned s q" if "q \<noteq> p" for q
    proof -
      have "unat q \<noteq> unat (begin_addr s) + unat i * unat (stride s)"
        using that up by (metis word_unat_eq_iff)
      then have "{j. j < length (in_use s') \<and> in_use s' ! j \<and> unat q = unat (begin_addr s) + j * unat (stride s)}
          = {j. j < length (in_use s) \<and> in_use s ! j \<and> unat q = unat (begin_addr s) + j * unat (stride s)}"
        by (auto simp: s' nth_list_update split: if_splits)
      then show ?thesis unfolding fixed_owned_def base by (simp add: s')
    qed
    moreover have "region s' = region s" by (simp add: region_def base)
    ultimately show ?thesis using inv' used by blast
  qed
qed

section \<open>Constructors and reachable states\<close>

lemma extend_simps [simp]:
  "buffer_ok (SingleBufferAllocatorBase.extend b x) = buffer_ok b"
  "below_top (SingleBufferAllocatorBase.extend b x) = below_top b"
  "capacity (SingleBufferAllocatorBase.extend b x) = capacity b"
  "region (SingleBufferAllocatorBase.extend b x) = region b"
  by (simp_all add: SingleBufferAllocatorBase.defs buffer_ok_def below_top_def capacity_def region_def)

lemma make_list_inv:
  assumes "make_list buffer nbytes alignment = Inr s" and "below_top s"
  shows "list_inv s"
proof -
  from assms(1) obtain b where b: "make_single_buffer buffer nbytes alignment = Inr b"
    and s: "s = list_reset (SingleBufferAllocatorBase.extend b \<lparr>free_blocks = [], allocated = Map.empty\<rparr>)"
    by (auto simp: make_list_def exn_simps)
  have "below_top (list_reset t) = below_top t" for t by (simp add: below_top_def list_reset_def Let_def)
  with assms(2) show ?thesis
    using list_inv_reset make_single_buffer_ok [OF b] unfolding s by simp
qed

lemma make_linear_inv:
  assumes "make_linear buffer nbytes alignment = Inr s"
  shows "linear_inv s"
proof -
  from assms obtain b where b: "make_single_buffer buffer nbytes alignment = Inr b"
    and s: "s = SingleBufferAllocatorBase.extend b \<lparr>current = begin_addr b\<rparr>"
    by (auto simp: make_linear_def exn_simps)
  have "begin_addr s = begin_addr b" "current s = begin_addr b" "raw_end s = raw_end b"
    by (simp_all add: s SingleBufferAllocatorBase.defs)
  with make_single_buffer_ok [OF b] show ?thesis
    by (simp add: linear_inv_def s) (simp add: buffer_ok_def)
qed

lemma fixed_reset_inv:
  assumes "buffer_ok s" and "stride s \<noteq> 0" and "unat (align s) dvd unat (stride s)"
    and "payload_size s \<le> stride s" and "length (in_use s) = unat (block_count s)"
    and "unat (begin_addr s) + unat (block_count s) * unat (stride s) \<le> unat (raw_end s)"
  shows "fixed_inv (fixed_reset s)"
proof -
  let ?C = "block_count s"
  have u: "unat (?C - 1 - of_nat i) = unat ?C - 1 - i" if "i < unat ?C" for i
  proof -
    have c: "unat (?C - 1) = unat ?C - 1" using that by (intro unat_minus_one) auto
    have "unat (of_nat i :: usize) = i" using that unat_less [of ?C] by (intro unat_of_nat_fits) linarith
    then show ?thesis using that c by (subst unat_sub_le) simp_all
  qed
  have "distinct (map (\<lambda>i. ?C - 1 - of_nat i) [0..<unat ?C])"
  proof (subst distinct_map, intro conjI inj_onI)
    fix i j assume "i \<in> set [0..<unat ?C]" "j \<in> set [0..<unat ?C]" "?C - 1 - of_nat i = ?C - 1 - of_nat j"
    then have "unat ?C - 1 - i = unat ?C - 1 - j" "i < unat ?C" "j < unat ?C" using u by (metis atLeastLessThan_iff set_upt)+
    then show "i = j" by linarith
  qed simp
  moreover have "set (map (\<lambda>i. ?C - 1 - of_nat i) [0..<unat ?C]) = {j. unat j < unat ?C}" (is "?L = ?R")
  proof (intro equalityI subsetI)
    fix j assume "j \<in> ?L"
    then obtain i where "i < unat ?C" "j = ?C - 1 - of_nat i" by auto
    then show "j \<in> ?R" using u [of i] by simp
  next
    fix j assume "j \<in> ?R"
    then have j: "unat ?C - 1 - unat j < unat ?C" "unat j \<le> unat ?C - 1" by simp_all
    have "unat (?C - 1 - of_nat (unat ?C - 1 - unat j)) = unat j" using u [OF j(1)] j(2) by simp
    then have "j = ?C - 1 - of_nat (unat ?C - 1 - unat j)" by (simp only: word_unat_eq_iff)
    then show "j \<in> ?L" using j(1) by (auto intro!: image_eqI [where x = "unat ?C - 1 - unat j"])
  qed
  moreover have "buffer_ok (fixed_reset s)" using assms(1) by (simp add: fixed_reset_def buffer_ok_def)
  ultimately show ?thesis
    using assms unfolding fixed_inv_def by (auto simp: fixed_reset_def)
qed

lemma align_up_payload_Inr:
  assumes "align_up_payload n a = Inr st"
  shows "unat st = align_up (unat a) (unat n)" and "is_power_of_two a" and "n \<noteq> 0"
proof -
  define m where "m = a - 1"
  from assms show n: "n \<noteq> 0" and p2: "is_power_of_two a"
    by (auto simp: align_up_payload_def split: if_splits)
  have "\<not> n > - 1 - m" and st: "st = (n + m) AND NOT m"
    using assms unfolding align_up_payload_def m_def [symmetric] Let_def by (auto split: if_splits)
  then have "unat n + unat m < 2 ^ 64" using word_not_mask_le by blast
  then show "unat st = align_up (unat a) (unat n)"
    using align_up_word [OF p2, of n] power_of_two_pos [OF p2] by (simp add: st m_def align_up_def)
qed

lemma make_fixed_inv:
  assumes "make_fixed buffer nbytes alignment payload = Inr s"
  shows "fixed_inv s"
proof -
  from assms obtain b st where b: "make_single_buffer buffer nbytes alignment = Inr b"
    and st: "align_up_payload payload alignment = Inr st"
    and s: "s = fixed_reset (SingleBufferAllocatorBase.extend b
       \<lparr>payload_size = payload, stride = st, block_count = capacity b div st, free_indices = [],
        in_use = replicate (unat (capacity b div st)) False\<rparr>)" (is "_ = fixed_reset ?e")
    by (auto simp: make_fixed_def exn_simps Let_def)
  note ok = make_single_buffer_ok [OF b]
  note up = align_up_payload_Inr [OF st]
  have a0: "0 < unat alignment" using up(2) power_of_two_pos by blast
  have ge: "unat payload \<le> unat st" "unat alignment dvd unat st"
    using align_up_facts(1,2) [OF a0] by (simp_all add: up(1))
  have "0 < unat payload" using up(3) by (simp add: unat_gt_0)
  then have st0: "st \<noteq> 0" using ge(1) by auto
  have cap: "unat (capacity b) = unat (raw_end b) - unat (begin_addr b)" using ok unat_capacity by blast
  have "unat (capacity b div st) * unat st \<le> unat (capacity b)" by (simp add: unat_div)
  moreover have "unat (begin_addr b) \<le> unat (raw_end b)" using ok by (simp add: buffer_ok_def word_le_nat_alt)
  ultimately have "unat (begin_addr b) + unat (capacity b div st) * unat st \<le> unat (raw_end b)"
    unfolding cap by linarith
  moreover have "buffer_ok ?e" using ok by simp
  moreover have "align b = alignment" using ok by blast
  ultimately show ?thesis unfolding s
    using st0 ge by (intro fixed_reset_inv)
      (simp_all add: SingleBufferAllocatorBase.defs word_le_nat_alt)
qed

text \<open>States a list allocator reaches by any calls, with any pointers passed to \<open>free\<close>.\<close>

inductive list_reach :: "ListAllocator \<Rightarrow> ListAllocator \<Rightarrow> bool" for init where
  start: "list_reach init init"
| alloc: "list_reach init s \<Longrightarrow> list_alloc s sz = (s', r) \<Longrightarrow> list_reach init s'"
| free: "list_reach init s \<Longrightarrow> list_free s p = (s', r') \<Longrightarrow> list_reach init s'"
| reset: "list_reach init s \<Longrightarrow> list_reach init (list_reset s)"

inductive_cases storage_emptyE: "storage_reach alloc free init s []"

lemma list_alloc_keeps: "list_inv s \<Longrightarrow> list_alloc s sz = (s', r) \<Longrightarrow> list_inv s'"
proof (cases "sz = 0")
  case False
  assume inv: "list_inv s" and run: "list_alloc s sz = (s', r)"
  show ?thesis
  proof (cases r)
    case (Inl e)
    then show ?thesis using list_heap.alloc_fail [OF inv False] run inv by blast
  next
    case (Inr p)
    then show ?thesis using list_alloc_inv(1) [OF inv False] run by blast
  qed
qed (simp add: list_alloc_def)

lemma list_free_keeps:
  assumes "list_inv s" and "list_free s p = (s', r)"
  shows "list_inv s'"
  using list_heap.free_any [OF assms] by (rule conjunct1)

lemma list_reach_inv: "list_reach init s \<Longrightarrow> list_inv init \<Longrightarrow> list_inv s"
proof (induction rule: list_reach.induct)
  case (reset s)
  then have "list_inv s" by blast
  then have "buffer_ok s" "below_top s" by (simp_all add: list_inv_def)
  then show ?case by (rule list_inv_reset)
next
  case (alloc s sz s' r)
  then show ?case using list_alloc_keeps by blast
next
  case (free s p s' r')
  then show ?case using list_free_keeps by blast
qed

section \<open>Sample allocators\<close>

text \<open>A buffer of 256 bytes at address 4096 with alignment 32, and the same with slots of 40 bytes.\<close>

definition sample_list :: ListAllocator where
  "sample_list = \<lparr>raw_begin = 4096, raw_end = 4352, begin_addr = 4096, align = 32,
     free_blocks = [\<lparr>block_offset = 0, block_size = 256\<rparr>], allocated = Map.empty\<rparr>"

definition sample_list' :: ListAllocator where
  "sample_list' = \<lparr>raw_begin = 4096, raw_end = 4352, begin_addr = 4096, align = 32,
     free_blocks = [\<lparr>block_offset = 100, block_size = 156\<rparr>], allocated = [4096 \<mapsto> 100]\<rparr>"

definition sample_linear :: LinearAllocator where
  "sample_linear = \<lparr>raw_begin = 4096, raw_end = 4352, begin_addr = 4096, align = 32, current = 4096\<rparr>"

definition sample_fixed :: FixedSizeAllocator where
  "sample_fixed = \<lparr>raw_begin = 4096, raw_end = 4352, begin_addr = 4096, align = 32,
     payload_size = 40, stride = 64, block_count = 4, free_indices = [3, 2, 1, 0],
     in_use = [False, False, False, False]\<rparr>"

lemmas allocator_eval = align_up_addr_def is_power_of_two_def checked_raw_begin_def checked_raw_end_def
  make_single_buffer_def capacity_def Let_def

lemma sample_list_made: "make_list 4096 256 32 = Inr sample_list" "below_top sample_list"
  by (simp_all add: make_list_def allocator_eval list_reset_def sample_list_def below_top_def
      SingleBufferAllocatorBase.defs)

lemma sample_list_alloc:
  "list_alloc sample_list 100 = (sample_list', Inr 4096)"
  "list_alloc sample_list 257 = (sample_list, Inl BadAlloc)"
  by (simp_all add: list_alloc_def sample_list_def sample_list'_def allocator_eval)

lemma sample_linear_made: "make_linear 4096 256 32 = Inr sample_linear"
  by (simp add: make_linear_def allocator_eval sample_linear_def SingleBufferAllocatorBase.defs)

lemma replicate_4: "replicate 4 x = [x, x, x, x]"
  by (simp add: numeral_eq_Suc)

lemma sample_fixed_made: "make_fixed 4096 256 32 40 = Inr sample_fixed"
  by (simp add: make_fixed_def align_up_payload_def allocator_eval sample_fixed_def fixed_reset_def
      SingleBufferAllocatorBase.defs replicate_4 upt_rec)

lemma sample_list_reach:
  "storage_reach list_alloc list_free sample_list sample_list' [(4096, 100)]"
  by (rule storage_reach.allocate [OF storage_reach.start, where pre = "Inr ()"])
    (simp_all add: allocate_aligned_storage_def sample_list_alloc)

lemma sample_linear_reach:
  "storage_reach linear_alloc linear_free sample_linear (sample_linear\<lparr>current := 4196\<rparr>) [(4096, 100)]"
  by (rule storage_reach.allocate [OF storage_reach.start, where pre = "Inr ()"])
    (simp_all add: allocate_aligned_storage_def linear_alloc_def sample_linear_def allocator_eval)

lemma sample_fixed_reach:
  "storage_reach fixed_alloc fixed_free sample_fixed
     (sample_fixed\<lparr>free_indices := [3, 2, 1], in_use := [True, False, False, False]\<rparr>) [(4096, 40)]"
  by (rule storage_reach.allocate [OF storage_reach.start, where pre = "Inr ()"])
    (simp_all add: allocate_aligned_storage_def fixed_alloc_def sample_fixed_def allocator_eval)

section \<open>Properties\<close>

text \<open>
  C21. Aligned storages: whatever sequence of \<open>allocate_aligned_storage\<close> and
  \<open>release_aligned_storage\<close> calls a backend makes on a list, linear or fixed-size allocator,
  failed and misaligned allocations included, the storages it holds are 32-byte aligned, inside
  the buffer and pairwise disjoint.
\<close>

theorem aligned_storages_disjoint:
  "(make_list buffer nbytes alignment = Inr l \<longrightarrow> below_top l \<longrightarrow>
      storage_reach list_alloc list_free l l' live \<longrightarrow> storages_ok (region l) live)
   \<and> (make_linear buffer nbytes alignment = Inr f \<longrightarrow>
      storage_reach linear_alloc linear_free f f' live \<longrightarrow> storages_ok (region f) live)
   \<and> (make_fixed buffer nbytes alignment payload = Inr x \<longrightarrow>
      storage_reach fixed_alloc fixed_free x x' live \<longrightarrow> storages_ok (region x) live)"
  using list_heap.storages_disjoint [OF _ make_list_inv] linear_heap.storages_disjoint [OF _ make_linear_inv]
    fixed_heap.storages_disjoint [OF _ make_fixed_inv] by blast

theorem aligned_storages_disjoint_witness:
  "storages_ok (region sample_list) [(4096, 100)] \<and> storages_ok (region sample_linear) [(4096, 100)]
   \<and> storages_ok (region sample_fixed) [(4096, 40)]"
  using aligned_storages_disjoint [of 4096 256 32 sample_list sample_list' "[(4096, 100)]" sample_linear
      "sample_linear\<lparr>current := 4196\<rparr>" 40 sample_fixed sample_fixed]
    aligned_storages_disjoint [of 4096 256 32 sample_list sample_list "[(4096, 40)]" sample_linear
      sample_linear 40 sample_fixed
      "sample_fixed\<lparr>free_indices := [3, 2, 1], in_use := [True, False, False, False]\<rparr>"]
    sample_list_made sample_linear_made sample_fixed_made sample_list_reach sample_linear_reach
    sample_fixed_reach
  by blast

text \<open>
  Best fit: on a list allocator's state, \<open>alloc\<close> of a positive size throws
  \<open>std::bad_alloc\<close> and changes nothing exactly when no free range holds the request after
  alignment padding; otherwise it takes an aligned address from a range that leaves the least
  waste, records exactly that block as live, and removes exactly its bytes from the free ranges.
\<close>

lemma list_alloc_best_fit:
  assumes "list_inv s" and "sz \<noteq> 0"
  shows "(list_alloc s sz = (s, Inl BadAlloc) \<and> (\<forall>b \<in> set (free_blocks s). \<not> fits s sz b))
    \<or> (\<exists>s' p. list_alloc s sz = (s', Inr p) \<and> list_inv s'
        \<and> (\<exists>b \<in> set (free_blocks s). fits s sz b \<and> unat p = aligned_start s b
             \<and> (\<forall>c \<in> set (free_blocks s). fits s sz c \<longrightarrow> waste_of s sz b \<le> waste_of s sz c))
        \<and> unat (align s) dvd unat p \<and> allocated s p = None
        \<and> allocated s' = (allocated s)(p \<mapsto> sz)
        \<and> span p sz \<subseteq> free_span s \<and> free_span s' = free_span s - span p sz)"
proof (cases "\<exists>b \<in> set (free_blocks s). fits s sz b")
  case False
  then show ?thesis using list_alloc_none [OF assms] by blast
next
  case True
  then obtain b where "b \<in> set (free_blocks s)" "fits s sz b" by blast
  from list_alloc_some [OF assms this] obtain k s' p where run: "list_alloc s sz = (s', Inr p)"
    and k: "k < length (free_blocks s)" "fits s sz (free_blocks s ! k)"
      "unat p = aligned_start s (free_blocks s ! k)"
      "\<forall>b \<in> set (free_blocks s). fits s sz b \<longrightarrow> waste_of s sz (free_blocks s ! k) \<le> waste_of s sz b"
    by blast
  have "free_blocks s ! k \<in> set (free_blocks s)" using k(1) by simp
  with k run list_alloc_inv [OF assms run] show ?thesis by blast
qed

lemma list_alloc_best_fit_witness:
  "list_alloc sample_list 100 = (sample_list', Inr 4096) \<and> free_span sample_list' = free_span sample_list - span 4096 100
   \<and> \<not> fits sample_list 257 \<lparr>block_offset = 0, block_size = 256\<rparr>"
  using list_alloc_best_fit [OF make_list_inv [OF sample_list_made], of 100]
    list_alloc_best_fit [OF make_list_inv [OF sample_list_made], of 257]
  by (simp add: sample_list_alloc) (simp add: sample_list_def)

text \<open>
  C32. Releasing: freeing the block just allocated gives back exactly the state before the
  allocation, coalescing included; freeing an address that is not live throws
  \<open>std::invalid_argument\<close> and changes nothing, freeing null does nothing; and once everything is
  free the state is that of \<open>reset\<close>, however the blocks were allocated and released.
\<close>

theorem list_free_undoes_alloc:
  assumes "list_inv s"
  shows "(sz \<noteq> 0 \<and> p \<noteq> 0 \<and> list_alloc s sz = (s', Inr p) \<longrightarrow> list_free s' p = (s, Inr ()))
    \<and> (q \<noteq> 0 \<and> allocated s q = None \<longrightarrow> list_free s q = (s, Inl InvalidArgument))
    \<and> list_free s 0 = (s, Inr ())
    \<and> (allocated s = Map.empty \<longrightarrow> s = list_reset s)"
  using list_free_alloc [OF assms] list_inv_all_free [OF assms] list_free_unknown by blast

theorem list_free_undoes_alloc_witness:
  "list_free sample_list' 4096 = (sample_list, Inr ()) \<and> list_free sample_list 64 = (sample_list, Inl InvalidArgument)
   \<and> sample_list = list_reset sample_list"
  using list_free_undoes_alloc [OF make_list_inv [OF sample_list_made], of 100 4096 sample_list' 64]
  by (simp add: sample_list_alloc) (simp add: sample_list_def)

text \<open>
  Conservation: after any calls of \<open>alloc\<close>, \<open>free\<close> and \<open>reset\<close> on a constructed list
  allocator, with any sizes and pointers, \<open>free_bytes\<close> and the sizes of the live blocks add up
  to \<open>capacity\<close>; no byte is lost to padding or splitting.
\<close>

lemma list_bytes_conserved:
  assumes "make_list buffer nbytes alignment = Inr init" and "below_top init" and "list_reach init s"
  shows "unat (free_bytes s) + (\<Sum>p \<in> dom (allocated s). unat (the (allocated s p))) = unat (capacity s)"
  using list_conservation [OF list_reach_inv [OF assms(3) make_list_inv [OF assms(1,2)]]] .

lemma list_bytes_conserved_witness:
  "unat (free_bytes sample_list') + (\<Sum>p \<in> dom (allocated sample_list'). unat (the (allocated sample_list' p)))
     = unat (capacity sample_list')
   \<and> free_bytes sample_list' = 156"
  using list_bytes_conserved [OF sample_list_made list_reach.alloc [OF list_reach.start sample_list_alloc(1)]]
  by (simp add: free_bytes_def sample_list'_def)

lemma fixed_count:
  assumes inv: "fixed_inv s"
  shows "free_count s + length (filter id (in_use s)) = unat (block_count s)"
proof -
  have len: "length (in_use s) = unat (block_count s)" and dist: "distinct (free_indices s)"
    and set: "set (free_indices s) = {i. unat i < unat (block_count s) \<and> \<not> in_use s ! unat i}"
    using inv by (simp_all add: fixed_inv_def)
  have "unat ` set (free_indices s) = {i. i < length (in_use s) \<and> \<not> in_use s ! i}" (is "?L = ?R")
  proof (intro equalityI subsetI)
    fix i assume i: "i \<in> ?R"
    then have "unat (of_nat i :: usize) = i"
      using len unat_less [of "block_count s"] by (intro unat_of_nat_fits) auto
    then show "i \<in> ?L" using i len unfolding set by (intro image_eqI [of _ _ "of_nat i"]) auto
  qed (auto simp: set len)
  moreover have "card (unat ` set (free_indices s)) = free_count s"
    using dist by (subst card_image) (simp_all add: inj_on_def word_unat_eq_iff distinct_card free_count_def)
  ultimately have "free_count s = length (filter (\<lambda>b. \<not> b) (in_use s))"
    by (simp add: length_filter_conv_card)
  then show ?thesis using sum_length_filter_compl [of id "in_use s"] len by simp
qed

lemma fixed_free_alloc:
  assumes inv: "fixed_inv s" and sz: "sz \<noteq> 0" and run: "fixed_alloc s sz = (s', Inr p)" and p: "p \<noteq> 0"
  shows "fixed_free s' p = (s, Inr ())" and "fixed_free s p = (s, Inl InvalidArgument)"
proof -
  from fixed_alloc_inv [OF inv sz run] obtain i where i: "unat i < unat (block_count s)" "\<not> in_use s ! unat i"
    and fs: "free_indices s = free_indices s' @ [i]"
    and s': "s' = s\<lparr>free_indices := butlast (free_indices s), in_use := (in_use s)[unat i := True]\<rparr>"
    and pe: "p = begin_addr s + i * stride s"
    by auto
  have "butlast (free_indices s) = free_indices s'" using fs by simp
  then have inv': "fixed_inv s'" using fixed_alloc_keeps [OF inv fs] unfolding s' by simp
  have len: "length (in_use s) = unat (block_count s)" using inv by (simp add: fixed_inv_def)
  have io: "index_of s p = Inr i" "index_of s' p = Inr i"
    using slot_address [OF inv i(1)] i(1)
    by (simp_all add: index_of_Inr [OF inv] index_of_Inr [OF inv'] pe) (simp_all add: s')
  show "fixed_free s p = (s, Inl InvalidArgument)"
    using p io i by (simp add: fixed_free_def)
  have "(in_use s)[unat i := True, unat i := False] = in_use s"
    using i len by (simp add: list_update_same_conv)
  moreover have "butlast (free_indices s) @ [i] = free_indices s" using fs by simp
  ultimately show "fixed_free s' p = (s, Inr ())"
    using p io i len by (simp add: fixed_free_def) (simp add: s')
qed

lemma fixed_slot_aligned:
  assumes inv: "fixed_inv s" and i: "unat i < unat (block_count s)"
  shows "unat (align s) dvd unat (begin_addr s + i * stride s)"
proof -
  have "0 < unat (stride s)" using inv by (simp add: fixed_inv_def unat_gt_0)
  then have "begin_addr s \<noteq> raw_end s" using slot_fits [OF inv i] by auto
  then have "unat (align s) dvd unat (begin_addr s)" "unat (align s) dvd unat (stride s)"
    using inv by (auto simp: fixed_inv_def buffer_ok_def)
  then show ?thesis unfolding slot_address [OF inv i] by simp
qed

text \<open>
  The fixed-size allocator: \<open>alloc\<close> of a positive size fails only with
  \<open>std::bad_alloc\<close>, exactly when the size exceeds the payload or no slot is free; otherwise it
  returns the address of a free slot that is a multiple of the alignment, freeing it restores the
  state exactly, freeing it before it was allocated is rejected as a double free, and free slots
  and slots in use always add up to \<open>block_count\<close>.
\<close>

lemma fixed_allocator_behaviour:
  assumes "fixed_inv s" and "sz \<noteq> 0"
  shows "free_count s + length (filter id (in_use s)) = unat (block_count s)
    \<and> ((fixed_alloc s sz = (s, Inl BadAlloc) \<and> (sz > payload_size s \<or> free_count s = 0))
       \<or> (\<exists>s' i p. sz \<le> payload_size s \<and> fixed_alloc s sz = (s', Inr p) \<and> fixed_inv s'
            \<and> index_of s p = Inr i \<and> ptr_from_index s i = Inr p \<and> unat (align s) dvd unat p
            \<and> \<not> in_use s ! unat i \<and> in_use s' = (in_use s)[unat i := True]
            \<and> (p \<noteq> 0 \<longrightarrow> fixed_free s' p = (s, Inr ()) \<and> fixed_free s p = (s, Inl InvalidArgument))))"
proof -
  obtain s' r where run: "fixed_alloc s sz = (s', r)" by (cases "fixed_alloc s sz")
  note cases = fixed_alloc_inv [OF assms run]
  have "(fixed_alloc s sz = (s, Inl BadAlloc) \<and> (sz > payload_size s \<or> free_count s = 0))
       \<or> (\<exists>s' i p. sz \<le> payload_size s \<and> fixed_alloc s sz = (s', Inr p) \<and> fixed_inv s'
            \<and> index_of s p = Inr i \<and> ptr_from_index s i = Inr p \<and> unat (align s) dvd unat p
            \<and> \<not> in_use s ! unat i \<and> in_use s' = (in_use s)[unat i := True]
            \<and> (p \<noteq> 0 \<longrightarrow> fixed_free s' p = (s, Inr ()) \<and> fixed_free s p = (s, Inl InvalidArgument)))"
    using cases
  proof
    assume "r = Inl BadAlloc \<and> s' = s \<and> (sz > payload_size s \<or> free_indices s = [])"
    then show ?thesis using run by (simp add: free_count_def)
  next
    assume "\<exists>i. sz \<le> payload_size s \<and> i = last (free_indices s) \<and> free_indices s = free_indices s' @ [i]
        \<and> unat i < unat (block_count s) \<and> \<not> in_use s ! unat i
        \<and> s' = s\<lparr>free_indices := butlast (free_indices s), in_use := (in_use s)[unat i := True]\<rparr>
        \<and> r = Inr (begin_addr s + i * stride s)"
    then obtain i where i: "sz \<le> payload_size s" "unat i < unat (block_count s)" "\<not> in_use s ! unat i"
      and s': "s' = s\<lparr>free_indices := butlast (free_indices s), in_use := (in_use s)[unat i := True]\<rparr>"
      and r: "r = Inr (begin_addr s + i * stride s)" by blast
    let ?p = "begin_addr s + i * stride s"
    note run' = run [unfolded r]
    have "index_of s ?p = Inr i" "ptr_from_index s i = Inr ?p"
      using slot_address [OF assms(1) i(2)] i(2)
      by (simp_all add: index_of_Inr [OF assms(1)] ptr_from_index_def word_le_nat_alt)
    moreover have "in_use s' = (in_use s)[unat i := True]" by (simp add: s')
    moreover have "unat (align s) dvd unat ?p" using fixed_slot_aligned [OF assms(1) i(2)] .
    moreover have "fixed_inv s'" using fixed_heap.alloc_ok [OF assms run'] by blast
    ultimately show ?thesis
      using run' i(1,3) fixed_free_alloc [OF assms run'] by blast
  qed
  then show ?thesis using fixed_count [OF assms(1)] by blast
qed


lemma fixed_allocator_behaviour_witness:
  "free_count sample_fixed + length (filter id (in_use sample_fixed)) = 4
   \<and> snd (fixed_alloc sample_fixed 40) = Inr 4096
   \<and> fixed_free (fst (fixed_alloc sample_fixed 40)) 4096 = (sample_fixed, Inr ())"
proof -
  have run: "fixed_alloc sample_fixed 40 =
      (sample_fixed\<lparr>free_indices := [3, 2, 1], in_use := [True, False, False, False]\<rparr>, Inr 4096)"
    by (simp add: fixed_alloc_def sample_fixed_def Let_def)
  show ?thesis
    using fixed_allocator_behaviour [OF make_fixed_inv [OF sample_fixed_made], of 40]
    by (auto simp: run) (simp add: sample_fixed_def)
qed

end
