(* ===== verification/Tensor_Core.thy ===== *)
theory Tensor_Core
  imports Prelude
begin

text \<open>
  The tensor metadata of \<open>src/include/iom/tensor.hpp\<close> and \<open>src/src/tensor.cpp\<close>: leaf
  encodings, quantization formats, shapes, specifications, their byte counts and the standard
  16x16 tiled layout. The lemmas give the exact value or the overflow of every count, and show
  that the slot of the tiled layout is in range and that distinct coordinates get distinct slots.
\<close>

section \<open>Enumerations\<close>

text \<open>
  An \<open>enum class\<close> object can hold a value that no enumerator declares; the constructors
  \<open>OtherDataType\<close> and \<open>OtherQuantization\<close> stand for these values, so that the branches
  that reject them are branches of the model.
\<close>

datatype DataType =
    BOOL
  | I2 | U2 | I4 | U4 | I8 | U8 | I16 | U16 | I32 | U32 | I64 | U64
  | F4_E2M1 | F6_E2M3 | F6_E3M2
  | F8_E4M3FN | F8_E5M2 | F8_E8M0
  | F16 | BF16 | F32 | F64
  | OtherDataType int

datatype QuantizationFormat =
    NONE
  | INT8_SYMMETRIC | INT8_ASYMMETRIC | INT4_SYMMETRIC | INT4_ASYMMETRIC
  | OCP_MXFP4 | OCP_MXFP8_E4M3 | OCP_MXFP8_E5M2
  | NVIDIA_NVFP4
  | GGML_Q4_0 | GGML_Q4_1 | GGML_Q5_0 | GGML_Q5_1 | GGML_Q8_0
  | GGML_Q2_K | GGML_Q3_K | GGML_Q4_K | GGML_Q5_K | GGML_Q6_K
  | TT_BFP2 | TT_BFP2A | TT_BFP4 | TT_BFP4A | TT_BFP8 | TT_BFP8A
  | OtherQuantization int

datatype BackendKind = CPU | CUDA | ROCM | SYCL

text \<open>The underlying integers: position in the declaration, other values outside that range.\<close>

fun data_type_code :: "DataType \<Rightarrow> int" where
  "data_type_code BOOL = 0"
| "data_type_code I2 = 1" | "data_type_code U2 = 2"
| "data_type_code I4 = 3" | "data_type_code U4 = 4"
| "data_type_code I8 = 5" | "data_type_code U8 = 6"
| "data_type_code I16 = 7" | "data_type_code U16 = 8"
| "data_type_code I32 = 9" | "data_type_code U32 = 10"
| "data_type_code I64 = 11" | "data_type_code U64 = 12"
| "data_type_code F4_E2M1 = 13"
| "data_type_code F6_E2M3 = 14" | "data_type_code F6_E3M2 = 15"
| "data_type_code F8_E4M3FN = 16" | "data_type_code F8_E5M2 = 17"
| "data_type_code F8_E8M0 = 18"
| "data_type_code F16 = 19" | "data_type_code BF16 = 20"
| "data_type_code F32 = 21" | "data_type_code F64 = 22"
| "data_type_code (OtherDataType i) = (if i < 0 then i else 23 + i)"

fun quantization_code :: "QuantizationFormat \<Rightarrow> int" where
  "quantization_code NONE = 0"
| "quantization_code INT8_SYMMETRIC = 1" | "quantization_code INT8_ASYMMETRIC = 2"
| "quantization_code INT4_SYMMETRIC = 3" | "quantization_code INT4_ASYMMETRIC = 4"
| "quantization_code OCP_MXFP4 = 5" | "quantization_code OCP_MXFP8_E4M3 = 6"
| "quantization_code OCP_MXFP8_E5M2 = 7"
| "quantization_code NVIDIA_NVFP4 = 8"
| "quantization_code GGML_Q4_0 = 9" | "quantization_code GGML_Q4_1 = 10"
| "quantization_code GGML_Q5_0 = 11" | "quantization_code GGML_Q5_1 = 12"
| "quantization_code GGML_Q8_0 = 13" | "quantization_code GGML_Q2_K = 14"
| "quantization_code GGML_Q3_K = 15" | "quantization_code GGML_Q4_K = 16"
| "quantization_code GGML_Q5_K = 17" | "quantization_code GGML_Q6_K = 18"
| "quantization_code TT_BFP2 = 19" | "quantization_code TT_BFP2A = 20"
| "quantization_code TT_BFP4 = 21" | "quantization_code TT_BFP4A = 22"
| "quantization_code TT_BFP8 = 23" | "quantization_code TT_BFP8A = 24"
| "quantization_code (OtherQuantization i) = (if i < 0 then i else 25 + i)"

fun leaf_bits :: "DataType \<Rightarrow> usize throws" where
  "leaf_bits BOOL = Inr 8"
| "leaf_bits I2 = Inr 2" | "leaf_bits U2 = Inr 2"
| "leaf_bits I4 = Inr 4" | "leaf_bits U4 = Inr 4" | "leaf_bits F4_E2M1 = Inr 4"
| "leaf_bits F6_E2M3 = Inr 6" | "leaf_bits F6_E3M2 = Inr 6"
| "leaf_bits I8 = Inr 8" | "leaf_bits U8 = Inr 8"
| "leaf_bits F8_E4M3FN = Inr 8" | "leaf_bits F8_E5M2 = Inr 8" | "leaf_bits F8_E8M0 = Inr 8"
| "leaf_bits I16 = Inr 16" | "leaf_bits U16 = Inr 16"
| "leaf_bits F16 = Inr 16" | "leaf_bits BF16 = Inr 16"
| "leaf_bits I32 = Inr 32" | "leaf_bits U32 = Inr 32" | "leaf_bits F32 = Inr 32"
| "leaf_bits I64 = Inr 64" | "leaf_bits U64 = Inr 64" | "leaf_bits F64 = Inr 64"
| "leaf_bits (OtherDataType _) = Inl InvalidArgument"

lemma leaf_bits_undeclared:
  "data_type_code t < 0 \<or> 22 < data_type_code t \<Longrightarrow> leaf_bits t = Inl InvalidArgument"
  by (cases t) auto

lemma leaf_bits_declared:
  "0 \<le> data_type_code t \<Longrightarrow> data_type_code t \<le> 22 \<Longrightarrow> \<exists>b. leaf_bits t = Inr b"
  by (cases t) (auto split: if_splits)

lemma leaf_bits_range: "leaf_bits t = Inr b \<Longrightarrow> 2 \<le> unat b \<and> unat b \<le> 64"
  by (cases t) auto

lemma leaf_bits_Inl: "leaf_bits t = Inl e \<Longrightarrow> e = InvalidArgument"
  by (cases t) auto

section \<open>Shapes and specifications\<close>

datatype TensorShape = TensorShape (dimensions: "usize list")

abbreviation kMaxTensorRank :: nat where "kMaxTensorRank \<equiv> 8"

abbreviation kTile :: usize where "kTile \<equiv> 16"

abbreviation kTileSlots :: usize where "kTileSlots \<equiv> kTile * kTile"

record TensorSpec =
  shape :: TensorShape
  data_type :: DataType
  quantization :: QuantizationFormat

text \<open>The constructor of \<open>TensorShape\<close>.\<close>

definition make_shape :: "usize list \<Rightarrow> TensorShape throws" where
  "make_shape dims =
     (if length dims < 2 then Inl InvalidArgument
      else if length dims > kMaxTensorRank then Inl InvalidArgument
      else if list_ex (\<lambda>d. d = 0) dims then Inl InvalidArgument
      else Inr (TensorShape dims))"

definition rank :: "TensorShape \<Rightarrow> nat" where
  "rank s = length (dimensions s)"

text \<open>\<open>dimension\<close> reads with \<open>std::vector::at\<close>, which throws \<open>std::out_of_range\<close>.\<close>

definition dimension :: "TensorShape \<Rightarrow> nat \<Rightarrow> usize throws" where
  "dimension s i = (if i < rank s then Inr (dimensions s ! i) else Inl OutOfRange)"

text \<open>A loop \<open>count = checked_mul(count, d)\<close> over a list of extents.\<close>

fun checked_product :: "usize \<Rightarrow> usize list \<Rightarrow> usize throws" where
  "checked_product count [] = Inr count"
| "checked_product count (d # ds) =
     andThen (checked_mul count d) (\<lambda>count. checked_product count ds)"

definition element_count :: "TensorShape \<Rightarrow> usize throws" where
  "element_count s = checked_product 1 (dimensions s)"

definition validate :: "TensorSpec \<Rightarrow> unit throws" where
  "validate s =
     andThen (leaf_bits (data_type s)) (\<lambda>_.
     if quantization_code (quantization s) < quantization_code NONE
        \<or> quantization_code (quantization s) > quantization_code TT_BFP8A
     then Inl InvalidArgument
     else if quantization s \<noteq> NONE then Inl RuntimeError
     else if rank (shape s) < 2 then Inl InvalidArgument
     else if rank (shape s) > kMaxTensorRank then Inl InvalidArgument
     else Inr ())"

text \<open>
  One step of the padding loop of \<open>standard_padded_shape\<close>, which is also
  \<open>detail::padded_extent\<close>.
\<close>

definition padded_extent :: "usize \<Rightarrow> usize throws" where
  "padded_extent d = (if d mod kTile = 0 then Inr d else checked_add d (kTile - d mod kTile))"

definition standard_padded_shape :: "TensorSpec \<Rightarrow> TensorShape throws" where
  "standard_padded_shape s =
     (let dims = dimensions (shape s); n = length dims in
      andThen (padded_extent (dims ! (n - 2))) (\<lambda>rows.
      andThen (padded_extent (dims ! (n - 1))) (\<lambda>columns.
      make_shape (dims[n - 2 := rows, n - 1 := columns]))))"

definition logical_nbytes :: "TensorSpec \<Rightarrow> usize throws" where
  "logical_nbytes s =
     andThen (validate s) (\<lambda>_.
     andThen (element_count (shape s)) (\<lambda>count.
     andThen (leaf_bits (data_type s)) (\<lambda>bits.
     andThen (checked_mul count bits) bits_to_bytes)))"

definition tiled_storage_nbytes :: "TensorSpec \<Rightarrow> usize throws" where
  "tiled_storage_nbytes s =
     andThen (validate s) (\<lambda>_.
     andThen (standard_padded_shape s) (\<lambda>padded.
     andThen (element_count padded) (\<lambda>count.
     andThen (leaf_bits (data_type s)) (\<lambda>bits.
     andThen (checked_mul count bits) bits_to_bytes))))"

section \<open>The standard tiled layout\<close>

definition standard_plane_slot ::
  "TensorSpec \<Rightarrow> usize \<Rightarrow> usize \<Rightarrow> usize \<Rightarrow> usize throws" where
  "standard_plane_slot spec plane row column =
     (let dims = dimensions (shape spec); leading_rank = length dims - 2 in
      andThen (checked_add (dims ! leading_rank) (kTile - 1)) (\<lambda>r.
      let tile_rows = r div kTile in
      andThen (checked_add (dims ! (leading_rank + 1)) (kTile - 1)) (\<lambda>c.
      let tile_columns = c div kTile in
      andThen (checked_mul tile_rows tile_columns) (\<lambda>tiles_per_plane.
      andThen (checked_mul plane tiles_per_plane) (\<lambda>plane_tiles.
      andThen (checked_mul (row div kTile) tile_columns) (\<lambda>row_tiles.
      andThen (checked_add row_tiles (column div kTile)) (\<lambda>in_plane.
      andThen (checked_add plane_tiles in_plane) (\<lambda>tile_index.
      andThen (checked_mul tile_index kTileSlots) (\<lambda>tile_slots.
      andThen (checked_mul (row mod kTile) kTile) (\<lambda>row_slots.
      andThen (checked_add row_slots (column mod kTile)) (\<lambda>in_tile.
      checked_add tile_slots in_tile)))))))))))"

text \<open>The loop that folds the leading coordinates into a row-major plane index.\<close>

fun plane_index :: "usize \<Rightarrow> usize list \<Rightarrow> usize list \<Rightarrow> usize throws" where
  "plane_index plane (d # ds) (c # cs) =
     andThen (checked_mul plane d) (\<lambda>p.
     andThen (checked_add p c) (\<lambda>plane. plane_index plane ds cs))"
| "plane_index plane _ _ = Inr plane"

definition standard_layout_slot :: "TensorSpec \<Rightarrow> usize list \<Rightarrow> usize throws" where
  "standard_layout_slot spec coordinates =
     andThen (validate spec) (\<lambda>_.
     let dims = dimensions (shape spec); leading_rank = rank (shape spec) - 2 in
     if length coordinates \<noteq> rank (shape spec) then Inl InvalidArgument
     else if list_ex (\<lambda>(c, d). c \<ge> d) (zip coordinates dims) then Inl OutOfRange
     else andThen (plane_index 0 (take leading_rank dims) (take leading_rank coordinates)) (\<lambda>plane.
       standard_plane_slot spec plane (coordinates ! leading_rank)
         (coordinates ! (leading_rank + 1))))"

section \<open>Extents and counts as natural numbers\<close>

definition valid_shape :: "TensorShape \<Rightarrow> bool" where
  "valid_shape s \<longleftrightarrow> 2 \<le> rank s \<and> rank s \<le> kMaxTensorRank \<and> 0 \<notin> set (dimensions s)"

lemma make_shape_Inr_iff [exn_simps]:
  "make_shape ds = Inr s \<longleftrightarrow> s = TensorShape ds \<and> valid_shape s"
  by (auto simp: make_shape_def valid_shape_def rank_def list_ex_iff)

lemma make_shape_Inl_iff [exn_simps]:
  "make_shape ds = Inl e \<longleftrightarrow> e = InvalidArgument \<and> \<not> valid_shape (TensorShape ds)"
  by (auto simp: make_shape_def valid_shape_def rank_def list_ex_iff)

definition extents :: "TensorShape \<Rightarrow> nat list" where
  "extents s = map unat (dimensions s)"

definition padded :: "nat \<Rightarrow> nat" where
  "padded n = (n + 15) div 16 * 16"

lemma padded_ge: "n \<le> padded n"
  unfolding padded_def by linarith

lemma padded_dvd: "16 dvd padded n"
  by (simp add: padded_def)

lemma padded_least: "16 dvd m \<Longrightarrow> n \<le> m \<Longrightarrow> padded n \<le> m"
  unfolding padded_def by (elim dvdE) simp

lemma padded_cases: "padded n = (if n mod 16 = 0 then n else n + (16 - n mod 16))"
proof -
  define q r where "q = n div 16" and "r = n mod 16"
  have n: "n = 16 * q + r" and r: "r < 16" by (simp_all add: q_def r_def)
  have "(n + 15) div 16 = q + (r + 15) div 16" by (simp add: n add.assoc)
  moreover have "(r + 15) div 16 = (if r = 0 then 0 else 1)" using r by auto
  ultimately show ?thesis using r by (simp add: padded_def n)
qed

lemma padded_pos: "0 < n \<Longrightarrow> 0 < padded n"
  using padded_ge [of n] by linarith

lemma checked_product_Inr:
  "0 \<notin> set ds \<Longrightarrow>
   checked_product count ds = Inr r \<longleftrightarrow> unat r = unat count * prod_list (map unat ds)"
proof (induction ds arbitrary: count)
  case Nil
  then show ?case by (auto simp: word_unat_eq_iff)
next
  case (Cons d ds)
  let ?p = "prod_list (map unat ds)"
  have p: "0 < ?p" using Cons.prems by (intro prod_list_pos) (auto simp: unat_eq_0)
  have IH: "checked_product x ds = Inr r \<longleftrightarrow> unat r = unat x * ?p" for x
    using Cons by simp
  show ?case
  proof
    assume "checked_product count (d # ds) = Inr r"
    then show "unat r = unat count * prod_list (map unat (d # ds))"
      by (auto simp: exn_simps unat_simps IH mult.assoc)
  next
    assume r: "unat r = unat count * prod_list (map unat (d # ds))"
    have "unat count * unat d \<le> unat count * unat d * ?p" using p by simp
    also have "\<dots> = unat r" using r by (simp add: mult.assoc)
    also have "\<dots> < 2 ^ 64" by (rule unat_less)
    finally have ok: "checked_mul count d = Inr (count * d) \<and> unat (count * d) = unat count * unat d"
      by (rule checked_mul_ok)
    with r show "checked_product count (d # ds) = Inr r"
      by (simp add: IH mult.assoc)
  qed
qed

lemma checked_product_Inl:
  "0 \<notin> set ds \<Longrightarrow>
   checked_product count ds = Inl e \<longleftrightarrow>
     e = OverflowError \<and> 2 ^ 64 \<le> unat count * prod_list (map unat ds)"
proof -
  assume ds: "0 \<notin> set ds"
  have only: "checked_product count ds = Inl e' \<Longrightarrow> e' = OverflowError" for e'
    by (induction count ds rule: checked_product.induct) (auto simp: exn_simps unat_simps)
  show ?thesis
  proof (cases "checked_product count ds")
    case (Inl e')
    have "\<not> unat count * prod_list (map unat ds) < 2 ^ 64"
    proof
      assume lt: "unat count * prod_list (map unat ds) < 2 ^ 64"
      note unat_of_nat_fits [OF this]
      with checked_product_Inr [OF ds] Inl show False by (metis Inl_Inr_False)
    qed
    with Inl only [OF Inl] show ?thesis by auto
  next
    case (Inr r)
    with checked_product_Inr [OF ds] have "unat count * prod_list (map unat ds) < 2 ^ 64"
      by (metis unat_less)
    with Inr show ?thesis by simp
  qed
qed

lemma padded_extent_Inr: "padded_extent d = Inr r \<longleftrightarrow> unat r = padded (unat d)"
proof -
  have m: "unat (d mod 16) = unat d mod 16" by (simp add: unat_mod)
  then have "unat (16 - d mod 16) = 16 - unat d mod 16"
    by (subst unat_sub) (auto simp: word_le_nat_alt)
  moreover have "d mod 16 = 0 \<longleftrightarrow> unat d mod 16 = 0"
    using m by (metis unat_eq_0)
  ultimately show ?thesis
    by (auto simp: padded_extent_def padded_cases unat_simps word_unat_eq_iff)
qed

lemma padded_extent_Inl:
  "padded_extent d = Inl e \<longleftrightarrow> e = OverflowError \<and> 2 ^ 64 \<le> padded (unat d)"
proof (cases "padded_extent d")
  case (Inr r)
  then show ?thesis using padded_extent_Inr [of d r] unat_less [of r] by auto
next
  case (Inl e')
  then have "e' = OverflowError"
    by (auto simp: padded_extent_def unat_simps split: if_splits)
  moreover have "\<not> padded (unat d) < 2 ^ 64"
    using Inl padded_extent_Inr [of d "of_nat (padded (unat d))"]
    by (auto simp: unat_of_nat_fits)
  ultimately show ?thesis using Inl by auto
qed

text \<open>
  The element counts a specification stands for: of the logical shape, and of the shape whose
  two matrix axes are padded to whole tiles.
\<close>

definition leading :: "TensorShape \<Rightarrow> nat list" where
  "leading s = take (rank s - 2) (extents s)"

definition rows_of :: "TensorShape \<Rightarrow> nat" where
  "rows_of s = extents s ! (rank s - 2)"

definition columns_of :: "TensorShape \<Rightarrow> nat" where
  "columns_of s = extents s ! (rank s - 1)"

definition logical_elements :: "TensorShape \<Rightarrow> nat" where
  "logical_elements s = prod_list (extents s)"

definition tiled_elements :: "TensorShape \<Rightarrow> nat" where
  "tiled_elements s = prod_list (leading s) * (padded (rows_of s) * padded (columns_of s))"

lemma list_split_last2:
  "2 \<le> length xs \<Longrightarrow> xs = take (length xs - 2) xs @ [xs ! (length xs - 2), xs ! (length xs - 1)]"
proof (induction xs rule: rev_induct)
  case (snoc x xs)
  then show ?case by (cases xs rule: rev_cases) (auto simp: nth_append)
qed simp

lemma extents_split:
  "valid_shape s \<Longrightarrow> extents s = leading s @ [rows_of s, columns_of s]"
  using list_split_last2 [of "extents s"]
  by (simp add: valid_shape_def leading_def rows_of_def columns_of_def rank_def extents_def)

lemma extents_pos: "valid_shape s \<Longrightarrow> 0 \<notin> set (extents s)"
  by (auto simp: valid_shape_def extents_def unat_eq_0)

lemma rows_columns_pos:
  assumes "valid_shape s"
  shows "0 < rows_of s" "0 < columns_of s" "0 < prod_list (leading s)"
  using extents_pos [OF assms] extents_split [OF assms]
  by (auto intro: prod_list_pos)

lemma logical_elements_alt:
  "valid_shape s \<Longrightarrow> logical_elements s = prod_list (leading s) * (rows_of s * columns_of s)"
  by (simp add: logical_elements_def extents_split)

lemma logical_le_tiled: "valid_shape s \<Longrightarrow> logical_elements s \<le> tiled_elements s"
  unfolding logical_elements_alt tiled_elements_def
  by (intro mult_le_mono2 mult_le_mono padded_ge)

lemma element_count_cases:
  "valid_shape s \<Longrightarrow>
   element_count s = (if logical_elements s < 2 ^ 64 then Inr (of_nat (logical_elements s))
                      else Inl OverflowError)"
  using checked_product_Inr [of "dimensions s" 1 "of_nat (logical_elements s)"]
    checked_product_Inl [of "dimensions s" 1 OverflowError]
  by (auto simp: valid_shape_def element_count_def logical_elements_def extents_def
      unat_of_nat_fits)

section \<open>Slots of the tiled layout\<close>

definition tile_rows :: "TensorShape \<Rightarrow> nat" where
  "tile_rows s = (rows_of s + 15) div 16"

definition tile_columns :: "TensorShape \<Rightarrow> nat" where
  "tile_columns s = (columns_of s + 15) div 16"

definition plane_elements :: "TensorShape \<Rightarrow> nat" where
  "plane_elements s = padded (rows_of s) * padded (columns_of s)"

definition plane_slot :: "TensorShape \<Rightarrow> nat \<Rightarrow> nat \<Rightarrow> nat \<Rightarrow> nat" where
  "plane_slot s plane row column =
     (plane * (tile_rows s * tile_columns s) + (row div 16 * tile_columns s + column div 16)) * 256
     + (row mod 16 * 16 + column mod 16)"

lemma plane_elements_alt: "plane_elements s = tile_rows s * tile_columns s * 256"
  by (simp add: plane_elements_def padded_def tile_rows_def tile_columns_def)

lemma tile_index_bounds:
  assumes "row < rows_of s" and "column < columns_of s"
  shows "row div 16 < tile_rows s" and "column div 16 < tile_columns s"
  using assms by (simp_all add: tile_rows_def tile_columns_def div_less_iff_less_mult)

lemma in_plane_tile_less:
  assumes "row < rows_of s" and "column < columns_of s"
  shows "row div 16 * tile_columns s + column div 16 < tile_rows s * tile_columns s"
  using tile_index_bounds [OF assms] by (rule mixed_radix_less)

lemma in_tile_less: "row mod 16 * 16 + column mod (16 :: nat) < 256" for row :: nat
  using mixed_radix_less [of "row mod 16" 16 "column mod 16" 16] by simp

lemma plane_slot_less:
  assumes "plane < planes" and "row < rows_of s" and "column < columns_of s"
  shows "plane_slot s plane row column < planes * plane_elements s"
proof -
  have "plane * (tile_rows s * tile_columns s) + (row div 16 * tile_columns s + column div 16)
      < planes * (tile_rows s * tile_columns s)"
    using assms(1) in_plane_tile_less [OF assms(2,3)] by (rule mixed_radix_less)
  then have "plane_slot s plane row column < planes * (tile_rows s * tile_columns s) * 256"
    unfolding plane_slot_def using in_tile_less by (rule mixed_radix_less)
  then show ?thesis by (simp add: plane_elements_alt mult.assoc)
qed

lemma plane_slot_inj:
  assumes "row < rows_of s" and "column < columns_of s"
    and "row' < rows_of s" and "column' < columns_of s"
    and eq: "plane_slot s plane row column = plane_slot s plane' row' column'"
  shows "plane = plane' \<and> row = row' \<and> column = column'"
proof -
  note tile = mixed_radix_inj [OF in_tile_less in_tile_less eq [unfolded plane_slot_def]]
  note in_tile = mixed_radix_inj [OF _ _ tile [THEN conjunct2]]
  note plane = mixed_radix_inj [OF in_plane_tile_less in_plane_tile_less tile [THEN conjunct1]]
  have "plane = plane'" and cell: "row div 16 * tile_columns s + column div 16
      = row' div 16 * tile_columns s + column' div 16"
    using plane assms(1-4) by auto
  moreover have "row div 16 = row' div 16 \<and> column div 16 = column' div 16"
    using mixed_radix_inj [OF _ _ cell] tile_index_bounds assms(1-4) by blast
  moreover have "row mod 16 = row' mod 16 \<and> column mod 16 = column' mod 16"
    using in_tile by simp
  ultimately show ?thesis by (metis div_mod_eq_iff)
qed

lemma shape_nth:
  assumes "valid_shape s"
  shows "unat (dimensions s ! (rank s - 2)) = rows_of s"
    and "unat (dimensions s ! (rank s - Suc 0)) = columns_of s"
proof -
  have "rank s - 2 < length (dimensions s)" "rank s - 1 < length (dimensions s)"
    using assms unfolding valid_shape_def rank_def by linarith+
  then show "unat (dimensions s ! (rank s - 2)) = rows_of s"
    and "unat (dimensions s ! (rank s - Suc 0)) = columns_of s"
    by (simp_all add: rows_of_def columns_of_def extents_def)
qed

lemma standard_plane_slot_ok:
  assumes valid: "valid_shape (shape spec)"
    and plane: "unat plane < planes"
    and row: "unat row < rows_of (shape spec)" and column: "unat column < columns_of (shape spec)"
    and fits: "planes * plane_elements (shape spec) < 2 ^ 64"
  shows "\<exists>w. standard_plane_slot spec plane row column = Inr w
    \<and> unat w = plane_slot (shape spec) (unat plane) (unat row) (unat column)"
proof -
  let ?s = "shape spec"
  let ?tr = "tile_rows ?s" and ?tc = "tile_columns ?s"
  let ?row_tiles = "unat row div 16 * ?tc" and ?in = "unat row div 16 * ?tc + unat column div 16"
  have rank: "2 \<le> rank ?s" using valid by (simp add: valid_shape_def)
  then have idx: "Suc (rank ?s - 2) = rank ?s - 1" by simp
  note nth = shape_nth [OF valid]
  have "1 * plane_elements ?s \<le> planes * plane_elements ?s"
    using plane by (intro mult_le_mono1) simp
  then have pe: "?tr * ?tc * 256 < 2 ^ 64" using fits unfolding plane_elements_alt by linarith
  have tiles: "0 < ?tr" "0 < ?tc"
    using tile_index_bounds [OF row column] by auto
  then have "?tr * 16 \<le> ?tr * ?tc * 256" "?tc * 16 \<le> ?tr * ?tc * 256" by simp_all
  then have pad: "?tr * 16 < 2 ^ 64" "?tc * 16 < 2 ^ 64" using pe by linarith+
  have sum15: "rows_of ?s + 15 < 2 ^ 64" "columns_of ?s + 15 < 2 ^ 64"
    using pad by (simp_all add: tile_rows_def tile_columns_def)
  have slot: "plane_slot ?s (unat plane) (unat row) (unat column) < 2 ^ 64"
    using plane_slot_less [OF plane row column] fits by simp
  then have tile_index: "unat plane * (?tr * ?tc) + ?in < 2 ^ 56"
    by (simp add: plane_slot_def)
  have in_tile: "unat row mod 16 * 16 + unat column mod 16 < 256" by (rule in_tile_less)
  have lim0: "?tr * ?tc < 2 ^ 64" using pe by linarith
  have lim: "?tr * ?tc < 2 ^ 64" "unat plane * (?tr * ?tc) < 2 ^ 64" "?row_tiles < 2 ^ 64"
    "?in < 2 ^ 64" "unat plane * (?tr * ?tc) + ?in < 2 ^ 64"
    "(unat plane * (?tr * ?tc) + ?in) * 256 < 2 ^ 64"
    using lim0 tile_index by simp_all
  have mods: "unat (row mod 16) = unat row mod 16" "unat (column mod 16) = unat column mod 16"
    "unat (row div 16) = unat row div 16" "unat (column div 16) = unat column div 16"
    by (simp_all add: unat_mod unat_div)
  have num: "unat (15 :: usize) = 15" "unat (16 :: usize) = 16" "unat (256 :: usize) = 256"
    by simp_all
  have small: "unat row mod 16 * 16 < 2 ^ 64" "unat row mod 16 * 16 + unat column mod 16 < 2 ^ 64"
    using in_tile by simp_all
  obtain r where r: "checked_add (dimensions ?s ! (rank ?s - 2)) 15 = Inr r" "unat r = rows_of ?s + 15"
    using checked_add_ex [OF nth(1) num(1) sum15(1)] by blast
  obtain c where c: "checked_add (dimensions ?s ! (rank ?s - Suc 0)) 15 = Inr c"
      "unat c = columns_of ?s + 15"
    using checked_add_ex [OF nth(2) num(1) sum15(2)] by blast
  have rt: "unat (r div 16) = ?tr" and ct: "unat (c div 16) = ?tc"
    using r c by (simp_all add: unat_div tile_rows_def tile_columns_def)
  obtain t where t: "checked_mul (r div 16) (c div 16) = Inr t" "unat t = ?tr * ?tc"
    using checked_mul_ex [OF rt ct lim(1)] by blast
  obtain p where p: "checked_mul plane t = Inr p" "unat p = unat plane * (?tr * ?tc)"
    using checked_mul_ex [OF refl t(2) lim(2)] by blast
  obtain q where q: "checked_mul (row div 16) (c div 16) = Inr q" "unat q = ?row_tiles"
    using checked_mul_ex [OF mods(3) ct lim(3)] by blast
  obtain ip where ip: "checked_add q (column div 16) = Inr ip" "unat ip = ?in"
    using checked_add_ex [OF q(2) mods(4) lim(4)] by blast
  obtain ti where ti: "checked_add p ip = Inr ti" "unat ti = unat plane * (?tr * ?tc) + ?in"
    using checked_add_ex [OF p(2) ip(2) lim(5)] by blast
  obtain ts where ts: "checked_mul ti 256 = Inr ts" "unat ts = (unat plane * (?tr * ?tc) + ?in) * 256"
    using checked_mul_ex [OF ti(2) num(3) lim(6)] by blast
  obtain rs where rs: "checked_mul (row mod 16) 16 = Inr rs" "unat rs = unat row mod 16 * 16"
    using checked_mul_ex [OF mods(1) num(2) small(1)] by blast
  obtain it where it: "checked_add rs (column mod 16) = Inr it"
      "unat it = unat row mod 16 * 16 + unat column mod 16"
    using checked_add_ex [OF rs(2) mods(2) small(2)] by blast
  obtain w where "checked_add ts it = Inr w"
      "unat w = plane_slot ?s (unat plane) (unat row) (unat column)"
    using checked_add_ex [OF ts(2) it(2) slot [unfolded plane_slot_def]]
    by (auto simp: plane_slot_def)
  then have "standard_plane_slot spec plane row column = Inr w
    \<and> unat w = plane_slot ?s (unat plane) (unat row) (unat column)"
    using r c t p q ip ti ts rs it idx
    by (simp add: standard_plane_slot_def Let_def plane_slot_def flip: rank_def)
  then show ?thesis by blast
qed

section \<open>Byte counts\<close>

definition supported_spec :: "TensorSpec \<Rightarrow> bool" where
  "supported_spec spec \<longleftrightarrow> valid_shape (shape spec) \<and> quantization spec = NONE
     \<and> (\<exists>b. leaf_bits (data_type spec) = Inr b)"

text \<open>The leaf width as a number; 0 where \<open>leaf_bits\<close> throws.\<close>

definition leaf_width :: "TensorSpec \<Rightarrow> nat" where
  "leaf_width spec = (case leaf_bits (data_type spec) of Inl _ \<Rightarrow> 0 | Inr b \<Rightarrow> unat b)"

lemma leaf_width_Inr: "leaf_bits (data_type spec) = Inr b \<Longrightarrow> leaf_width spec = unat b"
  by (simp add: leaf_width_def)

lemma quantization_declared:
  "(quantization_code q < quantization_code NONE \<or> quantization_code q > quantization_code TT_BFP8A)
   \<longleftrightarrow> (\<exists>i. q = OtherQuantization i)"
  by (cases q) auto

lemma validate_Inr_iff:
  "valid_shape (shape spec) \<Longrightarrow> validate spec = Inr () \<longleftrightarrow> supported_spec spec"
  by (cases "leaf_bits (data_type spec)")
    (auto simp: validate_def supported_spec_def valid_shape_def quantization_declared
      simp del: quantization_code.simps)

lemma dims_update_last2:
  assumes "2 \<le> length ds"
  shows "map f (ds[length ds - 2 := a, length ds - 1 := b])
    = take (length ds - 2) (map f ds) @ [f a, f b]"
  using assms
proof (induction ds rule: rev_induct)
  case (snoc x xs)
  then show ?case by (cases xs rule: rev_cases) (auto simp: list_update_append)
qed simp

lemma standard_padded_shape_cases:
  assumes "valid_shape (shape spec)"
  shows "standard_padded_shape spec =
      (if padded (rows_of (shape spec)) < 2 ^ 64 \<and> padded (columns_of (shape spec)) < 2 ^ 64
       then Inr (TensorShape ((dimensions (shape spec))
         [rank (shape spec) - 2 := of_nat (padded (rows_of (shape spec))),
          rank (shape spec) - 1 := of_nat (padded (columns_of (shape spec)))]))
       else Inl OverflowError)"
proof -
  let ?s = "shape spec" and ?ds = "dimensions (shape spec)"
  note nth = shape_nth [OF assms]
  have r: "padded_extent (?ds ! (rank ?s - 2)) = (if padded (rows_of ?s) < 2 ^ 64
      then Inr (of_nat (padded (rows_of ?s))) else Inl OverflowError)"
    using padded_extent_Inr [of "?ds ! (rank ?s - 2)" "of_nat (padded (rows_of ?s))"]
      padded_extent_Inl [of "?ds ! (rank ?s - 2)" OverflowError]
    by (auto simp: nth unat_of_nat_fits)
  have c: "padded_extent (?ds ! (rank ?s - Suc 0)) = (if padded (columns_of ?s) < 2 ^ 64
      then Inr (of_nat (padded (columns_of ?s))) else Inl OverflowError)"
    using padded_extent_Inr [of "?ds ! (rank ?s - Suc 0)" "of_nat (padded (columns_of ?s))"]
      padded_extent_Inl [of "?ds ! (rank ?s - Suc 0)" OverflowError]
    by (auto simp: nth unat_of_nat_fits)
  have nz: "of_nat (padded (rows_of ?s)) \<noteq> (0 :: usize)" if "padded (rows_of ?s) < 2 ^ 64"
    using unat_of_nat_fits [OF that] padded_pos [OF rows_columns_pos(1) [OF assms]]
    by (metis less_irrefl unat_0)
  have nz': "of_nat (padded (columns_of ?s)) \<noteq> (0 :: usize)" if "padded (columns_of ?s) < 2 ^ 64"
    using unat_of_nat_fits [OF that] padded_pos [OF rows_columns_pos(2) [OF assms]]
    by (metis less_irrefl unat_0)
  have "make_shape (?ds[rank ?s - 2 := a, rank ?s - Suc 0 := b])
      = Inr (TensorShape (?ds[rank ?s - 2 := a, rank ?s - Suc 0 := b]))" if "a \<noteq> 0" "b \<noteq> 0" for a b
    using assms that set_update_subset_insert [of ?ds "rank ?s - 2" a]
      set_update_subset_insert [of "?ds[rank ?s - 2 := a]" "rank ?s - Suc 0" b]
    by (auto simp: make_shape_Inr_iff valid_shape_def rank_def)
  then show ?thesis
    using nz nz' by (simp add: standard_padded_shape_def Let_def r c flip: rank_def)
qed

lemma padded_shape_properties:
  assumes "valid_shape (shape spec)" and "standard_padded_shape spec = Inr p"
  shows "valid_shape p" and "leading p = leading (shape spec)"
    and "rows_of p = padded (rows_of (shape spec))"
    and "columns_of p = padded (columns_of (shape spec))"
    and "logical_elements p = tiled_elements (shape spec)"
proof -
  let ?s = "shape spec"
  have fits: "padded (rows_of ?s) < 2 ^ 64" "padded (columns_of ?s) < 2 ^ 64"
    and p: "p = TensorShape ((dimensions ?s)
         [rank ?s - 2 := of_nat (padded (rows_of ?s)),
          rank ?s - 1 := of_nat (padded (columns_of ?s))])"
    using assms by (auto simp: standard_padded_shape_cases split: if_splits)
  have len: "rank p = rank ?s" by (simp add: p rank_def)
  have "2 \<le> length (dimensions ?s)" using assms(1) by (simp add: valid_shape_def rank_def)
  from dims_update_last2 [OF this, of unat]
  have ext: "extents p = leading ?s @ [padded (rows_of ?s), padded (columns_of ?s)]"
    using fits by (simp add: p extents_def leading_def rank_def unat_of_nat_fits)
  have pos: "0 < padded (rows_of ?s)" "0 < padded (columns_of ?s)"
    using rows_columns_pos [OF assms(1)] by (simp_all add: padded_pos)
  have "0 \<notin> set (extents p)"
    using ext pos extents_pos [OF assms(1)] extents_split [OF assms(1)] by auto
  then have "0 \<notin> set (dimensions p)" by (force simp: extents_def)
  then show valid: "valid_shape p" using assms(1) len by (simp add: valid_shape_def)
  from extents_split [OF this] ext
  show "leading p = leading ?s" "rows_of p = padded (rows_of ?s)"
    "columns_of p = padded (columns_of ?s)" by simp_all
  then show "logical_elements p = tiled_elements ?s"
    by (simp add: logical_elements_alt [OF valid] tiled_elements_def)
qed

definition packed_bytes :: "nat \<Rightarrow> nat" where
  "packed_bytes bits = (bits + 7) div 8"

lemma packed_bytes_mono: "m \<le> n \<Longrightarrow> packed_bytes m \<le> packed_bytes n"
  by (simp add: packed_bytes_def div_le_mono)

lemma bytes_of_count:
  "andThen (checked_mul count bits) bits_to_bytes =
     (if unat count * unat bits + 7 < 2 ^ 64
      then Inr (of_nat (packed_bytes (unat count * unat bits))) else Inl OverflowError)"
proof -
  have "packed_bytes n < 2 ^ 64" if "n + 7 < 2 ^ 64" for n
    using that unfolding packed_bytes_def by simp
  moreover have "bits_to_bytes m = (if unat m + 7 < 2 ^ 64
      then Inr (of_nat (packed_bytes (unat m))) else Inl OverflowError)" for m
    using calculation [of "unat m"] bits_to_bytes_Inr [of m "of_nat (packed_bytes (unat m))"]
      bits_to_bytes_Inl [of m OverflowError]
    by (auto simp: unat_of_nat_fits packed_bytes_def)
  ultimately show ?thesis
    by (auto simp: checked_mul_cases unat_mult_small)
qed

lemma logical_nbytes_cases:
  assumes "supported_spec spec"
  shows "logical_nbytes spec =
    (if logical_elements (shape spec) * leaf_width spec + 7 < 2 ^ 64
     then Inr (of_nat (packed_bytes (logical_elements (shape spec) * leaf_width spec)))
     else Inl OverflowError)"
proof -
  obtain b where valid: "valid_shape (shape spec)" and b: "leaf_bits (data_type spec) = Inr b"
    using assms by (auto simp: supported_spec_def)
  define m where "m = logical_elements (shape spec) * unat b"
  have "logical_elements (shape spec) \<le> m"
    using leaf_bits_range [OF b] by (simp add: m_def)
  then show ?thesis
    using assms validate_Inr_iff [OF valid]
    by (auto simp: logical_nbytes_def element_count_cases [OF valid] b bytes_of_count
        leaf_width_Inr [OF b] unat_of_nat_fits simp flip: m_def)
qed

lemma tiled_elements_overflow:
  assumes "valid_shape s" and "\<not> (padded (rows_of s) < 2 ^ 64 \<and> padded (columns_of s) < 2 ^ 64)"
  shows "2 ^ 64 \<le> tiled_elements s"
proof -
  have pos: "0 < prod_list (leading s)" "0 < padded (rows_of s)" "0 < padded (columns_of s)"
    using rows_columns_pos [OF assms(1)] padded_pos by auto
  have "padded (rows_of s) \<le> padded (rows_of s) * padded (columns_of s)"
    "padded (columns_of s) \<le> padded (rows_of s) * padded (columns_of s)"
    using pos by simp_all
  moreover have "padded (rows_of s) * padded (columns_of s) \<le> tiled_elements s"
    using pos by (simp add: tiled_elements_def)
  ultimately show ?thesis using assms(2) by linarith
qed

lemma tiled_storage_nbytes_cases:
  assumes "supported_spec spec"
  shows "tiled_storage_nbytes spec =
    (if tiled_elements (shape spec) * leaf_width spec + 7 < 2 ^ 64
     then Inr (of_nat (packed_bytes (tiled_elements (shape spec) * leaf_width spec)))
     else Inl OverflowError)"
proof -
  let ?s = "shape spec"
  obtain b where valid: "valid_shape ?s" and b: "leaf_bits (data_type spec) = Inr b"
    using assms by (auto simp: supported_spec_def)
  define m where "m = tiled_elements ?s * unat b"
  have ge: "tiled_elements ?s \<le> m"
    using leaf_bits_range [OF b] by (simp add: m_def)
  show ?thesis
  proof (cases "standard_padded_shape spec")
    case (Inl e)
    then have "2 ^ 64 \<le> tiled_elements ?s" "e = OverflowError"
      using tiled_elements_overflow [OF valid]
      by (auto simp: standard_padded_shape_cases [OF valid] split: if_splits)
    with ge Inl show ?thesis
      using assms validate_Inr_iff [OF valid]
      by (auto simp: tiled_storage_nbytes_def leaf_width_Inr [OF b] simp flip: m_def)
  next
    case (Inr p)
    note props = padded_shape_properties [OF valid Inr]
    show ?thesis
      using assms validate_Inr_iff [OF valid] ge Inr
      by (auto simp: tiled_storage_nbytes_def element_count_cases [OF props(1)] props(5) b
          bytes_of_count leaf_width_Inr [OF b] unat_of_nat_fits simp flip: m_def)
  qed
qed

text \<open>
  Row-major plane indices: the value the loop of \<open>standard_layout_slot\<close> computes, its bound
  and its injectivity.
\<close>

fun row_major :: "nat \<Rightarrow> nat list \<Rightarrow> nat list \<Rightarrow> nat" where
  "row_major plane (d # ds) (c # cs) = row_major (plane * d + c) ds cs"
| "row_major plane _ _ = plane"

lemma row_major_less:
  "list_all2 (<) cs ds \<Longrightarrow> plane < n \<Longrightarrow> row_major plane ds cs < n * prod_list ds"
proof (induction cs ds arbitrary: plane n rule: list_all2_induct)
  case (Cons c cs d ds)
  then have "plane * d + c < n * d" by (intro mixed_radix_less) auto
  from Cons.IH [OF this] show ?case by (simp add: mult.assoc)
qed simp

lemma row_major_inj:
  "list_all2 (<) cs ds \<Longrightarrow> list_all2 (<) cs' ds \<Longrightarrow>
   row_major plane ds cs = row_major plane' ds cs' \<Longrightarrow> plane = plane' \<and> cs = cs'"
proof (induction cs ds arbitrary: plane plane' cs' rule: list_all2_induct)
  case (Cons c cs d ds)
  obtain c' cs'' where cs': "cs' = c' # cs''" "c' < d" "list_all2 (<) cs'' ds"
    using Cons.prems(1) by (cases cs') auto
  have eq: "plane * d + c = plane' * d + c'" and "cs = cs''"
    using Cons.IH [of cs''] Cons.prems(2) cs' by simp_all
  with mixed_radix_inj [OF Cons.hyps(1) cs'(2) eq] cs' show ?case by simp
qed simp

lemma row_major_ge: "0 \<notin> set ds \<Longrightarrow> length cs = length ds \<Longrightarrow> plane \<le> row_major plane ds cs"
proof (induction ds arbitrary: plane cs)
  case (Cons d ds)
  obtain c cs' where cs: "cs = c # cs'" using Cons.prems by (cases cs) auto
  have "plane * 1 \<le> plane * d" using Cons.prems by (intro mult_le_mono2) simp
  also have "\<dots> + c \<le> row_major (plane * d + c) ds cs'" using Cons cs by simp
  finally show ?case using cs by simp
qed simp

lemma plane_index_ok:
  "0 \<notin> set ds \<Longrightarrow> length cs = length ds \<Longrightarrow>
   row_major (unat plane) (map unat ds) (map unat cs) < 2 ^ 64 \<Longrightarrow>
   \<exists>p. plane_index plane ds cs = Inr p \<and> unat p = row_major (unat plane) (map unat ds) (map unat cs)"
proof (induction ds arbitrary: plane cs)
  case (Cons d ds)
  obtain c cs' where cs: "cs = c # cs'" using Cons.prems by (cases cs) auto
  have "unat plane * unat d + unat c \<le> row_major (unat plane * unat d + unat c) (map unat ds) (map unat cs')"
    using Cons.prems cs by (intro row_major_ge) (auto simp: unat_eq_0)
  then have lt: "unat plane * unat d + unat c < 2 ^ 64" using Cons.prems(3) cs by simp
  then have lt': "unat plane * unat d < 2 ^ 64" by simp
  obtain m where m: "checked_mul plane d = Inr m" "unat m = unat plane * unat d"
    using checked_mul_ex [OF refl refl lt'] by blast
  obtain n where n: "checked_add m c = Inr n" "unat n = unat plane * unat d + unat c"
    using checked_add_ex [OF m(2) refl lt] by blast
  show ?case using Cons.IH [of cs' n] Cons.prems cs m n by simp
qed simp

section \<open>The layout as an injective code\<close>

definition in_range :: "TensorSpec \<Rightarrow> usize list \<Rightarrow> bool" where
  "in_range spec cs \<longleftrightarrow> list_all2 (<) (map unat cs) (extents (shape spec))"

definition layout_slot :: "TensorSpec \<Rightarrow> usize list \<Rightarrow> nat" where
  "layout_slot spec cs =
     (let s = shape spec; n = rank s - 2; cs = map unat cs in
      plane_slot s (row_major 0 (leading s) (take n cs)) (cs ! n) (cs ! (n + 1)))"

lemma in_range_split:
  assumes "valid_shape (shape spec)" and "in_range spec cs"
  obtains lead r c where "cs = lead @ [r, c]" and "length lead = rank (shape spec) - 2"
    and "list_all2 (<) (map unat lead) (leading (shape spec))"
    and "unat r < rows_of (shape spec)" and "unat c < columns_of (shape spec)"
proof -
  have all: "list_all2 (<) (map unat cs)
      (leading (shape spec) @ [rows_of (shape spec), columns_of (shape spec)])"
    using assms by (simp add: in_range_def extents_split)
  then have len: "length cs = length (leading (shape spec)) + 2"
    by (auto dest: list_all2_lengthD)
  have lead: "length (leading (shape spec)) = rank (shape spec) - 2"
    by (simp add: leading_def extents_def rank_def)
  obtain us r c where cs: "cs = us @ [r, c]"
    using list_split_last2 [of cs] len by (metis le_add2)
  with len have us: "length us = length (leading (shape spec))" by simp
  have "list_all2 (<) (map unat us) (leading (shape spec))"
    and "list_all2 (<) (map unat [r, c]) [rows_of (shape spec), columns_of (shape spec)]"
    using all us by (simp_all add: cs list_all2_append)
  with that [OF cs] us lead show thesis by simp
qed

lemma prod_leading_tiled:
  "prod_list (leading s) * plane_elements s = tiled_elements s"
  by (simp add: tiled_elements_def plane_elements_def)

lemma layout_slot_append:
  assumes "length lead = rank (shape spec) - 2"
  shows "layout_slot spec (lead @ [r, c]) = plane_slot (shape spec)
    (row_major 0 (leading (shape spec)) (map unat lead)) (unat r) (unat c)"
  using assms by (simp add: layout_slot_def Let_def nth_append)

lemma layout_slot_less:
  assumes "valid_shape (shape spec)" and "in_range spec cs"
  shows "layout_slot spec cs < tiled_elements (shape spec)"
proof -
  obtain lead r c where cs: "cs = lead @ [r, c]" "length lead = rank (shape spec) - 2"
    "list_all2 (<) (map unat lead) (leading (shape spec))"
    and rc: "unat r < rows_of (shape spec)" "unat c < columns_of (shape spec)"
    using in_range_split [OF assms] .
  have "row_major 0 (leading (shape spec)) (map unat lead) < 1 * prod_list (leading (shape spec))"
    using cs(3) by (rule row_major_less) simp
  then have p: "row_major 0 (leading (shape spec)) (map unat lead) < prod_list (leading (shape spec))"
    by simp
  show ?thesis
    using plane_slot_less [OF p rc] by (simp add: cs layout_slot_append prod_leading_tiled)
qed

lemma layout_slot_inj:
  assumes "valid_shape (shape spec)" and "in_range spec cs" and "in_range spec cs'"
    and eq: "layout_slot spec cs = layout_slot spec cs'"
  shows "cs = cs'"
proof -
  obtain lead r c where cs: "cs = lead @ [r, c]" "length lead = rank (shape spec) - 2"
    "list_all2 (<) (map unat lead) (leading (shape spec))"
    and rc: "unat r < rows_of (shape spec)" "unat c < columns_of (shape spec)"
    using in_range_split [OF assms(1,2)] .
  obtain lead' r' c' where cs': "cs' = lead' @ [r', c']" "length lead' = rank (shape spec) - 2"
    "list_all2 (<) (map unat lead') (leading (shape spec))"
    and rc': "unat r' < rows_of (shape spec)" "unat c' < columns_of (shape spec)"
    using in_range_split [OF assms(1,3)] .
  note eqs = plane_slot_inj [OF rc rc' eq [unfolded cs(1) cs'(1)
      layout_slot_append [OF cs(2)] layout_slot_append [OF cs'(2)]]]
  have "map unat lead = map unat lead'"
    using row_major_inj [OF cs(3) cs'(3)] eqs by blast
  then have "lead = lead'" by (simp add: inj_map_eq_map inj_unsigned)
  moreover have "r = r'" "c = c'" using eqs by (simp_all add: word_unat_eq_iff)
  ultimately show ?thesis by (simp add: cs cs')
qed

lemma in_range_checks:
  assumes "in_range spec cs"
  shows "length cs = rank (shape spec)"
    and "\<not> list_ex (\<lambda>(c, d). c \<ge> d) (zip cs (dimensions (shape spec)))"
  using assms
  by (auto simp: in_range_def extents_def rank_def list_all2_conv_all_nth list_ex_iff set_zip
      word_le_nat_alt dest: list_all2_lengthD)

lemma not_in_range_checks:
  assumes "length cs = rank (shape spec)" and "\<not> in_range spec cs"
  shows "list_ex (\<lambda>(c, d). c \<ge> d) (zip cs (dimensions (shape spec)))"
  using assms
  by (force simp: in_range_def extents_def rank_def list_all2_conv_all_nth list_ex_iff set_zip
      word_le_nat_alt)

lemma standard_layout_slot_ok:
  assumes sup: "supported_spec spec" and range: "in_range spec cs"
    and fits: "tiled_elements (shape spec) < 2 ^ 64"
  shows "\<exists>w. standard_layout_slot spec cs = Inr w \<and> unat w = layout_slot spec cs"
proof -
  let ?s = "shape spec"
  have valid: "valid_shape ?s" using sup by (simp add: supported_spec_def)
  obtain lead r c where cs: "cs = lead @ [r, c]" "length lead = rank ?s - 2"
    and all: "list_all2 (<) (map unat lead) (leading ?s)"
    and rc: "unat r < rows_of ?s" "unat c < columns_of ?s"
    using in_range_split [OF valid range] .
  have len: "length lead = length (take (rank ?s - 2) (dimensions ?s))"
    using cs(2) by (simp add: rank_def)
  have lead: "map unat (take (rank ?s - 2) (dimensions ?s)) = leading ?s"
    by (simp add: leading_def extents_def take_map)
  have nz: "0 \<notin> set (take (rank ?s - 2) (dimensions ?s))"
    using valid by (auto simp: valid_shape_def dest: in_set_takeD)
  have "row_major 0 (leading ?s) (map unat lead) < 1 * prod_list (leading ?s)"
    using all by (rule row_major_less) simp
  then have p: "row_major 0 (leading ?s) (map unat lead) < prod_list (leading ?s)" by simp
  have "prod_list (leading ?s) * 1 \<le> prod_list (leading ?s) * plane_elements ?s"
    using rows_columns_pos [OF valid] by (intro mult_le_mono2) (simp add: plane_elements_def padded_pos Suc_le_eq)
  then have "row_major 0 (leading ?s) (map unat lead) < 2 ^ 64"
    using p fits by (simp add: prod_leading_tiled)
  then obtain w where w: "plane_index 0 (take (rank ?s - 2) (dimensions ?s)) lead = Inr w"
      "unat w = row_major 0 (leading ?s) (map unat lead)"
    using plane_index_ok [OF nz len, of 0] by (auto simp: lead)
  obtain x where "standard_plane_slot spec w r c = Inr x"
      "unat x = plane_slot ?s (unat w) (unat r) (unat c)"
    using standard_plane_slot_ok [OF valid _ rc, of w "prod_list (leading ?s)"] p w fits
    by (auto simp: prod_leading_tiled)
  then show ?thesis
    using validate_Inr_iff [OF valid] sup in_range_checks [OF range] w cs
    by (simp add: standard_layout_slot_def Let_def layout_slot_append nth_append)
qed

lemma tiled_storage_fits:
  assumes sup: "supported_spec spec" and n: "tiled_storage_nbytes spec = Inr n"
  shows "tiled_elements (shape spec) < 2 ^ 64"
    and "tiled_elements (shape spec) * leaf_width spec \<le> 8 * unat n"
    and "unat n = packed_bytes (tiled_elements (shape spec) * leaf_width spec)"
proof -
  define m where "m = tiled_elements (shape spec) * leaf_width spec"
  have m: "m + 7 < 2 ^ 64" and n: "n = of_nat (packed_bytes m)"
    using n by (auto simp: tiled_storage_nbytes_cases [OF sup] m_def split: if_splits)
  obtain b where "leaf_bits (data_type spec) = Inr b" using sup by (auto simp: supported_spec_def)
  then have "0 < leaf_width spec" using leaf_bits_range [of "data_type spec" b] by (simp add: leaf_width_def)
  then have "tiled_elements (shape spec) \<le> m" by (simp add: m_def)
  then show "tiled_elements (shape spec) < 2 ^ 64" using m by simp
  have "packed_bytes m < 2 ^ 64" using m by (simp add: packed_bytes_def)
  then have un: "unat n = packed_bytes m" using n by (simp add: unat_of_nat_fits)
  then show "tiled_elements (shape spec) * leaf_width spec \<le> 8 * unat n"
    by (simp add: packed_bytes_def flip: m_def)
  show "unat n = packed_bytes (tiled_elements (shape spec) * leaf_width spec)"
    using un by (simp add: m_def)
qed

section \<open>Properties\<close>

definition sample_spec :: TensorSpec where
  "sample_spec = \<lparr>shape = TensorShape [2, 17, 18], data_type = BF16, quantization = NONE\<rparr>"

lemma sample_spec_supported: "supported_spec sample_spec"
  by (auto simp: supported_spec_def sample_spec_def valid_shape_def rank_def)

lemma sample_spec_bytes: "tiled_storage_nbytes sample_spec = Inr 4096"
  by (simp add: tiled_storage_nbytes_cases [OF sample_spec_supported])
    (simp add: sample_spec_def tiled_elements_def leading_def extents_def rows_of_def columns_of_def
      rank_def padded_def leaf_width_def packed_bytes_def)

text \<open>
  C31. Every in-range coordinate of a supported specification whose storage size does not
  overflow has a slot in the standard tiled layout; the bits of the slot lie inside the
  \<open>tiled_storage_nbytes\<close> bytes of the owner, and no other in-range coordinate has that slot.
\<close>

theorem standard_layout_slot_injective:
  assumes "supported_spec spec" and "tiled_storage_nbytes spec = Inr n" and "in_range spec cs"
  shows "\<exists>w. standard_layout_slot spec cs = Inr w
    \<and> (unat w + 1) * leaf_width spec \<le> 8 * unat n
    \<and> (\<forall>cs'. in_range spec cs' \<and> standard_layout_slot spec cs' = Inr w \<longrightarrow> cs' = cs)"
proof -
  have valid: "valid_shape (shape spec)" using assms(1) by (simp add: supported_spec_def)
  note fits = tiled_storage_fits [OF assms(1,2)]
  note ok = standard_layout_slot_ok [OF assms(1) _ fits(1)]
  obtain w where w: "standard_layout_slot spec cs = Inr w" "unat w = layout_slot spec cs"
    using ok [OF assms(3)] by blast
  have "unat w + 1 \<le> tiled_elements (shape spec)"
    using layout_slot_less [OF valid assms(3)] w by simp
  then have "(unat w + 1) * leaf_width spec \<le> tiled_elements (shape spec) * leaf_width spec"
    by (rule mult_le_mono1)
  then have le: "(unat w + 1) * leaf_width spec \<le> 8 * unat n" using fits(2) by (rule le_trans)
  have uniq: "cs' = cs" if "in_range spec cs'" "standard_layout_slot spec cs' = Inr w" for cs'
  proof -
    from ok [OF that(1)] that(2) have "unat w = layout_slot spec cs'" by auto
    with w(2) have "layout_slot spec cs' = layout_slot spec cs" by linarith
    then show ?thesis by (rule layout_slot_inj [OF valid that(1) assms(3)])
  qed
  show ?thesis
  proof (intro exI conjI allI impI)
    show "standard_layout_slot spec cs = Inr w" by (rule w(1))
    show "(unat w + 1) * leaf_width spec \<le> 8 * unat n" by (rule le)
    show "cs' = cs" if "in_range spec cs' \<and> standard_layout_slot spec cs' = Inr w" for cs'
      using that by (intro uniq) simp_all
  qed
qed

theorem standard_layout_slot_injective_witness:
  "in_range sample_spec [1, 16, 17] \<and>
   (\<exists>w. standard_layout_slot sample_spec [1, 16, 17] = Inr w
    \<and> (unat w + 1) * leaf_width sample_spec \<le> 8 * unat (4096 :: usize)
    \<and> (\<forall>cs'. in_range sample_spec cs' \<and> standard_layout_slot sample_spec cs' = Inr w
         \<longrightarrow> cs' = [1, 16, 17]))"
proof -
  have range: "in_range sample_spec [1, 16, 17]"
    by (simp add: in_range_def sample_spec_def extents_def)
  then show ?thesis
    using standard_layout_slot_injective [OF sample_spec_supported sample_spec_bytes range] by blast
qed

text \<open>
  C37. \<open>tiled_storage_nbytes\<close> on a well-formed shape: an unknown leaf or quantization value is
  an invalid argument, a grouped quantization a runtime error, a bit count that does not fit a
  \<open>size_t\<close> an overflow; otherwise it is the exact number of bytes of the shape padded to whole
  16x16 tiles, and never less than \<open>logical_nbytes\<close>.
\<close>

theorem tiled_storage_nbytes_exact:
  assumes "valid_shape (shape spec)"
  shows "tiled_storage_nbytes spec =
      (if data_type_code (data_type spec) < 0 \<or> 22 < data_type_code (data_type spec)
       then Inl InvalidArgument
       else if quantization_code (quantization spec) < 0 \<or> 24 < quantization_code (quantization spec)
       then Inl InvalidArgument
       else if quantization spec \<noteq> NONE then Inl RuntimeError
       else if tiled_elements (shape spec) * leaf_width spec + 7 < 2 ^ 64
       then Inr (of_nat (packed_bytes (tiled_elements (shape spec) * leaf_width spec)))
       else Inl OverflowError)
    \<and> (\<forall>n. tiled_storage_nbytes spec = Inr n \<longrightarrow>
         (\<exists>m. logical_nbytes spec = Inr m \<and> unat m \<le> unat n))"
proof (cases "supported_spec spec")
  case True
  then have t: "0 \<le> data_type_code (data_type spec)" "data_type_code (data_type spec) \<le> 22"
    and q: "quantization spec = NONE"
    using leaf_bits_undeclared [of "data_type spec"] by (force simp: supported_spec_def)+
  define m where "m = logical_elements (shape spec) * leaf_width spec"
  have m: "m \<le> tiled_elements (shape spec) * leaf_width spec"
    unfolding m_def using logical_le_tiled [OF assms] by (rule mult_le_mono1)
  have "\<exists>m. logical_nbytes spec = Inr m \<and> unat m \<le> unat n" if n: "tiled_storage_nbytes spec = Inr n" for n
  proof -
    have lt: "m + 7 < 2 ^ 64"
      using n m by (auto simp: tiled_storage_nbytes_cases [OF True] split: if_splits)
    then have "packed_bytes m < 2 ^ 64" by (simp add: packed_bytes_def)
    moreover have "logical_nbytes spec = Inr (of_nat (packed_bytes m))"
      using lt by (simp add: logical_nbytes_cases [OF True] flip: m_def)
    ultimately show ?thesis
      using tiled_storage_fits(3) [OF True n] packed_bytes_mono [OF m]
      by (simp add: unat_of_nat_fits)
  qed
  with t q show ?thesis by (simp add: tiled_storage_nbytes_cases [OF True])
next
  case False
  let ?bad = "data_type_code (data_type spec) < 0 \<or> 22 < data_type_code (data_type spec)"
  show ?thesis
  proof (cases ?bad)
    case True
    then have "validate spec = Inl InvalidArgument"
      by (simp add: validate_def leaf_bits_undeclared)
    with True show ?thesis by (simp add: tiled_storage_nbytes_def)
  next
    case declared: False
    then obtain b where b: "leaf_bits (data_type spec) = Inr b"
      using leaf_bits_declared [of "data_type spec"] by auto
    have "quantization spec \<noteq> NONE" using False assms b by (auto simp: supported_spec_def)
    with declared b show ?thesis
      by (simp add: tiled_storage_nbytes_def validate_def)
  qed
qed

theorem tiled_storage_nbytes_exact_witness:
  "tiled_storage_nbytes sample_spec = Inr 4096
   \<and> (\<exists>m. logical_nbytes sample_spec = Inr m \<and> unat m \<le> 4096)"
proof -
  have "valid_shape (shape sample_spec)"
    using sample_spec_supported by (simp add: supported_spec_def)
  from tiled_storage_nbytes_exact [OF this] sample_spec_bytes show ?thesis by auto
qed

end
