(* ===== verification/Tensor_Views.thy ===== *)
theory Tensor_Views
  imports Tensor_Core
begin

text \<open>
  Tensor owners and the views over them (\<open>Tensor\<close>, \<open>TensorView\<close> of
  \<open>src/include/iom/tensor.hpp\<close>, \<open>src/src/tensor_view.cpp\<close>): the dense full view of an owner,
  the leading-axis transforms \<open>slice\<close>, \<open>select\<close>, \<open>permute\<close> and \<open>reshape_leading\<close>, and
  the guards of the host transfers. A pointer is a number; objects behind pointers are read
  through an explicit store. The lemmas give every transform's effect on the plane addresses and
  show that views derived from the full view never leave their owner.
\<close>

section \<open>Owners and views\<close>

type_synonym device_ref = nat
type_synonym tensor_ref = nat

text \<open>\<open>owner_identity\<close> is a pointer, \<open>None\<close> for null; \<open>storage_handle\<close> is an address, 0 for null.\<close>

record TensorView =
  owner_identity :: "tensor_ref option"
  spec :: TensorSpec
  plane_offset :: usize
  plane_strides :: "usize list"

record Tensor =
  tensor_device :: device_ref
  full_view :: TensorView
  storage_handle :: usize

type_synonym store = "tensor_ref \<Rightarrow> Tensor"

definition leading_dimensions_of :: "TensorSpec \<Rightarrow> usize list" where
  "leading_dimensions_of s = take (rank (shape s) - 2) (dimensions (shape s))"

definition with_leading_dimensions :: "TensorSpec \<Rightarrow> usize list \<Rightarrow> TensorSpec throws" where
  "with_leading_dimensions s lead =
     andThen (make_shape (lead @ drop (rank (shape s) - 2) (dimensions (shape s)))) (\<lambda>sh.
     Inr (s\<lparr>shape := sh\<rparr>))"

text \<open>
  The strides of the dense view, from the last leading axis to the first: the loop runs over the
  axes backwards and never multiplies by the first extent.
\<close>

fun dense_strides_rev :: "usize \<Rightarrow> usize list \<Rightarrow> usize list throws" where
  "dense_strides_rev stride [] = Inr []"
| "dense_strides_rev stride [d] = Inr [stride]"
| "dense_strides_rev stride (d # e # ds) =
     andThen (checked_mul stride d) (\<lambda>next.
     andThen (dense_strides_rev next (e # ds)) (\<lambda>strides. Inr (stride # strides)))"

definition dense_plane_strides :: "TensorSpec \<Rightarrow> usize list throws" where
  "dense_plane_strides s =
     andThen (dense_strides_rev 1 (rev (leading_dimensions_of s))) (\<lambda>strides. Inr (rev strides))"

definition validated_dense_plane_strides :: "TensorSpec \<Rightarrow> usize list throws" where
  "validated_dense_plane_strides s = andThen (validate s) (\<lambda>_. dense_plane_strides s)"

text \<open>The constructor of \<open>Tensor\<close>: the object stored at reference \<open>self\<close>.\<close>

definition make_tensor :: "tensor_ref \<Rightarrow> TensorSpec \<Rightarrow> device_ref \<Rightarrow> usize \<Rightarrow> Tensor throws" where
  "make_tensor self s device handle =
     andThen (validated_dense_plane_strides s) (\<lambda>strides.
     Inr \<lparr>tensor_device = device,
          full_view = \<lparr>owner_identity = Some self, spec = s, plane_offset = 0,
                       plane_strides = strides\<rparr>,
          storage_handle = handle\<rparr>)"

section \<open>Transforms\<close>

definition slice ::
  "TensorView \<Rightarrow> usize \<Rightarrow> usize \<Rightarrow> usize \<Rightarrow> usize \<Rightarrow> TensorView throws" where
  "slice v dim first count step =
     (let leading_rank = rank (shape (spec v)) - 2; i = unat dim in
      if i \<ge> leading_rank then Inl OutOfRange
      else if count = 0 then Inl InvalidArgument
      else if step = 0 then Inl InvalidArgument
      else let stride = plane_strides v ! i in
      andThen (checked_mul (count - 1) step) (\<lambda>span.
      andThen (checked_add first span) (\<lambda>last.
      andThen (dimension (shape (spec v)) i) (\<lambda>extent.
      if last \<ge> extent then Inl OutOfRange
      else let dims = (leading_dimensions_of (spec v))[i := count] in
      andThen (checked_mul stride step) (\<lambda>sliced.
      let strides = (plane_strides v)[i := sliced] in
      andThen (checked_mul first stride) (\<lambda>skip.
      andThen (checked_add (plane_offset v) skip) (\<lambda>offset.
      andThen (with_leading_dimensions (spec v) dims) (\<lambda>s.
      Inr \<lparr>owner_identity = owner_identity v, spec = s, plane_offset = offset,
           plane_strides = strides\<rparr>))))))))"

definition erase_at :: "nat \<Rightarrow> 'a list \<Rightarrow> 'a list" where
  "erase_at i xs = take i xs @ drop (Suc i) xs"

definition select :: "TensorView \<Rightarrow> usize \<Rightarrow> usize \<Rightarrow> TensorView throws" where
  "select v dim index =
     (let leading_rank = rank (shape (spec v)) - 2; i = unat dim in
      if i \<ge> leading_rank then Inl OutOfRange
      else andThen (dimension (shape (spec v)) i) (\<lambda>extent.
      if index \<ge> extent then Inl OutOfRange
      else let stride = plane_strides v ! i;
               dims = erase_at i (leading_dimensions_of (spec v));
               strides = erase_at i (plane_strides v) in
      andThen (checked_mul index stride) (\<lambda>skip.
      andThen (checked_add (plane_offset v) skip) (\<lambda>offset.
      andThen (with_leading_dimensions (spec v) dims) (\<lambda>s.
      Inr \<lparr>owner_identity = owner_identity v, spec = s, plane_offset = offset,
           plane_strides = strides\<rparr>)))))"

text \<open>The loop over \<open>leading_order\<close> with its \<open>seen\<close> flags.\<close>

fun permutation_check :: "nat \<Rightarrow> bool list \<Rightarrow> usize list \<Rightarrow> unit throws" where
  "permutation_check leading_rank seen [] = Inr ()"
| "permutation_check leading_rank seen (axis # order) =
     (if unat axis \<ge> leading_rank then Inl InvalidArgument
      else if seen ! unat axis then Inl InvalidArgument
      else permutation_check leading_rank (seen[unat axis := True]) order)"

definition permute :: "TensorView \<Rightarrow> usize list \<Rightarrow> TensorView throws" where
  "permute v order =
     (let leading_rank = rank (shape (spec v)) - 2 in
      if length order \<noteq> leading_rank then Inl InvalidArgument
      else andThen (permutation_check leading_rank (replicate leading_rank False) order) (\<lambda>_.
      let dims = map (\<lambda>axis. dimensions (shape (spec v)) ! unat axis) order;
          strides = map (\<lambda>axis. plane_strides v ! unat axis) order in
      andThen (with_leading_dimensions (spec v) dims) (\<lambda>s.
      Inr \<lparr>owner_identity = owner_identity v, spec = s, plane_offset = plane_offset v,
           plane_strides = strides\<rparr>)))"

text \<open>The product of the new extents, rejecting a zero extent before multiplying by it.\<close>

fun reshaped_planes :: "usize \<Rightarrow> usize list \<Rightarrow> usize throws" where
  "reshaped_planes planes [] = Inr planes"
| "reshaped_planes planes (d # ds) =
     (if d = 0 then Inl InvalidArgument
      else andThen (checked_mul planes d) (\<lambda>planes. reshaped_planes planes ds))"

text \<open>The contiguity loop, over (extent, stride) pairs from the last leading axis to the first.\<close>

fun contiguity_check :: "usize \<Rightarrow> (usize \<times> usize) list \<Rightarrow> unit throws" where
  "contiguity_check expected [] = Inr ()"
| "contiguity_check expected ((d, stride) # axes) =
     (if d > 1 then
        if stride \<noteq> expected then Inl InvalidArgument
        else andThen (checked_mul expected d) (\<lambda>expected. contiguity_check expected axes)
      else contiguity_check expected axes)"

text \<open>The strides of the reshaped view, again from the last axis to the first.\<close>

fun reshaped_strides_rev :: "usize \<Rightarrow> usize list \<Rightarrow> usize list throws" where
  "reshaped_strides_rev stride [] = Inr []"
| "reshaped_strides_rev stride (d # ds) =
     andThen (checked_mul stride d) (\<lambda>next.
     andThen (reshaped_strides_rev next ds) (\<lambda>strides. Inr (stride # strides)))"

definition reshape_leading :: "TensorView \<Rightarrow> usize list \<Rightarrow> TensorView throws" where
  "reshape_leading v dims =
     (if length dims + 2 > kMaxTensorRank then Inl InvalidArgument
      else let lead = leading_dimensions_of (spec v) in
      andThen (checked_product 1 lead) (\<lambda>planes.
      andThen (reshaped_planes 1 dims) (\<lambda>new_planes.
      if new_planes \<noteq> planes then Inl InvalidArgument
      else andThen (contiguity_check 1 (rev (zip lead (plane_strides v)))) (\<lambda>_.
      andThen (reshaped_strides_rev 1 (rev dims)) (\<lambda>strides.
      andThen (with_leading_dimensions (spec v) dims) (\<lambda>s.
      Inr \<lparr>owner_identity = owner_identity v, spec = s, plane_offset = plane_offset v,
           plane_strides = rev strides\<rparr>))))))"

section \<open>Host transfers\<close>

text \<open>
  The guards of \<open>copy_from_host\<close> and \<open>copy_to_host\<close>. The region transfer is the virtual
  function of the owner's backend: an argument here, over the backend's own state.
\<close>

type_synonym byte = "8 word"

record WorkspaceRequirements =
  req_bytes :: usize
  req_alignment :: usize

definition copy_from_host ::
  "(TensorView \<Rightarrow> byte list \<Rightarrow> 's \<Rightarrow> 'r throws) \<Rightarrow> TensorView \<Rightarrow> byte list \<Rightarrow> 's \<Rightarrow> 'r throws" where
  "copy_from_host region_from_host v source s =
     andThen (logical_nbytes (spec v)) (\<lambda>nbytes.
     if length source \<noteq> unat nbytes then Inl InvalidArgument
     else if data_type (spec v) = BOOL \<and> list_ex (\<lambda>b. b \<noteq> 0 \<and> b \<noteq> 1) source
     then Inl InvalidArgument
     else region_from_host v source s)"

definition copy_to_host ::
  "(TensorView \<Rightarrow> byte list \<Rightarrow> 's \<Rightarrow> 'r throws) \<Rightarrow> TensorView \<Rightarrow> byte list \<Rightarrow> 's \<Rightarrow> 'r throws" where
  "copy_to_host region_to_host v destination s =
     andThen (logical_nbytes (spec v)) (\<lambda>nbytes.
     if length destination \<noteq> unat nbytes then Inl InvalidArgument
     else region_to_host v destination s)"

definition copy_from_host_workspace_requirements ::
  "(usize \<Rightarrow> WorkspaceRequirements throws) \<Rightarrow> TensorView \<Rightarrow> WorkspaceRequirements throws" where
  "copy_from_host_workspace_requirements host_transfer_workspace_requirements v =
     andThen (logical_nbytes (spec v)) host_transfer_workspace_requirements"

definition copy_to_host_workspace_requirements ::
  "(usize \<Rightarrow> WorkspaceRequirements throws) \<Rightarrow> TensorView \<Rightarrow> WorkspaceRequirements throws" where
  "copy_to_host_workspace_requirements host_transfer_workspace_requirements v =
     andThen (logical_nbytes (spec v)) host_transfer_workspace_requirements"

section \<open>Plane addresses\<close>

fun dot :: "nat list \<Rightarrow> nat list \<Rightarrow> nat" where
  "dot (c # cs) (s # ss) = c * s + dot cs ss"
| "dot _ _ = 0"

lemma dot_Nil2 [simp]: "dot cs [] = 0"
  by (cases cs) auto

lemma dot_update:
  "length cs = length ss \<Longrightarrow> i < length ss \<Longrightarrow>
   dot (cs[i := a]) (ss[i := b]) + cs ! i * ss ! i = dot cs ss + a * b"
proof (induction cs ss arbitrary: i rule: list_induct2')
  case (4 c cs s ss)
  then show ?case by (cases i) auto
qed simp_all

lemma dot_erase:
  "length cs = length ss \<Longrightarrow> i < length ss \<Longrightarrow>
   dot (erase_at i cs) (erase_at i ss) + cs ! i * ss ! i = dot cs ss"
proof (induction cs ss arbitrary: i rule: list_induct2')
  case (4 c cs s ss)
  then show ?case by (cases i) (auto simp: erase_at_def)
qed simp_all

lemma dot_mono:
  "list_all2 (\<le>) cs ds \<Longrightarrow> dot cs ss \<le> dot ds ss"
proof (induction cs ds arbitrary: ss rule: list_all2_induct)
  case (Cons c cs d ds)
  then show ?case by (cases ss) (auto intro: add_mono)
qed simp

lemma dot_append: "length cs = length ss \<Longrightarrow> dot (cs @ cs') (ss @ ss') = dot cs ss + dot cs' ss'"
  by (induction cs ss rule: list_induct2') auto

lemma dot_sum: "length cs = length ss \<Longrightarrow> dot cs ss = (\<Sum>i<length ss. cs ! i * ss ! i)"
  by (induction cs ss rule: list_induct2')
    (simp_all add: sum.lessThan_Suc_shift del: sum.lessThan_Suc)

definition lead_extents :: "TensorView \<Rightarrow> nat list" where
  "lead_extents v = leading (shape (spec v))"

definition lead_strides :: "TensorView \<Rightarrow> nat list" where
  "lead_strides v = map unat (plane_strides v)"

definition leading_coords :: "TensorView \<Rightarrow> nat list \<Rightarrow> bool" where
  "leading_coords v cs \<longleftrightarrow> list_all2 (<) cs (lead_extents v)"

definition view_plane :: "TensorView \<Rightarrow> nat list \<Rightarrow> nat" where
  "view_plane v cs = unat (plane_offset v) + dot cs (lead_strides v)"

definition max_plane_of :: "TensorView \<Rightarrow> nat" where
  "max_plane_of v = view_plane v (map (\<lambda>d. d - 1) (lead_extents v))"

text \<open>
  \<open>view_ok P v\<close>: a well-formed view all of whose planes lie among the first \<open>P\<close> planes of its
  owner. \<open>same_matrix\<close>: the parts of a specification that no transform changes.
\<close>

definition view_ok :: "nat \<Rightarrow> TensorView \<Rightarrow> bool" where
  "view_ok P v \<longleftrightarrow> valid_shape (shape (spec v))
     \<and> length (plane_strides v) = rank (shape (spec v)) - 2
     \<and> 0 \<notin> set (plane_strides v) \<and> max_plane_of v < P"

definition same_matrix :: "TensorSpec \<Rightarrow> TensorSpec \<Rightarrow> bool" where
  "same_matrix s s' \<longleftrightarrow> data_type s = data_type s' \<and> quantization s = quantization s'
     \<and> drop (rank (shape s) - 2) (dimensions (shape s))
       = drop (rank (shape s') - 2) (dimensions (shape s'))"

lemma same_matrix_refl [simp]: "same_matrix s s"
  by (simp add: same_matrix_def)

lemma same_matrix_trans: "same_matrix a b \<Longrightarrow> same_matrix b c \<Longrightarrow> same_matrix a c"
  by (simp add: same_matrix_def)

lemma map_leading: "map unat (leading_dimensions_of s) = leading (shape s)"
  by (simp add: leading_dimensions_of_def leading_def extents_def take_map)

lemma length_leading: "length (leading s) = rank s - 2"
  by (simp add: leading_def extents_def rank_def)

lemma length_leading_dimensions: "length (leading_dimensions_of s) = rank (shape s) - 2"
  by (simp add: leading_dimensions_of_def rank_def)

lemma with_leading_dimensions_Inr:
  assumes "valid_shape (shape s)"
  shows "with_leading_dimensions s lead = Inr s' \<longleftrightarrow>
    (length lead \<le> 6 \<and> 0 \<notin> set lead
     \<and> s' = s\<lparr>shape := TensorShape (lead @ drop (rank (shape s) - 2) (dimensions (shape s)))\<rparr>)"
proof -
  have len: "length (drop (rank (shape s) - 2) (dimensions (shape s))) = 2"
    and z: "0 \<notin> set (drop (rank (shape s) - 2) (dimensions (shape s)))"
    using assms by (auto simp: valid_shape_def rank_def dest: in_set_dropD)
  then show ?thesis
    by (auto simp: with_leading_dimensions_def exn_simps valid_shape_def rank_def)
qed

lemma with_leading_dimensions_Inl:
  assumes "valid_shape (shape s)"
  shows "with_leading_dimensions s lead = Inl e \<longleftrightarrow>
    e = InvalidArgument \<and> (6 < length lead \<or> 0 \<in> set lead)"
proof -
  have len: "length (drop (rank (shape s) - 2) (dimensions (shape s))) = 2"
    and z: "0 \<notin> set (drop (rank (shape s) - 2) (dimensions (shape s)))"
    using assms by (auto simp: valid_shape_def rank_def dest: in_set_dropD)
  then show ?thesis
    by (auto simp: with_leading_dimensions_def exn_simps valid_shape_def rank_def)
qed

lemma with_leading_dimensions_facts:
  assumes "valid_shape (shape s)" and "with_leading_dimensions s lead = Inr s'"
  shows "valid_shape (shape s')" and "same_matrix s' s" and "leading (shape s') = map unat lead"
    and "rank (shape s') = length lead + 2" and "leading_dimensions_of s' = lead"
proof -
  have len: "length (drop (rank (shape s) - 2) (dimensions (shape s))) = 2"
    and z: "0 \<notin> set (drop (rank (shape s) - 2) (dimensions (shape s)))"
    using assms by (auto simp: valid_shape_def rank_def dest: in_set_dropD)
  have s': "length lead \<le> 6" "0 \<notin> set lead"
    "s' = s\<lparr>shape := TensorShape (lead @ drop (rank (shape s) - 2) (dimensions (shape s)))\<rparr>"
    using assms by (simp_all add: with_leading_dimensions_Inr)
  then show r: "rank (shape s') = length lead + 2" using len by (simp add: rank_def)
  show "valid_shape (shape s')" using r s' z len by (auto simp: valid_shape_def)
  show "leading_dimensions_of s' = lead" using r s' by (simp add: leading_dimensions_of_def)
  then show "leading (shape s') = map unat lead" by (simp flip: map_leading)
  show "same_matrix s' s" using r s' by (simp add: same_matrix_def)
qed

lemma lead_extents_nth:
  "i < rank (shape (spec v)) - 2 \<Longrightarrow> lead_extents v ! i = unat (leading_dimensions_of (spec v) ! i)"
  by (simp add: lead_extents_def length_leading_dimensions flip: map_leading)

lemma leading_dimensions_nth:
  "i < rank (shape s) - 2 \<Longrightarrow> leading_dimensions_of s ! i = dimensions (shape s) ! i"
  by (simp add: leading_dimensions_of_def)

lemma dimension_leading:
  "i < rank (shape s) - 2 \<Longrightarrow> dimension (shape s) i = Inr (leading_dimensions_of s ! i)"
  by (simp add: dimension_def leading_dimensions_nth)

lemma leading_coords_nth:
  "leading_coords v cs \<longleftrightarrow> length cs = length (lead_extents v)
     \<and> (\<forall>i < length cs. cs ! i < lead_extents v ! i)"
  by (auto simp: leading_coords_def list_all2_conv_all_nth)

text \<open>Every plane a well-formed view addresses is at most its largest plane.\<close>

lemma view_plane_le_max: "leading_coords v cs \<Longrightarrow> view_plane v cs \<le> max_plane_of v"
proof -
  assume "leading_coords v cs"
  then have "list_all2 (\<le>) cs (map (\<lambda>d. d - 1) (lead_extents v))"
    unfolding leading_coords_def by (auto simp: list_all2_map2 elim!: list_all2_mono)
  then show ?thesis
    unfolding view_plane_def max_plane_of_def by (intro add_left_mono dot_mono)
qed

lemma list_all2_update_coord:
  fixes x y :: nat
  assumes "y < ds ! i" and "list_all2 (<) cs (ds[i := x])"
  shows "list_all2 (<) (cs[i := y]) ds"
proof -
  have len: "length cs = length ds" using assms(2) by (auto dest: list_all2_lengthD)
  have "(cs[i := y]) ! j < ds ! j" if "j < length ds" for j
    using assms list_all2_nthD [OF assms(2), of j] that len by (cases "j = i") auto
  with len show ?thesis by (simp add: list_all2_conv_all_nth)
qed

lemma view_plane_in_owner:
  "view_ok P v \<Longrightarrow> leading_coords v cs \<Longrightarrow> view_plane v cs < P"
  using view_plane_le_max unfolding view_ok_def by (blast intro: le_less_trans)

lemma top_coords: "valid_shape (shape (spec v)) \<Longrightarrow> leading_coords v (map (\<lambda>d. d - 1) (lead_extents v))"
proof -
  assume valid: "valid_shape (shape (spec v))"
  then have "0 \<notin> set (lead_extents v)"
    using extents_pos [OF valid] by (auto simp: lead_extents_def leading_def dest: in_set_takeD)
  then have "d - 1 < d" if "d \<in> set (lead_extents v)" for d
    using that by (cases d) auto
  then show ?thesis
    unfolding leading_coords_def by (auto simp: list_all2_map1 list_all2_same)
qed

text \<open>
  A transform is described by the coordinates of the source it reads for given coordinates of
  the result. If these are in range and address the same plane, the result is well formed.
\<close>

definition transforms :: "TensorView \<Rightarrow> (nat list \<Rightarrow> nat list) \<Rightarrow> TensorView \<Rightarrow> bool" where
  "transforms v f v' \<longleftrightarrow> owner_identity v' = owner_identity v \<and> same_matrix (spec v') (spec v)
     \<and> (\<forall>cs. leading_coords v' cs \<longrightarrow> leading_coords v (f cs) \<and> view_plane v' cs = view_plane v (f cs))"

lemma transforms_ok:
  assumes "view_ok P v" and "transforms v f v'"
    and "valid_shape (shape (spec v'))" and "length (plane_strides v') = rank (shape (spec v')) - 2"
    and "0 \<notin> set (plane_strides v')"
  shows "view_ok P v'"
proof -
  let ?top = "map (\<lambda>d. d - 1) (lead_extents v')"
  have "leading_coords v (f ?top) \<and> view_plane v' ?top = view_plane v (f ?top)"
    using assms(2) top_coords [OF assms(3)] by (simp add: transforms_def)
  then have "max_plane_of v' < P"
    using view_plane_in_owner [OF assms(1)] by (simp add: max_plane_of_def)
  with assms(3-5) show ?thesis by (simp add: view_ok_def)
qed

lemma slice_InrD:
  assumes "slice v dim first count step = Inr v'"
  obtains last sliced skip :: usize and s where "unat dim < rank (shape (spec v)) - 2" and "count \<noteq> 0" and "step \<noteq> 0"
    and "unat last = unat first + (unat count - 1) * unat step"
    and "unat last < lead_extents v ! unat dim"
    and "unat sliced = unat (plane_strides v ! unat dim) * unat step"
    and "unat skip = unat (plane_offset v) + unat first * unat (plane_strides v ! unat dim)"
    and "with_leading_dimensions (spec v) ((leading_dimensions_of (spec v))[unat dim := count]) = Inr s"
    and "v' = \<lparr>owner_identity = owner_identity v, spec = s, plane_offset = skip,
               plane_strides = (plane_strides v)[unat dim := sliced]\<rparr>"
proof -
  let ?i = "unat dim" and ?stride = "plane_strides v ! unat dim"
  from assms obtain span last sliced skip0 skip s where
    i: "?i < rank (shape (spec v)) - 2" and nz: "count \<noteq> 0" "step \<noteq> 0"
    and span: "checked_mul (count - 1) step = Inr span" and last: "checked_add first span = Inr last"
    and range: "last < leading_dimensions_of (spec v) ! ?i"
    and sliced: "checked_mul ?stride step = Inr sliced"
    and skip: "checked_mul first ?stride = Inr skip0" "checked_add (plane_offset v) skip0 = Inr skip"
    and s: "with_leading_dimensions (spec v) ((leading_dimensions_of (spec v))[?i := count]) = Inr s"
    and v': "v' = \<lparr>owner_identity = owner_identity v, spec = s, plane_offset = skip,
               plane_strides = (plane_strides v)[?i := sliced]\<rparr>"
    by (auto simp: slice_def Let_def exn_simps dimension_leading not_le split: if_splits)
  show thesis
  proof (rule that [of last sliced skip s, OF i nz _ _ _ _ s v'])
    show "unat last = unat first + (unat count - 1) * unat step"
      using span last nz(1) by (simp add: unat_simps unat_minus_one)
    show "unat last < lead_extents v ! ?i"
      using range i by (simp add: lead_extents_nth word_less_nat_alt)
    show "unat sliced = unat ?stride * unat step" using sliced by (simp add: unat_simps)
    show "unat skip = unat (plane_offset v) + unat first * unat ?stride"
      using skip by (simp add: unat_simps)
  qed
qed

lemma slice_transforms:
  assumes ok: "view_ok P v" and slice: "slice v dim first count step = Inr v'"
  shows "transforms v (\<lambda>cs. cs[unat dim := unat first + cs ! unat dim * unat step]) v'"
    and "view_ok P v'"
proof -
  let ?i = "unat dim"
  obtain last sliced skip :: usize and s where i: "?i < rank (shape (spec v)) - 2" and c: "count \<noteq> 0" "step \<noteq> 0"
    and last: "unat last = unat first + (unat count - 1) * unat step"
    and range: "unat last < lead_extents v ! ?i"
    and sliced: "unat sliced = unat (plane_strides v ! ?i) * unat step"
    and skip: "unat skip = unat (plane_offset v) + unat first * unat (plane_strides v ! ?i)"
    and s: "with_leading_dimensions (spec v) ((leading_dimensions_of (spec v))[?i := count]) = Inr s"
    and v': "v' = \<lparr>owner_identity = owner_identity v, spec = s, plane_offset = skip,
               plane_strides = (plane_strides v)[?i := sliced]\<rparr>"
    using slice_InrD [OF slice] .
  have valid: "valid_shape (shape (spec v))" and len: "length (plane_strides v) = rank (shape (spec v)) - 2"
    and nz: "0 \<notin> set (plane_strides v)"
    using ok by (simp_all add: view_ok_def)
  note facts = with_leading_dimensions_facts [OF valid s]
  have lead: "lead_extents v' = (lead_extents v)[?i := unat count]"
    by (simp add: lead_extents_def v' facts(3) map_update map_leading)
  have str: "lead_strides v' = (lead_strides v)[?i := unat sliced]"
    by (simp add: lead_strides_def v' map_update)
  have lens: "length (lead_strides v) = rank (shape (spec v)) - 2"
    "length (lead_extents v) = rank (shape (spec v)) - 2"
    by (simp_all add: lead_strides_def lead_extents_def length_leading len)
  have step: "leading_coords v (cs[?i := unat first + cs ! ?i * unat step])
      \<and> view_plane v' cs = view_plane v (cs[?i := unat first + cs ! ?i * unat step])"
    if cs: "leading_coords v' cs" for cs
  proof -
    have lc: "length cs = rank (shape (spec v)) - 2"
      using cs lens by (simp add: leading_coords_nth lead)
    have bound: "cs ! ?i < unat count"
      using cs lens i by (auto simp: leading_coords_nth lead)
    have "cs ! ?i * unat step \<le> (unat count - 1) * unat step"
      using bound by (intro mult_le_mono1) simp
    then have "unat first + cs ! ?i * unat step < lead_extents v ! ?i" using last range by linarith
    then have "leading_coords v (cs[?i := unat first + cs ! ?i * unat step])"
      using cs unfolding leading_coords_def lead by (rule list_all2_update_coord)
    moreover have "dot (cs[?i := unat first + cs ! ?i * unat step]) (lead_strides v)
        + cs ! ?i * unat sliced
        = dot cs (lead_strides v') + (unat first + cs ! ?i * unat step) * lead_strides v ! ?i"
      using dot_update [of cs "lead_strides v'" ?i "unat first + cs ! ?i * unat step" "lead_strides v ! ?i"]
        lc lens i by (simp add: str)
    moreover have "lead_strides v ! ?i = unat (plane_strides v ! ?i)"
      using i len by (simp add: lead_strides_def)
    ultimately show ?thesis
      by (simp add: view_plane_def v' skip sliced algebra_simps)
  qed
  then show tr: "transforms v (\<lambda>cs. cs[?i := unat first + cs ! ?i * unat step]) v'"
    by (simp add: transforms_def v' facts(2))
  have "unat (plane_strides v ! ?i) \<noteq> 0" "unat step \<noteq> 0"
    using nz i len c by (auto simp: unat_eq_0 in_set_conv_nth)
  then have "sliced \<noteq> 0" using sliced by (auto simp: unat_eq_0 simp flip: unat_0)
  then have "0 \<notin> set (plane_strides v')"
    using nz set_update_subset_insert [of "plane_strides v" ?i sliced] by (auto simp: v')
  with transforms_ok [OF ok tr] show "view_ok P v'"
    by (simp add: v' facts len length_leading_dimensions)
qed

definition insert_at :: "nat \<Rightarrow> 'a \<Rightarrow> 'a list \<Rightarrow> 'a list" where
  "insert_at i x xs = take i xs @ x # drop i xs"

lemma erase_insert: "i \<le> length xs \<Longrightarrow> erase_at i (insert_at i x xs) = xs"
  by (simp add: erase_at_def insert_at_def)

lemma length_erase: "i < length xs \<Longrightarrow> length (erase_at i xs) = length xs - 1"
  by (simp add: erase_at_def)

lemma map_erase: "map f (erase_at i xs) = erase_at i (map f xs)"
  by (simp add: erase_at_def take_map drop_map)

lemma set_erase: "set (erase_at i xs) \<subseteq> set xs"
  by (auto simp: erase_at_def dest: in_set_takeD in_set_dropD)

lemma list_all2_insert_coord:
  assumes "i < length ds" and "x < ds ! i" and "list_all2 (<) cs (erase_at i ds)"
  shows "list_all2 (<) (insert_at i x cs) (ds :: nat list)"
proof -
  have len: "length cs = length ds - 1"
    using assms(1,3) by (auto dest: list_all2_lengthD simp: length_erase)
  have split: "ds = take i ds @ ds ! i # drop (Suc i) ds"
    using assms(1) by (rule id_take_nth_drop)
  have "list_all2 (<) (take i cs @ drop i cs) (take i ds @ drop (Suc i) ds)"
    using assms(3) by (simp add: erase_at_def)
  then have "list_all2 (<) (take i cs) (take i ds)" "list_all2 (<) (drop i cs) (drop (Suc i) ds)"
    using assms(1) len by (auto simp: list_all2_append simp del: append_take_drop_id)
  then have "list_all2 (<) (take i cs @ x # drop i cs) (take i ds @ ds ! i # drop (Suc i) ds)"
    using assms(2) by (intro list_all2_appendI) simp_all
  then show ?thesis unfolding insert_at_def using split by simp
qed

lemma select_transforms:
  assumes ok: "view_ok P v" and select: "select v dim index = Inr v'"
  shows "transforms v (insert_at (unat dim) (unat index)) v'" and "view_ok P v'"
proof -
  let ?i = "unat dim" and ?stride = "plane_strides v ! unat dim"
  from select obtain skip0 skip s where i: "?i < rank (shape (spec v)) - 2"
    and range: "index < leading_dimensions_of (spec v) ! ?i"
    and skip0: "checked_mul index ?stride = Inr skip0" "checked_add (plane_offset v) skip0 = Inr skip"
    and s: "with_leading_dimensions (spec v) (erase_at ?i (leading_dimensions_of (spec v))) = Inr s"
    and v': "v' = \<lparr>owner_identity = owner_identity v, spec = s, plane_offset = skip,
               plane_strides = erase_at ?i (plane_strides v)\<rparr>"
    by (auto simp: select_def Let_def exn_simps dimension_leading not_le split: if_splits)
  have skip: "unat skip = unat (plane_offset v) + unat index * unat ?stride"
    using skip0 by (simp add: unat_simps)
  have valid: "valid_shape (shape (spec v))" and len: "length (plane_strides v) = rank (shape (spec v)) - 2"
    and nz: "0 \<notin> set (plane_strides v)"
    using ok by (simp_all add: view_ok_def)
  note facts = with_leading_dimensions_facts [OF valid s]
  have lead: "lead_extents v' = erase_at ?i (lead_extents v)"
    by (simp add: lead_extents_def v' facts(3) map_erase map_leading)
  have str: "lead_strides v' = erase_at ?i (lead_strides v)"
    by (simp add: lead_strides_def v' map_erase)
  have lens: "length (lead_strides v) = rank (shape (spec v)) - 2"
    "length (lead_extents v) = rank (shape (spec v)) - 2"
    by (simp_all add: lead_strides_def lead_extents_def length_leading len)
  have lt: "unat index < lead_extents v ! ?i"
    using range i by (simp add: lead_extents_nth word_less_nat_alt)
  have "leading_coords v (insert_at ?i (unat index) cs)
      \<and> view_plane v' cs = view_plane v (insert_at ?i (unat index) cs)"
    if cs: "leading_coords v' cs" for cs
  proof -
    have all: "list_all2 (<) (insert_at ?i (unat index) cs) (lead_extents v)"
      using cs i lens lt unfolding leading_coords_def lead by (intro list_all2_insert_coord) auto
    then have l: "length (insert_at ?i (unat index) cs) = length (lead_strides v)"
      using lens by (auto dest: list_all2_lengthD)
    moreover have le: "?i \<le> length cs"
      using cs i lens by (auto simp: leading_coords_def lead length_erase dest!: list_all2_lengthD)
    ultimately have "dot cs (lead_strides v') + unat index * lead_strides v ! ?i
        = dot (insert_at ?i (unat index) cs) (lead_strides v)"
      using dot_erase [OF l, of ?i] i lens
      by (simp add: str erase_insert) (simp add: insert_at_def nth_append)
    moreover have "lead_strides v ! ?i = unat ?stride"
      using i len by (simp add: lead_strides_def)
    ultimately show ?thesis
      using all by (simp add: leading_coords_def view_plane_def v' skip)
  qed
  then show tr: "transforms v (insert_at ?i (unat index)) v'"
    by (simp add: transforms_def v' facts(2))
  have "0 \<notin> set (plane_strides v')" using nz set_erase [of ?i "plane_strides v"] by (auto simp: v')
  with transforms_ok [OF ok tr] show "view_ok P v'"
    using i by (simp add: v' facts len length_leading_dimensions length_erase)
qed

lemma permutation_check_Inr:
  "length seen = n \<Longrightarrow> permutation_check n seen order = Inr () \<longleftrightarrow>
     distinct (map unat order) \<and> (\<forall>a \<in> set order. unat a < n \<and> \<not> seen ! unat a)"
proof (induction order arbitrary: seen)
  case (Cons a order)
  then show ?case
    by (cases "unat a < n \<and> \<not> seen ! unat a")
      (auto simp: nth_list_update image_iff)
qed simp

lemma permutation_check_Inl: "permutation_check n seen order = Inl e \<Longrightarrow> e = InvalidArgument"
  by (induction n seen order rule: permutation_check.induct) (auto split: if_splits)

definition permutes_axes :: "nat \<Rightarrow> nat list \<Rightarrow> bool" where
  "permutes_axes n ord \<longleftrightarrow> length ord = n \<and> distinct ord \<and> set ord \<subseteq> {..<n}"

text \<open>Coordinates of the source: axis \<open>order[j]\<close> takes the \<open>j\<close>-th coordinate of the result.\<close>

definition unpermute :: "nat list \<Rightarrow> nat list \<Rightarrow> nat list" where
  "unpermute ord cs = map (\<lambda>i. the (map_of (zip ord cs) i)) [0..<length ord]"

lemma permutes_axes_bij:
  assumes "permutes_axes n ord"
  shows "bij_betw ((!) ord) {..<n} {..<n}"
proof -
  have "set ord = {..<n}"
    using assms by (intro card_subset_eq) (auto simp: permutes_axes_def distinct_card)
  then show ?thesis
    using assms by (intro bij_betw_nth) (auto simp: permutes_axes_def)
qed

lemma unpermute_nth:
  assumes "permutes_axes n ord" and "length cs = n" and "j < n"
  shows "unpermute ord cs ! (ord ! j) = cs ! j"
proof -
  have "ord ! j \<in> set ord" using assms by (simp add: permutes_axes_def)
  then have "ord ! j < n" using assms(1) by (auto simp: permutes_axes_def)
  then show ?thesis
    using assms by (simp add: unpermute_def permutes_axes_def map_of_zip_nth)
qed

lemma dot_unpermute:
  assumes "permutes_axes n ord" and "length cs = n" and "length ss = n"
  shows "dot cs (map ((!) ss) ord) = dot (unpermute ord cs) ss"
proof -
  have len: "length ord = n" using assms(1) by (simp add: permutes_axes_def)
  have "dot cs (map ((!) ss) ord) = (\<Sum>j<n. unpermute ord cs ! (ord ! j) * ss ! (ord ! j))"
    using assms len by (subst dot_sum) (auto simp: unpermute_nth [OF assms(1,2)] intro: sum.cong)
  also have "\<dots> = (\<Sum>i<n. unpermute ord cs ! i * ss ! i)"
    by (rule sum.reindex_bij_betw [OF permutes_axes_bij [OF assms(1)]])
  also have "\<dots> = dot (unpermute ord cs) ss"
    using assms len by (subst dot_sum) (simp_all add: unpermute_def)
  finally show ?thesis .
qed

lemma unpermute_bound:
  assumes "permutes_axes n ord" and "length ds = n" and "list_all2 (<) cs (map ((!) ds) ord)"
  shows "list_all2 (<) (unpermute ord cs) ds"
proof -
  have len: "length ord = n" "length cs = n"
    using assms list_all2_lengthD [OF assms(3)] by (simp_all add: permutes_axes_def)
  have "unpermute ord cs ! i < ds ! i" if "i < n" for i
  proof -
    have "i \<in> (!) ord ` {..<n}"
      using bij_betw_imp_surj_on [OF permutes_axes_bij [OF assms(1)]] that by simp
    then obtain j where j: "j < n" "i = ord ! j" by auto
    have "cs ! j < map ((!) ds) ord ! j"
      using list_all2_nthD [OF assms(3), of j] j len by simp
    then show ?thesis
      using unpermute_nth [OF assms(1) len(2) j(1)] j len by simp
  qed
  then show ?thesis
    using assms(2) len by (simp add: list_all2_conv_all_nth unpermute_def)
qed

lemma permute_transforms:
  assumes ok: "view_ok P v" and permute: "permute v order = Inr v'"
  shows "transforms v (unpermute (map unat order)) v'" and "view_ok P v'"
proof -
  let ?n = "rank (shape (spec v)) - 2" and ?ord = "map unat order"
  from permute obtain s where length: "length order = ?n"
    and check: "permutation_check ?n (replicate ?n False) order = Inr ()"
    and s: "with_leading_dimensions (spec v)
        (map (\<lambda>axis. dimensions (shape (spec v)) ! unat axis) order) = Inr s"
    and v': "v' = \<lparr>owner_identity = owner_identity v, spec = s, plane_offset = plane_offset v,
               plane_strides = map (\<lambda>axis. plane_strides v ! unat axis) order\<rparr>"
    by (auto simp: permute_def Let_def exn_simps split: if_splits)
  have ord: "permutes_axes ?n ?ord"
    using check length by (auto simp: permutation_check_Inr permutes_axes_def)
  then have lt: "unat a < ?n" if "a \<in> set order" for a using that by (auto simp: permutes_axes_def)
  have valid: "valid_shape (shape (spec v))" and len: "length (plane_strides v) = ?n"
    and nz: "0 \<notin> set (plane_strides v)"
    using ok by (simp_all add: view_ok_def)
  note facts = with_leading_dimensions_facts [OF valid s]
  have lens: "length (lead_strides v) = ?n" "length (lead_extents v) = ?n"
    by (simp_all add: lead_strides_def lead_extents_def length_leading len)
  have lead: "lead_extents v' = map ((!) (lead_extents v)) ?ord"
    using lt by (auto simp: lead_extents_def v' facts(3) lead_extents_nth [unfolded lead_extents_def]
        leading_dimensions_nth)
  have str: "lead_strides v' = map ((!) (lead_strides v)) ?ord"
    using lt len by (auto simp: lead_strides_def v')
  have "leading_coords v (unpermute ?ord cs) \<and> view_plane v' cs = view_plane v (unpermute ?ord cs)"
    if cs: "leading_coords v' cs" for cs
  proof -
    have "length cs = ?n"
      using cs length by (auto simp: leading_coords_def lead dest: list_all2_lengthD)
    then show ?thesis
      using cs unpermute_bound [OF ord lens(2)] dot_unpermute [OF ord _ lens(1)]
      by (simp add: leading_coords_def view_plane_def lead str) (simp add: v')
  qed
  then show tr: "transforms v (unpermute ?ord) v'"
    by (simp add: transforms_def v' facts(2))
  have "0 \<notin> set (plane_strides v')"
  proof
    assume "0 \<in> set (plane_strides v')"
    then obtain a where a: "a \<in> set order" "plane_strides v ! unat a = 0" by (auto simp: v')
    then have "0 \<in> set (plane_strides v)" using lt [OF a(1)] len by (metis nth_mem)
    with nz show False by blast
  qed
  with transforms_ok [OF ok tr] show "view_ok P v'" by (simp add: v' facts)
qed

text \<open>Row-major numbers with the least significant axis first, and their digits.\<close>

fun rank_rev :: "nat list \<Rightarrow> nat list \<Rightarrow> nat" where
  "rank_rev (c # cs) (d # ds) = c + d * rank_rev cs ds"
| "rank_rev _ _ = 0"

fun digits_rev :: "nat list \<Rightarrow> nat \<Rightarrow> nat list" where
  "digits_rev [] n = []"
| "digits_rev (d # ds) n = n mod d # digits_rev ds (n div d)"

lemma rank_rev_Nil2 [simp]: "rank_rev cs [] = 0"
  by (cases cs) auto

lemma rank_rev_append:
  "length cs = length ds \<Longrightarrow>
   rank_rev (cs @ [c]) (ds @ [d]) = rank_rev cs ds + prod_list ds * c"
  by (induction cs ds rule: list_induct2) (simp_all add: algebra_simps)

lemma row_major_rank_rev:
  "length cs = length ds \<Longrightarrow> row_major p ds cs = p * prod_list ds + rank_rev (rev cs) (rev ds)"
proof (induction cs ds arbitrary: p rule: list_induct2)
  case (Cons c cs d ds)
  have "prod_list (rev ds) = prod_list ds" by (rule prod_list.rev)
  with Cons show ?case by (simp add: rank_rev_append algebra_simps)
qed simp

lemma digits_rev_less: "0 \<notin> set ds \<Longrightarrow> list_all2 (<) (digits_rev ds n) ds"
  by (induction ds n rule: digits_rev.induct) auto

lemma rank_digits_rev: "n < prod_list ds \<Longrightarrow> rank_rev (digits_rev ds n) ds = n"
proof (induction ds n rule: digits_rev.induct)
  case (2 d ds n)
  then have "n div d < prod_list ds"
    by (simp add: less_mult_imp_div_less mult.commute)
  with 2 show ?case by simp
qed simp

lemma dot_rev: "length cs = length ss \<Longrightarrow> dot (rev cs) (rev ss) = dot cs ss"
  by (induction cs ss rule: list_induct2') (simp_all add: dot_append)

lemma contiguity_dot:
  assumes "contiguity_check e (zip ds ss) = Inr ()" and "length ss = length ds"
    and "list_all2 (<) cs (map unat ds)"
  shows "dot cs (map unat ss) = unat e * rank_rev cs (map unat ds)"
  using assms
proof (induction ds arbitrary: e ss cs)
  case (Cons d ds)
  obtain s ss' where ss: "ss = s # ss'" "length ss' = length ds"
    using Cons.prems(2) by (cases ss) auto
  obtain c cs' where cs: "cs = c # cs'" "c < unat d" "list_all2 (<) cs' (map unat ds)"
    using Cons.prems(3) by (cases cs) auto
  show ?case
  proof (cases "d > 1")
    case True
    then obtain e' where "s = e" "unat e' = unat e * unat d"
      "contiguity_check e' (zip ds ss') = Inr ()"
      using Cons.prems(1) ss by (auto simp: exn_simps unat_simps split: if_splits)
    with Cons.IH [of e' ss' cs'] ss cs show ?thesis by (simp add: algebra_simps)
  next
    case False
    then have "unat d \<le> 1" by (simp add: word_less_nat_alt not_less)
    with cs have "c = 0" "unat d = 1" by simp_all
    moreover have "contiguity_check e (zip ds ss') = Inr ()"
      using Cons.prems(1) ss False by simp
    ultimately show ?thesis using Cons.IH [of e ss' cs'] ss cs by simp
  qed
qed simp

lemma reshaped_strides_dot:
  "reshaped_strides_rev s ds = Inr ss \<Longrightarrow>
   length ss = length ds \<and> (\<forall>cs. dot cs (map unat ss) = unat s * rank_rev cs (map unat ds))"
proof (induction s ds arbitrary: ss rule: reshaped_strides_rev.induct)
  case (2 s d ds)
  obtain s' ss' where s': "checked_mul s d = Inr s'" "reshaped_strides_rev s' ds = Inr ss'" "ss = s # ss'"
    using "2.prems" by (auto simp: exn_simps)
  have IH: "length ss' = length ds" "dot cs (map unat ss') = unat s' * rank_rev cs (map unat ds)" for cs
    using "2.IH" [OF s'(1,2)] by simp_all
  have "dot cs (map unat ss) = unat s * rank_rev cs (map unat (d # ds))" for cs
    using IH(2) s'(1,3) by (cases cs) (auto simp: unat_simps algebra_simps)
  with IH(1) s'(3) show ?case by simp
qed auto

lemma dense_strides_dot:
  "dense_strides_rev s ds = Inr ss \<Longrightarrow>
   length ss = length ds \<and> (\<forall>cs. dot cs (map unat ss) = unat s * rank_rev cs (map unat ds))"
proof (induction s ds arbitrary: ss rule: dense_strides_rev.induct)
  case (1 s)
  then show ?case by auto
next
  case (2 s d)
  have "dot cs [unat s] = unat s * rank_rev cs [unat d]" for cs
    by (cases cs) auto
  with 2 show ?case by auto
next
  case (3 s d e ds)
  obtain s' ss' where s': "checked_mul s d = Inr s'" "dense_strides_rev s' (e # ds) = Inr ss'"
    "ss = s # ss'"
    using "3.prems" by (auto simp: exn_simps)
  have IH: "length ss' = length (e # ds)"
    "dot cs (map unat ss') = unat s' * rank_rev cs (map unat (e # ds))" for cs
    using "3.IH" [OF s'(1,2)] by simp_all
  have "dot cs (map unat ss) = unat s * rank_rev cs (map unat (d # e # ds))" for cs
    using IH(2) s'(1,3) by (cases cs) (simp_all add: unat_simps algebra_simps)
  with IH(1) s'(3) show ?case by simp
qed

lemma reshaped_strides_nonzero:
  "reshaped_strides_rev s ds = Inr ss \<Longrightarrow> s \<noteq> 0 \<Longrightarrow> 0 \<notin> set ds \<Longrightarrow> 0 \<notin> set ss"
proof (induction s ds arbitrary: ss rule: reshaped_strides_rev.induct)
  case (2 s d ds)
  obtain s' ss' where s': "checked_mul s d = Inr s'" "reshaped_strides_rev s' ds = Inr ss'" "ss = s # ss'"
    using "2.prems" by (auto simp: exn_simps)
  have "unat s' \<noteq> 0" using s'(1) "2.prems" by (simp add: unat_simps unat_eq_0)
  then have "s' \<noteq> 0" by auto
  with 2 s' show ?case by auto
qed simp

lemma dense_strides_nonzero:
  "dense_strides_rev s ds = Inr ss \<Longrightarrow> s \<noteq> 0 \<Longrightarrow> 0 \<notin> set ds \<Longrightarrow> 0 \<notin> set ss"
proof (induction s ds arbitrary: ss rule: dense_strides_rev.induct)
  case (3 s d e ds)
  obtain s' ss' where s': "checked_mul s d = Inr s'" "dense_strides_rev s' (e # ds) = Inr ss'"
    "ss = s # ss'"
    using "3.prems" by (auto simp: exn_simps)
  have "unat s' \<noteq> 0" using s'(1) "3.prems" by (simp add: unat_simps unat_eq_0)
  then have "s' \<noteq> 0" by auto
  with 3 s' show ?case by auto
qed auto

lemma reshaped_planes_Inr:
  "reshaped_planes p ds = Inr r \<Longrightarrow> 0 \<notin> set ds \<and> unat r = unat p * prod_list (map unat ds)"
proof (induction p ds arbitrary: r rule: reshaped_planes.induct)
  case (2 p d ds)
  then obtain q where d: "d \<noteq> 0" and q: "checked_mul p d = Inr q" "reshaped_planes q ds = Inr r"
    by (auto simp: exn_simps split: if_splits)
  from q(1) have "unat q = unat p * unat d" by (simp add: unat_simps)
  with "2.IH" [OF d q] d show ?case by (simp add: mult.assoc)
qed simp

lemma leading_nonzero: "valid_shape (shape s) \<Longrightarrow> 0 \<notin> set (leading_dimensions_of s)"
  by (auto simp: valid_shape_def leading_dimensions_of_def dest: in_set_takeD)

lemma lead_extents_nonzero: "valid_shape (shape (spec v)) \<Longrightarrow> 0 \<notin> set (lead_extents v)"
  using leading_nonzero [of "spec v"]
  by (auto simp: lead_extents_def unat_eq_0 simp flip: map_leading)

text \<open>
  A view whose planes are the row-major numbers of its coordinates, as the dense full view's and
  every contiguous view's are.
\<close>

definition contiguous :: "TensorView \<Rightarrow> bool" where
  "contiguous v \<longleftrightarrow> (\<forall>cs. leading_coords v cs \<longrightarrow>
     view_plane v cs = unat (plane_offset v) + row_major 0 (lead_extents v) cs)"

definition coords_of :: "TensorView \<Rightarrow> nat \<Rightarrow> nat list" where
  "coords_of v n = rev (digits_rev (rev (lead_extents v)) n)"

lemma coords_of:
  assumes "valid_shape (shape (spec v))" and "n < prod_list (lead_extents v)"
  shows "leading_coords v (coords_of v n)" and "row_major 0 (lead_extents v) (coords_of v n) = n"
proof -
  have all: "list_all2 (<) (digits_rev (rev (lead_extents v)) n) (rev (lead_extents v))"
    using lead_extents_nonzero [OF assms(1)] by (intro digits_rev_less) simp
  then show "leading_coords v (coords_of v n)"
    unfolding leading_coords_def coords_of_def by (subst list_all2_rev [symmetric]) simp
  then have "length (coords_of v n) = length (lead_extents v)"
    by (auto simp: leading_coords_def dest: list_all2_lengthD)
  then show "row_major 0 (lead_extents v) (coords_of v n) = n"
    using assms(2) rank_digits_rev [of n "rev (lead_extents v)"]
    by (simp add: row_major_rank_rev coords_of_def prod_list.rev)
qed

lemma contiguity_check_contiguous:
  assumes len: "length (plane_strides v) = rank (shape (spec v)) - 2"
    and check: "contiguity_check 1 (rev (zip (leading_dimensions_of (spec v)) (plane_strides v))) = Inr ()"
  shows "contiguous v"
proof -
  let ?ds = "rev (leading_dimensions_of (spec v))" and ?ss = "rev (plane_strides v)"
  have lens: "length (leading_dimensions_of (spec v)) = length (plane_strides v)"
    using len by (simp add: length_leading_dimensions)
  have ext: "map unat ?ds = rev (lead_extents v)"
    by (simp add: lead_extents_def map_leading flip: rev_map)
  have "dot cs (lead_strides v) = row_major 0 (lead_extents v) cs" if "leading_coords v cs" for cs
  proof -
    have all: "list_all2 (<) (rev cs) (map unat ?ds)"
      using that unfolding leading_coords_def ext by (simp add: list_all2_rev)
    have l: "length cs = length (lead_extents v)" "length cs = length (lead_strides v)"
      using that lens unfolding leading_coords_def
      by (auto simp: lead_extents_def lead_strides_def length_leading len dest: list_all2_lengthD)
    have "dot (rev cs) (map unat ?ss) = rank_rev (rev cs) (map unat ?ds)"
      using contiguity_dot [OF _ _ all, of 1 ?ss] check lens by (simp add: zip_rev)
    then show ?thesis
      using l dot_rev [OF l(2)] unfolding ext by (simp add: row_major_rank_rev lead_strides_def rev_map)
  qed
  then show ?thesis by (simp add: contiguous_def view_plane_def)
qed

lemma reshape_transforms:
  assumes ok: "view_ok P v" and reshape: "reshape_leading v dims = Inr v'"
  shows "transforms v (\<lambda>cs. coords_of v (row_major 0 (map unat dims) cs)) v'"
    and "view_ok P v'" and "contiguous v" and "contiguous v'"
    and "lead_extents v' = map unat dims"
proof -
  let ?lead = "leading_dimensions_of (spec v)"
  from reshape obtain planes strides s where "checked_product 1 ?lead = Inr planes"
      "reshaped_planes 1 dims = Inr planes"
    and check: "contiguity_check 1 (rev (zip ?lead (plane_strides v))) = Inr ()"
    and strides: "reshaped_strides_rev 1 (rev dims) = Inr strides"
    and s: "with_leading_dimensions (spec v) dims = Inr s"
    and v': "v' = \<lparr>owner_identity = owner_identity v, spec = s, plane_offset = plane_offset v,
               plane_strides = rev strides\<rparr>"
    by (auto simp: reshape_leading_def Let_def exn_simps split: if_splits)
  have valid: "valid_shape (shape (spec v))" and len: "length (plane_strides v) = rank (shape (spec v)) - 2"
    using ok by (simp_all add: view_ok_def)
  have nz: "0 \<notin> set dims" and planes: "prod_list (map unat dims) = prod_list (lead_extents v)"
    using \<open>checked_product 1 ?lead = Inr planes\<close> checked_product_Inr [OF leading_nonzero [OF valid]]
      reshaped_planes_Inr [OF \<open>reshaped_planes 1 dims = Inr planes\<close>]
    by (simp_all add: map_leading lead_extents_def)
  note facts = with_leading_dimensions_facts [OF valid s]
  show lead: "lead_extents v' = map unat dims"
    by (simp add: lead_extents_def v' facts(3))
  show cont: "contiguous v" using len check by (rule contiguity_check_contiguous)
  note sd = reshaped_strides_dot [OF strides]
  have dot: "dot cs (lead_strides v') = row_major 0 (map unat dims) cs" if "length cs = length dims" for cs
    using sd that dot_rev [of cs "lead_strides v'"]
    by (simp add: row_major_rank_rev v' lead_strides_def rev_map)
  have lc: "length cs = length dims" if "leading_coords v' cs" for cs
    using that by (auto simp: leading_coords_def lead dest: list_all2_lengthD)
  show "contiguous v'"
    using dot lc by (simp add: contiguous_def view_plane_def lead)
  have "leading_coords v (coords_of v (row_major 0 (map unat dims) cs))
      \<and> view_plane v' cs = view_plane v (coords_of v (row_major 0 (map unat dims) cs))"
    if cs: "leading_coords v' cs" for cs
  proof -
    have "row_major 0 (map unat dims) cs < 1 * prod_list (map unat dims)"
      using cs unfolding leading_coords_def lead by (rule row_major_less) simp
    then have lt: "row_major 0 (map unat dims) cs < prod_list (lead_extents v)" by (simp add: planes)
    show ?thesis
      using coords_of [OF valid lt] cont dot [OF lc [OF cs]]
      by (simp add: contiguous_def view_plane_def v')
  qed
  then show tr: "transforms v (\<lambda>cs. coords_of v (row_major 0 (map unat dims) cs)) v'"
    by (simp add: transforms_def v' facts(2))
  have "0 \<notin> set (plane_strides v')"
    using reshaped_strides_nonzero [OF strides] nz by (simp add: v')
  with transforms_ok [OF ok tr] show "view_ok P v'" using sd by (simp add: v' facts)
qed

lemma make_tensor_facts:
  assumes "valid_shape (shape s)" and "make_tensor self s device handle = Inr t"
  shows "supported_spec s" and "contiguous (full_view t)"
    and "view_ok (prod_list (leading (shape s))) (full_view t)"
    and "spec (full_view t) = s" and "owner_identity (full_view t) = Some self"
    and "tensor_device t = device" and "storage_handle t = handle"
    and "plane_offset (full_view t) = 0"
proof -
  from assms(2) obtain rs where val: "validate s = Inr ()"
    and rs: "dense_strides_rev 1 (rev (leading_dimensions_of s)) = Inr rs"
    and t: "t = \<lparr>tensor_device = device,
          full_view = \<lparr>owner_identity = Some self, spec = s, plane_offset = 0, plane_strides = rev rs\<rparr>,
          storage_handle = handle\<rparr>"
    by (auto simp: make_tensor_def validated_dense_plane_strides_def dense_plane_strides_def exn_simps)
  show sup: "supported_spec s" using val assms(1) by (simp add: validate_Inr_iff)
  show simps: "spec (full_view t) = s" "owner_identity (full_view t) = Some self"
    "tensor_device t = device" "storage_handle t = handle" "plane_offset (full_view t) = 0"
    by (simp_all add: t)
  note sd = dense_strides_dot [OF rs]
  have lead: "lead_extents (full_view t) = map unat (leading_dimensions_of s)"
    by (simp add: lead_extents_def simps map_leading)
  have "dot cs (lead_strides (full_view t)) = row_major 0 (lead_extents (full_view t)) cs"
    if "leading_coords (full_view t) cs" for cs
  proof -
    have l: "length cs = length (leading_dimensions_of s)"
      using that by (auto simp: leading_coords_def lead dest: list_all2_lengthD)
    have "lead_strides (full_view t) = map unat (rev rs)" by (simp add: lead_strides_def t)
    then show ?thesis
      using sd l dot_rev [of cs "map unat (rev rs)"] by (simp add: row_major_rank_rev rev_map lead)
  qed
  then show cont: "contiguous (full_view t)" by (simp add: contiguous_def view_plane_def)
  have top: "leading_coords (full_view t) (map (\<lambda>d. d - 1) (lead_extents (full_view t)))"
    using assms(1) by (intro top_coords) (simp add: simps)
  have "max_plane_of (full_view t) < 1 * prod_list (lead_extents (full_view t))"
    using cont top row_major_less [OF top [unfolded leading_coords_def], of 0 1]
    by (simp add: max_plane_of_def contiguous_def simps)
  moreover have "0 \<notin> set (plane_strides (full_view t))"
    using dense_strides_nonzero [OF rs] leading_nonzero [OF assms(1)] by (simp add: t)
  moreover have "length (plane_strides (full_view t)) = rank (shape s) - 2"
    using sd by (simp add: t length_leading_dimensions)
  ultimately show "view_ok (prod_list (leading (shape s))) (full_view t)"
    using assms(1) by (simp add: view_ok_def simps lead map_leading)
qed

lemma dot_zeros: "dot (replicate n 0) ss = 0"
proof (induction n arbitrary: ss)
  case (Suc n)
  then show ?case by (cases ss) auto
qed simp

lemma rank_rev_zeros: "rank_rev (replicate n 0) ds = 0"
proof (induction n arbitrary: ds)
  case (Suc n)
  then show ?case by (cases ds) auto
qed simp

lemma zeros_less: "0 \<notin> set ds \<Longrightarrow> list_all2 (<) (replicate (length ds) 0) (ds :: nat list)"
  by (induction ds) auto

lemma contiguity_check_complete:
  assumes "\<And>cs. list_all2 (<) cs (map unat ds) \<Longrightarrow> dot cs (map unat ss) = unat e * rank_rev cs (map unat ds)"
    and "length ss = length ds" and "0 \<notin> set ds" and "unat e * prod_list (map unat ds) < 2 ^ 64"
  shows "contiguity_check e (zip ds ss) = Inr ()"
  using assms
proof (induction ds arbitrary: e ss)
  case (Cons d ds)
  obtain s ss' where ss: "ss = s # ss'" "length ss' = length ds"
    using Cons.prems(2) by (cases ss) auto
  have nz: "0 \<notin> set (map unat ds)" using Cons.prems(3) by (auto simp: unat_eq_0)
  have pos: "0 < prod_list (map unat ds)" using nz by (rule prod_list_pos)
  have d0: "0 < unat d" using Cons.prems(3) by (simp add: unat_gt_0)
  have rest: "dot cs (map unat ss') = unat e * unat d * rank_rev cs (map unat ds)"
    if "list_all2 (<) cs (map unat ds)" for cs
    using Cons.prems(1) [of "0 # cs"] that d0 ss by simp
  show ?case
  proof (cases "d > 1")
    case True
    then have "list_all2 (<) (1 # replicate (length ds) 0) (map unat (d # ds))"
      using zeros_less [OF nz] by (simp add: word_less_nat_alt)
    from Cons.prems(1) [OF this] have "unat s = unat e"
      using ss by (simp add: dot_zeros rank_rev_zeros)
    then have s: "s = e" by (simp add: word_unat_eq_iff)
    have "unat e * unat d \<le> unat e * (unat d * prod_list (map unat ds))"
      using pos by simp
    moreover have "unat e * (unat d * prod_list (map unat ds)) < 2 ^ 64"
      using Cons.prems(4) by simp
    ultimately have "unat e * unat d < 2 ^ 64" by (rule le_less_trans)
    then obtain e' where e': "checked_mul e d = Inr e'" "unat e' = unat e * unat d"
      using checked_mul_ex [OF refl refl] by blast
    have "contiguity_check e' (zip ds ss') = Inr ()"
      using rest ss Cons.prems(3,4) by (intro Cons.IH) (simp_all add: e'(2) mult.assoc)
    with True s e' ss show ?thesis by simp
  next
    case False
    then have "unat d = 1" using d0 by (simp add: word_less_nat_alt)
    then have "contiguity_check e (zip ds ss') = Inr ()"
      using rest ss Cons.prems(3,4) by (intro Cons.IH) simp_all
    with False ss show ?thesis by simp
  qed
qed simp

lemma contiguous_check_iff:
  assumes ok: "view_ok P v" and fits: "prod_list (lead_extents v) < 2 ^ 64"
  shows "contiguity_check 1 (rev (zip (leading_dimensions_of (spec v)) (plane_strides v))) = Inr ()
    \<longleftrightarrow> contiguous v"
proof
  let ?ds = "rev (leading_dimensions_of (spec v))" and ?ss = "rev (plane_strides v)"
  have len: "length (plane_strides v) = rank (shape (spec v)) - 2" and valid: "valid_shape (shape (spec v))"
    using ok by (simp_all add: view_ok_def)
  have lens: "length (leading_dimensions_of (spec v)) = length (plane_strides v)"
    using len by (simp add: length_leading_dimensions)
  have ext: "map unat ?ds = rev (lead_extents v)"
    by (simp add: lead_extents_def map_leading flip: rev_map)
  {
    assume "contiguity_check 1 (rev (zip (leading_dimensions_of (spec v)) (plane_strides v))) = Inr ()"
    with len show "contiguous v" by (rule contiguity_check_contiguous)
  }
  assume cont: "contiguous v"
  have dot: "dot cs (map unat ?ss) = unat (1 :: usize) * rank_rev cs (map unat ?ds)"
    if "list_all2 (<) cs (map unat ?ds)" for cs
  proof -
    have co: "leading_coords v (rev cs)"
      using that unfolding leading_coords_def ext by (subst list_all2_rev [symmetric]) simp
    then have l: "length (rev cs) = length (lead_extents v)" "length (rev cs) = length (lead_strides v)"
      unfolding leading_coords_def
      by (auto simp: lead_extents_def lead_strides_def length_leading len dest: list_all2_lengthD)
    have "dot (rev cs) (lead_strides v) = row_major 0 (lead_extents v) (rev cs)"
      using cont co by (simp add: contiguous_def view_plane_def)
    then show ?thesis
      using l dot_rev [OF l(2)] unfolding ext by (simp add: row_major_rank_rev lead_strides_def rev_map)
  qed
  have "contiguity_check 1 (zip ?ds ?ss) = Inr ()"
    using dot lens leading_nonzero [OF valid] fits
    by (intro contiguity_check_complete) (simp_all add: ext prod_list.rev)
  then show "contiguity_check 1 (rev (zip (leading_dimensions_of (spec v)) (plane_strides v))) = Inr ()"
    using lens by (simp add: zip_rev)
qed

lemma contiguous_planes:
  assumes ok: "view_ok P v" and "contiguous v"
  shows "prod_list (lead_extents v) \<le> P"
proof -
  have valid: "valid_shape (shape (spec v))" using ok by (simp add: view_ok_def)
  have "0 < prod_list (lead_extents v)"
    using lead_extents_nonzero [OF valid] by (rule prod_list_pos)
  then have lt: "prod_list (lead_extents v) - 1 < prod_list (lead_extents v)" by simp
  have "view_plane v (coords_of v (prod_list (lead_extents v) - 1)) < P"
    using ok coords_of(1) [OF valid lt] by (rule view_plane_in_owner)
  with assms(2) coords_of [OF valid lt] show ?thesis by (simp add: contiguous_def)
qed

section \<open>Views derived from an owner\<close>

inductive derived_view :: "Tensor \<Rightarrow> TensorView \<Rightarrow> bool" for t where
  full: "derived_view t (full_view t)"
| sliced: "derived_view t v \<Longrightarrow> slice v dim first count step = Inr v' \<Longrightarrow> derived_view t v'"
| selected: "derived_view t v \<Longrightarrow> select v dim index = Inr v' \<Longrightarrow> derived_view t v'"
| permuted: "derived_view t v \<Longrightarrow> permute v order = Inr v' \<Longrightarrow> derived_view t v'"
| reshaped: "derived_view t v \<Longrightarrow> reshape_leading v dims = Inr v' \<Longrightarrow> derived_view t v'"

lemma transforms_same:
  assumes "transforms v f v'" and "owner_identity v = owner \<and> same_matrix (spec v) s"
  shows "owner_identity v' = owner \<and> same_matrix (spec v') s"
  using assms same_matrix_trans unfolding transforms_def by auto

lemma derived_view_invariant:
  assumes "derived_view t v" and "view_ok P (full_view t)"
  shows "view_ok P v \<and> owner_identity v = owner_identity (full_view t)
    \<and> same_matrix (spec v) (spec (full_view t))"
  using assms
proof (induction rule: derived_view.induct)
  case full
  then show ?case by simp
next
  case (sliced v dim first count step v')
  then have ok: "view_ok P v" by blast
  note slice_transforms [OF ok sliced.hyps(2)]
  with transforms_same sliced.IH sliced.prems show ?case by blast
next
  case (selected v dim index v')
  then have ok: "view_ok P v" by blast
  note select_transforms [OF ok selected.hyps(2)]
  with transforms_same selected.IH selected.prems show ?case by blast
next
  case (permuted v order v')
  then have ok: "view_ok P v" by blast
  note permute_transforms [OF ok permuted.hyps(2)]
  with transforms_same permuted.IH permuted.prems show ?case by blast
next
  case (reshaped v dims v')
  then have ok: "view_ok P v" by blast
  note reshape_transforms [OF ok reshaped.hyps(2)]
  with transforms_same reshaped.IH reshaped.prems show ?case by blast
qed

section \<open>Properties\<close>

lemma dot_ge_term: "length cs = length ss \<Longrightarrow> i < length ss \<Longrightarrow> cs ! i * ss ! i \<le> dot cs ss"
  using dot_update [of cs ss i 0 0] by linarith

lemma max_plane_ge:
  assumes "view_ok P v" and "i < rank (shape (spec v)) - 2"
  shows "unat (plane_offset v) + (lead_extents v ! i - 1) * unat (plane_strides v ! i) < P"
proof -
  let ?top = "map (\<lambda>d. d - 1) (lead_extents v)"
  have len: "length (plane_strides v) = rank (shape (spec v)) - 2" using assms(1) by (simp add: view_ok_def)
  have "?top ! i * lead_strides v ! i \<le> dot ?top (lead_strides v)"
    using assms(2) by (intro dot_ge_term) (simp_all add: lead_extents_def lead_strides_def length_leading len)
  then have "(lead_extents v ! i - 1) * unat (plane_strides v ! i) \<le> dot ?top (lead_strides v)"
    using assms(2) len by (simp add: lead_extents_def lead_strides_def length_leading)
  then show ?thesis
    using assms(1) by (simp add: view_ok_def max_plane_of_def view_plane_def)
qed

text \<open>
  The contract of \<open>slice\<close> over natural numbers: the exception of the first condition that
  fails, where the last selected index is \<open>first + (count - 1) * step\<close>.
\<close>

definition slice_rejects :: "TensorView \<Rightarrow> usize \<Rightarrow> usize \<Rightarrow> usize \<Rightarrow> usize \<Rightarrow> exn option" where
  "slice_rejects v dim first count step =
     (let last = unat first + (unat count - 1) * unat step in
      if rank (shape (spec v)) - 2 \<le> unat dim then Some OutOfRange
      else if count = 0 \<or> step = 0 then Some InvalidArgument
      else if 2 ^ 64 \<le> last then Some OverflowError
      else if lead_extents v ! unat dim \<le> last then Some OutOfRange
      else if 2 ^ 64 \<le> unat (plane_strides v ! unat dim) * unat step then Some OverflowError
      else None)"

lemma slice_accepts:
  assumes ok: "view_ok P v" and P: "P \<le> 2 ^ 64"
    and none: "slice_rejects v dim first count step = None"
  shows "\<exists>v'. slice v dim first count step = Inr v'"
proof -
  let ?i = "unat dim" and ?stride = "plane_strides v ! unat dim"
  let ?n = "(unat count - 1) * unat step"
  have i: "?i < rank (shape (spec v)) - 2" and nz: "count \<noteq> 0" "step \<noteq> 0"
    and last: "unat first + ?n < 2 ^ 64" and range: "unat first + ?n < lead_extents v ! ?i"
    and st: "unat ?stride * unat step < 2 ^ 64"
    using none by (auto simp: slice_rejects_def Let_def split: if_splits)
  have valid: "valid_shape (shape (spec v))" using ok by (simp add: view_ok_def)
  have c1: "unat (count - 1) = unat count - 1" using nz by (simp add: unat_minus_one)
  have "?n < 2 ^ 64" using last by linarith
  then obtain n where n: "checked_mul (count - 1) step = Inr n" "unat n = ?n"
    using checked_mul_ex [OF c1 refl] by blast
  obtain l where l: "checked_add first n = Inr l" "unat l = unat first + ?n"
    using checked_add_ex [OF refl n(2) last] by blast
  obtain sliced where sl: "checked_mul ?stride step = Inr sliced"
    using checked_mul_ex [OF refl refl st] by blast
  have "unat first * unat ?stride \<le> (lead_extents v ! ?i - 1) * unat ?stride"
    using range by (intro mult_le_mono1) linarith
  then have off: "unat (plane_offset v) + unat first * unat ?stride < 2 ^ 64"
    using max_plane_ge [OF ok i] P by linarith
  then have "unat first * unat ?stride < 2 ^ 64" by linarith
  then obtain sk where sk: "checked_mul first ?stride = Inr sk" "unat sk = unat first * unat ?stride"
    using checked_mul_ex [OF refl refl] by blast
  obtain o' where o': "checked_add (plane_offset v) sk = Inr o'"
    using checked_add_ex [OF refl sk(2) off] by blast
  have "l < leading_dimensions_of (spec v) ! ?i"
    using range l(2) i by (simp add: lead_extents_nth word_less_nat_alt)
  moreover have "0 \<notin> set ((leading_dimensions_of (spec v))[?i := count])"
    using leading_nonzero [OF valid] nz(1) set_update_subset_insert by fastforce
  then obtain s where "with_leading_dimensions (spec v) ((leading_dimensions_of (spec v))[?i := count]) = Inr s"
    using valid by (auto simp: with_leading_dimensions_Inr length_leading_dimensions valid_shape_def)
  ultimately show ?thesis
    using i nz n l sl sk o' by (simp add: slice_def Let_def dimension_leading not_le not_less)
qed

lemma slice_Inl:
  assumes valid: "valid_shape (shape (spec v))" and e: "slice v dim first count step = Inl e"
    and some: "slice_rejects v dim first count step = Some e'"
  shows "e = e'"
proof -
  let ?i = "unat dim"
  have c1: "unat (count - 1) = unat count - 1" if "count \<noteq> 0"
    using that by (simp add: unat_minus_one)
  show ?thesis
  proof (cases "?i < rank (shape (spec v)) - 2 \<and> count \<noteq> 0 \<and> step \<noteq> 0")
    case False
    then show ?thesis using e some by (auto simp: slice_def slice_rejects_def Let_def split: if_splits)
  next
    case True
    note c1 = c1 [OF conjunct1 [OF conjunct2 [OF True]]]
    show ?thesis
    proof (cases "unat first + (unat count - 1) * unat step < 2 ^ 64")
      case False
      have over: "andThen (checked_mul (count - 1) step) (\<lambda>span. andThen (checked_add first span) f)
          = Inl OverflowError" for f :: "usize \<Rightarrow> TensorView throws"
      proof (cases "checked_mul (count - 1) step")
        case (Inl e'')
        then have "e'' = OverflowError" by (simp add: unat_simps)
        with Inl show ?thesis by simp
      next
        case (Inr n)
        then have "checked_add first n = Inl OverflowError"
          using False c1 by (simp add: unat_simps)
        with Inr show ?thesis by simp
      qed
      then have "slice v dim first count step = Inl OverflowError"
        using True by (simp add: slice_def Let_def)
      then show ?thesis using e some True False by (simp add: slice_rejects_def Let_def)
    next
      case last: True
      then have "(unat count - 1) * unat step < 2 ^ 64" by linarith
      then obtain n where n: "checked_mul (count - 1) step = Inr n" "unat n = (unat count - 1) * unat step"
        using checked_mul_ex [OF c1 refl] by blast
      obtain l where l: "checked_add first n = Inr l" "unat l = unat first + (unat count - 1) * unat step"
        using checked_add_ex [OF refl n(2) last] by blast
      have cmp: "leading_dimensions_of (spec v) ! ?i \<le> l \<longleftrightarrow>
          lead_extents v ! ?i \<le> unat first + (unat count - 1) * unat step"
        using True l(2) by (simp add: lead_extents_nth word_le_nat_alt)
      show ?thesis
      proof (cases "lead_extents v ! ?i \<le> unat first + (unat count - 1) * unat step")
        case True
        then have "slice v dim first count step = Inl OutOfRange"
          using \<open>?i < rank (shape (spec v)) - 2 \<and> count \<noteq> 0 \<and> step \<noteq> 0\<close> n(1) l(1) cmp
          by (simp add: slice_def Let_def dimension_leading)
        moreover have "e' = OutOfRange"
          using \<open>?i < rank (shape (spec v)) - 2 \<and> count \<noteq> 0 \<and> step \<noteq> 0\<close> some True last
          by (simp add: slice_rejects_def Let_def)
        ultimately show ?thesis using e by simp
      next
        case False
        then have over: "\<not> unat (plane_strides v ! ?i) * unat step < 2 ^ 64" "e' = OverflowError"
          using \<open>?i < rank (shape (spec v)) - 2 \<and> count \<noteq> 0 \<and> step \<noteq> 0\<close> some last
          by (auto simp: slice_rejects_def Let_def split: if_splits)
        have "checked_mul (plane_strides v ! ?i) step = Inl OverflowError"
          using over(1) by (simp only: checked_mul_cases if_False)
        then have "slice v dim first count step = Inl OverflowError"
          using \<open>?i < rank (shape (spec v)) - 2 \<and> count \<noteq> 0 \<and> step \<noteq> 0\<close> n(1) l(1) cmp False
          by (simp add: slice_def Let_def dimension_leading)
        then show ?thesis using e over(2) by simp
      qed
    qed
  qed
qed

text \<open>
  C25. Every view obtained from a tensor's full view by any sequence of \<open>slice\<close>, \<open>select\<close>,
  \<open>permute\<close> and \<open>reshape_leading\<close> keeps the owner, the leaf encoding and the two matrix
  axes, has one positive stride per leading axis, and addresses only planes of its owner.
\<close>

theorem derived_views_stay_in_owner:
  assumes "valid_shape (shape s)" and "make_tensor self s device handle = Inr t"
    and "derived_view t v"
  shows "owner_identity v = Some self \<and> same_matrix (spec v) s
    \<and> view_ok (prod_list (leading (shape s))) v
    \<and> (\<forall>cs. leading_coords v cs \<longrightarrow> view_plane v cs < prod_list (leading (shape s)))"
proof -
  note facts = make_tensor_facts [OF assms(1,2)]
  have "view_ok (prod_list (leading (shape s))) v \<and> owner_identity v = Some self \<and> same_matrix (spec v) s"
    using derived_view_invariant [OF assms(3) facts(3)] facts(4,5) by simp
  then show ?thesis using view_plane_in_owner by blast
qed

definition sample_tensor :: Tensor where
  "sample_tensor = \<lparr>tensor_device = 7,
     full_view = \<lparr>owner_identity = Some 3,
       spec = \<lparr>shape = TensorShape [4, 3, 5, 6], data_type = F32, quantization = NONE\<rparr>,
       plane_offset = 0, plane_strides = [3, 1]\<rparr>,
     storage_handle = 4096\<rparr>"

lemma sample_tensor_made:
  "make_tensor 3 \<lparr>shape = TensorShape [4, 3, 5, 6], data_type = F32, quantization = NONE\<rparr> 7 4096
   = Inr sample_tensor"
  by (simp add: make_tensor_def sample_tensor_def validated_dense_plane_strides_def validate_def
      rank_def dense_plane_strides_def leading_dimensions_of_def checked_mul_cases)

definition sample_slice :: TensorView where
  "sample_slice = \<lparr>owner_identity = Some 3,
     spec = \<lparr>shape = TensorShape [2, 3, 5, 6], data_type = F32, quantization = NONE\<rparr>,
     plane_offset = 3, plane_strides = [6, 1]\<rparr>"

lemma sample_slice_made: "slice (full_view sample_tensor) 0 1 2 2 = Inr sample_slice"
  by (simp add: slice_def sample_tensor_def sample_slice_def rank_def checked_mul_cases
      checked_add_cases dimension_def with_leading_dimensions_def make_shape_def
      leading_dimensions_of_def)

lemma sample_full_ok: "view_ok 12 (full_view sample_tensor)"
  using make_tensor_facts(3) [OF _ sample_tensor_made]
  by (simp add: valid_shape_def rank_def leading_def extents_def)

theorem derived_views_stay_in_owner_witness:
  "derived_view sample_tensor sample_slice \<and> view_ok 12 sample_slice
   \<and> leading_coords sample_slice [1, 2] \<and> view_plane sample_slice [1, 2] < 12"
proof -
  have d: "derived_view sample_tensor sample_slice"
    using derived_view.sliced [OF derived_view.full sample_slice_made] .
  have v: "valid_shape (TensorShape [4, 3, 5, 6])" by (simp add: valid_shape_def rank_def)
  have c: "leading_coords sample_slice [1, 2]"
    by (simp add: leading_coords_def lead_extents_def sample_slice_def leading_def extents_def rank_def)
  show ?thesis
    using derived_views_stay_in_owner [OF _ sample_tensor_made d] d v c
    by (simp add: leading_def extents_def rank_def)
qed

text \<open>
  \<open>slice\<close> on a well-formed view throws exactly the exceptions of its contract, in the
  contract's order; no later overflow is possible. An accepted slice has the requested extent on
  the sliced axis, and its coordinate \<open>c\<close> on that axis addresses the plane of the source's
  coordinate \<open>first + c * step\<close>.
\<close>

lemma slice_behaviour:
  assumes "view_ok P v" and "P \<le> 2 ^ 64"
  shows "(\<forall>e. slice v dim first count step = Inl e \<longleftrightarrow> slice_rejects v dim first count step = Some e)
    \<and> (\<forall>v'. slice v dim first count step = Inr v' \<longrightarrow>
         view_ok P v' \<and> lead_extents v' = (lead_extents v)[unat dim := unat count]
         \<and> transforms v (\<lambda>cs. cs[unat dim := unat first + cs ! unat dim * unat step]) v')"
proof -
  have valid: "valid_shape (shape (spec v))" using assms(1) by (simp add: view_ok_def)
  have "slice v dim first count step = Inl e \<longleftrightarrow> slice_rejects v dim first count step = Some e" for e
  proof (cases "slice_rejects v dim first count step")
    case None
    then show ?thesis using slice_accepts [OF assms None] by auto
  next
    case (Some e')
    have "\<exists>e''. slice v dim first count step = Inl e''"
    proof (cases "slice v dim first count step")
      case (Inr v')
      from Inr obtain last sliced :: usize where
        "unat dim < rank (shape (spec v)) - 2" "count \<noteq> 0" "step \<noteq> 0"
        "unat last = unat first + (unat count - 1) * unat step" "unat last < lead_extents v ! unat dim"
        "unat sliced = unat (plane_strides v ! unat dim) * unat step"
        by (elim slice_InrD)
      with Some unat_less [of last] unat_less [of sliced] show ?thesis
        by (auto simp: slice_rejects_def Let_def split: if_splits)
    qed simp
    then show ?thesis using slice_Inl [OF valid _ Some] Some by auto
  qed
  moreover have "lead_extents v' = (lead_extents v)[unat dim := unat count]"
    if "slice v dim first count step = Inr v'" for v'
  proof -
    from that obtain skip sliced :: usize and s where
      s: "with_leading_dimensions (spec v) ((leading_dimensions_of (spec v))[unat dim := count]) = Inr s"
      and "v' = \<lparr>owner_identity = owner_identity v, spec = s, plane_offset = skip,
               plane_strides = (plane_strides v)[unat dim := sliced]\<rparr>"
      by (elim slice_InrD)
    then show ?thesis
      using with_leading_dimensions_facts(3) [OF valid s]
      by (simp add: lead_extents_def map_update map_leading)
  qed
  ultimately show ?thesis using slice_transforms [OF assms(1)] by blast
qed

lemma slice_behaviour_witness:
  "slice (full_view sample_tensor) 0 1 2 2 = Inr sample_slice
   \<and> transforms (full_view sample_tensor) (\<lambda>cs. cs[0 := 1 + cs ! 0 * 2]) sample_slice
   \<and> slice (full_view sample_tensor) 0 1 3 2 = Inl OutOfRange"
proof -
  have P: "(12 :: nat) \<le> 2 ^ 64" by simp
  have "slice_rejects (full_view sample_tensor) 0 1 3 2 = Some OutOfRange"
    by (simp add: slice_rejects_def sample_tensor_def rank_def lead_extents_def leading_def extents_def)
  then show ?thesis
    using slice_behaviour [OF sample_full_ok P, of 0 1 2 2] slice_behaviour [OF sample_full_ok P, of 0 1 3 2]
      sample_slice_made by simp
qed


lemma permute_accepts:
  assumes ok: "view_ok P v"
    and perm: "permutes_axes (rank (shape (spec v)) - 2) (map unat order)"
  shows "\<exists>v'. permute v order = Inr v'"
proof -
  let ?n = "rank (shape (spec v)) - 2"
  have valid: "valid_shape (shape (spec v))" using ok by (simp add: view_ok_def)
  have length: "length order = ?n" using perm by (simp add: permutes_axes_def)
  have check: "permutation_check ?n (replicate ?n False) order = Inr ()"
    using perm by (auto simp: permutation_check_Inr permutes_axes_def)
  have "0 \<notin> set (map (\<lambda>axis. dimensions (shape (spec v)) ! unat axis) order)"
  proof
    assume "0 \<in> set (map (\<lambda>axis. dimensions (shape (spec v)) ! unat axis) order)"
    then obtain a where a: "a \<in> set order" "dimensions (shape (spec v)) ! unat a = 0" by auto
    then have "unat a < ?n" using perm by (auto simp: permutes_axes_def)
    then have "unat a < length (dimensions (shape (spec v)))" by (simp add: rank_def)
    then show False using a valid by (metis nth_mem valid_shape_def)
  qed
  then obtain s where "with_leading_dimensions (spec v)
      (map (\<lambda>axis. dimensions (shape (spec v)) ! unat axis) order) = Inr s"
    using valid length by (auto simp: with_leading_dimensions_Inr valid_shape_def)
  then show ?thesis using length check by (simp add: permute_def Let_def)
qed

lemma permute_Inl:
  assumes ok: "view_ok P v" and e: "permute v order = Inl e"
  shows "e = InvalidArgument"
  using assms permutation_check_Inl
  by (auto simp: permute_def Let_def exn_simps with_leading_dimensions_Inl view_ok_def split: if_splits)

lemma permute_order:
  assumes "permute v order = Inr v'"
  shows "permutes_axes (rank (shape (spec v)) - 2) (map unat order)"
  using assms
  by (auto simp: permute_def Let_def exn_simps permutation_check_Inr permutes_axes_def split: if_splits)

lemma permute_extents:
  assumes ok: "view_ok P v" and permute: "permute v order = Inr v'"
  shows "lead_extents v' = map (\<lambda>a. lead_extents v ! unat a) order"
proof -
  let ?n = "rank (shape (spec v)) - 2"
  have valid: "valid_shape (shape (spec v))" using ok by (simp add: view_ok_def)
  have lt: "unat a < ?n" if "a \<in> set order" for a
    using permute_order [OF permute] that by (auto simp: permutes_axes_def)
  from permute obtain s where
    s: "with_leading_dimensions (spec v)
        (map (\<lambda>axis. dimensions (shape (spec v)) ! unat axis) order) = Inr s"
    and v': "spec v' = s"
    by (auto simp: permute_def Let_def exn_simps split: if_splits)
  show ?thesis
    using lt with_leading_dimensions_facts(3) [OF valid s]
    by (auto simp: v' lead_extents_def [of v'] lead_extents_nth leading_dimensions_nth)
qed

text \<open>
  \<open>permute\<close> accepts exactly the permutations of the leading axes and otherwise throws
  \<open>std::invalid_argument\<close>; the accepted view's axis \<open>j\<close> is the source's axis \<open>order[j]\<close>, both
  its extent and the planes its coordinates address.
\<close>

lemma permute_behaviour:
  assumes "view_ok P v"
  shows "((\<exists>v'. permute v order = Inr v')
        \<longleftrightarrow> permutes_axes (rank (shape (spec v)) - 2) (map unat order))
    \<and> (\<forall>e. permute v order = Inl e \<longrightarrow> e = InvalidArgument)
    \<and> (\<forall>v'. permute v order = Inr v' \<longrightarrow>
         view_ok P v' \<and> lead_extents v' = map (\<lambda>a. lead_extents v ! unat a) order
         \<and> transforms v (unpermute (map unat order)) v')"
  using permute_accepts [OF assms] permute_order permute_Inl [OF assms] permute_extents [OF assms]
    permute_transforms [OF assms] by blast

lemma permute_behaviour_witness:
  "(\<exists>v'. permute (full_view sample_tensor) [1, 0] = Inr v' \<and> lead_extents v' = [3, 4])
   \<and> permute (full_view sample_tensor) [1, 1] = Inl InvalidArgument"
proof -
  note b = permute_behaviour [OF sample_full_ok]
  have r: "rank (shape (spec (full_view sample_tensor))) - 2 = 2"
    by (simp add: sample_tensor_def rank_def)
  have p: "permutes_axes 2 (map unat [1 :: usize, 0])" "\<not> permutes_axes 2 (map unat [1 :: usize, 1])"
    by (auto simp: permutes_axes_def)
  have "map (\<lambda>a. lead_extents (full_view sample_tensor) ! unat a) [1 :: usize, 0] = [3, 4]"
    by (simp add: sample_tensor_def lead_extents_def leading_def extents_def rank_def)
  then have "\<exists>v'. permute (full_view sample_tensor) [1, 0] = Inr v' \<and> lead_extents v' = [3, 4]"
    using b [of "[1, 0]"] p(1) unfolding r by metis
  moreover have "permute (full_view sample_tensor) [1, 1] = Inl InvalidArgument"
    using b [of "[1, 1]"] p(2) unfolding r by (cases "permute (full_view sample_tensor) [1, 1]") auto
  ultimately show ?thesis by blast
qed

lemma mult_fits: "a * b * c < n \<Longrightarrow> 0 < c \<Longrightarrow> a * b < (n :: nat)"
  using mult_le_mono2 [of 1 c "a * b"] by linarith

lemma reshaped_planes_ex:
  "0 \<notin> set ds \<Longrightarrow> unat p * prod_list (map unat ds) < 2 ^ 64 \<Longrightarrow> \<exists>r. reshaped_planes p ds = Inr r"
proof (induction p ds rule: reshaped_planes.induct)
  case (2 p d ds)
  have d: "d \<noteq> 0" and z: "0 \<notin> set ds" using "2.prems"(1) by auto
  have pos: "0 < prod_list (map unat ds)" using z by (intro prod_list_pos) (auto simp: unat_eq_0)
  have "unat p * unat d < 2 ^ 64"
    using mult_fits [OF _ pos, of "unat p" "unat d"] "2.prems"(2) by (simp add: mult.assoc)
  then obtain q where q: "checked_mul p d = Inr q" "unat q = unat p * unat d"
    using checked_mul_ex [OF refl refl] by blast
  have "\<exists>r. reshaped_planes q ds = Inr r"
    using "2.IH" [OF d q(1) z] "2.prems"(2) q(2) by (simp add: mult.assoc)
  with d q(1) show ?case by simp
qed simp

lemma reshaped_strides_ex:
  "0 \<notin> set ds \<Longrightarrow> unat p * prod_list (map unat ds) < 2 ^ 64 \<Longrightarrow> \<exists>r. reshaped_strides_rev p ds = Inr r"
proof (induction p ds rule: reshaped_strides_rev.induct)
  case (2 p d ds)
  have z: "0 \<notin> set ds" using "2.prems"(1) by auto
  have pos: "0 < prod_list (map unat ds)" using z by (intro prod_list_pos) (auto simp: unat_eq_0)
  have "unat p * unat d < 2 ^ 64"
    using mult_fits [OF _ pos, of "unat p" "unat d"] "2.prems"(2) by (simp add: mult.assoc)
  then obtain q where q: "checked_mul p d = Inr q" "unat q = unat p * unat d"
    using checked_mul_ex [OF refl refl] by blast
  obtain r where "reshaped_strides_rev q ds = Inr r"
    using "2.IH" [OF q(1) z] "2.prems"(2) q(2) by (auto simp: mult.assoc)
  with q(1) show ?case by simp
qed simp

text \<open>The views and target extents \<open>reshape_leading\<close> accepts.\<close>

definition reshapes_to :: "TensorView \<Rightarrow> usize list \<Rightarrow> bool" where
  "reshapes_to v dims \<longleftrightarrow> length dims + 2 \<le> kMaxTensorRank \<and> 0 \<notin> set dims
     \<and> prod_list (map unat dims) = prod_list (lead_extents v) \<and> contiguous v"

lemma reshape_accepts:
  assumes ok: "view_ok P v" and P: "P < 2 ^ 64" and to: "reshapes_to v dims"
  shows "\<exists>v'. reshape_leading v dims = Inr v'"
proof -
  let ?lead = "leading_dimensions_of (spec v)"
  have valid: "valid_shape (shape (spec v))" using ok by (simp add: view_ok_def)
  have dims: "length dims + 2 \<le> kMaxTensorRank" "0 \<notin> set dims"
    "prod_list (map unat dims) = prod_list (lead_extents v)" "contiguous v"
    using to by (simp_all add: reshapes_to_def)
  have fits: "prod_list (lead_extents v) < 2 ^ 64"
    using contiguous_planes [OF ok dims(4)] P by simp
  have ext: "map unat ?lead = lead_extents v" by (simp add: map_leading lead_extents_def)
  obtain planes where planes: "checked_product 1 ?lead = Inr planes"
    "unat planes = prod_list (lead_extents v)"
  proof (cases "checked_product 1 ?lead")
    case (Inl e)
    then show ?thesis
      using checked_product_Inl [OF leading_nonzero [OF valid], of 1 e] fits by (simp add: ext)
  next
    case (Inr r)
    then show ?thesis
      using checked_product_Inr [OF leading_nonzero [OF valid], of 1 r] that by (simp add: ext)
  qed
  obtain r where r: "reshaped_planes 1 dims = Inr r"
    using reshaped_planes_ex [OF dims(2), of 1] dims(3) fits by auto
  have "unat r = unat planes" using reshaped_planes_Inr [OF r] planes(2) dims(3) by simp
  then have rp: "r = planes" by (simp add: word_unat_eq_iff)
  obtain ss where ss: "reshaped_strides_rev 1 (rev dims) = Inr ss"
    using reshaped_strides_ex [of "rev dims" 1] dims(2,3) fits by (auto simp: prod_list.rev simp flip: rev_map)
  obtain s where s: "with_leading_dimensions (spec v) dims = Inr s"
    using valid dims(1,2) by (auto simp: with_leading_dimensions_Inr)
  have "contiguity_check 1 (rev (zip ?lead (plane_strides v))) = Inr ()"
    using contiguous_check_iff [OF ok fits] dims(4) by simp
  with dims(1) planes(1) r rp ss s show ?thesis by (simp add: reshape_leading_def Let_def)
qed

lemma reshape_reshapes_to:
  assumes ok: "view_ok P v" and reshape: "reshape_leading v dims = Inr v'"
  shows "reshapes_to v dims"
proof -
  let ?lead = "leading_dimensions_of (spec v)"
  have valid: "valid_shape (shape (spec v))" using ok by (simp add: view_ok_def)
  from reshape obtain planes where "length dims + 2 \<le> kMaxTensorRank"
    and planes: "checked_product 1 ?lead = Inr planes" "reshaped_planes 1 dims = Inr planes"
    by (auto simp: reshape_leading_def Let_def exn_simps split: if_splits)
  then show ?thesis
    using checked_product_Inr [OF leading_nonzero [OF valid]] reshaped_planes_Inr [OF planes(2)]
      reshape_transforms(3) [OF ok reshape]
    by (simp add: reshapes_to_def map_leading lead_extents_def)
qed

text \<open>
  On a well-formed view of an owner with a representable plane count, \<open>reshape_leading\<close>
  accepts exactly the positive extents of rank at most six with the same plane count on a
  contiguous view; the optimised contiguity loop over extents and strides decides contiguity
  exactly. The result is contiguous and enumerates the same planes in the same row-major order.
\<close>

lemma reshape_leading_behaviour:
  assumes "view_ok P v" and "P < 2 ^ 64"
  shows "((\<exists>v'. reshape_leading v dims = Inr v') \<longleftrightarrow> reshapes_to v dims)
    \<and> (\<forall>v'. reshape_leading v dims = Inr v' \<longrightarrow>
         view_ok P v' \<and> contiguous v' \<and> lead_extents v' = map unat dims
         \<and> transforms v (\<lambda>cs. coords_of v (row_major 0 (map unat dims) cs)) v')"
  using reshape_accepts [OF assms] reshape_reshapes_to [OF assms(1)] reshape_transforms [OF assms(1)]
  by blast

lemma reshape_leading_behaviour_witness:
  "(\<exists>v'. reshape_leading (full_view sample_tensor) [2, 6] = Inr v' \<and> lead_extents v' = [2, 6])
   \<and> \<not> (\<exists>v'. reshape_leading (full_view sample_tensor) [5, 2] = Inr v')"
proof -
  have P: "(12 :: nat) < 2 ^ 64" by simp
  have c: "contiguous (full_view sample_tensor)"
    using make_tensor_facts(2) [OF _ sample_tensor_made] by (simp add: valid_shape_def rank_def)
  have l: "lead_extents (full_view sample_tensor) = [4, 3]"
    by (simp add: sample_tensor_def lead_extents_def leading_def extents_def rank_def)
  have "reshapes_to (full_view sample_tensor) [2, 6]" "\<not> reshapes_to (full_view sample_tensor) [5, 2]"
    using c by (simp_all add: reshapes_to_def l)
  then show ?thesis
    using reshape_leading_behaviour [OF sample_full_ok P, of "[2, 6]"]
      reshape_leading_behaviour [OF sample_full_ok P, of "[5, 2]"] by auto
qed

section \<open>Views address every plane once\<close>

lemma transforms_inj:
  assumes "transforms v f v'" and "inj_on f {cs. leading_coords v' cs}" and "inj_on (view_plane v) {cs. leading_coords v cs}"
  shows "inj_on (view_plane v') {cs. leading_coords v' cs}"
proof (rule inj_onI)
  fix cs cs'
  assume a: "cs \<in> {cs. leading_coords v' cs}" "cs' \<in> {cs. leading_coords v' cs}" "view_plane v' cs = view_plane v' cs'"
  then have "f cs = f cs'" using assms(1,3) by (auto simp: transforms_def dest: inj_onD)
  with a show "cs = cs'" using assms(2) by (auto dest: inj_onD)
qed

lemma contiguous_inj: "contiguous v \<Longrightarrow> inj_on (view_plane v) {cs. leading_coords v cs}"
  using row_major_inj [of _ "lead_extents v" _ 0 0] by (auto simp: inj_on_def contiguous_def leading_coords_def)

lemma list_update_inj:
  assumes "xs[i := a] = ys[i := b]" and "i < length xs" and "length ys = length xs" and "a = b \<Longrightarrow> xs ! i = ys ! i"
  shows "xs = ys"
proof (rule nth_equalityI)
  fix j
  assume "j < length xs"
  then show "xs ! j = ys ! j"
    using arg_cong [OF assms(1), of "\<lambda>zs. zs ! j"] arg_cong [OF assms(1), of "\<lambda>zs. zs ! i"] assms(2-4)
    by (cases "j = i") simp_all
qed (use assms in simp)

lemma leading_coords_length: "leading_coords v cs \<Longrightarrow> length cs = rank (shape (spec v)) - 2"
  by (auto simp: leading_coords_def lead_extents_def length_leading dest: list_all2_lengthD)

lemma derived_view_inj:
  assumes "derived_view t v" and "view_ok P (full_view t)" and "contiguous (full_view t)"
  shows "inj_on (view_plane v) {cs. leading_coords v cs}"
  using assms
proof (induction rule: derived_view.induct)
  case full
  then show ?case using contiguous_inj by blast
next
  case (sliced v dim first count step v')
  have ok: "view_ok P v" using derived_view_invariant [OF sliced.hyps(1) sliced.prems(1)] by blast
  obtain i: "unat dim < rank (shape (spec v)) - 2" and step: "step \<noteq> 0" by (rule slice_InrD [OF sliced.hyps(2)])
  have len: "length cs = rank (shape (spec v)) - 2" if "leading_coords v' cs" for cs
    using slice_transforms(1) [OF ok sliced.hyps(2)] that leading_coords_length by (fastforce simp: transforms_def)
  have "inj_on (\<lambda>cs. cs[unat dim := unat first + cs ! unat dim * unat step]) {cs. leading_coords v' cs}"
  proof (rule inj_onI)
    fix cs cs'
    assume a: "cs \<in> {cs. leading_coords v' cs}" "cs' \<in> {cs. leading_coords v' cs}"
      and eq: "cs[unat dim := unat first + cs ! unat dim * unat step] = cs'[unat dim := unat first + cs' ! unat dim * unat step]"
    show "cs = cs'" using a i step by (intro list_update_inj [OF eq]) (simp_all add: len unat_eq_0)
  qed
  then show ?case using transforms_inj slice_transforms(1) [OF ok sliced.hyps(2)] sliced.IH sliced.prems by blast
next
  case (selected v dim index v')
  have ok: "view_ok P v" using derived_view_invariant [OF selected.hyps(1) selected.prems(1)] by blast
  have i: "unat dim < rank (shape (spec v)) - 2" using selected.hyps(2) by (auto simp: select_def Let_def exn_simps split: if_splits)
  have "unat dim \<le> length cs" if "leading_coords v' cs" for cs
    using select_transforms(1) [OF ok selected.hyps(2)] that i leading_coords_length [of v "insert_at (unat dim) (unat index) cs"]
    by (simp add: transforms_def insert_at_def)
  then have "inj_on (insert_at (unat dim) (unat index)) {cs. leading_coords v' cs}"
    by (intro inj_on_inverseI [where g = "erase_at (unat dim)"]) (simp add: erase_insert)
  then show ?case using transforms_inj select_transforms(1) [OF ok selected.hyps(2)] selected.IH selected.prems by blast
next
  case (permuted v order v')
  have ok: "view_ok P v" using derived_view_invariant [OF permuted.hyps(1) permuted.prems(1)] by blast
  let ?n = "rank (shape (spec v)) - 2" and ?ord = "map unat order"
  have ord: "permutes_axes ?n ?ord" using permute_order [OF permuted.hyps(2)] .
  have len: "length cs = ?n" if "leading_coords v' cs" for cs
    using leading_coords_length [OF that] arg_cong [OF permute_extents [OF ok permuted.hyps(2)], of length] ord
    by (simp add: permutes_axes_def lead_extents_def length_leading)
  have "inj_on (unpermute ?ord) {cs. leading_coords v' cs}"
  proof (rule inj_onI, rule nth_equalityI)
    fix cs cs' j
    assume a: "cs \<in> {cs. leading_coords v' cs}" "cs' \<in> {cs. leading_coords v' cs}" "unpermute ?ord cs = unpermute ?ord cs'"
    show "length cs = length cs'" using a len by simp
    assume "j < length cs"
    then show "cs ! j = cs' ! j"
      using unpermute_nth [OF ord, of cs j] unpermute_nth [OF ord, of cs' j] len a by simp
  qed
  then show ?case using transforms_inj permute_transforms(1) [OF ok permuted.hyps(2)] permuted.IH permuted.prems by blast
next
  case (reshaped v dims v')
  have ok: "view_ok P v" using derived_view_invariant [OF reshaped.hyps(1) reshaped.prems(1)] by blast
  show ?case using contiguous_inj [OF reshape_transforms(4) [OF ok reshaped.hyps(2)]] .
qed

end
