(* ===== verification/Admission.thy ===== *)
theory Admission
  imports Tensor_Views
begin

text \<open>
  Operand admission shared by every operation facade: the checked specification and view
  validation of \<open>src/src/device_ops.cpp\<close>, the backing-range comparison of
  \<open>src/src/iom_internal.hpp\<close>, raw workspaces and their views (\<open>src/src/workspace.cpp\<close>), the
  workspace validation, and the mapping of failures to negative operation identifiers
  (\<open>src/include/iom/oid.hpp\<close>). The properties: every view derived from an owner is admitted,
  whatever is admitted stays inside its owner's storage, and an admitted workspace overlaps no
  operand.
\<close>

section \<open>Checked specifications and views\<close>

definition checked_plane_count :: "TensorShape \<Rightarrow> usize throws" where
  "checked_plane_count s = checked_product 1 (take (length (dimensions s) - 2) (dimensions s))"

definition checked_tiled_element_count :: "TensorShape \<Rightarrow> usize throws" where
  "checked_tiled_element_count s =
     (let dims = dimensions s; last = length dims - 1 in
      andThen (padded_extent (dims ! (last - 1))) (\<lambda>rows.
      andThen (padded_extent (dims ! last)) (\<lambda>columns.
      andThen (checked_product 1 (take (length dims - 2) dims)) (\<lambda>elements.
      andThen (checked_mul elements rows) (\<lambda>elements. checked_mul elements columns)))))"

definition checked_tiled_storage_bytes :: "TensorSpec \<Rightarrow> usize throws" where
  "checked_tiled_storage_bytes s =
     andThen (leaf_bits (data_type s)) (\<lambda>bits.
     andThen (checked_tiled_element_count (shape s)) (\<lambda>elements.
     andThen (checked_mul elements bits) bits_to_bytes))"

definition recognized_data_type :: "DataType \<Rightarrow> bool" where
  "recognized_data_type value =
     (data_type_code value \<ge> data_type_code BOOL \<and> data_type_code value \<le> data_type_code F64)"

definition recognized_quantization :: "QuantizationFormat \<Rightarrow> bool" where
  "recognized_quantization value =
     (quantization_code value \<ge> quantization_code NONE
      \<and> quantization_code value \<le> quantization_code TT_BFP8A)"

definition validate_checked_spec :: "TensorSpec \<Rightarrow> unit throws" where
  "validate_checked_spec s =
     (if \<not> recognized_data_type (data_type s) then Inl InvalidArgument
      else if \<not> recognized_quantization (quantization s) then Inl InvalidArgument
      else if rank (shape s) < 2 then Inl InvalidArgument
      else if rank (shape s) > kMaxTensorRank then Inl InvalidArgument
      else if list_ex (\<lambda>d. d = 0) (dimensions (shape s)) then Inl InvalidArgument
      else Inr ())"

record CheckedViewFacts =
  max_plane :: usize
  addressed_bytes :: usize
  storage_bytes :: usize
  logical_bytes :: usize

text \<open>
  \<open>device()\<close> and \<open>native_handle()\<close> of a view read its owner object; \<open>None\<close> stands for a view
  without an owner, which the code does not dereference.
\<close>

definition view_device :: "store \<Rightarrow> TensorView \<Rightarrow> device_ref option" where
  "view_device st v = map_option (\<lambda>owner. tensor_device (st owner)) (owner_identity v)"

definition native_handle :: "store \<Rightarrow> TensorView \<Rightarrow> usize option" where
  "native_handle st v = map_option (\<lambda>owner. storage_handle (st owner)) (owner_identity v)"

text \<open>The loop over the leading axes: zero strides are rejected, the last plane is summed up.\<close>

fun last_plane :: "usize \<Rightarrow> (usize \<times> usize) list \<Rightarrow> usize throws" where
  "last_plane plane [] = Inr plane"
| "last_plane plane ((d, stride) # axes) =
     (if stride = 0 then Inl InvalidArgument
      else andThen (checked_mul (d - 1) stride) (\<lambda>skip.
           andThen (checked_add plane skip) (\<lambda>plane. last_plane plane axes)))"

definition validate_checked_view ::
  "store \<Rightarrow> device_ref \<Rightarrow> TensorView \<Rightarrow> CheckedViewFacts throws" where
  "validate_checked_view st device v =
     (case owner_identity v of
        None \<Rightarrow> Inl InvalidArgument
      | Some owner \<Rightarrow>
          let owner_view = full_view (st owner) in
          if view_device st v \<noteq> Some device \<or> view_device st owner_view \<noteq> Some device
             \<or> owner_identity owner_view \<noteq> Some owner
          then Inl InvalidArgument
          else if native_handle st v = Some 0 \<or> native_handle st v \<noteq> native_handle st owner_view
          then Inl InvalidArgument
          else
          let dims = dimensions (shape (spec v));
              owner_spec = spec owner_view;
              owner_dims = dimensions (shape owner_spec) in
          if length dims < 2 then Inl InvalidArgument
          else if data_type (spec v) \<noteq> data_type owner_spec
             \<or> quantization (spec v) \<noteq> quantization owner_spec
             \<or> dims ! (length dims - 2) \<noteq> owner_dims ! (length owner_dims - 2)
             \<or> last dims \<noteq> last owner_dims
          then Inl InvalidArgument
          else
          let leading = length dims - 2 in
          if length (plane_strides v) \<noteq> leading then Inl InvalidArgument
          else andThen (last_plane (plane_offset v) (zip (take leading dims) (plane_strides v)))
            (\<lambda>max_plane.
          andThen (checked_plane_count (shape owner_spec)) (\<lambda>planes.
          if max_plane \<ge> planes then Inl InvalidArgument
          else andThen (standard_plane_slot (spec v) max_plane (dims ! leading - 1)
                 (dims ! (leading + 1) - 1)) (\<lambda>last_slot.
          andThen (checked_add last_slot 1) (\<lambda>slots.
          andThen (leaf_bits (data_type (spec v))) (\<lambda>bits.
          andThen (checked_mul slots bits) (\<lambda>addressed_bits.
          andThen (bits_to_bytes addressed_bits) (\<lambda>addressed.
          andThen (checked_tiled_storage_bytes owner_spec) (\<lambda>storage.
          if addressed > storage then Inl InvalidArgument
          else andThen (element_count (shape (spec v))) (\<lambda>elements.
          andThen (checked_mul elements bits) (\<lambda>logical_bits.
          andThen (bits_to_bytes logical_bits) (\<lambda>logical.
          Inr \<lparr>max_plane = max_plane, addressed_bytes = addressed,
               storage_bytes = storage, logical_bytes = logical\<rparr>))))))))))))"

section \<open>Backing ranges\<close>

datatype BackingRangeRelation = disjoint | overlap | overflow

definition checked_backing_range_relation ::
  "usize \<Rightarrow> usize \<Rightarrow> usize \<Rightarrow> usize \<Rightarrow> BackingRangeRelation" where
  "checked_backing_range_relation lhs_begin lhs_bytes rhs_begin rhs_bytes =
     (let limit = - 1 in
      if lhs_bytes > limit - lhs_begin \<or> rhs_bytes > limit - rhs_begin then overflow
      else let lhs_end = lhs_begin + lhs_bytes; rhs_end = rhs_begin + rhs_bytes in
      if lhs_begin < rhs_end \<and> rhs_begin < lhs_end then overlap else disjoint)"

section \<open>Raw workspaces\<close>

type_synonym workspace_ref = nat

text \<open>\<open>workspace_address()\<close> is virtual; its value is a field here, 0 for null.\<close>

record RawWorkspace =
  workspace_device :: device_ref
  workspace_bytes :: usize
  workspace_address :: usize

type_synonym workspace_store = "workspace_ref \<Rightarrow> RawWorkspace"

record RawWorkspaceView =
  ws_owner :: "workspace_ref option"
  ws_offset :: usize
  ws_bytes :: usize

definition empty_workspace_view :: RawWorkspaceView where
  "empty_workspace_view = \<lparr>ws_owner = None, ws_offset = 0, ws_bytes = 0\<rparr>"

definition make_workspace_view ::
  "workspace_store \<Rightarrow> workspace_ref \<Rightarrow> usize \<Rightarrow> usize \<Rightarrow> RawWorkspaceView throws" where
  "make_workspace_view ws owner offset bytes =
     (let owner_bytes = workspace_bytes (ws owner) in
      if offset > owner_bytes then Inl OutOfRange
      else if bytes > owner_bytes - offset then Inl OutOfRange
      else Inr \<lparr>ws_owner = Some owner, ws_offset = offset, ws_bytes = bytes\<rparr>)"

definition workspace_view :: "workspace_store \<Rightarrow> workspace_ref \<Rightarrow> RawWorkspaceView throws" where
  "workspace_view ws owner = make_workspace_view ws owner 0 (workspace_bytes (ws owner))"

definition subrange ::
  "workspace_store \<Rightarrow> RawWorkspaceView \<Rightarrow> usize \<Rightarrow> usize \<Rightarrow> RawWorkspaceView throws" where
  "subrange ws view offset bytes =
     (case ws_owner view of
        None \<Rightarrow> Inl InvalidArgument
      | Some owner \<Rightarrow>
          if offset mod 32 \<noteq> 0 then Inl InvalidArgument
          else make_workspace_view ws owner offset bytes)"

definition workspace_view_device :: "workspace_store \<Rightarrow> RawWorkspaceView \<Rightarrow> device_ref throws" where
  "workspace_view_device ws view =
     (case ws_owner view of None \<Rightarrow> Inl LogicError | Some owner \<Rightarrow> Inr (workspace_device (ws owner)))"

definition range_address :: "workspace_store \<Rightarrow> RawWorkspaceView \<Rightarrow> usize" where
  "range_address ws view =
     (let base = (case ws_owner view of None \<Rightarrow> 0 | Some owner \<Rightarrow> workspace_address (ws owner))
      in base + ws_offset view)"

text \<open>The live-owner set of one device.\<close>

definition owns_workspace :: "workspace_ref set \<Rightarrow> workspace_ref option \<Rightarrow> bool" where
  "owns_workspace live w = (case w of None \<Rightarrow> False | Some w \<Rightarrow> w \<in> live)"

definition register_workspace :: "workspace_ref set \<Rightarrow> workspace_ref \<Rightarrow> workspace_ref set" where
  "register_workspace live w = insert w live"

definition unregister_workspace :: "workspace_ref set \<Rightarrow> workspace_ref \<Rightarrow> workspace_ref set" where
  "unregister_workspace live w = live - {w}"

section \<open>Workspace validation\<close>

text \<open>
  The two loops over the operands: identity first, then the storage ranges. The second reads the
  owner through the pointer that the first loop found non-null.
\<close>

fun workspace_operands_local :: "store \<Rightarrow> device_ref \<Rightarrow> TensorView list \<Rightarrow> unit throws" where
  "workspace_operands_local st device [] = Inr ()"
| "workspace_operands_local st device (operand # operands) =
     (if view_device st operand \<noteq> Some device \<or> owner_identity operand = None
         \<or> native_handle st operand = Some 0
      then Inl InvalidArgument
      else workspace_operands_local st device operands)"

fun workspace_operands_disjoint :: "store \<Rightarrow> usize \<Rightarrow> usize \<Rightarrow> TensorView list \<Rightarrow> unit throws" where
  "workspace_operands_disjoint st base range_end [] = Inr ()"
| "workspace_operands_disjoint st base range_end (operand # operands) =
     (let owner = st (the (owner_identity operand));
          operand_base = storage_handle owner in
      andThen (tiled_storage_nbytes (spec (full_view owner))) (\<lambda>operand_bytes.
      if operand_bytes > - 1 - operand_base then Inl OverflowError
      else let operand_end = operand_base + operand_bytes in
      if base < operand_end \<and> operand_base < range_end then Inl InvalidArgument
      else workspace_operands_disjoint st base range_end operands))"

definition validated_workspace ::
  "workspace_ref set \<Rightarrow> workspace_store \<Rightarrow> store \<Rightarrow> device_ref \<Rightarrow> RawWorkspaceView \<Rightarrow> usize \<Rightarrow> usize
     \<Rightarrow> TensorView list \<Rightarrow> RawWorkspaceView throws" where
  "validated_workspace live ws st device workspace required_capacity required_alignment operands =
     (if required_alignment = 0 then Inl InvalidArgument
      else if required_capacity = 0 then Inr workspace
      else case ws_owner workspace of
        None \<Rightarrow> Inl InvalidArgument
      | Some owner \<Rightarrow>
          if \<not> owns_workspace live (Some owner) then Inl InvalidArgument
          else if workspace_device (ws owner) \<noteq> device then Inl InvalidArgument
          else if ws_bytes workspace < required_capacity then Inl InvalidArgument
          else let base = range_address ws workspace in
          if base = 0 then Inl InvalidArgument
          else if base mod required_alignment \<noteq> 0 then Inl InvalidArgument
          else if ws_bytes workspace > - 1 - base then Inl OverflowError
          else let range_end = base + ws_bytes workspace in
          andThen (workspace_operands_local st device operands) (\<lambda>_.
          andThen (workspace_operands_disjoint st base range_end operands) (\<lambda>_.
          Inr workspace)))"

section \<open>Operation identifiers\<close>

text \<open>\<open>oid\<close> is a signed 64-bit integer: a word read with \<open>sint\<close>.\<close>

type_synonym oid = "64 word"

datatype OidError =
  OidInvalidArgument | OidUnsupported | OidOverflow | OidResourceExhausted | OidDeviceError
| OidInternalError

fun to_oid :: "OidError \<Rightarrow> oid" where
  "to_oid OidInvalidArgument = - 1"
| "to_oid OidUnsupported = - 2"
| "to_oid OidOverflow = - 3"
| "to_oid OidResourceExhausted = - 4"
| "to_oid OidDeviceError = - 5"
| "to_oid OidInternalError = - 6"

definition oid_is_error :: "oid \<Rightarrow> bool" where
  "oid_is_error value = (sint value < 0)"

definition oid_is_token :: "oid \<Rightarrow> bool" where
  "oid_is_token value = (sint value > 0)"

text \<open>
  The handlers in order. \<open>std::out_of_range\<close>, \<open>std::runtime_error\<close> and \<open>std::logic_error\<close> reach
  \<open>catch (const std::exception&)\<close>; a null failure falls through to the end.
\<close>

definition map_failure :: "exn option \<Rightarrow> oid" where
  "map_failure failure =
     (case failure of
        None \<Rightarrow> to_oid OidInternalError
      | Some UnsupportedOperation \<Rightarrow> to_oid OidUnsupported
      | Some BadAlloc \<Rightarrow> to_oid OidResourceExhausted
      | Some OverflowError \<Rightarrow> to_oid OidOverflow
      | Some InvalidArgument \<Rightarrow> to_oid OidInvalidArgument
      | Some OutOfRange \<Rightarrow> to_oid OidDeviceError
      | Some RuntimeError \<Rightarrow> to_oid OidDeviceError
      | Some LogicError \<Rightarrow> to_oid OidDeviceError
      | Some OtherException \<Rightarrow> to_oid OidInternalError)"

section \<open>Checked sizes\<close>

lemma checked_product_append:
  "checked_product c (xs @ ys) = andThen (checked_product c xs) (\<lambda>c. checked_product c ys)"
  by (induction c xs rule: checked_product.induct) (auto simp: exn_simps intro: andThen_cong)

text \<open>The allocation-free size is the size \<open>TensorSpec::tiled_storage_nbytes\<close> computes, error by error.\<close>

lemma checked_tiled_element_count_eq:
  assumes valid: "valid_shape (shape s)"
  shows "checked_tiled_element_count (shape s) = andThen (standard_padded_shape s) element_count"
proof -
  let ?ds = "dimensions (shape s)"
  have len: "2 \<le> length ?ds" "length ?ds \<le> 8" and nz: "0 \<notin> set ?ds"
    using valid by (simp_all add: valid_shape_def rank_def)
  have idx: "length ?ds - 1 - 1 = length ?ds - 2" by simp
  have shape': "make_shape (?ds[length ?ds - 2 := r, length ?ds - 1 := c])
      = Inr (TensorShape (take (length ?ds - 2) ?ds @ [r, c]))"
    if "padded_extent (?ds ! (length ?ds - 2)) = Inr r" "padded_extent (?ds ! (length ?ds - 1)) = Inr c" for r c
  proof -
    have e: "?ds[length ?ds - 2 := r, length ?ds - 1 := c] = take (length ?ds - 2) ?ds @ [r, c]"
      using dims_update_last2 [OF len(1), of id r c] by simp
    have mem: "?ds ! (length ?ds - 2) \<in> set ?ds" "?ds ! (length ?ds - 1) \<in> set ?ds"
      using len by (auto intro!: nth_mem)
    have "0 < unat (?ds ! (length ?ds - 2))" "0 < unat (?ds ! (length ?ds - 1))"
      using mem nz by (metis unat_gt_0)+
    then have "0 < unat r" "0 < unat c"
      using that padded_pos by (simp_all add: padded_extent_Inr)
    then have "r \<noteq> 0" "c \<noteq> 0" by auto
    then show ?thesis
      using len nz unfolding e by (auto simp: make_shape_def list_ex_iff dest: in_set_takeD)
  qed
  have prod: "element_count (TensorShape (take (length ?ds - 2) ?ds @ [r, c])) =
      andThen (checked_product 1 (take (length ?ds - 2) ?ds)) (\<lambda>elements.
      andThen (checked_mul elements r) (\<lambda>elements. checked_mul elements c))" for r c
    by (simp add: element_count_def checked_product_append exn_simps)
      (intro andThen_cong refl, simp add: andThen_def split: sum.split)
  show ?thesis
    unfolding checked_tiled_element_count_def standard_padded_shape_def Let_def idx andThen_assoc
    by (intro andThen_cong refl) (simp only: shape' prod andThen_simps)
qed

lemma checked_tiled_storage_bytes_eq:
  assumes "supported_spec s"
  shows "checked_tiled_storage_bytes s = tiled_storage_nbytes s"
proof -
  obtain b where valid: "valid_shape (shape s)" and b: "leaf_bits (data_type s) = Inr b"
    using assms by (auto simp: supported_spec_def)
  then show ?thesis
    using assms validate_Inr_iff [OF valid]
    by (simp add: checked_tiled_storage_bytes_def tiled_storage_nbytes_def
        checked_tiled_element_count_eq [OF valid] exn_simps)
qed

lemma checked_plane_count_cases:
  assumes "valid_shape s"
  shows "checked_plane_count s = (if prod_list (leading s) < 2 ^ 64
    then Inr (of_nat (prod_list (leading s))) else Inl OverflowError)"
proof -
  let ?ds = "take (length (dimensions s) - 2) (dimensions s)"
  have nz: "0 \<notin> set ?ds" using assms by (auto simp: valid_shape_def dest: in_set_takeD)
  have eq: "map unat ?ds = leading s" by (simp add: leading_def extents_def rank_def take_map)
  show ?thesis
    using checked_product_Inr [OF nz, of 1 "of_nat (prod_list (leading s))"]
      checked_product_Inl [OF nz, of 1 OverflowError]
    unfolding eq by (auto simp: checked_plane_count_def unat_of_nat_fits)
qed

section \<open>The last plane\<close>

lemma last_plane_iff:
  "length ss = length ds \<Longrightarrow> 0 \<notin> set ds \<Longrightarrow>
   last_plane p (zip ds ss) = Inr m \<longleftrightarrow>
     0 \<notin> set ss \<and> unat m = unat p + dot (map (\<lambda>d. unat d - 1) ds) (map unat ss)"
proof (induction ds arbitrary: p ss)
  case Nil
  then show ?case by (auto simp: word_unat_eq_iff)
next
  case (Cons d ds)
  obtain s ss' where ss: "ss = s # ss'" "length ss' = length ds" using Cons.prems(1) by (cases ss) auto
  have d: "unat (d - 1) = unat d - 1" using Cons.prems(2) by (auto simp: unat_minus_one)
  let ?rest = "dot (map (\<lambda>d. unat d - 1) ds) (map unat ss')"
  have IH: "last_plane q (zip ds ss') = Inr m \<longleftrightarrow> 0 \<notin> set ss' \<and> unat m = unat q + ?rest" for q
    using Cons.IH [OF ss(2)] Cons.prems(2) by simp
  have "last_plane p (zip (d # ds) ss) = Inr m \<longleftrightarrow> s \<noteq> 0 \<and>
      (\<exists>k q. checked_mul (d - 1) s = Inr k \<and> checked_add p k = Inr q \<and> 0 \<notin> set ss' \<and> unat m = unat q + ?rest)"
    by (auto simp: ss exn_simps IH)
  also have "\<dots> \<longleftrightarrow> s \<noteq> 0 \<and> 0 \<notin> set ss' \<and> unat m = unat p + (unat d - 1) * unat s + ?rest"
  proof
    assume "s \<noteq> 0 \<and> (\<exists>k q. checked_mul (d - 1) s = Inr k \<and> checked_add p k = Inr q
      \<and> 0 \<notin> set ss' \<and> unat m = unat q + ?rest)"
    then show "s \<noteq> 0 \<and> 0 \<notin> set ss' \<and> unat m = unat p + (unat d - 1) * unat s + ?rest"
      by (auto simp: unat_simps d)
  next
    assume a: "s \<noteq> 0 \<and> 0 \<notin> set ss' \<and> unat m = unat p + (unat d - 1) * unat s + ?rest"
    then have lim: "unat p + (unat d - 1) * unat s < 2 ^ 64" using unat_less [of m] by linarith
    then have "(unat d - 1) * unat s < 2 ^ 64" by linarith
    then obtain k where k: "checked_mul (d - 1) s = Inr k" "unat k = (unat d - 1) * unat s"
      using checked_mul_ex [OF d refl] by blast
    obtain q where q: "checked_add p k = Inr q" "unat q = unat p + (unat d - 1) * unat s"
      using checked_add_ex [OF refl k(2) lim] by blast
    from a k(1) q show "s \<noteq> 0 \<and> (\<exists>k q. checked_mul (d - 1) s = Inr k \<and> checked_add p k = Inr q
      \<and> 0 \<notin> set ss' \<and> unat m = unat q + ?rest)" by auto
  qed
  finally show ?case by (auto simp: ss)
qed

lemma last_plane_max:
  assumes valid: "valid_shape (shape (spec v))" and len: "length (plane_strides v) = rank (shape (spec v)) - 2"
  shows "last_plane (plane_offset v) (zip (leading_dimensions_of (spec v)) (plane_strides v)) = Inr m
    \<longleftrightarrow> 0 \<notin> set (plane_strides v) \<and> unat m = max_plane_of v"
proof -
  have "map (\<lambda>d. d - 1) (lead_extents v) = map (\<lambda>d. unat d - 1) (leading_dimensions_of (spec v))"
    by (simp add: lead_extents_def comp_def flip: map_leading)
  then show ?thesis
    using last_plane_iff [of "plane_strides v" "leading_dimensions_of (spec v)" "plane_offset v" m]
      len leading_nonzero [OF valid]
    by (simp add: length_leading_dimensions max_plane_of_def view_plane_def lead_strides_def)
qed

section \<open>The last slot\<close>

lemma mod_le_of_div: "a div k = b div k \<Longrightarrow> a \<le> b \<Longrightarrow> a mod k \<le> b mod (k :: nat)"
  by (metis diff_le_mono minus_div_mult_eq_mod)

lemma plane_slot_mono:
  assumes p: "p \<le> P" and r: "r < rows_of s" and c: "c < columns_of s"
  shows "plane_slot s p r c \<le> plane_slot s P (rows_of s - 1) (columns_of s - 1)"
proof -
  let ?T = "tile_rows s * tile_columns s" and ?tc = "tile_columns s"
  let ?R = "rows_of s - 1" and ?C = "columns_of s - 1"
  define a where "a = p * ?T + (r div 16 * ?tc + c div 16)"
  define b where "b = P * ?T + (?R div 16 * ?tc + ?C div 16)"
  have le: "p * ?T \<le> P * ?T" "r div 16 * ?tc \<le> ?R div 16 * ?tc" "c div 16 \<le> ?C div 16"
    using p r c by (auto intro!: mult_le_mono1 div_le_mono)
  have tc: "0 < ?tc" using tile_index_bounds [OF r c] by auto
  show ?thesis
  proof (cases "a = b")
    case True
    then have "r div 16 * ?tc = ?R div 16 * ?tc" "c div 16 = ?C div 16"
      using le unfolding a_def b_def by linarith+
    then have d: "r div 16 = ?R div 16" "c div 16 = ?C div 16" using tc by simp_all
    have "r mod 16 \<le> ?R mod 16" "c mod 16 \<le> ?C mod 16"
      using r c mod_le_of_div [OF d(1)] mod_le_of_div [OF d(2)] by simp_all
    then show ?thesis using True by (simp add: plane_slot_def a_def b_def)
  next
    case False
    then have "a + 1 \<le> b" using le unfolding a_def b_def by linarith
    then have "(a + 1) * 256 \<le> b * 256" by (rule mult_le_mono1)
    moreover have "plane_slot s p r c = a * 256 + (r mod 16 * 16 + c mod 16)"
      "plane_slot s P ?R ?C = b * 256 + (?R mod 16 * 16 + ?C mod 16)"
      by (simp_all add: plane_slot_def a_def b_def)
    moreover have "x + y \<le> z + w" if "(x + 256 :: nat) \<le> z" "y < 256" for x y z w using that by simp
    ultimately show ?thesis using in_tile_less [of r c] by simp
  qed
qed

lemma same_matrix_facts:
  assumes "valid_shape (shape s)" and "valid_shape (shape s')" and "same_matrix s s'"
  shows "rows_of (shape s) = rows_of (shape s')" and "columns_of (shape s) = columns_of (shape s')"
    and "leaf_width s = leaf_width s'" and "plane_elements (shape s) = plane_elements (shape s')"
    and "tile_rows (shape s) = tile_rows (shape s')" and "tile_columns (shape s) = tile_columns (shape s')"
proof -
  have last2: "map unat (drop (rank sh - 2) (dimensions sh)) = [rows_of sh, columns_of sh]"
    if "valid_shape sh" for sh
  proof -
    have "drop (rank sh - 2) (extents sh) = [rows_of sh, columns_of sh]"
      using extents_split [OF that] that by (metis append_eq_conv_conj length_leading)
    then show ?thesis by (simp add: extents_def drop_map)
  qed
  have "map unat (drop (rank (shape s) - 2) (dimensions (shape s)))
      = map unat (drop (rank (shape s') - 2) (dimensions (shape s')))"
    using assms(3) by (simp add: same_matrix_def)
  then show rc: "rows_of (shape s) = rows_of (shape s')" "columns_of (shape s) = columns_of (shape s')"
    using last2 assms(1,2) by simp_all
  then show "plane_elements (shape s) = plane_elements (shape s')"
    "tile_rows (shape s) = tile_rows (shape s')" "tile_columns (shape s) = tile_columns (shape s')"
    by (simp_all add: plane_elements_def tile_rows_def tile_columns_def)
  show "leaf_width s = leaf_width s'" using assms(3) by (simp add: leaf_width_def same_matrix_def)
qed

lemma same_matrix_iff:
  assumes "valid_shape (shape s)" and "valid_shape (shape s')"
  shows "same_matrix s s' \<longleftrightarrow> data_type s = data_type s' \<and> quantization s = quantization s'
    \<and> dimensions (shape s) ! (rank (shape s) - 2) = dimensions (shape s') ! (rank (shape s') - 2)
    \<and> last (dimensions (shape s)) = last (dimensions (shape s'))"
proof -
  have last2: "drop (rank sh - 2) (dimensions sh) = [dimensions sh ! (rank sh - 2), last (dimensions sh)]"
    if "valid_shape sh" for sh
  proof -
    have len: "2 \<le> length (dimensions sh)" using that by (simp add: valid_shape_def rank_def)
    then have ne: "dimensions sh \<noteq> []" by auto
    have "drop (length (dimensions sh) - 2) (take (length (dimensions sh) - 2) (dimensions sh)
        @ [dimensions sh ! (length (dimensions sh) - 2), dimensions sh ! (length (dimensions sh) - 1)])
      = [dimensions sh ! (length (dimensions sh) - 2), last (dimensions sh)]"
      by (simp add: last_conv_nth [OF ne])
    then show ?thesis unfolding rank_def list_split_last2 [OF len, symmetric] .
  qed
  show ?thesis by (auto simp: same_matrix_def last2 [OF assms(1)] last2 [OF assms(2)])
qed

section \<open>Admitted views\<close>

lemma validate_checked_spec_Inr:
  "validate_checked_spec s = Inr () \<longleftrightarrow> recognized_data_type (data_type s)
     \<and> recognized_quantization (quantization s) \<and> valid_shape (shape s)"
  by (auto simp: validate_checked_spec_def valid_shape_def list_ex_iff)

lemma recognized_leaf: "recognized_data_type t \<longleftrightarrow> (\<exists>b. leaf_bits t = Inr b)"
  by (cases t) (auto simp: recognized_data_type_def)

lemma recognized_NONE: "recognized_quantization NONE"
  by (simp add: recognized_quantization_def)

text \<open>The guards of \<open>validate_checked_view\<close> before its arithmetic, on a view of a constructed owner.\<close>

definition view_guards :: "store \<Rightarrow> device_ref \<Rightarrow> TensorView \<Rightarrow> tensor_ref \<Rightarrow> bool" where
  "view_guards st device v owner \<longleftrightarrow> owner_identity v = Some owner
     \<and> tensor_device (st owner) = device \<and> owner_identity (full_view (st owner)) = Some owner
     \<and> storage_handle (st owner) \<noteq> 0 \<and> 2 \<le> rank (shape (spec v))
     \<and> data_type (spec v) = data_type (spec (full_view (st owner)))
     \<and> quantization (spec v) = quantization (spec (full_view (st owner)))
     \<and> dimensions (shape (spec v)) ! (rank (shape (spec v)) - 2)
       = dimensions (shape (spec (full_view (st owner)))) ! (rank (shape (spec (full_view (st owner)))) - 2)
     \<and> last (dimensions (shape (spec v))) = last (dimensions (shape (spec (full_view (st owner)))))
     \<and> length (plane_strides v) = rank (shape (spec v)) - 2"

definition view_arithmetic :: "TensorSpec \<Rightarrow> TensorView \<Rightarrow> CheckedViewFacts throws" where
  "view_arithmetic owner_spec v =
     (let dims = dimensions (shape (spec v)); leading = length dims - 2 in
      andThen (last_plane (plane_offset v) (zip (take leading dims) (plane_strides v))) (\<lambda>max_plane.
      andThen (checked_plane_count (shape owner_spec)) (\<lambda>planes.
      if max_plane \<ge> planes then Inl InvalidArgument
      else andThen (standard_plane_slot (spec v) max_plane (dims ! leading - 1)
             (dims ! (leading + 1) - 1)) (\<lambda>last_slot.
      andThen (checked_add last_slot 1) (\<lambda>slots.
      andThen (leaf_bits (data_type (spec v))) (\<lambda>bits.
      andThen (checked_mul slots bits) (\<lambda>addressed_bits.
      andThen (bits_to_bytes addressed_bits) (\<lambda>addressed.
      andThen (checked_tiled_storage_bytes owner_spec) (\<lambda>storage.
      if addressed > storage then Inl InvalidArgument
      else andThen (element_count (shape (spec v))) (\<lambda>elements.
      andThen (checked_mul elements bits) (\<lambda>logical_bits.
      andThen (bits_to_bytes logical_bits) (\<lambda>logical.
      Inr \<lparr>max_plane = max_plane, addressed_bytes = addressed,
           storage_bytes = storage, logical_bytes = logical\<rparr>))))))))))))"

lemma validate_checked_view_split:
  "validate_checked_view st device v =
     (case owner_identity v of
        None \<Rightarrow> Inl InvalidArgument
      | Some owner \<Rightarrow> if view_guards st device v owner then view_arithmetic (spec (full_view (st owner))) v
          else Inl InvalidArgument)"
proof (cases "owner_identity v")
  case (Some owner)
  let ?ov = "full_view (st owner)"
  show ?thesis
  proof (cases "view_device st v \<noteq> Some device \<or> view_device st ?ov \<noteq> Some device
      \<or> owner_identity ?ov \<noteq> Some owner
      \<or> native_handle st v = Some 0 \<or> native_handle st v \<noteq> native_handle st ?ov")
    case True
    moreover from True have "\<not> view_guards st device v owner"
      using Some by (auto simp: view_guards_def view_device_def native_handle_def)
    ultimately show ?thesis using Some by (auto simp: validate_checked_view_def Let_def)
  next
    case False
    then show ?thesis using Some
      by (simp add: validate_checked_view_def view_arithmetic_def view_guards_def Let_def rank_def
          view_device_def native_handle_def not_less)
  qed
qed (simp add: validate_checked_view_def)

lemma last_matrix_cell:
  assumes "valid_shape s"
  shows "unat (dimensions s ! (length (dimensions s) - 2) - 1) = rows_of s - 1"
    and "unat (dimensions s ! (length (dimensions s) - 2 + 1) - 1) = columns_of s - 1"
proof -
  have rk: "2 \<le> length (dimensions s)" using assms by (simp add: valid_shape_def rank_def)
  then have idx: "length (dimensions s) - 2 = rank s - 2" "rank s - 2 + 1 = rank s - Suc 0"
    by (simp_all add: rank_def)
  have dec: "unat (x - 1) = unat x - 1" if "0 < unat x" for x :: usize
    using that by (intro unat_minus_one) auto
  show "unat (dimensions s ! (length (dimensions s) - 2) - 1) = rows_of s - 1"
    "unat (dimensions s ! (length (dimensions s) - 2 + 1) - 1) = columns_of s - 1"
    unfolding idx(1) unfolding idx(2) using dec shape_nth [OF assms] rows_columns_pos [OF assms] by simp_all
qed

lemma view_arithmetic_Inr:
  assumes valid: "valid_shape (shape (spec v))" and len: "length (plane_strides v) = rank (shape (spec v)) - 2"
    and owner: "supported_spec s" and same: "same_matrix (spec v) s"
    and run: "view_arithmetic s v = Inr f"
  shows "view_ok (prod_list (leading (shape s))) v" and "unat (max_plane f) = max_plane_of v"
    and "tiled_storage_nbytes s = Inr (storage_bytes f)" and "addressed_bytes f \<le> storage_bytes f"
    and "unat (addressed_bytes f) = packed_bytes ((plane_slot (shape s) (max_plane_of v)
      (rows_of (shape s) - 1) (columns_of (shape s) - 1) + 1) * leaf_width s)"
    and "logical_nbytes (spec v) = Inr (logical_bytes f)"
proof -
  let ?dims = "dimensions (shape (spec v))" and ?P = "prod_list (leading (shape s))"
  have sv: "valid_shape (shape s)" using owner by (simp add: supported_spec_def)
  have lead: "take (length ?dims - 2) ?dims = leading_dimensions_of (spec v)"
    by (simp add: leading_dimensions_of_def rank_def)
  from run obtain mp planes last_slot slots bits addressed_bits addressed storage elements logical_bits logical
    where mp: "last_plane (plane_offset v) (zip (leading_dimensions_of (spec v)) (plane_strides v)) = Inr mp"
      and planes: "checked_plane_count (shape s) = Inr planes" "mp < planes"
      and slot: "standard_plane_slot (spec v) mp (?dims ! (length ?dims - 2) - 1)
          (?dims ! (length ?dims - 2 + 1) - 1) = Inr last_slot"
      and slots: "checked_add last_slot 1 = Inr slots" and bits: "leaf_bits (data_type (spec v)) = Inr bits"
      and ab: "checked_mul slots bits = Inr addressed_bits" "bits_to_bytes addressed_bits = Inr addressed"
      and st: "checked_tiled_storage_bytes s = Inr storage" "addressed \<le> storage"
      and lo: "element_count (shape (spec v)) = Inr elements" "checked_mul elements bits = Inr logical_bits"
        "bits_to_bytes logical_bits = Inr logical"
      and f: "f = \<lparr>max_plane = mp, addressed_bytes = addressed, storage_bytes = storage, logical_bytes = logical\<rparr>"
    unfolding view_arithmetic_def Let_def lead
    by (auto simp: andThen_Inr_iff not_le not_less split: if_splits)
  note mx = mp [unfolded last_plane_max [OF valid len]]
  show "unat (max_plane f) = max_plane_of v" using mx by (simp add: f)
  have "unat planes = ?P"
    using planes(1) by (auto simp: checked_plane_count_cases [OF sv] unat_of_nat_fits split: if_splits)
  then show ok: "view_ok ?P v" using mx planes(2) valid len by (simp add: view_ok_def word_less_nat_alt)
  show tiled: "tiled_storage_nbytes s = Inr (storage_bytes f)"
    using st(1) checked_tiled_storage_bytes_eq [OF owner] by (simp add: f)
  show "addressed_bytes f \<le> storage_bytes f" using st(2) by (simp add: f)
  note fits = tiled_storage_fits [OF owner tiled]
  note same' = same_matrix_facts [OF valid sv same]
  note pos = rows_columns_pos [OF sv]
  note rc = last_matrix_cell [OF valid, unfolded same'(1,2)]
  have pe: "?P * plane_elements (shape (spec v)) < 2 ^ 64"
    using fits(1) same'(4) by (simp add: tiled_elements_def plane_elements_def)
  have "unat last_slot = plane_slot (shape (spec v)) (max_plane_of v) (rows_of (shape s) - 1) (columns_of (shape s) - 1)"
    using standard_plane_slot_ok [OF valid _ _ _ pe, of mp "?dims ! (length ?dims - 2) - 1"
        "?dims ! (length ?dims - 2 + 1) - 1"] slot mx ok rc pos same'(1,2)
    by (simp add: view_ok_def)
  also have "\<dots> = plane_slot (shape s) (max_plane_of v) (rows_of (shape s) - 1) (columns_of (shape s) - 1)"
    by (simp add: plane_slot_def same')
  finally have ls: "unat last_slot = \<dots>" .
  have w: "unat bits = leaf_width s" using bits same'(3) by (simp add: leaf_width_Inr)
  show "unat (addressed_bytes f) = packed_bytes ((plane_slot (shape s) (max_plane_of v)
      (rows_of (shape s) - 1) (columns_of (shape s) - 1) + 1) * leaf_width s)"
    using slots ab ls w by (simp add: f unat_simps packed_bytes_def)
  have "supported_spec (spec v)"
    using owner same valid bits by (auto simp: supported_spec_def same_matrix_def)
  then have "validate (spec v) = Inr ()" using validate_Inr_iff [OF valid] by simp
  then show "logical_nbytes (spec v) = Inr (logical_bytes f)"
    using lo bits by (simp add: logical_nbytes_def f)
qed

lemma bits_to_bytes_ex: "unat m + 7 < 2 ^ 64 \<Longrightarrow> \<exists>b. bits_to_bytes m = Inr b \<and> unat b = packed_bytes (unat m)"
proof -
  assume m: "unat m + 7 < 2 ^ 64"
  obtain k where "checked_add m 7 = Inr k" "unat k = unat m + 7"
    using checked_add_ex [OF refl _ m, of 7] by auto
  then show ?thesis by (simp add: bits_to_bytes_def packed_bytes_def unat_div)
qed

lemma view_arithmetic_ok:
  assumes ok: "view_ok (prod_list (leading (shape s))) v" and owner: "supported_spec s"
    and same: "same_matrix (spec v) s" and n: "tiled_storage_nbytes s = Inr n"
    and planes: "prod_list (lead_extents v) \<le> prod_list (leading (shape s))"
  shows "\<exists>f. view_arithmetic s v = Inr f"
proof -
  let ?dims = "dimensions (shape (spec v))" and ?P = "prod_list (leading (shape s))"
  let ?w = "leaf_width s" and ?m = "max_plane_of v"
  let ?R = "rows_of (shape s) - 1" and ?C = "columns_of (shape s) - 1"
  have valid: "valid_shape (shape (spec v))" and len: "length (plane_strides v) = rank (shape (spec v)) - 2"
    and nz: "0 \<notin> set (plane_strides v)" and m: "?m < ?P"
    using ok by (simp_all add: view_ok_def)
  have sv: "valid_shape (shape s)" using owner by (simp add: supported_spec_def)
  obtain bits where bits: "leaf_bits (data_type (spec v)) = Inr bits"
    using owner same by (auto simp: supported_spec_def same_matrix_def)
  note same' = same_matrix_facts [OF valid sv same]
  have w: "unat bits = ?w" using bits same'(3) by (simp add: leaf_width_Inr)
  have wpos: "0 < ?w" using leaf_bits_range [OF bits] w by simp
  note fits = tiled_storage_fits [OF owner n]
  have big: "tiled_elements (shape s) * ?w + 7 < 2 ^ 64"
    using n by (auto simp: tiled_storage_nbytes_cases [OF owner] split: if_splits)
  note pos = rows_columns_pos [OF sv]
  have tiled: "tiled_elements (shape s) = ?P * plane_elements (shape s)"
    by (simp add: tiled_elements_def plane_elements_def)
  have pe: "?P * plane_elements (shape (spec v)) < 2 ^ 64" using fits(1) tiled same'(4) by simp
  have "0 < plane_elements (shape s)" using padded_pos pos by (simp add: plane_elements_def)
  then have "?P \<le> tiled_elements (shape s)" by (simp add: tiled)
  then have P: "?P < 2 ^ 64" using fits(1) by linarith
  then have um: "unat (of_nat ?m :: usize) = ?m" using m by (intro unat_of_nat_fits) linarith
  have mp: "last_plane (plane_offset v) (zip (leading_dimensions_of (spec v)) (plane_strides v)) = Inr (of_nat ?m)"
    using last_plane_max [OF valid len] nz um by simp
  have pc: "checked_plane_count (shape s) = Inr (of_nat ?P)" using P checked_plane_count_cases [OF sv] by simp
  have lt: "\<not> (of_nat ?P :: usize) \<le> of_nat ?m"
    using um P m by (simp add: word_le_nat_alt unat_of_nat_fits)
  note rc = last_matrix_cell [OF valid, unfolded same'(1,2)]
  have slot_less: "plane_slot (shape s) ?m ?R ?C < tiled_elements (shape s)"
    using plane_slot_less [OF m, of ?R "shape s" ?C] pos unfolding tiled by simp
  obtain sl where sl: "standard_plane_slot (spec v) (of_nat ?m) (?dims ! (length ?dims - 2) - 1)
      (?dims ! (length ?dims - 2 + 1) - 1) = Inr sl"
    and usl: "unat sl = plane_slot (shape s) ?m ?R ?C"
    using standard_plane_slot_ok [OF valid _ _ _ pe, of "of_nat ?m" "?dims ! (length ?dims - 2) - 1"
        "?dims ! (length ?dims - 2 + 1) - 1"] um m rc pos same'
    by (auto simp: plane_slot_def)
  have one: "unat (1 :: usize) = 1" by simp
  have "plane_slot (shape s) ?m ?R ?C + 1 < 2 ^ 64" using slot_less fits(1) by linarith
  then obtain slots where slots: "checked_add sl 1 = Inr slots" "unat slots = plane_slot (shape s) ?m ?R ?C + 1"
    using checked_add_ex [OF usl one] by blast
  have le: "(plane_slot (shape s) ?m ?R ?C + 1) * ?w \<le> tiled_elements (shape s) * ?w"
    using slot_less by (intro mult_le_mono1) simp
  then have "(plane_slot (shape s) ?m ?R ?C + 1) * ?w < 2 ^ 64" using big by linarith
  then obtain ab where ab: "checked_mul slots bits = Inr ab" "unat ab = (plane_slot (shape s) ?m ?R ?C + 1) * ?w"
    using checked_mul_ex [OF slots(2) w] by blast
  have "unat ab + 7 < 2 ^ 64" using ab(2) le big by linarith
  then obtain a where a: "bits_to_bytes ab = Inr a" "unat a = packed_bytes (unat ab)"
    using bits_to_bytes_ex by blast
  have st: "checked_tiled_storage_bytes s = Inr n" using n checked_tiled_storage_bytes_eq [OF owner] by simp
  have an: "\<not> a > n"
    using packed_bytes_mono [OF le] a(2) ab(2) fits(3) by (simp add: word_less_nat_alt)
  have "logical_elements (shape (spec v)) = prod_list (lead_extents v) * (rows_of (shape s) * columns_of (shape s))"
    using logical_elements_alt [OF valid] same'(1,2) by (simp add: lead_extents_def)
  also have "\<dots> \<le> ?P * (padded (rows_of (shape s)) * padded (columns_of (shape s)))"
    using planes by (intro mult_le_mono padded_ge)
  finally have el: "logical_elements (shape (spec v)) \<le> tiled_elements (shape s)" by (simp add: tiled_elements_def)
  then have "logical_elements (shape (spec v)) < 2 ^ 64" using fits(1) by linarith
  then obtain ec where ec: "element_count (shape (spec v)) = Inr ec" "unat ec = logical_elements (shape (spec v))"
    using element_count_cases [OF valid] unat_of_nat_fits by simp
  have le2: "logical_elements (shape (spec v)) * ?w \<le> tiled_elements (shape s) * ?w"
    using el by (rule mult_le_mono1)
  then have "logical_elements (shape (spec v)) * ?w < 2 ^ 64" using big by linarith
  then obtain lb where lb: "checked_mul ec bits = Inr lb" "unat lb = logical_elements (shape (spec v)) * ?w"
    using checked_mul_ex [OF ec(2) w] by blast
  have "unat lb + 7 < 2 ^ 64" using lb(2) le2 big by linarith
  then obtain l where l: "bits_to_bytes lb = Inr l" using bits_to_bytes_ex by blast
  have lead: "take (length ?dims - 2) ?dims = leading_dimensions_of (spec v)"
    by (simp add: leading_dimensions_of_def rank_def)
  show ?thesis
    unfolding view_arithmetic_def Let_def lead mp andThen_simps pc if_not_P [OF lt] sl slots(1) bits ab(1)
      a(1) st if_not_P [OF an] ec(1) lb(1) l by blast
qed

section \<open>Plane counts of derived views\<close>

lemma prod_list_mono: "list_all2 (\<le>) xs ys \<Longrightarrow> prod_list xs \<le> prod_list (ys :: nat list)"
  by (induction rule: list_all2_induct) (auto intro: mult_le_mono)

lemma slice_planes:
  assumes "view_ok P v" and "slice v dim first count step = Inr v'"
  shows "prod_list (lead_extents v') \<le> prod_list (lead_extents v)"
proof -
  have valid: "valid_shape (shape (spec v))" using assms(1) by (simp add: view_ok_def)
  from assms(2) obtain last sliced skip :: usize and s where i: "unat dim < rank (shape (spec v)) - 2"
    and nz: "count \<noteq> 0" "step \<noteq> 0" and last: "unat last = unat first + (unat count - 1) * unat step"
      "unat last < lead_extents v ! unat dim"
    and s: "with_leading_dimensions (spec v) ((leading_dimensions_of (spec v))[unat dim := count]) = Inr s"
    and v': "v' = \<lparr>owner_identity = owner_identity v, spec = s, plane_offset = skip,
               plane_strides = (plane_strides v)[unat dim := sliced]\<rparr>"
    by (elim slice_InrD)
  have "0 < unat step" using nz(2) by (simp add: unat_gt_0)
  then have "unat count - 1 \<le> (unat count - 1) * unat step" by simp
  then have le: "unat count \<le> lead_extents v ! unat dim" using last by linarith
  have "lead_extents v' = (lead_extents v)[unat dim := unat count]"
    using with_leading_dimensions_facts(3) [OF valid s]
    by (simp add: lead_extents_def map_update map_leading v')
  moreover have "unat dim < length (lead_extents v)" using i by (simp add: lead_extents_def length_leading)
  ultimately have "list_all2 (\<le>) (lead_extents v') (lead_extents v)"
    using le by (auto simp: list_all2_conv_all_nth nth_list_update)
  then show ?thesis by (rule prod_list_mono)
qed

lemma select_planes:
  assumes "view_ok P v" and "select v dim index = Inr v'"
  shows "prod_list (lead_extents v') \<le> prod_list (lead_extents v)"
proof -
  have valid: "valid_shape (shape (spec v))" using assms(1) by (simp add: view_ok_def)
  let ?i = "unat dim"
  from assms(2) obtain s where i: "?i < rank (shape (spec v)) - 2"
    and s: "with_leading_dimensions (spec v) (erase_at ?i (leading_dimensions_of (spec v))) = Inr s"
    and v': "spec v' = s"
    by (auto simp: select_def Let_def exn_simps split: if_splits)
  have lead: "lead_extents v' = erase_at ?i (lead_extents v)"
    using with_leading_dimensions_facts(3) [OF valid s]
    by (simp add: lead_extents_def v' map_erase map_leading)
  have il: "?i < length (lead_extents v)" using i by (simp add: lead_extents_def length_leading)
  then have "lead_extents v ! ?i \<noteq> 0" using lead_extents_nonzero [OF valid] by (metis nth_mem)
  then have ge: "1 \<le> lead_extents v ! ?i" by simp
  have "lead_extents v = take ?i (lead_extents v) @ lead_extents v ! ?i # drop (Suc ?i) (lead_extents v)"
    using il by (simp add: id_take_nth_drop)
  then have "prod_list (lead_extents v) = prod_list (erase_at ?i (lead_extents v)) * lead_extents v ! ?i"
    unfolding erase_at_def by (metis (no_types, lifting) mult.assoc mult.commute prod_list.Cons prod_list.append)
  then show ?thesis using mult_le_mono2 [OF ge, of "prod_list (erase_at ?i (lead_extents v))"]
    by (simp add: lead)
qed

lemma permutes_axes_set: "permutes_axes n ord \<Longrightarrow> set ord = {..<n}"
  by (intro card_subset_eq) (auto simp: permutes_axes_def distinct_card)

lemma permute_planes:
  assumes "view_ok P v" and "permute v order = Inr v'"
  shows "prod_list (lead_extents v') = prod_list (lead_extents v)"
proof -
  let ?ord = "map unat order" and ?xs = "lead_extents v"
  note perm = permute_order [OF assms(2)]
  have n: "length ?xs = rank (shape (spec v)) - 2" by (simp add: lead_extents_def length_leading)
  have "set ?ord = {..<length ?xs}" using permutes_axes_set [OF perm] by (simp only: n)
  then have "prod_list (map ((!) ?xs) ?ord) = prod ((!) ?xs) {..<length ?xs}"
    using perm by (metis permutes_axes_def prod.distinct_set_conv_list)
  also have "\<dots> = prod_list (map ((!) ?xs) [0..<length ?xs])"
    by (metis atLeast_upt distinct_upt prod.distinct_set_conv_list)
  finally have "prod_list (map ((!) ?xs) ?ord) = prod_list ?xs" by (simp only: map_nth)
  then show ?thesis using permute_extents [OF assms] by (simp add: comp_def)
qed

lemma derived_view_planes:
  assumes "derived_view t v" and "view_ok P (full_view t)"
  shows "view_ok P v \<and> prod_list (lead_extents v) \<le> prod_list (lead_extents (full_view t))"
  using assms(1)
proof (induction rule: derived_view.induct)
  case full
  then show ?case using assms(2) by simp
next
  case (sliced v dim first count step v')
  then show ?case
    using slice_planes slice_transforms(2) le_trans by blast
next
  case (selected v dim index v')
  then show ?case using select_planes select_transforms(2) le_trans by blast
next
  case (permuted v order v')
  then show ?case using permute_planes permute_transforms(2) by fastforce
next
  case (reshaped v dims v')
  then have ok: "view_ok P v" by blast
  from reshape_reshapes_to [OF ok reshaped.hyps(2)] reshape_transforms(2,5) [OF ok reshaped.hyps(2)]
  show ?case using reshaped.IH by (simp add: reshapes_to_def)
qed

section \<open>Ranges\<close>

text \<open>On positive sizes the comparison decides intersection of the two address ranges.\<close>

lemma backing_range_relation_cases:
  assumes "lhs_bytes \<noteq> 0" and "rhs_bytes \<noteq> 0"
  shows "checked_backing_range_relation lhs lhs_bytes rhs rhs_bytes =
    (if unat lhs + unat lhs_bytes < 2 ^ 64 \<and> unat rhs + unat rhs_bytes < 2 ^ 64
     then if span lhs lhs_bytes \<inter> span rhs rhs_bytes = {} then disjoint else overlap
     else overflow)"
proof (cases "unat lhs + unat lhs_bytes < 2 ^ 64 \<and> unat rhs + unat rhs_bytes < 2 ^ 64")
  case True
  then have "\<not> lhs_bytes > - 1 - lhs" "\<not> rhs_bytes > - 1 - rhs" by (simp_all only: range_end_fits)
  then show ?thesis
    using True span_disjoint_iff [OF _ _ assms, of lhs rhs]
    by (simp add: checked_backing_range_relation_def Let_def)
next
  case False
  then have "lhs_bytes > - 1 - lhs \<or> rhs_bytes > - 1 - rhs" using range_end_fits by blast
  then show ?thesis using False by (auto simp: checked_backing_range_relation_def Let_def)
qed

definition operand_span :: "store \<Rightarrow> TensorView \<Rightarrow> usize \<Rightarrow> nat set" where
  "operand_span st v nbytes = (case native_handle st v of None \<Rightarrow> {} | Some h \<Rightarrow> span h nbytes)"

lemma workspace_operands_localD:
  "workspace_operands_local st device vs = Inr () \<Longrightarrow> v \<in> set vs \<Longrightarrow>
   \<exists>owner. owner_identity v = Some owner \<and> tensor_device (st owner) = device \<and> storage_handle (st owner) \<noteq> 0"
  by (induction vs) (auto simp: view_device_def native_handle_def split: if_splits)

lemma workspace_operands_disjointD:
  assumes "workspace_operands_disjoint st base range_end vs = Inr ()" and "v \<in> set vs"
  shows "\<exists>n. tiled_storage_nbytes (spec (full_view (st (the (owner_identity v))))) = Inr n
    \<and> unat (storage_handle (st (the (owner_identity v)))) + unat n < 2 ^ 64
    \<and> \<not> (base < storage_handle (st (the (owner_identity v))) + n
         \<and> storage_handle (st (the (owner_identity v))) < range_end)"
  using assms
proof (induction vs)
  case (Cons u vs)
  let ?o = "st (the (owner_identity u))"
  from Cons.prems(1) obtain n where n: "tiled_storage_nbytes (spec (full_view ?o)) = Inr n"
    "\<not> n > - 1 - storage_handle ?o" "\<not> (base < storage_handle ?o + n \<and> storage_handle ?o < range_end)"
    "workspace_operands_disjoint st base range_end vs = Inr ()"
    by (auto simp: Let_def exn_simps split: if_splits)
  show ?case
  proof (cases "v = u")
    case True
    then show ?thesis using n(1-3) range_end_fits by blast
  next
    case False
    then show ?thesis using Cons.IH [OF n(4)] Cons.prems(2) by simp
  qed
qed simp

text \<open>A derived view of a constructed owner with storage passes both checks.\<close>

lemma derived_view_checked:
  assumes "valid_shape (shape s)" and "make_tensor self s device handle = Inr (st self)"
    and "handle \<noteq> 0" and "tiled_storage_nbytes s = Inr n" and "derived_view (st self) v"
  shows "validate_checked_spec (spec v) = Inr ()
    \<and> (\<exists>f. validate_checked_view st device v = Inr f \<and> storage_bytes f = n
        \<and> unat (max_plane f) = max_plane_of v \<and> logical_nbytes (spec v) = Inr (logical_bytes f)
        \<and> addressed_bytes f \<le> storage_bytes f)"
proof -
  let ?t = "st self"
  note t = make_tensor_facts [OF assms(1,2)]
  have inv: "view_ok (prod_list (leading (shape s))) v" "owner_identity v = Some self"
    "same_matrix (spec v) s"
    using derived_view_invariant [OF assms(5) t(3)] t(4,5) by simp_all
  have planes: "prod_list (lead_extents v) \<le> prod_list (leading (shape s))"
    using derived_view_planes [OF assms(5) t(3)] by (simp add: lead_extents_def t(4))
  have valid: "valid_shape (shape (spec v))" and len: "length (plane_strides v) = rank (shape (spec v)) - 2"
    using inv(1) by (simp_all add: view_ok_def)
  have spec: "validate_checked_spec (spec v) = Inr ()"
    using t(1) inv(3) valid recognized_NONE
    by (auto simp: validate_checked_spec_Inr recognized_leaf supported_spec_def same_matrix_def)
  have "2 \<le> rank (shape (spec v))" using valid by (simp add: valid_shape_def)
  then have g: "view_guards st device v self"
    using t(4-7) inv(2,3) assms(3) len same_matrix_iff [OF valid assms(1)]
    by (simp add: view_guards_def)
  obtain f where f: "view_arithmetic s v = Inr f"
    using view_arithmetic_ok [OF inv(1) t(1) inv(3) assms(4) planes] by blast
  have "validate_checked_view st device v = Inr f"
    using g f inv(2) t(4) by (simp add: validate_checked_view_split)
  then show ?thesis
    using spec view_arithmetic_Inr [OF valid len t(1) inv(3) f] assms(4) by auto
qed

section \<open>Samples\<close>

definition sample_store :: store where
  "sample_store = (\<lambda>_. sample_tensor)"

abbreviation sample_owner_spec :: TensorSpec where
  "sample_owner_spec \<equiv> \<lparr>shape = TensorShape [4, 3, 5, 6], data_type = F32, quantization = NONE\<rparr>"

lemma sample_owner:
  "valid_shape (shape sample_owner_spec)"
  "make_tensor 3 sample_owner_spec 7 4096 = Inr (sample_store 3)"
  "tiled_storage_nbytes sample_owner_spec = Inr 12288"
proof -
  show v: "valid_shape (shape sample_owner_spec)" by (simp add: valid_shape_def rank_def)
  show "make_tensor 3 sample_owner_spec 7 4096 = Inr (sample_store 3)"
    using sample_tensor_made by (simp add: sample_store_def)
  have "supported_spec sample_owner_spec" using v by (auto simp: supported_spec_def)
  then show "tiled_storage_nbytes sample_owner_spec = Inr 12288"
    by (simp add: tiled_storage_nbytes_cases)
      (simp add: tiled_elements_def leading_def extents_def rows_of_def columns_of_def rank_def
        padded_def leaf_width_def packed_bytes_def)
qed

lemma sample_slice_derived: "derived_view (sample_store 3) sample_slice"
  using derived_view.sliced [OF derived_view.full sample_slice_made] by (simp add: sample_store_def)


lemma sample_slice_checked:
  "validate_checked_spec (spec sample_slice) = Inr ()"
  "validate_checked_view sample_store 7 sample_slice =
     Inr \<lparr>max_plane = 11, addressed_bytes = 11544, storage_bytes = 12288, logical_bytes = 720\<rparr>"
  by (simp_all add: validate_checked_spec_def validate_checked_view_def sample_slice_def sample_store_def
      sample_tensor_def recognized_data_type_def recognized_quantization_def rank_def view_device_def
      native_handle_def checked_plane_count_def checked_mul_cases checked_add_cases
      standard_plane_slot_def bits_to_bytes_def checked_tiled_storage_bytes_def
      checked_tiled_element_count_def padded_extent_def element_count_def Let_def)

definition sample_workspaces :: workspace_store where
  "sample_workspaces = (\<lambda>_. \<lparr>workspace_device = 7, workspace_bytes = 1024, workspace_address = 65536\<rparr>)"

definition sample_workspace :: RawWorkspaceView where
  "sample_workspace = \<lparr>ws_owner = Some 1, ws_offset = 0, ws_bytes = 1024\<rparr>"

lemma sample_workspace_valid:
  "validated_workspace {1} sample_workspaces sample_store 7 sample_workspace 512 32 [sample_slice]
     = Inr sample_workspace"
  using sample_owner(3)
  by (simp add: validated_workspace_def sample_workspaces_def sample_workspace_def owns_workspace_def
      range_address_def view_device_def native_handle_def sample_slice_def sample_store_def
      sample_tensor_def Let_def)

section \<open>Properties\<close>

text \<open>
  C24. Every view obtained from an owner with storage by any sequence of view operations is
  admitted by the checked operand validation: the specification check passes, the view check
  returns facts with the owner's exact storage size, the highest plane the view addresses and the
  view's logical size, and no arithmetic check on the way can overflow.
\<close>

theorem derived_views_admitted:
  assumes "valid_shape (shape s)" and "make_tensor self s device handle = Inr (st self)"
    and "handle \<noteq> 0" and "tiled_storage_nbytes s = Inr n" and "derived_view (st self) v"
  shows "validate_checked_spec (spec v) = Inr ()
    \<and> (\<exists>f. validate_checked_view st device v = Inr f \<and> storage_bytes f = n
        \<and> unat (max_plane f) = max_plane_of v \<and> logical_nbytes (spec v) = Inr (logical_bytes f)
        \<and> addressed_bytes f \<le> storage_bytes f)"
  using derived_view_checked [where st = st, OF assms] .

theorem derived_views_admitted_witness:
  "validate_checked_spec (spec sample_slice) = Inr ()
   \<and> (\<exists>f. validate_checked_view sample_store 7 sample_slice = Inr f \<and> storage_bytes f = 12288)"
  using derived_views_admitted [where st = sample_store, OF sample_owner(1,2) _ sample_owner(3) sample_slice_derived] by auto

text \<open>
  C15. Whatever view passes the checked validation, derived or not, stays inside its owner: the
  owner is on the device and has storage, and every matrix element of every plane the view
  addresses has a slot whose bits end within the reported addressed bytes, which are at most the
  owner's storage bytes.
\<close>

theorem admitted_view_in_storage:
  assumes "valid_shape (shape s)" and "make_tensor self s device' handle = Inr (st self)"
    and "owner_identity v = Some self"
    and "validate_checked_spec (spec v) = Inr ()" and "validate_checked_view st device v = Inr f"
    and "leading_coords v cs" and "row < rows_of (shape s)" and "column < columns_of (shape s)"
  shows "device' = device \<and> handle \<noteq> 0 \<and> tiled_storage_nbytes s = Inr (storage_bytes f)
    \<and> (\<exists>w. standard_plane_slot (spec v) (of_nat (view_plane v cs)) (of_nat row) (of_nat column) = Inr w
        \<and> (unat w + 1) * leaf_width s \<le> 8 * unat (addressed_bytes f))
    \<and> addressed_bytes f \<le> storage_bytes f"
proof -
  note t = make_tensor_facts [OF assms(1,2)]
  let ?P = "prod_list (leading (shape s))"
  have valid: "valid_shape (shape (spec v))" using assms(4) by (simp add: validate_checked_spec_Inr)
  have g: "view_guards st device v self" and run: "view_arithmetic s v = Inr f"
    using assms(5) t(4) by (auto simp: validate_checked_view_split assms(3) split: if_splits)
  have same: "same_matrix (spec v) s" and len: "length (plane_strides v) = rank (shape (spec v)) - 2"
    using g t(4) same_matrix_iff [OF valid assms(1)] by (simp_all add: view_guards_def)
  note a = view_arithmetic_Inr [OF valid len t(1) same run]
  note same' = same_matrix_facts [OF valid assms(1) same]
  note fits = tiled_storage_fits [OF t(1) a(3)]
  have pe: "?P * plane_elements (shape (spec v)) < 2 ^ 64"
    using fits(1) same'(4) by (simp add: tiled_elements_def plane_elements_def)
  have pl: "view_plane v cs < ?P" "view_plane v cs \<le> max_plane_of v"
    using view_plane_in_owner [OF a(1) assms(6)] view_plane_le_max [OF assms(6)] by simp_all
  have small: "row < 2 ^ 64" "column < 2 ^ 64"
    using assms(7,8) unat_less shape_nth [OF assms(1)] by (metis less_trans)+
  have "0 < plane_elements (shape (spec v))"
    using padded_pos rows_columns_pos [OF assms(1)] same'(4) by (simp add: plane_elements_def)
  then have "?P \<le> ?P * plane_elements (shape (spec v))" by simp
  then have "view_plane v cs < 2 ^ 64" using pl(1) pe by linarith
  then have u: "unat (of_nat (view_plane v cs) :: usize) = view_plane v cs"
    "unat (of_nat row :: usize) = row" "unat (of_nat column :: usize) = column"
    using small by (simp_all add: unat_of_nat_fits)
  obtain w where w: "standard_plane_slot (spec v) (of_nat (view_plane v cs)) (of_nat row) (of_nat column) = Inr w"
    "unat w = plane_slot (shape (spec v)) (view_plane v cs) row column"
    using standard_plane_slot_ok [OF valid _ _ _ pe, of "of_nat (view_plane v cs)" "of_nat row" "of_nat column"]
      u pl(1) assms(7,8) same'(1,2) by auto
  have "unat w = plane_slot (shape s) (view_plane v cs) row column"
    using w(2) by (simp add: plane_slot_def same')
  then have "unat w + 1 \<le> plane_slot (shape s) (max_plane_of v) (rows_of (shape s) - 1) (columns_of (shape s) - 1) + 1"
    using plane_slot_mono [OF pl(2) assms(7,8)] by simp
  then have "(unat w + 1) * leaf_width s
      \<le> (plane_slot (shape s) (max_plane_of v) (rows_of (shape s) - 1) (columns_of (shape s) - 1) + 1) * leaf_width s"
    by (rule mult_le_mono1)
  also have "\<dots> \<le> 8 * packed_bytes ((plane_slot (shape s) (max_plane_of v) (rows_of (shape s) - 1)
      (columns_of (shape s) - 1) + 1) * leaf_width s)"
    by (simp add: packed_bytes_def)
  finally have "(unat w + 1) * leaf_width s \<le> 8 * unat (addressed_bytes f)" using a(5) by simp
  with w(1) a(3,4) g t(6,7) show ?thesis by (auto simp: view_guards_def)
qed

theorem admitted_view_in_storage_witness:
  "\<exists>w. standard_plane_slot (spec sample_slice) (of_nat (view_plane sample_slice [1, 2])) 4 5 = Inr w
     \<and> (unat w + 1) * leaf_width sample_owner_spec \<le> 8 * 11544"
proof -
  have cs: "leading_coords sample_slice [1, 2]"
    by (simp add: leading_coords_def lead_extents_def sample_slice_def leading_def extents_def rank_def)
  have o: "owner_identity sample_slice = Some 3" by (simp add: sample_slice_def)
  have rc: "4 < rows_of (shape sample_owner_spec)" "5 < columns_of (shape sample_owner_spec)"
    by (simp_all add: rows_of_def columns_of_def extents_def rank_def)
  from admitted_view_in_storage [where st = sample_store, OF sample_owner(1,2) o sample_slice_checked cs rc] show ?thesis by simp
qed

text \<open>
  C27. A workspace that passes validation for a positive requirement is returned unchanged, is a
  live workspace of the device, holds at least the required bytes from a non-null address that is
  a multiple of the required alignment, and shares no byte with the storage of any operand.
\<close>

theorem validated_workspace_safe:
  assumes "validated_workspace live ws st device workspace capacity alignment operands = Inr w"
    and "capacity \<noteq> 0"
  shows "w = workspace \<and> (\<exists>owner. ws_owner w = Some owner \<and> owner \<in> live \<and> workspace_device (ws owner) = device)
    \<and> unat capacity \<le> unat (ws_bytes w) \<and> range_address ws w \<noteq> 0
    \<and> unat alignment dvd unat (range_address ws w)
    \<and> (\<forall>v \<in> set operands. \<exists>owner n. owner_identity v = Some owner \<and> tensor_device (st owner) = device
         \<and> tiled_storage_nbytes (spec (full_view (st owner))) = Inr n
         \<and> (n = 0 \<or> span (range_address ws w) (ws_bytes w) \<inter> span (storage_handle (st owner)) n = {}))"
proof -
  let ?base = "range_address ws workspace"
  from assms obtain owner where w: "w = workspace" and owner: "ws_owner workspace = Some owner" "owner \<in> live"
    "workspace_device (ws owner) = device"
    and size: "\<not> ws_bytes workspace < capacity" and base: "?base \<noteq> 0" "?base mod alignment = 0"
    and fit: "\<not> ws_bytes workspace > - 1 - ?base"
    and loc: "workspace_operands_local st device operands = Inr ()"
    and dis: "workspace_operands_disjoint st ?base (?base + ws_bytes workspace) operands = Inr ()"
    by (auto simp: validated_workspace_def Let_def owns_workspace_def andThen_Inr_iff
        split: if_splits option.splits)
  have le: "unat capacity \<le> unat (ws_bytes workspace)" using size by (simp add: word_less_nat_alt)
  have "unat (?base mod alignment) = 0" using base(2) by simp
  then have dvd: "unat alignment dvd unat ?base" by (simp add: unat_mod mod_eq_0_iff_dvd)
  have fit': "unat ?base + unat (ws_bytes workspace) < 2 ^ 64" using fit range_end_fits by blast
  have "0 < unat capacity" using assms(2) by (simp add: unat_gt_0)
  then have nz: "ws_bytes workspace \<noteq> 0" using le by auto
  have "\<exists>owner n. owner_identity v = Some owner \<and> tensor_device (st owner) = device
         \<and> tiled_storage_nbytes (spec (full_view (st owner))) = Inr n
         \<and> (n = 0 \<or> span ?base (ws_bytes workspace) \<inter> span (storage_handle (st owner)) n = {})"
    if v: "v \<in> set operands" for v
  proof -
    obtain o' where o': "owner_identity v = Some o'" "tensor_device (st o') = device"
      using workspace_operands_localD [OF loc v] by blast
    then obtain n where n: "tiled_storage_nbytes (spec (full_view (st o'))) = Inr n"
      "unat (storage_handle (st o')) + unat n < 2 ^ 64"
      "\<not> (?base < storage_handle (st o') + n \<and> storage_handle (st o') < ?base + ws_bytes workspace)"
      using workspace_operands_disjointD [OF dis v] by auto
    then show ?thesis using o' span_disjoint_iff [OF fit' n(2) nz] by blast
  qed
  with w owner le base(1) dvd show ?thesis by blast
qed

theorem validated_workspace_safe_witness:
  "unat (512 :: usize) \<le> unat (ws_bytes sample_workspace)
   \<and> span 65536 1024 \<inter> span 4096 12288 = {}"
proof -
  have r: "range_address sample_workspaces sample_workspace = 65536" "ws_bytes sample_workspace = 1024"
    by (simp_all add: range_address_def sample_workspaces_def sample_workspace_def)
  have t: "storage_handle (sample_store 3) = 4096" "owner_identity sample_slice = Some 3"
    "spec (full_view (sample_store 3)) = sample_owner_spec"
    by (simp_all add: sample_store_def sample_tensor_def sample_slice_def)
  show ?thesis
    using validated_workspace_safe [OF sample_workspace_valid] sample_owner(3) by (auto simp: r t)
qed

end
