(* ===== verification/Operations.thy ===== *)
theory Operations
  imports Complex_Main Admission
begin

text \<open>
  The public submission facades for copy, the four binary operations, cache append, embedding and
  RMS normalization (\<open>src/src/device_ops_copy.cpp\<close>, \<open>device_ops_binary.cpp\<close>,
  \<open>device_ops_cache_append.cpp\<close>, \<open>device_ops_embedding.cpp\<close>, \<open>device_ops_rmsnorm.cpp\<close>,
  request types of \<open>src/include/iom/iom.hpp\<close>): the complete common validation in the code's order,
  the immutable request that reaches the backend, and the mapping of every exception to a negative
  operation identifier. The backend hooks are virtual functions and therefore arguments: a
  submission hook acts on the backend's state, a requirement hook is a function of the request.
  Workspace leases, which only backends fill in, are not part of the requests here.
\<close>

section \<open>Facades\<close>

text \<open>
  The objects a queue reads: its device (null for a queue without one), the tensor and workspace
  objects behind pointers and the device's live workspaces.
\<close>

record Objects =
  ops_device :: "device_ref option"
  tensors :: store
  workspaces :: workspace_store
  live_workspaces :: "workspace_ref set"

definition queue_device :: "Objects \<Rightarrow> device_ref throws" where
  "queue_device w = (case ops_device w of None \<Rightarrow> Inl LogicError | Some device \<Rightarrow> Inr device)"

text \<open>
  \<open>try { ... } catch (...) { return invoke_failure(std::current_exception()); }\<close> around a body
  that checks first and then calls a backend hook on the backend's state.
\<close>

type_synonym ('s, 'a) backend = "'s \<Rightarrow> 's \<times> 'a throws"

definition submission :: "('s, oid) backend throws \<Rightarrow> 's \<Rightarrow> 's \<times> oid" where
  "submission body s =
     (case body of
        Inl failure \<Rightarrow> (s, map_failure (Some failure))
      | Inr hook \<Rightarrow> (case hook s of
          (s', Inl failure) \<Rightarrow> (s', map_failure (Some failure))
        | (s', Inr result) \<Rightarrow> (s', result)))"

fun validate_views :: "store \<Rightarrow> device_ref \<Rightarrow> TensorView list \<Rightarrow> unit throws" where
  "validate_views st device [] = Inr ()"
| "validate_views st device (view # views) =
     (if view_device st view \<noteq> Some device then Inl InvalidArgument
      else validate_views st device views)"

definition workspace_for ::
  "Objects \<Rightarrow> device_ref \<Rightarrow> RawWorkspaceView \<Rightarrow> WorkspaceRequirements \<Rightarrow> TensorView list
     \<Rightarrow> RawWorkspaceView throws" where
  "workspace_for w device workspace requirements operands =
     validated_workspace (live_workspaces w) (workspaces w) (tensors w) device workspace
       (req_bytes requirements) (req_alignment requirements) operands"

section \<open>Copy\<close>

record CopyViewSnapshot =
  cs_spec :: TensorSpec
  cs_device :: "device_ref option"
  cs_owner :: "tensor_ref option"
  cs_handle :: "usize option"
  cs_plane_offset :: usize
  cs_plane_strides :: "usize list"

definition snapshot_copy_view :: "store \<Rightarrow> TensorView \<Rightarrow> CopyViewSnapshot" where
  "snapshot_copy_view st view =
     \<lparr>cs_spec = spec view, cs_device = view_device st view, cs_owner = owner_identity view,
      cs_handle = native_handle st view, cs_plane_offset = plane_offset view,
      cs_plane_strides = plane_strides view\<rparr>"

definition validate_copy :: "store \<Rightarrow> device_ref \<Rightarrow> TensorView \<Rightarrow> TensorView \<Rightarrow> unit throws" where
  "validate_copy st device source destination =
     andThen (validate_views st device [source, destination]) (\<lambda>_.
     if spec source \<noteq> spec destination then Inl InvalidArgument else Inr ())"

definition identical_window :: "store \<Rightarrow> TensorView \<Rightarrow> TensorView \<Rightarrow> bool" where
  "identical_window st source destination =
     (native_handle st source = native_handle st destination
      \<and> plane_offset source = plane_offset destination
      \<and> plane_strides source = plane_strides destination)"

definition copy ::
  "(TensorView \<Rightarrow> TensorView \<Rightarrow> ('s, oid) backend) \<Rightarrow> Objects \<Rightarrow> TensorView \<Rightarrow> TensorView
     \<Rightarrow> 's \<Rightarrow> 's \<times> oid" where
  "copy copy_impl w source destination =
     submission (andThen (queue_device w) (\<lambda>device.
       andThen (validate_copy (tensors w) device source destination) (\<lambda>_.
       Inr (copy_impl source destination))))"

section \<open>Binary operations\<close>

datatype BinaryOperation = Add | Mul | Sub | Div

definition add_numeric_leaf :: "DataType \<Rightarrow> bool" where
  "add_numeric_leaf value =
     (value \<in> {I2, U2, I4, U4, I8, U8, I16, U16, I32, U32, I64, U64, F4_E2M1, F6_E2M3, F6_E3M2,
               F8_E4M3FN, F8_E5M2, F16, BF16, F32, F64})"

definition div_numeric_leaf :: "DataType \<Rightarrow> bool" where
  "div_numeric_leaf value =
     (value \<in> {F4_E2M1, F6_E2M3, F6_E3M2, F8_E4M3FN, F8_E5M2, F16, BF16, F32, F64})"

record BinaryViewSnapshot =
  bs_spec :: TensorSpec
  bs_device :: "device_ref option"
  bs_owner :: "tensor_ref option"
  bs_handle :: "usize option"
  bs_plane_offset :: usize
  bs_plane_strides :: "usize list"
  logical_plane_strides :: "usize list"
  broadcast_rows :: bool
  broadcast_columns :: bool
  broadcasts :: bool

record BinaryRequest =
  bin_operation :: BinaryOperation
  bin_lhs :: BinaryViewSnapshot
  bin_rhs :: BinaryViewSnapshot
  bin_out :: BinaryViewSnapshot
  bin_result_shape :: TensorShape
  bin_workspace :: RawWorkspaceView
  bin_requirements :: WorkspaceRequirements

text \<open>
  The axes of the snapshot loop: a missing axis and a repeated axis of extent one have logical
  stride zero, the others the view's stride.
\<close>

definition snapshot_binary_view :: "store \<Rightarrow> TensorView \<Rightarrow> usize list \<Rightarrow> BinaryViewSnapshot" where
  "snapshot_binary_view st view result =
     (let dims = dimensions (shape (spec view));
          rank_offset = length result - length dims;
          result_leading = length result - 2;
          repeated = (\<lambda>axis. dims ! (axis - rank_offset) = 1 \<and> result ! axis \<noteq> 1);
          strides = map (\<lambda>axis.
            if axis < rank_offset then 0
            else if repeated axis then 0
            else plane_strides view ! (axis - rank_offset)) [0..<result_leading];
          broadcasts_axis = list_ex (\<lambda>axis.
            if axis < rank_offset then result ! axis \<noteq> 1 else repeated axis) [0..<result_leading];
          rows = (dims ! (length dims - 2) = 1 \<and> result ! (length result - 2) \<noteq> 1);
          columns = (last dims = 1 \<and> last result \<noteq> 1)
      in \<lparr>bs_spec = spec view, bs_device = view_device st view, bs_owner = owner_identity view,
          bs_handle = native_handle st view, bs_plane_offset = plane_offset view,
          bs_plane_strides = plane_strides view, logical_plane_strides = strides,
          broadcast_rows = rows, broadcast_columns = columns,
          broadcasts = (length dims \<noteq> length result \<or> broadcasts_axis \<or> rows \<or> columns)\<rparr>)"

text \<open>The axis of an operand aligned to the right with a result of the given rank.\<close>

definition aligned_axis :: "nat \<Rightarrow> usize list \<Rightarrow> nat \<Rightarrow> usize" where
  "aligned_axis result_rank dims i =
     (if i < result_rank - length dims then 1 else dims ! (i - (result_rank - length dims)))"

fun broadcast_axes :: "(usize \<times> usize) list \<Rightarrow> usize list throws" where
  "broadcast_axes [] = Inr []"
| "broadcast_axes ((lhs_axis, rhs_axis) # axes) =
     (if lhs_axis \<noteq> rhs_axis \<and> lhs_axis \<noteq> 1 \<and> rhs_axis \<noteq> 1 then Inl InvalidArgument
      else andThen (broadcast_axes axes) (\<lambda>result. Inr (max lhs_axis rhs_axis # result)))"

definition broadcast_result :: "usize list \<Rightarrow> usize list \<Rightarrow> usize list throws" where
  "broadcast_result lhs_dims rhs_dims =
     (let rank = max (length lhs_dims) (length rhs_dims) in
      broadcast_axes (map (\<lambda>i. (aligned_axis rank lhs_dims i, aligned_axis rank rhs_dims i)) [0..<rank]))"

definition exact_alias :: "BinaryViewSnapshot \<Rightarrow> BinaryViewSnapshot \<Rightarrow> bool" where
  "exact_alias input output =
     (\<not> broadcasts input \<and> bs_owner input = bs_owner output \<and> bs_spec input = bs_spec output
      \<and> bs_plane_offset input = bs_plane_offset output
      \<and> bs_plane_strides input = bs_plane_strides output
      \<and> logical_plane_strides input = logical_plane_strides output
      \<and> broadcast_rows input = broadcast_rows output
      \<and> broadcast_columns input = broadcast_columns output)"

definition validate_binary ::
  "store \<Rightarrow> device_ref \<Rightarrow> BinaryOperation \<Rightarrow> TensorView \<Rightarrow> TensorView \<Rightarrow> TensorView
     \<Rightarrow> BinaryRequest throws" where
  "validate_binary st device operation lhs rhs out =
     andThen (validate_checked_spec (spec lhs)) (\<lambda>_.
     andThen (validate_checked_spec (spec rhs)) (\<lambda>_.
     andThen (validate_checked_spec (spec out)) (\<lambda>_.
     if data_type (spec lhs) \<noteq> data_type (spec rhs) \<or> data_type (spec lhs) \<noteq> data_type (spec out)
        \<or> quantization (spec lhs) \<noteq> quantization (spec rhs)
        \<or> quantization (spec lhs) \<noteq> quantization (spec out)
     then Inl InvalidArgument
     else
     andThen (validate_checked_view st device lhs) (\<lambda>_.
     andThen (validate_checked_view st device rhs) (\<lambda>_.
     andThen (validate_checked_view st device out) (\<lambda>_.
     andThen (broadcast_result (dimensions (shape (spec lhs))) (dimensions (shape (spec rhs)))) (\<lambda>result.
     if dimensions (shape (spec out)) \<noteq> result then Inl InvalidArgument
     else andThen (make_shape result) (\<lambda>result_shape.
     let l = snapshot_binary_view st lhs result;
         r = snapshot_binary_view st rhs result;
         d = snapshot_binary_view st out result in
     if bs_owner l = bs_owner d \<and> \<not> exact_alias l d \<or> bs_owner r = bs_owner d \<and> \<not> exact_alias r d
     then Inl InvalidArgument
     else if quantization (spec lhs) \<noteq> NONE \<or> data_type (spec lhs) = BOOL
        \<or> data_type (spec lhs) = F8_E8M0 \<or> \<not> add_numeric_leaf (data_type (spec lhs))
        \<or> operation = Div \<and> \<not> div_numeric_leaf (data_type (spec lhs))
     then Inl UnsupportedOperation
     else Inr \<lparr>bin_operation = operation, bin_lhs = l, bin_rhs = r, bin_out = d,
            bin_result_shape = result_shape, bin_workspace = empty_workspace_view,
            bin_requirements = \<lparr>req_bytes = 0, req_alignment = 1\<rparr>\<rparr>))))))))"

definition submit_binary_operation ::
  "(BinaryRequest \<Rightarrow> WorkspaceRequirements throws) \<Rightarrow> (BinaryRequest \<Rightarrow> ('s, oid) backend) \<Rightarrow> Objects
     \<Rightarrow> BinaryOperation \<Rightarrow> TensorView \<Rightarrow> TensorView \<Rightarrow> TensorView \<Rightarrow> RawWorkspaceView \<Rightarrow> 's \<Rightarrow> 's \<times> oid" where
  "submit_binary_operation binary_workspace_requirements binary_impl w operation lhs rhs out workspace =
     submission (andThen (queue_device w) (\<lambda>device.
       andThen (validate_binary (tensors w) device operation lhs rhs out) (\<lambda>request.
       andThen (binary_workspace_requirements request) (\<lambda>requirements.
       andThen (workspace_for w device workspace requirements [lhs, rhs, out]) (\<lambda>validated.
       Inr (binary_impl (request\<lparr>bin_workspace := validated, bin_requirements := requirements\<rparr>)))))))"

definition ops_add where
  "ops_add binary_workspace_requirements binary_impl w lhs rhs out workspace =
     submit_binary_operation binary_workspace_requirements binary_impl w Add lhs rhs out workspace"

definition add_workspace_requirements ::
  "(BinaryRequest \<Rightarrow> WorkspaceRequirements throws) \<Rightarrow> Objects
     \<Rightarrow> TensorView \<Rightarrow> TensorView \<Rightarrow> TensorView \<Rightarrow> WorkspaceRequirements throws" where
  "add_workspace_requirements binary_workspace_requirements w lhs rhs out =
     andThen (queue_device w) (\<lambda>device.
     andThen (validate_binary (tensors w) device Add lhs rhs out) binary_workspace_requirements)"

definition ops_mul where
  "ops_mul binary_workspace_requirements binary_impl w lhs rhs out workspace =
     submit_binary_operation binary_workspace_requirements binary_impl w Mul lhs rhs out workspace"

definition mul_workspace_requirements ::
  "(BinaryRequest \<Rightarrow> WorkspaceRequirements throws) \<Rightarrow> Objects
     \<Rightarrow> TensorView \<Rightarrow> TensorView \<Rightarrow> TensorView \<Rightarrow> WorkspaceRequirements throws" where
  "mul_workspace_requirements binary_workspace_requirements w lhs rhs out =
     andThen (queue_device w) (\<lambda>device.
     andThen (validate_binary (tensors w) device Mul lhs rhs out) binary_workspace_requirements)"

definition ops_sub where
  "ops_sub binary_workspace_requirements binary_impl w lhs rhs out workspace =
     submit_binary_operation binary_workspace_requirements binary_impl w Sub lhs rhs out workspace"

definition sub_workspace_requirements ::
  "(BinaryRequest \<Rightarrow> WorkspaceRequirements throws) \<Rightarrow> Objects
     \<Rightarrow> TensorView \<Rightarrow> TensorView \<Rightarrow> TensorView \<Rightarrow> WorkspaceRequirements throws" where
  "sub_workspace_requirements binary_workspace_requirements w lhs rhs out =
     andThen (queue_device w) (\<lambda>device.
     andThen (validate_binary (tensors w) device Sub lhs rhs out) binary_workspace_requirements)"

definition ops_div where
  "ops_div binary_workspace_requirements binary_impl w lhs rhs out workspace =
     submit_binary_operation binary_workspace_requirements binary_impl w Div lhs rhs out workspace"

definition div_workspace_requirements ::
  "(BinaryRequest \<Rightarrow> WorkspaceRequirements throws) \<Rightarrow> Objects
     \<Rightarrow> TensorView \<Rightarrow> TensorView \<Rightarrow> TensorView \<Rightarrow> WorkspaceRequirements throws" where
  "div_workspace_requirements binary_workspace_requirements w lhs rhs out =
     andThen (queue_device w) (\<lambda>device.
     andThen (validate_binary (tensors w) device Div lhs rhs out) binary_workspace_requirements)"

text \<open>The default requirement hook: no workspace.\<close>

definition default_binary_workspace_requirements :: "BinaryRequest \<Rightarrow> WorkspaceRequirements throws" where
  "default_binary_workspace_requirements request = Inr \<lparr>req_bytes = 0, req_alignment = 1\<rparr>"

section \<open>Cache append\<close>

record PhysicalRange =
  range_begin :: usize
  range_end :: usize

definition checked_storage_range :: "store \<Rightarrow> TensorView \<Rightarrow> CheckedViewFacts \<Rightarrow> PhysicalRange throws" where
  "checked_storage_range st view facts =
     (let first = the (native_handle st view) in
      if storage_bytes facts > - 1 - first then Inl OverflowError
      else Inr \<lparr>range_begin = first, range_end = first + storage_bytes facts\<rparr>)"

definition ranges_overlap :: "PhysicalRange \<Rightarrow> PhysicalRange \<Rightarrow> bool" where
  "ranges_overlap lhs rhs = (range_begin lhs < range_end rhs \<and> range_begin rhs < range_end lhs)"

definition validate_view_arithmetic ::
  "TensorView \<Rightarrow> CheckedViewFacts \<Rightarrow> usize \<Rightarrow> usize \<Rightarrow> usize \<Rightarrow> unit throws" where
  "validate_view_arithmetic view facts rows features append_row =
     (let dims = dimensions (shape (spec view)) in
      andThen (checked_product 1 (take (length dims - 2) dims)) (\<lambda>planes.
      andThen (padded_extent (dims ! (length dims - 2))) (\<lambda>padded_rows.
      andThen (padded_extent (last dims)) (\<lambda>padded_features.
      andThen (checked_mul planes padded_rows) (\<lambda>padded_planes.
      andThen (checked_mul padded_planes padded_features) (\<lambda>padded_elements.
      andThen (leaf_bits (data_type (spec view))) (\<lambda>bits.
      andThen (checked_mul padded_elements bits) (\<lambda>padded_bits.
      andThen (bits_to_bytes padded_bits) (\<lambda>padded_bytes.
      if padded_bytes > storage_bytes facts then Inl InvalidArgument
      else
      andThen (checked_mul planes rows) (\<lambda>plane_rows.
      andThen (checked_mul plane_rows features) (\<lambda>logical_elements.
      andThen (checked_mul logical_elements bits) (\<lambda>logical_bits.
      andThen (bits_to_bytes logical_bits) (\<lambda>logical.
      if logical > storage_bytes facts then Inl InvalidArgument
      else
      andThen (standard_plane_slot (spec view) (max_plane facts) append_row (features - 1)) (\<lambda>slot.
      andThen (checked_add slot 1) (\<lambda>slots.
      andThen (checked_mul slots bits) (\<lambda>row_bits.
      andThen (bits_to_bytes row_bits) (\<lambda>addressed.
      if addressed > storage_bytes facts then Inl InvalidArgument else Inr ())))))))))))))))))"

text \<open>A fixed array of the snapshot, zero where no extent or stride is written.\<close>

definition filled_array :: "nat \<Rightarrow> usize list \<Rightarrow> usize list" where
  "filled_array n xs = take n (xs @ replicate n 0)"

record CacheAppendViewSnapshot =
  cas_rank :: nat
  cas_dimensions :: "usize list"
  cas_plane_strides :: "usize list"
  cas_plane_offset :: usize
  cas_data_type :: DataType
  cas_quantization :: QuantizationFormat
  cas_device :: "device_ref option"
  cas_owner :: "tensor_ref option"
  cas_handle :: "usize option"

record CacheAppendRequest =
  ca_source :: CacheAppendViewSnapshot
  ca_destination :: CacheAppendViewSnapshot
  ca_a :: usize
  ca_workspace :: RawWorkspaceView
  ca_requirements :: WorkspaceRequirements

definition snapshot_cache_append_view :: "store \<Rightarrow> TensorView \<Rightarrow> CacheAppendViewSnapshot" where
  "snapshot_cache_append_view st view =
     \<lparr>cas_rank = rank (shape (spec view)),
      cas_dimensions = filled_array 8 (dimensions (shape (spec view))),
      cas_plane_strides = filled_array 6 (plane_strides view),
      cas_plane_offset = plane_offset view, cas_data_type = data_type (spec view),
      cas_quantization = quantization (spec view), cas_device = view_device st view,
      cas_owner = owner_identity view, cas_handle = native_handle st view\<rparr>"

definition validate_cache_append ::
  "store \<Rightarrow> device_ref \<Rightarrow> TensorView \<Rightarrow> TensorView \<Rightarrow> usize \<Rightarrow> CacheAppendRequest throws" where
  "validate_cache_append st device source destination a =
     andThen (validate_checked_spec (spec source)) (\<lambda>_.
     andThen (validate_checked_spec (spec destination)) (\<lambda>_.
     if rank (shape (spec source)) < 3 \<or> rank (shape (spec source)) > 8
        \<or> rank (shape (spec destination)) < 3 \<or> rank (shape (spec destination)) > 8
     then Inl InvalidArgument
     else
     andThen (validate_checked_view st device source) (\<lambda>source_facts.
     andThen (validate_checked_view st device destination) (\<lambda>destination_facts.
     let source_dims = dimensions (shape (spec source));
         destination_dims = dimensions (shape (spec destination)) in
     if length source_dims \<noteq> length destination_dims then Inl InvalidArgument
     else let rank = length source_dims in
     if take (rank - 3) source_dims \<noteq> take (rank - 3) destination_dims then Inl InvalidArgument
     else if source_dims ! (rank - 3) \<noteq> destination_dims ! (rank - 3) then Inl InvalidArgument
     else if last source_dims \<noteq> last destination_dims then Inl InvalidArgument
     else
     let capacity = destination_dims ! (rank - 2);
         rows = source_dims ! (rank - 2);
         features = last source_dims in
     if a > capacity then Inl InvalidArgument
     else let available = capacity - a in
     if rows > available then Inl InvalidArgument
     else
     andThen (checked_add a rows) (\<lambda>end_row.
     andThen (checked_add a (rows - 1)) (\<lambda>last_destination_row.
     andThen (validate_view_arithmetic source source_facts rows features (rows - 1)) (\<lambda>_.
     andThen (validate_view_arithmetic destination destination_facts rows features last_destination_row) (\<lambda>_.
     andThen (checked_storage_range st source source_facts) (\<lambda>source_range.
     andThen (checked_storage_range st destination destination_facts) (\<lambda>destination_range.
     if data_type (spec source) \<noteq> data_type (spec destination)
        \<or> quantization (spec source) \<noteq> quantization (spec destination)
     then Inl InvalidArgument
     else if owner_identity source = owner_identity destination
        \<or> ranges_overlap source_range destination_range
     then Inl InvalidArgument
     else if \<not> recognized_data_type (data_type (spec source))
        \<or> \<not> recognized_quantization (quantization (spec source))
     then Inl InvalidArgument
     else if quantization (spec source) \<noteq> NONE then Inl UnsupportedOperation
     else Inr \<lparr>ca_source = snapshot_cache_append_view st source,
            ca_destination = snapshot_cache_append_view st destination, ca_a = a,
            ca_workspace = empty_workspace_view,
            ca_requirements = \<lparr>req_bytes = 0, req_alignment = 1\<rparr>\<rparr>))))))))))"

definition cache_append ::
  "(CacheAppendRequest \<Rightarrow> WorkspaceRequirements throws) \<Rightarrow> (CacheAppendRequest \<Rightarrow> ('s, oid) backend)
     \<Rightarrow> Objects \<Rightarrow> TensorView \<Rightarrow> TensorView \<Rightarrow> usize \<Rightarrow> RawWorkspaceView \<Rightarrow> 's \<Rightarrow> 's \<times> oid" where
  "cache_append cache_append_workspace_requirements cache_append_impl w source destination a workspace =
     submission (andThen (queue_device w) (\<lambda>device.
       andThen (validate_cache_append (tensors w) device source destination a) (\<lambda>request.
       andThen (cache_append_workspace_requirements request) (\<lambda>requirements.
       andThen (workspace_for w device workspace requirements [source, destination]) (\<lambda>validated.
       Inr (cache_append_impl (request\<lparr>ca_workspace := validated, ca_requirements := requirements\<rparr>)))))))"

definition cache_append_view_workspace_requirements ::
  "(CacheAppendRequest \<Rightarrow> WorkspaceRequirements throws) \<Rightarrow> Objects \<Rightarrow> TensorView \<Rightarrow> TensorView \<Rightarrow> usize
     \<Rightarrow> WorkspaceRequirements throws" where
  "cache_append_view_workspace_requirements cache_append_workspace_requirements w source destination a =
     andThen (queue_device w) (\<lambda>device.
     andThen (validate_cache_append (tensors w) device source destination a) cache_append_workspace_requirements)"

section \<open>Embedding\<close>

definition embedding_index_leaf :: "DataType \<Rightarrow> bool" where
  "embedding_index_leaf value = (value \<in> {I2, U2, I4, U4, I8, U8, I16, U16, I32, U32, I64, U64})"

text \<open>
  The output/input check that embedding, linear, rope and SDPA each spell out: same owner, same
  handle, then the backing ranges.
\<close>

definition output_overlap_check ::
  "store \<Rightarrow> TensorView \<Rightarrow> usize \<Rightarrow> TensorView \<Rightarrow> usize \<Rightarrow> unit throws" where
  "output_overlap_check st out out_bytes input input_bytes =
     (if owner_identity out = owner_identity input then Inl InvalidArgument
      else if native_handle st out = native_handle st input then Inl InvalidArgument
      else case checked_backing_range_relation (the (native_handle st out)) out_bytes
             (the (native_handle st input)) input_bytes of
        overflow \<Rightarrow> Inl OverflowError
      | overlap \<Rightarrow> Inl InvalidArgument
      | disjoint \<Rightarrow> Inr ())"

definition embedding_reject_output_overlap ::
  "store \<Rightarrow> TensorView \<Rightarrow> usize \<Rightarrow> TensorView \<Rightarrow> usize \<Rightarrow> unit throws" where
  "embedding_reject_output_overlap = output_overlap_check"

record EmbeddingRequest =
  emb_table :: CopyViewSnapshot
  emb_indices :: CopyViewSnapshot
  emb_out :: CopyViewSnapshot
  emb_workspace :: RawWorkspaceView
  emb_requirements :: WorkspaceRequirements

definition validate_embedding ::
  "store \<Rightarrow> device_ref \<Rightarrow> TensorView \<Rightarrow> TensorView \<Rightarrow> TensorView \<Rightarrow> unit throws" where
  "validate_embedding st device table indices out =
     andThen (validate_checked_spec (spec table)) (\<lambda>_.
     andThen (validate_checked_spec (spec indices)) (\<lambda>_.
     andThen (validate_checked_spec (spec out)) (\<lambda>_.
     let table_dims = dimensions (shape (spec table));
         index_dims = dimensions (shape (spec indices));
         out_dims = dimensions (shape (spec out)) in
     if length table_dims \<noteq> 2 then Inl InvalidArgument
     else if index_dims ! (length index_dims - 2) \<noteq> 1 then Inl InvalidArgument
     else if length out_dims \<noteq> length index_dims
        \<or> out_dims ! (length out_dims - 2) \<noteq> last index_dims
        \<or> last out_dims \<noteq> last table_dims
        \<or> take (length index_dims - 2) index_dims \<noteq> take (length out_dims - 2) out_dims
     then Inl InvalidArgument
     else if data_type (spec table) \<noteq> data_type (spec out)
        \<or> quantization (spec table) \<noteq> quantization (spec out)
     then Inl InvalidArgument
     else
     andThen (validate_checked_view st device table) (\<lambda>table_facts.
     andThen (validate_checked_view st device indices) (\<lambda>index_facts.
     andThen (validate_checked_view st device out) (\<lambda>out_facts.
     andThen (embedding_reject_output_overlap st out (storage_bytes out_facts) table
       (storage_bytes table_facts)) (\<lambda>_.
     andThen (embedding_reject_output_overlap st out (storage_bytes out_facts) indices
       (storage_bytes index_facts)) (\<lambda>_.
     if quantization (spec table) \<noteq> NONE \<or> quantization (spec indices) \<noteq> NONE
        \<or> quantization (spec out) \<noteq> NONE \<or> \<not> embedding_index_leaf (data_type (spec indices))
     then Inl UnsupportedOperation else Inr ()))))))))"

definition embedding ::
  "(TensorView \<Rightarrow> TensorView \<Rightarrow> TensorView \<Rightarrow> WorkspaceRequirements throws)
     \<Rightarrow> (EmbeddingRequest \<Rightarrow> ('s, oid) backend) \<Rightarrow> Objects
     \<Rightarrow> TensorView \<Rightarrow> TensorView \<Rightarrow> TensorView \<Rightarrow> RawWorkspaceView \<Rightarrow> 's \<Rightarrow> 's \<times> oid" where
  "embedding embedding_workspace_requirements_impl embedding_impl w table indices out workspace =
     submission (andThen (queue_device w) (\<lambda>device.
       andThen (validate_embedding (tensors w) device table indices out) (\<lambda>_.
       andThen (embedding_workspace_requirements_impl table indices out) (\<lambda>requirements.
       andThen (workspace_for w device workspace requirements [table, indices, out]) (\<lambda>validated.
       Inr (embedding_impl
         \<lparr>emb_table = snapshot_copy_view (tensors w) table,
          emb_indices = snapshot_copy_view (tensors w) indices,
          emb_out = snapshot_copy_view (tensors w) out, emb_workspace = validated,
          emb_requirements = requirements\<rparr>))))))"

definition embedding_workspace_requirements ::
  "(TensorView \<Rightarrow> TensorView \<Rightarrow> TensorView \<Rightarrow> WorkspaceRequirements throws) \<Rightarrow> Objects
     \<Rightarrow> TensorView \<Rightarrow> TensorView \<Rightarrow> TensorView \<Rightarrow> WorkspaceRequirements throws" where
  "embedding_workspace_requirements embedding_workspace_requirements_impl w table indices out =
     andThen (queue_device w) (\<lambda>device.
     andThen (validate_embedding (tensors w) device table indices out) (\<lambda>_.
     embedding_workspace_requirements_impl table indices out))"

section \<open>RMS normalization\<close>

text \<open>A floating-point argument: a finite rational value or one of the special values.\<close>

datatype floating = NaN | PosInf | NegInf | Finite rat

fun isfinite :: "floating \<Rightarrow> bool" where
  "isfinite (Finite _) = True"
| "isfinite _ = False"

fun fp_less :: "floating \<Rightarrow> floating \<Rightarrow> bool" where
  "fp_less (Finite x) (Finite y) = (x < y)"
| "fp_less NegInf (Finite _) = True"
| "fp_less NegInf PosInf = True"
| "fp_less (Finite _) PosInf = True"
| "fp_less _ _ = False"

definition rmsnorm_leaf :: "DataType \<Rightarrow> bool" where
  "rmsnorm_leaf value =
     (value \<in> {F4_E2M1, F6_E2M3, F6_E3M2, F8_E4M3FN, F8_E5M2, F16, BF16, F32, F64})"

record RmsnormRequest =
  rms_x :: CopyViewSnapshot
  rms_scale :: CopyViewSnapshot
  rms_out :: CopyViewSnapshot
  rms_epsilon :: floating
  rms_requirements :: WorkspaceRequirements

definition validate_rmsnorm ::
  "store \<Rightarrow> device_ref \<Rightarrow> TensorView \<Rightarrow> TensorView \<Rightarrow> TensorView \<Rightarrow> floating \<Rightarrow> unit throws" where
  "validate_rmsnorm st device x scale out eps =
     andThen (validate_checked_spec (spec x)) (\<lambda>_.
     andThen (validate_checked_spec (spec scale)) (\<lambda>_.
     andThen (validate_checked_spec (spec out)) (\<lambda>_.
     if shape (spec x) \<noteq> shape (spec out) then Inl InvalidArgument
     else let scale_dims = dimensions (shape (spec scale)) in
     if rank (shape (spec scale)) \<noteq> 2 \<or> scale_dims ! 0 \<noteq> 1
        \<or> scale_dims ! 1 \<noteq> last (dimensions (shape (spec x)))
     then Inl InvalidArgument
     else
     andThen (validate_checked_view st device x) (\<lambda>_.
     andThen (validate_checked_view st device scale) (\<lambda>_.
     andThen (validate_checked_view st device out) (\<lambda>_.
     if data_type (spec x) \<noteq> data_type (spec scale) \<or> data_type (spec x) \<noteq> data_type (spec out)
        \<or> quantization (spec x) \<noteq> quantization (spec scale)
        \<or> quantization (spec x) \<noteq> quantization (spec out)
     then Inl InvalidArgument
     else if owner_identity out = owner_identity x \<or> owner_identity out = owner_identity scale
     then Inl InvalidArgument
     else if quantization (spec x) \<noteq> NONE \<or> \<not> rmsnorm_leaf (data_type (spec x))
     then Inl UnsupportedOperation
     else if \<not> isfinite eps \<or> fp_less eps (Finite 0) then Inl InvalidArgument
     else Inr ()))))))"

definition rmsnorm ::
  "(DataType \<Rightarrow> bool) \<Rightarrow> (RmsnormRequest \<Rightarrow> ('s, oid) backend) \<Rightarrow> Objects
     \<Rightarrow> TensorView \<Rightarrow> TensorView \<Rightarrow> TensorView \<Rightarrow> floating \<Rightarrow> RawWorkspaceView \<Rightarrow> 's \<Rightarrow> 's \<times> oid" where
  "rmsnorm rmsnorm_supported rmsnorm_impl w x scale out eps workspace =
     submission (andThen (queue_device w) (\<lambda>device.
       andThen (validate_rmsnorm (tensors w) device x scale out eps) (\<lambda>_.
       if \<not> rmsnorm_supported (data_type (spec x)) then Inl UnsupportedOperation
       else if ws_owner workspace \<noteq> None then Inl InvalidArgument
       else Inr (rmsnorm_impl
         \<lparr>rms_x = snapshot_copy_view (tensors w) x, rms_scale = snapshot_copy_view (tensors w) scale,
          rms_out = snapshot_copy_view (tensors w) out, rms_epsilon = eps,
          rms_requirements = \<lparr>req_bytes = 0, req_alignment = 1\<rparr>\<rparr>))))"

definition rmsnorm_workspace_requirements ::
  "(DataType \<Rightarrow> bool) \<Rightarrow> Objects \<Rightarrow> TensorView \<Rightarrow> TensorView \<Rightarrow> TensorView \<Rightarrow> floating
     \<Rightarrow> WorkspaceRequirements throws" where
  "rmsnorm_workspace_requirements rmsnorm_supported w x scale out eps =
     andThen (queue_device w) (\<lambda>device.
     andThen (validate_rmsnorm (tensors w) device x scale out eps) (\<lambda>_.
     if \<not> rmsnorm_supported (data_type (spec x)) then Inl UnsupportedOperation
     else Inr \<lparr>req_bytes = 0, req_alignment = 1\<rparr>))"

section \<open>What a facade guarantees\<close>

lemma map_failure_is_error: "oid_is_error (map_failure f)"
  by (cases f rule: option.exhaust; cases "the f") (auto simp: map_failure_def oid_is_error_def)

text \<open>
  The shape every facade has: checks that only read, then one call of the backend hook on the
  request they produce.
\<close>

locale facade =
  fixes operation :: "'s \<Rightarrow> 's \<times> oid"
    and checks :: "'r throws"
    and hook :: "'r \<Rightarrow> ('s, oid) backend"
  assumes operation_def: "operation = submission (andThen checks (\<lambda>request. Inr (hook request)))"
begin

lemma rejected: "checks = Inl e \<Longrightarrow> operation s = (s, map_failure (Some e))"
  by (simp add: operation_def submission_def)

lemma accepted:
  "checks = Inr request \<Longrightarrow> hook request s = (s', r) \<Longrightarrow>
   operation s = (s', case r of Inl e \<Rightarrow> map_failure (Some e) | Inr token \<Rightarrow> token)"
  by (simp add: operation_def submission_def split: sum.split)

lemma effect_only_if_accepted:
  assumes "fst (operation s) \<noteq> s \<or> \<not> oid_is_error (snd (operation s))"
  shows "\<exists>request. checks = Inr request"
proof (cases checks)
  case (Inl e)
  then show ?thesis using assms rejected map_failure_is_error by simp
qed blast

end

text \<open>The checks of each facade, in the code's order, with the request they hand to the hook.\<close>

definition binary_checks where
  "binary_checks requirements w operation lhs rhs out workspace =
     andThen (queue_device w) (\<lambda>device.
     andThen (validate_binary (tensors w) device operation lhs rhs out) (\<lambda>request.
     andThen (requirements request) (\<lambda>r.
     andThen (workspace_for w device workspace r [lhs, rhs, out]) (\<lambda>validated.
     Inr (request\<lparr>bin_workspace := validated, bin_requirements := r\<rparr>)))))"

definition cache_append_checks where
  "cache_append_checks requirements w source destination a workspace =
     andThen (queue_device w) (\<lambda>device.
     andThen (validate_cache_append (tensors w) device source destination a) (\<lambda>request.
     andThen (requirements request) (\<lambda>r.
     andThen (workspace_for w device workspace r [source, destination]) (\<lambda>validated.
     Inr (request\<lparr>ca_workspace := validated, ca_requirements := r\<rparr>)))))"

definition embedding_checks where
  "embedding_checks requirements w table indices out workspace =
     andThen (queue_device w) (\<lambda>device.
     andThen (validate_embedding (tensors w) device table indices out) (\<lambda>_.
     andThen (requirements table indices out) (\<lambda>r.
     andThen (workspace_for w device workspace r [table, indices, out]) (\<lambda>validated.
     Inr \<lparr>emb_table = snapshot_copy_view (tensors w) table,
          emb_indices = snapshot_copy_view (tensors w) indices,
          emb_out = snapshot_copy_view (tensors w) out, emb_workspace = validated,
          emb_requirements = r\<rparr>))))"

definition rmsnorm_checks where
  "rmsnorm_checks supported w x scale out eps workspace =
     andThen (queue_device w) (\<lambda>device.
     andThen (validate_rmsnorm (tensors w) device x scale out eps) (\<lambda>_.
     if \<not> supported (data_type (spec x)) then Inl UnsupportedOperation
     else if ws_owner workspace \<noteq> None then Inl InvalidArgument
     else Inr \<lparr>rms_x = snapshot_copy_view (tensors w) x, rms_scale = snapshot_copy_view (tensors w) scale,
          rms_out = snapshot_copy_view (tensors w) out, rms_epsilon = eps,
          rms_requirements = \<lparr>req_bytes = 0, req_alignment = 1\<rparr>\<rparr>))"

lemma andThen_if: "andThen (if b then m else n) f = (if b then andThen m f else andThen n f)"
  by simp

interpretation binary_facade: facade "submit_binary_operation requirements impl w operation lhs rhs out workspace"
    "binary_checks requirements w operation lhs rhs out workspace" impl
    for requirements impl w operation lhs rhs out workspace
  by unfold_locales (simp add: submit_binary_operation_def binary_checks_def andThen_assoc)

interpretation cache_append_facade: facade "cache_append requirements impl w source destination a workspace"
    "cache_append_checks requirements w source destination a workspace" impl
    for requirements impl w source destination a workspace
  by unfold_locales (simp add: cache_append_def cache_append_checks_def andThen_assoc)

interpretation embedding_facade: facade "embedding requirements impl w table indices out workspace"
    "embedding_checks requirements w table indices out workspace" impl
    for requirements impl w table indices out workspace
  by unfold_locales (simp add: embedding_def embedding_checks_def andThen_assoc)

interpretation rmsnorm_facade: facade "rmsnorm supported impl w x scale out eps workspace"
    "rmsnorm_checks supported w x scale out eps workspace" impl
    for supported impl w x scale out eps workspace
  by unfold_locales (simp add: rmsnorm_def rmsnorm_checks_def andThen_assoc andThen_if)

interpretation copy_facade: facade "copy impl w source destination"
    "andThen (queue_device w) (\<lambda>device. validate_copy (tensors w) device source destination)"
    "\<lambda>_. impl source destination"
    for impl w source destination
  by unfold_locales (simp add: copy_def andThen_assoc)

section \<open>Storage of operands\<close>

definition storage_span :: "store \<Rightarrow> TensorView \<Rightarrow> nat set" where
  "storage_span st v =
     (case owner_identity v of
        None \<Rightarrow> {}
      | Some owner \<Rightarrow> (case checked_tiled_storage_bytes (spec (full_view (st owner))) of
          Inl _ \<Rightarrow> {}
        | Inr n \<Rightarrow> span (storage_handle (st owner)) n))"

lemma view_arithmetic_storage:
  "view_arithmetic s v = Inr f \<Longrightarrow> checked_tiled_storage_bytes s = Inr (storage_bytes f)"
  by (auto simp: view_arithmetic_def Let_def andThen_Inr_iff split: if_splits)

lemma checked_view_storage:
  assumes "validate_checked_view st device v = Inr f"
  obtains owner where "owner_identity v = Some owner" and "tensor_device (st owner) = device"
    and "native_handle st v = Some (storage_handle (st owner))" and "storage_handle (st owner) \<noteq> 0"
    and "storage_span st v = span (storage_handle (st owner)) (storage_bytes f)"
proof -
  from assms obtain owner where o: "owner_identity v = Some owner" and g: "view_guards st device v owner"
    and a: "view_arithmetic (spec (full_view (st owner))) v = Inr f"
    by (auto simp: validate_checked_view_split split: option.splits if_splits)
  show thesis
    using that [OF o] g o view_arithmetic_storage [OF a]
    by (simp add: view_guards_def native_handle_def storage_span_def)
qed

lemma span_empty: "span p 0 = {}" by (simp add: span_def)

lemma output_overlap_check_Inr:
  assumes check: "output_overlap_check st out (storage_bytes fo) input (storage_bytes fi) = Inr ()"
    and fo: "validate_checked_view st device out = Inr fo"
    and fi: "validate_checked_view st device input = Inr fi"
  shows "owner_identity out \<noteq> owner_identity input \<and> storage_span st out \<inter> storage_span st input = {}"
proof -
  obtain p where p: "native_handle st out = Some (storage_handle (st p))"
    "storage_span st out = span (storage_handle (st p)) (storage_bytes fo)"
    using checked_view_storage [OF fo] by metis
  obtain q where q: "native_handle st input = Some (storage_handle (st q))"
    "storage_span st input = span (storage_handle (st q)) (storage_bytes fi)"
    using checked_view_storage [OF fi] by metis
  have ne: "owner_identity out \<noteq> owner_identity input"
    and rel: "checked_backing_range_relation (storage_handle (st p)) (storage_bytes fo)
      (storage_handle (st q)) (storage_bytes fi) = disjoint"
    using check p(1) q(1)
    by (auto simp: output_overlap_check_def split: if_splits BackingRangeRelation.splits)
  have "storage_span st out \<inter> storage_span st input = {}"
  proof (cases "storage_bytes fo = 0 \<or> storage_bytes fi = 0")
    case True
    then show ?thesis using p(2) q(2) span_empty by auto
  next
    case False
    then show ?thesis
      using rel p(2) q(2) backing_range_relation_cases [of "storage_bytes fo" "storage_bytes fi"]
      by (auto split: if_splits)
  qed
  with ne show ?thesis by blast
qed

section \<open>Broadcasting\<close>

lemma broadcast_axes_Inr:
  "broadcast_axes axes = Inr result \<longleftrightarrow>
     (\<forall>(l, r) \<in> set axes. l = r \<or> l = 1 \<or> r = 1) \<and> result = map (\<lambda>(l, r). max l r) axes"
proof (induction axes arbitrary: result rule: broadcast_axes.induct)
  case (2 l r axes)
  then show ?case by (cases "l \<noteq> r \<and> l \<noteq> 1 \<and> r \<noteq> 1") (auto simp: andThen_Inr_iff)
qed auto

lemma aligned_axis_nonzero:
  assumes "0 \<notin> set dims" and "i < n" and "length dims \<le> n"
  shows "aligned_axis n dims i \<noteq> 0"
proof (cases "i < n - length dims")
  case False
  then have "i - (n - length dims) < length dims" using assms(2,3) by linarith
  then have "dims ! (i - (n - length dims)) \<in> set dims" by (rule nth_mem)
  then show ?thesis using False assms(1) by (auto simp: aligned_axis_def)
qed (simp add: aligned_axis_def)

lemma usize_one_le: "(x :: usize) \<noteq> 0 \<Longrightarrow> 1 \<le> x"
  by (simp add: word_le_nat_alt Suc_le_eq unat_gt_0)

lemma broadcast_result_Inr:
  assumes "broadcast_result ls rs = Inr result" and nz: "0 \<notin> set ls" "0 \<notin> set rs"
  shows "length result = max (length ls) (length rs)"
    and "i < length result \<Longrightarrow> aligned_axis (length result) ls i = result ! i \<or> aligned_axis (length result) ls i = 1"
    and "i < length result \<Longrightarrow> aligned_axis (length result) rs i = result ! i \<or> aligned_axis (length result) rs i = 1"
proof -
  define n where "n = max (length ls) (length rs)"
  define l r where "l = aligned_axis n ls" and "r = aligned_axis n rs"
  have ax: "\<forall>i < n. l i = r i \<or> l i = 1 \<or> r i = 1" and res: "result = map (\<lambda>i. max (l i) (r i)) [0..<n]"
    using assms(1) by (auto simp: broadcast_result_def Let_def broadcast_axes_Inr n_def l_def r_def)
  show "length result = max (length ls) (length rs)" using res by (simp add: n_def)
  have len: "length result = n" using res by simp
  assume "i < length result"
  then have i: "i < n" using len by simp
  have le: "1 \<le> l i" "1 \<le> r i"
    using aligned_axis_nonzero [OF nz(1) i] aligned_axis_nonzero [OF nz(2) i] usize_one_le
    by (simp_all add: n_def l_def r_def)
  have e: "l i = r i \<or> l i = 1 \<or> r i = 1" "result ! i = max (l i) (r i)"
    using i ax res by auto
  then have "l i = result ! i \<or> l i = 1" "r i = result ! i \<or> r i = 1"
    using le by (auto simp: max_absorb1 max_absorb2)
  then show "aligned_axis (length result) ls i = result ! i \<or> aligned_axis (length result) ls i = 1"
    "aligned_axis (length result) rs i = result ! i \<or> aligned_axis (length result) rs i = 1"
    by (simp_all add: len l_def r_def)
qed

text \<open>
  The operand coordinate behind a result coordinate: missing leading axes are dropped, and an axis
  of extent one is read at index zero.
\<close>

definition broadcast_coords :: "nat list \<Rightarrow> nat list \<Rightarrow> nat list" where
  "broadcast_coords exts cs =
     map (\<lambda>i. if exts ! i = 1 then 0 else cs ! (length cs - length exts + i)) [0..<length exts]"

lemma dot_zero_prefix: "length cs = k + length ss \<Longrightarrow> dot cs (replicate k 0 @ ss) = dot (drop k cs) ss"
proof (induction k arbitrary: cs)
  case (Suc k)
  then obtain c cs' where "cs = c # cs'" by (cases cs) auto
  with Suc show ?case by simp
qed simp

lemma snapshot_strides_split:
  assumes "length (dimensions (shape (spec v))) \<le> length result" and "2 \<le> length (dimensions (shape (spec v)))"
  shows "map unat (logical_plane_strides (snapshot_binary_view st v result)) =
    replicate (length result - length (dimensions (shape (spec v)))) 0
    @ map (\<lambda>i. if dimensions (shape (spec v)) ! i = 1
          \<and> result ! (length result - length (dimensions (shape (spec v))) + i) \<noteq> 1 then 0
        else unat (plane_strides v ! i)) [0..<length (dimensions (shape (spec v))) - 2]"
    (is "?lhs = ?rhs")
proof -
  let ?d = "dimensions (shape (spec v))"
  let ?k = "length result - length ?d"
  have len: "length ?rhs = length result - 2" using assms by simp
  show ?thesis
  proof (rule nth_equalityI)
    show "length ?lhs = length ?rhs" unfolding len by (simp add: snapshot_binary_view_def Let_def)
    fix i assume "i < length ?lhs"
    then have i: "i < length result - 2" by (simp add: snapshot_binary_view_def Let_def)
    show "?lhs ! i = ?rhs ! i"
    proof (cases "i < ?k")
      case True
      then show ?thesis using i by (simp add: snapshot_binary_view_def Let_def nth_append)
    next
      case False
      then have "i - ?k < length ?d - 2" using i assms by linarith
      with False show ?thesis using i by (simp add: snapshot_binary_view_def Let_def nth_append)
    qed
  qed
qed

lemma broadcast_plane:
  assumes valid: "valid_shape (shape (spec v))" and len: "length (plane_strides v) = rank (shape (spec v)) - 2"
    and le: "rank (shape (spec v)) \<le> length result"
    and axes: "\<And>i. i < length result \<Longrightarrow> aligned_axis (length result) (dimensions (shape (spec v))) i = result ! i
      \<or> aligned_axis (length result) (dimensions (shape (spec v))) i = 1"
    and cs: "list_all2 (<) cs (map unat (take (length result - 2) result))"
  shows "leading_coords v (broadcast_coords (lead_extents v) cs)"
    and "unat (plane_offset v) + dot cs (map unat (logical_plane_strides (snapshot_binary_view st v result)))
      = view_plane v (broadcast_coords (lead_extents v) cs)"
proof -
  let ?d = "dimensions (shape (spec v))" and ?n = "length (lead_extents v)"
  let ?k = "length result - length ?d"
  have d2: "2 \<le> length ?d" "length ?d \<le> length result" using valid le by (simp_all add: valid_shape_def rank_def)
  have n: "?n = length ?d - 2" by (simp add: lead_extents_def length_leading rank_def)
  have lcs: "length cs = length result - 2" using list_all2_lengthD [OF cs] by simp
  then have koff: "length cs - ?n = ?k" using d2 n by linarith
  have ext: "lead_extents v ! i = unat (?d ! i)" if "i < ?n" for i
    using that by (simp add: lead_extents_def leading_def extents_def rank_def)
  have pos: "0 < lead_extents v ! i" if "i < ?n" for i
    using that lead_extents_nonzero [OF valid] by (metis gr0I nth_mem)
  have lt: "cs ! (?k + i) < unat (result ! (?k + i))" if "i < ?n" for i
    using list_all2_nthD [OF cs, of "?k + i"] that lcs n d2 by simp
  have ax: "?d ! i = result ! (?k + i) \<or> ?d ! i = 1" if "i < ?n" for i
  proof -
    have "?k + i < length result" using that n d2 by linarith
    then show ?thesis using axes [of "?k + i"] by (simp add: aligned_axis_def del: add_diff_assoc2)
  qed
  have bc: "broadcast_coords (lead_extents v) cs ! i = (if ?d ! i = 1 then 0 else cs ! (?k + i))" if "i < ?n" for i
  proof -
    have "unat (?d ! i) = 1 \<longleftrightarrow> ?d ! i = 1" by (metis unat_1 word_unat_eq_iff)
    then show ?thesis using that by (simp add: broadcast_coords_def koff ext)
  qed
  show "leading_coords v (broadcast_coords (lead_extents v) cs)"
    unfolding leading_coords_nth
  proof (intro conjI allI impI)
    show "length (broadcast_coords (lead_extents v) cs) = ?n" by (simp add: broadcast_coords_def)
    fix i assume "i < length (broadcast_coords (lead_extents v) cs)"
    then have i: "i < ?n" by (simp add: broadcast_coords_def)
    show "broadcast_coords (lead_extents v) cs ! i < lead_extents v ! i"
      using bc [OF i] pos [OF i] lt [OF i] ax [OF i] ext [OF i] by auto
  qed
  have ns: "length (plane_strides v) = ?n" using len by (simp add: n rank_def)
  let ?ss = "map (\<lambda>i. if ?d ! i = 1 \<and> result ! (?k + i) \<noteq> 1 then 0 else unat (plane_strides v ! i)) [0..<length ?d - 2]"
  have "dot cs (map unat (logical_plane_strides (snapshot_binary_view st v result))) = dot (drop ?k cs) ?ss"
    unfolding snapshot_strides_split [OF d2(2,1)] using lcs d2 by (intro dot_zero_prefix) simp
  also have "\<dots> = (\<Sum>i<?n. cs ! (?k + i) * ?ss ! i)"
    using lcs d2 n by (subst dot_sum) simp_all
  also have "\<dots> = (\<Sum>i<?n. broadcast_coords (lead_extents v) cs ! i * lead_strides v ! i)"
  proof (rule sum.cong [OF refl])
    fix i assume "i \<in> {..<?n}"
    then have i: "i < ?n" by simp
    have one: "cs ! (?k + i) = 0" if "result ! (?k + i) = 1" using lt [OF i] that by simp
    show "cs ! (?k + i) * ?ss ! i = broadcast_coords (lead_extents v) cs ! i * lead_strides v ! i"
      using bc [OF i] one i ns by (auto simp: n lead_strides_def)
  qed
  also have "\<dots> = dot (broadcast_coords (lead_extents v) cs) (lead_strides v)"
    by (subst dot_sum) (simp_all add: broadcast_coords_def lead_strides_def ns)
  finally show "unat (plane_offset v) + dot cs (map unat (logical_plane_strides (snapshot_binary_view st v result)))
      = view_plane v (broadcast_coords (lead_extents v) cs)"
    by (simp add: view_plane_def)
qed

lemma checked_view_strides:
  assumes "validate_checked_view st device v = Inr f"
  shows "length (plane_strides v) = rank (shape (spec v)) - 2"
  using assms by (auto simp: validate_checked_view_split view_guards_def split: option.splits if_splits)

text \<open>What an admitted binary request is made of.\<close>

lemma validate_binary_InrD:
  assumes "validate_binary st device operation lhs rhs out = Inr request"
  obtains fl fr fo where
    "validate_checked_spec (spec lhs) = Inr ()" "validate_checked_spec (spec rhs) = Inr ()"
    "validate_checked_spec (spec out) = Inr ()"
    "validate_checked_view st device lhs = Inr fl" "validate_checked_view st device rhs = Inr fr"
    "validate_checked_view st device out = Inr fo"
    "broadcast_result (dimensions (shape (spec lhs))) (dimensions (shape (spec rhs)))
       = Inr (dimensions (shape (spec out)))"
    "bin_lhs request = snapshot_binary_view st lhs (dimensions (shape (spec out)))"
    "bin_rhs request = snapshot_binary_view st rhs (dimensions (shape (spec out)))"
    "bin_out request = snapshot_binary_view st out (dimensions (shape (spec out)))"
    "bs_owner (bin_lhs request) = bs_owner (bin_out request) \<longrightarrow> exact_alias (bin_lhs request) (bin_out request)"
    "bs_owner (bin_rhs request) = bs_owner (bin_out request) \<longrightarrow> exact_alias (bin_rhs request) (bin_out request)"
    "bin_operation request = operation" "bin_result_shape request = shape (spec out)"
    "data_type (spec rhs) = data_type (spec lhs)" "data_type (spec out) = data_type (spec lhs)"
    "add_numeric_leaf (data_type (spec lhs))" "operation = Div \<longrightarrow> div_numeric_leaf (data_type (spec lhs))"
proof -
  have sh: "make_shape ds = Inr s \<longleftrightarrow> s = TensorShape ds \<and> make_shape ds = Inr s" for ds s
    by (auto simp: make_shape_def split: if_splits)
  from assms obtain fl fr fo where
    c: "validate_checked_spec (spec lhs) = Inr ()" "validate_checked_spec (spec rhs) = Inr ()"
    "validate_checked_spec (spec out) = Inr ()"
    "validate_checked_view st device lhs = Inr fl" "validate_checked_view st device rhs = Inr fr"
    "validate_checked_view st device out = Inr fo"
    "broadcast_result (dimensions (shape (spec lhs))) (dimensions (shape (spec rhs)))
       = Inr (dimensions (shape (spec out)))"
    and d: "make_shape (dimensions (shape (spec out))) = Inr (bin_result_shape request)"
    and e: "bin_lhs request = snapshot_binary_view st lhs (dimensions (shape (spec out)))"
    "bin_rhs request = snapshot_binary_view st rhs (dimensions (shape (spec out)))"
    "bin_out request = snapshot_binary_view st out (dimensions (shape (spec out)))"
    "bs_owner (bin_lhs request) = bs_owner (bin_out request) \<longrightarrow> exact_alias (bin_lhs request) (bin_out request)"
    "bs_owner (bin_rhs request) = bs_owner (bin_out request) \<longrightarrow> exact_alias (bin_rhs request) (bin_out request)"
    "bin_operation request = operation"
    "data_type (spec rhs) = data_type (spec lhs)" "data_type (spec out) = data_type (spec lhs)"
    "add_numeric_leaf (data_type (spec lhs))" "operation = Div \<longrightarrow> div_numeric_leaf (data_type (spec lhs))"
    unfolding validate_binary_def Let_def andThen_Inr_iff
    by (auto split: if_splits simp: andThen_Inr_iff)
  have "bin_result_shape request = TensorShape (dimensions (shape (spec out)))" using d sh by blast
  then have "bin_result_shape request = shape (spec out)" by (cases "shape (spec out)") simp
  with c e show thesis by (intro that) blast+
qed

text \<open>The admitted view addresses planes of its owner only.\<close>

lemma admitted_view_ok:
  assumes "validate_checked_spec (spec v) = Inr ()" and "validate_checked_view st device v = Inr f"
    and "\<And>i. owner_identity v = Some i \<Longrightarrow>
      valid_shape (shape (spec (full_view (st i)))) \<and> supported_spec (spec (full_view (st i)))"
  obtains owner where "owner_identity v = Some owner"
    and "view_ok (prod_list (leading (shape (spec (full_view (st owner)))))) v"
    and "tiled_storage_nbytes (spec (full_view (st owner))) = Inr (storage_bytes f)"
proof -
  have valid: "valid_shape (shape (spec v))" using assms(1) by (simp add: validate_checked_spec_Inr)
  from assms(2) obtain owner where o: "owner_identity v = Some owner" and g: "view_guards st device v owner"
    and run: "view_arithmetic (spec (full_view (st owner))) v = Inr f"
    by (auto simp: validate_checked_view_split split: option.splits if_splits)
  have sup: "supported_spec (spec (full_view (st owner)))" "valid_shape (shape (spec (full_view (st owner))))"
    using assms(3) [OF o] by auto
  have same: "same_matrix (spec v) (spec (full_view (st owner)))"
    and len: "length (plane_strides v) = rank (shape (spec v)) - 2"
    using g same_matrix_iff [OF valid sup(2)] by (simp_all add: view_guards_def)
  note a = view_arithmetic_Inr [OF valid len sup(1) same run]
  show thesis using that [OF o a(1,3)] .
qed

definition constructed :: "store \<Rightarrow> tensor_ref \<Rightarrow> bool" where
  "constructed st i \<longleftrightarrow> (\<exists>s device handle. valid_shape (shape s) \<and> make_tensor i s device handle = Inr (st i))"

lemma constructedI: "valid_shape (shape s) \<Longrightarrow> make_tensor i s device handle = Inr (st i) \<Longrightarrow> constructed st i"
  by (auto simp: constructed_def)

lemma constructed_facts:
  assumes "constructed st i"
  shows "valid_shape (shape (spec (full_view (st i))))" and "supported_spec (spec (full_view (st i)))"
  using assms make_tensor_facts(1,4) unfolding constructed_def by metis+

lemma broadcast_coords_same:
  assumes "leading_coords v cs"
  shows "broadcast_coords (lead_extents v) cs = cs"
proof (rule nth_equalityI)
  have len: "length cs = length (lead_extents v)" and lt: "\<And>i. i < length cs \<Longrightarrow> cs ! i < lead_extents v ! i"
    using assms by (auto simp: leading_coords_nth)
  show "length (broadcast_coords (lead_extents v) cs) = length cs" by (simp add: broadcast_coords_def len)
  fix i assume "i < length (broadcast_coords (lead_extents v) cs)"
  then have i: "i < length cs" by (simp add: broadcast_coords_def len)
  show "broadcast_coords (lead_extents v) cs ! i = cs ! i"
    using i lt [OF i] by (auto simp: broadcast_coords_def len)
qed

text \<open>The row and column an operand is read at, given the flags of its snapshot.\<close>

lemma snapshot_flags:
  "broadcast_rows (snapshot_binary_view st v result) \<longleftrightarrow>
     dimensions (shape (spec v)) ! (length (dimensions (shape (spec v))) - 2) = 1 \<and> result ! (length result - 2) \<noteq> 1"
  "broadcast_columns (snapshot_binary_view st v result) \<longleftrightarrow> last (dimensions (shape (spec v))) = 1 \<and> last result \<noteq> 1"
  "bs_owner (snapshot_binary_view st v result) = owner_identity v"
  "bs_spec (snapshot_binary_view st v result) = spec v"
  "bs_plane_offset (snapshot_binary_view st v result) = plane_offset v"
  "bs_plane_strides (snapshot_binary_view st v result) = plane_strides v"
  by (simp_all add: snapshot_binary_view_def Let_def)

lemma broadcast_matrix:
  assumes valid: "valid_shape (shape (spec v))" and out: "valid_shape s" and le: "rank (shape (spec v)) \<le> rank s"
    and axes: "\<And>i. i < rank s \<Longrightarrow> aligned_axis (rank s) (dimensions (shape (spec v))) i = dimensions s ! i
      \<or> aligned_axis (rank s) (dimensions (shape (spec v))) i = 1"
    and row: "row < rows_of s" and column: "column < columns_of s"
  shows "(if broadcast_rows (snapshot_binary_view st v (dimensions s)) then 0 else row) < rows_of (shape (spec v))"
    and "(if broadcast_columns (snapshot_binary_view st v (dimensions s)) then 0 else column) < columns_of (shape (spec v))"
proof -
  let ?d = "dimensions (shape (spec v))" and ?r = "dimensions s"
  have len: "2 \<le> length ?d" "2 \<le> length ?r" "length ?d \<le> length ?r"
    using valid out le by (simp_all add: valid_shape_def rank_def)
  have last: "last ?d = ?d ! (length ?d - 1)" "last ?r = ?r ! (length ?r - 1)"
    using len last_conv_nth [of ?d] last_conv_nth [of ?r] by fastforce+
  have ax: "?d ! (length ?d - k) = ?r ! (length ?r - k) \<or> ?d ! (length ?d - k) = 1" if "k = 1 \<or> k = 2" for k
  proof -
    have "length ?r - k < rank s" "\<not> length ?r - k < length ?r - length ?d"
      "length ?r - k - (length ?r - length ?d) = length ?d - k" using that len by (auto simp: rank_def)
    then show ?thesis using axes [of "length ?r - k"] by (simp add: aligned_axis_def rank_def)
  qed
  have one: "unat (1 :: usize) = 1" by simp
  note e = rows_of_def columns_of_def extents_def rank_def snapshot_flags last
  show "(if broadcast_rows (snapshot_binary_view st v ?r) then 0 else row) < rows_of (shape (spec v))"
    using ax [of 2] row len by (auto simp: e)
  show "(if broadcast_columns (snapshot_binary_view st v ?r) then 0 else column) < columns_of (shape (spec v))"
    using ax [of 1] column len by (auto simp: e)
qed

section \<open>Properties\<close>

text \<open>
  Operand addressing of an admitted binary operation. For every coordinate of the output, the
  plane that the snapshot's offset and logical strides give for an operand is the plane of the
  operand's broadcast coordinate, lies inside its owner, and the row and column chosen by the
  broadcast flags are inside the operand's matrix. An operand that shares the output's owner has
  the output's exact window and is read at the plane that is written.
\<close>

lemma binary_operands_addressed:
  assumes "validate_binary st device operation lhs rhs out = Inr request"
    and "(v, snap) \<in> {(lhs, bin_lhs request), (rhs, bin_rhs request), (out, bin_out request)}"
    and "owner_identity v = Some owner" and "constructed st owner"
    and "leading_coords out cs" and "row < rows_of (shape (spec out))" and "column < columns_of (shape (spec out))"
    and "plane = unat (bs_plane_offset snap) + dot cs (map unat (logical_plane_strides snap))"
  shows "leading_coords v (broadcast_coords (lead_extents v) cs)
    \<and> plane = view_plane v (broadcast_coords (lead_extents v) cs)
    \<and> plane < prod_list (leading (shape (spec (full_view (st owner)))))
    \<and> (if broadcast_rows snap then 0 else row) < rows_of (shape (spec v))
    \<and> (if broadcast_columns snap then 0 else column) < columns_of (shape (spec v))
    \<and> (owner_identity v = owner_identity out \<longrightarrow> spec v = spec out \<and> plane = view_plane out cs
        \<and> \<not> broadcast_rows snap \<and> \<not> broadcast_columns snap)"
proof -
  let ?r = "dimensions (shape (spec out))"
  from assms(1) obtain fl fr fo where
    specs: "validate_checked_spec (spec lhs) = Inr ()" "validate_checked_spec (spec rhs) = Inr ()"
      "validate_checked_spec (spec out) = Inr ()"
    and views: "validate_checked_view st device lhs = Inr fl" "validate_checked_view st device rhs = Inr fr"
      "validate_checked_view st device out = Inr fo"
    and res: "broadcast_result (dimensions (shape (spec lhs))) (dimensions (shape (spec rhs))) = Inr ?r"
    and snaps: "bin_lhs request = snapshot_binary_view st lhs ?r" "bin_rhs request = snapshot_binary_view st rhs ?r"
      "bin_out request = snapshot_binary_view st out ?r"
    and ali0: "bs_owner (bin_lhs request) = bs_owner (bin_out request) \<longrightarrow> exact_alias (bin_lhs request) (bin_out request)"
      "bs_owner (bin_rhs request) = bs_owner (bin_out request) \<longrightarrow> exact_alias (bin_rhs request) (bin_out request)"
    by (rule validate_binary_InrD)
  obtain f where v: "validate_checked_spec (spec v) = Inr ()" "validate_checked_view st device v = Inr f"
    and snap: "snap = snapshot_binary_view st v ?r" and ali: "owner_identity v = owner_identity out \<longrightarrow> v = out \<or>
      exact_alias snap (snapshot_binary_view st out ?r)"
    using assms(2) specs views snaps ali0 by (auto simp: snapshot_flags)
  have valids: "valid_shape (shape (spec lhs))" "valid_shape (shape (spec rhs))" "valid_shape (shape (spec out))"
    and valid: "valid_shape (shape (spec v))"
    using specs v(1) by (simp_all add: validate_checked_spec_Inr)
  have nz: "0 \<notin> set (dimensions (shape (spec lhs)))" "0 \<notin> set (dimensions (shape (spec rhs)))"
    using valids by (simp_all add: valid_shape_def)
  note br = broadcast_result_Inr [OF res nz]
  have le: "rank (shape (spec v)) \<le> length ?r" using assms(2) br(1) by (auto simp: rank_def)
  have axes: "aligned_axis (length ?r) (dimensions (shape (spec v))) i = ?r ! i
      \<or> aligned_axis (length ?r) (dimensions (shape (spec v))) i = 1" if "i < length ?r" for i
    using assms(2) br(2,3) [OF that] by (auto simp: aligned_axis_def)
  have cs: "list_all2 (<) cs (map unat (take (length ?r - 2) ?r))"
    using assms(5) by (simp add: leading_coords_def lead_extents_def leading_def extents_def rank_def take_map)
  note bp = broadcast_plane(1) [OF valid checked_view_strides [OF v(2)] le axes cs]
    broadcast_plane(2) [where st = st, OF valid checked_view_strides [OF v(2)] le axes cs]
  have plane: "plane = view_plane v (broadcast_coords (lead_extents v) cs)"
    using bp(2) assms(8) snap by (simp add: snapshot_flags)
  have "view_ok (prod_list (leading (shape (spec (full_view (st owner)))))) v"
    using admitted_view_ok [OF v] constructed_facts [OF assms(4)] assms(3) by (metis option.inject)
  then have lt: "plane < prod_list (leading (shape (spec (full_view (st owner)))))"
    using view_plane_in_owner bp(1) plane by blast
  have matrix: "(if broadcast_rows snap then 0 else row) < rows_of (shape (spec v))"
    "(if broadcast_columns snap then 0 else column) < columns_of (shape (spec v))"
    using broadcast_matrix [OF valid valids(3), where st = st] le axes assms(6,7) snap by (simp_all add: rank_def)
  have own: "spec v = spec out \<and> plane = view_plane out cs \<and> \<not> broadcast_rows snap \<and> \<not> broadcast_columns snap"
    if o: "owner_identity v = owner_identity out"
  proof -
    have same: "spec v = spec out" "plane_offset v = plane_offset out" "plane_strides v = plane_strides out"
      using ali o snap by (auto simp: exact_alias_def snapshot_flags)
    then have "lead_extents v = lead_extents out" "view_plane v = view_plane out"
      by (simp_all add: lead_extents_def view_plane_def lead_strides_def fun_eq_iff)
    moreover have "\<not> broadcast_rows snap \<and> \<not> broadcast_columns snap"
      using same(1) snap by (simp add: snapshot_flags)
    ultimately show ?thesis using same plane broadcast_coords_same [OF assms(5)] by simp
  qed
  show ?thesis using bp(1) plane lt matrix own by blast
qed

text \<open>Three owners on device 7: \<open>[4, 3, 5, 6]\<close>, \<open>[3, 1, 6]\<close> and again \<open>[4, 3, 5, 6]\<close>.\<close>

definition sample_objects :: Objects where
  "sample_objects = \<lparr>ops_device = Some 7,
     tensors = (\<lambda>i.
       if i = 4 then \<lparr>tensor_device = 7,
         full_view = \<lparr>owner_identity = Some 4,
           spec = \<lparr>shape = TensorShape [3, 1, 6], data_type = F32, quantization = NONE\<rparr>,
           plane_offset = 0, plane_strides = [1]\<rparr>, storage_handle = 65536\<rparr>
       else if i = 5 then \<lparr>tensor_device = 7,
         full_view = \<lparr>owner_identity = Some 5,
           spec = \<lparr>shape = TensorShape [4, 3, 5, 6], data_type = F32, quantization = NONE\<rparr>,
           plane_offset = 0, plane_strides = [3, 1]\<rparr>, storage_handle = 131072\<rparr>
       else sample_tensor),
     workspaces = sample_workspaces, live_workspaces = {1}\<rparr>"

abbreviation sample_view :: "tensor_ref \<Rightarrow> TensorView" where
  "sample_view i \<equiv> full_view (tensors sample_objects i)"

lemma sample_constructed:
  "constructed (tensors sample_objects) 4" "constructed (tensors sample_objects) 3"
  "constructed (tensors sample_objects) 5"
proof -
  have v: "valid_shape (TensorShape [3, 1, 6])" "valid_shape (TensorShape [4, 3, 5, 6])"
    by (simp_all add: valid_shape_def rank_def)
  note e = sample_objects_def make_tensor_def validated_dense_plane_strides_def validate_def
      rank_def dense_plane_strides_def leading_dimensions_of_def checked_mul_cases
  have "make_tensor 4 \<lparr>shape = TensorShape [3, 1, 6], data_type = F32, quantization = NONE\<rparr> 7 65536
      = Inr (tensors sample_objects 4)" by (simp add: e)
  then show "constructed (tensors sample_objects) 4" using v by (intro constructedI) simp_all
  have "make_tensor 3 \<lparr>shape = TensorShape [4, 3, 5, 6], data_type = F32, quantization = NONE\<rparr> 7 4096
      = Inr (tensors sample_objects 3)" using sample_tensor_made by (simp add: sample_objects_def)
  then show "constructed (tensors sample_objects) 3" using v by (intro constructedI) simp_all
  have "make_tensor 5 \<lparr>shape = TensorShape [4, 3, 5, 6], data_type = F32, quantization = NONE\<rparr> 7 131072
      = Inr (tensors sample_objects 5)" by (simp add: e)
  then show "constructed (tensors sample_objects) 5" using v by (intro constructedI) simp_all
qed

lemmas sample_simps = validate_checked_spec_def validate_checked_view_def
      sample_tensor_def recognized_data_type_def recognized_quantization_def rank_def view_device_def
      native_handle_def checked_plane_count_def checked_mul_cases checked_add_cases
      standard_plane_slot_def bits_to_bytes_def checked_tiled_storage_bytes_def
      checked_tiled_element_count_def padded_extent_def element_count_def Let_def

lemma sample_checked:
  "validate_checked_spec (spec (sample_view 3)) = Inr ()" "validate_checked_spec (spec (sample_view 4)) = Inr ()"
  "validate_checked_spec (spec (sample_view 5)) = Inr ()"
  "validate_checked_view (tensors sample_objects) 7 (sample_view 3) =
     Inr \<lparr>max_plane = 11, addressed_bytes = 11544, storage_bytes = 12288, logical_bytes = 1440\<rparr>"
  "validate_checked_view (tensors sample_objects) 7 (sample_view 4) =
     Inr \<lparr>max_plane = 2, addressed_bytes = 2072, storage_bytes = 3072, logical_bytes = 72\<rparr>"
  "validate_checked_view (tensors sample_objects) 7 (sample_view 5) =
     Inr \<lparr>max_plane = 11, addressed_bytes = 11544, storage_bytes = 12288, logical_bytes = 1440\<rparr>"
  by (simp_all add: sample_objects_def sample_simps)

definition sample_binary_request :: BinaryRequest where
  "sample_binary_request =
     (let view = (\<lambda>i. snapshot_binary_view (tensors sample_objects) (sample_view i) [4, 3, 5, 6]) in
      \<lparr>bin_operation = Div, bin_lhs = view 3, bin_rhs = view 4, bin_out = view 5,
       bin_result_shape = TensorShape [4, 3, 5, 6], bin_workspace = empty_workspace_view,
       bin_requirements = \<lparr>req_bytes = 0, req_alignment = 1\<rparr>\<rparr>)"

lemma sample_view_specs:
  "spec (sample_view 3) = \<lparr>shape = TensorShape [4, 3, 5, 6], data_type = F32, quantization = NONE\<rparr>"
  "spec (sample_view 4) = \<lparr>shape = TensorShape [3, 1, 6], data_type = F32, quantization = NONE\<rparr>"
  "spec (sample_view 5) = \<lparr>shape = TensorShape [4, 3, 5, 6], data_type = F32, quantization = NONE\<rparr>"
  "owner_identity (sample_view 3) = Some 3" "owner_identity (sample_view 4) = Some 4"
  "owner_identity (sample_view 5) = Some 5"
  by (simp_all add: sample_objects_def sample_tensor_def)

lemma sample_binary:
  "validate_binary (tensors sample_objects) 7 Div (sample_view 3) (sample_view 4) (sample_view 5)
     = Inr sample_binary_request"
  by (simp add: validate_binary_def sample_checked sample_checked(1-3) [unfolded sample_view_specs]
      sample_view_specs broadcast_result_def aligned_axis_def
      make_shape_def upt_rec snapshot_flags sample_binary_request_def add_numeric_leaf_def div_numeric_leaf_def Let_def)

lemma binary_operands_addressed_witness:
  "logical_plane_strides (bin_rhs sample_binary_request) = [0, 1]
   \<and> dot [3, 2] (map unat [0, 1 :: usize]) = view_plane (sample_view 4) (broadcast_coords [3] [3, 2])
   \<and> dot [3, 2] (map unat [0, 1 :: usize]) < 3
   \<and> broadcast_rows (bin_rhs sample_binary_request)"
proof -
  have s: "logical_plane_strides (bin_rhs sample_binary_request) = [0, 1]" "broadcast_rows (bin_rhs sample_binary_request)"
    "bs_plane_offset (bin_rhs sample_binary_request) = 0"
    by (simp_all add: sample_binary_request_def snapshot_binary_view_def sample_objects_def Let_def upt_rec)
  have cs: "leading_coords (sample_view 5) [3, 2]"
    by (simp add: leading_coords_def lead_extents_def sample_view_specs leading_def extents_def rank_def)
  have rc: "4 < rows_of (shape (spec (sample_view 5)))" "5 < columns_of (shape (spec (sample_view 5)))"
    by (simp_all add: rows_of_def columns_of_def extents_def rank_def sample_view_specs)
  have l: "lead_extents (sample_view 4) = [3]" "leading (TensorShape [3, 1, 6]) = [3]"
    by (simp_all add: lead_extents_def sample_view_specs leading_def extents_def rank_def)
  show ?thesis
    using binary_operands_addressed [OF sample_binary, where snap = "bin_rhs sample_binary_request",
        OF _ sample_view_specs(5) sample_constructed(1) cs rc refl] s l
    by (simp add: sample_view_specs)
qed

section \<open>Derived operands\<close>

text \<open>
  A view derived from an owner that was constructed on the device with real storage: a non-null
  handle whose storage range does not wrap.
\<close>

definition derived_operand :: "store \<Rightarrow> device_ref \<Rightarrow> tensor_ref \<Rightarrow> TensorView \<Rightarrow> bool" where
  "derived_operand st device self v \<longleftrightarrow>
     (\<exists>s handle n. valid_shape (shape s) \<and> make_tensor self s device handle = Inr (st self)
        \<and> handle \<noteq> 0 \<and> tiled_storage_nbytes s = Inr n \<and> unat handle + unat n < 2 ^ 64
        \<and> derived_view (st self) v)"

lemma derived_operand_facts:
  assumes "derived_operand st device self v"
  obtains s n f where "spec (full_view (st self)) = s" and "supported_spec s" and "same_matrix (spec v) s"
    and "valid_shape (shape (spec v))" and "quantization (spec v) = NONE"
    and "tiled_storage_nbytes s = Inr n" and "unat (storage_handle (st self)) + unat n < 2 ^ 64"
    and "owner_identity v = Some self" and "max_plane_of v < prod_list (leading (shape s))"
    and "prod_list (lead_extents v) \<le> prod_list (leading (shape s))"
    and "validate_checked_spec (spec v) = Inr ()" and "validate_checked_view st device v = Inr f"
    and "storage_bytes f = n" and "unat (max_plane f) = max_plane_of v"
    and "storage_span st v = span (storage_handle (st self)) n"
    and "native_handle st v = Some (storage_handle (st self))"
proof -
  from assms obtain s handle n where a: "valid_shape (shape s)" "make_tensor self s device handle = Inr (st self)"
      "handle \<noteq> 0" "tiled_storage_nbytes s = Inr n" "unat handle + unat n < 2 ^ 64" "derived_view (st self) v"
    by (auto simp: derived_operand_def)
  note t = make_tensor_facts [OF a(1,2)]
  have inv: "view_ok (prod_list (leading (shape s))) v" "owner_identity v = Some self" "same_matrix (spec v) s"
    using derived_view_invariant [OF a(6) t(3)] t(4,5) by simp_all
  have planes: "prod_list (lead_extents v) \<le> prod_list (leading (shape s))"
    using derived_view_planes [OF a(6) t(3)] by (simp add: lead_extents_def t(4))
  obtain f where c: "validate_checked_spec (spec v) = Inr ()" "validate_checked_view st device v = Inr f"
    "storage_bytes f = n" "unat (max_plane f) = max_plane_of v"
    using derived_view_checked [where st = st, OF a(1-4,6)] by auto
  obtain owner where o: "owner_identity v = Some owner" "native_handle st v = Some (storage_handle (st owner))"
    "storage_span st v = span (storage_handle (st owner)) (storage_bytes f)"
    using checked_view_storage [OF c(2)] by metis
  show thesis
  proof (rule that [OF t(4) t(1) inv(3) _ _ a(4) _ inv(2) _ planes c])
    show "valid_shape (shape (spec v))" "max_plane_of v < prod_list (leading (shape s))"
      using inv(1) by (simp_all add: view_ok_def)
    show "quantization (spec v) = NONE" using inv(3) t(1) by (simp add: same_matrix_def supported_spec_def)
    show "unat (storage_handle (st self)) + unat n < 2 ^ 64" using a(5) t(7) by simp
    show "storage_span st v = span (storage_handle (st self)) n"
      "native_handle st v = Some (storage_handle (st self))" using o inv(2) c(3) by simp_all
  qed
qed

section \<open>Cache append admission\<close>

lemma matrix_extents:
  assumes "valid_shape sh"
  shows "unat (dimensions sh ! (length (dimensions sh) - 2)) = rows_of sh" and "unat (last (dimensions sh)) = columns_of sh"
proof -
  have l: "2 \<le> length (dimensions sh)" using assms by (simp add: valid_shape_def rank_def)
  then have "dimensions sh \<noteq> []" by auto
  then show "unat (dimensions sh ! (length (dimensions sh) - 2)) = rows_of sh" "unat (last (dimensions sh)) = columns_of sh"
    using l by (simp_all add: rows_of_def columns_of_def extents_def rank_def last_conv_nth)
qed

lemma append_arithmetic_ok:
  assumes sup: "supported_spec s" and same: "same_matrix (spec v) s" and valid: "valid_shape (shape (spec v))"
    and n: "tiled_storage_nbytes s = Inr n" and max: "max_plane_of v < prod_list (leading (shape s))"
    and planes: "prod_list (lead_extents v) \<le> prod_list (leading (shape s))"
    and f: "storage_bytes f = n" "unat (max_plane f) = max_plane_of v"
    and rows: "unat rows \<le> rows_of (shape s)" and features: "unat features = columns_of (shape s)"
    and row: "unat append_row < rows_of (shape s)"
  shows "validate_view_arithmetic v f rows features append_row = Inr ()"
proof -
  let ?d = "dimensions (shape (spec v))" and ?P = "prod_list (lead_extents v)"
  let ?w = "leaf_width s" and ?R = "padded (rows_of (shape s))" and ?C = "padded (columns_of (shape s))"
  have sv: "valid_shape (shape s)" using sup by (simp add: supported_spec_def)
  note same' = same_matrix_facts [OF valid sv same]
  note fits = tiled_storage_fits [OF sup n] and pos = rows_columns_pos [OF sv]
  have big: "tiled_elements (shape s) * ?w + 7 < 2 ^ 64"
    using n by (auto simp: tiled_storage_nbytes_cases [OF sup] split: if_splits)
  obtain bits where bits: "leaf_bits (data_type (spec v)) = Inr bits" and ub: "unat bits = ?w"
    using sup same by (auto simp: supported_spec_def same_matrix_def leaf_width_def)
  have le: "?P * ?R * ?C \<le> tiled_elements (shape s)"
    using planes unfolding tiled_elements_def mult.assoc by (rule mult_le_mono1)
  have pp: "0 < ?R" "0 < ?C" using padded_pos pos by simp_all
  have step: "?P \<le> ?P * ?R" "?P * ?R \<le> ?P * ?R * ?C" using pp by simp_all
  have fit: "?P < 2 ^ 64" "?P * ?R < 2 ^ 64" "?P * ?R * ?C < 2 ^ 64" using le step fits(1) by linarith+
  have idx: "unat (?d ! (length ?d - 2)) = rows_of (shape s)" "unat (last ?d) = columns_of (shape s)"
    using matrix_extents [OF valid] same'(1,2) by simp_all
  have nz: "0 \<notin> set (take (length ?d - 2) ?d)" using valid by (auto simp: valid_shape_def dest: in_set_takeD)
  have lead: "map unat (take (length ?d - 2) ?d) = lead_extents v"
    by (simp add: lead_extents_def leading_def extents_def rank_def take_map)
  obtain pl where pl: "checked_product 1 (take (length ?d - 2) ?d) = Inr pl" "unat pl = ?P"
    using checked_product_Inr [OF nz, of 1 "of_nat ?P"] lead fit(1) by (auto simp: unat_of_nat_fits)
  have small: "?R < 2 ^ 64" "?C < 2 ^ 64"
  proof -
    have "0 < prod_list (leading (shape s))" using max by simp
    then have "?R * ?C \<le> tiled_elements (shape s)" by (simp add: tiled_elements_def)
    moreover have "?R \<le> ?R * ?C" "?C \<le> ?R * ?C" using pp by simp_all
    ultimately show "?R < 2 ^ 64" "?C < 2 ^ 64" using fits(1) by linarith+
  qed
  obtain pr where pr: "padded_extent (?d ! (length ?d - 2)) = Inr pr" "unat pr = ?R"
    using padded_extent_Inr [of "?d ! (length ?d - 2)" "of_nat ?R"] idx(1) small by (auto simp: unat_of_nat_fits)
  obtain pc where pc: "padded_extent (last ?d) = Inr pc" "unat pc = ?C"
    using padded_extent_Inr [of "last ?d" "of_nat ?C"] idx(2) small by (auto simp: unat_of_nat_fits)
  obtain pp' where pp': "checked_mul pl pr = Inr pp'" "unat pp' = ?P * ?R"
    using checked_mul_ex [OF pl(2) pr(2) fit(2)] by blast
  obtain pe where pe: "checked_mul pp' pc = Inr pe" "unat pe = ?P * ?R * ?C"
    using checked_mul_ex [OF pp'(2) pc(2) fit(3)] by blast
  have bytes: "\<exists>b c. checked_mul x bits = Inr b \<and> bits_to_bytes b = Inr c \<and> \<not> c > storage_bytes f"
    if "unat x \<le> tiled_elements (shape s)" for x
  proof -
    have m: "unat x * ?w \<le> tiled_elements (shape s) * ?w" using that by (rule mult_le_mono1)
    then have "unat x * ?w < 2 ^ 64" using big by linarith
    then obtain b where b: "checked_mul x bits = Inr b" "unat b = unat x * ?w"
      using checked_mul_ex [OF refl ub] by blast
    have "unat b + 7 < 2 ^ 64" using b(2) m big by linarith
    then obtain c where c: "bits_to_bytes b = Inr c" "unat c = packed_bytes (unat b)" using bits_to_bytes_ex by blast
    have "unat c \<le> unat n" using c(2) b(2) packed_bytes_mono [OF m] fits(3) by simp
    with b(1) c(1) show ?thesis using f(1) by (auto simp: word_less_nat_alt)
  qed
  obtain b1 c1 where s1: "checked_mul pe bits = Inr b1" "bits_to_bytes b1 = Inr c1" "\<not> c1 > storage_bytes f"
    using bytes [of pe] pe(2) le by auto
  have r: "?P * unat rows \<le> ?P * ?R" using rows padded_ge [of "rows_of (shape s)"] by (intro mult_le_mono2) linarith
  have c: "?P * unat rows * unat features \<le> ?P * ?R * ?C"
    using mult_le_mono [OF r, of "unat features" ?C] padded_ge [of "columns_of (shape s)"] features by simp
  obtain qr where qr: "checked_mul pl rows = Inr qr" "unat qr = ?P * unat rows"
    using checked_mul_ex [OF pl(2) refl le_less_trans [OF r fit(2)]] by blast
  obtain le' where le': "checked_mul qr features = Inr le'" "unat le' = ?P * unat rows * unat features"
    using checked_mul_ex [OF qr(2) refl le_less_trans [OF c fit(3)]] by blast
  obtain b2 c2 where s2: "checked_mul le' bits = Inr b2" "bits_to_bytes b2 = Inr c2" "\<not> c2 > storage_bytes f"
    using bytes [of le'] le'(2) c le by auto
  have tiled: "prod_list (leading (shape s)) * plane_elements (shape (spec v)) = tiled_elements (shape s)"
    by (simp add: tiled_elements_def plane_elements_def same'(1,2))
  have col: "unat (features - 1) = columns_of (shape s) - 1"
    using features pos(2) by (metis unat_minus_one less_numeral_extra(3) unat_0)
  have bounds: "unat (max_plane f) < prod_list (leading (shape s))" "unat append_row < rows_of (shape (spec v))"
    "unat (features - 1) < columns_of (shape (spec v))"
    using f(2) max row col pos(2) same'(1,2) by simp_all
  obtain sl where sl: "standard_plane_slot (spec v) (max_plane f) append_row (features - 1) = Inr sl"
    "unat sl = plane_slot (shape (spec v)) (unat (max_plane f)) (unat append_row) (unat (features - 1))"
    using standard_plane_slot_ok [OF valid bounds] tiled fits(1) by auto
  have sll: "unat sl + 1 \<le> tiled_elements (shape s)"
    using plane_slot_less [OF bounds] sl(2) tiled by simp
  have one: "unat (1 :: usize) = 1" by simp
  obtain sl' where sl': "checked_add sl 1 = Inr sl'" "unat sl' = unat sl + 1"
    using checked_add_ex [OF refl one, of sl] sll fits(1) by auto
  obtain b3 c3 where s3: "checked_mul sl' bits = Inr b3" "bits_to_bytes b3 = Inr c3" "\<not> c3 > storage_bytes f"
    using bytes [of sl'] sl'(2) sll by auto
  show ?thesis
    using pl(1) pr(1) pc(1) pp'(1) pe(1) bits s1 qr(1) le'(1) s2 sl(1) sl'(1) s3
    by (simp add: validate_view_arithmetic_def Let_def)
qed

text \<open>
  The geometry of an append: equal leading extents and features, and the source rows placed from
  row \<open>a\<close> on end inside the destination.
\<close>

definition append_fits :: "TensorShape \<Rightarrow> TensorShape \<Rightarrow> nat \<Rightarrow> bool" where
  "append_fits source destination a \<longleftrightarrow>
     3 \<le> rank source \<and> rank source = rank destination \<and> leading source = leading destination
     \<and> columns_of source = columns_of destination \<and> a + rows_of source \<le> rows_of destination"

lemma unat_list_eq: "map unat xs = map unat (ys :: usize list) \<longleftrightarrow> xs = ys"
  by (simp add: inj_map_eq_map inj_def word_unat_eq_iff)

text \<open>The axis comparisons of the code are the comparison of the leading extents.\<close>

lemma append_axes:
  assumes "length xs = length ys" and "3 \<le> length (xs :: usize list)"
  shows "take (length xs - 3) xs = take (length xs - 3) ys \<and> xs ! (length xs - 3) = ys ! (length xs - 3)
    \<longleftrightarrow> map unat (take (length xs - 2) xs) = map unat (take (length ys - 2) ys)"
proof -
  have k: "length xs - 2 = Suc (length xs - 3)" "length xs - 3 < length xs" using assms by simp_all
  show ?thesis
    unfolding unat_list_eq using assms(1) k by (simp add: take_Suc_conv_app_nth)
qed

lemma checked_storage_range_ok:
  assumes "native_handle st v = Some h" and "storage_bytes f = n"
  shows "checked_storage_range st v f =
    (if unat h + unat n < 2 ^ 64 then Inr \<lparr>range_begin = h, range_end = h + n\<rparr> else Inl OverflowError)"
proof -
  have "storage_bytes f > - 1 - h \<longleftrightarrow> \<not> unat h + unat n < 2 ^ 64" using assms(2) range_end_fits [of h n] by blast
  then show ?thesis using assms by (simp only: checked_storage_range_def Let_def option.sel if_not_P if_P) simp
qed

lemma storage_bytes_nonzero:
  assumes "supported_spec s" and "tiled_storage_nbytes s = Inr n"
  shows "n \<noteq> 0"
proof -
  note fits = tiled_storage_fits [OF assms]
  have v: "valid_shape (shape s)" using assms(1) by (simp add: supported_spec_def)
  obtain b where b: "leaf_bits (data_type s) = Inr b" using assms(1) by (auto simp: supported_spec_def)
  then have "0 < leaf_width s" using leaf_bits_range [of "data_type s" b] by (simp add: leaf_width_def)
  moreover have "0 < tiled_elements (shape s)"
    using rows_columns_pos [OF v] padded_pos lead_extents_nonzero [of "\<lparr>owner_identity = None, spec = s,
        plane_offset = 0, plane_strides = []\<rparr>"] v prod_list_pos [of "leading (shape s)"]
    by (simp add: tiled_elements_def lead_extents_def)
  ultimately have "0 < 8 * unat n" using fits(2) by (metis mult_pos_pos less_le_trans)
  then show ?thesis by auto
qed

lemma cache_append_accepted_iff:
  assumes "derived_operand st device i source" and "derived_operand st device j destination"
  shows "(\<exists>request. validate_cache_append st device source destination a = Inr request
      \<and> ca_source request = snapshot_cache_append_view st source
      \<and> ca_destination request = snapshot_cache_append_view st destination \<and> ca_a request = a)
    \<longleftrightarrow> append_fits (shape (spec source)) (shape (spec destination)) (unat a)
      \<and> data_type (spec source) = data_type (spec destination)
      \<and> i \<noteq> j \<and> storage_span st source \<inter> storage_span st destination = {}"
    (is "?L \<longleftrightarrow> ?R")
proof -
  obtain s n f where s: "supported_spec s" "same_matrix (spec source) s" "valid_shape (shape (spec source))"
      "quantization (spec source) = NONE" "tiled_storage_nbytes s = Inr n"
      "unat (storage_handle (st i)) + unat n < 2 ^ 64" "owner_identity source = Some i"
      "max_plane_of source < prod_list (leading (shape s))"
      "prod_list (lead_extents source) \<le> prod_list (leading (shape s))"
      "validate_checked_spec (spec source) = Inr ()" "validate_checked_view st device source = Inr f"
      "storage_bytes f = n" "unat (max_plane f) = max_plane_of source"
      "storage_span st source = span (storage_handle (st i)) n" "native_handle st source = Some (storage_handle (st i))"
    using derived_operand_facts [OF assms(1)] by metis
  obtain t m g where t: "supported_spec t" "same_matrix (spec destination) t" "valid_shape (shape (spec destination))"
      "quantization (spec destination) = NONE" "tiled_storage_nbytes t = Inr m"
      "unat (storage_handle (st j)) + unat m < 2 ^ 64" "owner_identity destination = Some j"
      "max_plane_of destination < prod_list (leading (shape t))"
      "prod_list (lead_extents destination) \<le> prod_list (leading (shape t))"
      "validate_checked_spec (spec destination) = Inr ()" "validate_checked_view st device destination = Inr g"
      "storage_bytes g = m" "unat (max_plane g) = max_plane_of destination"
      "storage_span st destination = span (storage_handle (st j)) m"
      "native_handle st destination = Some (storage_handle (st j))"
    using derived_operand_facts [OF assms(2)] by metis
  let ?x = "dimensions (shape (spec source))" and ?y = "dimensions (shape (spec destination))"
  let ?rows = "?x ! (length ?x - 2)" and ?cap = "?y ! (length ?y - 2)"
  have ts: "valid_shape (shape s)" "valid_shape (shape t)" using s(1) t(1) by (simp_all add: supported_spec_def)
  note ms = same_matrix_facts [OF s(3) ts(1) s(2)] and mt = same_matrix_facts [OF t(3) ts(2) t(2)]
  note es = matrix_extents [OF s(3)] and et = matrix_extents [OF t(3)]
  have pos: "0 < unat ?rows" "0 < unat (last ?x)" using rows_columns_pos [OF s(3)] es by simp_all
  have dis: "\<not> ranges_overlap \<lparr>range_begin = storage_handle (st i), range_end = storage_handle (st i) + n\<rparr>
        \<lparr>range_begin = storage_handle (st j), range_end = storage_handle (st j) + m\<rparr>
      \<longleftrightarrow> storage_span st source \<inter> storage_span st destination = {}"
    using span_disjoint_iff [OF s(6) t(6)] storage_bytes_nonzero [OF s(1,5)] storage_bytes_nonzero [OF t(1,5)]
    by (simp add: s(14) t(14) ranges_overlap_def)
  have col: "last ?x = last ?y \<longleftrightarrow> columns_of (shape (spec source)) = columns_of (shape (spec destination))"
    by (simp only: es(2) [symmetric] et(2) [symmetric] word_unat_eq_iff)
  have fit: "\<not> a > ?cap \<and> \<not> ?rows > ?cap - a
      \<longleftrightarrow> unat a + rows_of (shape (spec source)) \<le> rows_of (shape (spec destination))"
    using es(1) et(1) by (auto simp: word_less_nat_alt unat_sub word_le_nat_alt not_less)
  have rows: "checked_add a ?rows \<noteq> Inl e \<and> (\<exists>r. checked_add a (?rows - 1) = Inr r
        \<and> validate_view_arithmetic source f ?rows (last ?x) (?rows - 1) = Inr ()
        \<and> validate_view_arithmetic destination g ?rows (last ?x) r = Inr ())"
    if fits: "unat a + rows_of (shape (spec source)) \<le> rows_of (shape (spec destination))"
      and c: "columns_of (shape (spec source)) = columns_of (shape (spec destination))" for e
  proof -
    have lt: "unat a + unat ?rows < 2 ^ 64" using fits es(1) et(1) unat_less [of ?cap] by linarith
    have r1: "unat (?rows - 1) = unat ?rows - 1" using pos(1) by (metis unat_minus_one less_numeral_extra(3) unat_0)
    have "unat a + (unat ?rows - 1) < 2 ^ 64" using lt by linarith
    then obtain r where r: "checked_add a (?rows - 1) = Inr r" "unat r = unat a + (unat ?rows - 1)"
      using checked_add_ex [OF refl r1] by blast
    have sa: "validate_view_arithmetic source f ?rows (last ?x) (?rows - 1) = Inr ()"
      by (rule append_arithmetic_ok [OF s(1,2,3,5,8,9,12,13)]) (use ms es r1 pos in simp_all)
    have da: "validate_view_arithmetic destination g ?rows (last ?x) r = Inr ()"
    proof (rule append_arithmetic_ok [OF t(1,2,3,5,8,9,12,13)])
      show "unat ?rows \<le> rows_of (shape t)" "unat r < rows_of (shape t)"
        using fits mt(1) es(1) r(2) pos(1) by linarith+
      show "unat (last ?x) = columns_of (shape t)" using c mt(2) es(2) by simp
    qed
    show ?thesis using lt r(1) sa da by (simp add: checked_add_cases)
  qed
  show ?thesis
  proof
    assume ?L
    then have "rank (shape (spec source)) \<ge> 3" "length ?x = length ?y"
      "take (length ?x - 3) ?x = take (length ?x - 3) ?y" "?x ! (length ?x - 3) = ?y ! (length ?x - 3)"
      "last ?x = last ?y" "\<not> a > ?cap \<and> \<not> ?rows > ?cap - a" "data_type (spec source) = data_type (spec destination)"
      "i \<noteq> j" "\<not> ranges_overlap \<lparr>range_begin = storage_handle (st i), range_end = storage_handle (st i) + n\<rparr>
        \<lparr>range_begin = storage_handle (st j), range_end = storage_handle (st j) + m\<rparr>"
      unfolding validate_cache_append_def Let_def s(10,11) t(10,11) andThen_simps
        checked_storage_range_ok [OF s(15,12)] checked_storage_range_ok [OF t(15,12)]
      by (auto simp: andThen_Inr_iff s(6,7) t(6,7) split: if_splits)
    then show ?R
      using append_axes [of ?x ?y] fit dis col
      by (simp add: append_fits_def rank_def leading_def extents_def take_map)
  next
    assume R: ?R
    then have r: "3 \<le> length ?x" "length ?x = length ?y" and l: "leading (shape (spec source)) = leading (shape (spec destination))"
      and c: "columns_of (shape (spec source)) = columns_of (shape (spec destination))"
      and k: "unat a + rows_of (shape (spec source)) \<le> rows_of (shape (spec destination))"
      by (simp_all add: append_fits_def rank_def)
    have ax: "take (length ?x - 3) ?x = take (length ?x - 3) ?y" "?x ! (length ?x - 3) = ?y ! (length ?x - 3)"
      using append_axes [OF r(2,1)] l by (simp_all add: rank_def leading_def extents_def take_map)
    have sp: "length ?x \<le> 8" "recognized_data_type (data_type (spec source))" "recognized_quantization NONE"
      using s(3,10) recognized_NONE by (simp_all add: validate_checked_spec_Inr valid_shape_def rank_def)
    obtain er where er: "checked_add a ?rows = Inr er" using rows [OF k c] by (cases "checked_add a ?rows") auto
    obtain lr where lr: "checked_add a (?rows - 1) = Inr lr"
      "validate_view_arithmetic source f ?rows (last ?x) (?rows - 1) = Inr ()"
      "validate_view_arithmetic destination g ?rows (last ?x) lr = Inr ()" using rows [OF k c] by blast
    have guards: "\<not> a > ?cap" "\<not> ?rows > ?cap - a" "last ?x = last ?y" using fit k col c by blast+
    show ?L
      unfolding validate_cache_append_def Let_def s(10,11) t(10,11) andThen_simps
        checked_storage_range_ok [OF s(15,12)] checked_storage_range_ok [OF t(15,12)]
      using R r ax sp er lr guards dis s(4,6,7) t(4,6,7) by (simp add: rank_def)
  qed
qed


text \<open>
  Cache append is accepted exactly when it should be. For a source and a destination derived
  from constructed owners with storage, the validation returns a request if and only if the ranks
  are at least three and equal, leading extents, features and data types agree, the rows fit
  behind row \<open>a\<close>, and the two owners are different with disjoint storage; no arithmetic check of
  the code can reject such a request. The request carries both snapshots and the offset.
\<close>

lemma cache_append_admission:
  assumes "derived_operand st device i source" and "derived_operand st device j destination"
  shows "(\<exists>request. validate_cache_append st device source destination a = Inr request
      \<and> ca_source request = snapshot_cache_append_view st source
      \<and> ca_destination request = snapshot_cache_append_view st destination \<and> ca_a request = a)
    \<longleftrightarrow> append_fits (shape (spec source)) (shape (spec destination)) (unat a)
      \<and> data_type (spec source) = data_type (spec destination)
      \<and> i \<noteq> j \<and> storage_span st source \<inter> storage_span st destination = {}"
  using assms by (rule cache_append_accepted_iff)

text \<open>Appending one row of \<open>[3, 1, 6]\<close> to the cache \<open>[3, 5, 6]\<close> selected from \<open>[4, 3, 5, 6]\<close>.\<close>

definition sample_cache :: TensorView where
  "sample_cache = \<lparr>owner_identity = Some 3,
     spec = \<lparr>shape = TensorShape [3, 5, 6], data_type = F32, quantization = NONE\<rparr>,
     plane_offset = 3, plane_strides = [1]\<rparr>"

lemma sample_operandI:
  assumes "valid_shape (shape s)" and "make_tensor i s 7 handle = Inr (tensors sample_objects i)"
    and "handle \<noteq> 0" and "tiled_storage_nbytes s = Inr n" and "unat handle + unat n < 2 ^ 64"
    and "derived_view (tensors sample_objects i) v"
  shows "derived_operand (tensors sample_objects) 7 i v"
  unfolding derived_operand_def using assms by blast

lemma sample_operands:
  "derived_operand (tensors sample_objects) 7 4 (sample_view 4)"
  "derived_operand (tensors sample_objects) 7 3 sample_cache"
proof -
  note e = sample_objects_def make_tensor_def validated_dense_plane_strides_def validate_def
      rank_def dense_plane_strides_def leading_dimensions_of_def checked_mul_cases
  have v: "valid_shape (TensorShape [3, 1, 6])" by (simp add: valid_shape_def rank_def)
  then have "supported_spec \<lparr>shape = TensorShape [3, 1, 6], data_type = F32, quantization = NONE\<rparr>"
    by (auto simp: supported_spec_def)
  then have n: "tiled_storage_nbytes \<lparr>shape = TensorShape [3, 1, 6], data_type = F32, quantization = NONE\<rparr> = Inr 3072"
    by (simp add: tiled_storage_nbytes_cases)
      (simp add: tiled_elements_def leading_def extents_def rows_of_def columns_of_def rank_def
        padded_def leaf_width_def packed_bytes_def)
  show "derived_operand (tensors sample_objects) 7 4 (sample_view 4)"
    by (rule sample_operandI [OF _ _ _ n _ derived_view.full, where handle = 65536]) (use v in \<open>simp_all add: e\<close>)
  have "select (full_view sample_tensor) 0 1 = Inr sample_cache"
    by (simp add: select_def sample_tensor_def sample_cache_def rank_def checked_mul_cases
      checked_add_cases dimension_def with_leading_dimensions_def make_shape_def leading_dimensions_of_def
      erase_at_def word_le_nat_alt)
  then have "derived_view (tensors sample_objects 3) sample_cache"
    using derived_view.selected [OF derived_view.full] by (simp add: sample_objects_def)
  then show "derived_operand (tensors sample_objects) 7 3 sample_cache"
    using sample_owner
    by (intro sample_operandI [where s = sample_owner_spec and handle = 4096 and n = 12288])
      (simp_all add: sample_objects_def sample_store_def)
qed

lemma cache_append_admission_witness:
  "\<exists>request. validate_cache_append (tensors sample_objects) 7 (sample_view 4) sample_cache 4 = Inr request
     \<and> ca_a request = 4"
proof -
  have fits: "append_fits (shape (spec (sample_view 4))) (shape (spec sample_cache)) (unat (4 :: usize))"
    by (simp add: append_fits_def sample_cache_def sample_view_specs rank_def leading_def extents_def
        rows_of_def columns_of_def)
  have "storage_span (tensors sample_objects) (sample_view 4) = span 65536 3072"
    "storage_span (tensors sample_objects) sample_cache = span 4096 12288"
    by (simp_all add: storage_span_def sample_objects_def sample_cache_def sample_simps)
  then have dis: "storage_span (tensors sample_objects) (sample_view 4) \<inter> storage_span (tensors sample_objects) sample_cache = {}"
    by (auto simp: span_def)
  from cache_append_admission [OF sample_operands, of 4] fits dis show ?thesis
    by (auto simp: sample_view_specs sample_cache_def)
qed

section \<open>Embedding and RMS normalization\<close>

text \<open>On derived operands the output/input check passes exactly for disjoint storage of different owners.\<close>

lemma derived_spans:
  assumes "derived_operand st device i v" and "derived_operand st device j u"
    and "validate_checked_view st device v = Inr f" and "validate_checked_view st device u = Inr g"
  shows "checked_backing_range_relation (the (native_handle st v)) (storage_bytes f)
      (the (native_handle st u)) (storage_bytes g)
    = (if storage_span st v \<inter> storage_span st u = {} then disjoint else overlap)"
    and "native_handle st v = native_handle st u \<Longrightarrow> storage_span st v \<inter> storage_span st u \<noteq> {}"
    and "owner_identity v = Some i" and "owner_identity u = Some j"
proof -
  obtain s n where s: "supported_spec s" "tiled_storage_nbytes s = Inr n"
      "unat (storage_handle (st i)) + unat n < 2 ^ 64" "owner_identity v = Some i" "storage_bytes f = n"
      "storage_span st v = span (storage_handle (st i)) n" "native_handle st v = Some (storage_handle (st i))"
    using derived_operand_facts [OF assms(1)] assms(3) by (metis sum.inject(2))
  obtain t m where t: "supported_spec t" "tiled_storage_nbytes t = Inr m"
      "unat (storage_handle (st j)) + unat m < 2 ^ 64" "owner_identity u = Some j" "storage_bytes g = m"
      "storage_span st u = span (storage_handle (st j)) m" "native_handle st u = Some (storage_handle (st j))"
    using derived_operand_facts [OF assms(2)] assms(4) by (metis sum.inject(2))
  have nz: "n \<noteq> 0" "m \<noteq> 0" using storage_bytes_nonzero s(1,2) t(1,2) by blast+
  then show "checked_backing_range_relation (the (native_handle st v)) (storage_bytes f)
      (the (native_handle st u)) (storage_bytes g)
    = (if storage_span st v \<inter> storage_span st u = {} then disjoint else overlap)"
    using backing_range_relation_cases [OF nz] s t by simp
  show "owner_identity v = Some i" "owner_identity u = Some j" using s t by simp_all
  show "storage_span st v \<inter> storage_span st u \<noteq> {}" if "native_handle st v = native_handle st u"
  proof -
    have "unat (storage_handle (st i)) \<in> span (storage_handle (st i)) n"
      "unat (storage_handle (st i)) \<in> span (storage_handle (st i)) m" using nz by (simp_all add: span_def unat_gt_0)
    then show ?thesis using that s(6,7) t(6,7) by auto
  qed
qed

lemma output_overlap_check_iff:
  assumes "derived_operand st device i out" and "derived_operand st device j input"
    and "validate_checked_view st device out = Inr f" and "validate_checked_view st device input = Inr g"
  shows "output_overlap_check st out (storage_bytes f) input (storage_bytes g) = Inr ()
    \<longleftrightarrow> i \<noteq> j \<and> storage_span st out \<inter> storage_span st input = {}"
  using derived_spans [OF assms] by (auto simp: output_overlap_check_def)

text \<open>
  Embedding is accepted exactly when it should be, for derived operands: a rank-two table, one
  index row per leading coordinate, an output with the leading extents of the indices, one row per
  index and the table's width, the table's data type, an integer index type, and an output whose
  owner and storage are apart from both inputs.
\<close>

lemma embedding_admission:
  assumes "derived_operand st device i table" and "derived_operand st device j indices"
    and "derived_operand st device k out"
  shows "validate_embedding st device table indices out = Inr () \<longleftrightarrow>
      rank (shape (spec table)) = 2 \<and> rows_of (shape (spec indices)) = 1
      \<and> extents (shape (spec out)) = leading (shape (spec indices))
          @ [columns_of (shape (spec indices)), columns_of (shape (spec table))]
      \<and> data_type (spec table) = data_type (spec out) \<and> embedding_index_leaf (data_type (spec indices))
      \<and> k \<noteq> i \<and> k \<noteq> j \<and> storage_span st out \<inter> storage_span st table = {}
      \<and> storage_span st out \<inter> storage_span st indices = {}"
proof -
  obtain f where f: "valid_shape (shape (spec table))" "quantization (spec table) = NONE"
      "validate_checked_spec (spec table) = Inr ()" "validate_checked_view st device table = Inr f"
    using derived_operand_facts [OF assms(1)] by metis
  obtain g where g: "valid_shape (shape (spec indices))" "quantization (spec indices) = NONE"
      "validate_checked_spec (spec indices) = Inr ()" "validate_checked_view st device indices = Inr g"
    using derived_operand_facts [OF assms(2)] by metis
  obtain h where h: "valid_shape (shape (spec out))" "quantization (spec out) = NONE"
      "validate_checked_spec (spec out) = Inr ()" "validate_checked_view st device out = Inr h"
    using derived_operand_facts [OF assms(3)] by metis
  let ?t = "dimensions (shape (spec table))" and ?x = "dimensions (shape (spec indices))"
  let ?o = "dimensions (shape (spec out))"
  have one: "?x ! (length ?x - 2) = 1 \<longleftrightarrow> rows_of (shape (spec indices)) = 1"
    unfolding matrix_extents(1) [OF g(1), symmetric] by (metis unat_1 word_unat_eq_iff)
  have lens: "2 \<le> length ?x" "2 \<le> length ?o" using g(1) h(1) by (simp_all add: valid_shape_def rank_def)
  have shapes: "length ?o = length ?x \<and> ?o ! (length ?o - 2) = last ?x \<and> last ?o = last ?t
      \<and> take (length ?x - 2) ?x = take (length ?o - 2) ?o
    \<longleftrightarrow> extents (shape (spec out)) = leading (shape (spec indices))
          @ [columns_of (shape (spec indices)), columns_of (shape (spec table))]"
    (is "?A \<longleftrightarrow> ?B")
  proof -
    have o: "?o = take (length ?o - 2) ?o @ [?o ! (length ?o - 2), last ?o]"
      using list_split_last2 [OF lens(2)] last_conv_nth [of ?o] lens(2) by fastforce
    have "leading (shape (spec indices)) @ [columns_of (shape (spec indices)), columns_of (shape (spec table))]
        = map unat (take (length ?x - 2) ?x @ [last ?x, last ?t])"
      using matrix_extents(2) [OF g(1)] matrix_extents(2) [OF f(1)]
      by (simp add: leading_def extents_def rank_def take_map)
    then have B: "?B \<longleftrightarrow> ?o = take (length ?x - 2) ?x @ [last ?x, last ?t]"
      by (simp only: extents_def unat_list_eq)
    show ?thesis
    proof
      assume ?A
      then show ?B unfolding B using o by metis
    next
      assume ?B
      then have e: "?o = take (length ?x - 2) ?x @ [last ?x, last ?t]" by (simp only: B)
      then have "length ?o = length (take (length ?x - 2) ?x @ [last ?x, last ?t])" by (rule arg_cong)
      then have l: "length ?o = length ?x" using lens(1) by simp
      then have "take (length ?o - 2) ?o = take (length ?x - 2) ?x" by (subst e) simp
      moreover have "[?o ! (length ?o - 2), last ?o] = [last ?x, last ?t]"
        using o e l calculation by (metis same_append_eq)
      ultimately show ?A using l by simp
    qed
  qed
  note overlap = output_overlap_check_iff [OF assms(3,1) h(4) f(4)] output_overlap_check_iff [OF assms(3,2) h(4) g(4)]
  show ?thesis
    unfolding validate_embedding_def Let_def f(3,4) g(3,4) h(3,4) andThen_simps embedding_reject_output_overlap_def
    unfolding one shapes [symmetric] rank_def
    using f(2) g(2) h(2) overlap by (auto simp: andThen_Inr_iff split: if_splits)
qed

text \<open>
  RMS normalization is accepted exactly when it should be, for derived operands: equal shapes
  of input and output, a scale of one row with the input's width, one floating-point data type, an
  output owner apart from both inputs, and an epsilon that is finite and not negative, so neither
  NaN nor an infinity.
\<close>

lemma rmsnorm_admission:
  assumes "derived_operand st device i x" and "derived_operand st device j scale"
    and "derived_operand st device k out"
  shows "validate_rmsnorm st device x scale out eps = Inr () \<longleftrightarrow>
      shape (spec x) = shape (spec out) \<and> extents (shape (spec scale)) = [1, columns_of (shape (spec x))]
      \<and> data_type (spec x) = data_type (spec scale) \<and> data_type (spec x) = data_type (spec out)
      \<and> rmsnorm_leaf (data_type (spec x)) \<and> k \<noteq> i \<and> k \<noteq> j \<and> (\<exists>e \<ge> 0. eps = Finite e)"
proof -
  obtain f where f: "valid_shape (shape (spec x))" "quantization (spec x) = NONE" "owner_identity x = Some i"
      "validate_checked_spec (spec x) = Inr ()" "validate_checked_view st device x = Inr f"
    using derived_operand_facts [OF assms(1)] by metis
  obtain g where g: "quantization (spec scale) = NONE" "owner_identity scale = Some j"
      "validate_checked_spec (spec scale) = Inr ()" "validate_checked_view st device scale = Inr g"
    using derived_operand_facts [OF assms(2)] by metis
  obtain h where h: "quantization (spec out) = NONE" "owner_identity out = Some k"
      "validate_checked_spec (spec out) = Inr ()" "validate_checked_view st device out = Inr h"
    using derived_operand_facts [OF assms(3)] by metis
  let ?d = "dimensions (shape (spec scale))"
  have "length ?d = 2 \<and> ?d ! 0 = 1 \<and> ?d ! 1 = last (dimensions (shape (spec x)))
      \<longleftrightarrow> ?d = [1, last (dimensions (shape (spec x)))]"
    by (auto simp: numeral_2_eq_2 length_Suc_conv)
  also have "\<dots> \<longleftrightarrow> map unat ?d = map unat [1, last (dimensions (shape (spec x)))]" by (rule unat_list_eq [symmetric])
  also have "\<dots> \<longleftrightarrow> extents (shape (spec scale)) = [1, columns_of (shape (spec x))]"
    using matrix_extents(2) [OF f(1)] by (simp add: extents_def)
  finally have sc: "length ?d = 2 \<and> ?d ! 0 = 1 \<and> ?d ! 1 = last (dimensions (shape (spec x)))
      \<longleftrightarrow> extents (shape (spec scale)) = [1, columns_of (shape (spec x))]" .
  have eps: "isfinite eps \<and> \<not> fp_less eps (Finite 0) \<longleftrightarrow> (\<exists>e \<ge> 0. eps = Finite e)"
    by (cases eps) auto
  show ?thesis
    unfolding validate_rmsnorm_def Let_def f(4,5) g(3,4) h(3,4) andThen_simps rank_def
    using sc eps f(2,3) g(1,2) h(1,2) by (auto split: if_splits)
qed

text \<open>Operands of the two operations: table, indices, output, scale and input.\<close>

definition owner_at :: "tensor_ref \<Rightarrow> usize list \<Rightarrow> usize list \<Rightarrow> DataType \<Rightarrow> usize \<Rightarrow> Tensor" where
  "owner_at i dims strides dt handle = \<lparr>tensor_device = 7,
     full_view = \<lparr>owner_identity = Some i,
       spec = \<lparr>shape = TensorShape dims, data_type = dt, quantization = NONE\<rparr>,
       plane_offset = 0, plane_strides = strides\<rparr>, storage_handle = handle\<rparr>"

lemma owner_at_operand:
  assumes "st i = owner_at i dims strides dt handle"
    and "valid_shape (TensorShape dims)" and "leaf_bits dt = Inr b"
    and "dense_strides_rev 1 (rev (take (length dims - 2) dims)) = Inr (rev strides)" and "handle \<noteq> 0"
    and "tiled_elements (TensorShape dims) * unat b + 7 < 2 ^ 64"
    and "unat handle + packed_bytes (tiled_elements (TensorShape dims) * unat b) < 2 ^ 64"
  shows "derived_operand st 7 i (full_view (st i))"
proof -
  let ?s = "\<lparr>shape = TensorShape dims, data_type = dt, quantization = NONE\<rparr>"
  define n where "n = packed_bytes (tiled_elements (TensorShape dims) * unat b)"
  have sup: "supported_spec ?s" using assms(2,3) by (auto simp: supported_spec_def)
  have bytes: "tiled_storage_nbytes ?s = Inr (of_nat n)"
    using assms(3,6) by (simp add: tiled_storage_nbytes_cases [OF sup] leaf_width_def n_def)
  have made: "make_tensor i ?s 7 handle = Inr (st i)"
    using assms(1,4) sup validate_Inr_iff [of ?s] assms(2)
    by (simp add: make_tensor_def owner_at_def validated_dense_plane_strides_def dense_plane_strides_def
        leading_dimensions_of_def rank_def)
  have fit: "unat handle + unat (of_nat n :: usize) < 2 ^ 64"
    using assms(7) by (subst unat_of_nat_fits) (simp_all add: n_def)
  have "valid_shape (shape ?s)" using assms(2) by simp
  with bytes made fit assms(5) show ?thesis
    unfolding derived_operand_def using derived_view.full [of "st i"] by blast
qed

definition embedding_store :: store where
  "embedding_store = (\<lambda>i.
     if i = 11 then owner_at 11 [10, 6] [] F32 65536
     else if i = 12 then owner_at 12 [2, 1, 4] [1] U32 131072
     else if i = 13 then owner_at 13 [2, 4, 6] [1] F32 196608
     else if i = 14 then owner_at 14 [1, 6] [] F32 262144
     else owner_at i [2, 4, 6] [1] F32 327680)"

lemmas owner_simps = valid_shape_def rank_def checked_mul_cases tiled_elements_def
  leading_def extents_def rows_of_def columns_of_def padded_def packed_bytes_def

lemma embedding_operands:
  "derived_operand embedding_store 7 11 (full_view (embedding_store 11))"
  "derived_operand embedding_store 7 12 (full_view (embedding_store 12))"
  "derived_operand embedding_store 7 13 (full_view (embedding_store 13))"
  "derived_operand embedding_store 7 14 (full_view (embedding_store 14))"
  "derived_operand embedding_store 7 15 (full_view (embedding_store 15))"
  by (rule owner_at_operand [where b = 32], simp add: embedding_store_def, simp_all add: owner_simps)+

lemma embedding_spans:
  "storage_span embedding_store (full_view (embedding_store 11)) = span 65536 1024"
  "storage_span embedding_store (full_view (embedding_store 12)) = span 131072 2048"
  "storage_span embedding_store (full_view (embedding_store 13)) = span 196608 2048"
  by (simp_all add: storage_span_def embedding_store_def owner_at_def sample_simps)

lemma embedding_specs:
  "spec (full_view (embedding_store 11)) = \<lparr>shape = TensorShape [10, 6], data_type = F32, quantization = NONE\<rparr>"
  "spec (full_view (embedding_store 12)) = \<lparr>shape = TensorShape [2, 1, 4], data_type = U32, quantization = NONE\<rparr>"
  "spec (full_view (embedding_store 13)) = \<lparr>shape = TensorShape [2, 4, 6], data_type = F32, quantization = NONE\<rparr>"
  "spec (full_view (embedding_store 14)) = \<lparr>shape = TensorShape [1, 6], data_type = F32, quantization = NONE\<rparr>"
  "spec (full_view (embedding_store 15)) = \<lparr>shape = TensorShape [2, 4, 6], data_type = F32, quantization = NONE\<rparr>"
  by (simp_all add: embedding_store_def owner_at_def)

lemma embedding_admission_witness:
  "validate_embedding embedding_store 7 (full_view (embedding_store 11)) (full_view (embedding_store 12))
     (full_view (embedding_store 13)) = Inr ()"
  unfolding embedding_admission [OF embedding_operands(1-3)] embedding_spans
  by (simp add: embedding_specs owner_simps embedding_index_leaf_def span_def)

lemma rmsnorm_admission_witness:
  "validate_rmsnorm embedding_store 7 (full_view (embedding_store 13)) (full_view (embedding_store 14))
     (full_view (embedding_store 15)) (Finite (1 / 100000)) = Inr ()"
  unfolding rmsnorm_admission [OF embedding_operands(3-5)]
  by (simp add: embedding_specs owner_simps rmsnorm_leaf_def) (rule exI [of _ "1 / 100000"], simp)

section \<open>Rejection\<close>

text \<open>
  C26. A submission that is rejected by the common checks touches nothing: whenever a binary
  operation, cache append, embedding, RMS normalization or copy changes the backend's state or
  returns something other than a negative identifier, the complete validation of its operands has
  succeeded on the queue's device before the hook ran, and where the operation takes a workspace
  the workspace was validated against the operands for the hook's requirements.
\<close>

theorem no_effect_unless_admitted:
  "(fst (submit_binary_operation req impl w operation lhs rhs out workspace s) \<noteq> s
      \<or> \<not> oid_is_error (snd (submit_binary_operation req impl w operation lhs rhs out workspace s)) \<longrightarrow>
    (\<exists>device request r. ops_device w = Some device
      \<and> validate_binary (tensors w) device operation lhs rhs out = Inr request \<and> req request = Inr r
      \<and> workspace_for w device workspace r [lhs, rhs, out] = Inr workspace))
   \<and> (fst (cache_append ca_req ca_impl w x y a workspace s) \<noteq> s
      \<or> \<not> oid_is_error (snd (cache_append ca_req ca_impl w x y a workspace s)) \<longrightarrow>
    (\<exists>device request r. ops_device w = Some device
      \<and> validate_cache_append (tensors w) device x y a = Inr request \<and> ca_req request = Inr r
      \<and> workspace_for w device workspace r [x, y] = Inr workspace))
   \<and> (fst (embedding em_req em_impl w table indices out workspace s) \<noteq> s
      \<or> \<not> oid_is_error (snd (embedding em_req em_impl w table indices out workspace s)) \<longrightarrow>
    (\<exists>device r. ops_device w = Some device
      \<and> validate_embedding (tensors w) device table indices out = Inr () \<and> em_req table indices out = Inr r
      \<and> workspace_for w device workspace r [table, indices, out] = Inr workspace))
   \<and> (fst (rmsnorm supported rms_impl w x y out eps workspace s) \<noteq> s
      \<or> \<not> oid_is_error (snd (rmsnorm supported rms_impl w x y out eps workspace s)) \<longrightarrow>
    (\<exists>device. ops_device w = Some device \<and> validate_rmsnorm (tensors w) device x y out eps = Inr ()
      \<and> supported (data_type (spec x)) \<and> ws_owner workspace = None))
   \<and> (fst (copy copy_impl w x y s) \<noteq> s \<or> \<not> oid_is_error (snd (copy copy_impl w x y s)) \<longrightarrow>
    (\<exists>device. ops_device w = Some device \<and> view_device (tensors w) x = Some device
      \<and> view_device (tensors w) y = Some device \<and> spec x = spec y))"
proof -
  have dev: "queue_device w = Inr device \<longleftrightarrow> ops_device w = Some device" for device
    by (simp add: queue_device_def split: option.splits)
  have ws: "workspace_for w device workspace r vs = Inr u \<longleftrightarrow> u = workspace \<and> workspace_for w device workspace r vs = Inr u"
    for device r vs u
    by (auto simp: workspace_for_def validated_workspace_def Let_def andThen_Inr_iff split: if_splits option.splits)
  have b: "\<exists>device request r. ops_device w = Some device
      \<and> validate_binary (tensors w) device operation lhs rhs out = Inr request \<and> req request = Inr r
      \<and> workspace_for w device workspace r [lhs, rhs, out] = Inr workspace"
    if "\<exists>q. binary_checks req w operation lhs rhs out workspace = Inr q"
    using that ws unfolding binary_checks_def andThen_Inr_iff dev by metis
  have c: "\<exists>device request r. ops_device w = Some device
      \<and> validate_cache_append (tensors w) device x y a = Inr request \<and> ca_req request = Inr r
      \<and> workspace_for w device workspace r [x, y] = Inr workspace"
    if "\<exists>q. cache_append_checks ca_req w x y a workspace = Inr q"
    using that ws unfolding cache_append_checks_def andThen_Inr_iff dev by metis
  have e: "\<exists>device r. ops_device w = Some device
      \<and> validate_embedding (tensors w) device table indices out = Inr () \<and> em_req table indices out = Inr r
      \<and> workspace_for w device workspace r [table, indices, out] = Inr workspace"
    if "\<exists>q. embedding_checks em_req w table indices out workspace = Inr q"
    using that ws unfolding embedding_checks_def andThen_Inr_iff dev old.unit.exhaust by (metis old.unit.exhaust)
  have r: "\<exists>device. ops_device w = Some device \<and> validate_rmsnorm (tensors w) device x y out eps = Inr ()
      \<and> supported (data_type (spec x)) \<and> ws_owner workspace = None"
    if "\<exists>q. rmsnorm_checks supported w x y out eps workspace = Inr q"
    using that unfolding rmsnorm_checks_def andThen_Inr_iff dev by (auto split: if_splits)
  have k: "\<exists>device. ops_device w = Some device \<and> view_device (tensors w) x = Some device
      \<and> view_device (tensors w) y = Some device \<and> spec x = spec y"
    if "\<exists>q. andThen (queue_device w) (\<lambda>device. validate_copy (tensors w) device x y) = Inr q"
    using that unfolding validate_copy_def andThen_Inr_iff dev by (auto simp: split: if_splits)
  show ?thesis
    apply (intro conjI impI)
    subgoal by (rule b) (rule binary_facade.effect_only_if_accepted)
    subgoal by (rule c) (rule cache_append_facade.effect_only_if_accepted)
    subgoal by (rule e) (rule embedding_facade.effect_only_if_accepted)
    subgoal by (rule r) (rule rmsnorm_facade.effect_only_if_accepted)
    subgoal by (rule k) (rule copy_facade.effect_only_if_accepted)
    done
qed

definition count_hook :: "BinaryRequest \<Rightarrow> (nat, oid) backend" where
  "count_hook request n = (n + 1, Inr 1)"

theorem no_effect_unless_admitted_witness:
  "submit_binary_operation default_binary_workspace_requirements count_hook sample_objects Div
     (sample_view 3) (sample_view 4) (sample_view 5) empty_workspace_view 0 = (1, 1)
   \<and> (\<exists>device request. ops_device sample_objects = Some device
      \<and> validate_binary (tensors sample_objects) device Div (sample_view 3) (sample_view 4) (sample_view 5) = Inr request)"
proof -
  have run: "submit_binary_operation default_binary_workspace_requirements count_hook sample_objects Div
     (sample_view 3) (sample_view 4) (sample_view 5) empty_workspace_view 0 = (1, 1)"
    unfolding submit_binary_operation_def
    by (simp add: queue_device_def sample_objects_def [THEN arg_cong, of ops_device] sample_binary workspace_for_def
        validated_workspace_def submission_def count_hook_def
        default_binary_workspace_requirements_def)
  then have ne: "fst (submit_binary_operation default_binary_workspace_requirements count_hook sample_objects Div
     (sample_view 3) (sample_view 4) (sample_view 5) empty_workspace_view 0) \<noteq> 0" by simp
  from no_effect_unless_admitted [THEN conjunct1, THEN mp, OF disjI1, OF ne]
  show ?thesis using run by (elim exE conjE) (intro conjI exI)
qed

end
