(* ===== verification/Neural_Ops.thy ===== *)
theory Neural_Ops
  imports Operations "HOL-Library.Log_Nat"
begin

text \<open>
  The submission facades of the neural operations in \<open>src/src/device_ops_neural.cpp\<close>: linear
  projection, rotary position embedding (rope), scaled dot-product attention (SDPA) and SiLU, with
  their request types in \<open>src/include/iom/iom.hpp\<close>. Validation is modelled completely and in the
  code's order; backend hooks are arguments, as in \<open>Operations\<close>. A conversion to \<open>float\<close> rounds to
  the nearest binary32 value, ties to even, which is the language's default.
\<close>

section \<open>Conversion to binary32\<close>

text \<open>The exponent \<open>e\<close> with \<open>2 ^ e \<le> q < 2 ^ (e + 1)\<close> of a positive rational.\<close>

definition binary_exponent :: "rat \<Rightarrow> int" where
  "binary_exponent q =
     (let (n, d) = quotient_of q;
          e = bitlen n - bitlen d in
      if 2 powi e * of_int d \<le> (of_int n :: rat) then e else e - 1)"

text \<open>Rounding to the nearest integer, ties to even.\<close>

definition round_half_even :: "rat \<Rightarrow> int" where
  "round_half_even q =
     (let f = \<lfloor>q\<rfloor>; r = q - of_int f in
      if r < 1 / 2 then f else if r > 1 / 2 then f + 1 else if even f then f else f + 1)"

definition round_binary32 :: "rat \<Rightarrow> floating" where
  "round_binary32 q =
     (if q = 0 then Finite 0
      else let e = max (binary_exponent \<bar>q\<bar>) (- 126);
               ulp = 2 powi (e - 23);
               r = of_int (round_half_even (\<bar>q\<bar> / ulp)) * ulp in
           if r \<ge> 2 ^ 128 then (if q < 0 then NegInf else PosInf)
           else Finite (if q < 0 then - r else r))"

fun to_float :: "floating \<Rightarrow> floating" where
  "to_float (Finite q) = round_binary32 q"
| "to_float x = x"

definition float_max :: rat where
  "float_max = 340282346638528859811704183484516925440"

section \<open>Linear projection\<close>

text \<open>The enumeration may hold any integer; \<open>UnknownLayout\<close> is every other value.\<close>

datatype LinearOutputLayout = ordinary | head_planar | UnknownLayout int

record LinearViewSnapshot =
  lvs_spec :: TensorSpec
  lvs_device :: "device_ref option"
  lvs_owner :: "tensor_ref option"
  lvs_handle :: "usize option"
  lvs_plane_offset :: usize
  lvs_plane_strides :: "usize list"

record LinearRequest =
  lin_x :: LinearViewSnapshot
  lin_w :: LinearViewSnapshot
  lin_out :: LinearViewSnapshot
  lin_start_row :: usize
  lin_rows :: usize
  lin_layout :: LinearOutputLayout
  lin_heads :: usize
  lin_head_dim :: usize
  lin_workspace :: RawWorkspaceView
  lin_requirements :: WorkspaceRequirements

definition linear_leaf :: "DataType \<Rightarrow> bool" where
  "linear_leaf value =
     (value \<in> {I2, U2, I4, U4, I8, U8, I16, U16, I32, U32, I64, U64, F4_E2M1, F6_E2M3, F6_E3M2,
               F8_E4M3FN, F8_E5M2, F16, BF16, F32, F64})"

definition reject_output_overlap ::
  "store \<Rightarrow> TensorView \<Rightarrow> usize \<Rightarrow> TensorView \<Rightarrow> usize \<Rightarrow> unit throws" where
  "reject_output_overlap = output_overlap_check"

definition snapshot_linear_view :: "store \<Rightarrow> TensorView \<Rightarrow> LinearViewSnapshot" where
  "snapshot_linear_view st view =
     \<lparr>lvs_spec = spec view, lvs_device = view_device st view, lvs_owner = owner_identity view,
      lvs_handle = native_handle st view, lvs_plane_offset = plane_offset view,
      lvs_plane_strides = plane_strides view\<rparr>"

text \<open>The mode relation and the exact output shape; \<open>layout\<close> is one of the two known modes.\<close>

definition linear_output_shape ::
  "LinearOutputLayout \<Rightarrow> usize list \<Rightarrow> usize list \<Rightarrow> usize \<Rightarrow> usize \<Rightarrow> usize \<Rightarrow> usize \<Rightarrow> unit throws" where
  "linear_output_shape layout x_dims out_dims output_features R H D =
     (let x_rank = length x_dims; out_rank = length out_dims in
      if layout = ordinary then
        (if H \<noteq> 1 \<or> D \<noteq> output_features then Inl InvalidArgument
         else if out_rank \<noteq> x_rank \<or> out_dims ! (x_rank - 2) \<noteq> R
           \<or> out_dims ! (x_rank - 1) \<noteq> output_features
         then Inl InvalidArgument else Inr ())
      else andThen (checked_mul H D) (\<lambda>head_elements.
        if head_elements \<noteq> output_features then Inl InvalidArgument
        else if x_rank + 1 > kMaxTensorRank then Inl InvalidArgument
        else if out_rank \<noteq> x_rank + 1 \<or> out_dims ! (x_rank - 2) \<noteq> H
           \<or> out_dims ! (x_rank - 1) \<noteq> R \<or> out_dims ! x_rank \<noteq> D
        then Inl InvalidArgument else Inr ()))"

definition validate_linear ::
  "store \<Rightarrow> device_ref \<Rightarrow> TensorView \<Rightarrow> TensorView \<Rightarrow> TensorView \<Rightarrow> usize \<Rightarrow> usize
     \<Rightarrow> LinearOutputLayout \<Rightarrow> usize \<Rightarrow> usize \<Rightarrow> unit throws" where
  "validate_linear st device x w out s R layout H D =
     andThen (validate_checked_spec (spec x)) (\<lambda>_.
     andThen (validate_checked_spec (spec w)) (\<lambda>_.
     andThen (validate_checked_spec (spec out)) (\<lambda>_.
     if layout \<noteq> ordinary \<and> layout \<noteq> head_planar then Inl InvalidArgument
     else
     let x_dims = dimensions (shape (spec x));
         w_dims = dimensions (shape (spec w));
         out_dims = dimensions (shape (spec out));
         x_rank = length x_dims;
         source_rows = x_dims ! (x_rank - 2);
         input_features = x_dims ! (x_rank - 1) in
     if rank (shape (spec w)) \<noteq> 2 then Inl InvalidArgument
     else let output_features = w_dims ! 0 in
     if w_dims ! 1 \<noteq> input_features then Inl InvalidArgument
     else if H = 0 \<or> D = 0 then Inl InvalidArgument
     else
     andThen (linear_output_shape layout x_dims out_dims output_features R H D) (\<lambda>_.
     if take (x_rank - 2) x_dims \<noteq> take (x_rank - 2) out_dims then Inl InvalidArgument
     else if R = 0 then Inl InvalidArgument
     else if s > source_rows then Inl InvalidArgument
     else if R > source_rows - s then Inl InvalidArgument
     else
     andThen (validate_checked_view st device x) (\<lambda>x_facts.
     andThen (validate_checked_view st device w) (\<lambda>w_facts.
     andThen (validate_checked_view st device out) (\<lambda>out_facts.
     andThen (reject_output_overlap st out (storage_bytes out_facts) x (storage_bytes x_facts)) (\<lambda>_.
     andThen (reject_output_overlap st out (storage_bytes out_facts) w (storage_bytes w_facts)) (\<lambda>_.
     if data_type (spec x) \<noteq> data_type (spec w) \<or> data_type (spec x) \<noteq> data_type (spec out)
        \<or> quantization (spec x) \<noteq> quantization (spec w)
        \<or> quantization (spec x) \<noteq> quantization (spec out)
     then Inl UnsupportedOperation
     else if quantization (spec x) \<noteq> NONE \<or> \<not> linear_leaf (data_type (spec x))
     then Inl UnsupportedOperation else Inr ())))))))))"

type_synonym 'a linear_hook =
  "TensorView \<Rightarrow> TensorView \<Rightarrow> TensorView \<Rightarrow> usize \<Rightarrow> usize \<Rightarrow> LinearOutputLayout \<Rightarrow> usize \<Rightarrow> usize \<Rightarrow> 'a"

definition linear ::
  "WorkspaceRequirements throws linear_hook \<Rightarrow> (LinearRequest \<Rightarrow> ('s, oid) backend) \<Rightarrow> Objects
     \<Rightarrow> TensorView \<Rightarrow> TensorView \<Rightarrow> TensorView \<Rightarrow> usize \<Rightarrow> usize \<Rightarrow> LinearOutputLayout \<Rightarrow> usize \<Rightarrow> usize
     \<Rightarrow> RawWorkspaceView \<Rightarrow> 's \<Rightarrow> 's \<times> oid" where
  "linear linear_workspace_requirements_impl linear_impl ob x w out s R layout H D workspace =
     submission (andThen (queue_device ob) (\<lambda>device.
       andThen (validate_linear (tensors ob) device x w out s R layout H D) (\<lambda>_.
       andThen (linear_workspace_requirements_impl x w out s R layout H D) (\<lambda>requirements.
       andThen (workspace_for ob device workspace requirements [x, w, out]) (\<lambda>validated.
       Inr (linear_impl
         \<lparr>lin_x = snapshot_linear_view (tensors ob) x, lin_w = snapshot_linear_view (tensors ob) w,
          lin_out = snapshot_linear_view (tensors ob) out, lin_start_row = s, lin_rows = R,
          lin_layout = layout, lin_heads = H, lin_head_dim = D, lin_workspace = validated,
          lin_requirements = requirements\<rparr>))))))"

definition linear_workspace_requirements ::
  "WorkspaceRequirements throws linear_hook \<Rightarrow> Objects
     \<Rightarrow> TensorView \<Rightarrow> TensorView \<Rightarrow> TensorView \<Rightarrow> usize \<Rightarrow> usize \<Rightarrow> LinearOutputLayout \<Rightarrow> usize \<Rightarrow> usize
     \<Rightarrow> WorkspaceRequirements throws" where
  "linear_workspace_requirements linear_workspace_requirements_impl ob x w out s R layout H D =
     andThen (queue_device ob) (\<lambda>device.
     andThen (validate_linear (tensors ob) device x w out s R layout H D) (\<lambda>_.
     linear_workspace_requirements_impl x w out s R layout H D))"

section \<open>Rotary position embedding\<close>

definition kRopeMaxPosition :: usize where
  "kRopeMaxPosition = 2 ^ 24 - 1"

definition kRopeWorkspaceRequirements :: WorkspaceRequirements where
  "kRopeWorkspaceRequirements = \<lparr>req_bytes = 0, req_alignment = 1\<rparr>"

definition rope_leaf :: "DataType \<Rightarrow> bool" where
  "rope_leaf value =
     (value \<in> {F4_E2M1, F6_E2M3, F6_E3M2, F8_E4M3FN, F8_E5M2, F16, BF16, F32, F64})"

definition reject_rope_output_overlap ::
  "store \<Rightarrow> TensorView \<Rightarrow> CheckedViewFacts \<Rightarrow> TensorView \<Rightarrow> CheckedViewFacts \<Rightarrow> unit throws" where
  "reject_rope_output_overlap st out out_facts input input_facts =
     output_overlap_check st out (storage_bytes out_facts) input (storage_bytes input_facts)"

record RopeValidationFacts =
  rvf_x :: CheckedViewFacts
  rvf_out :: CheckedViewFacts

text \<open>The operation-owned products, all checked and none of them used.\<close>

definition rope_products :: "usize list \<Rightarrow> DataType \<Rightarrow> unit throws" where
  "rope_products x_dims dt =
     (let rank = length x_dims;
          heads = x_dims ! (rank - 3); rows = x_dims ! (rank - 2); width = x_dims ! (rank - 1) in
      andThen (checked_product 1 (take (rank - 3) x_dims)) (\<lambda>leading_planes.
      andThen (checked_mul leading_planes heads) (\<lambda>plane_count.
      andThen (checked_mul rows width) (\<lambda>row_width.
      andThen (checked_mul plane_count row_width) (\<lambda>logical_elements.
      let half_width = width div 2 in
      andThen (checked_mul rows half_width) (\<lambda>row_pairs.
      andThen (checked_mul plane_count row_pairs) (\<lambda>_.
      andThen (padded_extent rows) (\<lambda>padded_rows.
      andThen (padded_extent width) (\<lambda>padded_width.
      andThen (checked_mul padded_rows padded_width) (\<lambda>padded_plane.
      andThen (checked_mul plane_count padded_plane) (\<lambda>_.
      andThen (leaf_bits dt) (\<lambda>bits.
      andThen (checked_mul logical_elements bits) (\<lambda>_. Inr ())))))))))))))"

definition validate_rope ::
  "store \<Rightarrow> device_ref \<Rightarrow> TensorView \<Rightarrow> TensorView \<Rightarrow> usize \<Rightarrow> floating \<Rightarrow> RopeValidationFacts throws" where
  "validate_rope st device x out a theta =
     andThen (validate_checked_spec (spec x)) (\<lambda>_.
     andThen (validate_checked_spec (spec out)) (\<lambda>_.
     let x_dims = dimensions (shape (spec x));
         out_dims = dimensions (shape (spec out));
         rank = length x_dims in
     if rank < 3 \<or> rank > kMaxTensorRank \<or> length out_dims \<noteq> rank then Inl InvalidArgument
     else if x_dims \<noteq> out_dims then Inl InvalidArgument
     else
     let heads = x_dims ! (rank - 3); rows = x_dims ! (rank - 2); width = x_dims ! (rank - 1) in
     if heads = 0 \<or> rows = 0 \<or> width = 0 then Inl InvalidArgument
     else if width AND 1 \<noteq> 0 then Inl InvalidArgument
     else
     andThen (validate_checked_view st device x) (\<lambda>x_facts.
     andThen (validate_checked_view st device out) (\<lambda>out_facts.
     andThen (rope_products x_dims (data_type (spec x))) (\<lambda>_.
     andThen (checked_add a (rows - 1)) (\<lambda>last_position.
     if last_position > kRopeMaxPosition then Inl InvalidArgument
     else if \<not> isfinite (to_float (Finite (of_nat (unat last_position)))) then Inl OverflowError
     else
     andThen (reject_rope_output_overlap st out out_facts x x_facts) (\<lambda>_.
     if \<not> isfinite theta \<or> fp_less theta (Finite 1) \<or> fp_less (Finite float_max) theta
     then Inl InvalidArgument
     else if \<not> isfinite (to_float theta) \<or> fp_less (to_float theta) (Finite 1) then Inl OverflowError
     else if data_type (spec x) \<noteq> data_type (spec out) \<or> quantization (spec x) \<noteq> quantization (spec out)
     then Inl InvalidArgument
     else if quantization (spec x) \<noteq> NONE \<or> \<not> rope_leaf (data_type (spec x))
     then Inl UnsupportedOperation
     else Inr \<lparr>rvf_x = x_facts, rvf_out = out_facts\<rparr>)))))))"

text \<open>Rope and SDPA snapshots have the same fields.\<close>

record RopeViewSnapshot =
  rs_rank :: nat
  rs_dimensions :: "usize list"
  rs_plane_strides :: "usize list"
  rs_plane_offset :: usize
  rs_data_type :: DataType
  rs_quantization :: QuantizationFormat
  rs_device :: "device_ref option"
  rs_owner :: "tensor_ref option"
  rs_handle :: "usize option"
  rs_max_plane :: usize
  rs_addressed_bytes :: usize
  rs_storage_bytes :: usize
  rs_logical_bytes :: usize

definition snapshot_rope_view :: "store \<Rightarrow> TensorView \<Rightarrow> CheckedViewFacts \<Rightarrow> RopeViewSnapshot" where
  "snapshot_rope_view st view facts =
     \<lparr>rs_rank = rank (shape (spec view)),
      rs_dimensions = filled_array 8 (dimensions (shape (spec view))),
      rs_plane_strides = filled_array 6 (plane_strides view),
      rs_plane_offset = plane_offset view, rs_data_type = data_type (spec view),
      rs_quantization = quantization (spec view), rs_device = view_device st view,
      rs_owner = owner_identity view, rs_handle = native_handle st view,
      rs_max_plane = max_plane facts, rs_addressed_bytes = addressed_bytes facts,
      rs_storage_bytes = storage_bytes facts, rs_logical_bytes = logical_bytes facts\<rparr>"

record RopeRequest =
  rope_x :: RopeViewSnapshot
  rope_out :: RopeViewSnapshot
  rope_a :: usize
  rope_theta :: floating
  rope_workspace :: RawWorkspaceView
  rope_requirements :: WorkspaceRequirements

definition rope_capability_request ::
  "store \<Rightarrow> TensorView \<Rightarrow> TensorView \<Rightarrow> RopeValidationFacts \<Rightarrow> usize \<Rightarrow> floating \<Rightarrow> RopeRequest" where
  "rope_capability_request st x out validation a theta =
     \<lparr>rope_x = snapshot_rope_view st x (rvf_x validation),
      rope_out = snapshot_rope_view st out (rvf_out validation), rope_a = a, rope_theta = theta,
      rope_workspace = empty_workspace_view, rope_requirements = \<lparr>req_bytes = 0, req_alignment = 1\<rparr>\<rparr>"

definition rope ::
  "(RopeRequest \<Rightarrow> WorkspaceRequirements throws) \<Rightarrow> (RopeRequest \<Rightarrow> ('s, oid) backend) \<Rightarrow> Objects
     \<Rightarrow> TensorView \<Rightarrow> TensorView \<Rightarrow> usize \<Rightarrow> floating \<Rightarrow> RawWorkspaceView \<Rightarrow> 's \<Rightarrow> 's \<times> oid" where
  "rope rope_workspace_requirements_hook rope_impl ob x out a theta workspace =
     submission (andThen (queue_device ob) (\<lambda>device.
       andThen (validate_rope (tensors ob) device x out a theta) (\<lambda>validation.
       let capability_request = rope_capability_request (tensors ob) x out validation a theta in
       andThen (rope_workspace_requirements_hook capability_request) (\<lambda>requirements.
       if requirements \<noteq> kRopeWorkspaceRequirements then Inl InvalidArgument
       else if ws_owner workspace \<noteq> None then Inl InvalidArgument
       else andThen (workspace_for ob device workspace requirements [x, out]) (\<lambda>validated.
       Inr (rope_impl (capability_request\<lparr>rope_workspace := validated, rope_requirements := requirements\<rparr>)))))))"

definition rope_workspace_requirements ::
  "(RopeRequest \<Rightarrow> WorkspaceRequirements throws) \<Rightarrow> Objects \<Rightarrow> TensorView \<Rightarrow> TensorView \<Rightarrow> usize
     \<Rightarrow> floating \<Rightarrow> WorkspaceRequirements throws" where
  "rope_workspace_requirements rope_workspace_requirements_hook ob x out a theta =
     andThen (queue_device ob) (\<lambda>device.
     andThen (validate_rope (tensors ob) device x out a theta) (\<lambda>validation.
     andThen (rope_workspace_requirements_hook (rope_capability_request (tensors ob) x out validation a theta))
       (\<lambda>requirements.
     if requirements \<noteq> kRopeWorkspaceRequirements then Inl InvalidArgument else Inr requirements)))"

section \<open>SiLU\<close>

definition kSiluWorkspaceRequirements :: WorkspaceRequirements where
  "kSiluWorkspaceRequirements = \<lparr>req_bytes = 0, req_alignment = 1\<rparr>"

definition silu_leaf :: "DataType \<Rightarrow> bool" where
  "silu_leaf value =
     (value \<in> {F4_E2M1, F6_E2M3, F6_E3M2, F8_E4M3FN, F8_E5M2, F16, BF16, F32, F64})"

definition reject_silu_overlap ::
  "store \<Rightarrow> TensorView \<Rightarrow> usize \<Rightarrow> TensorView \<Rightarrow> usize \<Rightarrow> unit throws" where
  "reject_silu_overlap st out out_bytes input input_bytes =
     (if owner_identity out = owner_identity input then Inl InvalidArgument
      else case checked_backing_range_relation (the (native_handle st out)) out_bytes
             (the (native_handle st input)) input_bytes of
        overflow \<Rightarrow> Inl OverflowError
      | overlap \<Rightarrow> Inl InvalidArgument
      | disjoint \<Rightarrow> Inr ())"

text \<open>\<open>validate_checked_spec\<close> of the owner's full view, where there is an owner.\<close>

definition validate_owner_spec :: "store \<Rightarrow> TensorView \<Rightarrow> unit throws" where
  "validate_owner_spec st view =
     (case owner_identity view of
        None \<Rightarrow> Inr () | Some owner \<Rightarrow> validate_checked_spec (spec (full_view (st owner))))"

definition validate_silu :: "store \<Rightarrow> device_ref \<Rightarrow> TensorView \<Rightarrow> TensorView \<Rightarrow> unit throws" where
  "validate_silu st device x y =
     andThen (validate_checked_spec (spec x)) (\<lambda>_.
     andThen (validate_checked_spec (spec y)) (\<lambda>_.
     if shape (spec x) \<noteq> shape (spec y) then Inl InvalidArgument
     else if data_type (spec x) \<noteq> data_type (spec y) \<or> quantization (spec x) \<noteq> quantization (spec y)
     then Inl InvalidArgument
     else
     andThen (validate_owner_spec st x) (\<lambda>_.
     andThen (if owner_identity y \<noteq> owner_identity x then validate_owner_spec st y else Inr ()) (\<lambda>_.
     andThen (validate_checked_view st device x) (\<lambda>x_facts.
     andThen (validate_checked_view st device y) (\<lambda>y_facts.
     andThen (reject_silu_overlap st y (storage_bytes y_facts) x (storage_bytes x_facts)) (\<lambda>_.
     if quantization (spec x) \<noteq> NONE \<or> \<not> silu_leaf (data_type (spec x))
     then Inl UnsupportedOperation else Inr ())))))))"

definition validate_silu_requirements :: "WorkspaceRequirements \<Rightarrow> unit throws" where
  "validate_silu_requirements requirements =
     (if requirements \<noteq> kSiluWorkspaceRequirements then Inl InvalidArgument else Inr ())"

record SiLUViewSnapshot =
  ss_rank :: nat
  ss_dimensions :: "usize list"
  ss_plane_strides :: "usize list"
  ss_plane_offset :: usize
  ss_data_type :: DataType
  ss_quantization :: QuantizationFormat
  ss_device :: "device_ref option"
  ss_owner :: "tensor_ref option"
  ss_handle :: "usize option"

definition snapshot_silu_view :: "store \<Rightarrow> TensorView \<Rightarrow> SiLUViewSnapshot" where
  "snapshot_silu_view st view =
     \<lparr>ss_rank = rank (shape (spec view)),
      ss_dimensions = filled_array 8 (dimensions (shape (spec view))),
      ss_plane_strides = filled_array 8 (plane_strides view),
      ss_plane_offset = plane_offset view, ss_data_type = data_type (spec view),
      ss_quantization = quantization (spec view), ss_device = view_device st view,
      ss_owner = owner_identity view, ss_handle = native_handle st view\<rparr>"

record SiLURequest =
  silu_x :: SiLUViewSnapshot
  silu_y :: SiLUViewSnapshot
  silu_requirements :: WorkspaceRequirements

definition silu ::
  "(SiLURequest \<Rightarrow> WorkspaceRequirements throws) \<Rightarrow> (SiLURequest \<Rightarrow> ('s, oid) backend) \<Rightarrow> Objects
     \<Rightarrow> TensorView \<Rightarrow> TensorView \<Rightarrow> RawWorkspaceView \<Rightarrow> 's \<Rightarrow> 's \<times> oid" where
  "silu silu_workspace_requirements_impl silu_impl ob x y workspace =
     submission (andThen (queue_device ob) (\<lambda>device.
       andThen (validate_silu (tensors ob) device x y) (\<lambda>_.
       let request = \<lparr>silu_x = snapshot_silu_view (tensors ob) x, silu_y = snapshot_silu_view (tensors ob) y,
             silu_requirements = kSiluWorkspaceRequirements\<rparr> in
       andThen (silu_workspace_requirements_impl request) (\<lambda>requirements.
       andThen (validate_silu_requirements requirements) (\<lambda>_.
       Inr (silu_impl (request\<lparr>silu_requirements := requirements\<rparr>)))))))"

definition silu_workspace_requirements ::
  "(SiLURequest \<Rightarrow> WorkspaceRequirements throws) \<Rightarrow> Objects \<Rightarrow> TensorView \<Rightarrow> TensorView
     \<Rightarrow> WorkspaceRequirements throws" where
  "silu_workspace_requirements silu_workspace_requirements_impl ob x y =
     andThen (queue_device ob) (\<lambda>device.
     andThen (validate_silu (tensors ob) device x y) (\<lambda>_.
     andThen (silu_workspace_requirements_impl
       \<lparr>silu_x = snapshot_silu_view (tensors ob) x, silu_y = snapshot_silu_view (tensors ob) y,
        silu_requirements = kSiluWorkspaceRequirements\<rparr>) (\<lambda>requirements.
     andThen (validate_silu_requirements requirements) (\<lambda>_. Inr requirements))))"

section \<open>Scaled dot-product attention\<close>

definition sdpa_current_leaf :: "DataType \<Rightarrow> bool" where
  "sdpa_current_leaf value = (value = BF16)"

definition reject_sdpa_output_overlap ::
  "store \<Rightarrow> TensorView \<Rightarrow> CheckedViewFacts \<Rightarrow> TensorView \<Rightarrow> CheckedViewFacts \<Rightarrow> unit throws" where
  "reject_sdpa_output_overlap st out out_facts input input_facts =
     output_overlap_check st out (storage_bytes out_facts) input (storage_bytes input_facts)"

record SdpaViewSnapshot =
  sv_rank :: nat
  sv_dimensions :: "usize list"
  sv_plane_strides :: "usize list"
  sv_plane_offset :: usize
  sv_data_type :: DataType
  sv_quantization :: QuantizationFormat
  sv_device :: "device_ref option"
  sv_owner :: "tensor_ref option"
  sv_handle :: "usize option"
  sv_max_plane :: usize
  sv_addressed_bytes :: usize
  sv_storage_bytes :: usize
  sv_logical_bytes :: usize

definition snapshot_sdpa_view :: "store \<Rightarrow> TensorView \<Rightarrow> CheckedViewFacts \<Rightarrow> SdpaViewSnapshot" where
  "snapshot_sdpa_view st view facts =
     \<lparr>sv_rank = length (dimensions (shape (spec view))),
      sv_dimensions = filled_array 8 (dimensions (shape (spec view))),
      sv_plane_strides = filled_array 6 (plane_strides view),
      sv_plane_offset = plane_offset view, sv_data_type = data_type (spec view),
      sv_quantization = quantization (spec view), sv_device = view_device st view,
      sv_owner = owner_identity view, sv_handle = native_handle st view,
      sv_max_plane = max_plane facts, sv_addressed_bytes = addressed_bytes facts,
      sv_storage_bytes = storage_bytes facts, sv_logical_bytes = logical_bytes facts\<rparr>"

record SdpaRequest =
  sdpa_q :: SdpaViewSnapshot
  sdpa_k :: SdpaViewSnapshot
  sdpa_v :: SdpaViewSnapshot
  sdpa_out :: SdpaViewSnapshot
  sdpa_a :: usize
  sdpa_L :: usize
  sdpa_Hq :: usize
  sdpa_Hkv :: usize
  sdpa_R :: usize
  sdpa_C :: usize
  sdpa_D :: usize
  sdpa_grouping :: usize
  sdpa_output_width :: usize
  sdpa_workspace :: RawWorkspaceView
  sdpa_requirements :: WorkspaceRequirements

text \<open>
  The host-known structure: ranks, equal key and value shapes, leading tuples, heads, output shape,
  initialized length and causal window. The result is the checked output width.
\<close>

definition sdpa_structure ::
  "usize list \<Rightarrow> usize list \<Rightarrow> usize list \<Rightarrow> usize list \<Rightarrow> usize \<Rightarrow> usize \<Rightarrow> usize throws" where
  "sdpa_structure q_dims k_dims v_dims out_dims a L =
     (let q_rank = length q_dims; out_rank = length out_dims in
      if q_rank < 3 \<or> q_rank > 8 \<or> length k_dims \<noteq> q_rank \<or> length v_dims \<noteq> q_rank
         \<or> out_rank < 2 \<or> out_rank > 7 \<or> out_rank + 1 \<noteq> q_rank
      then Inl InvalidArgument
      else if k_dims \<noteq> v_dims then Inl InvalidArgument
      else
      let leading_rank = q_rank - 3 in
      if take leading_rank q_dims \<noteq> take leading_rank k_dims
         \<or> take leading_rank q_dims \<noteq> take leading_rank out_dims
      then Inl InvalidArgument
      else
      let Hq = q_dims ! (q_rank - 3); R = q_dims ! (q_rank - 2); D = q_dims ! (q_rank - 1);
          Hkv = k_dims ! (q_rank - 3); C = k_dims ! (q_rank - 2) in
      if Hq = 0 \<or> Hkv = 0 \<or> R = 0 \<or> C = 0 \<or> D = 0 then Inl InvalidArgument
      else if Hq mod Hkv \<noteq> 0 then Inl InvalidArgument
      else andThen (checked_mul Hq D) (\<lambda>output_width.
      if out_dims ! (out_rank - 2) \<noteq> R \<or> out_dims ! (out_rank - 1) \<noteq> output_width
      then Inl InvalidArgument
      else if L = 0 \<or> L > C then Inl InvalidArgument
      else if a \<ge> C then Inl InvalidArgument
      else let available_rows = C - a in
      if R > available_rows then Inl InvalidArgument
      else Inr output_width))"

text \<open>The repeated products, of which only the causal positions are used, and the visible window.\<close>

definition sdpa_bytes :: "usize list \<Rightarrow> usize list \<Rightarrow> usize list \<Rightarrow> usize list
     \<Rightarrow> DataType \<Rightarrow> DataType \<Rightarrow> DataType \<Rightarrow> DataType \<Rightarrow> unit throws" where
  "sdpa_bytes q_dims k_dims v_dims out_dims q_type k_type v_type out_type =
     andThen (checked_product 1 q_dims) (\<lambda>q_elements.
     andThen (checked_product 1 k_dims) (\<lambda>k_elements.
     andThen (checked_product 1 v_dims) (\<lambda>v_elements.
     andThen (checked_product 1 out_dims) (\<lambda>out_elements.
     andThen (leaf_bits q_type) (\<lambda>q_leaf.
     andThen (checked_mul q_elements q_leaf) (\<lambda>q_bits.
     andThen (leaf_bits k_type) (\<lambda>k_leaf.
     andThen (checked_mul k_elements k_leaf) (\<lambda>k_bits.
     andThen (leaf_bits v_type) (\<lambda>v_leaf.
     andThen (checked_mul v_elements v_leaf) (\<lambda>v_bits.
     andThen (leaf_bits out_type) (\<lambda>out_leaf.
     andThen (checked_mul out_elements out_leaf) (\<lambda>out_bits.
     andThen (bits_to_bytes q_bits) (\<lambda>_.
     andThen (bits_to_bytes k_bits) (\<lambda>_.
     andThen (bits_to_bytes v_bits) (\<lambda>_.
     andThen (bits_to_bytes out_bits) (\<lambda>_. Inr ()))))))))))))))))"

definition sdpa_window ::
  "usize list \<Rightarrow> usize list \<Rightarrow> usize \<Rightarrow> usize \<Rightarrow> unit throws" where
  "sdpa_window q_dims k_dims a L =
     (let q_rank = length q_dims;
          Hq = q_dims ! (q_rank - 3); R = q_dims ! (q_rank - 2); D = q_dims ! (q_rank - 1);
          Hkv = k_dims ! (q_rank - 3); C = k_dims ! (q_rank - 2) in
      andThen (checked_product 1 (take (q_rank - 3) q_dims)) (\<lambda>leading_planes.
      andThen (checked_mul leading_planes Hq) (\<lambda>_.
      andThen (checked_mul leading_planes Hkv) (\<lambda>_.
      andThen (checked_mul Hq R) (\<lambda>q_rows.
      andThen (checked_mul q_rows D) (\<lambda>_.
      andThen (checked_mul Hkv C) (\<lambda>kv_rows.
      andThen (checked_mul kv_rows D) (\<lambda>_.
      andThen (checked_mul Hq L) (\<lambda>_.
      andThen (checked_add a (R - 1)) (\<lambda>last_query_position.
      andThen (checked_add a 1) (\<lambda>first_row_visible_count.
      let visible_count = (if L < first_row_visible_count then L else first_row_visible_count) in
      if visible_count = 0 \<or> last_query_position \<ge> C then Inl InvalidArgument else Inr ())))))))))))"

definition validate_sdpa ::
  "store \<Rightarrow> device_ref \<Rightarrow> TensorView \<Rightarrow> TensorView \<Rightarrow> TensorView \<Rightarrow> TensorView \<Rightarrow> usize \<Rightarrow> usize
     \<Rightarrow> SdpaRequest throws" where
  "validate_sdpa st device q k v out a L =
     andThen (validate_checked_spec (spec q)) (\<lambda>_.
     andThen (validate_checked_spec (spec k)) (\<lambda>_.
     andThen (validate_checked_spec (spec v)) (\<lambda>_.
     andThen (validate_checked_spec (spec out)) (\<lambda>_.
     let q_dims = dimensions (shape (spec q)); k_dims = dimensions (shape (spec k));
         v_dims = dimensions (shape (spec v)); out_dims = dimensions (shape (spec out));
         q_rank = length q_dims in
     andThen (sdpa_structure q_dims k_dims v_dims out_dims a L) (\<lambda>output_width.
     andThen (validate_owner_spec st q) (\<lambda>_.
     andThen (validate_owner_spec st k) (\<lambda>_.
     andThen (validate_owner_spec st v) (\<lambda>_.
     andThen (validate_owner_spec st out) (\<lambda>_.
     andThen (validate_checked_view st device q) (\<lambda>q_facts.
     andThen (validate_checked_view st device k) (\<lambda>k_facts.
     andThen (validate_checked_view st device v) (\<lambda>v_facts.
     andThen (validate_checked_view st device out) (\<lambda>out_facts.
     andThen (sdpa_bytes q_dims k_dims v_dims out_dims (data_type (spec q)) (data_type (spec k))
       (data_type (spec v)) (data_type (spec out))) (\<lambda>_.
     andThen (sdpa_window q_dims k_dims a L) (\<lambda>_.
     if data_type (spec q) \<noteq> data_type (spec k) \<or> data_type (spec q) \<noteq> data_type (spec v)
        \<or> data_type (spec q) \<noteq> data_type (spec out) \<or> quantization (spec q) \<noteq> quantization (spec k)
        \<or> quantization (spec q) \<noteq> quantization (spec v) \<or> quantization (spec q) \<noteq> quantization (spec out)
     then Inl InvalidArgument
     else if quantization (spec q) \<noteq> NONE then Inl UnsupportedOperation
     else
     andThen (reject_sdpa_output_overlap st out out_facts q q_facts) (\<lambda>_.
     andThen (reject_sdpa_output_overlap st out out_facts k k_facts) (\<lambda>_.
     andThen (reject_sdpa_output_overlap st out out_facts v v_facts) (\<lambda>_.
     if \<not> sdpa_current_leaf (data_type (spec q)) then Inl UnsupportedOperation
     else
     let Hq = q_dims ! (q_rank - 3); Hkv = k_dims ! (q_rank - 3) in
     Inr \<lparr>sdpa_q = snapshot_sdpa_view st q q_facts, sdpa_k = snapshot_sdpa_view st k k_facts,
          sdpa_v = snapshot_sdpa_view st v v_facts, sdpa_out = snapshot_sdpa_view st out out_facts,
          sdpa_a = a, sdpa_L = L, sdpa_Hq = Hq, sdpa_Hkv = Hkv, sdpa_R = q_dims ! (q_rank - 2),
          sdpa_C = k_dims ! (q_rank - 2), sdpa_D = q_dims ! (q_rank - 1), sdpa_grouping = Hq div Hkv,
          sdpa_output_width = output_width, sdpa_workspace = empty_workspace_view,
          sdpa_requirements = \<lparr>req_bytes = 0, req_alignment = 1\<rparr>\<rparr>))))))))))))))))))"

definition sdpa ::
  "(SdpaRequest \<Rightarrow> WorkspaceRequirements throws) \<Rightarrow> (SdpaRequest \<Rightarrow> ('s, oid) backend) \<Rightarrow> Objects
     \<Rightarrow> TensorView \<Rightarrow> TensorView \<Rightarrow> TensorView \<Rightarrow> TensorView \<Rightarrow> usize \<Rightarrow> usize \<Rightarrow> RawWorkspaceView
     \<Rightarrow> 's \<Rightarrow> 's \<times> oid" where
  "sdpa sdpa_workspace_requirements_impl sdpa_impl ob q k v out a L workspace =
     submission (andThen (queue_device ob) (\<lambda>device.
       andThen (validate_sdpa (tensors ob) device q k v out a L) (\<lambda>request.
       andThen (sdpa_workspace_requirements_impl request) (\<lambda>requirements.
       if req_alignment requirements = 0 then Inl InvalidArgument
       else andThen (workspace_for ob device workspace requirements [q, k, v, out]) (\<lambda>validated.
       Inr (sdpa_impl (request\<lparr>sdpa_workspace := validated, sdpa_requirements := requirements\<rparr>)))))))"

definition sdpa_workspace_requirements ::
  "(SdpaRequest \<Rightarrow> WorkspaceRequirements throws) \<Rightarrow> Objects
     \<Rightarrow> TensorView \<Rightarrow> TensorView \<Rightarrow> TensorView \<Rightarrow> TensorView \<Rightarrow> usize \<Rightarrow> usize \<Rightarrow> WorkspaceRequirements throws" where
  "sdpa_workspace_requirements sdpa_workspace_requirements_impl ob q k v out a L =
     andThen (queue_device ob) (\<lambda>device.
     andThen (validate_sdpa (tensors ob) device q k v out a L) (\<lambda>request.
     andThen (sdpa_workspace_requirements_impl request) (\<lambda>requirements.
     if req_alignment requirements = 0 then Inl InvalidArgument else Inr requirements)))"

section \<open>The conversion stays in range\<close>

lemma bitlen_pos_bounds:
  assumes "0 < n"
  shows "(2 :: rat) powi (bitlen n - 1) \<le> of_int n" and "of_int n < (2 :: rat) powi bitlen n"
proof -
  have b: "2 ^ nat (bitlen n - 1) \<le> n" "n < 2 ^ nat (bitlen n)" using bitlen_bounds [OF assms] by simp_all
  have p: "0 < bitlen n" using assms by (simp add: bitlen_def floorlog_eq_zero_iff neq0_conv [symmetric])
  have "(of_int (2 ^ nat (bitlen n - 1)) :: rat) \<le> of_int n" "(of_int n :: rat) < of_int (2 ^ nat (bitlen n))"
    using b by (simp_all only: of_int_le_iff of_int_less_iff)
  then show "(2 :: rat) powi (bitlen n - 1) \<le> of_int n" "of_int n < (2 :: rat) powi bitlen n"
    using p by (simp_all add: power_int_def)
qed

lemma binary_exponent_bounds:
  assumes "0 < q"
  shows "2 powi binary_exponent q \<le> q" and "q < 2 powi (binary_exponent q + 1)"
proof -
  obtain n d where nd: "quotient_of q = (n, d)" by fastforce
  have d: "0 < d" using quotient_of_denom_pos [OF nd] .
  have q: "q = of_int n / of_int d" using quotient_of_div [OF nd] .
  then have n: "0 < n" using assms d by (simp add: zero_less_divide_iff)
  define bn bd where "bn = bitlen n" and "bd = bitlen d"
  note N = bitlen_pos_bounds [OF n, folded bn_def] and D = bitlen_pos_bounds [OF d, folded bd_def]
  have d': "(0 :: rat) < of_int d" using d by simp
  have lo: "2 powi (bn - bd - 1) \<le> q"
  proof -
    have "2 powi (bn - bd - 1) * of_int d \<le> (2 :: rat) powi (bn - bd - 1) * 2 powi bd" using D(2) by simp
    also have "\<dots> = 2 powi (bn - 1)" by (simp add: power_int_add [symmetric])
    also have "\<dots> \<le> of_int n" by (rule N(1))
    finally show ?thesis using d' by (simp add: q pos_le_divide_eq)
  qed
  have hi: "q < 2 powi (bn - bd + 1)"
  proof -
    have "of_int n < (2 :: rat) powi bn" by (rule N(2))
    also have "\<dots> = 2 powi (bn - bd + 1) * 2 powi (bd - 1)" by (simp add: power_int_add [symmetric])
    also have "\<dots> \<le> 2 powi (bn - bd + 1) * of_int d" using D(1) by simp
    finally show ?thesis using d' by (simp add: q pos_divide_less_eq)
  qed
  have test: "2 powi (bn - bd) * of_int d \<le> (of_int n :: rat) \<longleftrightarrow> 2 powi (bn - bd) \<le> q"
    using d' by (simp add: q pos_le_divide_eq)
  have e: "binary_exponent q = (if 2 powi (bn - bd) \<le> q then bn - bd else bn - bd - 1)"
    unfolding binary_exponent_def nd by (simp add: bn_def [symmetric] bd_def [symmetric] test Let_def)
  show "2 powi binary_exponent q \<le> q" "q < 2 powi (binary_exponent q + 1)"
    using lo hi by (auto simp: e)
qed

lemma round_half_even_bounds:
  "of_int m \<le> q \<Longrightarrow> m \<le> round_half_even q" "q \<le> of_int m \<Longrightarrow> round_half_even q \<le> m"
proof -
  show "m \<le> round_half_even q" if "of_int m \<le> q"
  proof -
    have "m \<le> \<lfloor>q\<rfloor>" using that by (simp add: le_floor_iff)
    then show ?thesis by (simp add: round_half_even_def Let_def)
  qed
  show "round_half_even q \<le> m" if "q \<le> of_int m"
  proof (cases "q = of_int \<lfloor>q\<rfloor>")
    case True
    then have "of_int \<lfloor>q\<rfloor> \<le> (of_int m :: rat)" using that by simp
    then have "\<lfloor>q\<rfloor> \<le> m" by (simp only: of_int_le_iff)
    then show ?thesis using True by (simp add: round_half_even_def Let_def)
  next
    case False
    then have "of_int \<lfloor>q\<rfloor> < (of_int m :: rat)" using that of_int_floor_le [of q] by linarith
    then have "\<lfloor>q\<rfloor> < m" by (simp only: of_int_less_iff)
    then show ?thesis by (simp add: round_half_even_def Let_def)
  qed
qed

lemma round_binary32_range:
  assumes "1 \<le> q" and "q \<le> float_max"
  shows "\<exists>r. round_binary32 q = Finite r \<and> 1 \<le> r \<and> r \<le> float_max"
proof -
  define e where "e = binary_exponent q"
  have b: "2 powi e \<le> q" "q < 2 powi (e + 1)" using binary_exponent_bounds [of q] assms by (simp_all add: e_def)
  have e0: "0 \<le> e"
  proof (rule ccontr)
    assume "\<not> 0 \<le> e"
    then have "(2 :: rat) powi (e + 1) \<le> 2 powi 0" by (intro power_int_increasing) simp_all
    with b(2) assms(1) show False by simp
  qed
  have e1: "e \<le> 127"
  proof (rule ccontr)
    assume "\<not> e \<le> 127"
    then have "(2 :: rat) powi 128 \<le> 2 powi e" by (intro power_int_increasing) simp_all
    then have "(2 :: rat) powi 128 \<le> float_max" using b(1) assms(2) by linarith
    then show False by (simp add: float_max_def)
  qed
  define ulp where "ulp = (2 :: rat) powi (e - 23)"
  have u: "0 < ulp" by (simp add: ulp_def)
  have p: "(2 :: rat) powi e = 2 ^ 23 * ulp" "(2 :: rat) powi (e + 1) = 2 ^ 24 * ulp"
    using power_int_add [of "2 :: rat" 23 "e - 23"] power_int_add [of "2 :: rat" 24 "e - 23"]
    by (simp_all add: ulp_def add.commute)
  define m where "m = round_half_even (q / ulp)"
  have lo: "2 ^ 23 \<le> m" unfolding m_def
    by (rule round_half_even_bounds(1)) (use b(1) p(1) u in \<open>simp add: pos_le_divide_eq\<close>)
  have hi: "of_int m * ulp \<le> float_max"
  proof (cases "e = 127")
    case True
    have ulp: "ulp = 2 ^ 104" by (simp add: ulp_def True)
    have "q / ulp \<le> of_int (2 ^ 24 - 1)" using assms(2) by (simp add: ulp float_max_def pos_divide_le_eq)
    then have "m \<le> 2 ^ 24 - 1" unfolding m_def by (rule round_half_even_bounds(2))
    then have "(of_int m :: rat) \<le> of_int (2 ^ 24 - 1)" by (simp only: of_int_le_iff)
    then show ?thesis by (simp add: ulp float_max_def)
  next
    case False
    have "q / ulp \<le> of_int (2 ^ 24)" using b(2) p(2) u by (simp add: pos_divide_le_eq)
    then have "m \<le> 2 ^ 24" unfolding m_def by (rule round_half_even_bounds(2))
    then have "(of_int m :: rat) \<le> of_int (2 ^ 24)" by (simp only: of_int_le_iff)
    then have "of_int m * ulp \<le> 2 powi (e + 1)" using u by (simp add: p(2))
    also have "\<dots> \<le> 2 powi 127" using False e1 by (intro power_int_increasing) simp_all
    finally show ?thesis by (simp add: float_max_def)
  qed
  have "(of_int (2 ^ 23) :: rat) \<le> of_int m" using lo by (simp only: of_int_le_iff)
  then have "2 powi e \<le> of_int m * ulp" using u by (simp add: p(1))
  moreover have "(2 :: rat) powi 0 \<le> 2 powi e" using e0 by (intro power_int_increasing) simp_all
  ultimately have r1: "1 \<le> of_int m * ulp" by simp
  have "of_int m * ulp < 2 ^ 128" using hi by (simp add: float_max_def)
  moreover have "max (binary_exponent \<bar>q\<bar>) (- 126) = e" "\<bar>q\<bar> = q" "q \<noteq> 0" "\<not> q < 0"
    using assms(1) e0 by (simp_all add: e_def)
  ultimately have "round_binary32 q = Finite (of_int m * ulp)"
    by (simp add: round_binary32_def Let_def m_def ulp_def)
  with r1 hi show ?thesis by blast
qed

lemma narrowing_ok:
  assumes "isfinite theta" and "\<not> fp_less theta (Finite 1)" and "\<not> fp_less (Finite float_max) theta"
  shows "isfinite (to_float theta) \<and> \<not> fp_less (to_float theta) (Finite 1)"
proof -
  obtain q where q: "theta = Finite q" using assms(1) by (cases theta) auto
  then have "1 \<le> q" "q \<le> float_max" using assms(2,3) by simp_all
  then show ?thesis using round_binary32_range [of q] q by auto
qed

lemma position_narrowing_ok:
  assumes "n < 2 ^ 24"
  shows "isfinite (to_float (Finite (of_nat n)))"
proof (cases "n = 0")
  case False
  have "(of_nat n :: rat) < of_nat (2 ^ 24)" using assms by (simp only: of_nat_less_iff)
  then have "(of_nat n :: rat) \<le> float_max" by (simp add: float_max_def)
  moreover have "(1 :: rat) \<le> of_nat n" using False by simp
  ultimately show ?thesis using round_binary32_range [of "of_nat n"] by auto
qed (simp add: round_binary32_def)

section \<open>Products of derived operands\<close>

text \<open>Every product the validators form from the extents of a derived view fits.\<close>

lemma derived_products:
  assumes "derived_operand st device i v"
  obtains bits where "leaf_bits (data_type (spec v)) = Inr bits" and "0 < unat bits"
    and "valid_shape (shape (spec v))" and "quantization (spec v) = NONE"
    and "prod_list (map unat (dimensions (shape (spec v)))) * unat bits + 7 < 2 ^ 64"
    and "prod_list (lead_extents v) * (padded (rows_of (shape (spec v))) * padded (columns_of (shape (spec v)))) < 2 ^ 64"
    and "0 < prod_list (lead_extents v)"
    and "0 < prod_list (map unat (dimensions (shape (spec v))))"
proof -
  obtain s n where s: "supported_spec s" "same_matrix (spec v) s" "valid_shape (shape (spec v))"
      "quantization (spec v) = NONE" "tiled_storage_nbytes s = Inr n"
      "prod_list (lead_extents v) \<le> prod_list (leading (shape s))"
    using derived_operand_facts [OF assms] by metis
  have sv: "valid_shape (shape s)" using s(1) by (simp add: supported_spec_def)
  note same = same_matrix_facts [OF s(3) sv s(2)]
  obtain bits where bits: "leaf_bits (data_type (spec v)) = Inr bits" "unat bits = leaf_width s"
    using s(1,2) by (auto simp: supported_spec_def same_matrix_def leaf_width_def)
  have big: "tiled_elements (shape s) * leaf_width s + 7 < 2 ^ 64"
    using s(5) by (auto simp: tiled_storage_nbytes_cases [OF s(1)] split: if_splits)
  let ?pad = "prod_list (lead_extents v) * (padded (rows_of (shape (spec v))) * padded (columns_of (shape (spec v))))"
  have pad: "?pad \<le> tiled_elements (shape s)"
    using s(6) unfolding tiled_elements_def same(1,2) by (rule mult_le_mono1)
  have "prod_list (map unat (dimensions (shape (spec v))))
      = prod_list (lead_extents v) * (rows_of (shape (spec v)) * columns_of (shape (spec v)))"
    using logical_elements_alt [OF s(3)] by (simp add: logical_elements_def lead_extents_def extents_def)
  also have "\<dots> \<le> ?pad" by (intro mult_le_mono padded_ge order_refl)
  finally have "prod_list (map unat (dimensions (shape (spec v)))) * leaf_width s \<le> tiled_elements (shape s) * leaf_width s"
    using pad by (intro mult_le_mono1) linarith
  then have "prod_list (map unat (dimensions (shape (spec v)))) * unat bits + 7 < 2 ^ 64"
    unfolding bits(2) using big by linarith
  moreover have "?pad < 2 ^ 64" using pad tiled_storage_fits(1) [OF s(1,5)] by linarith
  moreover have "0 < prod_list (lead_extents v)" using prod_list_pos lead_extents_nonzero [OF s(3)] by blast
  moreover have "0 < prod_list (map unat (dimensions (shape (spec v))))"
    using s(3) by (intro prod_list_pos) (auto simp: valid_shape_def unat_eq_0)
  moreover have "0 < unat bits" using leaf_bits_range [OF bits(1)] by simp
  ultimately show thesis using that [OF bits(1)] s(3,4) by blast
qed

text \<open>The last three extents of a shape of rank three or more.\<close>

lemma list_split_last3:
  assumes "3 \<le> length xs"
  shows "xs = take (length xs - 3) xs @ [xs ! (length xs - 3), xs ! (length xs - 2), xs ! (length xs - 1)]"
proof -
  have "xs = take (length xs - 2) xs @ [xs ! (length xs - 2), xs ! (length xs - 1)]"
    using assms by (intro list_split_last2) simp
  moreover have "take (length xs - 2) xs = take (length xs - 3) xs @ [xs ! (length xs - 3)]"
    using assms take_Suc_conv_app_nth [of "length xs - 3" xs] by (simp add: Suc_diff_le [symmetric] numeral_eq_Suc)
  ultimately show ?thesis by simp
qed

lemma mult_le_factor: "0 < b \<Longrightarrow> a \<le> a * (b :: nat)" "0 < b \<Longrightarrow> a \<le> b * (a :: nat)"
  by simp_all

lemma rope_products_ok:
  assumes op: "derived_operand st device i v" and rank: "3 \<le> length (dimensions (shape (spec v)))"
  shows "rope_products (dimensions (shape (spec v))) (data_type (spec v)) = Inr ()"
proof -
  let ?d = "dimensions (shape (spec v))"
  let ?h = "?d ! (length ?d - 3)" and ?r = "?d ! (length ?d - 2)" and ?c = "?d ! (length ?d - 1)"
  define A where "A = prod_list (map unat (take (length ?d - 3) ?d))"
  define P where "P = A * unat ?h"
  obtain bits where bits: "leaf_bits (data_type (spec v)) = Inr bits" "0 < unat bits"
    and valid: "valid_shape (shape (spec v))"
    and fit: "prod_list (map unat ?d) * unat bits + 7 < 2 ^ 64"
    and pad: "prod_list (lead_extents v) * (padded (rows_of (shape (spec v))) * padded (columns_of (shape (spec v)))) < 2 ^ 64"
    and pos: "0 < prod_list (lead_extents v)" "0 < prod_list (map unat ?d)"
    using derived_products [OF op] by metis
  have "map unat ?d = map unat (take (length ?d - 3) ?d @ [?h, ?r, ?c])" using list_split_last3 [OF rank] by simp
  then have "prod_list (map unat ?d) = prod_list (map unat (take (length ?d - 3) ?d @ [?h, ?r, ?c]))" by simp
  then have prod: "prod_list (map unat ?d) = P * (unat ?r * unat ?c)" by (simp add: A_def P_def mult.assoc)
  have rc: "unat ?r = rows_of (shape (spec v))" "unat ?c = columns_of (shape (spec v))"
    using rank by (simp_all add: rows_of_def columns_of_def extents_def rank_def)
  have lead: "prod_list (lead_extents v) = P"
  proof -
    have "take (length ?d - 2) ?d = take (length ?d - 3) ?d @ [?h]"
      using rank take_Suc_conv_app_nth [of "length ?d - 3" ?d] by (simp add: Suc_diff_le [symmetric] numeral_eq_Suc)
    then have "map unat (take (length ?d - 2) ?d) = map unat (take (length ?d - 3) ?d) @ [unat ?h]" by simp
    moreover have "lead_extents v = map unat (take (length ?d - 2) ?d)"
      by (simp add: lead_extents_def leading_def extents_def rank_def take_map)
    ultimately show ?thesis by (simp add: P_def A_def del: map_append take_map)
  qed
  define PR where "PR = padded (unat ?r)"
  define PC where "PC = padded (unat ?c)"
  have pad': "P * (PR * PC) < 2 ^ 64" using pad lead rc by (simp add: PR_def PC_def)
  have pos': "0 < P" "0 < unat ?r" "0 < unat ?c" "0 < unat ?h" "0 < A" using pos prod lead by (simp_all add: P_def)
  have pp: "0 < PR" "0 < PC" using pos' padded_pos by (simp_all add: PR_def PC_def)
  have elems: "P * (unat ?r * unat ?c) * unat bits < 2 ^ 64" using fit prod by simp
  have le: "P * (unat ?r * unat ?c) \<le> P * (unat ?r * unat ?c) * unat bits" using bits(2) by simp
  have e2: "P * (unat ?r * unat ?c) < 2 ^ 64" using elems le by linarith
  have "unat ?r * unat ?c \<le> P * (unat ?r * unat ?c)" "P \<le> P * (unat ?r * unat ?c)" "A \<le> P"
    using pos' by (simp_all add: P_def)
  then have f1: "unat ?r * unat ?c < 2 ^ 64" "P < 2 ^ 64" "A < 2 ^ 64" using e2 by linarith+
  have half: "unat ?r * (unat ?c div 2) \<le> unat ?r * unat ?c" by (intro mult_le_mono2) simp
  then have "P * (unat ?r * (unat ?c div 2)) \<le> P * (unat ?r * unat ?c)" by (rule mult_le_mono2)
  then have f2: "unat ?r * (unat ?c div 2) < 2 ^ 64" "P * (unat ?r * (unat ?c div 2)) < 2 ^ 64"
    using half f1(1) e2 by linarith+
  have "PR * PC \<le> P * (PR * PC)" "PR \<le> PR * PC" "PC \<le> PR * PC" using pos' pp by simp_all
  then have f3: "PR * PC < 2 ^ 64" "PR < 2 ^ 64" "PC < 2 ^ 64" using pad' by linarith+
  have nz: "0 \<notin> set (take (length ?d - 3) ?d)" using valid by (auto simp: valid_shape_def dest: in_set_takeD)
  obtain l where l: "checked_product 1 (take (length ?d - 3) ?d) = Inr l" "unat l = A"
    using checked_product_Inr [OF nz, of 1 "of_nat A"] f1(3) by (auto simp: unat_of_nat_fits A_def)
  obtain pc where pc: "checked_mul l ?h = Inr pc" "unat pc = P"
    using checked_mul_ex [OF l(2) refl, of ?h] f1(2) by (auto simp: P_def)
  obtain rw where rw: "checked_mul ?r ?c = Inr rw" "unat rw = unat ?r * unat ?c"
    using checked_mul_ex [OF refl refl f1(1)] by blast
  obtain el where el: "checked_mul pc rw = Inr el" "unat el = P * (unat ?r * unat ?c)"
    using checked_mul_ex [OF pc(2) rw(2) e2] by blast
  have h2: "unat (?c div 2) = unat ?c div 2" by (simp add: unat_div)
  obtain rp where rp: "checked_mul ?r (?c div 2) = Inr rp" "unat rp = unat ?r * (unat ?c div 2)"
    using checked_mul_ex [OF refl h2 f2(1)] by blast
  obtain pr where pr: "checked_mul pc rp = Inr pr" using checked_mul_ex [OF pc(2) rp(2) f2(2)] by blast
  obtain a where a: "padded_extent ?r = Inr a" "unat a = PR"
    using padded_extent_Inr [of ?r "of_nat PR"] f3(2) by (auto simp: unat_of_nat_fits PR_def)
  obtain b where b: "padded_extent ?c = Inr b" "unat b = PC"
    using padded_extent_Inr [of ?c "of_nat PC"] f3(3) by (auto simp: unat_of_nat_fits PC_def)
  obtain ab where ab: "checked_mul a b = Inr ab" "unat ab = PR * PC" using checked_mul_ex [OF a(2) b(2) f3(1)] by blast
  obtain pab where pab: "checked_mul pc ab = Inr pab" using checked_mul_ex [OF pc(2) ab(2) pad'] by blast
  obtain eb where eb: "checked_mul el bits = Inr eb" using checked_mul_ex [OF el(2) refl elems] by blast
  show ?thesis
    unfolding rope_products_def Let_def
    by (simp only: l(1) pc(1) rw(1) el(1) rp(1) pr a(1) b(1) ab(1) pab bits(1) eb andThen_simps)
qed

lemma even_width: "(w :: usize) AND 1 = 0 \<longleftrightarrow> even (unat w)"
proof -
  have "w AND 1 = 0 \<longleftrightarrow> unat (w AND 1) = 0" by (simp add: unat_eq_0)
  also have "unat (w AND 1) = unat w mod 2"
    using unsigned_and_eq [of w 1, where ?'a = nat] by (simp add: and_one_eq)
  finally show ?thesis by presburger
qed

lemma last_extent:
  assumes "valid_shape s"
  shows "unat (dimensions s ! (length (dimensions s) - 1)) = columns_of s"
    and "unat (dimensions s ! (length (dimensions s) - 2)) = rows_of s"
  using assms by (auto simp: valid_shape_def rank_def columns_of_def rows_of_def extents_def)

section \<open>Properties\<close>

text \<open>
  C34. Rope is accepted exactly when it should be, for derived operands: equal shapes of rank at
  least three, an even width, a last position of at most \<open>2 ^ 24 - 1\<close>, an output owner and storage
  apart from the input, one floating-point type, and a \<open>theta\<close> between 1 and the largest binary32
  value. The two branches that report a failed narrowing to \<open>float\<close> are never taken, and no product
  overflows.
\<close>

theorem rope_admission:
  assumes "derived_operand st device i x" and "derived_operand st device k out"
  shows "(\<exists>facts. validate_rope st device x out a theta = Inr facts
      \<and> validate_checked_view st device x = Inr (rvf_x facts) \<and> validate_checked_view st device out = Inr (rvf_out facts))
    \<longleftrightarrow> 3 \<le> rank (shape (spec x)) \<and> shape (spec x) = shape (spec out) \<and> even (columns_of (shape (spec x)))
      \<and> unat a + rows_of (shape (spec x)) \<le> 2 ^ 24 \<and> k \<noteq> i \<and> storage_span st out \<inter> storage_span st x = {}
      \<and> (\<exists>t. theta = Finite t \<and> 1 \<le> t \<and> t \<le> float_max)
      \<and> data_type (spec x) = data_type (spec out) \<and> rope_leaf (data_type (spec x))"
    (is "?L \<longleftrightarrow> ?R")
proof -
  obtain f where f: "valid_shape (shape (spec x))" "quantization (spec x) = NONE"
      "validate_checked_spec (spec x) = Inr ()" "validate_checked_view st device x = Inr f"
    using derived_operand_facts [OF assms(1)] by metis
  obtain g where g: "valid_shape (shape (spec out))" "quantization (spec out) = NONE"
      "validate_checked_spec (spec out) = Inr ()" "validate_checked_view st device out = Inr g"
    using derived_operand_facts [OF assms(2)] by metis
  let ?d = "dimensions (shape (spec x))" and ?o = "dimensions (shape (spec out))"
  let ?r = "?d ! (length ?d - 2)" and ?c = "?d ! (length ?d - 1)" and ?h = "?d ! (length ?d - 3)"
  have len: "2 \<le> length ?d" "length ?d \<le> 8" and nz: "0 \<notin> set ?d"
    using f(1) by (simp_all add: valid_shape_def rank_def)
  have mem: "?h \<noteq> 0" "?r \<noteq> 0" "?c \<noteq> 0" using len nz by (metis nth_mem diff_less zero_less_numeral less_le_trans zero_less_one)+
  note ext = last_extent [OF f(1)]
  have rpos: "0 < unat ?r" using mem(2) by (simp add: unat_gt_0)
  have r1: "unat (?r - 1) = unat ?r - 1" using mem(2) by (simp add: unat_minus_one)
  have kmax: "unat kRopeMaxPosition = 2 ^ 24 - 1" by (simp add: kRopeMaxPosition_def)
  have pos: "(case checked_add a (?r - 1) of Inl _ \<Rightarrow> False | Inr p \<Rightarrow> \<not> p > kRopeMaxPosition)
      \<longleftrightarrow> unat a + rows_of (shape (spec x)) \<le> 2 ^ 24"
  proof (cases "unat a + unat (?r - 1) < 2 ^ 64")
    case True
    then show ?thesis
      using checked_add_ok [OF True] rpos r1 ext(2) kmax by (auto simp: word_less_nat_alt not_less)
  next
    case False
    then show ?thesis using r1 ext(2) by (auto simp: checked_add_cases)
  qed
  have shapes: "shape (spec x) = shape (spec out) \<longleftrightarrow> ?d = ?o"
    by (cases "shape (spec x)"; cases "shape (spec out)") simp
  note ov = output_overlap_check_iff [OF assms(2,1) g(4) f(4)]
  have theta: "isfinite theta \<and> \<not> fp_less theta (Finite 1) \<and> \<not> fp_less (Finite float_max) theta
      \<longleftrightarrow> (\<exists>t. theta = Finite t \<and> 1 \<le> t \<and> t \<le> float_max)"
    by (cases theta) auto
  show ?thesis
  proof
    assume ?L
    then obtain facts where "validate_rope st device x out a theta = Inr facts" by blast
    then have "\<not> (length ?d < 3 \<or> length ?d > kMaxTensorRank \<or> length ?o \<noteq> length ?d) \<and> \<not> ?d \<noteq> ?o
      \<and> \<not> ?c AND 1 \<noteq> 0 \<and> (\<exists>p. checked_add a (?r - 1) = Inr p \<and> \<not> p > kRopeMaxPosition)
      \<and> (\<exists>u. output_overlap_check st out (storage_bytes g) x (storage_bytes f) = Inr u)
      \<and> \<not> (\<not> isfinite theta \<or> fp_less theta (Finite 1) \<or> fp_less (Finite float_max) theta)
      \<and> \<not> (data_type (spec x) \<noteq> data_type (spec out) \<or> quantization (spec x) \<noteq> quantization (spec out))
      \<and> \<not> (quantization (spec x) \<noteq> NONE \<or> \<not> rope_leaf (data_type (spec x)))"
      unfolding validate_rope_def Let_def f(3,4) g(3,4) andThen_simps reject_rope_output_overlap_def
        andThen_Inr_iff guard_Inr_iff
      by (elim exE conjE) (intro conjI exI; assumption)
    then have L: "\<not> length ?d < 3" "?d = ?o" "?c AND 1 = 0"
      "\<exists>p. checked_add a (?r - 1) = Inr p \<and> \<not> p > kRopeMaxPosition"
      "\<exists>u. output_overlap_check st out (storage_bytes g) x (storage_bytes f) = Inr u"
      "isfinite theta \<and> \<not> fp_less theta (Finite 1) \<and> \<not> fp_less (Finite float_max) theta"
      "data_type (spec x) = data_type (spec out)" "rope_leaf (data_type (spec x))"
      by blast+
    have "even (columns_of (shape (spec x)))" using L(3) even_width [of ?c] ext(1) by simp
    moreover have "unat a + rows_of (shape (spec x)) \<le> 2 ^ 24" using L(4) pos by (metis sum.case(2))
    moreover have "3 \<le> rank (shape (spec x))" using L(1) by (simp add: rank_def)
    moreover have "shape (spec x) = shape (spec out)" using L(2) shapes by blast
    moreover have "k \<noteq> i \<and> storage_span st out \<inter> storage_span st x = {}" using L(5) ov by simp
    ultimately show ?R using L(6,7,8) theta by blast
  next
    assume R: ?R
    then have R1: "3 \<le> rank (shape (spec x))" "shape (spec x) = shape (spec out)" "even (columns_of (shape (spec x)))"
      "unat a + rows_of (shape (spec x)) \<le> 2 ^ 24" "k \<noteq> i \<and> storage_span st out \<inter> storage_span st x = {}"
      "\<exists>t. theta = Finite t \<and> 1 \<le> t \<and> t \<le> float_max"
      "data_type (spec x) = data_type (spec out)" "rope_leaf (data_type (spec x))" by blast+
    have rk: "3 \<le> length ?d" using R1(1) by (simp only: rank_def)
    obtain p where p: "checked_add a (?r - 1) = Inr p" "\<not> p > kRopeMaxPosition"
      using pos R1(4) by (cases "checked_add a (?r - 1)") auto
    then have "unat p < 2 ^ 24" using kmax by (simp add: word_less_nat_alt)
    note narrow = position_narrowing_ok [OF this]
    have th: "isfinite theta" "\<not> fp_less theta (Finite 1)" "\<not> fp_less (Finite float_max) theta"
      using theta R1(6) by blast+
    note nth = narrowing_ok [OF th]
    have ev: "?c AND 1 = 0" using R1(3) even_width [of ?c] ext(1) by simp
    have o: "output_overlap_check st out (storage_bytes g) x (storage_bytes f) = Inr ()" using ov R1(5) by blast
    have d: "?o = ?d" using shapes R1(2) by simp
    have g1: "\<not> (length ?d < 3 \<or> length ?d > kMaxTensorRank \<or> length ?d \<noteq> length ?d)"
      "\<not> (?h = 0 \<or> ?r = 0 \<or> ?c = 0)" using rk len mem by simp_all
    have "validate_rope st device x out a theta = Inr \<lparr>rvf_x = f, rvf_out = g\<rparr>"
      unfolding validate_rope_def Let_def f(3,4) g(3,4) andThen_simps reject_rope_output_overlap_def o
        rope_products_ok [OF assms(1) rk] p(1) d if_not_P [OF g1(1)] if_not_P [OF g1(2)]
      using R1(7,8) p(2) narrow th nth ev f(2) g(2) by simp
    then show ?L using f(4) g(4) by simp
  qed
qed

lemma derived_owner_spec:
  assumes "derived_operand st device i v"
  shows "validate_owner_spec st v = Inr ()"
proof -
  have "derived_operand st device i (full_view (st i))"
    using assms derived_view.full unfolding derived_operand_def by blast
  then have "validate_checked_spec (spec (full_view (st i))) = Inr ()" by (rule derived_operand_facts)
  moreover have "owner_identity v = Some i" using derived_operand_facts [OF assms] by metis
  ultimately show ?thesis by (simp add: validate_owner_spec_def)
qed

lemma reject_silu_overlap_iff:
  assumes "derived_operand st device i out" and "derived_operand st device j input"
    and "validate_checked_view st device out = Inr f" and "validate_checked_view st device input = Inr g"
  shows "reject_silu_overlap st out (storage_bytes f) input (storage_bytes g) = Inr ()
    \<longleftrightarrow> i \<noteq> j \<and> storage_span st out \<inter> storage_span st input = {}"
  using derived_spans [OF assms] by (auto simp: reject_silu_overlap_def)

text \<open>
  SiLU is accepted exactly when it should be, for derived operands: equal shapes, one
  floating-point type, and an output apart from the input.
\<close>

lemma silu_admission:
  assumes "derived_operand st device i x" and "derived_operand st device k y"
  shows "validate_silu st device x y = Inr () \<longleftrightarrow>
      shape (spec x) = shape (spec y) \<and> data_type (spec x) = data_type (spec y) \<and> silu_leaf (data_type (spec x))
      \<and> k \<noteq> i \<and> storage_span st y \<inter> storage_span st x = {}"
proof -
  obtain f where f: "quantization (spec x) = NONE"
      "validate_checked_spec (spec x) = Inr ()" "validate_checked_view st device x = Inr f"
    using derived_operand_facts [OF assms(1)] by metis
  obtain g where g: "quantization (spec y) = NONE"
      "validate_checked_spec (spec y) = Inr ()" "validate_checked_view st device y = Inr g"
    using derived_operand_facts [OF assms(2)] by metis
  have own: "(if owner_identity y \<noteq> owner_identity x then validate_owner_spec st y else Inr ()) = Inr ()"
    using derived_owner_spec [OF assms(2)] by simp
  show ?thesis
    unfolding validate_silu_def f(2,3) g(2,3) own derived_owner_spec [OF assms(1)] andThen_simps
    using reject_silu_overlap_iff [OF assms(2,1) g(3) f(3)] f(1) g(1)
    by (auto simp: andThen_Inr_iff guard_Inr_iff)
qed

section \<open>Linear projection admission\<close>

lemma shape_ends2:
  assumes "2 \<le> length xd" and "2 \<le> length od"
  shows "length od = length xd \<and> od ! (length xd - 2) = r \<and> od ! (length xd - 1) = c
      \<and> take (length xd - 2) xd = take (length xd - 2) od
    \<longleftrightarrow> od = take (length xd - 2) xd @ [r, c]" (is "?A \<longleftrightarrow> ?B")
proof
  assume A: ?A
  then show ?B using list_split_last2 [OF assms(2)] by metis
next
  assume B: ?B
  then have "length od = length (take (length xd - 2) xd @ [r, c])" by simp
  then have l: "length od = length xd" using assms(1) by simp
  have n: "length (take (length xd - 2) xd) = length xd - 2" by simp
  have "od ! (length xd - 2) = r" using B n by (metis nth_append_length)
  moreover have "length xd - 1 = length (take (length xd - 2) xd) + 1" using assms(1) by simp
  then have "od ! (length xd - 1) = c" using B nth_append_length_plus [of "take (length xd - 2) xd" "[r, c]" 1] by simp
  moreover have "take (length xd - 2) xd = take (length xd - 2) od" using B by (metis append_eq_conv_conj n)
  ultimately show ?A using l by simp
qed

lemma shape_ends3:
  assumes "2 \<le> length xd" and "2 \<le> length od"
  shows "length od = length xd + 1 \<and> od ! (length xd - 2) = h \<and> od ! (length xd - 1) = r \<and> od ! length xd = c
      \<and> take (length xd - 2) xd = take (length xd - 2) od
    \<longleftrightarrow> od = take (length xd - 2) xd @ [h, r, c]" (is "?A \<longleftrightarrow> ?B")
proof
  assume A: ?A
  then have l: "3 \<le> length od" "length od - 3 = length xd - 2" "length od - 2 = length xd - 1" "length od - 1 = length xd"
    using assms(1) by simp_all
  show ?B using list_split_last3 [OF l(1)] A unfolding l(2-4) by metis
next
  assume B: ?B
  then have "length od = length (take (length xd - 2) xd @ [h, r, c])" by simp
  then have l: "length od = length xd + 1" using assms(1) by simp
  have n: "length (take (length xd - 2) xd) = length xd - 2" by simp
  have "od ! (length xd - 2) = h" using B n by (metis nth_append_length)
  moreover have i: "length xd - 1 = length (take (length xd - 2) xd) + 1"
    "length xd = length (take (length xd - 2) xd) + 2" using assms(1) by simp_all
  have "od ! (length xd - 1) = r" "od ! length xd = c"
    using B nth_append_length_plus [of "take (length xd - 2) xd" "[h, r, c]" 1, folded i(1)]
      nth_append_length_plus [of "take (length xd - 2) xd" "[h, r, c]" 2, folded i(2)] by simp_all
  moreover have "take (length xd - 2) xd = take (length xd - 2) od" using B by (metis append_eq_conv_conj n)
  ultimately show ?A using l by simp
qed

text \<open>The output geometry of the two modes, over the exact extents.\<close>

definition linear_geometry ::
  "LinearOutputLayout \<Rightarrow> TensorShape \<Rightarrow> TensorShape \<Rightarrow> TensorShape \<Rightarrow> nat \<Rightarrow> nat \<Rightarrow> nat \<Rightarrow> bool" where
  "linear_geometry layout x w out R H D \<longleftrightarrow>
     layout = ordinary \<and> H = 1 \<and> D = rows_of w \<and> extents out = leading x @ [R, rows_of w]
   \<or> layout = head_planar \<and> H * D = rows_of w \<and> extents out = leading x @ [H, R, D]"

lemma linear_output_shape_iff:
  assumes x: "valid_shape x" and w: "valid_shape w" "rank w = 2" and out: "valid_shape out"
  shows "(layout = ordinary \<or> layout = head_planar) \<and> H \<noteq> 0 \<and> D \<noteq> 0
      \<and> linear_output_shape layout (dimensions x) (dimensions out) (dimensions w ! 0) R H D = Inr ()
      \<and> take (length (dimensions x) - 2) (dimensions x) = take (length (dimensions x) - 2) (dimensions out)
    \<longleftrightarrow> linear_geometry layout x w out (unat R) (unat H) (unat D)"
proof -
  let ?x = "dimensions x" and ?o = "dimensions out" and ?O = "dimensions w ! 0"
  have len: "2 \<le> length ?x" "2 \<le> length ?o" "length ?o \<le> 8" using x out by (simp_all add: valid_shape_def rank_def)
  have O: "rows_of w = unat ?O" using w by (simp add: rows_of_def extents_def rank_def)
  have Opos: "0 < unat ?O" using rows_columns_pos(1) [OF w(1)] O by simp
  have lead: "leading x = map unat (take (length ?x - 2) ?x)" by (simp add: leading_def extents_def rank_def take_map)
  have e2: "extents out = leading x @ [unat R, rows_of w] \<longleftrightarrow> ?o = take (length ?x - 2) ?x @ [R, ?O]"
    using unat_list_eq [of ?o "take (length ?x - 2) ?x @ [R, ?O]"] by (simp add: extents_def lead O)
  have e3: "extents out = leading x @ [unat H, unat R, unat D] \<longleftrightarrow> ?o = take (length ?x - 2) ?x @ [H, R, D]"
    using unat_list_eq [of ?o "take (length ?x - 2) ?x @ [H, R, D]"] by (simp add: extents_def lead)
  have one: "H = 1 \<longleftrightarrow> unat H = 1" by (metis unat_1 word_unat_eq_iff)
  have D: "D = ?O \<longleftrightarrow> unat D = rows_of w" by (simp add: O word_unat_eq_iff)
  have mul: "(\<exists>e. checked_mul H D = Inr e \<and> e = ?O) \<longleftrightarrow> unat H * unat D = rows_of w"
    using checked_mul_Inr [of H D ?O] O by auto
  have nz: "unat H * unat D = rows_of w \<Longrightarrow> H \<noteq> 0 \<and> D \<noteq> 0" using Opos O by auto
  have r8: "length ?o = length ?x + 1 \<Longrightarrow> \<not> length ?x + 1 > kMaxTensorRank" using len(3) by simp
  have nz1: "H = 1 \<Longrightarrow> H \<noteq> 0" "D = ?O \<Longrightarrow> D \<noteq> 0" using Opos by auto
  show ?thesis
  proof (cases layout)
    case ordinary
    then show ?thesis
      unfolding linear_geometry_def linear_output_shape_def Let_def e2
      using shape_ends2 [OF len(1,2), of R ?O] one D nz1 by (simp add: guard_Inr_iff) blast
  next
    case head_planar
    then have "linear_output_shape layout ?x ?o ?O R H D = Inr () \<longleftrightarrow>
        unat H * unat D = rows_of w \<and> \<not> length ?x + 1 > kMaxTensorRank \<and> length ?o = length ?x + 1
        \<and> ?o ! (length ?x - 2) = H \<and> ?o ! (length ?x - 1) = R \<and> ?o ! length ?x = D"
      unfolding linear_output_shape_def Let_def using mul by (auto simp: andThen_Inr_iff guard_Inr_iff)
    then show ?thesis
      unfolding linear_geometry_def e3
      using shape_ends3 [OF len(1,2), of H R D] head_planar nz r8 by (simp del: One_nat_def) blast
  qed (simp add: linear_geometry_def)
qed

text \<open>
  Linear projection is accepted exactly when it should be, for derived operands: a rank-two
  weight whose input width is the input's, the output geometry of the requested mode (an unknown
  mode is never accepted), a nonempty row window inside the input's rows, an output apart from
  both inputs, and one numeric type. The window test cannot wrap.
\<close>

lemma linear_admission:
  assumes "derived_operand st device i x" and "derived_operand st device j w" and "derived_operand st device k out"
  shows "validate_linear st device x w out s R layout H D = Inr () \<longleftrightarrow>
      rank (shape (spec w)) = 2 \<and> columns_of (shape (spec w)) = columns_of (shape (spec x))
      \<and> linear_geometry layout (shape (spec x)) (shape (spec w)) (shape (spec out)) (unat R) (unat H) (unat D)
      \<and> R \<noteq> 0 \<and> unat s + unat R \<le> rows_of (shape (spec x))
      \<and> k \<noteq> i \<and> k \<noteq> j \<and> storage_span st out \<inter> storage_span st x = {} \<and> storage_span st out \<inter> storage_span st w = {}
      \<and> data_type (spec x) = data_type (spec w) \<and> data_type (spec x) = data_type (spec out)
      \<and> linear_leaf (data_type (spec x))"
proof -
  obtain f where f: "valid_shape (shape (spec x))" "quantization (spec x) = NONE"
      "validate_checked_spec (spec x) = Inr ()" "validate_checked_view st device x = Inr f"
    using derived_operand_facts [OF assms(1)] by metis
  obtain g where g: "valid_shape (shape (spec w))" "quantization (spec w) = NONE"
      "validate_checked_spec (spec w) = Inr ()" "validate_checked_view st device w = Inr g"
    using derived_operand_facts [OF assms(2)] by metis
  obtain h where h: "valid_shape (shape (spec out))" "quantization (spec out) = NONE"
      "validate_checked_spec (spec out) = Inr ()" "validate_checked_view st device out = Inr h"
    using derived_operand_facts [OF assms(3)] by metis
  let ?x = "dimensions (shape (spec x))" and ?w = "dimensions (shape (spec w))"
  let ?T = "?x ! (length ?x - 2)"
  note ext = last_extent [OF f(1)]
  have col: "?w ! 1 = ?x ! (length ?x - 1) \<longleftrightarrow> columns_of (shape (spec w)) = columns_of (shape (spec x))"
    if "rank (shape (spec w)) = 2"
  proof -
    have "unat (?w ! 1) = columns_of (shape (spec w))" using last_extent(1) [OF g(1)] that by (simp add: rank_def)
    then show ?thesis using ext(1) by (simp add: word_unat_eq_iff)
  qed
  have win: "\<not> s > ?T \<and> \<not> R > ?T - s \<longleftrightarrow> unat s + unat R \<le> rows_of (shape (spec x))"
    using ext(2) by (auto simp: word_less_nat_alt unat_sub word_le_nat_alt not_less)
  note ov = output_overlap_check_iff [OF assms(3,1) h(4) f(4)] output_overlap_check_iff [OF assms(3,2) h(4) g(4)]
  have "validate_linear st device x w out s R layout H D = Inr () \<longleftrightarrow>
      (layout = ordinary \<or> layout = head_planar) \<and> rank (shape (spec w)) = 2 \<and> ?w ! 1 = ?x ! (length ?x - 1)
      \<and> H \<noteq> 0 \<and> D \<noteq> 0 \<and> linear_output_shape layout ?x (dimensions (shape (spec out))) (?w ! 0) R H D = Inr ()
      \<and> take (length ?x - 2) ?x = take (length ?x - 2) (dimensions (shape (spec out)))
      \<and> R \<noteq> 0 \<and> (\<not> s > ?T \<and> \<not> R > ?T - s)
      \<and> output_overlap_check st out (storage_bytes h) x (storage_bytes f) = Inr ()
      \<and> output_overlap_check st out (storage_bytes h) w (storage_bytes g) = Inr ()
      \<and> data_type (spec x) = data_type (spec w) \<and> data_type (spec x) = data_type (spec out)
      \<and> linear_leaf (data_type (spec x))"
    unfolding validate_linear_def Let_def f(3,4) g(3,4) h(3,4) andThen_simps reject_output_overlap_def
      andThen_unit_iff guard_Inr_iff f(2) g(2) h(2)
    by (simp only: de_Morgan_disj not_not) blast
  also have "\<dots> \<longleftrightarrow> rank (shape (spec w)) = 2 \<and> ?w ! 1 = ?x ! (length ?x - 1)
      \<and> linear_geometry layout (shape (spec x)) (shape (spec w)) (shape (spec out)) (unat R) (unat H) (unat D)
      \<and> R \<noteq> 0 \<and> (\<not> s > ?T \<and> \<not> R > ?T - s)
      \<and> output_overlap_check st out (storage_bytes h) x (storage_bytes f) = Inr ()
      \<and> output_overlap_check st out (storage_bytes h) w (storage_bytes g) = Inr ()
      \<and> data_type (spec x) = data_type (spec w) \<and> data_type (spec x) = data_type (spec out)
      \<and> linear_leaf (data_type (spec x))"
    using linear_output_shape_iff [OF f(1) g(1) _ h(1)] by blast
  finally show ?thesis using col unfolding win ov by blast
qed

section \<open>Attention admission\<close>

text \<open>Extents of an attention operand: the tuple before the head axis, and the head count.\<close>

definition outer_extents :: "TensorShape \<Rightarrow> nat list" where
  "outer_extents s = take (rank s - 3) (extents s)"

definition heads_of :: "TensorShape \<Rightarrow> nat" where
  "heads_of s = extents s ! (rank s - 3)"

text \<open>
  The accepted geometry: equal key and value shapes, equal outer tuples, an output of one row per
  query and all heads side by side, grouped heads, an initialized length inside the cache, and a
  causal window that ends inside the cache. The two last products are work sizes that no operand
  bounds. The width of keys and values is not mentioned.
\<close>

definition sdpa_geometry ::
  "TensorShape \<Rightarrow> TensorShape \<Rightarrow> TensorShape \<Rightarrow> TensorShape \<Rightarrow> nat \<Rightarrow> nat \<Rightarrow> bool" where
  "sdpa_geometry q k v out a L \<longleftrightarrow>
     3 \<le> rank q \<and> rank k = rank q \<and> v = k \<and> outer_extents k = outer_extents q
     \<and> extents out = outer_extents q @ [rows_of q, heads_of q * columns_of q]
     \<and> heads_of k dvd heads_of q \<and> 0 < L \<and> L \<le> rows_of k \<and> a + rows_of q \<le> rows_of k
     \<and> heads_of q * L < 2 ^ 64 \<and> heads_of k * rows_of k * columns_of q < 2 ^ 64"

lemma valid_nonzero_at: "valid_shape s \<Longrightarrow> i < length (dimensions s) \<Longrightarrow> dimensions s ! i \<noteq> 0"
  by (auto simp: valid_shape_def) (metis nth_mem)

lemma heads_at: "3 \<le> rank s \<Longrightarrow> unat (dimensions s ! (length (dimensions s) - 3)) = heads_of s"
  by (simp add: heads_of_def extents_def rank_def)

lemma outer_at: "map unat (take (length (dimensions s) - 3) (dimensions s)) = outer_extents s"
  by (simp add: outer_extents_def extents_def rank_def take_map)

lemma prod_extents_split:
  assumes "3 \<le> rank s"
  shows "prod_list (map unat (dimensions s)) = prod_list (outer_extents s) * (heads_of s * (rows_of s * columns_of s))"
proof -
  let ?d = "dimensions s"
  have "map unat ?d = map unat (take (length ?d - 3) ?d @ [?d ! (length ?d - 3), ?d ! (length ?d - 2), ?d ! (length ?d - 1)])"
    using list_split_last3 [of ?d] assms by (simp add: rank_def)
  also have "\<dots> = outer_extents s @ [heads_of s, rows_of s, columns_of s]"
    using assms by (simp add: outer_at [symmetric] heads_of_def rows_of_def columns_of_def extents_def rank_def)
  finally show ?thesis by simp
qed

lemma sdpa_bytes_ok:
  assumes "derived_operand st device i v"
  obtains e l b c where "checked_product 1 (dimensions (shape (spec v))) = Inr e"
    and "leaf_bits (data_type (spec v)) = Inr l" and "checked_mul e l = Inr b" and "bits_to_bytes b = Inr c"
proof -
  let ?d = "dimensions (shape (spec v))"
  obtain l where l: "leaf_bits (data_type (spec v)) = Inr l" "0 < unat l" and valid: "valid_shape (shape (spec v))"
    and fit: "prod_list (map unat ?d) * unat l + 7 < 2 ^ 64" using derived_products [OF assms] by metis
  have "prod_list (map unat ?d) \<le> prod_list (map unat ?d) * unat l" using l(2) by simp
  then have f: "prod_list (map unat ?d) < 2 ^ 64" "prod_list (map unat ?d) * unat l < 2 ^ 64" using fit by linarith+
  have nz: "0 \<notin> set ?d" using valid by (simp add: valid_shape_def)
  obtain e where e: "checked_product 1 ?d = Inr e" "unat e = prod_list (map unat ?d)"
    using checked_product_Inr [OF nz, of 1 "of_nat (prod_list (map unat ?d))"] f(1) by (auto simp: unat_of_nat_fits)
  obtain b where b: "checked_mul e l = Inr b" "unat b = prod_list (map unat ?d) * unat l"
    using checked_mul_ex [OF e(2) refl f(2)] by blast
  obtain c where "bits_to_bytes b = Inr c" using bits_to_bytes_ex [of b] b(2) fit by auto
  then show thesis using that [OF e(1) l(1) b(1)] by blast
qed

lemma sdpa_structure_rearranged:
  "(\<exists>w. (A \<and> B) \<and> M \<and> (\<exists>x. P x \<and> (Q \<and> R x) \<and> C \<and> D \<and> E \<and> x = w))
   \<longleftrightarrow> A \<and> M \<and> ((\<exists>w. P w \<and> Q \<and> R w) \<and> B) \<and> C \<and> D \<and> E"
  by blast

lemma sdpa_structure_iff:
  assumes q: "valid_shape q" and k: "valid_shape k" and out: "valid_shape out"
  shows "(\<exists>width. sdpa_structure (dimensions q) (dimensions k) (dimensions v) (dimensions out) a L = Inr width)
    \<longleftrightarrow> 3 \<le> rank q \<and> rank k = rank q \<and> v = k \<and> outer_extents k = outer_extents q
      \<and> extents out = outer_extents q @ [rows_of q, heads_of q * columns_of q]
      \<and> heads_of k dvd heads_of q \<and> 0 < unat L \<and> unat L \<le> rows_of k \<and> unat a + rows_of q \<le> rows_of k"
proof (cases "3 \<le> rank q \<and> rank k = rank q \<and> v = k \<and> rank out + 1 = rank q")
  case False
  have "length (dimensions out) + 1 = length (dimensions q)" if "3 \<le> rank q" "extents out = outer_extents q @ [x, y]" for x y
  proof -
    have "length (extents out) = length (outer_extents q @ [x, y])" using that(2) by simp
    then show ?thesis using that(1) by (simp add: extents_def outer_extents_def rank_def)
  qed
  moreover have "dimensions v = dimensions k \<longleftrightarrow> v = k" by (cases v; cases k) simp
  ultimately show ?thesis
    using False unfolding sdpa_structure_def Let_def by (auto simp: rank_def guard_Inr_iff)
next
  case True
  let ?q = "dimensions q" and ?k = "dimensions k" and ?o = "dimensions out"
  let ?n = "length ?q"
  have len: "3 \<le> ?n" "?n \<le> 8" "length ?k = ?n" "length ?o + 1 = ?n" "2 \<le> length ?o" and vk: "v = k"
    using True q out by (auto simp: valid_shape_def rank_def)
  let ?Hq = "?q ! (?n - 3)" and ?R = "?q ! (?n - 2)" and ?D = "?q ! (?n - 1)"
  let ?Hk = "?k ! (?n - 3)" and ?C = "?k ! (?n - 2)"
  have nz: "?Hq \<noteq> 0" "?R \<noteq> 0" "?D \<noteq> 0" "?Hk \<noteq> 0" "?C \<noteq> 0"
    using valid_nonzero_at [OF q] valid_nonzero_at [OF k] len by simp_all
  have u: "unat ?Hq = heads_of q" "unat ?R = rows_of q" "unat ?D = columns_of q" "unat ?Hk = heads_of k" "unat ?C = rows_of k"
    using len True by (simp_all add: heads_of_def rows_of_def columns_of_def extents_def rank_def)
  have dvd: "?Hq mod ?Hk = 0 \<longleftrightarrow> heads_of k dvd heads_of q"
    by (simp only: word_unat_eq_iff unat_mod u unat_0 mod_eq_0_iff_dvd)
  have lead: "take (?n - 3) ?q = take (?n - 3) ?k \<longleftrightarrow> outer_extents k = outer_extents q"
    using unat_list_eq [of "take (?n - 3) ?q" "take (?n - 3) ?k"] outer_at [of q] outer_at [of k] len(3) by auto
  have out2: "(\<exists>w. checked_mul ?Hq ?D = Inr w \<and> ?o ! (length ?o - 2) = ?R \<and> ?o ! (length ?o - 1) = w)
        \<and> take (?n - 3) ?q = take (?n - 3) ?o
      \<longleftrightarrow> extents out = outer_extents q @ [rows_of q, heads_of q * columns_of q]"
  proof -
    let ?x = "take (?n - 1) ?q"
    have x: "length ?x = length ?o" "take (length ?x - 2) ?x = take (?n - 3) ?q" "2 \<le> length ?x"
      using len by (auto simp: min_def numeral_eq_Suc)
    have e: "extents out = outer_extents q @ [rows_of q, heads_of q * columns_of q]
        \<longleftrightarrow> (\<exists>w. unat w = heads_of q * columns_of q \<and> ?o = take (?n - 3) ?q @ [?R, w])"
    proof
      assume E: "extents out = outer_extents q @ [rows_of q, heads_of q * columns_of q]"
      then have "last (extents out) = heads_of q * columns_of q" by simp
      moreover have "?o \<noteq> []" using len(5) by auto
      ultimately have w: "unat (last ?o) = heads_of q * columns_of q" by (simp add: extents_def last_map)
      have "map unat ?o = map unat (take (?n - 3) ?q @ [?R, last ?o])" using E u w outer_at [of q] by (simp add: extents_def)
      then have "?o = take (?n - 3) ?q @ [?R, last ?o]" by (simp only: unat_list_eq)
      then show "\<exists>w. unat w = heads_of q * columns_of q \<and> ?o = take (?n - 3) ?q @ [?R, w]" using w by blast
    next
      assume "\<exists>w. unat w = heads_of q * columns_of q \<and> ?o = take (?n - 3) ?q @ [?R, w]"
      then obtain w where w: "unat w = heads_of q * columns_of q" "?o = take (?n - 3) ?q @ [?R, w]" by blast
      have "map unat ?o = map unat (take (?n - 3) ?q) @ [unat ?R, unat w]" by (subst w(2)) simp
      then show "extents out = outer_extents q @ [rows_of q, heads_of q * columns_of q]"
        by (simp only: extents_def u w(1) outer_at)
    qed
    have s: "?o = take (?n - 3) ?q @ [?R, w] \<longleftrightarrow> ?o ! (length ?o - 2) = ?R \<and> ?o ! (length ?o - 1) = w
        \<and> take (?n - 3) ?q = take (?n - 3) ?o" for w
    proof -
      have i: "length ?o - 2 = ?n - 3" using len(4) by simp
      show ?thesis using shape_ends2 [OF x(3) len(5), of ?R w] unfolding x(2) unfolding x(1) i by blast
    qed
    have c: "checked_mul ?Hq ?D = Inr w \<longleftrightarrow> unat w = heads_of q * columns_of q" for w
      by (simp only: checked_mul_Inr u)
    show ?thesis unfolding e s c by blast
  qed
  have win: "\<not> a \<ge> ?C \<and> \<not> ?R > ?C - a \<longleftrightarrow> unat a + rows_of q \<le> rows_of k"
    using nz(2) u(2) u(5) by (auto simp: word_less_nat_alt unat_sub word_le_nat_alt not_less not_le unat_gt_0 [symmetric])
  have L: "\<not> (L = 0 \<or> L > ?C) \<longleftrightarrow> 0 < unat L \<and> unat L \<le> rows_of k"
    by (auto simp: u(5) [symmetric] word_less_nat_alt not_less unat_gt_0)
  have g: "\<not> (?n < 3 \<or> ?n > 8 \<or> ?n \<noteq> ?n \<or> ?n \<noteq> ?n \<or> length ?o < 2 \<or> length ?o > 7 \<or> length ?o + 1 \<noteq> ?n)"
    "\<not> (?Hq = 0 \<or> ?Hk = 0 \<or> ?R = 0 \<or> ?C = 0 \<or> ?D = 0)" using len nz by auto
  have "(\<exists>width. sdpa_structure ?q ?k (dimensions v) ?o a L = Inr width) \<longleftrightarrow>
      take (?n - 3) ?q = take (?n - 3) ?k \<and> ?Hq mod ?Hk = 0
      \<and> ((\<exists>w. checked_mul ?Hq ?D = Inr w \<and> ?o ! (length ?o - 2) = ?R \<and> ?o ! (length ?o - 1) = w)
        \<and> take (?n - 3) ?q = take (?n - 3) ?o)
      \<and> \<not> (L = 0 \<or> L > ?C) \<and> (\<not> a \<ge> ?C \<and> \<not> ?R > ?C - a)"
    unfolding sdpa_structure_def Let_def vk len(3) if_not_P [OF g(1)] if_not_P [OF g(2)] guard_Inr_iff andThen_Inr_iff
    by (simp only: de_Morgan_disj not_not simp_thms sum.inject(2)) (rule sdpa_structure_rearranged)
  also have "\<dots> \<longleftrightarrow> outer_extents k = outer_extents q \<and> heads_of k dvd heads_of q
      \<and> extents out = outer_extents q @ [rows_of q, heads_of q * columns_of q]
      \<and> (0 < unat L \<and> unat L \<le> rows_of k) \<and> unat a + rows_of q \<le> rows_of k"
    unfolding lead dvd out2 L win by blast
  finally show ?thesis using True by blast
qed

lemma sdpa_window_iff:
  assumes q: "derived_operand st device i v" and k: "derived_operand st device j u"
    and geo: "3 \<le> rank (shape (spec v))" "rank (shape (spec u)) = rank (shape (spec v))"
      "outer_extents (shape (spec u)) = outer_extents (shape (spec v))"
      "0 < unat L" "unat a + rows_of (shape (spec v)) \<le> rows_of (shape (spec u))"
  shows "sdpa_window (dimensions (shape (spec v))) (dimensions (shape (spec u))) a L = Inr ()
    \<longleftrightarrow> heads_of (shape (spec v)) * unat L < 2 ^ 64
      \<and> heads_of (shape (spec u)) * rows_of (shape (spec u)) * columns_of (shape (spec v)) < 2 ^ 64"
proof -
  define sq sk where "sq = shape (spec v)" and "sk = shape (spec u)"
  let ?q = "dimensions sq" and ?k = "dimensions sk"
  let ?n = "length ?q"
  let ?Hq = "?q ! (?n - 3)" and ?R = "?q ! (?n - 2)" and ?D = "?q ! (?n - 1)"
  let ?Hk = "?k ! (?n - 3)" and ?C = "?k ! (?n - 2)"
  have len: "3 \<le> ?n" "length ?k = ?n" using geo by (simp_all add: rank_def sq_def sk_def)
  have u: "unat ?Hq = heads_of sq" "unat ?R = rows_of sq" "unat ?D = columns_of sq" "unat ?Hk = heads_of sk" "unat ?C = rows_of sk"
    using len by (simp_all add: heads_of_def rows_of_def columns_of_def extents_def rank_def)
  define A where "A = prod_list (outer_extents sq)"
  obtain bv :: usize where bv: "0 < unat bv" "valid_shape sq" "prod_list (map unat ?q) * unat bv + 7 < 2 ^ 64"
      "0 < prod_list (map unat ?q)" using derived_products [OF q] unfolding sq_def by metis
  obtain bu :: usize where bu: "0 < unat bu" "prod_list (map unat ?k) * unat bu + 7 < 2 ^ 64"
      "0 < prod_list (map unat ?k)" using derived_products [OF k] unfolding sk_def by metis
  have "prod_list (map unat ?q) \<le> prod_list (map unat ?q) * unat bv" "prod_list (map unat ?k) \<le> prod_list (map unat ?k) * unat bu"
    using bv(1) bu(1) by simp_all
  moreover have pq: "prod_list (map unat ?q) = A * (heads_of sq * (rows_of sq * columns_of sq))"
    and pk: "prod_list (map unat ?k) = A * (heads_of sk * (rows_of sk * columns_of sk))"
    using prod_extents_split [of sq] prod_extents_split [of sk] geo by (simp_all add: A_def sq_def sk_def)
  ultimately have fq: "A * (heads_of sq * (rows_of sq * columns_of sq)) < 2 ^ 64"
    and fk: "A * (heads_of sk * (rows_of sk * columns_of sk)) < 2 ^ 64" using bv(3) bu(2) by linarith+
  have pos: "0 < A" "0 < heads_of sq" "0 < rows_of sq" "0 < columns_of sq" "0 < heads_of sk" "0 < rows_of sk" "0 < columns_of sk"
    using bv(4) bu(3) pq pk by simp_all
  have "A * heads_of sq \<le> A * (heads_of sq * (rows_of sq * columns_of sq))"
    "heads_of sq * rows_of sq * columns_of sq \<le> A * (heads_of sq * (rows_of sq * columns_of sq))"
    "heads_of sq * rows_of sq \<le> heads_of sq * rows_of sq * columns_of sq"
    "A * heads_of sk \<le> A * (heads_of sk * (rows_of sk * columns_of sk))"
    "heads_of sk * rows_of sk \<le> A * (heads_of sk * (rows_of sk * columns_of sk))"
    "A \<le> A * heads_of sq"
    using pos by simp_all
  then have f: "A < 2 ^ 64" "A * heads_of sq < 2 ^ 64" "heads_of sq * rows_of sq * columns_of sq < 2 ^ 64"
      "heads_of sq * rows_of sq < 2 ^ 64" "A * heads_of sk < 2 ^ 64" "heads_of sk * rows_of sk < 2 ^ 64"
    using fq fk by linarith+
  have nz: "0 \<notin> set (take (?n - 3) ?q)" using bv(2) by (auto simp: valid_shape_def dest: in_set_takeD)
  obtain l where l: "checked_product 1 (take (?n - 3) ?q) = Inr l" "unat l = A"
    using checked_product_Inr [OF nz, of 1 "of_nat A"] f(1) outer_at [of sq] by (auto simp: unat_of_nat_fits A_def)
  obtain m1 m2 where m: "checked_mul l ?Hq = Inr m1" "checked_mul l ?Hk = Inr m2"
    using checked_mul_ex [OF l(2) u(1) f(2)] checked_mul_ex [OF l(2) u(4) f(5)] by blast
  obtain qr where qr: "checked_mul ?Hq ?R = Inr qr" "unat qr = heads_of sq * rows_of sq"
    using checked_mul_ex [OF u(1,2) f(4)] by blast
  obtain qw where qw: "checked_mul qr ?D = Inr qw" using checked_mul_ex [OF qr(2) u(3) f(3)] by blast
  obtain kr where kr: "checked_mul ?Hk ?C = Inr kr" "unat kr = heads_of sk * rows_of sk"
    using checked_mul_ex [OF u(4,5) f(6)] by blast
  have kw: "(\<exists>w. checked_mul kr ?D = Inr w) \<longleftrightarrow> heads_of sk * rows_of sk * columns_of sq < 2 ^ 64"
    unfolding checked_mul_cases kr(2) u(3) by auto
  have hl: "(\<exists>w. checked_mul ?Hq L = Inr w) \<longleftrightarrow> heads_of sq * unat L < 2 ^ 64"
    unfolding checked_mul_cases u(1) by auto
  have r1: "unat (?R - 1) = rows_of sq - 1" using pos(3) u(2) by (metis unat_minus_one less_numeral_extra(3) unat_0)
  have aR: "unat a + (rows_of sq - 1) < unat ?C" using geo(5) pos(3) u(5) by (simp add: sq_def sk_def)
  have c64: "unat ?C < 2 ^ 64" by (rule unat_less)
  obtain p where p: "checked_add a (?R - 1) = Inr p" "unat p = unat a + (rows_of sq - 1)"
    using checked_add_ex [OF refl r1, of a] aR c64 by (meson less_trans)
  have one: "unat (1 :: usize) = 1" by simp
  have "unat a + 1 < 2 ^ 64" using geo(5) pos(3) c64 u(5) by (simp add: sq_def sk_def)
  then obtain w where w: "checked_add a 1 = Inr w" "unat w = unat a + 1" using checked_add_ex [OF refl one] by blast
  have vis: "\<not> ((if L < w then L else w) = 0 \<or> p \<ge> ?C)"
    using w(2) geo(4) p(2) aR by (auto simp: word_le_nat_alt)
  show ?thesis
    unfolding sq_def [symmetric] sk_def [symmetric] sdpa_window_def Let_def l(1) m qr(1) qw kr(1) p(1) w(1) andThen_simps
      if_not_P [OF vis]
    using kw hl by (auto simp: andThen_Inr_iff)
qed

text \<open>
  C33. Attention is accepted exactly when it should be, for derived operands: the geometry above,
  an output apart from query, key and value, and BF16 throughout. In the accepted request the
  query heads are \<open>grouping\<close> times the key heads, and every query row sees at least one initialized
  cache row and only rows of the cache.
\<close>

theorem sdpa_admission:
  assumes "derived_operand st device i q" and "derived_operand st device j k"
    and "derived_operand st device l v" and "derived_operand st device m out"
  shows "(\<exists>request. validate_sdpa st device q k v out a L = Inr request
      \<and> unat (sdpa_Hq request) = unat (sdpa_grouping request) * unat (sdpa_Hkv request)
      \<and> unat (sdpa_D request) = columns_of (shape (spec q)) \<and> unat (sdpa_R request) = rows_of (shape (spec q))
      \<and> (\<forall>row < rows_of (shape (spec q)). {t. t < unat L \<and> t \<le> unat a + row} \<noteq> {}
          \<and> unat a + row < unat (sdpa_C request)))
    \<longleftrightarrow> sdpa_geometry (shape (spec q)) (shape (spec k)) (shape (spec v)) (shape (spec out)) (unat a) (unat L)
      \<and> m \<notin> {i, j, l} \<and> (\<forall>x \<in> {q, k, v}. storage_span st out \<inter> storage_span st x = {} \<and> data_type (spec x) = BF16)
      \<and> data_type (spec out) = BF16" (is "?L \<longleftrightarrow> ?R")
proof -
  obtain fq where fq: "valid_shape (shape (spec q))" "quantization (spec q) = NONE"
      "validate_checked_spec (spec q) = Inr ()" "validate_checked_view st device q = Inr fq"
    using derived_operand_facts [OF assms(1)] by metis
  obtain fk where fk: "valid_shape (shape (spec k))" "quantization (spec k) = NONE"
      "validate_checked_spec (spec k) = Inr ()" "validate_checked_view st device k = Inr fk"
    using derived_operand_facts [OF assms(2)] by metis
  obtain fv where fv: "quantization (spec v) = NONE"
      "validate_checked_spec (spec v) = Inr ()" "validate_checked_view st device v = Inr fv"
    using derived_operand_facts [OF assms(3)] by metis
  obtain fo where fo: "valid_shape (shape (spec out))" "quantization (spec out) = NONE"
      "validate_checked_spec (spec out) = Inr ()" "validate_checked_view st device out = Inr fo"
    using derived_operand_facts [OF assms(4)] by metis
  note own = derived_owner_spec [OF assms(1)] derived_owner_spec [OF assms(2)] derived_owner_spec [OF assms(3)]
    derived_owner_spec [OF assms(4)]
  let ?q = "shape (spec q)" and ?k = "shape (spec k)" and ?v = "shape (spec v)" and ?o = "shape (spec out)"
  have bytes: "sdpa_bytes (dimensions ?q) (dimensions ?k) (dimensions ?v) (dimensions ?o)
      (data_type (spec q)) (data_type (spec k)) (data_type (spec v)) (data_type (spec out)) = Inr ()"
  proof -
    obtain e1 l1 b1 c1 where 1: "checked_product 1 (dimensions ?q) = Inr e1" "leaf_bits (data_type (spec q)) = Inr l1"
      "checked_mul e1 l1 = Inr b1" "bits_to_bytes b1 = Inr c1" using sdpa_bytes_ok [OF assms(1)] by metis
    obtain e2 l2 b2 c2 where 2: "checked_product 1 (dimensions ?k) = Inr e2" "leaf_bits (data_type (spec k)) = Inr l2"
      "checked_mul e2 l2 = Inr b2" "bits_to_bytes b2 = Inr c2" using sdpa_bytes_ok [OF assms(2)] by metis
    obtain e3 l3 b3 c3 where 3: "checked_product 1 (dimensions ?v) = Inr e3" "leaf_bits (data_type (spec v)) = Inr l3"
      "checked_mul e3 l3 = Inr b3" "bits_to_bytes b3 = Inr c3" using sdpa_bytes_ok [OF assms(3)] by metis
    obtain e4 l4 b4 c4 where 4: "checked_product 1 (dimensions ?o) = Inr e4" "leaf_bits (data_type (spec out)) = Inr l4"
      "checked_mul e4 l4 = Inr b4" "bits_to_bytes b4 = Inr c4" using sdpa_bytes_ok [OF assms(4)] by metis
    show ?thesis unfolding sdpa_bytes_def by (simp only: 1 2 3 4 andThen_simps)
  qed
  note ov = output_overlap_check_iff [OF assms(4,1) fo(4) fq(4)] output_overlap_check_iff [OF assms(4,2) fo(4) fk(4)]
    output_overlap_check_iff [OF assms(4,3) fo(4) fv(3)]
  note st = sdpa_structure_iff [OF fq(1) fk(1) fo(1), of ?v a L]
  have run: "validate_sdpa st device q k v out a L = Inr request \<longleftrightarrow>
      (\<exists>width. sdpa_structure (dimensions ?q) (dimensions ?k) (dimensions ?v) (dimensions ?o) a L = Inr width
        \<and> sdpa_window (dimensions ?q) (dimensions ?k) a L = Inr ()
        \<and> (data_type (spec q) = data_type (spec k) \<and> data_type (spec q) = data_type (spec v)
          \<and> data_type (spec q) = data_type (spec out))
        \<and> output_overlap_check st out (storage_bytes fo) q (storage_bytes fq) = Inr ()
        \<and> output_overlap_check st out (storage_bytes fo) k (storage_bytes fk) = Inr ()
        \<and> output_overlap_check st out (storage_bytes fo) v (storage_bytes fv) = Inr ()
        \<and> data_type (spec q) = BF16
        \<and> request = \<lparr>sdpa_q = snapshot_sdpa_view st q fq, sdpa_k = snapshot_sdpa_view st k fk,
          sdpa_v = snapshot_sdpa_view st v fv, sdpa_out = snapshot_sdpa_view st out fo,
          sdpa_a = a, sdpa_L = L, sdpa_Hq = dimensions ?q ! (length (dimensions ?q) - 3),
          sdpa_Hkv = dimensions ?k ! (length (dimensions ?q) - 3), sdpa_R = dimensions ?q ! (length (dimensions ?q) - 2),
          sdpa_C = dimensions ?k ! (length (dimensions ?q) - 2), sdpa_D = dimensions ?q ! (length (dimensions ?q) - 1),
          sdpa_grouping = dimensions ?q ! (length (dimensions ?q) - 3) div dimensions ?k ! (length (dimensions ?q) - 3),
          sdpa_output_width = width, sdpa_workspace = empty_workspace_view,
          sdpa_requirements = \<lparr>req_bytes = 0, req_alignment = 1\<rparr>\<rparr>)" for request
    unfolding validate_sdpa_def Let_def fq(2-4) fk(2-4) fv fo(2-4) own bytes andThen_simps reject_sdpa_output_overlap_def
      andThen_unit_iff andThen_Inr_iff guard_Inr_iff sdpa_current_leaf_def
    by (simp only: de_Morgan_disj not_not simp_thms conj_assoc sum.inject eq_commute [of _ request])
  show ?thesis
  proof
    assume ?L
    then obtain request where req: "validate_sdpa st device q k v out a L = Inr request" by blast
    then have s: "\<exists>width. sdpa_structure (dimensions ?q) (dimensions ?k) (dimensions ?v) (dimensions ?o) a L = Inr width"
      and w: "sdpa_window (dimensions ?q) (dimensions ?k) a L = Inr ()" unfolding run by blast+
    note geo = s [unfolded st]
    have "heads_of ?q * unat L < 2 ^ 64 \<and> heads_of ?k * rows_of ?k * columns_of ?q < 2 ^ 64"
      using sdpa_window_iff [OF assms(1,2)] geo w by blast
    with geo have "sdpa_geometry ?q ?k ?v ?o (unat a) (unat L)" unfolding sdpa_geometry_def by blast
    then show ?R using req unfolding run ov by auto
  next
    assume R: ?R
    then have geo: "sdpa_geometry ?q ?k ?v ?o (unat a) (unat L)" by blast
    have s: "\<exists>width. sdpa_structure (dimensions ?q) (dimensions ?k) (dimensions ?v) (dimensions ?o) a L = Inr width"
      unfolding st using geo unfolding sdpa_geometry_def by blast
    have w: "sdpa_window (dimensions ?q) (dimensions ?k) a L = Inr ()"
      using sdpa_window_iff [OF assms(1,2)] geo unfolding sdpa_geometry_def by blast
    have len: "3 \<le> length (dimensions ?q)" "length (dimensions ?k) = length (dimensions ?q)"
      using geo by (simp_all add: sdpa_geometry_def rank_def)
    have u: "unat (dimensions ?q ! (length (dimensions ?q) - 3)) = heads_of ?q"
      "unat (dimensions ?k ! (length (dimensions ?q) - 3)) = heads_of ?k"
      "unat (dimensions ?q ! (length (dimensions ?q) - 2)) = rows_of ?q"
      "unat (dimensions ?k ! (length (dimensions ?q) - 2)) = rows_of ?k"
      "unat (dimensions ?q ! (length (dimensions ?q) - 1)) = columns_of ?q"
      using len by (simp_all add: heads_of_def rows_of_def columns_of_def extents_def rank_def)
    have gr: "heads_of ?q = heads_of ?q div heads_of ?k * heads_of ?k" using geo by (simp add: sdpa_geometry_def)
    have vis: "{t. t < unat L \<and> t \<le> unat a + row} \<noteq> {} \<and> unat a + row < rows_of ?k" if "row < rows_of ?q" for row
      using geo that by (auto simp: sdpa_geometry_def)
    obtain width where "sdpa_structure (dimensions ?q) (dimensions ?k) (dimensions ?v) (dimensions ?o) a L = Inr width"
      using s by blast
    with w R have "\<exists>request. validate_sdpa st device q k v out a L = Inr request
        \<and> sdpa_Hq request = dimensions ?q ! (length (dimensions ?q) - 3)
        \<and> sdpa_Hkv request = dimensions ?k ! (length (dimensions ?q) - 3)
        \<and> sdpa_grouping request = dimensions ?q ! (length (dimensions ?q) - 3) div dimensions ?k ! (length (dimensions ?q) - 3)
        \<and> sdpa_D request = dimensions ?q ! (length (dimensions ?q) - 1) \<and> sdpa_R request = dimensions ?q ! (length (dimensions ?q) - 2)
        \<and> sdpa_C request = dimensions ?k ! (length (dimensions ?q) - 2)"
      unfolding run ov by auto
    then show ?L using u gr vis by (auto simp: unat_div)
  qed
qed

section \<open>Samples\<close>

text \<open>
  Owners for the four operations: query \<open>[4, 2, 8]\<close>, keys and values \<open>[2, 5, 8]\<close>, attention output
  \<open>[2, 32]\<close>, a weight \<open>[32, 8]\<close> and its head-planar output, and
  a query and an output of width 32 with keys and values of width 16.
\<close>

definition neural_store :: store where
  "neural_store = (\<lambda>i.
     if i = 21 then owner_at 21 [4, 2, 8] [1] BF16 65536
     else if i = 22 then owner_at 22 [2, 5, 8] [1] BF16 131072
     else if i = 23 then owner_at 23 [2, 5, 8] [1] BF16 196608
     else if i = 24 then owner_at 24 [2, 32] [] BF16 262144
     else if i = 25 then owner_at 25 [1, 1, 16] [1] BF16 327680
     else if i = 26 then owner_at 26 [32, 8] [] BF16 393216
     else if i = 27 then owner_at 27 [4, 4, 1, 8] [4, 1] BF16 458752
     else if i = 29 then owner_at 29 [1, 1, 32] [1] BF16 589824
     else if i = 30 then owner_at 30 [1, 32] [] BF16 655360
     else owner_at i [4, 2, 8] [1] BF16 524288)"

lemma neural_operands:
  "derived_operand neural_store 7 21 (full_view (neural_store 21))"
  "derived_operand neural_store 7 22 (full_view (neural_store 22))"
  "derived_operand neural_store 7 23 (full_view (neural_store 23))"
  "derived_operand neural_store 7 24 (full_view (neural_store 24))"
  "derived_operand neural_store 7 25 (full_view (neural_store 25))"
  "derived_operand neural_store 7 26 (full_view (neural_store 26))"
  "derived_operand neural_store 7 27 (full_view (neural_store 27))"
  "derived_operand neural_store 7 28 (full_view (neural_store 28))"
  "derived_operand neural_store 7 29 (full_view (neural_store 29))"
  "derived_operand neural_store 7 30 (full_view (neural_store 30))"
  by (rule owner_at_operand [where b = 16], simp add: neural_store_def, simp_all add: owner_simps)+

lemma neural_spans:
  "storage_span neural_store (full_view (neural_store 21)) = span 65536 2048"
  "storage_span neural_store (full_view (neural_store 22)) = span 131072 1024"
  "storage_span neural_store (full_view (neural_store 23)) = span 196608 1024"
  "storage_span neural_store (full_view (neural_store 24)) = span 262144 1024"
  "storage_span neural_store (full_view (neural_store 25)) = span 327680 512"
  "storage_span neural_store (full_view (neural_store 26)) = span 393216 1024"
  "storage_span neural_store (full_view (neural_store 27)) = span 458752 8192"
  "storage_span neural_store (full_view (neural_store 28)) = span 524288 2048"
  "storage_span neural_store (full_view (neural_store 29)) = span 589824 1024"
  "storage_span neural_store (full_view (neural_store 30)) = span 655360 1024"
  by (simp_all add: storage_span_def neural_store_def owner_at_def sample_simps)

lemma neural_specs:
  "spec (full_view (neural_store 21)) = \<lparr>shape = TensorShape [4, 2, 8], data_type = BF16, quantization = NONE\<rparr>"
  "spec (full_view (neural_store 22)) = \<lparr>shape = TensorShape [2, 5, 8], data_type = BF16, quantization = NONE\<rparr>"
  "spec (full_view (neural_store 23)) = \<lparr>shape = TensorShape [2, 5, 8], data_type = BF16, quantization = NONE\<rparr>"
  "spec (full_view (neural_store 24)) = \<lparr>shape = TensorShape [2, 32], data_type = BF16, quantization = NONE\<rparr>"
  "spec (full_view (neural_store 25)) = \<lparr>shape = TensorShape [1, 1, 16], data_type = BF16, quantization = NONE\<rparr>"
  "spec (full_view (neural_store 26)) = \<lparr>shape = TensorShape [32, 8], data_type = BF16, quantization = NONE\<rparr>"
  "spec (full_view (neural_store 27)) = \<lparr>shape = TensorShape [4, 4, 1, 8], data_type = BF16, quantization = NONE\<rparr>"
  "spec (full_view (neural_store 28)) = \<lparr>shape = TensorShape [4, 2, 8], data_type = BF16, quantization = NONE\<rparr>"
  "spec (full_view (neural_store 29)) = \<lparr>shape = TensorShape [1, 1, 32], data_type = BF16, quantization = NONE\<rparr>"
  "spec (full_view (neural_store 30)) = \<lparr>shape = TensorShape [1, 32], data_type = BF16, quantization = NONE\<rparr>"
  by (simp_all add: neural_store_def owner_at_def)

theorem rope_admission_witness:
  "\<exists>facts. validate_rope neural_store 7 (full_view (neural_store 21)) (full_view (neural_store 28)) 100
     (Finite 10000) = Inr facts"
proof -
  have "storage_span neural_store (full_view (neural_store 28)) \<inter> storage_span neural_store (full_view (neural_store 21)) = {}"
    unfolding neural_spans by (simp add: span_def)
  then show ?thesis
    using rope_admission [OF neural_operands(1,8), of 100 "Finite 10000"]
    by (auto simp: neural_specs rank_def rows_of_def columns_of_def extents_def rope_leaf_def float_max_def)
qed

lemma silu_admission_witness:
  "validate_silu neural_store 7 (full_view (neural_store 21)) (full_view (neural_store 28)) = Inr ()"
  unfolding silu_admission [OF neural_operands(1,8)] neural_spans
  by (simp add: neural_specs silu_leaf_def span_def)

lemma linear_admission_witness:
  "validate_linear neural_store 7 (full_view (neural_store 21)) (full_view (neural_store 26))
     (full_view (neural_store 27)) 1 1 head_planar 4 8 = Inr ()"
  unfolding linear_admission [OF neural_operands(1,6,7)] neural_spans
  by (simp add: neural_specs linear_geometry_def rank_def rows_of_def columns_of_def extents_def leading_def
      linear_leaf_def span_def)

theorem sdpa_admission_witness:
  "\<exists>request. validate_sdpa neural_store 7 (full_view (neural_store 21)) (full_view (neural_store 22))
     (full_view (neural_store 23)) (full_view (neural_store 24)) 3 4 = Inr request
     \<and> unat (sdpa_Hq request) = unat (sdpa_grouping request) * unat (sdpa_Hkv request)"
proof -
  have "sdpa_geometry (TensorShape [4, 2, 8]) (TensorShape [2, 5, 8]) (TensorShape [2, 5, 8]) (TensorShape [2, 32]) 3 4"
    by (simp add: sdpa_geometry_def rank_def rows_of_def columns_of_def extents_def heads_of_def outer_extents_def)
  moreover have "storage_span neural_store (full_view (neural_store 24)) \<inter> storage_span neural_store (full_view (neural_store i)) = {}"
    if "i \<in> {21, 22, 23}" for i
    using that neural_spans by (auto simp: span_def)
  ultimately show ?thesis
    using sdpa_admission [OF neural_operands(1,2,3,4), of 3 4] by (auto simp: neural_specs)
qed

section \<open>The width of keys and values\<close>

text \<open>
  C35. The validation of attention never compares the width of keys and values with the width of
  the query. A query of width 32 with keys and values of width 16 is admitted, the request
  announces 32 features per head, and the last of these features of the first key row, which a
  backend that follows the request reads, ends behind the storage of the keys' owner.
\<close>

theorem sdpa_key_width_unchecked:
  "\<exists>request w. validate_sdpa neural_store 7 (full_view (neural_store 29)) (full_view (neural_store 25))
       (full_view (neural_store 25)) (full_view (neural_store 30)) 0 1 = Inr request
     \<and> sdpa_D request = 32 \<and> sv_dimensions (sdpa_k request) ! 2 = 16 \<and> sv_storage_bytes (sdpa_k request) = 512
     \<and> standard_plane_slot (spec (full_view (neural_store 25))) 0 0 (sdpa_D request - 1) = Inr w
     \<and> 8 * unat (sv_storage_bytes (sdpa_k request)) < unat w * 16"
proof -
  have "sdpa_geometry (TensorShape [1, 1, 32]) (TensorShape [1, 1, 16]) (TensorShape [1, 1, 16]) (TensorShape [1, 32]) 0 1"
    by (simp add: sdpa_geometry_def rank_def rows_of_def columns_of_def extents_def heads_of_def outer_extents_def)
  moreover have "storage_span neural_store (full_view (neural_store 30)) \<inter> storage_span neural_store (full_view (neural_store i)) = {}"
    if "i \<in> {29, 25}" for i
    using that neural_spans by (auto simp: span_def)
  ultimately obtain request where req: "validate_sdpa neural_store 7 (full_view (neural_store 29)) (full_view (neural_store 25))
       (full_view (neural_store 25)) (full_view (neural_store 30)) 0 1 = Inr request"
    and D: "unat (sdpa_D request) = 32"
    using sdpa_admission [OF neural_operands(9,5,5,10), of 0 1]
    by (auto simp: neural_specs columns_of_def extents_def rank_def)
  have D32: "sdpa_D request = 32" using D by (simp add: word_unat_eq_iff)
  obtain f where f: "validate_checked_view neural_store 7 (full_view (neural_store 25)) = Inr f" "storage_bytes f = 512"
    by (simp add: neural_store_def owner_at_def sample_simps)
  have k: "sdpa_k request = snapshot_sdpa_view neural_store (full_view (neural_store 25)) f"
    using req unfolding validate_sdpa_def Let_def andThen_Inr_iff guard_Inr_iff f(1) by (elim exE conjE) auto
  then have "sv_dimensions (sdpa_k request) ! 2 = 16" "sv_storage_bytes (sdpa_k request) = 512"
    by (simp_all add: snapshot_sdpa_view_def neural_specs filled_array_def f(2))
  moreover have "standard_plane_slot (spec (full_view (neural_store 25))) 0 0 31 = Inr 271"
    by (simp add: neural_specs standard_plane_slot_def checked_mul_cases checked_add_cases)
  ultimately show ?thesis using req D32 by fastforce
qed

section \<open>Rejection\<close>

text \<open>The checks of each facade with the request they hand to the hook.\<close>

definition linear_checks where
  "linear_checks requirements ob x w out s R layout H D workspace =
     andThen (queue_device ob) (\<lambda>device.
     andThen (validate_linear (tensors ob) device x w out s R layout H D) (\<lambda>_.
     andThen (requirements x w out s R layout H D) (\<lambda>r.
     andThen (workspace_for ob device workspace r [x, w, out]) (\<lambda>validated.
     Inr \<lparr>lin_x = snapshot_linear_view (tensors ob) x, lin_w = snapshot_linear_view (tensors ob) w,
          lin_out = snapshot_linear_view (tensors ob) out, lin_start_row = s, lin_rows = R,
          lin_layout = layout, lin_heads = H, lin_head_dim = D, lin_workspace = validated,
          lin_requirements = r\<rparr>))))"

definition rope_checks where
  "rope_checks requirements ob x out a theta workspace =
     andThen (queue_device ob) (\<lambda>device.
     andThen (validate_rope (tensors ob) device x out a theta) (\<lambda>validation.
     andThen (requirements (rope_capability_request (tensors ob) x out validation a theta)) (\<lambda>r.
     if r \<noteq> kRopeWorkspaceRequirements then Inl InvalidArgument
     else if ws_owner workspace \<noteq> None then Inl InvalidArgument
     else andThen (workspace_for ob device workspace r [x, out]) (\<lambda>validated.
     Inr ((rope_capability_request (tensors ob) x out validation a theta)
       \<lparr>rope_workspace := validated, rope_requirements := r\<rparr>)))))"

definition silu_checks where
  "silu_checks requirements ob x y =
     andThen (queue_device ob) (\<lambda>device.
     andThen (validate_silu (tensors ob) device x y) (\<lambda>_.
     andThen (requirements \<lparr>silu_x = snapshot_silu_view (tensors ob) x, silu_y = snapshot_silu_view (tensors ob) y,
        silu_requirements = kSiluWorkspaceRequirements\<rparr>) (\<lambda>r.
     andThen (validate_silu_requirements r) (\<lambda>_.
     Inr \<lparr>silu_x = snapshot_silu_view (tensors ob) x, silu_y = snapshot_silu_view (tensors ob) y,
        silu_requirements = r\<rparr>))))"

definition sdpa_checks where
  "sdpa_checks requirements ob q k v out a L workspace =
     andThen (queue_device ob) (\<lambda>device.
     andThen (validate_sdpa (tensors ob) device q k v out a L) (\<lambda>request.
     andThen (requirements request) (\<lambda>r.
     if req_alignment r = 0 then Inl InvalidArgument
     else andThen (workspace_for ob device workspace r [q, k, v, out]) (\<lambda>validated.
     Inr (request\<lparr>sdpa_workspace := validated, sdpa_requirements := r\<rparr>)))))"

interpretation linear_facade: facade "linear requirements impl ob x w out s R layout H D workspace"
    "linear_checks requirements ob x w out s R layout H D workspace" impl
    for requirements impl ob x w out s R layout H D workspace
  by unfold_locales (simp add: linear_def linear_checks_def andThen_assoc)

interpretation rope_facade: facade "rope requirements impl ob x out a theta workspace"
    "rope_checks requirements ob x out a theta workspace" impl
    for requirements impl ob x out a theta workspace
  by unfold_locales (simp add: rope_def rope_checks_def andThen_assoc andThen_if Let_def cong: if_cong)

interpretation silu_facade: facade "silu requirements impl ob x y workspace"
    "silu_checks requirements ob x y" impl
    for requirements impl ob x y workspace
  by unfold_locales (simp add: silu_def silu_checks_def andThen_assoc Let_def)

interpretation sdpa_facade: facade "sdpa requirements impl ob q k v out a L workspace"
    "sdpa_checks requirements ob q k v out a L workspace" impl
    for requirements impl ob q k v out a L workspace
  by unfold_locales (simp add: sdpa_def sdpa_checks_def andThen_assoc andThen_if cong: if_cong)

lemma queue_device_Inr: "queue_device w = Inr device \<longleftrightarrow> ops_device w = Some device"
  by (simp add: queue_device_def split: option.splits)

text \<open>
  A neural operation that the common checks reject touches nothing: whenever linear, rope,
  SiLU or SDPA changes the backend's state or returns something other than a negative identifier,
  the complete validation succeeded on the queue's device before the hook ran.
\<close>

lemma neural_no_effect_unless_admitted:
  "(fst (linear l_req l_impl ob x w out s R layout H D workspace t) \<noteq> t
      \<or> \<not> oid_is_error (snd (linear l_req l_impl ob x w out s R layout H D workspace t)) \<longrightarrow>
    (\<exists>device. ops_device ob = Some device \<and> validate_linear (tensors ob) device x w out s R layout H D = Inr ()))
   \<and> (fst (rope r_req r_impl ob x out a theta workspace t) \<noteq> t
      \<or> \<not> oid_is_error (snd (rope r_req r_impl ob x out a theta workspace t)) \<longrightarrow>
    ws_owner workspace = None
    \<and> (\<exists>device facts. ops_device ob = Some device \<and> validate_rope (tensors ob) device x out a theta = Inr facts))
   \<and> (fst (silu s_req s_impl ob x out workspace t) \<noteq> t
      \<or> \<not> oid_is_error (snd (silu s_req s_impl ob x out workspace t)) \<longrightarrow>
    (\<exists>device. ops_device ob = Some device \<and> validate_silu (tensors ob) device x out = Inr ()))
   \<and> (fst (sdpa d_req d_impl ob x w v out a R workspace t) \<noteq> t
      \<or> \<not> oid_is_error (snd (sdpa d_req d_impl ob x w v out a R workspace t)) \<longrightarrow>
    (\<exists>device request. ops_device ob = Some device \<and> validate_sdpa (tensors ob) device x w v out a R = Inr request))"
proof -
  have l: "\<exists>device. ops_device ob = Some device \<and> validate_linear (tensors ob) device x w out s R layout H D = Inr ()"
    if "\<exists>q. linear_checks l_req ob x w out s R layout H D workspace = Inr q"
    using that unfolding linear_checks_def andThen_unit_iff andThen_Inr_iff queue_device_Inr by blast
  have r: "ws_owner workspace = None
      \<and> (\<exists>device facts. ops_device ob = Some device \<and> validate_rope (tensors ob) device x out a theta = Inr facts)"
    if "\<exists>q. rope_checks r_req ob x out a theta workspace = Inr q"
    using that unfolding rope_checks_def guard_Inr_iff andThen_Inr_iff queue_device_Inr by blast
  have s: "\<exists>device. ops_device ob = Some device \<and> validate_silu (tensors ob) device x out = Inr ()"
    if "\<exists>q. silu_checks s_req ob x out = Inr q"
    using that unfolding silu_checks_def andThen_unit_iff andThen_Inr_iff queue_device_Inr by blast
  have d: "\<exists>device request. ops_device ob = Some device \<and> validate_sdpa (tensors ob) device x w v out a R = Inr request"
    if "\<exists>q. sdpa_checks d_req ob x w v out a R workspace = Inr q"
    using that unfolding sdpa_checks_def andThen_Inr_iff queue_device_Inr by blast
  show ?thesis
    apply (rule conjI, rule impI, rule l, erule linear_facade.effect_only_if_accepted)
    apply (rule conjI, rule impI, rule r, erule rope_facade.effect_only_if_accepted)
    apply (rule conjI, rule impI, rule s, erule silu_facade.effect_only_if_accepted)
    apply (rule impI, rule d, erule sdpa_facade.effect_only_if_accepted)
    done
qed

definition neural_objects :: Objects where
  "neural_objects = \<lparr>ops_device = Some 7, tensors = neural_store, workspaces = sample_workspaces, live_workspaces = {}\<rparr>"

definition silu_hook :: "SiLURequest \<Rightarrow> (nat, oid) backend" where
  "silu_hook request n = (n + 1, Inr 1)"

lemma neural_no_effect_unless_admitted_witness:
  "silu (\<lambda>_. Inr \<lparr>req_bytes = 0, req_alignment = 1\<rparr>) silu_hook neural_objects (full_view (neural_store 21))
     (full_view (neural_store 28)) empty_workspace_view 0 = (1, 1)
   \<and> (\<exists>device. ops_device neural_objects = Some device
      \<and> validate_silu neural_store device (full_view (neural_store 21)) (full_view (neural_store 28)) = Inr ())"
proof -
  have "validate_silu neural_store 7 (full_view (neural_store 21)) (full_view (neural_store 28)) = Inr ()"
    unfolding silu_admission [OF neural_operands(1,8)] neural_spans
    by (simp add: neural_specs silu_leaf_def span_def)
  then have run: "silu (\<lambda>_. Inr \<lparr>req_bytes = 0, req_alignment = 1\<rparr>) silu_hook neural_objects (full_view (neural_store 21))
     (full_view (neural_store 28)) empty_workspace_view 0 = (1, 1)"
    by (simp add: silu_def neural_objects_def queue_device_def validate_silu_requirements_def kSiluWorkspaceRequirements_def
        submission_def silu_hook_def Let_def)
  then have ne: "fst (silu (\<lambda>_. Inr \<lparr>req_bytes = 0, req_alignment = 1\<rparr>) silu_hook neural_objects (full_view (neural_store 21))
     (full_view (neural_store 28)) empty_workspace_view 0) \<noteq> 0" by simp
  have t: "tensors neural_objects = neural_store" by (simp add: neural_objects_def)
  from neural_no_effect_unless_admitted [THEN conjunct2, THEN conjunct2, THEN conjunct1, THEN mp, OF disjI1, OF ne]
  show ?thesis using run unfolding t by blast
qed

end
