(* ===== verification/Queue_Admission.thy ===== *)
theory Queue_Admission
  imports Admission "HOL-Library.Multiset"
begin

text \<open>
  The admission queue of \<open>DeviceOps\<close> in \<open>src/src/device_ops.cpp\<close>: queue slots and queue identifiers,
  tokens, sequence reservation, the FIFO of admitted nodes with its credits, completion, failures,
  waiting and teardown. Every scope that holds \<open>completion_mutex_\<close> is one function on the queue's
  state. The code between two such scopes runs without the lock, so a thread is a frame that says
  where it is between two scopes, and a step relation over the state and the multiset of frames
  gives every interleaving of submitters, completing threads, pumping threads and teardown.
  Callbacks are opaque values; what they do to the queue is what any thread may do.
\<close>

section \<open>Queue slots and queue identifiers\<close>

definition reserve_queue_slot :: "nat \<Rightarrow> nat throws" where
  "reserve_queue_slot live_queue_count =
     (if live_queue_count = 4 then Inl BadAlloc else Inr (live_queue_count + 1))"

definition release_queue_slot :: "nat \<Rightarrow> nat" where
  "release_queue_slot live_queue_count =
     (if live_queue_count \<noteq> 0 then live_queue_count - 1 else live_queue_count)"

text \<open>The bitset of live identifiers as the list of its 255 bits; the loop takes the first clear bit.\<close>

type_synonym queue_ids = "bool list"

fun first_clear :: "nat \<Rightarrow> bool list \<Rightarrow> nat option" where
  "first_clear i [] = None"
| "first_clear i (b # bs) = (if \<not> b then Some i else first_clear (Suc i) bs)"

definition lease_queue_id :: "queue_ids \<Rightarrow> queue_ids \<times> (8 word) throws" where
  "lease_queue_id ids =
     (case first_clear 0 ids of
        Some i \<Rightarrow> (ids[i := True], Inr (of_nat (i + 1)))
      | None \<Rightarrow> (ids, Inl RuntimeError))"

definition release_queue_id :: "queue_ids \<Rightarrow> 8 word \<Rightarrow> queue_ids" where
  "release_queue_id ids queue_id = ids[unat queue_id - 1 := False]"

text \<open>
  Construction with a device: the slot first, then the identifier; a failed lease gives the slot
  back. \<open>max_in_flight\<close> is the device's queue configuration.
\<close>

definition construct_queue ::
  "nat \<Rightarrow> queue_ids \<Rightarrow> usize \<Rightarrow> nat \<times> queue_ids \<times> (8 word \<times> usize) throws" where
  "construct_queue live_queue_count ids max_in_flight =
     (case reserve_queue_slot live_queue_count of
        Inl e \<Rightarrow> (live_queue_count, ids, Inl e)
      | Inr reserved \<Rightarrow>
          (case lease_queue_id ids of
             (ids, Inl e) \<Rightarrow> (release_queue_slot reserved, ids, Inl e)
           | (ids, Inr queue_id) \<Rightarrow> (reserved, ids, Inr (queue_id, max 1 max_in_flight))))"

section \<open>Tokens\<close>

type_synonym sequence = "64 word"

definition kSequenceBits :: nat where
  "kSequenceBits = 55"

definition kSequenceMask :: sequence where
  "kSequenceMask = push_bit kSequenceBits 1 - 1"

definition kMaxSequence :: sequence where
  "kMaxSequence = kSequenceMask"

definition encode_token :: "8 word \<Rightarrow> sequence \<Rightarrow> oid" where
  "encode_token queue_id sequence = (push_bit kSequenceBits (ucast queue_id) OR sequence)"

section \<open>State\<close>

text \<open>A moved-from \<open>std::function\<close> is empty: \<open>None\<close>.\<close>

type_synonym callback = nat

record AdmissionNode =
  dispatch :: "callback option"
  rollback :: "callback option"
  executing :: bool

record QueueState =
  queue_id :: "8 word"
  next_sequence :: sequence
  completed :: sequence
  skipped_sequences :: "sequence \<rightharpoonup> sequence"
  failures :: "sequence \<rightharpoonup> exn"
  pending_failures :: "sequence \<rightharpoonup> exn"
  admission_nodes :: "sequence \<rightharpoonup> AdmissionNode"
  admission_fifo :: "sequence list"
  admission_credits :: usize
  admission_capacity :: usize
  admission_pumping :: bool
  admission_closing :: bool

definition initial_queue :: "8 word \<Rightarrow> usize \<Rightarrow> QueueState" where
  "initial_queue leased capacity =
     \<lparr>queue_id = leased, next_sequence = 1, completed = 0, skipped_sequences = Map.empty,
      failures = Map.empty, pending_failures = Map.empty, admission_nodes = Map.empty,
      admission_fifo = [], admission_credits = 0, admission_capacity = capacity,
      admission_pumping = False, admission_closing = False\<rparr>"

section \<open>Submission\<close>

definition reserve_sequence :: "QueueState \<Rightarrow> (sequence \<times> QueueState) throws" where
  "reserve_sequence st =
     (if admission_closing st then Inl LogicError
      else if next_sequence st > kMaxSequence then Inl OverflowError
      else Inr (next_sequence st, st\<lparr>next_sequence := next_sequence st + 1\<rparr>))"

definition admit :: "QueueState \<Rightarrow> sequence \<Rightarrow> callback option \<Rightarrow> callback option \<Rightarrow> QueueState throws" where
  "admit st sequence d r =
     (if admission_closing st then Inl LogicError
      else if admission_nodes st sequence \<noteq> None then Inl LogicError
      else Inr (st\<lparr>admission_nodes := (admission_nodes st)(sequence \<mapsto>
                     \<lparr>dispatch = d, rollback = r, executing = False\<rparr>),
                  admission_fifo := admission_fifo st @ [sequence]\<rparr>))"

definition abandon_sequence :: "QueueState \<Rightarrow> sequence \<Rightarrow> QueueState" where
  "abandon_sequence st sequence =
     (let st = st\<lparr>pending_failures := (pending_failures st)(sequence := None)\<rparr> in
      if next_sequence st = sequence + 1 \<and> completed st < sequence
      then st\<lparr>next_sequence := next_sequence st - 1\<rparr>
      else if skipped_sequences st sequence = None
      then st\<lparr>skipped_sequences := (skipped_sequences st)(sequence \<mapsto> sequence + 1)\<rparr>
      else st)"

section \<open>Pumping\<close>

text \<open>The entry of \<open>pump_admission\<close>; \<open>None\<close> where it returns at once.\<close>

definition pump_enter :: "QueueState \<Rightarrow> QueueState option" where
  "pump_enter st =
     (if admission_pumping st \<or> admission_closing st then None
      else Some (st\<lparr>admission_pumping := True\<rparr>))"

text \<open>The candidate loop: unknown sequences are erased on the way, executing nodes are passed over.\<close>

fun scan_fifo :: "(sequence \<rightharpoonup> AdmissionNode) \<Rightarrow> sequence list \<Rightarrow> sequence list \<times> sequence option" where
  "scan_fifo nodes [] = ([], None)"
| "scan_fifo nodes (s # rest) =
     (case nodes s of
        None \<Rightarrow> scan_fifo nodes rest
      | Some node \<Rightarrow>
          if \<not> executing node then (s # rest, Some s)
          else let (rest, candidate) = scan_fifo nodes rest in (s # rest, candidate))"

text \<open>One turn of the pump's loop; \<open>None\<close> where the pump stops and gives up its flag.\<close>

definition pump_select :: "QueueState \<Rightarrow> QueueState \<times> (sequence \<times> callback option) option" where
  "pump_select st =
     (if admission_closing st \<or> admission_credits st \<ge> admission_capacity st \<or> admission_fifo st = []
      then (st\<lparr>admission_pumping := False\<rparr>, None)
      else case scan_fifo (admission_nodes st) (admission_fifo st) of
        (fifo, None) \<Rightarrow> (st\<lparr>admission_fifo := fifo, admission_pumping := False\<rparr>, None)
      | (fifo, Some sequence) \<Rightarrow>
          let node = the (admission_nodes st sequence) in
          (st\<lparr>admission_fifo := fifo,
              admission_nodes := (admission_nodes st)(sequence \<mapsto> node\<lparr>dispatch := None, executing := True\<rparr>),
              admission_credits := admission_credits st + 1\<rparr>,
           Some (sequence, dispatch node)))"

text \<open>\<open>catch (const AdmissionResourceUnavailable&)\<close>: the node is parked again and the pump returns.\<close>

definition pump_unavailable :: "QueueState \<Rightarrow> sequence \<Rightarrow> callback option \<Rightarrow> QueueState" where
  "pump_unavailable st sequence d =
     (case admission_nodes st sequence of
        None \<Rightarrow> st\<lparr>admission_pumping := False\<rparr>
      | Some node \<Rightarrow> st\<lparr>
          admission_nodes := (admission_nodes st)(sequence \<mapsto> node\<lparr>dispatch := d, executing := False\<rparr>),
          admission_credits := (if admission_credits st \<noteq> 0 then admission_credits st - 1 else admission_credits st),
          admission_pumping := False\<rparr>)"

text \<open>
  \<open>catch (...)\<close>, the locked scope: a failure before acceptance removes the node (the result says
  whether there was one), a later failure takes the rollback out of the node.
\<close>

definition pump_failed_before ::
  "QueueState \<Rightarrow> sequence \<Rightarrow> QueueState \<times> callback option \<times> bool" where
  "pump_failed_before st sequence =
     (case admission_nodes st sequence of
        None \<Rightarrow> (st, None, False)
      | Some node \<Rightarrow>
          (st\<lparr>admission_credits := (if executing node \<and> admission_credits st \<noteq> 0
                 then admission_credits st - 1 else admission_credits st),
              admission_nodes := (admission_nodes st)(sequence := None),
              admission_fifo := remove1 sequence (admission_fifo st)\<rparr>,
           rollback node, True))"

definition pump_failed_after :: "QueueState \<Rightarrow> sequence \<Rightarrow> QueueState \<times> callback option" where
  "pump_failed_after st sequence =
     (case admission_nodes st sequence of
        None \<Rightarrow> (st, None)
      | Some node \<Rightarrow>
          (st\<lparr>admission_nodes := (admission_nodes st)(sequence \<mapsto> node\<lparr>rollback := None\<rparr>)\<rparr>,
           rollback node))"

section \<open>Completion\<close>

text \<open>
  The result says whether the pump is called afterwards. \<open>None\<close> stands for the early return of an
  unknown sequence that already failed, after which nothing is pumped.
\<close>

definition complete :: "QueueState \<Rightarrow> sequence \<Rightarrow> exn option \<Rightarrow> (QueueState \<times> bool) throws" where
  "complete st sequence failure =
     (if sequence = 0 then Inl InvalidArgument
      else if sequence \<ge> next_sequence st then Inl InvalidArgument
      else case admission_nodes st sequence of
        None \<Rightarrow>
          if failures st sequence \<noteq> None then Inr (st, False) else Inl InvalidArgument
      | Some node \<Rightarrow>
          let failure = (case failure of Some e \<Rightarrow> Some e | None \<Rightarrow> pending_failures st sequence) in
          Inr (st\<lparr>
            pending_failures := (pending_failures st)(sequence := None),
            failures := (case failure of
                None \<Rightarrow> failures st
              | Some e \<Rightarrow> if failures st sequence = None then (failures st)(sequence \<mapsto> e) else failures st),
            admission_credits := (if executing node \<and> admission_credits st \<noteq> 0
                then admission_credits st - 1 else admission_credits st),
            admission_nodes := (admission_nodes st)(sequence := None),
            admission_fifo := remove1 sequence (admission_fifo st),
            completed := (if completed st < sequence then sequence else completed st)\<rparr>,
            \<not> admission_closing st))"

definition record_post_completion_failure :: "QueueState \<Rightarrow> sequence \<Rightarrow> exn \<Rightarrow> QueueState" where
  "record_post_completion_failure st sequence failure =
     (if failures st sequence = None
      then st\<lparr>failures := (failures st)(sequence \<mapsto> failure)\<rparr> else st)"

text \<open>
  The lookup of \<open>skipped_sequences_\<close>: the last interval that starts at or before the sequence. The
  map's keys are finite.
\<close>

definition skipped :: "QueueState \<Rightarrow> sequence \<Rightarrow> bool" where
  "skipped st sequence =
     (let starts = {k \<in> dom (skipped_sequences st). k \<le> sequence} in
      starts \<noteq> {} \<and> the (skipped_sequences st (Max starts)) > sequence)"

definition commit_failure :: "QueueState \<Rightarrow> sequence \<Rightarrow> exn option \<Rightarrow> QueueState throws" where
  "commit_failure st sequence failure =
     (if sequence = 0 then Inl InvalidArgument
      else case failure of
        None \<Rightarrow> Inl InvalidArgument
      | Some e \<Rightarrow>
          if sequence \<ge> next_sequence st then Inl InvalidArgument
          else if sequence \<le> completed st then Inl InvalidArgument
          else if skipped st sequence then Inl InvalidArgument
          else Inr (st\<lparr>pending_failures := (pending_failures st)(sequence \<mapsto> e)\<rparr>))"

definition seek_next_sequence :: "QueueState \<Rightarrow> sequence \<Rightarrow> QueueState throws" where
  "seek_next_sequence st next =
     (if next = 0 \<or> next < next_sequence st \<or> next > kMaxSequence + 1 then Inl InvalidArgument
      else Inr (st\<lparr>
        skipped_sequences := (if next > next_sequence st \<and> skipped_sequences st (next_sequence st) = None
          then (skipped_sequences st)(next_sequence st \<mapsto> next) else skipped_sequences st),
        next_sequence := next\<rparr>))"

section \<open>Waiting\<close>

text \<open>
  Token checks, the condition of the condition variable, and the result once it holds.
  \<open>fence_through_sequence\<close> is virtual and empty here.
\<close>

definition wait_sequence :: "QueueState \<Rightarrow> oid \<Rightarrow> sequence throws" where
  "wait_sequence st token =
     (if sint token \<le> 0 then Inl InvalidArgument
      else let owner = drop_bit kSequenceBits token; sequence = token AND kSequenceMask in
      if owner = 0 then Inl InvalidArgument
      else if sequence = 0 then Inl InvalidArgument
      else if owner \<noteq> ucast (queue_id st) then Inl InvalidArgument
      else if sequence \<ge> next_sequence st then Inl InvalidArgument
      else if skipped st sequence then Inl InvalidArgument
      else Inr sequence)"

definition wait_ready :: "QueueState \<Rightarrow> sequence \<Rightarrow> bool" where
  "wait_ready st sequence = (completed st \<ge> sequence \<or> failures st sequence \<noteq> None)"

definition wait_result :: "QueueState \<Rightarrow> sequence \<Rightarrow> unit throws" where
  "wait_result st sequence = (case failures st sequence of Some e \<Rightarrow> Inl e | None \<Rightarrow> Inr ())"

section \<open>Teardown\<close>

definition close_admission :: "QueueState \<Rightarrow> QueueState" where
  "close_admission st = st\<lparr>admission_closing := True\<rparr>"

definition parked :: "QueueState \<Rightarrow> sequence list" where
  "parked st = filter (\<lambda>s. case admission_nodes st s of Some node \<Rightarrow> \<not> executing node | None \<Rightarrow> False)
     (admission_fifo st)"

text \<open>Taking the rollback of one parked node; \<open>None\<close> where the loop continues with the next one.\<close>

definition drain_take :: "QueueState \<Rightarrow> sequence \<Rightarrow> (QueueState \<times> callback option) option" where
  "drain_take st sequence =
     (case admission_nodes st sequence of
        None \<Rightarrow> None
      | Some node \<Rightarrow>
          if executing node then None
          else Some (st\<lparr>admission_nodes := (admission_nodes st)(sequence \<mapsto> node\<lparr>rollback := None\<rparr>)\<rparr>,
                     rollback node))"

section \<open>Interleavings\<close>

text \<open>
  Where a thread is between two locked scopes. \<open>sync\<close> is the sequence for which \<open>pump_admission\<close> was
  called synchronously by its submitter. The pump that \<open>complete\<close> calls at its end is a frame of its
  own, so a nested call is one more thread: the relation has every interleaving the code has. The
  flag \<open>exhaustion\<close> says whether a dispatch may report \<open>AdmissionResourceUnavailable\<close>.
\<close>

datatype frame =
    Prepare sequence "callback option" "callback option"
  | Admit sequence "callback option" "callback option"
  | Abandon sequence
  | PumpEnter "sequence option"
  | PumpLoop "sequence option"
  | Dispatching sequence "callback option" "sequence option"
  | AbandonLoop sequence "sequence option"
  | CompleteLoop sequence exn "sequence option"
  | DrainCollect
  | Drain "sequence list"
  | DrainComplete sequence "sequence list"

type_synonym system = "QueueState \<times> frame multiset"

definition repump :: "bool \<Rightarrow> frame multiset \<Rightarrow> frame multiset" where
  "repump again P = (if again then add_mset (PumpEnter None) P else P)"

inductive step :: "bool \<Rightarrow> system \<Rightarrow> system \<Rightarrow> bool" for exhaustion :: bool where
  submit: "reserve_sequence st = Inr (s, st') \<Longrightarrow>
    step exhaustion (st, P) (st', add_mset (Prepare s d r) P)"
| prepared: "step exhaustion (st, add_mset (Prepare s d r) P) (st, add_mset (Admit s d r) P)"
| prepare_failed: "step exhaustion (st, add_mset (Prepare s d r) P) (st, add_mset (Abandon s) P)"
| admitted: "admit st s d r = Inr st' \<Longrightarrow>
    step exhaustion (st, add_mset (Admit s d r) P) (st', add_mset (PumpEnter (Some s)) P)"
| admit_failed: "step exhaustion (st, add_mset (Admit s d r) P) (st, add_mset (Abandon s) P)"
| abandoned: "step exhaustion (st, add_mset (Abandon s) P) (abandon_sequence st s, P)"
| pump_return: "pump_enter st = None \<Longrightarrow> step exhaustion (st, add_mset (PumpEnter sync) P) (st, P)"
| pump_entered: "pump_enter st = Some st' \<Longrightarrow>
    step exhaustion (st, add_mset (PumpEnter sync) P) (st', add_mset (PumpLoop sync) P)"
| pump_stop: "pump_select st = (st', None) \<Longrightarrow>
    step exhaustion (st, add_mset (PumpLoop sync) P) (st', P)"
| pump_dispatch: "pump_select st = (st', Some (s, d)) \<Longrightarrow>
    step exhaustion (st, add_mset (PumpLoop sync) P) (st', add_mset (Dispatching s d sync) P)"
| dispatched: "step exhaustion (st, add_mset (Dispatching s d sync) P) (st, add_mset (PumpLoop sync) P)"
| unavailable: "exhaustion \<Longrightarrow>
    step exhaustion (st, add_mset (Dispatching s d sync) P) (pump_unavailable st s d, P)"
| failed_before: "pump_failed_before st s = (st', r, True) \<Longrightarrow>
    step exhaustion (st, add_mset (Dispatching s d (Some s)) P) (st', add_mset (AbandonLoop s (Some s)) P)"
| failed_gone: "pump_failed_before st s = (st', r, False) \<Longrightarrow>
    step exhaustion (st, add_mset (Dispatching s d (Some s)) P) (st', add_mset (PumpLoop (Some s)) P)"
| failed_after: "pump_failed_after st s = (st', r) \<Longrightarrow> sync \<noteq> Some s \<Longrightarrow>
    step exhaustion (st, add_mset (Dispatching s d sync) P) (st', add_mset (CompleteLoop s e sync) P)"
| abandon_loop: "step exhaustion (st, add_mset (AbandonLoop s sync) P)
    (abandon_sequence st s, add_mset (PumpLoop sync) P)"
| complete_loop: "complete st s (Some e) = Inr (st', again) \<Longrightarrow>
    step exhaustion (st, add_mset (CompleteLoop s e sync) P) (st', add_mset (PumpLoop sync) (repump again P))"
| complete_loop_failed: "complete st s (Some e) = Inl x \<Longrightarrow>
    step exhaustion (st, add_mset (CompleteLoop s e sync) P) (st, add_mset (PumpLoop sync) P)"
| completes: "complete st s f = Inr (st', again) \<Longrightarrow> step exhaustion (st, P) (st', repump again P)"
| retain: "commit_failure st s f = Inr st' \<Longrightarrow> step exhaustion (st, P) (st', P)"
| record_failure: "step exhaustion (st, P) (record_post_completion_failure st s e, P)"
| seek: "seek_next_sequence st n = Inr st' \<Longrightarrow> step exhaustion (st, P) (st', P)"
| close: "step exhaustion (st, P) (close_admission st, add_mset DrainCollect P)"
| drain_collect: "step exhaustion (st, add_mset DrainCollect P) (st, add_mset (Drain (parked st)) P)"
| drain_done: "step exhaustion (st, add_mset (Drain []) P) (st, P)"
| drain_skip: "drain_take st s = None \<Longrightarrow>
    step exhaustion (st, add_mset (Drain (s # ss)) P) (st, add_mset (Drain ss) P)"
| drain_taken: "drain_take st s = Some (st', r) \<Longrightarrow>
    step exhaustion (st, add_mset (Drain (s # ss)) P) (st', add_mset (DrainComplete s ss) P)"
| drain_complete: "complete st s (Some RuntimeError) = Inr (st', again) \<Longrightarrow>
    step exhaustion (st, add_mset (DrainComplete s ss) P) (st', add_mset (Drain ss) (repump again P))"
| drain_complete_failed: "complete st s (Some RuntimeError) = Inl x \<Longrightarrow>
    step exhaustion (st, add_mset (DrainComplete s ss) P) (st, add_mset (Drain ss) P)"

definition reachable :: "bool \<Rightarrow> QueueState \<Rightarrow> system \<Rightarrow> bool" where
  "reachable exhaustion st0 x \<longleftrightarrow> (step exhaustion)\<^sup>*\<^sup>* (st0, {#}) x"

section \<open>Tokens and identifiers are what they promise\<close>

lemma token_masks: "kSequenceBits = 55" "kSequenceMask = mask 55" "kMaxSequence = mask 55"
  by (simp_all add: kSequenceBits_def kSequenceMask_def kMaxSequence_def mask_eq_decr_exp push_bit_eq_mult)

lemma encode_token_bits:
  assumes "s \<le> kMaxSequence"
  shows "drop_bit 55 (encode_token q s) = ucast q" "take_bit 55 (encode_token q s) = s"
    and "unat (encode_token q s) = unat q * 2 ^ 55 + unat s"
proof -
  have small: "unat s < 2 ^ 55"
    using assms by (simp add: token_masks word_le_nat_alt mask_eq_decr_exp)
  then have s: "take_bit 55 s = s"
    by (simp add: word_unat_eq_iff unsigned_take_bit_eq take_bit_nat_eq_self)
  have q: "unat q < 256" using unsigned_less [of q] by simp
  have "unat (push_bit 55 (ucast q) :: sequence) = unat q * 2 ^ 55"
    using q by (simp add: push_bit_eq_mult unat_word_ariths unsigned_ucast_eq take_bit_nat_eq_self)
  moreover have "push_bit 55 (ucast q) AND s = 0"
  proof (rule bit_word_eqI)
    fix n
    assume "n < LENGTH(64)"
    show "bit (push_bit 55 (ucast q) AND s) n = bit 0 n"
    proof (cases "n < 55")
      case False
      then have "\<not> bit (take_bit 55 s) n" by (simp add: bit_simps)
      then show ?thesis by (simp add: s bit_simps)
    qed (simp add: bit_simps)
  qed
  then have sum: "encode_token q s = push_bit 55 (ucast q) + s"
    by (simp add: encode_token_def token_masks disjunctive_add_eq_or)
  ultimately show "unat (encode_token q s) = unat q * 2 ^ 55 + unat s"
    using small q by (simp add: unat_word_ariths)
  show "take_bit 55 (encode_token q s) = s"
    by (simp add: encode_token_def token_masks take_bit_push_bit s)
  show "drop_bit 55 (encode_token q s) = ucast q"
  proof (rule bit_word_eqI)
    fix n
    assume "n < LENGTH(64)"
    have "\<not> bit (take_bit 55 s) (n + 55)" by (simp add: bit_simps)
    then have "\<not> bit s (n + 55)" by (simp add: s)
    moreover have "bit q n \<Longrightarrow> n < 8" using bit_imp_le_length [of q n] by simp
    ultimately show "bit (drop_bit 55 (encode_token q s)) n = bit (ucast q :: sequence) n"
      by (auto simp: encode_token_def token_masks bit_simps ac_simps)
  qed
qed

lemma encode_token_positive:
  assumes "s \<le> kMaxSequence" "s \<noteq> 0"
  shows "0 < sint (encode_token q s)"
proof -
  have q: "unat q < 256" using unsigned_less [of q] by simp
  have s: "unat s < 2 ^ 55" "0 < unat s"
    using assms by (simp_all add: token_masks word_le_nat_alt mask_eq_decr_exp unat_gt_0)
  have u: "unat (encode_token q s) = unat q * 2 ^ 55 + unat s"
    using assms by (simp add: encode_token_bits)
  have "uint (encode_token q s) = int (unat (encode_token q s))" by simp
  then have i: "uint (encode_token q s) = int (unat q * 2 ^ 55 + unat s)" unfolding u .
  have "unat q * 2 ^ 55 + unat s < 2 ^ 63" using q s by simp
  then have "int (unat q * 2 ^ 55 + unat s) < int (2 ^ 63)" by (simp only: of_nat_less_iff)
  then have "uint (encode_token q s) < 2 ^ 63" unfolding i by simp
  then have signed: "sint (encode_token q s) = uint (encode_token q s)"
    unfolding sint_uint by (simp add: signed_take_bit_int_eq_self order_trans [OF _ uint_ge_0])
  have "0 < unat q * 2 ^ 55 + unat s" using s by simp
  then have "0 < int (unat q * 2 ^ 55 + unat s)" by (simp only: of_nat_0_less_iff)
  then show ?thesis unfolding signed i .
qed

lemma first_clear_SomeD:
  "first_clear i bs = Some j \<Longrightarrow> i \<le> j \<and> j - i < length bs \<and> \<not> bs ! (j - i) \<and> (\<forall>k < j - i. bs ! k)"
proof (induction bs arbitrary: i)
  case (Cons b bs)
  show ?case
  proof (cases b)
    case True
    then have IH: "Suc i \<le> j \<and> j - Suc i < length bs \<and> \<not> bs ! (j - Suc i) \<and> (\<forall>k < j - Suc i. bs ! k)"
      using Cons by simp
    then obtain d where d: "j - i = Suc d" "j - Suc i = d" by (metis Suc_diff_le diff_Suc_Suc)
    show ?thesis using IH d True by (auto simp: nth_Cons split: nat.split)
  qed (use Cons.prems in simp)
qed simp

lemma first_clear_None_iff: "first_clear i bs = None \<longleftrightarrow> (\<forall>b \<in> set bs. b)"
  by (induction bs arbitrary: i) auto

lemma of_nat_queue_id:
  assumes "i < 255"
  shows "unat (of_nat (i + 1) :: 8 word) = i + 1" "(of_nat (i + 1) :: 8 word) \<noteq> 0"
proof -
  show u: "unat (of_nat (i + 1) :: 8 word) = i + 1"
    using assms by (simp only: unsigned_of_nat) (simp add: take_bit_nat_eq_self)
  show "(of_nat (i + 1) :: 8 word) \<noteq> 0"
    using u by (metis Suc_eq_plus1 nat.distinct(1) unsigned_0)
qed

section \<open>Invariants of the queue's state\<close>

text \<open>The sequence a frame holds: reserved, and not or no longer admitted.\<close>

fun holds :: "frame \<Rightarrow> sequence multiset" where
  "holds (Prepare s d r) = {#s#}"
| "holds (Admit s d r) = {#s#}"
| "holds (Abandon s) = {#s#}"
| "holds (AbandonLoop s sync) = {#s#}"
| "holds _ = {#}"

fun is_pump :: "frame \<Rightarrow> bool" where
  "is_pump (PumpLoop sync) = True"
| "is_pump (Dispatching s d sync) = True"
| "is_pump (AbandonLoop s sync) = True"
| "is_pump (CompleteLoop s e sync) = True"
| "is_pump _ = False"

definition pumps :: "frame multiset \<Rightarrow> nat" where
  "pumps P = size (filter_mset is_pump P)"

definition held :: "frame multiset \<Rightarrow> sequence multiset" where
  "held P = (\<Sum>f\<in>#P. holds f)"

definition live :: "QueueState \<Rightarrow> frame multiset \<Rightarrow> sequence multiset" where
  "live st P = held P + mset (admission_fifo st)"

text \<open>The sequence whose dispatch callback a frame runs.\<close>

fun dispatches :: "frame \<Rightarrow> sequence set" where
  "dispatches (Dispatching s d sync) = {s}"
| "dispatches _ = {}"

definition dispatching :: "frame multiset \<Rightarrow> sequence set" where
  "dispatching P = (\<Union>f \<in> set_mset P. dispatches f)"

definition executes :: "QueueState \<Rightarrow> sequence \<Rightarrow> bool" where
  "executes st s = (case admission_nodes st s of Some node \<Rightarrow> executing node | None \<Rightarrow> False)"

text \<open>The FIFO lists exactly the admitted nodes, once each, and every credit is an executing node.\<close>

definition nodes_ok :: "QueueState \<Rightarrow> bool" where
  "nodes_ok st \<longleftrightarrow>
     distinct (admission_fifo st) \<and> set (admission_fifo st) = dom (admission_nodes st) \<and>
     unat (admission_credits st) = length (filter (executes st) (admission_fifo st)) \<and>
     admission_credits st \<le> admission_capacity st"

text \<open>
  No sequence is held twice, and every held or admitted sequence lies below the next one and outside
  every skipped interval.
\<close>

definition sequences_ok :: "QueueState \<Rightarrow> sequence multiset \<Rightarrow> bool" where
  "sequences_ok st M \<longleftrightarrow>
     0 < next_sequence st \<and> next_sequence st \<le> kMaxSequence + 1 \<and> completed st < next_sequence st \<and>
     (\<forall>s. count M s \<le> 1) \<and> (\<forall>s \<in># M. 0 < s \<and> s < next_sequence st) \<and>
     finite (dom (skipped_sequences st)) \<and>
     (\<forall>k v. skipped_sequences st k = Some v \<longrightarrow>
        k < v \<and> v \<le> next_sequence st \<and> (\<forall>s \<in># M. s < k \<or> v \<le> s))"

text \<open>At most one thread pumps, and the flag says whether one does.\<close>

definition pumping_ok :: "QueueState \<Rightarrow> frame multiset \<Rightarrow> bool" where
  "pumping_ok st P \<longleftrightarrow> pumps P = (if admission_pumping st then 1 else 0)"

text \<open>A sequence whose dispatch runs is never reserved again, and while it is admitted it executes.\<close>

definition dispatching_ok :: "QueueState \<Rightarrow> sequence multiset \<Rightarrow> sequence set \<Rightarrow> bool" where
  "dispatching_ok st M D \<longleftrightarrow>
     (\<forall>s \<in> D. s < next_sequence st \<and> s \<notin># M \<and>
        (\<forall>node. admission_nodes st s = Some node \<longrightarrow> executing node))"

definition queue_ok :: "system \<Rightarrow> bool" where
  "queue_ok x \<longleftrightarrow> (case x of (st, P) \<Rightarrow> nodes_ok st \<and> sequences_ok st (live st P) \<and> pumping_ok st P \<and>
     dispatching_ok st (held P) (dispatching P))"

subsection \<open>Sequences\<close>

lemma sequences_okI:
  assumes "0 < next_sequence st" "next_sequence st \<le> kMaxSequence + 1" "completed st < next_sequence st"
    and "\<And>s. count M s \<le> 1" "\<And>s. s \<in># M \<Longrightarrow> 0 < s \<and> s < next_sequence st"
    and "finite (dom (skipped_sequences st))"
    and "\<And>k v. skipped_sequences st k = Some v \<Longrightarrow>
        k < v \<and> v \<le> next_sequence st \<and> (\<forall>s \<in># M. s < k \<or> v \<le> s)"
  shows "sequences_ok st M"
  using assms unfolding sequences_ok_def by blast

lemma sequences_okD:
  assumes "sequences_ok st M"
  shows "0 < next_sequence st" "next_sequence st \<le> kMaxSequence + 1" "completed st < next_sequence st"
    and "count M s \<le> 1" "s \<in># M \<Longrightarrow> 0 < s \<and> s < next_sequence st"
    and "finite (dom (skipped_sequences st))"
    and "skipped_sequences st k = Some v \<Longrightarrow>
        k < v \<and> v \<le> next_sequence st \<and> (\<forall>s \<in># M. s < k \<or> v \<le> s)"
  using assms unfolding sequences_ok_def by blast+

lemma sequences_ok_mono:
  assumes "sequences_ok st M" "N \<subseteq># M"
    and "next_sequence st' = next_sequence st" "skipped_sequences st' = skipped_sequences st"
    and "completed st' < next_sequence st"
  shows "sequences_ok st' N"
proof -
  have "count N s \<le> 1" for s
    using assms(1,2) mset_subset_eq_count [of N M s] le_trans unfolding sequences_ok_def by blast
  moreover have "s \<in># M" if "s \<in># N" for s using assms(2) that by (rule mset_subset_eqD)
  ultimately show ?thesis using assms unfolding sequences_ok_def by metis
qed

lemma max_sequence_word: "kMaxSequence = 0x7FFFFFFFFFFFFF" "kMaxSequence + 1 = 0x80000000000000"
  by (simp_all add: token_masks mask_eq_decr_exp)

lemma sequence_succ:
  fixes n s :: sequence
  assumes "n \<le> kMaxSequence"
  shows "s < n + 1 \<longleftrightarrow> s \<le> n" "n + 1 \<le> s \<longleftrightarrow> n < s" "n + 1 \<le> kMaxSequence + 1" "0 < n + 1"
proof -
  have small: "unat n \<le> 2 ^ 55 - 1"
    using assms by (simp add: word_le_nat_alt token_masks mask_eq_decr_exp)
  then have u: "unat (n + 1) = unat n + 1" by (simp add: unat_word_ariths)
  show "s < n + 1 \<longleftrightarrow> s \<le> n" unfolding word_less_nat_alt word_le_nat_alt u by linarith
  show "n + 1 \<le> s \<longleftrightarrow> n < s" unfolding word_less_nat_alt word_le_nat_alt u by linarith
  show "n + 1 \<le> kMaxSequence + 1"
    unfolding max_sequence_word word_le_nat_alt u using small by simp
  show "0 < n + 1" unfolding word_less_nat_alt u by simp
qed

lemma reserve_sequence_ok:
  assumes "reserve_sequence st = Inr (s, st')" "sequences_ok st M"
  shows "sequences_ok st' (add_mset s M)"
proof -
  from assms(1) have s: "s = next_sequence st" "next_sequence st \<le> kMaxSequence"
    and st': "st' = st\<lparr>next_sequence := next_sequence st + 1\<rparr>"
    by (auto simp: reserve_sequence_def not_less split: if_splits)
  note succ = sequence_succ [OF s(2)]
  note ok = sequences_okD [OF assms(2)]
  have fresh: "count M s = 0" using ok(5) [of s] s(1) by (auto simp: not_in_iff [symmetric])
  show ?thesis
  proof (rule sequences_okI)
    show "count (add_mset s M) t \<le> 1" for t using ok(4) [of t] fresh by (cases "t = s") simp_all
    show "0 < t \<and> t < next_sequence st'" if "t \<in># add_mset s M" for t
    proof (cases "t = s")
      case False
      then have "0 < t" "t < next_sequence st" using ok(5) [of t] that by simp_all
      then show ?thesis using succ(1) [of t] by (simp add: st' less_imp_le)
    qed (use ok(1) s(1) succ(1) in \<open>simp add: st'\<close>)
    show "k < v \<and> v \<le> next_sequence st' \<and> (\<forall>t \<in># add_mset s M. t < k \<or> v \<le> t)"
      if "skipped_sequences st' k = Some v" for k v
    proof -
      have kv: "k < v \<and> v \<le> next_sequence st \<and> (\<forall>t \<in># M. t < k \<or> v \<le> t)"
        using ok(7) [of k v] that by (simp add: st')
      have "next_sequence st \<le> next_sequence st + 1"
        using succ(1) [of "next_sequence st"] by (simp add: less_imp_le)
      then show ?thesis using kv s(1) by (auto simp: st' intro: order_trans)
    qed
  qed (use ok succ in \<open>simp_all add: st' less_imp_le\<close>)
qed

lemma seek_next_sequence_ok:
  assumes "seek_next_sequence st n = Inr st'" "sequences_ok st M"
  shows "sequences_ok st' M"
proof -
  have n: "0 < n" "next_sequence st \<le> n" "n \<le> kMaxSequence + 1"
    and st': "st' = st\<lparr>
        skipped_sequences := (if n > next_sequence st \<and> skipped_sequences st (next_sequence st) = None
          then (skipped_sequences st)(next_sequence st \<mapsto> n) else skipped_sequences st),
        next_sequence := n\<rparr>"
    using assms(1) by (auto simp: seek_next_sequence_def not_less word_neq_0_conv split: if_splits)
  note ok = sequences_okD [OF assms(2)]
  show ?thesis
  proof (rule sequences_okI)
    show "0 < t \<and> t < next_sequence st'" if "t \<in># M" for t
      using ok(5) [OF that] n(2) order.strict_trans2 by (auto simp: st')
    show "k < v \<and> v \<le> next_sequence st' \<and> (\<forall>t \<in># M. t < k \<or> v \<le> t)"
      if sk: "skipped_sequences st' k = Some v" for k v
    proof (cases "skipped_sequences st k = Some v")
      case True
      show ?thesis using ok(7) [OF True] order_trans [OF _ n(2)] by (simp add: st')
    next
      case False
      then have "k = next_sequence st" "v = n" "next_sequence st < n"
        using sk by (auto simp: st' split: if_splits)
      then show ?thesis using ok(5) by (auto simp: st')
    qed
    show "completed st' < next_sequence st'" using order.strict_trans2 [OF ok(3) n(2)] by (simp add: st')
  qed (use n ok in \<open>simp_all add: st'\<close>)
qed

lemma abandon_sequence_ok:
  assumes "sequences_ok st (add_mset s M)"
  shows "sequences_ok (abandon_sequence st s) M"
proof -
  note ok = sequences_okD [OF assms]
  have s: "0 < s" "s < next_sequence st" using ok(5) [of s] by simp_all
  have max: "s \<le> kMaxSequence"
    using s(2) ok(2) unfolding max_sequence_word word_le_nat_alt word_less_nat_alt by simp
  note succ = sequence_succ [OF this]
  have "s \<notin># M" using ok(4) [of s] by (simp add: not_in_iff)
  then have other: "t \<noteq> s" if "t \<in># M" for t using that by blast
  have once: "count M t \<le> 1" for t using ok(4) [of t] by (simp split: if_splits)
  show ?thesis
  proof (cases "next_sequence st = s + 1 \<and> completed st < s")
    case True
    have st': "next_sequence (abandon_sequence st s) = s" "completed (abandon_sequence st s) = completed st"
      "skipped_sequences (abandon_sequence st s) = skipped_sequences st"
      using True by (simp_all add: abandon_sequence_def Let_def)
    show ?thesis
    proof (rule sequences_okI; (unfold st')?)
      show "s \<le> kMaxSequence + 1" using order.strict_trans2 [OF s(2) ok(2)] by (rule less_imp_le)
      show "0 < t \<and> t < s" if "t \<in># M" for t
        using ok(5) [of t] other [OF that] that True succ(1) by (simp add: order_less_le)
      show "k < v \<and> v \<le> s \<and> (\<forall>t \<in># M. t < k \<or> v \<le> t)"
        if "skipped_sequences st k = Some v" for k v
      proof -
        have kv: "k < v" "v \<le> s + 1" "s < k \<or> v \<le> s" and "\<forall>t \<in># M. t < k \<or> v \<le> t"
          using ok(7) [OF that] True by simp_all
        moreover have "\<not> s < k" using kv(1,2) succ(2) [of k] by (meson leD order.strict_trans2)
        ultimately show ?thesis by blast
      qed
    qed (use s once ok True in simp_all)
  next
    case False
    have st': "next_sequence (abandon_sequence st s) = next_sequence st"
      "completed (abandon_sequence st s) = completed st"
      using False by (auto simp: abandon_sequence_def Let_def)
    have sk: "skipped_sequences (abandon_sequence st s) =
        (if skipped_sequences st s = None then (skipped_sequences st)(s \<mapsto> s + 1) else skipped_sequences st)"
      using False by (auto simp: abandon_sequence_def Let_def)
    show ?thesis
    proof (rule sequences_okI; (unfold st')?)
      show "k < v \<and> v \<le> next_sequence st \<and> (\<forall>t \<in># M. t < k \<or> v \<le> t)"
        if "skipped_sequences (abandon_sequence st s) k = Some v" for k v
      proof (cases "skipped_sequences st k = Some v")
        case True
        then show ?thesis using ok(7) [OF True] by simp
      next
        case False
        then have "k = s" "v = s + 1" using that by (auto simp: sk split: if_splits)
        then show ?thesis using succ s other by (auto simp: order_less_le)
      qed
      show "finite (dom (skipped_sequences (abandon_sequence st s)))" using ok(6) by (simp add: sk)
    qed (use ok once in simp_all)
  qed
qed

subsection \<open>Nodes, FIFO and credits\<close>

lemma held_simps [simp]: "held {#} = {#}" "held (add_mset f P) = holds f + held P"
  by (simp_all add: held_def)

lemma dispatching_simps [simp]:
  "dispatching {#} = {}" "dispatching (add_mset f P) = dispatches f \<union> dispatching P"
  by (simp_all add: dispatching_def)

lemma pumps_simps [simp]: "pumps {#} = 0" "pumps (add_mset f P) = (if is_pump f then Suc (pumps P) else pumps P)"
  by (simp_all add: pumps_def)

lemma no_pump_dispatching:
  assumes "pumps P = 0"
  shows "dispatching P = {}"
proof -
  have "dispatches f = {}" if "f \<in># P" for f
    using assms that by (cases f) (auto simp: pumps_def)
  then show ?thesis by (simp add: dispatching_def)
qed

lemma repump_simps [simp]:
  "held (repump again P) = held P" "dispatching (repump again P) = dispatching P"
  "pumps (repump again P) = pumps P"
  by (simp_all add: repump_def)

lemma nodes_ok_remove:
  assumes "nodes_ok st" "admission_nodes st s = Some node"
    and "admission_nodes st' = (admission_nodes st)(s := None)"
    and "admission_fifo st' = remove1 s (admission_fifo st)"
    and credits: "admission_credits st' = (if executing node \<and> admission_credits st \<noteq> 0
           then admission_credits st - 1 else admission_credits st)"
    and "admission_capacity st' = admission_capacity st"
  shows "nodes_ok st'"
proof -
  let ?E = "filter (executes st) (admission_fifo st)"
  have ok: "distinct (admission_fifo st)" "set (admission_fifo st) = dom (admission_nodes st)"
    "unat (admission_credits st) = length ?E" "admission_credits st \<le> admission_capacity st"
    using assms(1) unfolding nodes_ok_def by blast+
  have "filter (executes st') (remove1 s (admission_fifo st)) = filter (executes st) (remove1 s (admission_fifo st))"
    using ok(1) assms(3) by (intro filter_cong) (auto simp: executes_def)
  also have "\<dots> = remove1 s ?E" by (rule filter_remove1)
  finally have E: "length (filter (executes st') (admission_fifo st')) = (if s \<in> set ?E then length ?E - 1 else length ?E)"
    by (simp add: assms(4) length_remove1)
  have s: "s \<in> set (admission_fifo st)" "executes st s = executing node"
    using assms(2) ok(2) by (auto simp: executes_def)
  have "unat (admission_credits st') = length (filter (executes st') (admission_fifo st')) \<and>
      admission_credits st' \<le> admission_credits st"
  proof (cases "executing node")
    case True
    then have "?E \<noteq> []" using s by (auto simp: filter_empty_conv)
    then have "admission_credits st \<noteq> 0" using ok(3) by auto
    moreover from this have "unat (admission_credits st - 1) = unat (admission_credits st) - 1"
      by (simp add: unat_minus_one)
    ultimately show ?thesis using True E s ok(3) credits by (simp add: word_le_nat_alt)
  qed (use E s ok(3) credits in simp)
  moreover have "set (admission_fifo st') = dom (admission_nodes st')"
    using ok(1,2) assms(3,4) by auto
  ultimately show ?thesis
    using ok(1,4) assms(4,6) unfolding nodes_ok_def by (auto intro: order_trans)
qed

lemma nodes_ok_update:
  assumes "nodes_ok st" "admission_nodes st s = Some node" "executing node' = executing node"
    and "admission_nodes st' = (admission_nodes st)(s \<mapsto> node')"
    and "admission_fifo st' = admission_fifo st" "admission_credits st' = admission_credits st"
    and "admission_capacity st' = admission_capacity st"
  shows "nodes_ok st'"
proof -
  have "executes st' = executes st" using assms(2-4) by (auto simp: executes_def fun_eq_iff)
  then show ?thesis using assms unfolding nodes_ok_def by auto
qed

lemma nodes_ok_cong:
  assumes "admission_nodes st' = admission_nodes st" "admission_fifo st' = admission_fifo st"
    and "admission_credits st' = admission_credits st" "admission_capacity st' = admission_capacity st"
  shows "nodes_ok st' \<longleftrightarrow> nodes_ok st"
proof -
  have "executes st' = executes st" using assms(1) by (auto simp: executes_def fun_eq_iff)
  then show ?thesis using assms unfolding nodes_ok_def by simp
qed

lemma filter_flip:
  assumes "distinct xs" "x \<in> set xs" "\<And>y. y \<noteq> x \<Longrightarrow> Q y = P y" "Q x" "\<not> P x"
  shows "length (filter Q xs) = Suc (length (filter P xs))"
  using assms(1,2)
proof (induction xs)
  case (Cons y ys)
  show ?case
  proof (cases "y = x")
    case True
    then have "Q z = P z" if "z \<in> set ys" for z
      using Cons.prems(1) assms(3) [of z] that by (cases "z = x") simp_all
    then have "filter Q ys = filter P ys" by (rule filter_cong [OF refl])
    then show ?thesis using True assms(4,5) by simp
  qed (use Cons assms(3) in auto)
qed simp

lemma scan_fifo_known:
  assumes "set xs \<subseteq> dom nodes"
  shows "scan_fifo nodes xs = (xs, find (\<lambda>s. \<not> executing (the (nodes s))) xs)"
  using assms by (induction xs) auto

lemma filter_Cons_find: "filter P xs = x # rest \<Longrightarrow> find P xs = Some x"
  by (induction xs) (auto split: if_splits)

lemma pump_select_cases:
  assumes "nodes_ok st"
  obtains (stop) "pump_select st = (st\<lparr>admission_pumping := False\<rparr>, None)"
      "admission_closing st \<or> admission_credits st \<ge> admission_capacity st \<or> parked st = []"
  | (dispatch) s node rest where "\<not> admission_closing st" "admission_credits st < admission_capacity st"
      "parked st = s # rest" "admission_nodes st s = Some node" "\<not> executing node"
      "pump_select st = (st\<lparr>admission_nodes := (admission_nodes st)(s \<mapsto> node\<lparr>dispatch := None, executing := True\<rparr>),
              admission_credits := admission_credits st + 1\<rparr>, Some (s, dispatch node))"
proof -
  let ?idle = "\<lambda>s. \<not> executing (the (admission_nodes st s))"
  have known: "set (admission_fifo st) = dom (admission_nodes st)" using assms by (simp add: nodes_ok_def)
  have same: "parked st = filter ?idle (admission_fifo st)"
    unfolding parked_def using known by (intro filter_cong) (auto split: option.splits)
  have scan: "scan_fifo (admission_nodes st) (admission_fifo st) =
      (admission_fifo st, find ?idle (admission_fifo st))"
    using known by (simp add: scan_fifo_known)
  show ?thesis
  proof (cases "admission_closing st \<or> admission_credits st \<ge> admission_capacity st \<or> parked st = []")
    case True
    have "find ?idle (admission_fifo st) = None" if "parked st = []"
      using that unfolding same by (simp add: find_None_iff filter_empty_conv)
    then show ?thesis using True scan by (intro stop) (auto simp: pump_select_def)
  next
    case False
    then obtain s rest where p: "parked st = s # rest" by (auto simp: neq_Nil_conv)
    then have "find ?idle (admission_fifo st) = Some s"
      unfolding same by (rule filter_Cons_find)
    moreover have "s \<in> set (parked st)" using p by simp
    then have "admission_fifo st \<noteq> []"
      and "case admission_nodes st s of Some node \<Rightarrow> \<not> executing node | None \<Rightarrow> False"
      by (auto simp: parked_def)
    moreover from this obtain node where "admission_nodes st s = Some node" "\<not> executing node"
      by (cases "admission_nodes st s") auto
    ultimately show ?thesis
      using False scan p by (intro dispatch [of s rest node]) (auto simp: pump_select_def Let_def)
  qed
qed

lemma nodes_ok_dispatch:
  assumes "nodes_ok st" "admission_nodes st s = Some node" "\<not> executing node"
    and "admission_credits st < admission_capacity st"
    and "st' = st\<lparr>admission_nodes := (admission_nodes st)(s \<mapsto> node\<lparr>dispatch := None, executing := True\<rparr>),
              admission_credits := admission_credits st + 1\<rparr>"
  shows "nodes_ok st'"
proof -
  have ok: "distinct (admission_fifo st)" "set (admission_fifo st) = dom (admission_nodes st)"
    "unat (admission_credits st) = length (filter (executes st) (admission_fifo st))"
    using assms(1) unfolding nodes_ok_def by blast+
  have "length (filter (executes st') (admission_fifo st)) = Suc (length (filter (executes st) (admission_fifo st)))"
    using ok(1,2) assms(2,3,5) by (intro filter_flip [where x = s]) (auto simp: executes_def)
  moreover have "unat (admission_capacity st) < 2 ^ 64"
    using unsigned_less [of "admission_capacity st"] by simp
  then have "unat (admission_credits st + 1) = Suc (unat (admission_credits st))"
    using assms(4) by (simp add: unat_word_ariths word_less_nat_alt)
  moreover have "admission_credits st + 1 \<le> admission_capacity st" using assms(4) by (rule inc_le)
  ultimately show ?thesis
    using ok assms(2,5) unfolding nodes_ok_def by (auto simp: insert_absorb)
qed

lemma nodes_ok_unavailable:
  assumes "nodes_ok st" "\<And>node. admission_nodes st s = Some node \<Longrightarrow> executing node"
  shows "nodes_ok (pump_unavailable st s d)"
proof (cases "admission_nodes st s")
  case None
  have "nodes_ok (st\<lparr>admission_pumping := False\<rparr>)" by (subst nodes_ok_cong [of _ st]) (simp_all add: assms(1))
  then show ?thesis using None by (simp add: pump_unavailable_def)
next
  case (Some node)
  let ?st = "pump_unavailable st s d"
  have ok: "distinct (admission_fifo st)" "set (admission_fifo st) = dom (admission_nodes st)"
    "unat (admission_credits st) = length (filter (executes st) (admission_fifo st))"
    "admission_credits st \<le> admission_capacity st"
    using assms(1) unfolding nodes_ok_def by blast+
  have st': "admission_fifo ?st = admission_fifo st" "admission_capacity ?st = admission_capacity st"
    "admission_nodes ?st = (admission_nodes st)(s \<mapsto> node\<lparr>dispatch := d, executing := False\<rparr>)"
    "admission_credits ?st = (if admission_credits st \<noteq> 0 then admission_credits st - 1 else admission_credits st)"
    using Some by (simp_all add: pump_unavailable_def)
  have flip: "length (filter (executes st) (admission_fifo st)) =
      Suc (length (filter (executes ?st) (admission_fifo st)))"
    using ok(1,2) Some assms(2) st'(3) by (intro filter_flip [where x = s]) (auto simp: executes_def)
  then have "admission_credits st \<noteq> 0" using ok(3) by auto
  then have "unat (admission_credits ?st) = unat (admission_credits st) - 1"
    by (simp add: st' unat_minus_one)
  then have "unat (admission_credits ?st) = length (filter (executes ?st) (admission_fifo st)) \<and>
      admission_credits ?st \<le> admission_capacity st"
    using flip ok(3,4) by (simp add: word_le_nat_alt)
  then show ?thesis using ok(1,2) Some st' unfolding nodes_ok_def by (auto simp: insert_absorb)
qed

lemma nodes_ok_admit:
  assumes "nodes_ok st" "admit st s d r = Inr st'"
  shows "nodes_ok st'" "admission_fifo st' = admission_fifo st @ [s]" "s \<notin> set (admission_fifo st)"
    "admission_nodes st' = (admission_nodes st)(s \<mapsto> \<lparr>dispatch = d, rollback = r, executing = False\<rparr>)"
proof -
  have new: "admission_nodes st s = None"
    and st': "st' = st\<lparr>admission_nodes := (admission_nodes st)(s \<mapsto> \<lparr>dispatch = d, rollback = r, executing = False\<rparr>),
       admission_fifo := admission_fifo st @ [s]\<rparr>"
    using assms(2) by (auto simp: admit_def split: if_splits)
  have ok: "distinct (admission_fifo st)" "set (admission_fifo st) = dom (admission_nodes st)"
    "unat (admission_credits st) = length (filter (executes st) (admission_fifo st))"
    "admission_credits st \<le> admission_capacity st"
    using assms(1) unfolding nodes_ok_def by blast+
  show fresh: "s \<notin> set (admission_fifo st)" using ok(2) new by auto
  have "filter (executes st') (admission_fifo st) = filter (executes st) (admission_fifo st)"
    using fresh by (intro filter_cong refl) (auto simp: st' executes_def)
  then show "nodes_ok st'" using ok fresh unfolding nodes_ok_def by (simp add: st' executes_def)
qed (use assms(2) in \<open>auto simp: admit_def split: if_splits\<close>)

lemma complete_cases:
  assumes "complete st s f = Inr (st', again)"
  obtains (unknown) "admission_nodes st s = None" "st' = st" "\<not> again"
  | (known) node where "admission_nodes st s = Some node" "s < next_sequence st" "again = (\<not> admission_closing st)"
        "admission_nodes st' = (admission_nodes st)(s := None)" "admission_fifo st' = remove1 s (admission_fifo st)"
        "admission_credits st' = (if executing node \<and> admission_credits st \<noteq> 0
           then admission_credits st - 1 else admission_credits st)"
        "admission_capacity st' = admission_capacity st" "next_sequence st' = next_sequence st"
        "skipped_sequences st' = skipped_sequences st" "completed st' = (if completed st < s then s else completed st)"
        "admission_pumping st' = admission_pumping st" "admission_closing st' = admission_closing st"
        "queue_id st' = queue_id st"
proof (cases "admission_nodes st s")
  case None
  show ?thesis
    by (rule unknown) (use assms None in \<open>simp_all add: complete_def split: if_splits\<close>)
next
  case (Some node)
  have less: "s < next_sequence st" using assms Some by (simp add: complete_def not_le split: if_splits)
  have "s \<noteq> 0" using assms by (auto simp: complete_def)
  define y where "y = (case (case f of Some e \<Rightarrow> Some e | None \<Rightarrow> pending_failures st s) of
      None \<Rightarrow> failures st
    | Some e \<Rightarrow> if failures st s = None then (failures st)(s \<mapsto> e) else failures st)"
  have "complete st s f = Inr (st\<lparr>pending_failures := (pending_failures st)(s := None), failures := y,
            admission_credits := (if executing node \<and> admission_credits st \<noteq> 0
                then admission_credits st - 1 else admission_credits st),
            admission_nodes := (admission_nodes st)(s := None),
            admission_fifo := remove1 s (admission_fifo st),
            completed := (if completed st < s then s else completed st)\<rparr>, \<not> admission_closing st)"
    using less \<open>s \<noteq> 0\<close> Some
    by (simp only: complete_def y_def option.case Let_def not_le [symmetric] if_False if_cancel)
  then have st': "st' = st\<lparr>pending_failures := (pending_failures st)(s := None), failures := y,
            admission_credits := (if executing node \<and> admission_credits st \<noteq> 0
                then admission_credits st - 1 else admission_credits st),
            admission_nodes := (admission_nodes st)(s := None),
            admission_fifo := remove1 s (admission_fifo st),
            completed := (if completed st < s then s else completed st)\<rparr>" "again = (\<not> admission_closing st)"
    unfolding assms by (blast dest: Inr_inject Pair_inject)+
  show ?thesis by (rule known [OF Some less]) (simp_all add: st')
qed

text \<open>What completion changes: the node and its FIFO entry, the failure, its credit and \<open>completed_\<close>.\<close>

lemma complete_effect:
  assumes "nodes_ok st" "complete st s f = Inr (st', again)"
  shows "nodes_ok st'" "mset (admission_fifo st') \<subseteq># mset (admission_fifo st)"
    "admission_nodes st' = (admission_nodes st)(s := None)"
    "next_sequence st' = next_sequence st" "skipped_sequences st' = skipped_sequences st"
    "completed st' = completed st \<or> completed st' = s \<and> s < next_sequence st"
    "admission_pumping st' = admission_pumping st" "admission_closing st' = admission_closing st"
    "admission_nodes st s \<noteq> None \<Longrightarrow> again = (\<not> admission_closing st)"
    "admission_nodes st s = None \<Longrightarrow> st' = st"
proof -
  from assms(2) have "nodes_ok st' \<and> mset (admission_fifo st') \<subseteq># mset (admission_fifo st) \<and>
    admission_nodes st' = (admission_nodes st)(s := None) \<and>
    next_sequence st' = next_sequence st \<and> skipped_sequences st' = skipped_sequences st \<and>
    (completed st' = completed st \<or> completed st' = s \<and> s < next_sequence st) \<and>
    admission_pumping st' = admission_pumping st \<and> admission_closing st' = admission_closing st \<and>
    (admission_nodes st s \<noteq> None \<longrightarrow> again = (\<not> admission_closing st)) \<and>
    (admission_nodes st s = None \<longrightarrow> st' = st)"
  proof (cases rule: complete_cases)
    case unknown
    then show ?thesis using assms(1) by (simp add: fun_upd_idem)
  next
    case known
    have "nodes_ok st'" using nodes_ok_remove [OF assms(1) known(1,4-7)] .
    then show ?thesis using known by simp
  qed
  then show "nodes_ok st'" "mset (admission_fifo st') \<subseteq># mset (admission_fifo st)"
    "admission_nodes st' = (admission_nodes st)(s := None)"
    "next_sequence st' = next_sequence st" "skipped_sequences st' = skipped_sequences st"
    "completed st' = completed st \<or> completed st' = s \<and> s < next_sequence st"
    "admission_pumping st' = admission_pumping st" "admission_closing st' = admission_closing st"
    "admission_nodes st s \<noteq> None \<Longrightarrow> again = (\<not> admission_closing st)"
    "admission_nodes st s = None \<Longrightarrow> st' = st"
    by blast+
qed

lemma dispatching_ok_mono:
  assumes "dispatching_ok st M D" "D' \<subseteq> D" "\<And>s. s \<in> D' \<Longrightarrow> s \<in># M' \<Longrightarrow> s \<in># M"
    and "\<And>s. s \<in> D' \<Longrightarrow> s < next_sequence st \<Longrightarrow> s \<notin># M \<Longrightarrow> s < next_sequence st'"
    and "\<And>s node. s \<in> D' \<Longrightarrow> s \<notin># M \<Longrightarrow> admission_nodes st' s = Some node \<Longrightarrow>
      \<exists>old. admission_nodes st s = Some old \<and> (executing old \<longrightarrow> executing node)"
  shows "dispatching_ok st' M' D'"
  using assms unfolding dispatching_ok_def by blast

lemma sequences_ok_cong:
  assumes "next_sequence st' = next_sequence st" "skipped_sequences st' = skipped_sequences st"
    and "completed st' = completed st"
  shows "sequences_ok st' M \<longleftrightarrow> sequences_ok st M"
  using assms unfolding sequences_ok_def by simp

text \<open>A step of the state that keeps sequences, and nodes up to their callbacks.\<close>

lemma queue_ok_quiet:
  assumes "queue_ok (st, P)" "nodes_ok st'"
    and "next_sequence st' = next_sequence st" "skipped_sequences st' = skipped_sequences st"
    and "completed st' = completed st" "admission_fifo st' = admission_fifo st"
    and "admission_pumping st' = (pumps P' = 1)" "pumps P' \<le> 1"
    and "held P' = held P" "dispatching P' \<subseteq> dispatching P"
    and "\<And>s node. s \<in> dispatching P' \<Longrightarrow> admission_nodes st' s = Some node \<Longrightarrow>
      \<exists>old. admission_nodes st s = Some old \<and> (executing old \<longrightarrow> executing node)"
  shows "queue_ok (st', P')"
proof -
  have ok: "sequences_ok st (live st P)" "dispatching_ok st (held P) (dispatching P)"
    using assms(1) unfolding queue_ok_def by auto
  have "live st' P' = live st P" using assms(6,9) by (simp add: live_def)
  then have "sequences_ok st' (live st' P')" using ok(1) sequences_ok_cong [OF assms(3-5)] by simp
  moreover have "dispatching_ok st' (held P') (dispatching P')"
    using assms(3,9,11) by (intro dispatching_ok_mono [OF ok(2) assms(10)]) simp_all
  moreover have "pumping_ok st' P'" using assms(7,8) by (cases "pumps P'") (simp_all add: pumping_ok_def)
  ultimately show ?thesis using assms(2) by (simp add: queue_ok_def)
qed

text \<open>A step that leaves the state alone.\<close>

lemma queue_ok_frames:
  assumes "queue_ok (st, P)" "pumps P' = pumps P"
    and "held P' = held P" "dispatching P' \<subseteq> dispatching P"
  shows "queue_ok (st, P')"
  using assms unfolding queue_ok_def by (auto simp: live_def pumping_ok_def dispatching_ok_def)

lemma queue_ok_complete:
  assumes "queue_ok (st, P)" "complete st s f = Inr (st', again)"
    and "pumps P' = pumps P"
    and "held P' = held P" "dispatching P' = dispatching P"
  shows "queue_ok (st', P')"
proof -
  have ok: "nodes_ok st" "sequences_ok st (live st P)" "pumping_ok st P" "dispatching_ok st (held P) (dispatching P)"
    using assms(1) unfolding queue_ok_def by auto
  note e = complete_effect [OF ok(1) assms(2)]
  have "completed st' < next_sequence st" using e(6) sequences_okD(3) [OF ok(2)] by auto
  moreover have "live st' P' \<subseteq># live st P" using e(2) assms(4) by (simp add: live_def)
  ultimately have "sequences_ok st' (live st' P')" by (intro sequences_ok_mono [OF ok(2)] e)
  moreover have "dispatching_ok st' (held P') (dispatching P')"
    using ok(4) e(3,4) assms(4,5) unfolding dispatching_ok_def by auto
  ultimately show ?thesis
    using e(1,7) ok(3) assms(3) by (simp add: queue_ok_def pumping_ok_def)
qed

lemma queue_ok_abandon:
  assumes "queue_ok (st, P)" "held P = add_mset s (held P')" "dispatching P' = dispatching P"
    and "pumps P' = pumps P"
  shows "queue_ok (abandon_sequence st s, P')"
proof -
  have ok: "nodes_ok st" "sequences_ok st (live st P)" "pumping_ok st P" "dispatching_ok st (held P) (dispatching P)"
    using assms(1) unfolding queue_ok_def by auto
  let ?st = "abandon_sequence st s"
  have same: "admission_nodes ?st = admission_nodes st" "admission_fifo ?st = admission_fifo st"
    "admission_credits ?st = admission_credits st" "admission_capacity ?st = admission_capacity st"
    "admission_pumping ?st = admission_pumping st"
    by (simp_all add: abandon_sequence_def Let_def)
  have "live st P = add_mset s (live ?st P')" using assms(2) by (simp add: live_def same)
  then have seq: "sequences_ok ?st (live ?st P')" using ok(2) abandon_sequence_ok by simp
  have below: "t < next_sequence ?st" if "t < next_sequence st" "t \<noteq> s" for t
  proof (cases "next_sequence st = s + 1 \<and> completed st < s")
    case True
    then have "s \<le> kMaxSequence"
      using sequences_okD(2) [OF ok(2)] sequences_okD(5) [OF ok(2), of s] assms(2)
      unfolding max_sequence_word word_le_nat_alt word_less_nat_alt by (simp add: live_def)
    then show ?thesis
      using True that sequence_succ(1) [of s t] by (simp add: abandon_sequence_def Let_def order_less_le)
  qed (use that in \<open>auto simp: abandon_sequence_def Let_def\<close>)
  have "dispatching_ok ?st (held P') (dispatching P')"
    using ok(4) below assms(2,3) unfolding dispatching_ok_def same by auto
  then show ?thesis
    using seq ok(1,3) assms(4) nodes_ok_cong [OF same(1-4)] by (simp add: queue_ok_def pumping_ok_def same)
qed

lemma queue_okD:
  assumes "queue_ok (st, P)"
  shows "nodes_ok st" "sequences_ok st (live st P)" "pumping_ok st P"
    "dispatching_ok st (held P) (dispatching P)"
  using assms unfolding queue_ok_def by auto

lemma queue_ok_submit:
  assumes "queue_ok (st, P)" "reserve_sequence st = Inr (s, st')"
  shows "queue_ok (st', add_mset (Prepare s d r) P)"
proof -
  note ok = queue_okD [OF assms(1)]
  have st': "s = next_sequence st" "next_sequence st \<le> kMaxSequence"
      "st' = st\<lparr>next_sequence := next_sequence st + 1\<rparr>"
    using assms(2) by (auto simp: reserve_sequence_def not_less split: if_splits)
  have "sequences_ok st' (live st' (add_mset (Prepare s d r) P))"
    using reserve_sequence_ok [OF assms(2) ok(2)] by (simp add: live_def st'(3))
  moreover have "dispatching_ok st' (add_mset s (held P)) (dispatching P)"
    using ok(4) sequence_succ(1) [OF st'(2)] unfolding dispatching_ok_def
    by (auto simp: st'(1,3) less_imp_le)
  moreover have "nodes_ok st'" using ok(1) by (subst nodes_ok_cong [of _ st]) (simp_all add: st'(3))
  ultimately show ?thesis using ok(3) by (simp add: queue_ok_def pumping_ok_def st'(3))
qed

lemma queue_ok_admitted:
  assumes "queue_ok (st, add_mset (Admit s d r) P)" "admit st s d r = Inr st'"
  shows "queue_ok (st', add_mset (PumpEnter (Some s)) P)"
proof -
  note ok = queue_okD [OF assms(1)]
  note a = nodes_ok_admit [OF ok(1) assms(2)]
  have same: "next_sequence st' = next_sequence st" "skipped_sequences st' = skipped_sequences st"
    "completed st' = completed st" "admission_pumping st' = admission_pumping st"
    using assms(2) by (auto simp: admit_def split: if_splits)
  have "sequences_ok st' (live st' (add_mset (PumpEnter (Some s)) P))"
    using ok(2) a(2) sequences_ok_cong [OF same(1-3)] by (simp add: live_def)
  moreover have "dispatching_ok st' (held P) (dispatching P)"
    using ok(4) by (rule dispatching_ok_mono) (auto simp: a(4) same)
  ultimately show ?thesis using a(1) ok(3) by (simp add: queue_ok_def pumping_ok_def same)
qed

lemma queue_ok_dispatch:
  assumes "queue_ok (st, add_mset (PumpLoop sync) P)" "pump_select st = (st', Some (s, d))"
  shows "queue_ok (st', add_mset (Dispatching s d sync) P)"
proof -
  note ok = queue_okD [OF assms(1)]
  from ok(1) show ?thesis
  proof (cases rule: pump_select_cases)
    case stop
    then show ?thesis using assms(2) by simp
  next
    case (dispatch s' node rest)
    then have s': "s' = s" and st': "st' = st\<lparr>admission_nodes := (admission_nodes st)(s \<mapsto>
        node\<lparr>dispatch := None, executing := True\<rparr>), admission_credits := admission_credits st + 1\<rparr>"
      using assms(2) by simp_all
    note node = dispatch(4) [unfolded s']
    have "nodes_ok st'" using nodes_ok_dispatch [OF ok(1) node dispatch(5,2) st'] .
    moreover have "sequences_ok st' (live st' (add_mset (Dispatching s d sync) P))"
      using ok(2) sequences_ok_cong [of st' st] by (simp add: live_def st')
    moreover have "dispatching_ok st' (held P) (insert s (dispatching P))"
    proof -
      have fifo: "s \<in> set (admission_fifo st)" using ok(1) node by (auto simp: nodes_ok_def)
      then have "s \<in># live st (add_mset (PumpLoop sync) P)" by (simp add: live_def)
      then have "s < next_sequence st" using sequences_okD(5) [OF ok(2)] by blast
      moreover have "count (mset (admission_fifo st)) s \<noteq> 0" using fifo by (simp add: count_mset_0_iff)
      then have "s \<notin># held P"
        using sequences_okD(4) [OF ok(2), of s] by (simp add: live_def not_in_iff del: count_mset_0_iff count_greater_zero_iff)
      ultimately show ?thesis using ok(4) unfolding dispatching_ok_def by (auto simp: st')
    qed
    ultimately show ?thesis using ok(3) by (simp add: queue_ok_def pumping_ok_def st')
  qed
qed

lemma queue_ok_failed_before:
  assumes "queue_ok (st, add_mset (Dispatching s d sync) P)" "pump_failed_before st s = (st', r, True)"
  shows "queue_ok (st', add_mset (AbandonLoop s sync) P)"
proof -
  note ok = queue_okD [OF assms(1)]
  obtain node where node: "admission_nodes st s = Some node"
    and st': "st' = st\<lparr>admission_credits := (if executing node \<and> admission_credits st \<noteq> 0
                 then admission_credits st - 1 else admission_credits st),
              admission_nodes := (admission_nodes st)(s := None),
              admission_fifo := remove1 s (admission_fifo st)\<rparr>"
    using assms(2) by (auto simp: pump_failed_before_def split: option.splits)
  have "nodes_ok st'" by (rule nodes_ok_remove [OF ok(1) node]) (simp_all add: st')
  moreover have "s \<in> set (admission_fifo st)" using ok(1) node by (auto simp: nodes_ok_def)
  then have "live st' (add_mset (AbandonLoop s sync) P) = live st (add_mset (Dispatching s d sync) P)"
    by (simp add: live_def st')
  then have "sequences_ok st' (live st' (add_mset (AbandonLoop s sync) P))"
    using ok(2) sequences_ok_cong [of st' st] by (simp add: st')
  moreover have "dispatching P = {}"
    using ok(3) by (intro no_pump_dispatching) (simp add: pumping_ok_def split: if_splits)
  ultimately show ?thesis using ok(3) by (simp add: queue_ok_def pumping_ok_def dispatching_ok_def st')
qed

lemma is_pump_present:
  assumes "pumping_ok st (add_mset f P)" "is_pump f"
  shows "admission_pumping st" "pumps P = 0"
  using assms by (auto simp: pumping_ok_def split: if_splits)

lemma queue_ok_failed_after:
  assumes "queue_ok (st, add_mset (Dispatching s d sync) P)" "pump_failed_after st s = (st', r)"
  shows "queue_ok (st', add_mset (CompleteLoop s e sync) P)"
proof (cases "admission_nodes st s")
  case None
  then have "st' = st" using assms(2) by (simp add: pump_failed_after_def)
  then show ?thesis using assms(1) by (auto intro: queue_ok_frames [OF assms(1)])
next
  case (Some node)
  then have st': "st' = st\<lparr>admission_nodes := (admission_nodes st)(s \<mapsto> node\<lparr>rollback := None\<rparr>)\<rparr>"
    using assms(2) by (simp add: pump_failed_after_def)
  note pump = is_pump_present [OF queue_okD(3) [OF assms(1)]]
  have "nodes_ok st'"
    by (rule nodes_ok_update [OF queue_okD(1) [OF assms(1)] Some, of "node\<lparr>rollback := None\<rparr>"]) (simp_all add: st')
  then show ?thesis
    by (rule queue_ok_quiet [OF assms(1)]) (use pump Some in \<open>auto simp: st' split: if_splits\<close>)
qed

lemma queue_ok_drain_taken:
  assumes "queue_ok (st, add_mset (Drain (s # ss)) P)" "drain_take st s = Some (st', r)"
  shows "queue_ok (st', add_mset (DrainComplete s ss) P)"
proof -
  obtain node where node: "admission_nodes st s = Some node"
    and st': "st' = st\<lparr>admission_nodes := (admission_nodes st)(s \<mapsto> node\<lparr>rollback := None\<rparr>)\<rparr>"
    using assms(2) by (auto simp: drain_take_def split: option.splits if_splits)
  have "nodes_ok st'"
    by (rule nodes_ok_update [OF queue_okD(1) [OF assms(1)] node, of "node\<lparr>rollback := None\<rparr>"]) (simp_all add: st')
  then show ?thesis
    by (rule queue_ok_quiet [OF assms(1)])
      (use node queue_okD(3) [OF assms(1)] in \<open>auto simp: st' pumping_ok_def split: if_splits\<close>)
qed

lemma queue_ok_unavailable:
  assumes "queue_ok (st, add_mset (Dispatching s d sync) P)"
  shows "queue_ok (pump_unavailable st s d, P)"
proof -
  note ok = queue_okD [OF assms]
  note pump = is_pump_present [OF ok(3)]
  have ex: "executing node" if "admission_nodes st s = Some node" for node
    using ok(4) that unfolding dispatching_ok_def by auto
  then have "nodes_ok (pump_unavailable st s d)" using nodes_ok_unavailable ok(1) by blast
  moreover have "dispatching P = {}" using pump(2) by (intro no_pump_dispatching) simp
  ultimately show ?thesis
    by (intro queue_ok_quiet [OF assms])
      (use pump in \<open>auto simp: pump_unavailable_def split: option.splits if_splits\<close>)
qed

lemma queue_ok_stop:
  assumes "queue_ok (st, add_mset (PumpLoop sync) P)" "pump_select st = (st', None)"
  shows "queue_ok (st', P)"
proof -
  have st': "st' = st\<lparr>admission_pumping := False\<rparr>"
    using assms(2) by (cases rule: pump_select_cases [OF queue_okD(1) [OF assms(1)]]) simp_all
  have "nodes_ok st'" using queue_okD(1) [OF assms(1)] by (subst nodes_ok_cong [of _ st]) (simp_all add: st')
  then show ?thesis
    by (rule queue_ok_quiet [OF assms(1)])
      (use is_pump_present [OF queue_okD(3) [OF assms(1)]] in \<open>simp_all add: st'\<close>)
qed

lemma queue_ok_seek:
  assumes "queue_ok (st, P)" "seek_next_sequence st n = Inr st'"
  shows "queue_ok (st', P)"
proof -
  note ok = queue_okD [OF assms(1)]
  have same: "next_sequence st \<le> next_sequence st'" "admission_nodes st' = admission_nodes st"
    "admission_fifo st' = admission_fifo st" "admission_credits st' = admission_credits st"
    "admission_capacity st' = admission_capacity st" "admission_pumping st' = admission_pumping st"
    using assms(2) by (auto simp: seek_next_sequence_def split: if_splits)
  have "dispatching_ok st' (held P) (dispatching P)"
    using ok(4) same(1) unfolding dispatching_ok_def same(2) by (meson order.strict_trans2)
  then show ?thesis
    using ok seek_next_sequence_ok [OF assms(2) ok(2)] nodes_ok_cong [OF same(2-5)]
    by (simp add: queue_ok_def live_def pumping_ok_def same)
qed

lemma queue_ok_same:
  assumes "queue_ok (st, P)"
    and "next_sequence st' = next_sequence st" "skipped_sequences st' = skipped_sequences st"
    and "completed st' = completed st" "admission_nodes st' = admission_nodes st"
    and "admission_fifo st' = admission_fifo st" "admission_credits st' = admission_credits st"
    and "admission_capacity st' = admission_capacity st"
    and "admission_pumping st' = (pumps P' = 1)" "pumps P' \<le> 1"
    and "held P' = held P" "dispatching P' \<subseteq> dispatching P"
  shows "queue_ok (st', P')"
  using assms nodes_ok_cong [OF assms(5-8)] queue_okD(1) [OF assms(1)]
  by (intro queue_ok_quiet [OF assms(1)]) simp_all

lemma pumping_flag: "queue_ok (st, P) \<Longrightarrow>
    admission_pumping st = (pumps P = 1) \<and> pumps P \<le> 1"
  by (simp add: queue_ok_def pumping_ok_def split: if_splits)

lemma step_preserves_queue_ok:
  assumes "step exhaustion x y" "queue_ok x"
  shows "queue_ok y"
  using assms
proof (induction rule: step.induct)
  case (pump_entered st st' sync P)
  have "\<not> admission_pumping st" "st' = st\<lparr>admission_pumping := True\<rparr>"
    using pump_entered.hyps by (auto simp: pump_enter_def split: if_splits)
  then show ?case
    by (intro queue_ok_same [OF pump_entered.prems]) (use pumping_flag [OF pump_entered.prems] in auto)
next
  case (failed_gone st s st' r d P)
  have "st' = st" using failed_gone.hyps by (auto simp: pump_failed_before_def split: option.splits)
  then show ?case by (auto intro: queue_ok_frames [OF failed_gone.prems])
next
  case (retain st s f st' P)
  then show ?case
    by (intro queue_ok_same [OF retain.prems])
      (use pumping_flag [OF retain.prems] in \<open>auto simp: commit_failure_def split: if_splits option.splits\<close>)
next
  case (record_failure st P s e)
  then show ?case
    by (intro queue_ok_same [OF record_failure.prems])
      (use pumping_flag [OF record_failure.prems] in \<open>auto simp: record_post_completion_failure_def\<close>)
next
  case (close st P)
  then show ?case
    by (intro queue_ok_same [OF close.prems])
      (use pumping_flag [OF close.prems] in \<open>auto simp: close_admission_def\<close>)
qed (auto intro: queue_ok_submit queue_ok_admitted queue_ok_dispatch queue_ok_failed_before queue_ok_failed_after
      queue_ok_drain_taken queue_ok_unavailable queue_ok_stop queue_ok_seek
      elim: queue_ok_frames queue_ok_abandon queue_ok_complete)

subsection \<open>No lost wake-up without exhaustion\<close>

text \<open>
  A parked node with a free credit in an open queue has a thread on its way to it: the pump, or a
  thread about to enter it.
\<close>

definition wakes :: "system \<Rightarrow> bool" where
  "wakes x \<longleftrightarrow> (case x of (st, P) \<Rightarrow>
     parked st \<noteq> [] \<and> admission_credits st < admission_capacity st \<and> \<not> admission_closing st \<longrightarrow>
     admission_pumping st \<or> (\<exists>sync. PumpEnter sync \<in># P))"

lemma parked_cong:
  assumes "admission_fifo st' = admission_fifo st"
    and "\<And>s. map_option executing (admission_nodes st' s) = map_option executing (admission_nodes st s)"
  shows "parked st' = parked st"
  unfolding parked_def assms(1)
proof (rule filter_cong [OF refl])
  fix s
  show "(case admission_nodes st' s of Some node \<Rightarrow> \<not> executing node | None \<Rightarrow> False) =
      (case admission_nodes st s of Some node \<Rightarrow> \<not> executing node | None \<Rightarrow> False)"
    using assms(2) [of s] by (auto split: option.splits)
qed

lemma wakes_quiet:
  assumes "wakes (st, P)" "parked st' = parked st" "admission_credits st' = admission_credits st"
    and "admission_capacity st' = admission_capacity st" "admission_closing st' = admission_closing st"
    and "admission_pumping st' = admission_pumping st" "\<And>sync. PumpEnter sync \<in># P \<Longrightarrow> PumpEnter sync \<in># P'"
  shows "wakes (st', P')"
  using assms unfolding wakes_def by auto

lemma wakes_pump:
  assumes "queue_ok (st, add_mset f P)" "is_pump f"
  shows "wakes (st, add_mset f P)"
  using is_pump_present(1) [OF queue_okD(3) [OF assms(1)] assms(2)] by (simp add: wakes_def)

lemma wakes_complete:
  assumes "wakes (st, P)" "complete st s f = Inr (st', again)"
    and "\<And>sync. PumpEnter sync \<in># repump again P \<Longrightarrow> PumpEnter sync \<in># P'"
  shows "wakes (st', P')"
  using assms(2)
proof (cases rule: complete_cases)
  case unknown
  then show ?thesis using assms(1,3) by (auto simp: wakes_def repump_def)
next
  case known
  then show ?thesis using assms(3) [of None] by (auto simp: wakes_def repump_def)
qed

lemma step_preserves_wakes:
  assumes "step False x y" "queue_ok x" "wakes x"
  shows "wakes y"
  using assms(1) step_preserves_queue_ok [OF assms(1,2)] assms(2,3)
proof (induction rule: step.induct)
  case (submit st s st' P d r)
  show ?case
    by (rule wakes_quiet [OF submit.prems(3)] parked_cong)+
      (use submit.hyps in \<open>auto simp: reserve_sequence_def split: if_splits\<close>)
next
  case (abandoned st s P)
  show ?case
    by (rule wakes_quiet [OF abandoned.prems(3)] parked_cong)+ (auto simp: abandon_sequence_def Let_def)
next
  case (pump_return st sync P)
  then show ?case by (auto simp: pump_enter_def wakes_def split: if_splits)
next
  case (pump_stop st st' sync P)
  from queue_okD(1) [OF pump_stop.prems(2)] show ?case
  proof (cases rule: pump_select_cases)
    case stop
    moreover have "parked (st\<lparr>admission_pumping := False\<rparr>) = parked st" by (rule parked_cong) simp_all
    ultimately show ?thesis using pump_stop.hyps by (auto simp: wakes_def)
  qed (use pump_stop.hyps in simp)
next
  case (completes st s f st' again P)
  show ?case by (rule wakes_complete [OF completes.prems(3) completes.hyps])
next
  case (retain st s f st' P)
  show ?case
    by (rule wakes_quiet [OF retain.prems(3)] parked_cong)+
      (use retain.hyps in \<open>auto simp: commit_failure_def split: if_splits option.splits\<close>)
next
  case (record_failure st P s e)
  show ?case
    by (rule wakes_quiet [OF record_failure.prems(3)] parked_cong)+
      (auto simp: record_post_completion_failure_def)
next
  case (seek st n st' P)
  show ?case
    by (rule wakes_quiet [OF seek.prems(3)] parked_cong)+
      (use seek.hyps in \<open>auto simp: seek_next_sequence_def split: if_splits\<close>)
next
  case (drain_taken st s st' r ss P)
  show ?case
    by (rule wakes_quiet [OF drain_taken.prems(3)] parked_cong)+
      (use drain_taken.hyps in \<open>auto simp: drain_take_def split: option.splits if_splits\<close>)
next
  case (drain_complete st s st' again ss P)
  have "wakes (st, P)" using drain_complete.prems(3) by (auto simp: wakes_def)
  then show ?case by (rule wakes_complete [OF _ drain_complete.hyps]) (auto simp: repump_def)
qed (auto simp: wakes_def close_admission_def dest: wakes_pump [unfolded wakes_def])

subsection \<open>Reachable states\<close>

lemma initial_queue_ok: "queue_ok (initial_queue q capacity, {#})"
proof -
  have "(0 :: usize) < 1" by simp
  then show ?thesis
    by (simp add: queue_ok_def initial_queue_def nodes_ok_def sequences_ok_def live_def pumping_ok_def
        dispatching_ok_def max_sequence_word executes_def)
qed

lemma reachable_queue_ok:
  assumes "reachable exhaustion (initial_queue q capacity) x"
  shows "queue_ok x"
  using assms unfolding reachable_def
  by (induction rule: rtranclp_induct) (simp_all add: initial_queue_ok step_preserves_queue_ok)

lemma reachable_wakes:
  assumes "reachable False (initial_queue q capacity) x"
  shows "wakes x"
  using assms unfolding reachable_def
proof (induction rule: rtranclp_induct)
  case base
  show ?case by (simp add: wakes_def initial_queue_def parked_def)
next
  case (step x y)
  have "queue_ok x" using reachable_queue_ok step.hyps(1) unfolding reachable_def by blast
  then show ?case using step_preserves_wakes step.hyps(2) step.IH by blast
qed

subsection \<open>Callbacks travel with their operations\<close>
















lemma admit_keeps:
  "admit st s d r = Inr st' \<Longrightarrow> admission_capacity st' = admission_capacity st \<and> queue_id st' = queue_id st"
  by (auto simp: admit_def split: if_splits)

lemma complete_keeps:
  assumes "complete st s f = Inr (st', again)"
  shows "admission_capacity st' = admission_capacity st" "queue_id st' = queue_id st"
  by (use assms in \<open>cases rule: complete_cases; simp\<close>)+

lemma pump_select_keeps:
  "pump_select st = (st', x) \<Longrightarrow> admission_capacity st' = admission_capacity st \<and> queue_id st' = queue_id st"
  by (auto simp: pump_select_def Let_def split: if_splits option.splits prod.splits)

lemma step_keeps:
  assumes "step exhaustion x y"
  shows "admission_capacity (fst y) = admission_capacity (fst x) \<and> queue_id (fst y) = queue_id (fst x)"
  using assms
  by (induction rule: step.induct)
    (auto simp: reserve_sequence_def abandon_sequence_def Let_def pump_enter_def pump_unavailable_def
       pump_failed_before_def pump_failed_after_def commit_failure_def record_post_completion_failure_def
       seek_next_sequence_def close_admission_def drain_take_def
       split: if_splits option.splits dest: admit_keeps complete_keeps pump_select_keeps)

lemma reachable_keeps:
  assumes "reachable exhaustion (initial_queue q capacity) (st, P)"
  shows "admission_capacity st = capacity" "queue_id st = q"
proof -
  have "admission_capacity (fst x) = capacity \<and> queue_id (fst x) = q"
    if "(step exhaustion)\<^sup>*\<^sup>* (initial_queue q capacity, {#}) x" for x
    using that
  proof (induction rule: rtranclp_induct)
    case (step y z)
    then show ?case using step_keeps [OF step.hyps(2)] by simp
  qed (simp add: initial_queue_def)
  then show "admission_capacity st = capacity" "queue_id st = q"
    using assms unfolding reachable_def by fastforce+
qed

lemma live_not_skipped:
  assumes "sequences_ok st M" "s \<in># M"
  shows "\<not> skipped st s"
proof -
  let ?K = "{k \<in> dom (skipped_sequences st). k \<le> s}"
  have "finite ?K" using sequences_okD(6) [OF assms(1)] by simp
  then have "\<not> the (skipped_sequences st (Max ?K)) > s" if "?K \<noteq> {}"
  proof -
    have "Max ?K \<in> ?K" using \<open>finite ?K\<close> that by (rule Max_in)
    then obtain v where "skipped_sequences st (Max ?K) = Some v" "Max ?K \<le> s" by auto
    then show ?thesis using sequences_okD(7) [OF assms(1), of "Max ?K" v] assms(2) by (auto simp: leD)
  qed
  then show ?thesis unfolding skipped_def Let_def by blast
qed

subsection \<open>Teardown by one thread\<close>

text \<open>\<open>close_and_drain\<close> as one thread runs it, its callbacks leaving the queue alone.\<close>

definition drain_one :: "QueueState \<Rightarrow> sequence \<Rightarrow> QueueState" where
  "drain_one st s =
     (case drain_take st s of
        None \<Rightarrow> st
      | Some (st, r) \<Rightarrow>
          (case complete st s (Some RuntimeError) of
             Inl e \<Rightarrow> st
           | Inr (st, again) \<Rightarrow> st))"

definition close_and_drain :: "QueueState \<Rightarrow> QueueState" where
  "close_and_drain st = foldl drain_one (close_admission st) (parked (close_admission st))"

definition idle :: "QueueState \<Rightarrow> sequence \<Rightarrow> bool" where
  "idle st s = (case admission_nodes st s of Some node \<Rightarrow> \<not> executing node | None \<Rightarrow> False)"

lemma parked_idle: "nodes_ok st \<Longrightarrow> set (parked st) = {s. idle st s}"
  by (auto simp: parked_def idle_def nodes_ok_def split: option.splits)

lemma drain_one_busy: "\<not> idle st s \<Longrightarrow> drain_one st s = st"
  by (auto simp: drain_one_def drain_take_def idle_def split: option.splits)

lemma drain_one_idle:
  assumes "queue_ok (st, P)" "idle st s" "admission_closing st"
  obtains st1 r st2 where "drain_take st s = Some (st1, r)"
    "complete st1 s (Some RuntimeError) = Inr (st2, False)" "drain_one st s = st2"
    "admission_nodes st2 = (admission_nodes st)(s := None)" "admission_closing st2"
    "failures st2 = (if failures st s = None then (failures st)(s \<mapsto> RuntimeError) else failures st)"
proof -
  note ok = queue_okD [OF assms(1)]
  obtain node where node: "admission_nodes st s = Some node" "\<not> executing node"
    using assms(2) by (auto simp: idle_def split: option.splits)
  then have "s \<in># live st P" using ok(1) by (auto simp: nodes_ok_def live_def)
  then have s: "s \<noteq> 0" "\<not> next_sequence st \<le> s" using sequences_okD(5) [OF ok(2), of s] by (auto simp: not_le)
  define st1 where "st1 = st\<lparr>admission_nodes := (admission_nodes st)(s \<mapsto> node\<lparr>rollback := None\<rparr>)\<rparr>"
  have take: "drain_take st s = Some (st1, rollback node)" using node by (simp add: drain_take_def st1_def)
  obtain st2 where st2: "complete st1 s (Some RuntimeError) = Inr (st2, False)"
    "admission_nodes st2 = (admission_nodes st)(s := None)" "admission_closing st2"
    "failures st2 = (if failures st s = None then (failures st)(s \<mapsto> RuntimeError) else failures st)"
    using s node assms(3) by (simp add: complete_def st1_def)
  then show ?thesis using that take by (simp add: drain_one_def)
qed

lemma drain_one_step:
  assumes "queue_ok (st, add_mset (Drain (s # ss)) P)" "admission_closing st"
  shows "(step exhaustion)\<^sup>*\<^sup>* (st, add_mset (Drain (s # ss)) P) (drain_one st s, add_mset (Drain ss) P)"
proof (cases "idle st s")
  case True
  obtain st1 r where t: "drain_take st s = Some (st1, r)"
    "complete st1 s (Some RuntimeError) = Inr (drain_one st s, False)"
    using drain_one_idle [OF assms(1) True assms(2)] by metis
  have "step exhaustion (st, add_mset (Drain (s # ss)) P) (st1, add_mset (DrainComplete s ss) P)"
    by (rule step.drain_taken [OF t(1)])
  moreover have "step exhaustion (st1, add_mset (DrainComplete s ss) P) (drain_one st s, add_mset (Drain ss) P)"
    using step.drain_complete [OF t(2)] by (simp add: repump_def)
  ultimately show ?thesis by (meson rtranclp.rtrancl_refl rtranclp.rtrancl_into_rtrancl)
next
  case False
  then have "drain_take st s = None" by (auto simp: idle_def drain_take_def split: option.splits)
  then show ?thesis using step.drain_skip drain_one_busy [OF False] by (metis r_into_rtranclp)
qed

lemma steps_preserve_queue_ok: "(step exhaustion)\<^sup>*\<^sup>* x y \<Longrightarrow> queue_ok x \<Longrightarrow> queue_ok y"
  by (induction rule: rtranclp_induct) (simp_all add: step_preserves_queue_ok)

lemma drain_one_closing:
  assumes "queue_ok (st, P)" "admission_closing st"
  shows "admission_closing (drain_one st s)"
    and "admission_nodes (drain_one st s) = (if idle st s then (admission_nodes st)(s := None) else admission_nodes st)"
    and "failures (drain_one st s) =
      (if idle st s \<and> failures st s = None then (failures st)(s \<mapsto> RuntimeError) else failures st)"
proof -
  have "admission_closing (drain_one st s) \<and>
    admission_nodes (drain_one st s) = (if idle st s then (admission_nodes st)(s := None) else admission_nodes st) \<and>
    failures (drain_one st s) =
      (if idle st s \<and> failures st s = None then (failures st)(s \<mapsto> RuntimeError) else failures st)"
  proof (cases "idle st s")
    case True
    show ?thesis by (rule drain_one_idle [OF assms(1) True assms(2)]) (use True in simp)
  qed (use assms(2) drain_one_busy in simp)
  then show "admission_closing (drain_one st s)"
    and "admission_nodes (drain_one st s) = (if idle st s then (admission_nodes st)(s := None) else admission_nodes st)"
    and "failures (drain_one st s) =
      (if idle st s \<and> failures st s = None then (failures st)(s \<mapsto> RuntimeError) else failures st)"
    by blast+
qed

lemma drain_run:
  assumes "queue_ok (st, add_mset (Drain ss) P)" "admission_closing st"
  shows "(step exhaustion)\<^sup>*\<^sup>* (st, add_mset (Drain ss) P) (foldl drain_one st ss, add_mset (Drain []) P) \<and>
    (\<forall>s. admission_nodes (foldl drain_one st ss) s =
       (if s \<in> set ss \<and> idle st s then None else admission_nodes st s)) \<and>
    (\<forall>s. failures (foldl drain_one st ss) s =
       (if s \<in> set ss \<and> idle st s \<and> failures st s = None then Some RuntimeError else failures st s))"
  using assms
proof (induction ss arbitrary: st)
  case (Cons s ss)
  have run: "(step exhaustion)\<^sup>*\<^sup>* (st, add_mset (Drain (s # ss)) P) (drain_one st s, add_mset (Drain ss) P)"
    by (rule drain_one_step [OF Cons.prems])
  then have ok: "queue_ok (drain_one st s, add_mset (Drain ss) P)"
    using Cons.prems(1) by (rule steps_preserve_queue_ok)
  note e = drain_one_closing [OF Cons.prems, of s]
  note IH = Cons.IH [OF ok e(1)]
  have idle: "idle (drain_one st s) t = (idle st t \<and> t \<noteq> s)" for t
    by (cases "t = s") (auto simp: idle_def e(2) split: option.splits)
  show ?case
    using IH rtranclp_trans [OF run] by (auto simp: idle e(2,3))
qed simp

lemma drain_closing:
  assumes "queue_ok (st, add_mset (Drain ss) P)" "admission_closing st"
  shows "admission_closing (foldl drain_one st ss)"
  using assms
proof (induction ss arbitrary: st)
  case (Cons s ss)
  have "queue_ok (drain_one st s, add_mset (Drain ss) P)"
    using drain_one_step [OF Cons.prems, where exhaustion = False] Cons.prems(1) by (rule steps_preserve_queue_ok)
  then show ?case using Cons.IH drain_one_closing(1) [OF Cons.prems] by simp
qed simp

subsection \<open>Sample runs\<close>

text \<open>One submission in an otherwise idle queue, up to the entry of its pump.\<close>

lemma submit_run:
  assumes "\<not> admission_closing st" "\<not> next_sequence st > kMaxSequence"
    and "admission_nodes st (next_sequence st) = None"
  shows "(step exhaustion)\<^sup>*\<^sup>* (st, P)
    (st\<lparr>next_sequence := next_sequence st + 1,
        admission_nodes := (admission_nodes st)(next_sequence st \<mapsto> \<lparr>dispatch = d, rollback = r, executing = False\<rparr>),
        admission_fifo := admission_fifo st @ [next_sequence st]\<rparr>, add_mset (PumpEnter (Some (next_sequence st))) P)"
proof -
  let ?s = "next_sequence st"
  have "step exhaustion (st, P) (st\<lparr>next_sequence := ?s + 1\<rparr>, add_mset (Prepare ?s d r) P)"
    using assms by (intro step.submit) (simp add: reserve_sequence_def)
  moreover have "step exhaustion (st\<lparr>next_sequence := ?s + 1\<rparr>, add_mset (Prepare ?s d r) P)
      (st\<lparr>next_sequence := ?s + 1\<rparr>, add_mset (Admit ?s d r) P)"
    by (rule step.prepared)
  moreover have "step exhaustion (st\<lparr>next_sequence := ?s + 1\<rparr>, add_mset (Admit ?s d r) P)
      (st\<lparr>next_sequence := ?s + 1,
        admission_nodes := (admission_nodes st)(?s \<mapsto> \<lparr>dispatch = d, rollback = r, executing = False\<rparr>),
        admission_fifo := admission_fifo st @ [?s]\<rparr>, add_mset (PumpEnter (Some ?s)) P)"
    using assms by (intro step.admitted) (simp add: admit_def)
  ultimately show ?thesis by (meson rtranclp.rtrancl_refl rtranclp.rtrancl_into_rtrancl)
qed

text \<open>The pump entered and its first dispatch started.\<close>

lemma dispatch_run:
  assumes "pump_enter st = Some st1" "pump_select st1 = (st2, Some (s, d))"
  shows "(step exhaustion)\<^sup>*\<^sup>* (st, add_mset (PumpEnter sync) P) (st2, add_mset (Dispatching s d sync) P)"
  using step.pump_entered [OF assms(1)] step.pump_dispatch [OF assms(2)]
  by (meson rtranclp.rtrancl_refl rtranclp.rtrancl_into_rtrancl)

text \<open>The dispatch returned and the pump stopped.\<close>

lemma stop_run:
  assumes "pump_select st = (st1, None)"
  shows "(step exhaustion)\<^sup>*\<^sup>* (st, add_mset (Dispatching s d sync) P) (st1, P)"
  using step.dispatched step.pump_stop [OF assms]
  by (meson rtranclp.rtrancl_refl rtranclp.rtrancl_into_rtrancl)

definition sample_node :: "bool \<Rightarrow> AdmissionNode" where
  "sample_node e = \<lparr>dispatch = (if e then None else Some 7), rollback = Some 8, executing = e\<rparr>"

definition sample_queue :: "sequence \<Rightarrow> (sequence \<rightharpoonup> AdmissionNode) \<Rightarrow> sequence list \<Rightarrow> usize \<Rightarrow> bool \<Rightarrow> QueueState" where
  "sample_queue n nodes fifo credits pumping =
     (initial_queue 1 2)\<lparr>next_sequence := n, admission_nodes := nodes, admission_fifo := fifo,
        admission_credits := credits, admission_pumping := pumping\<rparr>"

lemma sample_initial: "initial_queue 1 2 = sample_queue 1 Map.empty [] 0 False"
  by (simp add: sample_queue_def initial_queue_def)

lemma sample_submit:
  assumes "n \<le> kMaxSequence" "nodes n = None"
  shows "(step exhaustion)\<^sup>*\<^sup>* (sample_queue n nodes fifo credits p, P)
    (sample_queue (n + 1) (nodes(n \<mapsto> sample_node False)) (fifo @ [n]) credits p, add_mset (PumpEnter (Some n)) P)"
  using submit_run [of "sample_queue n nodes fifo credits p" exhaustion P "Some 7" "Some 8"] assms
  by (simp add: sample_queue_def sample_node_def initial_queue_def)

lemma sample_enter:
  "pump_enter (sample_queue n nodes fifo credits False) = Some (sample_queue n nodes fifo credits True)"
  by (simp add: pump_enter_def sample_queue_def initial_queue_def)

lemma sample_select:
  "pump_select (sample_queue n nodes fifo credits True) =
     (if 2 \<le> credits \<or> fifo = [] then (sample_queue n nodes fifo credits False, None)
      else case scan_fifo nodes fifo of
        (fifo, None) \<Rightarrow> (sample_queue n nodes fifo credits False, None)
      | (fifo, Some s) \<Rightarrow> (sample_queue n (nodes(s \<mapsto> (the (nodes s))\<lparr>dispatch := None, executing := True\<rparr>)) fifo
           (credits + 1) True, Some (s, dispatch (the (nodes s)))))"
  by (simp add: pump_select_def sample_queue_def initial_queue_def Let_def split: prod.splits option.splits)

lemma sample_node_simps [simp]:
  "executing (sample_node e) = e" "dispatch (sample_node e) = (if e then None else Some 7)"
  "(sample_node False)\<lparr>dispatch := None, executing := True\<rparr> = sample_node True"
  by (simp_all add: sample_node_def)

text \<open>Sequence 1 dispatched and its pump finished.\<close>

lemma sample_first:
  "(step exhaustion)\<^sup>*\<^sup>* (initial_queue 1 2, {#}) (sample_queue 2 [1 \<mapsto> sample_node True] [1] 1 False, {#})"
proof -
  have "(step exhaustion)\<^sup>*\<^sup>* (initial_queue 1 2, {#})
      (sample_queue 2 [1 \<mapsto> sample_node False] [1] 0 False, {#PumpEnter (Some 1)#})"
    using sample_submit [of 1 Map.empty exhaustion "[]" 0 False "{#}"] by (simp add: sample_initial max_sequence_word)
  also have "(step exhaustion)\<^sup>*\<^sup>* \<dots> (sample_queue 2 [1 \<mapsto> sample_node True] [1] 1 True, {#Dispatching 1 (Some 7) (Some 1)#})"
    by (rule dispatch_run [OF sample_enter]) (simp add: sample_select)
  also have "(step exhaustion)\<^sup>*\<^sup>* \<dots> (sample_queue 2 [1 \<mapsto> sample_node True] [1] 1 False, {#})"
    by (rule stop_run) (simp add: sample_select)
  finally show ?thesis .
qed
text \<open>Sequence 2 dispatching by its submitter while 1 executes.\<close>

lemma sample_second:
  "(step exhaustion)\<^sup>*\<^sup>* (initial_queue 1 2, {#})
    (sample_queue 3 [1 \<mapsto> sample_node True, 2 \<mapsto> sample_node True] [1, 2] 2 True,
     {#Dispatching 2 (Some 7) (Some 2)#})"
proof -
  note sample_first
  also have "(step exhaustion)\<^sup>*\<^sup>* (sample_queue 2 [1 \<mapsto> sample_node True] [1] 1 False, {#})
      (sample_queue 3 [1 \<mapsto> sample_node True, 2 \<mapsto> sample_node False] [1, 2] 1 False, {#PumpEnter (Some 2)#})"
    using sample_submit [of 2 "[1 \<mapsto> sample_node True]" exhaustion "[1]" 1 False "{#}"] by (simp add: max_sequence_word)
  also have "(step exhaustion)\<^sup>*\<^sup>* \<dots>
      (sample_queue 3 [1 \<mapsto> sample_node True, 2 \<mapsto> sample_node True] [1, 2] 2 True,
       {#Dispatching 2 (Some 7) (Some 2)#})"
    by (rule dispatch_run [OF sample_enter]) (simp add: sample_select word_le_nat_alt)
  finally show ?thesis .
qed

text \<open>Sequence 1 completed while 2 dispatches; the pump its completion calls finds the flag set.\<close>

lemma sample_complete_first:
  "complete (sample_queue n ([1 \<mapsto> sample_node True, 2 \<mapsto> sample_node True]) [1, 2] 2 True) 1 None =
     Inr ((sample_queue n [2 \<mapsto> sample_node True] [2] 1 True)\<lparr>completed := 1\<rparr>, True)" if "1 < n"
  using that by (simp add: complete_def sample_queue_def initial_queue_def Let_def not_le fun_upd_twist)

lemma sample_lost_wakeup:
  obtains st where "(step True)\<^sup>*\<^sup>* (initial_queue 1 2, {#}) (st, {#})" "parked st = [2]"
    "\<not> admission_closing st" "admission_credits st = 0" "\<And>s. \<not> executes st s" "next_sequence st = 3"
    "completed st = 1" "failures st = Map.empty"
proof -
  let ?a = "(sample_queue 3 [2 \<mapsto> sample_node True] [2] 1 True)\<lparr>completed := 1\<rparr>"
  let ?D = "Dispatching 2 (Some 7) (Some 2)"
  have c: "step True (sample_queue 3 [1 \<mapsto> sample_node True, 2 \<mapsto> sample_node True] [1, 2] 2 True, {#?D#})
      (?a, {#PumpEnter None, ?D#})"
    using step.completes [OF sample_complete_first [of 3], of True "{#?D#}"] by (simp add: repump_def)
  have "pump_enter ?a = None" by (simp add: pump_enter_def sample_queue_def)
  then have ret: "step True (?a, {#PumpEnter None, ?D#}) (?a, {#?D#})" by (rule step.pump_return)
  have un: "step True (?a, {#?D#}) (pump_unavailable ?a 2 (Some 7), {#})" by (rule step.unavailable) simp
  have "(step True)\<^sup>*\<^sup>* (initial_queue 1 2, {#}) (?a, {#PumpEnter None, ?D#})"
    using sample_second c by (rule rtranclp.rtrancl_into_rtrancl)
  then have "(step True)\<^sup>*\<^sup>* (initial_queue 1 2, {#}) (?a, {#?D#})"
    using ret by (rule rtranclp.rtrancl_into_rtrancl)
  then have run: "(step True)\<^sup>*\<^sup>* (initial_queue 1 2, {#}) (pump_unavailable ?a 2 (Some 7), {#})"
    using un by (rule rtranclp.rtrancl_into_rtrancl)
  show ?thesis
    by (rule that [OF run])
      (simp_all add: pump_unavailable_def sample_queue_def initial_queue_def parked_def executes_def)
qed

section \<open>Properties\<close>

text \<open>
  C36. Tokens. For a leased queue identifier and a sequence that \<open>submit_prepared\<close> can hand out, the
  token is positive, so it is never taken for an error value, and the decoding in \<open>wait\<close> gives back
  exactly the identifier and the sequence.
\<close>

theorem token_roundtrip:
  assumes "q \<noteq> 0" "s \<noteq> 0" "s \<le> kMaxSequence"
  shows "0 < sint (encode_token q s) \<and> drop_bit kSequenceBits (encode_token q s) = ucast q \<and>
    encode_token q s AND kSequenceMask = s"
proof (intro conjI)
  show "0 < sint (encode_token q s)" using encode_token_positive assms by blast
  show "drop_bit kSequenceBits (encode_token q s) = ucast q"
    using encode_token_bits(1) [OF assms(3)] by (simp add: token_masks)
  show "encode_token q s AND kSequenceMask = s"
    using encode_token_bits(2) [OF assms(3)] by (simp add: token_masks take_bit_eq_mask)
qed

theorem token_roundtrip_witness:
  "0 < sint (encode_token 255 36028797018963967) \<and>
   drop_bit kSequenceBits (encode_token 255 36028797018963967) = 255 \<and>
   encode_token 255 36028797018963967 AND kSequenceMask = 36028797018963967"
  using token_roundtrip [of 255 36028797018963967] by (simp add: max_sequence_word)

text \<open>
  Queue identifiers. A lease takes an identifier from 1 to 255 that was free and makes it live,
  releasing it restores the registry, and a lease fails exactly when all 255 are live, leaving the
  registry alone.
\<close>

lemma queue_id_lease:
  assumes "length ids = 255"
  shows "case lease_queue_id ids of
      (ids', Inl e) \<Rightarrow> e = RuntimeError \<and> ids' = ids \<and> (\<forall>b \<in> set ids. b)
    | (ids', Inr q) \<Rightarrow> q \<noteq> 0 \<and> \<not> ids ! (unat q - 1) \<and> ids' = ids[unat q - 1 := True] \<and>
        release_queue_id ids' q = ids"
proof (cases "first_clear 0 ids")
  case None
  then have "\<forall>b \<in> set ids. b" by (simp add: first_clear_None_iff)
  then show ?thesis by (simp add: lease_queue_id_def None)
next
  case (Some i)
  have i: "i < 255" "\<not> ids ! i" using first_clear_SomeD [OF Some] assms by simp_all
  then have "ids[i := False] = ids" by (metis (full_types) list_update_id)
  then show ?thesis using Some i of_nat_queue_id [OF i(1)] by (simp add: lease_queue_id_def release_queue_id_def)
qed

lemma queue_id_lease_witness:
  "lease_queue_id (replicate 255 False) = (True # replicate 254 False, Inr 1) \<and>
   release_queue_id (True # replicate 254 False) 1 = replicate 255 False"
proof -
  have "replicate (Suc 254) False = False # replicate 254 False" by (rule replicate_Suc)
  then have r: "replicate 255 False = False # replicate 254 False" by simp
  then have l: "lease_queue_id (replicate 255 False) = (True # replicate 254 False, Inr 1)"
    by (simp add: lease_queue_id_def)
  have "length (replicate 255 False) = 255" by (rule length_replicate)
  from queue_id_lease [OF this] show ?thesis
    by (unfold l prod.case sum.case) blast
qed

text \<open>
  C1. State invariant, over every interleaving of submitters, pumping, completing and tearing-down
  threads, with and without resource exhaustion: the FIFO lists each admitted node exactly once, the
  credits in use are exactly the executing nodes and never exceed the capacity, the pump flag is set
  exactly while one thread pumps, no two of the reservations held and the operations admitted share a
  sequence number, and a new reservation gets a number that none of them has and that is above
  \<open>completed_\<close>. Numbers are not unique over time: an abandoned one may be given out again.
\<close>

theorem queue_state_invariant:
  assumes "reachable exhaustion (initial_queue q capacity) (st, P)"
  shows "distinct (admission_fifo st) \<and> set (admission_fifo st) = dom (admission_nodes st) \<and>
    unat (admission_credits st) = card {s. executes st s} \<and> admission_credits st \<le> capacity \<and>
    size (filter_mset is_pump P) = (if admission_pumping st then 1 else 0) \<and>
    (\<forall>s. count (held P) s + count (mset (admission_fifo st)) s \<le> 1) \<and>
    (\<forall>s st'. reserve_sequence st = Inr (s, st') \<longrightarrow>
       completed st < s \<and> count (held P) s + count (mset (admission_fifo st)) s = 0) \<and>
    completed st < next_sequence st \<and> next_sequence st \<le> kMaxSequence + 1"
proof -
  have ok: "nodes_ok st" "sequences_ok st (live st P)" "pumping_ok st P"
    using queue_okD [OF reachable_queue_ok [OF assms]] by blast+
  have fifo: "distinct (admission_fifo st)" "set (admission_fifo st) = dom (admission_nodes st)"
    "unat (admission_credits st) = length (filter (executes st) (admission_fifo st))"
    "admission_credits st \<le> admission_capacity st"
    using ok(1) unfolding nodes_ok_def by blast+
  have "set (filter (executes st) (admission_fifo st)) = {s. executes st s}"
    using fifo(2) by (auto simp: executes_def split: option.splits)
  then have "card {s. executes st s} = length (filter (executes st) (admission_fifo st))"
    using distinct_card [of "filter (executes st) (admission_fifo st)"] fifo(1) by simp
  moreover have "completed st < s \<and> count (live st P) s = 0" if "reserve_sequence st = Inr (s, st')" for s st'
  proof -
    have "s = next_sequence st" using that by (auto simp: reserve_sequence_def split: if_splits)
    moreover have "next_sequence st \<notin># live st P" using sequences_okD(5) [OF ok(2), of "next_sequence st"] by auto
    ultimately show ?thesis using sequences_okD(3) [OF ok(2)] by (simp only: not_in_iff)
  qed
  ultimately show ?thesis
    using fifo ok(3) sequences_okD(2,3) [OF ok(2)] sequences_okD(4) [OF ok(2)] reachable_keeps(1) [OF assms]
    by (simp add: pumping_ok_def pumps_def live_def del: count_eq_zero_iff count_mset_0_iff add_is_0)
qed

theorem queue_state_invariant_witness:
  "\<exists>st P. reachable True (initial_queue 1 2) (st, P) \<and> admission_credits st = 2 \<and>
     {s. executes st s} = {1, 2} \<and> unat (admission_credits st) = card {s. executes st s} \<and>
     size (filter_mset is_pump P) = 1"
proof -
  let ?st = "sample_queue 3 [1 \<mapsto> sample_node True, 2 \<mapsto> sample_node True] [1, 2] 2 True"
  let ?P = "{#Dispatching 2 (Some 7) (Some 2)#}"
  have r: "reachable True (initial_queue 1 2) (?st, ?P)" unfolding reachable_def by (rule sample_second)
  have e: "{s. executes ?st s} = {1, 2}" by (auto simp: executes_def sample_queue_def)
  have c: "admission_credits ?st = 2" "admission_pumping ?st" by (simp_all add: sample_queue_def)
  show ?thesis
    using queue_state_invariant [OF r] r e c by (intro exI [of _ ?st] exI [of _ ?P]) simp
qed

text \<open>
  C5. A token is waitable as long as its operation is admitted: \<open>wait\<close> never rejects it as foreign,
  unsubmitted or skipped, and decodes it to its own sequence.
\<close>

theorem live_token_waitable:
  assumes "reachable exhaustion (initial_queue q capacity) (st, P)" "q \<noteq> 0" "admission_nodes st s \<noteq> None"
  shows "wait_sequence st (encode_token q s) = Inr s"
proof -
  have ok: "nodes_ok st" "sequences_ok st (live st P)"
    using queue_okD [OF reachable_queue_ok [OF assms(1)]] by blast+
  have s: "s \<in># live st P" using ok(1) assms(3) by (auto simp: nodes_ok_def live_def)
  then have bounds: "0 < s" "s < next_sequence st" using sequences_okD(5) [OF ok(2)] by blast+
  then have "s \<noteq> 0" "s \<le> kMaxSequence"
    using sequences_okD(2) [OF ok(2)] unfolding max_sequence_word word_le_nat_alt word_less_nat_alt by auto
  then have token: "0 < sint (encode_token q s)" "drop_bit kSequenceBits (encode_token q s) = ucast q"
    "encode_token q s AND kSequenceMask = s"
    using encode_token_positive encode_token_bits by (simp_all add: token_masks take_bit_eq_mask)
  have "unat q < 256" using unsigned_less [of q] by simp
  then have "unat (ucast q :: sequence) = unat q" by (simp add: unsigned_ucast_eq take_bit_nat_eq_self)
  then have "(ucast q :: sequence) \<noteq> 0" using assms(2) by (metis unsigned_0 unat_eq_zero)
  then show ?thesis
    using token \<open>s \<noteq> 0\<close> bounds(2) live_not_skipped [OF ok(2) s] reachable_keeps(2) [OF assms(1)]
    by (simp add: wait_sequence_def Let_def not_le)
qed

theorem live_token_waitable_witness:
  "\<exists>st P. reachable True (initial_queue 1 2) (st, P) \<and> wait_sequence st 36028797018963970 = Inr 2"
proof -
  let ?st = "sample_queue 3 [1 \<mapsto> sample_node True, 2 \<mapsto> sample_node True] [1, 2] 2 True"
  let ?P = "{#Dispatching 2 (Some 7) (Some 2)#}"
  have r: "reachable True (initial_queue 1 2) (?st, ?P)" unfolding reachable_def by (rule sample_second)
  have n: "admission_nodes ?st 2 \<noteq> None" by (simp add: sample_queue_def)
  have t: "encode_token 1 2 = 36028797018963970" by (simp add: encode_token_def token_masks push_bit_eq_mult)
  show ?thesis using live_token_waitable [OF r _ n] r t by (intro exI [of _ ?st] exI [of _ ?P]) simp
qed



text \<open>
  C2. No lost wake-up. As long as no dispatch reports resource exhaustion, an operation parked in an
  open queue is always awaited: a thread pumps or is about to, or an operation is executing whose
  completion pumps.
\<close>

theorem parked_is_awaited:
  assumes "reachable False (initial_queue q capacity) (st, P)" "capacity \<noteq> 0"
    and "parked st \<noteq> []" "\<not> admission_closing st"
  shows "(\<exists>f. f \<in># P \<and> (is_pump f \<or> (\<exists>sync. f = PumpEnter sync))) \<or> (\<exists>s. executes st s)"
proof (cases "admission_credits st < admission_capacity st")
  case True
  have flag: "pumping_ok st P" using queue_okD [OF reachable_queue_ok [OF assms(1)]] by blast
  have "admission_pumping st \<or> (\<exists>sync. PumpEnter sync \<in># P)"
    using reachable_wakes [OF assms(1)] True assms(3,4) by (simp add: wakes_def)
  moreover have "\<exists>f. f \<in># P \<and> is_pump f" if "admission_pumping st"
  proof -
    have "size (filter_mset is_pump P) = Suc 0" using flag that by (simp add: pumping_ok_def pumps_def)
    then obtain f where "f \<in># filter_mset is_pump P" using size_eq_Suc_imp_elem by blast
    then show ?thesis by auto
  qed
  ultimately show ?thesis by blast
next
  case False
  have ok: "nodes_ok st" using queue_okD [OF reachable_queue_ok [OF assms(1)]] by blast
  have "admission_credits st \<noteq> 0" using False assms(2) reachable_keeps(1) [OF assms(1)] word_neq_0_conv by metis
  then have "filter (executes st) (admission_fifo st) \<noteq> []"
    using ok by (auto simp: nodes_ok_def unat_eq_zero)
  then show ?thesis by (auto simp: filter_empty_conv)
qed

theorem parked_is_awaited_witness:
  "\<exists>st P. reachable False (initial_queue 1 2) (st, P) \<and> parked st = [1] \<and> \<not> admission_closing st \<and>
     ((\<exists>f. f \<in># P \<and> (is_pump f \<or> (\<exists>sync. f = PumpEnter sync))) \<or> (\<exists>s. executes st s))"
proof -
  let ?st = "sample_queue 2 [1 \<mapsto> sample_node False] [1] 0 False"
  have "(step False)\<^sup>*\<^sup>* (initial_queue 1 2, {#}) (?st, {#PumpEnter (Some 1)#})"
    using sample_submit [of 1 Map.empty False "[]" 0 False "{#}"] by (simp add: sample_initial max_sequence_word)
  then have r: "reachable False (initial_queue 1 2) (?st, {#PumpEnter (Some 1)#})" by (simp add: reachable_def)
  have p: "parked ?st = [1]" "\<not> admission_closing ?st" by (simp_all add: parked_def sample_queue_def initial_queue_def)
  show ?thesis
    using parked_is_awaited [OF r _ _ p(2)] r p by (intro exI [of _ ?st] exI [of _ "{#PumpEnter (Some 1)#}"]) simp
qed

text \<open>
  C38. With resource exhaustion the wake-up can be lost. The completion of the last executing
  operation calls the pump while another thread still dispatches and returns at once, since the pump
  flag is set; that thread then parks its operation and leaves. Nothing runs any more, the queue is
  open, every credit is free and the operation stays parked: a wait on its token does not return
  until some later submission or completion pumps.
\<close>

theorem exhaustion_loses_wakeup:
  "\<exists>st. reachable True (initial_queue 1 2) (st, {#}) \<and> parked st = [2] \<and> \<not> admission_closing st \<and>
     admission_credits st = 0 \<and> (\<forall>s. \<not> executes st s) \<and>
     wait_sequence st (encode_token 1 2) = Inr 2 \<and> \<not> wait_ready st 2"
proof (rule sample_lost_wakeup)
  fix st
  assume run: "(step True)\<^sup>*\<^sup>* (initial_queue 1 2, {#}) (st, {#})" and parked: "parked st = [2]"
    and open_: "\<not> admission_closing st" "admission_credits st = 0" "\<And>s. \<not> executes st s"
    and rest: "next_sequence st = 3" "completed st = 1" "failures st = Map.empty"
  have r: "reachable True (initial_queue 1 2) (st, {#})" using run by (simp add: reachable_def)
  have ok: "nodes_ok st" "sequences_ok st (live st {#})"
    using queue_okD [OF reachable_queue_ok [OF r]] by blast+
  have "(2 :: sequence) \<in> set (parked st)" using parked by simp
  then have two: "2 \<in># live st {#}" by (simp add: parked_def live_def)
  have t: "encode_token 1 2 = 36028797018963970" by (simp add: encode_token_def token_masks push_bit_eq_mult)
  have "wait_sequence st (encode_token 1 2) = Inr 2"
    using live_not_skipped [OF ok(2) two] reachable_keeps(2) [OF r] rest(1)
    unfolding wait_sequence_def t by (simp add: token_masks Let_def mask_eq_decr_exp)
  moreover have "\<not> wait_ready st 2" using rest by (simp add: wait_ready_def word_le_nat_alt)
  ultimately show ?thesis using r parked open_ by blast
qed

text \<open>
  C4. Teardown. In every reachable state \<open>close_and_drain\<close>, run to its end, leaves no parked
  operation: each one is gone from the queue, a wait on it returns and rethrows a failure, while the
  executing operations stay, and nothing can be submitted afterwards.
\<close>

theorem close_and_drain_terminal:
  assumes "reachable exhaustion (initial_queue q capacity) (st, P)"
  shows "reachable exhaustion (initial_queue q capacity) (close_and_drain st, P) \<and>
    parked (close_and_drain st) = [] \<and>
    (\<forall>s. s \<in> set (parked st) \<longrightarrow> admission_nodes (close_and_drain st) s = None \<and>
       wait_ready (close_and_drain st) s \<and> wait_result (close_and_drain st) s \<noteq> Inr ()) \<and>
    (\<forall>s. s \<notin> set (parked st) \<longrightarrow> admission_nodes (close_and_drain st) s = admission_nodes st s) \<and>
    reserve_sequence (close_and_drain st) = Inl LogicError"
proof -
  define c where "c = close_admission st"
  have c: "admission_closing c" "admission_nodes c = admission_nodes st" "parked c = parked st" "idle c = idle st"
    unfolding c_def by (simp_all add: close_admission_def parked_def idle_def fun_eq_iff)
  have start: "(step exhaustion)\<^sup>*\<^sup>* (st, P) (c, add_mset (Drain (parked st)) P)"
    using step.close [of exhaustion st P] step.drain_collect [of exhaustion c P] c(3) unfolding c_def
    by (metis rtranclp.rtrancl_refl rtranclp.rtrancl_into_rtrancl)
  have ok: "queue_ok (c, add_mset (Drain (parked st)) P)"
    using steps_preserve_queue_ok [OF start reachable_queue_ok [OF assms]] .
  note run = drain_run [OF ok c(1), of exhaustion, unfolded c]
  have d: "foldl drain_one c (parked st) = close_and_drain st" by (simp add: close_and_drain_def c_def [symmetric] c(3))
  have closing: "admission_closing (foldl drain_one c (parked st))"
    by (rule drain_closing [OF ok c(1)])
  have idle: "set (parked st) = {s. idle st s}"
    using parked_idle queue_okD(1) [OF reachable_queue_ok [OF assms]] by blast
  have nodes: "admission_nodes (close_and_drain st) s = (if idle st s then None else admission_nodes st s)" for s
    using run by (simp add: d idle)
  have fails: "failures (close_and_drain st) s \<noteq> None" if "idle st s" for s
    using run that by (auto simp: d idle)
  have reach: "reachable exhaustion (initial_queue q capacity) (close_and_drain st, P)"
    using assms start run step.drain_done [of exhaustion "close_and_drain st" P] unfolding reachable_def d
    by (meson rtranclp_trans rtranclp.rtrancl_into_rtrancl)
  have "\<not> idle (close_and_drain st) s" for s by (auto simp: idle_def nodes split: option.splits)
  then have "parked (close_and_drain st) = []"
    using parked_idle [OF queue_okD(1) [OF reachable_queue_ok [OF reach]]] by simp
  moreover have "wait_ready (close_and_drain st) s \<and> wait_result (close_and_drain st) s \<noteq> Inr ()"
    if "idle st s" for s
    using fails [OF that] by (auto simp: wait_ready_def wait_result_def)
  ultimately show ?thesis
    using reach closing by (simp add: idle nodes reserve_sequence_def d)
qed

theorem close_and_drain_terminal_witness:
  "\<exists>st. reachable True (initial_queue 1 2) (st, {#}) \<and> parked st = [2] \<and>
     reachable True (initial_queue 1 2) (close_and_drain st, {#}) \<and> parked (close_and_drain st) = [] \<and>
     wait_ready (close_and_drain st) 2 \<and> wait_result (close_and_drain st) 2 \<noteq> Inr ()"
proof (rule sample_lost_wakeup)
  fix st
  assume "(step True)\<^sup>*\<^sup>* (initial_queue 1 2, {#}) (st, {#})" and p: "parked st = [2]"
  then have r: "reachable True (initial_queue 1 2) (st, {#})" by (simp add: reachable_def)
  show ?thesis using close_and_drain_terminal [OF r] r p by (intro exI [of _ st]) simp
qed

text \<open>
  C39. A wait can return early. When the completion of one operation pumps a parked one whose
  dispatch fails, that failure completes the later sequence first and \<open>completed_\<close> moves past
  operations that still execute: a wait on such an earlier token returns without an error.
\<close>

theorem wait_returns_while_executing:
  "\<exists>st P. reachable False (initial_queue 1 2) (st, P) \<and> executes st 2 \<and>
     wait_sequence st (encode_token 1 2) = Inr 2 \<and> wait_ready st 2 \<and> wait_result st 2 = Inr ()"
proof -
  define m where "m = [2 \<mapsto> sample_node True, (3 :: sequence) \<mapsto> sample_node True]"
  define f where "f = (sample_queue 4 [2 \<mapsto> sample_node True] [2] 1 True)\<lparr>completed := 3, failures := [3 \<mapsto> RuntimeError]\<rparr>"
  let ?a = "sample_queue 3 [1 \<mapsto> sample_node True, 2 \<mapsto> sample_node True] [1, 2] 2"
  let ?b = "sample_queue 4 [1 \<mapsto> sample_node True, 2 \<mapsto> sample_node True, 3 \<mapsto> sample_node False] [1, 2, 3] 2"
  let ?c = "\<lambda>p. (sample_queue 4 [2 \<mapsto> sample_node True, 3 \<mapsto> sample_node False] [2, 3] 1 p)\<lparr>completed := 1\<rparr>"
  let ?d = "(sample_queue 4 m [2, 3] 2 True)\<lparr>completed := 1\<rparr>"
  let ?e = "(sample_queue 4 (m(3 \<mapsto> (sample_node True)\<lparr>rollback := None\<rparr>)) [2, 3] 2 True)\<lparr>completed := 1\<rparr>"
  let ?R = "\<lambda>x. reachable False (initial_queue 1 2) x"
  have more: "?R x \<Longrightarrow> (step False)\<^sup>*\<^sup>* x y \<Longrightarrow> ?R y" for x y unfolding reachable_def by (rule rtranclp_trans)
  have one: "?R x \<Longrightarrow> step False x y \<Longrightarrow> ?R y" for x y unfolding reachable_def by (rule rtranclp.rtrancl_into_rtrancl)
  have "?R (?a True, {#Dispatching 2 (Some 7) (Some 2)#})" unfolding reachable_def by (rule sample_second)
  then have "?R (?a False, {#})" by (rule more, intro stop_run) (simp add: sample_select)
  then have "?R (?b False, {#PumpEnter (Some 3)#})"
    by (rule more) (use sample_submit [of 3 "[1 \<mapsto> sample_node True, 2 \<mapsto> sample_node True]" False "[1, 2]" 2 False "{#}"]
        in \<open>simp add: max_sequence_word\<close>)
  then have "?R (?b True, {#PumpLoop (Some 3)#})" by (rule one) (rule step.pump_entered [OF sample_enter])
  then have "?R (?b False, {#})" by (rule one, intro step.pump_stop) (simp add: sample_select)
  moreover have "complete (?b False) 1 None = Inr (?c False, True)"
    by (simp add: complete_def sample_queue_def initial_queue_def Let_def not_le fun_upd_twist)
  ultimately have "?R (?c False, {#PumpEnter None#})"
    using step.completes [of "?b False" 1 None "?c False" True False "{#}"] one by (simp add: repump_def)
  then have "?R (?c True, {#PumpLoop None#})"
    by (rule one, intro step.pump_entered) (simp add: pump_enter_def sample_queue_def initial_queue_def)
  moreover have "pump_select (?c True) = (?d, Some (3, Some 7))"
    by (simp add: pump_select_def sample_queue_def initial_queue_def m_def word_le_nat_alt)
  ultimately have "?R (?d, {#Dispatching 3 (Some 7) None#})" using step.pump_dispatch one by blast
  moreover have "pump_failed_after ?d 3 = (?e, Some 8)"
    by (simp add: pump_failed_after_def sample_queue_def m_def sample_node_def)
  ultimately have "?R (?e, {#CompleteLoop 3 RuntimeError None#})" using step.failed_after one by blast
  moreover have "complete ?e 3 (Some RuntimeError) = Inr (f, True)"
    by (simp add: complete_def sample_queue_def initial_queue_def Let_def not_le m_def f_def fun_upd_twist)
  ultimately have r: "?R (f, {#PumpLoop None, PumpEnter None#})"
    using step.complete_loop [of ?e 3 RuntimeError f True False None "{#}"] one by (simp add: repump_def)
  have n: "executes f 2" "queue_id f = 1" "next_sequence f = 4" "completed f = 3" "failures f 2 = None"
    by (simp_all add: f_def executes_def sample_queue_def initial_queue_def)
  have t: "encode_token 1 2 = 36028797018963970" by (simp add: encode_token_def token_masks push_bit_eq_mult)
  have "\<not> skipped f 2" by (simp add: f_def sample_queue_def initial_queue_def skipped_def)
  then have "wait_sequence f (encode_token 1 2) = Inr 2"
    using n(2,3) unfolding wait_sequence_def t by (simp add: token_masks Let_def mask_eq_decr_exp)
  then show ?thesis using r n by (intro exI [of _ f]) (auto simp: wait_ready_def wait_result_def)
qed

end
