(* ===== verification/Registry.thy ===== *)
theory Registry
  imports Prelude
begin

text \<open>
  The registry of outstanding work and the workspace leases of a device:
  \<open>include/iom/detail/fence.hpp\<close>, \<open>outstanding_work_registry_core.hpp\<close>,
  \<open>workspace_registry.hpp\<close> and \<open>outstanding_work_cleanup.hpp\<close>. An entry says that a queued operation
  still uses an address; storage is released only when every entry of its address has proved that
  its work ended, and is quarantined otherwise. A lease is the exclusive right to a byte range of a
  workspace. The properties: the address index always agrees with the entries, storage is released
  only after proof, leases of one owner never overlap, and a failed registration changes nothing.
  A method of the registry or of its state holds the mutex for its whole body. The functions composed
  of several methods, \<open>release_or_quarantine\<close>, \<open>release_or_invalidate\<close> and the registrations, take it
  once for each call, and \<open>release_or_quarantine\<close> invokes the fences between two calls without it: here
  each of them is one step, so what another thread registers or removes between its calls is outside
  the model. Addresses and identities are words with \<open>nullptr\<close> as 0.
\<close>

section \<open>Fences and entries\<close>

type_synonym EntryId = "64 word"
type_synonym QueueId = "64 word"

datatype EntryState = Live | Invalidated

record FenceResult =
  succeeded :: bool
  fence_failure :: "exn option"

definition fence_success :: FenceResult where
  "fence_success = \<lparr>succeeded = True, fence_failure = None\<rparr>"

definition fence_pending :: FenceResult where
  "fence_pending = \<lparr>succeeded = False, fence_failure = None\<rparr>"

definition fence_failed :: "exn \<Rightarrow> FenceResult" where
  "fence_failed error = \<lparr>succeeded = False, fence_failure = Some error\<rparr>"

text \<open>
  A fence is empty, a backend's capture, or the fence of an invalidated entry. What a backend's
  capture answers is an argument of the functions that invoke fences.
\<close>

datatype Fence = EmptyFence | BackendFence nat | InvalidatedFence

definition fence_bool :: "Fence \<Rightarrow> bool" where
  "fence_bool f = (f \<noteq> EmptyFence)"

fun fence_invoke :: "(nat \<Rightarrow> FenceResult) \<Rightarrow> Fence \<Rightarrow> FenceResult" where
  "fence_invoke backend (BackendFence capture) = backend capture"
| "fence_invoke backend InvalidatedFence = fence_failed RuntimeError"
| "fence_invoke backend EmptyFence = fence_pending"

definition make_invalidated_fence :: Fence where
  "make_invalidated_fence = InvalidatedFence"

record Entry =
  entry_id :: EntryId
  entry_address :: usize
  entry_sequence :: "64 word"
  entry_queue :: QueueId
  entry_state :: EntryState
  entry_fence :: Fence

section \<open>The registry\<close>

text \<open>
  \<open>by_address_\<close> is a multimap: the list of its pairs in the order of insertion, which is the order
  inside each range of equal keys.
\<close>

record OutstandingWorkRegistry =
  by_id :: "EntryId \<rightharpoonup> Entry"
  by_address :: "(usize \<times> EntryId) list"

definition empty_registry :: OutstandingWorkRegistry where
  "empty_registry = \<lparr>by_id = Map.empty, by_address = []\<rparr>"

text \<open>\<open>index_memory\<close> says whether the allocation of the index node succeeds; the entry is erased when not.\<close>

definition register_entry ::
  "bool \<Rightarrow> OutstandingWorkRegistry \<Rightarrow> EntryId \<Rightarrow> usize \<Rightarrow> 64 word \<Rightarrow> QueueId \<Rightarrow> Fence
     \<Rightarrow> OutstandingWorkRegistry \<times> unit throws" where
  "register_entry index_memory reg i address sequence queue fence =
     (if i = 0 then (reg, Inl InvalidArgument)
      else if address = 0 then (reg, Inl InvalidArgument)
      else if sequence = 0 then (reg, Inl InvalidArgument)
      else if queue = 0 then (reg, Inl InvalidArgument)
      else if \<not> fence_bool fence then (reg, Inl InvalidArgument)
      else if by_id reg i \<noteq> None then (reg, Inl InvalidArgument)
      else let reg = reg\<lparr>by_id := (by_id reg)(i \<mapsto>
          \<lparr>entry_id = i, entry_address = address, entry_sequence = sequence, entry_queue = queue,
           entry_state = Live, entry_fence = fence\<rparr>)\<rparr> in
      if \<not> index_memory then (reg\<lparr>by_id := (by_id reg)(i := None)\<rparr>, Inl BadAlloc)
      else (reg\<lparr>by_address := by_address reg @ [(address, i)]\<rparr>, Inr ()))"

fun collect_entries :: "(EntryId \<rightharpoonup> Entry) \<Rightarrow> EntryId list \<Rightarrow> Entry list throws" where
  "collect_entries ids [] = Inr []"
| "collect_entries ids (i # is) =
     (case ids i of
        None \<Rightarrow> Inl LogicError
      | Some entry \<Rightarrow> andThen (collect_entries ids is) (\<lambda>rest. Inr (entry # rest)))"

definition snapshot_for :: "OutstandingWorkRegistry \<Rightarrow> usize \<Rightarrow> Entry list throws" where
  "snapshot_for reg address =
     (if address = 0 then Inl InvalidArgument
      else collect_entries (by_id reg) (map snd (filter (\<lambda>p. fst p = address) (by_address reg))))"

definition erase_entry_locked :: "OutstandingWorkRegistry \<Rightarrow> EntryId \<Rightarrow> OutstandingWorkRegistry" where
  "erase_entry_locked reg i =
     (case by_id reg i of
        None \<Rightarrow> reg
      | Some value \<Rightarrow>
          reg\<lparr>by_address := remove1 (entry_address value, entry_id value) (by_address reg),
              by_id := (by_id reg)(i := None)\<rparr>)"

definition try_release_entry :: "OutstandingWorkRegistry \<Rightarrow> EntryId \<Rightarrow> OutstandingWorkRegistry \<times> bool" where
  "try_release_entry reg i =
     (if i = 0 then (reg, False)
      else case by_id reg i of
        None \<Rightarrow> (reg, False)
      | Some entry \<Rightarrow>
          if entry_state entry \<noteq> Live then (reg, False) else (erase_entry_locked reg i, True))"

definition invalidate_entry_locked :: "Entry \<Rightarrow> Entry" where
  "invalidate_entry_locked entry = entry\<lparr>entry_state := Invalidated, entry_fence := make_invalidated_fence\<rparr>"

definition invalidate_entries_for_queue :: "OutstandingWorkRegistry \<Rightarrow> QueueId \<Rightarrow> OutstandingWorkRegistry" where
  "invalidate_entries_for_queue reg queue =
     (if queue = 0 then reg
      else reg\<lparr>by_id := (\<lambda>i. map_option
             (\<lambda>entry. if entry_queue entry = queue then invalidate_entry_locked entry else entry) (by_id reg i))\<rparr>)"

fun invalidate_entries :: "OutstandingWorkRegistry \<Rightarrow> EntryId list \<Rightarrow> OutstandingWorkRegistry" where
  "invalidate_entries reg [] = reg"
| "invalidate_entries reg (i # is) =
     invalidate_entries
       (case by_id reg i of
          None \<Rightarrow> reg
        | Some entry \<Rightarrow> reg\<lparr>by_id := (by_id reg)(i \<mapsto> invalidate_entry_locked entry)\<rparr>) is"

definition remove_entry_if_present :: "OutstandingWorkRegistry \<Rightarrow> EntryId \<Rightarrow> usize \<Rightarrow> OutstandingWorkRegistry" where
  "remove_entry_if_present reg i expected_address =
     (if i = 0 \<or> expected_address = 0 then reg
      else case by_id reg i of
        None \<Rightarrow> reg
      | Some entry \<Rightarrow> if entry_address entry = expected_address then erase_entry_locked reg i else reg)"

text \<open>The list of the ids already passed stands for the inner loop; no expected address is \<open>None\<close>.\<close>

fun validate_ids_locked ::
  "OutstandingWorkRegistry \<Rightarrow> usize option \<Rightarrow> EntryId list \<Rightarrow> EntryId list \<Rightarrow> unit throws" where
  "validate_ids_locked reg expected prior [] = Inr ()"
| "validate_ids_locked reg expected prior (i # is) =
     (if i = 0 then Inl InvalidArgument
      else if i \<in> set prior then Inl InvalidArgument
      else case by_id reg i of
        None \<Rightarrow> Inl InvalidArgument
      | Some entry \<Rightarrow>
          if expected \<noteq> None \<and> entry_address entry \<noteq> the expected then Inl InvalidArgument
          else validate_ids_locked reg expected (prior @ [i]) is)"

definition remove_entries_at ::
  "OutstandingWorkRegistry \<Rightarrow> EntryId list \<Rightarrow> usize \<Rightarrow> OutstandingWorkRegistry \<times> unit throws" where
  "remove_entries_at reg ids expected_address =
     (if expected_address = 0 then (reg, Inl InvalidArgument)
      else case validate_ids_locked reg (Some expected_address) [] ids of
        Inl e \<Rightarrow> (reg, Inl e)
      | Inr _ \<Rightarrow> (foldl erase_entry_locked reg ids, Inr ()))"

definition remove_entries :: "OutstandingWorkRegistry \<Rightarrow> EntryId list \<Rightarrow> OutstandingWorkRegistry \<times> unit throws" where
  "remove_entries reg ids =
     (case validate_ids_locked reg None [] ids of
        Inl e \<Rightarrow> (reg, Inl e)
      | Inr _ \<Rightarrow> (foldl erase_entry_locked reg ids, Inr ()))"

section \<open>Releasing storage\<close>

text \<open>Which of its two callbacks \<open>release_or_quarantine\<close> called.\<close>

datatype disposal = Released | Quarantined

definition entry_proves :: "(nat \<Rightarrow> FenceResult) \<Rightarrow> Entry \<Rightarrow> bool" where
  "entry_proves backend snapshot =
     (if entry_state snapshot = Invalidated \<or> \<not> fence_bool (entry_fence snapshot) then False
      else let result = fence_invoke backend (entry_fence snapshot) in
        succeeded result \<and> fence_failure result = None)"

definition release_or_quarantine ::
  "(nat \<Rightarrow> FenceResult) \<Rightarrow> OutstandingWorkRegistry \<Rightarrow> usize \<Rightarrow> OutstandingWorkRegistry \<times> disposal" where
  "release_or_quarantine backend reg address =
     (case snapshot_for reg address of
        Inl e \<Rightarrow> (reg, Quarantined)
      | Inr snapshots \<Rightarrow>
          (foldl (\<lambda>reg snapshot. remove_entry_if_present reg (entry_id snapshot) address) reg snapshots,
           if list_all (entry_proves backend) snapshots then Released else Quarantined))"

record SequenceOutcome =
  source_entry_id :: EntryId
  destination_entry_id :: EntryId
  retained_failure :: "exn option"
  native_work_submitted :: bool

definition release_or_invalidate ::
  "OutstandingWorkRegistry \<Rightarrow> EntryId list \<Rightarrow> bool \<Rightarrow> bool \<Rightarrow> OutstandingWorkRegistry \<times> bool" where
  "release_or_invalidate reg ids failure fence_succeeded =
     (if failure \<or> \<not> fence_succeeded then (invalidate_entries reg ids, False)
      else (foldl (\<lambda>reg i. fst (try_release_entry reg i)) reg ids, True))"

definition release_or_invalidate_entries ::
  "OutstandingWorkRegistry \<Rightarrow> SequenceOutcome \<Rightarrow> bool \<Rightarrow> bool \<Rightarrow> OutstandingWorkRegistry \<times> bool" where
  "release_or_invalidate_entries reg outcome failure fence_succeeded =
     release_or_invalidate reg [source_entry_id outcome, destination_entry_id outcome] failure fence_succeeded"

text \<open>
  \<open>AllocatorCleanupAction\<close>: the callback run before the release and the allocator's \<open>free\<close> are
  arguments, each on the allocator's state; only the first failure is kept. The address is 0 once
  the action has run.
\<close>

record CleanupAction =
  action_address :: usize
  action_bytes :: usize
  action_failure :: "exn option"
  action_attempted :: bool

definition remember_failure :: "CleanupAction \<Rightarrow> exn \<Rightarrow> CleanupAction" where
  "remember_failure action failure =
     (if action_failure action = None then action\<lparr>action_failure := Some failure\<rparr> else action)"

definition run_action ::
  "(usize \<Rightarrow> 'a \<Rightarrow> 'a \<times> unit throws) \<Rightarrow> (usize \<Rightarrow> 'a \<Rightarrow> 'a \<times> unit throws) \<Rightarrow> 'a \<Rightarrow> CleanupAction \<Rightarrow> 'a \<times> CleanupAction" where
  "run_action pre_release free st action =
     (if action_attempted action \<or> action_address action = 0 then (st, action)
      else let address = action_address action; action = action\<lparr>action_attempted := True\<rparr>;
               (st, r) = pre_release address st;
               action = (case r of Inl e \<Rightarrow> remember_failure action e | Inr _ \<Rightarrow> action);
               (st, r) = free address st;
               action = (case r of Inl e \<Rightarrow> remember_failure action e | Inr _ \<Rightarrow> action)
        in (st, action\<lparr>action_address := 0\<rparr>))"

text \<open>\<open>Quarantine::drain\<close>: the actions run from the last to the first, those not completed stay.\<close>

fun run_actions ::
  "(usize \<Rightarrow> 'a \<Rightarrow> 'a \<times> unit throws) \<Rightarrow> (usize \<Rightarrow> 'a \<Rightarrow> 'a \<times> unit throws) \<Rightarrow> 'a \<Rightarrow> CleanupAction list
     \<Rightarrow> 'a \<times> CleanupAction list" where
  "run_actions pre_release free st [] = (st, [])"
| "run_actions pre_release free st (action # actions) =
     (let (st, actions) = run_actions pre_release free st actions;
          (st, action) = run_action pre_release free st action
      in (st, action # actions))"

definition quarantine_drain ::
  "(usize \<Rightarrow> 'a \<Rightarrow> 'a \<times> unit throws) \<Rightarrow> (usize \<Rightarrow> 'a \<Rightarrow> 'a \<times> unit throws) \<Rightarrow> 'a \<Rightarrow> CleanupAction list
     \<Rightarrow> 'a \<times> CleanupAction list" where
  "quarantine_drain pre_release free st actions =
     (let (st, actions) = run_actions pre_release free st actions
      in (st, filter (\<lambda>action. \<not> action_attempted action) actions))"

section \<open>Registration through the device's state\<close>

record WorkspaceLease =
  lease_owner :: usize
  lease_address :: usize
  lease_bytes :: usize
  lease_sequence :: "64 word"
  lease_entry :: EntryId

record RegistryState =
  registry :: OutstandingWorkRegistry
  next_entry_id :: EntryId
  next_queue_id :: QueueId
  leases :: "WorkspaceLease list"

definition initial_registry_state :: RegistryState where
  "initial_registry_state = \<lparr>registry = empty_registry, next_entry_id = 1, next_queue_id = 1, leases = []\<rparr>"

text \<open>The counter's next value and the id; 0 marks exhaustion.\<close>

definition allocate_registry_id :: "EntryId \<Rightarrow> (EntryId \<times> EntryId) throws" where
  "allocate_registry_id next_id =
     (if next_id = 0 then Inl OverflowError
      else Inr (if next_id = - 1 then 0 else next_id + 1, next_id))"

definition allocate_queue_id :: "RegistryState \<Rightarrow> RegistryState \<times> QueueId throws" where
  "allocate_queue_id st =
     (case allocate_registry_id (next_queue_id st) of
        Inl e \<Rightarrow> (st, Inl e)
      | Inr (next, i) \<Rightarrow> (st\<lparr>next_queue_id := next\<rparr>, Inr i))"

definition register_copy_entries ::
  "bool \<Rightarrow> bool \<Rightarrow> RegistryState \<Rightarrow> QueueId \<Rightarrow> 64 word \<Rightarrow> usize \<Rightarrow> usize \<Rightarrow> Fence
     \<Rightarrow> RegistryState \<times> (EntryId \<times> EntryId) throws" where
  "register_copy_entries memory1 memory2 st queue sequence source_address destination_address fence =
     (if next_entry_id st = 0 \<or> next_entry_id st > - 1 - 1 then (st, Inl OverflowError)
      else let source = next_entry_id st; destination = source + 1;
               st = st\<lparr>next_entry_id := (if destination = - 1 then 0 else destination + 1)\<rparr> in
      case register_entry memory1 (registry st) source source_address sequence queue fence of
        (reg, Inl e) \<Rightarrow> (st\<lparr>registry := reg\<rparr>, Inl e)
      | (reg, Inr _) \<Rightarrow>
          (case register_entry memory2 reg destination destination_address sequence queue fence of
             (reg, Inl e) \<Rightarrow> (st\<lparr>registry := fst (remove_entries reg [source])\<rparr>, Inl e)
           | (reg, Inr _) \<Rightarrow> (st\<lparr>registry := reg\<rparr>, Inr (source, destination))))"

record OwnerRegistration =
  owner_key :: usize
  owner_address :: usize

text \<open>
  The loop of \<open>register_binary_entries\<close> and \<open>register_sdpa_entries\<close>, which differ in the capacity of
  their entry array (3 and 4): the identities already passed, the ids registered so far, and an
  outcome for each index allocation.
\<close>

fun register_owners ::
  "nat \<Rightarrow> bool list \<Rightarrow> QueueId \<Rightarrow> 64 word \<Rightarrow> Fence \<Rightarrow> RegistryState \<Rightarrow> usize list \<Rightarrow> EntryId list
     \<Rightarrow> OwnerRegistration list \<Rightarrow> RegistryState \<times> EntryId list \<times> unit throws" where
  "register_owners capacity memory queue sequence fence st prior entries [] = (st, entries, Inr ())"
| "register_owners capacity memory queue sequence fence st prior entries (owner # owners) =
     (if owner_key owner = 0 \<or> owner_address owner = 0 then (st, entries, Inl InvalidArgument)
      else if owner_key owner \<in> set prior
      then register_owners capacity memory queue sequence fence st (prior @ [owner_key owner]) entries owners
      else if length entries = capacity then (st, entries, Inl InvalidArgument)
      else case allocate_registry_id (next_entry_id st) of
        Inl e \<Rightarrow> (st, entries, Inl e)
      | Inr (next, i) \<Rightarrow>
          (case register_entry (memory \<noteq> [] \<longrightarrow> hd memory) (registry st) i (owner_address owner) sequence queue fence of
             (reg, Inl e) \<Rightarrow> (st\<lparr>next_entry_id := next, registry := reg\<rparr>, entries, Inl e)
           | (reg, Inr _) \<Rightarrow>
               register_owners capacity (tl memory) queue sequence fence
                 (st\<lparr>next_entry_id := next, registry := reg\<rparr>) (prior @ [owner_key owner]) (entries @ [i]) owners))"

definition register_owner_entries ::
  "nat \<Rightarrow> bool list \<Rightarrow> RegistryState \<Rightarrow> QueueId \<Rightarrow> 64 word \<Rightarrow> OwnerRegistration list \<Rightarrow> Fence
     \<Rightarrow> RegistryState \<times> EntryId list throws" where
  "register_owner_entries capacity memory st queue sequence owners fence =
     (case register_owners capacity memory queue sequence fence st [] [] owners of
        (st, entries, Inr _) \<Rightarrow> (st, Inr entries)
      | (st, entries, Inl e) \<Rightarrow>
          (if entries \<noteq> [] then st\<lparr>registry := fst (remove_entries (registry st) entries)\<rparr> else st, Inl e))"

definition register_binary_entries where
  "register_binary_entries = register_owner_entries 3"

definition register_sdpa_entries where
  "register_sdpa_entries = register_owner_entries 4"

section \<open>Workspace leases\<close>

definition workspace_lease_ranges_overlap :: "WorkspaceLease \<Rightarrow> usize \<Rightarrow> usize \<Rightarrow> bool" where
  "workspace_lease_ranges_overlap lease first past =
     (first < lease_address lease + lease_bytes lease \<and> lease_address lease < past)"

definition acquire_workspace_lease ::
  "bool \<Rightarrow> bool \<Rightarrow> RegistryState \<Rightarrow> usize \<Rightarrow> usize \<Rightarrow> usize \<Rightarrow> 64 word \<Rightarrow> QueueId \<Rightarrow> Fence
     \<Rightarrow> RegistryState \<times> WorkspaceLease throws" where
  "acquire_workspace_lease index_memory lease_memory st owner address bytes sequence queue fence =
     (if owner = 0 then (st, Inl InvalidArgument)
      else if address = 0 then (st, Inl InvalidArgument)
      else if bytes = 0 then (st, Inl InvalidArgument)
      else if address mod 32 \<noteq> 0 then (st, Inl InvalidArgument)
      else if bytes > - 1 - address then (st, Inl OverflowError)
      else if sequence = 0 then (st, Inl InvalidArgument)
      else if queue = 0 then (st, Inl InvalidArgument)
      else if \<not> fence_bool fence then (st, Inl InvalidArgument)
      else let range_end = address + bytes in
      if list_ex (\<lambda>lease. lease_owner lease = owner \<and> workspace_lease_ranges_overlap lease address range_end) (leases st)
      then (st, Inl BadAlloc)
      else case allocate_registry_id (next_entry_id st) of
        Inl e \<Rightarrow> (st, Inl e)
      | Inr (next, i) \<Rightarrow>
          let result = \<lparr>lease_owner = owner, lease_address = address, lease_bytes = bytes,
                lease_sequence = sequence, lease_entry = i\<rparr>;
              st = st\<lparr>next_entry_id := next\<rparr> in
          (case register_entry index_memory (registry st) i address sequence queue fence of
             (reg, Inl e) \<Rightarrow> (st\<lparr>registry := remove_entry_if_present reg i address\<rparr>, Inl e)
           | (reg, Inr _) \<Rightarrow>
               if \<not> lease_memory
               then (st\<lparr>registry := remove_entry_if_present reg i address\<rparr>, Inl BadAlloc)
               else (st\<lparr>registry := reg, leases := leases st @ [result]\<rparr>, Inr result)))"

definition same_range :: "WorkspaceLease \<Rightarrow> WorkspaceLease \<Rightarrow> bool" where
  "same_range lease candidate =
     (lease_owner candidate = lease_owner lease \<and> lease_address candidate = lease_address lease
      \<and> lease_bytes candidate = lease_bytes lease)"

fun erase_first :: "('a \<Rightarrow> bool) \<Rightarrow> 'a list \<Rightarrow> 'a list" where
  "erase_first P [] = []"
| "erase_first P (x # xs) = (if P x then xs else x # erase_first P xs)"

definition complete_workspace_lease :: "RegistryState \<Rightarrow> WorkspaceLease \<Rightarrow> bool \<Rightarrow> RegistryState" where
  "complete_workspace_lease st lease covering_proof =
     (if \<not> list_ex (same_range lease) (leases st) then st
      else if covering_proof
      then st\<lparr>leases := erase_first (same_range lease) (leases st),
              registry := remove_entry_if_present (registry st) (lease_entry lease) (lease_address lease)\<rparr>
      else st\<lparr>registry := invalidate_entries (registry st) [lease_entry lease]\<rparr>)"

definition workspace_range_retained :: "WorkspaceLease list \<Rightarrow> usize \<Rightarrow> usize \<Rightarrow> usize \<Rightarrow> bool" where
  "workspace_range_retained held owner address bytes =
     (if address = 0 \<or> bytes = 0 then False
      else list_ex (\<lambda>lease. lease_owner lease = owner
             \<and> workspace_lease_ranges_overlap lease address (address + bytes)) held)"

section \<open>Interleavings of the operations\<close>

inductive registry_step :: "RegistryState \<Rightarrow> RegistryState \<Rightarrow> bool" where
  copy: "register_copy_entries m1 m2 st q s a b f = (st', r) \<Longrightarrow> registry_step st st'"
| owners: "register_owner_entries n m st q s os f = (st', r') \<Longrightarrow> registry_step st st'"
| queue: "allocate_queue_id st = (st', r'') \<Longrightarrow> registry_step st st'"
| acquire: "acquire_workspace_lease m1 m2 st w a b s q f = (st', l) \<Longrightarrow> registry_step st st'"
| lease_done: "registry_step st (complete_workspace_lease st lease covering)"
| work_done: "release_or_invalidate (registry st) ids failed ok = (reg, r''') \<Longrightarrow>
    registry_step st (st\<lparr>registry := reg\<rparr>)"
| queue_gone: "registry_step st (st\<lparr>registry := invalidate_entries_for_queue (registry st) q\<rparr>)"
| storage_gone: "release_or_quarantine backend (registry st) a = (reg, d) \<Longrightarrow>
    registry_step st (st\<lparr>registry := reg\<rparr>)"

definition registry_reachable :: "RegistryState \<Rightarrow> bool" where
  "registry_reachable st \<longleftrightarrow> registry_step\<^sup>*\<^sup>* initial_registry_state st"

section \<open>The index agrees with the entries\<close>

definition index_ok :: "OutstandingWorkRegistry \<Rightarrow> bool" where
  "index_ok reg \<longleftrightarrow> distinct (by_address reg) \<and>
     (\<forall>a i. (a, i) \<in> set (by_address reg) \<longleftrightarrow> (\<exists>e. by_id reg i = Some e \<and> entry_address e = a)) \<and>
     (\<forall>i e. by_id reg i = Some e \<longrightarrow> entry_id e = i \<and> i \<noteq> 0 \<and> entry_address e \<noteq> 0)"

definition live_entry :: "EntryId \<Rightarrow> usize \<Rightarrow> 64 word \<Rightarrow> QueueId \<Rightarrow> Fence \<Rightarrow> Entry" where
  "live_entry i a s q f = \<lparr>entry_id = i, entry_address = a, entry_sequence = s, entry_queue = q,
     entry_state = Live, entry_fence = f\<rparr>"

lemma live_entry_simps [simp]:
  "entry_id (live_entry i a s q f) = i" "entry_address (live_entry i a s q f) = a"
  "entry_state (live_entry i a s q f) = Live" "entry_fence (live_entry i a s q f) = f"
  by (simp_all add: live_entry_def)

text \<open>Entries with their index pairs appended to a registry.\<close>

definition with_entries :: "OutstandingWorkRegistry \<Rightarrow> Entry list \<Rightarrow> OutstandingWorkRegistry" where
  "with_entries reg es =
     \<lparr>by_id = by_id reg ++ map_of (map (\<lambda>e. (entry_id e, e)) es),
      by_address = by_address reg @ map (\<lambda>e. (entry_address e, entry_id e)) es\<rparr>"

definition fresh_entries :: "OutstandingWorkRegistry \<Rightarrow> Entry list \<Rightarrow> bool" where
  "fresh_entries reg es \<longleftrightarrow> distinct (map entry_id es) \<and>
     (\<forall>e \<in> set es. by_id reg (entry_id e) = None \<and> entry_id e \<noteq> 0 \<and> entry_address e \<noteq> 0)"

lemma with_entries_Nil [simp]: "with_entries reg [] = reg"
  by (simp add: with_entries_def)

lemma register_entry_cases:
  assumes "register_entry m reg i a s q f = (reg', r)"
  obtains (failed) e where "r = Inl e" "reg' = reg"
  | (registered) "r = Inr ()" "reg' = with_entries reg [live_entry i a s q f]"
      "fresh_entries reg [live_entry i a s q f]" "fence_bool f"
proof (cases "i = 0 \<or> a = 0 \<or> s = 0 \<or> q = 0 \<or> \<not> fence_bool f \<or> by_id reg i \<noteq> None")
  case True
  then have "reg' = reg \<and> r = Inl InvalidArgument"
    using assms by (auto simp: register_entry_def split: if_splits)
  then show ?thesis using failed by blast
next
  case False
  show ?thesis
  proof (cases m)
    case True
    with False assms show ?thesis
      by (intro registered)
        (auto simp: register_entry_def with_entries_def fresh_entries_def live_entry_def Let_def map_add_def fun_eq_iff)
  next
    case no: False
    have "(by_id reg)(i := None) = by_id reg" using False by (simp add: fun_upd_idem)
    with False assms no show ?thesis
      by (intro failed [of BadAlloc]) (auto simp: register_entry_def Let_def)
  qed
qed

lemma map_of_entries_None: "i \<notin> entry_id ` set es \<Longrightarrow> map_of (map (\<lambda>e. (entry_id e, e)) es) i = None"
  by (induction es) auto

lemma map_of_entries_Some:
  "distinct (map entry_id es) \<Longrightarrow>
    map_of (map (\<lambda>e. (entry_id e, e)) es) i = Some e \<longleftrightarrow> e \<in> set es \<and> entry_id e = i"
  by (induction es) (auto simp: image_iff)

lemma with_entries_lookup:
  assumes "fresh_entries reg es"
  shows "by_id (with_entries reg es) i = Some e \<longleftrightarrow> by_id reg i = Some e \<or> e \<in> set es \<and> entry_id e = i"
proof -
  let ?m = "map_of (map (\<lambda>e. (entry_id e, e)) es)"
  have "?m i = Some e \<longleftrightarrow> e \<in> set es \<and> entry_id e = i"
    using assms by (intro map_of_entries_Some) (simp add: fresh_entries_def)
  moreover have "?m i = None" if "by_id reg i = Some e"
    using assms that by (intro map_of_entries_None) (auto simp: fresh_entries_def)
  ultimately show ?thesis by (auto simp: with_entries_def map_add_Some_iff)
qed

lemma index_ok_with_entries:
  assumes "index_ok reg" "fresh_entries reg es"
  shows "index_ok (with_entries reg es)"
proof -
  note look = with_entries_lookup [OF assms(2)]
  have d: "distinct (map (\<lambda>e. (entry_address e, entry_id e)) es)"
    using assms(2) by (auto simp: fresh_entries_def distinct_map inj_on_def)
  have new: "(entry_address e, entry_id e) \<notin> set (by_address reg)" if "e \<in> set es" for e
    using assms that by (auto simp: index_ok_def fresh_entries_def)
  have "distinct (by_address (with_entries reg es))"
    using assms(1) d new by (auto simp: with_entries_def index_ok_def)
  moreover have "(a, i) \<in> set (by_address (with_entries reg es)) \<longleftrightarrow>
      (\<exists>e. by_id (with_entries reg es) i = Some e \<and> entry_address e = a)" for a i
    using assms(1) by (auto simp: look) (auto simp: with_entries_def index_ok_def)
  moreover have "entry_id e = i \<and> i \<noteq> 0 \<and> entry_address e \<noteq> 0" if "by_id (with_entries reg es) i = Some e" for i e
    using that assms by (auto simp: look index_ok_def fresh_entries_def)
  ultimately show ?thesis unfolding index_ok_def by blast
qed

lemma erase_with_entries:
  assumes "index_ok reg" "fresh_entries reg (e # es)"
  shows "erase_entry_locked (with_entries reg (e # es)) (entry_id e) = with_entries reg es"
proof -
  have some: "by_id (with_entries reg (e # es)) (entry_id e) = Some e"
    using with_entries_lookup [OF assms(2)] by simp
  have "(entry_address e, entry_id e) \<notin> set (by_address reg)"
    using assms by (auto simp: index_ok_def fresh_entries_def)
  then have a: "remove1 (entry_address e, entry_id e) (by_address (with_entries reg (e # es))) = by_address (with_entries reg es)"
    by (simp add: with_entries_def remove1_append)
  have new: "by_id reg (entry_id e) = None" "entry_id e \<notin> entry_id ` set es"
    using assms(2) by (auto simp: fresh_entries_def)
  then have "map_of (map (\<lambda>e. (entry_id e, e)) es) (entry_id e) = None" by (intro map_of_entries_None)
  then have "(by_id (with_entries reg (e # es)))(entry_id e := None) = by_id (with_entries reg es)"
    using new by (auto simp: with_entries_def map_add_def fun_eq_iff split: option.splits)
  then show ?thesis using some a by (simp add: erase_entry_locked_def)
qed

lemma fresh_entries_Cons: "fresh_entries reg (e # es) \<Longrightarrow> fresh_entries reg es"
  by (simp add: fresh_entries_def)

lemma erase_all_with_entries:
  assumes "index_ok reg" "fresh_entries reg es"
  shows "foldl erase_entry_locked (with_entries reg es) (map entry_id es) = reg"
  using assms(2) by (induction es) (simp_all add: erase_with_entries [OF assms(1)] fresh_entries_Cons)

lemma validate_present:
  assumes "distinct (prior @ is)" "\<forall>i \<in> set is. i \<noteq> 0 \<and> by_id reg i \<noteq> None"
  shows "validate_ids_locked reg None prior is = Inr ()"
  using assms by (induction "is" arbitrary: prior) auto

lemma remove_with_entries:
  assumes "index_ok reg" "fresh_entries reg es"
  shows "fst (remove_entries (with_entries reg es) (map entry_id es)) = reg"
proof -
  have "validate_ids_locked (with_entries reg es) None [] (map entry_id es) = Inr ()"
    using assms(2) with_entries_lookup [OF assms(2)]
    by (intro validate_present) (auto simp: fresh_entries_def)
  then show ?thesis using erase_all_with_entries [OF assms] by (simp add: remove_entries_def)
qed

lemma remove_if_present_with_entry:
  assumes "index_ok reg" "fresh_entries reg [e]"
  shows "remove_entry_if_present (with_entries reg [e]) (entry_id e) (entry_address e) = reg"
  using erase_with_entries [OF assms] with_entries_lookup [OF assms(2), of "entry_id e" e] assms(2)
  by (simp add: remove_entry_if_present_def fresh_entries_def)

lemma index_ok_erase:
  assumes "index_ok reg"
  shows "index_ok (erase_entry_locked reg i)"
proof (cases "by_id reg i")
  case (Some e)
  then have e: "entry_id e = i" using assms by (simp add: index_ok_def)
  have d: "distinct (by_address reg)" and pairs: "\<And>a j. (a, j) \<in> set (by_address reg) \<longleftrightarrow>
      (\<exists>e. by_id reg j = Some e \<and> entry_address e = a)"
    and ids: "\<And>j e. by_id reg j = Some e \<Longrightarrow> entry_id e = j \<and> j \<noteq> 0 \<and> entry_address e \<noteq> 0"
    using assms unfolding index_ok_def by blast+
  show ?thesis
    using Some e d ids unfolding index_ok_def by (auto simp: erase_entry_locked_def pairs)
qed (simp add: erase_entry_locked_def assms)

lemma erase_keeps: "by_id (erase_entry_locked reg i) = (by_id reg)(i := None)"
  by (auto simp: erase_entry_locked_def fun_eq_iff split: option.splits)

lemma index_ok_erases: "index_ok reg \<Longrightarrow> index_ok (foldl erase_entry_locked reg is)"
  by (induction "is" arbitrary: reg) (simp_all add: index_ok_erase)

text \<open>A rewriting of entries that keeps their identifiers and addresses.\<close>

lemma index_ok_rewrite:
  assumes "index_ok reg" "\<And>i. map_option (\<lambda>e. (entry_id e, entry_address e)) (by_id reg' i) =
      map_option (\<lambda>e. (entry_id e, entry_address e)) (by_id reg i)"
    and "by_address reg' = by_address reg"
  shows "index_ok reg'"
proof -
  have a: "(\<exists>e. by_id reg' i = Some e \<and> entry_address e = a) \<longleftrightarrow> (\<exists>e. by_id reg i = Some e \<and> entry_address e = a)" for a i
    using assms(2) [of i] by (cases "by_id reg i"; cases "by_id reg' i") auto
  have b: "\<exists>e'. by_id reg i = Some e' \<and> entry_id e' = entry_id e \<and> entry_address e' = entry_address e"
    if "by_id reg' i = Some e" for i e
    using assms(2) [of i] that by (cases "by_id reg i") auto
  have ids: "\<And>i e. by_id reg i = Some e \<Longrightarrow> entry_id e = i \<and> i \<noteq> 0 \<and> entry_address e \<noteq> 0"
    using assms(1) unfolding index_ok_def by blast
  have "entry_id e = i \<and> i \<noteq> 0 \<and> entry_address e \<noteq> 0" if "by_id reg' i = Some e" for i e
    using b [OF that] ids by metis
  then show ?thesis using assms(1) unfolding index_ok_def a assms(3) by simp
qed

lemma invalidate_keeps [simp]:
  "entry_id (invalidate_entry_locked e) = entry_id e" "entry_address (invalidate_entry_locked e) = entry_address e"
  by (simp_all add: invalidate_entry_locked_def)

lemma index_ok_invalidate_queue: "index_ok reg \<Longrightarrow> index_ok (invalidate_entries_for_queue reg q)"
  by (erule index_ok_rewrite) (auto simp: invalidate_entries_for_queue_def option.map_comp comp_def
      intro!: option.map_cong)

lemma invalidate_entries_effect:
  "by_address (invalidate_entries reg is) = by_address reg \<and>
   by_id (invalidate_entries reg is) i =
     (if i \<in> set is then map_option invalidate_entry_locked (by_id reg i) else by_id reg i)"
proof (induction "is" arbitrary: reg)
  case (Cons j js)
  have twice: "invalidate_entry_locked (invalidate_entry_locked e) = invalidate_entry_locked e" for e
    by (simp add: invalidate_entry_locked_def)
  show ?case by (simp add: Cons.IH twice option.map_comp comp_def split: option.splits)
qed simp

lemma index_ok_invalidate: "index_ok reg \<Longrightarrow> index_ok (invalidate_entries reg is)"
  by (erule index_ok_rewrite) (auto simp: invalidate_entries_effect option.map_comp comp_def)

lemma index_ok_remove_if_present: "index_ok reg \<Longrightarrow> index_ok (remove_entry_if_present reg i a)"
  by (simp add: remove_entry_if_present_def index_ok_erase split: option.splits)

lemma index_ok_try_release: "index_ok reg \<Longrightarrow> index_ok (fst (try_release_entry reg i))"
  by (simp add: try_release_entry_def index_ok_erase split: option.splits)

lemma foldl_preserves: "(\<And>x y. Q x \<Longrightarrow> Q (f x y)) \<Longrightarrow> Q x \<Longrightarrow> Q (foldl f x ys)"
  by (induction ys arbitrary: x) simp_all

lemma collect_entries_known:
  assumes "\<forall>i \<in> set is. ids i \<noteq> None"
  shows "collect_entries ids is = Inr (map (the \<circ> ids) is)"
  using assms by (induction "is") auto

lemma snapshot_for_known:
  assumes "index_ok reg" "a \<noteq> 0"
  obtains es where "snapshot_for reg a = Inr es" "distinct (map entry_id es)"
    "set es = {e. \<exists>i. by_id reg i = Some e \<and> entry_address e = a}"
proof -
  let ?is = "map snd (filter (\<lambda>p. fst p = a) (by_address reg))"
  have pairs: "\<And>i. (a, i) \<in> set (by_address reg) \<longleftrightarrow> (\<exists>e. by_id reg i = Some e \<and> entry_address e = a)"
    and ids: "\<And>i e. by_id reg i = Some e \<Longrightarrow> entry_id e = i" and d: "distinct (by_address reg)"
    using assms(1) unfolding index_ok_def by blast+
  have "set ?is = {i. (a, i) \<in> set (by_address reg)}" by force
  then have found: "set ?is = {i. \<exists>e. by_id reg i = Some e \<and> entry_address e = a}" by (simp add: pairs)
  define es where "es = map (the \<circ> by_id reg) ?is"
  have "snapshot_for reg a = Inr es"
    using found assms(2) collect_entries_known [of ?is "by_id reg"] by (auto simp: snapshot_for_def es_def)
  moreover have "map entry_id es = ?is"
  proof -
    have "entry_id (the (by_id reg i)) = i" if "i \<in> set ?is" for i using that found ids by auto
    then have "map (entry_id \<circ> (the \<circ> by_id reg)) ?is = ?is" by (intro map_idI) simp
    then show ?thesis unfolding es_def by (simp only: map_map comp_assoc)
  qed
  moreover have "distinct ?is"
    using d by (auto simp: distinct_map inj_on_def intro: distinct_filter)
  moreover have "set es = (the \<circ> by_id reg) ` {i. \<exists>e. by_id reg i = Some e \<and> entry_address e = a}"
    unfolding es_def list.set_map [of "the \<circ> by_id reg" ?is] found ..
  then have "set es = {e. \<exists>i. by_id reg i = Some e \<and> entry_address e = a}"
    by (auto intro: image_eqI [rotated])
  ultimately show ?thesis by (intro that [of es]) simp_all
qed

section \<open>Reachable states\<close>

definition lease_range :: "WorkspaceLease \<Rightarrow> nat set" where
  "lease_range l = {unat (lease_address l) ..< unat (lease_address l) + unat (lease_bytes l)}"

definition lease_ok :: "WorkspaceLease \<Rightarrow> bool" where
  "lease_ok l \<longleftrightarrow> lease_owner l \<noteq> 0 \<and> lease_address l \<noteq> 0 \<and> lease_bytes l \<noteq> 0 \<and>
     lease_address l mod 32 = 0 \<and> unat (lease_address l) + unat (lease_bytes l) < 2 ^ 64"

definition leases_ok :: "WorkspaceLease list \<Rightarrow> bool" where
  "leases_ok ls \<longleftrightarrow> list_all lease_ok ls \<and>
     sorted_wrt (\<lambda>x y. lease_owner x = lease_owner y \<longrightarrow> lease_range x \<inter> lease_range y = {}) ls"

definition ids_below :: "RegistryState \<Rightarrow> bool" where
  "ids_below st \<longleftrightarrow> (\<forall>i \<in> dom (by_id (registry st)). next_entry_id st = 0 \<or> i < next_entry_id st)"

definition registry_ok :: "RegistryState \<Rightarrow> bool" where
  "registry_ok st \<longleftrightarrow> index_ok (registry st) \<and> ids_below st \<and> leases_ok (leases st)"

lemma allocate_registry_id_fresh:
  assumes "allocate_registry_id n = Inr (n', i)"
  shows "i = n" "n \<noteq> 0" "n' = 0 \<or> n < n'" "\<And>j. n = 0 \<or> j < n \<Longrightarrow> n' = 0 \<or> j < n'" "n' = 0 \<or> i < n'"
proof -
  have n: "i = n" "n \<noteq> 0" "n' = (if n = - 1 then 0 else n + 1)"
    using assms by (auto simp: allocate_registry_id_def split: if_splits)
  have "n < n + 1" if "n \<noteq> - 1"
  proof -
    have "1 + n \<noteq> 0" using that by (simp add: add_eq_0_iff)
    then show ?thesis by (simp add: word_less_nat_alt unatSuc add.commute)
  qed
  then have less: "n' = 0 \<or> n < n'" using n(3) by auto
  then show "n' = 0 \<or> n < n'" "n' = 0 \<or> i < n'" "\<And>j. n = 0 \<or> j < n \<Longrightarrow> n' = 0 \<or> j < n'"
    using n(1,2) by (auto intro: less_trans)
  show "i = n" "n \<noteq> 0" using n by auto
qed

lemma map_Some_ext: "(\<And>i e. m i = Some e \<longleftrightarrow> n i = Some e) \<Longrightarrow> m = n"
  by (metis ext option.exhaust)

lemma fresh_entries_append:
  assumes "fresh_entries reg xs" "fresh_entries (with_entries reg xs) ys"
  shows "fresh_entries reg (xs @ ys)"
proof -
  have y: "by_id reg (entry_id e) = None \<and> (\<forall>x \<in> set xs. entry_id x \<noteq> entry_id e)" if "e \<in> set ys" for e
  proof -
    have "by_id (with_entries reg xs) (entry_id e) = None" using assms(2) that by (simp add: fresh_entries_def)
    then show ?thesis
      using with_entries_lookup [OF assms(1), of "entry_id e"] by (metis option.distinct(1) option.exhaust)
  qed
  then have "entry_id ` set xs \<inter> entry_id ` set ys = {}" by force
  then show ?thesis using assms y by (auto simp: fresh_entries_def)
qed

lemma with_entries_append:
  assumes "fresh_entries reg xs" "fresh_entries (with_entries reg xs) ys"
  shows "with_entries (with_entries reg xs) ys = with_entries reg (xs @ ys)"
proof -
  have "by_id (with_entries (with_entries reg xs) ys) = by_id (with_entries reg (xs @ ys))"
    by (rule map_Some_ext)
      (auto simp: with_entries_lookup [OF assms(1)] with_entries_lookup [OF assms(2)]
        with_entries_lookup [OF fresh_entries_append [OF assms]])
  moreover have "by_address (with_entries (with_entries reg xs) ys) = by_address (with_entries reg (xs @ ys))"
    by (simp add: with_entries_def)
  ultimately show ?thesis by simp
qed

lemma ids_below_mono:
  assumes "ids_below st" "dom (by_id (registry st')) \<subseteq> dom (by_id (registry st))"
    and "\<And>j. next_entry_id st = 0 \<or> j < next_entry_id st \<Longrightarrow> next_entry_id st' = 0 \<or> j < next_entry_id st'"
  shows "ids_below st'"
  using assms unfolding ids_below_def by blast

lemma ids_below_advance:
  assumes "ids_below st" "registry st' = registry st"
    and "allocate_registry_id (next_entry_id st) = Inr (next_entry_id st', i)"
  shows "ids_below st'"
  using assms(1,2) allocate_registry_id_fresh(4) [OF assms(3)] unfolding ids_below_def by metis

text \<open>The ids a registration takes from the counter are not in use.\<close>

lemma ids_below_register:
  assumes "ids_below st" "allocate_registry_id (next_entry_id st) = Inr (n', i)"
    and "registry st' = with_entries (registry st) [live_entry i a s q f]" "next_entry_id st' = n'"
  shows "ids_below st'"
proof -
  note fresh = allocate_registry_id_fresh [OF assms(2)]
  have "dom (by_id (registry st')) = insert i (dom (by_id (registry st)))"
    by (auto simp: assms(3) with_entries_def)
  then show ?thesis using assms(1) fresh(4,5) unfolding ids_below_def assms(4) by auto
qed

text \<open>What the loop over the owners leaves: fresh entries appended in order, or the failure of one of them.\<close>

lemma register_owners_effect:
  assumes "register_owners n mem q s f st prior entries os = (st', entries', r)" "ids_below st"
  shows "\<exists>es. registry st' = with_entries (registry st) es \<and> fresh_entries (registry st) es \<and>
    entries' = entries @ map entry_id es \<and> ids_below st' \<and> leases st' = leases st"
  using assms
proof (induction n mem q s f st prior entries os rule: register_owners.induct)
  case (1 capacity mem q s f st prior entries)
  then show ?case by (intro exI [of _ "[]"]) (simp add: fresh_entries_def)
next
  case (2 capacity mem q s f st prior entries w os)
  have none: ?case if "registry st' = registry st" "entries' = entries" "ids_below st'" "leases st' = leases st"
    using that by (intro exI [of _ "[]"]) (simp add: fresh_entries_def)
  show ?case
  proof (cases "owner_key w = 0 \<or> owner_address w = 0")
    case True
    then show ?thesis using 2(3,4) by (intro none) auto
  next
    case nz: False
    show ?thesis
    proof (cases "owner_key w \<in> set prior")
      case True
      then show ?thesis using 2(1) [OF nz True _ 2(4)] 2(3) nz by simp
    next
      case new: False
      show ?thesis
      proof (cases "length entries = capacity")
        case True
        then show ?thesis using 2(3,4) nz new by (intro none) auto
      next
        case room: False
        show ?thesis
        proof (cases "allocate_registry_id (next_entry_id st)")
          case (Inl e)
          then show ?thesis using 2(3,4) nz new room by (intro none) auto
        next
          case (Inr p)
          obtain n' i where p: "p = (n', i)" by (cases p)
          note alloc = Inr [unfolded p]
          obtain reg r1 where reg: "register_entry (mem \<noteq> [] \<longrightarrow> hd mem) (registry st) i (owner_address w) s q f = (reg, r1)"
            by (cases "register_entry (mem \<noteq> [] \<longrightarrow> hd mem) (registry st) i (owner_address w) s q f")
          let ?st = "st\<lparr>next_entry_id := n', registry := reg\<rparr>"
          from reg show ?thesis
          proof (cases rule: register_entry_cases)
            case (failed e)
            then have "register_owners capacity mem q s f st prior entries (w # os) = (?st, entries, Inl e)"
              using nz new room alloc reg by simp
            then have "st' = ?st" "entries' = entries" unfolding 2(3) by (blast dest: Pair_inject)+
            moreover have "ids_below ?st"
              using failed(2) alloc by (intro ids_below_advance [OF 2(4), of _ i]) simp_all
            ultimately show ?thesis using failed by (intro none) simp_all
          next
            case registered
            let ?e = "live_entry i (owner_address w) s q f"
            have rec: "register_owners capacity (tl mem) q s f ?st (prior @ [owner_key w]) (entries @ [i]) os = (st', entries', r)"
              using 2(3) nz new room alloc reg registered(1) by simp
            have below: "ids_below ?st"
              by (rule ids_below_register [OF 2(4) alloc]) (simp_all add: registered(2))
            obtain es where es: "registry st' = with_entries (registry ?st) es" "fresh_entries (registry ?st) es"
                "entries' = (entries @ [i]) @ map entry_id es" "ids_below st'" "leases st' = leases ?st"
              using 2(2) [OF nz new room alloc refl reg [symmetric] registered(1) rec below] by blast
            have "registry st' = with_entries (registry st) (?e # es)" "fresh_entries (registry st) (?e # es)"
              using es(1,2) registered(2,3) with_entries_append [of "registry st" "[?e]" es]
                fresh_entries_append [of "registry st" "[?e]" es] by simp_all
            then show ?thesis using es(3-5) by (intro exI [of _ "?e # es"]) simp
          qed
        qed
      qed
    qed
  qed
qed

lemma registry_okD:
  assumes "registry_ok st"
  shows "index_ok (registry st)" "ids_below st" "leases_ok (leases st)"
  using assms by (simp_all add: registry_ok_def)

text \<open>Registration for several owners adds an entry for each, or changes nothing but the counter.\<close>

lemma register_owner_entries_effect:
  assumes "register_owner_entries n mem st q s os f = (st', r)" "registry_ok st"
  shows "registry_ok st'" "\<And>e. r = Inl e \<Longrightarrow> registry st' = registry st"
    "\<And>ids. r = Inr ids \<Longrightarrow> \<exists>es. registry st' = with_entries (registry st) es \<and>
        fresh_entries (registry st) es \<and> ids = map entry_id es"
    "leases st' = leases st"
proof -
  note ok = registry_okD [OF assms(2)]
  obtain st1 entries r1 where run: "register_owners n mem q s f st [] [] os = (st1, entries, r1)"
    by (metis prod_cases3)
  obtain es where es: "registry st1 = with_entries (registry st) es" "fresh_entries (registry st) es"
      "entries = map entry_id es" "ids_below st1" "leases st1 = leases st"
    using register_owners_effect [OF run ok(2)] by auto
  have "registry_ok st' \<and> (\<forall>e. r = Inl e \<longrightarrow> registry st' = registry st) \<and>
    (\<forall>ids. r = Inr ids \<longrightarrow> (\<exists>es. registry st' = with_entries (registry st) es \<and>
        fresh_entries (registry st) es \<and> ids = map entry_id es)) \<and> leases st' = leases st"
  proof (cases r1)
    case (Inl e)
    define st2 where "st2 = (if entries \<noteq> [] then st1\<lparr>registry := fst (remove_entries (registry st1) entries)\<rparr> else st1)"
    have res: "st' = st2" "r = Inl e" using assms(1) run Inl by (simp_all add: register_owner_entries_def st2_def)
    have undone: "registry st2 = registry st"
      using remove_with_entries [OF ok(1) es(2)] es(1,3) by (auto simp: st2_def)
    have "ids_below st2"
      using es(1,4) undone by (intro ids_below_mono [OF es(4)]) (auto simp: st2_def with_entries_def)
    then show ?thesis using res undone ok es(5) by (simp add: registry_ok_def st2_def)
  next
    case (Inr u)
    then have "st' = st1" "r = Inr entries" using assms(1) run by (simp_all add: register_owner_entries_def)
    then show ?thesis using es ok index_ok_with_entries [OF ok(1) es(2)] by (auto simp: registry_ok_def)
  qed
  then show "registry_ok st'" "\<And>e. r = Inl e \<Longrightarrow> registry st' = registry st"
    "\<And>ids. r = Inr ids \<Longrightarrow> \<exists>es. registry st' = with_entries (registry st) es \<and>
        fresh_entries (registry st) es \<and> ids = map entry_id es"
    "leases st' = leases st"
    by blast+
qed

lemma register_copy_entries_effect:
  assumes "register_copy_entries m1 m2 st q s a b f = (st', r)" "registry_ok st"
  shows "registry_ok st' \<and> leases st' = leases st \<and> (\<forall>e. r = Inl e \<longrightarrow> registry st' = registry st) \<and>
    (\<forall>x y. r = Inr (x, y) \<longrightarrow>
       registry st' = with_entries (registry st) [live_entry x a s q f, live_entry y b s q f] \<and>
       fresh_entries (registry st) [live_entry x a s q f, live_entry y b s q f])"
proof (cases "next_entry_id st = 0 \<or> next_entry_id st > - 1 - 1")
  case True
  then show ?thesis using assms by (auto simp: register_copy_entries_def)
next
  case False
  note ok = registry_okD [OF assms(2)]
  define n where "n = next_entry_id st"
  define n' where "n' = (if n + 1 = - 1 then 0 else (n + 1) + 1)"
  have "(- 2 :: EntryId) < - 1" by code_simp
  then have "n \<noteq> - 1" "n \<noteq> 0" using False by (auto simp: n_def)
  then have start: "allocate_registry_id n = Inr (n + 1, n)" and nz: "n + 1 \<noteq> 0"
    by (auto simp: allocate_registry_id_def add_eq_0_iff2)
  have second: "allocate_registry_id (n + 1) = Inr (n', n + 1)" using nz by (simp add: allocate_registry_id_def n'_def)
  let ?st = "\<lambda>reg. st\<lparr>next_entry_id := n', registry := reg\<rparr>"
  have counter: "ids_below (?st (registry st))"
  proof (rule ids_below_advance)
    show "ids_below (st\<lparr>next_entry_id := n + 1\<rparr>)"
      using start by (intro ids_below_advance [OF ok(2), of _ n]) (simp_all add: n_def)
  qed (use second in simp_all)
  obtain reg1 r1 where r1: "register_entry m1 (registry st) n a s q f = (reg1, r1)" by force
  obtain reg2 r2 where r2: "register_entry m2 reg1 (n + 1) b s q f = (reg2, r2)" by force
  from r1 show ?thesis
  proof (cases rule: register_entry_cases)
    case (failed e)
    then have "st' = ?st (registry st) \<and> r = Inl e"
      using assms(1) False r1 by (auto simp: register_copy_entries_def n_def n'_def Let_def)
    then show ?thesis using counter ok by (simp add: registry_ok_def)
  next
    case one: registered
    from r2 show ?thesis
    proof (cases rule: register_entry_cases)
      case (failed e)
      then have st': "st' = ?st (fst (remove_entries reg1 [n])) \<and> r = Inl e"
        using assms(1) False r1 r2 one(1) by (auto simp: register_copy_entries_def n_def n'_def Let_def)
      moreover have "fst (remove_entries reg1 [n]) = registry st"
        using remove_with_entries [OF ok(1) one(3)] one(2) by simp
      ultimately show ?thesis using counter ok by (simp add: registry_ok_def)
    next
      case two: registered
      let ?es = "[live_entry n a s q f, live_entry (n + 1) b s q f]"
      have st': "st' = ?st reg2 \<and> r = Inr (n, n + 1)"
        using assms(1) False r1 r2 one(1) two(1) by (auto simp: register_copy_entries_def n_def n'_def Let_def)
      have es: "reg2 = with_entries (registry st) ?es" "fresh_entries (registry st) ?es"
        using two(2,3) one(2,3) with_entries_append [of "registry st" "[live_entry n a s q f]"]
          fresh_entries_append [of "registry st" "[live_entry n a s q f]"] by simp_all
      have mid: "ids_below (st\<lparr>next_entry_id := n + 1, registry := reg1\<rparr>)"
        by (rule ids_below_register [OF ok(2) start [unfolded n_def]]) (simp_all add: one(2) n_def)
      have "ids_below (?st reg2)"
        by (rule ids_below_register [OF mid, of n' "n + 1"]) (use second two(2) in simp_all)
      then show ?thesis
        using st' es ok index_ok_with_entries [OF ok(1) es(2)] by (simp add: registry_ok_def)
    qed
  qed
qed

subsection \<open>Leases\<close>

lemma ranges_overlap_iff:
  assumes "lease_ok l" "unat a + unat b < 2 ^ 64" "b \<noteq> 0"
  shows "workspace_lease_ranges_overlap l a (a + b) \<longleftrightarrow>
    lease_range l \<inter> {unat a ..< unat a + unat b} \<noteq> {}"
proof -
  let ?x = "unat (lease_address l)" and ?n = "unat (lease_bytes l)"
  have n: "0 < ?n" "0 < unat b" using assms(1,3) by (simp_all add: lease_ok_def unat_gt_0)
  have "unat (lease_address l + lease_bytes l) = ?x + ?n" "unat (a + b) = unat a + unat b"
    using assms(1,2) by (simp_all add: lease_ok_def unat_word_ariths)
  then have "workspace_lease_ranges_overlap l a (a + b) \<longleftrightarrow> unat a < ?x + ?n \<and> ?x < unat a + unat b"
    by (simp add: workspace_lease_ranges_overlap_def word_less_nat_alt)
  also have "\<dots> \<longleftrightarrow> max ?x (unat a) < min (?x + ?n) (unat a + unat b)" using n by auto
  also have "\<dots> \<longleftrightarrow> lease_range l \<inter> {unat a ..< unat a + unat b} \<noteq> {}"
    by (auto simp: lease_range_def)
  finally show ?thesis .
qed

lemma acquire_workspace_lease_cases:
  assumes "acquire_workspace_lease m1 m2 st w a b s q f = (st', r)" "registry_ok st"
  obtains (failed) e where "r = Inl e" "leases st' = leases st" "registry st' = registry st" "ids_below st'"
  | (acquired) l where "r = Inr l" "leases st' = leases st @ [l]" "lease_ok l"
      "lease_owner l = w" "lease_address l = a" "lease_bytes l = b"
      "\<forall>x \<in> set (leases st). lease_owner x = w \<longrightarrow> lease_range x \<inter> lease_range l = {}"
      "registry st' = with_entries (registry st) [live_entry (lease_entry l) a s q f]"
      "fresh_entries (registry st) [live_entry (lease_entry l) a s q f]" "ids_below st'"
proof -
  note ok = registry_okD [OF assms(2)]
  let ?busy = "list_ex (\<lambda>l. lease_owner l = w \<and> workspace_lease_ranges_overlap l a (a + b)) (leases st)"
  show ?thesis
  proof (cases "w = 0 \<or> a = 0 \<or> b = 0 \<or> a mod 32 \<noteq> 0 \<or> b > - 1 - a \<or> s = 0 \<or> q = 0 \<or> \<not> fence_bool f \<or> ?busy
      \<or> next_entry_id st = 0")
    case True
    then have "st' = st \<and> (\<exists>e. r = Inl e)"
      using assms(1) by (auto simp: acquire_workspace_lease_def allocate_registry_id_def Let_def split: if_splits)
    then show ?thesis using failed ok(2) by blast
  next
    case False
    then obtain n' i where alloc: "allocate_registry_id (next_entry_id st) = Inr (n', i)"
      by (auto simp: allocate_registry_id_def)
    define st1 where "st1 = st\<lparr>next_entry_id := n'\<rparr>"
    have below: "ids_below st1" using alloc by (intro ids_below_advance [OF ok(2), of _ i]) (simp_all add: st1_def)
    obtain reg r1 where reg: "register_entry m1 (registry st) i a s q f = (reg, r1)" by force
    define l where "l = \<lparr>lease_owner = w, lease_address = a, lease_bytes = b, lease_sequence = s, lease_entry = i\<rparr>"
    have run: "(st', r) = (case r1 of
        Inl e \<Rightarrow> (st1\<lparr>registry := remove_entry_if_present reg i a\<rparr>, Inl e)
      | Inr _ \<Rightarrow> if \<not> m2 then (st1\<lparr>registry := remove_entry_if_present reg i a\<rparr>, Inl BadAlloc)
          else (st1\<lparr>registry := reg, leases := leases st @ [l]\<rparr>, Inr l))"
      using assms(1) False alloc reg
      by (cases r1; cases m2) (simp_all add: acquire_workspace_lease_def Let_def st1_def l_def)
    from reg show ?thesis
    proof (cases rule: register_entry_cases)
      case (failed e)
      have "by_id (registry st) i = None"
        using ok(2) allocate_registry_id_fresh(1,2) [OF alloc] unfolding ids_below_def by (metis domI less_irrefl option.exhaust)
      then have "remove_entry_if_present reg i a = registry st"
        using failed(2) by (simp add: remove_entry_if_present_def)
      then have "st' = st1\<lparr>registry := registry st\<rparr>" "r = Inl e" using run failed(1) by simp_all
      moreover have "st1\<lparr>registry := registry st\<rparr> = st1" by (simp add: st1_def)
      ultimately show ?thesis using below by (intro that(1) [of e]) (simp_all add: st1_def)
    next
      case registered
      let ?e = "live_entry i a s q f"
      have b2: "ids_below (st1\<lparr>registry := reg\<rparr>)"
        by (rule ids_below_register [OF ok(2) alloc]) (simp_all add: st1_def registered(2))
      show ?thesis
      proof (cases m2)
        case True
        then have st': "st' = st1\<lparr>registry := reg, leases := leases st @ [l]\<rparr>" "r = Inr l"
          using run registered(1) by simp_all
        have sum: "unat a + unat b < 2 ^ 64" using False range_end_fits [of a b] by blast
        have l: "lease_ok l" using False sum by (simp add: lease_ok_def l_def)
        have apart: "\<forall>x \<in> set (leases st). lease_owner x = w \<longrightarrow> lease_range x \<inter> lease_range l = {}"
        proof (intro ballI impI)
          fix x
          assume x: "x \<in> set (leases st)" "lease_owner x = w"
          have "lease_ok x" using ok(3) x(1) by (auto simp: leases_ok_def list_all_iff)
          moreover have "\<not> workspace_lease_ranges_overlap x a (a + b)" using False x by (auto simp: list_ex_iff)
          ultimately show "lease_range x \<inter> lease_range l = {}"
            using ranges_overlap_iff [of x a b] sum False by (simp add: lease_range_def l_def)
        qed
        show ?thesis
          by (rule that(2) [of l]) (use st' l apart registered b2 in \<open>simp_all add: l_def st1_def ids_below_def\<close>)
      next
        case no: False
        have "remove_entry_if_present reg i a = registry st"
          using remove_if_present_with_entry [OF ok(1) registered(3)] registered(2) by simp
        then have "st' = st1\<lparr>registry := registry st\<rparr>" "r = Inl BadAlloc" using run registered(1) no by simp_all
        moreover have "st1\<lparr>registry := registry st\<rparr> = st1" by (simp add: st1_def)
        ultimately show ?thesis using below by (intro that(1) [of BadAlloc]) (simp_all add: st1_def)
      qed
    qed
  qed
qed

lemma erase_first_subset: "set (erase_first P xs) \<subseteq> set xs"
  by (induction xs) auto

lemma sorted_wrt_erase_first: "sorted_wrt R xs \<Longrightarrow> sorted_wrt R (erase_first P xs)"
  by (induction xs) (auto dest: subsetD [OF erase_first_subset])

lemma leases_ok_erase_first: "leases_ok ls \<Longrightarrow> leases_ok (erase_first P ls)"
  using erase_first_subset [of P ls] sorted_wrt_erase_first
  by (auto simp: leases_ok_def list_all_iff)

text \<open>Operations that only shrink or rewrite the registry.\<close>

lemma registry_ok_shrink:
  assumes "registry_ok st" "index_ok (registry st')" "leases_ok (leases st')"
    and "dom (by_id (registry st')) \<subseteq> dom (by_id (registry st))" "next_entry_id st' = next_entry_id st"
  shows "registry_ok st'"
  using assms unfolding registry_ok_def ids_below_def by auto

lemma erase_dom: "dom (by_id (erase_entry_locked reg i)) \<subseteq> dom (by_id reg)"
  by (auto simp: erase_keeps)

lemma remove_if_present_dom: "dom (by_id (remove_entry_if_present reg i a)) \<subseteq> dom (by_id reg)"
  using erase_dom [of reg i] by (simp add: remove_entry_if_present_def split: option.splits)

lemma try_release_dom: "dom (by_id (fst (try_release_entry reg i))) \<subseteq> dom (by_id reg)"
  using erase_dom [of reg i] by (simp add: try_release_entry_def split: option.splits)

lemma invalidate_dom: "dom (by_id (invalidate_entries reg is)) = dom (by_id reg)"
  by (auto simp: invalidate_entries_effect dom_def)

lemma release_or_invalidate_ok:
  assumes "release_or_invalidate reg is fl ok = (reg', r)" "index_ok reg"
  shows "index_ok reg' \<and> dom (by_id reg') \<subseteq> dom (by_id reg)"
proof (cases "fl \<or> \<not> ok")
  case True
  then have "reg' = invalidate_entries reg is" using assms(1) by (auto simp: release_or_invalidate_def)
  then show ?thesis using assms(2) by (simp add: index_ok_invalidate invalidate_dom)
next
  case False
  then have "reg' = foldl (\<lambda>reg i. fst (try_release_entry reg i)) reg is"
    using assms(1) by (simp add: release_or_invalidate_def)
  then show ?thesis
    using foldl_preserves [of "\<lambda>x. index_ok x \<and> dom (by_id x) \<subseteq> dom (by_id reg)" "\<lambda>reg i. fst (try_release_entry reg i)" reg "is"]
      assms(2) index_ok_try_release try_release_dom by (meson order_refl order_trans)
qed

lemma removals_ok:
  assumes "index_ok reg"
  shows "index_ok (foldl (\<lambda>reg e. remove_entry_if_present reg (entry_id e) a) reg es) \<and>
    dom (by_id (foldl (\<lambda>reg e. remove_entry_if_present reg (entry_id e) a) reg es)) \<subseteq> dom (by_id reg)"
  using foldl_preserves [of "\<lambda>x. index_ok x \<and> dom (by_id x) \<subseteq> dom (by_id reg)"
      "\<lambda>reg e. remove_entry_if_present reg (entry_id e) a" reg es]
    assms index_ok_remove_if_present remove_if_present_dom by (meson order_refl order_trans)

lemma initial_registry_ok: "registry_ok initial_registry_state"
  by (simp add: registry_ok_def initial_registry_state_def empty_registry_def index_ok_def ids_below_def leases_ok_def)

section \<open>Draining the quarantine\<close>

lemma run_action_attempts:
  assumes "action_address action \<noteq> 0" "run_action pre free st action = (st', action')"
  shows "action_attempted action'"
proof -
  have keep: "action_attempted (remember_failure x e) = action_attempted x" for x e
    by (simp add: remember_failure_def)
  show ?thesis
    using assms by (auto simp: run_action_def Let_def keep split: prod.splits sum.splits if_splits)
qed

text \<open>A drain runs every action that still has an address, exactly once, and forgets it.\<close>

lemma quarantine_drain_empties:
  assumes "\<forall>action \<in> set actions. action_address action \<noteq> 0"
  shows "snd (quarantine_drain pre free st actions) = []"
proof -
  have "\<forall>a \<in> set actions'. action_attempted a" if "run_actions pre free st actions = (st', actions')" for st' actions'
    using that assms
    by (induction actions arbitrary: st' actions')
      (auto split: prod.splits dest: run_action_attempts)
  then show ?thesis
    by (simp add: quarantine_drain_def split: prod.splits)
qed

lemma registry_step_ok:
  assumes "registry_step st st'" "registry_ok st"
  shows "registry_ok st'"
  using assms
proof (induction rule: registry_step.induct)
  case (copy m1 m2 st q s a b f st' r)
  then show ?case using register_copy_entries_effect by blast
next
  case (owners n m st q s os f st' r')
  then show ?case using register_owner_entries_effect(1) by blast
next
  case (queue st st' r'')
  then have "registry st' = registry st" "leases st' = leases st" "next_entry_id st' = next_entry_id st"
    by (auto simp: allocate_queue_id_def split: sum.splits prod.splits)
  then show ?case using queue.prems by (simp add: registry_ok_def ids_below_def)
next
  case (acquire m1 m2 st w a b s q f st' l)
  note ok = registry_okD [OF acquire.prems]
  from acquire.hyps acquire.prems show ?case
  proof (cases rule: acquire_workspace_lease_cases)
    case (failed e)
    then show ?thesis using ok by (simp add: registry_ok_def)
  next
    case (acquired l)
    have "leases_ok (leases st @ [l])"
      using ok(3) acquired(3,4,7) by (auto simp: leases_ok_def sorted_wrt_append)
    then show ?thesis using acquired(2,8-10) index_ok_with_entries [OF ok(1)] by (simp add: registry_ok_def)
  qed
next
  case (lease_done st lease covering)
  note ok = registry_okD [OF lease_done.prems]
  have a: "registry_ok (st\<lparr>leases := erase_first (same_range lease) (leases st),
      registry := remove_entry_if_present (registry st) (lease_entry lease) (lease_address lease)\<rparr>)"
    by (rule registry_ok_shrink [OF lease_done.prems])
      (simp_all add: ok index_ok_remove_if_present remove_if_present_dom leases_ok_erase_first)
  have b: "registry_ok (st\<lparr>registry := invalidate_entries (registry st) [lease_entry lease]\<rparr>)"
    by (rule registry_ok_shrink [OF lease_done.prems])
      (simp_all add: ok index_ok_invalidate invalidate_dom del: invalidate_entries.simps)
  show ?case
    unfolding complete_workspace_lease_def using lease_done.prems a b
    by (cases "list_ex (same_range lease) (leases st)"; cases covering) (simp_all only: simp_thms if_True if_False)
next
  case (work_done st ids failed ok reg r''')
  note inv = registry_okD [OF work_done.prems]
  show ?case
    by (rule registry_ok_shrink [OF work_done.prems])
      (use release_or_invalidate_ok [OF work_done.hyps inv(1)] inv(3) in simp_all)
next
  case (queue_gone st q)
  note inv = registry_okD [OF queue_gone.prems]
  have "dom (by_id (invalidate_entries_for_queue (registry st) q)) = dom (by_id (registry st))"
    by (auto simp: invalidate_entries_for_queue_def dom_def)
  then show ?case
    by (intro registry_ok_shrink [OF queue_gone.prems]) (simp_all add: inv index_ok_invalidate_queue)
next
  case (storage_gone backend st a reg d)
  note inv = registry_okD [OF storage_gone.prems]
  have "index_ok reg \<and> dom (by_id reg) \<subseteq> dom (by_id (registry st))"
  proof (cases "snapshot_for (registry st) a")
    case (Inl e)
    then show ?thesis using storage_gone.hyps inv(1) by (simp add: release_or_quarantine_def)
  next
    case (Inr es)
    then show ?thesis
      using storage_gone.hyps removals_ok [OF inv(1), of a es] by (auto simp: release_or_quarantine_def)
  qed
  then show ?case by (intro registry_ok_shrink [OF storage_gone.prems]) (simp_all add: inv)
qed

lemma registry_reachable_ok: "registry_reachable st \<Longrightarrow> registry_ok st"
  unfolding registry_reachable_def
  by (induction rule: rtranclp_induct) (simp_all add: initial_registry_ok registry_step_ok)

lemma removals_effect:
  assumes "index_ok reg" "distinct (map entry_id es)"
    and "set es \<subseteq> {e. \<exists>i. by_id reg i = Some e \<and> entry_address e = a}"
  shows "by_id (foldl (\<lambda>reg e. remove_entry_if_present reg (entry_id e) a) reg es) i =
    (if i \<in> entry_id ` set es then None else by_id reg i)"
  using assms
proof (induction es arbitrary: reg)
  case (Cons e es)
  obtain j where j: "by_id reg j = Some e" "entry_address e = a" using Cons.prems(3) by auto
  then have e: "j = entry_id e" "entry_id e \<noteq> 0" "a \<noteq> 0" using Cons.prems(1) by (auto simp: index_ok_def)
  let ?reg = "remove_entry_if_present reg (entry_id e) a"
  have r: "?reg = erase_entry_locked reg (entry_id e)"
    using j e by (simp add: remove_entry_if_present_def)
  have "set es \<subseteq> {x. \<exists>i. by_id ?reg i = Some x \<and> entry_address x = a}"
  proof
    fix x
    assume x: "x \<in> set es"
    then obtain k where k: "by_id reg k = Some x" "entry_address x = a" using Cons.prems(3) by auto
    then have "k = entry_id x" using Cons.prems(1) by (auto simp: index_ok_def)
    then have "k \<noteq> entry_id e" using Cons.prems(2) x by (metis distinct.simps(2) image_eqI list.set_map list.simps(9))
    then show "x \<in> {x. \<exists>i. by_id ?reg i = Some x \<and> entry_address x = a}" using k by (auto simp: r erase_keeps)
  qed
  then have "by_id (foldl (\<lambda>reg e. remove_entry_if_present reg (entry_id e) a) ?reg es) i =
      (if i \<in> entry_id ` set es then None else by_id ?reg i)"
    using Cons.IH [of ?reg] Cons.prems(1,2) index_ok_remove_if_present by simp
  then show ?case by (simp add: r erase_keeps)
qed simp

section \<open>Properties\<close>

text \<open>
  C6. Storage is released only after proof. In every reachable state, \<open>release_or_quarantine\<close> releases
  an address exactly when every outstanding entry of it is live and its fence reports success
  without a failure; otherwise the address is quarantined. Either way all entries of the address are
  gone afterwards and every other entry is untouched.
\<close>

theorem storage_released_only_when_proved:
  assumes "registry_reachable st" "a \<noteq> 0"
  shows "case release_or_quarantine backend (registry st) a of (reg, d) \<Rightarrow>
    (d = Released \<longleftrightarrow> (\<forall>i e. by_id (registry st) i = Some e \<and> entry_address e = a \<longrightarrow>
       entry_state e = Live \<and> entry_fence e \<noteq> EmptyFence \<and>
       fence_invoke backend (entry_fence e) = fence_success)) \<and>
    (\<forall>i. by_id reg i = (case by_id (registry st) i of
       Some e \<Rightarrow> if entry_address e = a then None else Some e | None \<Rightarrow> None))"
proof -
  have ok: "index_ok (registry st)" using registry_okD [OF registry_reachable_ok [OF assms(1)]] by blast
  obtain es where es: "snapshot_for (registry st) a = Inr es" "distinct (map entry_id es)"
    "set es = {e. \<exists>i. by_id (registry st) i = Some e \<and> entry_address e = a}"
    using snapshot_for_known [OF ok assms(2)] by blast
  define reg where "reg = foldl (\<lambda>reg e. remove_entry_if_present reg (entry_id e) a) (registry st) es"
  have run: "release_or_quarantine backend (registry st) a =
      (reg, if list_all (entry_proves backend) es then Released else Quarantined)"
    using es(1) by (simp add: release_or_quarantine_def reg_def)
  have proves: "entry_proves backend e \<longleftrightarrow> entry_state e = Live \<and> entry_fence e \<noteq> EmptyFence \<and>
       fence_invoke backend (entry_fence e) = fence_success" for e
    by (cases "entry_state e") (auto simp: entry_proves_def fence_bool_def Let_def fence_success_def)
  have ids: "i \<in> entry_id ` set es \<longleftrightarrow> (\<exists>e. by_id (registry st) i = Some e \<and> entry_address e = a)" for i
    unfolding es(3) using ok by (auto simp: index_ok_def image_iff)
  have "by_id reg i = (case by_id (registry st) i of
       Some e \<Rightarrow> if entry_address e = a then None else Some e | None \<Rightarrow> None)" for i
    using removals_effect [OF ok es(2) equalityD1 [OF es(3)], of i] ids [of i]
    unfolding reg_def by (auto split: option.splits)
  then show ?thesis unfolding run using es(3) by (auto simp: list_all_iff proves)
qed

text \<open>A copy registered on queue 1 with sequence 1 whose fence is capture 7.\<close>

lemma sample_registry:
  "registry_reachable (fst (register_copy_entries True True initial_registry_state 1 1 64 128 (BackendFence 7)))"
  unfolding registry_reachable_def
  by (rule r_into_rtranclp) (rule registry_step.copy, rule prod.collapse [symmetric])

definition sample_state :: RegistryState where
  "sample_state = fst (register_copy_entries True True initial_registry_state 1 1 64 128 (BackendFence 7))"

lemma sample_by_id:
  "by_id (registry sample_state) =
    [1 \<mapsto> live_entry 1 64 1 1 (BackendFence 7), 2 \<mapsto> live_entry 2 128 1 1 (BackendFence 7)]"
proof -
  have "\<not> (- 1 - 1 :: EntryId) < 1" by code_simp
  moreover have "(2 :: EntryId) \<noteq> - 1" by code_simp
  ultimately show ?thesis
    by (simp add: sample_state_def register_copy_entries_def initial_registry_state_def empty_registry_def
        register_entry_def fence_bool_def live_entry_def)
qed

theorem storage_released_only_when_proved_witness:
  "snd (release_or_quarantine (\<lambda>_. fence_success) (registry sample_state) 64) = Released \<and>
   snd (release_or_quarantine (\<lambda>_. fence_pending) (registry sample_state) 64) = Quarantined \<and>
   by_id (fst (release_or_quarantine (\<lambda>_. fence_pending) (registry sample_state) 64)) 1 = None \<and>
   by_id (fst (release_or_quarantine (\<lambda>_. fence_pending) (registry sample_state) 64)) 2 \<noteq> None"
proof -
  have r: "registry_reachable sample_state" unfolding sample_state_def by (rule sample_registry)
  have pending: "fence_pending \<noteq> fence_success" by (simp add: fence_pending_def fence_success_def)
  note p = storage_released_only_when_proved [OF r, of 64, unfolded case_prod_beta, simplified]
  have "snd (release_or_quarantine (\<lambda>_. fence_success) (registry sample_state) 64) = Released"
    using conjunct1 [OF p, of "\<lambda>_. fence_success"] by (auto simp: sample_by_id split: if_splits)
  moreover have "snd (release_or_quarantine (\<lambda>_. fence_pending) (registry sample_state) 64) \<noteq> Released"
    using conjunct1 [OF p, of "\<lambda>_. fence_pending"] pending by (auto simp: sample_by_id split: if_splits)
  moreover have "by_id (fst (release_or_quarantine (\<lambda>_. fence_pending) (registry sample_state) 64)) 1 = None"
    "by_id (fst (release_or_quarantine (\<lambda>_. fence_pending) (registry sample_state) 64)) 2 \<noteq> None"
    using spec [OF conjunct2 [OF p, of "\<lambda>_. fence_pending"], of 1] spec [OF conjunct2 [OF p, of "\<lambda>_. fence_pending"], of 2]
    by (simp_all add: sample_by_id)
  ultimately show ?thesis using disposal.exhaust by blast
qed

text \<open>
  C7. Workspace leases are exclusive. In every reachable state, leases of one owner never share a
  byte and never wrap around the address space; an acquisition fails, or adds a lease apart from
  all others of its owner together with a live registry entry that carries its fence, and from then
  on the range counts as retained.
\<close>

theorem workspace_leases_exclusive:
  assumes "registry_reachable st"
    and "acquire_workspace_lease m1 m2 st w a b s q f = (st', r)"
  shows "sorted_wrt (\<lambda>x y. lease_owner x = lease_owner y \<longrightarrow> lease_range x \<inter> lease_range y = {}) (leases st') \<and>
    (case r of
       Inl e \<Rightarrow> leases st' = leases st \<and> registry st' = registry st
     | Inr l \<Rightarrow> leases st' = leases st @ [l] \<and> lease_range l = {unat a ..< unat a + unat b} \<and>
         unat a + unat b < 2 ^ 64 \<and> workspace_range_retained (leases st') w a b \<and>
         (\<exists>e. by_id (registry st') (lease_entry l) = Some e \<and> entry_address e = a \<and>
            entry_state e = Live \<and> entry_fence e = f))"
proof -
  have ok: "registry_ok st" using registry_reachable_ok [OF assms(1)] .
  have "registry_ok st'" using registry_step_ok [OF registry_step.acquire [OF assms(2)] ok] .
  then have sorted: "sorted_wrt (\<lambda>x y. lease_owner x = lease_owner y \<longrightarrow> lease_range x \<inter> lease_range y = {}) (leases st')"
    by (simp add: registry_ok_def leases_ok_def)
  from assms(2) ok show ?thesis
  proof (cases rule: acquire_workspace_lease_cases)
    case (failed e)
    then show ?thesis using sorted by simp
  next
    case (acquired l)
    have range: "lease_range l = {unat a ..< unat a + unat b}" "unat a + unat b < 2 ^ 64" "a \<noteq> 0" "b \<noteq> 0"
      using acquired(3,5,6) by (simp_all add: lease_range_def lease_ok_def)
    then have "lease_range l \<inter> {unat a ..< unat a + unat b} \<noteq> {}" by (auto simp: unat_gt_0)
    then have "workspace_lease_ranges_overlap l a (a + b)"
      using ranges_overlap_iff [OF acquired(3) range(2,4)] by blast
    then have "workspace_range_retained (leases st') w a b"
      using range(3,4) acquired(2,4) by (simp add: workspace_range_retained_def)
    moreover have "by_id (registry st') (lease_entry l) = Some (live_entry (lease_entry l) a s q f)"
      using with_entries_lookup [OF acquired(9)] acquired(8) by simp
    ultimately show ?thesis using sorted acquired(1,2) range by simp
  qed
qed

theorem workspace_leases_exclusive_witness:
  "\<exists>st l. acquire_workspace_lease True True initial_registry_state 5 64 32 1 1 (BackendFence 7) = (st, Inr l) \<and>
     lease_range l = {64 ..< 96} \<and> workspace_range_retained (leases st) 5 64 32 \<and>
     acquire_workspace_lease True True st 5 64 32 2 1 (BackendFence 8) = (st, Inl BadAlloc)"
proof -
  obtain st r where run: "acquire_workspace_lease True True initial_registry_state 5 64 32 1 1 (BackendFence 7) = (st, r)"
    by force
  have reach: "registry_reachable initial_registry_state" by (simp add: registry_reachable_def)
  define l where "l = \<lparr>lease_owner = 5, lease_address = 64, lease_bytes = 32, lease_sequence = 1, lease_entry = 1\<rparr>"
  have "\<not> (- 65 :: usize) < 32" "(64 :: usize) mod 32 = 0" "(1 :: EntryId) \<noteq> - 1" by code_simp+
  then have res: "r = Inr l \<and> leases st = [l] \<and> next_entry_id st = 2"
    using run by (auto simp: acquire_workspace_lease_def initial_registry_state_def empty_registry_def
        allocate_registry_id_def register_entry_def fence_bool_def l_def Let_def)
  have overlap: "workspace_lease_ranges_overlap l 64 (64 + 32)"
    by (simp add: workspace_lease_ranges_overlap_def l_def)
  have "acquire_workspace_lease True True st 5 64 32 2 1 (BackendFence 8) = (st, Inl BadAlloc)"
    using res overlap \<open>\<not> (- 65 :: usize) < 32\<close> \<open>(64 :: usize) mod 32 = 0\<close>
    by (simp add: acquire_workspace_lease_def fence_bool_def Let_def) (simp add: l_def)
  then show ?thesis
    using workspace_leases_exclusive [OF reach run] run res by (intro exI [of _ st] exI [of _ l]) simp
qed

text \<open>
  Registration is all or nothing. In every reachable state, registering the entries of a copy or
  of an operation's distinct owners leaves the registry as it was when it fails, and otherwise adds
  exactly the new live entries, under ids that were not in use.
\<close>

lemma registration_all_or_nothing:
  assumes "registry_reachable st"
  shows "(case register_copy_entries m1 m2 st q s a b f of
      (st', Inl e) \<Rightarrow> registry st' = registry st
    | (st', Inr (x, y)) \<Rightarrow> x \<noteq> y \<and> by_id (registry st) x = None \<and> by_id (registry st) y = None \<and>
        by_id (registry st') = (by_id (registry st))(x \<mapsto> live_entry x a s q f, y \<mapsto> live_entry y b s q f)) \<and>
    (case register_owner_entries n m st q s os f of
      (st', Inl e) \<Rightarrow> registry st' = registry st
    | (st', Inr ids) \<Rightarrow> distinct ids \<and> (\<forall>i \<in> set ids. by_id (registry st) i = None) \<and>
        dom (by_id (registry st')) = dom (by_id (registry st)) \<union> set ids \<and>
        (\<forall>i. i \<notin> set ids \<longrightarrow> by_id (registry st') i = by_id (registry st) i))"
proof (rule conjI)
  have ok: "registry_ok st" using registry_reachable_ok [OF assms] .
  obtain st1 r1 where copy: "register_copy_entries m1 m2 st q s a b f = (st1, r1)" by force
  show "case register_copy_entries m1 m2 st q s a b f of
      (st', Inl e) \<Rightarrow> registry st' = registry st
    | (st', Inr (x, y)) \<Rightarrow> x \<noteq> y \<and> by_id (registry st) x = None \<and> by_id (registry st) y = None \<and>
        by_id (registry st') = (by_id (registry st))(x \<mapsto> live_entry x a s q f, y \<mapsto> live_entry y b s q f)"
    using register_copy_entries_effect [OF copy ok] copy
    by (cases r1) (auto simp: fresh_entries_def with_entries_def map_add_def fun_eq_iff)
  obtain st2 r2 where own: "register_owner_entries n m st q s os f = (st2, r2)" by force
  show "case register_owner_entries n m st q s os f of
      (st', Inl e) \<Rightarrow> registry st' = registry st
    | (st', Inr ids) \<Rightarrow> distinct ids \<and> (\<forall>i \<in> set ids. by_id (registry st) i = None) \<and>
        dom (by_id (registry st')) = dom (by_id (registry st)) \<union> set ids \<and>
        (\<forall>i. i \<notin> set ids \<longrightarrow> by_id (registry st') i = by_id (registry st) i)"
  proof (cases r2)
    case (Inl e)
    then show ?thesis using register_owner_entries_effect(2) [OF own ok] own by simp
  next
    case (Inr ids)
    then obtain es where es: "registry st2 = with_entries (registry st) es" "fresh_entries (registry st) es"
        "ids = map entry_id es"
      using register_owner_entries_effect(3) [OF own ok] by blast
    have "by_id (registry st2) i = by_id (registry st) i" if "i \<notin> set ids" for i
      using that map_of_entries_None [of i es] by (simp add: es(1,3) with_entries_def map_add_def)
    moreover have "dom (by_id (registry st2)) = dom (by_id (registry st)) \<union> set ids"
      by (auto simp: es(1,3) with_entries_def dom_map_of_conv_image_fst image_image)
    ultimately show ?thesis using own Inr es(2,3) by (auto simp: fresh_entries_def)
  qed
qed

lemma registration_all_or_nothing_witness:
  "registry (fst (register_copy_entries True False initial_registry_state 1 1 64 128 (BackendFence 7))) =
     registry initial_registry_state \<and>
   registry (fst (register_owner_entries 3 [True, False] initial_registry_state 1 1
     [\<lparr>owner_key = 5, owner_address = 64\<rparr>, \<lparr>owner_key = 5, owner_address = 64\<rparr>, \<lparr>owner_key = 6, owner_address = 96\<rparr>]
     (BackendFence 7))) = registry initial_registry_state"
proof -
  let ?c = "register_copy_entries True False initial_registry_state 1 1 64 128 (BackendFence 7)"
  let ?o = "register_owner_entries 3 [True, False] initial_registry_state 1 1
     [\<lparr>owner_key = 5, owner_address = 64\<rparr>, \<lparr>owner_key = 5, owner_address = 64\<rparr>, \<lparr>owner_key = 6, owner_address = 96\<rparr>]
     (BackendFence 7)"
  have reach: "registry_reachable initial_registry_state" by (simp add: registry_reachable_def)
  have n: "\<not> (- 2 :: EntryId) < 1" "(1 :: EntryId) \<noteq> - 1" "(2 :: EntryId) \<noteq> - 1" by code_simp+
  have "snd ?c = Inl BadAlloc"
    using n by (simp add: register_copy_entries_def initial_registry_state_def empty_registry_def register_entry_def
        fence_bool_def Let_def)
  moreover have "snd ?o = Inl BadAlloc"
    using n by (simp add: register_owner_entries_def initial_registry_state_def empty_registry_def register_entry_def
        allocate_registry_id_def fence_bool_def Let_def)
  ultimately have c: "?c = (fst ?c, Inl BadAlloc)" and o: "?o = (fst ?o, Inl BadAlloc)"
    by (simp_all add: prod_eq_iff)
  from registration_all_or_nothing [OF reach, where ?m1.0 = True and ?m2.0 = False and q = 1 and s = 1 and a = 64
      and b = 128 and f = "BackendFence 7" and n = 3 and m = "[True, False]" and os = "[\<lparr>owner_key = 5, owner_address = 64\<rparr>, \<lparr>owner_key = 5, owner_address = 64\<rparr>, \<lparr>owner_key = 6, owner_address = 96\<rparr>]"]
  show ?thesis by (subst (asm) c, subst (asm) o) simp
qed

end
