(* ===== verification/Json.thy ===== *)
theory Json
  imports Prelude
begin

text \<open>
  JSON documents as the readers of model files see them. The parser (\<open>nlohmann::json\<close>) is third-party
  code and an argument of the functions that call it; a document is what its accessors tell apart. An
  integer without a sign is unsigned, one with a sign is a signed 64-bit number, and both are integers;
  \<open>JOther\<close> stands for every other value, the floating-point numbers. The members of an object are
  listed in the order in which \<open>items\<close> yields them.
\<close>

datatype json =
    JObject "(string \<times> json) list"
  | JArray "json list"
  | JString string
  | JUnsigned "64 word"
  | JInteger "64 word"
  | JBool bool
  | JNull
  | JOther

fun json_find :: "json \<Rightarrow> string \<Rightarrow> json option" where
  "json_find (JObject members) name = map_of members name"
| "json_find _ name = None"

section \<open>Decimal text\<close>

text \<open>\<open>std::to_string\<close> of an unsigned number.\<close>

fun to_string :: "nat \<Rightarrow> string" where
  "to_string n =
     (if n < 10 then [char_of (48 + n)] else to_string (n div 10) @ [char_of (48 + n mod 10)])"

declare to_string.simps [simp del]

fun decimal :: "string \<Rightarrow> nat" where
  "decimal digits = foldl (\<lambda>n c. 10 * n + (of_char c - 48)) 0 digits"

declare decimal.simps [simp del]

lemma decimal_to_string: "decimal (to_string n) = n"
proof (induction n rule: to_string.induct)
  case (1 n)
  have digit: "of_char (char_of (48 + m) :: char) = 48 + m" if "m < 10" for m :: nat
    using that by (simp add: of_char_of)
  show ?case
    using 1 digit [of "n mod 10"] digit [of n] by (simp add: to_string.simps [of n] decimal.simps)
qed

lemma to_string_eq_iff [simp]: "to_string m = to_string n \<longleftrightarrow> m = n"
  by (metis decimal_to_string)

text \<open>The digits of a number are followed by any other character in one way only.\<close>

lemma to_string_digits: "c \<in> set (to_string n) \<Longrightarrow> 48 \<le> (of_char c :: nat) \<and> of_char c \<le> (57 :: nat)"
proof (induction n rule: to_string.induct)
  case (1 n)
  have digit: "of_char (char_of (48 + m) :: char) = 48 + m" if "m < 10" for m :: nat
    using that by (simp add: of_char_of)
  have "n mod 10 < 10" by simp
  then show ?case
    using 1 digit [of n] digit [of "n mod 10"] by (auto simp: to_string.simps [of n] split: if_splits)
qed

end
