(* ===== verification/Safetensors.thy ===== *)
theory Safetensors
  imports Tensor_Core Json "HOL-Library.Product_Lexorder" "HOL-Library.List_Lexorder" "HOL-Library.Char_ord"
begin

text \<open>
  The safetensors reader, \<open>src/src/safetensors.cpp\<close>, \<open>src/include/iom/safetensors.hpp\<close> and the
  mapping \<open>src/src/mmap.cpp\<close>: a file is 8 bytes of header length, a JSON header and the data section,
  and the header gives each tensor a type, a shape and a byte range. The file's bytes are arguments,
  since reading them is input; the JSON parser is third-party code and an argument too, of which only
  the kind of each value, its unsigned numbers, strings, elements and members are observed. The
  property: a file is accepted only when its tensors tile the data section, each range having
  exactly the bytes its type and shape need.
\<close>

section \<open>Files\<close>

text \<open>A file that cannot be opened, inspected or mapped is \<open>None\<close>.\<close>

type_synonym bytes = "8 word list"

definition mapped_file :: "bytes option \<Rightarrow> usize \<Rightarrow> bytes throws" where
  "mapped_file content min_size =
     (case content of
        None \<Rightarrow> Inl RuntimeError
      | Some bytes \<Rightarrow> if of_nat (length bytes) < min_size then Inl RuntimeError else Inr bytes)"

definition kMaxHeaderSize :: "64 word" where
  "kMaxHeaderSize = 100000000"

definition read_le_u64 :: "bytes \<Rightarrow> 64 word" where
  "read_le_u64 data = foldl (\<lambda>value i. value OR push_bit (i * 8) (ucast (data ! i))) 0 [0..<8]"

section \<open>Header fields\<close>

definition parse_dtype :: "string \<Rightarrow> DataType throws" where
  "parse_dtype dtype =
     (if dtype = ''BOOL'' then Inr BOOL
      else if dtype = ''U8'' then Inr U8
      else if dtype = ''I8'' then Inr I8
      else if dtype = ''U16'' then Inr U16
      else if dtype = ''I16'' then Inr I16
      else if dtype = ''U32'' then Inr U32
      else if dtype = ''I32'' then Inr I32
      else if dtype = ''U64'' then Inr U64
      else if dtype = ''I64'' then Inr I64
      else if dtype = ''F16'' then Inr F16
      else if dtype = ''BF16'' then Inr BF16
      else if dtype = ''F32'' then Inr F32
      else if dtype = ''F64'' then Inr F64
      else if dtype = ''F8_E5M2'' then Inr F8_E5M2
      else if dtype = ''F8_E4M3'' then Inr F8_E4M3FN
      else if dtype = ''F8_E8M0'' then Inr F8_E8M0
      else if dtype = ''F6_E2M3'' then Inr F6_E2M3
      else if dtype = ''F6_E3M2'' then Inr F6_E3M2
      else if dtype = ''F4'' then Inr F4_E2M1
      else Inl RuntimeError)"

text \<open>The comparison with the largest \<open>size_t\<close> never fails, both types having 64 bits.\<close>

fun json_size :: "json \<Rightarrow> usize throws" where
  "json_size (JUnsigned raw) = (if raw > - 1 then Inl RuntimeError else Inr raw)"
| "json_size _ = Inl RuntimeError"

fun json_sizes :: "json list \<Rightarrow> usize list throws" where
  "json_sizes [] = Inr []"
| "json_sizes (dim # dims) =
     andThen (json_size dim) (\<lambda>n. andThen (json_sizes dims) (\<lambda>ns. Inr (n # ns)))"

definition safetensors_checked_add :: "usize \<Rightarrow> usize \<Rightarrow> usize throws" where
  "safetensors_checked_add lhs rhs = (if rhs > - 1 - lhs then Inl RuntimeError else Inr (lhs + rhs))"

definition safetensors_checked_mul :: "usize \<Rightarrow> usize \<Rightarrow> usize throws" where
  "safetensors_checked_mul lhs rhs =
     (if lhs \<noteq> 0 \<and> rhs > (- 1) div lhs then Inl RuntimeError else Inr (lhs * rhs))"

definition safetensors_bits_to_bytes :: "usize \<Rightarrow> usize throws" where
  "safetensors_bits_to_bytes bits = andThen (safetensors_checked_add bits 7) (\<lambda>sum. Inr (sum div 8))"

fun safetensors_elements :: "usize \<Rightarrow> usize list \<Rightarrow> usize throws" where
  "safetensors_elements elements [] = Inr elements"
| "safetensors_elements elements (dim # dims) =
     andThen (safetensors_checked_mul elements dim) (\<lambda>elements. safetensors_elements elements dims)"

definition safetensors_expected_payload_bytes :: "DataType \<Rightarrow> usize list \<Rightarrow> usize throws" where
  "safetensors_expected_payload_bytes dtype dims =
     andThen (safetensors_elements 1 dims) (\<lambda>elements.
     andThen (leaf_bits dtype) (\<lambda>leaf.
     andThen (safetensors_checked_mul elements leaf) safetensors_bits_to_bytes))"

section \<open>Stores\<close>

text \<open>A pointer into a mapping is the mapping's path and the offset from its first byte.\<close>

record SafeTensorView =
  view_dtype :: DataType
  view_shape :: "usize list"
  view_mapping :: string
  view_offset :: usize
  view_nbytes :: usize

record SafeTensorsStore =
  tensors_map :: "string \<rightharpoonup> SafeTensorView"
  store_keys :: "string list"

definition empty_store :: SafeTensorsStore where
  "empty_store = \<lparr>tensors_map = Map.empty, store_keys = []\<rparr>"

definition store_insert :: "SafeTensorsStore \<Rightarrow> string \<Rightarrow> SafeTensorView \<Rightarrow> SafeTensorsStore \<times> bool" where
  "store_insert store name view =
     (if tensors_map store name = None
      then (store\<lparr>tensors_map := (tensors_map store)(name \<mapsto> view), store_keys := store_keys store @ [name]\<rparr>, True)
      else (store, False))"

definition store_at :: "SafeTensorsStore \<Rightarrow> string \<Rightarrow> SafeTensorView throws" where
  "store_at store name =
     (case tensors_map store name of None \<Rightarrow> Inl OutOfRange | Some view \<Rightarrow> Inr view)"

section \<open>One file\<close>

record TensorRecord =
  rec_name :: string
  rec_dtype :: DataType
  rec_shape :: "usize list"
  rec_begin :: usize
  rec_end :: usize

definition load_record :: "usize \<Rightarrow> string \<Rightarrow> json \<Rightarrow> TensorRecord throws" where
  "load_record data_size name tensor =
     (case tensor of
        JObject _ \<Rightarrow>
          (case (json_find tensor ''dtype'', json_find tensor ''shape'', json_find tensor ''data_offsets'') of
             (Some (JString dtype_name), Some (JArray dims), Some (JArray [first, past])) \<Rightarrow>
               andThen (json_sizes dims) (\<lambda>sizes.
               andThen (json_size first) (\<lambda>first.
               andThen (json_size past) (\<lambda>past.
               if first > past \<or> past > data_size then Inl RuntimeError
               else andThen (parse_dtype dtype_name) (\<lambda>dtype.
               andThen (safetensors_expected_payload_bytes dtype sizes) (\<lambda>expected_nbytes.
               if past - first \<noteq> expected_nbytes then Inl RuntimeError
               else Inr \<lparr>rec_name = name, rec_dtype = dtype, rec_shape = sizes, rec_begin = first, rec_end = past\<rparr>)))))
           | _ \<Rightarrow> Inl RuntimeError)
      | _ \<Rightarrow> Inl RuntimeError)"

fun load_records :: "usize \<Rightarrow> (string \<times> json) list \<Rightarrow> TensorRecord list throws" where
  "load_records data_size [] = Inr []"
| "load_records data_size ((name, tensor) # items) =
     (if name = ''__metadata__'' then load_records data_size items
      else andThen (load_record data_size name tensor) (\<lambda>record.
           andThen (load_records data_size items) (\<lambda>records. Inr (record # records))))"

text \<open>
  The cursor over the records in physical order. Records with equal ranges are interchangeable here,
  so a stable sort stands for \<open>std::sort\<close>.
\<close>

definition physical_order :: "TensorRecord list \<Rightarrow> TensorRecord list" where
  "physical_order records = sort_key (\<lambda>r. (rec_begin r, rec_end r)) records"

fun check_cover :: "usize \<Rightarrow> usize \<Rightarrow> TensorRecord list \<Rightarrow> unit throws" where
  "check_cover data_size cursor [] = (if cursor \<noteq> data_size then Inl RuntimeError else Inr ())"
| "check_cover data_size cursor (r # rs) =
     (if rec_begin r \<noteq> cursor then Inl RuntimeError else check_cover data_size (rec_end r) rs)"

definition record_view :: "string \<Rightarrow> usize \<Rightarrow> TensorRecord \<Rightarrow> SafeTensorView" where
  "record_view path data_begin r =
     \<lparr>view_dtype = rec_dtype r, view_shape = rec_shape r, view_mapping = path,
      view_offset = data_begin + rec_begin r, view_nbytes = rec_end r - rec_begin r\<rparr>"

definition load_file :: "(bytes \<Rightarrow> json throws) \<Rightarrow> string \<Rightarrow> bytes option \<Rightarrow> SafeTensorsStore throws" where
  "load_file json_parse path content =
     andThen (mapped_file content 8) (\<lambda>file.
     let header_len = read_le_u64 file; size = of_nat (length file) in
     if header_len > kMaxHeaderSize then Inl RuntimeError
     else if header_len > size - 8 then Inl RuntimeError
     else let data_begin = 8 + header_len; data_size = size - 8 - header_len in
     andThen (json_parse (take (unat header_len) (drop 8 file))) (\<lambda>header.
     case header of
       JObject items \<Rightarrow>
         andThen (load_records data_size items) (\<lambda>records.
         andThen (check_cover data_size 0 (physical_order records)) (\<lambda>_.
         Inr (foldl (\<lambda>store r. fst (store_insert store (rec_name r) (record_view path data_begin r)))
                empty_store records)))
     | _ \<Rightarrow> Inl RuntimeError))"

section \<open>A directory of shards\<close>

record DirectoryEntry =
  entry_path :: string
  entry_regular :: bool
  entry_content :: "bytes option"

text \<open>
  \<open>path().extension()\<close>: a name that begins with its only dot has none. Paths in one directory compare
  as their names.
\<close>

definition safetensors_extension :: "string \<Rightarrow> bool" where
  "safetensors_extension name =
     (length name > length ''.safetensors'' \<and>
      drop (length name - length ''.safetensors'') name = ''.safetensors'')"

definition shard_entries :: "DirectoryEntry list \<Rightarrow> DirectoryEntry list" where
  "shard_entries entries =
     sort_key entry_path (filter (\<lambda>e. entry_regular e \<and> safetensors_extension (entry_path e)) entries)"

fun insert_shard :: "SafeTensorsStore \<Rightarrow> SafeTensorsStore \<Rightarrow> string list \<Rightarrow> SafeTensorsStore throws" where
  "insert_shard base file [] = Inr base"
| "insert_shard base file (key # keys) =
     andThen (store_at file key) (\<lambda>view.
     case store_insert base key view of
       (base, inserted) \<Rightarrow> if inserted then insert_shard base file keys else Inl RuntimeError)"

fun load_shards :: "(bytes \<Rightarrow> json throws) \<Rightarrow> SafeTensorsStore \<Rightarrow> DirectoryEntry list \<Rightarrow> SafeTensorsStore throws" where
  "load_shards json_parse base [] = Inr base"
| "load_shards json_parse base (e # es) =
     andThen (load_file json_parse (entry_path e) (entry_content e)) (\<lambda>file.
     andThen (insert_shard base file (store_keys file)) (\<lambda>base. load_shards json_parse base es))"

definition load_directory :: "(bytes \<Rightarrow> json throws) \<Rightarrow> DirectoryEntry list \<Rightarrow> SafeTensorsStore throws" where
  "load_directory json_parse entries = load_shards json_parse empty_store (shard_entries entries)"

section \<open>Records tile the data section\<close>

lemma load_record_ok:
  assumes "load_record n name tensor = Inr r"
  shows "rec_name r = name \<and> rec_begin r \<le> rec_end r \<and> rec_end r \<le> n \<and>
    safetensors_expected_payload_bytes (rec_dtype r) (rec_shape r) = Inr (rec_end r - rec_begin r)"
  using assms
  by (auto simp: load_record_def not_less exn_simps split: json.splits option.splits list.splits if_splits)

lemma load_records_ok:
  assumes "load_records n items = Inr rs"
  shows "map rec_name rs = filter (\<lambda>name. name \<noteq> ''__metadata__'') (map fst items)"
    and "\<And>r. r \<in> set rs \<Longrightarrow> rec_begin r \<le> rec_end r \<and> rec_end r \<le> n \<and>
      safetensors_expected_payload_bytes (rec_dtype r) (rec_shape r) = Inr (rec_end r - rec_begin r)"
proof -
  have "map rec_name rs = filter (\<lambda>name. name \<noteq> ''__metadata__'') (map fst items) \<and>
    (\<forall>r \<in> set rs. rec_begin r \<le> rec_end r \<and> rec_end r \<le> n \<and>
      safetensors_expected_payload_bytes (rec_dtype r) (rec_shape r) = Inr (rec_end r - rec_begin r))"
    using assms
  proof (induction items arbitrary: rs)
    case (Cons item items)
    obtain name tensor where item: "item = (name, tensor)" by force
    show ?case
    proof (cases "name = ''__metadata__''")
      case True
      then show ?thesis using Cons item by simp
    next
      case False
      then obtain r rs' where "load_record n name tensor = Inr r" "load_records n items = Inr rs'" "rs = r # rs'"
        using Cons.prems item by (auto simp: exn_simps)
      then show ?thesis using Cons.IH load_record_ok False item by auto
    qed
  qed simp
  then show "map rec_name rs = filter (\<lambda>name. name \<noteq> ''__metadata__'') (map fst items)"
    and "\<And>r. r \<in> set rs \<Longrightarrow> rec_begin r \<le> rec_end r \<and> rec_end r \<le> n \<and>
      safetensors_expected_payload_bytes (rec_dtype r) (rec_shape r) = Inr (rec_end r - rec_begin r)"
    by blast+
qed

lemma check_cover_bounds:
  assumes "check_cover n c rs = Inr ()" "\<forall>r \<in> set rs. rec_begin r \<le> rec_end r"
  shows "c \<le> n \<and> (\<forall>r \<in> set rs. c \<le> rec_begin r \<and> rec_end r \<le> n)"
  using assms
proof (induction rs arbitrary: c)
  case (Cons r rs)
  then have "rec_begin r = c" "c \<le> rec_end r" "check_cover n (rec_end r) rs = Inr ()"
    by (auto split: if_splits)
  then show ?case using Cons.IH [of "rec_end r"] Cons.prems(2) by (auto intro: order_trans)
qed (simp split: if_splits)

lemma check_cover_exists:
  assumes "check_cover n c rs = Inr ()" "c \<le> p" "p < n"
  shows "\<exists>r \<in> set rs. rec_begin r \<le> p \<and> p < rec_end r"
  using assms
proof (induction rs arbitrary: c)
  case (Cons r rs)
  then have r: "rec_begin r = c" "check_cover n (rec_end r) rs = Inr ()" by (auto split: if_splits)
  show ?case
  proof (cases "p < rec_end r")
    case True
    then show ?thesis using r(1) Cons.prems(2) by auto
  next
    case False
    then show ?thesis using Cons.IH [OF r(2)] Cons.prems(3) by (auto simp: not_less)
  qed
qed (auto split: if_splits)

lemma check_cover_unique:
  assumes "check_cover n c rs = Inr ()" "\<forall>r \<in> set rs. rec_begin r \<le> rec_end r"
    and "r \<in> set rs" "r' \<in> set rs" "rec_begin r \<le> p" "p < rec_end r" "rec_begin r' \<le> p" "p < rec_end r'"
  shows "r = r'"
  using assms
proof (induction rs arbitrary: c)
  case (Cons x xs)
  then have x: "rec_begin x = c" "check_cover n (rec_end x) xs = Inr ()" by (auto split: if_splits)
  have later: "rec_end x \<le> rec_begin y" if "y \<in> set xs" for y
    using check_cover_bounds [OF x(2)] Cons.prems(2) that by simp
  have first: "y \<in> set xs \<Longrightarrow> rec_begin y \<le> p \<Longrightarrow> p < rec_end x \<Longrightarrow> False" for y
    using later [of y] by (meson leD order_trans)
  show ?case
    using Cons.IH [OF x(2)] Cons.prems(2-8) first by (metis list.set_intros(2) set_ConsD)
qed simp

section \<open>The store of a file\<close>

abbreviation insert_record :: "string \<Rightarrow> usize \<Rightarrow> SafeTensorsStore \<Rightarrow> TensorRecord \<Rightarrow> SafeTensorsStore" where
  "insert_record path data_begin store r \<equiv> fst (store_insert store (rec_name r) (record_view path data_begin r))"

lemma insert_records:
  assumes "distinct (map rec_name rs)" "\<forall>r \<in> set rs. tensors_map st (rec_name r) = None"
  shows "store_keys (foldl (insert_record path b) st rs) = store_keys st @ map rec_name rs \<and>
    (\<forall>name v. tensors_map (foldl (insert_record path b) st rs) name = Some v \<longleftrightarrow>
      tensors_map st name = Some v \<or> (\<exists>r \<in> set rs. rec_name r = name \<and> v = record_view path b r))"
  using assms
proof (induction rs arbitrary: st)
  case (Cons r rs)
  let ?st = "insert_record path b st r"
  have st: "tensors_map ?st = (tensors_map st)(rec_name r \<mapsto> record_view path b r)"
    "store_keys ?st = store_keys st @ [rec_name r]"
    using Cons.prems(2) by (simp_all add: store_insert_def)
  have "rec_name x \<noteq> rec_name r" if "x \<in> set rs" for x using Cons.prems(1) that by (metis distinct.simps(2) image_eqI list.set_map list.simps(9))
  then have "\<forall>x \<in> set rs. tensors_map ?st (rec_name x) = None" using Cons.prems(2) by (simp add: st)
  then show ?case
    using Cons.IH [of ?st] Cons.prems by (auto simp: st)
qed simp

lemma load_file_cases:
  assumes "load_file json_parse path content = Inr store"
  obtains raw items rs where "content = Some raw" "\<not> of_nat (length raw) < (8 :: usize)"
    "read_le_u64 raw \<le> of_nat (length raw) - 8"
    "json_parse (take (unat (read_le_u64 raw)) (drop 8 raw)) = Inr (JObject items)"
    "load_records (of_nat (length raw) - 8 - read_le_u64 raw) items = Inr rs"
    "check_cover (of_nat (length raw) - 8 - read_le_u64 raw) 0 (physical_order rs) = Inr ()"
    "store = foldl (insert_record path (8 + read_le_u64 raw)) empty_store rs"
proof -
  obtain raw where mapped: "mapped_file content 8 = Inr raw"
    using assms by (auto simp: load_file_def exn_simps)
  then have c: "content = Some raw" "\<not> of_nat (length raw) < (8 :: usize)"
    by (auto simp: mapped_file_def split: option.splits if_splits)
  have len: "read_le_u64 raw \<le> of_nat (length raw) - 8"
    using assms mapped by (auto simp: load_file_def Let_def not_less split: if_splits)
  obtain header where h: "json_parse (take (unat (read_le_u64 raw)) (drop 8 raw)) = Inr header"
    and rest: "(case header of JObject items \<Rightarrow>
         andThen (load_records (of_nat (length raw) - 8 - read_le_u64 raw) items) (\<lambda>records.
         andThen (check_cover (of_nat (length raw) - 8 - read_le_u64 raw) 0 (physical_order records)) (\<lambda>_.
         Inr (foldl (insert_record path (8 + read_le_u64 raw)) empty_store records)))
       | _ \<Rightarrow> Inl RuntimeError) = Inr store"
    using assms mapped by (auto simp: load_file_def Let_def exn_simps split: if_splits)
  show ?thesis
  proof (cases header)
    case (JObject items)
    with rest obtain rs where "load_records (of_nat (length raw) - 8 - read_le_u64 raw) items = Inr rs"
      "check_cover (of_nat (length raw) - 8 - read_le_u64 raw) 0 (physical_order rs) = Inr ()"
      "store = foldl (insert_record path (8 + read_le_u64 raw)) empty_store rs"
      by (auto simp: exn_simps)
    then show ?thesis using that c len h JObject by blast
  qed (use rest in simp_all)
qed

text \<open>The byte positions of a view in its mapping.\<close>

definition view_bytes :: "SafeTensorView \<Rightarrow> nat set" where
  "view_bytes v = {unat (view_offset v) ..< unat (view_offset v) + unat (view_nbytes v)}"

lemma record_view_bytes:
  assumes "unat h + unat n \<le> N" "N < 2 ^ 64" "rec_begin r \<le> rec_end r" "rec_end r \<le> n"
  shows "view_bytes (record_view path h r) = {unat h + unat (rec_begin r) ..< unat h + unat (rec_end r)}"
proof -
  have b: "unat (rec_begin r) \<le> unat (rec_end r)" "unat (rec_end r) \<le> unat n"
    using assms(3,4) by (simp_all add: word_le_nat_alt)
  then have "unat h + unat (rec_begin r) < 2 ^ 64" using assms(1,2) by linarith
  then have "unat (h + rec_begin r) = unat h + unat (rec_begin r)" by (simp add: unat_word_ariths)
  moreover have "unat (rec_end r - rec_begin r) = unat (rec_end r) - unat (rec_begin r)"
    using assms(3) by (simp add: unat_sub)
  ultimately show ?thesis using b by (simp add: view_bytes_def record_view_def)
qed

section \<open>Properties\<close>

text \<open>
  C9. An accepted file is tiled by its tensors. If the JSON parser gives no member of an object twice
  and the file's size is a \<open>size_t\<close>, then after loading, the keys are exactly the stored names, each
  tensor lies behind the header inside its own mapping with exactly the bytes of its type and shape,
  and every byte behind the header belongs to exactly one tensor.
\<close>

theorem accepted_file_tiled:
  assumes "load_file json_parse path (Some raw) = Inr store" "length raw < 2 ^ 64"
    and "\<And>text items. json_parse text = Inr (JObject items) \<Longrightarrow> distinct (map fst items)"
  shows "distinct (store_keys store) \<and> set (store_keys store) = dom (tensors_map store) \<and>
    (\<forall>name v. tensors_map store name = Some v \<longrightarrow> view_mapping v = path \<and>
      safetensors_expected_payload_bytes (view_dtype v) (view_shape v) = Inr (view_nbytes v) \<and>
      view_bytes v \<subseteq> {8 + unat (read_le_u64 raw) ..< length raw}) \<and>
    (\<forall>p \<in> {8 + unat (read_le_u64 raw) ..< length raw}.
      \<exists>!name. \<exists>v. tensors_map store name = Some v \<and> p \<in> view_bytes v)"
  using assms(1)
proof (cases rule: load_file_cases)
  case (1 file' items rs)
  let ?h = "8 + read_le_u64 raw" and ?n = "of_nat (length raw) - 8 - read_le_u64 raw :: usize"
  have raw: "file' = raw" using 1(1) by simp
  note loaded = 1(2-7) [unfolded raw]
  have size: "unat (of_nat (length raw) :: usize) = length raw"
    using assms(2) by (simp only: unsigned_of_nat) (simp add: take_bit_nat_eq_self)
  have eight: "8 \<le> length raw" using loaded(1) size by (simp add: word_less_nat_alt)
  then have s8: "unat (of_nat (length raw) - 8 :: usize) = length raw - 8"
    using size by (subst unat_sub) (simp_all add: word_le_nat_alt)
  then have len: "unat (read_le_u64 raw) \<le> length raw - 8" using loaded(2) by (simp add: word_le_nat_alt)
  then have n: "unat ?n = length raw - 8 - unat (read_le_u64 raw)"
    using s8 by (subst unat_sub) (simp_all add: word_le_nat_alt)
  have h: "unat ?h = 8 + unat (read_le_u64 raw)" using len eight assms(2) by (simp add: unat_word_ariths)
  have all: "unat ?h + unat ?n = length raw" using h n len eight by linarith
  have names: "distinct (map rec_name rs)"
    using load_records_ok(1) [OF loaded(4)] assms(3) [OF loaded(3)] by simp
  note rec = load_records_ok(2) [OF loaded(4)]
  have phys: "set (physical_order rs) = set rs" by (simp add: physical_order_def)
  have ordered: "\<forall>r \<in> set (physical_order rs). rec_begin r \<le> rec_end r" using rec phys by blast
  have bytes: "view_bytes (record_view path ?h r) = {unat ?h + unat (rec_begin r) ..< unat ?h + unat (rec_end r)}"
    if "r \<in> set rs" for r
    using record_view_bytes [of ?h ?n "length raw" r path] all assms(2) rec [OF that] by simp
  have entries: "store_keys store = map rec_name rs"
    "\<And>name v. tensors_map store name = Some v \<longleftrightarrow> (\<exists>r \<in> set rs. rec_name r = name \<and> v = record_view path ?h r)"
    using insert_records [OF names, of empty_store path ?h] loaded(6) by (simp_all add: empty_store_def)
  have inside: "view_bytes (record_view path ?h r) \<subseteq> {unat ?h ..< length raw}" if "r \<in> set rs" for r
    using bytes [OF that] rec [OF that] all by (auto simp: word_le_nat_alt)
  have position: "\<exists>!name. \<exists>v. tensors_map store name = Some v \<and> p \<in> view_bytes v"
    if p: "p \<in> {unat ?h ..< length raw}" for p
  proof -
    define q :: usize where "q = of_nat (p - unat ?h)"
    have "p - unat ?h < 2 ^ 64" using p assms(2) by auto
    then have q: "unat q = p - unat ?h"
      unfolding q_def by (simp only: unsigned_of_nat) (simp add: take_bit_nat_eq_self)
    have iff: "p \<in> view_bytes (record_view path ?h r) \<longleftrightarrow> rec_begin r \<le> q \<and> q < rec_end r" if "r \<in> set rs" for r
      using bytes [OF that] p q by (auto simp: word_le_nat_alt word_less_nat_alt)
    have "q < ?n" using q p all by (simp add: word_less_nat_alt) linarith
    then obtain r where r: "r \<in> set rs" "rec_begin r \<le> q" "q < rec_end r"
      using check_cover_exists [OF loaded(5), of q] phys by auto
    moreover have "r' = r" if "r' \<in> set rs" "rec_begin r' \<le> q" "q < rec_end r'" for r'
      using check_cover_unique [OF loaded(5) ordered, of r' r q] that r phys by simp
    ultimately show ?thesis
      unfolding entries(2) using iff by (intro ex1I [of _ "rec_name r"]) blast+
  qed
  have "set (store_keys store) = dom (tensors_map store)" by (auto simp: entries(1) dom_def entries(2))
  moreover have "view_mapping v = path \<and>
      safetensors_expected_payload_bytes (view_dtype v) (view_shape v) = Inr (view_nbytes v) \<and>
      view_bytes v \<subseteq> {unat ?h ..< length raw}" if "tensors_map store name = Some v" for name v
    using that rec inside unfolding entries(2) by (auto simp: record_view_def)
  ultimately show ?thesis using names entries(1) position unfolding h by auto
qed

text \<open>A file with a header of one byte and five bytes of data, read as two tensors of type \<open>U8\<close>.\<close>

definition sample_header :: json where
  "sample_header = JObject
     [(''a'', JObject [(''dtype'', JString ''U8''), (''shape'', JArray [JUnsigned 3]),
        (''data_offsets'', JArray [JUnsigned 2, JUnsigned 5])]),
      (''__metadata__'', JOther),
      (''b'', JObject [(''dtype'', JString ''BF16''), (''shape'', JArray [JUnsigned 1, JUnsigned 1]),
        (''data_offsets'', JArray [JUnsigned 0, JUnsigned 2])])]"

definition sample_file :: bytes where
  "sample_file = [1, 0, 0, 0, 0, 0, 0, 0, 123, 10, 20, 30, 40, 50]"

lemma sample_load:
  "load_file (\<lambda>_. Inr sample_header) ''m'' (Some sample_file) = Inr
     \<lparr>tensors_map =
        [''a'' \<mapsto> \<lparr>view_dtype = U8, view_shape = [3], view_mapping = ''m'', view_offset = 11, view_nbytes = 3\<rparr>,
         ''b'' \<mapsto> \<lparr>view_dtype = BF16, view_shape = [1, 1], view_mapping = ''m'', view_offset = 9, view_nbytes = 2\<rparr>],
      store_keys = [''a'', ''b'']\<rparr>"
proof -
  have len: "length sample_file = 14" by (simp add: sample_file_def)
  have header: "read_le_u64 sample_file = 1" by code_simp
  have a: "load_record 5 ''a'' (JObject [(''dtype'', JString ''U8''), (''shape'', JArray [JUnsigned 3]),
        (''data_offsets'', JArray [JUnsigned 2, JUnsigned 5])]) =
      Inr \<lparr>rec_name = ''a'', rec_dtype = U8, rec_shape = [3], rec_begin = 2, rec_end = 5\<rparr>"
    by code_simp
  have b: "load_record 5 ''b'' (JObject [(''dtype'', JString ''BF16''), (''shape'', JArray [JUnsigned 1, JUnsigned 1]),
        (''data_offsets'', JArray [JUnsigned 0, JUnsigned 2])]) =
      Inr \<lparr>rec_name = ''b'', rec_dtype = BF16, rec_shape = [1, 1], rec_begin = 0, rec_end = 2\<rparr>"
    by code_simp
  have order: "\<not> (2 :: usize) \<le> 0" "\<not> (1 :: usize) > 6" "\<not> (14 :: usize) < 8" by code_simp+
  show ?thesis
    using order
    by (simp add: load_file_def mapped_file_def len header kMaxHeaderSize_def sample_header_def a b physical_order_def
        less_eq_prod_def less_prod_def empty_store_def store_insert_def record_view_def Let_def fun_upd_twist)
qed

theorem accepted_file_tiled_witness:
  "\<exists>store. load_file (\<lambda>_. Inr sample_header) ''m'' (Some sample_file) = Inr store \<and>
     store_keys store = [''a'', ''b''] \<and> (\<exists>!name. \<exists>v. tensors_map store name = Some v \<and> 10 \<in> view_bytes v)"
proof -
  have header: "read_le_u64 sample_file = 1" by code_simp
  have "\<And>text items. Inr sample_header = (Inr (JObject items) :: json throws) \<Longrightarrow> distinct (map fst items)"
    by (auto simp: sample_header_def)
  note p = accepted_file_tiled [OF sample_load _ this]
  have "\<exists>!name. \<exists>v. tensors_map \<lparr>tensors_map =
        [''a'' \<mapsto> \<lparr>view_dtype = U8, view_shape = [3], view_mapping = ''m'', view_offset = 11, view_nbytes = 3\<rparr>,
         ''b'' \<mapsto> \<lparr>view_dtype = BF16, view_shape = [1, 1], view_mapping = ''m'', view_offset = 9, view_nbytes = 2\<rparr>],
      store_keys = [''a'', ''b'']\<rparr> name = Some v \<and> 10 \<in> view_bytes v"
    by (rule bspec [OF conjunct2 [OF conjunct2 [OF conjunct2 [OF p]]]]) (simp_all add: header, simp_all add: sample_file_def)
  then show ?thesis using sample_load by (intro exI) (rule conjI, assumption, simp)
qed

end
