(* ===== verification/Token_Selection.thy ===== *)
theory Token_Selection
  imports Neural_Ops
begin

text \<open>
  Greedy token selection, \<open>src/src/token_selection.cpp\<close>: validation of the logits, of the history and
  of the host and device scratch, the wait for the producing operation, the transfer to the host and
  the scan for the largest BF16 value. The queue's \<open>wait\<close> and the view's \<open>copy_to_host\<close> work on the
  backend's state and are arguments. The property: a selected token is the first of the largest
  logits among the transferred bytes, all of them finite, after the complete validation.
\<close>

section \<open>Validation\<close>

text \<open>A span of host memory: its address and its size.\<close>

record host_span =
  span_data :: usize
  span_size :: usize

definition validate_logits_shape :: "TensorView \<Rightarrow> usize \<Rightarrow> usize throws" where
  "validate_logits_shape logits valid_vocabulary =
     (let s = spec logits; dims = dimensions (shape s) in
      if data_type s \<noteq> BF16 then Inl InvalidArgument
      else if quantization s \<noteq> NONE then Inl InvalidArgument
      else if rank (shape s) \<noteq> 2 \<or> length dims \<noteq> 2 \<or> dims ! 0 \<noteq> 1 \<or> dims ! 1 = 0 then Inl InvalidArgument
      else if valid_vocabulary = 0 \<or> valid_vocabulary \<noteq> dims ! 1 then Inl InvalidArgument
      else checked_mul valid_vocabulary 2)"

definition validate_logits_view :: "store \<Rightarrow> device_ref \<Rightarrow> TensorView \<Rightarrow> usize \<Rightarrow> CheckedViewFacts throws" where
  "validate_logits_view st device logits valid_vocabulary =
     andThen (validate_logits_shape logits valid_vocabulary) (\<lambda>host_bytes.
     if owner_identity logits = None then Inl InvalidArgument
     else andThen (validate_checked_view st device logits) (\<lambda>facts.
     if logical_bytes facts \<noteq> host_bytes then Inl InvalidArgument else Inr facts))"

definition validate_history :: "host_span \<Rightarrow> unit throws" where
  "validate_history history =
     (if span_size history \<noteq> 0 \<and> span_data history = 0 then Inl InvalidArgument else Inr ())"

definition validate_host_scratch :: "store \<Rightarrow> host_span \<Rightarrow> usize \<Rightarrow> TensorView \<Rightarrow> usize \<Rightarrow> unit throws" where
  "validate_host_scratch st host required_bytes logits owner_storage_bytes =
     (if span_size host < required_bytes then Inl InvalidArgument
      else if span_size host \<noteq> 0 \<and> span_data host = 0 then Inl InvalidArgument
      else case native_handle st logits of
        None \<Rightarrow> Inl InvalidArgument
      | Some owner_begin \<Rightarrow>
          if owner_begin = 0 then Inl InvalidArgument
          else if span_size host = 0 then Inr ()
          else let host_begin = span_data host; address_limit = - 1 in
          if span_size host > address_limit \<or> owner_storage_bytes > address_limit then Inl OverflowError
          else let host_size = span_size host; owner_size = owner_storage_bytes in
          if host_size > address_limit - host_begin \<or> owner_size > address_limit - owner_begin
          then Inl OverflowError
          else let host_end = host_begin + host_size; owner_end = owner_begin + owner_size in
          if host_begin < owner_end \<and> owner_begin < host_end then Inl InvalidArgument else Inr ())"

definition validate_device_scratch ::
  "Objects \<Rightarrow> device_ref \<Rightarrow> TensorView \<Rightarrow> RawWorkspaceView \<Rightarrow> WorkspaceRequirements \<Rightarrow> unit throws" where
  "validate_device_scratch w device logits scratch requirements =
     andThen (workspace_for w device scratch requirements [logits]) (\<lambda>_. Inr ())"

section \<open>Scanning the logits\<close>

definition load_bf16 :: "8 word list \<Rightarrow> nat \<Rightarrow> 16 word" where
  "load_bf16 raw index =
     (let offset = index * 2 in ucast (raw ! offset) OR push_bit 8 (ucast (raw ! (offset + 1))))"

text \<open>The value of a finite binary32 number with the given bits.\<close>

definition binary32_value :: "32 word \<Rightarrow> rat" where
  "binary32_value bits =
     (let e = unat (take_bit 8 (drop_bit 23 bits)); f = unat (take_bit 23 bits);
          magnitude = (if e = 0 then of_nat f * 2 powi (- 149) else of_nat (2 ^ 23 + f) * 2 powi (int e - 150))
      in if bit bits 31 then - magnitude else magnitude)"

definition decode_bf16 :: "16 word \<Rightarrow> rat" where
  "decode_bf16 bits = binary32_value (push_bit 16 (ucast bits))"

definition nonfinite_bf16 :: "16 word \<Rightarrow> bool" where
  "nonfinite_bf16 bits = (bits AND 0x7F80 = 0x7F80)"

fun scan_loop :: "8 word list \<Rightarrow> rat \<Rightarrow> nat \<Rightarrow> nat list \<Rightarrow> nat throws" where
  "scan_loop raw best winner [] = Inr winner"
| "scan_loop raw best winner (i # is) =
     (let bits = load_bf16 raw i in
      if nonfinite_bf16 bits then Inl RuntimeError
      else let value = decode_bf16 bits in
      if value > best then scan_loop raw value i is else scan_loop raw best winner is)"

definition scan_logits :: "8 word list \<Rightarrow> usize \<Rightarrow> nat throws" where
  "scan_logits raw vocabulary =
     (let first_bits = load_bf16 raw 0 in
      if nonfinite_bf16 first_bits then Inl RuntimeError
      else scan_loop raw (decode_bf16 first_bits) 0 [1..<unat vocabulary])"

section \<open>The selector\<close>

text \<open>The host scratch is its span and the bytes it holds.\<close>

record TokenSelectorScratch =
  scratch_host :: host_span
  scratch_bytes :: "byte list"
  scratch_device :: RawWorkspaceView

record TokenSelectorScratchRequirements =
  host_bytes :: usize
  device_requirements :: WorkspaceRequirements

definition scratch_requirements ::
  "(usize \<Rightarrow> WorkspaceRequirements throws) \<Rightarrow> store \<Rightarrow> TensorView \<Rightarrow> usize \<Rightarrow> TokenSelectorScratchRequirements throws" where
  "scratch_requirements host_transfer st logits valid_vocabulary =
     (case view_device st logits of
        None \<Rightarrow> Inl InvalidArgument
      | Some device \<Rightarrow>
          andThen (validate_logits_shape logits valid_vocabulary) (\<lambda>bytes.
          andThen (validate_checked_view st device logits) (\<lambda>facts.
          if logical_bytes facts \<noteq> bytes then Inl InvalidArgument
          else andThen (copy_to_host_workspace_requirements host_transfer logits) (\<lambda>requirements.
            Inr \<lparr>host_bytes = bytes, device_requirements = requirements\<rparr>))))"

text \<open>Everything \<open>select\<close> checks before it waits, in its order; the result is the number of bytes to transfer.\<close>

definition select_checks ::
  "(usize \<Rightarrow> WorkspaceRequirements throws) \<Rightarrow> Objects \<Rightarrow> TensorView \<Rightarrow> usize \<Rightarrow> oid \<Rightarrow> host_span
     \<Rightarrow> TokenSelectorScratch \<Rightarrow> usize throws" where
  "select_checks host_transfer w logits valid_vocabulary producer history scratch =
     andThen (case queue_device w of Inl _ \<Rightarrow> Inl InvalidArgument | Inr device \<Rightarrow> Inr device) (\<lambda>device.
     if sint producer \<le> 0 then Inl InvalidArgument
     else andThen (validate_history history) (\<lambda>_.
     andThen (validate_logits_shape logits valid_vocabulary) (\<lambda>bytes.
     andThen (validate_logits_view (tensors w) device logits valid_vocabulary) (\<lambda>facts.
     andThen (copy_to_host_workspace_requirements host_transfer logits) (\<lambda>requirements.
     if logical_bytes facts \<noteq> bytes then Inl InvalidArgument
     else andThen (validate_host_scratch (tensors w) (scratch_host scratch) bytes logits (storage_bytes facts)) (\<lambda>_.
     andThen (validate_device_scratch w device logits (scratch_device scratch) requirements) (\<lambda>_.
     Inr bytes)))))))"

text \<open>The transfer overwrites the first bytes of the host scratch.\<close>

definition greedy_select ::
  "(usize \<Rightarrow> WorkspaceRequirements throws) \<Rightarrow> (oid \<Rightarrow> ('s, unit) backend)
     \<Rightarrow> (RawWorkspaceView \<Rightarrow> TensorView \<Rightarrow> byte list \<Rightarrow> 's \<Rightarrow> byte list throws)
     \<Rightarrow> Objects \<Rightarrow> TensorView \<Rightarrow> usize \<Rightarrow> oid \<Rightarrow> host_span \<Rightarrow> TokenSelectorScratch \<Rightarrow> ('s, nat) backend" where
  "greedy_select host_transfer wait region_to_host w logits valid_vocabulary producer history scratch s =
     (case select_checks host_transfer w logits valid_vocabulary producer history scratch of
        Inl e \<Rightarrow> (s, Inl e)
      | Inr bytes \<Rightarrow>
          (case wait producer s of
             (s, Inl e) \<Rightarrow> (s, Inl e)
           | (s, Inr _) \<Rightarrow>
               (s, andThen (copy_to_host (region_to_host (scratch_device scratch)) logits
                      (take (unat bytes) (scratch_bytes scratch)) s)
                    (\<lambda>raw. scan_logits raw valid_vocabulary))))"

section \<open>The scan finds the first maximum\<close>

text \<open>The specification: the first index of a largest value.\<close>

definition first_maximum :: "(nat \<Rightarrow> rat) \<Rightarrow> nat \<Rightarrow> nat \<Rightarrow> bool" where
  "first_maximum f n i \<longleftrightarrow> i < n \<and> (\<forall>j < n. f j \<le> f i) \<and> (\<forall>j < i. f j < f i)"

lemma first_maximum_unique: "first_maximum f n i \<Longrightarrow> first_maximum f n j \<Longrightarrow> i = j"
  unfolding first_maximum_def by (metis leD linorder_neqE_nat)

lemma scan_loop_first_maximum:
  assumes "first_maximum (\<lambda>i. decode_bf16 (load_bf16 raw i)) m winner" "m \<le> n"
    and "best = decode_bf16 (load_bf16 raw winner)"
  shows "case scan_loop raw best winner [m..<n] of
      Inl e \<Rightarrow> e = RuntimeError \<and> (\<exists>i. m \<le> i \<and> i < n \<and> nonfinite_bf16 (load_bf16 raw i))
    | Inr r \<Rightarrow> (\<forall>i. m \<le> i \<and> i < n \<longrightarrow> \<not> nonfinite_bf16 (load_bf16 raw i)) \<and>
        first_maximum (\<lambda>i. decode_bf16 (load_bf16 raw i)) n r"
  using assms
proof (induction "n - m" arbitrary: m winner best)
  case 0
  then have "m = n" by simp
  then show ?case using 0(2) by auto
next
  case (Suc d)
  let ?f = "\<lambda>i. decode_bf16 (load_bf16 raw i)"
  have m: "m < n" "[m..<n] = m # [Suc m..<n]" using Suc.hyps(2) by (simp_all add: upt_conv_Cons)
  have range: "(\<forall>i. m \<le> i \<and> i < n \<longrightarrow> Q i) \<longleftrightarrow> Q m \<and> (\<forall>i. Suc m \<le> i \<and> i < n \<longrightarrow> Q i)" for Q
    using m(1) by (metis Suc_leI le_neq_implies_less order_refl Suc_leD)
  show ?case
  proof (cases "nonfinite_bf16 (load_bf16 raw m)")
    case True
    then show ?thesis using m by (auto simp: Let_def)
  next
    case False
    define w where "w = (if ?f m > best then m else winner)"
    have "first_maximum ?f (Suc m) w"
      using Suc.prems(1,3) unfolding first_maximum_def w_def by (auto simp: less_Suc_eq not_less intro: order_trans le_less_trans)
    moreover have "scan_loop raw best winner [m..<n] = scan_loop raw (?f w) w [Suc m..<n]"
      using False Suc.prems(3) by (simp add: m(2) Let_def w_def)
    moreover have "d = n - Suc m" "Suc m \<le> n" using Suc.hyps(2) m(1) by simp_all
    ultimately have IH: "case scan_loop raw best winner [m..<n] of
        Inl e \<Rightarrow> e = RuntimeError \<and> (\<exists>i. Suc m \<le> i \<and> i < n \<and> nonfinite_bf16 (load_bf16 raw i))
      | Inr r \<Rightarrow> (\<forall>i. Suc m \<le> i \<and> i < n \<longrightarrow> \<not> nonfinite_bf16 (load_bf16 raw i)) \<and> first_maximum ?f n r"
      using Suc.hyps(1) [of "Suc m" w "?f w"] by simp
    show ?thesis
    proof (cases "scan_loop raw best winner [m..<n]")
      case (Inl e)
      then show ?thesis using IH by (auto dest: Suc_leD)
    next
      case (Inr r)
      then show ?thesis using IH False by (simp only: sum.case range) simp
    qed
  qed
qed

lemma scan_logits_first_maximum:
  assumes "V \<noteq> 0"
  shows "case scan_logits raw V of
      Inl e \<Rightarrow> e = RuntimeError \<and> (\<exists>i < unat V. nonfinite_bf16 (load_bf16 raw i))
    | Inr r \<Rightarrow> (\<forall>i < unat V. \<not> nonfinite_bf16 (load_bf16 raw i)) \<and>
        first_maximum (\<lambda>i. decode_bf16 (load_bf16 raw i)) (unat V) r"
proof -
  have V: "0 < unat V" using assms by (simp add: unat_gt_0)
  show ?thesis
  proof (cases "nonfinite_bf16 (load_bf16 raw 0)")
    case True
    then show ?thesis using V by (auto simp: scan_logits_def Let_def)
  next
    case False
    have "first_maximum (\<lambda>i. decode_bf16 (load_bf16 raw i)) 1 0" by (simp add: first_maximum_def)
    note scan = scan_loop_first_maximum [OF this _ refl, of "unat V"]
    have split: "(\<forall>i < unat V. Q i) \<longleftrightarrow> Q 0 \<and> (\<forall>i. 1 \<le> i \<and> i < unat V \<longrightarrow> Q i)" for Q
      using V by (metis One_nat_def Suc_leI neq0_conv)
    show ?thesis
      using scan V False by (auto simp: scan_logits_def Let_def split split: sum.splits)
  qed
qed

text \<open>A scratch range that passes validation shares no byte with the storage of the logits.\<close>

lemma host_scratch_apart:
  assumes "validate_host_scratch st host required logits owner_bytes = Inr ()" "required \<noteq> 0"
    and "native_handle st logits = Some handle" "owner_bytes \<noteq> 0"
  shows "required \<le> span_size host" "span_data host \<noteq> 0"
    "span (span_data host) (span_size host) \<inter> span handle owner_bytes = {}"
proof -
  have size: "required \<le> span_size host" "span_size host \<noteq> 0"
    using assms(1,2) by (auto simp: validate_host_scratch_def not_less split: if_splits)
  then show "required \<le> span_size host" by blast
  have rest: "span_data host \<noteq> 0" "\<not> span_size host > - 1 - span_data host" "\<not> owner_bytes > - 1 - handle"
    "\<not> (span_data host < handle + owner_bytes \<and> handle < span_data host + span_size host)"
    using assms(1,3) size by (auto simp: validate_host_scratch_def Let_def split: if_splits)
  then show "span_data host \<noteq> 0" by blast
  have "unat (span_data host) + unat (span_size host) < 2 ^ 64" "unat handle + unat owner_bytes < 2 ^ 64"
    using rest(2,3) range_end_fits by blast+
  then show "span (span_data host) (span_size host) \<inter> span handle owner_bytes = {}"
    using rest(4) size(2) assms(4) span_disjoint_iff by blast
qed

lemma validate_logits_shape_Inr:
  assumes "validate_logits_shape logits V = Inr bytes"
  shows "data_type (spec logits) = BF16 \<and> dimensions (shape (spec logits)) = [1, V] \<and> V \<noteq> 0 \<and>
    unat bytes = 2 * unat V \<and> bytes \<noteq> 0"
proof -
  have d: "data_type (spec logits) = BF16" "length (dimensions (shape (spec logits))) = 2"
    "dimensions (shape (spec logits)) ! 0 = 1" "dimensions (shape (spec logits)) ! 1 = V" "V \<noteq> 0"
    "checked_mul V 2 = Inr bytes"
    using assms by (auto simp: validate_logits_shape_def Let_def split: if_splits)
  then have "dimensions (shape (spec logits)) = [1, V]"
    by (auto simp: list_eq_iff_nth_eq less_Suc_eq numeral_2_eq_2)
  moreover have "unat bytes = unat V * unat (2 :: usize)"
    using d(6) by (simp only: checked_mul_Inr)
  moreover have "0 < unat V" using d(5) by (simp add: unat_gt_0)
  ultimately show ?thesis using d(1,5) by (auto simp flip: unat_gt_0)
qed

section \<open>Properties\<close>

text \<open>
  C23. A selected token is the first of the largest logits. For logits derived from an owner with
  storage on the queue's device, and a transfer that fills its destination, a successful selection
  waited for the producer, transferred exactly two bytes for each of the \<open>[1, V]\<close> logits into host
  memory apart from their storage, found all of them finite, and returns the smallest index of a
  largest value.
\<close>

theorem greedy_selection:
  assumes "greedy_select host_transfer wait region_to_host w logits V producer history scratch s = (s', Inr token)"
    and "derived_operand (tensors w) device self logits" "ops_device w = Some device"
    and "length (scratch_bytes scratch) = unat (span_size (scratch_host scratch))"
    and "\<And>ws v d t d'. region_to_host ws v d t = Inr d' \<Longrightarrow> length d' = length d"
  shows "dimensions (shape (spec logits)) = [1, V] \<and> data_type (spec logits) = BF16 \<and> 0 < sint producer \<and>
    wait producer s = (s', Inr ()) \<and>
    span (span_data (scratch_host scratch)) (span_size (scratch_host scratch)) \<inter> storage_span (tensors w) logits = {} \<and>
    (\<exists>raw. region_to_host (scratch_device scratch) logits (take (2 * unat V) (scratch_bytes scratch)) s' = Inr raw \<and>
       length raw = 2 * unat V \<and> (\<forall>i < unat V. \<not> nonfinite_bf16 (load_bf16 raw i)) \<and>
       first_maximum (\<lambda>i. decode_bf16 (load_bf16 raw i)) (unat V) token)"
proof -
  obtain bytes where checks: "select_checks host_transfer w logits V producer history scratch = Inr bytes"
    using assms(1) by (auto simp: greedy_select_def split: sum.splits)
  obtain s1 raw where run: "wait producer s = (s', Inr ())" and
    copy: "copy_to_host (region_to_host (scratch_device scratch)) logits (take (unat bytes) (scratch_bytes scratch)) s' = Inr raw"
    and scan: "scan_logits raw V = Inr token"
    using assms(1) checks by (auto simp: greedy_select_def exn_simps split: sum.splits prod.splits)
  obtain f where shape: "validate_logits_shape logits V = Inr bytes" and producer: "0 < sint producer"
    and view: "validate_checked_view (tensors w) device logits = Inr f"
    and host: "validate_host_scratch (tensors w) (scratch_host scratch) bytes logits (storage_bytes f) = Inr ()"
    using checks assms(3)
    by (auto simp: select_checks_def queue_device_def validate_logits_view_def exn_simps not_le split: if_splits)
  note sh = validate_logits_shape_Inr [OF shape]
  from assms(2) obtain n g where facts: "validate_checked_view (tensors w) device logits = Inr g" "storage_bytes g = n"
    "storage_span (tensors w) logits = span (storage_handle (tensors w self)) n"
    "native_handle (tensors w) logits = Some (storage_handle (tensors w self))" "n \<noteq> 0"
    by (rule derived_operand_facts) (metis storage_bytes_nonzero)
  then have "f = g" using view by simp
  note apart = host_scratch_apart [OF host _ facts(4)]
  have disjoint: "span (span_data (scratch_host scratch)) (span_size (scratch_host scratch)) \<inter> storage_span (tensors w) logits = {}"
    using apart(3) sh facts(2,3,5) \<open>f = g\<close> by simp
  have "unat bytes \<le> unat (span_size (scratch_host scratch))"
    using apart(1) sh facts(2,5) \<open>f = g\<close> by (simp add: word_le_nat_alt)
  then have len: "length (take (unat bytes) (scratch_bytes scratch)) = 2 * unat V" using assms(4) sh by simp
  have moved: "region_to_host (scratch_device scratch) logits (take (2 * unat V) (scratch_bytes scratch)) s' = Inr raw"
    using copy sh by (auto simp: copy_to_host_def exn_simps split: if_splits)
  then have "length raw = 2 * unat V" using assms(5) len sh by simp
  moreover have "(\<forall>i < unat V. \<not> nonfinite_bf16 (load_bf16 raw i)) \<and>
       first_maximum (\<lambda>i. decode_bf16 (load_bf16 raw i)) (unat V) token"
    using scan_logits_first_maximum [of V raw] scan sh by simp
  ultimately show ?thesis using sh producer run disjoint moved by blast
qed

text \<open>Logits of shape \<open>[1, 2]\<close> at address 65536, moved as 1.0 and 2.0 into the host memory at 4096.\<close>

definition logits_store :: store where
  "logits_store = (\<lambda>i. owner_at i [1, 2] [] BF16 65536)"

definition sample_scratch :: TokenSelectorScratch where
  "sample_scratch = \<lparr>scratch_host = \<lparr>span_data = 4096, span_size = 4\<rparr>, scratch_bytes = [0, 0, 0, 0],
     scratch_device = \<lparr>ws_owner = None, ws_offset = 0, ws_bytes = 0\<rparr>\<rparr>"

definition sample_objects :: Objects where
  "sample_objects = \<lparr>ops_device = Some 7, tensors = logits_store, workspaces = (\<lambda>_. undefined), live_workspaces = {}\<rparr>"

lemma logits_operand: "derived_operand logits_store 7 5 (full_view (logits_store 5))"
  by (rule owner_at_operand [where b = 16], simp add: logits_store_def, simp_all add: owner_simps)

lemma sample_values:
  "load_bf16 [128, 63, 0, 64] 0 = 0x3F80" "load_bf16 [128, 63, 0, 64] 1 = 0x4000"
  "decode_bf16 0x3F80 = 1" "decode_bf16 0x4000 = 2"
proof -
  show "load_bf16 [128, 63, 0, 64] 0 = 0x3F80" "load_bf16 [128, 63, 0, 64] 1 = 0x4000" by code_simp+
  have a: "push_bit 16 (ucast (0x3F80 :: 16 word)) = (0x3F800000 :: 32 word)"
    "unat (take_bit 8 (drop_bit 23 (0x3F800000 :: 32 word))) = 127" "unat (take_bit 23 (0x3F800000 :: 32 word)) = 0"
    "\<not> bit (0x3F800000 :: 32 word) 31"
    by code_simp+
  have b: "push_bit 16 (ucast (0x4000 :: 16 word)) = (0x40000000 :: 32 word)"
    "unat (take_bit 8 (drop_bit 23 (0x40000000 :: 32 word))) = 128" "unat (take_bit 23 (0x40000000 :: 32 word)) = 0"
    "\<not> bit (0x40000000 :: 32 word) 31"
    by code_simp+
  show "decode_bf16 0x3F80 = 1" "decode_bf16 0x4000 = 2"
    unfolding decode_bf16_def a(1) b(1) binary32_value_def a(2-4) b(2-4) by (simp_all add: Let_def a(4) b(4) power_int_def power_divide)
qed

lemma sample_scan: "scan_logits [128, 63, 0, 64] 2 = Inr 1"
proof -
  have "\<not> nonfinite_bf16 0x3F80" "\<not> nonfinite_bf16 0x4000" by code_simp+
  moreover have "[1..<unat (2 :: usize)] = [1]" by code_simp
  ultimately show ?thesis by (simp add: scan_logits_def sample_values [unfolded One_nat_def] Let_def)
qed

theorem greedy_selection_witness:
  "\<exists>raw. greedy_select (\<lambda>_. Inr \<lparr>req_bytes = 0, req_alignment = 1\<rparr>) (\<lambda>_ s. (s :: unit, Inr ()))
       (\<lambda>_ _ d _. Inr (if length d = 4 then [128, 63, 0, 64] else d)) sample_objects
       (full_view (logits_store 5)) 2 1 \<lparr>span_data = 0, span_size = 0\<rparr> sample_scratch () = ((), Inr 1) \<and>
     length raw = 4 \<and> first_maximum (\<lambda>i. decode_bf16 (load_bf16 raw i)) 2 1 \<and>
     span 4096 4 \<inter> storage_span logits_store (full_view (logits_store 5)) = {}"
proof -
  let ?v = "full_view (logits_store 5)"
  let ?ht = "\<lambda>_ :: usize. Inr \<lparr>req_bytes = 0, req_alignment = 1\<rparr> :: WorkspaceRequirements throws"
  let ?rth = "\<lambda>(_ :: RawWorkspaceView) (_ :: TensorView) (d :: byte list) (_ :: unit).
      Inr (if length d = 4 then [128, 63, 0, 64] else d) :: byte list throws"
  have spec: "spec ?v = \<lparr>shape = TensorShape [1, 2], data_type = BF16, quantization = NONE\<rparr>" "owner_identity ?v = Some 5"
    "storage_handle (logits_store 5) = 65536"
    by (simp_all add: logits_store_def owner_at_def)
  have bytes: "validate_logits_shape ?v 2 = Inr 4"
    by (simp add: validate_logits_shape_def spec rank_def Let_def checked_mul_def)
  obtain sp handle n where op: "valid_shape (shape sp)" "make_tensor 5 sp 7 handle = Inr (logits_store 5)" "handle \<noteq> 0"
      "tiled_storage_nbytes sp = Inr n" "unat handle + unat n < 2 ^ 64" "derived_view (logits_store 5) ?v"
    using logits_operand unfolding derived_operand_def by blast
  then obtain f where f: "validate_checked_view logits_store 7 ?v = Inr f" "storage_bytes f = n"
      "logical_nbytes (spec ?v) = Inr (logical_bytes f)"
    using derived_view_checked [where st = logits_store, OF op(1-4,6)] by blast
  have handle: "handle = 65536" using make_tensor_facts [OF op(1,2)] spec(3) by simp
  have ln: "logical_nbytes \<lparr>shape = TensorShape [1, 2], data_type = BF16, quantization = NONE\<rparr> = Inr 4" by code_simp
  then have "logical_nbytes (spec ?v) = Inr 4" unfolding spec(1) .
  then have logical: "logical_bytes f = 4" using f(3) by simp
  have "\<not> n > - 1 - 65536" using op(5) handle range_end_fits [of 65536 n] by simp
  moreover have "\<not> (4 :: usize) > - 1 - 4096" by code_simp
  moreover have "native_handle logits_store ?v = Some 65536" by (simp add: native_handle_def spec)
  ultimately have host: "validate_host_scratch logits_store \<lparr>span_data = 4096, span_size = 4\<rparr> 4 ?v n = Inr ()"
    by (simp add: validate_host_scratch_def)
  have checks: "select_checks ?ht sample_objects ?v 2 1 \<lparr>span_data = 0, span_size = 0\<rparr> sample_scratch = Inr 4"
    using f(1,2) logical host
    by (simp add: select_checks_def queue_device_def sample_objects_def validate_history_def bytes validate_logits_view_def spec
        copy_to_host_workspace_requirements_def ln validate_device_scratch_def workspace_for_def validated_workspace_def
        sample_scratch_def)
  have run: "greedy_select ?ht (\<lambda>_ s. (s, Inr ())) ?rth sample_objects ?v 2 1 \<lparr>span_data = 0, span_size = 0\<rparr>
      sample_scratch () = ((), Inr 1)"
    using checks sample_scan by (simp add: greedy_select_def spec ln copy_to_host_def sample_scratch_def)
  have "tensors sample_objects = logits_store" "ops_device sample_objects = Some 7" by (simp_all add: sample_objects_def)
  then have operand: "derived_operand (tensors sample_objects) 7 5 ?v" "ops_device sample_objects = Some 7"
    using logits_operand by simp_all
  have len: "length (scratch_bytes sample_scratch) = unat (span_size (scratch_host sample_scratch))"
    by (simp add: sample_scratch_def)
  have fill: "length d' = length d" if "?rth ws v d t = Inr d'" for ws v d t d'
    using that by (auto split: if_splits)
  note p = greedy_selection [OF run operand len fill]
  then show ?thesis
    using run by (auto simp: sample_scratch_def sample_objects_def)
qed

end
