(* ===== verification/Cpu_Memory.thy ===== *)
theory Cpu_Memory
  imports Operations
begin

text \<open>
  Memory as the CPU backend accesses it, \<open>src/src/cpu/transfer_helpers.hpp\<close>: elements of 2 to 64
  bits packed into bytes, the copies of values, of rows in tile-sized spans and of tile rows with
  their byte, word and bit paths. A pointer is an address and memory maps addresses to bytes, so that
  a source and a destination may share storage. The specification looks at memory as one sequence of
  bits; the lemmas show that every optimised copy moves exactly the addressed bits.
\<close>

section \<open>Bits in memory\<close>

text \<open>Addresses count bytes; the code never forms an address behind its objects.\<close>

type_synonym memory = "nat \<Rightarrow> byte"

definition load_bits :: "memory \<Rightarrow> usize \<Rightarrow> usize \<Rightarrow> usize \<Rightarrow> 64 word" where
  "load_bits mem base bit_offset nbits =
     foldl (\<lambda>value i. let b = bit_offset + of_nat i in
         value OR push_bit i (ucast (drop_bit (unat (b mod 8)) (mem (unat (base + b div 8))) AND 1)))
       0 [0..<unat nbits]"

text \<open>One step of the loop: bit \<open>k\<close> of the byte at \<open>a\<close>.\<close>

definition store_bit :: "nat \<Rightarrow> nat \<Rightarrow> bool \<Rightarrow> memory \<Rightarrow> memory" where
  "store_bit a k on mem =
     (let mask = push_bit k 1 in mem(a := if on then mem a OR mask else mem a AND NOT mask))"

definition store_bits :: "usize \<Rightarrow> usize \<Rightarrow> usize \<Rightarrow> 64 word \<Rightarrow> memory \<Rightarrow> memory" where
  "store_bits base bit_offset nbits value mem =
     foldl (\<lambda>mem i. let b = bit_offset + of_nat i in
         store_bit (unat (base + b div 8)) (unat (b mod 8)) (drop_bit i value AND 1 \<noteq> 0) mem)
       mem [0..<unat nbits]"

definition memcpy :: "usize \<Rightarrow> usize \<Rightarrow> usize \<Rightarrow> memory \<Rightarrow> memory" where
  "memcpy destination source count mem =
     (\<lambda>a. if unat destination \<le> a \<and> a < unat destination + unat count
           then mem (unat source + (a - unat destination)) else mem a)"

definition copy_value :: "usize \<Rightarrow> usize \<Rightarrow> usize \<Rightarrow> usize \<Rightarrow> usize \<Rightarrow> memory \<Rightarrow> memory" where
  "copy_value destination destination_bit source source_bit nbits mem =
     (if nbits mod 8 = 0 then
        let destination_bytes = destination + destination_bit div 8;
            source_bytes = source + source_bit div 8 in
        if destination_bytes \<noteq> source_bytes
        then memcpy destination_bytes source_bytes (nbits div 8) mem else mem
      else store_bits destination destination_bit nbits (load_bits mem source source_bit nbits) mem)"

section \<open>Elements of the tiled layout\<close>

text \<open>Two overloads: the first checks its arithmetic, the second follows common admission.\<close>

definition logical_element_bits :: "TensorSpec \<Rightarrow> usize \<Rightarrow> usize \<Rightarrow> usize \<Rightarrow> usize throws" where
  "logical_element_bits s plane row column =
     andThen (standard_plane_slot s plane row column) (\<lambda>slot.
     andThen (leaf_bits (data_type s)) (\<lambda>bits. Inr (slot * bits)))"

definition tile_count :: "usize \<Rightarrow> usize" where
  "tile_count extent = extent div kTile + (if extent mod kTile \<noteq> 0 then 1 else 0)"

definition snapshot_element_bits ::
  "usize list \<Rightarrow> DataType \<Rightarrow> usize \<Rightarrow> usize \<Rightarrow> usize \<Rightarrow> usize throws" where
  "snapshot_element_bits dims type plane row column =
     (let leading_rank = length dims - 2;
          tile_rows = tile_count (dims ! leading_rank);
          tile_columns = tile_count (dims ! (leading_rank + 1));
          tiles_per_plane = tile_rows * tile_columns;
          tile_index = plane * tiles_per_plane + row div kTile * tile_columns + column div kTile;
          slot = tile_index * kTile * kTile + row mod kTile * kTile + column mod kTile
      in andThen (leaf_bits type) (\<lambda>bits. Inr (slot * bits)))"

definition load_logical_element ::
  "memory \<Rightarrow> usize \<Rightarrow> TensorSpec \<Rightarrow> usize \<Rightarrow> usize \<Rightarrow> usize \<Rightarrow> 64 word throws" where
  "load_logical_element mem base s plane row column =
     andThen (leaf_bits (data_type s)) (\<lambda>bits.
     andThen (logical_element_bits s plane row column) (\<lambda>off. Inr (load_bits mem base off bits)))"

definition store_logical_element ::
  "usize \<Rightarrow> TensorSpec \<Rightarrow> usize \<Rightarrow> usize \<Rightarrow> usize \<Rightarrow> 64 word \<Rightarrow> memory \<Rightarrow> memory throws" where
  "store_logical_element base s plane row column value mem =
     andThen (leaf_bits (data_type s)) (\<lambda>bits.
     andThen (logical_element_bits s plane row column) (\<lambda>off. Inr (store_bits base off bits value mem)))"

definition load_snapshot_element ::
  "memory \<Rightarrow> usize \<Rightarrow> usize list \<Rightarrow> DataType \<Rightarrow> usize \<Rightarrow> usize \<Rightarrow> usize \<Rightarrow> 64 word throws" where
  "load_snapshot_element mem base dims type plane row column =
     andThen (leaf_bits type) (\<lambda>bits.
     andThen (snapshot_element_bits dims type plane row column) (\<lambda>off. Inr (load_bits mem base off bits)))"

definition store_snapshot_element ::
  "usize \<Rightarrow> usize list \<Rightarrow> DataType \<Rightarrow> usize \<Rightarrow> usize \<Rightarrow> usize \<Rightarrow> 64 word \<Rightarrow> memory \<Rightarrow> memory throws" where
  "store_snapshot_element base dims type plane row column value mem =
     andThen (leaf_bits type) (\<lambda>bits.
     andThen (snapshot_element_bits dims type plane row column) (\<lambda>off. Inr (store_bits base off bits value mem)))"

section \<open>Rows and tile rows\<close>

text \<open>
  The column counter of \<open>copy_row_span\<close> counts in steps of 16 while it is below the number of
  columns; no extent that has storage is so large that the counter wraps around. The assertions of
  the code are not part of a release build.
\<close>

definition copy_row_span ::
  "usize \<Rightarrow> usize list \<Rightarrow> usize \<Rightarrow> usize \<Rightarrow> usize \<Rightarrow> usize list \<Rightarrow> usize \<Rightarrow> usize \<Rightarrow> DataType \<Rightarrow> usize
     \<Rightarrow> memory \<Rightarrow> memory throws" where
  "copy_row_span destination destination_dims destination_plane destination_row
       source source_dims source_plane source_row type columns mem =
     andThen (leaf_bits type) (\<lambda>bits.
     for_each [0..<(unat columns + 15) div 16] (\<lambda>i mem.
       let first_column = of_nat (16 * i); remaining = columns - first_column;
           elements = (if remaining < kTile then remaining else kTile) in
       andThen (snapshot_element_bits source_dims type source_plane source_row first_column) (\<lambda>source_bit.
       andThen (snapshot_element_bits destination_dims type destination_plane destination_row first_column)
         (\<lambda>destination_bit.
       let span_bits = elements * bits; whole_bytes_bits = span_bits div 8 * 8;
           tail_bits = span_bits - whole_bytes_bits;
           mem = (if whole_bytes_bits \<noteq> 0
                  then copy_value destination destination_bit source source_bit whole_bytes_bits mem else mem);
           mem = (if tail_bits \<noteq> 0
                  then copy_value destination (destination_bit + whole_bytes_bits)
                         source (source_bit + whole_bytes_bits) tail_bits mem else mem)
       in Inr mem))) mem)"

definition copy_tile_row_byte_aligned ::
  "usize \<Rightarrow> usize \<Rightarrow> usize \<Rightarrow> usize \<Rightarrow> memory \<Rightarrow> memory" where
  "copy_tile_row_byte_aligned kElementBytes destination source elements mem =
     (let bytes = elements * kElementBytes in
      if destination + bytes \<le> source \<or> source + bytes \<le> destination
      then memcpy destination source bytes mem
      else foldl (\<lambda>mem i. let d = destination + of_nat i * kElementBytes; s = source + of_nat i * kElementBytes in
             if d \<noteq> s then memcpy d s kElementBytes mem else mem) mem [0..<unat elements])"

text \<open>A 32-bit word in memory, least significant byte first.\<close>

definition load_u32 :: "memory \<Rightarrow> usize \<Rightarrow> 32 word" where
  "load_u32 mem p =
     (let a = unat p in
      ucast (mem a) OR push_bit 8 (ucast (mem (a + 1))) OR push_bit 16 (ucast (mem (a + 2)))
        OR push_bit 24 (ucast (mem (a + 3))))"

definition store_u32 :: "usize \<Rightarrow> 32 word \<Rightarrow> memory \<Rightarrow> memory" where
  "store_u32 p w mem =
     (let a = unat p in
      mem(a := ucast w, a + 1 := ucast (drop_bit 8 w), a + 2 := ucast (drop_bit 16 w), a + 3 := ucast (drop_bit 24 w)))"

text \<open>The shift and mask tables of a row, all zero for whole bytes.\<close>

definition shift_table :: "usize \<Rightarrow> 32 word list" where
  "shift_table bits = map (\<lambda>i. if bits mod 8 \<noteq> 0 then ucast ((of_nat i * bits) mod 32) else 0) [0..<16]"

definition mask_table :: "usize \<Rightarrow> 32 word list" where
  "mask_table bits =
     map (\<lambda>i. if bits mod 8 \<noteq> 0 then push_bit (unat (shift_table bits ! i)) (push_bit (unat bits) 1 - 1) else 0) [0..<16]"

definition covered_mask :: "32 word list \<Rightarrow> 32 word list \<Rightarrow> usize \<Rightarrow> 32 word" where
  "covered_mask shifts masks word_elements =
     foldl (\<lambda>covered i. let covered = covered OR masks ! i in
             covered OR (push_bit (unat (shifts ! i)) 1 AND masks ! i)) 0 [0..<unat word_elements]"

definition copy_tile_row_subbyte ::
  "usize \<Rightarrow> usize \<Rightarrow> usize \<Rightarrow> usize \<Rightarrow> usize \<Rightarrow> usize \<Rightarrow> 32 word list \<Rightarrow> 32 word list \<Rightarrow> memory \<Rightarrow> memory" where
  "copy_tile_row_subbyte destination destination_bit source source_bit elements bits shifts masks mem =
     (let total_bits = elements * bits;
          word_aligned = (source_bit mod 32 = 0 \<and> destination_bit mod 32 = 0);
          element = (\<lambda>mem i. copy_value destination (destination_bit + of_nat i * bits)
                                source (source_bit + of_nat i * bits) bits mem) in
      if word_aligned then
        let whole_word_bits = total_bits div 32 * 32;
            word_elements = (if whole_word_bits mod bits = 0 then whole_word_bits div bits else 0);
            word_count = word_elements * bits div 32;
            covered = covered_mask shifts masks word_elements;
            mem = foldl (\<lambda>mem i. let source_word = load_u32 mem (source + source_bit div 8 + of_nat i * 4) in
                    store_u32 (destination + destination_bit div 8 + of_nat i * 4) (source_word AND covered) mem)
                    mem [0..<unat word_count]
        in foldl element mem [unat word_elements..<unat elements]
      else foldl element mem [0..<unat elements])"

definition copy_tile_row ::
  "usize \<Rightarrow> usize \<Rightarrow> usize \<Rightarrow> usize \<Rightarrow> usize \<Rightarrow> usize \<Rightarrow> 32 word list \<Rightarrow> 32 word list \<Rightarrow> memory
     \<Rightarrow> memory throws" where
  "copy_tile_row destination destination_bit source source_bit elements bits shifts masks mem =
     (let aligned = (\<lambda>kElementBytes. Inr (copy_tile_row_byte_aligned kElementBytes
            (destination + destination_bit div 8) (source + source_bit div 8) elements mem)) in
      if bits mod 8 \<noteq> 0
      then Inr (copy_tile_row_subbyte destination destination_bit source source_bit elements bits shifts masks mem)
      else if bits = 8 then aligned 1 else if bits = 16 then aligned 2
      else if bits = 32 then aligned 4 else if bits = 64 then aligned 8
      else Inl InvalidArgument)"

section \<open>The specification: memory as a sequence of bits\<close>

definition mem_bit :: "memory \<Rightarrow> nat \<Rightarrow> bool" where
  "mem_bit mem a = bit (mem (a div 8)) (a mod 8)"

text \<open>The number of the bit at offset \<open>off\<close> from a pointer.\<close>

definition bit_pos :: "usize \<Rightarrow> usize \<Rightarrow> nat" where
  "bit_pos base off = 8 * unat base + unat off"

text \<open>The \<open>n\<close> bits from the offset on are addressed without wrapping around.\<close>

definition bits_fit :: "usize \<Rightarrow> usize \<Rightarrow> nat \<Rightarrow> bool" where
  "bits_fit base off n \<longleftrightarrow> unat off + n \<le> 2 ^ 64 \<and> bit_pos base off + n \<le> 2 ^ 67"

text \<open>\<open>mem'\<close> is \<open>mem\<close> with \<open>n\<close> bits copied from position \<open>s\<close> to position \<open>d\<close>.\<close>

definition bits_moved :: "nat \<Rightarrow> nat \<Rightarrow> nat \<Rightarrow> memory \<Rightarrow> memory \<Rightarrow> bool" where
  "bits_moved d s n mem mem' \<longleftrightarrow>
     (\<forall>a. mem_bit mem' a = (if d \<le> a \<and> a < d + n then mem_bit mem (s + (a - d)) else mem_bit mem a))"

text \<open>The two ranges are apart or the same.\<close>

definition apart :: "nat \<Rightarrow> nat \<Rightarrow> nat \<Rightarrow> bool" where
  "apart d s n \<longleftrightarrow> d = s \<or> d + n \<le> s \<or> s + n \<le> d"

lemma memory_eqI:
  assumes "\<And>a. mem_bit mem a = mem_bit mem' a"
  shows "mem = mem'"
proof
  fix a
  have "bit (mem a) k = bit (mem' a) k" if "k < 8" for k
    using assms [of "8 * a + k"] that by (simp add: mem_bit_def)
  then show "mem a = mem' a" by (intro bit_word_eqI) simp
qed

lemma bits_moved_refl: "bits_moved d d n mem mem"
  by (simp add: bits_moved_def)

lemma bits_moved_0 [simp]: "bits_moved d s 0 mem mem' \<longleftrightarrow> mem' = mem"
  by (auto simp: bits_moved_def intro: memory_eqI)

text \<open>Two adjacent moves make one, when neither reads what the other wrote.\<close>

lemma bits_moved_append:
  assumes "bits_moved d s m mem mem1" and "bits_moved (d + m) (s + m) n mem1 mem2" and "apart d s (m + n)"
  shows "bits_moved d s (m + n) mem mem2"
  unfolding bits_moved_def
proof
  fix a
  have 1: "mem_bit mem1 b = (if d \<le> b \<and> b < d + m then mem_bit mem (s + (b - d)) else mem_bit mem b)" for b
    using assms(1) by (simp add: bits_moved_def)
  have 2: "mem_bit mem2 b = (if d + m \<le> b \<and> b < d + m + n then mem_bit mem1 (s + m + (b - (d + m))) else mem_bit mem1 b)" for b
    using assms(2) by (simp add: bits_moved_def)
  have k: "mem_bit mem1 (s + (a - d)) = mem_bit mem (s + (a - d))" if "d + m \<le> a" "a < d + m + n"
    using that assms(3) 1 [of "s + (a - d)"] by (auto simp: apart_def)
  show "mem_bit mem2 a = (if d \<le> a \<and> a < d + (m + n) then mem_bit mem (s + (a - d)) else mem_bit mem a)"
  proof (cases "d + m \<le> a \<and> a < d + m + n")
    case True
    then have "s + m + (a - (d + m)) = s + (a - d)" by simp
    with True k 2 [of a] show ?thesis by simp
  next
    case False
    then have "mem_bit mem2 a = mem_bit mem1 a" using 2 [of a] by (simp only: if_False)
    with False 1 [of a] show ?thesis by (cases "a < d + m") auto
  qed
qed

lemma apart_sub: "apart d s n \<Longrightarrow> m + k \<le> n \<Longrightarrow> apart (d + m) (s + m) k"
  by (auto simp: apart_def)

section \<open>Values\<close>

lemma bit_index:
  assumes "bits_fit base off n" and "i < n"
  shows "8 * unat (base + (off + of_nat i) div 8) + unat ((off + of_nat i) mod 8) = bit_pos base off + i"
proof -
  have lt: "unat off + i < 2 ^ 64" and le: "8 * unat base + unat off + i < 2 ^ 67"
    using assms by (simp_all add: bits_fit_def bit_pos_def)
  have b: "unat (off + of_nat i) = unat off + i"
    using lt by (simp add: unat_add_small unat_of_nat_fits)
  have "unat base + (unat off + i) div 8 < 2 ^ 64" using le by simp
  then have "unat (base + (off + of_nat i) div 8) = unat base + (unat off + i) div 8"
    by (simp add: unat_add_small unat_div b)
  moreover have "unat ((off + of_nat i) mod 8) = (unat off + i) mod 8" by (simp add: unat_mod b)
  ultimately show ?thesis by (simp add: bit_pos_def)
qed

lemma mem_bit_at: "k < 8 \<Longrightarrow> mem_bit mem (8 * a + k) = bit (mem a) k"
  by (simp add: mem_bit_def)

lemma unat_mod_8: "unat ((x :: usize) mod 8) < 8"
  by (simp add: unat_mod)

lemma loaded_bit: "bit (ucast (drop_bit j (b :: byte) AND 1) :: 64 word) k \<longleftrightarrow> k = 0 \<and> bit b j"
  by (auto simp: bit_simps)

lemma load_bits_bit:
  assumes fit: "bits_fit base off (unat n)" and "unat n \<le> 64"
  shows "bit (load_bits mem base off n) k \<longleftrightarrow> k < unat n \<and> mem_bit mem (bit_pos base off + k)"
proof -
  let ?f = "\<lambda>value i. let b = off + of_nat i in
         value OR push_bit i (ucast (drop_bit (unat (b mod 8)) (mem (unat (base + b div 8))) AND 1)) :: 64 word"
  have "bit (foldl ?f 0 [0..<m]) k \<longleftrightarrow> k < m \<and> mem_bit mem (bit_pos base off + k)" if "m \<le> unat n" for m
    using that
  proof (induction m)
    case (Suc m)
    have pos: "mem_bit mem (bit_pos base off + m)
        = bit (mem (unat (base + (off + of_nat m) div 8))) (unat ((off + of_nat m) mod 8))"
      using bit_index [OF fit, of m] Suc.prems
        mem_bit_at [OF unat_mod_8, of mem "unat (base + (off + of_nat m) div 8)" "off + of_nat m"] by simp
    have "bit (push_bit m (ucast (drop_bit j (b :: byte) AND 1)) :: 64 word) k \<longleftrightarrow> k = m \<and> bit b j" for j b
      using Suc.prems assms(2) by (auto simp: bit_push_bit_iff loaded_bit)
    with Suc pos show ?case by (auto simp: Let_def bit_or_iff less_Suc_eq)
  qed simp
  then show ?thesis by (simp add: load_bits_def)
qed

lemma stored_byte_bit:
  fixes b :: byte
  assumes "j < 8" and "k < 8"
  shows "bit (if c then b OR push_bit j 1 else b AND NOT (push_bit j 1)) k \<longleftrightarrow> (if k = j then c else bit b k)"
  using assms by (auto simp: bit_simps)

lemma store_bit_bit:
  assumes "j < 8"
  shows "mem_bit (store_bit p j c mem) a = (if a = 8 * p + j then c else mem_bit mem a)"
proof -
  have "a mod 8 < 8" by simp
  note byte = stored_byte_bit [OF assms this, of c "mem p"]
  have "a = 8 * p + j \<longleftrightarrow> a div 8 = p \<and> a mod 8 = j" using assms by auto
  with byte show ?thesis by (auto simp: mem_bit_def store_bit_def Let_def simp del: push_bit_of_1)
qed

lemma store_bits_bit:
  assumes fit: "bits_fit base off (unat n)"
  shows "mem_bit (store_bits base off n v mem) a =
    (if bit_pos base off \<le> a \<and> a < bit_pos base off + unat n then bit v (a - bit_pos base off) else mem_bit mem a)"
proof -
  let ?f = "\<lambda>mem i. let b = off + of_nat i in
         store_bit (unat (base + b div 8)) (unat (b mod 8)) (drop_bit i v AND 1 \<noteq> 0) mem"
  have "mem_bit (foldl ?f mem [0..<m]) a =
      (if bit_pos base off \<le> a \<and> a < bit_pos base off + m then bit v (a - bit_pos base off) else mem_bit mem a)"
    if "m \<le> unat n" for m
    using that
  proof (induction m)
    case (Suc m)
    have "(drop_bit m v AND 1 \<noteq> 0) = bit v m"
      by (simp add: and_one_eq odd_iff_mod_2_eq_one [symmetric] bit_iff_odd_drop_bit)
    moreover have "8 * unat (base + (off + of_nat m) div 8) + unat ((off + of_nat m) mod 8) = bit_pos base off + m"
      using bit_index [OF fit, of m] Suc.prems by simp
    ultimately have "mem_bit (?f mem' m) a = (if a = bit_pos base off + m then bit v m else mem_bit mem' a)" for mem'
      by (simp only: Let_def store_bit_bit [OF unat_mod_8])
    then have "mem_bit (foldl ?f mem [0..<Suc m]) a
        = (if a = bit_pos base off + m then bit v m else mem_bit (foldl ?f mem [0..<m]) a)"
      by simp
    then show ?case using Suc by auto
  qed auto
  then show ?thesis by (simp add: store_bits_def)
qed

lemma byte_split:
  fixes a :: nat
  assumes "8 * d \<le> a \<and> a < 8 * d + 8 * n"
  obtains q r where "a = 8 * (d + q) + r" "r < 8" "q < n"
proof
  have "d \<le> a div 8" "a div 8 < d + n" using assms by (simp_all add: div_less_iff_less_mult less_eq_div_iff_mult_less_eq)
  then show "a = 8 * (d + (a div 8 - d)) + a mod 8" "a mod 8 < 8" "a div 8 - d < n" by simp_all
qed

lemma memcpy_0: "memcpy d s 0 mem = mem"
  by (auto simp: memcpy_def fun_eq_iff)

lemma memcpy_bit:
  "bits_moved (8 * unat d) (8 * unat s) (8 * unat n) mem (memcpy d s n mem)"
  unfolding bits_moved_def
proof
  fix a
  show "mem_bit (memcpy d s n mem) a =
      (if 8 * unat d \<le> a \<and> a < 8 * unat d + 8 * unat n then mem_bit mem (8 * unat s + (a - 8 * unat d))
       else mem_bit mem a)"
  proof (cases "8 * unat d \<le> a \<and> a < 8 * unat d + 8 * unat n")
    case True
    then obtain q r where a: "a = 8 * (unat d + q) + r" "r < 8" and q: "q < unat n"
      by (rule byte_split)
    have eq: "8 * unat s + (a - 8 * unat d) = 8 * (unat s + q) + r" using a by simp
    have "(8 * x + r) div 8 = x \<and> (8 * x + r) mod 8 = r" for x using a(2) by simp
    then have "a div 8 = unat d + q \<and> a mod 8 = r \<and> (8 * unat s + (a - 8 * unat d)) div 8 = unat s + q
      \<and> (8 * unat s + (a - 8 * unat d)) mod 8 = r" unfolding eq unfolding a(1) by blast
    with q True show ?thesis by (simp add: mem_bit_def memcpy_def)
  next
    case False
    then have "\<not> (unat d \<le> a div 8 \<and> a div 8 < unat d + unat n)" by auto
    with False show ?thesis by (simp only: mem_bit_def memcpy_def if_False)
  qed
qed

lemma byte_pointer:
  assumes "bits_fit base off n" and "0 < n" and "unat off mod 8 = 0"
  shows "8 * unat (base + off div 8) = bit_pos base off"
  using bit_index [OF assms(1,2)] assms(3) by (simp add: unat_mod)

lemma unat_8: "unat (8 :: usize) = 8"
  by simp

lemma unat_byte_count: "n mod 8 = (0 :: usize) \<Longrightarrow> 8 * unat (n div 8) = unat n"
proof -
  assume "n mod 8 = 0"
  then have "unat n mod 8 = 0" by (metis unat_mod unat_0 unat_8)
  then show ?thesis by (simp add: unat_div dvd_mult_div_cancel mod_0_imp_dvd)
qed

text \<open>A copy of a value moves its bits; whole bytes have to start at a byte.\<close>

lemma copy_value_moves:
  assumes fit: "bits_fit destination db (unat n)" "bits_fit source sb (unat n)"
    and bytes: "unat n mod 8 = 0 \<Longrightarrow> unat db mod 8 = 0 \<and> unat sb mod 8 = 0"
    and small: "unat n mod 8 \<noteq> 0 \<Longrightarrow> unat n \<le> 64"
  shows "bits_moved (bit_pos destination db) (bit_pos source sb) (unat n) mem
    (copy_value destination db source sb n mem)"
proof (cases "unat n mod 8 = 0")
  case True
  then have n8: "n mod 8 = 0" by (simp add: word_unat_eq_iff unat_mod)
  show ?thesis
  proof (cases "n = 0")
    case True
    then show ?thesis by (auto simp: copy_value_def memcpy_def Let_def fun_eq_iff)
  next
    case False
    then have pos: "0 < unat n" by (simp add: unat_gt_0)
    note ptr = byte_pointer [OF fit(1) pos] byte_pointer [OF fit(2) pos]
    then have d: "8 * unat (destination + db div 8) = bit_pos destination db"
      and s: "8 * unat (source + sb div 8) = bit_pos source sb" using bytes True by simp_all
    show ?thesis
    proof (cases "destination + db div 8 = source + sb div 8")
      case True
      then show ?thesis using n8 d s bits_moved_refl by (simp add: copy_value_def)
    next
      case False
      then show ?thesis
        using memcpy_bit [of "destination + db div 8" "source + sb div 8" "n div 8" mem] n8
        by (simp add: copy_value_def d s unat_byte_count)
    qed
  qed
next
  case False
  then have n8: "n mod 8 \<noteq> 0" by (simp add: word_unat_eq_iff unat_mod)
  then show ?thesis
    using small [OF False]
    by (auto simp: copy_value_def bits_moved_def store_bits_bit [OF fit(1)] load_bits_bit [OF fit(2)])
qed

section \<open>Tile rows\<close>

text \<open>A loop of adjacent moves is one move.\<close>

lemma moves_loop:
  assumes step: "\<And>i mem. k \<le> i \<Longrightarrow> i < n \<Longrightarrow> bits_moved (d + i * w) (s + i * w) w mem (f mem i)"
    and apart: "apart d s (n * w)" and kn: "k \<le> n"
  shows "bits_moved (d + k * w) (s + k * w) ((n - k) * w) mem (foldl f mem [k..<n])"
  using assms(1) kn
proof (induction "n - k" arbitrary: k mem)
  case (Suc m)
  then have lt: "k < n" by simp
  have "bits_moved (d + Suc k * w) (s + Suc k * w) ((n - Suc k) * w) (f mem k) (foldl f (f mem k) [Suc k..<n])"
    using Suc.prems lt by (intro Suc.hyps(1)) (use Suc.hyps(2) in simp_all)
  moreover have "bits_moved (d + k * w) (s + k * w) w mem (f mem k)" using Suc.prems(1) lt by simp
  moreover have eq: "w + (n - Suc k) * w = (n - k) * w" using lt
    by (metis Suc_diff_Suc mult_Suc)
  moreover have "k * w + (n - k) * w \<le> n * w" using lt
    by (metis add_mult_distrib le_add_diff_inverse less_imp_le order_refl)
  then have "apart (d + k * w) (s + k * w) (w + (n - Suc k) * w)"
    unfolding eq by (rule apart_sub [OF apart])
  ultimately have "bits_moved (d + k * w) (s + k * w) (w + (n - Suc k) * w) mem (foldl f (f mem k) [Suc k..<n])"
    by (intro bits_moved_append) (simp_all add: add.commute add.left_commute)
  then show ?case using lt eq by (simp add: upt_conv_Cons)
qed simp

lemma bits_fit_sub: "bits_fit base off n \<Longrightarrow> i + m \<le> n \<Longrightarrow> 0 < m \<Longrightarrow>
   bits_fit base (off + of_nat i) m \<and> bit_pos base (off + of_nat i) = bit_pos base off + i
   \<and> unat (off + of_nat i) = unat off + i"
proof -
  assume a: "bits_fit base off n" "i + m \<le> n" "0 < m"
  then have "unat off + i < 2 ^ 64" by (simp add: bits_fit_def)
  then have "unat (off + of_nat i) = unat off + i" by (simp add: unat_add_small unat_of_nat_fits)
  with a show ?thesis by (simp add: bits_fit_def bit_pos_def)
qed

lemma load_u32_byte: "j < 4 \<Longrightarrow> ucast (drop_bit (8 * j) (load_u32 mem p)) = mem (unat p + j)"
proof -
  assume "j < 4"
  then consider "j = 0" | "j = 1" | "j = 2" | "j = 3" by linarith
  then show ?thesis
    by cases (rule bit_word_eqI; auto simp: load_u32_def Let_def bit_simps dest: bit_imp_le_length)+
qed

lemma copy_u32: "store_u32 d (load_u32 mem s) mem = memcpy d s 4 mem"
proof
  fix a
  have b: "ucast (load_u32 mem s) = mem (unat s)" "ucast (drop_bit 8 (load_u32 mem s)) = mem (unat s + 1)"
    "ucast (drop_bit 16 (load_u32 mem s)) = mem (unat s + 2)" "ucast (drop_bit 24 (load_u32 mem s)) = mem (unat s + 3)"
    using load_u32_byte [of 0] load_u32_byte [of 1] load_u32_byte [of 2] load_u32_byte [of 3] by simp_all
  have "unat d \<le> a \<and> a < unat d + 4 \<longleftrightarrow> a \<in> {unat d, unat d + 1, unat d + 2, unat d + 3}" by auto
  then show "store_u32 d (load_u32 mem s) mem a = memcpy d s 4 mem a"
    by (auto simp: store_u32_def memcpy_def Let_def b)
qed

lemma copy_or_skip: "bits_moved (8 * unat d) (8 * unat s) (8 * unat n) mem (if d \<noteq> s then memcpy d s n mem else mem)"
  using memcpy_bit bits_moved_refl by simp

lemma unat_pointer_step:
  assumes "8 * unat (p :: usize) + n * m \<le> 2 ^ 67" and "i < n" and "m = 8 * unat k" and "0 < m"
  shows "unat (p + of_nat i * k) = unat p + i * unat k"
proof -
  have "i * m + m \<le> n * m" using assms(2) by (metis Suc_leI mult_Suc add.commute mult_le_mono1)
  then have lt: "unat p + i * unat k < 2 ^ 64" using assms by (simp add: algebra_simps)
  have "i * 1 \<le> i * unat k" using assms(3,4) by (intro mult_le_mono2) simp
  then have "i < 2 ^ 64" using lt by linarith
  then have "unat (of_nat i * k :: usize) = i * unat k"
    using lt by (simp add: unat_mult_small unat_of_nat_fits)
  with lt show ?thesis by (simp add: unat_add_small)
qed

lemma byte_aligned_moves:
  assumes "unat k \<in> {1, 2, 4, 8}" and "unat n \<le> 16"
    and fit: "8 * unat d + unat n * (8 * unat k) \<le> 2 ^ 67" "8 * unat s + unat n * (8 * unat k) \<le> 2 ^ 67"
    and apart: "apart (8 * unat d) (8 * unat s) (unat n * (8 * unat k))"
  shows "bits_moved (8 * unat d) (8 * unat s) (unat n * (8 * unat k)) mem
    (copy_tile_row_byte_aligned k d s n mem)"
proof -
  have "unat n * unat k \<le> 16 * 8" using assms(1,2) by (intro mult_mono) auto
  then have bytes: "unat (n * k) = unat n * unat k" by (intro unat_mult_small) simp
  let ?f = "\<lambda>mem i. let d = d + of_nat i * k; s = s + of_nat i * k in if d \<noteq> s then memcpy d s k mem else mem"
  have pos: "0 < 8 * unat k" using assms(1) by auto
  have "bits_moved (8 * unat d + i * (8 * unat k)) (8 * unat s + i * (8 * unat k)) (8 * unat k) mem (?f mem i)"
    if "i < unat n" for i mem
  proof -
    have "8 * unat (d + of_nat i * k) = 8 * unat d + i * (8 * unat k)"
      "8 * unat (s + of_nat i * k) = 8 * unat s + i * (8 * unat k)"
      using unat_pointer_step [OF fit(1) that refl pos] unat_pointer_step [OF fit(2) that refl pos] by simp_all
    then show ?thesis
      using copy_or_skip [of "d + of_nat i * k" "s + of_nat i * k" k mem] unfolding Let_def by (simp only:)
  qed
  then have "bits_moved (8 * unat d) (8 * unat s) (unat n * (8 * unat k)) mem (foldl ?f mem [0..<unat n])"
    using moves_loop [of 0 "unat n" "8 * unat d" "8 * unat k" "8 * unat s" ?f, OF _ apart] by simp
  moreover have "bits_moved (8 * unat d) (8 * unat s) (unat n * (8 * unat k)) mem (memcpy d s (n * k) mem)"
    using memcpy_bit [of d s "n * k" mem] by (simp only: bytes mult.left_commute)
  ultimately show ?thesis by (simp add: copy_tile_row_byte_aligned_def Let_def)
qed

text \<open>The word path: whenever it copies a word, its mask covers the whole word.\<close>

definition whole_words :: "usize \<Rightarrow> usize \<Rightarrow> usize" where
  "whole_words elements bits =
     (let whole_word_bits = elements * bits div 32 * 32 in
      if whole_word_bits mod bits = 0 then whole_word_bits div bits else 0)"

lemma whole_words_nat:
  assumes "bits \<in> {2, 4, 6}" and "unat n \<le> 16"
  shows "unat (whole_words n bits) = (let t = unat n * unat bits div 32 * 32 in if t mod unat bits = 0 then t div unat bits else 0)"
proof -
  have "unat bits \<le> 6" using assms(1) by auto
  then have le: "unat n * unat bits \<le> 16 * 6" using assms(2) by (intro mult_mono) simp_all
  then have m: "unat (n * bits) = unat n * unat bits" by (intro unat_mult_small) simp
  have "unat n * unat bits div 32 * 32 < 2 ^ 64" using le by (auto intro: le_less_trans [OF div_times_less_eq_dividend])
  then have t: "unat (n * bits div 32 * 32) = unat n * unat bits div 32 * 32"
    using m by (subst unat_mult_small) (simp_all add: unat_div)
  have z: "x mod bits = 0 \<longleftrightarrow> unat x mod unat bits = 0" for x
    by (metis unat_mod unat_eq_0)
  show ?thesis by (simp add: whole_words_def Let_def z t unat_div)
qed

text \<open>The element counts the word path can cover.\<close>

definition whole_words_of :: "nat \<Rightarrow> nat \<Rightarrow> nat" where
  "whole_words_of n b = (let t = n * b div 32 * 32 in if t mod b = 0 then t div b else 0)"

lemma whole_words_table:
  "list_all (\<lambda>n. whole_words_of n 2 = (if n = 16 then 16 else 0)
     \<and> whole_words_of n 4 = (if n = 16 then 16 else if n \<ge> 8 then 8 else 0)
     \<and> whole_words_of n 6 = (if n = 16 then 16 else 0)) [0..<17]"
  by (simp add: upt_rec whole_words_of_def)

lemma whole_words_of_cases:
  assumes "n \<le> 16"
  shows "whole_words_of n 2 = (if n = 16 then 16 else 0)"
    and "whole_words_of n 4 = (if n = 16 then 16 else if n \<ge> 8 then 8 else 0)"
    and "whole_words_of n 6 = (if n = 16 then 16 else 0)"
proof -
  have "n \<in> set [0..<17]" using assms by simp
  then show "whole_words_of n 2 = (if n = 16 then 16 else 0)"
    and "whole_words_of n 4 = (if n = 16 then 16 else if n \<ge> 8 then 8 else 0)"
    and "whole_words_of n 6 = (if n = 16 then 16 else 0)"
    using whole_words_table unfolding list_all_iff by blast+
qed

lemma covered_masks:
  "covered_mask (shift_table 2) (mask_table 2) 16 = - 1"
  "covered_mask (shift_table 4) (mask_table 4) 8 = - 1"
  "covered_mask (shift_table 4) (mask_table 4) 16 = - 1"
  "covered_mask (shift_table 6) (mask_table 6) 16 = - 1"
  by code_simp+

lemma word_path_cases:
  assumes bits: "bits \<in> {2, 4, 6}" and n: "unat n \<le> 16"
  shows "unat (whole_words n bits) \<le> unat n
    \<and> unat (whole_words n bits * bits div 32) * 32 = unat (whole_words n bits) * unat bits
    \<and> (whole_words n bits \<noteq> 0 \<longrightarrow> covered_mask (shift_table bits) (mask_table bits) (whole_words n bits) = - 1)"
proof -
  have w: "unat (whole_words n bits) = whole_words_of (unat n) (unat bits)"
    using whole_words_nat [OF bits n] by (simp add: whole_words_of_def)
  have num: "x = 16" if "unat x = 16" for x :: usize using that by (simp add: word_unat_eq_iff)
  have num8: "x = 8" if "unat x = 8" for x :: usize using that by (simp add: word_unat_eq_iff)
  have zero: "x = 0" if "unat x = 0" for x :: usize using that by (simp add: word_unat_eq_iff)
  consider "bits = 2" | "bits = 4" | "bits = 6" using bits by blast
  then show ?thesis
  proof cases
    case 1
    then have "unat (whole_words n bits) = (if unat n = 16 then 16 else 0)"
      using w whole_words_of_cases(1) [OF n] by simp
    then consider "whole_words n bits = 16" "unat n = 16" | "whole_words n bits = 0"
      using num zero by (meson)
    then show ?thesis using 1 covered_masks(1) by cases simp_all
  next
    case 2
    then have "unat (whole_words n bits) = (if unat n = 16 then 16 else if unat n \<ge> 8 then 8 else 0)"
      using w whole_words_of_cases(2) [OF n] by simp
    then consider "whole_words n bits = 16" "unat n = 16" | "whole_words n bits = 8" "8 \<le> unat n" | "whole_words n bits = 0"
      using num num8 zero by meson
    then show ?thesis using 2 covered_masks(2,3) by cases simp_all
  next
    case 3
    then have "unat (whole_words n bits) = (if unat n = 16 then 16 else 0)"
      using w whole_words_of_cases(3) [OF n] by simp
    then consider "whole_words n bits = 16" "unat n = 16" | "whole_words n bits = 0"
      using num zero by meson
    then show ?thesis using 3 covered_masks(4) by cases simp_all
  qed
qed

lemma mod_32_8: "(x :: usize) mod 32 = 0 \<Longrightarrow> unat x mod 8 = 0"
proof -
  assume "x mod 32 = 0"
  then have "unat x mod 32 = 0" by (simp add: word_unat_eq_iff unat_mod)
  then show "unat x mod 8 = 0" by presburger
qed

lemma subbyte_moves:
  assumes bits: "bits \<in> {2, 4, 6}" and n: "unat n \<le> 16"
    and fit: "bits_fit d db (unat n * unat bits)" "bits_fit s sb (unat n * unat bits)"
    and apart: "apart (bit_pos d db) (bit_pos s sb) (unat n * unat bits)"
  shows "bits_moved (bit_pos d db) (bit_pos s sb) (unat n * unat bits) mem
    (copy_tile_row_subbyte d db s sb n bits (shift_table bits) (mask_table bits) mem)"
proof -
  let ?w = "unat bits" and ?m = "whole_words n bits"
  let ?el = "\<lambda>mem i. copy_value d (db + of_nat i * bits) s (sb + of_nat i * bits) bits mem"
  have w: "?w mod 8 \<noteq> 0" "?w \<le> 64" "0 < ?w" using bits by auto
  have el: "bits_moved (bit_pos d db + i * ?w) (bit_pos s sb + i * ?w) ?w mem (?el mem i)" if "i < unat n" for i mem
  proof -
    have le: "i * ?w + ?w \<le> unat n * ?w" using that by (metis Suc_leI mult_Suc add.commute mult_le_mono1)
    have "(of_nat (i * ?w) :: usize) = of_nat i * bits" by simp
    with bits_fit_sub [OF fit(1) le w(3)] bits_fit_sub [OF fit(2) le w(3)]
    show ?thesis using copy_value_moves [of d "db + of_nat i * bits" bits s "sb + of_nat i * bits" mem] w by simp
  qed
  have tail: "bits_moved (bit_pos d db + k * ?w) (bit_pos s sb + k * ?w) ((unat n - k) * ?w) mem
      (foldl ?el mem [k..<unat n])" if "k \<le> unat n" for k mem
    using moves_loop [OF el apart that] by simp
  show ?thesis
  proof (cases "sb mod 32 = 0 \<and> db mod 32 = 0")
    case False
    then show ?thesis using tail [of 0 mem] by (auto simp: copy_tile_row_subbyte_def Let_def)
  next
    case True
    note c = word_path_cases [OF bits n]
    let ?wc = "unat (?m * bits div 32)" and ?cov = "covered_mask (shift_table bits) (mask_table bits) ?m"
    let ?word = "\<lambda>mem i. let source_word = load_u32 mem (s + sb div 8 + of_nat i * 4) in
                    store_u32 (d + db div 8 + of_nat i * 4) (source_word AND ?cov) mem"
    have words: "bits_moved (bit_pos d db) (bit_pos s sb) (unat ?m * ?w) mem (foldl ?word mem [0..<?wc])"
    proof (cases "?m = 0")
      case False
      have le: "unat ?m * ?w \<le> unat n * ?w" using c by simp
      have pos: "0 < unat n * ?w" using False c w(3) unat_gt_0 [of ?m] by auto
      have m8: "unat sb mod 8 = 0" "unat db mod 8 = 0" using True by (simp_all add: mod_32_8)
      have ptr: "8 * unat (d + db div 8) = bit_pos d db" "8 * unat (s + sb div 8) = bit_pos s sb"
        using byte_pointer [OF fit(1) pos m8(2)] byte_pointer [OF fit(2) pos m8(1)] .
      have fit': "8 * unat (d + db div 8) + ?wc * 32 \<le> 2 ^ 67" "8 * unat (s + sb div 8) + ?wc * 32 \<le> 2 ^ 67"
        using fit c le unfolding ptr bits_fit_def by linarith+
      have "bits_moved (bit_pos d db + i * 32) (bit_pos s sb + i * 32) 32 mem (?word mem i)" if "i < ?wc" for i mem
      proof -
        have "?cov = - 1" using False c by blast
        then have cov: "?word mem i = memcpy (d + db div 8 + of_nat i * 4) (s + sb div 8 + of_nat i * 4) 4 mem"
          by (simp add: Let_def copy_u32)
        have "8 * unat (d + db div 8 + of_nat i * 4) = bit_pos d db + i * 32"
          "8 * unat (s + sb div 8 + of_nat i * 4) = bit_pos s sb + i * 32" "8 * unat (4 :: usize) = 32"
          using unat_pointer_step [OF fit'(1) that, of 4] unat_pointer_step [OF fit'(2) that, of 4] ptr by simp_all
        then show ?thesis
          using memcpy_bit [of "d + db div 8 + of_nat i * 4" "s + sb div 8 + of_nat i * 4" 4 mem]
          unfolding cov by (simp only:)
      qed
      moreover have "apart (bit_pos d db) (bit_pos s sb) (?wc * 32)"
        using apart_sub [OF apart, of 0 "?wc * 32"] c le by simp
      ultimately have "bits_moved (bit_pos d db) (bit_pos s sb) (?wc * 32) mem (foldl ?word mem [0..<?wc])"
        using moves_loop [of 0 ?wc "bit_pos d db" 32 "bit_pos s sb" ?word mem] by simp
      then show ?thesis using c by simp
    qed simp
    have "bits_moved (bit_pos d db) (bit_pos s sb) (unat ?m * ?w + (unat n - unat ?m) * ?w) mem
        (foldl ?el (foldl ?word mem [0..<?wc]) [unat ?m..<unat n])"
      by (rule bits_moved_append [OF words tail]) (use c apart in \<open>simp_all flip: add_mult_distrib\<close>)
    then show ?thesis
      using c True by (simp add: copy_tile_row_subbyte_def Let_def whole_words_def flip: add_mult_distrib)
  qed
qed

lemma byte_leaf:
  assumes "bits \<in> {8, 16, 32, 64}"
  obtains k :: usize where "unat bits = 8 * unat k" "unat k \<in> {1, 2, 4, 8}"
    and "copy_tile_row d db s sb n bits shifts masks mem
        = Inr (copy_tile_row_byte_aligned k (d + db div 8) (s + sb div 8) n mem)"
proof -
  consider "bits = 8" | "bits = 16" | "bits = 32" | "bits = 64" using assms by blast
  then show thesis
  proof cases
    case 1 show ?thesis by (rule that [of 1]) (simp_all add: 1 copy_tile_row_def)
  next
    case 2 show ?thesis by (rule that [of 2]) (simp_all add: 2 copy_tile_row_def)
  next
    case 3 show ?thesis by (rule that [of 4]) (simp_all add: 3 copy_tile_row_def)
  next
    case 4 show ?thesis by (rule that [of 8]) (simp_all add: 4 copy_tile_row_def)
  qed
qed

text \<open>Every tile row copy moves exactly the bits of its elements.\<close>

lemma copy_tile_row_moves:
  assumes leaf: "leaf_bits type = Inr bits" and n: "unat n \<le> 16"
    and fit: "bits_fit d db (unat n * unat bits)" "bits_fit s sb (unat n * unat bits)"
    and bytes: "unat bits mod 8 = 0 \<Longrightarrow> unat db mod 8 = 0 \<and> unat sb mod 8 = 0"
    and apart: "apart (bit_pos d db) (bit_pos s sb) (unat n * unat bits)"
  shows "\<exists>mem'. copy_tile_row d db s sb n bits (shift_table bits) (mask_table bits) mem = Inr mem'
    \<and> bits_moved (bit_pos d db) (bit_pos s sb) (unat n * unat bits) mem mem'"
proof -
  have cases: "bits \<in> {2, 4, 6} \<or> bits \<in> {8, 16, 32, 64}" using leaf by (cases type) auto
  show ?thesis
  proof (cases "bits \<in> {2, 4, 6}")
    case True
    then have "unat bits mod 8 \<noteq> 0" by auto
    then have "bits mod 8 \<noteq> 0" by (metis unat_mod unat_0 unat_8)
    with subbyte_moves [OF True n fit apart, of mem] show ?thesis by (simp add: copy_tile_row_def)
  next
    case whole: False
    then have "bits \<in> {8, 16, 32, 64}" using cases by blast
    then obtain k :: usize where k: "unat bits = 8 * unat k" "unat k \<in> {1, 2, 4, 8}"
      and run: "copy_tile_row d db s sb n bits (shift_table bits) (mask_table bits) mem
        = Inr (copy_tile_row_byte_aligned k (d + db div 8) (s + sb div 8) n mem)"
      by (rule byte_leaf)
    show ?thesis
    proof (cases "n = 0")
      case True
      then have "copy_tile_row_byte_aligned k x y n mem = mem" for x y
        by (simp add: copy_tile_row_byte_aligned_def memcpy_0 Let_def)
      with run True show ?thesis by simp
    next
      case False
      have pos: "0 < unat n * unat bits" using False k by (auto simp: unat_gt_0)
      have m8: "unat db mod 8 = 0" "unat sb mod 8 = 0" using bytes k(1) by auto
      have ptr: "8 * unat (d + db div 8) = bit_pos d db" "8 * unat (s + sb div 8) = bit_pos s sb"
        using byte_pointer [OF fit(1) pos m8(1)] byte_pointer [OF fit(2) pos m8(2)] .
      have "bits_moved (8 * unat (d + db div 8)) (8 * unat (s + sb div 8)) (unat n * (8 * unat k)) mem
          (copy_tile_row_byte_aligned k (d + db div 8) (s + sb div 8) n mem)"
        by (rule byte_aligned_moves [OF k(2) n]) (use fit apart in \<open>simp_all only: ptr k(1) bits_fit_def\<close>)
      with run show ?thesis by (simp only: ptr k(1)) blast
    qed
  qed
qed

section \<open>Bit offsets of elements\<close>

lemma ceil_16: "(n + 15) div 16 = n div 16 + (if n mod 16 = 0 then 0 else 1)" for n :: nat
proof -
  define q r where "q = n div 16" and "r = n mod 16"
  have n: "n = 16 * q + r" and r: "r < 16" by (simp_all add: q_def r_def)
  have "(n + 15) div 16 = q + (r + 15) div 16" by (simp add: n add.assoc)
  moreover have "(r + 15) div 16 = (if r = 0 then 0 else 1)" using r by auto
  ultimately show ?thesis by (simp add: q_def r_def)
qed

lemma unat_numeral_16: "unat (16 :: usize) = 16"
  by simp

lemma unat_tile_count: "unat (tile_count x) = (unat x + 15) div 16"
proof -
  have m: "x mod 16 = 0 \<longleftrightarrow> unat x mod 16 = 0"
    using unat_eq_0 [of "x mod 16"] unat_mod [of x 16] by (metis unat_numeral_16)
  have d: "unat (x div 16) = unat x div 16" by (simp add: unat_div)
  have "unat (x div 16) + unat (1 :: usize) < 2 ^ 64" unfolding d using unat_less [of x] by simp
  from unat_add_small [OF this] d have inc: "unat (x div 16 + 1) = unat x div 16 + 1" by simp
  show ?thesis
  proof (cases "unat x mod 16 = 0")
    case True
    with m have "tile_count x = x div 16" by (simp only: tile_count_def) simp
    with d have "unat (tile_count x) = unat x div 16" by simp
    with True show ?thesis by (simp add: ceil_16)
  next
    case False
    with m have "tile_count x = x div 16 + 1" by (simp only: tile_count_def) simp
    with inc have "unat (tile_count x) = unat x div 16 + 1" by simp
    with False show ?thesis by (simp add: ceil_16)
  qed
qed

lemma tile_counts:
  assumes "valid_shape s"
  shows "unat (tile_count (dimensions s ! (rank s - 2))) = tile_rows s"
    and "unat (tile_count (dimensions s ! (rank s - Suc 0))) = tile_columns s"
  using shape_nth [OF assms] by (simp_all add: unat_tile_count tile_rows_def tile_columns_def)

lemma word_of_unat: "unat x = n \<Longrightarrow> x = of_nat n"
  by auto

text \<open>Both overloads compute the slot of the tiled layout times the width of the leaf.\<close>

lemma snapshot_element_bits_ok:
  assumes valid: "valid_shape (TensorShape dims)" and leaf: "leaf_bits type = Inr bits"
  shows "snapshot_element_bits dims type plane row column
    = Inr (of_nat (plane_slot (TensorShape dims) (unat plane) (unat row) (unat column) * unat bits))"
proof -
  let ?s = "TensorShape dims"
  have dims: "length dims = rank ?s" "2 \<le> rank ?s" using valid by (simp_all add: valid_shape_def rank_def)
  then have idx: "rank ?s - 2 + 1 = rank ?s - Suc 0" by simp
  have tr: "tile_count (dims ! (rank ?s - 2)) = of_nat (tile_rows ?s)"
    "tile_count (dims ! (rank ?s - Suc 0)) = of_nat (tile_columns ?s)"
    using tile_counts [OF valid] by (intro word_of_unat; simp)+
  have w: "of_nat (unat row div 16) = row div 16" "of_nat (unat row mod 16) = row mod 16"
    "of_nat (unat column div 16) = column div 16" "of_nat (unat column mod 16) = column mod 16"
    by (rule word_of_unat [symmetric], simp add: unat_div unat_mod)+
  have "of_nat (plane_slot ?s (unat plane) (unat row) (unat column) * unat bits)
      = ((plane * (of_nat (tile_rows ?s) * of_nat (tile_columns ?s)) + (row div 16 * of_nat (tile_columns ?s) + column div 16)) * 256
         + (row mod 16 * 16 + column mod 16)) * bits"
    unfolding plane_slot_def of_nat_mult of_nat_add w by simp
  moreover have "x * 16 * 16 = x * 256" for x :: usize by simp
  ultimately show ?thesis
    unfolding snapshot_element_bits_def Let_def leaf andThen_simps dims(1) idx tr by (simp only: add.assoc)
qed

lemma logical_element_bits_ok:
  assumes valid: "valid_shape (shape s)" and leaf: "leaf_bits (data_type s) = Inr bits"
    and plane: "unat plane < planes" and "unat row < rows_of (shape s)" and "unat column < columns_of (shape s)"
    and fits: "planes * plane_elements (shape s) < 2 ^ 64"
  shows "logical_element_bits s plane row column
    = Inr (of_nat (plane_slot (shape s) (unat plane) (unat row) (unat column) * unat bits))"
proof -
  obtain w where "standard_plane_slot s plane row column = Inr w"
      and w: "unat w = plane_slot (shape s) (unat plane) (unat row) (unat column)"
    using standard_plane_slot_ok [OF valid assms(3-6)] by blast
  moreover have "w * bits = of_nat (unat w * unat bits)" by simp
  ultimately show ?thesis unfolding logical_element_bits_def by (simp add: leaf w)
qed

text \<open>The elements of a run inside a tile row are adjacent.\<close>

lemma plane_slot_run:
  assumes "c mod 16 = 0" and "j < 16"
  shows "plane_slot s p r (c + j) = plane_slot s p r c + j"
proof -
  obtain q where c: "c = 16 * q" using assms(1) by (auto simp: mod_eq_0_iff_dvd)
  have "(c + j) div 16 = c div 16" "(c + j) mod 16 = j" using assms(2) by (simp_all add: c)
  then show ?thesis unfolding plane_slot_def assms(1) by (simp only: add_0_right add.assoc)
qed

section \<open>Sequences of moves\<close>

text \<open>A sequence of moves, each a destination, a source and a length, run one after another.\<close>

fun runs :: "(nat \<times> nat \<times> nat) list \<Rightarrow> memory \<Rightarrow> memory \<Rightarrow> bool" where
  "runs [] mem mem' \<longleftrightarrow> mem' = mem"
| "runs ((d, s, n) # ms) mem mem' \<longleftrightarrow> (\<exists>mem1. bits_moved d s n mem mem1 \<and> runs ms mem1 mem')"

definition covers :: "(nat \<times> nat \<times> nat) list \<Rightarrow> nat \<Rightarrow> bool" where
  "covers ms a \<longleftrightarrow> (\<exists>(d, s, n) \<in> set ms. d \<le> a \<and> a < d + n)"

text \<open>
  When the destination of a bit determines its source and no move reads what another writes, the
  order of the moves does not matter: every covered bit is its source's old value.
\<close>

lemma runs_bits:
  assumes "\<And>d s n i. (d, s, n) \<in> set ms \<Longrightarrow> i < n \<Longrightarrow> g (d + i) = s + i \<and> \<not> covers all (s + i)"
    and "runs ms mem1 mem'" and "set ms \<subseteq> set all"
    and "\<And>a. mem_bit mem1 a = (if covers before a then mem_bit mem (g a) else mem_bit mem a)" and "set before \<subseteq> set all"
  shows "mem_bit mem' a = (if covers (before @ ms) a then mem_bit mem (g a) else mem_bit mem a)"
  using assms
proof (induction ms arbitrary: mem1 before)
  case (Cons m ms)
  obtain d s n where m: "m = (d, s, n)" by (cases m)
  obtain mem2 where step: "bits_moved d s n mem1 mem2" and rest: "runs ms mem2 mem'"
    using Cons.prems(2) by (auto simp: m)
  have sub: "set (before @ [m]) \<subseteq> set all" using Cons.prems(3,5) by simp
  have next_bits: "mem_bit mem2 b = (if covers (before @ [m]) b then mem_bit mem (g b) else mem_bit mem b)" for b
  proof (cases "d \<le> b \<and> b < d + n")
    case True
    then have "b - d < n" "d + (b - d) = b" by linarith+
    then have g: "g b = s + (b - d)" and nc: "\<not> covers all (s + (b - d))"
      using Cons.prems(1) [of d s n "b - d"] by (auto simp: m)
    have "\<not> covers before (s + (b - d))" using nc Cons.prems(5) by (auto simp: covers_def)
    then have "mem_bit mem1 (s + (b - d)) = mem_bit mem (s + (b - d))" using Cons.prems(4) by simp
    moreover have "covers (before @ [m]) b" using True by (auto simp: covers_def m)
    ultimately show ?thesis using step True g by (simp add: bits_moved_def)
  next
    case False
    then have "mem_bit mem2 b = mem_bit mem1 b" using step unfolding bits_moved_def by (metis (no_types))
    moreover have "covers (before @ [m]) b = covers before b" using False by (auto simp: covers_def m)
    ultimately show ?thesis using Cons.prems(4) by simp
  qed
  have "mem_bit mem' a = (if covers ((before @ [m]) @ ms) a then mem_bit mem (g a) else mem_bit mem a)"
    by (rule Cons.IH [OF _ rest _ next_bits sub]) (use Cons.prems(1,3) in auto)
  then show ?case by simp
qed simp

lemma runs_result:
  assumes "\<And>d s n i. (d, s, n) \<in> set ms \<Longrightarrow> i < n \<Longrightarrow> g (d + i) = s + i \<and> \<not> covers ms (s + i)"
    and "runs ms mem mem'"
  shows "mem_bit mem' a = (if covers ms a then mem_bit mem (g a) else mem_bit mem a)"
  using runs_bits [where before = "[]" and all = ms, OF assms] by (simp add: covers_def)

lemma for_each_runs:
  assumes "\<And>x mem. x \<in> set xs \<Longrightarrow> \<exists>mem'. f x mem = Inr mem' \<and> bits_moved (D x) (S x) (N x) mem mem'"
  shows "\<exists>mem'. for_each xs f mem = Inr mem' \<and> runs (map (\<lambda>x. (D x, S x, N x)) xs) mem mem'"
  using assms
proof (induction xs arbitrary: mem)
  case (Cons x xs)
  obtain mem1 where step: "f x mem = Inr mem1" "bits_moved (D x) (S x) (N x) mem mem1" using Cons.prems by force
  obtain mem' where "for_each xs f mem1 = Inr mem'" "runs (map (\<lambda>x. (D x, S x, N x)) xs) mem1 mem'"
    using Cons.IH [of mem1] Cons.prems by force
  with step show ?case by auto
qed simp

text \<open>The same without naming the source of a bit: moves that write the same bit read the same bit.\<close>

lemma runs_consistent:
  assumes cons: "\<And>d s n i d' s' n' i'. (d, s, n) \<in> set ms \<Longrightarrow> (d', s', n') \<in> set ms \<Longrightarrow> i < n \<Longrightarrow> i' < n' \<Longrightarrow>
      d + i = d' + i' \<Longrightarrow> s + i = s' + i'"
    and src: "\<And>d s n i. (d, s, n) \<in> set ms \<Longrightarrow> i < n \<Longrightarrow> \<not> covers ms (s + i)"
    and run: "runs ms mem mem'"
  shows "(d, s, n) \<in> set ms \<Longrightarrow> i < n \<Longrightarrow> mem_bit mem' (d + i) = mem_bit mem (s + i)"
    and "\<not> covers ms a \<Longrightarrow> mem_bit mem' a = mem_bit mem a"
proof -
  define g where "g a = (SOME b. \<exists>(d, s, n) \<in> set ms. \<exists>i < n. a = d + i \<and> b = s + i)" for a
  have g: "g (d + i) = s + i" if "(d, s, n) \<in> set ms" "i < n" for d s n i
  proof -
    have "\<exists>(d', s', n') \<in> set ms. \<exists>i' < n'. d + i = d' + i' \<and> s + i = s' + i'" using that by auto
    then have "\<exists>(d', s', n') \<in> set ms. \<exists>i' < n'. d + i = d' + i' \<and> g (d + i) = s' + i'"
      unfolding g_def by (rule someI [of "\<lambda>b. \<exists>(d', s', n') \<in> set ms. \<exists>i' < n'. d + i = d' + i' \<and> b = s' + i'"])
    then show ?thesis using cons [OF that(1) _ that(2)] by fastforce
  qed
  have res: "mem_bit mem' a = (if covers ms a then mem_bit mem (g a) else mem_bit mem a)" for a
    by (rule runs_result [OF _ run]) (use g src in blast)
  show "(d, s, n) \<in> set ms \<Longrightarrow> i < n \<Longrightarrow> mem_bit mem' (d + i) = mem_bit mem (s + i)"
    using res [of "d + i"] g by (auto simp: covers_def)
  show "\<not> covers ms a \<Longrightarrow> mem_bit mem' a = mem_bit mem a" using res by simp
qed

end
