(* ===== verification/Cpu_Transfers.thy ===== *)
theory Cpu_Transfers
  imports Cpu_Memory
begin

text \<open>
  Tensors of the CPU backend, \<open>src/src/cpu/tensor.cpp\<close>, with the traversals of
  \<open>src/src/cpu/transfer_helpers.hpp\<close> they use: the walk over the tile rows of a view, alone and in
  lockstep with a second view, and the transfers between a view and packed host memory. The lemmas
  reduce both walks to one list of tile rows; the properties say that a transfer moves exactly the
  elements of the view and that reading back what was written gives the same bytes.
\<close>

section \<open>Traversals\<close>

text \<open>The recursion over the leading axes, given as (extent, stride) pairs.\<close>

fun visit_planes :: "(usize \<times> usize) list \<Rightarrow> (usize \<Rightarrow> 's \<Rightarrow> 's throws) \<Rightarrow> usize \<Rightarrow> 's \<Rightarrow> 's throws" where
  "visit_planes [] leaf plane s = leaf plane s"
| "visit_planes ((extent, stride) # axes) leaf plane s =
     for_each [0..<unat extent] (\<lambda>i. visit_planes axes leaf (plane + of_nat i * stride)) s"

text \<open>The callback gets the row, the first column, the byte of the first element and the number of elements.\<close>

definition for_each_tile :: "TensorView \<Rightarrow> (usize \<Rightarrow> usize \<Rightarrow> usize \<Rightarrow> usize \<Rightarrow> 's \<Rightarrow> 's throws) \<Rightarrow> 's \<Rightarrow> 's throws" where
  "for_each_tile v operation s =
     (let dims = dimensions (shape (spec v)); leading_rank = length dims - 2;
          rows = dims ! leading_rank; columns = dims ! (leading_rank + 1);
          tile_rows = tile_count rows; tile_columns = tile_count columns in
      andThen (leaf_bits (data_type (spec v))) (\<lambda>bits.
      visit_planes (zip (take leading_rank dims) (plane_strides v)) (\<lambda>plane.
        let tile_bytes = kTile * kTile * bits div 8 in
        for_each [0..<unat tile_rows] (\<lambda>tile_row s.
          let first_row = of_nat tile_row * kTile in
          andThen (standard_plane_slot (spec v) plane first_row 0) (\<lambda>slot.
          let tile_row_byte = slot * bits div 8 in
          for_each (takeWhile (\<lambda>i. \<not> first_row + of_nat i \<ge> rows) [0..<unat kTile]) (\<lambda>row_in_tile.
            let row = first_row + of_nat row_in_tile;
                row_byte = tile_row_byte + of_nat row_in_tile * kTile * bits div 8 in
            for_each [0..<unat tile_columns] (\<lambda>tile_column.
              let column = of_nat tile_column * kTile; remaining = columns - column;
                  elements = (if remaining < kTile then remaining else kTile) in
              operation row column (row_byte + of_nat tile_column * tile_bytes) elements)) s)))
        (plane_offset v) s))"

text \<open>The recursion of the lockstep walk, over (extent, source stride, destination stride).\<close>

fun visit_plane_pairs ::
  "(usize \<times> usize \<times> usize) list \<Rightarrow> (usize \<Rightarrow> usize \<Rightarrow> 's \<Rightarrow> 's throws) \<Rightarrow> usize \<Rightarrow> usize \<Rightarrow> 's \<Rightarrow> 's throws" where
  "visit_plane_pairs [] leaf source destination s = leaf source destination s"
| "visit_plane_pairs ((extent, source_stride, destination_stride) # axes) leaf source destination s =
     for_each [0..<unat extent] (\<lambda>i. visit_plane_pairs axes leaf
       (source + of_nat i * source_stride) (destination + of_nat i * destination_stride)) s"

text \<open>
  Both extents are the source's. The callback gets the row, the first column, the bytes of the first
  source and destination element and the number of elements.
\<close>

definition for_each_tile_lockstep ::
  "TensorSpec \<Rightarrow> usize \<Rightarrow> usize list \<Rightarrow> TensorSpec \<Rightarrow> usize \<Rightarrow> usize list
     \<Rightarrow> (usize \<Rightarrow> usize \<Rightarrow> usize \<Rightarrow> usize \<Rightarrow> usize \<Rightarrow> 's \<Rightarrow> 's throws) \<Rightarrow> 's \<Rightarrow> 's throws" where
  "for_each_tile_lockstep source_spec source_offset source_strides
       destination_spec destination_offset destination_strides operation s =
     (let dims = dimensions (shape source_spec); leading_rank = length dims - 2;
          rows = dims ! leading_rank; columns = dims ! (leading_rank + 1);
          tile_rows = tile_count rows; tile_columns = tile_count columns in
      andThen (leaf_bits (data_type source_spec)) (\<lambda>source_bits.
      andThen (leaf_bits (data_type destination_spec)) (\<lambda>destination_bits.
      let identical_layout = (source_offset = destination_offset \<and> source_strides = destination_strides) in
      visit_plane_pairs (zip (take leading_rank dims) (zip source_strides destination_strides))
        (\<lambda>source_plane destination_plane.
        let source_tile_bytes = kTile * kTile * source_bits div 8;
            destination_tile_bytes = kTile * kTile * destination_bits div 8 in
        for_each [0..<unat tile_rows] (\<lambda>tile_row s.
          let first_row = of_nat tile_row * kTile in
          andThen (standard_plane_slot source_spec source_plane first_row 0) (\<lambda>slot.
          let source_tile_row_byte = slot * source_bits div 8 in
          andThen (if identical_layout then Inr source_tile_row_byte
                   else andThen (standard_plane_slot destination_spec destination_plane first_row 0)
                          (\<lambda>slot. Inr (slot * destination_bits div 8))) (\<lambda>destination_tile_row_byte.
          for_each (takeWhile (\<lambda>i. \<not> first_row + of_nat i \<ge> rows) [0..<unat kTile]) (\<lambda>row_in_tile.
            let row = first_row + of_nat row_in_tile;
                source_row_byte = source_tile_row_byte + of_nat row_in_tile * kTile * source_bits div 8;
                destination_row_byte =
                  destination_tile_row_byte + of_nat row_in_tile * kTile * destination_bits div 8 in
            for_each [0..<unat tile_columns] (\<lambda>tile_column.
              let column = of_nat tile_column * kTile; remaining = columns - column;
                  elements = (if remaining < kTile then remaining else kTile) in
              operation row column (source_row_byte + of_nat tile_column * source_tile_bytes)
                (destination_row_byte + of_nat tile_column * destination_tile_bytes) elements)) s))))
        source_offset destination_offset s)))"

section \<open>Transfers of a CPU tensor\<close>

text \<open>
  \<open>storage\<close> is the owner's address and \<open>host\<close> the address of the host span. Both callbacks count
  their calls to find the plane they are in; the counter and the memory are the state of the walk.
\<close>

definition host_bit_of :: "TensorView \<Rightarrow> usize \<Rightarrow> usize \<Rightarrow> usize \<Rightarrow> usize \<Rightarrow> usize" where
  "host_bit_of v bits callback_index row column =
     (let dims = dimensions (shape (spec v)); columns = last dims; rows = dims ! (length dims - 2);
          callbacks_per_plane = rows * tile_count columns; elements_per_plane = rows * columns;
          plane_index = callback_index div callbacks_per_plane
      in (plane_index * elements_per_plane + row * columns + column) * bits)"

definition region_from_host :: "usize \<Rightarrow> TensorView \<Rightarrow> usize \<Rightarrow> memory \<Rightarrow> memory throws" where
  "region_from_host storage destination host mem =
     andThen (leaf_bits (data_type (spec destination))) (\<lambda>bits.
     andThen (for_each_tile destination (\<lambda>row column destination_byte elements (callback_index, mem).
        andThen (copy_tile_row storage (destination_byte * 8) host
                  (host_bit_of destination bits callback_index row column) elements bits
                  (shift_table bits) (mask_table bits) mem)
          (\<lambda>mem. Inr (callback_index + 1, mem))) (0 :: usize, mem))
     (\<lambda>(_, mem). Inr mem))"

text \<open>The last host byte is cleared first when the elements do not fill it.\<close>

definition clear_tail :: "TensorSpec \<Rightarrow> usize \<Rightarrow> usize \<Rightarrow> usize \<Rightarrow> memory \<Rightarrow> memory throws" where
  "clear_tail s bits host size_bytes mem =
     (if bits mod 8 \<noteq> 0 then
        andThen (element_count (shape s)) (\<lambda>count.
        let tail_bits = (count mod 8) * (bits mod 8) mod 8 in
        Inr (if tail_bits \<noteq> 0 then mem(unat (host + (size_bytes - 1)) := 0) else mem))
      else Inr mem)"

definition region_to_host :: "usize \<Rightarrow> TensorView \<Rightarrow> usize \<Rightarrow> usize \<Rightarrow> memory \<Rightarrow> memory throws" where
  "region_to_host storage source host host_size mem =
     andThen (leaf_bits (data_type (spec source))) (\<lambda>bits.
     andThen (clear_tail (spec source) bits host host_size mem) (\<lambda>mem.
     andThen (for_each_tile source (\<lambda>row column source_byte elements (callback_index, mem).
        andThen (copy_tile_row host (host_bit_of source bits callback_index row column) storage
                  (source_byte * 8) elements bits (shift_table bits) (mask_table bits) mem)
          (\<lambda>mem. Inr (callback_index + 1, mem))) (0 :: usize, mem))
     (\<lambda>(_, mem). Inr mem)))"

section \<open>The walk as a list of tile rows\<close>

text \<open>All coordinates below the given extents, the last one running fastest.\<close>

fun coords_list :: "nat list \<Rightarrow> nat list list" where
  "coords_list [] = [[]]"
| "coords_list (d # ds) = concat (map (\<lambda>i. map ((#) i) (coords_list ds)) [0..<d])"

lemma set_coords_list: "set (coords_list ds) = {cs. list_all2 (<) cs ds}"
proof (induction ds)
  case (Cons d ds)
  then show ?case by (auto simp: list_all2_Cons2)
qed simp

lemma for_each_NilF: "for_each [] f = Inr"
  by (rule ext) simp

lemma andThen_Inr [simp]: "andThen m Inr = m"
  by (cases m) simp_all

lemma for_each_mapF: "for_each (map h xs) f = for_each xs (\<lambda>x. f (h x))"
  by (rule ext) (rule for_each_map)

lemma visit_planes_coords:
  "length strides = length ds \<Longrightarrow> visit_planes (zip ds strides) leaf plane s
     = for_each (coords_list (map unat ds)) (\<lambda>cs. leaf (plane + of_nat (dot cs (map unat strides)))) s"
proof (induction ds strides arbitrary: plane s rule: list_induct2')
  case (4 d ds st strides)
  then have IH: "visit_planes (zip ds strides) leaf p
      = for_each (coords_list (map unat ds)) (\<lambda>cs. leaf (p + of_nat (dot cs (map unat strides))))" for p
    by (intro ext) simp
  show ?case by (simp add: IH for_each_concat for_each_map for_each_mapF add.assoc)
qed (simp_all add: for_each_NilF)

lemma visit_plane_pairs_coords:
  "length strides = length ds \<Longrightarrow> length strides' = length ds \<Longrightarrow>
   visit_plane_pairs (zip ds (zip strides strides')) leaf plane plane' s
     = for_each (coords_list (map unat ds)) (\<lambda>cs. leaf (plane + of_nat (dot cs (map unat strides)))
         (plane' + of_nat (dot cs (map unat strides')))) s"
proof (induction ds arbitrary: strides strides' plane plane' s)
  case (Cons d ds)
  obtain a as where a: "strides = a # as" "length as = length ds" using Cons.prems(1) by (cases strides) auto
  obtain b bs where b: "strides' = b # bs" "length bs = length ds" using Cons.prems(2) by (cases strides') auto
  have IH: "visit_plane_pairs (zip ds (zip as bs)) leaf p q
      = for_each (coords_list (map unat ds)) (\<lambda>cs. leaf (p + of_nat (dot cs (map unat as))) (q + of_nat (dot cs (map unat bs))))" for p q
    using Cons.IH [OF a(2) b(2)] by blast
  show ?case unfolding a(1) b(1) by (simp add: IH for_each_concat for_each_map for_each_mapF add.assoc)
qed (simp add: for_each_NilF)

text \<open>Tile rows and the rows in them enumerate all rows.\<close>

lemma takeWhile_upt: "takeWhile (\<lambda>k. a + k < n) [i..<m] = [i..<min m (max i (n - a))]" for a n :: nat
proof (induction "m - i" arbitrary: i)
  case (Suc d)
  then have "i < m" by simp
  then have u: "[i..<m] = i # [Suc i..<m]" by (simp add: upt_conv_Cons)
  show ?case
  proof (cases "a + i < n")
    case True
    then have "[i..<min m (max i (n - a))] = i # [Suc i..<min m (max (Suc i) (n - a))]"
      using \<open>i < m\<close> by (subst upt_conv_Cons) (auto simp: max_def min_def)
    with True Suc u show ?thesis by simp
  next
    case False
    then show ?thesis by (simp add: u max_def)
  qed
qed simp

lemma tiled_rows_upto:
  "concat (map (\<lambda>t. map (\<lambda>k. 16 * t + k) (takeWhile (\<lambda>k. 16 * t + k < n) [0..<16])) [0..<m]) = [0..<min (16 * m) n]"
  for n :: nat
proof (induction m)
  case (Suc m)
  have "map (\<lambda>k. 16 * m + k) [0..<min 16 (n - 16 * m)] = [16 * m..<min (16 * m + 16) (max n (16 * m))]"
    by (auto simp: map_add_upt [of _ "16 * m", symmetric] add.commute intro!: nth_equalityI)
  moreover have "[0..<min (16 * m) n] @ [16 * m..<min (16 * m + 16) (max n (16 * m))] = [0..<min (16 * m + 16) n]"
  proof (cases "16 * m \<le> n")
    case True
    then show ?thesis using upt_add_eq_append [of 0 "16 * m" "min (16 * m + 16) n - 16 * m"]
      by (simp add: max_absorb1 min_absorb1)
  next
    case False
    then show ?thesis by (simp add: max_absorb2 min_absorb2)
  qed
  moreover have "takeWhile (\<lambda>k. 16 * m + k < n) [0..<16] = [0..<min 16 (n - 16 * m)]" by (simp add: takeWhile_upt)
  moreover have "concat (map f [0..<Suc m]) = concat (map f [0..<m]) @ f m" for f :: "nat \<Rightarrow> nat list" by simp
  moreover have "16 * Suc m = 16 * m + 16" by simp
  ultimately show ?case using Suc.IH by (simp only:)
qed simp

lemma for_each_tile_rows:
  "for_each [0..<(n + 15) div 16] (\<lambda>t. for_each (takeWhile (\<lambda>k. 16 * t + k < n) [0..<16]) (\<lambda>k. G (16 * t + k))) s
   = for_each [0..<n] G s"
proof -
  have "n \<le> 16 * ((n + 15) div 16)" using padded_ge [of n] by (simp add: padded_def mult.commute)
  then have "[0..<n] = concat (map (\<lambda>t. map (\<lambda>k. 16 * t + k) (takeWhile (\<lambda>k. 16 * t + k < n) [0..<16])) [0..<(n + 15) div 16])"
    by (simp add: tiled_rows_upto min_absorb2)
  then show ?thesis by (simp only: for_each_concat for_each_map for_each_mapF)
qed

text \<open>The byte of the first element of a tile row.\<close>

definition tile_byte :: "TensorShape \<Rightarrow> nat \<Rightarrow> nat \<Rightarrow> nat \<Rightarrow> nat \<Rightarrow> nat" where
  "tile_byte s w p r t = plane_slot s p r (16 * t) * w div 8"

lemma of_nat_div_8: "8 * x < 2 ^ 64 \<Longrightarrow> of_nat (8 * x) div 8 = (of_nat x :: usize)"
proof -
  assume "8 * x < 2 ^ 64"
  from unat_of_nat_fits [OF this] have "unat (of_nat (8 * x) div (8 :: usize)) = 8 * x div 8"
    by (simp only: unat_div unat_8)
  then show ?thesis by (intro word_of_unat) simp
qed

lemma plane_slot_tile:
  assumes "k < 16"
  shows "plane_slot s p (16 * t + k) (16 * c) = 256 * (p * (tile_rows s * tile_columns s) + t * tile_columns s + c) + 16 * k"
  using assms by (simp add: plane_slot_def algebra_simps)

lemma tile_byte_word:
  assumes k: "k < 16" and fits: "plane_slot s p (16 * t + k) (16 * c) * unat bits < 2 ^ 64" and w: "unat bits \<le> 64"
  shows "of_nat (plane_slot s p (16 * t) 0) * bits div 8 + of_nat k * kTile * bits div 8
      + of_nat c * (kTile * kTile * bits div 8) = of_nat (tile_byte s (unat bits) p (16 * t + k) c)"
proof -
  define T where "T = p * (tile_rows s * tile_columns s) + t * tile_columns s"
  let ?w = "unat bits"
  have slot: "plane_slot s p (16 * t + k) (16 * c) = 256 * (T + c) + 16 * k" "plane_slot s p (16 * t) 0 = 256 * T"
    using plane_slot_tile [OF k, of s p t c] plane_slot_tile [of 0 s p t 0] by (simp_all add: T_def)
  have sum: "plane_slot s p (16 * t + k) (16 * c) * ?w = 8 * (32 * T * ?w + 2 * k * ?w + c * (32 * ?w))"
    unfolding slot by (simp add: algebra_simps)
  then have lt: "8 * (32 * T * ?w + 2 * k * ?w + c * (32 * ?w)) < 2 ^ 64" using fits by simp
  have eq: "of_nat (256 * T) * bits = of_nat (8 * (32 * T * ?w))" "of_nat k * 16 * bits = of_nat (8 * (2 * k * ?w))"
    "16 * 16 * bits = of_nat (8 * (32 * ?w))" by simp_all
  have "8 * (32 * T * ?w) < 2 ^ 64" "8 * (2 * k * ?w) < 2 ^ 64" "8 * (32 * ?w) < 2 ^ 64"
    using lt w by simp_all
  note d = of_nat_div_8 [OF this(1)] of_nat_div_8 [OF this(2)] of_nat_div_8 [OF this(3)]
  have "of_nat (256 * T) * bits div 8 + of_nat k * kTile * bits div 8 + of_nat c * (kTile * kTile * bits div 8)
      = of_nat (32 * T * ?w + 2 * k * ?w + c * (32 * ?w))"
    unfolding eq d by simp
  then show ?thesis by (simp add: tile_byte_def sum slot(2))
qed

text \<open>
  A view of the owner at address \<open>base\<close> with \<open>P\<close> planes whose elements have \<open>bits\<close> bits: its planes are the
  owner's, distinct coordinates have distinct planes, and the owner's bits are addressed without
  wrapping around.
\<close>

definition storage_view :: "usize \<Rightarrow> nat \<Rightarrow> usize \<Rightarrow> TensorView \<Rightarrow> bool" where
  "storage_view base P bits v \<longleftrightarrow> view_ok P v \<and> leaf_bits (data_type (spec v)) = Inr bits
     \<and> inj_on (view_plane v) {cs. leading_coords v cs}
     \<and> bits_fit base 0 (P * plane_elements (shape (spec v)) * unat bits)
     \<and> P * plane_elements (shape (spec v)) * unat bits < 2 ^ 64"

lemma storage_viewD:
  assumes "storage_view base P bits v"
  shows "view_ok P v" and "valid_shape (shape (spec v))" and "leaf_bits (data_type (spec v)) = Inr bits"
    and "2 \<le> unat bits" and "unat bits \<le> 64" and "length (plane_strides v) = rank (shape (spec v)) - 2"
    and "P * plane_elements (shape (spec v)) < 2 ^ 64"
proof -
  show v: "view_ok P v" "valid_shape (shape (spec v))" "leaf_bits (data_type (spec v)) = Inr bits"
    "length (plane_strides v) = rank (shape (spec v)) - 2"
    using assms by (simp_all add: storage_view_def view_ok_def)
  show w: "2 \<le> unat bits" "unat bits \<le> 64" using leaf_bits_range [OF v(3)] by simp_all
  have "P * plane_elements (shape (spec v)) * 1 \<le> P * plane_elements (shape (spec v)) * unat bits"
    using w by (intro mult_le_mono2) simp
  moreover have "P * plane_elements (shape (spec v)) * unat bits < 2 ^ 64"
    using assms by (simp add: storage_view_def)
  ultimately show "P * plane_elements (shape (spec v)) < 2 ^ 64" by linarith
qed

text \<open>The bits of a slot lie below the bits of all slots.\<close>

lemma slot_bits_less:
  assumes "p < P" and "r < rows_of s" and "c < columns_of s" and "i < w"
  shows "plane_slot s p r c * w + i < P * plane_elements s * w"
  using mixed_radix_less [OF plane_slot_less [OF assms(1-3)] assms(4)] .

section \<open>The inner loops\<close>

definition row_loop ::
  "TensorShape \<Rightarrow> nat \<Rightarrow> nat \<Rightarrow> (usize \<Rightarrow> usize \<Rightarrow> usize \<Rightarrow> usize \<Rightarrow> 's \<Rightarrow> 's throws) \<Rightarrow> 's \<Rightarrow> 's throws" where
  "row_loop s w p operation =
     for_each [0..<rows_of s] (\<lambda>r. for_each [0..<tile_columns s] (\<lambda>t.
       operation (of_nat r) (of_nat (16 * t)) (of_nat (tile_byte s w p r t)) (of_nat (min 16 (columns_of s - 16 * t)))))"

lemma tile_elements_word:
  assumes "16 * t < n" and "unat columns = n"
  shows "(let remaining = columns - of_nat t * kTile in if remaining < kTile then remaining else kTile)
    = of_nat (min 16 (n - 16 * t))"
proof -
  have lt: "16 * t < 2 ^ 64" using assms unat_less [of columns] by simp
  then have "unat (of_nat t * 16 :: usize) = 16 * t" by (simp add: unat_of_nat_fits unat_mult_small)
  then have rem: "unat (columns - of_nat t * 16) = n - 16 * t"
    using assms by (simp add: unat_sub word_le_nat_alt)
  show ?thesis
  proof (cases "n - 16 * t < 16")
    case True
    then have "columns - of_nat t * 16 < 16" using rem by (simp add: word_less_nat_alt)
    moreover have "columns - of_nat t * 16 = of_nat (n - 16 * t)" using word_of_unat [OF rem] .
    ultimately show ?thesis using True by (simp add: Let_def min_def)
  next
    case False
    then have "\<not> columns - of_nat t * 16 < 16" using rem by (simp add: word_less_nat_alt)
    with False show ?thesis by (simp add: Let_def min_def)
  qed
qed

lemma tile_columns_less: "t < tile_columns s \<Longrightarrow> 16 * t < columns_of s"
proof -
  assume "t < tile_columns s"
  then have "Suc t * 16 \<le> (columns_of s + 15) div 16 * 16" unfolding tile_columns_def by (intro mult_le_mono1) simp
  also have "\<dots> \<le> columns_of s + 15" by simp
  finally show ?thesis by simp
qed

lemma tile_rows_less: "t < tile_rows s \<Longrightarrow> 16 * t < rows_of s"
proof -
  assume "t < tile_rows s"
  then have "Suc t * 16 \<le> (rows_of s + 15) div 16 * 16" unfolding tile_rows_def by (intro mult_le_mono1) simp
  also have "\<dots> \<le> rows_of s + 15" by simp
  finally show ?thesis by simp
qed

lemma tile_start_word: "of_nat t * kTile = (of_nat (16 * t) :: usize)"
  by simp

text \<open>The condition of the loop over the rows of a tile.\<close>

lemma row_condition:
  assumes "valid_shape s" and "16 * tile_rows s < 2 ^ 64" and "t < tile_rows s"
  shows "takeWhile (\<lambda>i. \<not> of_nat t * kTile + of_nat i \<ge> dimensions s ! (rank s - 2)) [0..<unat kTile]
    = takeWhile (\<lambda>i. 16 * t + i < rows_of s) [0..<16]"
proof (rule takeWhile_cong)
  fix i
  assume "i \<in> set [0..<unat kTile]"
  then have "16 * t + i < 2 ^ 64" using assms(2,3) by simp
  then have "unat (of_nat (16 * t + i) :: usize) = 16 * t + i" by (rule unat_of_nat_fits)
  moreover have "of_nat t * kTile + of_nat i = (of_nat (16 * t + i) :: usize)" by simp
  ultimately have "unat (of_nat t * kTile + of_nat i) = 16 * t + i" by (simp only:)
  then show "(\<not> of_nat t * kTile + of_nat i \<ge> dimensions s ! (rank s - 2)) = (16 * t + i < rows_of s)"
    using shape_nth(1) [OF assms(1)] by (simp only: word_le_nat_alt not_le)
qed simp

lemma padded_rows_fit:
  assumes "p < P" and "P * plane_elements s < 2 ^ 64" and "valid_shape s"
  shows "16 * tile_rows s < 2 ^ 64"
proof -
  have "1 * plane_elements s \<le> P * plane_elements s" using assms(1) by (intro mult_le_mono1) simp
  moreover have "16 * tile_rows s * 1 \<le> 16 * tile_rows s * (16 * tile_columns s)"
    using tile_index_bounds [of 0 s 0] rows_columns_pos [OF assms(3)] by (intro mult_le_mono2) auto
  moreover have "16 * tile_rows s * (16 * tile_columns s) = plane_elements s" by (simp add: plane_elements_alt)
  ultimately show ?thesis using assms(2) by linarith
qed

text \<open>The facts one plane's loops need: a storage of \<open>P\<close> planes that is addressed without wrapping around.\<close>

definition plane_storage :: "nat \<Rightarrow> usize \<Rightarrow> TensorShape \<Rightarrow> bool" where
  "plane_storage P bits s \<longleftrightarrow> valid_shape s \<and> unat bits \<le> 64 \<and> 0 < unat bits \<and> P * plane_elements s * unat bits < 2 ^ 64"

lemma plane_storage_elements: "plane_storage P bits s \<Longrightarrow> P * plane_elements s < 2 ^ 64"
proof -
  assume ps: "plane_storage P bits s"
  have "P * plane_elements s * 1 \<le> P * plane_elements s * unat bits"
    using ps by (intro mult_le_mono2) (simp add: plane_storage_def)
  with ps show ?thesis unfolding plane_storage_def by linarith
qed

lemma plane_word: "plane_storage P bits s \<Longrightarrow> p < P \<Longrightarrow> unat (of_nat p :: usize) = p"
proof (rule unat_of_nat_fits)
  assume ps: "plane_storage P bits s" and p: "p < P"
  have "p * 1 \<le> p * plane_elements s" using rows_columns_pos [of s] ps
    by (intro mult_le_mono2) (simp add: plane_storage_def plane_elements_def padded_pos Suc_le_eq)
  moreover have "p * plane_elements s \<le> P * plane_elements s" using p by (intro mult_le_mono1) simp
  ultimately show "p < 2 ^ 64" using plane_storage_elements [OF ps] by linarith
qed

lemma tile_row_slot:
  assumes ps: "plane_storage P bits (shape sp)" and p: "p < P" and t: "t < tile_rows (shape sp)"
  shows "standard_plane_slot sp (of_nat p) (of_nat t * kTile) 0 = Inr (of_nat (plane_slot (shape sp) p (16 * t) 0))"
proof -
  have valid: "valid_shape (shape sp)" using ps by (simp add: plane_storage_def)
  note pe = plane_storage_elements [OF ps]
  have t64: "unat (of_nat t * kTile :: usize) = 16 * t"
    unfolding tile_start_word using t padded_rows_fit [OF p pe valid] by (intro unat_of_nat_fits) simp
  obtain x where x: "standard_plane_slot sp (of_nat p) (of_nat t * kTile) 0 = Inr x" "unat x = plane_slot (shape sp) p (16 * t) 0"
    using standard_plane_slot_ok [OF valid _ _ _ pe, of "of_nat p" "of_nat t * kTile" 0] p tile_rows_less [OF t]
      rows_columns_pos [OF valid] plane_word [OF ps p] t64 by auto
  then show ?thesis using word_of_unat by blast
qed

lemma tile_cell_byte:
  assumes ps: "plane_storage P bits s" and p: "p < P" and k: "k < 16" "16 * t + k < rows_of s" "c < tile_columns s"
  shows "of_nat (plane_slot s p (16 * t) 0) * bits div 8 + of_nat k * kTile * bits div 8 + of_nat c * (kTile * kTile * bits div 8)
    = of_nat (tile_byte s (unat bits) p (16 * t + k) c)"
proof (rule tile_byte_word [OF k(1)])
  have "plane_slot s p (16 * t + k) (16 * c) * unat bits + 0 < P * plane_elements s * unat bits"
    using ps p k(2) tile_columns_less [OF k(3)] by (intro slot_bits_less) (auto simp: plane_storage_def)
  then show "plane_slot s p (16 * t + k) (16 * c) * unat bits < 2 ^ 64" using ps unfolding plane_storage_def by linarith
  show "unat bits \<le> 64" using ps by (simp add: plane_storage_def)
qed

text \<open>The loops over tile rows, rows in them and tile columns are the loop over rows and tile columns.\<close>

lemma tile_loops:
  assumes "valid_shape s" and "16 * tile_rows s < 2 ^ 64"
    and row: "\<And>t u. t < tile_rows s \<Longrightarrow> body t u
      = for_each (takeWhile (\<lambda>i. \<not> of_nat t * kTile + of_nat i \<ge> dimensions s ! (rank s - 2)) [0..<unat kTile]) (\<lambda>k.
          for_each [0..<unat (tile_count (dimensions s ! (rank s - Suc 0)))] (F t k)) u"
    and cell: "\<And>t k c. k < 16 \<Longrightarrow> 16 * t + k < rows_of s \<Longrightarrow> c < tile_columns s \<Longrightarrow> F t k c = H (16 * t + k) c"
  shows "for_each [0..<unat (tile_count (dimensions s ! (rank s - 2)))] body u
    = for_each [0..<rows_of s] (\<lambda>r. for_each [0..<tile_columns s] (H r)) u"
proof -
  have "body t u = for_each (takeWhile (\<lambda>k. 16 * t + k < rows_of s) [0..<16]) (\<lambda>k. for_each [0..<tile_columns s] (H (16 * t + k))) u"
    if t: "t < tile_rows s" for t u
    unfolding row [OF t] row_condition [OF assms(1,2) t] tile_counts(2) [OF assms(1)]
    by (intro for_each_cong refl cell [THEN fun_cong]) (auto dest: set_takeWhileD)
  then show ?thesis
    unfolding tile_counts(1) [OF assms(1)]
    by (subst for_each_tile_rows [of "rows_of s" "\<lambda>r. for_each [0..<tile_columns s] (H r)" u, symmetric],
        unfold tile_rows_def [symmetric], intro for_each_cong refl) simp
qed

lemma plane_loop:
  assumes ps: "plane_storage P bits (shape sp)" and p: "p < P"
  shows "for_each [0..<unat (tile_count (dimensions (shape sp) ! (rank (shape sp) - 2)))] (\<lambda>tile_row s.
          andThen (standard_plane_slot sp (of_nat p) (of_nat tile_row * kTile) 0) (\<lambda>slot.
          for_each (takeWhile (\<lambda>i. \<not> of_nat tile_row * kTile + of_nat i \<ge> dimensions (shape sp) ! (rank (shape sp) - 2)) [0..<unat kTile]) (\<lambda>row_in_tile.
            for_each [0..<unat (tile_count (dimensions (shape sp) ! (rank (shape sp) - Suc 0)))] (\<lambda>tile_column.
              operation (of_nat tile_row * kTile + of_nat row_in_tile) (of_nat tile_column * kTile)
                (slot * bits div 8 + of_nat row_in_tile * kTile * bits div 8 + of_nat tile_column * (kTile * kTile * bits div 8))
                (let remaining = dimensions (shape sp) ! (rank (shape sp) - Suc 0) - of_nat tile_column * kTile
                 in if remaining < kTile then remaining else kTile))) s)) s
    = row_loop (shape sp) (unat bits) p operation s"
proof -
  let ?s = "shape sp"
  have valid: "valid_shape ?s" using ps by (simp add: plane_storage_def)
  note rows = padded_rows_fit [OF p plane_storage_elements [OF ps] valid]
  show ?thesis
    unfolding row_loop_def
  proof (rule tile_loops [OF valid rows])
    fix t k c
    assume c: "k < 16" "16 * t + k < rows_of ?s" "c < tile_columns ?s"
    show "operation (of_nat t * kTile + of_nat k) (of_nat c * kTile)
        (of_nat (plane_slot ?s p (16 * t) 0) * bits div 8 + of_nat k * kTile * bits div 8 + of_nat c * (kTile * kTile * bits div 8))
        (let remaining = dimensions ?s ! (rank ?s - Suc 0) - of_nat c * kTile in if remaining < kTile then remaining else kTile)
      = operation (of_nat (16 * t + k)) (of_nat (16 * c)) (of_nat (tile_byte ?s (unat bits) p (16 * t + k) c))
          (of_nat (min 16 (columns_of ?s - 16 * c)))"
      unfolding tile_cell_byte [OF ps p c] tile_elements_word [OF tile_columns_less [OF c(3)] shape_nth(2) [OF valid]]
      by (simp add: mult.commute)
  qed (simp add: tile_row_slot [OF ps p])
qed

lemma storage_view_planes: "storage_view base P bits v \<Longrightarrow> plane_storage P bits (shape (spec v))"
  using storage_viewD(2,4,5) [of base P bits v] by (simp add: storage_view_def plane_storage_def)

lemma for_each_tile_list:
  assumes "storage_view base P bits v"
  shows "for_each_tile v operation s
    = for_each (coords_list (lead_extents v)) (\<lambda>cs. row_loop (shape (spec v)) (unat bits) (view_plane v cs) operation) s"
proof -
  note v = storage_viewD [OF assms]
  let ?s = "shape (spec v)"
  have rk: "2 \<le> rank ?s" using v(2) by (simp add: valid_shape_def)
  then have idx: "length (dimensions ?s) = rank ?s" "rank ?s - 2 + 1 = rank ?s - Suc 0" by (simp_all add: rank_def)
  have fits: "P * plane_elements ?s * unat bits < 2 ^ 64" using assms by (simp add: storage_view_def)
  have lead: "map unat (take (rank ?s - 2) (dimensions ?s)) = lead_extents v"
    by (simp add: lead_extents_def leading_def extents_def take_map)
  have len: "length (plane_strides v) = length (take (rank ?s - 2) (dimensions ?s))" using v(6) by (simp add: rank_def)
  have plane: "plane_offset v + of_nat (dot cs (map unat (plane_strides v))) = of_nat (view_plane v cs)" for cs
    by (simp add: view_plane_def lead_strides_def)
  show ?thesis
    unfolding for_each_tile_def Let_def [of "dimensions ?s"] idx Let_def [of "rank ?s - 2"] v(3) andThen_simps
      visit_planes_coords [OF len] lead plane
    unfolding Let_def
    by (intro for_each_cong refl, rule plane_loop [unfolded Let_def, OF storage_view_planes [OF assms]])
      (use view_plane_in_owner [OF v(1)] in \<open>simp_all add: set_coords_list leading_coords_def\<close>)
qed

lemma lockstep_plane_loop:
  assumes ps: "plane_storage P bits (shape sp)" and p: "p < P" and ps': "plane_storage P' bits (shape sp)" and p': "p' < P'"
    and same: "same \<Longrightarrow> p' = p"
  shows "for_each [0..<unat (tile_count (dimensions (shape sp) ! (rank (shape sp) - 2)))] (\<lambda>tile_row s.
          andThen (standard_plane_slot sp (of_nat p) (of_nat tile_row * kTile) 0) (\<lambda>slot.
          andThen (if same then Inr (slot * bits div 8)
                   else andThen (standard_plane_slot sp (of_nat p') (of_nat tile_row * kTile) 0)
                          (\<lambda>slot. Inr (slot * bits div 8))) (\<lambda>destination_tile_row_byte.
          for_each (takeWhile (\<lambda>i. \<not> of_nat tile_row * kTile + of_nat i \<ge> dimensions (shape sp) ! (rank (shape sp) - 2)) [0..<unat kTile]) (\<lambda>row_in_tile.
            for_each [0..<unat (tile_count (dimensions (shape sp) ! (rank (shape sp) - Suc 0)))] (\<lambda>tile_column.
              operation (of_nat tile_row * kTile + of_nat row_in_tile) (of_nat tile_column * kTile)
                (slot * bits div 8 + of_nat row_in_tile * kTile * bits div 8 + of_nat tile_column * (kTile * kTile * bits div 8))
                (destination_tile_row_byte + of_nat row_in_tile * kTile * bits div 8 + of_nat tile_column * (kTile * kTile * bits div 8))
                (let remaining = dimensions (shape sp) ! (rank (shape sp) - Suc 0) - of_nat tile_column * kTile
                 in if remaining < kTile then remaining else kTile))) s))) s
    = for_each [0..<rows_of (shape sp)] (\<lambda>r. for_each [0..<tile_columns (shape sp)] (\<lambda>t.
        operation (of_nat r) (of_nat (16 * t)) (of_nat (tile_byte (shape sp) (unat bits) p r t))
          (of_nat (tile_byte (shape sp) (unat bits) p' r t)) (of_nat (min 16 (columns_of (shape sp) - 16 * t))))) s"
proof -
  let ?s = "shape sp"
  have valid: "valid_shape ?s" using ps by (simp add: plane_storage_def)
  note rows = padded_rows_fit [OF p plane_storage_elements [OF ps] valid]
  show ?thesis
  proof (rule tile_loops [OF valid rows])
    fix t k c
    assume c: "k < 16" "16 * t + k < rows_of ?s" "c < tile_columns ?s"
    show "operation (of_nat t * kTile + of_nat k) (of_nat c * kTile)
        (of_nat (plane_slot ?s p (16 * t) 0) * bits div 8 + of_nat k * kTile * bits div 8 + of_nat c * (kTile * kTile * bits div 8))
        (of_nat (plane_slot ?s p' (16 * t) 0) * bits div 8 + of_nat k * kTile * bits div 8 + of_nat c * (kTile * kTile * bits div 8))
        (let remaining = dimensions ?s ! (rank ?s - Suc 0) - of_nat c * kTile in if remaining < kTile then remaining else kTile)
      = operation (of_nat (16 * t + k)) (of_nat (16 * c)) (of_nat (tile_byte ?s (unat bits) p (16 * t + k) c))
          (of_nat (tile_byte ?s (unat bits) p' (16 * t + k) c)) (of_nat (min 16 (columns_of ?s - 16 * c)))"
      unfolding tile_cell_byte [OF ps p c] tile_cell_byte [OF ps' p' c]
        tile_elements_word [OF tile_columns_less [OF c(3)] shape_nth(2) [OF valid]]
      by (simp add: mult.commute)
  qed (use same in \<open>simp add: tile_row_slot [OF ps p] tile_row_slot [OF ps' p']\<close>)
qed

lemma for_each_tile_lockstep_list:
  assumes v: "storage_view base P bits v" and v': "storage_view base' P' bits v'" and same: "spec v' = spec v"
  shows "for_each_tile_lockstep (spec v) (plane_offset v) (plane_strides v)
      (spec v') (plane_offset v') (plane_strides v') operation s
    = for_each (coords_list (lead_extents v)) (\<lambda>cs. for_each [0..<rows_of (shape (spec v))] (\<lambda>r.
        for_each [0..<tile_columns (shape (spec v))] (\<lambda>t. operation (of_nat r) (of_nat (16 * t))
          (of_nat (tile_byte (shape (spec v)) (unat bits) (view_plane v cs) r t))
          (of_nat (tile_byte (shape (spec v)) (unat bits) (view_plane v' cs) r t))
          (of_nat (min 16 (columns_of (shape (spec v)) - 16 * t)))))) s"
proof -
  note sv = storage_viewD [OF v] and sv' = storage_viewD [OF v']
  let ?s = "shape (spec v)"
  have rk: "2 \<le> rank ?s" using sv(2) by (simp add: valid_shape_def)
  then have idx: "length (dimensions ?s) = rank ?s" "rank ?s - 2 + 1 = rank ?s - Suc 0" by (simp_all add: rank_def)
  have lead: "map unat (take (rank ?s - 2) (dimensions ?s)) = lead_extents v"
    by (simp add: lead_extents_def leading_def extents_def take_map)
  have len: "length (plane_strides v) = length (take (rank ?s - 2) (dimensions ?s))"
    "length (plane_strides v') = length (take (rank ?s - 2) (dimensions ?s))" using sv(6) sv'(6) same by (simp_all add: rank_def)
  have plane: "plane_offset u + of_nat (dot cs (map unat (plane_strides u))) = of_nat (view_plane u cs)" for u cs
    by (simp add: view_plane_def lead_strides_def)
  have coords: "leading_coords v cs" "leading_coords v' cs" if "cs \<in> set (coords_list (lead_extents v))" for cs
    using that same by (simp_all add: set_coords_list leading_coords_def lead_extents_def)
  have ps: "plane_storage P bits (shape (spec v))" "plane_storage P' bits (shape (spec v))"
    using storage_view_planes [OF v] storage_view_planes [OF v'] same by simp_all
  show ?thesis
    unfolding for_each_tile_lockstep_def same Let_def [of "dimensions ?s"] idx Let_def [of "rank ?s - 2"] sv(3) andThen_simps
      visit_plane_pairs_coords [OF len] lead plane
    unfolding Let_def
    by (rule for_each_cong [OF refl _ refl], rule lockstep_plane_loop [unfolded Let_def, OF ps(1) _ ps(2)])
      (use coords view_plane_in_owner [OF sv(1)] view_plane_in_owner [OF sv'(1)] in \<open>auto simp: view_plane_def lead_strides_def\<close>)
qed

section \<open>Counting the callbacks\<close>

lemma concat_intervals:
  "concat (map (\<lambda>i. [(a + i) * q..<(a + i + 1) * q]) [0..<d]) = [a * q..<(a + d) * q]" for q :: nat
proof (induction d)
  case (Suc d)
  have "a * q \<le> (a + d) * q" by (intro mult_le_mono1) simp
  then have "[a * q..<(a + d) * q + q] = [a * q..<(a + d) * q] @ [(a + d) * q..<(a + d) * q + q]"
    by (rule upt_add_eq_append)
  with Suc show ?case by (simp add: algebra_simps)
qed simp

lemma map_row_major: "map (row_major p ds) (coords_list ds) = [p * prod_list ds..<(p + 1) * prod_list ds]"
proof (induction ds arbitrary: p)
  case (Cons d ds)
  have "map (row_major p (d # ds)) (coords_list (d # ds))
      = concat (map (\<lambda>i. map (row_major (p * d + i) ds) (coords_list ds)) [0..<d])"
    by (simp add: map_concat comp_def)
  also have "\<dots> = concat (map (\<lambda>i. [(p * d + i) * prod_list ds..<(p * d + i + 1) * prod_list ds]) [0..<d])"
    by (simp only: Cons.IH)
  also have "\<dots> = [p * d * prod_list ds..<(p * d + d) * prod_list ds]" by (rule concat_intervals)
  finally show ?case by (simp add: algebra_simps)
qed simp

lemma length_coords_list: "length (coords_list ds) = prod_list ds"
  using arg_cong [where f = length, OF map_row_major [of 0 ds]] by simp

lemma row_major_nth: "i < prod_list ds \<Longrightarrow> row_major 0 ds (coords_list ds ! i) = i"
proof -
  assume "i < prod_list ds"
  then have "map (row_major 0 ds) (coords_list ds) ! i = i" by (simp add: map_row_major)
  with \<open>i < prod_list ds\<close> show ?thesis by (simp add: length_coords_list)
qed

text \<open>All callbacks of a walk: coordinates, row and tile column.\<close>

definition calls :: "TensorView \<Rightarrow> (nat list \<times> nat \<times> nat) list" where
  "calls v = List.product (coords_list (lead_extents v))
     (List.product [0..<rows_of (shape (spec v))] [0..<tile_columns (shape (spec v))])"

lemma set_calls:
  "set (calls v) = {x. case x of (cs, r, t) \<Rightarrow> leading_coords v cs \<and> r < rows_of (shape (spec v)) \<and> t < tile_columns (shape (spec v))}"
  by (auto simp: calls_def set_coords_list leading_coords_def)

lemma for_each_product: "for_each (List.product xs ys) f s = for_each xs (\<lambda>x. for_each ys (\<lambda>y. f (x, y))) s"
proof -
  have "List.product xs ys = concat (map (\<lambda>x. map (Pair x) ys) xs)" by (induction xs) simp_all
  then show ?thesis by (simp add: for_each_concat for_each_map for_each_mapF)
qed

lemma for_each_tile_calls:
  assumes "storage_view base P bits v"
  shows "for_each_tile v operation s = for_each (calls v) (\<lambda>(cs, r, t).
    operation (of_nat r) (of_nat (16 * t)) (of_nat (tile_byte (shape (spec v)) (unat bits) (view_plane v cs) r t))
      (of_nat (min 16 (columns_of (shape (spec v)) - 16 * t)))) s"
proof -
  have p: "for_each (List.product xs ys) f = for_each xs (\<lambda>x. for_each ys (\<lambda>y. f (x, y)))"
    for xs :: "nat list" and ys :: "nat list" and f :: "nat \<times> nat \<Rightarrow> 'b \<Rightarrow> 'b throws"
    by (rule ext) (rule for_each_product)
  show ?thesis
    unfolding for_each_tile_list [OF assms] calls_def for_each_product row_loop_def by (simp add: p)
qed

lemma for_each_counted:
  "for_each xs (\<lambda>x (c, m). andThen (F c x m) (\<lambda>m. Inr (c + 1, m))) (of_nat c0 :: usize, m)
   = andThen (for_each (zip [c0..<c0 + length xs] xs) (\<lambda>(i, x). F (of_nat i) x) m) (\<lambda>m. Inr (of_nat (c0 + length xs), m))"
proof (induction xs arbitrary: c0 m)
  case (Cons x xs)
  have "(of_nat c0 :: usize) + 1 = of_nat (Suc c0)" by simp
  with Cons.IH [of "Suc c0"] show ?case
    by (cases "F (of_nat c0) x m") (simp_all add: upt_conv_Cons del: of_nat_Suc upt_Suc)
qed simp

lemma calls_index:
  assumes "(i, cs, r, t) \<in> set (zip [0..<length (calls v)] (calls v))" and "valid_shape (shape (spec v))"
  shows "leading_coords v cs" and "r < rows_of (shape (spec v))" and "t < tile_columns (shape (spec v))"
    and "i div (rows_of (shape (spec v)) * tile_columns (shape (spec v))) = row_major 0 (lead_extents v) cs"
    and "i < prod_list (lead_extents v) * (rows_of (shape (spec v)) * tile_columns (shape (spec v)))"
proof -
  let ?q = "List.product [0..<rows_of (shape (spec v))] [0..<tile_columns (shape (spec v))]"
  have i: "i < length (calls v)" "calls v ! i = (cs, r, t)" using assms(1) by (auto simp: in_set_zip)
  have len: "length ?q = rows_of (shape (spec v)) * tile_columns (shape (spec v))" by (simp add: length_product)
  have n: "i < prod_list (lead_extents v) * length ?q" using i(1) by (simp add: calls_def length_product length_coords_list)
  then show "i < prod_list (lead_extents v) * (rows_of (shape (spec v)) * tile_columns (shape (spec v)))" by (simp add: len)
  have "i div length ?q < prod_list (lead_extents v)" using n by (simp add: less_mult_imp_div_less)
  moreover have "cs = coords_list (lead_extents v) ! (i div length ?q)"
    using i(2) product_nth [of i "coords_list (lead_extents v)" ?q] n by (simp add: calls_def length_coords_list)
  ultimately show "i div (rows_of (shape (spec v)) * tile_columns (shape (spec v))) = row_major 0 (lead_extents v) cs"
    by (simp add: row_major_nth len)
  have "(cs, r, t) \<in> set (calls v)" using i by (metis nth_mem)
  then show "leading_coords v cs" "r < rows_of (shape (spec v))" "t < tile_columns (shape (spec v))"
    by (simp_all add: calls_def set_coords_list leading_coords_def)
qed

section \<open>Elements\<close>

text \<open>
  The bit positions of an element in the owner's storage and in packed host memory, where the
  elements follow each other in row-major order.
\<close>

definition element_pos :: "usize \<Rightarrow> nat \<Rightarrow> TensorView \<Rightarrow> nat list \<Rightarrow> nat \<Rightarrow> nat \<Rightarrow> nat" where
  "element_pos base w v cs r c = 8 * unat base + plane_slot (shape (spec v)) (view_plane v cs) r c * w"

definition host_index :: "TensorView \<Rightarrow> nat list \<Rightarrow> nat \<Rightarrow> nat \<Rightarrow> nat" where
  "host_index v cs r c =
     row_major 0 (lead_extents v) cs * (rows_of (shape (spec v)) * columns_of (shape (spec v)))
     + r * columns_of (shape (spec v)) + c"

definition host_pos :: "usize \<Rightarrow> nat \<Rightarrow> TensorView \<Rightarrow> nat list \<Rightarrow> nat \<Rightarrow> nat \<Rightarrow> nat" where
  "host_pos host w v cs r c = 8 * unat host + host_index v cs r c * w"

definition cell :: "TensorView \<Rightarrow> nat list \<Rightarrow> nat \<Rightarrow> nat \<Rightarrow> bool" where
  "cell v cs r c \<longleftrightarrow> leading_coords v cs \<and> r < rows_of (shape (spec v)) \<and> c < columns_of (shape (spec v))"

lemma element_pos_inj:
  assumes "inj_on (view_plane v) {cs. leading_coords v cs}" and "cell v cs r c" and "cell v cs' r' c'"
    and "k < w" and "k' < w" and "element_pos base w v cs r c + k = element_pos base w v cs' r' c' + k'"
  shows "cs = cs' \<and> r = r' \<and> c = c' \<and> k = k'"
proof -
  have "plane_slot (shape (spec v)) (view_plane v cs) r c * w + k = plane_slot (shape (spec v)) (view_plane v cs') r' c' * w + k'"
    using assms(6) by (simp add: element_pos_def)
  note e = mixed_radix_inj [OF assms(4,5) this]
  have "view_plane v cs = view_plane v cs' \<and> r = r' \<and> c = c'"
    using plane_slot_inj [OF _ _ _ _ e [THEN conjunct1]] assms(2,3) by (simp add: cell_def)
  then show ?thesis using e assms(1-3) by (auto simp: cell_def dest: inj_onD)
qed

lemma host_index_less:
  assumes "cell v cs r c"
  shows "host_index v cs r c < prod_list (lead_extents v) * (rows_of (shape (spec v)) * columns_of (shape (spec v)))"
proof -
  have "row_major 0 (lead_extents v) cs < 1 * prod_list (lead_extents v)"
    using assms by (intro row_major_less) (simp_all add: cell_def leading_coords_def)
  moreover have "r * columns_of (shape (spec v)) + c < rows_of (shape (spec v)) * columns_of (shape (spec v))"
    using assms by (intro mixed_radix_less) (simp_all add: cell_def)
  ultimately show ?thesis using mixed_radix_less unfolding host_index_def add.assoc by simp
qed

lemma host_index_inj:
  assumes "cell v cs r c" and "cell v cs' r' c'" and "host_index v cs r c = host_index v cs' r' c'"
  shows "cs = cs' \<and> r = r' \<and> c = c'"
proof -
  have in_plane: "r * columns_of (shape (spec v)) + c < rows_of (shape (spec v)) * columns_of (shape (spec v))"
    if "cell v cs r c" for cs r c
    using that by (intro mixed_radix_less) (simp_all add: cell_def)
  note e = mixed_radix_inj [OF in_plane [OF assms(1)] in_plane [OF assms(2)] assms(3) [unfolded host_index_def add.assoc]]
  have "cs = cs'"
    using row_major_inj [of cs "lead_extents v" cs' 0 0] e assms(1,2) by (simp add: cell_def leading_coords_def)
  moreover have "r = r' \<and> c = c'"
    using mixed_radix_inj [OF _ _ e [THEN conjunct2]] assms(1,2) by (simp add: cell_def)
  ultimately show ?thesis by simp
qed

lemma host_pos_inj:
  assumes "cell v cs r c" and "cell v cs' r' c'" and "k < w" and "k' < w"
    and "host_pos host w v cs r c + k = host_pos host w v cs' r' c' + k'"
  shows "cs = cs' \<and> r = r' \<and> c = c' \<and> k = k'"
proof -
  have "host_index v cs r c * w + k = host_index v cs' r' c' * w + k'" using assms(5) by (simp add: host_pos_def)
  from mixed_radix_inj [OF assms(3,4) this] host_index_inj [OF assms(1,2)] show ?thesis by blast
qed

section \<open>From tile rows to elements\<close>

lemma run_element:
  assumes "i < min 16 (n - 16 * t) * w" and "0 < (w :: nat)"
  obtains j k where "i = j * w + k" and "j < 16" and "16 * t + j < n" and "k < w"
proof
  show "i = i div w * w + i mod w" "i mod w < w" using assms(2) by simp_all
  have "i div w < min 16 (n - 16 * t)" using assms(1) by (rule less_mult_imp_div_less)
  then show "i div w < 16" "16 * t + i div w < n" by linarith+
qed

text \<open>
  Moving every tile row from \<open>S\<close> to \<open>D\<close> moves every element, when elements of a tile row are adjacent on
  both sides, elements written to one place come from one place, and no element is read where one is written.
\<close>

lemma tile_moves:
  assumes run: "runs ms mem mem'"
    and ms: "set ms = {(D cs r (16 * t), S cs r (16 * t), min 16 (columns_of (shape (spec v)) - 16 * t) * w) | cs r t.
        leading_coords v cs \<and> r < rows_of (shape (spec v)) \<and> t < tile_columns (shape (spec v))}"
    and adj: "\<And>cs r t j. j < 16 \<Longrightarrow> D cs r (16 * t + j) = D cs r (16 * t) + j * w \<and> S cs r (16 * t + j) = S cs r (16 * t) + j * w"
    and cons: "\<And>cs r c k cs' r' c' k'. cell v cs r c \<Longrightarrow> cell v cs' r' c' \<Longrightarrow> k < w \<Longrightarrow> k' < w \<Longrightarrow>
        D cs r c + k = D cs' r' c' + k' \<Longrightarrow> S cs r c + k = S cs' r' c' + k'"
    and src: "\<And>cs r c k cs' r' c' k'. cell v cs r c \<Longrightarrow> cell v cs' r' c' \<Longrightarrow> k < w \<Longrightarrow> k' < w \<Longrightarrow>
        S cs r c + k \<noteq> D cs' r' c' + k'"
    and w: "0 < w"
  shows "cell v cs r c \<Longrightarrow> k < w \<Longrightarrow> mem_bit mem' (D cs r c + k) = mem_bit mem (S cs r c + k)"
    and "\<forall>cs r c k. cell v cs r c \<and> k < w \<longrightarrow> a \<noteq> D cs r c + k \<Longrightarrow> mem_bit mem' a = mem_bit mem a"
proof -
  have el: "\<exists>cs r c k. cell v cs r c \<and> k < w \<and> d + i = D cs r c + k \<and> s + i = S cs r c + k"
    if mem: "(d, s, n) \<in> set ms" and lt: "i < n" for d s n i
  proof -
    obtain cs r t where m: "d = D cs r (16 * t)" "s = S cs r (16 * t)" "n = min 16 (columns_of (shape (spec v)) - 16 * t) * w"
        "leading_coords v cs" "r < rows_of (shape (spec v))"
      using mem unfolding ms by auto
    obtain j k where jk: "i = j * w + k" "j < 16" "16 * t + j < columns_of (shape (spec v))" "k < w"
      using run_element [OF lt [unfolded m(3)] w] .
    have "cell v cs r (16 * t + j)" using m jk by (simp add: cell_def)
    with adj [OF jk(2), of cs r t] m jk show ?thesis by (intro exI [of _ cs] exI [of _ r] exI [of _ "16 * t + j"] exI [of _ k]) simp
  qed
  note res = runs_consistent [OF _ _ run]
  have cons': "s + i = s' + i'" if "(d, s, n) \<in> set ms" "(d', s', n') \<in> set ms" "i < n" "i' < n'" "d + i = d' + i'" for d s n i d' s' n' i'
    using el [OF that(1,3)] el [OF that(2,4)] cons that(5) by metis
  have nsrc: "\<not> covers ms (s + i)" if "(d, s, n) \<in> set ms" "i < n" for d s n i
  proof
    assume "covers ms (s + i)"
    then obtain d' s' n' where m: "(d', s', n') \<in> set ms" "d' \<le> s + i" "s + i < d' + n'" by (auto simp: covers_def)
    obtain i' where i': "s + i = d' + i'" using m(2) le_Suc_ex by blast
    then have "i' < n'" using m(3) by simp
    from el [OF that] el [OF m(1) this] src i' show False by metis
  qed
  show "mem_bit mem' (D cs r c + k) = mem_bit mem (S cs r c + k)" if c: "cell v cs r c" "k < w"
  proof -
    define t j where "t = c div 16" and "j = c mod 16"
    have c': "c = 16 * t + j" "j < 16" by (simp_all add: t_def j_def)
    have "c < columns_of (shape (spec v))" using c by (simp add: cell_def)
    then have j: "j < min 16 (columns_of (shape (spec v)) - 16 * t)" using c' by simp
    have "t < tile_columns (shape (spec v))" using c tile_index_bounds [of r "shape (spec v)" c] by (simp add: t_def cell_def)
    then have m: "(D cs r (16 * t), S cs r (16 * t), min 16 (columns_of (shape (spec v)) - 16 * t) * w) \<in> set ms"
      using c unfolding ms by (auto simp: cell_def)
    have "j * w + k < min 16 (columns_of (shape (spec v)) - 16 * t) * w" using j c(2) by (rule mixed_radix_less)
    from res(1) [OF cons' nsrc m this] show ?thesis using adj [OF c'(2), of cs r t] c'(1) by (simp add: add.assoc)
  qed
  show "mem_bit mem' a = mem_bit mem a" if "\<forall>cs r c k. cell v cs r c \<and> k < w \<longrightarrow> a \<noteq> D cs r c + k"
  proof (rule res(2) [OF cons' nsrc])
    show "\<not> covers ms a"
    proof
      assume "covers ms a"
      then obtain d s n where m: "(d, s, n) \<in> set ms" "d \<le> a" "a < d + n" by (auto simp: covers_def)
      obtain i where i: "a = d + i" using m(2) le_Suc_ex by blast
      then have "i < n" using m(3) by simp
      from el [OF m(1) this] that i show False by metis
    qed
  qed
qed

section \<open>Reading and writing host memory\<close>

lemma element_pos_run: "j < 16 \<Longrightarrow> element_pos base w v cs r (16 * t + j) = element_pos base w v cs r (16 * t) + j * w"
  using plane_slot_run [of "16 * t" j "shape (spec v)" "view_plane v cs" r] by (simp add: element_pos_def add_mult_distrib)

lemma host_pos_run: "host_pos host w v cs r (c + j) = host_pos host w v cs r c + j * w"
  by (simp add: host_pos_def host_index_def add_mult_distrib)

text \<open>The host memory of a view: its packed elements are addressed without wrapping around.\<close>

definition host_fits :: "usize \<Rightarrow> nat \<Rightarrow> TensorView \<Rightarrow> bool" where
  "host_fits host w v \<longleftrightarrow>
     prod_list (lead_extents v) * (rows_of (shape (spec v)) * columns_of (shape (spec v))) * w < 2 ^ 64
     \<and> bits_fit host 0 (prod_list (lead_extents v) * (rows_of (shape (spec v)) * columns_of (shape (spec v))) * w)"

text \<open>No bit of the host memory is a bit of the owner's storage.\<close>

definition bits_apart :: "usize \<Rightarrow> nat \<Rightarrow> usize \<Rightarrow> nat \<Rightarrow> bool" where
  "bits_apart base n host m \<longleftrightarrow> 8 * unat base + n \<le> 8 * unat host \<or> 8 * unat host + m \<le> 8 * unat base"

lemma host_bit_word:
  assumes i: "(i, cs, r, t) \<in> set (zip [0..<length (calls v)] (calls v))" and v: "storage_view base P bits v"
    and fits: "host_fits host (unat bits) v"
  shows "host_bit_of v bits (of_nat i) (of_nat r) (of_nat (16 * t)) = of_nat (host_index v cs r (16 * t) * unat bits)"
proof -
  let ?s = "shape (spec v)"
  note sv = storage_viewD [OF v]
  note c = calls_index [OF i sv(2)]
  have rk: "2 \<le> rank ?s" using sv(2) by (simp add: valid_shape_def)
  then have "dimensions ?s \<noteq> []" by (auto simp: rank_def)
  then have dims: "last (dimensions ?s) = dimensions ?s ! (rank ?s - Suc 0)" "length (dimensions ?s) = rank ?s"
    by (simp_all add: rank_def last_conv_nth)
  let ?R = "rows_of ?s" and ?C = "columns_of ?s" and ?T = "tile_columns ?s" and ?L = "prod_list (lead_extents v)"
  have pos: "0 < ?R" "0 < ?C" using rows_columns_pos [OF sv(2)] by simp_all
  have "(?C + 15) div 16 < ?C + 1" by (rule less_mult_imp_div_less) (use pos in simp)
  then have T: "?T \<le> ?C" by (simp add: tile_columns_def)
  have "?L * (?R * ?C) * 1 \<le> ?L * (?R * ?C) * unat bits" using sv(4) by (intro mult_le_mono2) simp
  then have LRC: "?L * (?R * ?C) < 2 ^ 64" using fits unfolding host_fits_def by linarith
  have "?L * (?R * ?T) \<le> ?L * (?R * ?C)" using T by simp
  then have i64: "i < 2 ^ 64" using c(5) LRC by linarith
  have L1: "1 \<le> ?L" using lead_extents_nonzero [OF sv(2)] prod_list_pos by (simp add: Suc_le_eq)
  have "1 * (?R * ?T) \<le> ?L * (?R * ?T)" using L1 by (intro mult_le_mono1)
  then have RT: "?R * ?T < 2 ^ 64" using \<open>?L * (?R * ?T) \<le> ?L * (?R * ?C)\<close> LRC by linarith
  have words: "dimensions ?s ! (rank ?s - 2) = of_nat ?R" "dimensions ?s ! (rank ?s - Suc 0) = of_nat ?C"
    "tile_count (dimensions ?s ! (rank ?s - Suc 0)) = of_nat ?T"
    using shape_nth [OF sv(2)] tile_counts(2) [OF sv(2)] by (intro word_of_unat; simp)+
  have "unat (of_nat i div (of_nat (?R * ?T)) :: usize) = i div (?R * ?T)"
    by (simp only: unat_div unat_of_nat_fits [OF i64] unat_of_nat_fits [OF RT])
  then have div: "(of_nat i div (of_nat ?R * of_nat ?T) :: usize) = of_nat (row_major 0 (lead_extents v) cs)"
    unfolding c(4) of_nat_mult by (rule word_of_unat)
  show ?thesis
    unfolding host_bit_of_def Let_def dims words(3) unfolding words(1,2) div host_index_def
    by (simp add: mult.assoc)
qed

lemma elements_width:
  assumes "leaf_bits type = Inr bits"
  shows "unat (of_nat (min 16 n) :: usize) = min 16 n"
  by (simp add: unat_of_nat_fits)

text \<open>The bits of one tile row on both sides of a host transfer.\<close>

lemma tile_row_storage:
  assumes v: "storage_view base P bits v" and c: "leading_coords v cs" "r < rows_of (shape (spec v))"
    "t < tile_columns (shape (spec v))" and e: "e = min 16 (columns_of (shape (spec v)) - 16 * t)"
  shows "bit_pos base (of_nat (tile_byte (shape (spec v)) (unat bits) (view_plane v cs) r t) * 8)
      = element_pos base (unat bits) v cs r (16 * t)"
    and "bits_fit base (of_nat (tile_byte (shape (spec v)) (unat bits) (view_plane v cs) r t) * 8) (e * unat bits)"
    and "unat (of_nat (tile_byte (shape (spec v)) (unat bits) (view_plane v cs) r t) * 8 :: usize) mod 8 = 0"
    and "8 * unat base \<le> element_pos base (unat bits) v cs r (16 * t)"
    and "element_pos base (unat bits) v cs r (16 * t) + e * unat bits
      \<le> 8 * unat base + P * plane_elements (shape (spec v)) * unat bits"
proof -
  let ?s = "shape (spec v)" and ?w = "unat bits" and ?p = "view_plane v cs"
  note sv = storage_viewD [OF v]
  have p: "?p < P" using view_plane_in_owner [OF sv(1) c(1)] .
  have "0 < e" using tile_columns_less [OF c(3)] by (simp add: e)
  define c1 where "c1 = 16 * t + (e - 1)"
  have c1: "c1 < columns_of ?s" "plane_slot ?s ?p r c1 = plane_slot ?s ?p r (16 * t) + (e - 1)"
    using plane_slot_run [of "16 * t" "e - 1" ?s ?p r] tile_columns_less [OF c(3)] by (auto simp: c1_def e)
  have "plane_slot ?s ?p r c1 * ?w + (?w - 1) < P * plane_elements ?s * ?w"
    using p c(2) c1(1) by (rule slot_bits_less) (use sv(4) in simp)
  moreover have "(e - 1) * ?w + ?w = e * ?w" using \<open>0 < e\<close> by (cases e) simp_all
  ultimately have le: "plane_slot ?s ?p r (16 * t) * ?w + e * ?w \<le> P * plane_elements ?s * ?w"
    using sv(4) by (simp add: c1(2) add_mult_distrib)
  have lim: "P * plane_elements ?s * ?w < 2 ^ 64" "bits_fit base 0 (P * plane_elements ?s * ?w)"
    using v by (simp_all add: storage_view_def)
  have slot: "plane_slot ?s ?p r (16 * t) = 8 * (2 * (16 * (?p * (tile_rows ?s * tile_columns ?s) + r div 16 * tile_columns ?s + t) + r mod 16))"
    using plane_slot_tile [of "r mod 16" ?s ?p "r div 16" t] by (simp add: algebra_simps)
  then have "8 dvd plane_slot ?s ?p r (16 * t) * ?w" by (metis dvd_mult2 dvd_triv_left)
  then have b8: "tile_byte ?s ?w ?p r t * 8 = plane_slot ?s ?p r (16 * t) * ?w"
    by (simp add: tile_byte_def)
  then have b: "(of_nat (tile_byte ?s ?w ?p r t) * 8 :: usize) = of_nat (plane_slot ?s ?p r (16 * t) * ?w)"
    by (metis of_nat_mult of_nat_numeral)
  have u: "unat (of_nat (plane_slot ?s ?p r (16 * t) * ?w) :: usize) = plane_slot ?s ?p r (16 * t) * ?w"
    using le lim(1) by (intro unat_of_nat_fits) linarith
  show "bit_pos base (of_nat (tile_byte ?s ?w ?p r t) * 8) = element_pos base ?w v cs r (16 * t)"
    unfolding b bit_pos_def u by (simp add: element_pos_def)
  then show "bits_fit base (of_nat (tile_byte ?s ?w ?p r t) * 8) (e * ?w)"
    using le lim unfolding bits_fit_def b u by (simp add: element_pos_def bit_pos_def)
  show "unat (of_nat (tile_byte ?s ?w ?p r t) * 8 :: usize) mod 8 = 0"
    unfolding b u using b8 by (metis mod_mult_self2_is_0)
  show "8 * unat base \<le> element_pos base ?w v cs r (16 * t)" by (simp add: element_pos_def)
  show "element_pos base ?w v cs r (16 * t) + e * ?w \<le> 8 * unat base + P * plane_elements ?s * ?w"
    using le by (simp add: element_pos_def)
qed

lemma tile_row_host:
  assumes v: "storage_view base P bits v" and fits: "host_fits host (unat bits) v"
    and c: "leading_coords v cs" "r < rows_of (shape (spec v))" "t < tile_columns (shape (spec v))"
    and e: "e = min 16 (columns_of (shape (spec v)) - 16 * t)"
  shows "bit_pos host (of_nat (host_index v cs r (16 * t) * unat bits)) = host_pos host (unat bits) v cs r (16 * t)"
    and "bits_fit host (of_nat (host_index v cs r (16 * t) * unat bits)) (e * unat bits)"
    and "unat bits mod 8 = 0 \<Longrightarrow> unat (of_nat (host_index v cs r (16 * t) * unat bits) :: usize) mod 8 = 0"
    and "8 * unat host \<le> host_pos host (unat bits) v cs r (16 * t)"
    and "host_pos host (unat bits) v cs r (16 * t) + e * unat bits
      \<le> 8 * unat host + prod_list (lead_extents v) * (rows_of (shape (spec v)) * columns_of (shape (spec v))) * unat bits"
proof -
  let ?w = "unat bits" and ?N = "prod_list (lead_extents v) * (rows_of (shape (spec v)) * columns_of (shape (spec v)))"
  have pos: "0 < e" using tile_columns_less [OF c(3)] by (simp add: e)
  have "cell v cs r (16 * t + (e - 1))" using c tile_columns_less [OF c(3)] by (auto simp: cell_def e)
  from host_index_less [OF this] have "host_index v cs r (16 * t) + e \<le> ?N" using pos by (simp add: host_index_def)
  then have "(host_index v cs r (16 * t) + e) * ?w \<le> ?N * ?w" by (rule mult_le_mono1)
  then have le: "host_index v cs r (16 * t) * ?w + e * ?w \<le> ?N * ?w" by (simp add: add_mult_distrib)
  have lim: "?N * ?w < 2 ^ 64" "bits_fit host 0 (?N * ?w)" using fits by (simp_all add: host_fits_def)
  have u: "unat (of_nat (host_index v cs r (16 * t) * ?w) :: usize) = host_index v cs r (16 * t) * ?w"
    using le lim(1) by (intro unat_of_nat_fits) linarith
  show "bit_pos host (of_nat (host_index v cs r (16 * t) * ?w)) = host_pos host ?w v cs r (16 * t)"
    unfolding bit_pos_def u by (simp add: host_pos_def)
  then show "bits_fit host (of_nat (host_index v cs r (16 * t) * ?w)) (e * ?w)"
    using le lim unfolding bits_fit_def u by (simp add: host_pos_def bit_pos_def)
  show "?w mod 8 = 0 \<Longrightarrow> unat (of_nat (host_index v cs r (16 * t) * ?w) :: usize) mod 8 = 0"
    unfolding u by (metis mod_mult_right_eq mult_0_right mod_0)
  show "8 * unat host \<le> host_pos host ?w v cs r (16 * t)" by (simp add: host_pos_def)
  show "host_pos host ?w v cs r (16 * t) + e * ?w \<le> 8 * unat host + ?N * ?w" using le by (simp add: host_pos_def)
qed

definition storage_bits :: "nat \<Rightarrow> nat \<Rightarrow> TensorView \<Rightarrow> nat" where
  "storage_bits P w v = P * plane_elements (shape (spec v)) * w"

definition host_bits :: "nat \<Rightarrow> TensorView \<Rightarrow> nat" where
  "host_bits w v = prod_list (lead_extents v) * (rows_of (shape (spec v)) * columns_of (shape (spec v))) * w"

text \<open>Both walks in one form: a copy of every tile row, with the host bit found by counting.\<close>

lemma counted_walk:
  assumes v: "storage_view base P bits v" and fits: "host_fits host (unat bits) v"
    and step: "\<And>cs r t m. leading_coords v cs \<Longrightarrow> r < rows_of (shape (spec v)) \<Longrightarrow> t < tile_columns (shape (spec v)) \<Longrightarrow>
      \<exists>m'. G (of_nat (tile_byte (shape (spec v)) (unat bits) (view_plane v cs) r t))
          (of_nat (host_index v cs r (16 * t) * unat bits)) (of_nat (min 16 (columns_of (shape (spec v)) - 16 * t))) m = Inr m'
        \<and> bits_moved (D cs r (16 * t)) (S cs r (16 * t)) (min 16 (columns_of (shape (spec v)) - 16 * t) * unat bits) m m'"
  obtains mem' ms where "andThen (for_each_tile v (\<lambda>row column byte elements (callback_index, mem).
        andThen (G byte (host_bit_of v bits callback_index row column) elements mem)
          (\<lambda>mem. Inr (callback_index + 1, mem))) (0 :: usize, mem)) (\<lambda>(_, mem). Inr mem) = Inr mem'"
    and "runs ms mem mem'"
    and "set ms = {(D cs r (16 * t), S cs r (16 * t), min 16 (columns_of (shape (spec v)) - 16 * t) * unat bits) | cs r t.
        leading_coords v cs \<and> r < rows_of (shape (spec v)) \<and> t < tile_columns (shape (spec v))}"
proof -
  let ?s = "shape (spec v)" and ?w = "unat bits"
  let ?F = "\<lambda>c x m. case x of (cs, r, t) \<Rightarrow> G (of_nat (tile_byte ?s ?w (view_plane v cs) r t))
      (host_bit_of v bits c (of_nat r) (of_nat (16 * t))) (of_nat (min 16 (columns_of ?s - 16 * t))) m"
  let ?xs = "zip [0..<length (calls v)] (calls v)"
  let ?D = "\<lambda>(i :: nat, cs, r, t). D cs r (16 * t)" and ?S = "\<lambda>(i :: nat, cs, r, t). S cs r (16 * t)"
    and ?N = "\<lambda>(i :: nat, cs :: nat list, r :: nat, t). min 16 (columns_of ?s - 16 * t) * ?w"
  have F: "(\<lambda>(cs, r, t) (c, m). andThen (G (of_nat (tile_byte ?s ?w (view_plane v cs) r t))
      (host_bit_of v bits c (of_nat r) (of_nat (16 * t))) (of_nat (min 16 (columns_of ?s - 16 * t))) m)
      (\<lambda>m. Inr (c + 1, m))) = (\<lambda>x (c :: usize, m). andThen (?F c x m) (\<lambda>m. Inr (c + 1, m)))"
    by (auto simp: fun_eq_iff)
  have moves: "\<exists>m'. (case x of (i, y) \<Rightarrow> ?F (of_nat i) y) m = Inr m' \<and> bits_moved (?D x) (?S x) (?N x) m m'"
    if x: "x \<in> set ?xs" for x m
  proof -
    obtain i cs r t where xe: "x = (i, cs, r, t)" by (metis prod.exhaust)
    note i = x [unfolded xe]
    note c = calls_index [OF i storage_viewD(2) [OF v]]
    show ?thesis unfolding xe prod.case host_bit_word [OF i v fits] using step [OF c(1-3), of m] .
  qed
  obtain mem' where run: "for_each ?xs (\<lambda>(i, x). ?F (of_nat i) x) mem = Inr mem'"
      "runs (map (\<lambda>x. (?D x, ?S x, ?N x)) ?xs) mem mem'"
    using for_each_runs [of ?xs "\<lambda>(i, x). ?F (of_nat i) x" ?D ?S ?N mem, OF moves] by blast
  have "for_each_tile v (\<lambda>row column byte elements (callback_index, mem).
        andThen (G byte (host_bit_of v bits callback_index row column) elements mem)
          (\<lambda>mem. Inr (callback_index + 1, mem))) (0 :: usize, mem) = Inr (of_nat (length (calls v)), mem')"
    unfolding for_each_tile_calls [OF v] F using for_each_counted [of "calls v" ?F 0 mem] run(1) by simp
  moreover have "set (map (\<lambda>x. (?D x, ?S x, ?N x)) ?xs) = {(D cs r (16 * t), S cs r (16 * t), min 16 (columns_of ?s - 16 * t) * ?w) | cs r t.
        leading_coords v cs \<and> r < rows_of ?s \<and> t < tile_columns ?s}"
  proof -
    let ?h = "\<lambda>(cs, r, t). (D cs r (16 * t), S cs r (16 * t), min 16 (columns_of ?s - 16 * t) * ?w)"
    have "map (\<lambda>x. (?D x, ?S x, ?N x)) ?xs = map ?h (map snd ?xs)"
      unfolding map_map comp_def by (rule map_cong) auto
    then have "set (map (\<lambda>x. (?D x, ?S x, ?N x)) ?xs) = ?h ` set (calls v)" by simp
    then show ?thesis unfolding set_calls by (auto simp only: image_iff mem_Collect_eq) (auto simp: image_iff)
  qed
  ultimately show thesis using that [OF _ run(2)] by simp
qed

lemma bits_apart_pos:
  assumes "bits_apart base n host m" and "8 * unat base \<le> d" and "d + x \<le> 8 * unat base + n"
    and "8 * unat host \<le> h" and "h + x \<le> 8 * unat host + m"
  shows "apart d h x" and "apart h d x"
  using assms by (auto simp: bits_apart_def apart_def)

lemma element_pos_less:
  assumes v: "storage_view base P bits v" and c: "cell v cs r c" and k: "k < unat bits"
  shows "8 * unat base \<le> element_pos base (unat bits) v cs r c"
    and "element_pos base (unat bits) v cs r c + k < 8 * unat base + storage_bits P (unat bits) v"
proof -
  have "view_plane v cs < P" using view_plane_in_owner [OF storage_viewD(1) [OF v]] c by (simp add: cell_def)
  from slot_bits_less [OF this _ _ k, of r "shape (spec v)" c] c
  show "8 * unat base \<le> element_pos base (unat bits) v cs r c"
    and "element_pos base (unat bits) v cs r c + k < 8 * unat base + storage_bits P (unat bits) v"
    by (simp_all add: element_pos_def storage_bits_def cell_def)
qed

lemma host_pos_less:
  assumes "cell v cs r c" and "k < w"
  shows "8 * unat host \<le> host_pos host w v cs r c" and "host_pos host w v cs r c + k < 8 * unat host + host_bits w v"
  using mixed_radix_less [OF host_index_less [OF assms(1)] assms(2)] by (simp_all add: host_pos_def host_bits_def)

lemma element_host_disjoint:
  assumes "bits_apart base (storage_bits P (unat bits) v) host (host_bits (unat bits) v)"
    and "storage_view base P bits v" and "cell v cs r c" and "cell v cs' r' c'" and "k < unat bits" and "k' < unat bits"
  shows "element_pos base (unat bits) v cs r c + k \<noteq> host_pos host (unat bits) v cs' r' c' + k'"
  using element_pos_less [OF assms(2,3,5)] host_pos_less [OF assms(4,6), of host] assms(1) by (auto simp: bits_apart_def)

text \<open>A transfer from the host writes every element of the view and nothing else.\<close>

lemma region_from_host_moves:
  assumes v: "storage_view base P bits v" and fits: "host_fits host (unat bits) v"
    and sep: "bits_apart base (storage_bits P (unat bits) v) host (host_bits (unat bits) v)"
  shows "\<exists>mem'. region_from_host base v host mem = Inr mem'
    \<and> (\<forall>cs r c k. cell v cs r c \<and> k < unat bits \<longrightarrow>
         mem_bit mem' (element_pos base (unat bits) v cs r c + k) = mem_bit mem (host_pos host (unat bits) v cs r c + k))
    \<and> (\<forall>a. (\<forall>cs r c k. cell v cs r c \<and> k < unat bits \<longrightarrow> a \<noteq> element_pos base (unat bits) v cs r c + k)
         \<longrightarrow> mem_bit mem' a = mem_bit mem a)"
proof -
  let ?w = "unat bits" and ?s = "shape (spec v)"
  note sv = storage_viewD [OF v]
  have w: "0 < ?w" using sv(4) by simp
  have step: "\<exists>m'. copy_tile_row base (of_nat (tile_byte ?s ?w (view_plane v cs) r t) * 8) host
        (of_nat (host_index v cs r (16 * t) * ?w)) (of_nat (min 16 (columns_of ?s - 16 * t))) bits
        (shift_table bits) (mask_table bits) m = Inr m'
      \<and> bits_moved (element_pos base ?w v cs r (16 * t)) (host_pos host ?w v cs r (16 * t)) (min 16 (columns_of ?s - 16 * t) * ?w) m m'"
    if c: "leading_coords v cs" "r < rows_of ?s" "t < tile_columns ?s" for cs r t m
  proof -
    have e: "unat (of_nat (min 16 (columns_of ?s - 16 * t)) :: usize) = min 16 (columns_of ?s - 16 * t)"
      by (simp add: unat_of_nat_fits)
    note d = tile_row_storage [OF v c refl] and h = tile_row_host [OF v fits c refl]
    note ap = bits_apart_pos [OF sep [unfolded storage_bits_def host_bits_def] d(4,5) h(4,5)]
    show ?thesis
      using copy_tile_row_moves [OF sv(3), of "of_nat (min 16 (columns_of ?s - 16 * t))" base _ host, unfolded e, OF _ d(2) h(2)]
        ap d(1,3) h(1,3) by simp
  qed
  obtain mem' ms where run: "andThen (for_each_tile v (\<lambda>row column byte elements (callback_index, mem).
        andThen (copy_tile_row base (byte * 8) host (host_bit_of v bits callback_index row column) elements bits
          (shift_table bits) (mask_table bits) mem)
          (\<lambda>mem. Inr (callback_index + 1, mem))) (0 :: usize, mem)) (\<lambda>(_, mem). Inr mem) = Inr mem'"
    and ms: "runs ms mem mem'" "set ms = {(element_pos base ?w v cs r (16 * t), host_pos host ?w v cs r (16 * t),
        min 16 (columns_of ?s - 16 * t) * ?w) | cs r t. leading_coords v cs \<and> r < rows_of ?s \<and> t < tile_columns ?s}"
    by (rule counted_walk [where G = "\<lambda>byte hb elements m. copy_tile_row base (byte * 8) host hb elements bits
      (shift_table bits) (mask_table bits) m", OF v fits step])
  have inj: "inj_on (view_plane v) {cs. leading_coords v cs}" using v by (simp add: storage_view_def)
  have cons: "host_pos host ?w v cs r c + k = host_pos host ?w v cs' r' c' + k'"
    if "cell v cs r c" "cell v cs' r' c'" "k < ?w" "k' < ?w" "element_pos base ?w v cs r c + k = element_pos base ?w v cs' r' c' + k'"
    for cs r c k cs' r' c' k'
    using element_pos_inj [OF inj that] by simp
  have adj: "element_pos base ?w v cs r (16 * t + j) = element_pos base ?w v cs r (16 * t) + j * ?w
      \<and> host_pos host ?w v cs r (16 * t + j) = host_pos host ?w v cs r (16 * t) + j * ?w" if "j < 16" for cs r t j
    using element_pos_run [OF that] host_pos_run by blast
  have src: "host_pos host ?w v cs r c + k \<noteq> element_pos base ?w v cs' r' c' + k'"
    if "cell v cs r c" "cell v cs' r' c'" "k < ?w" "k' < ?w" for cs r c k cs' r' c' k'
    using element_host_disjoint [OF sep v that(2,1,4,3)] by metis
  note res = tile_moves [where D = "element_pos base ?w v" and S = "host_pos host ?w v", OF ms adj cons src w]
  have "region_from_host base v host mem = Inr mem'" using run by (simp add: region_from_host_def sv(3))
  then show ?thesis
  proof (intro exI [of _ mem'] conjI allI impI)
    fix cs r c k
    assume "cell v cs r c \<and> k < ?w"
    then show "mem_bit mem' (element_pos base ?w v cs r c + k) = mem_bit mem (host_pos host ?w v cs r c + k)"
      by (elim conjE) (rule res(1))
  next
    fix a
    assume other: "\<forall>cs r c k. cell v cs r c \<and> k < ?w \<longrightarrow> a \<noteq> element_pos base ?w v cs r c + k"
    show "mem_bit mem' a = mem_bit mem a" by (rule res(2); (assumption | rule other))
  qed simp
qed

text \<open>
  A transfer to the host fills its span: every element of the view, then zeros up to the last byte.
  Nothing else changes.
\<close>

lemma host_bits_elements:
  assumes "valid_shape (shape (spec v))"
  shows "host_bits w v = logical_elements (shape (spec v)) * w"
  using assms by (simp add: host_bits_def logical_elements_alt lead_extents_def)

lemma packed_bytes_bounds: "n \<le> 8 * packed_bytes n" "8 * packed_bytes n < n + 8"
  by (simp_all add: packed_bytes_def)

lemma packed_bytes_partial: "n mod 8 \<noteq> 0 \<Longrightarrow> packed_bytes n = n div 8 + 1"
proof -
  assume "n mod 8 \<noteq> 0"
  then obtain r where r: "n mod 8 = Suc r" by (cases "n mod 8") simp_all
  define q where "q = n div 8"
  have n: "n = 8 * q + Suc r" using r mult_div_mod_eq [of 8 n] by (simp add: q_def)
  have "r < 8" using r mod_less_divisor [of 8 n] by simp
  then have "(8 * (q + 1) + r) div 8 = q + 1" by simp
  moreover have "n + 7 = 8 * (q + 1) + r" by (simp add: n)
  ultimately show ?thesis by (simp only: packed_bytes_def q_def)
qed

lemma last_byte:
  fixes h B a :: nat
  shows "8 * h + B \<le> a \<Longrightarrow> a < 8 * (h + (B div 8 + 1)) \<Longrightarrow> a div 8 = h + B div 8"
    and "a < 8 * h \<or> 8 * (h + (B div 8 + 1)) \<le> a \<Longrightarrow> a div 8 \<noteq> h + B div 8"
proof -
  define q where "q = B div 8"
  have q: "8 * q \<le> B" by (simp add: q_def)
  show "8 * h + B \<le> a \<Longrightarrow> a < 8 * (h + (B div 8 + 1)) \<Longrightarrow> a div 8 = h + B div 8"
    unfolding q_def [symmetric] using q by (intro div_nat_eqI) simp_all
  show "a < 8 * h \<or> 8 * (h + (B div 8 + 1)) \<le> a \<Longrightarrow> a div 8 \<noteq> h + B div 8"
    unfolding q_def [symmetric] using mult_div_mod_eq [of 8 a] mod_less_divisor [of 8 a] by auto
qed

lemma clear_tail_ok:
  assumes v: "storage_view base P bits v" and size: "unat size_bytes = packed_bytes (host_bits (unat bits) v)"
    and fits: "unat host + packed_bytes (host_bits (unat bits) v) \<le> 2 ^ 64" "host_bits (unat bits) v < 2 ^ 64"
  obtains mem' where "clear_tail (spec v) bits host size_bytes mem = Inr mem'"
    and "\<And>a. 8 * unat host + host_bits (unat bits) v \<le> a \<Longrightarrow> a < 8 * (unat host + packed_bytes (host_bits (unat bits) v)) \<Longrightarrow>
      \<not> mem_bit mem' a"
    and "\<And>a. a < 8 * unat host \<or> 8 * (unat host + packed_bytes (host_bits (unat bits) v)) \<le> a \<Longrightarrow> mem_bit mem' a = mem_bit mem a"
proof -
  let ?w = "unat bits" and ?n = "logical_elements (shape (spec v))"
  let ?B = "host_bits ?w v"
  note sv = storage_viewD [OF v]
  have B: "?B = ?n * ?w" using sv(2) by (rule host_bits_elements)
  have "?n * 1 \<le> ?n * ?w" using sv(4) by (intro mult_le_mono2) simp
  then have n: "?n < 2 ^ 64" using fits(2) B by linarith
  have count: "element_count (shape (spec v)) = Inr (of_nat ?n)" using element_count_cases [OF sv(2)] n by simp
  have tail: "unat ((of_nat ?n mod 8) * (bits mod 8) mod 8 :: usize) = ?B mod 8"
  proof -
    have m: "unat (of_nat ?n mod 8 :: usize) = ?n mod 8" "unat (bits mod 8) = ?w mod 8"
      using unat_of_nat_fits [OF n] by (simp_all only: unat_mod unat_8)
    have "(?n mod 8) * (?w mod 8) < 8 * 8" by (intro mult_strict_mono) simp_all
    then have "unat (of_nat ?n mod 8 :: usize) * unat (bits mod 8) < 2 ^ 64" unfolding m by simp
    from unat_mult_small [OF this] have "unat ((of_nat ?n mod 8) * (bits mod 8) :: usize) = (?n mod 8) * (?w mod 8)"
      by (simp only: m)
    then show ?thesis by (simp only: unat_mod unat_8 B mod_mult_eq)
  qed
  have zero: "(of_nat ?n mod 8) * (bits mod 8) mod 8 = (0 :: usize) \<longleftrightarrow> ?B mod 8 = 0"
    unfolding tail [symmetric] by (simp add: unat_eq_0)
  have bits8: "bits mod 8 \<noteq> 0 \<longleftrightarrow> ?w mod 8 \<noteq> 0"
  proof -
    have "unat (bits mod 8) = ?w mod 8" by (simp only: unat_mod unat_8)
    then show ?thesis by (metis unat_eq_0)
  qed
  show thesis
  proof (cases "?B mod 8 = 0")
    case True
    then have "8 * packed_bytes ?B = ?B" by (auto simp: packed_bytes_def)
    moreover have "clear_tail (spec v) bits host size_bytes mem = Inr mem"
      by (simp only: clear_tail_def count andThen_simps Let_def zero True simp_thms if_False if_True if_cancel)
    ultimately show thesis using that [of mem] by auto
  next
    case False
    then have "bits mod 8 \<noteq> 0" unfolding bits8 B by (metis mod_mult_right_eq mult_0_right mod_0)
    have pb: "packed_bytes ?B = ?B div 8 + 1" using False by (rule packed_bytes_partial)
    then have "0 < unat size_bytes" "unat size_bytes = ?B div 8 + 1" using size by simp_all
    then have "unat (size_bytes - 1) = ?B div 8" by (subst unat_sub) (simp_all add: word_le_nat_alt)
    moreover have "unat host + ?B div 8 < 2 ^ 64" using fits(1) pb by simp
    ultimately have last: "unat (host + (size_bytes - 1)) = unat host + ?B div 8" by (simp add: unat_add_small)
    let ?m = "mem(unat host + ?B div 8 := 0)"
    have run: "clear_tail (spec v) bits host size_bytes mem = Inr ?m"
      by (simp only: clear_tail_def count andThen_simps Let_def zero False \<open>bits mod 8 \<noteq> 0\<close> last simp_thms if_False if_True)
    have outside: "mem_bit ?m a = (a div 8 \<noteq> unat host + ?B div 8 \<and> mem_bit mem a)" for a
      by (simp add: mem_bit_def)
    show thesis
    proof (rule that [OF run])
      fix a
      assume "8 * unat host + ?B \<le> a" "a < 8 * (unat host + packed_bytes ?B)"
      then have "a div 8 = unat host + ?B div 8" unfolding pb by (rule last_byte(1))
      then show "\<not> mem_bit ?m a" by (simp add: outside)
    next
      fix a
      assume "a < 8 * unat host \<or> 8 * (unat host + packed_bytes ?B) \<le> a"
      then have "a div 8 \<noteq> unat host + ?B div 8" unfolding pb by (rule last_byte(2))
      then show "mem_bit ?m a = mem_bit mem a" by (simp add: outside)
    qed
  qed
qed

text \<open>The span a transfer uses: as many bytes as the packed elements need.\<close>

definition host_span :: "usize \<Rightarrow> nat \<Rightarrow> TensorView \<Rightarrow> bool" where
  "host_span host w v \<longleftrightarrow> host_bits w v < 2 ^ 64 \<and> unat host + packed_bytes (host_bits w v) \<le> 2 ^ 64"

lemma host_span_fits: "host_span host w v \<Longrightarrow> host_fits host w v"
  using packed_bytes_bounds(1) [of "host_bits w v"]
  by (simp add: host_span_def host_fits_def host_bits_def bits_fit_def bit_pos_def)

lemma bits_apart_shorter: "bits_apart base n host m \<Longrightarrow> m' \<le> m \<Longrightarrow> bits_apart base n host m'"
  by (auto simp: bits_apart_def)

lemma region_to_host_moves:
  assumes v: "storage_view base P bits v" and span: "host_span host (unat bits) v"
    and size: "unat host_size = packed_bytes (host_bits (unat bits) v)"
    and sep: "bits_apart base (storage_bits P (unat bits) v) host (8 * packed_bytes (host_bits (unat bits) v))"
  shows "\<exists>mem'. region_to_host base v host host_size mem = Inr mem'
    \<and> (\<forall>cs r c k. cell v cs r c \<and> k < unat bits \<longrightarrow>
         mem_bit mem' (host_pos host (unat bits) v cs r c + k) = mem_bit mem (element_pos base (unat bits) v cs r c + k))
    \<and> (\<forall>a. 8 * unat host + host_bits (unat bits) v \<le> a \<and> a < 8 * (unat host + packed_bytes (host_bits (unat bits) v))
         \<longrightarrow> \<not> mem_bit mem' a)
    \<and> (\<forall>a. a < 8 * unat host \<or> 8 * (unat host + packed_bytes (host_bits (unat bits) v)) \<le> a
         \<longrightarrow> mem_bit mem' a = mem_bit mem a)"
proof -
  let ?w = "unat bits" and ?s = "shape (spec v)" and ?B = "host_bits (unat bits) v"
  note sv = storage_viewD [OF v] and fits = host_span_fits [OF span]
  have w: "0 < ?w" using sv(4) by simp
  have sep': "bits_apart base (storage_bits P ?w v) host ?B"
    using bits_apart_shorter [OF sep packed_bytes_bounds(1)] .
  have step: "\<exists>m'. copy_tile_row host (of_nat (host_index v cs r (16 * t) * ?w)) base
        (of_nat (tile_byte ?s ?w (view_plane v cs) r t) * 8) (of_nat (min 16 (columns_of ?s - 16 * t))) bits
        (shift_table bits) (mask_table bits) m = Inr m'
      \<and> bits_moved (host_pos host ?w v cs r (16 * t)) (element_pos base ?w v cs r (16 * t)) (min 16 (columns_of ?s - 16 * t) * ?w) m m'"
    if c: "leading_coords v cs" "r < rows_of ?s" "t < tile_columns ?s" for cs r t m
  proof -
    have e: "unat (of_nat (min 16 (columns_of ?s - 16 * t)) :: usize) = min 16 (columns_of ?s - 16 * t)"
      by (simp add: unat_of_nat_fits)
    note d = tile_row_storage [OF v c refl] and h = tile_row_host [OF v fits c refl]
    note ap = bits_apart_pos [OF sep' [unfolded storage_bits_def host_bits_def] d(4,5) h(4,5)]
    show ?thesis
      using copy_tile_row_moves [OF sv(3), of "of_nat (min 16 (columns_of ?s - 16 * t))" host _ base, unfolded e, OF _ h(2) d(2)]
        ap d(1,3) h(1,3) by simp
  qed
  obtain m0 where m0: "clear_tail (spec v) bits host host_size mem = Inr m0"
    and tail: "\<And>a. 8 * unat host + ?B \<le> a \<Longrightarrow> a < 8 * (unat host + packed_bytes ?B) \<Longrightarrow> \<not> mem_bit m0 a"
    and kept: "\<And>a. a < 8 * unat host \<or> 8 * (unat host + packed_bytes ?B) \<le> a \<Longrightarrow> mem_bit m0 a = mem_bit mem a"
    using clear_tail_ok [OF v size] span [unfolded host_span_def] by blast
  obtain mem' ms where run: "andThen (for_each_tile v (\<lambda>row column byte elements (callback_index, mem).
        andThen (copy_tile_row host (host_bit_of v bits callback_index row column) base (byte * 8) elements bits
          (shift_table bits) (mask_table bits) mem)
          (\<lambda>mem. Inr (callback_index + 1, mem))) (0 :: usize, m0)) (\<lambda>(_, mem). Inr mem) = Inr mem'"
    and ms: "runs ms m0 mem'" "set ms = {(host_pos host ?w v cs r (16 * t), element_pos base ?w v cs r (16 * t),
        min 16 (columns_of ?s - 16 * t) * ?w) | cs r t. leading_coords v cs \<and> r < rows_of ?s \<and> t < tile_columns ?s}"
    by (rule counted_walk [where G = "\<lambda>byte hb elements m. copy_tile_row host hb base (byte * 8) elements bits
      (shift_table bits) (mask_table bits) m", OF v fits step])
  have cons: "element_pos base ?w v cs r c + k = element_pos base ?w v cs' r' c' + k'"
    if "cell v cs r c" "cell v cs' r' c'" "k < ?w" "k' < ?w" "host_pos host ?w v cs r c + k = host_pos host ?w v cs' r' c' + k'"
    for cs r c k cs' r' c' k'
    using host_pos_inj [OF that] by simp
  have adj: "host_pos host ?w v cs r (16 * t + j) = host_pos host ?w v cs r (16 * t) + j * ?w
      \<and> element_pos base ?w v cs r (16 * t + j) = element_pos base ?w v cs r (16 * t) + j * ?w" if "j < 16" for cs r t j
    using element_pos_run [OF that] host_pos_run by blast
  have src: "element_pos base ?w v cs r c + k \<noteq> host_pos host ?w v cs' r' c' + k'"
    if "cell v cs r c" "cell v cs' r' c'" "k < ?w" "k' < ?w" for cs r c k cs' r' c' k'
    using element_host_disjoint [OF sep' v that] .
  note res = tile_moves [where D = "host_pos host ?w v" and S = "element_pos base ?w v", OF ms adj cons src w]
  have "region_to_host base v host host_size mem = Inr mem'" using run by (simp add: region_to_host_def sv(3) m0)
  moreover have "mem_bit mem' (host_pos host ?w v cs r c + k) = mem_bit mem (element_pos base ?w v cs r c + k)"
    if c: "cell v cs r c" "k < ?w" for cs r c k
  proof -
    note l = element_pos_less [OF v c]
    have "mem_bit mem' (host_pos host ?w v cs r c + k) = mem_bit m0 (element_pos base ?w v cs r c + k)"
      using c by - (rule res(1))
    also have "\<dots> = mem_bit mem (element_pos base ?w v cs r c + k)"
      using l sep by (intro kept) (auto simp: bits_apart_def)
    finally show ?thesis .
  qed
  moreover have out: "mem_bit mem' a = mem_bit m0 a" if a: "a < 8 * unat host \<or> 8 * unat host + ?B \<le> a" for a
  proof -
    have other: "\<forall>cs r c k. cell v cs r c \<and> k < ?w \<longrightarrow> a \<noteq> host_pos host ?w v cs r c + k"
    proof (intro allI impI)
      fix cs r c k
      assume "cell v cs r c \<and> k < ?w"
      then show "a \<noteq> host_pos host ?w v cs r c + k" using host_pos_less [of v cs r c k ?w host] a by auto
    qed
    show ?thesis by (rule res(2); (assumption | rule other))
  qed
  moreover have "?B \<le> 8 * packed_bytes ?B" by (rule packed_bytes_bounds)
  ultimately show ?thesis
    by (intro exI [of _ mem']) (auto simp: tail kept)
qed

section \<open>The guarded transfers of a CPU tensor\<close>

text \<open>
  The view's public transfers with the owner's regions. A span is its address and its size;
  \<open>BOOL\<close> sources are checked byte by byte before anything is written.
\<close>

definition span_bytes :: "usize \<Rightarrow> usize \<Rightarrow> memory \<Rightarrow> byte list" where
  "span_bytes host size_bytes mem = map (\<lambda>i. mem (unat host + i)) [0..<unat size_bytes]"

definition cpu_copy_from_host :: "Tensor \<Rightarrow> TensorView \<Rightarrow> usize \<Rightarrow> usize \<Rightarrow> memory \<Rightarrow> memory throws" where
  "cpu_copy_from_host owner v host size_bytes mem =
     copy_from_host (\<lambda>v _. region_from_host (storage_handle owner) v host) v (span_bytes host size_bytes mem) mem"

definition cpu_copy_to_host :: "Tensor \<Rightarrow> TensorView \<Rightarrow> usize \<Rightarrow> usize \<Rightarrow> memory \<Rightarrow> memory throws" where
  "cpu_copy_to_host owner v host size_bytes mem =
     copy_to_host (\<lambda>v _. region_to_host (storage_handle owner) v host size_bytes) v (span_bytes host size_bytes mem) mem"

text \<open>A derived operand is a view whose storage holds all planes of its owner.\<close>

lemma derived_operand_storage:
  assumes "derived_operand st device self v"
  obtains P n bits where "storage_view (storage_handle (st self)) P bits v"
    and "tiled_storage_nbytes (spec (full_view (st self))) = Inr n" and "storage_bits P (unat bits) v \<le> 8 * unat n"
    and "supported_spec (spec v)" and "leaf_width (spec v) = unat bits"
    and "unat (storage_handle (st self)) + unat n < 2 ^ 64"
proof -
  from assms obtain s handle n where a: "valid_shape (shape s)" "make_tensor self s device handle = Inr (st self)"
      "handle \<noteq> 0" "tiled_storage_nbytes s = Inr n" "unat handle + unat n < 2 ^ 64" "derived_view (st self) v"
    by (auto simp: derived_operand_def)
  note t = make_tensor_facts [OF a(1,2)]
  let ?P = "prod_list (leading (shape s))"
  have inv: "view_ok ?P v" "same_matrix (spec v) s"
    using derived_view_invariant [OF a(6) t(3)] t(4) by simp_all
  have valid: "valid_shape (shape (spec v))" using inv(1) by (simp add: view_ok_def)
  note same = same_matrix_facts [OF valid a(1) inv(2)]
  have sup: "supported_spec (spec v)" using t(1) inv(2) valid by (simp add: supported_spec_def same_matrix_def)
  then obtain bits where bits: "leaf_bits (data_type (spec v)) = Inr bits" by (auto simp: supported_spec_def)
  have w: "leaf_width (spec v) = unat bits" using bits by (rule leaf_width_Inr)
  have tiled: "?P * plane_elements (shape (spec v)) = tiled_elements (shape s)"
    by (simp add: tiled_elements_def plane_elements_def same(1,2))
  note fits = tiled_storage_fits [OF t(1) a(4)]
  have small: "tiled_elements (shape s) * leaf_width s + 7 < 2 ^ 64"
    using a(4) by (auto simp: tiled_storage_nbytes_cases [OF t(1)] split: if_splits)
  have le: "storage_bits ?P (unat bits) v \<le> 8 * unat n"
    using fits(2) same(3) w by (simp add: storage_bits_def tiled)
  have "storage_view handle ?P bits v"
    unfolding storage_view_def
  proof (intro conjI inv(1) bits derived_view_inj [OF a(6) t(3) t(2)])
    show "?P * plane_elements (shape (spec v)) * unat bits < 2 ^ 64" using small same(3) w by (simp add: tiled)
    then show "bits_fit handle 0 (?P * plane_elements (shape (spec v)) * unat bits)"
      using le a(5) by (simp add: bits_fit_def bit_pos_def storage_bits_def)
  qed
  then show thesis
    using that [of ?P bits n] t(4,7) a(4,5) le sup w by simp
qed

lemma logical_nbytes_span:
  assumes v: "storage_view base P bits v" and sup: "supported_spec (spec v)" and n: "logical_nbytes (spec v) = Inr n"
  shows "unat n = packed_bytes (host_bits (unat bits) v)" and "host_bits (unat bits) v < 2 ^ 64"
proof -
  note sv = storage_viewD [OF v]
  have "host_bits (unat bits) v = logical_elements (shape (spec v)) * leaf_width (spec v)"
    using host_bits_elements [OF sv(2)] leaf_width_Inr [OF sv(3)] by simp
  moreover have "packed_bytes m < 2 ^ 64" if "m + 7 < 2 ^ 64" for m
    using that packed_bytes_bounds(2) [of m] by linarith
  ultimately show "unat n = packed_bytes (host_bits (unat bits) v)" "host_bits (unat bits) v < 2 ^ 64"
    using n by (auto simp: logical_nbytes_cases [OF sup] unat_of_nat_fits split: if_splits)
qed

text \<open>Every packed bit belongs to an element.\<close>

lemma host_index_surj:
  assumes valid: "valid_shape (shape (spec v))"
    and j: "j < prod_list (lead_extents v) * (rows_of (shape (spec v)) * columns_of (shape (spec v)))"
  obtains cs r c where "cell v cs r c" and "host_index v cs r c = j"
proof -
  let ?R = "rows_of (shape (spec v))" and ?C = "columns_of (shape (spec v))"
  have pos: "0 < ?R * ?C" using rows_columns_pos [OF valid] by simp
  define p where "p = j div (?R * ?C)"
  define q where "q = j mod (?R * ?C)"
  have p: "p < prod_list (lead_extents v)" using j pos by (simp add: p_def less_mult_imp_div_less)
  have q: "q < ?R * ?C" using pos by (simp add: q_def)
  have C: "0 < ?C" using pos by simp
  have "q div ?C < ?R" using q by (simp add: less_mult_imp_div_less)
  moreover have "q mod ?C < ?C" using C by simp
  ultimately have "cell v (coords_of v p) (q div ?C) (q mod ?C)" using coords_of [OF valid p] by (simp add: cell_def)
  moreover have "host_index v (coords_of v p) (q div ?C) (q mod ?C) = j"
    using coords_of(2) [OF valid p] div_mult_mod_eq [of j "?R * ?C"] div_mult_mod_eq [of q ?C]
    by (simp only: host_index_def p_def q_def add.assoc)
  ultimately show thesis by (rule that)
qed

lemma host_pos_surj:
  assumes "valid_shape (shape (spec v))" and "b < host_bits w v"
  obtains cs r c k where "cell v cs r c" and "k < w" and "\<And>host. host_pos host w v cs r c + k = 8 * unat host + b"
proof -
  have w: "0 < w" using assms(2) by (cases w) (simp_all add: host_bits_def)
  have "b div w < prod_list (lead_extents v) * (rows_of (shape (spec v)) * columns_of (shape (spec v)))"
    using assms(2) by (simp add: host_bits_def less_mult_imp_div_less)
  then obtain cs r c where c: "cell v cs r c" "host_index v cs r c = b div w" using host_index_surj [OF assms(1)] by blast
  show thesis
    by (rule that [OF c(1), of "b mod w"]) (use w in \<open>simp_all add: host_pos_def c(2)\<close>)
qed

section \<open>Properties\<close>

lemma spans_bits_apart:
  assumes "span base m \<inter> span host n = {}" and "0 < unat m" and "0 < unat n"
    and "unat base + unat m < 2 ^ 64" and "unat host + unat n < 2 ^ 64" and "x \<le> 8 * unat m"
  shows "bits_apart base x host (8 * unat n)"
proof -
  have "unat base + unat m \<le> unat host \<or> unat host + unat n \<le> unat base"
  proof (rule ccontr)
    assume "\<not> ?thesis"
    then have "max (unat base) (unat host) \<in> span base m \<inter> span host n"
      using assms(2,3) by (auto simp: span_def max_def)
    with assms(1) show False by simp
  qed
  with assms(6) show ?thesis by (auto simp: bits_apart_def)
qed

lemma packed_byte_eqI:
  fixes x y :: byte
  assumes i: "i < packed_bytes B"
    and low: "\<And>k. k < 8 \<Longrightarrow> 8 * i + k < B \<Longrightarrow> bit x k = bit y k"
    and high: "\<And>k. k < 8 \<Longrightarrow> B \<le> 8 * i + k \<Longrightarrow> \<not> bit x k"
  shows "x = (if i < B div 8 then y else take_bit (B mod 8) y)"
proof (rule bit_eqI)
  fix k
  assume "possible_bit TYPE(byte) k"
  then have k: "k < 8" by simp
  obtain q r where B: "B = 8 * q + r" and r: "r < 8" using mult_div_mod_eq [of 8 B] mod_less_divisor [of 8 B] by (metis zero_less_numeral)
  then have qr: "B div 8 = q" "B mod 8 = r" by simp_all
  show "bit x k = bit (if i < B div 8 then y else take_bit (B mod 8) y) k"
  proof (cases "i < q")
    case True
    then have "8 * i + k < B" using k B by linarith
    with True k show ?thesis unfolding qr by (simp add: low)
  next
    case False
    have "8 * i < B" using i packed_bytes_bounds(2) [of B] by linarith
    with False B r have e: "i = q" by linarith
    have "8 * i + k < B \<longleftrightarrow> k < r" using B e by linarith
    with False k show ?thesis using low [of k] high [of k] unfolding qr by (auto simp: bit_take_bit_iff not_less)
  qed
qed

text \<open>A view of an owner and the host memory of its size: the spans decide that the bits are apart.\<close>

lemma derived_operand_host:
  assumes view: "derived_operand st device self v" and n: "logical_nbytes (spec v) = Inr n"
  obtains P bits stored where "storage_view (storage_handle (st self)) P bits v" and "leaf_width (spec v) = unat bits"
    and "tiled_storage_nbytes (spec (full_view (st self))) = Inr stored" and "unat n = packed_bytes (host_bits (unat bits) v)"
    and "\<And>h. unat h + unat n < 2 ^ 64 \<Longrightarrow> span (storage_handle (st self)) stored \<inter> span h n = {}
      \<Longrightarrow> bits_apart (storage_handle (st self)) (storage_bits P (unat bits) v) h (8 * unat n) \<and> host_span h (unat bits) v"
proof -
  obtain P stored bits where v: "storage_view (storage_handle (st self)) P bits v"
    and stored: "tiled_storage_nbytes (spec (full_view (st self))) = Inr stored" "storage_bits P (unat bits) v \<le> 8 * unat stored"
    and sup: "supported_spec (spec v)" and w: "leaf_width (spec v) = unat bits"
    and fits: "unat (storage_handle (st self)) + unat stored < 2 ^ 64"
    using derived_operand_storage [OF view] by metis
  note sv = storage_viewD [OF v] and host = logical_nbytes_span [OF v sup n]
  have "0 < plane_elements (shape (spec v))"
    using rows_columns_pos [OF sv(2)] padded_pos by (simp add: plane_elements_def)
  moreover have "0 < P" using sv(1) by (auto simp: view_ok_def)
  ultimately have m: "0 < unat stored" using stored(2) sv(4) by (cases "unat stored") (auto simp: storage_bits_def)
  have "0 < prod_list (lead_extents v)" using lead_extents_nonzero [OF sv(2)] by (simp add: prod_list_zero_iff flip: neq0_conv)
  then have "0 < host_bits (unat bits) v" using rows_columns_pos [OF sv(2)] sv(4) by (simp add: host_bits_def)
  then have k: "0 < unat n" unfolding host(1) using packed_bytes_bounds(1) [of "host_bits (unat bits) v"] by linarith
  have "bits_apart (storage_handle (st self)) (storage_bits P (unat bits) v) h (8 * unat n) \<and> host_span h (unat bits) v"
    if "unat h + unat n < 2 ^ 64" "span (storage_handle (st self)) stored \<inter> span h n = {}" for h
    using spans_bits_apart [OF that(2) m k fits that(1) stored(2)] host that(1) by (simp add: host_span_def)
  then show thesis using that [OF v w stored(1) host(1)] by blast
qed

lemma view_filled_from_host:
  assumes view: "derived_operand st device self v" and n: "logical_nbytes (spec v) = Inr n"
    and source: "unat source + unat n < 2 ^ 64" "storage_span st v \<inter> span source n = {}"
  shows "\<exists>mem'. region_from_host (storage_handle (st self)) v source mem = Inr mem'
    \<and> (\<forall>cs r c k. cell v cs r c \<and> k < leaf_width (spec v) \<longrightarrow>
         mem_bit mem' (element_pos (storage_handle (st self)) (leaf_width (spec v)) v cs r c + k) = mem_bit mem (host_pos source (leaf_width (spec v)) v cs r c + k))
    \<and> (\<forall>a. (\<forall>cs r c k. cell v cs r c \<and> k < leaf_width (spec v) \<longrightarrow> a \<noteq> element_pos (storage_handle (st self)) (leaf_width (spec v)) v cs r c + k)
         \<longrightarrow> mem_bit mem' a = mem_bit mem a)"
proof -
  obtain P bits stored where v: "storage_view (storage_handle (st self)) P bits v" and w: "leaf_width (spec v) = unat bits"
    and stored: "tiled_storage_nbytes (spec (full_view (st self))) = Inr stored"
    and host: "unat n = packed_bytes (host_bits (unat bits) v)"
      "\<And>h. unat h + unat n < 2 ^ 64 \<Longrightarrow> span (storage_handle (st self)) stored \<inter> span h n = {}
        \<Longrightarrow> bits_apart (storage_handle (st self)) (storage_bits P (unat bits) v) h (8 * unat n) \<and> host_span h (unat bits) v"
    using derived_operand_host [OF view n] by blast
  have "storage_span st v = span (storage_handle (st self)) stored"
    by (rule derived_operand_facts [OF view]) (use stored in simp)
  note sep = host(2) [OF source(1) source(2) [unfolded this]]
  have "host_bits (unat bits) v \<le> 8 * unat n" unfolding host(1) by (rule packed_bytes_bounds)
  then show ?thesis
    using region_from_host_moves [OF v host_span_fits bits_apart_shorter, of source "8 * unat n" mem] sep
    unfolding w by metis
qed

text \<open>
  C16. A round trip through a tensor of the CPU backend. Writing \<open>logical_nbytes\<close> bytes of host memory
  into any view derived from a constructed owner succeeds when the memory is apart from the owner's
  storage (and, for \<open>BOOL\<close>, holds zeros and ones). It stores element \<open>(cs, r, c)\<close> of the packed
  row-major input in the element's slot of the tiled layout and changes no other bit of memory, so neither
  padding nor the owner's other elements. Reading the view back into any memory apart from the storage
  gives the bytes that were written, with the padding bits of the last byte zero, and changes
  nothing outside of the destination.
\<close>

theorem host_transfer_roundtrip:
  assumes view: "derived_operand st device self v"
    and storage: "storage_handle (st self) = base" "tiled_storage_nbytes (spec (full_view (st self))) = Inr stored"
    and n: "logical_nbytes (spec v) = Inr n"
    and source: "unat source + unat n < 2 ^ 64" "span base stored \<inter> span source n = {}"
    and destination: "unat destination + unat n < 2 ^ 64" "span base stored \<inter> span destination n = {}"
    and bool: "data_type (spec v) = BOOL \<longrightarrow> set (span_bytes source n mem) \<subseteq> {0, 1}"
  shows "\<exists>mem' mem''. cpu_copy_from_host (st self) v source n mem = Inr mem'
    \<and> (\<forall>cs r c k. cell v cs r c \<and> k < leaf_width (spec v) \<longrightarrow>
         mem_bit mem' (element_pos base (leaf_width (spec v)) v cs r c + k) = mem_bit mem (host_pos source (leaf_width (spec v)) v cs r c + k))
    \<and> (\<forall>a. (\<forall>cs r c k. cell v cs r c \<and> k < leaf_width (spec v) \<longrightarrow> a \<noteq> element_pos base (leaf_width (spec v)) v cs r c + k) \<longrightarrow> mem_bit mem' a = mem_bit mem a)
    \<and> cpu_copy_to_host (st self) v destination n mem' = Inr mem''
    \<and> (\<forall>i < unat n. mem'' (unat destination + i)
         = (if i < logical_elements (shape (spec v)) * leaf_width (spec v) div 8 then mem (unat source + i) else take_bit (logical_elements (shape (spec v)) * leaf_width (spec v) mod 8) (mem (unat source + i))))
    \<and> (\<forall>a. a < unat destination \<or> unat destination + unat n \<le> a \<longrightarrow> mem'' a = mem' a)"
proof -
  define w where "w = leaf_width (spec v)"
  define B where "B = logical_elements (shape (spec v)) * leaf_width (spec v)"
  obtain P bits n' where v: "storage_view base P bits v" and w': "leaf_width (spec v) = unat bits"
    and n': "tiled_storage_nbytes (spec (full_view (st self))) = Inr n'" and size: "unat n = packed_bytes (host_bits (unat bits) v)"
    and sides: "\<And>h. unat h + unat n < 2 ^ 64 \<Longrightarrow> span base n' \<inter> span h n = {}
      \<Longrightarrow> bits_apart base (storage_bits P (unat bits) v) h (8 * unat n) \<and> host_span h (unat bits) v"
    using derived_operand_host [OF view n, unfolded storage(1)] by blast
  have "n' = stored" using n' storage(2) by simp
  note sides = sides [unfolded this] and w = w' [folded w_def]
  note sv = storage_viewD [OF v]
  have B: "B = host_bits w v" using host_bits_elements [OF sv(2)] by (simp add: B_def w_def)
  have nb: "unat n = packed_bytes B" using size by (simp add: B w)
  have apart: "storage_span st v = span base stored" by (rule derived_operand_facts [OF view]) (use storage in simp)
  obtain mem' where up: "region_from_host base v source mem = Inr mem'"
      "\<And>cs r c k. cell v cs r c \<Longrightarrow> k < w \<Longrightarrow>
         mem_bit mem' (element_pos base w v cs r c + k) = mem_bit mem (host_pos source w v cs r c + k)"
      "\<And>a. (\<And>cs r c k. cell v cs r c \<Longrightarrow> k < w \<Longrightarrow> a \<noteq> element_pos base w v cs r c + k) \<Longrightarrow> mem_bit mem' a = mem_bit mem a"
    using view_filled_from_host [OF view n source(1), unfolded apart, OF source(2), of mem]
    unfolding storage(1) w_def [symmetric] by blast
  obtain mem'' where down: "region_to_host base v destination n mem' = Inr mem''"
      "\<And>cs r c k. cell v cs r c \<Longrightarrow> k < w \<Longrightarrow>
         mem_bit mem'' (host_pos destination w v cs r c + k) = mem_bit mem' (element_pos base w v cs r c + k)"
      "\<And>a. 8 * unat destination + B \<le> a \<Longrightarrow> a < 8 * (unat destination + unat n) \<Longrightarrow> \<not> mem_bit mem'' a"
      "\<And>a. a < 8 * unat destination \<or> 8 * (unat destination + unat n) \<le> a \<Longrightarrow> mem_bit mem'' a = mem_bit mem' a"
    using region_to_host_moves [OF v, of destination n mem'] sides [OF destination] nb
    unfolding B w by (metis (no_types, lifting))
  have len: "length (span_bytes h n m) = unat n" for h m by (simp add: span_bytes_def)
  have ok: "\<not> (data_type (spec v) = BOOL \<and> list_ex (\<lambda>b. b \<noteq> 0 \<and> b \<noteq> 1) (span_bytes source n mem))"
    using bool by (auto simp: list_ex_iff)
  have run: "cpu_copy_from_host (st self) v source n mem = Inr mem'" "cpu_copy_to_host (st self) v destination n mem' = Inr mem''"
    using up(1) down(1) ok by (simp_all add: cpu_copy_from_host_def copy_from_host_def cpu_copy_to_host_def copy_to_host_def n len storage(1))
  have bits: "bit (m (unat h + i)) k = mem_bit m (8 * unat h + (8 * i + k))" if "k < 8" for m h i k
    using that by (simp add: mem_bit_def)
  have bytes: "mem'' (unat destination + i)
      = (if i < B div 8 then mem (unat source + i) else take_bit (B mod 8) (mem (unat source + i)))" if i: "i < unat n" for i
  proof (rule packed_byte_eqI)
    show "i < packed_bytes B" using i nb by simp
    fix k :: nat
    assume k: "k < 8"
    { assume "8 * i + k < B"
      then obtain cs r c j where c: "cell v cs r c" "j < w" "\<And>host. host_pos host w v cs r c + j = 8 * unat host + (8 * i + k)"
        using host_pos_surj [OF sv(2)] unfolding B by blast
      show "bit (mem'' (unat destination + i)) k = bit (mem (unat source + i)) k"
        unfolding bits [OF k] using down(2) [OF c(1,2)] up(2) [OF c(1,2)] by (simp only: c(3)) }
    { assume "B \<le> 8 * i + k"
      then show "\<not> bit (mem'' (unat destination + i)) k"
        unfolding bits [OF k] using i k by (intro down(3)) simp_all }
  qed
  have rest: "mem'' a = mem' a" if "a < unat destination \<or> unat destination + unat n \<le> a" for a
  proof (rule bit_eqI)
    fix k
    assume "possible_bit TYPE(byte) k"
    then have k: "k < 8" by simp
    then have "mem_bit mem'' (8 * a + k) = mem_bit mem' (8 * a + k)" using that by (intro down(4)) auto
    then show "bit (mem'' a) k = bit (mem' a) k" using k by (simp add: mem_bit_def)
  qed
  have elements: "\<forall>cs r c k. cell v cs r c \<and> k < w \<longrightarrow>
      mem_bit mem' (element_pos base w v cs r c + k) = mem_bit mem (host_pos source w v cs r c + k)"
    using up(2) by simp
  have others: "\<forall>a. (\<forall>cs r c k. cell v cs r c \<and> k < w \<longrightarrow> a \<noteq> element_pos base w v cs r c + k) \<longrightarrow> mem_bit mem' a = mem_bit mem a"
    using up(3) by simp
  have read: "\<forall>i < unat n. mem'' (unat destination + i)
      = (if i < B div 8 then mem (unat source + i) else take_bit (B mod 8) (mem (unat source + i)))"
    using bytes by blast
  have kept: "\<forall>a. a < unat destination \<or> unat destination + unat n \<le> a \<longrightarrow> mem'' a = mem' a" using rest by blast
  show ?thesis unfolding B_def [symmetric] unfolding w_def [symmetric]
    by (rule exI [of _ mem'], rule exI [of _ mem'']) (intro conjI run elements others read kept)
qed

definition packed_tensor :: Tensor where
  "packed_tensor = \<lparr>tensor_device = 1,
     full_view = \<lparr>owner_identity = Some 1, spec = \<lparr>shape = TensorShape [2, 3, 5], data_type = F6_E3M2, quantization = NONE\<rparr>,
       plane_offset = 0, plane_strides = [1]\<rparr>,
     storage_handle = 4096\<rparr>"

lemma packed_tensor_made: "make_tensor 1 (spec (full_view packed_tensor)) 1 4096 = Inr packed_tensor"
  by (simp add: packed_tensor_def make_tensor_def validated_dense_plane_strides_def validate_def
      dense_plane_strides_def leading_dimensions_of_def rank_def checked_mul_def)

lemma packed_tensor_bytes: "tiled_storage_nbytes (spec (full_view packed_tensor)) = Inr 384"
  "logical_nbytes (spec (full_view packed_tensor)) = Inr 23"
  by (simp_all add: packed_tensor_def tiled_storage_nbytes_cases logical_nbytes_cases supported_spec_def valid_shape_def
      tiled_elements_def logical_elements_def leaf_width_def leading_def extents_def rank_def rows_of_def columns_of_def
      padded_def packed_bytes_def)

lemma packed_tensor_operand: "derived_operand (\<lambda>_. packed_tensor) 1 1 (full_view packed_tensor)"
proof -
  have "valid_shape (shape (spec (full_view packed_tensor)))" by (simp add: packed_tensor_def valid_shape_def rank_def)
  then show ?thesis
    unfolding derived_operand_def using packed_tensor_made packed_tensor_bytes(1) derived_view.full [of packed_tensor]
    by (intro exI [of _ "spec (full_view packed_tensor)"] exI [of _ 4096] exI [of _ 384]) simp
qed

theorem host_transfer_roundtrip_witness:
  "\<exists>mem' mem''. cpu_copy_from_host packed_tensor (full_view packed_tensor) 8192 23 (\<lambda>_. 255) = Inr mem'
     \<and> cpu_copy_to_host packed_tensor (full_view packed_tensor) 16384 23 mem' = Inr mem''
     \<and> mem'' (16384 + 21) = 255 \<and> mem'' (16384 + 22) = 15"
proof -
  have e: "logical_elements (shape (spec (full_view packed_tensor))) * leaf_width (spec (full_view packed_tensor)) = 180"
    by (simp add: packed_tensor_def logical_elements_def extents_def leaf_width_def)
  have b: "data_type (spec (full_view packed_tensor)) = BOOL \<longrightarrow> set (span_bytes 8192 23 (\<lambda>_. 255)) \<subseteq> {0, 1}"
    by (simp add: packed_tensor_def)
  have h: "storage_handle packed_tensor = 4096" by (simp add: packed_tensor_def)
  have d: "span 4096 384 \<inter> span 8192 23 = {}" "span 4096 384 \<inter> span 16384 23 = {}" by (auto simp: span_def)
  have n: "unat (23 :: usize) = 23" "21 < (23 :: nat)" "22 < (23 :: nat)" by simp_all
  have "unat (8192 :: usize) + unat (23 :: usize) < 2 ^ 64" "unat (16384 :: usize) + unat (23 :: usize) < 2 ^ 64" by simp_all
  from host_transfer_roundtrip [where st = "\<lambda>_. packed_tensor", OF packed_tensor_operand h packed_tensor_bytes this(1) d(1) this(2) d(2) b]
  obtain mem' mem'' where r: "cpu_copy_from_host packed_tensor (full_view packed_tensor) 8192 23 (\<lambda>_. 255) = Inr mem'"
    "cpu_copy_to_host packed_tensor (full_view packed_tensor) 16384 23 mem' = Inr mem''"
    and bytes: "\<And>i. i < 23 \<Longrightarrow> mem'' (unat (16384 :: usize) + i) = (if i < 180 div 8 then 255 else take_bit (180 mod 8) 255)"
    unfolding e n(1) by blast
  have "mem'' (16384 + 21) = 255" "mem'' (16384 + 22) = 15"
    using bytes [OF n(2)] bytes [OF n(3)] by (simp_all add: take_bit_eq_mod)
  with r show ?thesis by blast
qed

end
