(* ===== verification/Cpu_Elements.thy ===== *)
theory Cpu_Elements
  imports Cpu_Transfers
begin

text \<open>
  What the element loops of the CPU queue share: the elements of a view as words, the operands of a
  request as views of owners with storage, and a loop that stores one value into every element of its
  output. The kernels of \<open>src/src/cpu/queue.cpp\<close> are in the theories that import this one.
\<close>

section \<open>Elements as words\<close>

text \<open>The bits of element \<open>(cs, r, c)\<close> of a view, as the number they spell.\<close>

definition element_at :: "usize \<Rightarrow> nat \<Rightarrow> TensorView \<Rightarrow> memory \<Rightarrow> nat list \<Rightarrow> nat \<Rightarrow> nat \<Rightarrow> 64 word" where
  "element_at base w v mem cs r c = horner_sum of_bool 2 (map (\<lambda>k. mem_bit mem (element_pos base w v cs r c + k)) [0..<w])"

lemma bit_element_at: "w \<le> 64 \<Longrightarrow> bit (element_at base w v mem cs r c) k \<longleftrightarrow> k < w \<and> mem_bit mem (element_pos base w v cs r c + k)"
  by (auto simp: element_at_def bit_horner_sum_bit_iff)

lemma element_at_eqI:
  assumes "w \<le> 64" and "\<And>k. k < w \<Longrightarrow> mem_bit mem (element_pos base w v cs r c + k) = mem_bit mem' (element_pos base' w v' cs' r' c' + k)"
  shows "element_at base w v mem cs r c = element_at base' w v' mem' cs' r' c'"
  by (rule bit_eqI) (use assms in \<open>auto simp: bit_element_at\<close>)

lemma cell_words:
  assumes "storage_view base P bits v" and "cell v cs r c"
  shows "unat (of_nat (view_plane v cs) :: usize) = view_plane v cs" and "unat (of_nat r :: usize) = r" and "unat (of_nat c :: usize) = c"
proof -
  note sv = storage_viewD [OF assms(1)]
  show "unat (of_nat (view_plane v cs) :: usize) = view_plane v cs"
    using plane_word [OF storage_view_planes [OF assms(1)]] view_plane_in_owner [OF sv(1)] assms(2) by (simp add: cell_def)
  have "rows_of (shape (spec v)) < 2 ^ 64" "columns_of (shape (spec v)) < 2 ^ 64"
    using shape_nth [OF sv(2)] unat_less by metis+
  then show "unat (of_nat r :: usize) = r" "unat (of_nat c :: usize) = c"
    using assms(2) by (auto simp: cell_def intro!: unat_of_nat_fits)
qed

lemma element_slot:
  assumes v: "storage_view base P bits v" and c: "cell v cs r c"
  obtains slot where "standard_plane_slot (spec v) (of_nat (view_plane v cs)) (of_nat r) (of_nat c) = Inr slot"
    and "bits_fit base (slot * bits) (unat bits)" and "bit_pos base (slot * bits) = element_pos base (unat bits) v cs r c"
    and "\<And>mem. load_bits mem base (slot * bits) bits = element_at base (unat bits) v mem cs r c"
proof -
  note sv = storage_viewD [OF v] and cw = cell_words [OF v c]
  have p: "view_plane v cs < P" using view_plane_in_owner [OF sv(1)] c by (simp add: cell_def)
  obtain slot where slot: "standard_plane_slot (spec v) (of_nat (view_plane v cs)) (of_nat r) (of_nat c) = Inr slot"
      "unat slot = plane_slot (shape (spec v)) (view_plane v cs) r c"
    using standard_plane_slot_ok [OF sv(2) _ _ _ sv(7), of "of_nat (view_plane v cs)" "of_nat r" "of_nat c"] cw p c by (auto simp: cell_def)
  have fits: "P * plane_elements (shape (spec v)) * unat bits < 2 ^ 64" "bits_fit base 0 (P * plane_elements (shape (spec v)) * unat bits)"
    using v by (simp_all add: storage_view_def)
  have "plane_slot (shape (spec v)) (view_plane v cs) r c * unat bits + (unat bits - 1) < P * plane_elements (shape (spec v)) * unat bits"
    using p c sv(4) by (intro slot_bits_less) (auto simp: cell_def)
  then have lt: "unat slot * unat bits + unat bits \<le> P * plane_elements (shape (spec v)) * unat bits"
    using slot(2) sv(4) by simp
  then have u: "unat (slot * bits) = unat slot * unat bits" using fits(1) by (intro unat_mult_small) linarith
  have pos: "bit_pos base (slot * bits) = element_pos base (unat bits) v cs r c"
    by (simp only: bit_pos_def u element_pos_def slot(2))
  have fit: "bits_fit base (slot * bits) (unat bits)"
    using lt fits unfolding bits_fit_def u bit_pos_def by simp
  have "load_bits mem base (slot * bits) bits = element_at base (unat bits) v mem cs r c" for mem
    by (rule bit_eqI) (simp add: load_bits_bit [OF fit sv(5)] bit_element_at [OF sv(5)] pos)
  then show thesis using that slot(1) fit pos by blast
qed

section \<open>Loops over elements\<close>

text \<open>
  A loop that writes one range of bits per step, each range at most once and from what no other step writes,
  gives every range the value computed from the memory before the loop.
\<close>

definition in_range_of :: "nat \<Rightarrow> nat \<Rightarrow> nat \<Rightarrow> bool" where
  "in_range_of d w a \<longleftrightarrow> d \<le> a \<and> a < d + w"

lemma for_each_stores:
  assumes "\<And>x m. x \<in> set xs \<Longrightarrow> \<exists>m'. f x m = Inr m' \<and> (\<forall>a. mem_bit m' a = (if in_range_of (D x) w a then V x m (a - D x) else mem_bit m a))"
    and "\<And>x y a. x \<in> set xs \<Longrightarrow> y \<in> set xs \<Longrightarrow> in_range_of (D x) w a \<Longrightarrow> in_range_of (D y) w a \<Longrightarrow> x = y"
    and "distinct xs"
    and "\<And>x m m'. x \<in> set xs \<Longrightarrow> (\<And>a. (\<And>y. y \<in> set xs \<Longrightarrow> y \<noteq> x \<Longrightarrow> \<not> in_range_of (D y) w a) \<Longrightarrow> mem_bit m' a = mem_bit m a)
           \<Longrightarrow> V x m' = V x m"
  shows "\<exists>mem'. for_each xs f mem = Inr mem' \<and> (\<forall>x \<in> set xs. \<forall>k < w. mem_bit mem' (D x + k) = V x mem k)
    \<and> (\<forall>a. (\<forall>x \<in> set xs. \<not> in_range_of (D x) w a) \<longrightarrow> mem_bit mem' a = mem_bit mem a)"
  using assms
proof (induction xs rule: rev_induct)
  case (snoc x xs)
  have "\<exists>mem1. for_each xs f mem = Inr mem1 \<and> (\<forall>x \<in> set xs. \<forall>k < w. mem_bit mem1 (D x + k) = V x mem k)
      \<and> (\<forall>a. (\<forall>x \<in> set xs. \<not> in_range_of (D x) w a) \<longrightarrow> mem_bit mem1 a = mem_bit mem a)"
  proof (rule snoc.IH)
    fix y m m'
    assume y: "y \<in> set xs" and agree: "\<And>a. (\<And>z. z \<in> set xs \<Longrightarrow> z \<noteq> y \<Longrightarrow> \<not> in_range_of (D z) w a) \<Longrightarrow> mem_bit m' a = mem_bit m a"
    show "V y m' = V y m"
    proof (rule snoc.prems(4))
      fix a
      assume "\<And>z. z \<in> set (xs @ [x]) \<Longrightarrow> z \<noteq> y \<Longrightarrow> \<not> in_range_of (D z) w a"
      then show "mem_bit m' a = mem_bit m a" by (intro agree) simp
    qed (use y in simp)
  qed (use snoc.prems in auto)
  then obtain mem1 where run: "for_each xs f mem = Inr mem1"
    and written: "\<And>y k. y \<in> set xs \<Longrightarrow> k < w \<Longrightarrow> mem_bit mem1 (D y + k) = V y mem k"
    and rest: "\<And>a. (\<And>y. y \<in> set xs \<Longrightarrow> \<not> in_range_of (D y) w a) \<Longrightarrow> mem_bit mem1 a = mem_bit mem a" by blast
  obtain mem' where step: "f x mem1 = Inr mem'" "\<And>a. mem_bit mem' a = (if in_range_of (D x) w a then V x mem1 (a - D x) else mem_bit mem1 a)"
    using snoc.prems(1) [of x mem1] by auto
  have val: "V x mem1 = V x mem"
  proof (rule snoc.prems(4))
    fix a
    assume no: "\<And>y. y \<in> set (xs @ [x]) \<Longrightarrow> y \<noteq> x \<Longrightarrow> \<not> in_range_of (D y) w a"
    show "mem_bit mem1 a = mem_bit mem a" by (rule rest) (use no snoc.prems(3) in auto)
  qed simp
  have "mem_bit mem' (D y + k) = V y mem k" if "y \<in> set (xs @ [x])" "k < w" for y k
  proof (cases "y = x")
    case True
    with that show ?thesis by (simp add: step(2) val in_range_of_def)
  next
    case False
    then have "\<not> in_range_of (D x) w (D y + k)" using snoc.prems(2) [of x y "D y + k"] that by (auto simp: in_range_of_def)
    with False that written show ?thesis by (simp add: step(2))
  qed
  moreover have "mem_bit mem' a = mem_bit mem a" if "\<forall>y \<in> set (xs @ [x]). \<not> in_range_of (D y) w a" for a
    using that rest by (simp add: step(2))
  moreover have "for_each (xs @ [x]) f mem = Inr mem'" by (simp add: for_each_append run step(1))
  ultimately show ?case by blast
qed simp

section \<open>Operands\<close>

text \<open>The elements of a view of an owner, each the first bit of its range.\<close>

abbreviation owner_address :: "store \<Rightarrow> tensor_ref \<Rightarrow> usize" where
  "owner_address st i \<equiv> storage_handle (st i)"

abbreviation element_bit :: "store \<Rightarrow> tensor_ref \<Rightarrow> TensorView \<Rightarrow> nat list \<Rightarrow> nat \<Rightarrow> nat \<Rightarrow> nat" where
  "element_bit st i v \<equiv> element_pos (owner_address st i) (leaf_width (spec v)) v"

abbreviation element_value :: "store \<Rightarrow> tensor_ref \<Rightarrow> TensorView \<Rightarrow> memory \<Rightarrow> nat list \<Rightarrow> nat \<Rightarrow> nat \<Rightarrow> 64 word" where
  "element_value st i v \<equiv> element_at (owner_address st i) (leaf_width (spec v)) v"

lemma derived_operand_view:
  assumes "derived_operand st device i v"
  obtains P bits where "storage_view (owner_address st i) P bits v" and "unat bits = leaf_width (spec v)"
    and "leaf_bits (data_type (spec v)) = Inr bits" and "owner_identity v = Some i" and "native_handle st v = Some (owner_address st i)"
    and "\<And>cs r c k. cell v cs r c \<Longrightarrow> k < leaf_width (spec v) \<Longrightarrow> (element_bit st i v cs r c + k) div 8 \<in> storage_span st v"
proof -
  obtain P n bits where v: "storage_view (owner_address st i) P bits v"
    and n: "tiled_storage_nbytes (spec (full_view (st i))) = Inr n" "storage_bits P (unat bits) v \<le> 8 * unat n"
    and w: "leaf_width (spec v) = unat bits"
    using derived_operand_storage [OF assms] by metis
  obtain s n' where f: "owner_identity v = Some i" "native_handle st v = Some (owner_address st i)"
      "storage_span st v = span (owner_address st i) n'" "spec (full_view (st i)) = s" "tiled_storage_nbytes s = Inr n'"
    by (rule derived_operand_facts [OF assms])
  have n': "n' = n" using f(4,5) n(1) by simp
  have "(element_bit st i v cs r c + k) div 8 \<in> storage_span st v" if "cell v cs r c" "k < leaf_width (spec v)" for cs r c k
  proof -
    have b: "8 * unat (owner_address st i) \<le> element_bit st i v cs r c + k"
      "element_bit st i v cs r c + k < 8 * (unat (owner_address st i) + unat n)"
      using element_pos_less [OF v that(1), of k] that(2) n(2) w by simp_all
    then show ?thesis unfolding f(3) n' span_def by (simp add: less_mult_imp_div_less mult.commute div_le_mono [of "8 * unat (owner_address st i)" _ 8, simplified])
  qed
  then show thesis using that [OF v w [symmetric] storage_viewD(3) [OF v] f(1,2)] by blast
qed

lemma operands_apart:
  assumes "derived_operand st device i v" and "derived_operand st device j v'" and "storage_span st v \<inter> storage_span st v' = {}"
    and "cell v cs r c" and "k < leaf_width (spec v)" and "cell v' cs' r' c'" and "k' < leaf_width (spec v')"
  shows "element_bit st i v cs r c + k \<noteq> element_bit st j v' cs' r' c' + k'"
proof
  assume e: "element_bit st i v cs r c + k = element_bit st j v' cs' r' c' + k'"
  have "(element_bit st i v cs r c + k) div 8 \<in> storage_span st v"
    by (rule derived_operand_view [OF assms(1)]) (use assms(4,5) in blast)
  moreover have "(element_bit st j v' cs' r' c' + k') div 8 \<in> storage_span st v'"
    by (rule derived_operand_view [OF assms(2)]) (use assms(6,7) in blast)
  ultimately show False using assms(3) e by auto
qed

text \<open>Different elements of one view.\<close>

lemma elements_apart:
  assumes "derived_operand st device i v" and "cell v cs r c" and "cell v cs' r' c'"
    and "k < leaf_width (spec v)" and "k' < leaf_width (spec v)"
    and "element_bit st i v cs r c + k = element_bit st i v cs' r' c' + k'"
  shows "cs = cs' \<and> r = r' \<and> c = c' \<and> k = k'"
  by (rule derived_operand_view [OF assms(1)], rule element_pos_inj [OF _ assms(2-6)]) (simp add: storage_view_def)

text \<open>Only elements of the view differ.\<close>

definition writes_only :: "store \<Rightarrow> tensor_ref \<Rightarrow> TensorView \<Rightarrow> memory \<Rightarrow> memory \<Rightarrow> bool" where
  "writes_only st i v mem mem' \<longleftrightarrow>
     (\<forall>a. (\<forall>cs r c k. cell v cs r c \<and> k < leaf_width (spec v) \<longrightarrow> a \<noteq> element_bit st i v cs r c + k)
        \<longrightarrow> mem_bit mem' a = mem_bit mem a)"

text \<open>All elements of a view, in the order of the walk.\<close>

definition elements_of :: "TensorView \<Rightarrow> (nat list \<times> nat \<times> nat) list" where
  "elements_of v = List.product (coords_list (lead_extents v))
     (List.product [0..<rows_of (shape (spec v))] [0..<columns_of (shape (spec v))])"

lemma set_elements_of: "set (elements_of v) = {(cs, r, c). cell v cs r c}"
  by (auto simp: elements_of_def set_coords_list cell_def leading_coords_def)

lemma distinct_coords_list: "distinct (coords_list ds)"
proof (induction ds)
  case (Cons d ds)
  have "concat (map (\<lambda>i. map ((#) i) xs) is) = map (\<lambda>(i, cs). i # cs) (List.product is xs)" for xs :: "nat list list" and "is"
    by (induction "is") simp_all
  moreover have "inj_on (\<lambda>(i :: nat, cs). i # cs) A" for A by (auto simp: inj_on_def)
  ultimately show ?case using Cons.IH by (simp add: distinct_map distinct_product)
qed simp

lemma distinct_elements_of: "distinct (elements_of v)"
  by (simp add: elements_of_def distinct_product distinct_coords_list)

lemma for_each_elements_of:
  "for_each (elements_of v) (\<lambda>(cs, r, c). f cs r c) s = for_each (coords_list (lead_extents v)) (\<lambda>cs.
     for_each [0..<rows_of (shape (spec v))] (\<lambda>r. for_each [0..<columns_of (shape (spec v))] (f cs r))) s"
proof -
  have p: "for_each (List.product xs ys) (\<lambda>(r, c). g r c) = for_each xs (\<lambda>x. for_each ys (g x))"
    for xs :: "nat list" and ys :: "nat list" and g :: "nat \<Rightarrow> nat \<Rightarrow> 'a \<Rightarrow> 'a throws"
    by (rule ext) (simp add: for_each_product)
  show ?thesis unfolding elements_of_def for_each_product by (simp add: p)
qed

lemma in_range_element:
  assumes out: "derived_operand st device j out" and c: "cell out cs r c" "cell out cs' r' c'"
    and a: "in_range_of (element_bit st j out cs r c) (leaf_width (spec out)) a" "in_range_of (element_bit st j out cs' r' c') (leaf_width (spec out)) a"
  shows "(cs, r, c) = (cs', r', c')"
proof -
  obtain k where k: "a = element_bit st j out cs r c + k" using a(1) le_Suc_ex unfolding in_range_of_def by blast
  obtain k' where k': "a = element_bit st j out cs' r' c' + k'" using a(2) le_Suc_ex unfolding in_range_of_def by blast
  have "k < leaf_width (spec out)" "k' < leaf_width (spec out)" using a k k' unfolding in_range_of_def by linarith+
  from elements_apart [OF out c this] k k' show ?thesis by simp
qed

text \<open>
  A loop over the elements of an output that stores into each a value of its own that depends on nothing
  another step writes.
\<close>

lemma element_loop:
  assumes out: "derived_operand st device j out"
    and step: "\<And>cs r c m. cell out cs r c \<Longrightarrow> \<exists>m'. f (cs, r, c) m = Inr m'
      \<and> (\<forall>a. mem_bit m' a = (if in_range_of (element_bit st j out cs r c) (leaf_width (spec out)) a
            then bit (V cs r c m) (a - element_bit st j out cs r c) else mem_bit m a))"
    and reads: "\<And>cs r c m m'. cell out cs r c \<Longrightarrow> (\<And>a. (\<And>cs' r' c'. cell out cs' r' c' \<Longrightarrow> (cs', r', c') \<noteq> (cs, r, c) \<Longrightarrow>
        \<not> in_range_of (element_bit st j out cs' r' c') (leaf_width (spec out)) a) \<Longrightarrow> mem_bit m' a = mem_bit m a)
        \<Longrightarrow> V cs r c m' = (V cs r c m :: 64 word)"
  shows "\<exists>mem'. for_each (elements_of out) f mem = Inr mem'
    \<and> (\<forall>cs r c. cell out cs r c \<longrightarrow> element_value st j out mem' cs r c = take_bit (leaf_width (spec out)) (V cs r c mem))
    \<and> writes_only st j out mem mem'"
proof -
  let ?w = "leaf_width (spec out)"
  let ?D = "\<lambda>(cs, r, c). element_bit st j out cs r c" and ?V = "\<lambda>(cs, r, c) m k. bit (V cs r c m) k"
  have w64: "?w \<le> 64"
    by (rule derived_operand_view [OF out]) (metis storage_viewD(5))
  have st: "\<exists>m'. f x m = Inr m' \<and> (\<forall>a. mem_bit m' a = (if in_range_of (?D x) ?w a then ?V x m (a - ?D x) else mem_bit m a))"
    if "x \<in> set (elements_of out)" for x m
  proof -
    obtain cs r c where xe: "x = (cs, r, c)" by (metis prod.exhaust)
    show ?thesis unfolding xe prod.case using that by (intro step) (simp add: xe set_elements_of)
  qed
  have dis: "x = y" if "x \<in> set (elements_of out)" "y \<in> set (elements_of out)" "in_range_of (?D x) ?w a" "in_range_of (?D y) ?w a" for x y a
  proof -
    obtain cs r c where xe: "x = (cs, r, c)" by (metis prod.exhaust)
    obtain cs' r' c' where ye: "y = (cs', r', c')" by (metis prod.exhaust)
    show ?thesis using that unfolding xe ye prod.case set_elements_of mem_Collect_eq by (rule in_range_element [OF out])
  qed
  have rd: "?V x m' = ?V x m" if x: "x \<in> set (elements_of out)"
    and ag: "\<And>a. (\<And>y. y \<in> set (elements_of out) \<Longrightarrow> y \<noteq> x \<Longrightarrow> \<not> in_range_of (?D y) ?w a) \<Longrightarrow> mem_bit m' a = mem_bit m a" for x m m'
  proof -
    obtain cs r c where xe: "x = (cs, r, c)" by (metis prod.exhaust)
    have "V cs r c m' = V cs r c m"
    proof (rule reads)
      show "cell out cs r c" using x by (simp add: xe set_elements_of)
      fix a
      assume no: "\<And>cs' r' c'. cell out cs' r' c' \<Longrightarrow> (cs', r', c') \<noteq> (cs, r, c) \<Longrightarrow> \<not> in_range_of (element_bit st j out cs' r' c') ?w a"
      show "mem_bit m' a = mem_bit m a" by (rule ag) (use no in \<open>auto simp: set_elements_of xe\<close>)
    qed
    then show ?thesis by (simp add: xe)
  qed
  obtain mem' where run: "for_each (elements_of out) f mem = Inr mem'"
    and written: "\<And>x k. x \<in> set (elements_of out) \<Longrightarrow> k < ?w \<Longrightarrow> mem_bit mem' (?D x + k) = ?V x mem k"
    and rest: "\<And>a. (\<And>x. x \<in> set (elements_of out) \<Longrightarrow> \<not> in_range_of (?D x) ?w a) \<Longrightarrow> mem_bit mem' a = mem_bit mem a"
  proof -
    have "\<exists>mem'. for_each (elements_of out) f mem = Inr mem' \<and> (\<forall>x \<in> set (elements_of out). \<forall>k < ?w. mem_bit mem' (?D x + k) = ?V x mem k)
        \<and> (\<forall>a. (\<forall>x \<in> set (elements_of out). \<not> in_range_of (?D x) ?w a) \<longrightarrow> mem_bit mem' a = mem_bit mem a)"
      by (rule for_each_stores; fact st dis distinct_elements_of rd)
    then show thesis using that by blast
  qed
  have "element_value st j out mem' cs r c = take_bit ?w (V cs r c mem)" if "cell out cs r c" for cs r c
    by (rule bit_eqI) (use written [of "(cs, r, c)"] that in \<open>auto simp: bit_element_at [OF w64] bit_take_bit_iff set_elements_of\<close>)
  moreover have "writes_only st j out mem mem'"
    unfolding writes_only_def
  proof (intro allI impI, rule rest)
    fix a x
    assume no: "\<forall>cs r c k. cell out cs r c \<and> k < ?w \<longrightarrow> a \<noteq> element_bit st j out cs r c + k" and x: "x \<in> set (elements_of out)"
    obtain cs r c where xe: "x = (cs, r, c)" by (metis prod.exhaust)
    have cell: "cell out cs r c" using x by (simp add: xe set_elements_of)
    show "\<not> in_range_of (?D x) ?w a"
    proof
      assume "in_range_of (?D x) ?w a"
      then obtain k where "a = element_bit st j out cs r c + k" "k < ?w"
        unfolding xe prod.case in_range_of_def by (metis add_less_cancel_left le_Suc_ex)
      with no cell show False by blast
    qed
  qed
  ultimately show ?thesis using run by blast
qed

end
