(* ===== verification/Cpu_Copy.thy ===== *)
theory Cpu_Copy
  imports Cpu_Elements
begin

text \<open>
  Copy and cache append of the CPU queue, \<open>src/src/cpu/queue.cpp\<close>. A task runs on the queue's worker after
  admission has accepted the request; it reads and writes the owners' storage. The properties
  combine admission and task.
\<close>

section \<open>Copy\<close>

definition copy_elements :: "CopyViewSnapshot \<Rightarrow> CopyViewSnapshot \<Rightarrow> memory \<Rightarrow> memory throws" where
  "copy_elements source destination mem =
     (let source_base = the (cs_handle source); destination_base = the (cs_handle destination) in
      andThen (leaf_bits (data_type (cs_spec source))) (\<lambda>bits.
      for_each_tile_lockstep (cs_spec source) (cs_plane_offset source) (cs_plane_strides source)
        (cs_spec destination) (cs_plane_offset destination) (cs_plane_strides destination)
        (\<lambda>_ _ source_byte destination_byte elements.
          copy_tile_row destination_base (destination_byte * 8) source_base (source_byte * 8) elements bits
            (shift_table bits) (mask_table bits)) mem))"

text \<open>The task of an accepted copy.\<close>

definition copy_task :: "store \<Rightarrow> TensorView \<Rightarrow> TensorView \<Rightarrow> memory \<Rightarrow> memory throws" where
  "copy_task st source destination mem =
     (if \<not> identical_window st source destination
      then copy_elements (snapshot_copy_view st source) (snapshot_copy_view st destination) mem
      else Inr mem)"

section \<open>Cache append\<close>

text \<open>The spans of a snapshot's fixed arrays that hold values.\<close>

definition shape_dimensions :: "CacheAppendViewSnapshot \<Rightarrow> usize list" where
  "shape_dimensions snap = take (cas_rank snap) (cas_dimensions snap)"

definition leading_plane_strides :: "CacheAppendViewSnapshot \<Rightarrow> usize list" where
  "leading_plane_strides snap = take (cas_rank snap - 2) (cas_plane_strides snap)"

definition cache_append_elements :: "CacheAppendRequest \<Rightarrow> memory \<Rightarrow> memory throws" where
  "cache_append_elements request mem =
     (let source = ca_source request; destination = ca_destination request;
          source_dimensions = shape_dimensions source; destination_dimensions = shape_dimensions destination;
          leading_rank = length source_dimensions - 2;
          rows = source_dimensions ! leading_rank; features = source_dimensions ! (leading_rank + 1);
          source_base = the (cas_handle source); destination_base = the (cas_handle destination) in
      visit_plane_pairs
        (zip (take leading_rank source_dimensions)
          (zip (leading_plane_strides source) (leading_plane_strides destination)))
        (\<lambda>source_plane destination_plane.
          for_each [0..<unat rows] (\<lambda>row.
            copy_row_span destination_base destination_dimensions destination_plane (ca_a request + of_nat row)
              source_base source_dimensions source_plane (of_nat row) (cas_data_type source) features))
        (cas_plane_offset source) (cas_plane_offset destination) mem)"

section \<open>Copying\<close>

lemma cell_same: "spec v' = spec v \<Longrightarrow> cell v' = cell v"
  by (auto simp: cell_def leading_coords_def lead_extents_def fun_eq_iff)

lemma apart_if: "(\<And>i i'. i < n \<Longrightarrow> i' < n \<Longrightarrow> d + i \<noteq> s + i') \<Longrightarrow> apart d s n"
proof (rule ccontr)
  assume ne: "\<And>i i'. i < n \<Longrightarrow> i' < n \<Longrightarrow> d + i \<noteq> s + i'" and "\<not> apart d s n"
  then have lt: "d < s + n" "s < d + n" by (auto simp: apart_def)
  show False
  proof (cases "d \<le> s")
    case True
    then obtain e where "s = d + e" using le_Suc_ex by blast
    then show False using ne [of e 0] lt(2) by simp
  next
    case False
    then obtain e where "d = s + e" using le_Suc_ex nat_le_linear by metis
    then show False using ne [of 0 e] lt(1) by simp
  qed
qed

text \<open>The lockstep walk as a sequence of moves, one for every tile row.\<close>

lemma lockstep_runs:
  assumes v: "storage_view base P bits v" and v': "storage_view base' P' bits v'" and same: "spec v' = spec v"
    and apart: "\<And>cs r t. leading_coords v cs \<Longrightarrow> r < rows_of (shape (spec v)) \<Longrightarrow> t < tile_columns (shape (spec v)) \<Longrightarrow>
      apart (element_pos base' (unat bits) v' cs r (16 * t)) (element_pos base (unat bits) v cs r (16 * t))
        (min 16 (columns_of (shape (spec v)) - 16 * t) * unat bits)"
  shows "\<exists>mem'. for_each_tile_lockstep (spec v) (plane_offset v) (plane_strides v) (spec v') (plane_offset v') (plane_strides v')
      (\<lambda>_ _ source_byte destination_byte elements. copy_tile_row base' (destination_byte * 8) base (source_byte * 8) elements bits
        (shift_table bits) (mask_table bits)) mem = Inr mem'
    \<and> runs (map (\<lambda>(cs, r, t). (element_pos base' (unat bits) v' cs r (16 * t), element_pos base (unat bits) v cs r (16 * t),
        min 16 (columns_of (shape (spec v)) - 16 * t) * unat bits)) (calls v)) mem mem'"
proof -
  let ?w = "unat bits" and ?s = "shape (spec v)"
  note sv = storage_viewD [OF v]
  have lead: "lead_extents v' = lead_extents v" "leading_coords v' = leading_coords v"
    by (simp_all add: lead_extents_def leading_coords_def same fun_eq_iff)
  let ?D = "\<lambda>(cs, r, t). element_pos base' ?w v' cs r (16 * t)" and ?S = "\<lambda>(cs, r, t). element_pos base ?w v cs r (16 * t)"
    and ?N = "\<lambda>(cs :: nat list, r :: nat, t). min 16 (columns_of ?s - 16 * t) * ?w"
  let ?h = "\<lambda>(cs, r, t). (element_pos base' ?w v' cs r (16 * t), element_pos base ?w v cs r (16 * t), min 16 (columns_of ?s - 16 * t) * ?w)"
  let ?f = "\<lambda>(cs, r, t). copy_tile_row base' (of_nat (tile_byte ?s ?w (view_plane v' cs) r t) * 8) base
      (of_nat (tile_byte ?s ?w (view_plane v cs) r t) * 8) (of_nat (min 16 (columns_of ?s - 16 * t))) bits (shift_table bits) (mask_table bits)"
  have step: "\<exists>m'. ?f x m = Inr m' \<and> bits_moved (?D x) (?S x) (?N x) m m'" if x: "x \<in> set (calls v)" for x m
  proof -
    obtain cs r t where xe: "x = (cs, r, t)" by (metis prod.exhaust)
    have c: "leading_coords v cs" "r < rows_of ?s" "t < tile_columns ?s" using x by (simp_all add: set_calls xe)
    let ?n = "min 16 (columns_of ?s - 16 * t)"
    have e: "unat (of_nat ?n :: usize) = ?n" by (simp add: unat_of_nat_fits)
    note d = tile_row_storage [OF v c refl] and d' = tile_row_storage [OF v', unfolded lead same, OF c refl]
    show ?thesis
      unfolding xe prod.case
      using copy_tile_row_moves [OF sv(3), of "of_nat ?n" base' _ base, unfolded e, OF _ d'(2) d(2)] apart [OF c] d(1,3) d'(1,3) by simp
  qed
  obtain mem' where run: "for_each (calls v) ?f mem = Inr mem'" "runs (map (\<lambda>x. (?D x, ?S x, ?N x)) (calls v)) mem mem'"
    using for_each_runs [of "calls v" ?f ?D ?S ?N mem, OF step] by blast
  have p: "for_each (List.product xs ys) f = for_each xs (\<lambda>x. for_each ys (\<lambda>y. f (x, y)))"
    for xs :: "nat list" and ys :: "nat list" and f :: "nat \<times> nat \<Rightarrow> memory \<Rightarrow> memory throws"
    by (rule ext) (rule for_each_product)
  have "for_each_tile_lockstep (spec v) (plane_offset v) (plane_strides v) (spec v') (plane_offset v') (plane_strides v')
      (\<lambda>_ _ source_byte destination_byte elements. copy_tile_row base' (destination_byte * 8) base (source_byte * 8) elements bits
        (shift_table bits) (mask_table bits)) mem = for_each (calls v) ?f mem"
    unfolding for_each_tile_lockstep_list [OF v v' same] calls_def for_each_product by (simp add: p)
  moreover have "map (\<lambda>x. (?D x, ?S x, ?N x)) (calls v) = map ?h (calls v)" by (rule map_cong) auto
  ultimately show ?thesis using run by (intro exI [of _ mem'] conjI) (simp, simp only:)
qed

text \<open>The lockstep walk moves elements when none is read where one is written.\<close>

lemma lockstep_moves:
  assumes v: "storage_view base P bits v" and v': "storage_view base' P' bits v'" and same: "spec v' = spec v"
    and apart: "\<And>cs r c k cs' r' c' k'. cell v cs r c \<Longrightarrow> cell v cs' r' c' \<Longrightarrow> k < unat bits \<Longrightarrow> k' < unat bits \<Longrightarrow>
      element_pos base (unat bits) v cs r c + k \<noteq> element_pos base' (unat bits) v' cs' r' c' + k'"
  obtains mem' where "for_each_tile_lockstep (spec v) (plane_offset v) (plane_strides v) (spec v') (plane_offset v') (plane_strides v')
      (\<lambda>_ _ source_byte destination_byte elements. copy_tile_row base' (destination_byte * 8) base (source_byte * 8) elements bits
        (shift_table bits) (mask_table bits)) mem = Inr mem'"
    and "\<And>cs r c k. cell v cs r c \<Longrightarrow> k < unat bits \<Longrightarrow>
      mem_bit mem' (element_pos base' (unat bits) v' cs r c + k) = mem_bit mem (element_pos base (unat bits) v cs r c + k)"
    and "\<And>a. \<forall>cs r c k. cell v cs r c \<and> k < unat bits \<longrightarrow> a \<noteq> element_pos base' (unat bits) v' cs r c + k \<Longrightarrow> mem_bit mem' a = mem_bit mem a"
proof -
  let ?w = "unat bits" and ?s = "shape (spec v)"
  have w: "0 < ?w" using storage_viewD(4) [OF v] by simp
  have tile: "apart (element_pos base' ?w v' cs r (16 * t)) (element_pos base ?w v cs r (16 * t)) (min 16 (columns_of ?s - 16 * t) * ?w)"
    if c: "leading_coords v cs" "r < rows_of ?s" "t < tile_columns ?s" for cs r t
  proof -
    have pos: "\<exists>c' k. cell v cs r c' \<and> k < ?w \<and> element_pos base ?w v cs r (16 * t) + i = element_pos base ?w v cs r c' + k
        \<and> element_pos base' ?w v' cs r (16 * t) + i = element_pos base' ?w v' cs r c' + k"
      if i: "i < min 16 (columns_of ?s - 16 * t) * ?w" for i
    proof -
      obtain j k where jk: "i = j * ?w + k" "j < 16" "16 * t + j < columns_of ?s" "k < ?w" using run_element [OF i w] by metis
      then show ?thesis using c(1,2) by (intro exI [of _ "16 * t + j"] exI [of _ k]) (simp add: cell_def element_pos_run)
    qed
    show ?thesis by (rule apart_if) (metis pos apart)
  qed
  obtain mem' where eq: "for_each_tile_lockstep (spec v) (plane_offset v) (plane_strides v) (spec v') (plane_offset v') (plane_strides v')
      (\<lambda>_ _ source_byte destination_byte elements. copy_tile_row base' (destination_byte * 8) base (source_byte * 8) elements bits
        (shift_table bits) (mask_table bits)) mem = Inr mem'"
    and run: "runs (map (\<lambda>(cs, r, t). (element_pos base' ?w v' cs r (16 * t), element_pos base ?w v cs r (16 * t),
        min 16 (columns_of ?s - 16 * t) * ?w)) (calls v)) mem mem'"
    using lockstep_runs [OF v v' same tile, of mem] by blast
  have ms: "set (map (\<lambda>(cs, r, t). (element_pos base' ?w v' cs r (16 * t), element_pos base ?w v cs r (16 * t),
        min 16 (columns_of ?s - 16 * t) * ?w)) (calls v)) = {(element_pos base' ?w v' cs r (16 * t), element_pos base ?w v cs r (16 * t),
      min 16 (columns_of ?s - 16 * t) * ?w) | cs r t. leading_coords v cs \<and> r < rows_of ?s \<and> t < tile_columns ?s}"
    unfolding set_map set_calls by (auto simp only: image_iff mem_Collect_eq) (auto simp: image_iff)
  have cons: "element_pos base ?w v cs r c + k = element_pos base ?w v cs2 r2 c2 + k2"
    if "cell v cs r c" "cell v cs2 r2 c2" "k < ?w" "k2 < ?w" "element_pos base' ?w v' cs r c + k = element_pos base' ?w v' cs2 r2 c2 + k2"
    for cs r c k cs2 r2 c2 k2
  proof -
    have "inj_on (view_plane v') {cs. leading_coords v' cs}" using v' by (simp add: storage_view_def)
    from element_pos_inj [OF this _ _ that(3-5)] show ?thesis using that(1,2) cell_same [OF same] by simp
  qed
  have adj: "element_pos base' ?w v' cs r (16 * t + j) = element_pos base' ?w v' cs r (16 * t) + j * ?w
      \<and> element_pos base ?w v cs r (16 * t + j) = element_pos base ?w v cs r (16 * t) + j * ?w" if "j < 16" for cs r t j
    using element_pos_run [OF that] by blast
  note res = tile_moves [where D = "element_pos base' ?w v'" and S = "element_pos base ?w v", OF run ms adj cons apart w]
  show thesis
    by (rule that [OF eq]) (rule res; assumption)+
qed

text \<open>Elements of a view that are apart from those of another view.\<close>

definition views_apart :: "store \<Rightarrow> tensor_ref \<Rightarrow> TensorView \<Rightarrow> tensor_ref \<Rightarrow> TensorView \<Rightarrow> bool" where
  "views_apart st i v j v' \<longleftrightarrow>
     (if i = j then \<forall>cs cs'. leading_coords v cs \<and> leading_coords v' cs' \<longrightarrow> view_plane v cs \<noteq> view_plane v' cs'
      else storage_span st v \<inter> storage_span st v' = {})"

lemma views_apart_elements:
  assumes v: "derived_operand st device i v" and v': "derived_operand st device j v'" and same: "spec v' = spec v"
    and apart: "views_apart st i v j v'" and c: "cell v cs r c" "k < leaf_width (spec v)" and c': "cell v' cs' r' c'" "k' < leaf_width (spec v)"
  shows "element_bit st i v cs r c + k \<noteq> element_bit st j v' cs' r' c' + k'"
proof (cases "i = j")
  case False
  then show ?thesis using operands_apart [OF v v' _ c c'(1)] apart c'(2) by (simp add: views_apart_def same)
next
  case True
  show ?thesis
  proof
    assume "element_bit st i v cs r c + k = element_bit st j v' cs' r' c' + k'"
    then have e: "plane_slot (shape (spec v)) (view_plane v cs) r c * leaf_width (spec v) + k
        = plane_slot (shape (spec v)) (view_plane v' cs') r' c' * leaf_width (spec v) + k'"
      using True by (simp add: element_pos_def same)
    have "view_plane v cs = view_plane v' cs'"
      using plane_slot_inj [OF _ _ _ _ mixed_radix_inj [OF c(2) c'(2) e, THEN conjunct1]] c c' by (simp add: cell_def same)
    with apart c(1) c'(1) True show False by (auto simp: views_apart_def cell_def)
  qed
qed

text \<open>
  C17. An accepted copy moves every element of the source to the matching element of the
  destination, in place or between windows whose elements are apart, and changes no other bit of
  memory. The two windows may have any offsets and strides; the fast paths for whole bytes and whole words
  and the shared index computation of identical layouts are those of the code.
\<close>

theorem copy_moves_elements:
  assumes "validate_copy st device source destination = Inr ()"
    and "derived_operand st device i source" and "derived_operand st device j destination"
    and "identical_window st source destination \<or> views_apart st i source j destination"
  shows "\<exists>mem'. copy_task st source destination mem = Inr mem'
    \<and> (\<forall>cs r c. cell destination cs r c \<longrightarrow>
         element_value st j destination mem' cs r c = element_value st i source mem cs r c)
    \<and> writes_only st j destination mem mem'"
proof -
  have same: "spec destination = spec source" using assms(1) by (auto simp: validate_copy_def exn_simps split: if_splits)
  obtain P bits where v: "storage_view (owner_address st i) P bits source" and w: "unat bits = leaf_width (spec source)"
    and leaf: "leaf_bits (data_type (spec source)) = Inr bits" and h: "native_handle st source = Some (owner_address st i)"
    by (rule derived_operand_view [OF assms(2)])
  obtain P' bits' where v': "storage_view (owner_address st j) P' bits' destination"
    and leaf': "leaf_bits (data_type (spec destination)) = Inr bits'" and h': "native_handle st destination = Some (owner_address st j)"
    by (rule derived_operand_view [OF assms(3)])
  have b: "bits' = bits" using leaf leaf' same by simp
  have w64: "leaf_width (spec source) \<le> 64" using storage_viewD(5) [OF v] w by simp
  show ?thesis
  proof (cases "identical_window st source destination")
    case True
    then have "owner_address st j = owner_address st i" "plane_offset destination = plane_offset source"
      "plane_strides destination = plane_strides source" using h h' by (simp_all add: identical_window_def)
    then have "element_value st j destination mem cs r c = element_value st i source mem cs r c" for cs r c
      by (simp add: element_at_def element_pos_def view_plane_def lead_strides_def same)
    with True show ?thesis by (simp add: copy_task_def writes_only_def)
  next
    case False
    then have ap: "views_apart st i source j destination" using assms(4) by blast
    have apart: "element_pos (owner_address st i) (unat bits) source cs r c + k
        \<noteq> element_pos (owner_address st j) (unat bits) destination cs' r' c' + k'"
      if "cell source cs r c" "cell source cs' r' c'" "k < unat bits" "k' < unat bits" for cs r c k cs' r' c' k'
      using views_apart_elements [OF assms(2,3) same ap, of cs r c k cs' r' c' k'] that
      unfolding same w by (simp add: cell_same [OF same])
    obtain mem' where run: "for_each_tile_lockstep (spec source) (plane_offset source) (plane_strides source)
        (spec destination) (plane_offset destination) (plane_strides destination)
        (\<lambda>_ _ source_byte destination_byte elements. copy_tile_row (owner_address st j) (destination_byte * 8)
          (owner_address st i) (source_byte * 8) elements bits (shift_table bits) (mask_table bits)) mem = Inr mem'"
      and moved: "\<And>cs r c k. cell source cs r c \<Longrightarrow> k < unat bits \<Longrightarrow>
        mem_bit mem' (element_pos (owner_address st j) (unat bits) destination cs r c + k)
          = mem_bit mem (element_pos (owner_address st i) (unat bits) source cs r c + k)"
      and rest: "\<And>a. \<forall>cs r c k. cell source cs r c \<and> k < unat bits \<longrightarrow> a \<noteq> element_pos (owner_address st j) (unat bits) destination cs r c + k \<Longrightarrow>
        mem_bit mem' a = mem_bit mem a"
      by (rule lockstep_moves [OF v v' [unfolded b] same, where mem = mem]) (use apart in blast)+
    have "copy_task st source destination mem = Inr mem'"
      using False run by (simp add: copy_task_def copy_elements_def snapshot_copy_view_def h h' leaf)
    moreover have "element_value st j destination mem' cs r c = element_value st i source mem cs r c" if "cell destination cs r c" for cs r c
      unfolding same by (rule element_at_eqI [OF w64]) (use moved that in \<open>simp add: cell_same [OF same] w [symmetric]\<close>)
    moreover have "writes_only st j destination mem mem'"
      unfolding writes_only_def same using rest by (simp add: cell_same [OF same] w [symmetric])
    ultimately show ?thesis by blast
  qed
qed

definition window_owner :: Tensor where
  "window_owner = \<lparr>tensor_device = 1,
     full_view = \<lparr>owner_identity = Some 1, spec = \<lparr>shape = TensorShape [4, 1, 1], data_type = U8, quantization = NONE\<rparr>,
       plane_offset = 0, plane_strides = [1]\<rparr>,
     storage_handle = 4096\<rparr>"

definition plane_window :: "usize \<Rightarrow> TensorView" where
  "plane_window first = \<lparr>owner_identity = Some 1, spec = \<lparr>shape = TensorShape [2, 1, 1], data_type = U8, quantization = NONE\<rparr>,
     plane_offset = first, plane_strides = [1]\<rparr>"

lemma plane_window_operand:
  assumes "first = 0 \<or> first = 1 \<or> first = 2"
  shows "derived_operand (\<lambda>_. window_owner) 1 1 (plane_window first)"
proof -
  have made: "make_tensor 1 (spec (full_view window_owner)) 1 4096 = Inr window_owner"
    by (simp add: window_owner_def make_tensor_def validated_dense_plane_strides_def validate_def
        dense_plane_strides_def leading_dimensions_of_def rank_def checked_mul_cases)
  have bytes: "tiled_storage_nbytes (spec (full_view window_owner)) = Inr 1024"
    by (simp add: window_owner_def tiled_storage_nbytes_cases supported_spec_def valid_shape_def
      tiled_elements_def leaf_width_def leading_def extents_def rank_def rows_of_def columns_of_def padded_def packed_bytes_def)
  have "slice (full_view window_owner) 0 first 2 1 = Inr (plane_window first)"
    using assms by (elim disjE; simp add: slice_def window_owner_def plane_window_def rank_def checked_mul_cases
      checked_add_cases dimension_def with_leading_dimensions_def make_shape_def leading_dimensions_of_def word_le_nat_alt)
  then have "derived_view window_owner (plane_window first)" by (rule derived_view.sliced [OF derived_view.full])
  moreover have "valid_shape (shape (spec (full_view window_owner)))" by (simp add: window_owner_def valid_shape_def rank_def)
  ultimately show ?thesis
    unfolding derived_operand_def using made bytes
    by (intro exI [of _ "spec (full_view window_owner)"] exI [of _ 4096] exI [of _ 1024]) simp
qed

lemma plane_window_facts:
  "spec (plane_window a) = spec (plane_window b)" "leaf_width (spec (plane_window a)) = 8"
  "lead_extents (plane_window a) = [2]" "rows_of (shape (spec (plane_window a))) = 1" "columns_of (shape (spec (plane_window a))) = 1"
  "tile_columns (shape (spec (plane_window a))) = 1" "tile_rows (shape (spec (plane_window a))) = 1"
  "view_plane (plane_window a) [i] = unat a + i"
  by (simp_all add: plane_window_def leaf_width_def lead_extents_def leading_def extents_def rank_def rows_of_def columns_of_def
      tile_columns_def tile_rows_def view_plane_def lead_strides_def padded_def)

lemma plane_window_copy: "validate_copy (\<lambda>_. window_owner) 1 (plane_window a) (plane_window b) = Inr ()"
  by (simp add: validate_copy_def plane_window_def view_device_def window_owner_def)

theorem copy_moves_elements_witness:
  "\<forall>mem. \<exists>mem'. copy_task (\<lambda>_. window_owner) (plane_window 0) (plane_window 2) mem = Inr mem'
     \<and> element_value (\<lambda>_. window_owner) 1 (plane_window 2) mem' [1] 0 0 = element_value (\<lambda>_. window_owner) 1 (plane_window 0) mem [1] 0 0" (is "\<forall>mem. ?P mem")
proof (intro allI)
  fix mem
  have "views_apart (\<lambda>_. window_owner) 1 (plane_window 0) 1 (plane_window 2)"
    by (auto simp: views_apart_def leading_coords_def plane_window_facts list_all2_Cons2)
  moreover have "cell (plane_window 2) [1] 0 0" by (simp add: cell_def leading_coords_def plane_window_facts)
  ultimately show "?P mem"
    using copy_moves_elements [OF plane_window_copy plane_window_operand plane_window_operand, of 0 2 mem] by auto
qed

text \<open>
  C40. Copying between windows of one owner that overlap is accepted but not a copy: the planes are
  copied one after another, so the first plane of the source is propagated. Here the windows are the
  planes 0, 1 and 1, 2 of an owner; afterwards the second plane of the destination holds the first
  plane of the source, where the contract asks for the second.
\<close>

theorem overlapping_copy_propagates:
  "validate_copy (\<lambda>_. window_owner) 1 (plane_window 0) (plane_window 1) = Inr ()
   \<and> (\<exists>mem'. copy_task (\<lambda>_. window_owner) (plane_window 0) (plane_window 1) mem = Inr mem'
        \<and> element_value (\<lambda>_. window_owner) 1 (plane_window 1) mem' [1] 0 0
            = element_value (\<lambda>_. window_owner) 1 (plane_window 0) mem [0] 0 0)"
proof -
  let ?st = "\<lambda>_. window_owner"
  obtain P bits where v: "storage_view (owner_address ?st 1) P bits (plane_window 0)" and w: "unat bits = leaf_width (spec (plane_window 0))"
    and leaf: "leaf_bits (data_type (spec (plane_window 0))) = Inr bits"
    by (rule derived_operand_view [OF plane_window_operand [of 0]]) simp_all
  obtain P' bits' where v': "storage_view (owner_address ?st 1) P' bits' (plane_window 1)"
    and leaf': "leaf_bits (data_type (spec (plane_window 1))) = Inr bits'"
    by (rule derived_operand_view [OF plane_window_operand [of 1]]) simp_all
  have bits: "bits = 8" "bits' = 8" using leaf leaf' by (simp_all add: plane_window_def)
  let ?p = "\<lambda>v i. element_pos 4096 8 v [i] 0 0"
  have pos: "?p (plane_window a) i = 8 * 4096 + 2048 * (unat a + i)" for a i
    by (simp add: element_pos_def plane_window_facts plane_slot_def)
  have handle: "owner_address ?st 1 = 4096" by (simp add: window_owner_def)
  have one: "r < rows_of (shape (spec (plane_window a))) \<longleftrightarrow> r = 0" "t < tile_columns (shape (spec (plane_window a))) \<longleftrightarrow> t = 0" for r t a
    by (simp_all add: plane_window_facts)
  have coords: "leading_coords (plane_window a) cs \<longleftrightarrow> cs = [0] \<or> cs = [1]" for a cs
    by (auto simp: leading_coords_def plane_window_facts list_all2_Cons2 less_Suc_eq numeral_2_eq_2)
  have w8: "unat bits = 8" by (simp add: bits)
  have calls: "calls (plane_window 0) = [([0], 0, 0), ([1], 0, 0)]"
    by (simp add: calls_def plane_window_facts upt_rec)
  have ap: "apart (element_pos 4096 (unat bits) (plane_window 1) cs r (16 * t)) (element_pos 4096 (unat bits) (plane_window 0) cs r (16 * t))
      (min 16 (columns_of (shape (spec (plane_window 0))) - 16 * t) * unat bits)"
    if "leading_coords (plane_window 0) cs" "r < rows_of (shape (spec (plane_window 0)))" "t < tile_columns (shape (spec (plane_window 0)))" for cs r t
    using that [unfolded one coords] pos [of 0 0] pos [of 0 1] pos [of 1 0] pos [of 1 1] by (auto simp: w8 plane_window_facts apart_def)
  obtain mem' where run: "for_each_tile_lockstep (spec (plane_window 0)) (plane_offset (plane_window 0)) (plane_strides (plane_window 0))
      (spec (plane_window 1)) (plane_offset (plane_window 1)) (plane_strides (plane_window 1))
      (\<lambda>_ _ source_byte destination_byte elements. copy_tile_row 4096 (destination_byte * 8) 4096 (source_byte * 8) elements bits
        (shift_table bits) (mask_table bits)) mem = Inr mem'"
    and "runs (map (\<lambda>(cs, r, t). (element_pos 4096 (unat bits) (plane_window 1) cs r (16 * t), element_pos 4096 (unat bits) (plane_window 0) cs r (16 * t),
        min 16 (columns_of (shape (spec (plane_window 0))) - 16 * t) * unat bits)) (calls (plane_window 0))) mem mem'"
    using lockstep_runs [OF v [unfolded handle] v' [unfolded handle bits(2) bits(1) [symmetric]] plane_window_facts(1) ap, of mem] by blast
  then have "runs [(?p (plane_window 1) 0, ?p (plane_window 0) 0, 8), (?p (plane_window 1) 1, ?p (plane_window 0) 1, 8)] mem mem'"
    by (simp add: calls w8 plane_window_facts)
  then obtain mem1 where m: "bits_moved (?p (plane_window 1) 0) (?p (plane_window 0) 0) 8 mem mem1"
      "bits_moved (?p (plane_window 1) 1) (?p (plane_window 0) 1) 8 mem1 mem'" by auto
  have "mem_bit mem' (?p (plane_window 1) 1 + k) = mem_bit mem (?p (plane_window 0) 0 + k)" if "k < 8" for k
    using m that by (simp add: bits_moved_def pos)
  then have "element_value ?st 1 (plane_window 1) mem' [1] 0 0 = element_value ?st 1 (plane_window 0) mem [0] 0 0"
    unfolding handle plane_window_facts(2) by (intro element_at_eqI) simp_all
  moreover have "copy_task ?st (plane_window 0) (plane_window 1) mem = Inr mem'"
    using run leaf by (simp add: copy_task_def identical_window_def copy_elements_def snapshot_copy_view_def native_handle_def
        plane_window_def window_owner_def)
  ultimately show ?thesis using plane_window_copy by blast
qed

section \<open>Appending rows\<close>

lemma view_rank: "rank (shape (spec v)) \<le> 8 \<Longrightarrow> length (plane_strides v) = rank (shape (spec v)) - 2 \<Longrightarrow>
    shape_dimensions (snapshot_cache_append_view st v) = dimensions (shape (spec v))
    \<and> leading_plane_strides (snapshot_cache_append_view st v) = plane_strides v"
  by (simp add: shape_dimensions_def leading_plane_strides_def snapshot_cache_append_view_def filled_array_def rank_def min_def)

text \<open>The two copies of a span, whole bytes and the bits after them, move the span.\<close>

lemma span_moves:
  assumes fit: "bits_fit d db n" "bits_fit s sb n" and n: "unat bits = n" and bytes: "unat db mod 8 = 0" "unat sb mod 8 = 0"
    and apart: "apart (bit_pos d db) (bit_pos s sb) n"
  shows "bits_moved (bit_pos d db) (bit_pos s sb) n mem
    (let whole = bits div 8 * 8; tail = bits - whole;
         mem = (if whole \<noteq> 0 then copy_value d db s sb whole mem else mem)
     in if tail \<noteq> 0 then copy_value d (db + whole) s (sb + whole) tail mem else mem)"
proof -
  define W where "W = n div 8 * 8"
  define T where "T = n mod 8"
  have WT: "n = W + T" "T < 8" "W mod 8 = 0" by (simp_all add: W_def T_def)
  have u: "unat (bits div 8 * 8) = W"
  proof -
    have "unat (bits div 8) * unat (8 :: usize) < 2 ^ 64" using unat_less [of bits] n by (simp add: unat_div)
    then show ?thesis by (simp add: unat_mult_small unat_div n W_def)
  qed
  have le: "W \<le> n" using WT by simp
  have t: "unat (bits - bits div 8 * 8) = T"
    using u n WT le by (simp add: unat_sub word_le_nat_alt)
  have zero: "bits div 8 * 8 = 0 \<longleftrightarrow> W = 0" "bits - bits div 8 * 8 = 0 \<longleftrightarrow> T = 0"
    using u t by (simp_all add: word_unat_eq_iff)
  define mem1 where "mem1 = (if bits div 8 * 8 \<noteq> 0 then copy_value d db s sb (bits div 8 * 8) mem else mem)"
  have m1: "bits_moved (bit_pos d db) (bit_pos s sb) W mem mem1"
  proof (cases "W = 0")
    case True
    then show ?thesis using zero by (auto simp: mem1_def bits_moved_def)
  next
    case False
    have "bits_fit d db W" "bits_fit s sb W" using fit le by (simp_all add: bits_fit_def)
    then show ?thesis using copy_value_moves [of d db "bits div 8 * 8" s sb mem] u bytes WT(3) False zero by (simp add: mem1_def)
  qed
  let ?m2 = "if bits - bits div 8 * 8 \<noteq> 0 then copy_value d (db + bits div 8 * 8) s (sb + bits div 8 * 8) (bits - bits div 8 * 8) mem1 else mem1"
  have m2: "bits_moved (bit_pos d db + W) (bit_pos s sb + W) T mem1 ?m2"
  proof (cases "T = 0")
    case True
    then show ?thesis using zero by (auto simp: bits_moved_def)
  next
    case False
    have f: "bits_fit d (db + bits div 8 * 8) T \<and> bit_pos d (db + bits div 8 * 8) = bit_pos d db + W"
      if "bits_fit d db n" for d db
      using that WT False unat_add_small [of db "bits div 8 * 8"] u by (simp add: bits_fit_def bit_pos_def)
    show ?thesis
      using copy_value_moves [of d "db + bits div 8 * 8" "bits - bits div 8 * 8" s "sb + bits div 8 * 8" mem1]
        f [OF fit(1)] f [OF fit(2)] t WT(2) False zero by simp
  qed
  show ?thesis
    using bits_moved_append [OF m1 m2] apart WT(1) unfolding Let_def mem1_def by simp
qed

lemma runs_append: "runs (xs @ ys) m m' \<longleftrightarrow> (\<exists>m1. runs xs m m1 \<and> runs ys m1 m')"
proof (induction xs arbitrary: m)
  case (Cons x xs)
  then show ?case by (cases x) auto
qed simp

lemma set_concat3:
  "set (concat (map (\<lambda>x. concat (map (\<lambda>y. map (f x y) zs) ys)) xs)) = {f x y z | x y z. x \<in> set xs \<and> y \<in> set ys \<and> z \<in> set zs}"
  by auto

lemma for_each_runs_concat:
  assumes "\<And>x m. x \<in> set xs \<Longrightarrow> \<exists>m'. f x m = Inr m' \<and> runs (ms x) m m'"
  shows "\<exists>m'. for_each xs f m = Inr m' \<and> runs (concat (map ms xs)) m m'"
  using assms
proof (induction xs arbitrary: m)
  case (Cons x xs)
  obtain m1 where "f x m = Inr m1" "runs (ms x) m m1" using Cons.prems by force
  moreover obtain m' where "for_each xs f m1 = Inr m'" "runs (concat (map ms xs)) m1 m'" using Cons.IH [of m1] Cons.prems by force
  ultimately show ?case by (auto simp: runs_append)
qed simp

text \<open>The bits of a tile row as the snapshot overload addresses them.\<close>

lemma snapshot_row_bits:
  assumes v: "storage_view base P bits v" and c: "leading_coords v cs" "r < rows_of (shape (spec v))" "t < tile_columns (shape (spec v))"
  obtains off where "snapshot_element_bits (dimensions (shape (spec v))) (data_type (spec v)) (of_nat (view_plane v cs)) (of_nat r) (of_nat (16 * t)) = Inr off"
    and "bit_pos base off = element_pos base (unat bits) v cs r (16 * t)"
    and "bits_fit base off (min 16 (columns_of (shape (spec v)) - 16 * t) * unat bits)" and "unat off mod 8 = 0"
proof -
  note sv = storage_viewD [OF v]
  have cell: "cell v cs r (16 * t)" using c tile_columns_less [OF c(3)] by (simp add: cell_def)
  note cw = cell_words [OF v cell] and d = tile_row_storage [OF v c refl]
  have sh: "TensorShape (dimensions (shape (spec v))) = shape (spec v)" by simp
  have "plane_slot (shape (spec v)) (view_plane v cs) r (16 * t)
      = 8 * (2 * (16 * (view_plane v cs * (tile_rows (shape (spec v)) * tile_columns (shape (spec v))) + r div 16 * tile_columns (shape (spec v)) + t) + r mod 16))"
    using plane_slot_tile [of "r mod 16" "shape (spec v)" "view_plane v cs" "r div 16" t] by (simp add: algebra_simps)
  then have "8 dvd plane_slot (shape (spec v)) (view_plane v cs) r (16 * t) * unat bits" by (metis dvd_mult2 dvd_triv_left)
  then have "tile_byte (shape (spec v)) (unat bits) (view_plane v cs) r t * 8 = plane_slot (shape (spec v)) (view_plane v cs) r (16 * t) * unat bits"
    by (simp add: tile_byte_def)
  then have b: "(of_nat (tile_byte (shape (spec v)) (unat bits) (view_plane v cs) r t) * 8 :: usize)
      = of_nat (plane_slot (shape (spec v)) (view_plane v cs) r (16 * t) * unat bits)" by (metis of_nat_mult of_nat_numeral)
  have se: "snapshot_element_bits (dimensions (shape (spec v))) (data_type (spec v)) (of_nat (view_plane v cs)) (of_nat r) (of_nat (16 * t))
      = Inr (of_nat (tile_byte (shape (spec v)) (unat bits) (view_plane v cs) r t) * 8)"
    using snapshot_element_bits_ok [of "dimensions (shape (spec v))" "data_type (spec v)" bits "of_nat (view_plane v cs)" "of_nat r" "of_nat (16 * t)"]
      sv(2,3) unfolding sh cw b by blast
  show thesis by (rule that [OF se d(1-3)])
qed

lemma tile_columns_count: "tile_columns s = (columns_of s + 15) div 16"
  by (simp add: tile_columns_def padded_def)

lemma row_span_runs:
  assumes v: "storage_view base P bits v" and v': "storage_view base' P' bits v'" and type: "data_type (spec v') = data_type (spec v)"
    and columns: "columns_of (shape (spec v')) = columns_of (shape (spec v))" "unat features = columns_of (shape (spec v))"
    and c: "leading_coords v cs" "r < rows_of (shape (spec v))" and c': "leading_coords v' cs" "r' < rows_of (shape (spec v'))"
    and apart: "\<And>t. t < tile_columns (shape (spec v)) \<Longrightarrow>
      apart (element_pos base' (unat bits) v' cs r' (16 * t)) (element_pos base (unat bits) v cs r (16 * t))
        (min 16 (columns_of (shape (spec v)) - 16 * t) * unat bits)"
  shows "\<exists>mem'. copy_row_span base' (dimensions (shape (spec v'))) (of_nat (view_plane v' cs)) (of_nat r')
      base (dimensions (shape (spec v))) (of_nat (view_plane v cs)) (of_nat r) (data_type (spec v)) features mem = Inr mem'
    \<and> runs (map (\<lambda>t. (element_pos base' (unat bits) v' cs r' (16 * t), element_pos base (unat bits) v cs r (16 * t),
        min 16 (columns_of (shape (spec v)) - 16 * t) * unat bits)) [0..<tile_columns (shape (spec v))]) mem mem'"
proof -
  let ?s = "shape (spec v)" and ?w = "unat bits"
  note sv = storage_viewD [OF v]
  have tc: "tile_columns (shape (spec v')) = tile_columns ?s" by (simp add: tile_columns_count columns)
  show ?thesis
    unfolding copy_row_span_def sv(3) andThen_simps columns(2) tile_columns_count [symmetric]
  proof (rule for_each_runs)
    fix t m
    assume "t \<in> set [0..<tile_columns ?s]"
    then have t: "t < tile_columns ?s" by simp
    let ?e = "min 16 (columns_of ?s - 16 * t)"
    obtain so where so: "snapshot_element_bits (dimensions ?s) (data_type (spec v)) (of_nat (view_plane v cs)) (of_nat r) (of_nat (16 * t)) = Inr so"
      "bit_pos base so = element_pos base ?w v cs r (16 * t)" "bits_fit base so (?e * ?w)" "unat so mod 8 = 0"
      by (rule snapshot_row_bits [OF v c t])
    obtain d where d: "snapshot_element_bits (dimensions (shape (spec v'))) (data_type (spec v)) (of_nat (view_plane v' cs)) (of_nat r') (of_nat (16 * t)) = Inr d"
      "bit_pos base' d = element_pos base' ?w v' cs r' (16 * t)" "bits_fit base' d (?e * ?w)" "unat d mod 8 = 0"
      by (rule snapshot_row_bits [OF v' c', unfolded tc columns type, OF t])
    have el: "(if features - of_nat (16 * t) < kTile then features - of_nat (16 * t) else kTile) = of_nat ?e"
      using tile_elements_word [OF tile_columns_less [OF t] columns(2)] unfolding Let_def tile_start_word .
    have eu: "unat (of_nat ?e * bits) = ?e * ?w"
    proof -
      have e: "unat (of_nat ?e :: usize) = ?e" by (simp add: unat_of_nat_fits)
      have "?e * ?w \<le> 16 * 64" using sv(5) by (intro mult_le_mono) simp_all
      then show ?thesis by (simp add: unat_mult_small e)
    qed
    define sz where "sz = of_nat ?e * bits"
    define m1 where "m1 = (if sz div 8 * 8 \<noteq> 0 then copy_value base' d base so (sz div 8 * 8) m else m)"
    define m2 where "m2 = (if sz - sz div 8 * 8 \<noteq> 0
      then copy_value base' (d + sz div 8 * 8) base (so + sz div 8 * 8) (sz - sz div 8 * 8) m1 else m1)"
    have moved: "bits_moved (element_pos base' ?w v' cs r' (16 * t)) (element_pos base ?w v cs r (16 * t)) (?e * ?w) m m2"
      using span_moves [OF d(3) so(3) eu [folded sz_def] d(4) so(4), of m] apart [OF t]
      unfolding d(2) so(2) Let_def m2_def m1_def by blast
    have run: "(let first_column = of_nat (16 * t); remaining = features - first_column;
             elements = if remaining < kTile then remaining else kTile
         in andThen (snapshot_element_bits (dimensions ?s) (data_type (spec v)) (of_nat (view_plane v cs)) (of_nat r) first_column) (\<lambda>source_bit.
            andThen (snapshot_element_bits (dimensions (shape (spec v'))) (data_type (spec v)) (of_nat (view_plane v' cs)) (of_nat r') first_column)
              (\<lambda>destination_bit.
            let span_bits = elements * bits; whole_bytes_bits = span_bits div 8 * 8; tail_bits = span_bits - whole_bytes_bits;
                mem = if whole_bytes_bits \<noteq> 0 then copy_value base' destination_bit base source_bit whole_bytes_bits m else m;
                mem = if tail_bits \<noteq> 0 then copy_value base' (destination_bit + whole_bytes_bits) base (source_bit + whole_bytes_bits) tail_bits mem else mem
            in Inr mem))) = Inr m2"
      unfolding Let_def el so(1) d(1) andThen_simps m2_def m1_def sz_def by (rule refl)
    show "\<exists>m'. (let first_column = of_nat (16 * t); remaining = features - first_column;
             elements = if remaining < kTile then remaining else kTile
         in andThen (snapshot_element_bits (dimensions ?s) (data_type (spec v)) (of_nat (view_plane v cs)) (of_nat r) first_column) (\<lambda>source_bit.
            andThen (snapshot_element_bits (dimensions (shape (spec v'))) (data_type (spec v)) (of_nat (view_plane v' cs)) (of_nat r') first_column)
              (\<lambda>destination_bit.
            let span_bits = elements * bits; whole_bytes_bits = span_bits div 8 * 8; tail_bits = span_bits - whole_bytes_bits;
                mem = if whole_bytes_bits \<noteq> 0 then copy_value base' destination_bit base source_bit whole_bytes_bits m else m;
                mem = if tail_bits \<noteq> 0 then copy_value base' (destination_bit + whole_bytes_bits) base (source_bit + whole_bytes_bits) tail_bits mem else mem
            in Inr mem))) = Inr m'
        \<and> bits_moved (element_pos base' ?w v' cs r' (16 * t)) (element_pos base ?w v cs r (16 * t)) (?e * ?w) m m'"
      unfolding run using moved by simp
  qed
qed

lemma cache_append_loop:
  assumes v: "storage_view base P bits v" and v': "storage_view base' P' bits v'"
    and h: "native_handle st v = Some base" "native_handle st v' = Some base'"
    and ranks: "rank (shape (spec v)) \<le> 8" "rank (shape (spec v')) \<le> 8" and lead: "lead_extents v' = lead_extents v"
    and req: "ca_source request = snapshot_cache_append_view st v" "ca_destination request = snapshot_cache_append_view st v'"
  shows "cache_append_elements request mem = for_each (coords_list (lead_extents v)) (\<lambda>cs.
    for_each [0..<rows_of (shape (spec v))] (\<lambda>r.
      copy_row_span base' (dimensions (shape (spec v'))) (of_nat (view_plane v' cs)) (ca_a request + of_nat r)
        base (dimensions (shape (spec v))) (of_nat (view_plane v cs)) (of_nat r) (data_type (spec v))
        (last (dimensions (shape (spec v)))))) mem"
proof -
  let ?d = "dimensions (shape (spec v))"
  note sv = storage_viewD [OF v] and sv' = storage_viewD [OF v']
  have snaps: "shape_dimensions (ca_source request) = ?d" "leading_plane_strides (ca_source request) = plane_strides v"
    "shape_dimensions (ca_destination request) = dimensions (shape (spec v'))" "leading_plane_strides (ca_destination request) = plane_strides v'"
    using view_rank [OF ranks(1) sv(6)] view_rank [OF ranks(2) sv'(6)] req by simp_all
  have fields: "cas_handle (ca_source request) = Some base" "cas_handle (ca_destination request) = Some base'"
    "cas_plane_offset (ca_source request) = plane_offset v" "cas_plane_offset (ca_destination request) = plane_offset v'"
    "cas_data_type (ca_source request) = data_type (spec v)"
    using h req by (simp_all add: snapshot_cache_append_view_def)
  have rk: "2 \<le> length ?d" using sv(2) by (simp add: valid_shape_def rank_def)
  then have last: "?d ! (length ?d - 2 + 1) = last ?d" by (subst last_conv_nth) (auto simp: Suc_diff_Suc numeral_2_eq_2)
  have leads: "map unat (take (length ?d - 2) ?d) = lead_extents v" by (simp add: lead_extents_def leading_def extents_def rank_def take_map)
  have "length (lead_extents v') = length (lead_extents v)" using lead by simp
  then have rr: "rank (shape (spec v')) - 2 = rank (shape (spec v)) - 2" by (simp add: lead_extents_def length_leading)
  have len: "length (plane_strides v) = length (take (length ?d - 2) ?d)" "length (plane_strides v') = length (take (length ?d - 2) ?d)"
    using sv(6) sv'(6) rr by (simp_all add: rank_def)
  have plane: "plane_offset u + of_nat (dot cs (map unat (plane_strides u))) = of_nat (view_plane u cs)" for u cs
    by (simp add: view_plane_def lead_strides_def)
  show ?thesis
    unfolding cache_append_elements_def Let_def snaps fields last option.sel visit_plane_pairs_coords [OF len] leads plane matrix_extents [OF sv(2)]
    by (rule refl)
qed

text \<open>
  C18. An accepted cache append writes row \<open>r\<close> of every plane of the source into row \<open>a + r\<close> of the matching
  plane of the destination and changes no other bit of memory: the rows before \<open>a\<close>, those after the appended
  ones, padding and other planes stay as they are.
\<close>

theorem cache_append_writes_rows:
  assumes "validate_cache_append st device source destination a = Inr request"
    and "derived_operand st device i source" and "derived_operand st device j destination"
  shows "\<exists>mem'. cache_append_elements request mem = Inr mem'
    \<and> (\<forall>cs r c. cell source cs r c \<longrightarrow>
         element_value st j destination mem' cs (unat a + r) c = element_value st i source mem cs r c)
    \<and> (\<forall>b. (\<forall>cs r c k. cell source cs r c \<and> k < leaf_width (spec source)
             \<longrightarrow> b \<noteq> element_bit st j destination cs (unat a + r) c + k) \<longrightarrow> mem_bit mem' b = mem_bit mem b)"
proof -
  have req: "ca_source request = snapshot_cache_append_view st source" "ca_destination request = snapshot_cache_append_view st destination"
    "ca_a request = a" and ranks: "rank (shape (spec source)) \<le> 8" "rank (shape (spec destination)) \<le> 8"
    using assms(1) by (auto simp: validate_cache_append_def Let_def exn_simps split: if_splits)
  have "append_fits (shape (spec source)) (shape (spec destination)) (unat a) \<and> data_type (spec source) = data_type (spec destination)
      \<and> i \<noteq> j \<and> storage_span st source \<inter> storage_span st destination = {}"
    using cache_append_accepted_iff [OF assms(2,3), of a] assms(1) req by blast
  then have fits: "leading (shape (spec source)) = leading (shape (spec destination))"
      "columns_of (shape (spec source)) = columns_of (shape (spec destination))"
      "unat a + rows_of (shape (spec source)) \<le> rows_of (shape (spec destination))"
    and type: "data_type (spec destination) = data_type (spec source)" and ap: "storage_span st source \<inter> storage_span st destination = {}"
    by (simp_all add: append_fits_def)
  obtain P bits where v: "storage_view (owner_address st i) P bits source" and w: "unat bits = leaf_width (spec source)"
    and leaf: "leaf_bits (data_type (spec source)) = Inr bits" and h: "native_handle st source = Some (owner_address st i)"
    by (rule derived_operand_view [OF assms(2)])
  obtain P' bits' where v': "storage_view (owner_address st j) P' bits' destination"
    and leaf': "leaf_bits (data_type (spec destination)) = Inr bits'" and h': "native_handle st destination = Some (owner_address st j)"
    by (rule derived_operand_view [OF assms(3)])
  have b: "bits' = bits" using leaf leaf' type by simp
  have lw: "leaf_width (spec destination) = leaf_width (spec source)" by (simp add: leaf_width_def type)
  note sv = storage_viewD [OF v]
  have lead: "lead_extents destination = lead_extents source" using fits(1) by (simp add: lead_extents_def)
  then have lc: "leading_coords destination = leading_coords source" by (simp add: leading_coords_def fun_eq_iff)
  have cells: "cell destination cs (unat a + r) c" if "cell source cs r c" for cs r c
    using that fits lc by (auto simp: cell_def)
  let ?S = "element_bit st i source" and ?D = "\<lambda>cs r c. element_bit st j destination cs (unat a + r) c" and ?w = "leaf_width (spec source)"
  have apart: "?S cs r c + k \<noteq> ?D cs' r' c' + k'"
    if "cell source cs r c" "cell source cs' r' c'" "k < ?w" "k' < ?w" for cs r c k cs' r' c' k'
    using operands_apart [OF assms(2,3) ap that(1,3) cells [OF that(2)]] that(4) lw by simp
  have w0: "0 < ?w" using sv(4) w by simp
  have adj: "?D cs r (16 * t + e) = ?D cs r (16 * t) + e * ?w \<and> ?S cs r (16 * t + e) = ?S cs r (16 * t) + e * ?w" if "e < 16" for cs r t e
    unfolding lw using element_pos_run [OF that] by blast
  have tile: "apart (?D cs r (16 * t)) (?S cs r (16 * t)) (min 16 (columns_of (shape (spec source)) - 16 * t) * ?w)"
    if c: "leading_coords source cs" "r < rows_of (shape (spec source))" for cs r t
  proof (rule apart_if)
    fix e e'
    assume lt: "e < min 16 (columns_of (shape (spec source)) - 16 * t) * ?w" "e' < min 16 (columns_of (shape (spec source)) - 16 * t) * ?w"
    have pos: "\<exists>c' k. cell source cs r c' \<and> k < ?w \<and> ?S cs r (16 * t) + x = ?S cs r c' + k \<and> ?D cs r (16 * t) + x = ?D cs r c' + k"
      if x: "x < min 16 (columns_of (shape (spec source)) - 16 * t) * ?w" for x
    proof -
      obtain q k where qk: "x = q * ?w + k" "q < 16" "16 * t + q < columns_of (shape (spec source))" "k < ?w"
        using run_element [OF x w0] by metis
      then show ?thesis using c adj [OF qk(2), of cs r t] by (intro exI [of _ "16 * t + q"] exI [of _ k]) (simp add: cell_def)
    qed
    show "?D cs r (16 * t) + e \<noteq> ?S cs r (16 * t) + e'" using pos [OF lt(1)] pos [OF lt(2)] apart by metis
  qed
  let ?n = "\<lambda>t. min 16 (columns_of (shape (spec source)) - 16 * t) * ?w"
  let ?ms = "concat (map (\<lambda>cs. concat (map (\<lambda>r. map (\<lambda>t. (?D cs r (16 * t), ?S cs r (16 * t), ?n t)) [0..<tile_columns (shape (spec source))])
      [0..<rows_of (shape (spec source))])) (coords_list (lead_extents source)))"
  have row: "(a + of_nat r :: usize) = of_nat (unat a + r)" for r by simp
  have "\<exists>mem'. cache_append_elements request mem = Inr mem' \<and> runs ?ms mem mem'"
    unfolding cache_append_loop [OF v v' [unfolded b] h h' ranks lead req(1,2)] req(3) row
  proof (rule for_each_runs_concat, rule for_each_runs_concat)
    fix cs r m
    assume "cs \<in> set (coords_list (lead_extents source))" "r \<in> set [0..<rows_of (shape (spec source))]"
    then have c: "leading_coords source cs" "r < rows_of (shape (spec source))" by (simp_all add: set_coords_list leading_coords_def)
    then have c': "leading_coords destination cs" "unat a + r < rows_of (shape (spec destination))" using lc fits(3) by simp_all
    show "\<exists>m'. copy_row_span (owner_address st j) (dimensions (shape (spec destination))) (of_nat (view_plane destination cs)) (of_nat (unat a + r))
        (owner_address st i) (dimensions (shape (spec source))) (of_nat (view_plane source cs)) (of_nat r) (data_type (spec source))
        (last (dimensions (shape (spec source)))) m = Inr m'
      \<and> runs (map (\<lambda>t. (?D cs r (16 * t), ?S cs r (16 * t), ?n t)) [0..<tile_columns (shape (spec source))]) m m'"
      using row_span_runs [OF v v' [unfolded b] type fits(2) [symmetric] matrix_extents(2) [OF sv(2)] c c', of m] tile [OF c]
      unfolding w lw by blast
  qed
  then obtain mem' where run: "cache_append_elements request mem = Inr mem'" "runs ?ms mem mem'" by blast
  have ms: "set ?ms = {(?D cs r (16 * t), ?S cs r (16 * t), ?n t) | cs r t.
      leading_coords source cs \<and> r < rows_of (shape (spec source)) \<and> t < tile_columns (shape (spec source))}"
    unfolding set_concat3 by (simp only: set_coords_list leading_coords_def mem_Collect_eq set_upt atLeastLessThan_iff) simp
  have cons: "?S cs r c + k = ?S cs' r' c' + k'"
    if "cell source cs r c" "cell source cs' r' c'" "k < ?w" "k' < ?w" "?D cs r c + k = ?D cs' r' c' + k'" for cs r c k cs' r' c' k'
    using elements_apart [OF assms(3) cells [OF that(1)] cells [OF that(2)], unfolded lw, OF that(3,4)] that(5) lw by simp
  note res = tile_moves [where D = ?D and S = ?S, OF run(2) ms adj cons apart w0]
  have "element_value st j destination mem' cs (unat a + r) c = element_value st i source mem cs r c" if "cell source cs r c" for cs r c
  proof -
    have "mem_bit mem' (?D cs r c + k) = mem_bit mem (?S cs r c + k)" if k: "k < ?w" for k
      using \<open>cell source cs r c\<close> k by - (rule res(1))
    then show ?thesis unfolding lw using sv(5) w by (intro element_at_eqI) simp_all
  qed
  moreover have "mem_bit mem' x = mem_bit mem x" if other: "\<forall>cs r c k. cell source cs r c \<and> k < ?w \<longrightarrow> x \<noteq> ?D cs r c + k" for x
    by (rule res(2); (assumption | rule other))
  ultimately show ?thesis using run(1) by blast
qed

lemma sample_append: "\<exists>request. validate_cache_append (tensors sample_objects) 7 (sample_view 4) sample_cache 4 = Inr request"
proof -
  have fits: "append_fits (shape (spec (sample_view 4))) (shape (spec sample_cache)) (unat (4 :: usize))"
    by (simp add: append_fits_def sample_cache_def sample_view_specs rank_def leading_def extents_def rows_of_def columns_of_def)
  have "storage_span (tensors sample_objects) (sample_view 4) = span 65536 3072"
    "storage_span (tensors sample_objects) sample_cache = span 4096 12288"
    by (simp_all add: storage_span_def sample_objects_def sample_cache_def sample_simps)
  then have dis: "storage_span (tensors sample_objects) (sample_view 4) \<inter> storage_span (tensors sample_objects) sample_cache = {}"
    by (auto simp: span_def)
  from cache_append_accepted_iff [OF sample_operands, of 4] fits dis show ?thesis
    by (auto simp: sample_view_specs sample_cache_def)
qed

theorem cache_append_writes_rows_witness:
  "\<forall>mem. \<exists>request mem'. validate_cache_append (tensors sample_objects) 7 (sample_view 4) sample_cache 4 = Inr request
     \<and> cache_append_elements request mem = Inr mem'
     \<and> element_value (tensors sample_objects) 3 sample_cache mem' [2] 4 5
         = element_value (tensors sample_objects) 4 (sample_view 4) mem [2] 0 5" (is "\<forall>mem. ?P mem")
proof (intro allI)
  fix mem
  obtain request where r: "validate_cache_append (tensors sample_objects) 7 (sample_view 4) sample_cache 4 = Inr request"
    using sample_append by blast
  have c: "cell (sample_view 4) [2] 0 5"
    by (simp add: cell_def leading_coords_def lead_extents_def sample_view_specs leading_def extents_def rank_def rows_of_def columns_of_def)
  obtain mem' where m: "cache_append_elements request mem = Inr mem'"
    and e: "\<And>cs r c. cell (sample_view 4) cs r c \<Longrightarrow> element_value (tensors sample_objects) 3 sample_cache mem' cs (unat (4 :: usize) + r) c
         = element_value (tensors sample_objects) 4 (sample_view 4) mem cs r c"
    using cache_append_writes_rows [OF r sample_operands, of mem] by blast
  show "?P mem" using r m e [OF c] by auto
qed

end
