(* ===== verification/Cpu_Binary.thy ===== *)
theory Cpu_Binary
  imports Cpu_Elements
begin

text \<open>
  The binary operations of the CPU queue: the scalar reference body of \<open>src/src/cpu/queue.cpp\<close> run on a
  request that admission has accepted.
\<close>

section \<open>Binary operations\<close>

definition source_plane :: "BinaryViewSnapshot \<Rightarrow> usize list \<Rightarrow> usize list \<Rightarrow> usize" where
  "source_plane source result_dimensions coordinates =
     (let dims = dimensions (shape (bs_spec source)); leading = length result_dimensions - 2;
          offset = leading - (length dims - 2) in
      fold (\<lambda>axis plane. if axis \<ge> offset \<and> logical_plane_strides source ! axis \<noteq> 0
                         then plane + coordinates ! axis * logical_plane_strides source ! axis else plane)
        [0..<leading] (bs_plane_offset source))"

text \<open>The walk over the leading coordinates of the result.\<close>

fun visit_coordinates :: "usize list \<Rightarrow> usize list \<Rightarrow> (usize list \<Rightarrow> 's \<Rightarrow> 's throws) \<Rightarrow> 's \<Rightarrow> 's throws" where
  "visit_coordinates [] coordinates leaf s = leaf coordinates s"
| "visit_coordinates (d # dims) coordinates leaf s =
     for_each [0..<unat d] (\<lambda>index. visit_coordinates dims (coordinates @ [of_nat index]) leaf) s"

definition visit_binary_rows ::
  "BinaryRequest \<Rightarrow> (usize \<Rightarrow> usize \<Rightarrow> usize \<Rightarrow> usize \<Rightarrow> 's \<Rightarrow> 's throws) \<Rightarrow> 's \<Rightarrow> 's throws" where
  "visit_binary_rows request row_body s =
     (let dims = dimensions (bin_result_shape request); rows = dims ! (length dims - 2) in
      visit_coordinates (take (length dims - 2) dims) [] (\<lambda>coordinates.
        for_each [0..<unat rows] (\<lambda>result_row.
          row_body (source_plane (bin_lhs request) dims coordinates) (source_plane (bin_rhs request) dims coordinates)
            (source_plane (bin_out request) dims coordinates) (of_nat result_row))) s)"

definition binary_element_slots ::
  "BinaryRequest \<Rightarrow> usize \<Rightarrow> usize \<Rightarrow> usize \<Rightarrow> usize \<Rightarrow> usize \<Rightarrow> (usize \<times> usize \<times> usize) throws" where
  "binary_element_slots request lhs_plane rhs_plane out_plane row column =
     (let lhs = bin_lhs request; rhs = bin_rhs request; out = bin_out request;
          lhs_row = (if broadcast_rows lhs then 0 else row); rhs_row = (if broadcast_rows rhs then 0 else row);
          lhs_column = (if broadcast_columns lhs then 0 else column);
          rhs_column = (if broadcast_columns rhs then 0 else column) in
      andThen (standard_plane_slot (bs_spec lhs) lhs_plane lhs_row lhs_column) (\<lambda>l.
      andThen (standard_plane_slot (bs_spec rhs) rhs_plane rhs_row rhs_column) (\<lambda>r.
      andThen (standard_plane_slot (bs_spec out) out_plane row column) (\<lambda>d. Inr (l, r, d)))))"

text \<open>Both operands are loaded before the result is stored. The scalar codec is the argument \<open>scalar\<close>.\<close>

type_synonym scalar_binary = "DataType \<Rightarrow> 64 word \<Rightarrow> 64 word \<Rightarrow> 64 word"

definition binary_element ::
  "BinaryRequest \<Rightarrow> scalar_binary \<Rightarrow> usize \<Rightarrow> usize \<Rightarrow> usize \<Rightarrow> usize \<Rightarrow> usize \<times> usize \<times> usize \<Rightarrow> memory \<Rightarrow> memory" where
  "binary_element request scalar bits lhs_base rhs_base out_base slots mem =
     (case slots of (l, r, d) \<Rightarrow>
      let lhs = load_bits mem lhs_base (l * bits) bits; rhs = load_bits mem rhs_base (r * bits) bits in
      store_bits out_base (d * bits) bits (scalar (data_type (bs_spec (bin_out request))) lhs rhs) mem)"

definition binary_reference_elements :: "BinaryRequest \<Rightarrow> scalar_binary \<Rightarrow> memory \<Rightarrow> memory throws" where
  "binary_reference_elements request scalar mem =
     (let columns = last (dimensions (bin_result_shape request)) in
      andThen (leaf_bits (data_type (bs_spec (bin_out request)))) (\<lambda>bits.
      visit_binary_rows request (\<lambda>lhs_plane rhs_plane out_plane row.
        for_each [0..<unat columns] (\<lambda>column mem.
          andThen (binary_element_slots request lhs_plane rhs_plane out_plane row (of_nat column)) (\<lambda>slots.
          Inr (binary_element request scalar bits (the (bs_handle (bin_lhs request))) (the (bs_handle (bin_rhs request)))
                 (the (bs_handle (bin_out request))) slots mem)))) mem))"

section \<open>The walk over the result\<close>

lemma visit_coordinates_list:
  "visit_coordinates ds pre leaf s = for_each (coords_list (map unat ds)) (\<lambda>cs. leaf (pre @ map of_nat cs)) s"
proof (induction ds arbitrary: pre s)
  case (Cons d ds)
  have IH: "visit_coordinates ds p leaf = for_each (coords_list (map unat ds)) (\<lambda>cs. leaf (p @ map of_nat cs))" for p
    by (rule ext) (rule Cons.IH)
  show ?case by (simp add: IH for_each_concat for_each_map for_each_mapF)
qed (simp add: for_each_NilF)

text \<open>The plane the loop over the result's axes adds up.\<close>

lemma fold_plus: "fold (\<lambda>i p. p + g i) [0..<n] a = a + (\<Sum>i<n. g i)" for a :: usize
  by (induction n) (simp_all add: add.assoc)

lemma source_plane_dot:
  assumes snap: "snap = snapshot_binary_view st v result" and dims: "2 \<le> length (dimensions (shape (spec v)))"
    and le: "length (dimensions (shape (spec v))) \<le> length result" and cs: "length cs = length result - 2"
  shows "source_plane snap result (map of_nat cs)
    = of_nat (unat (bs_plane_offset snap) + dot cs (map unat (logical_plane_strides snap)))"
proof -
  let ?L = "length result - 2" and ?ss = "logical_plane_strides snap"
  let ?off = "?L - (length (dimensions (shape (spec v))) - 2)"
  have off: "?off = length result - length (dimensions (shape (spec v)))" using dims le by simp
  have len: "length ?ss = ?L" and zero: "\<And>i. i < ?off \<Longrightarrow> ?ss ! i = 0"
    using dims le unfolding off by (simp_all add: snap snapshot_binary_view_def Let_def)
  have "fold (\<lambda>axis plane. if axis \<ge> ?off \<and> ?ss ! axis \<noteq> 0 then plane + map of_nat cs ! axis * ?ss ! axis else plane) [0..<?L] p
      = fold (\<lambda>axis plane. plane + of_nat (cs ! axis * unat (?ss ! axis))) [0..<?L] p" for p
    by (rule fold_cong) (use cs zero in \<open>auto simp: not_le\<close>)
  moreover have "dot cs (map unat ?ss) = (\<Sum>i<?L. cs ! i * unat (?ss ! i))"
    using dot_sum [of cs "map unat ?ss"] cs len by simp
  moreover have "bs_spec snap = spec v" by (simp add: snap snapshot_flags)
  ultimately show ?thesis by (simp add: source_plane_def Let_def fold_plus)
qed

section \<open>Operands of a binary operation\<close>

text \<open>The cell an operand is read at: coordinates of axes of extent one are zero.\<close>

definition operand_row :: "TensorView \<Rightarrow> nat \<Rightarrow> nat" where
  "operand_row v r = (if rows_of (shape (spec v)) = 1 then 0 else r)"

definition operand_column :: "TensorView \<Rightarrow> nat \<Rightarrow> nat" where
  "operand_column v c = (if columns_of (shape (spec v)) = 1 then 0 else c)"

abbreviation operand_bit :: "store \<Rightarrow> tensor_ref \<Rightarrow> TensorView \<Rightarrow> nat list \<Rightarrow> nat \<Rightarrow> nat \<Rightarrow> nat" where
  "operand_bit st i v cs r c \<equiv> element_bit st i v (broadcast_coords (lead_extents v) cs) (operand_row v r) (operand_column v c)"

definition operand_value :: "store \<Rightarrow> tensor_ref \<Rightarrow> TensorView \<Rightarrow> memory \<Rightarrow> nat list \<Rightarrow> nat \<Rightarrow> nat \<Rightarrow> 64 word" where
  "operand_value st i v mem cs r c =
     element_value st i v mem (broadcast_coords (lead_extents v) cs) (operand_row v r) (operand_column v c)"

lemma derived_operand_constructed: "derived_operand st device i v \<Longrightarrow> constructed st i"
  by (auto simp: derived_operand_def constructed_def)

lemma operand_access:
  assumes req: "validate_binary st device operation lhs rhs out = Inr request"
    and v: "(v, snap) \<in> {(lhs, bin_lhs request), (rhs, bin_rhs request), (out, bin_out request)}"
    and op: "derived_operand st device i v" and out: "derived_operand st device j out" and c: "cell out cs r c"
  obtains slot bits where "standard_plane_slot (bs_spec snap) (source_plane snap (dimensions (shape (spec out))) (map of_nat cs))
      (if broadcast_rows snap then 0 else of_nat r) (if broadcast_columns snap then 0 else of_nat c) = Inr slot"
    and "bs_handle snap = Some (owner_address st i)"
    and "leaf_bits (data_type (spec out)) = Inr bits" and "leaf_width (spec v) = unat bits" and "leaf_width (spec out) = unat bits"
    and "unat bits \<le> 64"
    and "bits_fit (owner_address st i) (slot * bits) (unat bits)" and "bit_pos (owner_address st i) (slot * bits) = operand_bit st i v cs r c"
    and "\<And>mem. load_bits mem (owner_address st i) (slot * bits) bits = operand_value st i v mem cs r c"
    and "cell v (broadcast_coords (lead_extents v) cs) (operand_row v r) (operand_column v c)"
    and "i = j \<longrightarrow> operand_bit st i v cs r c = element_bit st j out cs r c"
    and "v = out \<longrightarrow> operand_bit st i v cs r c = element_bit st i out cs r c"
proof -
  let ?r = "dimensions (shape (spec out))"
  from req obtain fl fr fo where
    specs: "validate_checked_spec (spec lhs) = Inr ()" "validate_checked_spec (spec rhs) = Inr ()" "validate_checked_spec (spec out) = Inr ()"
    and res: "broadcast_result (dimensions (shape (spec lhs))) (dimensions (shape (spec rhs))) = Inr ?r"
    and snaps: "bin_lhs request = snapshot_binary_view st lhs ?r" "bin_rhs request = snapshot_binary_view st rhs ?r"
      "bin_out request = snapshot_binary_view st out ?r"
    and types: "data_type (spec rhs) = data_type (spec lhs)" "data_type (spec out) = data_type (spec lhs)"
    by (rule validate_binary_InrD)
  have snap: "snap = snapshot_binary_view st v ?r" using v snaps by auto
  have valids: "valid_shape (shape (spec lhs))" "valid_shape (shape (spec rhs))" "valid_shape (shape (spec out))"
    using specs by (simp_all add: validate_checked_spec_Inr)
  have nz: "0 \<notin> set (dimensions (shape (spec lhs)))" "0 \<notin> set (dimensions (shape (spec rhs)))"
    using valids by (simp_all add: valid_shape_def)
  have le: "length (dimensions (shape (spec v))) \<le> length ?r"
    using v broadcast_result_Inr(1) [OF res nz] by (auto simp: rank_def)
  have valid: "valid_shape (shape (spec v))" using v valids by auto
  obtain P bits where sv: "storage_view (owner_address st i) P bits v" and w: "unat bits = leaf_width (spec v)"
    and leaf: "leaf_bits (data_type (spec v)) = Inr bits" and own: "owner_identity v = Some i" and h: "native_handle st v = Some (owner_address st i)"
    by (rule derived_operand_view [OF op])
  have ownj: "owner_identity out = Some j" by (rule derived_operand_view [OF out])
  have lc: "leading_coords out cs" "r < rows_of (shape (spec out))" "c < columns_of (shape (spec out))" using c by (simp_all add: cell_def)
  note addr = binary_operands_addressed [OF req v own derived_operand_constructed [OF op] lc refl]
  have lcs: "length cs = length ?r - 2" using leading_coords_length [OF lc(1)] by (simp add: rank_def)
  have d2: "2 \<le> length (dimensions (shape (spec v)))" using valid by (simp add: valid_shape_def rank_def)
  have plane: "source_plane snap ?r (map of_nat cs) = of_nat (view_plane v (broadcast_coords (lead_extents v) cs))"
    using source_plane_dot [OF snap d2 le lcs] addr by simp
  have one: "unat d = 1 \<longleftrightarrow> d = (1 :: usize)" for d by (simp add: word_unat_eq_iff)
  note em = matrix_extents [OF valid] matrix_extents [OF valids(3)]
  have flags: "(if broadcast_rows snap then 0 else r) = operand_row v r" "(if broadcast_columns snap then 0 else c) = operand_column v c"
    using lc(2,3) em one [of "dimensions (shape (spec v)) ! (length (dimensions (shape (spec v))) - 2)"] one [of "?r ! (length ?r - 2)"]
      one [of "last (dimensions (shape (spec v)))"] one [of "last ?r"]
    by (auto simp: snap snapshot_flags operand_row_def operand_column_def)
  have words: "(if broadcast_rows snap then 0 else of_nat r :: usize) = of_nat (operand_row v r)"
    "(if broadcast_columns snap then 0 else of_nat c :: usize) = of_nat (operand_column v c)"
    unfolding flags [symmetric] by simp_all
  have cv: "cell v (broadcast_coords (lead_extents v) cs) (operand_row v r) (operand_column v c)"
    using addr unfolding flags by (simp add: cell_def)
  obtain slot where slot: "standard_plane_slot (spec v) (of_nat (view_plane v (broadcast_coords (lead_extents v) cs)))
        (of_nat (operand_row v r)) (of_nat (operand_column v c)) = Inr slot"
    "bits_fit (owner_address st i) (slot * bits) (unat bits)" "bit_pos (owner_address st i) (slot * bits) = operand_bit st i v cs r c"
    "\<And>mem. load_bits mem (owner_address st i) (slot * bits) bits = operand_value st i v mem cs r c"
    using element_slot [OF sv cv] unfolding w operand_value_def by metis
  have dt: "data_type (spec out) = data_type (spec v)" using v types by auto
  then have lw: "leaf_width (spec out) = leaf_width (spec v)" by (simp add: leaf_width_def)
  have same_bit: "operand_bit st i v cs r c = element_bit st j out cs r c" if ij: "i = j"
  proof -
    have o: "owner_identity v = owner_identity out" using own ownj ij by simp
    then have s: "spec v = spec out" "view_plane v (broadcast_coords (lead_extents v) cs) = view_plane out cs"
      "\<not> broadcast_rows snap" "\<not> broadcast_columns snap" using addr by auto
    then have "operand_row v r = r" "operand_column v c = c" using flags by simp_all
    then show ?thesis using s(1,2) ij by (simp add: element_pos_def)
  qed
  show thesis
  proof (rule that [OF _ _ _ _ _ _ slot(2-4) cv])
    have "bs_spec snap = spec v" by (simp add: snap snapshot_flags)
    then show "standard_plane_slot (bs_spec snap) (source_plane snap ?r (map of_nat cs))
        (if broadcast_rows snap then 0 else of_nat r) (if broadcast_columns snap then 0 else of_nat c) = Inr slot"
      using slot(1) by (simp only: plane words)
    show "bs_handle snap = Some (owner_address st i)" using h by (simp add: snap snapshot_binary_view_def Let_def)
    show "leaf_bits (data_type (spec out)) = Inr bits" using leaf dt by simp
    show "leaf_width (spec v) = unat bits" "leaf_width (spec out) = unat bits" using w lw by simp_all
    show "unat bits \<le> 64" by (rule storage_viewD(5) [OF sv])
    show "i = j \<longrightarrow> operand_bit st i v cs r c = element_bit st j out cs r c" using same_bit by blast
    show "v = out \<longrightarrow> operand_bit st i v cs r c = element_bit st i out cs r c"
    proof
      assume "v = out"
      then have "i = j" using own ownj by simp
      then show "operand_bit st i v cs r c = element_bit st i out cs r c" using same_bit by simp
    qed
  qed
qed

text \<open>An operand is read where nothing is written, but possibly at the element that is written.\<close>

lemma operand_value_reads:
  assumes op: "derived_operand st device i v" and out: "derived_operand st device j out"
    and storages: "i \<noteq> j \<longrightarrow> storage_span st v \<inter> storage_span st out = {}"
    and c: "cell out cs r c" and cv: "cell v (broadcast_coords (lead_extents v) cs) (operand_row v r) (operand_column v c)"
    and same: "i = j \<longrightarrow> operand_bit st i v cs r c = element_bit st j out cs r c" and lw: "leaf_width (spec v) = leaf_width (spec out)"
    and w64: "leaf_width (spec v) \<le> 64"
    and agree: "\<And>a. (\<And>cs' r' c'. cell out cs' r' c' \<Longrightarrow> (cs', r', c') \<noteq> (cs, r, c) \<Longrightarrow>
        \<not> in_range_of (element_bit st j out cs' r' c') (leaf_width (spec out)) a) \<Longrightarrow> mem_bit m' a = mem_bit m a"
  shows "operand_value st i v m' cs r c = operand_value st i v m cs r c"
  unfolding operand_value_def
proof (rule element_at_eqI [OF w64], rule agree, rule notI)
  fix k cs' r' c'
  assume k: "k < leaf_width (spec v)" and c': "cell out cs' r' c'" "(cs', r', c') \<noteq> (cs, r, c)"
    and "in_range_of (element_bit st j out cs' r' c') (leaf_width (spec out)) (operand_bit st i v cs r c + k)"
  then obtain k' where k': "k' < leaf_width (spec out)" "operand_bit st i v cs r c + k = element_bit st j out cs' r' c' + k'"
    unfolding in_range_of_def by (metis add_less_cancel_left le_Suc_ex)
  show False
  proof (cases "i = j")
    case True
    then show False using elements_apart [OF out c c'(1), of k k'] same k k' lw c'(2) by auto
  next
    case False
    then show False using operands_apart [OF op out _ cv k c'(1) k'(1)] storages k'(2) by blast
  qed
qed

text \<open>The reference body is a loop over the elements of the output.\<close>

definition binary_step ::
  "BinaryRequest \<Rightarrow> scalar_binary \<Rightarrow> usize \<Rightarrow> usize list \<Rightarrow> nat list \<times> nat \<times> nat \<Rightarrow> memory \<Rightarrow> memory throws" where
  "binary_step request scalar bits dims x mem = (case x of (cs, r, c) \<Rightarrow>
     andThen (binary_element_slots request (source_plane (bin_lhs request) dims (map of_nat cs))
         (source_plane (bin_rhs request) dims (map of_nat cs)) (source_plane (bin_out request) dims (map of_nat cs))
         (of_nat r) (of_nat c)) (\<lambda>slots.
     Inr (binary_element request scalar bits (the (bs_handle (bin_lhs request))) (the (bs_handle (bin_rhs request)))
            (the (bs_handle (bin_out request))) slots mem)))"

lemma binary_reference_loop:
  assumes shape: "bin_result_shape request = shape (spec out)" and valid: "valid_shape (shape (spec out))"
    and leaf: "leaf_bits (data_type (bs_spec (bin_out request))) = Inr bits"
  shows "binary_reference_elements request scalar mem
    = for_each (elements_of out) (binary_step request scalar bits (dimensions (shape (spec out)))) mem"
proof -
  let ?d = "dimensions (shape (spec out))"
  have lead: "map unat (take (length ?d - 2) ?d) = lead_extents out"
    by (simp add: lead_extents_def leading_def extents_def rank_def take_map)
  have step: "binary_step request scalar bits ?d = (\<lambda>(cs, r, c). binary_step request scalar bits ?d (cs, r, c))" by auto
  show ?thesis
    unfolding binary_reference_elements_def visit_binary_rows_def Let_def shape leaf andThen_simps visit_coordinates_list lead
      matrix_extents [OF valid] append_Nil
    by (subst step, subst for_each_elements_of, intro for_each_cong refl) (simp add: binary_step_def)
qed

section \<open>Properties\<close>

text \<open>
  C19. An accepted binary operation, run by the scalar reference body: every element of the output becomes
  the codec's result for the operands' elements before the operation, where an axis of extent one of an
  operand is repeated, and no other bit of memory changes. An operand may be the output
  itself; other operands' storage must be apart from the output's, as the allocators give it.
\<close>

theorem binary_elements_written:
  assumes "validate_binary st device operation lhs rhs out = Inr request"
    and "derived_operand st device i lhs" and "derived_operand st device j rhs" and "derived_operand st device k out"
    and "i \<noteq> k \<longrightarrow> storage_span st lhs \<inter> storage_span st out = {}"
    and "j \<noteq> k \<longrightarrow> storage_span st rhs \<inter> storage_span st out = {}"
  shows "\<exists>mem'. binary_reference_elements request scalar mem = Inr mem'
    \<and> (\<forall>cs r c. cell out cs r c \<longrightarrow> element_value st k out mem' cs r c
        = take_bit (leaf_width (spec out)) (scalar (data_type (spec out))
            (operand_value st i lhs mem cs r c) (operand_value st j rhs mem cs r c)))
    \<and> writes_only st k out mem mem'"
proof -
  let ?d = "dimensions (shape (spec out))"
  from assms(1) obtain fl fr fo where shape: "bin_result_shape request = shape (spec out)"
    and spec: "validate_checked_spec (spec out) = Inr ()" and snap: "bin_out request = snapshot_binary_view st out ?d"
    by (rule validate_binary_InrD)
  have valid: "valid_shape (shape (spec out))" using spec by (simp add: validate_checked_spec_Inr)
  have spec': "bs_spec (bin_out request) = spec out" by (simp add: snap snapshot_flags)
  obtain bits where leaf: "leaf_bits (data_type (spec out)) = Inr bits" by (rule derived_operand_view [OF assms(4)])
  let ?V = "\<lambda>cs r c m. scalar (data_type (spec out)) (operand_value st i lhs m cs r c) (operand_value st j rhs m cs r c)"
  show ?thesis
    unfolding binary_reference_loop [OF shape valid leaf [folded spec']]
  proof (rule element_loop [OF assms(4), where V = ?V])
    fix cs r c m
    assume c: "cell out cs r c"
    obtain l where l: "standard_plane_slot (bs_spec (bin_lhs request)) (source_plane (bin_lhs request) ?d (map of_nat cs))
        (if broadcast_rows (bin_lhs request) then 0 else of_nat r) (if broadcast_columns (bin_lhs request) then 0 else of_nat c) = Inr l"
      "bs_handle (bin_lhs request) = Some (owner_address st i)"
      "\<And>mem. load_bits mem (owner_address st i) (l * bits) bits = operand_value st i lhs mem cs r c"
      using operand_access [OF assms(1) _ assms(2,4) c, of "bin_lhs request"] leaf by auto
    obtain x where x: "standard_plane_slot (bs_spec (bin_rhs request)) (source_plane (bin_rhs request) ?d (map of_nat cs))
        (if broadcast_rows (bin_rhs request) then 0 else of_nat r) (if broadcast_columns (bin_rhs request) then 0 else of_nat c) = Inr x"
      "bs_handle (bin_rhs request) = Some (owner_address st j)"
      "\<And>mem. load_bits mem (owner_address st j) (x * bits) bits = operand_value st j rhs mem cs r c"
      using operand_access [OF assms(1) _ assms(3,4) c, of "bin_rhs request"] leaf by auto
    have noflags: "\<not> broadcast_rows (bin_out request)" "\<not> broadcast_columns (bin_out request)" by (simp_all add: snap snapshot_flags)
    obtain d where d: "standard_plane_slot (bs_spec (bin_out request)) (source_plane (bin_out request) ?d (map of_nat cs)) (of_nat r) (of_nat c) = Inr d"
      "bs_handle (bin_out request) = Some (owner_address st k)" "leaf_width (spec out) = unat bits"
      "bits_fit (owner_address st k) (d * bits) (unat bits)" "bit_pos (owner_address st k) (d * bits) = element_bit st k out cs r c"
      using operand_access [OF assms(1) _ assms(4,4) c, of "bin_out request"] leaf noflags by auto
    show "\<exists>m'. binary_step request scalar bits ?d (cs, r, c) m = Inr m'
      \<and> (\<forall>a. mem_bit m' a = (if in_range_of (element_bit st k out cs r c) (leaf_width (spec out)) a
            then bit (?V cs r c m) (a - element_bit st k out cs r c) else mem_bit m a))"
      using l x d
      by (simp add: binary_step_def binary_element_slots_def binary_element_def Let_def store_bits_bit in_range_of_def spec')
  next
    fix cs r c m m'
    assume c: "cell out cs r c" and agree: "\<And>a. (\<And>cs' r' c'. cell out cs' r' c' \<Longrightarrow> (cs', r', c') \<noteq> (cs, r, c) \<Longrightarrow>
        \<not> in_range_of (element_bit st k out cs' r' c') (leaf_width (spec out)) a) \<Longrightarrow> mem_bit m' a = mem_bit m a"
    have "operand_value st i lhs m' cs r c = operand_value st i lhs m cs r c"
    proof -
      obtain b :: usize where f: "leaf_width (spec lhs) = unat b" "leaf_width (spec out) = unat b" "unat b \<le> 64"
          "cell lhs (broadcast_coords (lead_extents lhs) cs) (operand_row lhs r) (operand_column lhs c)"
          "i = k \<longrightarrow> operand_bit st i lhs cs r c = element_bit st k out cs r c"
        by (rule operand_access [OF assms(1) _ assms(2,4) c, of "bin_lhs request"], simp) blast
      show ?thesis by (rule operand_value_reads [OF assms(2,4,5) c f(4,5) _ _ agree]) (simp_all add: f(1-3))
    qed
    moreover have "operand_value st j rhs m' cs r c = operand_value st j rhs m cs r c"
    proof -
      obtain b :: usize where f: "leaf_width (spec rhs) = unat b" "leaf_width (spec out) = unat b" "unat b \<le> 64"
          "cell rhs (broadcast_coords (lead_extents rhs) cs) (operand_row rhs r) (operand_column rhs c)"
          "j = k \<longrightarrow> operand_bit st j rhs cs r c = element_bit st k out cs r c"
        by (rule operand_access [OF assms(1) _ assms(3,4) c, of "bin_rhs request"], simp) blast
      show ?thesis by (rule operand_value_reads [OF assms(3,4,6) c f(4,5) _ _ agree]) (simp_all add: f(1-3))
    qed
    ultimately show "?V cs r c m' = ?V cs r c m" by simp
  qed
qed

lemma sample_big_operands:
  "derived_operand (tensors sample_objects) 7 3 (sample_view 3)" "derived_operand (tensors sample_objects) 7 5 (sample_view 5)"
proof -
  let ?s = "\<lparr>shape = TensorShape [4, 3, 5, 6], data_type = F32, quantization = NONE\<rparr>"
  have v: "valid_shape (TensorShape [4, 3, 5, 6])" by (simp add: valid_shape_def rank_def)
  then have "supported_spec ?s" by (auto simp: supported_spec_def)
  then have n: "tiled_storage_nbytes ?s = Inr 12288"
    by (simp add: tiled_storage_nbytes_cases)
      (simp add: tiled_elements_def leading_def extents_def rows_of_def columns_of_def rank_def
        padded_def leaf_width_def packed_bytes_def)
  show "derived_operand (tensors sample_objects) 7 3 (sample_view 3)"
    by (rule sample_operandI [OF _ _ _ n _ derived_view.full, where handle = 4096])
      (use v sample_tensor_made in \<open>simp_all add: sample_objects_def\<close>)
  have "make_tensor 5 ?s 7 131072 = Inr (tensors sample_objects 5)"
    by (simp add: sample_objects_def make_tensor_def validated_dense_plane_strides_def validate_def
      rank_def dense_plane_strides_def leading_dimensions_of_def checked_mul_cases)
  then show "derived_operand (tensors sample_objects) 7 5 (sample_view 5)"
    by (rule sample_operandI [OF _ _ _ n _ derived_view.full, where handle = 131072, rotated]) (use v in simp_all)
qed

lemma sample_spans:
  "storage_span (tensors sample_objects) (sample_view 3) = {4096..<16384}"
  "storage_span (tensors sample_objects) (sample_view 4) = {65536..<68608}"
  "storage_span (tensors sample_objects) (sample_view 5) = {131072..<143360}"
  by (simp_all add: storage_span_def span_def sample_objects_def sample_simps)

theorem binary_elements_written_witness:
  "\<forall>scalar mem. \<exists>mem'. binary_reference_elements sample_binary_request scalar mem = Inr mem'
     \<and> element_value (tensors sample_objects) 5 (sample_view 5) mem' [3, 2] 4 5
        = take_bit 32 (scalar F32 (element_value (tensors sample_objects) 3 (sample_view 3) mem [3, 2] 4 5)
                                  (element_value (tensors sample_objects) 4 (sample_view 4) mem [2] 0 5))" (is "\<forall>scalar mem. ?P scalar mem")
proof (intro allI)
  fix scalar mem
  let ?st = "tensors sample_objects"
  have ap: "storage_span ?st (sample_view 3) \<inter> storage_span ?st (sample_view 5) = {}"
    "storage_span ?st (sample_view 4) \<inter> storage_span ?st (sample_view 5) = {}"
    unfolding sample_spans by auto
  have c: "cell (sample_view 5) [3, 2] 4 5"
    by (simp add: cell_def leading_coords_def lead_extents_def sample_view_specs leading_def extents_def rank_def rows_of_def columns_of_def)
  have e: "leaf_width (spec (sample_view 5)) = 32" "data_type (spec (sample_view 5)) = F32"
    by (simp_all add: sample_view_specs leaf_width_def)
  have m: "lead_extents (sample_view 3) = [4, 3]" "lead_extents (sample_view 4) = [3]"
    "rows_of (shape (spec (sample_view 3))) = 5" "columns_of (shape (spec (sample_view 3))) = 6"
    "rows_of (shape (spec (sample_view 4))) = 1" "columns_of (shape (spec (sample_view 4))) = 6"
    by (simp_all add: lead_extents_def sample_view_specs leading_def extents_def rank_def rows_of_def columns_of_def)
  have b: "broadcast_coords [4, 3] [3, 2] = [3, 2]" "broadcast_coords [3] [3, 2] = [2]"
    by (simp_all add: broadcast_coords_def upt_rec)
  obtain mem' where "binary_reference_elements sample_binary_request scalar mem = Inr mem'"
    and "element_value ?st 5 (sample_view 5) mem' [3, 2] 4 5
        = take_bit 32 (scalar F32 (operand_value ?st 3 (sample_view 3) mem [3, 2] 4 5) (operand_value ?st 4 (sample_view 4) mem [3, 2] 4 5))"
    using binary_elements_written [OF sample_binary sample_big_operands(1) sample_operands(1) sample_big_operands(2), of scalar mem] ap c e
    by auto
  then show "?P scalar mem" by (auto simp: operand_value_def operand_row_def operand_column_def m b)
qed

end
