(* ===== verification/Cpu_Embedding.thy ===== *)
theory Cpu_Embedding
  imports Cpu_Elements
begin

text \<open>
  The embedding task of the CPU queue, \<open>src/src/cpu/queue.cpp\<close>: all indices are checked before the first
  element is written.
\<close>

section \<open>Embedding\<close>

text \<open>The recursion over the leading axes, given as (extent, index stride, output stride).\<close>

fun visit_embedding_axes ::
  "(usize \<times> usize \<times> usize) list \<Rightarrow> (usize \<Rightarrow> usize \<Rightarrow> 's \<Rightarrow> 's effect) \<Rightarrow> usize \<Rightarrow> usize \<Rightarrow> 's \<Rightarrow> 's effect" where
  "visit_embedding_axes [] operation index_plane output_plane s = operation index_plane output_plane s"
| "visit_embedding_axes ((extent, index_stride, output_stride) # axes) operation index_plane output_plane s =
     effects [0..<unat extent] (\<lambda>index. visit_embedding_axes axes operation
       (index_plane + of_nat index * index_stride) (output_plane + of_nat index * output_stride)) s"

definition visit_embedding_planes ::
  "usize list \<Rightarrow> usize list \<Rightarrow> usize list \<Rightarrow> nat \<Rightarrow> usize \<Rightarrow> usize
     \<Rightarrow> (usize \<Rightarrow> usize \<Rightarrow> 's \<Rightarrow> 's effect) \<Rightarrow> 's \<Rightarrow> 's effect" where
  "visit_embedding_planes dims index_strides output_strides leading_rank index_plane output_plane operation =
     visit_embedding_axes (zip (take leading_rank dims) (zip index_strides output_strides)) operation index_plane output_plane"

definition embedding_index_is_signed :: "DataType \<Rightarrow> bool" where
  "embedding_index_is_signed type = (type \<in> {I2, I4, I8, I16, I32, I64})"

definition index_mask :: "usize \<Rightarrow> 64 word" where
  "index_mask index_bits = (if index_bits = 64 then - 1 else push_bit (unat index_bits) 1 - 1)"

text \<open>One raw index of the run in an index plane.\<close>

definition raw_index :: "EmbeddingRequest \<Rightarrow> usize \<Rightarrow> memory \<Rightarrow> usize \<Rightarrow> nat \<Rightarrow> 64 word throws" where
  "raw_index request index_bits mem index_plane row =
     andThen (standard_plane_slot (cs_spec (emb_indices request)) index_plane 0 (of_nat row)) (\<lambda>index_slot.
     Inr (load_bits mem (the (cs_handle (emb_indices request))) (index_slot * index_bits) index_bits
       AND index_mask index_bits))"

text \<open>
  The task's two passes over memory, which keeps what was written when an exception is thrown. The index
  of a run is read from the memory of the moment in both passes.
\<close>

definition embedding_elements :: "EmbeddingRequest \<Rightarrow> memory \<Rightarrow> memory effect" where
  "embedding_elements request =
     (let table = emb_table request; indices = emb_indices request; out = emb_out request;
          table_dimensions = dimensions (shape (cs_spec table));
          index_dimensions = dimensions (shape (cs_spec indices));
          output_dimensions = dimensions (shape (cs_spec out));
          leading_rank = length index_dimensions - 2;
          run = last index_dimensions; features = last table_dimensions; vocabulary = hd table_dimensions in
      reading (leaf_bits (data_type (cs_spec table))) (\<lambda>payload_bits.
      reading (leaf_bits (data_type (cs_spec indices))) (\<lambda>index_bits.
      let index_is_signed = embedding_index_is_signed (data_type (cs_spec indices));
          validate_indices = (\<lambda>index_plane _. effects [0..<unat run] (\<lambda>row mem.
            reading (raw_index request index_bits mem index_plane row) (\<lambda>raw mem.
            if index_is_signed \<and> raw AND push_bit (unat (index_bits - 1)) 1 \<noteq> 0 then (mem, Inl InvalidArgument)
            else if raw \<ge> vocabulary then (mem, Inl InvalidArgument)
            else (mem, Inr ())) mem));
          gather = (\<lambda>index_plane output_plane. effects [0..<unat run] (\<lambda>row mem.
            reading (raw_index request index_bits mem index_plane row) (\<lambda>table_row.
            effects [0..<unat features] (\<lambda>feature.
              reading (standard_plane_slot (cs_spec table) (cs_plane_offset table) table_row (of_nat feature)) (\<lambda>table_slot.
              reading (standard_plane_slot (cs_spec out) output_plane (of_nat row) (of_nat feature)) (\<lambda>output_slot mem.
              (copy_value (the (cs_handle out)) (output_slot * payload_bits)
                 (the (cs_handle table)) (table_slot * payload_bits) payload_bits mem, Inr ()))))) mem))
      in (\<lambda>mem.
      then_do (visit_embedding_planes index_dimensions (cs_plane_strides indices) (cs_plane_strides out) leading_rank
                 (cs_plane_offset indices) (cs_plane_offset out) validate_indices mem)
        (visit_embedding_planes output_dimensions (cs_plane_strides indices) (cs_plane_strides out) leading_rank
           (cs_plane_offset indices) (cs_plane_offset out) gather)))))"

section \<open>Loops with an invariant\<close>

lemma for_each_invariant:
  assumes "\<And>x s s'. x \<in> set xs \<Longrightarrow> I s \<Longrightarrow> f x s = Inr s' \<Longrightarrow> I s'" and "I s" and "for_each xs f s = Inr s'"
  shows "I s'"
  using assms
proof (induction xs arbitrary: s)
  case (Cons x xs)
  obtain s1 where "f x s = Inr s1" "for_each xs f s1 = Inr s'" using Cons.prems(3) by (auto simp: exn_simps)
  then show ?case using Cons.IH [of s1] Cons.prems by auto
qed simp

lemma for_each_cong_invariant:
  assumes "\<And>x s. x \<in> set xs \<Longrightarrow> I s \<Longrightarrow> f x s = g x s" and "\<And>x s s'. x \<in> set xs \<Longrightarrow> I s \<Longrightarrow> g x s = Inr s' \<Longrightarrow> I s'" and "I s"
  shows "for_each xs f s = for_each xs g s"
  using assms
proof (induction xs arbitrary: s)
  case (Cons x xs)
  show ?case
  proof (cases "g x s")
    case (Inr s1)
    have "I s1" using Cons.prems(2) [OF _ Cons.prems(3) Inr] by simp
    have "for_each xs f s1 = for_each xs g s1"
    proof (rule Cons.IH)
      show "f y t = g y t" if "y \<in> set xs" "I t" for y t using Cons.prems(1) [of y t] that by simp
      show "I t'" if "y \<in> set xs" "I t" "g y t = Inr t'" for y t t' using Cons.prems(2) [of y t t'] that by simp
    qed fact
    then show ?thesis using Inr Cons.prems(1) [OF _ Cons.prems(3), of x] by simp
  qed (use Cons.prems in auto)
qed simp

text \<open>A loop of checks.\<close>

lemma for_each_checks:
  assumes "\<And>x. x \<in> set xs \<Longrightarrow> f x s = (if ok x then Inr s else Inl e)"
  shows "for_each xs f s = (if \<forall>x \<in> set xs. ok x then Inr s else Inl e)"
  using assms by (induction xs) auto

section \<open>Indices\<close>

text \<open>The number an index element stands for.\<close>

definition index_value :: "DataType \<Rightarrow> nat \<Rightarrow> 64 word \<Rightarrow> int" where
  "index_value type w raw = (if embedding_index_is_signed type then signed_take_bit (w - 1) (uint raw) else uint raw)"

lemma element_at_mask:
  assumes "w \<le> 64"
  shows "element_at base w v mem cs r c AND index_mask (of_nat w) = element_at base w v mem cs r c"
proof (rule bit_eqI)
  fix k
  assume "possible_bit TYPE(64 word) k"
  then have k: "k < 64" by simp
  have "unat (of_nat w :: usize) = w" using assms by (intro unat_of_nat_fits) simp
  moreover have "push_bit w 1 - 1 = (mask w :: 64 word)" by (simp add: mask_eq_exp_minus_1 push_bit_eq_mult)
  moreover have "(of_nat w :: usize) = 64 \<longleftrightarrow> w = 64" using calculation(1) by (simp add: word_unat_eq_iff)
  moreover have "(mask 64 :: 64 word) = - 1" by (rule bit_eqI) (simp add: bit_mask_iff)
  ultimately have "index_mask (of_nat w) = mask w" by (simp add: index_mask_def)
  then show "bit (element_at base w v mem cs r c AND index_mask (of_nat w)) k = bit (element_at base w v mem cs r c) k"
    using k by (auto simp: bit_and_iff bit_mask_iff bit_element_at [OF assms])
qed

lemma index_value_uint:
  assumes raw: "\<And>k. bit raw k \<Longrightarrow> k < w" and nb: "\<not> (embedding_index_is_signed type \<and> bit (uint raw) (w - 1))"
  shows "index_value type w raw = uint raw"
proof (cases "embedding_index_is_signed type")
  case True
  with nb have nb: "\<not> bit (uint raw) (w - 1)" by simp
  have "take_bit (w - 1) (uint raw) = uint raw"
  proof (rule bit_eqI)
    fix k
    have "bit (uint raw) k \<Longrightarrow> k < w - 1" using raw [of k] nb by (cases "k = w - 1") (auto simp: bit_uint_iff)
    then show "bit (take_bit (w - 1) (uint raw)) k = bit (uint raw) k" by (auto simp: bit_take_bit_iff)
  qed
  then show ?thesis using True nb by (simp add: index_value_def signed_take_bit_eq_if_positive)
qed (simp add: index_value_def)

lemma index_checks:
  assumes raw: "\<And>k. bit raw k \<Longrightarrow> k < w" and w: "0 < w" "w \<le> 64"
  shows "\<not> (embedding_index_is_signed type \<and> raw AND push_bit (w - 1) 1 \<noteq> 0) \<and> \<not> raw \<ge> n
    \<longleftrightarrow> 0 \<le> index_value type w raw \<and> index_value type w raw < int (unat n)"
proof -
  have "w - 1 < 64" using w by simp
  then have sign: "raw AND push_bit (w - 1) 1 \<noteq> 0 \<longleftrightarrow> bit (uint raw) (w - 1)"
    using bit_iff_and_push_bit_not_eq_0 [of raw "w - 1"] by (simp add: bit_uint_iff)
  have lt: "\<not> raw \<ge> n \<longleftrightarrow> uint raw < int (unat n)" by (simp only: not_le word_less_def int_nat_eq unat_eq_nat_uint) simp
  show ?thesis
  proof (cases "embedding_index_is_signed type \<and> bit (uint raw) (w - 1)")
    case True
    then have "\<not> 0 \<le> index_value type w raw" by (simp add: index_value_def signed_take_bit_nonnegative_iff)
    with True show ?thesis using sign by simp
  next
    case False
    have "index_value type w raw = uint raw" using raw False by (rule index_value_uint)
    with False show ?thesis using sign lt by simp
  qed
qed

lemma raw_index_value:
  assumes v: "storage_view base P bits v" and req: "cs_spec (emb_indices request) = spec v" "cs_handle (emb_indices request) = Some base"
    and c: "cell v cs 0 c"
  shows "raw_index request bits mem (of_nat (view_plane v cs)) c = Inr (element_at base (unat bits) v mem cs 0 c)"
proof -
  obtain slot where "standard_plane_slot (spec v) (of_nat (view_plane v cs)) (of_nat 0) (of_nat c) = Inr slot"
    "\<And>mem. load_bits mem base (slot * bits) bits = element_at base (unat bits) v mem cs 0 c"
    using element_slot [OF v c] by metis
  moreover have "element_at base (unat bits) v mem cs 0 c AND index_mask bits = element_at base (unat bits) v mem cs 0 c"
    using element_at_mask [OF storage_viewD(5) [OF v], of base v mem cs 0 c] by simp
  ultimately show ?thesis by (simp add: raw_index_def req)
qed

section \<open>Operands of an embedding\<close>

text \<open>What admission gives for the shapes, with the request's snapshots.\<close>

definition embedding_operands_ok :: "store \<Rightarrow> EmbeddingRequest \<Rightarrow> TensorView \<Rightarrow> TensorView \<Rightarrow> TensorView \<Rightarrow> bool" where
  "embedding_operands_ok st request table indices out \<longleftrightarrow>
     emb_table request = snapshot_copy_view st table \<and> emb_indices request = snapshot_copy_view st indices
     \<and> emb_out request = snapshot_copy_view st out
     \<and> rank (shape (spec table)) = 2 \<and> rows_of (shape (spec indices)) = 1
     \<and> lead_extents out = lead_extents indices \<and> rows_of (shape (spec out)) = columns_of (shape (spec indices))
     \<and> columns_of (shape (spec out)) = columns_of (shape (spec table)) \<and> data_type (spec table) = data_type (spec out)"

lemma embedding_shapes:
  assumes "derived_operand st device i table" and "derived_operand st device j indices" and "derived_operand st device k out"
    and "validate_embedding st device table indices out = Inr ()"
    and "emb_table request = snapshot_copy_view st table" "emb_indices request = snapshot_copy_view st indices"
      "emb_out request = snapshot_copy_view st out"
  shows "embedding_operands_ok st request table indices out"
    and "storage_span st table \<inter> storage_span st out = {}" and "storage_span st indices \<inter> storage_span st out = {}"
proof -
  have adm: "rank (shape (spec table)) = 2" "rows_of (shape (spec indices)) = 1"
      "extents (shape (spec out)) = leading (shape (spec indices)) @ [columns_of (shape (spec indices)), columns_of (shape (spec table))]"
      "data_type (spec table) = data_type (spec out)" "storage_span st out \<inter> storage_span st table = {}"
      "storage_span st out \<inter> storage_span st indices = {}"
    using embedding_admission [OF assms(1-3)] assms(4) by blast+
  have valid: "valid_shape (shape (spec out))" by (rule derived_operand_view [OF assms(3)]) (rule storage_viewD(2))
  have "leading (shape (spec out)) @ [rows_of (shape (spec out)), columns_of (shape (spec out))]
      = leading (shape (spec indices)) @ [columns_of (shape (spec indices)), columns_of (shape (spec table))]"
    using adm(3) extents_split [OF valid] by simp
  then show "embedding_operands_ok st request table indices out"
    using adm assms(5-7) by (simp add: embedding_operands_ok_def lead_extents_def)
  show "storage_span st table \<inter> storage_span st out = {}" "storage_span st indices \<inter> storage_span st out = {}" using adm(5,6) by auto
qed

text \<open>One element of the gather.\<close>

definition gather_step ::
  "EmbeddingRequest \<Rightarrow> usize \<Rightarrow> usize \<Rightarrow> usize \<Rightarrow> nat \<Rightarrow> nat \<Rightarrow> memory \<Rightarrow> memory throws" where
  "gather_step request payload_bits output_plane table_row row feature mem =
     andThen (standard_plane_slot (cs_spec (emb_table request)) (cs_plane_offset (emb_table request)) table_row (of_nat feature)) (\<lambda>table_slot.
     andThen (standard_plane_slot (cs_spec (emb_out request)) output_plane (of_nat row) (of_nat feature)) (\<lambda>output_slot.
     Inr (copy_value (the (cs_handle (emb_out request))) (output_slot * payload_bits)
            (the (cs_handle (emb_table request))) (table_slot * payload_bits) payload_bits mem)))"

lemma settle_visit_embedding_axes:
  "settle (visit_embedding_axes axes operation i j s) = visit_plane_pairs axes (\<lambda>i j s. settle (operation i j s)) i j s"
  by (induction axes arbitrary: i j s) (auto simp: settle_effects)

lemma fst_visit_embedding_axes:
  assumes "\<And>i j. fst (operation i j s) = s"
  shows "fst (visit_embedding_axes axes operation i j s) = s"
proof (induction axes arbitrary: i j)
  case (Cons axis axes)
  then show ?case by (cases axis) (simp, rule fst_effects, simp)
qed (simp add: assms)

lemma embedding_passes:
  assumes ok: "embedding_operands_ok st request table indices out"
    and vt: "valid_shape (shape (spec table))" and vi: "storage_view bi Pi ibits indices" and vo: "storage_view bo Po bits out"
    and leaf: "leaf_bits (data_type (spec table)) = Inr bits"
  obtains V G where "embedding_elements request mem = then_do V G" "fst V = mem"
    "settle V = for_each (coords_list (lead_extents indices)) (\<lambda>cs. for_each [0..<columns_of (shape (spec indices))] (\<lambda>row mem.
       andThen (raw_index request ibits mem (of_nat (view_plane indices cs)) row) (\<lambda>raw.
         if embedding_index_is_signed (data_type (spec indices)) \<and> raw AND push_bit (unat (ibits - 1)) 1 \<noteq> 0 then Inl InvalidArgument
         else if raw \<ge> hd (dimensions (shape (spec table))) then Inl InvalidArgument else Inr mem))) mem"
    "\<And>m. settle (G m) = for_each (coords_list (lead_extents out)) (\<lambda>cs. for_each [0..<rows_of (shape (spec out))] (\<lambda>row mem.
       andThen (raw_index request ibits mem (of_nat (view_plane indices cs)) row) (\<lambda>table_row.
       for_each [0..<columns_of (shape (spec out))] (gather_step request bits (of_nat (view_plane out cs)) table_row row) mem))) m"
proof -
  let ?di = "dimensions (shape (spec indices))" and ?do = "dimensions (shape (spec out))"
  note sv = storage_viewD [OF vi] and so = storage_viewD [OF vo]
  have o: "emb_table request = snapshot_copy_view st table" "emb_indices request = snapshot_copy_view st indices"
    "emb_out request = snapshot_copy_view st out" "lead_extents out = lead_extents indices"
    "rows_of (shape (spec out)) = columns_of (shape (spec indices))" "columns_of (shape (spec out)) = columns_of (shape (spec table))"
    using ok by (simp_all add: embedding_operands_ok_def)
  have fields: "cs_spec (snapshot_copy_view st u) = spec u" "cs_plane_offset (snapshot_copy_view st u) = plane_offset u"
    "cs_plane_strides (snapshot_copy_view st u) = plane_strides u" for u by (simp_all add: snapshot_copy_view_def)
  have "length (lead_extents out) = length (lead_extents indices)" using o(4) by simp
  then have rr: "length ?do - 2 = length ?di - 2" by (simp add: lead_extents_def length_leading rank_def)
  have leads: "map unat (take (length ?di - 2) ?di) = lead_extents indices" "map unat (take (length ?di - 2) ?do) = lead_extents indices"
    using o(4) unfolding rr [symmetric] by (simp_all add: lead_extents_def leading_def extents_def rank_def take_map rr)
  have len: "length (plane_strides indices) = length (take (length ?di - 2) ?di)" "length (plane_strides out) = length (take (length ?di - 2) ?di)"
    "length (plane_strides indices) = length (take (length ?di - 2) ?do)" "length (plane_strides out) = length (take (length ?di - 2) ?do)"
    using sv(6) so(6) rr by (simp_all add: rank_def)
  have plane: "plane_offset u + of_nat (dot cs (map unat (plane_strides u))) = of_nat (view_plane u cs)" for u cs
    by (simp add: view_plane_def lead_strides_def)
  note me = matrix_extents [OF sv(2)] matrix_extents [OF vt]
  let ?validate = "\<lambda>index_plane (_ :: usize). effects [0..<unat (last ?di)] (\<lambda>row mem.
      reading (raw_index request ibits mem index_plane row) (\<lambda>raw mem.
        if embedding_index_is_signed (data_type (spec indices)) \<and> raw AND push_bit (unat (ibits - 1)) 1 \<noteq> 0 then (mem, Inl InvalidArgument)
        else if raw \<ge> hd (dimensions (shape (spec table))) then (mem, Inl InvalidArgument) else (mem, Inr ())) mem)"
  let ?gather = "\<lambda>index_plane output_plane. effects [0..<unat (last ?di)] (\<lambda>row mem.
      reading (raw_index request ibits mem index_plane row) (\<lambda>table_row.
        effects [0..<unat (last (dimensions (shape (spec table))))] (\<lambda>feature.
          reading (standard_plane_slot (spec table) (plane_offset table) table_row (of_nat feature)) (\<lambda>table_slot.
          reading (standard_plane_slot (spec out) output_plane (of_nat row) (of_nat feature)) (\<lambda>output_slot mem.
            (copy_value (the (native_handle st out)) (output_slot * bits)
               (the (native_handle st table)) (table_slot * bits) bits mem, Inr ()))))) mem)"
  let ?visit = "\<lambda>dims. visit_embedding_planes dims (plane_strides indices) (plane_strides out) (length ?di - 2)
      (plane_offset indices) (plane_offset out)"
  have handles: "cs_handle (snapshot_copy_view st u) = native_handle st u" for u by (simp add: snapshot_copy_view_def)
  show thesis
  proof (rule that)
    show "embedding_elements request mem = then_do (?visit ?di ?validate mem) (?visit ?do ?gather)"
      by (simp only: embedding_elements_def Let_def o(1-3) fields handles leaf sv(3) reading_def sum.case)
    show "fst (?visit ?di ?validate mem) = mem"
      unfolding visit_embedding_planes_def
      by (rule fst_visit_embedding_axes, rule fst_effects, rule fst_reading) simp
    show "settle (?visit ?di ?validate mem) = for_each (coords_list (lead_extents indices)) (\<lambda>cs. for_each [0..<columns_of (shape (spec indices))] (\<lambda>row mem.
       andThen (raw_index request ibits mem (of_nat (view_plane indices cs)) row) (\<lambda>raw.
         if embedding_index_is_signed (data_type (spec indices)) \<and> raw AND push_bit (unat (ibits - 1)) 1 \<noteq> 0 then Inl InvalidArgument
         else if raw \<ge> hd (dimensions (shape (spec table))) then Inl InvalidArgument else Inr mem))) mem"
      unfolding visit_embedding_planes_def settle_visit_embedding_axes settle_simps
        visit_plane_pairs_coords [OF len(1,2)] leads plane me ..
    show "settle (?visit ?do ?gather m) = for_each (coords_list (lead_extents out)) (\<lambda>cs. for_each [0..<rows_of (shape (spec out))] (\<lambda>row mem.
       andThen (raw_index request ibits mem (of_nat (view_plane indices cs)) row) (\<lambda>table_row.
       for_each [0..<columns_of (shape (spec out))] (gather_step request bits (of_nat (view_plane out cs)) table_row row) mem))) m" for m
      unfolding visit_embedding_planes_def settle_visit_embedding_axes settle_simps
        visit_plane_pairs_coords [OF len(3,4)] leads plane me o(4-6)
      by (simp only: gather_step_def [abs_def] o(1-3) fields handles)
  qed
qed

lemma gather_step_stores:
  assumes req: "embedding_operands_ok st request table indices out"
    and table: "derived_operand st device i table" and out: "derived_operand st device k out"
    and leaf: "leaf_bits (data_type (spec table)) = Inr bits"
    and ap: "storage_span st table \<inter> storage_span st out = {}"
    and c: "cell out cs r c" and row: "unat t < rows_of (shape (spec table))"
  shows "\<exists>m'. gather_step request bits (of_nat (view_plane out cs)) t r c m = Inr m'
    \<and> (\<forall>a. mem_bit m' a = (if in_range_of (element_bit st k out cs r c) (leaf_width (spec out)) a
          then bit (element_value st i table m [] (unat t) c) (a - element_bit st k out cs r c) else mem_bit m a))"
proof -
  obtain P where vt: "storage_view (owner_address st i) P bits table" and w: "unat bits = leaf_width (spec table)"
    and ht: "native_handle st table = Some (owner_address st i)"
    using derived_operand_view [OF table] leaf by (metis sum.inject(2))
  have o: "emb_table request = snapshot_copy_view st table" "emb_out request = snapshot_copy_view st out" "rank (shape (spec table)) = 2"
    "columns_of (shape (spec out)) = columns_of (shape (spec table))" "data_type (spec table) = data_type (spec out)"
    using req by (simp_all add: embedding_operands_ok_def)
  obtain P' where vo: "storage_view (owner_address st k) P' bits out" and ho: "native_handle st out = Some (owner_address st k)"
    using derived_operand_view [OF out] leaf o(5) by (metis sum.inject(2))
  have lw: "leaf_width (spec out) = leaf_width (spec table)" by (simp add: leaf_width_def o(5))
  note w64 = storage_viewD(5) [OF vt]
  have "lead_extents table = []" using o(3) by (simp add: lead_extents_def leading_def)
  then have ct: "cell table [] (unat t) c" and pt: "of_nat (view_plane table []) = plane_offset table"
    using row c o(4) by (simp_all add: cell_def leading_coords_def view_plane_def)
  obtain ts where ts: "standard_plane_slot (spec table) (plane_offset table) t (of_nat c) = Inr ts"
      "bits_fit (owner_address st i) (ts * bits) (unat bits)" "bit_pos (owner_address st i) (ts * bits) = element_bit st i table [] (unat t) c"
    using element_slot [OF vt ct] unfolding pt w word_of_unat [OF refl, symmetric] by metis
  obtain os where os: "standard_plane_slot (spec out) (of_nat (view_plane out cs)) (of_nat r) (of_nat c) = Inr os"
      "bits_fit (owner_address st k) (os * bits) (unat bits)" "bit_pos (owner_address st k) (os * bits) = element_bit st k out cs r c"
    using element_slot [OF vo c] unfolding lw w by metis
  have whole: "unat (os * bits) mod 8 = 0 \<and> unat (ts * bits) mod 8 = 0" if "unat bits mod 8 = 0"
  proof -
    have "unat (ts * bits) = plane_slot (shape (spec table)) (view_plane table []) (unat t) c * unat bits"
      "unat (os * bits) = plane_slot (shape (spec out)) (view_plane out cs) r c * unat bits"
      using ts(3) os(3) by (simp_all add: bit_pos_def element_pos_def w lw)
    with that show ?thesis by (metis mod_mult_right_eq mult_0_right mod_0)
  qed
  have moved: "bits_moved (element_bit st k out cs r c) (element_bit st i table [] (unat t) c) (leaf_width (spec out)) m
      (copy_value (owner_address st k) (os * bits) (owner_address st i) (ts * bits) bits m)"
    using copy_value_moves [OF os(2) ts(2) whole, of m] w64 unfolding os(3) ts(3) w lw by simp
  have "mem_bit (copy_value (owner_address st k) (os * bits) (owner_address st i) (ts * bits) bits m) a
      = (if in_range_of (element_bit st k out cs r c) (leaf_width (spec out)) a
         then bit (element_value st i table m [] (unat t) c) (a - element_bit st k out cs r c) else mem_bit m a)" for a
  proof (cases "in_range_of (element_bit st k out cs r c) (leaf_width (spec out)) a")
    case True
    then have "a - element_bit st k out cs r c < leaf_width (spec table)" unfolding in_range_of_def lw by linarith
    with True moved w64 show ?thesis by (simp add: bits_moved_def in_range_of_def bit_element_at w lw)
  next
    case False
    with moved show ?thesis unfolding bits_moved_def in_range_of_def by (metis (no_types, lifting))
  qed
  then show ?thesis
    by (simp add: gather_step_def o(1,2) snapshot_copy_view_def ht ho ts(1) os(1))
qed

text \<open>The first pass: every index is the number of a row of the table.\<close>

definition indices_in_range :: "store \<Rightarrow> tensor_ref \<Rightarrow> TensorView \<Rightarrow> TensorView \<Rightarrow> memory \<Rightarrow> bool" where
  "indices_in_range st j indices table mem \<longleftrightarrow>
     (\<forall>cs c. cell indices cs 0 c \<longrightarrow>
        0 \<le> index_value (data_type (spec indices)) (leaf_width (spec indices)) (element_value st j indices mem cs 0 c)
        \<and> index_value (data_type (spec indices)) (leaf_width (spec indices)) (element_value st j indices mem cs 0 c)
            < int (rows_of (shape (spec table))))"

lemma index_value_raw:
  assumes "0 \<le> index_value type w raw" and "\<And>k. bit raw k \<Longrightarrow> k < w"
  shows "index_value type w raw = int (unat raw)"
proof -
  have "\<not> (embedding_index_is_signed type \<and> bit (uint raw) (w - 1))"
    using assms(1) by (auto simp: index_value_def signed_take_bit_nonnegative_iff)
  from index_value_uint [OF assms(2) this] show ?thesis by simp
qed

lemma embedding_checks:
  assumes ok: "embedding_operands_ok st request table indices out"
    and table: "valid_shape (shape (spec table))" and ind: "derived_operand st device j indices"
    and leaf: "leaf_bits (data_type (spec indices)) = Inr ibits"
  shows "for_each (coords_list (lead_extents indices)) (\<lambda>cs. for_each [0..<columns_of (shape (spec indices))] (\<lambda>row mem.
       andThen (raw_index request ibits mem (of_nat (view_plane indices cs)) row) (\<lambda>raw.
         if embedding_index_is_signed (data_type (spec indices)) \<and> raw AND push_bit (unat (ibits - 1)) 1 \<noteq> 0 then Inl InvalidArgument
         else if raw \<ge> hd (dimensions (shape (spec table))) then Inl InvalidArgument else Inr mem))) mem
     = (if indices_in_range st j indices table mem then Inr mem else Inl InvalidArgument)"
proof -
  let ?w = "leaf_width (spec indices)"
  let ?good = "\<lambda>cs c. 0 \<le> index_value (data_type (spec indices)) ?w (element_value st j indices mem cs 0 c)
      \<and> index_value (data_type (spec indices)) ?w (element_value st j indices mem cs 0 c) < int (rows_of (shape (spec table)))"
  obtain P where v: "storage_view (owner_address st j) P ibits indices" and w: "unat ibits = ?w"
    and h: "native_handle st indices = Some (owner_address st j)"
    using derived_operand_view [OF ind] leaf by (metis sum.inject(2))
  note sv = storage_viewD [OF v]
  have o: "emb_indices request = snapshot_copy_view st indices" "rows_of (shape (spec indices)) = 1" "rank (shape (spec table)) = 2"
    using ok by (simp_all add: embedding_operands_ok_def)
  have req: "cs_spec (emb_indices request) = spec indices" "cs_handle (emb_indices request) = Some (owner_address st j)"
    by (simp_all add: o(1) snapshot_copy_view_def h)
  have w1: "unat (ibits - 1) = ?w - 1" using sv(4) w by (subst unat_sub) (simp_all add: word_le_nat_alt)
  have hd: "unat (hd (dimensions (shape (spec table)))) = rows_of (shape (spec table))"
    using matrix_extents(1) [OF table] o(3) by (cases "dimensions (shape (spec table))") (auto simp: rank_def)
  have check: "andThen (raw_index request ibits mem (of_nat (view_plane indices cs)) c) (\<lambda>raw.
         if embedding_index_is_signed (data_type (spec indices)) \<and> raw AND push_bit (unat (ibits - 1)) 1 \<noteq> 0 then Inl InvalidArgument
         else if raw \<ge> hd (dimensions (shape (spec table))) then Inl InvalidArgument else Inr mem)
      = (if ?good cs c then Inr mem else Inl InvalidArgument)" if c: "cell indices cs 0 c" for cs c
  proof -
    have bits: "k < ?w" if "bit (element_value st j indices mem cs 0 c) k" for k
      using that sv(5) w by (simp add: bit_element_at)
    have "\<not> (embedding_index_is_signed (data_type (spec indices)) \<and> element_value st j indices mem cs 0 c AND push_bit (?w - 1) 1 \<noteq> 0)
        \<and> \<not> element_value st j indices mem cs 0 c \<ge> hd (dimensions (shape (spec table))) \<longleftrightarrow> ?good cs c"
      unfolding hd [symmetric] by (rule index_checks [OF bits]) (use sv(4,5) w in simp_all)
    then show ?thesis unfolding raw_index_value [OF v req c] andThen_simps w1 w by (smt (verit, best))
  qed
  have cells: "cell indices cs 0 c \<longleftrightarrow> cs \<in> set (coords_list (lead_extents indices)) \<and> c \<in> set [0..<columns_of (shape (spec indices))]" for cs c
    using o(2) by (simp add: cell_def leading_coords_def set_coords_list)
  have "for_each (coords_list (lead_extents indices)) (\<lambda>cs. for_each [0..<columns_of (shape (spec indices))] (\<lambda>row mem.
       andThen (raw_index request ibits mem (of_nat (view_plane indices cs)) row) (\<lambda>raw.
         if embedding_index_is_signed (data_type (spec indices)) \<and> raw AND push_bit (unat (ibits - 1)) 1 \<noteq> 0 then Inl InvalidArgument
         else if raw \<ge> hd (dimensions (shape (spec table))) then Inl InvalidArgument else Inr mem))) mem
     = (if \<forall>cs \<in> set (coords_list (lead_extents indices)). \<forall>c \<in> set [0..<columns_of (shape (spec indices))]. ?good cs c
        then Inr mem else Inl InvalidArgument)"
    by (rule for_each_checks, rule for_each_checks) (rule check, simp only: cells)
  moreover have "(\<forall>cs \<in> set (coords_list (lead_extents indices)). \<forall>c \<in> set [0..<columns_of (shape (spec indices))]. ?good cs c)
      \<longleftrightarrow> indices_in_range st j indices table mem" unfolding indices_in_range_def cells by blast
  ultimately show ?thesis by (simp only:)
qed

section \<open>Properties\<close>

text \<open>
  C20. An accepted embedding. The task fails with \<open>std::invalid_argument\<close> exactly when some index, read as the
  signed or unsigned number of its type, is negative or not below the number of rows of the table, and
  memory is then what it was before the task. Otherwise row \<open>r\<close> of each plane of the output becomes the table's row
  that the plane's \<open>r\<close>-th index names, and no other bit of memory changes.
\<close>

theorem embedding_gathers_rows:
  assumes "validate_embedding st device table indices out = Inr ()"
    and "derived_operand st device i table" and "derived_operand st device j indices" and "derived_operand st device k out"
    and "emb_table request = snapshot_copy_view st table" "emb_indices request = snapshot_copy_view st indices"
      "emb_out request = snapshot_copy_view st out"
  shows "(if indices_in_range st j indices table mem
      then \<exists>mem'. embedding_elements request mem = (mem', Inr ())
        \<and> (\<forall>cs r c. cell out cs r c \<longrightarrow> element_value st k out mem' cs r c
             = element_value st i table mem []
                 (nat (index_value (data_type (spec indices)) (leaf_width (spec indices)) (element_value st j indices mem cs 0 r))) c)
        \<and> writes_only st k out mem mem'
      else embedding_elements request mem = (mem, Inl InvalidArgument))"
proof -
  note ok = embedding_shapes(1) [OF assms(2-4,1,5-7)] and ap = embedding_shapes(2,3) [OF assms(2-4,1,5-7)]
  have o: "rows_of (shape (spec indices)) = 1" "lead_extents out = lead_extents indices"
    "rows_of (shape (spec out)) = columns_of (shape (spec indices))" "data_type (spec table) = data_type (spec out)"
    using ok by (simp_all add: embedding_operands_ok_def)
  obtain P bits where vt: "storage_view (owner_address st i) P bits table" and wt: "unat bits = leaf_width (spec table)"
    and leaf: "leaf_bits (data_type (spec table)) = Inr bits"
    by (rule derived_operand_view [OF assms(2)])
  obtain Pi ibits where vi: "storage_view (owner_address st j) Pi ibits indices" and wi: "unat ibits = leaf_width (spec indices)"
    and ileaf: "leaf_bits (data_type (spec indices)) = Inr ibits" and hi: "native_handle st indices = Some (owner_address st j)"
    by (rule derived_operand_view [OF assms(3)])
  obtain Po where vo: "storage_view (owner_address st k) Po bits out"
    using derived_operand_view [OF assms(4)] leaf o(4) by (metis sum.inject(2))
  obtain V G where run: "embedding_elements request mem = then_do V G" and V: "fst V = mem"
    and passes: "settle V = (if indices_in_range st j indices table mem then Inr mem else Inl InvalidArgument)"
      "\<And>m. settle (G m) = for_each (coords_list (lead_extents out)) (\<lambda>cs. for_each [0..<rows_of (shape (spec out))] (\<lambda>row mem.
         andThen (raw_index request ibits mem (of_nat (view_plane indices cs)) row) (\<lambda>table_row.
         for_each [0..<columns_of (shape (spec out))] (gather_step request bits (of_nat (view_plane out cs)) table_row row) mem))) m"
    by (rule embedding_passes [OF ok storage_viewD(2) [OF vt] vi vo leaf, of mem],
        unfold embedding_checks [OF ok storage_viewD(2) [OF vt] assms(3) ileaf, of mem], blast)
  show ?thesis
  proof (cases "indices_in_range st j indices table mem")
    case False
    then have "snd V = Inl InvalidArgument" using passes(1) by (simp add: settle_Inl_iff)
    with False V show ?thesis unfolding run by (cases V) (simp add: then_do_def)
  next
    case True
    let ?T = "\<lambda>cs r. element_value st j indices mem cs 0 r"
    let ?I = "\<lambda>m. \<forall>cs c b. cell indices cs 0 c \<and> b < leaf_width (spec indices) \<longrightarrow>
        mem_bit m (element_bit st j indices cs 0 c + b) = mem_bit mem (element_bit st j indices cs 0 c + b)"
    let ?f = "\<lambda>(cs, r, c). gather_step request bits (of_nat (view_plane out cs)) (?T cs r) r c"
    have ic: "cell indices cs 0 r" if "cell out cs r c" for cs r c
      using that o by (auto simp: cell_def leading_coords_def)
    have bits: "b < leaf_width (spec indices)" if "bit (?T cs r) b" for cs r b
      using that storage_viewD(5) [OF vi] wi by (simp add: bit_element_at)
    have val: "index_value (data_type (spec indices)) (leaf_width (spec indices)) (?T cs r) = int (unat (?T cs r))"
      and row: "unat (?T cs r) < rows_of (shape (spec table))" if c: "cell out cs r c" for cs r c
    proof -
      have g: "0 \<le> index_value (data_type (spec indices)) (leaf_width (spec indices)) (?T cs r)"
        "index_value (data_type (spec indices)) (leaf_width (spec indices)) (?T cs r) < int (rows_of (shape (spec table)))"
        using True ic [OF c] by (simp_all add: indices_in_range_def)
      show v: "index_value (data_type (spec indices)) (leaf_width (spec indices)) (?T cs r) = int (unat (?T cs r))"
        by (rule index_value_raw [OF g(1) bits])
      show "unat (?T cs r) < rows_of (shape (spec table))" using g(2) unfolding v by (simp only: of_nat_less_iff)
    qed
    note step = gather_step_stores [OF ok assms(2,4) leaf ap(1)]
    have keep: "?I m'" if c: "cell out cs r c" and inv: "?I m" and run: "gather_step request bits (of_nat (view_plane out cs)) (?T cs r) r c m = Inr m'"
      for cs r c m m'
    proof (intro allI impI, elim conjE)
      fix cs' c' b
      assume c': "cell indices cs' 0 c'" and b: "b < leaf_width (spec indices)"
      have "\<not> in_range_of (element_bit st k out cs r c) (leaf_width (spec out)) (element_bit st j indices cs' 0 c' + b)"
      proof
        assume "in_range_of (element_bit st k out cs r c) (leaf_width (spec out)) (element_bit st j indices cs' 0 c' + b)"
        then obtain b' where "element_bit st j indices cs' 0 c' + b = element_bit st k out cs r c + b'" "b' < leaf_width (spec out)"
          unfolding in_range_of_def by (metis add_less_cancel_left le_Suc_ex)
        with operands_apart [OF assms(3,4) ap(2) c' b c] show False by blast
      qed
      then have "mem_bit m' (element_bit st j indices cs' 0 c' + b) = mem_bit m (element_bit st j indices cs' 0 c' + b)"
        using step [OF c row [OF c], of m] run by auto
      then show "mem_bit m' (element_bit st j indices cs' 0 c' + b) = mem_bit mem (element_bit st j indices cs' 0 c' + b)"
        using inv c' b by simp
    qed
    have cells: "cell out cs r c \<longleftrightarrow> cs \<in> set (coords_list (lead_extents out)) \<and> r \<in> set [0..<rows_of (shape (spec out))]
        \<and> c \<in> set [0..<columns_of (shape (spec out))]" for cs r c
      by (auto simp: cell_def leading_coords_def set_coords_list)
    have inner: "?I m'" if "cs \<in> set (coords_list (lead_extents out))" "r \<in> set [0..<rows_of (shape (spec out))]" "?I m"
      "for_each [0..<columns_of (shape (spec out))] (gather_step request bits (of_nat (view_plane out cs)) (?T cs r) r) m = Inr m'" for cs r m m'
      by (rule for_each_invariant [where I = ?I, OF keep _ that(4)]) (use that cells in auto)
    have req: "cs_spec (emb_indices request) = spec indices" "cs_handle (emb_indices request) = Some (owner_address st j)"
      by (simp_all add: assms(6) snapshot_copy_view_def hi)
    have raw: "raw_index request ibits m (of_nat (view_plane indices cs)) r = Inr (?T cs r)"
      if "cs \<in> set (coords_list (lead_extents out))" "r \<in> set [0..<rows_of (shape (spec out))]" and inv: "?I m" for cs r m
    proof -
      have c: "cell indices cs 0 r" using that(1,2) o by (auto simp: cell_def leading_coords_def set_coords_list)
      have "element_value st j indices m cs 0 r = ?T cs r"
        by (rule element_at_eqI) (use storage_viewD(5) [OF vi] wi inv c in simp_all)
      then show ?thesis using raw_index_value [OF vi req c, of m] wi by simp
    qed
    have "for_each (coords_list (lead_extents out)) (\<lambda>cs. for_each [0..<rows_of (shape (spec out))] (\<lambda>row mem.
         andThen (raw_index request ibits mem (of_nat (view_plane indices cs)) row) (\<lambda>table_row.
         for_each [0..<columns_of (shape (spec out))] (gather_step request bits (of_nat (view_plane out cs)) table_row row) mem))) mem
      = for_each (elements_of out) ?f mem"
      unfolding for_each_elements_of
    proof (rule for_each_cong_invariant [where I = ?I])
      show "for_each [0..<rows_of (shape (spec out))] (\<lambda>row mem.
         andThen (raw_index request ibits mem (of_nat (view_plane indices cs)) row) (\<lambda>table_row.
         for_each [0..<columns_of (shape (spec out))] (gather_step request bits (of_nat (view_plane out cs)) table_row row) mem)) m
        = for_each [0..<rows_of (shape (spec out))] (\<lambda>r. for_each [0..<columns_of (shape (spec out))] (gather_step request bits (of_nat (view_plane out cs)) (?T cs r) r)) m"
        if cs: "cs \<in> set (coords_list (lead_extents out))" and inv: "?I m" for cs m
        by (rule for_each_cong_invariant [where I = ?I, OF _ inner [OF cs] inv]) (simp only: raw [OF cs] andThen_simps)
      show "?I m'" if cs: "cs \<in> set (coords_list (lead_extents out))" and inv: "?I m"
        and run: "for_each [0..<rows_of (shape (spec out))] (\<lambda>r. for_each [0..<columns_of (shape (spec out))]
          (gather_step request bits (of_nat (view_plane out cs)) (?T cs r) r)) m = Inr m'" for cs m m'
        by (rule for_each_invariant [where I = ?I, OF inner [OF cs] inv run])
    qed simp
    moreover obtain mem' where "for_each (elements_of out) ?f mem = Inr mem'"
      and written: "\<And>cs r c. cell out cs r c \<Longrightarrow> element_value st k out mem' cs r c
        = take_bit (leaf_width (spec out)) (element_value st i table mem [] (unat (?T cs r)) c)"
      and only: "writes_only st k out mem mem'"
    proof -
      have "\<exists>mem'. for_each (elements_of out) ?f mem = Inr mem'
          \<and> (\<forall>cs r c. cell out cs r c \<longrightarrow> element_value st k out mem' cs r c
              = take_bit (leaf_width (spec out)) (element_value st i table mem [] (unat (?T cs r)) c)) \<and> writes_only st k out mem mem'"
      proof (rule element_loop [OF assms(4), where V = "\<lambda>cs r c m. element_value st i table m [] (unat (?T cs r)) c"])
        fix cs r c m
        assume c: "cell out cs r c"
        show "\<exists>m'. ?f (cs, r, c) m = Inr m'
          \<and> (\<forall>a. mem_bit m' a = (if in_range_of (element_bit st k out cs r c) (leaf_width (spec out)) a
                then bit (element_value st i table m [] (unat (?T cs r)) c) (a - element_bit st k out cs r c) else mem_bit m a))"
          unfolding prod.case by (rule step [OF c row [OF c]])
      next
        fix cs r c m m'
        assume c: "cell out cs r c" and agree: "\<And>a. (\<And>cs' r' c'. cell out cs' r' c' \<Longrightarrow> (cs', r', c') \<noteq> (cs, r, c) \<Longrightarrow>
            \<not> in_range_of (element_bit st k out cs' r' c') (leaf_width (spec out)) a) \<Longrightarrow> mem_bit m' a = mem_bit m a"
        have ct: "cell table [] (unat (?T cs r)) c"
          using row [OF c] c ok by (simp add: cell_def leading_coords_def embedding_operands_ok_def lead_extents_def leading_def)
        show "element_value st i table m' [] (unat (?T cs r)) c = element_value st i table m [] (unat (?T cs r)) c"
        proof (rule element_at_eqI, use storage_viewD(5) [OF vt] wt in simp, rule agree, rule notI)
          fix b cs' r' c'
          assume b: "b < leaf_width (spec table)" and c': "cell out cs' r' c'"
            and "in_range_of (element_bit st k out cs' r' c') (leaf_width (spec out)) (element_bit st i table [] (unat (?T cs r)) c + b)"
          then obtain b' where "element_bit st i table [] (unat (?T cs r)) c + b = element_bit st k out cs' r' c' + b'" "b' < leaf_width (spec out)"
            unfolding in_range_of_def by (metis add_less_cancel_left le_Suc_ex)
          with operands_apart [OF assms(2,4) ap(1) ct b c'] show False by blast
        qed
      qed
      then show thesis using that by blast
    qed
    ultimately have gathered: "settle (G mem) = Inr mem'" by (simp only: passes(2))
    have width: "take_bit (leaf_width (spec out)) (element_value st i table mem [] x c) = element_value st i table mem [] x c" for x c
      by (rule bit_eqI) (use storage_viewD(5) [OF vt] wt o(4) in \<open>auto simp: bit_take_bit_iff bit_element_at leaf_width_def\<close>)
    have "V = (mem, Inr ())" using passes(1) True by (simp add: settle_Inr_iff)
    then have "embedding_elements request mem = (mem', Inr ())"
      using gathered by (simp add: run then_do_def settle_Inr_iff)
    then show ?thesis using True written only width val by (simp add: nat_int)
  qed
qed

definition sample_embedding_request :: EmbeddingRequest where
  "sample_embedding_request =
     \<lparr>emb_table = snapshot_copy_view embedding_store (full_view (embedding_store 11)),
      emb_indices = snapshot_copy_view embedding_store (full_view (embedding_store 12)),
      emb_out = snapshot_copy_view embedding_store (full_view (embedding_store 13)),
      emb_workspace = empty_workspace_view, emb_requirements = \<lparr>req_bytes = 0, req_alignment = 1\<rparr>\<rparr>"

lemma element_at_constant:
  assumes "\<And>a. \<not> mem_bit mem a" and "w \<le> 64"
  shows "element_at base w v mem cs r c = 0"
  by (rule bit_eqI) (simp add: bit_element_at [OF assms(2)] assms(1))

text \<open>With all indices zero every row of the output is the table's first row; indices of all ones are rejected.\<close>

theorem embedding_gathers_rows_witness:
  "(\<exists>mem'. embedding_elements sample_embedding_request (\<lambda>_. 0) = (mem', Inr ())
      \<and> element_value embedding_store 13 (full_view (embedding_store 13)) mem' [1] 3 5
          = element_value embedding_store 11 (full_view (embedding_store 11)) (\<lambda>_. 0) [] 0 5)
   \<and> embedding_elements sample_embedding_request (\<lambda>_. 255) = ((\<lambda>_. 255), Inl InvalidArgument)"
proof -
  let ?v = "\<lambda>i. full_view (embedding_store i)"
  note gathers = embedding_gathers_rows [OF embedding_admission_witness embedding_operands(1-3), of sample_embedding_request]
  have req: "emb_table sample_embedding_request = snapshot_copy_view embedding_store (?v 11)"
    "emb_indices sample_embedding_request = snapshot_copy_view embedding_store (?v 12)"
    "emb_out sample_embedding_request = snapshot_copy_view embedding_store (?v 13)"
    by (simp_all add: sample_embedding_request_def)
  have e: "data_type (spec (?v 12)) = U32" "leaf_width (spec (?v 12)) = 32" "rows_of (shape (spec (?v 11))) = 10"
    by (simp_all add: embedding_specs leaf_width_def rows_of_def extents_def rank_def)
  have idx: "index_value U32 32 raw = uint raw" for raw by (simp add: index_value_def embedding_index_is_signed_def)
  have zero: "element_value embedding_store 12 (?v 12) (\<lambda>_. 0) cs r c = 0" for cs r c
    unfolding e by (rule element_at_constant) (simp_all add: mem_bit_def)
  have c: "cell (?v 13) [1] 3 5" "cell (?v 12) [0] 0 0"
    by (simp_all add: cell_def leading_coords_def lead_extents_def embedding_specs leading_def extents_def rank_def rows_of_def columns_of_def)
  have "indices_in_range embedding_store 12 (?v 12) (?v 11) (\<lambda>_. 0)"
    unfolding indices_in_range_def e idx by (simp add: zero [unfolded e])
  then have "\<exists>mem'. embedding_elements sample_embedding_request (\<lambda>_. 0) = (mem', Inr ())
      \<and> element_value embedding_store 13 (?v 13) mem' [1] 3 5 = element_value embedding_store 11 (?v 11) (\<lambda>_. 0) [] 0 5"
    using gathers [OF req, of "\<lambda>_. 0"] c(1) unfolding e idx by (auto simp: zero [unfolded e])
  moreover have "\<not> indices_in_range embedding_store 12 (?v 12) (?v 11) (\<lambda>_. 255)"
  proof -
    have "element_value embedding_store 12 (?v 12) (\<lambda>_. 255) [0] 0 0 = mask 32"
      unfolding e
    proof (rule bit_eqI)
      fix k
      have "bit (255 :: byte) (x mod 8)" for x :: nat
      proof -
        have "(255 :: byte) = mask 8" by (simp add: mask_eq_exp_minus_1)
        moreover have "bit (mask 8 :: byte) (x mod 8)" by (simp add: bit_mask_iff)
        ultimately show ?thesis by metis
      qed
      then show "bit (element_at (owner_address embedding_store 12) 32 (?v 12) (\<lambda>_. 255) [0] 0 0) k = bit (mask 32 :: 64 word) k"
        by (auto simp: bit_element_at bit_mask_iff mem_bit_def)
    qed
    then show ?thesis unfolding indices_in_range_def e idx not_all
      by (intro exI [of _ "[0]"] exI [of _ 0]) (simp add: c(2) mask_eq_exp_minus_1)
  qed
  then have "embedding_elements sample_embedding_request (\<lambda>_. 255) = ((\<lambda>_. 255), Inl InvalidArgument)" using gathers [OF req, of "\<lambda>_. 255"] by simp
  ultimately show ?thesis by blast
qed

end
