(* ===== verification/Bpe.thy ===== *)
theory Bpe
  imports Prelude "HOL-Library.Multiset"
begin

text \<open>
  Byte pair encoding in \<open>src/src/tokenizer.cpp\<close>: the symbols of a span as a doubly linked list in an
  array, the priority queue of candidate merges, and the loop that applies the candidate of lowest rank,
  leftmost first. Merged symbols leave stale candidates behind, which their generation exposes. The
  reference merges the leftmost pair of lowest rank of a plain list until there is none; the property
  says that both give the same symbols and that the loop's failure branches are never taken.
\<close>

section \<open>Symbols and candidates\<close>

type_synonym token_id = "32 word"
type_synonym TokenPair = "token_id \<times> token_id"

definition size_max :: nat where
  "size_max = 2 ^ 64 - 1"

definition kNoBpeIndex :: nat where
  "kNoBpeIndex = 2 ^ 64 - 1"

record BpeNode =
  node_id :: token_id
  node_previous :: nat
  node_next :: nat
  generation :: nat
  alive :: bool

record BpeHeapEntry =
  entry_rank :: nat
  entry_left :: nat
  entry_right :: nat
  left_generation :: nat
  right_generation :: nat
  left_id :: token_id
  right_id :: token_id

record NormalizerState =
  prepend :: string
  replace_pattern :: string
  replace_content :: string

record EncodingTables =
  vocabulary :: "string \<rightharpoonup> token_id"
  byte_pieces :: "string list"
  merge_ranks :: "TokenPair \<rightharpoonup> nat"
  merge_result_ids :: "TokenPair \<rightharpoonup> token_id"
  normalizer :: NormalizerState
  fuse_unk :: bool
  byte_fallback :: bool

text \<open>
  \<open>max_size\<close> of the library's strings and vectors depends on the library; the limits are arguments.
\<close>

record Limits =
  string_max :: nat
  ids_max :: nat
  nodes_max :: nat
  heap_max :: nat

definition encode_checked_add :: "nat \<Rightarrow> nat \<Rightarrow> nat throws" where
  "encode_checked_add l r = (if r > size_max - l then Inl OverflowError else Inr (l + r))"

definition encode_checked_mul :: "nat \<Rightarrow> nat \<Rightarrow> nat throws" where
  "encode_checked_mul l r = (if l \<noteq> 0 \<and> r > size_max div l then Inl OverflowError else Inr (l * r))"

definition encode_checked_reserve :: "nat \<Rightarrow> nat \<Rightarrow> unit throws" where
  "encode_checked_reserve max_size n = (if n > max_size then Inl OverflowError else Inr ())"

definition append_bpe_node :: "Limits \<Rightarrow> BpeNode list \<Rightarrow> token_id \<Rightarrow> BpeNode list throws" where
  "append_bpe_node limits nodes i =
     (if length nodes \<ge> nodes_max limits then Inl OverflowError
      else
       let index = length nodes;
           nodes = nodes @ [\<lparr>node_id = i, node_previous = (if index = 0 then kNoBpeIndex else index - 1),
                             node_next = kNoBpeIndex, generation = 0, alive = True\<rparr>]
       in Inr (if index \<noteq> 0 then nodes[index - 1 := (nodes ! (index - 1))\<lparr>node_next := index\<rparr>] else nodes))"

section \<open>The priority queue\<close>

text \<open>
  \<open>bpe_heap_compare lhs rhs\<close> says that \<open>lhs\<close> leaves the queue after \<open>rhs\<close>. The queue is kept in that
  order; entries that compare equal may leave it in any order, and the proofs use no more than that the
  first entry comes after no other.
\<close>

definition bpe_heap_compare :: "BpeHeapEntry \<Rightarrow> BpeHeapEntry \<Rightarrow> bool" where
  "bpe_heap_compare lhs rhs =
     (if entry_rank lhs \<noteq> entry_rank rhs then entry_rank lhs > entry_rank rhs
      else if entry_left lhs \<noteq> entry_left rhs then entry_left lhs > entry_left rhs
      else entry_right lhs > entry_right rhs)"

fun heap_push :: "BpeHeapEntry \<Rightarrow> BpeHeapEntry list \<Rightarrow> BpeHeapEntry list" where
  "heap_push e [] = [e]"
| "heap_push e (x # xs) = (if bpe_heap_compare e x then x # heap_push e xs else e # x # xs)"

definition queue_pair ::
  "EncodingTables \<Rightarrow> nat \<Rightarrow> BpeNode list \<Rightarrow> nat \<Rightarrow> nat \<Rightarrow> BpeHeapEntry list \<times> nat \<Rightarrow> (BpeHeapEntry list \<times> nat) throws" where
  "queue_pair tables heap_push_limit nodes left_index right_index = (\<lambda>(heap, heap_pushes).
     if left_index = kNoBpeIndex \<or> right_index = kNoBpeIndex then Inr (heap, heap_pushes)
     else if left_index \<ge> length nodes \<or> right_index \<ge> length nodes then Inl LogicError
     else
       let l = nodes ! left_index; r = nodes ! right_index; pair = (node_id l, node_id r) in
       if \<not> alive l \<or> \<not> alive r \<or> node_next l \<noteq> right_index \<or> node_previous r \<noteq> left_index
       then Inr (heap, heap_pushes)
       else
         (case merge_ranks tables pair of
            None \<Rightarrow> Inr (heap, heap_pushes)
          | Some rank \<Rightarrow>
              if merge_result_ids tables pair = None then Inl LogicError
              else if heap_pushes \<ge> heap_push_limit then Inl OverflowError
              else Inr (heap_push \<lparr>entry_rank = rank, entry_left = left_index, entry_right = right_index,
                          left_generation = generation l, right_generation = generation r,
                          left_id = node_id l, right_id = node_id r\<rparr> heap, heap_pushes + 1)))"

section \<open>The merge loop\<close>

definition entry_stale :: "BpeNode list \<Rightarrow> BpeHeapEntry \<Rightarrow> bool" where
  "entry_stale nodes entry =
     (entry_left entry \<ge> length nodes \<or> entry_right entry \<ge> length nodes \<or>
      (let l = nodes ! entry_left entry; r = nodes ! entry_right entry in
       \<not> alive l \<or> \<not> alive r \<or> node_next l \<noteq> entry_right entry \<or> node_previous r \<noteq> entry_left entry
       \<or> generation l \<noteq> left_generation entry \<or> generation r \<noteq> right_generation entry
       \<or> node_id l \<noteq> left_id entry \<or> node_id r \<noteq> right_id entry))"

text \<open>The list after the merge of two neighbours.\<close>

definition merge_nodes :: "EncodingTables \<Rightarrow> BpeNode list \<Rightarrow> BpeHeapEntry \<Rightarrow> BpeNode list throws" where
  "merge_nodes tables nodes entry =
     (let l = nodes ! entry_left entry; r = nodes ! entry_right entry in
      case merge_result_ids tables (node_id l, node_id r) of
        None \<Rightarrow> Inl LogicError
      | Some result \<Rightarrow>
          if generation l = size_max then Inl OverflowError
          else
            let nodes = nodes[entry_left entry :=
                  l\<lparr>node_id := result, node_next := node_next r, generation := generation l + 1\<rparr>];
                nodes = nodes[entry_right entry := (nodes ! entry_right entry)
                  \<lparr>alive := False, node_previous := kNoBpeIndex, node_next := kNoBpeIndex\<rparr>]
            in if node_next r \<noteq> kNoBpeIndex
               then if node_next r \<ge> length nodes then Inl LogicError
                    else Inr (nodes[node_next r := (nodes ! node_next r)\<lparr>node_previous := entry_left entry\<rparr>])
               else Inr nodes)"

lemma length_heap_push [simp]: "length (heap_push e xs) = Suc (length xs)"
  by (induction xs) simp_all

lemma queue_pair_measure:
  "queue_pair tables limit nodes i j (heap, pushes) = Inr (heap', pushes') \<Longrightarrow>
     2 * (limit - pushes') + length heap' \<le> 2 * (limit - pushes) + length heap"
  by (auto simp: queue_pair_def Let_def split: if_splits option.splits)

function merge_loop :: "EncodingTables \<Rightarrow> nat \<Rightarrow> BpeNode list \<Rightarrow> BpeHeapEntry list \<times> nat \<Rightarrow> BpeNode list throws" where
  "merge_loop tables heap_push_limit nodes ([], heap_pushes) = Inr nodes"
| "merge_loop tables heap_push_limit nodes (entry # heap, heap_pushes) =
     (if entry_stale nodes entry then merge_loop tables heap_push_limit nodes (heap, heap_pushes)
      else
        andThen (merge_nodes tables nodes entry) (\<lambda>nodes'.
        andThen (queue_pair tables heap_push_limit nodes' (node_previous (nodes ! entry_left entry)) (entry_left entry)
                   (heap, heap_pushes)) (\<lambda>state.
        andThen (queue_pair tables heap_push_limit nodes' (entry_left entry) (node_next (nodes ! entry_right entry)) state) (\<lambda>state.
        merge_loop tables heap_push_limit nodes' state))))"
  by pat_completeness auto
termination
proof (relation "measure (\<lambda>(tables, limit, nodes, heap, pushes). 2 * (limit - pushes) + length heap)", goal_cases)
  case (3 tables limit nodes entry heap pushes nodes' s t)
  obtain hs ps ht pt where st: "s = (hs, ps)" "t = (ht, pt)" by (metis surj_pair)
  from 3 have "2 * (limit - ps) + length hs \<le> 2 * (limit - pushes) + length heap"
    "2 * (limit - pt) + length ht \<le> 2 * (limit - ps) + length hs"
    unfolding st by (auto dest!: queue_pair_measure)
  then show ?case unfolding st by simp
qed auto

definition apply_encode_bpe :: "Limits \<Rightarrow> EncodingTables \<Rightarrow> BpeNode list \<Rightarrow> BpeNode list throws" where
  "apply_encode_bpe limits tables nodes =
     (if nodes = [] then Inr nodes
      else
        andThen (encode_checked_mul (length nodes) 3) (\<lambda>heap_push_limit.
        andThen (encode_checked_reserve (heap_max limits) heap_push_limit) (\<lambda>_.
        andThen (for_each [0..<length nodes] (\<lambda>index.
                   queue_pair tables heap_push_limit nodes index (node_next (nodes ! index))) ([], 0)) (\<lambda>state.
        merge_loop tables heap_push_limit nodes state))))"

text \<open>The walk along the links that collects the identifiers.\<close>

function collect_ids :: "Limits \<Rightarrow> BpeNode list \<Rightarrow> nat \<Rightarrow> nat \<Rightarrow> token_id list \<Rightarrow> token_id list throws" where
  "collect_ids limits nodes index visited result =
     (if index = kNoBpeIndex then Inr result
      else if index \<ge> length nodes \<or> \<not> alive (nodes ! index) \<or> visited \<ge> length nodes then Inl LogicError
      else if length result \<ge> ids_max limits then Inl OverflowError
      else collect_ids limits nodes (node_next (nodes ! index)) (visited + 1) (result @ [node_id (nodes ! index)]))"
  by pat_completeness auto
termination
  by (relation "measure (\<lambda>(limits, nodes, index, visited, result). length nodes - visited)") auto

section \<open>The reference\<close>

text \<open>Rank and position of the leftmost pair of lowest rank.\<close>

fun first_best :: "EncodingTables \<Rightarrow> token_id list \<Rightarrow> (nat \<times> nat) option" where
  "first_best tables (x # y # xs) =
     (case (merge_ranks tables (x, y), first_best tables (y # xs)) of
        (None, None) \<Rightarrow> None
      | (None, Some (r, i)) \<Rightarrow> Some (r, Suc i)
      | (Some r, None) \<Rightarrow> Some (r, 0)
      | (Some r, Some (r', i)) \<Rightarrow> if r \<le> r' then Some (r, 0) else Some (r', Suc i))"
| "first_best tables _ = None"

abbreviation rank_at :: "EncodingTables \<Rightarrow> token_id list \<Rightarrow> nat \<Rightarrow> nat option" where
  "rank_at tables xs i \<equiv> merge_ranks tables (xs ! i, xs ! Suc i)"

definition merged_at :: "EncodingTables \<Rightarrow> token_id list \<Rightarrow> nat \<Rightarrow> token_id list" where
  "merged_at tables xs i =
     take i xs @ the (merge_result_ids tables (xs ! i, xs ! Suc i)) # drop (Suc (Suc i)) xs"

lemma first_best_Some:
  "first_best tables xs = Some (r, i) \<Longrightarrow> Suc i < length xs \<and> rank_at tables xs i = Some r
     \<and> (\<forall>j r'. Suc j < length xs \<longrightarrow> rank_at tables xs j = Some r' \<longrightarrow> r < r' \<or> r = r' \<and> i \<le> j)"
proof (induction tables xs arbitrary: r i rule: first_best.induct)
  case (1 tables x y xs)
  show ?case
  proof (cases "first_best tables (y # xs)")
    case None
    have "rank_at tables (y # xs) j = None" if "Suc j < length (y # xs)" for j
      using that None
    proof (induction xs arbitrary: y j)
      case (Cons z zs)
      then have "first_best tables (z # zs) = None" "merge_ranks tables (y, z) = None"
        by (auto split: option.splits if_splits)
      with Cons show ?case by (cases j) auto
    qed simp
    with None 1(2) show ?thesis
      by (auto split: option.splits simp: nth_Cons split: nat.splits)
  next
    case (Some p)
    obtain r' i' where p: "p = (r', i')" by force
    note IH = 1(1) [OF Some [unfolded p]]
    show ?thesis
    proof (intro conjI allI impI)
      show "Suc i < length (x # y # xs)" "rank_at tables (x # y # xs) i = Some r"
        using 1(2) Some p IH by (auto split: option.splits if_splits)
      fix j s assume j: "Suc j < length (x # y # xs)" "rank_at tables (x # y # xs) j = Some s"
      show "r < s \<or> r = s \<and> i \<le> j"
      proof (cases j)
        case 0
        then show ?thesis using j 1(2) Some p by (auto split: option.splits if_splits)
      next
        case (Suc m)
        then have "r' < s \<or> r' = s \<and> i' \<le> m" using IH j by auto
        then show ?thesis using 1(2) Some p Suc by (auto split: option.splits if_splits)
      qed
    qed
  qed
qed simp_all

lemma first_best_None: "first_best tables xs = None \<Longrightarrow> Suc j < length xs \<Longrightarrow> rank_at tables xs j = None"
proof (induction tables xs arbitrary: j rule: first_best.induct)
  case (1 tables x y xs)
  then have "first_best tables (y # xs) = None" "merge_ranks tables (x, y) = None"
    by (auto split: option.splits if_splits)
  with 1 show ?case by (cases j) auto
qed simp_all

lemma first_best_eq:
  assumes i: "Suc i < length xs" "rank_at tables xs i = Some r"
    and least: "\<And>j r'. Suc j < length xs \<Longrightarrow> rank_at tables xs j = Some r' \<Longrightarrow> r < r' \<or> r = r' \<and> i \<le> j"
  shows "first_best tables xs = Some (r, i)"
proof (cases "first_best tables xs")
  case None
  then show ?thesis using first_best_None [OF None i(1)] i(2) by simp
next
  case (Some p)
  then obtain r' i' where p: "first_best tables xs = Some (r', i')" by (cases p) auto
  note f = first_best_Some [OF this]
  then have "r < r' \<or> r = r' \<and> i \<le> i'" using least by blast
  moreover have "r' < r \<or> r' = r \<and> i' \<le> i" using f i by blast
  ultimately show ?thesis using p by auto
qed

function bpe_reference :: "EncodingTables \<Rightarrow> token_id list \<Rightarrow> token_id list" where
  "bpe_reference tables xs =
     (case first_best tables xs of None \<Rightarrow> xs | Some (r, i) \<Rightarrow> bpe_reference tables (merged_at tables xs i))"
  by pat_completeness auto
termination
  by (relation "measure (\<lambda>(tables, xs). length xs)") (auto simp: merged_at_def dest!: first_best_Some)

declare bpe_reference.simps [simp del]

section \<open>The queue's contract\<close>

locale merge_queue =
  fixes after :: "'e \<Rightarrow> 'e \<Rightarrow> bool" and push :: "'e \<Rightarrow> 'e list \<Rightarrow> 'e list"
  assumes set_push: "set (push e q) = insert e (set q)"
    and sorted_push: "sorted_wrt (\<lambda>a b. \<not> after a b) q \<Longrightarrow> sorted_wrt (\<lambda>a b. \<not> after a b) (push e q)"
begin

definition ordered :: "'e list \<Rightarrow> bool" where
  "ordered q = sorted_wrt (\<lambda>a b. \<not> after a b) q"

lemma ordered_push: "ordered q \<Longrightarrow> ordered (push e q)"
  unfolding ordered_def by (rule sorted_push)

lemma ordered_top: "ordered (e # q) \<Longrightarrow> x \<in> set q \<Longrightarrow> \<not> after e x"
  by (auto simp: ordered_def)

lemma ordered_pop: "ordered (e # q) \<Longrightarrow> ordered q"
  by (simp add: ordered_def)

lemma ordered_Nil: "ordered []"
  by (simp add: ordered_def)

end

lemma set_heap_push: "set (heap_push e q) = insert e (set q)"
  by (induction q) auto

lemma bpe_heap_compare_trans: "\<not> bpe_heap_compare a b \<Longrightarrow> \<not> bpe_heap_compare b c \<Longrightarrow> \<not> bpe_heap_compare a c"
  by (auto simp: bpe_heap_compare_def split: if_splits)

lemma bpe_heap_compare_asym: "bpe_heap_compare a b \<Longrightarrow> \<not> bpe_heap_compare b a"
  by (auto simp: bpe_heap_compare_def split: if_splits)

interpretation bq: merge_queue bpe_heap_compare heap_push
proof unfold_locales
  show "set (heap_push e q) = insert e (set q)" for e q by (rule set_heap_push)
  show "sorted_wrt (\<lambda>a b. \<not> bpe_heap_compare a b) q \<Longrightarrow> sorted_wrt (\<lambda>a b. \<not> bpe_heap_compare a b) (heap_push e q)" for e q
  proof (induction q)
    case (Cons x q)
    have "\<not> bpe_heap_compare e x \<Longrightarrow> \<forall>y \<in> set q. \<not> bpe_heap_compare e y"
      using Cons.prems bpe_heap_compare_trans [of e x] by auto
    with Cons bpe_heap_compare_asym [of e x] show ?case by (auto simp: set_heap_push)
  qed simp
qed

section \<open>The linked list as a list of indices\<close>

definition chain :: "BpeNode list \<Rightarrow> nat list \<Rightarrow> bool" where
  "chain nodes ks \<longleftrightarrow> sorted_wrt (<) ks \<and> length nodes \<le> kNoBpeIndex
     \<and> set ks = {i. i < length nodes \<and> alive (nodes ! i)}
     \<and> (\<forall>k < length ks. node_next (nodes ! (ks ! k)) = (if Suc k < length ks then ks ! Suc k else kNoBpeIndex)
          \<and> node_previous (nodes ! (ks ! k)) = (if k = 0 then kNoBpeIndex else ks ! (k - 1)))"

abbreviation ids_of :: "BpeNode list \<Rightarrow> nat list \<Rightarrow> token_id list" where
  "ids_of nodes ks \<equiv> map (\<lambda>i. node_id (nodes ! i)) ks"

text \<open>The queue entry for two neighbours.\<close>

definition candidate :: "BpeNode list \<Rightarrow> nat \<Rightarrow> nat \<Rightarrow> nat \<Rightarrow> BpeHeapEntry" where
  "candidate nodes r i j =
     \<lparr>entry_rank = r, entry_left = i, entry_right = j, left_generation = generation (nodes ! i),
      right_generation = generation (nodes ! j), left_id = node_id (nodes ! i), right_id = node_id (nodes ! j)\<rparr>"

lemma chain_nth:
  assumes "chain nodes ks" "k < length ks"
  shows "ks ! k < length nodes" "alive (nodes ! (ks ! k))" "ks ! k \<noteq> kNoBpeIndex"
    "node_next (nodes ! (ks ! k)) = (if Suc k < length ks then ks ! Suc k else kNoBpeIndex)"
    "node_previous (nodes ! (ks ! k)) = (if k = 0 then kNoBpeIndex else ks ! (k - 1))"
proof -
  have "ks ! k \<in> set ks" using assms(2) by simp
  with assms(1) show "ks ! k < length nodes" "alive (nodes ! (ks ! k))" "ks ! k \<noteq> kNoBpeIndex"
    by (auto simp: chain_def)
qed (use assms in \<open>auto simp: chain_def\<close>)

lemma chain_less: "chain nodes ks \<Longrightarrow> i < j \<Longrightarrow> j < length ks \<Longrightarrow> ks ! i < ks ! j"
  by (auto simp: chain_def sorted_wrt_iff_nth_less)

lemma chain_inj: "chain nodes ks \<Longrightarrow> i < length ks \<Longrightarrow> j < length ks \<Longrightarrow> ks ! i = ks ! j \<longleftrightarrow> i = j"
  using chain_less [of nodes ks i j] chain_less [of nodes ks j i] by (cases i j rule: linorder_cases) auto

lemma chain_index: "chain nodes ks \<Longrightarrow> i < length nodes \<Longrightarrow> alive (nodes ! i) \<Longrightarrow> \<exists>k < length ks. i = ks ! k"
  by (metis (mono_tags, lifting) chain_def in_set_conv_nth mem_Collect_eq)

text \<open>An entry that is not stale names two neighbours as they are.\<close>

lemma fresh_entry:
  assumes c: "chain nodes ks" and fresh: "\<not> entry_stale nodes e"
  obtains k where "Suc k < length ks" "e = candidate nodes (entry_rank e) (ks ! k) (ks ! Suc k)"
proof -
  have e: "entry_left e < length nodes" "entry_right e < length nodes" "alive (nodes ! entry_left e)"
    "node_next (nodes ! entry_left e) = entry_right e"
    "e = candidate nodes (entry_rank e) (entry_left e) (entry_right e)"
    using fresh by (auto simp: entry_stale_def candidate_def Let_def)
  obtain k where k: "k < length ks" "entry_left e = ks ! k" using chain_index [OF c e(1,3)] by blast
  have "entry_right e \<noteq> kNoBpeIndex" using e(2) c by (auto simp: chain_def)
  then have "Suc k < length ks" "entry_right e = ks ! Suc k"
    using e(4) k chain_nth(4) [OF c k(1)] by (auto split: if_splits)
  then show ?thesis using that k e(5) by metis
qed

lemma candidate_fresh:
  assumes "chain nodes ks" "Suc k < length ks"
  shows "\<not> entry_stale nodes (candidate nodes r (ks ! k) (ks ! Suc k))"
  using chain_nth [OF assms(1), of k] chain_nth [OF assms(1), of "Suc k"] assms(2)
  by (auto simp: entry_stale_def candidate_def Let_def)

definition unlinked :: "nat list \<Rightarrow> nat \<Rightarrow> nat list" where
  "unlinked ks k = take (Suc k) ks @ drop (Suc (Suc k)) ks"

lemma unlinked_nth:
  assumes "Suc k < length ks"
  shows "length (unlinked ks k) = length ks - 1"
    and "m < length ks - 1 \<Longrightarrow> unlinked ks k ! m = (if m \<le> k then ks ! m else ks ! Suc m)"
  using assms by (auto simp: unlinked_def nth_append min_def not_le Suc_diff_Suc)

lemma unlinked_set: "chain nodes ks \<Longrightarrow> Suc k < length ks \<Longrightarrow> set (unlinked ks k) = set ks - {ks ! Suc k}"
proof -
  assume c: "chain nodes ks" and k: "Suc k < length ks"
  have ks: "ks = take (Suc k) ks @ ks ! Suc k # drop (Suc (Suc k)) ks" using k by (rule id_take_nth_drop)
  have "distinct ks" using c by (auto simp: chain_def strict_sorted_iff)
  with ks have d: "distinct (take (Suc k) ks @ ks ! Suc k # drop (Suc (Suc k)) ks)" by metis
  have "set ks = set (take (Suc k) ks @ ks ! Suc k # drop (Suc (Suc k)) ks)" using ks by metis
  with d show ?thesis unfolding unlinked_def by auto
qed

lemma unlinked_sorted: "sorted_wrt (<) ks \<Longrightarrow> Suc k < length ks \<Longrightarrow> sorted_wrt (<) (unlinked (ks :: nat list) k)"
proof -
  assume s: "sorted_wrt (<) ks" and k: "Suc k < length ks"
  have "ks = take (Suc k) ks @ ks ! Suc k # drop (Suc (Suc k)) ks" using k by (rule id_take_nth_drop)
  with s have "sorted_wrt (<) (take (Suc k) ks @ ks ! Suc k # drop (Suc (Suc k)) ks)" by simp
  then show ?thesis unfolding unlinked_def by (auto simp: sorted_wrt_append)
qed

text \<open>The merge of two neighbours, field by field.\<close>

definition merge_of :: "BpeNode list \<Rightarrow> nat list \<Rightarrow> nat \<Rightarrow> token_id \<Rightarrow> BpeNode list \<Rightarrow> bool" where
  "merge_of nodes ks k result nodes' \<longleftrightarrow> length nodes' = length nodes \<and> (\<forall>i < length nodes.
     node_id (nodes' ! i) = (if i = ks ! k then result else node_id (nodes ! i))
     \<and> generation (nodes' ! i) = (if i = ks ! k then Suc (generation (nodes ! i)) else generation (nodes ! i))
     \<and> (alive (nodes' ! i) \<longleftrightarrow> alive (nodes ! i) \<and> i \<noteq> ks ! Suc k)
     \<and> (i \<noteq> ks ! Suc k \<longrightarrow>
          node_next (nodes' ! i) = (if i = ks ! k then node_next (nodes ! (ks ! Suc k)) else node_next (nodes ! i))
          \<and> node_previous (nodes' ! i) = (if i = node_next (nodes ! (ks ! Suc k)) then ks ! k else node_previous (nodes ! i))))"

lemma merge_nodes_fields:
  assumes c: "chain nodes ks" and k: "Suc k < length ks"
    and res: "merge_result_ids tables (node_id (nodes ! (ks ! k)), node_id (nodes ! (ks ! Suc k))) = Some result"
    and gen: "generation (nodes ! (ks ! k)) < size_max"
    and e: "entry_left e = ks ! k" "entry_right e = ks ! Suc k"
  obtains nodes' where "merge_nodes tables nodes e = Inr nodes'" "merge_of nodes ks k result nodes'"
proof -
  let ?L = "ks ! k" and ?R = "ks ! Suc k" and ?N = "node_next (nodes ! (ks ! Suc k))"
  let ?one = "nodes[?L := (nodes ! ?L)\<lparr>node_id := result, node_next := ?N, generation := generation (nodes ! ?L) + 1\<rparr>]"
  let ?two = "?one[?R := (?one ! ?R)\<lparr>alive := False, node_previous := kNoBpeIndex, node_next := kNoBpeIndex\<rparr>]"
  note L = chain_nth [OF c Suc_lessD [OF k]] and R = chain_nth [OF c k]
  have LR: "?L \<noteq> ?R" using chain_inj [OF c, of k "Suc k"] k by simp
  have g: "generation (nodes ! ?L) \<noteq> size_max" using gen by simp
  show ?thesis
  proof (cases "Suc (Suc k) < length ks")
    case True
    have N: "?N = ks ! Suc (Suc k)" using R(4) True by simp
    have n: "?N < length nodes" "?N \<noteq> kNoBpeIndex" "?N \<noteq> ?L" "?N \<noteq> ?R"
      using chain_nth [OF c True] chain_inj [OF c, of "Suc (Suc k)" k] chain_inj [OF c, of "Suc (Suc k)" "Suc k"] True unfolding N by auto
    show ?thesis
      by (rule that [of "?two[?N := (?two ! ?N)\<lparr>node_previous := ?L\<rparr>]"])
        (use n L(1) R(1) LR g in \<open>auto simp: merge_nodes_def merge_of_def Let_def e res nth_list_update\<close>)
  next
    case False
    then have N: "?N = kNoBpeIndex" using R(4) by simp
    have n: "i < length nodes \<Longrightarrow> i \<noteq> kNoBpeIndex" for i using c by (auto simp: chain_def)
    show ?thesis
      by (rule that [of ?two]) (use n N L(1) R(1) LR g in \<open>auto simp: merge_nodes_def merge_of_def Let_def e res nth_list_update\<close>)
  qed
qed

lemma merge_chain:
  assumes c: "chain nodes ks" and k: "Suc k < length ks"
    and f: "merge_of nodes ks k result nodes'"
  shows "chain nodes' (unlinked ks k)"
proof -
  have n: "length nodes' = length nodes"
    and alive: "\<And>i. i < length nodes \<Longrightarrow> alive (nodes' ! i) \<longleftrightarrow> alive (nodes ! i) \<and> i \<noteq> ks ! Suc k"
    and succ: "\<And>i. i < length nodes \<Longrightarrow> i \<noteq> ks ! Suc k \<Longrightarrow>
        node_next (nodes' ! i) = (if i = ks ! k then node_next (nodes ! (ks ! Suc k)) else node_next (nodes ! i))"
    and prev: "\<And>i. i < length nodes \<Longrightarrow> i \<noteq> ks ! Suc k \<Longrightarrow>
        node_previous (nodes' ! i) = (if i = node_next (nodes ! (ks ! Suc k)) then ks ! k else node_previous (nodes ! i))"
    using f unfolding merge_of_def by blast+
  show ?thesis
  unfolding chain_def
proof (intro conjI allI impI)
  show "sorted_wrt (<) (unlinked ks k)" using c k by (auto simp: chain_def intro: unlinked_sorted)
  show "length nodes' \<le> kNoBpeIndex" using c n by (simp add: chain_def)
  show "set (unlinked ks k) = {i. i < length nodes' \<and> alive (nodes' ! i)}"
    using c alive by (auto simp: unlinked_set [OF c k] n chain_def)
  fix m assume m: "m < length (unlinked ks k)"
  define j where "j = (if m \<le> k then m else Suc m)"
  have j: "j < length ks" "unlinked ks k ! m = ks ! j" "j \<noteq> Suc k"
    using m k by (auto simp: j_def unlinked_nth)
  note x = chain_nth [OF c j(1)]
  have ne: "ks ! j \<noteq> ks ! Suc k" using chain_inj [OF c j(1) k] j(3) by simp
  have jk: "ks ! j = ks ! k \<longleftrightarrow> m = k" using chain_inj [OF c j(1) Suc_lessD [OF k]] by (auto simp: j_def)
  show "node_next (nodes' ! (unlinked ks k ! m)) =
      (if Suc m < length (unlinked ks k) then unlinked ks k ! Suc m else kNoBpeIndex)"
    using k m unfolding j(2) succ [OF x(1) ne] jk x(4) chain_nth(4) [OF c k]
    by (auto simp: j_def unlinked_nth)
  have nj: "ks ! j = node_next (nodes ! (ks ! Suc k)) \<longleftrightarrow> m = Suc k"
  proof (cases "Suc (Suc k) < length ks")
    case True
    then show ?thesis using chain_nth(4) [OF c k] chain_inj [OF c j(1) True] by (auto simp: j_def)
  next
    case False
    then show ?thesis using chain_nth(4) [OF c k] x(3) m k by (auto simp: unlinked_nth)
  qed
  show "node_previous (nodes' ! (unlinked ks k ! m)) = (if m = 0 then kNoBpeIndex else unlinked ks k ! (m - 1))"
    using k m unfolding j(2) prev [OF x(1) ne] nj x(5)
    by (auto simp: j_def unlinked_nth)
qed
qed

section \<open>The loop and the reference\<close>

text \<open>Every merge has a result.\<close>

definition merges_ok :: "EncodingTables \<Rightarrow> bool" where
  "merges_ok tables \<longleftrightarrow> dom (merge_ranks tables) \<subseteq> dom (merge_result_ids tables)"

definition queued :: "EncodingTables \<Rightarrow> BpeNode list \<Rightarrow> nat list \<Rightarrow> BpeHeapEntry list \<Rightarrow> nat \<Rightarrow> bool" where
  "queued tables nodes ks heap k \<longleftrightarrow>
     (\<forall>r. rank_at tables (ids_of nodes ks) k = Some r \<longrightarrow> candidate nodes r (ks ! k) (ks ! Suc k) \<in> set heap)"

lemma queue_neighbours:
  assumes c: "chain nodes ks" and t: "merges_ok tables" and k: "Suc k < length ks" and p: "pushes < limit"
    and o: "bq.ordered heap"
  obtains heap' pushes' where
    "queue_pair tables limit nodes (ks ! k) (ks ! Suc k) (heap, pushes) = Inr (heap', pushes')"
    "pushes' \<le> Suc pushes" "set heap \<subseteq> set heap'" "queued tables nodes ks heap' k" "bq.ordered heap'"
    "\<And>e. e \<in> set heap' \<Longrightarrow> e \<in> set heap \<or> merge_ranks tables (left_id e, right_id e) = Some (entry_rank e)"
proof -
  note a = chain_nth [OF c k] and b = chain_nth [OF c Suc_lessD [OF k]]
  show ?thesis
  proof (cases "merge_ranks tables (node_id (nodes ! (ks ! k)), node_id (nodes ! (ks ! Suc k)))")
    case None
    then show ?thesis
      using that [of heap pushes] a b k o by (auto simp: queue_pair_def Let_def queued_def)
  next
    case (Some r)
    then obtain x where "merge_result_ids tables (node_id (nodes ! (ks ! k)), node_id (nodes ! (ks ! Suc k))) = Some x"
      using t by (auto simp: merges_ok_def)
    then show ?thesis
      by (intro that [of "heap_push (candidate nodes r (ks ! k) (ks ! Suc k)) heap" "Suc pushes"])
        (use a b k p Some bq.ordered_push [OF o] in
          \<open>auto simp: queue_pair_def Let_def candidate_def queued_def set_heap_push\<close>)
  qed
qed

lemma queue_nothing: "i = kNoBpeIndex \<or> j = kNoBpeIndex \<Longrightarrow> queue_pair tables limit nodes i j s = Inr s"
  by (cases s) (auto simp: queue_pair_def)

definition loop_inv :: "EncodingTables \<Rightarrow> nat \<Rightarrow> BpeNode list \<Rightarrow> nat list \<Rightarrow> BpeHeapEntry list \<Rightarrow> nat \<Rightarrow> bool" where
  "loop_inv tables limit nodes ks heap pushes \<longleftrightarrow>
     chain nodes ks \<and> ks \<noteq> [] \<and> hd ks = 0 \<and> bq.ordered heap
     \<and> (\<forall>k. Suc k < length ks \<longrightarrow> queued tables nodes ks heap k)
     \<and> (\<forall>e \<in> set heap. merge_ranks tables (left_id e, right_id e) = Some (entry_rank e))
     \<and> limit = 3 * length nodes \<and> pushes + 1 + 2 * length ks \<le> limit
     \<and> (\<forall>i < length nodes. generation (nodes ! i) + length ks \<le> length nodes)"

lemma merged_ids:
  assumes "Suc k < length ks"
    and ids: "\<And>i. i < length nodes \<Longrightarrow> node_id (nodes' ! i) = (if i = ks ! k then result else node_id (nodes ! i))"
    and res: "merge_result_ids tables (node_id (nodes ! (ks ! k)), node_id (nodes ! (ks ! Suc k))) = Some result"
    and c: "chain nodes ks"
  shows "ids_of nodes' (unlinked ks k) = merged_at tables (ids_of nodes ks) k"
proof (rule nth_equalityI)
  show "length (ids_of nodes' (unlinked ks k)) = length (merged_at tables (ids_of nodes ks) k)"
    using assms(1) by (simp add: unlinked_nth merged_at_def)
  fix m assume "m < length (ids_of nodes' (unlinked ks k))"
  then have m: "m < length ks - 1" using assms(1) by (simp add: unlinked_nth)
  define j where "j = (if m \<le> k then m else Suc m)"
  have j: "j < length ks" "unlinked ks k ! m = ks ! j" using m assms(1) by (auto simp: j_def unlinked_nth)
  have "ids_of nodes' (unlinked ks k) ! m = (if m = k then result else node_id (nodes ! (ks ! j)))"
    using chain_inj [OF c j(1) Suc_lessD [OF assms(1)]] chain_nth(1) [OF c j(1)] m assms(1) j
    by (auto simp: ids unlinked_nth j_def)
  also have "\<dots> = merged_at tables (ids_of nodes ks) k ! m"
  proof (cases "m \<le> k")
    case True
    then show ?thesis using m assms(1) res by (auto simp: merged_at_def nth_append nth_Cons j_def min_def split: nat.splits)
  next
    case False
    then obtain x where "m = Suc (k + x)" using less_imp_Suc_add not_le by blast
    then show ?thesis using m assms(1) by (simp add: merged_at_def nth_append j_def min_def)
  qed
  finally show "ids_of nodes' (unlinked ks k) ! m = merged_at tables (ids_of nodes ks) k ! m" .
qed

lemma top_is_first_best:
  assumes inv: "loop_inv tables limit nodes ks (e # heap) pushes" and k: "Suc k < length ks"
    and e: "e = candidate nodes (entry_rank e) (ks ! k) (ks ! Suc k)"
  shows "first_best tables (ids_of nodes ks) = Some (entry_rank e, k)"
proof (rule first_best_eq)
  have c: "chain nodes ks" and o: "bq.ordered (e # heap)" using inv by (simp_all add: loop_inv_def)
  have parts: "left_id e = node_id (nodes ! (ks ! k))" "right_id e = node_id (nodes ! (ks ! Suc k))" "entry_left e = ks ! k"
    by (subst e, simp add: candidate_def)+
  show "Suc k < length (ids_of nodes ks)" "rank_at tables (ids_of nodes ks) k = Some (entry_rank e)"
    using inv k parts by (simp_all add: loop_inv_def)
  fix j r assume "Suc j < length (ids_of nodes ks)" and r: "rank_at tables (ids_of nodes ks) j = Some r"
  then have j: "Suc j < length ks" by simp
  let ?f = "candidate nodes r (ks ! j) (ks ! Suc j)"
  have f: "entry_rank ?f = r" "entry_left ?f = ks ! j" by (simp_all add: candidate_def)
  have "queued tables nodes ks (e # heap) j" using inv j by (simp add: loop_inv_def)
  with r have "?f = e \<or> ?f \<in> set heap" by (auto simp: queued_def)
  then show "entry_rank e < r \<or> entry_rank e = r \<and> k \<le> j"
  proof
    assume "?f = e"
    with f parts(3) have "r = entry_rank e" "ks ! j = ks ! k" by auto
    then show ?thesis using chain_inj [OF c] j k by simp
  next
    assume "?f \<in> set heap"
    from bq.ordered_top [OF o this] have "entry_rank e < r \<or> entry_rank e = r \<and> ks ! k \<le> ks ! j"
      using f parts(3) by (auto simp: bpe_heap_compare_def split: if_splits)
    then show ?thesis using chain_less [OF c, of j k] k by (metis Suc_lessD leD le_less_linear)
  qed
qed

lemma queued_mono: "queued tables nodes ks heap k \<Longrightarrow> set heap \<subseteq> set heap' \<Longrightarrow> queued tables nodes ks heap' k"
  by (auto simp: queued_def)

text \<open>The pairs that the merged symbol is not part of stay queued.\<close>

lemma other_pairs_queued:
  assumes c: "chain nodes ks" and k: "Suc k < length ks"
    and ids: "\<And>i. i < length nodes \<Longrightarrow> node_id (nodes' ! i) = (if i = ks ! k then result else node_id (nodes ! i))"
    and gens: "\<And>i. i < length nodes \<Longrightarrow> generation (nodes' ! i) = (if i = ks ! k then Suc (generation (nodes ! i)) else generation (nodes ! i))"
    and q: "\<And>j. Suc j < length ks \<Longrightarrow> queued tables nodes ks (e # heap) j"
    and e: "entry_left e = ks ! k"
    and m: "Suc m < length ks - 1" "m \<noteq> k" "Suc m \<noteq> k"
  shows "queued tables nodes' (unlinked ks k) heap m"
proof -
  define j where "j = (if m < k then m else Suc m)"
  have j: "Suc j < length ks" "unlinked ks k ! m = ks ! j" "unlinked ks k ! Suc m = ks ! Suc j" "j \<noteq> k" "Suc j \<noteq> k"
    using m k by (auto simp: j_def unlinked_nth)
  have len: "m < length (unlinked ks k)" "Suc m < length (unlinked ks k)" using m k by (simp_all add: unlinked_nth)
  have ne: "ks ! j \<noteq> ks ! k" "ks ! Suc j \<noteq> ks ! k"
    using chain_inj [OF c Suc_lessD [OF j(1)] Suc_lessD [OF k]] chain_inj [OF c j(1) Suc_lessD [OF k]] j(4,5) by simp_all
  have lt: "ks ! j < length nodes" "ks ! Suc j < length nodes" using chain_nth(1) [OF c] j(1) by auto
  have same: "candidate nodes' r (ks ! j) (ks ! Suc j) = candidate nodes r (ks ! j) (ks ! Suc j)" for r
    using ne lt by (simp add: candidate_def ids gens)
  have "candidate nodes r (ks ! j) (ks ! Suc j) \<noteq> e" for r using e ne(1) by (auto simp: candidate_def)
  then show ?thesis
    using q [OF j(1)] j ne lt len unfolding queued_def by (auto simp: same ids)
qed

lemma merge_step:
  assumes inv: "loop_inv tables limit nodes ks (e # heap) pushes" and t: "merges_ok tables"
    and fresh: "\<not> entry_stale nodes e"
  obtains nodes' s ks' heap' pushes' k where
    "merge_nodes tables nodes e = Inr nodes'"
    "queue_pair tables limit nodes' (node_previous (nodes ! entry_left e)) (entry_left e) (heap, pushes) = Inr s"
    "queue_pair tables limit nodes' (entry_left e) (node_next (nodes ! entry_right e)) s = Inr (heap', pushes')"
    "loop_inv tables limit nodes' ks' heap' pushes'" "length nodes' = length nodes"
    "first_best tables (ids_of nodes ks) = Some (entry_rank e, k)"
    "ids_of nodes' ks' = merged_at tables (ids_of nodes ks) k"
proof -
  have c: "chain nodes ks" and o: "bq.ordered heap" and q: "\<And>j. Suc j < length ks \<Longrightarrow> queued tables nodes ks (e # heap) j"
    and sound: "\<And>x. x \<in> set heap \<Longrightarrow> merge_ranks tables (left_id x, right_id x) = Some (entry_rank x)"
    and hd: "ks \<noteq> []" "hd ks = 0" and limit: "limit = 3 * length nodes" and pushes: "pushes + 1 + 2 * length ks \<le> limit"
    and gen: "\<And>i. i < length nodes \<Longrightarrow> generation (nodes ! i) + length ks \<le> length nodes"
    and rank: "merge_ranks tables (left_id e, right_id e) = Some (entry_rank e)"
    using inv by (auto simp: loop_inv_def intro: bq.ordered_pop)
  obtain k where k: "Suc k < length ks" and e: "e = candidate nodes (entry_rank e) (ks ! k) (ks ! Suc k)"
    using fresh_entry [OF c fresh] by blast
  have parts: "entry_left e = ks ! k" "entry_right e = ks ! Suc k"
    "left_id e = node_id (nodes ! (ks ! k))" "right_id e = node_id (nodes ! (ks ! Suc k))"
    by (subst e, simp add: candidate_def)+
  note L = chain_nth [OF c Suc_lessD [OF k]] and R = chain_nth [OF c k]
  obtain result where res: "merge_result_ids tables (node_id (nodes ! (ks ! k)), node_id (nodes ! (ks ! Suc k))) = Some result"
    using t rank parts(3,4) by (auto simp: merges_ok_def)
  have small: "generation (nodes ! (ks ! k)) < size_max"
    using gen [OF L(1)] k c by (auto simp: chain_def kNoBpeIndex_def size_max_def)
  obtain nodes' where n1: "merge_nodes tables nodes e = Inr nodes'" and f: "merge_of nodes ks k result nodes'"
    by (rule merge_nodes_fields [OF c k res small parts(1,2)])
  note n = n1 f [unfolded merge_of_def, THEN conjunct1]
  have ids: "\<And>i. i < length nodes \<Longrightarrow> node_id (nodes' ! i) = (if i = ks ! k then result else node_id (nodes ! i))"
    and gens: "\<And>i. i < length nodes \<Longrightarrow> generation (nodes' ! i) = (if i = ks ! k then Suc (generation (nodes ! i)) else generation (nodes ! i))"
    using f unfolding merge_of_def by blast+
  let ?ks = "unlinked ks k"
  have c': "chain nodes' ?ks" by (rule merge_chain [OF c k f])
  have len: "length ?ks = length ks - 1" using k by (rule unlinked_nth)
  have prev: "node_previous (nodes ! (ks ! k)) = (if k = 0 then kNoBpeIndex else ?ks ! (k - 1))" "ks ! k = ?ks ! k"
    "node_next (nodes ! (ks ! Suc k)) = (if Suc k < length ?ks then ?ks ! Suc k else kNoBpeIndex)"
    using L(5) R(4) k len by (auto simp: unlinked_nth)
  have "\<exists>h p. queue_pair tables limit nodes' (node_previous (nodes ! (ks ! k))) (ks ! k) (heap, pushes) = Inr (h, p)
     \<and> p \<le> Suc pushes \<and> set heap \<subseteq> set h \<and> (k \<noteq> 0 \<longrightarrow> queued tables nodes' ?ks h (k - 1)) \<and> bq.ordered h
     \<and> (\<forall>x \<in> set h. x \<in> set heap \<or> merge_ranks tables (left_id x, right_id x) = Some (entry_rank x))"
  proof (cases "k = 0")
    case False
    then have "Suc (k - 1) < length ?ks" "pushes < limit" "Suc (k - 1) = k" using k len pushes by auto
    from queue_neighbours [OF c' t this(1,2) o] show ?thesis
      unfolding \<open>Suc (k - 1) = k\<close> prev(1) prev(2) [symmetric] using False by (simp only: if_False) metis
  next
    case True
    then have "node_previous (nodes ! (ks ! k)) = kNoBpeIndex" using prev(1) by simp
    with True o show ?thesis by (simp add: queue_nothing)
  qed
  then obtain h p where hp: "queue_pair tables limit nodes' (node_previous (nodes ! (ks ! k))) (ks ! k) (heap, pushes) = Inr (h, p)"
    "p \<le> Suc pushes" "set heap \<subseteq> set h" "k \<noteq> 0 \<Longrightarrow> queued tables nodes' ?ks h (k - 1)" "bq.ordered h"
    "\<And>x. x \<in> set h \<Longrightarrow> x \<in> set heap \<or> merge_ranks tables (left_id x, right_id x) = Some (entry_rank x)" by blast
  have "\<exists>h' p'. queue_pair tables limit nodes' (ks ! k) (node_next (nodes ! (ks ! Suc k))) (h, p) = Inr (h', p')
     \<and> p' \<le> Suc p \<and> set h \<subseteq> set h' \<and> (Suc k < length ?ks \<longrightarrow> queued tables nodes' ?ks h' k) \<and> bq.ordered h'
     \<and> (\<forall>x \<in> set h'. x \<in> set h \<or> merge_ranks tables (left_id x, right_id x) = Some (entry_rank x))"
  proof (cases "Suc k < length ?ks")
    case True
    have "p < limit" using hp(2) k pushes by auto
    from queue_neighbours [OF c' t True this hp(5)] show ?thesis
      unfolding prev(3) prev(2) [symmetric] using True by (simp only: if_True) metis
  next
    case False
    then have "node_next (nodes ! (ks ! Suc k)) = kNoBpeIndex" using prev(3) by simp
    with False hp(5) show ?thesis by (simp add: queue_nothing)
  qed
  then obtain h' p' where hp': "queue_pair tables limit nodes' (ks ! k) (node_next (nodes ! (ks ! Suc k))) (h, p) = Inr (h', p')"
    "p' \<le> Suc p" "set h \<subseteq> set h'" "Suc k < length ?ks \<Longrightarrow> queued tables nodes' ?ks h' k" "bq.ordered h'"
    "\<And>x. x \<in> set h' \<Longrightarrow> x \<in> set h \<or> merge_ranks tables (left_id x, right_id x) = Some (entry_rank x)" by blast
  have queued: "queued tables nodes' ?ks h' m" if m: "Suc m < length ?ks" for m
  proof -
    consider "m = k" | "Suc m = k" | "m \<noteq> k" "Suc m \<noteq> k" by blast
    then show ?thesis
    proof cases
      case 3
      then have "queued tables nodes' ?ks heap m"
        using other_pairs_queued [OF c k ids gens q parts(1)] m len by auto
      then show ?thesis using hp(3) hp'(3) by (auto intro: queued_mono)
    qed (use m hp'(3,4) hp(4) in \<open>auto intro: queued_mono\<close>)
  qed
  have "?ks \<noteq> [] \<and> hd ?ks = 0" using hd k by (cases ks) (auto simp: unlinked_def)
  moreover have "generation (nodes' ! i) + length ?ks \<le> length nodes'" if "i < length nodes'" for i
    using gen [of i] that k n(2) len by (auto simp: gens)
  moreover have "merge_ranks tables (left_id x, right_id x) = Some (entry_rank x)" if "x \<in> set h'" for x
    using hp'(6) [OF that] hp(6) [of x] sound [of x] by blast
  ultimately have "loop_inv tables limit nodes' ?ks h' p'"
    unfolding loop_inv_def using c' queued hp(2) hp'(2,5) limit pushes n(2) len k by auto
  then show ?thesis
    using that [of nodes' "(h, p)" h' p' ?ks k] n hp(1) hp'(1) top_is_first_best [OF inv k e] merged_ids [OF k ids res c]
    by (simp add: parts)
qed

lemma stale_dropped:
  assumes "loop_inv tables limit nodes ks (e # heap) pushes" and "entry_stale nodes e"
  shows "loop_inv tables limit nodes ks heap pushes"
proof -
  have c: "chain nodes ks" using assms(1) by (simp add: loop_inv_def)
  have "queued tables nodes ks heap k" if k: "Suc k < length ks" for k
  proof -
    have "queued tables nodes ks (e # heap) k" using assms(1) k by (simp add: loop_inv_def)
    moreover have "candidate nodes r (ks ! k) (ks ! Suc k) \<noteq> e" for r
      using candidate_fresh [OF c k] assms(2) by metis
    ultimately show ?thesis by (auto simp: queued_def)
  qed
  with assms(1) show ?thesis by (auto simp: loop_inv_def intro: bq.ordered_pop)
qed

lemma merge_loop_reference:
  assumes "loop_inv tables limit nodes ks heap pushes" and "merges_ok tables"
  shows "\<exists>nodes' ks'. merge_loop tables limit nodes (heap, pushes) = Inr nodes' \<and> chain nodes' ks'
     \<and> ks' \<noteq> [] \<and> hd ks' = 0 \<and> length nodes' = length nodes
     \<and> ids_of nodes' ks' = bpe_reference tables (ids_of nodes ks)"
  using assms
proof (induction tables limit nodes "(heap, pushes)" arbitrary: heap pushes ks rule: merge_loop.induct)
  case (1 tables limit nodes pushes)
  have "first_best tables (ids_of nodes ks) = None"
  proof (rule ccontr)
    assume "first_best tables (ids_of nodes ks) \<noteq> None"
    then obtain r i where "first_best tables (ids_of nodes ks) = Some (r, i)" by (cases "first_best tables (ids_of nodes ks)") auto
    from first_best_Some [OF this] 1 show False by (auto simp: loop_inv_def queued_def)
  qed
  with 1 show ?case by (auto simp: loop_inv_def bpe_reference.simps [of tables "ids_of nodes ks"])
next
  case (2 tables limit nodes e heap pushes)
  show ?case
  proof (cases "entry_stale nodes e")
    case True
    with 2(1) [OF True stale_dropped [OF 2(3) True] 2(4)] show ?thesis by simp
  next
    case False
    obtain nodes' st ks' heap' pushes' k where m: "merge_nodes tables nodes e = Inr nodes'"
      "queue_pair tables limit nodes' (node_previous (nodes ! entry_left e)) (entry_left e) (heap, pushes) = Inr st"
      "queue_pair tables limit nodes' (entry_left e) (node_next (nodes ! entry_right e)) st = Inr (heap', pushes')"
      and inv: "loop_inv tables limit nodes' ks' heap' pushes'" and n: "length nodes' = length nodes"
      and best: "first_best tables (ids_of nodes ks) = Some (entry_rank e, k)"
      and ids: "ids_of nodes' ks' = merged_at tables (ids_of nodes ks) k"
      by (rule merge_step [OF 2(3,4) False])
    have "bpe_reference tables (ids_of nodes ks) = bpe_reference tables (ids_of nodes' ks')"
      by (subst bpe_reference.simps) (simp add: best ids)
    with 2(2) [OF False m inv 2(4)] False m n show ?thesis by simp
  qed
qed

text \<open>The symbols as they are first linked.\<close>

definition initial_nodes :: "token_id list \<Rightarrow> BpeNode list" where
  "initial_nodes xs = map (\<lambda>i. \<lparr>node_id = xs ! i, node_previous = (if i = 0 then kNoBpeIndex else i - 1),
     node_next = (if Suc i < length xs then Suc i else kNoBpeIndex), generation = 0, alive = True\<rparr>) [0..<length xs]"

lemma initial_nodes_append:
  "length xs < nodes_max limits \<Longrightarrow> append_bpe_node limits (initial_nodes xs) x = Inr (initial_nodes (xs @ [x]))"
proof (cases "xs = []")
  case True
  assume "length xs < nodes_max limits"
  with True show ?thesis by (simp add: append_bpe_node_def initial_nodes_def)
next
  case False
  assume "length xs < nodes_max limits"
  then have "append_bpe_node limits (initial_nodes xs) x = Inr ((initial_nodes xs @ [\<lparr>node_id = x, node_previous = length xs - 1,
      node_next = kNoBpeIndex, generation = 0, alive = True\<rparr>])
      [length xs - 1 := (initial_nodes xs ! (length xs - 1))\<lparr>node_next := length xs\<rparr>])"
    using False by (simp add: append_bpe_node_def initial_nodes_def Let_def nth_append)
  also have "\<dots> = Inr (initial_nodes (xs @ [x]))"
  proof (intro arg_cong [of _ _ Inr] nth_equalityI)
    fix i assume "i < length ((initial_nodes xs @ [\<lparr>node_id = x, node_previous = length xs - 1,
      node_next = kNoBpeIndex, generation = 0, alive = True\<rparr>])
      [length xs - 1 := (initial_nodes xs ! (length xs - 1))\<lparr>node_next := length xs\<rparr>])"
    then have "i < Suc (length xs)" by (simp add: initial_nodes_def)
    then consider "i = length xs" | "Suc i = length xs" | "Suc i < length xs" by linarith
    then show "(initial_nodes xs @ [\<lparr>node_id = x, node_previous = length xs - 1,
      node_next = kNoBpeIndex, generation = 0, alive = True\<rparr>])
      [length xs - 1 := (initial_nodes xs ! (length xs - 1))\<lparr>node_next := length xs\<rparr>] ! i = initial_nodes (xs @ [x]) ! i"
      using False by cases (auto simp: initial_nodes_def nth_list_update nth_append)
  qed (simp add: initial_nodes_def)
  finally show ?thesis .
qed

lemma append_bpe_node_full: "nodes_max limits \<le> length nodes \<Longrightarrow> append_bpe_node limits nodes x = Inl OverflowError"
  by (simp add: append_bpe_node_def)

lemma initial_chain: "length xs \<le> kNoBpeIndex \<Longrightarrow> chain (initial_nodes xs) [0..<length xs]"
  by (auto simp: chain_def initial_nodes_def)

lemma initial_ids: "ids_of (initial_nodes xs) [0..<length xs] = xs"
  by (rule nth_equalityI) (simp_all add: initial_nodes_def)

lemma andThen_for_each_Nil: "andThen m (for_each [] f) = m"
  by (cases m) simp_all

text \<open>All neighbours of the initial list are queued.\<close>

lemma initial_queue:
  assumes c: "chain nodes ks" and t: "merges_ok tables" and n: "n \<le> length ks" and limit: "length ks \<le> limit"
    and ks: "ks = [0..<length nodes]"
  shows "\<exists>heap pushes. for_each [0..<n] (\<lambda>i. queue_pair tables limit nodes i (node_next (nodes ! i))) ([], 0) = Inr (heap, pushes)
     \<and> pushes \<le> (if n = length ks then n - 1 else n) \<and> bq.ordered heap
     \<and> (\<forall>k. Suc k < length ks \<longrightarrow> k < n \<longrightarrow> queued tables nodes ks heap k)
     \<and> (\<forall>e \<in> set heap. merge_ranks tables (left_id e, right_id e) = Some (entry_rank e))"
  using n
proof (induction n)
  case 0
  then show ?case by (simp add: bq.ordered_Nil)
next
  case (Suc n)
  then obtain heap pushes where h: "for_each [0..<n] (\<lambda>i. queue_pair tables limit nodes i (node_next (nodes ! i))) ([], 0) = Inr (heap, pushes)"
    "pushes \<le> n" "bq.ordered heap" "\<And>k. Suc k < length ks \<Longrightarrow> k < n \<Longrightarrow> queued tables nodes ks heap k"
    "\<And>e. e \<in> set heap \<Longrightarrow> merge_ranks tables (left_id e, right_id e) = Some (entry_rank e)"
    by (auto split: if_splits)
  have split: "for_each [0..<Suc n] (\<lambda>i. queue_pair tables limit nodes i (node_next (nodes ! i))) ([], 0)
      = queue_pair tables limit nodes n (node_next (nodes ! n)) (heap, pushes)"
    by (simp add: for_each_append h(1) andThen_for_each_Nil)
  have ksn: "ks ! n = n" using Suc.prems ks by simp
  note next_n = chain_nth(4) [OF c, of n, unfolded ksn]
  show ?case
  proof (cases "Suc n < length ks")
    case True
    have "pushes < limit" using h(2) True limit by simp
    then obtain heap' pushes' where q: "queue_pair tables limit nodes (ks ! n) (ks ! Suc n) (heap, pushes) = Inr (heap', pushes')"
      "pushes' \<le> Suc pushes" "set heap \<subseteq> set heap'" "queued tables nodes ks heap' n" "bq.ordered heap'"
      "\<And>e. e \<in> set heap' \<Longrightarrow> e \<in> set heap \<or> merge_ranks tables (left_id e, right_id e) = Some (entry_rank e)"
      by (rule queue_neighbours [OF c t True _ h(3)]) blast
    have "queued tables nodes ks heap' k" if "Suc k < length ks" "k < Suc n" for k
      using that h(4) [of k] q(3,4) by (cases "k = n") (auto intro: queued_mono)
    then show ?thesis unfolding split using q h(2,5) True next_n ksn by auto
  next
    case False
    then have "node_next (nodes ! n) = kNoBpeIndex" using next_n Suc.prems by simp
    then have "queue_pair tables limit nodes n (node_next (nodes ! n)) (heap, pushes) = Inr (heap, pushes)"
      by (simp add: queue_nothing)
    then show ?thesis unfolding split using False h Suc.prems by auto
  qed
qed

declare collect_ids.simps [simp del]

text \<open>The walk collects the identifiers of the linked symbols.\<close>

lemma collect_chain:
  assumes c: "chain nodes ks" and m: "m \<le> length ks" and v: "visited + (length ks - m) \<le> length nodes"
    and r: "length result + (length ks - m) \<le> ids_max limits"
  shows "collect_ids limits nodes (if m < length ks then ks ! m else kNoBpeIndex) visited result
     = Inr (result @ ids_of nodes (drop m ks))"
  using m v r
proof (induction "length ks - m" arbitrary: m visited result)
  case 0
  then show ?case by (simp add: collect_ids.simps)
next
  case (Suc d)
  then have m: "m < length ks" and small: "visited < length nodes" "length result < ids_max limits" by auto
  note n = chain_nth [OF c m]
  have "collect_ids limits nodes (ks ! m) visited result
      = collect_ids limits nodes (if Suc m < length ks then ks ! Suc m else kNoBpeIndex) (visited + 1) (result @ [node_id (nodes ! (ks ! m))])"
    using n(1-4) m small by (subst collect_ids.simps) simp
  also have "\<dots> = Inr ((result @ [node_id (nodes ! (ks ! m))]) @ ids_of nodes (drop (Suc m) ks))"
    by (rule Suc.hyps(1)) (use Suc.prems Suc.hyps(2) m in auto)
  finally show ?case using m by (simp add: Cons_nth_drop_Suc [symmetric])
qed

text \<open>Merging and collecting together.\<close>

definition merged_ids_of :: "Limits \<Rightarrow> EncodingTables \<Rightarrow> BpeNode list \<Rightarrow> token_id list \<Rightarrow> token_id list throws" where
  "merged_ids_of limits tables nodes result =
     andThen (apply_encode_bpe limits tables nodes) (\<lambda>nodes.
       collect_ids limits nodes (if nodes = [] then kNoBpeIndex else 0) 0 result)"

lemma length_bpe_reference: "length (bpe_reference tables xs) \<le> length xs"
proof (induction tables xs rule: bpe_reference.induct)
  case (1 tables xs)
  show ?case
  proof (cases "first_best tables xs")
    case None
    then show ?thesis by (subst bpe_reference.simps) simp
  next
    case (Some p)
    then obtain r i where p: "first_best tables xs = Some (r, i)" by (cases p) auto
    have "length (merged_at tables xs i) < length xs" using first_best_Some [OF p] by (auto simp: merged_at_def)
    with 1 [OF p refl] show ?thesis by (subst bpe_reference.simps) (simp add: p)
  qed
qed

lemma merged_ids_of_initial:
  assumes t: "merges_ok tables" and n: "3 * length xs \<le> size_max" "3 * length xs \<le> heap_max limits"
    and r: "length result + length xs \<le> ids_max limits"
  shows "merged_ids_of limits tables (initial_nodes xs) result = Inr (result @ bpe_reference tables xs)"
proof (cases "xs = []")
  case True
  then show ?thesis
    by (simp add: merged_ids_of_def apply_encode_bpe_def initial_nodes_def bpe_reference.simps [of tables "[]"] collect_ids.simps)
next
  case False
  let ?n = "initial_nodes xs" and ?ks = "[0..<length xs]"
  have len: "length ?n = length xs" by (simp add: initial_nodes_def)
  have "length xs \<le> kNoBpeIndex" using n by (simp add: kNoBpeIndex_def size_max_def)
  then have c: "chain ?n ?ks" by (rule initial_chain)
  have "length xs \<le> size_max div 3" using n(1) by linarith
  moreover have "3 \<le> size_max div length xs" using n(1) False by (simp add: less_eq_div_iff_mult_less_eq)
  ultimately have limit: "encode_checked_mul (length xs) 3 = Inr (3 * length xs)" "encode_checked_reserve (heap_max limits) (3 * length xs) = Inr ()"
    using n(2) by (simp_all add: encode_checked_mul_def encode_checked_reserve_def)
  have "\<exists>heap pushes. for_each [0..<length xs] (\<lambda>i. queue_pair tables (3 * length xs) ?n i (node_next (?n ! i))) ([], 0) = Inr (heap, pushes)
     \<and> pushes \<le> length xs - 1 \<and> bq.ordered heap \<and> (\<forall>k. Suc k < length xs \<longrightarrow> k < length xs \<longrightarrow> queued tables ?n ?ks heap k)
     \<and> (\<forall>e \<in> set heap. merge_ranks tables (left_id e, right_id e) = Some (entry_rank e))"
  proof -
    have "length xs \<le> length ?ks" "length ?ks \<le> 3 * length xs" "?ks = [0..<length ?n]" by (simp_all add: len)
    from initial_queue [OF c t this] show ?thesis by (simp only: length_upt diff_zero simp_thms if_True)
  qed
  then obtain heap pushes where q: "for_each [0..<length xs] (\<lambda>i. queue_pair tables (3 * length xs) ?n i (node_next (?n ! i))) ([], 0) = Inr (heap, pushes)"
    "pushes \<le> length xs - 1" "bq.ordered heap" "\<forall>k. Suc k < length xs \<longrightarrow> queued tables ?n ?ks heap k"
    "\<forall>e \<in> set heap. merge_ranks tables (left_id e, right_id e) = Some (entry_rank e)"
    using Suc_lessD by blast
  have "generation (?n ! i) = 0" if "i < length xs" for i using that by (simp add: initial_nodes_def)
  moreover have "pushes + 1 \<le> length xs" using q(2) False by (cases xs) auto
  ultimately have "loop_inv tables (3 * length xs) ?n ?ks heap pushes"
    unfolding loop_inv_def using q c False len by (auto simp: hd_map hd_upt)
  from merge_loop_reference [OF this t] obtain nodes' ks' where
    m: "merge_loop tables (3 * length xs) ?n (heap, pushes) = Inr nodes'" "chain nodes' ks'" "ks' \<noteq> []" "hd ks' = 0"
      "length nodes' = length xs" "ids_of nodes' ks' = bpe_reference tables xs"
    unfolding initial_ids len by blast
  have ne: "?n \<noteq> []" "nodes' \<noteq> []" using False m(5) len by auto
  have l: "length ks' = length (bpe_reference tables xs)" using m(6) by (metis length_map)
  with length_bpe_reference [of tables xs] have "length ks' \<le> length xs" by simp
  then have "collect_ids limits nodes' (if 0 < length ks' then ks' ! 0 else kNoBpeIndex) 0 result = Inr (result @ ids_of nodes' (drop 0 ks'))"
    using r m(5) by (intro collect_chain [OF m(2)]) auto
  then show ?thesis
    using m(3,4,6) ne unfolding merged_ids_of_def apply_encode_bpe_def len by (simp add: limit q(1) m(1) hd_conv_nth)
qed

lemma append_all_nodes:
  "length ys + length xs \<le> nodes_max limits \<Longrightarrow>
     for_each xs (\<lambda>x nodes. append_bpe_node limits nodes x) (initial_nodes ys) = Inr (initial_nodes (ys @ xs))"
  by (induction xs arbitrary: ys) (simp_all add: initial_nodes_append)

lemma bpe_reference_done: "first_best tables (bpe_reference tables xs) = None"
proof (induction tables xs rule: bpe_reference.induct)
  case (1 tables xs)
  show ?case
  proof (cases "first_best tables xs")
    case None
    then show ?thesis by (subst bpe_reference.simps) simp
  next
    case (Some p)
    then obtain r i where p: "first_best tables xs = Some (r, i)" by (cases p) auto
    from 1 [OF p refl] show ?thesis by (subst bpe_reference.simps) (simp add: p)
  qed
qed

text \<open>
  C8. Byte pair encoding with its priority queue of candidates, stale entries and linked symbols gives what
  the reference gives that merges the leftmost pair of lowest rank until no pair has a rank. None of the
  failure branches is taken: every queue index is valid, every merge has its result, the queue
  never holds more entries than its limit, and no generation overflows. The tables need a result for every rank and
  the symbols must fit the limits.
\<close>

theorem bpe_equals_reference:
  assumes "merges_ok tables" and "length xs \<le> nodes_max limits" and "3 * length xs \<le> heap_max limits"
    and "3 * length xs \<le> size_max" and "length result + length xs \<le> ids_max limits"
  shows "andThen (for_each xs (\<lambda>x nodes. append_bpe_node limits nodes x) []) (\<lambda>nodes. merged_ids_of limits tables nodes result)
     = Inr (result @ bpe_reference tables xs)"
proof -
  have "initial_nodes [] = []" by (simp add: initial_nodes_def)
  with append_all_nodes [of "[]" xs limits] assms(2) have "for_each xs (\<lambda>x nodes. append_bpe_node limits nodes x) [] = Inr (initial_nodes xs)"
    by simp
  with merged_ids_of_initial [OF assms(1,4,3,5)] show ?thesis by simp
qed

definition sample_merges :: EncodingTables where
  "sample_merges = \<lparr>vocabulary = Map.empty, byte_pieces = [], merge_ranks = [(1, 2) \<mapsto> 0, (3, 1) \<mapsto> 1], merge_result_ids = [(1, 2) \<mapsto> 3, (3, 1) \<mapsto> 4],
     normalizer = \<lparr>prepend = [], replace_pattern = [], replace_content = []\<rparr>, fuse_unk = True, byte_fallback = True\<rparr>"

definition sample_limits :: Limits where
  "sample_limits = \<lparr>string_max = 2 ^ 20, ids_max = 2 ^ 20, nodes_max = 2 ^ 20, heap_max = 2 ^ 20\<rparr>"

theorem bpe_equals_reference_witness:
  "andThen (for_each [1, 2, 1, 2] (\<lambda>x nodes. append_bpe_node sample_limits nodes x) []) (\<lambda>nodes. merged_ids_of sample_limits sample_merges nodes [7])
     = Inr [7, 3, 3]
   \<and> andThen (for_each [1, 2, 1] (\<lambda>x nodes. append_bpe_node sample_limits nodes x) []) (\<lambda>nodes. merged_ids_of sample_limits sample_merges nodes [7])
     = Inr [7, 4]"
proof -
  have t: "merges_ok sample_merges" by (auto simp: merges_ok_def sample_merges_def split: if_splits)
  have r: "bpe_reference sample_merges [1, 2, 1, 2] = [3, 3]" "bpe_reference sample_merges [1, 2, 1] = [4]"
    by (simp_all add: bpe_reference.simps sample_merges_def merged_at_def)
  show ?thesis
    using bpe_equals_reference [OF t, of "[1, 2, 1, 2]" sample_limits "[7]"] bpe_equals_reference [OF t, of "[1, 2, 1]" sample_limits "[7]"]
    by (simp add: r sample_limits_def size_max_def)
qed

end
