(* ===== verification/Utf8.thy ===== *)
theory Utf8
  imports Prelude
begin

text \<open>
  The UTF-8 checks of \<open>src/src/tokenizer.cpp\<close>. A \<open>std::string\<close> is a list of bytes, the type \<open>char\<close>; a loop
  over offsets recurses over the rest of the string. The property: exactly the concatenated encodings of Unicode
  scalar values are accepted.
\<close>

section \<open>Validation\<close>

definition byte_of :: "char \<Rightarrow> nat" where
  "byte_of c = of_char c"

text \<open>The number of bytes that a leading byte announces.\<close>

definition utf8_lead_length :: "nat \<Rightarrow> nat throws" where
  "utf8_lead_length lead =
     (if lead \<le> 0x7F then Inr 1
      else if 0xC2 \<le> lead \<and> lead \<le> 0xDF then Inr 2
      else if lead = 0xE0 then Inr 3
      else if 0xE1 \<le> lead \<and> lead \<le> 0xEC \<or> lead = 0xED \<or> 0xEE \<le> lead \<and> lead \<le> 0xEF then Inr 3
      else if lead = 0xF0 then Inr 4
      else if 0xF1 \<le> lead \<and> lead \<le> 0xF3 then Inr 4
      else if lead = 0xF4 then Inr 4
      else Inl InvalidArgument)"

definition utf8_second_ok :: "nat \<Rightarrow> nat \<Rightarrow> bool" where
  "utf8_second_ok lead second =
     (let second_min = (if lead = 0xE0 then 0xA0 else if lead = 0xF0 then 0x90 else 0x80);
          second_max = (if lead = 0xED then 0x9F else if lead = 0xF4 then 0x8F else 0xBF)
      in \<not> (second < second_min \<or> second > second_max))"

lemma utf8_lead_length_pos: "utf8_lead_length lead = Inr n \<Longrightarrow> 0 < n"
  by (auto simp: utf8_lead_length_def split: if_splits)

function validate_encode_utf8 :: "string \<Rightarrow> unit throws" where
  "validate_encode_utf8 str =
     (if str = [] then Inr ()
      else
        andThen (utf8_lead_length (byte_of (hd str))) (\<lambda>n.
        if length str < n then Inl InvalidArgument
        else if n > 1 \<and> \<not> utf8_second_ok (byte_of (hd str)) (byte_of (str ! 1)) then Inl InvalidArgument
        else if list_ex (\<lambda>index. byte_of (str ! index) < 0x80 \<or> byte_of (str ! index) > 0xBF) [1..<n]
        then Inl InvalidArgument
        else validate_encode_utf8 (drop n str)))"
  by pat_completeness auto
termination
  by (relation "measure length") (auto dest: utf8_lead_length_pos)

definition encode_utf8_scalar_length :: "string \<Rightarrow> nat throws" where
  "encode_utf8_scalar_length rest =
     (if rest = [] then Inl LogicError
      else
        let lead = byte_of (hd rest) in
        if lead \<le> 0x7F then Inr 1
        else if lead \<le> 0xDF then Inr 2
        else if lead \<le> 0xEF then Inr 3
        else if lead \<le> 0xF4 then Inr 4
        else Inl LogicError)"

declare validate_encode_utf8.simps [simp del]

section \<open>Unicode scalar values\<close>

definition scalar_value :: "nat \<Rightarrow> bool" where
  "scalar_value u \<longleftrightarrow> u < 0xD800 \<or> 0xDFFF < u \<and> u < 0x110000"

definition utf8_bytes :: "nat \<Rightarrow> nat list" where
  "utf8_bytes u =
     (if u < 0x80 then [u]
      else if u < 0x800 then [0xC0 + u div 64, 0x80 + u mod 64]
      else if u < 0x10000 then [0xE0 + u div 4096, 0x80 + u div 64 mod 64, 0x80 + u mod 64]
      else [0xF0 + u div 262144, 0x80 + u div 4096 mod 64, 0x80 + u div 64 mod 64, 0x80 + u mod 64])"

definition utf8 :: "nat \<Rightarrow> string" where
  "utf8 u = map char_of (utf8_bytes u)"

definition utf8_text :: "nat list \<Rightarrow> string" where
  "utf8_text us = concat (map utf8 us)"

lemma utf8_text_simps [simp]:
  "utf8_text [] = []" "utf8_text (u # us) = utf8 u @ utf8_text us" "utf8_text (us @ vs) = utf8_text us @ utf8_text vs"
  by (simp_all add: utf8_text_def)

lemma byte_of_less: "byte_of c < 256"
  by (simp add: byte_of_def)

lemma byte_of_char_of: "n < 256 \<Longrightarrow> byte_of (char_of n) = n"
  by (simp add: byte_of_def)

lemma char_of_byte_of [simp]: "char_of (byte_of c) = c"
  by (simp add: byte_of_def)

lemma utf8_bytes_less: "scalar_value u \<Longrightarrow> b \<in> set (utf8_bytes u) \<Longrightarrow> b < 256"
  by (auto simp: utf8_bytes_def scalar_value_def split: if_splits)

lemma div_64_mod_64: "(u :: nat) div 64 = 64 * (u div 4096) + u div 64 mod 64"
proof -
  have "u div 4096 = u div 64 div 64" by (simp add: div_mult2_eq [symmetric])
  then show ?thesis by simp
qed

lemma below_surrogates: "(u :: nat) < 55296 \<Longrightarrow> u div 4096 = 13 \<Longrightarrow> u div 64 mod 64 \<le> 31"
  using div_64_mod_64 [of u] by linarith

lemma below_max: "(u :: nat) < 1114112 \<Longrightarrow> u div 262144 = 4 \<Longrightarrow> u div 4096 mod 64 \<le> 15"
proof -
  assume "u < 1114112" "u div 262144 = 4"
  moreover have "u div 262144 = u div 4096 div 64" by (simp add: div_mult2_eq [symmetric])
  moreover have "u div 4096 = 64 * (u div 4096 div 64) + u div 4096 mod 64" by simp
  ultimately show ?thesis by linarith
qed

lemma utf8_facts:
  assumes "scalar_value u"
  shows "utf8 u \<noteq> []" "length (utf8 u) \<le> 4"
    "utf8_lead_length (byte_of (hd (utf8 u))) = Inr (length (utf8 u))"
    "encode_utf8_scalar_length (utf8 u @ rest) = Inr (length (utf8 u))"
    "1 < length (utf8 u) \<Longrightarrow> utf8_second_ok (byte_of (hd (utf8 u))) (byte_of (utf8 u ! 1))"
    "1 \<le> i \<Longrightarrow> i < length (utf8 u) \<Longrightarrow> 0x80 \<le> byte_of (utf8 u ! i) \<and> byte_of (utf8 u ! i) \<le> 0xBF"
proof -
  consider "u < 0x80" | "0x80 \<le> u" "u < 0x800" | "0x800 \<le> u" "u < 0x10000" "\<not> (0xD800 \<le> u \<and> u \<le> 0xDFFF)"
    | "0x10000 \<le> u" "u < 0x110000"
    using assms by (fastforce simp: scalar_value_def)
  note split = this
  show "utf8 u \<noteq> []" "length (utf8 u) \<le> 4" by (auto simp: utf8_def utf8_bytes_def)
  show "utf8_lead_length (byte_of (hd (utf8 u))) = Inr (length (utf8 u))"
    by (cases rule: split) (auto simp: utf8_def utf8_bytes_def byte_of_char_of utf8_lead_length_def)
  show "encode_utf8_scalar_length (utf8 u @ rest) = Inr (length (utf8 u))"
    by (cases rule: split) (auto simp: utf8_def utf8_bytes_def byte_of_char_of encode_utf8_scalar_length_def Let_def)
  show "utf8_second_ok (byte_of (hd (utf8 u))) (byte_of (utf8 u ! 1))" if "1 < length (utf8 u)"
    using that below_surrogates [of u] below_max [of u]
    by (cases rule: split) (auto simp: utf8_def utf8_bytes_def byte_of_char_of utf8_second_ok_def)
  show "0x80 \<le> byte_of (utf8 u ! i) \<and> byte_of (utf8 u ! i) \<le> 0xBF" if "1 \<le> i" "i < length (utf8 u)"
  proof -
    have "i = 1 \<or> i = 2 \<or> i = 3" using that by (auto simp: utf8_def utf8_bytes_def split: if_splits)
    then show ?thesis using that
      by (cases rule: split) (auto simp: utf8_def utf8_bytes_def byte_of_char_of)
  qed
qed

section \<open>Accepted texts\<close>

lemma validate_scalar:
  assumes "scalar_value u"
  shows "validate_encode_utf8 (utf8 u @ rest) = validate_encode_utf8 rest"
proof -
  note f = utf8_facts [OF assms]
  have "list_ex (\<lambda>i. byte_of ((utf8 u @ rest) ! i) < 0x80 \<or> byte_of ((utf8 u @ rest) ! i) > 0xBF) [1..<length (utf8 u)] = False"
    using f(6) by (auto simp: list_ex_iff nth_append not_less dest!: f(6))
  moreover have "hd (utf8 u @ rest) = hd (utf8 u)" using f(1) by simp
  moreover have "1 < length (utf8 u) \<Longrightarrow> (utf8 u @ rest) ! 1 = utf8 u ! 1" by (simp add: nth_append)
  ultimately show ?thesis
    using f(1,3,5) by (subst validate_encode_utf8.simps) auto
qed

lemma validate_text: "\<forall>u \<in> set us. scalar_value u \<Longrightarrow> validate_encode_utf8 (utf8_text us) = Inr ()"
  by (induction us) (simp_all add: validate_scalar validate_encode_utf8.simps [of "[]"])

text \<open>Bytes that pass the checks spell a scalar value.\<close>

lemma horner_64: "y < 64 \<Longrightarrow> (64 * x + y) div 64 = (x :: nat)" "y < 64 \<Longrightarrow> (64 * x + y) mod 64 = (y :: nat)"
  by simp_all

lemma upt_small: "[0..<1] = [0]" "[0..<2] = [0, 1]" "[0..<3] = [0, 1, 2]" "[0..<4] = [0, 1, 2, 3 :: nat]"
  by (simp_all add: upt_rec numeral_eq_Suc)

lemma two_bytes:
  assumes "0xC2 \<le> a" "a \<le> 0xDF" "0x80 \<le> b" "b \<le> (0xBF :: nat)"
  shows "\<exists>u. scalar_value u \<and> utf8_bytes u = [a, b]"
proof -
  obtain x y where x: "a = 0xC0 + x" "b = 0x80 + y" using le_Suc_ex [of "0xC0" a] le_Suc_ex [OF assms(3)] assms(1) by auto
  with assms have lt: "2 \<le> x" "x < 32" "y < 64" by simp_all
  then have "utf8_bytes (64 * x + y) = [a, b]" using horner_64 [OF lt(3), of x] by (simp add: utf8_bytes_def x)
  moreover have "scalar_value (64 * x + y)" using lt by (simp add: scalar_value_def)
  ultimately show ?thesis by blast
qed

lemma three_bytes:
  assumes "0xE0 \<le> a" "a \<le> 0xEF" "0x80 \<le> b" "b \<le> (0xBF :: nat)" "0x80 \<le> c" "c \<le> (0xBF :: nat)"
    and "a = 0xE0 \<Longrightarrow> 0xA0 \<le> b" "a = 0xED \<Longrightarrow> b \<le> 0x9F"
  shows "\<exists>u. scalar_value u \<and> utf8_bytes u = [a, b, c]"
proof -
  obtain x y z where x: "a = 0xE0 + x" "b = 0x80 + y" "c = 0x80 + z"
    using le_Suc_ex [OF assms(1)] le_Suc_ex [OF assms(3)] le_Suc_ex [OF assms(5)] by (elim exE)
  with assms have lt: "x < 16" "y < 64" "z < 64" and ex: "x = 0 \<Longrightarrow> 32 \<le> y" "x = 13 \<Longrightarrow> y \<le> 31" by simp_all
  let ?u = "64 * (64 * x + y) + z"
  have "?u div 4096 = ?u div 64 div 64" by (simp add: div_mult2_eq [symmetric])
  then have d: "?u div 64 mod 64 = y" "?u mod 64 = z" "?u div 4096 = x"
    by (simp_all only: horner_64 [OF lt(2)] horner_64 [OF lt(3)])
  have "0x800 \<le> ?u" using ex(1) by (cases "x = 0") auto
  moreover have "?u < 0x10000"
  proof -
    have "?u \<le> 64 * (64 * 15 + 63) + 63" using lt by (intro add_mono mult_left_mono) simp_all
    then show ?thesis by simp
  qed
  ultimately have "utf8_bytes ?u = [a, b, c]" unfolding utf8_bytes_def d x by simp
  moreover have "scalar_value ?u"
  proof -
    consider "x < 13" | "x = 13" | "13 < x" by linarith
    then show ?thesis using lt ex(2) by cases (auto simp: scalar_value_def)
  qed
  ultimately show ?thesis by blast
qed

lemma four_bytes:
  assumes "0xF0 \<le> a" "a \<le> 0xF4" "0x80 \<le> b" "b \<le> (0xBF :: nat)" "0x80 \<le> c" "c \<le> (0xBF :: nat)" "0x80 \<le> d" "d \<le> (0xBF :: nat)"
    and "a = 0xF0 \<Longrightarrow> 0x90 \<le> b" "a = 0xF4 \<Longrightarrow> b \<le> 0x8F"
  shows "\<exists>u. scalar_value u \<and> utf8_bytes u = [a, b, c, d]"
proof -
  obtain x y z v where x: "a = 0xF0 + x" "b = 0x80 + y" "c = 0x80 + z" "d = 0x80 + v"
    using le_Suc_ex [OF assms(1)] le_Suc_ex [OF assms(3)] le_Suc_ex [OF assms(5)] le_Suc_ex [OF assms(7)] by (elim exE)
  with assms have lt: "x \<le> 4" "y < 64" "z < 64" "v < 64" and ex: "x = 0 \<Longrightarrow> 16 \<le> y" "x = 4 \<Longrightarrow> y \<le> 15" by simp_all
  let ?u = "64 * (64 * (64 * x + y) + z) + v"
  have "?u div 4096 = ?u div 64 div 64" "?u div 262144 = ?u div 64 div 64 div 64" by (simp_all add: div_mult2_eq [symmetric])
  then have d: "?u div 64 mod 64 = z" "?u mod 64 = v" "?u div 4096 mod 64 = y" "?u div 262144 = x"
    by (simp_all only: horner_64 [OF lt(2)] horner_64 [OF lt(3)] horner_64 [OF lt(4)])
  have "0x10000 \<le> ?u" using ex(1) by (cases "x = 0") auto
  moreover have "?u < 0x110000" using lt ex(2) by (cases "x = 4") auto
  ultimately have "utf8_bytes ?u = [a, b, c, d]" "scalar_value ?u"
    unfolding utf8_bytes_def scalar_value_def d x by simp_all
  then show ?thesis by blast
qed

lemma checked_scalar:
  assumes lead: "utf8_lead_length (byte_of (hd str)) = Inr n" and len: "n \<le> length str"
    and second: "n > 1 \<Longrightarrow> utf8_second_ok (byte_of (hd str)) (byte_of (str ! 1))"
    and rest: "\<And>i. 1 \<le> i \<Longrightarrow> i < n \<Longrightarrow> 0x80 \<le> byte_of (str ! i) \<and> byte_of (str ! i) \<le> 0xBF"
  shows "\<exists>u. scalar_value u \<and> take n str = utf8 u"
proof -
  let ?b = "\<lambda>i. byte_of (str ! i)"
  have ne: "str \<noteq> []" using lead len utf8_lead_length_pos by fastforce
  then have hd: "byte_of (hd str) = ?b 0" by (simp add: hd_conv_nth)
  have "\<exists>u. scalar_value u \<and> utf8_bytes u = map ?b [0..<n]"
  proof -
    consider "?b 0 \<le> 0x7F" "n = 1" | "0xC2 \<le> ?b 0" "?b 0 \<le> 0xDF" "n = 2" | "0xE0 \<le> ?b 0" "?b 0 \<le> 0xEF" "n = 3"
      | "0xF0 \<le> ?b 0" "?b 0 \<le> 0xF4" "n = 4"
      using lead unfolding hd utf8_lead_length_def by (auto split: if_splits)
    then show ?thesis
    proof cases
      case 1
      then show ?thesis by (intro exI [of _ "?b 0"]) (auto simp: scalar_value_def utf8_bytes_def upt_small)
    next
      case 2
      then show ?thesis using two_bytes [of "?b 0" "?b 1"] rest [of 1] by (auto simp: upt_small)
    next
      case 3
      have "?b 0 = 0xE0 \<Longrightarrow> 0xA0 \<le> ?b 1" "?b 0 = 0xED \<Longrightarrow> ?b 1 \<le> 0x9F"
        using second 3 unfolding hd utf8_second_ok_def by (auto simp: Let_def)
      then show ?thesis using 3 three_bytes [of "?b 0" "?b 1" "?b 2"] rest [of 1] rest [of 2] by (auto simp: upt_small)
    next
      case 4
      have "?b 0 = 0xF0 \<Longrightarrow> 0x90 \<le> ?b 1" "?b 0 = 0xF4 \<Longrightarrow> ?b 1 \<le> 0x8F"
        using second 4 unfolding hd utf8_second_ok_def by (auto simp: Let_def)
      then show ?thesis
        using 4 four_bytes [of "?b 0" "?b 1" "?b 2" "?b 3"] rest [of 1] rest [of 2] rest [of 3] by (auto simp: upt_small)
    qed
  qed
  then obtain u where u: "scalar_value u" "utf8_bytes u = map ?b [0..<n]" by blast
  have "utf8 u = map (\<lambda>i. str ! i) [0..<n]" unfolding utf8_def u(2) by simp
  also have "\<dots> = take n str" using len by (intro nth_equalityI) simp_all
  finally show ?thesis using u(1) by metis
qed

lemma validated_text: "validate_encode_utf8 str = Inr () \<Longrightarrow> \<exists>us. (\<forall>u \<in> set us. scalar_value u) \<and> str = utf8_text us"
proof (induction str rule: validate_encode_utf8.induct)
  case (1 str)
  show ?case
  proof (cases "str = []")
    case True
    then show ?thesis by (intro exI [of _ "[]"]) simp
  next
    case False
    then obtain n where n: "utf8_lead_length (byte_of (hd str)) = Inr n" and len: "\<not> length str < n"
      and second: "\<not> (n > 1 \<and> \<not> utf8_second_ok (byte_of (hd str)) (byte_of (str ! 1)))"
      and rest: "\<not> list_ex (\<lambda>index. byte_of (str ! index) < 0x80 \<or> byte_of (str ! index) > 0xBF) [1..<n]"
      and v: "validate_encode_utf8 (drop n str) = Inr ()"
      using 1(2) by (subst (asm) validate_encode_utf8.simps) (auto simp: exn_simps split: if_splits)
    obtain u where u: "scalar_value u" "take n str = utf8 u"
      using checked_scalar [OF n] len second rest by (auto simp: list_ex_iff not_less)
    obtain us where "\<forall>u \<in> set us. scalar_value u" "drop n str = utf8_text us"
      using 1(1) [OF False n len second rest v] by blast
    then show ?thesis using u append_take_drop_id [of n str] by (intro exI [of _ "u # us"]) auto
  qed
qed

text \<open>
  C28. A text passes the UTF-8 check of the tokenizer exactly when it is the concatenation of the encodings of
  Unicode scalar values: no surrogates, no overlong forms, nothing above \<open>0x10FFFF\<close>, nothing truncated.
  Every other text is rejected with \<open>std::invalid_argument\<close>.
\<close>

theorem utf8_validation:
  "validate_encode_utf8 str =
     (if \<exists>us. list_all scalar_value us \<and> str = utf8_text us then Inr () else Inl InvalidArgument)"
proof -
  have "validate_encode_utf8 str = Inr () \<or> validate_encode_utf8 str = Inl InvalidArgument"
  proof (induction str rule: validate_encode_utf8.induct)
    case (1 str)
    show ?case
      using 1 by (subst (1 2) validate_encode_utf8.simps, cases "utf8_lead_length (byte_of (hd str))")
        (auto simp: utf8_lead_length_def split: if_splits)
  qed
  then show ?thesis using validated_text [of str] validate_text by (auto simp: list_all_iff)
qed

end
