(* ===== verification/Tokenizer.thy ===== *)
theory Tokenizer
  imports Bpe Utf8 "HOL-Library.Sublist"
begin

text \<open>
  The tokenizer of \<open>src/src/tokenizer.cpp\<close> once it is loaded: encoding of one text and of a pair, and
  decoding. A text is cut at the added tokens; every plain span between them is normalized, split into
  symbols and merged. The properties: encoding a text returns what the reference computes, and
  decoding what was encoded gives the text back.
\<close>

section \<open>State\<close>

definition kUnkId :: token_id where "kUnkId = 0"
definition kBosId :: token_id where "kBosId = 1"
definition kEosId :: token_id where "kEosId = 2"
definition kVocabularySize :: nat where "kVocabularySize = 32000"
definition kFirstByteId :: nat where "kFirstByteId = 3"
definition kUnkToken :: string where "kUnkToken = ''<unk>''"
definition kBosToken :: string where "kBosToken = ''<s>''"
definition kEosToken :: string where "kEosToken = ''</s>''"

text \<open>The lower one eighth block, U+2581.\<close>

definition kWordBoundary :: string where
  "kWordBoundary = [CHR 0xE2, CHR 0x96, CHR 0x81]"

record AddedTokenState =
  at_id :: token_id
  at_content :: string
  single_word :: bool
  lstrip :: bool
  rstrip :: bool
  normalized :: bool
  at_special :: bool

record TemplateItemState =
  ti_special :: bool
  ti_id :: string
  ti_type_id :: token_id

record SpecialTokenState =
  st_id :: string
  st_ids :: "token_id list"
  st_tokens :: "string list"

record DecoderState =
  d_replace_pattern :: string
  d_replace_content :: string
  strip_content :: string
  strip_start :: token_id
  strip_stop :: token_id

text \<open>\<open>ParsedState\<close>, whose fields \<open>Tokenizer::Impl\<close> takes over one by one.\<close>

record Impl =
  im_vocabulary_by_id :: "string list"
  im_vocabulary :: "string \<rightharpoonup> token_id"
  im_byte_pieces :: "string list"
  im_added_tokens :: "AddedTokenState list"
  im_normalizer :: NormalizerState
  im_single_template :: "TemplateItemState list"
  im_pair_template :: "TemplateItemState list"
  im_special_tokens :: "string \<rightharpoonup> SpecialTokenState"
  im_decoder :: DecoderState
  im_unk_token :: string
  im_fuse_unk :: bool
  im_byte_fallback :: bool
  im_merge_ranks :: "TokenPair \<rightharpoonup> nat"
  im_merge_result_ids :: "TokenPair \<rightharpoonup> token_id"
  im_merges_by_rank :: "TokenPair list"

definition byte_piece :: "nat \<Rightarrow> string" where
  "byte_piece byte = ''<0x'' @ [''0123456789ABCDEF'' ! (byte div 16 mod 16), ''0123456789ABCDEF'' ! (byte mod 16)] @ ''>''"

section \<open>Encoding\<close>

definition encode_checked_append :: "Limits \<Rightarrow> string \<Rightarrow> string \<Rightarrow> string throws" where
  "encode_checked_append limits target value =
     (if length value > string_max limits - length target then Inl OverflowError else Inr (target @ value))"

definition encode_checked_push :: "Limits \<Rightarrow> token_id list \<Rightarrow> token_id \<Rightarrow> token_id list throws" where
  "encode_checked_push limits result i =
     (if length result \<ge> ids_max limits then Inl OverflowError else Inr (result @ [i]))"

function normalize_loop :: "Limits \<Rightarrow> NormalizerState \<Rightarrow> string \<Rightarrow> string \<Rightarrow> string throws" where
  "normalize_loop limits norm rest out =
     (if rest = [] then Inr out
      else
        let pattern = replace_pattern norm in
        if pattern \<noteq> [] \<and> length pattern \<le> length rest \<and> take (length pattern) rest = pattern
        then andThen (encode_checked_append limits out (replace_content norm))
               (normalize_loop limits norm (drop (length pattern) rest))
        else andThen (encode_checked_append limits out [hd rest]) (normalize_loop limits norm (tl rest)))"
  by pat_completeness auto
termination
  by (relation "measure (\<lambda>(_, _, rest, _). length rest)") (auto simp: Let_def)

declare normalize_loop.simps [simp del]

definition normalize_encode_span :: "Limits \<Rightarrow> string \<Rightarrow> NormalizerState \<Rightarrow> string throws" where
  "normalize_encode_span limits plain norm =
     andThen (encode_checked_add (length plain) (length (prepend norm))) (\<lambda>initial_size.
     if initial_size > string_max limits then Inl OverflowError
     else andThen (encode_checked_append limits [] (prepend norm)) (normalize_loop limits norm plain))"

definition append_bytes :: "Limits \<Rightarrow> EncodingTables \<Rightarrow> string \<Rightarrow> BpeNode list \<Rightarrow> BpeNode list throws" where
  "append_bytes limits tables bytes nodes =
     for_each bytes (\<lambda>c nodes.
       if byte_of c \<ge> length (byte_pieces tables) then Inl LogicError
       else case vocabulary tables (byte_pieces tables ! byte_of c) of
              None \<Rightarrow> Inl LogicError
            | Some i \<Rightarrow> append_bpe_node limits nodes i) nodes"

lemma encode_utf8_scalar_length_pos: "encode_utf8_scalar_length rest = Inr n \<Longrightarrow> 0 < n \<and> rest \<noteq> []"
  by (auto simp: encode_utf8_scalar_length_def Let_def split: if_splits)

function append_symbols :: "Limits \<Rightarrow> EncodingTables \<Rightarrow> string \<Rightarrow> BpeNode list \<Rightarrow> BpeNode list throws" where
  "append_symbols limits tables rest nodes =
     (if rest = [] then Inr nodes
      else
        andThen (encode_utf8_scalar_length rest) (\<lambda>n.
        let scalar = take n rest in
        andThen
          (case vocabulary tables scalar of
             Some i \<Rightarrow> append_bpe_node limits nodes i
           | None \<Rightarrow>
               if byte_fallback tables then append_bytes limits tables scalar nodes
               else if \<not> fuse_unk tables \<or> nodes = [] \<or> node_id (last nodes) \<noteq> kUnkId
               then append_bpe_node limits nodes kUnkId
               else Inr nodes)
          (append_symbols limits tables (drop n rest))))"
  by pat_completeness auto
termination
  by (relation "measure (\<lambda>(_, _, rest, _). length rest)") (auto dest: encode_utf8_scalar_length_pos)

declare append_symbols.simps [simp del]

definition append_encode_initial_symbols :: "Limits \<Rightarrow> string \<Rightarrow> EncodingTables \<Rightarrow> BpeNode list throws" where
  "append_encode_initial_symbols limits norm_text tables =
     andThen (encode_checked_reserve (nodes_max limits) (length norm_text)) (\<lambda>_. append_symbols limits tables norm_text [])"

definition append_encode_plain_span :: "Limits \<Rightarrow> string \<Rightarrow> EncodingTables \<Rightarrow> token_id list \<Rightarrow> token_id list throws" where
  "append_encode_plain_span limits plain tables result =
     (if plain = [] then Inr result
      else
        andThen (normalize_encode_span limits plain (normalizer tables)) (\<lambda>norm_text.
        andThen (append_encode_initial_symbols limits norm_text tables) (\<lambda>nodes.
        merged_ids_of limits tables nodes result)))"

text \<open>The longest added token at the head of the rest, the first of equally long ones.\<close>

definition better_match :: "string \<Rightarrow> (nat \<times> token_id) option \<Rightarrow> AddedTokenState \<Rightarrow> (nat \<times> token_id) option" where
  "better_match rest best token =
     (if length (at_content token) \<le> length rest \<and> take (length (at_content token)) rest = at_content token
         \<and> length (at_content token) > (case best of None \<Rightarrow> 0 | Some (n, _) \<Rightarrow> n)
      then Some (length (at_content token), at_id token) else best)"

definition match_added :: "AddedTokenState list \<Rightarrow> string \<Rightarrow> (nat \<times> token_id) option" where
  "match_added tokens rest = foldl (better_match rest) None tokens"

lemma match_added_pos: "match_added tokens rest = Some (n, i) \<Longrightarrow> 0 < n"
proof -
  have "(\<And>n i. b = Some (n, i) \<Longrightarrow> 0 < n) \<Longrightarrow> foldl (better_match rest) b tokens = Some (n, i) \<Longrightarrow> 0 < n" for b
  proof (induction tokens arbitrary: b)
    case (Cons token tokens)
    have "0 < m" if "better_match rest b token = Some (m, j)" for m j
      using that Cons.prems(1) by (auto simp: better_match_def split: if_splits option.splits)
    with Cons.IH [of "better_match rest b token"] Cons.prems(2) show ?case by simp
  qed simp
  from this [of None] show "match_added tokens rest = Some (n, i) \<Longrightarrow> 0 < n" by (simp add: match_added_def)
qed

function encode_spans ::
  "Limits \<Rightarrow> Impl \<Rightarrow> EncodingTables \<Rightarrow> string \<Rightarrow> nat \<Rightarrow> nat \<Rightarrow> token_id list \<Rightarrow> token_id list throws" where
  "encode_spans limits impl tables str plain_start offset result =
     (if \<not> offset < length str then append_encode_plain_span limits (drop plain_start str) tables result
      else
        (case match_added (im_added_tokens impl) (drop offset str) of
           None \<Rightarrow> encode_spans limits impl tables str plain_start (offset + 1) result
         | Some (match_length, match_id) \<Rightarrow>
             andThen (append_encode_plain_span limits (take (offset - plain_start) (drop plain_start str)) tables result) (\<lambda>result.
             andThen (encode_checked_push limits result match_id) (\<lambda>result.
             andThen (encode_checked_add offset match_length) (\<lambda>offset.
             encode_spans limits impl tables str offset offset result)))))"
  by pat_completeness auto
termination
  by (relation "measure (\<lambda>(_, _, _, str, _, offset, _). length str - offset)")
    (auto simp: encode_checked_add_def dest!: match_added_pos split: if_splits)

declare encode_spans.simps [simp del]

definition push_ids :: "Limits \<Rightarrow> token_id list \<Rightarrow> token_id list \<Rightarrow> token_id list throws" where
  "push_ids limits ids result = for_each ids (\<lambda>i result. encode_checked_push limits result i) result"

text \<open>The special tokens before the sequence of the single template.\<close>

fun single_prefix :: "Limits \<Rightarrow> Impl \<Rightarrow> TemplateItemState list \<Rightarrow> token_id list \<Rightarrow> token_id list throws" where
  "single_prefix limits impl [] result = Inl LogicError"
| "single_prefix limits impl (item # items) result =
     (if \<not> ti_special item then if ti_id item \<noteq> ''A'' then Inl LogicError else Inr result
      else
        (case im_special_tokens impl (ti_id item) of
           None \<Rightarrow> Inl LogicError
         | Some special \<Rightarrow> andThen (push_ids limits (st_ids special) result) (single_prefix limits impl items)))"

definition encoding_tables :: "Impl \<Rightarrow> EncodingTables" where
  "encoding_tables impl =
     \<lparr>vocabulary = im_vocabulary impl, byte_pieces = im_byte_pieces impl, merge_ranks = im_merge_ranks impl,
      merge_result_ids = im_merge_result_ids impl, normalizer = im_normalizer impl,
      fuse_unk = im_fuse_unk impl, byte_fallback = im_byte_fallback impl\<rparr>"

definition tokenizer_encode :: "Limits \<Rightarrow> Impl \<Rightarrow> string \<Rightarrow> bool \<Rightarrow> token_id list throws" where
  "tokenizer_encode limits impl str add_special_tokens =
     andThen (validate_encode_utf8 str) (\<lambda>_.
     andThen (encode_checked_add (length str) 2) (\<lambda>reserve_size.
     andThen (encode_checked_reserve (ids_max limits) reserve_size) (\<lambda>_.
     andThen (if add_special_tokens then single_prefix limits impl (im_single_template impl) [] else Inr []) (\<lambda>result.
     encode_spans limits impl (encoding_tables impl) str 0 0 result))))"

text \<open>The size of a pair's encoding, and the items of its template.\<close>

fun pair_size :: "Impl \<Rightarrow> TemplateItemState list \<Rightarrow> nat \<Rightarrow> nat throws" where
  "pair_size impl [] n = Inr n"
| "pair_size impl (item # items) n =
     (if \<not> ti_special item then pair_size impl items n
      else
        (case im_special_tokens impl (ti_id item) of
           None \<Rightarrow> Inl LogicError
         | Some special \<Rightarrow> andThen (encode_checked_add n (length (st_ids special))) (pair_size impl items)))"

fun pair_items ::
  "Limits \<Rightarrow> Impl \<Rightarrow> token_id list \<Rightarrow> token_id list \<Rightarrow> TemplateItemState list \<Rightarrow> bool \<times> bool \<times> token_id list
     \<Rightarrow> (bool \<times> bool \<times> token_id list) throws" where
  "pair_items limits impl first_ids second_ids [] s = Inr s"
| "pair_items limits impl first_ids second_ids (item # items) (first_seen, second_seen, result) =
     (if ti_special item then
        (case im_special_tokens impl (ti_id item) of
           None \<Rightarrow> Inl LogicError
         | Some special \<Rightarrow> andThen (push_ids limits (st_ids special) result) (\<lambda>result.
             pair_items limits impl first_ids second_ids items (first_seen, second_seen, result)))
      else if ti_id item = ''A'' then
        if first_seen then Inl LogicError
        else andThen (push_ids limits first_ids result) (\<lambda>result.
          pair_items limits impl first_ids second_ids items (True, second_seen, result))
      else if ti_id item = ''B'' then
        if second_seen then Inl LogicError
        else andThen (push_ids limits second_ids result) (\<lambda>result.
          pair_items limits impl first_ids second_ids items (first_seen, True, result))
      else Inl LogicError)"

definition tokenizer_encode_pair :: "Limits \<Rightarrow> Impl \<Rightarrow> string \<Rightarrow> string \<Rightarrow> bool \<Rightarrow> token_id list throws" where
  "tokenizer_encode_pair limits impl first second add_special_tokens =
     andThen (validate_encode_utf8 first) (\<lambda>_.
     andThen (validate_encode_utf8 second) (\<lambda>_.
     andThen (tokenizer_encode limits impl first False) (\<lambda>first_ids.
     andThen (tokenizer_encode limits impl second False) (\<lambda>second_ids.
     andThen (encode_checked_add (length first_ids) (length second_ids)) (\<lambda>reserve_size.
     andThen (if add_special_tokens then pair_size impl (im_pair_template impl) reserve_size else Inr reserve_size) (\<lambda>reserve_size.
     andThen (encode_checked_reserve (ids_max limits) reserve_size) (\<lambda>_.
     if \<not> add_special_tokens then andThen (push_ids limits first_ids []) (push_ids limits second_ids)
     else
       andThen (pair_items limits impl first_ids second_ids (im_pair_template impl) (False, False, [])) (\<lambda>(first_seen, second_seen, result).
       if \<not> first_seen \<or> \<not> second_seen then Inl LogicError else Inr result))))))))"

section \<open>Decoding\<close>

text \<open>A hexadecimal digit, in upper case, or \<open>0xFF\<close>.\<close>

definition hex_digit :: "char \<Rightarrow> nat" where
  "hex_digit digit =
     (if byte_of (CHR ''0'') \<le> byte_of digit \<and> byte_of digit \<le> byte_of (CHR ''9'') then byte_of digit - byte_of (CHR ''0'')
      else if byte_of (CHR ''A'') \<le> byte_of digit \<and> byte_of digit \<le> byte_of (CHR ''F'')
      then byte_of digit - byte_of (CHR ''A'') + 10
      else 0xFF)"

definition is_byte_fallback_piece :: "string \<Rightarrow> char option" where
  "is_byte_fallback_piece piece =
     (if length piece \<noteq> 6 \<or> piece ! 0 \<noteq> CHR ''<'' \<or> piece ! 1 \<noteq> CHR ''0'' \<or> piece ! 2 \<noteq> CHR ''x'' \<or> piece ! 5 \<noteq> CHR ''>''
      then None
      else
        let high = hex_digit (piece ! 3); low = hex_digit (piece ! 4) in
        if high = 0xFF \<or> low = 0xFF then None else Some (char_of (16 * high + low)))"

text \<open>\<open>std::string_view::find\<close>: the position of the first occurrence.\<close>

fun str_find :: "string \<Rightarrow> string \<Rightarrow> nat option" where
  "str_find pattern str =
     (if take (length pattern) str = pattern then Some 0
      else case str of [] \<Rightarrow> None | _ # str \<Rightarrow> map_option Suc (str_find pattern str))"

declare str_find.simps [simp del]

lemma str_find_bound: "str_find pattern str = Some m \<Longrightarrow> m + length pattern \<le> length str"
proof (induction str arbitrary: m)
  case Nil
  then show ?case by (subst (asm) str_find.simps) (auto split: if_splits)
next
  case (Cons c str)
  show ?case
  proof (cases "take (length pattern) (c # str) = pattern")
    case True
    then have "m = 0" using Cons.prems by (simp add: str_find.simps)
    moreover have "length pattern \<le> length (c # str)" using True by (metis length_take min.cobounded1)
    ultimately show ?thesis by simp
  next
    case False
    then show ?thesis using Cons by (auto simp: str_find.simps [of pattern "c # str"])
  qed
qed

lemma str_find_shorter: "str_find pattern str = Some m \<Longrightarrow> pattern \<noteq> [] \<Longrightarrow> length str - (m + length pattern) < length str"
  using str_find_bound [of pattern str m] by (cases pattern) auto

definition checked_decode_size_add :: "nat \<Rightarrow> nat \<Rightarrow> nat throws" where
  "checked_decode_size_add current addition =
     (if addition > size_max - current then Inl OverflowError else Inr (current + addition))"

function decoded_size_loop :: "DecoderState \<Rightarrow> string \<Rightarrow> nat \<Rightarrow> nat throws" where
  "decoded_size_loop decoder rest size_so_far =
     (if d_replace_pattern decoder = [] then checked_decode_size_add size_so_far (length rest)
      else
        (case str_find (d_replace_pattern decoder) rest of
           None \<Rightarrow> checked_decode_size_add size_so_far (length rest)
         | Some m \<Rightarrow>
             andThen (checked_decode_size_add size_so_far m) (\<lambda>size_so_far.
             andThen (checked_decode_size_add size_so_far (length (d_replace_content decoder)))
               (decoded_size_loop decoder (drop (m + length (d_replace_pattern decoder)) rest)))))"
  by pat_completeness auto
termination
  by (relation "measure (\<lambda>(_, rest, _). length rest)") (auto dest!: str_find_shorter)

definition decoded_piece_size :: "string \<Rightarrow> DecoderState \<Rightarrow> nat throws" where
  "decoded_piece_size piece decoder =
     (if is_byte_fallback_piece piece \<noteq> None then Inr 1
      else if d_replace_pattern decoder = [] then Inr (length piece)
      else decoded_size_loop decoder piece 0)"

function decoded_loop :: "DecoderState \<Rightarrow> string \<Rightarrow> string \<Rightarrow> string" where
  "decoded_loop decoder out rest =
     (if d_replace_pattern decoder = [] then out @ rest
      else
        (case str_find (d_replace_pattern decoder) rest of
           None \<Rightarrow> out @ rest
         | Some m \<Rightarrow> decoded_loop decoder (out @ take m rest @ d_replace_content decoder)
                       (drop (m + length (d_replace_pattern decoder)) rest)))"
  by pat_completeness auto
termination
  by (relation "measure (\<lambda>(_, _, rest). length rest)") (auto dest!: str_find_shorter)

declare decoded_size_loop.simps [simp del] decoded_loop.simps [simp del]

definition append_decoded_piece :: "string \<Rightarrow> string \<Rightarrow> DecoderState \<Rightarrow> string" where
  "append_decoded_piece out piece decoder =
     (case is_byte_fallback_piece piece of
        Some c \<Rightarrow> out @ [c]
      | None \<Rightarrow> if d_replace_pattern decoder = [] then out @ piece else decoded_loop decoder out piece)"

definition is_skipped_special_id :: "token_id \<Rightarrow> bool" where
  "is_skipped_special_id i = (i = kUnkId \<or> i = kBosId \<or> i = kEosId)"

definition tokenizer_decode :: "Limits \<Rightarrow> Impl \<Rightarrow> token_id list \<Rightarrow> bool \<Rightarrow> string throws" where
  "tokenizer_decode limits impl ids skip_special_tokens =
     (if list_ex (\<lambda>i. unat i \<ge> length (im_vocabulary_by_id impl)) ids then Inl InvalidArgument
      else
        let kept = filter (\<lambda>i. \<not> (skip_special_tokens \<and> is_skipped_special_id i)) ids;
            decoder = im_decoder impl in
        andThen (for_each kept (\<lambda>i n.
          andThen (decoded_piece_size (im_vocabulary_by_id impl ! unat i) decoder) (checked_decode_size_add n)) 0) (\<lambda>output_size.
        if output_size > string_max limits then Inl OverflowError
        else
          let result = foldl (\<lambda>out i. append_decoded_piece out (im_vocabulary_by_id impl ! unat i) decoder) [] kept in
          Inr (if strip_start decoder = 1 \<and> strip_stop decoder = 0 \<and> strip_content decoder = '' '' \<and> result \<noteq> []
                  \<and> hd result = CHR '' '' then tl result else result)))"

section \<open>Normalization\<close>

definition standard_normalizer :: NormalizerState where
  "standard_normalizer = \<lparr>prepend = kWordBoundary, replace_pattern = '' '', replace_content = kWordBoundary\<rparr>"

abbreviation boundary :: nat where "boundary \<equiv> 0x2581"

definition normal_scalar :: "nat \<Rightarrow> nat" where
  "normal_scalar u = (if u = 0x20 then boundary else u)"

definition normal_scalars :: "nat list \<Rightarrow> nat list" where
  "normal_scalars us = boundary # map normal_scalar us"

lemma utf8_boundary: "utf8 boundary = kWordBoundary"
proof -
  have "(char_of (0xE2 :: nat) :: char) = CHR 0xE2" "(char_of (0x96 :: nat) :: char) = CHR 0x96" "(char_of (0x81 :: nat) :: char) = CHR 0x81"
    by code_simp+
  then show ?thesis by (simp add: utf8_def utf8_bytes_def kWordBoundary_def)
qed

lemma utf8_space: "utf8 0x20 = '' ''"
proof -
  have "(char_of (0x20 :: nat) :: char) = CHR '' ''" by code_simp
  then show ?thesis by (simp add: utf8_def utf8_bytes_def)
qed

lemma byte_of_space: "byte_of (CHR '' '') = 0x20"
  by (simp add: byte_of_def)

lemma byte_of_eq_iff: "byte_of c = byte_of d \<longleftrightarrow> c = d"
  by (metis char_of_byte_of)

text \<open>The bytes of a scalar other than the space are not the space.\<close>

lemma utf8_not_space:
  assumes "scalar_value u" "u \<noteq> 0x20" "c \<in> set (utf8 u)"
  shows "c \<noteq> CHR '' ''"
proof -
  obtain b where b: "b \<in> set (utf8_bytes u)" "c = char_of b" using assms(3) by (auto simp: utf8_def)
  then have "byte_of c = b" using utf8_bytes_less [OF assms(1)] by (simp add: byte_of_char_of)
  moreover have "b \<noteq> 0x20" using b(1) assms(2) by (auto simp: utf8_bytes_def split: if_splits)
  ultimately show ?thesis using byte_of_space by auto
qed

lemma normalize_plain:
  assumes "\<forall>c \<in> set bs. c \<noteq> CHR '' ''" and "length out + length bs \<le> string_max limits"
  shows "normalize_loop limits standard_normalizer (bs @ rest) out = normalize_loop limits standard_normalizer rest (out @ bs)"
  using assms
proof (induction bs arbitrary: out)
  case (Cons c bs)
  then have "normalize_loop limits standard_normalizer (c # bs @ rest) out = normalize_loop limits standard_normalizer (bs @ rest) (out @ [c])"
    by (subst normalize_loop.simps) (simp add: standard_normalizer_def encode_checked_append_def)
  with Cons show ?case by simp
qed simp

lemma normalize_loop_text:
  assumes "\<forall>u \<in> set us. scalar_value u" and "length out + length (utf8_text (map normal_scalar us)) \<le> string_max limits"
  shows "normalize_loop limits standard_normalizer (utf8_text us) out = Inr (out @ utf8_text (map normal_scalar us))"
  using assms
proof (induction us arbitrary: out)
  case Nil
  then show ?case by (simp add: normalize_loop.simps)
next
  case (Cons u us)
  show ?case
  proof (cases "u = 0x20")
    case True
    have "length kWordBoundary \<le> string_max limits - length out"
      using Cons.prems(2) True by (simp add: normal_scalar_def utf8_boundary)
    then have "normalize_loop limits standard_normalizer ('' '' @ utf8_text us) out
        = normalize_loop limits standard_normalizer (utf8_text us) (out @ kWordBoundary)"
      by (subst normalize_loop.simps) (simp add: standard_normalizer_def encode_checked_append_def)
    then show ?thesis using True Cons by (simp add: utf8_space normal_scalar_def utf8_boundary)
  next
    case False
    then have "normalize_loop limits standard_normalizer (utf8 u @ utf8_text us) out
        = normalize_loop limits standard_normalizer (utf8_text us) (out @ utf8 u)"
      using Cons.prems utf8_not_space [of u] by (intro normalize_plain) (auto simp: normal_scalar_def)
    then show ?thesis using False Cons by (simp add: normal_scalar_def)
  qed
qed

lemma length_utf8_pos: "scalar_value u \<Longrightarrow> 1 \<le> length (utf8 u)"
  using utf8_facts(1) [of u] by (cases "utf8 u") auto

lemma normal_length: "\<forall>u \<in> set us. scalar_value u \<Longrightarrow> length (utf8_text (map normal_scalar us)) \<le> 3 * length (utf8_text us)"
proof (induction us)
  case (Cons u us)
  then show ?case using length_utf8_pos [of u]
    by (auto simp: normal_scalar_def utf8_boundary utf8_space kWordBoundary_def)
qed simp

lemma scalar_boundary: "scalar_value boundary"
  by (simp add: scalar_value_def)

lemma normal_scalars_ok: "\<forall>u \<in> set us. scalar_value u \<Longrightarrow> \<forall>u \<in> set (normal_scalars us). scalar_value u"
  by (auto simp: normal_scalars_def normal_scalar_def scalar_boundary)

lemma length_normal_text:
  "\<forall>u \<in> set us. scalar_value u \<Longrightarrow> length (utf8_text (normal_scalars us)) \<le> 3 * length (utf8_text us) + 3"
  using normal_length [of us] by (simp add: normal_scalars_def utf8_boundary kWordBoundary_def)

lemma normalize_text:
  assumes "\<forall>u \<in> set us. scalar_value u" and "3 * length (utf8_text us) + 3 \<le> string_max limits"
    and "3 * length (utf8_text us) + 3 \<le> size_max"
  shows "normalize_encode_span limits (utf8_text us) standard_normalizer = Inr (utf8_text (normal_scalars us))"
proof -
  have k: "prepend standard_normalizer = kWordBoundary" "length kWordBoundary = 3" by (simp_all add: standard_normalizer_def kWordBoundary_def)
  have "length kWordBoundary + length (utf8_text (map normal_scalar us)) \<le> string_max limits"
    using normal_length [OF assms(1)] assms(2) k by simp
  from normalize_loop_text [OF assms(1) this] show ?thesis
    using assms by (simp add: normalize_encode_span_def encode_checked_add_def encode_checked_append_def k normal_scalars_def utf8_boundary)
qed

section \<open>Symbols\<close>

definition byte_ids :: "EncodingTables \<Rightarrow> string \<Rightarrow> token_id list" where
  "byte_ids tables bytes = map (\<lambda>c. the (vocabulary tables (byte_pieces tables ! byte_of c))) bytes"

definition symbols_of :: "EncodingTables \<Rightarrow> nat \<Rightarrow> token_id list" where
  "symbols_of tables u = (case vocabulary tables (utf8 u) of Some i \<Rightarrow> [i] | None \<Rightarrow> byte_ids tables (utf8 u))"

definition symbols :: "EncodingTables \<Rightarrow> nat list \<Rightarrow> token_id list" where
  "symbols tables us = concat (map (symbols_of tables) us)"

text \<open>What encoding needs of its tables.\<close>

definition tables_ok :: "EncodingTables \<Rightarrow> bool" where
  "tables_ok tables \<longleftrightarrow> merges_ok tables \<and> normalizer tables = standard_normalizer \<and> byte_fallback tables
     \<and> length (byte_pieces tables) = 256 \<and> set (byte_pieces tables) \<subseteq> dom (vocabulary tables)"

lemma append_bytes_nodes:
  assumes "tables_ok tables" and "length ys + length bs \<le> nodes_max limits"
  shows "append_bytes limits tables bs (initial_nodes ys) = Inr (initial_nodes (ys @ byte_ids tables bs))"
  using assms(2)
proof (induction bs arbitrary: ys)
  case (Cons c bs)
  have "byte_pieces tables ! byte_of c \<in> set (byte_pieces tables)"
    using assms(1) byte_of_less [of c] by (simp add: tables_ok_def)
  then have "byte_pieces tables ! byte_of c \<in> dom (vocabulary tables)"
    using assms(1) by (auto simp only: tables_ok_def)
  then obtain i where i: "vocabulary tables (byte_pieces tables ! byte_of c) = Some i" by blast
  have "byte_of c < length (byte_pieces tables)" using assms(1) byte_of_less by (simp add: tables_ok_def)
  with i Cons show ?case by (simp add: append_bytes_def initial_nodes_append byte_ids_def)
qed (simp add: append_bytes_def byte_ids_def)

lemma length_symbols_of: "scalar_value u \<Longrightarrow> length (symbols_of tables u) \<le> length (utf8 u)"
  using length_utf8_pos [of u] by (simp add: symbols_of_def byte_ids_def split: option.split)

lemma length_symbols: "\<forall>u \<in> set us. scalar_value u \<Longrightarrow> length (symbols tables us) \<le> length (utf8_text us)"
  by (induction us) (auto simp: symbols_def dest!: length_symbols_of [of _ tables] intro: add_mono)

lemma append_symbols_nodes:
  assumes "tables_ok tables" and "\<forall>u \<in> set us. scalar_value u" and "length ys + length (utf8_text us) \<le> nodes_max limits"
  shows "append_symbols limits tables (utf8_text us) (initial_nodes ys) = Inr (initial_nodes (ys @ symbols tables us))"
  using assms(2,3)
proof (induction us arbitrary: ys)
  case Nil
  then show ?case by (simp add: append_symbols.simps symbols_def)
next
  case (Cons u us)
  then have u: "scalar_value u" by simp
  note f = utf8_facts [OF u]
  have fb: "byte_fallback tables" using assms(1) by (simp add: tables_ok_def)
  have "append_symbols limits tables (utf8 u @ utf8_text us) (initial_nodes ys) =
      append_symbols limits tables (utf8_text us) (initial_nodes (ys @ symbols_of tables u))"
  proof (cases "vocabulary tables (utf8 u)")
    case None
    then show ?thesis
      using f(1,4) fb append_bytes_nodes [OF assms(1), of ys "utf8 u" limits] Cons.prems
      by (subst append_symbols.simps) (simp add: symbols_of_def)
  next
    case (Some i)
    have "length ys < nodes_max limits" using Cons.prems(2) length_utf8_pos [OF u] by simp
    with Some show ?thesis
      using f(1,4) by (subst append_symbols.simps) (simp add: symbols_of_def initial_nodes_append)
  qed
  also have "\<dots> = Inr (initial_nodes ((ys @ symbols_of tables u) @ symbols tables us))"
    using Cons length_symbols_of [OF u, of tables] by (intro Cons.IH) auto
  finally show ?case by (simp add: symbols_def)
qed

section \<open>Spans\<close>

text \<open>The reference for a plain span.\<close>

definition span_ids :: "EncodingTables \<Rightarrow> nat list \<Rightarrow> token_id list" where
  "span_ids tables us = (if us = [] then [] else bpe_reference tables (symbols tables (normal_scalars us)))"

text \<open>All limits exceed what a text of \<open>n\<close> bytes needs.\<close>

definition fits :: "Limits \<Rightarrow> nat \<Rightarrow> bool" where
  "fits limits n \<longleftrightarrow> 9 * (n + 2) \<le> size_max \<and> 9 * (n + 2) \<le> string_max limits \<and> 9 * (n + 2) \<le> ids_max limits
     \<and> 9 * (n + 2) \<le> nodes_max limits \<and> 9 * (n + 2) \<le> heap_max limits"

lemma fits_mono: "fits limits n \<Longrightarrow> m \<le> n \<Longrightarrow> fits limits m"
  by (auto simp: fits_def)

lemma utf8_text_Nil: "\<forall>u \<in> set us. scalar_value u \<Longrightarrow> utf8_text us = [] \<longleftrightarrow> us = []"
  using utf8_facts(1) by (cases us) auto

lemma length_span_ids:
  assumes "\<forall>u \<in> set us. scalar_value u" and "fits limits (length (utf8_text us))"
  shows "length (span_ids tables us) \<le> (if us = [] then 0 else 3 * length (utf8_text us) + 3)"
proof (cases "us = []")
  case False
  have "length (span_ids tables us) \<le> length (symbols tables (normal_scalars us))"
    using length_bpe_reference False by (simp add: span_ids_def)
  also have "\<dots> \<le> length (utf8_text (normal_scalars us))" by (rule length_symbols [OF normal_scalars_ok [OF assms(1)]])
  also have "\<dots> \<le> 3 * length (utf8_text us) + 3" by (rule length_normal_text [OF assms(1)])
  finally show ?thesis using False by simp
qed (simp add: span_ids_def)

lemma plain_span:
  assumes t: "tables_ok tables" and us: "\<forall>u \<in> set us. scalar_value u" and f: "fits limits (length (utf8_text us))"
    and r: "length result + 3 * length (utf8_text us) + 3 \<le> ids_max limits"
  shows "append_encode_plain_span limits (utf8_text us) tables result = Inr (result @ span_ids tables us)"
proof (cases "us = []")
  case True
  then show ?thesis by (simp add: append_encode_plain_span_def span_ids_def)
next
  case False
  let ?vs = "normal_scalars us" and ?n = "length (utf8_text us)"
  note vs = normal_scalars_ok [OF us]
  have norm: "normalize_encode_span limits (utf8_text us) standard_normalizer = Inr (utf8_text ?vs)" "length (utf8_text ?vs) \<le> 3 * ?n + 3"
    using normalize_text [OF us] length_normal_text [OF us] f by (simp_all add: fits_def)
  have init: "initial_nodes [] = []" by (simp add: initial_nodes_def)
  have "append_symbols limits tables (utf8_text ?vs) (initial_nodes []) = Inr (initial_nodes ([] @ symbols tables ?vs))"
    using norm(2) f by (intro append_symbols_nodes [OF t vs]) (auto simp: fits_def)
  then have "append_encode_initial_symbols limits (utf8_text ?vs) tables = Inr (initial_nodes (symbols tables ?vs))"
    using norm(2) f by (simp add: append_encode_initial_symbols_def encode_checked_reserve_def fits_def init)
  moreover have "merged_ids_of limits tables (initial_nodes (symbols tables ?vs)) result = Inr (result @ span_ids tables us)"
    using t f r norm(2) length_symbols [OF vs, of tables] False
    by (subst merged_ids_of_initial) (auto simp: tables_ok_def fits_def span_ids_def)
  ultimately show ?thesis
    using False utf8_text_Nil [OF us] norm(1) t by (simp add: append_encode_plain_span_def tables_ok_def)
qed

section \<open>Added tokens\<close>

definition ascii_tokens :: "AddedTokenState list \<Rightarrow> bool" where
  "ascii_tokens tokens \<longleftrightarrow> (\<forall>t \<in> set tokens. at_content t \<noteq> [] \<and> (\<forall>c \<in> set (at_content t). byte_of c < 0x80))"

lemma match_added_token:
  assumes "match_added tokens rest = Some (n, i)"
  shows "\<exists>t \<in> set tokens. n = length (at_content t) \<and> i = at_id t \<and> take n rest = at_content t \<and> n \<le> length rest"
proof -
  have "foldl (better_match rest) b tokens = Some (n, i) \<Longrightarrow> b = Some (n, i) \<or> (\<exists>t \<in> set tokens. n = length (at_content t)
      \<and> i = at_id t \<and> take n rest = at_content t \<and> n \<le> length rest)" for b
  proof (induction tokens arbitrary: b)
    case (Cons t tokens)
    from Cons.prems have "foldl (better_match rest) (better_match rest b t) tokens = Some (n, i)" by simp
    from Cons.IH [OF this] show ?case by (auto simp: better_match_def split: if_splits)
  qed simp
  from this [of None] assms show ?thesis by (simp add: match_added_def)
qed

lemma match_added_continuation:
  assumes "ascii_tokens tokens" and "0x80 \<le> byte_of c"
  shows "match_added tokens (c # rest) = None"
proof (rule ccontr)
  assume "match_added tokens (c # rest) \<noteq> None"
  then obtain n i where m: "match_added tokens (c # rest) = Some (n, i)" by auto
  from match_added_token [OF this] obtain t where t: "t \<in> set tokens" "take n (c # rest) = at_content t" by auto
  with match_added_pos [OF m] have "c \<in> set (at_content t)" by (cases n) (auto simp: t(2) [symmetric])
  with t(1) assms(1) have "byte_of c < 0x80" unfolding ascii_tokens_def by blast
  with assms(2) show False by simp
qed

lemma utf8_ascii:
  assumes "scalar_value u" and "byte_of (hd (utf8 u)) < 0x80"
  shows "length (utf8 u) = 1"
proof -
  have "utf8_lead_length (byte_of (hd (utf8 u))) = Inr 1" using assms(2) by (simp add: utf8_lead_length_def)
  then show ?thesis using utf8_facts(3) [OF assms(1)] by simp
qed

lemma drop_ascii:
  assumes "\<forall>u \<in> set us. scalar_value u" and "\<forall>c \<in> set s. byte_of c < 0x80" and "take (length s) (utf8_text us) = s"
  shows "drop (length s) (utf8_text us) = utf8_text (drop (length s) us)"
  using assms
proof (induction s arbitrary: us)
  case (Cons c s)
  show ?case
  proof (cases us)
    case Nil
    with Cons show ?thesis by simp
  next
    case (Cons u vs)
    with Cons.prems have u: "scalar_value u" by simp
    then obtain bs where bs: "utf8 u = c # bs" using Cons.prems(3) Cons utf8_facts(1) [OF u] by (cases "utf8 u") auto
    with utf8_ascii [OF u] Cons.prems(2) have "utf8 u = [c]" by simp
    with Cons Cons.prems Cons.IH [of vs] show ?thesis by simp
  qed
qed simp

section \<open>The reference of a text\<close>

text \<open>
  The code walks over bytes, the reference over scalar values: no added token starts inside the encoding of a
  scalar value.
\<close>

function spans_reference :: "EncodingTables \<Rightarrow> AddedTokenState list \<Rightarrow> nat list \<Rightarrow> nat list \<Rightarrow> token_id list" where
  "spans_reference tables tokens plain us =
     (if us = [] then span_ids tables plain
      else
        (case match_added tokens (utf8_text us) of
           None \<Rightarrow> spans_reference tables tokens (plain @ [hd us]) (tl us)
         | Some (n, i) \<Rightarrow> span_ids tables plain @ i # spans_reference tables tokens [] (drop n us)))"
  by pat_completeness auto
termination
  by (relation "measure (\<lambda>(_, _, _, us). length us)") (auto dest!: match_added_pos)

declare spans_reference.simps [simp del]

lemma encode_spans_skip:
  assumes "\<And>i. i < k \<Longrightarrow> match_added (im_added_tokens impl) (drop (offset + i) str) = None" and "offset + k \<le> length str"
  shows "encode_spans limits impl tables str start offset result = encode_spans limits impl tables str start (offset + k) result"
  using assms
proof (induction k)
  case (Suc k)
  then have "encode_spans limits impl tables str start offset result = encode_spans limits impl tables str start (offset + k) result"
    by simp
  also have "\<dots> = encode_spans limits impl tables str start (offset + k + 1) result"
    using Suc.prems(1) [of k] Suc.prems(2) by (subst encode_spans.simps) simp
  finally show ?case by simp
qed simp

text \<open>Inside the encoding of a scalar value nothing matches.\<close>

lemma skip_scalar:
  assumes tok: "ascii_tokens tokens" and u: "scalar_value u" and none: "match_added tokens (utf8 u @ rest) = None"
    and i: "i < length (utf8 u)"
  shows "match_added tokens (drop i (utf8 u @ rest)) = None"
proof (cases "i = 0")
  case False
  have "drop i (utf8 u @ rest) = (utf8 u ! i) # (drop (Suc i) (utf8 u @ rest))"
    using i by (simp add: Cons_nth_drop_Suc)
  moreover have "0x80 \<le> byte_of (utf8 u ! i)" using utf8_facts(6) [OF u _ i] False by simp
  ultimately show ?thesis using match_added_continuation [OF tok] by metis
qed (use none in simp)

lemma encode_spans_reference:
  assumes t: "tables_ok tables" and tok: "ascii_tokens (im_added_tokens impl)"
    and us: "\<forall>u \<in> set (plain @ us). scalar_value u"
    and str: "str = pre @ utf8_text plain @ utf8_text us" and f: "fits limits (length str)"
    and r: "length result + 6 * length (utf8_text (plain @ us)) + 3 \<le> ids_max limits"
  shows "encode_spans limits impl tables str (length pre) (length pre + length (utf8_text plain)) result
     = Inr (result @ spans_reference tables (im_added_tokens impl) plain us)"
  using us str r
proof (induction "length us" arbitrary: plain us pre result rule: less_induct)
  case less
  have plain: "\<forall>u \<in> set plain. scalar_value u" using less.prems(1) by simp
  have fp: "fits limits (length (utf8_text plain))" by (rule fits_mono [OF f]) (simp add: less.prems(2))
  have span: "append_encode_plain_span limits (utf8_text plain) tables result = Inr (result @ span_ids tables plain)"
    by (rule plain_span [OF t plain fp]) (use less.prems(3) in simp)
  show ?case
  proof (cases us)
    case Nil
    then show ?thesis
      using span less.prems(2) by (subst encode_spans.simps) (simp add: spans_reference.simps)
  next
    case (Cons u vs)
    have u: "scalar_value u" and vs: "\<forall>u \<in> set vs. scalar_value u" using less.prems(1) Cons by simp_all
    let ?o = "length pre + length (utf8_text plain)"
    have rest: "drop ?o str = utf8_text us" by (simp add: less.prems(2))
    have lt: "?o < length str" using utf8_facts(1) [OF u] Cons by (simp add: less.prems(2))
    show ?thesis
    proof (cases "match_added (im_added_tokens impl) (utf8_text us)")
      case None
      have "encode_spans limits impl tables str (length pre) ?o result
          = encode_spans limits impl tables str (length pre) (?o + length (utf8 u)) result"
      proof (rule encode_spans_skip)
        fix i assume "i < length (utf8 u)"
        then show "match_added (im_added_tokens impl) (drop (?o + i) str) = None"
          using skip_scalar [OF tok u, of "utf8_text vs" i] None Cons rest by (metis add.commute drop_drop utf8_text_simps(2))
      qed (simp add: less.prems(2) Cons)
      also have "\<dots> = encode_spans limits impl tables str (length pre) (length pre + length (utf8_text (plain @ [u]))) result"
        by (simp add: add.assoc)
      also have "\<dots> = Inr (result @ spans_reference tables (im_added_tokens impl) (plain @ [u]) vs)"
        by (rule less.hyps) (use less.prems Cons in auto)
      also have "spans_reference tables (im_added_tokens impl) (plain @ [u]) vs = spans_reference tables (im_added_tokens impl) plain us"
        using None Cons by (subst (2) spans_reference.simps) simp
      finally show ?thesis .
    next
      case (Some p)
      then obtain n i where m: "match_added (im_added_tokens impl) (utf8_text us) = Some (n, i)" by (cases p) auto
      note pos = match_added_pos [OF m]
      obtain tk where tk: "tk \<in> set (im_added_tokens impl)" "n = length (at_content tk)" "take n (utf8_text us) = at_content tk"
        "n \<le> length (utf8_text us)" using match_added_token [OF m] by blast
      have us': "\<forall>u \<in> set us. scalar_value u" using less.prems(1) by simp
      have d: "drop n (utf8_text us) = utf8_text (drop n us)"
        using drop_ascii [OF us', of "at_content tk"] tk tok by (simp add: ascii_tokens_def)
      have lenu: "length (utf8_text (drop n us)) + n = length (utf8_text us)" using tk(4) by (simp add: d [symmetric])
      have ids: "length (span_ids tables plain) \<le> 6 * length (utf8_text plain)"
        using length_span_ids [OF plain fp, of tables] utf8_text_Nil [OF plain] by (cases "utf8_text plain") (auto split: if_splits)
      have st: "take (?o - length pre) (drop (length pre) str) = utf8_text plain" by (simp add: less.prems(2))
      let ?r = "result @ span_ids tables plain @ [i]"
      have push: "encode_checked_push limits (result @ span_ids tables plain) i = Inr ?r"
        using less.prems(3) ids by (simp add: encode_checked_push_def)
      have "?o + n \<le> length str" using tk(4) by (simp add: less.prems(2))
      then have off: "encode_checked_add ?o n = Inr (?o + n)" using f by (auto simp: encode_checked_add_def fits_def)
      have "encode_spans limits impl tables str (length pre) ?o result = encode_spans limits impl tables str (?o + n) (?o + n) ?r"
        by (subst encode_spans.simps) (simp only: lt rest m st span push off andThen_simps option.case prod.case simp_thms if_False not_True_eq_False)
      also have "\<dots> = encode_spans limits impl tables str (length (take (?o + n) str)) (length (take (?o + n) str) + length (utf8_text [])) ?r"
        using \<open>?o + n \<le> length str\<close> by simp
      also have "\<dots> = Inr (?r @ spans_reference tables (im_added_tokens impl) [] (drop n us))"
      proof (rule less.hyps)
        show "length (drop n us) < length us" using pos Cons by simp
        show "\<forall>u \<in> set ([] @ drop n us). scalar_value u" using us' by (auto dest: in_set_dropD)
        show "str = take (?o + n) str @ utf8_text [] @ utf8_text (drop n us)"
          using d rest by (metis append_Nil append_take_drop_id drop_drop add.commute utf8_text_simps(1))
        show "length ?r + 6 * length (utf8_text ([] @ drop n us)) + 3 \<le> ids_max limits"
          using less.prems(3) ids lenu pos by simp
      qed
      also have "?r @ spans_reference tables (im_added_tokens impl) [] (drop n us) = result @ spans_reference tables (im_added_tokens impl) plain us"
        using m Cons by (subst (2) spans_reference.simps) simp
      finally show ?thesis .
    qed
  qed
qed

section \<open>Encoding a text\<close>

text \<open>What loading guarantees of a tokenizer.\<close>

definition vocabulary_ok :: "string list \<Rightarrow> (string \<rightharpoonup> token_id) \<Rightarrow> bool" where
  "vocabulary_ok by_id vocab \<longleftrightarrow>
     259 \<le> length by_id \<and> length by_id < 2 ^ 32 \<and> distinct by_id
     \<and> (\<forall>s i. vocab s = Some i \<longleftrightarrow> unat i < length by_id \<and> by_id ! unat i = s)
     \<and> by_id ! 0 = kUnkToken \<and> by_id ! 1 = kBosToken \<and> by_id ! 2 = kEosToken
     \<and> (\<forall>b < 256. by_id ! (3 + b) = byte_piece b)"

definition merges_wf :: "string list \<Rightarrow> TokenPair list \<Rightarrow> (TokenPair \<rightharpoonup> nat) \<Rightarrow> (TokenPair \<rightharpoonup> token_id) \<Rightarrow> bool" where
  "merges_wf by_id pairs ranks results \<longleftrightarrow>
     distinct pairs \<and> (\<forall>p r. ranks p = Some r \<longleftrightarrow> r < length pairs \<and> pairs ! r = p)
     \<and> (\<forall>a b. (a, b) \<in> set pairs \<longrightarrow> unat a < length by_id \<and> unat b < length by_id
          \<and> (\<exists>c. results (a, b) = Some c \<and> unat c < length by_id \<and> by_id ! unat c = by_id ! unat a @ by_id ! unat b))"

definition bos_template :: TemplateItemState where
  "bos_template = \<lparr>ti_special = True, ti_id = kBosToken, ti_type_id = 0\<rparr>"

definition tokenizer_ok :: "Impl \<Rightarrow> bool" where
  "tokenizer_ok impl \<longleftrightarrow>
     vocabulary_ok (im_vocabulary_by_id impl) (im_vocabulary impl)
     \<and> im_byte_pieces impl = map byte_piece [0..<256]
     \<and> merges_wf (im_vocabulary_by_id impl) (im_merges_by_rank impl) (im_merge_ranks impl) (im_merge_result_ids impl)
     \<and> map (\<lambda>t. (at_id t, at_content t)) (im_added_tokens impl) = [(kUnkId, kUnkToken), (kBosId, kBosToken), (kEosId, kEosToken)]
     \<and> im_normalizer impl = standard_normalizer
     \<and> im_single_template impl = [bos_template, \<lparr>ti_special = False, ti_id = ''A'', ti_type_id = 0\<rparr>]
     \<and> im_pair_template impl = [bos_template, \<lparr>ti_special = False, ti_id = ''A'', ti_type_id = 0\<rparr>,
          bos_template\<lparr>ti_type_id := 1\<rparr>, \<lparr>ti_special = False, ti_id = ''B'', ti_type_id = 1\<rparr>]
     \<and> (\<exists>special. im_special_tokens impl kBosToken = Some special \<and> st_ids special = [kBosId])
     \<and> im_decoder impl = \<lparr>d_replace_pattern = kWordBoundary, d_replace_content = '' '', strip_content = '' '', strip_start = 1, strip_stop = 0\<rparr>
     \<and> im_fuse_unk impl \<and> im_byte_fallback impl"

lemma unat_token_id: "n < 2 ^ 32 \<Longrightarrow> unat (word_of_nat n :: token_id) = n"
  by (simp add: unsigned_of_nat take_bit_nat_eq_self)

lemma byte_piece_token:
  assumes "tokenizer_ok impl" "b < 256"
  shows "byte_piece b \<in> dom (im_vocabulary impl)"
proof -
  have "unat (word_of_nat (3 + b) :: token_id) = 3 + b" using assms(2) by (intro unat_token_id) simp
  with assms have "im_vocabulary impl (byte_piece b) = Some (word_of_nat (3 + b))" by (auto simp: vocabulary_ok_def tokenizer_ok_def)
  then show ?thesis by blast
qed

lemma tokenizer_tables_ok:
  assumes "tokenizer_ok impl"
  shows "tables_ok (encoding_tables impl)"
proof -
  let ?t = "encoding_tables impl"
  have v: "vocabulary_ok (im_vocabulary_by_id impl) (im_vocabulary impl)"
    and m: "merges_wf (im_vocabulary_by_id impl) (im_merges_by_rank impl) (im_merge_ranks impl) (im_merge_result_ids impl)"
    and p: "im_byte_pieces impl = map byte_piece [0..<256]"
    using assms by (simp_all add: tokenizer_ok_def)
  have "merges_ok ?t"
    unfolding merges_ok_def
  proof
    fix p assume "p \<in> dom (merge_ranks ?t)"
    then obtain r where "r < length (im_merges_by_rank impl)" "im_merges_by_rank impl ! r = p"
      using m by (auto simp: merges_wf_def encoding_tables_def simp del: split_paired_All)
    then have "p \<in> set (im_merges_by_rank impl)" by auto
    moreover obtain a b where "p = (a, b)" by (cases p) auto
    ultimately have "\<exists>c. im_merge_result_ids impl p = Some c" using m unfolding merges_wf_def by blast
    then show "p \<in> dom (merge_result_ids ?t)" by (auto simp: encoding_tables_def)
  qed
  moreover have "set (im_byte_pieces impl) \<subseteq> dom (im_vocabulary impl)"
    unfolding p set_map image_subset_iff using byte_piece_token [OF assms] by simp
  ultimately show ?thesis using assms p by (simp add: tables_ok_def encoding_tables_def tokenizer_ok_def)
qed

lemma tokenizer_ascii_tokens:
  assumes "tokenizer_ok impl"
  shows "ascii_tokens (im_added_tokens impl)"
proof -
  have "at_content t \<in> {kUnkToken, kBosToken, kEosToken}" if "t \<in> set (im_added_tokens impl)" for t
  proof -
    have "(at_id t, at_content t) \<in> set (map (\<lambda>t. (at_id t, at_content t)) (im_added_tokens impl))" using that by force
    also have "\<dots> = {(kUnkId, kUnkToken), (kBosId, kBosToken), (kEosId, kEosToken)}" using assms by (simp add: tokenizer_ok_def)
    finally show ?thesis by auto
  qed
  moreover have "\<forall>s \<in> {kUnkToken, kBosToken, kEosToken}. s \<noteq> [] \<and> (\<forall>c \<in> set s. byte_of c < 0x80)"
    by (simp add: kUnkToken_def kBosToken_def kEosToken_def byte_of_def)
  ultimately show ?thesis unfolding ascii_tokens_def by blast
qed

lemma bos_prefix:
  assumes "tokenizer_ok impl" "fits limits n"
  shows "single_prefix limits impl (im_single_template impl) [] = Inr [kBosId]"
proof -
  have "0 < ids_max limits" using assms(2) by (simp add: fits_def)
  with assms(1) show ?thesis by (auto simp: tokenizer_ok_def bos_template_def push_ids_def encode_checked_push_def)
qed

lemma encode_text:
  assumes "tokenizer_ok impl" and "list_all scalar_value us" and "fits limits (length (utf8_text us))"
  shows "tokenizer_encode limits impl (utf8_text us) add_special_tokens
     = Inr ((if add_special_tokens then [kBosId] else [])
            @ spans_reference (encoding_tables impl) (im_added_tokens impl) [] us)"
proof -
  have us: "\<forall>u \<in> set us. scalar_value u" using assms(2) by (simp add: list_all_iff)
  let ?r = "if add_special_tokens then [kBosId] else []"
  let ?n = "length (utf8_text us)"
  have n: "?n + 2 \<le> size_max" "?n + 2 \<le> ids_max limits" "length ?r + 6 * ?n + 3 \<le> ids_max limits"
    using assms(3) by (simp_all add: fits_def)
  have spans: "encode_spans limits impl (encoding_tables impl) (utf8_text us) (length ([] :: string)) (length ([] :: string) + length (utf8_text [])) ?r
      = Inr (?r @ spans_reference (encoding_tables impl) (im_added_tokens impl) [] us)"
    by (rule encode_spans_reference [OF tokenizer_tables_ok [OF assms(1)] tokenizer_ascii_tokens [OF assms(1)] _ _ assms(3)])
      (use us n(3) in simp_all)
  have prefix: "(if add_special_tokens then single_prefix limits impl (im_single_template impl) [] else Inr []) = Inr ?r"
    using bos_prefix [OF assms(1,3)] by simp
  have "encode_checked_add ?n 2 = Inr (?n + 2)" using n(1) by (simp add: encode_checked_add_def)
  moreover have "encode_checked_reserve (ids_max limits) (?n + 2) = Inr ()" using n(2) by (simp add: encode_checked_reserve_def)
  ultimately show ?thesis
    unfolding tokenizer_encode_def prefix validate_text [OF us] using spans by simp
qed

text \<open>
  C12. Encoding a UTF-8 text with a loaded tokenizer always returns, and returns what the reference
  computes: the beginning-of-sequence identifier when asked for, then for every plain span between the leftmost longest
  added tokens the merged symbols of the normalized span, and the identifier of every added token between
  them. No internal failure can occur; the text only has to fit the limits of the library.
\<close>

theorem encode_reference:
  assumes "tokenizer_ok impl" and "list_all scalar_value us" and "fits limits (length (utf8_text us))"
  shows "tokenizer_encode limits impl (utf8_text us) add_special_tokens
     = Inr ((if add_special_tokens then [kBosId] else [])
            @ spans_reference (encoding_tables impl) (im_added_tokens impl) [] us)"
  by (rule encode_text [OF assms])

section \<open>Decoding pieces\<close>

definition standard_decoder :: DecoderState where
  "standard_decoder = \<lparr>d_replace_pattern = kWordBoundary, d_replace_content = '' '', strip_content = '' '', strip_start = 1, strip_stop = 0\<rparr>"

definition denormal_scalar :: "nat \<Rightarrow> nat" where
  "denormal_scalar u = (if u = boundary then 0x20 else u)"

abbreviation decoded :: "string \<Rightarrow> string" where
  "decoded piece \<equiv> append_decoded_piece [] piece standard_decoder"

lemma utf8_eq_boundary:
  assumes "scalar_value u" and "utf8 u = kWordBoundary"
  shows "u = boundary"
proof -
  have e: "map byte_of (utf8 u) = utf8_bytes u"
    using utf8_bytes_less [OF assms(1)] by (auto simp: utf8_def byte_of_char_of intro!: map_idI)
  have "map byte_of kWordBoundary = [0xE2, 0x96, 0x81]" by (simp add: kWordBoundary_def byte_of_def)
  then have "utf8_bytes u = [0xE2, 0x96, 0x81]" using e assms(2) by simp
  then have d: "u div 4096 = 2" "u div 64 mod 64 = 22" "u mod 64 = 1" by (auto simp: utf8_bytes_def split: if_splits)
  have "u = 64 * (u div 64) + u mod 64" by simp
  then show ?thesis using div_64_mod_64 [of u] d by simp
qed

text \<open>Two encodings that are prefixes of one text are equal.\<close>

lemma utf8_prefix:
  assumes u: "scalar_value u" and v: "scalar_value v" and eq: "utf8 u @ x = utf8 v @ y"
  shows "utf8 u = utf8 v"
proof -
  have "hd (utf8 u) = hd (utf8 v)" using eq utf8_facts(1) [OF u] utf8_facts(1) [OF v] by (metis hd_append2)
  then have "length (utf8 u) = length (utf8 v)" using utf8_facts(3) [OF u] utf8_facts(3) [OF v] by simp
  with eq show ?thesis by simp
qed

lemma str_find_skip:
  assumes "\<forall>c \<in> set bs. 0x80 \<le> byte_of c \<and> byte_of c \<le> 0xBF"
  shows "str_find kWordBoundary (bs @ rest) = map_option (\<lambda>m. m + length bs) (str_find kWordBoundary rest)"
  using assms
proof (induction bs)
  case (Cons c bs)
  have "c \<noteq> CHR 0xE2" using Cons.prems by (auto simp: byte_of_def)
  then have "take (length kWordBoundary) (c # bs @ rest) \<noteq> kWordBoundary" by (simp add: kWordBoundary_def)
  then show ?case using Cons by (simp add: str_find.simps [of _ "c # bs @ rest"] option.map_comp o_def)
qed (simp add: option.map_id0 option.map_ident)

lemma str_find_scalar:
  assumes u: "scalar_value u" "u \<noteq> boundary"
  shows "str_find kWordBoundary (utf8 u @ rest) = map_option (\<lambda>m. m + length (utf8 u)) (str_find kWordBoundary rest)"
proof -
  obtain c bs where bs: "utf8 u = c # bs" using utf8_facts(1) [OF u(1)] by (cases "utf8 u") auto
  have "take (length kWordBoundary) (utf8 u @ rest) \<noteq> kWordBoundary"
  proof
    assume "take (length kWordBoundary) (utf8 u @ rest) = kWordBoundary"
    then have "utf8 u @ rest = utf8 boundary @ drop (length kWordBoundary) (utf8 u @ rest)"
      unfolding utf8_boundary by (metis append_take_drop_id)
    from utf8_prefix [OF u(1) scalar_boundary this] utf8_eq_boundary [OF u(1)] u(2) show False by (simp add: utf8_boundary)
  qed
  moreover have "0x80 \<le> byte_of x \<and> byte_of x \<le> 0xBF" if x: "x \<in> set bs" for x
  proof -
    obtain i where "i < length bs" "x = bs ! i" using x by (metis in_set_conv_nth)
    then show ?thesis using utf8_facts(6) [OF u(1), of "Suc i"] bs by simp
  qed
  ultimately show ?thesis
    using str_find_skip [of bs rest] by (simp add: bs str_find.simps [of _ "c # bs @ rest"] option.map_comp o_def)
qed

lemma str_find_text:
  assumes "\<forall>u \<in> set us. scalar_value u \<and> u \<noteq> boundary"
  shows "str_find kWordBoundary (utf8_text us @ rest) = map_option (\<lambda>m. m + length (utf8_text us)) (str_find kWordBoundary rest)"
  using assms by (induction us; cases "str_find kWordBoundary rest") (auto simp: str_find_scalar)

lemma str_find_Nil: "str_find kWordBoundary [] = None"
  by (simp add: str_find.simps kWordBoundary_def)

lemma decoded_loop_text:
  assumes "\<forall>u \<in> set us. scalar_value u"
  shows "decoded_loop standard_decoder out (utf8_text us) = out @ utf8_text (map denormal_scalar us)"
  using assms
proof (induction "length us" arbitrary: us out rule: less_induct)
  case less
  have p: "d_replace_pattern standard_decoder = kWordBoundary" "d_replace_content standard_decoder = '' ''" "kWordBoundary \<noteq> []"
    by (simp_all add: standard_decoder_def kWordBoundary_def)
  have same: "map denormal_scalar vs = vs" if "boundary \<notin> set vs" for vs
    using that by (auto simp: denormal_scalar_def intro!: map_idI)
  show ?case
  proof (cases "boundary \<in> set us")
    case False
    then have "str_find kWordBoundary (utf8_text us @ []) = None"
      using less.prems by (subst str_find_text) (auto simp: str_find_Nil)
    then show ?thesis using same [OF False] p by (subst decoded_loop.simps) simp
  next
    case True
    then obtain vs ws where us: "us = vs @ boundary # ws" and vs: "boundary \<notin> set vs" by (meson split_list_first)
    have "str_find kWordBoundary (kWordBoundary @ utf8_text ws) = Some 0"
      by (subst str_find.simps) simp
    moreover have "\<forall>u \<in> set vs. scalar_value u \<and> u \<noteq> boundary" using less.prems vs by (auto simp: us)
    ultimately have "str_find kWordBoundary (utf8_text us) = Some (length (utf8_text vs))"
      using str_find_text [of vs "kWordBoundary @ utf8_text ws"] by (simp add: utf8_boundary us)
    then have "decoded_loop standard_decoder out (utf8_text us) = decoded_loop standard_decoder (out @ utf8_text vs @ '' '') (utf8_text ws)"
      using p by (subst decoded_loop.simps) (simp add: us utf8_boundary)
    also have "\<dots> = (out @ utf8_text vs @ '' '') @ utf8_text (map denormal_scalar ws)"
      using less by (auto simp: us)
    finally show ?thesis using same [OF vs] by (simp add: us denormal_scalar_def utf8_space)
  qed
qed

lemma decoded_text:
  assumes "\<forall>u \<in> set us. scalar_value u" and "is_byte_fallback_piece (utf8_text us) = None"
  shows "decoded (utf8_text us) = utf8_text (map denormal_scalar us)"
proof -
  have "d_replace_pattern standard_decoder \<noteq> []" by (simp add: standard_decoder_def kWordBoundary_def)
  with decoded_loop_text [OF assms(1), of "[]"] assms(2) show ?thesis by (simp add: append_decoded_piece_def)
qed

lemma hex_digit_nth: "n < 16 \<Longrightarrow> hex_digit (''0123456789ABCDEF'' ! n) = n"
proof -
  assume "n < 16"
  then have "n \<in> set [0..<16]" by simp
  moreover have "list_all (\<lambda>n. hex_digit (''0123456789ABCDEF'' ! n) = n) [0..<16]" by code_simp
  ultimately show ?thesis by (simp only: list_all_iff)
qed

lemma byte_piece_decoded: "is_byte_fallback_piece (byte_piece (byte_of c)) = Some c"
proof -
  have b: "byte_of c = 16 * (byte_of c div 16) + byte_of c mod 16" "byte_of c div 16 < 16" "byte_of c mod 16 < 16"
    using byte_of_less [of c] by simp_all
  have l: "length (byte_piece (byte_of c)) = 6" by (simp add: byte_piece_def)
  have "hex_digit (byte_piece (byte_of c) ! 3) = byte_of c div 16" "hex_digit (byte_piece (byte_of c) ! 4) = byte_of c mod 16"
    using b(2,3) by (simp_all add: byte_piece_def hex_digit_nth)
  then show ?thesis
    using b l by (simp add: is_byte_fallback_piece_def byte_piece_def Let_def)
qed

lemma decoded_loop_out: "decoded_loop decoder out rest = out @ decoded_loop decoder [] rest"
proof (induction "length rest" arbitrary: out rest rule: less_induct)
  case less
  show ?case
  proof (cases "d_replace_pattern decoder = [] \<or> str_find (d_replace_pattern decoder) rest = None")
    case True
    then show ?thesis by (subst (1 2) decoded_loop.simps) auto
  next
    case False
    then obtain m where m: "d_replace_pattern decoder \<noteq> []" "str_find (d_replace_pattern decoder) rest = Some m" by auto
    let ?rest = "drop (m + length (d_replace_pattern decoder)) rest"
    have IH: "decoded_loop decoder out ?rest = out @ decoded_loop decoder [] ?rest" for out
      by (rule less) (use str_find_shorter [OF m(2,1)] in simp)
    have "decoded_loop decoder [] rest = (take m rest @ d_replace_content decoder) @
        decoded_loop decoder [] (drop (m + length (d_replace_pattern decoder)) rest)"
      using m IH [of "take m rest @ d_replace_content decoder"] by (subst decoded_loop.simps) simp
    then show ?thesis
      using m IH [of "out @ take m rest @ d_replace_content decoder"] by (subst decoded_loop.simps) simp
  qed
qed

lemma decoded_size:
  "length (decoded_loop decoder [] rest) + n \<le> size_max \<Longrightarrow>
     decoded_size_loop decoder rest n = Inr (n + length (decoded_loop decoder [] rest))"
proof (induction decoder rest n rule: decoded_size_loop.induct)
  case (1 decoder rest n)
  show ?case
  proof (cases "d_replace_pattern decoder = [] \<or> str_find (d_replace_pattern decoder) rest = None")
    case True
    then have "decoded_loop decoder [] rest = rest" by (subst decoded_loop.simps) auto
    with True 1(2) show ?thesis by (subst decoded_size_loop.simps) (auto simp: checked_decode_size_add_def)
  next
    case False
    then obtain m where m: "d_replace_pattern decoder \<noteq> []" "str_find (d_replace_pattern decoder) rest = Some m" by auto
    let ?rest = "drop (m + length (d_replace_pattern decoder)) rest"
    have loop: "decoded_loop decoder [] rest = (take m rest @ d_replace_content decoder) @ decoded_loop decoder [] ?rest"
      using m by (subst decoded_loop.simps) (simp add: decoded_loop_out [of decoder "take m rest @ d_replace_content decoder"])
    have len: "length (take m rest) = m" using str_find_bound [OF m(2)] by simp
    have le: "m + n \<le> size_max" "length (d_replace_content decoder) + (n + m) \<le> size_max"
      "length (decoded_loop decoder [] ?rest) + (n + m + length (d_replace_content decoder)) \<le> size_max"
      using 1(2) len unfolding loop by simp_all
    have a: "checked_decode_size_add n m = Inr (n + m)" using le(1) by (simp add: checked_decode_size_add_def)
    have b: "checked_decode_size_add (n + m) (length (d_replace_content decoder)) = Inr (n + m + length (d_replace_content decoder))"
      using le(2) by (simp add: checked_decode_size_add_def)
    from 1(1) [OF m a b le(3)] show ?thesis
      using m a b len unfolding loop by (subst decoded_size_loop.simps) simp
  qed
qed

lemma standard_pattern: "d_replace_pattern standard_decoder \<noteq> []"
  by (simp add: standard_decoder_def kWordBoundary_def)

lemma append_decoded: "append_decoded_piece out piece standard_decoder = out @ decoded piece"
  using decoded_loop_out [of standard_decoder out piece] standard_pattern
  by (auto simp: append_decoded_piece_def split: option.split)

lemma decoded_piece_size_eq:
  "length (decoded piece) \<le> size_max \<Longrightarrow> decoded_piece_size piece standard_decoder = Inr (length (decoded piece))"
  using decoded_size [of standard_decoder piece 0] standard_pattern
  by (auto simp: decoded_piece_size_def append_decoded_piece_def split: option.splits)

abbreviation decoded_ids :: "Impl \<Rightarrow> token_id list \<Rightarrow> string" where
  "decoded_ids impl ids \<equiv> concat (map (\<lambda>i. decoded (im_vocabulary_by_id impl ! unat i)) ids)"

lemma decode_sizes:
  "length (decoded_ids impl ids) + n \<le> size_max \<Longrightarrow>
     for_each ids (\<lambda>i n. andThen (decoded_piece_size (im_vocabulary_by_id impl ! unat i) standard_decoder) (checked_decode_size_add n)) n
       = Inr (n + length (decoded_ids impl ids))"
proof (induction ids arbitrary: n)
  case (Cons i ids)
  then have "length (decoded (im_vocabulary_by_id impl ! unat i)) \<le> size_max" by simp
  from decoded_piece_size_eq [OF this] Cons show ?case by (simp add: checked_decode_size_add_def)
qed simp

lemma decode_standard:
  assumes "im_decoder impl = standard_decoder" and "\<forall>i \<in> set ids. unat i < length (im_vocabulary_by_id impl)"
    and "length (decoded_ids impl ids) \<le> size_max" "length (decoded_ids impl ids) \<le> string_max limits"
  shows "tokenizer_decode limits impl ids False
     = Inr (if decoded_ids impl ids \<noteq> [] \<and> hd (decoded_ids impl ids) = CHR '' '' then tl (decoded_ids impl ids) else decoded_ids impl ids)"
proof -
  have "\<not> list_ex (\<lambda>i. unat i \<ge> length (im_vocabulary_by_id impl)) ids" using assms(2) by (auto simp: list_ex_iff)
  moreover have "foldl (\<lambda>out i. append_decoded_piece out (im_vocabulary_by_id impl ! unat i) standard_decoder) out ids
      = out @ decoded_ids impl ids" for out
  proof (induction ids arbitrary: out)
    case (Cons i ids)
    then show ?case by (simp add: append_decoded [of out])
  qed simp
  moreover have "strip_start standard_decoder = 1" "strip_stop standard_decoder = 0" "strip_content standard_decoder = '' ''"
    by (simp_all add: standard_decoder_def)
  ultimately show ?thesis
    using decode_sizes [of impl ids 0] assms(1,3,4) by (simp add: tokenizer_decode_def)
qed

section \<open>Decoding what was encoded\<close>

text \<open>
  The merges join pieces of text: neither operand nor result has the form of a byte piece. The word
  boundary is a token.
\<close>

definition plain_piece :: "string \<Rightarrow> bool" where
  "plain_piece piece \<longleftrightarrow> validate_encode_utf8 piece = Inr () \<and> is_byte_fallback_piece piece = None"

definition decodable :: "Impl \<Rightarrow> bool" where
  "decodable impl \<longleftrightarrow> kWordBoundary \<in> dom (im_vocabulary impl)
     \<and> list_all (\<lambda>(a, b). plain_piece (im_vocabulary_by_id impl ! unat a) \<and> plain_piece (im_vocabulary_by_id impl ! unat b)
           \<and> plain_piece (im_vocabulary_by_id impl ! unat a @ im_vocabulary_by_id impl ! unat b)) (im_merges_by_rank impl)"

lemma decoded_append:
  assumes "plain_piece p" "plain_piece q" "plain_piece (p @ q)"
  shows "decoded (p @ q) = decoded p @ decoded q"
proof -
  have a: "validate_encode_utf8 p = Inr ()" and b: "validate_encode_utf8 q = Inr ()"
    using assms by (simp_all add: plain_piece_def)
  obtain us vs where us: "\<forall>u \<in> set us. scalar_value u" "p = utf8_text us" and vs: "\<forall>u \<in> set vs. scalar_value u" "q = utf8_text vs"
    using validated_text [OF a] validated_text [OF b] by blast
  have "p @ q = utf8_text (us @ vs)" by (simp add: us vs)
  then show ?thesis
    using decoded_text [OF us(1)] decoded_text [OF vs(1)] decoded_text [of "us @ vs"] us vs assms by (auto simp: plain_piece_def)
qed

lemma merge_decodes:
  assumes ok: "tokenizer_ok impl" and d: "decodable impl" and b: "first_best (encoding_tables impl) xs = Some (r, i)"
  shows "decoded_ids impl (merged_at (encoding_tables impl) xs i) = decoded_ids impl xs"
    and "set xs \<subseteq> {i. unat i < length (im_vocabulary_by_id impl)} \<Longrightarrow>
      set (merged_at (encoding_tables impl) xs i) \<subseteq> {i. unat i < length (im_vocabulary_by_id impl)}"
proof -
  let ?t = "encoding_tables impl" and ?v = "im_vocabulary_by_id impl"
  from first_best_Some [OF b] have i: "Suc i < length xs" and r: "im_merge_ranks impl (xs ! i, xs ! Suc i) = Some r"
    by (auto simp: encoding_tables_def)
  have m: "merges_wf ?v (im_merges_by_rank impl) (im_merge_ranks impl) (im_merge_result_ids impl)"
    using ok by (simp add: tokenizer_ok_def)
  from m r have "r < length (im_merges_by_rank impl)" "im_merges_by_rank impl ! r = (xs ! i, xs ! Suc i)"
    unfolding merges_wf_def by blast+
  then have mem: "(xs ! i, xs ! Suc i) \<in> set (im_merges_by_rank impl)" by (metis nth_mem)
  with m obtain c where c: "im_merge_result_ids impl (xs ! i, xs ! Suc i) = Some c" "unat c < length ?v"
    "?v ! unat c = ?v ! unat (xs ! i) @ ?v ! unat (xs ! Suc i)" unfolding merges_wf_def by blast
  have "plain_piece (?v ! unat (xs ! i))" "plain_piece (?v ! unat (xs ! Suc i))" "plain_piece (?v ! unat c)"
    using d mem unfolding decodable_def list_all_iff c(3) by fastforce+
  then have dec: "decoded (?v ! unat c) = decoded (?v ! unat (xs ! i)) @ decoded (?v ! unat (xs ! Suc i))"
    using decoded_append c(3) by metis
  have merged: "merged_at ?t xs i = take i xs @ c # drop (Suc (Suc i)) xs" using c(1) by (simp add: merged_at_def encoding_tables_def)
  have "xs = take i xs @ xs ! i # xs ! Suc i # drop (Suc (Suc i)) xs"
    using i by (metis Cons_nth_drop_Suc Suc_lessD append_take_drop_id)
  then have "decoded_ids impl xs = decoded_ids impl (take i xs @ xs ! i # xs ! Suc i # drop (Suc (Suc i)) xs)" by metis
  then show "decoded_ids impl (merged_at ?t xs i) = decoded_ids impl xs" unfolding merged by (simp add: dec)
  show "set (merged_at ?t xs i) \<subseteq> {i. unat i < length ?v}" if "set xs \<subseteq> {i. unat i < length ?v}"
    using that c(2) unfolding merged by (auto dest: in_set_takeD in_set_dropD)
qed

lemma reference_decodes:
  assumes ok: "tokenizer_ok impl" and d: "decodable impl" and "set xs \<subseteq> {i. unat i < length (im_vocabulary_by_id impl)}"
  shows "decoded_ids impl (bpe_reference (encoding_tables impl) xs) = decoded_ids impl xs
     \<and> set (bpe_reference (encoding_tables impl) xs) \<subseteq> {i. unat i < length (im_vocabulary_by_id impl)}"
  using assms(3)
proof (induction "length xs" arbitrary: xs rule: less_induct)
  case less
  let ?t = "encoding_tables impl"
  show ?case
  proof (cases "first_best ?t xs")
    case None
    with less.prems show ?thesis by (subst (1 2) bpe_reference.simps) simp
  next
    case (Some p)
    then obtain r i where p: "first_best ?t xs = Some (r, i)" by (cases p) auto
    have "length (merged_at ?t xs i) < length xs" using first_best_Some [OF p] by (auto simp: merged_at_def)
    from less.hyps [OF this merge_decodes(2) [OF ok d p less.prems]] merge_decodes(1) [OF ok d p]
    show ?thesis by (subst (1 2) bpe_reference.simps) (simp add: p)
  qed
qed

lemma symbols_decode:
  assumes ok: "tokenizer_ok impl" and d: "decodable impl" and u: "scalar_value u"
  shows "decoded_ids impl (symbols_of (encoding_tables impl) u) = utf8 (denormal_scalar u)"
    and "set (symbols_of (encoding_tables impl) u) \<subseteq> {i. unat i < length (im_vocabulary_by_id impl)}"
proof -
  let ?t = "encoding_tables impl" and ?v = "im_vocabulary_by_id impl"
  have vocab: "\<And>s i. im_vocabulary impl s = Some i \<longleftrightarrow> unat i < length ?v \<and> ?v ! unat i = s"
    using ok by (simp add: tokenizer_ok_def vocabulary_ok_def)
  have "decoded_ids impl (symbols_of ?t u) = utf8 (denormal_scalar u) \<and> set (symbols_of ?t u) \<subseteq> {i. unat i < length ?v}"
  proof (cases "im_vocabulary impl (utf8 u)")
    case (Some i)
    have "length (utf8 u) \<noteq> 6" using utf8_facts(2) [OF u] by simp
    then have "is_byte_fallback_piece (utf8 u) = None" by (simp add: is_byte_fallback_piece_def)
    then have "decoded (utf8 u) = utf8 (denormal_scalar u)" using decoded_text [of "[u]"] u by simp
    moreover have "symbols_of ?t u = [i]" using Some by (simp add: symbols_of_def encoding_tables_def)
    moreover have "unat i < length ?v" "?v ! unat i = utf8 u" using vocab Some by blast+
    ultimately show ?thesis by simp
  next
    case None
    then have "u \<noteq> boundary" using d by (auto simp: decodable_def utf8_boundary)
    have byte: "\<exists>i. im_vocabulary impl (byte_piece (byte_of c)) = Some i \<and> unat i < length ?v \<and> decoded (?v ! unat i) = [c]" for c
    proof -
      have "byte_piece (byte_of c) \<in> dom (im_vocabulary impl)"
        by (rule byte_piece_token [OF ok byte_of_less])
      then obtain i where i: "im_vocabulary impl (byte_piece (byte_of c)) = Some i" by blast
      with vocab have "unat i < length ?v" "?v ! unat i = byte_piece (byte_of c)" by auto
      with i show ?thesis by (simp add: append_decoded_piece_def byte_piece_decoded)
    qed
    have pieces: "byte_pieces ?t ! byte_of c = byte_piece (byte_of c)" for c
      using ok byte_of_less [of c] by (simp add: tokenizer_ok_def encoding_tables_def)
    have voc: "vocabulary ?t = im_vocabulary impl" by (simp add: encoding_tables_def)
    have "decoded_ids impl (byte_ids ?t bs) = bs \<and> set (byte_ids ?t bs) \<subseteq> {i. unat i < length ?v}" for bs
    proof (induction bs)
      case (Cons c bs)
      obtain i where i: "im_vocabulary impl (byte_piece (byte_of c)) = Some i" "unat i < length ?v" "decoded (?v ! unat i) = [c]"
        using byte [of c] by blast
      have "byte_ids ?t (c # bs) = i # byte_ids ?t bs" by (simp add: byte_ids_def pieces voc i(1))
      with Cons i(2,3) show ?case by simp
    qed (simp add: byte_ids_def)
    with None \<open>u \<noteq> boundary\<close> show ?thesis by (simp add: symbols_of_def voc denormal_scalar_def)
  qed
  then show "decoded_ids impl (symbols_of ?t u) = utf8 (denormal_scalar u)" "set (symbols_of ?t u) \<subseteq> {i. unat i < length ?v}"
    by blast+
qed

lemma all_symbols_decode:
  assumes ok: "tokenizer_ok impl" and d: "decodable impl" and us: "\<forall>u \<in> set us. scalar_value u"
  shows "decoded_ids impl (symbols (encoding_tables impl) us) = utf8_text (map denormal_scalar us)
     \<and> set (symbols (encoding_tables impl) us) \<subseteq> {i. unat i < length (im_vocabulary_by_id impl)}"
  using us
proof (induction us)
  case (Cons u us)
  then show ?case
    using symbols_decode [OF ok d, of u] by (simp add: symbols_def)
qed (simp add: symbols_def)

lemma denormal_normal: "boundary \<notin> set us \<Longrightarrow> map denormal_scalar (normal_scalars us) = 0x20 # us"
  by (auto simp: normal_scalars_def normal_scalar_def denormal_scalar_def intro!: map_idI)

lemma span_decodes:
  assumes ok: "tokenizer_ok impl" and d: "decodable impl" and us: "\<forall>u \<in> set us. scalar_value u" and b: "boundary \<notin> set us"
  shows "decoded_ids impl (span_ids (encoding_tables impl) us) = (if us = [] then [] else CHR '' '' # utf8_text us)
     \<and> set (span_ids (encoding_tables impl) us) \<subseteq> {i. unat i < length (im_vocabulary_by_id impl)}"
proof (cases "us = []")
  case False
  note s = all_symbols_decode [OF ok d normal_scalars_ok [OF us]]
  from reference_decodes [OF ok d conjunct2 [OF s]] s False show ?thesis
    by (simp add: span_ids_def denormal_normal [OF b] utf8_space)
qed (simp add: span_ids_def)

lemma no_added_tokens:
  assumes "\<And>vs ws. us = vs @ ws \<Longrightarrow> match_added tokens (utf8_text ws) = None"
  shows "spans_reference tables tokens plain us = span_ids tables (plain @ us)"
  using assms
proof (induction us arbitrary: plain)
  case Nil
  then show ?case by (simp add: spans_reference.simps)
next
  case (Cons u us)
  have "match_added tokens (utf8_text (u # us)) = None" using Cons.prems [of "[]"] by simp
  moreover have "match_added tokens (utf8_text ws) = None" if "us = vs @ ws" for vs ws
    using Cons.prems [of "u # vs" ws] that by simp
  ultimately show ?case using Cons.IH [of "plain @ [u]"] by (subst spans_reference.simps) simp
qed

text \<open>
  C10. Decoding an encoded text gives the text back: for every UTF-8 text without the word boundary
  character and without an added token inside, for a loaded tokenizer whose merges join pieces of text
  and that has the word boundary as a token, \<open>decode\<close> applied to what \<open>encode\<close> returns yields exactly
  the bytes of the text. Characters outside the vocabulary survive as byte pieces.
\<close>

theorem encode_decode_roundtrip:
  assumes "tokenizer_ok impl" and "decodable impl" and "list_all scalar_value us" and "boundary \<notin> set us"
    and "list_all (\<lambda>token. \<not> sublist token (utf8_text us)) [kUnkToken, kBosToken, kEosToken]"
    and "fits limits (length (utf8_text us))"
  shows "andThen (tokenizer_encode limits impl (utf8_text us) False) (\<lambda>ids. tokenizer_decode limits impl ids False)
     = Inr (utf8_text us)"
proof -
  let ?t = "encoding_tables impl"
  have us: "\<forall>u \<in> set us. scalar_value u" using assms(3) by (simp add: list_all_iff)
  have none: "match_added (im_added_tokens impl) (utf8_text ws) = None" if ws: "us = vs @ ws" for vs ws
  proof (rule ccontr)
    assume "match_added (im_added_tokens impl) (utf8_text ws) \<noteq> None"
    then obtain n i where "match_added (im_added_tokens impl) (utf8_text ws) = Some (n, i)" by auto
    from match_added_token [OF this] obtain tk where tk: "tk \<in> set (im_added_tokens impl)" "take n (utf8_text ws) = at_content tk" by blast
    have "(at_id tk, at_content tk) \<in> set (map (\<lambda>t. (at_id t, at_content t)) (im_added_tokens impl))" using tk(1) by force
    also have "\<dots> = {(kUnkId, kUnkToken), (kBosId, kBosToken), (kEosId, kEosToken)}" using assms(1) by (simp add: tokenizer_ok_def)
    finally have "at_content tk \<in> set [kUnkToken, kBosToken, kEosToken]" by auto
    moreover have "sublist (at_content tk) (utf8_text us)"
      unfolding sublist_def using append_take_drop_id [of n "utf8_text ws"] by (metis ws tk(2) utf8_text_simps(3))
    ultimately show False using assms(5) unfolding list_all_iff by blast
  qed
  have enc: "tokenizer_encode limits impl (utf8_text us) False = Inr (span_ids ?t us)"
    using encode_text [OF assms(1,3,6), of False] no_added_tokens [of us "im_added_tokens impl" ?t "[]", OF none] by simp
  note d = span_decodes [OF assms(1,2) us assms(4)]
  have "length (decoded_ids impl (span_ids ?t us)) \<le> length (utf8_text us) + 1" using d by simp
  then have len: "length (decoded_ids impl (span_ids ?t us)) \<le> size_max" "length (decoded_ids impl (span_ids ?t us)) \<le> string_max limits"
    using assms(6) by (simp_all add: fits_def)
  have "im_decoder impl = standard_decoder" using assms(1) by (simp add: tokenizer_ok_def standard_decoder_def)
  moreover have "\<forall>i \<in> set (span_ids ?t us). unat i < length (im_vocabulary_by_id impl)" using d by blast
  ultimately have "tokenizer_decode limits impl (span_ids ?t us) False = Inr (utf8_text us)"
    using decode_standard [OF _ _ len] d by simp
  with enc show ?thesis by simp
qed

section \<open>A small tokenizer\<close>

text \<open>The vocabulary of a list of distinct pieces.\<close>

definition vocabulary_of :: "string list \<Rightarrow> string \<rightharpoonup> token_id" where
  "vocabulary_of by_id = map_of (zip by_id (map word_of_nat [0..<length by_id]))"

lemma vocabulary_of_iff:
  assumes "distinct by_id" "length by_id < 2 ^ 32"
  shows "vocabulary_of by_id s = Some i \<longleftrightarrow> unat i < length by_id \<and> by_id ! unat i = s"
proof
  assume "vocabulary_of by_id s = Some i"
  then obtain k where "k < length by_id" "by_id ! k = s" "i = word_of_nat k"
    using assms(1) by (auto simp: vocabulary_of_def map_of_zip_nth in_set_zip dest!: map_of_SomeD)
  with assms(2) show "unat i < length by_id \<and> by_id ! unat i = s" by (simp add: unat_token_id)
next
  assume i: "unat i < length by_id \<and> by_id ! unat i = s"
  have "vocabulary_of by_id (by_id ! unat i) = Some (map word_of_nat [0..<length by_id] ! unat i)"
    unfolding vocabulary_of_def using i assms(1) by (intro map_of_zip_nth) auto
  then show "vocabulary_of by_id s = Some i" using i by simp
qed

definition base_pieces :: "string list" where
  "base_pieces = [kUnkToken, kBosToken, kEosToken] @ map byte_piece [0..<256]"

lemma byte_piece_inj: "b < 256 \<Longrightarrow> c < 256 \<Longrightarrow> byte_piece b = byte_piece c \<Longrightarrow> b = c"
  using byte_piece_decoded [of "char_of b"] byte_piece_decoded [of "char_of c"]
  by (metis byte_of_char_of option.inject)

lemma length_byte_piece: "length (byte_piece b) = 6"
  by (simp add: byte_piece_def)

lemma distinct_base_pieces:
  assumes "distinct others" "\<forall>s \<in> set others. length s \<noteq> 6 \<and> s \<notin> {kUnkToken, kBosToken, kEosToken}"
  shows "distinct (base_pieces @ others)"
proof -
  let ?special = "[kUnkToken, kBosToken, kEosToken]" and ?bytes = "map byte_piece [0..<256]"
  have "inj_on byte_piece (set [0..<256])" unfolding inj_on_def using byte_piece_inj by auto
  then have bytes: "distinct ?bytes" unfolding distinct_map by simp
  have special: "distinct ?special" "\<forall>s \<in> set ?special. length s \<noteq> 6"
    by (simp_all add: kUnkToken_def kBosToken_def kEosToken_def)
  have six: "\<forall>s \<in> set ?bytes. length s = 6" unfolding set_map by (simp only: ball_simps length_byte_piece) simp
  then have "set ?special \<inter> set ?bytes = {}" using special(2) by blast
  moreover have "set others \<inter> set ?bytes = {}" using six assms(2) by blast
  moreover have "set others \<inter> set ?special = {}" using assms(2) unfolding list.set by blast
  ultimately show ?thesis
    unfolding base_pieces_def distinct_append set_append using bytes special(1) assms(1) by blast
qed

lemma base_pieces_nth:
  "length base_pieces = 259" "b < 256 \<Longrightarrow> (base_pieces @ others) ! (3 + b) = byte_piece b"
  "(base_pieces @ others) ! 0 = kUnkToken" "(base_pieces @ others) ! 1 = kBosToken" "(base_pieces @ others) ! 2 = kEosToken"
  by (simp_all add: base_pieces_def nth_append)

lemma base_vocabulary_ok:
  assumes "distinct (base_pieces @ others)" "length others < 2 ^ 31"
  shows "vocabulary_ok (base_pieces @ others) (vocabulary_of (base_pieces @ others))"
  unfolding vocabulary_ok_def
  using assms vocabulary_of_iff [OF assms(1)]
  by (simp add: base_pieces_nth(1) del: distinct_append) (simp add: base_pieces_nth base_pieces_nth(4) [unfolded One_nat_def])

definition sample_pieces :: "string list" where
  "sample_pieces = base_pieces @ [kWordBoundary, ''a'', ''b'', ''ab'']"

definition special_added :: "token_id \<Rightarrow> string \<Rightarrow> AddedTokenState" where
  "special_added i content = \<lparr>at_id = i, at_content = content, single_word = False, lstrip = False, rstrip = False,
     normalized = False, at_special = True\<rparr>"

definition sample_tokenizer :: Impl where
  "sample_tokenizer =
     \<lparr>im_vocabulary_by_id = sample_pieces, im_vocabulary = vocabulary_of sample_pieces, im_byte_pieces = map byte_piece [0..<256],
      im_added_tokens = [special_added kUnkId kUnkToken, special_added kBosId kBosToken, special_added kEosId kEosToken],
      im_normalizer = standard_normalizer,
      im_single_template = [bos_template, \<lparr>ti_special = False, ti_id = ''A'', ti_type_id = 0\<rparr>],
      im_pair_template = [bos_template, \<lparr>ti_special = False, ti_id = ''A'', ti_type_id = 0\<rparr>,
        bos_template\<lparr>ti_type_id := 1\<rparr>, \<lparr>ti_special = False, ti_id = ''B'', ti_type_id = 1\<rparr>],
      im_special_tokens = [kBosToken \<mapsto> \<lparr>st_id = kBosToken, st_ids = [kBosId], st_tokens = [kBosToken]\<rparr>],
      im_decoder = standard_decoder, im_unk_token = kUnkToken, im_fuse_unk = True, im_byte_fallback = True,
      im_merge_ranks = [(260, 261) \<mapsto> 0], im_merge_result_ids = [(260, 261) \<mapsto> 262], im_merges_by_rank = [(260, 261)]\<rparr>"

lemma sample_pieces_distinct: "distinct sample_pieces"
  unfolding sample_pieces_def
  by (rule distinct_base_pieces) (simp_all add: kWordBoundary_def kUnkToken_def kBosToken_def kEosToken_def)

lemma sample_pieces_nth:
  "length sample_pieces = 263" "sample_pieces ! 259 = kWordBoundary" "sample_pieces ! 260 = ''a''" "sample_pieces ! 261 = ''b''"
  "sample_pieces ! 262 = ''ab''"
  by (simp_all add: sample_pieces_def nth_append base_pieces_nth(1))

lemma sample_tokenizer_ok: "tokenizer_ok sample_tokenizer"
proof -
  have "vocabulary_ok sample_pieces (vocabulary_of sample_pieces)"
    using sample_pieces_distinct unfolding sample_pieces_def by (intro base_vocabulary_ok) simp_all
  moreover have "merges_wf sample_pieces [(260, 261)] [(260, 261) \<mapsto> 0] [(260, 261) \<mapsto> 262]"
    by (auto simp: merges_wf_def sample_pieces_nth)
  ultimately show ?thesis
    by (simp add: tokenizer_ok_def sample_tokenizer_def special_added_def standard_decoder_def)
qed

lemma sample_tokenizer_decodable: "decodable sample_tokenizer"
proof -
  have "vocabulary_of sample_pieces kWordBoundary = Some 259"
    by (subst vocabulary_of_iff) (simp_all add: sample_pieces_distinct sample_pieces_nth)
  moreover have "plain_piece ''a''" "plain_piece ''b''" "plain_piece ''ab''"
    by (simp_all add: plain_piece_def is_byte_fallback_piece_def validate_encode_utf8.simps utf8_lead_length_def byte_of_def)
  ultimately show ?thesis by (simp add: decodable_def sample_tokenizer_def sample_pieces_nth domI)
qed

lemma sample_symbols:
  "symbols (encoding_tables sample_tokenizer) (normal_scalars [0x61, 0x62]) = [259, 260, 261]"
proof -
  have "vocabulary_of sample_pieces kWordBoundary = Some 259" "vocabulary_of sample_pieces ''a'' = Some 260"
    "vocabulary_of sample_pieces ''b'' = Some 261"
    by (subst vocabulary_of_iff; simp add: sample_pieces_distinct sample_pieces_nth)+
  moreover have "utf8 0x61 = ''a''" "utf8 0x62 = ''b''" by code_simp+
  ultimately show ?thesis
    by (simp add: symbols_def symbols_of_def normal_scalars_def normal_scalar_def encoding_tables_def sample_tokenizer_def utf8_boundary)
qed

theorem encode_reference_witness:
  "tokenizer_encode sample_limits sample_tokenizer (utf8_text [0x61, 0x62]) True = Inr [1, 259, 262]"
proof -
  have t: "length (utf8_text [0x61, 0x62]) = 2" by code_simp
  have f: "fits sample_limits 2" by (simp add: fits_def sample_limits_def size_max_def)
  have m: "match_added (im_added_tokens sample_tokenizer) (utf8_text [0x61, 0x62]) = None"
    "match_added (im_added_tokens sample_tokenizer) (utf8_text [0x62]) = None" by code_simp+
  have "span_ids (encoding_tables sample_tokenizer) [0x61, 0x62] = [259, 262]"
    unfolding span_ids_def sample_symbols
    by (simp add: bpe_reference.simps merged_at_def encoding_tables_def sample_tokenizer_def)
  then have "spans_reference (encoding_tables sample_tokenizer) (im_added_tokens sample_tokenizer) [] [0x61, 0x62] = [259, 262]"
    using m by (simp add: spans_reference.simps)
  then show ?thesis
    using encode_reference [OF sample_tokenizer_ok, of "[0x61, 0x62]" sample_limits True] t f by (simp add: scalar_value_def kBosId_def)
qed

text \<open>The text is \<open>a\<close>, a letter outside the vocabulary, a space and \<open>ab\<close>.\<close>

theorem encode_decode_roundtrip_witness:
  "andThen (tokenizer_encode sample_limits sample_tokenizer [CHR ''a'', CHR 0xC3, CHR 0xA9, CHR '' '', CHR ''a'', CHR ''b''] False)
     (\<lambda>ids. tokenizer_decode sample_limits sample_tokenizer ids False)
   = Inr [CHR ''a'', CHR 0xC3, CHR 0xA9, CHR '' '', CHR ''a'', CHR ''b'']"
proof -
  have e: "utf8_text [0x61, 0xE9, 0x20, 0x61, 0x62] = [CHR ''a'', CHR 0xC3, CHR 0xA9, CHR '' '', CHR ''a'', CHR ''b'']" by code_simp
  have "CHR ''<'' \<notin> set (utf8_text [0x61, 0xE9, 0x20, 0x61, 0x62])" unfolding e by simp
  then have "\<not> sublist token (utf8_text [0x61, 0xE9, 0x20, 0x61, 0x62])" if "CHR ''<'' \<in> set token" for token
    using that set_mono_sublist by blast
  then have "list_all (\<lambda>token. \<not> sublist token (utf8_text [0x61, 0xE9, 0x20, 0x61, 0x62])) [kUnkToken, kBosToken, kEosToken]"
    by (simp add: kUnkToken_def kBosToken_def kEosToken_def)
  moreover have "fits sample_limits (length (utf8_text [0x61, 0xE9, 0x20, 0x61, 0x62]))"
    unfolding e by (simp add: fits_def sample_limits_def size_max_def)
  ultimately show ?thesis
    using encode_decode_roundtrip [OF sample_tokenizer_ok sample_tokenizer_decodable, of "[0x61, 0xE9, 0x20, 0x61, 0x62]" sample_limits]
    unfolding e by (simp add: scalar_value_def)
qed

end
