(* ===== verification/Tokenizer_Load.thy ===== *)
theory Tokenizer_Load
  imports Json Tokenizer
begin

text \<open>
  Loading a tokenizer, \<open>load_tokenizer\<close> of \<open>src/src/tokenizer.cpp\<close>: the file \<open>tokenizer.json\<close> is
  parsed, every field is compared with the one supported layout, and the vocabulary, the byte pieces
  and the merges are collected into the state the tokenizer keeps. The content of the file and the
  JSON parser are arguments. The property: what loads has the invariant \<open>tokenizer_ok\<close> the
  encoder and the decoder rely on.
\<close>

section \<open>Field names\<close>

text \<open>\<open>std::string_view::rfind\<close>.\<close>

fun str_rfind :: "char \<Rightarrow> string \<Rightarrow> nat option" where
  "str_rfind c [] = None"
| "str_rfind c (x # xs) =
     (case str_rfind c xs of Some n \<Rightarrow> Some (Suc n) | None \<Rightarrow> if x = c then Some 0 else None)"

definition child_field :: "string \<Rightarrow> string \<Rightarrow> string" where
  "child_field field child = (if field = [] then child else field @ ''.'' @ child)"

definition array_field :: "string \<Rightarrow> nat \<Rightarrow> string" where
  "array_field field index = field @ ''['' @ to_string index @ '']''"

definition require_exact_object_keys :: "json \<Rightarrow> string list \<Rightarrow> unit throws" where
  "require_exact_object_keys value expected_keys =
     (case value of
        JObject members \<Rightarrow>
          andThen (for_each members (\<lambda>(key, _) _. if key \<notin> set expected_keys then Inl InvalidArgument else Inr ()) ())
            (\<lambda>_. for_each expected_keys (\<lambda>key _. if json_find value key = None then Inl InvalidArgument else Inr ()) ())
      | _ \<Rightarrow> Inl InvalidArgument)"

definition lookup_key :: "json \<Rightarrow> string \<Rightarrow> string" where
  "lookup_key obj field =
     (if json_find obj field \<noteq> None then field
      else case str_rfind (CHR ''.'') field of
             None \<Rightarrow> field
           | Some separator \<Rightarrow>
               let suffix = drop (separator + 1) field in
               if json_find obj suffix \<noteq> None then suffix else field)"

definition require_field :: "json \<Rightarrow> string \<Rightarrow> json throws" where
  "require_field obj field =
     (case json_find obj (lookup_key obj field) of None \<Rightarrow> Inl InvalidArgument | Some value \<Rightarrow> Inr value)"

definition require_string_value :: "json \<Rightarrow> string \<Rightarrow> string throws" where
  "require_string_value value expected =
     (case value of JString s \<Rightarrow> if s \<noteq> expected then Inl InvalidArgument else Inr s | _ \<Rightarrow> Inl InvalidArgument)"

definition require_uint32_value :: "json \<Rightarrow> token_id throws" where
  "require_uint32_value value =
     andThen
       (case value of
          JUnsigned raw \<Rightarrow> Inr raw
        | JInteger signed_value \<Rightarrow> if sint signed_value < 0 then Inl InvalidArgument else Inr signed_value
        | _ \<Rightarrow> Inl InvalidArgument)
       (\<lambda>raw. if unat raw > 2 ^ 32 - 1 then Inl InvalidArgument else Inr (ucast raw))"

definition require_null :: "json \<Rightarrow> string \<Rightarrow> unit throws" where
  "require_null obj field =
     andThen (require_field obj field) (\<lambda>value. case value of JNull \<Rightarrow> Inr () | _ \<Rightarrow> Inl InvalidArgument)"

definition require_string :: "json \<Rightarrow> string \<Rightarrow> string \<Rightarrow> string throws" where
  "require_string obj field expected = andThen (require_field obj field) (\<lambda>value. require_string_value value expected)"

definition require_any_string :: "json \<Rightarrow> string \<Rightarrow> string throws" where
  "require_any_string obj field =
     andThen (require_field obj field) (\<lambda>value. case value of JString s \<Rightarrow> Inr s | _ \<Rightarrow> Inl InvalidArgument)"

definition require_bool :: "json \<Rightarrow> string \<Rightarrow> bool \<Rightarrow> bool throws" where
  "require_bool obj field expected =
     andThen (require_field obj field) (\<lambda>value.
       case value of JBool b \<Rightarrow> if b \<noteq> expected then Inl InvalidArgument else Inr expected | _ \<Rightarrow> Inl InvalidArgument)"

definition require_uint32 :: "json \<Rightarrow> string \<Rightarrow> token_id throws" where
  "require_uint32 obj field = andThen (require_field obj field) require_uint32_value"

text \<open>\<open>is_array\<close> and \<open>size\<close> together, as the callers use them.\<close>

definition require_array :: "json \<Rightarrow> nat \<Rightarrow> json list throws" where
  "require_array value n =
     (case value of JArray entries \<Rightarrow> if length entries \<noteq> n then Inl InvalidArgument else Inr entries | _ \<Rightarrow> Inl InvalidArgument)"

text \<open>A file that cannot be opened or read is \<open>None\<close>.\<close>

definition read_tokenizer_text :: "string option \<Rightarrow> string throws" where
  "read_tokenizer_text content = (case content of None \<Rightarrow> Inl RuntimeError | Some str \<Rightarrow> Inr str)"

section \<open>Added tokens and normalizer\<close>

definition added_token_keys :: "string list" where
  "added_token_keys = [''id'', ''content'', ''single_word'', ''lstrip'', ''rstrip'', ''normalized'', ''special'']"

definition expected_ids :: "token_id list" where
  "expected_ids = [kUnkId, kBosId, kEosId]"

definition expected_content :: "string list" where
  "expected_content = [kUnkToken, kBosToken, kEosToken]"

definition validate_added_token :: "json list \<Rightarrow> nat \<Rightarrow> Impl \<Rightarrow> Impl throws" where
  "validate_added_token added index state =
     (let field = array_field ''added_tokens'' index; entry = added ! index in
      andThen (require_exact_object_keys entry added_token_keys) (\<lambda>_.
      andThen (require_uint32 entry (child_field field ''id'')) (\<lambda>i.
      if i \<noteq> expected_ids ! index then Inl InvalidArgument
      else
        andThen (require_string entry (child_field field ''content'') (expected_content ! index)) (\<lambda>content.
        andThen (require_bool entry (child_field field ''single_word'') False) (\<lambda>single.
        andThen (require_bool entry (child_field field ''lstrip'') False) (\<lambda>left.
        andThen (require_bool entry (child_field field ''rstrip'') False) (\<lambda>right.
        andThen (require_bool entry (child_field field ''normalized'') False) (\<lambda>norm.
        andThen (require_bool entry (child_field field ''special'') True) (\<lambda>special.
        Inr (state\<lparr>im_added_tokens := im_added_tokens state @
          [\<lparr>at_id = i, at_content = content, single_word = single, lstrip = left, rstrip = right, normalized = norm,
            at_special = special\<rparr>]\<rparr>))))))))))"

definition validate_added_tokens :: "json \<Rightarrow> Impl \<Rightarrow> Impl throws" where
  "validate_added_tokens document state =
     andThen (require_field document ''added_tokens'') (\<lambda>added.
     andThen (require_array added 3) (\<lambda>added.
     for_each [0..<length added] (validate_added_token added) state))"

definition validate_normalizer :: "json \<Rightarrow> Impl \<Rightarrow> Impl throws" where
  "validate_normalizer document state =
     andThen (require_field document ''normalizer'') (\<lambda>norm.
     andThen (require_exact_object_keys norm [''type'', ''normalizers'']) (\<lambda>_.
     andThen (require_string norm ''normalizer.type'' ''Sequence'') (\<lambda>_.
     andThen (require_field norm ''normalizer.normalizers'') (\<lambda>normalizers.
     andThen (require_array normalizers 2) (\<lambda>normalizers.
     let pre = normalizers ! 0; replace = normalizers ! 1 in
     andThen (require_exact_object_keys pre [''type'', ''prepend'']) (\<lambda>_.
     andThen (require_string pre ''normalizer.normalizers[0].type'' ''Prepend'') (\<lambda>_.
     andThen (require_string pre ''normalizer.normalizers[0].prepend'' kWordBoundary) (\<lambda>prepended.
     andThen (require_exact_object_keys replace [''type'', ''pattern'', ''content'']) (\<lambda>_.
     andThen (require_string replace ''normalizer.normalizers[1].type'' ''Replace'') (\<lambda>_.
     andThen (require_field replace ''normalizer.normalizers[1].pattern'') (\<lambda>pattern.
     andThen (require_exact_object_keys pattern [''String'']) (\<lambda>_.
     andThen (require_string pattern ''normalizer.normalizers[1].pattern.String'' '' '') (\<lambda>replaced.
     andThen (require_string replace ''normalizer.normalizers[1].content'' kWordBoundary) (\<lambda>content.
     andThen (require_field document ''pre_tokenizer'') (\<lambda>pre_tokenizer.
     case pre_tokenizer of
       JNull \<Rightarrow> Inr (state\<lparr>im_normalizer := \<lparr>prepend = prepended, replace_pattern = replaced, replace_content = content\<rparr>\<rparr>)
     | _ \<Rightarrow> Inl InvalidArgument)))))))))))))))"

section \<open>Templates and decoder\<close>

definition parse_template_item :: "json \<Rightarrow> string \<Rightarrow> bool \<Rightarrow> TemplateItemState throws" where
  "parse_template_item item field special =
     (if special then
        andThen (require_exact_object_keys item [''SpecialToken'']) (\<lambda>_.
        let obj = the (json_find item ''SpecialToken''); token_field = child_field field ''SpecialToken'' in
        andThen (require_exact_object_keys obj [''id'', ''type_id'']) (\<lambda>_.
        andThen (require_string obj (child_field token_field ''id'') kBosToken) (\<lambda>i.
        andThen (require_uint32 obj (child_field token_field ''type_id'')) (\<lambda>type_id.
        if type_id > 1 then Inl InvalidArgument
        else Inr \<lparr>ti_special = True, ti_id = i, ti_type_id = type_id\<rparr>))))
      else
        andThen (require_exact_object_keys item [''Sequence'']) (\<lambda>_.
        let obj = the (json_find item ''Sequence''); sequence_field = child_field field ''Sequence'' in
        andThen (require_exact_object_keys obj [''id'', ''type_id'']) (\<lambda>_.
        andThen (require_any_string obj (child_field sequence_field ''id'')) (\<lambda>i.
        if i \<noteq> ''A'' \<and> i \<noteq> ''B'' then Inl InvalidArgument
        else
          andThen (require_uint32 obj (child_field sequence_field ''type_id'')) (\<lambda>type_id.
          if type_id > 1 then Inl InvalidArgument
          else Inr \<lparr>ti_special = False, ti_id = i, ti_type_id = type_id\<rparr>)))))"

text \<open>Whether an item of a template is the expected one.\<close>

definition item_is :: "TemplateItemState \<Rightarrow> bool \<Rightarrow> string \<Rightarrow> token_id \<Rightarrow> bool" where
  "item_is item special i type_id \<longleftrightarrow> ti_special item = special \<and> ti_id item = i \<and> ti_type_id item = type_id"

definition validate_templates :: "json \<Rightarrow> Impl \<Rightarrow> Impl throws" where
  "validate_templates post_processor state =
     andThen (require_field post_processor ''post_processor.single'') (\<lambda>single.
     andThen (require_array single 2) (\<lambda>single.
     andThen (require_field post_processor ''post_processor.pair'') (\<lambda>pair.
     andThen (require_array pair 4) (\<lambda>pair.
     andThen (parse_template_item (single ! 0) ''post_processor.single[0]'' True) (\<lambda>s0.
     andThen (parse_template_item (single ! 1) ''post_processor.single[1]'' False) (\<lambda>s1.
     if \<not> item_is s0 True kBosToken 0 \<or> \<not> item_is s1 False ''A'' 0 then Inl InvalidArgument
     else
       andThen (parse_template_item (pair ! 0) ''post_processor.pair[0]'' True) (\<lambda>p0.
       andThen (parse_template_item (pair ! 1) ''post_processor.pair[1]'' False) (\<lambda>p1.
       andThen (parse_template_item (pair ! 2) ''post_processor.pair[2]'' True) (\<lambda>p2.
       andThen (parse_template_item (pair ! 3) ''post_processor.pair[3]'' False) (\<lambda>p3.
       if \<not> item_is p0 True kBosToken 0 \<or> \<not> item_is p1 False ''A'' 0 \<or> \<not> item_is p2 True kBosToken 1 \<or> \<not> item_is p3 False ''B'' 1
       then Inl InvalidArgument
       else Inr (state\<lparr>im_single_template := im_single_template state @ [s0, s1],
                       im_pair_template := im_pair_template state @ [p0, p1, p2, p3]\<rparr>)))))))))))"

definition validate_special_tokens :: "json \<Rightarrow> Impl \<Rightarrow> Impl throws" where
  "validate_special_tokens post_processor state =
     andThen (require_field post_processor ''post_processor.special_tokens'') (\<lambda>special_tokens.
     andThen (require_exact_object_keys special_tokens [kBosToken]) (\<lambda>_.
     let bos = the (json_find special_tokens kBosToken) in
     andThen (require_exact_object_keys bos [''id'', ''ids'', ''tokens'']) (\<lambda>_.
     andThen (require_string bos ''post_processor.special_tokens.<s>.id'' kBosToken) (\<lambda>bos_id.
     andThen (require_field bos ''post_processor.special_tokens.<s>.ids'') (\<lambda>ids.
     andThen (require_array ids 1) (\<lambda>ids.
     if (case ids ! 0 of JUnsigned n \<Rightarrow> unat n \<noteq> unat kBosId | _ \<Rightarrow> True) then Inl InvalidArgument
     else
       andThen (require_field bos ''post_processor.special_tokens.<s>.tokens'') (\<lambda>tokens.
       andThen (require_array tokens 1) (\<lambda>tokens.
       if (case tokens ! 0 of JString s \<Rightarrow> s \<noteq> kBosToken | _ \<Rightarrow> True) then Inl InvalidArgument
       else Inr (state\<lparr>im_special_tokens := (im_special_tokens state)
         (kBosToken \<mapsto> \<lparr>st_id = bos_id, st_ids = [kBosId], st_tokens = [kBosToken]\<rparr>)\<rparr>)))))))))"

definition validate_post_processor :: "json \<Rightarrow> Impl \<Rightarrow> Impl throws" where
  "validate_post_processor document state =
     andThen (require_field document ''post_processor'') (\<lambda>post_processor.
     andThen (require_exact_object_keys post_processor [''type'', ''single'', ''pair'', ''special_tokens'']) (\<lambda>_.
     andThen (require_string post_processor ''post_processor.type'' ''TemplateProcessing'') (\<lambda>_.
     andThen (validate_templates post_processor state) (validate_special_tokens post_processor))))"

definition validate_decoder :: "json \<Rightarrow> Impl \<Rightarrow> Impl throws" where
  "validate_decoder document state =
     andThen (require_field document ''decoder'') (\<lambda>decoder.
     andThen (require_exact_object_keys decoder [''type'', ''decoders'']) (\<lambda>_.
     andThen (require_string decoder ''decoder.type'' ''Sequence'') (\<lambda>_.
     andThen (require_field decoder ''decoder.decoders'') (\<lambda>decoders.
     andThen (require_array decoders 4) (\<lambda>decoders.
     let replace = decoders ! 0; fallback = decoders ! 1; fuse = decoders ! 2; strip = decoders ! 3 in
     andThen (require_exact_object_keys replace [''type'', ''pattern'', ''content'']) (\<lambda>_.
     andThen (require_string replace ''decoder.decoders[0].type'' ''Replace'') (\<lambda>_.
     andThen (require_field replace ''decoder.decoders[0].pattern'') (\<lambda>pattern.
     andThen (require_exact_object_keys pattern [''String'']) (\<lambda>_.
     andThen (require_string pattern ''decoder.decoders[0].pattern.String'' kWordBoundary) (\<lambda>replaced.
     andThen (require_string replace ''decoder.decoders[0].content'' '' '') (\<lambda>content.
     andThen (require_exact_object_keys fallback [''type'']) (\<lambda>_.
     andThen (require_string fallback ''decoder.decoders[1].type'' ''ByteFallback'') (\<lambda>_.
     andThen (require_exact_object_keys fuse [''type'']) (\<lambda>_.
     andThen (require_string fuse ''decoder.decoders[2].type'' ''Fuse'') (\<lambda>_.
     andThen (require_exact_object_keys strip [''type'', ''content'', ''start'', ''stop'']) (\<lambda>_.
     andThen (require_string strip ''decoder.decoders[3].type'' ''Strip'') (\<lambda>_.
     andThen (require_string strip ''decoder.decoders[3].content'' '' '') (\<lambda>stripped.
     andThen (require_uint32 strip ''decoder.decoders[3].start'') (\<lambda>start.
     if start \<noteq> 1 then Inl InvalidArgument
     else
       andThen (require_uint32 strip ''decoder.decoders[3].stop'') (\<lambda>stop.
       if stop \<noteq> 0 then Inl InvalidArgument
       else Inr (state\<lparr>im_decoder := \<lparr>d_replace_pattern = replaced, d_replace_content = content, strip_content = stripped,
         strip_start = start, strip_stop = stop\<rparr>\<rparr>)))))))))))))))))))))"

section \<open>Vocabulary and merges\<close>

definition validate_model :: "json \<Rightarrow> Impl \<Rightarrow> Impl throws" where
  "validate_model model state =
     andThen (require_exact_object_keys model
       [''type'', ''dropout'', ''unk_token'', ''continuing_subword_prefix'', ''end_of_word_suffix'', ''fuse_unk'',
        ''byte_fallback'', ''vocab'', ''merges'']) (\<lambda>_.
     andThen (require_string model ''model.type'' ''BPE'') (\<lambda>_.
     andThen (require_null model ''model.dropout'') (\<lambda>_.
     andThen (require_string model ''model.unk_token'' kUnkToken) (\<lambda>unk.
     andThen (require_null model ''model.continuing_subword_prefix'') (\<lambda>_.
     andThen (require_null model ''model.end_of_word_suffix'') (\<lambda>_.
     andThen (require_bool model ''model.fuse_unk'' True) (\<lambda>fuse.
     andThen (require_bool model ''model.byte_fallback'' True) (\<lambda>fallback.
     Inr (state\<lparr>im_unk_token := unk, im_fuse_unk := fuse, im_byte_fallback := fallback\<rparr>)))))))))"

text \<open>The state of the vocabulary's loop adds the identifiers seen so far.\<close>

definition vocabulary_entry :: "string \<times> json \<Rightarrow> bool list \<times> Impl \<Rightarrow> (bool list \<times> Impl) throws" where
  "vocabulary_entry entry s =
     (case (entry, s) of ((key, value), (seen_ids, state)) \<Rightarrow>
       if key = [] then Inl InvalidArgument
       else
         andThen (require_uint32_value value) (\<lambda>i.
         if unat i \<ge> kVocabularySize then Inl InvalidArgument
         else if seen_ids ! unat i then Inl InvalidArgument
         else
           let seen_ids = seen_ids[unat i := True] in
           if im_vocabulary state key \<noteq> None then Inl InvalidArgument
           else Inr (seen_ids,
             state\<lparr>im_vocabulary := (im_vocabulary state)(key \<mapsto> i),
                   im_vocabulary_by_id := (im_vocabulary_by_id state)[unat i := key]\<rparr>)))"

definition validate_vocabulary :: "json \<Rightarrow> Impl \<Rightarrow> Impl throws" where
  "validate_vocabulary vocab state =
     (case vocab of
        JObject members \<Rightarrow>
          if length members \<noteq> kVocabularySize then Inl InvalidArgument
          else
            let state = state\<lparr>im_vocabulary_by_id := replicate kVocabularySize []\<rparr>;
                seen_ids = replicate kVocabularySize False in
            andThen (for_each members vocabulary_entry (seen_ids, state)) (\<lambda>(seen_ids, state).
            andThen (for_each [0..<kVocabularySize] (\<lambda>i _. if \<not> seen_ids ! i then Inl InvalidArgument else Inr ()) ()) (\<lambda>_.
            andThen (for_each [(kUnkId, kUnkToken), (kBosId, kBosToken), (kEosId, kEosToken)]
              (\<lambda>(i, content) _. if im_vocabulary_by_id state ! unat i \<noteq> content then Inl InvalidArgument else Inr ()) ()) (\<lambda>_.
            for_each [0..<256] (\<lambda>byte state.
              if im_vocabulary_by_id state ! (kFirstByteId + byte) \<noteq> byte_piece byte then Inl InvalidArgument
              else Inr (state\<lparr>im_byte_pieces := im_byte_pieces state @ [byte_piece byte]\<rparr>)) state)))
      | _ \<Rightarrow> Inl InvalidArgument)"

text \<open>A row of the merges: two pieces and one space between them.\<close>

definition merge_row :: "json \<Rightarrow> (string \<times> string) throws" where
  "merge_row row =
     (case row of
        JString str \<Rightarrow>
          (case str_find '' '' str of
             None \<Rightarrow> Inl InvalidArgument
           | Some separator \<Rightarrow>
               if separator = 0 \<or> separator + 1 \<ge> length str \<or> str_find '' '' (drop (separator + 1) str) \<noteq> None
               then Inl InvalidArgument
               else Inr (take separator str, drop (separator + 1) str))
      | _ \<Rightarrow> Inl InvalidArgument)"

definition merge_entry :: "json \<Rightarrow> nat \<times> Impl \<Rightarrow> (nat \<times> Impl) throws" where
  "merge_entry row s =
     (case s of (rank, state) \<Rightarrow>
       andThen (merge_row row) (\<lambda>(first, second).
       case im_vocabulary state first of
         None \<Rightarrow> Inl InvalidArgument
       | Some first_id \<Rightarrow>
         (case im_vocabulary state second of
            None \<Rightarrow> Inl InvalidArgument
          | Some second_id \<Rightarrow>
              if length second > size_max - length first then Inl OverflowError
              else
                (case im_vocabulary state (first @ second) of
                   None \<Rightarrow> Inl InvalidArgument
                 | Some result_id \<Rightarrow>
                     if im_merge_ranks state (first_id, second_id) \<noteq> None then Inl InvalidArgument
                     else if rank = size_max then Inl OverflowError
                     else Inr (rank + 1,
                       state\<lparr>im_merge_ranks := (im_merge_ranks state)((first_id, second_id) \<mapsto> rank),
                             im_merge_result_ids := (im_merge_result_ids state)((first_id, second_id) \<mapsto> result_id),
                             im_merges_by_rank := im_merges_by_rank state @ [(first_id, second_id)]\<rparr>)))))"

definition validate_merges :: "json \<Rightarrow> Impl \<Rightarrow> Impl throws" where
  "validate_merges merges state =
     (case merges of
        JArray rows \<Rightarrow> andThen (for_each rows merge_entry (0, state)) (\<lambda>(rank, state). Inr state)
      | _ \<Rightarrow> Inl InvalidArgument)"

definition validate_vocabulary_and_merges :: "json \<Rightarrow> Impl \<Rightarrow> Impl throws" where
  "validate_vocabulary_and_merges document state =
     andThen (require_field document ''model'') (\<lambda>model.
     andThen (validate_model model state) (\<lambda>state.
     andThen (require_field model ''model.vocab'') (\<lambda>vocab.
     andThen (validate_vocabulary vocab state) (\<lambda>state.
     andThen (require_field model ''model.merges'') (\<lambda>merges.
     validate_merges merges state)))))"

section \<open>Loading\<close>

definition parsed_state :: Impl where
  "parsed_state =
     \<lparr>im_vocabulary_by_id = [], im_vocabulary = Map.empty, im_byte_pieces = [], im_added_tokens = [],
      im_normalizer = \<lparr>prepend = [], replace_pattern = [], replace_content = []\<rparr>,
      im_single_template = [], im_pair_template = [], im_special_tokens = Map.empty,
      im_decoder = \<lparr>d_replace_pattern = [], d_replace_content = [], strip_content = [], strip_start = 0, strip_stop = 0\<rparr>,
      im_unk_token = [], im_fuse_unk = True, im_byte_fallback = True,
      im_merge_ranks = Map.empty, im_merge_result_ids = Map.empty, im_merges_by_rank = []\<rparr>"

definition top_level_keys :: "string list" where
  "top_level_keys = [''version'', ''truncation'', ''padding'', ''added_tokens'', ''normalizer'', ''pre_tokenizer'',
     ''post_processor'', ''decoder'', ''model'']"

text \<open>The parser gives \<open>None\<close> where it throws \<open>parse_error\<close>.\<close>

definition parse_tokenizer :: "(string \<Rightarrow> json option) \<Rightarrow> string option \<Rightarrow> Impl throws" where
  "parse_tokenizer json_parse content =
     andThen (read_tokenizer_text content) (\<lambda>str.
     case json_parse str of
       None \<Rightarrow> Inl InvalidArgument
     | Some document \<Rightarrow>
         andThen (require_exact_object_keys document top_level_keys) (\<lambda>_.
         andThen (require_string document ''version'' ''1.0'') (\<lambda>_.
         andThen (require_null document ''truncation'') (\<lambda>_.
         andThen (require_null document ''padding'') (\<lambda>_.
         andThen (validate_added_tokens document parsed_state) (\<lambda>state.
         andThen (validate_normalizer document state) (\<lambda>state.
         andThen (validate_post_processor document state) (\<lambda>state.
         andThen (validate_decoder document state) (\<lambda>state.
         validate_vocabulary_and_merges document state)))))))))"

text \<open>The constructor of \<open>Impl\<close> moves the fields one by one.\<close>

definition load_tokenizer :: "(string \<Rightarrow> json option) \<Rightarrow> string option \<Rightarrow> Impl throws" where
  "load_tokenizer json_parse content = parse_tokenizer json_parse content"

section \<open>What loading returns\<close>

named_theorems require_simps \<open>what a required value is\<close>

lemma require_string_value_Inr [require_simps]: "require_string_value v expected = Inr s \<longleftrightarrow> v = JString s \<and> s = expected"
  by (cases v) (auto simp: require_string_value_def)

lemma require_string_Inr [require_simps]:
  "require_string obj field expected = Inr s \<longleftrightarrow> require_field obj field = Inr (JString expected) \<and> s = expected"
  by (auto simp: require_string_def andThen_Inr_iff require_string_value_Inr)

lemma require_bool_Inr [require_simps]:
  "require_bool obj field expected = Inr b \<longleftrightarrow> require_field obj field = Inr (JBool expected) \<and> b = expected"
proof -
  have "(case v of JBool b \<Rightarrow> if b \<noteq> expected then Inl InvalidArgument else Inr expected | _ \<Rightarrow> Inl InvalidArgument) = Inr b
      \<longleftrightarrow> v = JBool expected \<and> b = expected" for v
    by (cases v) auto
  then show ?thesis by (simp add: require_bool_def andThen_Inr_iff)
qed

lemma require_array_Inr [require_simps]: "require_array v n = Inr entries \<longleftrightarrow> v = JArray entries \<and> length entries = n"
  by (cases v) (auto simp: require_array_def)

lemma validate_added_token_Inr:
  assumes "validate_added_token added index state = Inr state'"
  shows "\<exists>t. state' = state\<lparr>im_added_tokens := im_added_tokens state @ [t]\<rparr>
     \<and> (at_id t, at_content t) = (expected_ids ! index, expected_content ! index)"
  using assms unfolding validate_added_token_def Let_def andThen_Inr_iff guard_Inr_iff require_simps by fastforce

lemma validate_added_tokens_Inr:
  assumes "validate_added_tokens document state = Inr state'"
  shows "\<exists>ts. state' = state\<lparr>im_added_tokens := im_added_tokens state @ ts\<rparr>
     \<and> map (\<lambda>t. (at_id t, at_content t)) ts = [(kUnkId, kUnkToken), (kBosId, kBosToken), (kEosId, kEosToken)]"
proof -
  obtain added where "length added = 3" and loop: "for_each [0..<length added] (validate_added_token added) state = Inr state'"
    using assms by (auto simp: validate_added_tokens_def andThen_Inr_iff require_array_Inr)
  then have "[0..<length added] = [0, 1, 2]" by (simp add: upt_rec)
  with loop obtain s1 s2 where s: "validate_added_token added 0 state = Inr s1" "validate_added_token added 1 s1 = Inr s2"
    "validate_added_token added 2 s2 = Inr state'"
    by (auto simp: andThen_Inr_iff)
  show ?thesis
    using s [THEN validate_added_token_Inr] by (auto simp: expected_ids_def expected_content_def numeral_2_eq_2)
qed

lemma validate_normalizer_Inr:
  "validate_normalizer document state = Inr state' \<Longrightarrow> state' = state\<lparr>im_normalizer := standard_normalizer\<rparr>"
  unfolding validate_normalizer_def Let_def andThen_Inr_iff require_simps
  by (elim exE conjE) (simp add: standard_normalizer_def split: json.split_asm)

lemma item_is_eq: "item_is item special i type_id \<longleftrightarrow> item = \<lparr>ti_special = special, ti_id = i, ti_type_id = type_id\<rparr>"
  by (cases item) (auto simp: item_is_def)

lemma validate_templates_Inr:
  "validate_templates post_processor state = Inr state' \<Longrightarrow>
     state' = state\<lparr>im_single_template := im_single_template state @ [bos_template, \<lparr>ti_special = False, ti_id = ''A'', ti_type_id = 0\<rparr>],
       im_pair_template := im_pair_template state @ [bos_template, \<lparr>ti_special = False, ti_id = ''A'', ti_type_id = 0\<rparr>,
          bos_template\<lparr>ti_type_id := 1\<rparr>, \<lparr>ti_special = False, ti_id = ''B'', ti_type_id = 1\<rparr>]\<rparr>"
  unfolding validate_templates_def andThen_Inr_iff guard_Inr_iff item_is_eq bos_template_def de_Morgan_disj not_not
  by (elim exE conjE) simp

lemma validate_special_tokens_Inr:
  "validate_special_tokens post_processor state = Inr state' \<Longrightarrow>
     \<exists>special. st_ids special = [kBosId] \<and> state' = state\<lparr>im_special_tokens := (im_special_tokens state)(kBosToken \<mapsto> special)\<rparr>"
  unfolding validate_special_tokens_def Let_def andThen_Inr_iff guard_Inr_iff by (elim exE conjE, rule exI, rule conjI [rotated], rule sym, erule Inr_inject, simp)

lemma validate_post_processor_Inr:
  assumes "validate_post_processor document state = Inr state'"
  shows "\<exists>special. st_ids special = [kBosId] \<and>
     state' = state\<lparr>im_single_template := im_single_template state @ [bos_template, \<lparr>ti_special = False, ti_id = ''A'', ti_type_id = 0\<rparr>],
       im_pair_template := im_pair_template state @ [bos_template, \<lparr>ti_special = False, ti_id = ''A'', ti_type_id = 0\<rparr>,
          bos_template\<lparr>ti_type_id := 1\<rparr>, \<lparr>ti_special = False, ti_id = ''B'', ti_type_id = 1\<rparr>],
       im_special_tokens := (im_special_tokens state)(kBosToken \<mapsto> special)\<rparr>"
proof -
  obtain p s where "validate_templates p state = Inr s" "validate_special_tokens p s = Inr state'"
    using assms by (auto simp: validate_post_processor_def andThen_Inr_iff)
  then show ?thesis using validate_templates_Inr validate_special_tokens_Inr by fastforce
qed

lemma validate_decoder_Inr: "validate_decoder document state = Inr state' \<Longrightarrow> state' = state\<lparr>im_decoder := standard_decoder\<rparr>"
  unfolding validate_decoder_def Let_def andThen_Inr_iff guard_Inr_iff require_simps
  by (elim exE conjE) (simp add: standard_decoder_def)

lemma validate_model_Inr:
  "validate_model model state = Inr state' \<Longrightarrow>
     state' = state\<lparr>im_unk_token := kUnkToken, im_fuse_unk := True, im_byte_fallback := True\<rparr>"
  unfolding validate_model_def andThen_Inr_iff require_simps by (elim exE conjE) simp

text \<open>What the loop over the vocabulary keeps: the map and the list agree on the identifiers seen.\<close>

definition vocabulary_inv :: "bool list \<Rightarrow> Impl \<Rightarrow> bool" where
  "vocabulary_inv seen_ids state \<longleftrightarrow>
     length seen_ids = kVocabularySize \<and> length (im_vocabulary_by_id state) = kVocabularySize
     \<and> (\<forall>s i. im_vocabulary state s = Some i \<longleftrightarrow>
          unat i < kVocabularySize \<and> seen_ids ! unat i \<and> im_vocabulary_by_id state ! unat i = s)"

lemma vocabulary_entry_inv:
  assumes "vocabulary_inv seen_ids state" and "vocabulary_entry entry (seen_ids, state) = Inr (seen_ids', state')"
  shows "vocabulary_inv seen_ids' state'
     \<and> state' = state\<lparr>im_vocabulary := im_vocabulary state', im_vocabulary_by_id := im_vocabulary_by_id state'\<rparr>"
proof -
  obtain key v where entry: "entry = (key, v)" by fastforce
  obtain i where i: "unat i < kVocabularySize" "\<not> seen_ids ! unat i" "im_vocabulary state key = None"
    and s: "seen_ids' = seen_ids[unat i := True]"
      "state' = state\<lparr>im_vocabulary := (im_vocabulary state)(key \<mapsto> i),
                      im_vocabulary_by_id := (im_vocabulary_by_id state)[unat i := key]\<rparr>"
    using assms(2) by (auto simp: entry vocabulary_entry_def andThen_Inr_iff Let_def not_le split: if_splits)
  have "((im_vocabulary state)(key \<mapsto> i)) t = Some j \<longleftrightarrow>
      unat j < kVocabularySize \<and> seen_ids[unat i := True] ! unat j \<and> (im_vocabulary_by_id state)[unat i := key] ! unat j = t"
    for t and j :: token_id
  proof (cases "unat j = unat i")
    case True
    then have "j = i" by (simp only: word_unat_eq_iff)
    then show ?thesis using i assms(1) by (auto simp: vocabulary_inv_def)
  next
    case False
    then have "i \<noteq> j" by blast
    moreover have "im_vocabulary state key \<noteq> Some j" using i(3) by simp
    ultimately show ?thesis using i(1) assms(1) False by (auto simp: vocabulary_inv_def)
  qed
  then show ?thesis using assms(1) s by (simp add: vocabulary_inv_def)
qed

lemma vocabulary_entries_inv:
  assumes "vocabulary_inv seen_ids state" and "for_each members vocabulary_entry (seen_ids, state) = Inr (seen_ids', state')"
  shows "vocabulary_inv seen_ids' state'
     \<and> state' = state\<lparr>im_vocabulary := im_vocabulary state', im_vocabulary_by_id := im_vocabulary_by_id state'\<rparr>"
  using assms
proof (induction members arbitrary: seen_ids state)
  case Nil
  then show ?case by simp
next
  case (Cons entry members)
  obtain seen1 state1 where 1: "vocabulary_entry entry (seen_ids, state) = Inr (seen1, state1)"
    and 2: "for_each members vocabulary_entry (seen1, state1) = Inr (seen_ids', state')"
    using Cons.prems(2) by (auto simp: andThen_Inr_iff)
  note a = vocabulary_entry_inv [OF Cons.prems(1) 1]
  note b = Cons.IH [OF conjunct1 [OF a] 2]
  show ?case
  proof
    show "vocabulary_inv seen_ids' state'" using b by blast
    obtain m l m' l' where "state1 = state\<lparr>im_vocabulary := m, im_vocabulary_by_id := l\<rparr>"
      "state' = state1\<lparr>im_vocabulary := m', im_vocabulary_by_id := l'\<rparr>" using a b by blast
    then show "state' = state\<lparr>im_vocabulary := im_vocabulary state', im_vocabulary_by_id := im_vocabulary_by_id state'\<rparr>" by simp
  qed
qed

lemma for_each_check:
  "for_each xs (\<lambda>x _. if P x then Inl e else Inr ()) () = Inr () \<longleftrightarrow> (\<forall>x \<in> set xs. \<not> P x)"
  by (induction xs) auto

lemma byte_pieces_loop:
  assumes "for_each bytes (\<lambda>byte state.
      if im_vocabulary_by_id state ! (kFirstByteId + byte) \<noteq> byte_piece byte then Inl InvalidArgument
      else Inr (state\<lparr>im_byte_pieces := im_byte_pieces state @ [byte_piece byte]\<rparr>)) state = Inr state'"
  shows "state' = state\<lparr>im_byte_pieces := im_byte_pieces state @ map byte_piece bytes\<rparr>
     \<and> (\<forall>byte \<in> set bytes. im_vocabulary_by_id state ! (kFirstByteId + byte) = byte_piece byte)"
  using assms
proof (induction bytes arbitrary: state)
  case (Cons byte bytes)
  let ?state = "state\<lparr>im_byte_pieces := im_byte_pieces state @ [byte_piece byte]\<rparr>"
  have ok: "im_vocabulary_by_id state ! (kFirstByteId + byte) = byte_piece byte" using Cons.prems by (simp split: if_splits)
  have "for_each bytes (\<lambda>byte state.
      if im_vocabulary_by_id state ! (kFirstByteId + byte) \<noteq> byte_piece byte then Inl InvalidArgument
      else Inr (state\<lparr>im_byte_pieces := im_byte_pieces state @ [byte_piece byte]\<rparr>)) ?state = Inr state'"
    using Cons.prems ok by simp
  from Cons.IH [OF this] ok show ?case by simp
qed simp

lemma validate_vocabulary_Inr:
  assumes "validate_vocabulary vocab state = Inr state'" and "im_vocabulary state = Map.empty" and "im_byte_pieces state = []"
  shows "vocabulary_ok (im_vocabulary_by_id state') (im_vocabulary state')
     \<and> length (im_vocabulary_by_id state') = kVocabularySize
     \<and> state' = state\<lparr>im_vocabulary := im_vocabulary state', im_vocabulary_by_id := im_vocabulary_by_id state',
          im_byte_pieces := map byte_piece [0..<256]\<rparr>"
proof -
  let ?start = "state\<lparr>im_vocabulary_by_id := replicate kVocabularySize []\<rparr>"
  obtain members seen_ids state1 where
    loop: "for_each members vocabulary_entry (replicate kVocabularySize False, ?start) = Inr (seen_ids, state1)"
    and seen: "\<forall>i \<in> set [0..<kVocabularySize]. seen_ids ! i"
    and special: "\<forall>(i, content) \<in> set [(kUnkId, kUnkToken), (kBosId, kBosToken), (kEosId, kEosToken)].
      im_vocabulary_by_id state1 ! unat i = content"
    and bytes: "for_each [0..<256] (\<lambda>byte state.
      if im_vocabulary_by_id state ! (kFirstByteId + byte) \<noteq> byte_piece byte then Inl InvalidArgument
      else Inr (state\<lparr>im_byte_pieces := im_byte_pieces state @ [byte_piece byte]\<rparr>)) state1 = Inr state'"
  proof (cases vocab)
    case (JObject members)
    with assms(1) that show ?thesis
      by (auto simp: validate_vocabulary_def andThen_Inr_iff Let_def for_each_check case_prod_unfold simp del: for_each.simps split: if_splits)
  qed (use assms(1) in \<open>simp_all add: validate_vocabulary_def\<close>)
  have "vocabulary_inv (replicate kVocabularySize False) ?start" using assms(2) by (auto simp: vocabulary_inv_def)
  from vocabulary_entries_inv [OF this loop]
  have inv: "vocabulary_inv seen_ids state1"
    and state1: "state1 = ?start\<lparr>im_vocabulary := im_vocabulary state1, im_vocabulary_by_id := im_vocabulary_by_id state1\<rparr>" by blast+
  note pieces = byte_pieces_loop [OF bytes]
  have n: "length (im_vocabulary_by_id state1) = kVocabularySize"
    and map: "im_vocabulary state1 s = Some i \<longleftrightarrow> unat i < kVocabularySize \<and> im_vocabulary_by_id state1 ! unat i = s" for s i
    using inv seen by (auto simp: vocabulary_inv_def)
  have "distinct (im_vocabulary_by_id state1)"
    unfolding distinct_conv_nth
  proof (intro allI impI)
    fix j k assume jk: "j < length (im_vocabulary_by_id state1)" "k < length (im_vocabulary_by_id state1)" "j \<noteq> k"
    then have u: "unat (word_of_nat j :: token_id) = j" "unat (word_of_nat k :: token_id) = k"
      using n by (simp_all add: unat_token_id kVocabularySize_def)
    have "im_vocabulary state1 (im_vocabulary_by_id state1 ! j) = Some (word_of_nat j)" using jk n by (simp add: map u)
    moreover have "im_vocabulary state1 (im_vocabulary_by_id state1 ! k) = Some (word_of_nat k)" using jk n by (simp add: map u)
    ultimately show "im_vocabulary_by_id state1 ! j \<noteq> im_vocabulary_by_id state1 ! k" using jk(3) u by (metis option.inject)
  qed
  then have "vocabulary_ok (im_vocabulary_by_id state1) (im_vocabulary state1)"
    using n map special pieces
    by (simp add: vocabulary_ok_def kVocabularySize_def kUnkId_def kBosId_def kEosId_def kFirstByteId_def)
  moreover have "im_byte_pieces state1 = []" by (subst state1) (simp add: assms(3))
  moreover have "state' = state\<lparr>im_vocabulary := im_vocabulary state1, im_vocabulary_by_id := im_vocabulary_by_id state1,
      im_byte_pieces := im_byte_pieces state1 @ map byte_piece [0..<256]\<rparr>"
  proof -
    obtain m l where "state1 = ?start\<lparr>im_vocabulary := m, im_vocabulary_by_id := l\<rparr>" using state1 by blast
    then show ?thesis using pieces by simp
  qed
  ultimately show ?thesis using n by simp
qed

definition merges_inv :: "nat \<Rightarrow> Impl \<Rightarrow> bool" where
  "merges_inv rank state \<longleftrightarrow>
     rank = length (im_merges_by_rank state)
     \<and> merges_wf (im_vocabulary_by_id state) (im_merges_by_rank state) (im_merge_ranks state) (im_merge_result_ids state)"

lemma merges_wf_snoc:
  assumes wf: "merges_wf by_id pairs ranks results" and vocab: "vocabulary_ok by_id vocab"
    and ids: "vocab first = Some a" "vocab second = Some b" "vocab (first @ second) = Some c" and new: "ranks (a, b) = None"
  shows "merges_wf by_id (pairs @ [(a, b)]) (ranks((a, b) \<mapsto> length pairs)) (results((a, b) \<mapsto> c))"
proof -
  have nth: "unat i < length by_id \<and> by_id ! unat i = s" if "vocab s = Some i" for s i
    using vocab that by (simp add: vocabulary_ok_def)
  have fresh: "(a, b) \<notin> set pairs"
  proof
    assume "(a, b) \<in> set pairs"
    then obtain r where "r < length pairs" "pairs ! r = (a, b)" unfolding in_set_conv_nth by blast
    then have "ranks (a, b) = Some r" using wf by (simp add: merges_wf_def)
    with new show False by simp
  qed
  then have "pairs ! r \<noteq> (a, b)" if "r < length pairs" for r using that nth_mem by metis
  then have "(ranks((a, b) \<mapsto> length pairs)) p = Some r \<longleftrightarrow> r < length (pairs @ [(a, b)]) \<and> (pairs @ [(a, b)]) ! r = p" for p r
  proof (cases "p = (a, b)")
    case True
    then show ?thesis using \<open>\<And>r. r < length pairs \<Longrightarrow> pairs ! r \<noteq> (a, b)\<close> by (auto simp: nth_append less_Suc_eq)
  next
    case False
    then have "(ranks((a, b) \<mapsto> length pairs)) p = Some r \<longleftrightarrow> r < length pairs \<and> pairs ! r = p"
      using wf by (cases p) (auto simp: merges_wf_def)
    also have "\<dots> \<longleftrightarrow> r < length (pairs @ [(a, b)]) \<and> (pairs @ [(a, b)]) ! r = p"
      using False by (auto simp: nth_append less_Suc_eq)
    finally show ?thesis .
  qed
  moreover have "unat d < length by_id \<and> unat e < length by_id
      \<and> (\<exists>c'. (results((a, b) \<mapsto> c)) (d, e) = Some c' \<and> unat c' < length by_id \<and> by_id ! unat c' = by_id ! unat d @ by_id ! unat e)"
    if "(d, e) \<in> set (pairs @ [(a, b)])" for d e
  proof (cases "(d, e) = (a, b)")
    case True
    then show ?thesis using ids nth by simp
  next
    case False
    then show ?thesis using that wf by (auto simp: merges_wf_def)
  qed
  ultimately show ?thesis using fresh wf by (simp add: merges_wf_def)
qed

lemma merge_entry_Inr:
  assumes "merge_entry row (rank, state) = Inr (rank', state')"
  shows "\<exists>first second a b c. im_vocabulary state first = Some a \<and> im_vocabulary state second = Some b
     \<and> im_vocabulary state (first @ second) = Some c \<and> im_merge_ranks state (a, b) = None \<and> rank' = rank + 1
     \<and> state' = state\<lparr>im_merge_ranks := (im_merge_ranks state)((a, b) \<mapsto> rank),
          im_merge_result_ids := (im_merge_result_ids state)((a, b) \<mapsto> c),
          im_merges_by_rank := im_merges_by_rank state @ [(a, b)]\<rparr>"
proof -
  obtain first second where "merge_row row = Inr (first, second)" using assms by (auto simp: merge_entry_def andThen_Inr_iff)
  then obtain a b c where "im_vocabulary state first = Some a" "im_vocabulary state second = Some b"
    "im_vocabulary state (first @ second) = Some c" "im_merge_ranks state (a, b) = None" "rank' = rank + 1"
    "state' = state\<lparr>im_merge_ranks := (im_merge_ranks state)((a, b) \<mapsto> rank),
          im_merge_result_ids := (im_merge_result_ids state)((a, b) \<mapsto> c),
          im_merges_by_rank := im_merges_by_rank state @ [(a, b)]\<rparr>"
    using assms by (auto simp: merge_entry_def not_less split: option.splits if_splits)
  then show ?thesis by blast
qed

lemma merge_entries_Inr:
  assumes "for_each rows merge_entry (rank, state) = Inr (rank', state')"
    and "vocabulary_ok (im_vocabulary_by_id state) (im_vocabulary state)" and "merges_inv rank state"
  shows "merges_inv rank' state'
     \<and> state' = state\<lparr>im_merge_ranks := im_merge_ranks state', im_merge_result_ids := im_merge_result_ids state',
          im_merges_by_rank := im_merges_by_rank state'\<rparr>"
  using assms
proof (induction rows arbitrary: rank state)
  case Nil
  then show ?case by simp
next
  case (Cons row rows)
  obtain rank1 state1 where 1: "merge_entry row (rank, state) = Inr (rank1, state1)"
    and 2: "for_each rows merge_entry (rank1, state1) = Inr (rank', state')"
    using Cons.prems(1) by (auto simp: andThen_Inr_iff)
  obtain first second a b c where e: "im_vocabulary state first = Some a" "im_vocabulary state second = Some b"
      "im_vocabulary state (first @ second) = Some c" "im_merge_ranks state (a, b) = None" "rank1 = rank + 1"
    and s: "state1 = state\<lparr>im_merge_ranks := (im_merge_ranks state)((a, b) \<mapsto> rank),
          im_merge_result_ids := (im_merge_result_ids state)((a, b) \<mapsto> c),
          im_merges_by_rank := im_merges_by_rank state @ [(a, b)]\<rparr>"
    using merge_entry_Inr [OF 1] by blast
  have "merges_wf (im_vocabulary_by_id state) (im_merges_by_rank state @ [(a, b)]) ((im_merge_ranks state)((a, b) \<mapsto> rank))
      ((im_merge_result_ids state)((a, b) \<mapsto> c))"
    using merges_wf_snoc [where vocab = "im_vocabulary state" and ranks = "im_merge_ranks state" and first = first and second = second, OF _ Cons.prems(2) e(1-4)]
      Cons.prems(3) by (simp add: merges_inv_def)
  then have "merges_inv rank1 state1" using Cons.prems(3) e(5) s by (simp add: merges_inv_def)
  moreover have "vocabulary_ok (im_vocabulary_by_id state1) (im_vocabulary state1)" using Cons.prems(2) s by simp
  ultimately have b: "merges_inv rank' state'
     \<and> state' = state1\<lparr>im_merge_ranks := im_merge_ranks state', im_merge_result_ids := im_merge_result_ids state',
          im_merges_by_rank := im_merges_by_rank state'\<rparr>" by (intro Cons.IH [OF 2])
  then obtain x y z where "state' = state1\<lparr>im_merge_ranks := x, im_merge_result_ids := y, im_merges_by_rank := z\<rparr>" by blast
  with b s show ?case by simp
qed

lemma validate_merges_Inr:
  assumes "validate_merges merges state = Inr state'"
    and "vocabulary_ok (im_vocabulary_by_id state) (im_vocabulary state)"
    and "im_merges_by_rank state = []" "im_merge_ranks state = Map.empty"
  shows "merges_wf (im_vocabulary_by_id state') (im_merges_by_rank state') (im_merge_ranks state') (im_merge_result_ids state')
     \<and> state' = state\<lparr>im_merge_ranks := im_merge_ranks state', im_merge_result_ids := im_merge_result_ids state',
          im_merges_by_rank := im_merges_by_rank state'\<rparr>"
proof -
  obtain rows rank where "for_each rows merge_entry (0, state) = Inr (rank, state')"
    using assms(1) by (cases merges) (auto simp: validate_merges_def andThen_Inr_iff)
  moreover have "merges_inv 0 state" using assms(3,4) by (simp add: merges_inv_def merges_wf_def)
  ultimately have "merges_inv rank state'
     \<and> state' = state\<lparr>im_merge_ranks := im_merge_ranks state', im_merge_result_ids := im_merge_result_ids state',
          im_merges_by_rank := im_merges_by_rank state'\<rparr>" by (intro merge_entries_Inr [OF _ assms(2)])
  then show ?thesis unfolding merges_inv_def by blast
qed

lemma load_tokenizer_ok:
  assumes "load_tokenizer json_parse content = Inr impl"
  shows "tokenizer_ok impl \<and> length (im_vocabulary_by_id impl) = kVocabularySize"
proof -
  obtain document model vocab merges s1 s2 s3 s4 s5 s6 where
    s: "validate_added_tokens document parsed_state = Inr s1" "validate_normalizer document s1 = Inr s2"
      "validate_post_processor document s2 = Inr s3" "validate_decoder document s3 = Inr s4"
      "validate_model model s4 = Inr s5" "validate_vocabulary vocab s5 = Inr s6" "validate_merges merges s6 = Inr impl"
    using assms unfolding load_tokenizer_def parse_tokenizer_def validate_vocabulary_and_merges_def andThen_Inr_iff
    by (elim exE conjE) (simp add: andThen_Inr_iff split: option.split_asm, elim exE conjE, rule that)
  obtain added where added: "s1 = parsed_state\<lparr>im_added_tokens := added\<rparr>"
    "map (\<lambda>t. (at_id t, at_content t)) added = [(kUnkId, kUnkToken), (kBosId, kBosToken), (kEosId, kEosToken)]"
    using validate_added_tokens_Inr [OF s(1)] by (auto simp: parsed_state_def)
  obtain special where special: "st_ids special = [kBosId]" and
    s3: "s3 = parsed_state\<lparr>im_added_tokens := added, im_normalizer := standard_normalizer,
      im_single_template := [bos_template, \<lparr>ti_special = False, ti_id = ''A'', ti_type_id = 0\<rparr>],
      im_pair_template := [bos_template, \<lparr>ti_special = False, ti_id = ''A'', ti_type_id = 0\<rparr>,
          bos_template\<lparr>ti_type_id := 1\<rparr>, \<lparr>ti_special = False, ti_id = ''B'', ti_type_id = 1\<rparr>],
      im_special_tokens := [kBosToken \<mapsto> special]\<rparr>"
    using validate_post_processor_Inr [OF s(3)] validate_normalizer_Inr [OF s(2)] added(1) by (auto simp: parsed_state_def)
  have s5: "s5 = s3\<lparr>im_decoder := standard_decoder, im_unk_token := kUnkToken, im_fuse_unk := True, im_byte_fallback := True\<rparr>"
    using validate_decoder_Inr [OF s(4)] validate_model_Inr [OF s(5)] by simp
  have "im_vocabulary s5 = Map.empty" "im_byte_pieces s5 = []" using s3 s5 by (simp_all add: parsed_state_def)
  note v = validate_vocabulary_Inr [OF s(6) this]
  obtain m l where s6: "s6 = s5\<lparr>im_vocabulary := m, im_vocabulary_by_id := l, im_byte_pieces := map byte_piece [0..<256]\<rparr>"
    and lm: "vocabulary_ok l m" "length l = kVocabularySize"
    by (rule that [OF v [THEN conjunct2, THEN conjunct2] v [THEN conjunct1] v [THEN conjunct2, THEN conjunct1]])
  have "im_merges_by_rank s6 = []" "im_merge_ranks s6 = Map.empty" using s3 s5 s6 by (simp_all add: parsed_state_def)
  note w = validate_merges_Inr [OF s(7) conjunct1 [OF v] this]
  then obtain x y z where impl: "impl = s6\<lparr>im_merge_ranks := x, im_merge_result_ids := y, im_merges_by_rank := z\<rparr>" by blast
  with w have "merges_wf l z x y" using s6 by simp
  with impl s6 lm s5 s3 added special show ?thesis by (simp add: tokenizer_ok_def standard_decoder_def)
qed

section \<open>A document\<close>

definition added_json :: "nat \<Rightarrow> json" where
  "added_json index = JObject [(''id'', JUnsigned (ucast (expected_ids ! index))), (''content'', JString (expected_content ! index)),
     (''single_word'', JBool False), (''lstrip'', JBool False), (''rstrip'', JBool False), (''normalized'', JBool False),
     (''special'', JBool True)]"

definition replace_json :: "string \<Rightarrow> string \<Rightarrow> json" where
  "replace_json pattern content = JObject [(''type'', JString ''Replace''), (''pattern'', JObject [(''String'', JString pattern)]),
     (''content'', JString content)]"

definition normalizer_json :: json where
  "normalizer_json = JObject [(''type'', JString ''Sequence''), (''normalizers'', JArray
     [JObject [(''type'', JString ''Prepend''), (''prepend'', JString kWordBoundary)], replace_json '' '' kWordBoundary])]"

definition template_json :: "string \<Rightarrow> string \<Rightarrow> 64 word \<Rightarrow> json" where
  "template_json key i type_id = JObject [(key, JObject [(''id'', JString i), (''type_id'', JUnsigned type_id)])]"

definition post_processor_json :: json where
  "post_processor_json = JObject [(''type'', JString ''TemplateProcessing''),
     (''single'', JArray [template_json ''SpecialToken'' kBosToken 0, template_json ''Sequence'' ''A'' 0]),
     (''pair'', JArray [template_json ''SpecialToken'' kBosToken 0, template_json ''Sequence'' ''A'' 0,
        template_json ''SpecialToken'' kBosToken 1, template_json ''Sequence'' ''B'' 1]),
     (''special_tokens'', JObject [(kBosToken, JObject [(''id'', JString kBosToken), (''ids'', JArray [JUnsigned 1]),
        (''tokens'', JArray [JString kBosToken])])])]"

definition decoder_json :: json where
  "decoder_json = JObject [(''type'', JString ''Sequence''), (''decoders'', JArray [replace_json kWordBoundary '' '',
     JObject [(''type'', JString ''ByteFallback'')], JObject [(''type'', JString ''Fuse'')],
     JObject [(''type'', JString ''Strip''), (''content'', JString '' ''), (''start'', JUnsigned 1), (''stop'', JInteger 0)]])]"

definition vocab_json :: "string list \<Rightarrow> json" where
  "vocab_json pieces = JObject (map (\<lambda>i. (pieces ! i, JUnsigned (word_of_nat i))) [0..<length pieces])"

definition model_json :: "string list \<Rightarrow> json list \<Rightarrow> json" where
  "model_json pieces rows = JObject [(''type'', JString ''BPE''), (''dropout'', JNull), (''unk_token'', JString kUnkToken),
     (''continuing_subword_prefix'', JNull), (''end_of_word_suffix'', JNull), (''fuse_unk'', JBool True),
     (''byte_fallback'', JBool True), (''vocab'', vocab_json pieces), (''merges'', JArray rows)]"

definition tokenizer_json :: "string list \<Rightarrow> json list \<Rightarrow> json" where
  "tokenizer_json pieces rows = JObject [(''version'', JString ''1.0''), (''truncation'', JNull), (''padding'', JNull),
     (''added_tokens'', JArray [added_json 0, added_json 1, added_json 2]), (''normalizer'', normalizer_json),
     (''pre_tokenizer'', JNull), (''post_processor'', post_processor_json), (''decoder'', decoder_json),
     (''model'', model_json pieces rows)]"

lemmas lookup_defs = require_field_def lookup_key_def Let_def child_field_def array_field_def require_exact_object_keys_def

lemma json_fields:
  "require_field (tokenizer_json pieces rows) ''added_tokens'' = Inr (JArray [added_json 0, added_json 1, added_json 2])"
  "require_field (tokenizer_json pieces rows) ''normalizer'' = Inr normalizer_json"
  "require_field (tokenizer_json pieces rows) ''pre_tokenizer'' = Inr JNull"
  "require_field (tokenizer_json pieces rows) ''post_processor'' = Inr post_processor_json"
  "require_field (tokenizer_json pieces rows) ''decoder'' = Inr decoder_json"
  "require_field (tokenizer_json pieces rows) ''model'' = Inr (model_json pieces rows)"
  "require_string (tokenizer_json pieces rows) ''version'' ''1.0'' = Inr ''1.0''"
  "require_null (tokenizer_json pieces rows) ''truncation'' = Inr ()"
  "require_null (tokenizer_json pieces rows) ''padding'' = Inr ()"
  by (simp_all add: tokenizer_json_def lookup_defs require_string_def require_string_value_def require_null_def)

lemma added_json_accepted:
  assumes "index < 3"
  shows "validate_added_token [added_json 0, added_json 1, added_json 2] index state
     = Inr (state\<lparr>im_added_tokens := im_added_tokens state @ [special_added (expected_ids ! index) (expected_content ! index)]\<rparr>)"
proof -
  have "index = 0 \<or> index = 1 \<or> index = 2" using assms by linarith
  then show ?thesis
    by (elim disjE; simp add: validate_added_token_def added_json_def added_token_keys_def lookup_defs to_string.simps
      require_uint32_def require_uint32_value_def require_string_def require_string_value_def require_bool_def
      expected_ids_def expected_content_def kUnkId_def kBosId_def kEosId_def special_added_def)
qed

lemma normalizer_accepted: "\<exists>state'. validate_normalizer (tokenizer_json pieces rows) state = Inr state'"
  unfolding validate_normalizer_def json_fields
  by (simp add: normalizer_json_def replace_json_def lookup_defs require_string_def require_string_value_def require_array_def)

lemma templates_accepted: "\<exists>state'. validate_post_processor (tokenizer_json pieces rows) state = Inr state'"
  unfolding validate_post_processor_def validate_templates_def validate_special_tokens_def json_fields
  by (simp add: post_processor_json_def template_json_def lookup_defs require_string_def require_string_value_def require_array_def
    parse_template_item_def item_is_def require_any_string_def require_uint32_def require_uint32_value_def kBosToken_def kBosId_def)

lemma decoder_accepted: "\<exists>state'. validate_decoder (tokenizer_json pieces rows) state = Inr state'"
  unfolding validate_decoder_def json_fields
  by (simp add: decoder_json_def replace_json_def lookup_defs require_string_def require_string_value_def require_array_def
    require_uint32_def require_uint32_value_def)

lemma model_accepted:
  "\<exists>state'. validate_model (model_json pieces rows) state = Inr state'"
  "require_field (model_json pieces rows) ''model.vocab'' = Inr (vocab_json pieces)"
  "require_field (model_json pieces rows) ''model.merges'' = Inr (JArray rows)"
  by (simp_all add: validate_model_def model_json_def lookup_defs require_string_def require_string_value_def require_null_def
    require_bool_def)

text \<open>The loop over the first \<open>n\<close> entries of the vocabulary.\<close>

definition vocabulary_state :: "string list \<Rightarrow> nat \<Rightarrow> Impl \<Rightarrow> bool list \<times> Impl" where
  "vocabulary_state pieces n state =
     (replicate n True @ replicate (kVocabularySize - n) False,
      state\<lparr>im_vocabulary := (\<lambda>s. if s \<in> set (take n pieces) then vocabulary_of pieces s else None),
            im_vocabulary_by_id := take n pieces @ replicate (kVocabularySize - n) []\<rparr>)"

lemma list_update_append_replicate:
  "i < m \<Longrightarrow> length xs = i \<Longrightarrow> (xs @ replicate (m - i) x)[i := y] = (xs @ [y]) @ replicate (m - Suc i) x"
  by (cases "m - i") (auto simp: list_update_append dest: arg_cong [of _ _ "\<lambda>n. n - 1"])

lemma vocabulary_entry_accepted:
  assumes pieces: "distinct pieces" "length pieces = kVocabularySize" "[] \<notin> set pieces" and i: "i < kVocabularySize"
  shows "vocabulary_entry (pieces ! i, JUnsigned (word_of_nat i)) (vocabulary_state pieces i state)
     = Inr (vocabulary_state pieces (Suc i) state)"
proof -
  have i32: "i < 2 ^ 32" and v32: "length pieces < 2 ^ 32" using i pieces(2) by (simp_all add: kVocabularySize_def)
  then have u64: "unat (word_of_nat i :: 64 word) = i" by (simp add: unat_of_nat take_bit_nat_eq_self)
  have num: "require_uint32_value (JUnsigned (word_of_nat i)) = Inr (word_of_nat i)"
    using i32 u64 by (simp add: require_uint32_value_def not_less unsigned_of_nat take_bit_nat_eq_self)
  have u: "unat (word_of_nat i :: token_id) = i" using i32 by (rule unat_token_id)
  have nonempty: "pieces ! i \<noteq> []" using pieces i nth_mem by metis
  have taken: "take (Suc i) pieces = take i pieces @ [pieces ! i]" using i pieces(2) by (simp add: take_Suc_conv_app_nth)
  have fresh: "pieces ! i \<notin> set (take i pieces)"
    using pieces(1) i pieces(2) taken by (metis distinct_take not_distinct_conv_prefix)
  have voc: "vocabulary_of pieces (pieces ! i) = Some (word_of_nat i)"
    using vocabulary_of_iff [OF pieces(1) v32] i pieces(2) u by simp
  have map: "(\<lambda>s. if s \<in> set (take i pieces) then vocabulary_of pieces s else None)(pieces ! i \<mapsto> word_of_nat i)
      = (\<lambda>s. if s \<in> set (take (Suc i) pieces) then vocabulary_of pieces s else None)"
    unfolding taken using voc by (auto simp: fun_eq_iff)
  have "(replicate i True @ replicate (kVocabularySize - i) False) ! i = False"
    using i by (simp add: nth_append)
  moreover have "(replicate i True @ replicate (kVocabularySize - i) False)[i := True]
      = replicate (Suc i) True @ replicate (kVocabularySize - Suc i) False"
    using list_update_append_replicate [OF i, of "replicate i True"] by (simp add: replicate_append_same)
  moreover have "(take i pieces @ replicate (kVocabularySize - i) [])[i := pieces ! i]
      = take (Suc i) pieces @ replicate (kVocabularySize - Suc i) []"
    unfolding taken using list_update_append_replicate [OF i, of "take i pieces"] i pieces(2) by simp
  ultimately show ?thesis
    using nonempty i fresh
    by (simp add: vocabulary_entry_def vocabulary_state_def num u map Let_def)
qed

lemma vocabulary_entries_accepted:
  assumes "distinct pieces" "length pieces = kVocabularySize" "[] \<notin> set pieces" and "n \<le> kVocabularySize"
  shows "for_each (map (\<lambda>i. (pieces ! i, JUnsigned (word_of_nat i))) [0..<n]) vocabulary_entry (vocabulary_state pieces 0 state)
     = Inr (vocabulary_state pieces n state)"
  using assms(4)
proof (induction n)
  case 0
  then show ?case by simp
next
  case (Suc n)
  then show ?case
    using vocabulary_entry_accepted [OF assms(1-3), of n state] by (simp add: for_each_append)
qed

lemma byte_pieces_accepted:
  assumes "\<forall>byte \<in> set bytes. im_vocabulary_by_id state ! (kFirstByteId + byte) = byte_piece byte"
  shows "for_each bytes (\<lambda>byte state.
      if im_vocabulary_by_id state ! (kFirstByteId + byte) \<noteq> byte_piece byte then Inl InvalidArgument
      else Inr (state\<lparr>im_byte_pieces := im_byte_pieces state @ [byte_piece byte]\<rparr>)) state
    = Inr (state\<lparr>im_byte_pieces := im_byte_pieces state @ map byte_piece bytes\<rparr>)"
  using assms by (induction bytes arbitrary: state) simp_all

lemma vocabulary_accepted:
  assumes "distinct (base_pieces @ others)" "length others = kVocabularySize - 259" "[] \<notin> set others"
    and "im_vocabulary state = Map.empty" and "im_byte_pieces state = []"
  shows "validate_vocabulary (vocab_json (base_pieces @ others)) state
    = Inr (state\<lparr>im_vocabulary := vocabulary_of (base_pieces @ others), im_vocabulary_by_id := base_pieces @ others,
        im_byte_pieces := map byte_piece [0..<256]\<rparr>)"
proof -
  let ?pieces = "base_pieces @ others"
  have len: "length ?pieces = kVocabularySize" using assms(2) by (simp add: base_pieces_nth(1) kVocabularySize_def)
  have ne: "[] \<notin> set ?pieces"
    using assms(3) by (auto simp: base_pieces_def kUnkToken_def kBosToken_def kEosToken_def byte_piece_def)
  have start: "(replicate kVocabularySize False, state\<lparr>im_vocabulary_by_id := replicate kVocabularySize []\<rparr>)
      = vocabulary_state ?pieces 0 state"
    using assms(4) by (cases state) (simp add: vocabulary_state_def)
  have "dom (vocabulary_of ?pieces) = set ?pieces" by (simp add: vocabulary_of_def dom_map_of_zip)
  then have "vocabulary_of ?pieces s = None" if "s \<notin> set ?pieces" for s using that by blast
  then have "(\<lambda>s. if s \<in> set ?pieces then vocabulary_of ?pieces s else None) = vocabulary_of ?pieces" by auto
  then have full: "vocabulary_state ?pieces kVocabularySize state
      = (replicate kVocabularySize True, state\<lparr>im_vocabulary := vocabulary_of ?pieces, im_vocabulary_by_id := ?pieces\<rparr>)"
    using len by (simp add: vocabulary_state_def)
  have seen: "for_each [0..<kVocabularySize] (\<lambda>i _. if \<not> replicate kVocabularySize True ! i then Inl InvalidArgument else Inr ()) ()
      = Inr ()" unfolding for_each_check by simp
  have bytes: "for_each [0..<256] (\<lambda>byte state.
        if im_vocabulary_by_id state ! (kFirstByteId + byte) \<noteq> byte_piece byte then Inl InvalidArgument
        else Inr (state\<lparr>im_byte_pieces := im_byte_pieces state @ [byte_piece byte]\<rparr>))
      (state\<lparr>im_vocabulary := vocabulary_of ?pieces, im_vocabulary_by_id := ?pieces\<rparr>)
    = Inr (state\<lparr>im_vocabulary := vocabulary_of ?pieces, im_vocabulary_by_id := ?pieces, im_byte_pieces := map byte_piece [0..<256]\<rparr>)"
    by (subst byte_pieces_accepted) (simp_all add: base_pieces_nth kFirstByteId_def assms(5))
  note loop = vocabulary_entries_accepted [OF assms(1) len ne order.refl, of state, unfolded full]
  show ?thesis
    unfolding validate_vocabulary_def vocab_json_def json.case Let_def length_map length_upt minus_nat.diff_0 len start loop
    by (simp add: seen bytes base_pieces_nth base_pieces_nth(4) [unfolded One_nat_def] kUnkId_def kBosId_def kEosId_def
      del: for_each.simps upt_Suc) (simp add: bytes base_pieces_nth base_pieces_nth(4) [unfolded One_nat_def])
qed

lemma load_accepted:
  assumes "distinct (base_pieces @ others)" "length others = kVocabularySize - 259" "[] \<notin> set others"
    and "json_parse str = Some (tokenizer_json (base_pieces @ others) [])"
  shows "\<exists>impl. load_tokenizer json_parse (Some str) = Inr impl"
proof -
  let ?doc = "tokenizer_json (base_pieces @ others) []" and ?added = "[added_json 0, added_json 1, added_json 2]"
  have keys: "require_exact_object_keys ?doc top_level_keys = Inr ()"
    by (simp add: tokenizer_json_def top_level_keys_def require_exact_object_keys_def)
  obtain ts where "validate_added_tokens ?doc parsed_state = Inr (parsed_state\<lparr>im_added_tokens := ts\<rparr>)"
    unfolding validate_added_tokens_def json_fields
    by (simp add: require_array_def upt_rec added_json_accepted [of 0, simplified] added_json_accepted [of 1, simplified]
        added_json_accepted [of 2, simplified] numeral_2_eq_2 [symmetric])
  moreover obtain s2 where s2: "validate_normalizer ?doc (parsed_state\<lparr>im_added_tokens := ts\<rparr>) = Inr s2"
    using normalizer_accepted by blast
  moreover obtain s3 where s3: "validate_post_processor ?doc s2 = Inr s3" using templates_accepted by blast
  moreover obtain s4 where s4: "validate_decoder ?doc s3 = Inr s4" using decoder_accepted by blast
  moreover obtain s5 where s5: "validate_model (model_json (base_pieces @ others) []) s4 = Inr s5" using model_accepted(1) by blast
  moreover have "im_vocabulary s5 = Map.empty \<and> im_byte_pieces s5 = []"
    using validate_normalizer_Inr [OF s2] validate_post_processor_Inr [OF s3] validate_decoder_Inr [OF s4] validate_model_Inr [OF s5]
    by (auto simp: parsed_state_def)
  ultimately show ?thesis
    using keys vocabulary_accepted [OF assms(1-3), of s5]
    by (simp add: load_tokenizer_def parse_tokenizer_def read_tokenizer_text_def assms(4) json_fields
      validate_vocabulary_and_merges_def model_accepted(2,3) validate_merges_def)
qed

section \<open>Properties\<close>

text \<open>
  C14. What \<open>load_tokenizer\<close> returns is well-formed, whatever the file and the JSON parser give: 32000
  distinct pieces that the vocabulary numbers and the list gives back, the special tokens and the 256
  byte pieces at their identifiers, merges that are pairs of pieces whose concatenation is a piece,
  each with its rank, and the normalizer, templates and decoder the encoder and the decoder support.
\<close>

theorem loaded_tokenizer_wf:
  assumes "load_tokenizer json_parse content = Inr impl"
  shows "tokenizer_ok impl \<and> length (im_vocabulary_by_id impl) = kVocabularySize"
  by (rule load_tokenizer_ok [OF assms])

theorem loaded_tokenizer_wf_witness:
  "\<exists>impl. load_tokenizer (\<lambda>str. Some (tokenizer_json (base_pieces @ map (\<lambda>i. replicate (i + 7) (CHR ''a'')) [0..<31741]) []))
     (Some ''document'') = Inr impl \<and> tokenizer_ok impl \<and> length (im_vocabulary_by_id impl) = kVocabularySize"
proof -
  let ?others = "map (\<lambda>i. replicate (i + 7) (CHR ''a'')) [0..<31741]"
  have "distinct ?others" by (simp add: distinct_map inj_on_def)
  moreover have "\<forall>s \<in> set ?others. 7 \<le> length s" by simp
  then have "\<forall>s \<in> set ?others. length s \<noteq> 6 \<and> s \<notin> {kUnkToken, kBosToken, kEosToken}" "[] \<notin> set ?others"
    by (fastforce simp: kUnkToken_def kBosToken_def kEosToken_def)+
  ultimately have "distinct (base_pieces @ ?others)" "[] \<notin> set ?others" using distinct_base_pieces by blast+
  moreover have "length ?others = kVocabularySize - 259" by (simp add: kVocabularySize_def)
  ultimately obtain impl where "load_tokenizer (\<lambda>str. Some (tokenizer_json (base_pieces @ ?others) [])) (Some ''document'') = Inr impl"
    using load_accepted [of ?others "\<lambda>str. Some (tokenizer_json (base_pieces @ ?others) [])" "''document''"] by blast
  with loaded_tokenizer_wf [OF this] show ?thesis by blast
qed

end
