(* ===== verification/Chat_Template.thy ===== *)
theory Chat_Template
  imports Tokenizer_Load
begin

unbundle bit_operations_syntax

text \<open>
  The chat formatter of \<open>src/src/chat_format.cpp\<close>: a chat template in a small subset of Jinja is split into
  tokens, compiled once into affixes of the three roles, and then only concatenated. The messages of
  the rejections, and the offsets that only occur in them, are left out; a parser of an expression is a
  function on the rest of the expression. The property: formatting with the compiled template gives what a
  direct interpretation of the template's blocks gives.
\<close>

section \<open>Tokens\<close>

datatype TokenKind = TextToken | OutputToken | BlockToken

record Token =
  tok_kind :: TokenKind
  tok_text :: string
  tok_offset :: nat

datatype BlockKind = ForOpen | EndFor | IfOpen | Elif | ElseBlock | EndIf | UnknownBlock

datatype ReferenceKind = RoleReference | ContentReference

datatype ExpressionTerm = Literal string | Content | Eos

record RoleAffix =
  before_content :: string
  after_content :: string

record CompiledTemplate =
  role_affixes :: "RoleAffix list"
  generation :: string
  iteration_tail :: string
  iteration_tail_after_generation :: string
  generation_inside_loop :: bool
  template_prefix :: string
  post_loop :: string
  template_suffix :: string

abbreviation quote_char :: char where "quote_char \<equiv> CHR 0x27"
abbreviation double_quote :: char where "double_quote \<equiv> CHR 0x22"
abbreviation backslash :: char where "backslash \<equiv> CHR 0x5C"
abbreviation newline :: char where "newline \<equiv> CHR 0x0A"
abbreviation carriage_return :: char where "carriage_return \<equiv> CHR 0x0D"
abbreviation tabulator :: char where "tabulator \<equiv> CHR 0x09"

definition is_ascii_space :: "char \<Rightarrow> bool" where
  "is_ascii_space c \<longleftrightarrow> c = CHR '' '' \<or> c = tabulator \<or> c = newline \<or> c = CHR 0x0B \<or> c = CHR 0x0C"

definition is_identifier_start :: "char \<Rightarrow> bool" where
  "is_identifier_start c \<longleftrightarrow>
     (byte_of c \<ge> byte_of (CHR ''a'') \<and> byte_of c \<le> byte_of (CHR ''z''))
     \<or> (byte_of c \<ge> byte_of (CHR ''A'') \<and> byte_of c \<le> byte_of (CHR ''Z'')) \<or> c = CHR ''_''"

definition is_identifier_continue :: "char \<Rightarrow> bool" where
  "is_identifier_continue c \<longleftrightarrow>
     is_identifier_start c \<or> (byte_of c \<ge> byte_of (CHR ''0'') \<and> byte_of c \<le> byte_of (CHR ''9''))"

section \<open>UTF-8\<close>

text \<open>The length of a sequence and the bits its first byte contributes; \<open>None\<close> for an invalid lead byte.\<close>

definition lead_bits :: "nat \<Rightarrow> (nat \<times> nat) option" where
  "lead_bits byte =
     (if byte \<ge> 0xC2 \<and> byte \<le> 0xDF then Some (2, byte AND 0x1F)
      else if byte \<ge> 0xE0 \<and> byte \<le> 0xEF then Some (3, byte AND 0x0F)
      else if byte \<ge> 0xF0 \<and> byte \<le> 0xF4 then Some (4, byte AND 0x07)
      else None)"

definition continuation_step :: "string \<Rightarrow> nat \<Rightarrow> nat \<Rightarrow> nat throws" where
  "continuation_step str index code_point =
     (let continuation = byte_of (str ! index) in
      if continuation AND 0xC0 \<noteq> 0x80 then Inl InvalidArgument
      else Inr (push_bit 6 code_point OR (continuation AND 0x3F)))"

definition code_point_ok :: "nat \<Rightarrow> nat \<Rightarrow> bool" where
  "code_point_ok len code_point \<longleftrightarrow>
     \<not> ((len = 3 \<and> code_point < 0x800) \<or> (len = 4 \<and> code_point < 0x10000) \<or> code_point > 0x10FFFF
        \<or> (code_point \<ge> 0xD800 \<and> code_point \<le> 0xDFFF))"

function check_utf8 :: "(char \<Rightarrow> bool) \<Rightarrow> string \<Rightarrow> unit throws" where
  "check_utf8 rejected str =
     (if str = [] then Inr ()
      else
        let byte = byte_of (hd str) in
        if rejected (hd str) then Inl InvalidArgument
        else if byte \<le> 0x7F then check_utf8 rejected (tl str)
        else
          (case lead_bits byte of
             None \<Rightarrow> Inl InvalidArgument
           | Some (len, code_point) \<Rightarrow>
               if len > length str then Inl InvalidArgument
               else
                 andThen (for_each [1..<len] (continuation_step str) code_point) (\<lambda>code_point.
                 if \<not> code_point_ok len code_point then Inl InvalidArgument
                 else check_utf8 rejected (drop len str))))"
  by pat_completeness auto
termination
  by (relation "measure (\<lambda>(_, str). length str)") (auto simp: lead_bits_def split: if_splits)

declare check_utf8.simps [simp del]

definition validate_utf8_and_line_endings :: "string \<Rightarrow> unit throws" where
  "validate_utf8_and_line_endings source = check_utf8 (\<lambda>c. c = carriage_return) source"

definition validate_message_content :: "string \<Rightarrow> unit throws" where
  "validate_message_content content = check_utf8 (\<lambda>_. False) content"

definition message_role_index :: "string \<Rightarrow> nat throws" where
  "message_role_index role =
     (if role = ''system'' then Inr 0
      else if role = ''user'' then Inr 1
      else if role = ''assistant'' then Inr 2
      else Inl InvalidArgument)"

section \<open>Splitting a template\<close>

function tag_end_loop :: "string \<Rightarrow> string \<Rightarrow> nat \<Rightarrow> char option \<Rightarrow> bool \<Rightarrow> nat throws" where
  "tag_end_loop source closing offset quote escaped =
     (if \<not> offset + 1 < length source then Inl InvalidArgument
      else
        let c = source ! offset in
        (case quote of
           Some q \<Rightarrow>
             if escaped then tag_end_loop source closing (offset + 1) quote False
             else if c = backslash then tag_end_loop source closing (offset + 1) quote True
             else if c = q then tag_end_loop source closing (offset + 1) None escaped
             else tag_end_loop source closing (offset + 1) quote escaped
         | None \<Rightarrow>
             if c = quote_char \<or> c = double_quote then tag_end_loop source closing (offset + 1) (Some c) escaped
             else if take (length closing) (drop offset source) = closing then Inr offset
             else tag_end_loop source closing (offset + 1) quote escaped))"
  by pat_completeness auto
termination
  by (relation "measure (\<lambda>(source, _, offset, _). length source - offset)") auto

declare tag_end_loop.simps [simp del]

definition find_tag_end :: "string \<Rightarrow> nat \<Rightarrow> string \<Rightarrow> nat throws" where
  "find_tag_end source begin_offset closing = tag_end_loop source closing begin_offset None False"

lemma tag_end_loop_bound: "tag_end_loop source closing offset quote escaped = Inr n \<Longrightarrow> offset \<le> n \<and> n < length source"
proof (induction source closing offset quote escaped rule: tag_end_loop.induct)
  case (1 source closing offset quote escaped)
  note step = 1(7) [unfolded tag_end_loop.simps [of source closing offset quote escaped]]
  then have "offset + 1 < length source" by (simp split: if_splits)
  with step 1(1-6) [OF _ refl] show ?case by (cases quote) (auto simp: Let_def split: if_splits dest: Suc_leD)
qed

text \<open>The tokens before the whitespace rules.\<close>

function tokenize_loop :: "string \<Rightarrow> nat \<Rightarrow> Token list \<Rightarrow> Token list throws" where
  "tokenize_loop source cursor tokens =
     (if \<not> cursor < length source then Inr tokens
      else
        (case str_find ''{'' (drop cursor source) of
           None \<Rightarrow> Inr (tokens @ [\<lparr>tok_kind = TextToken, tok_text = drop cursor source, tok_offset = cursor\<rparr>])
         | Some m \<Rightarrow>
             let op = cursor + m;
                 is_output = (op + 1 < length source \<and> source ! (op + 1) = CHR ''{'');
                 is_block = (op + 1 < length source \<and> source ! (op + 1) = CHR ''%'');
                 is_comment = (op + 1 < length source \<and> source ! (op + 1) = CHR ''#'')
             in
             if \<not> is_output \<and> \<not> is_block then
               if is_comment then Inl InvalidArgument
               else
                 let text_end = (case str_find ''{'' (drop (op + 1) source) of None \<Rightarrow> length source | Some k \<Rightarrow> op + 1 + k) in
                 tokenize_loop source text_end
                   (if text_end > cursor
                    then tokens @ [\<lparr>tok_kind = TextToken, tok_text = take (text_end - cursor) (drop cursor source), tok_offset = cursor\<rparr>]
                    else tokens)
             else
               let tokens = (if op > cursor
                    then tokens @ [\<lparr>tok_kind = TextToken, tok_text = take (op - cursor) (drop cursor source), tok_offset = cursor\<rparr>]
                    else tokens) in
               if op + 2 < length source \<and> source ! (op + 2) = CHR ''-'' then Inl InvalidArgument
               else
                 andThen (find_tag_end source (op + 2) (if is_output then ''}}'' else ''%}'')) (\<lambda>closed.
                 if closed > op + 2 \<and> source ! (closed - 1) = CHR ''-'' then Inl InvalidArgument
                 else tokenize_loop source (closed + 2)
                   (tokens @ [\<lparr>tok_kind = (if is_output then OutputToken else BlockToken),
                               tok_text = take (closed - (op + 2)) (drop (op + 2) source), tok_offset = op\<rparr>]))))"
  by pat_completeness auto
termination
proof (relation "measure (\<lambda>(source, cursor, _). length source - cursor)", goal_cases)
  case (2 source cursor tokens m op is_output is_block is_comment text_end)
  have "op + 1 \<le> length source" using str_find_bound [OF 2(2)] 2(1,3) by simp
  then have "cursor < text_end" using 2(3,9) by (auto split: option.splits)
  then show ?case using 2(1) by simp
next
  case (3 source cursor tokens m op is_output is_block is_comment tokens' closed)
  then have "op + 2 \<le> closed" using tag_end_loop_bound by (simp add: find_tag_end_def)
  then show ?case using 3(1,3) by simp
qed simp

declare tokenize_loop.simps [simp del]

text \<open>Spaces and tabs between the start of a line and a block are dropped.\<close>

definition strip_before_block :: "nat \<Rightarrow> Token list \<Rightarrow> Token list" where
  "strip_before_block index tokens =
     (if tok_kind (tokens ! index) \<noteq> BlockToken then tokens
      else if index > 0 \<and> tok_kind (tokens ! (index - 1)) = TextToken then
        let previous = tok_text (tokens ! (index - 1));
            line_break = str_rfind newline previous;
            line_start = (case line_break of None \<Rightarrow> 0 | Some n \<Rightarrow> n + 1);
            line_leading = ((line_break \<noteq> None \<or> tok_offset (tokens ! (index - 1)) = 0)
              \<and> list_all (\<lambda>c. c = CHR '' '' \<or> c = tabulator) (drop line_start previous))
        in if line_leading
           then tokens[index - 1 := (tokens ! (index - 1))
             \<lparr>tok_text := rev (dropWhile (\<lambda>c. c = CHR '' '' \<or> c = tabulator) (rev previous))\<rparr>]
           else tokens
      else tokens)"

text \<open>One line feed after a block is dropped.\<close>

definition trim_after_block :: "nat \<Rightarrow> Token list \<Rightarrow> Token list" where
  "trim_after_block index tokens =
     (if tok_kind (tokens ! index) \<noteq> BlockToken then tokens
      else if index + 1 < length tokens \<and> tok_kind (tokens ! (index + 1)) = TextToken
           \<and> tok_text (tokens ! (index + 1)) \<noteq> [] \<and> hd (tok_text (tokens ! (index + 1))) = newline
      then tokens[index + 1 := (tokens ! (index + 1))\<lparr>tok_text := tl (tok_text (tokens ! (index + 1)))\<rparr>]
      else tokens)"

definition tokenize_template :: "string \<Rightarrow> Token list throws" where
  "tokenize_template source =
     andThen (tokenize_loop source 0 []) (\<lambda>tokens.
     let tokens = fold strip_before_block [0..<length tokens] tokens in
     Inr (fold trim_after_block [0..<length tokens] tokens))"

section \<open>Expressions\<close>

definition skip_space :: "string \<Rightarrow> string" where
  "skip_space rest = dropWhile is_ascii_space rest"

definition read_word :: "string \<Rightarrow> (string \<times> string) throws" where
  "read_word rest =
     (let rest = skip_space rest in
      if rest = [] \<or> \<not> is_identifier_start (hd rest) then Inl InvalidArgument
      else Inr (hd rest # takeWhile is_identifier_continue (tl rest), dropWhile is_identifier_continue (tl rest)))"

definition expect_word :: "string \<Rightarrow> string \<Rightarrow> string throws" where
  "expect_word expected rest =
     andThen (read_word rest) (\<lambda>(word, rest). if word \<noteq> expected then Inl InvalidArgument else Inr rest)"

definition expect_character :: "char \<Rightarrow> string \<Rightarrow> string throws" where
  "expect_character expected rest =
     (let rest = skip_space rest in
      if rest = [] \<or> hd rest \<noteq> expected then Inl InvalidArgument else Inr (tl rest))"

definition unescape :: "char \<Rightarrow> char throws" where
  "unescape escaped =
     (if escaped = backslash then Inr backslash
      else if escaped = quote_char then Inr quote_char
      else if escaped = double_quote then Inr double_quote
      else if escaped = CHR ''n'' then Inr newline
      else if escaped = CHR ''r'' then Inr carriage_return
      else if escaped = CHR ''t'' then Inr tabulator
      else Inl InvalidArgument)"

fun parse_string_loop :: "char \<Rightarrow> string \<Rightarrow> string \<Rightarrow> (string \<times> string) throws" where
  "parse_string_loop quote [] text_so_far = Inl InvalidArgument"
| "parse_string_loop quote (current # rest) text_so_far =
     (if current = quote then Inr (text_so_far, rest)
      else if current = backslash then
        (case rest of
           [] \<Rightarrow> Inl InvalidArgument
         | escaped # rest \<Rightarrow> andThen (unescape escaped) (\<lambda>c. parse_string_loop quote rest (text_so_far @ [c])))
      else parse_string_loop quote rest (text_so_far @ [current]))"

definition parse_string :: "string \<Rightarrow> (string \<times> string) throws" where
  "parse_string rest =
     (let rest = skip_space rest in
      if rest = [] \<or> (hd rest \<noteq> quote_char \<and> hd rest \<noteq> double_quote) then Inl InvalidArgument
      else parse_string_loop (hd rest) (tl rest) [])"

definition parse_reference :: "string \<Rightarrow> (ReferenceKind \<times> string) throws" where
  "parse_reference rest =
     andThen (read_word rest) (\<lambda>(variable, rest).
     if variable \<noteq> ''message'' then Inl InvalidArgument
     else
       let rest = skip_space rest in
       andThen
         (if rest \<noteq> [] \<and> hd rest = CHR ''.'' then read_word (tl rest)
          else
            andThen (expect_character (CHR ''['') rest) (\<lambda>rest.
            andThen (parse_string rest) (\<lambda>(field, rest).
            andThen (expect_character (CHR '']'') rest) (\<lambda>rest. Inr (field, rest)))))
         (\<lambda>(field, rest).
           if field = ''role'' then Inr (RoleReference, rest)
           else if field = ''content'' then Inr (ContentReference, rest)
           else Inl InvalidArgument))"

definition expect_operator :: "string \<Rightarrow> string \<Rightarrow> string throws" where
  "expect_operator expected rest =
     (let rest = skip_space rest in
      if take (length expected) rest \<noteq> expected then Inl InvalidArgument else Inr (drop (length expected) rest))"

definition expect_end :: "string \<Rightarrow> unit throws" where
  "expect_end rest = (if skip_space rest \<noteq> [] then Inl InvalidArgument else Inr ())"

section \<open>Blocks\<close>

definition classify_block :: "Token \<Rightarrow> BlockKind" where
  "classify_block token =
     (if tok_kind token \<noteq> BlockToken then UnknownBlock
      else
        let rest = skip_space (tok_text token) in
        if rest = [] \<or> \<not> is_identifier_start (hd rest) then UnknownBlock
        else
          let keyword = hd rest # takeWhile is_identifier_continue (tl rest) in
          if keyword = ''for'' then ForOpen
          else if keyword = ''endfor'' then EndFor
          else if keyword = ''if'' then IfOpen
          else if keyword = ''elif'' then Elif
          else if keyword = ''else'' then ElseBlock
          else if keyword = ''endif'' then EndIf
          else UnknownBlock)"

definition require_whitespace_text :: "Token \<Rightarrow> unit throws" where
  "require_whitespace_text token =
     for_each (tok_text token) (\<lambda>c _. if \<not> is_ascii_space c then Inl InvalidArgument else Inr ()) ()"

text \<open>The same table as that of the messages' roles.\<close>

definition role_index :: "string \<Rightarrow> nat throws" where
  "role_index role =
     (if role = ''system'' then Inr 0
      else if role = ''user'' then Inr 1
      else if role = ''assistant'' then Inr 2
      else Inl InvalidArgument)"

definition parse_simple_block :: "Token \<Rightarrow> string \<Rightarrow> unit throws" where
  "parse_simple_block token keyword = andThen (expect_word keyword (tok_text token)) expect_end"

definition parse_for :: "Token \<Rightarrow> unit throws" where
  "parse_for token =
     andThen (expect_word ''for'' (tok_text token)) (\<lambda>rest.
     andThen (expect_word ''message'' rest) (\<lambda>rest.
     andThen (expect_word ''in'' rest) (\<lambda>rest.
     andThen (expect_word ''messages'' rest) expect_end)))"

definition parse_role_condition :: "Token \<Rightarrow> string throws" where
  "parse_role_condition token =
     andThen (read_word (tok_text token)) (\<lambda>(keyword, rest).
     if keyword \<noteq> ''if'' \<and> keyword \<noteq> ''elif'' then Inl InvalidArgument
     else
       andThen (parse_reference rest) (\<lambda>(reference, rest).
       if reference \<noteq> RoleReference then Inl InvalidArgument
       else
         andThen (expect_operator ''=='' rest) (\<lambda>rest.
         andThen (parse_string rest) (\<lambda>(role, rest).
         andThen (expect_end rest) (\<lambda>_.
         if role \<noteq> ''system'' \<and> role \<noteq> ''user'' \<and> role \<noteq> ''assistant'' then Inl InvalidArgument
         else Inr role)))))"

definition is_generation_condition :: "Token \<Rightarrow> bool throws" where
  "is_generation_condition token =
     andThen (read_word (tok_text token)) (\<lambda>(keyword, rest).
     if keyword \<noteq> ''if'' then Inr False
     else
       andThen (read_word rest) (\<lambda>(first, rest).
       if first \<noteq> ''loop'' then Inr False
       else
         andThen (expect_character (CHR ''.'') rest) (\<lambda>rest.
         andThen (expect_word ''last'' rest) (\<lambda>rest.
         andThen (expect_word ''and'' rest) (\<lambda>rest.
         andThen (expect_word ''add_generation_prompt'' rest) (\<lambda>rest.
         andThen (expect_end rest) (\<lambda>_. Inr True)))))))"

section \<open>Outputs\<close>

definition parse_term :: "string \<Rightarrow> (ExpressionTerm \<times> string) throws" where
  "parse_term rest =
     (let c = hd rest in
      if c = quote_char \<or> c = double_quote then
        andThen (parse_string rest) (\<lambda>(s, rest). Inr (Literal s, rest))
      else if c = CHR ''m'' then
        andThen (parse_reference rest) (\<lambda>(reference, rest).
        if reference \<noteq> ContentReference then Inl InvalidArgument else Inr (Content, rest))
      else
        andThen (read_word rest) (\<lambda>(word, rest). if word = ''eos_token'' then Inr (Eos, rest) else Inl InvalidArgument))"

lemma length_skip_space: "length (skip_space rest) \<le> length rest"
  by (simp add: skip_space_def length_dropWhile_le)

lemma read_word_length: "read_word rest = Inr (word, rest') \<Longrightarrow> length rest' < length rest"
proof -
  assume "read_word rest = Inr (word, rest')"
  then have "skip_space rest \<noteq> []" "rest' = dropWhile is_identifier_continue (tl (skip_space rest))"
    by (auto simp: read_word_def Let_def split: if_splits)
  then show ?thesis
    using length_skip_space [of rest] length_dropWhile_le [of is_identifier_continue "tl (skip_space rest)"]
    by (cases "skip_space rest") auto
qed

lemma expect_character_length: "expect_character c rest = Inr rest' \<Longrightarrow> length rest' < length rest"
  using length_skip_space [of rest] by (cases "skip_space rest") (auto simp: expect_character_def Let_def split: if_splits)

lemma parse_string_loop_length: "parse_string_loop quote rest s = Inr (s', rest') \<Longrightarrow> length rest' < length rest"
proof (induction quote rest s rule: parse_string_loop.induct)
  case (2 quote current rest s)
  then show ?case by (auto simp: andThen_Inr_iff split: if_splits list.splits) fastforce+
qed simp

lemma parse_string_length: "parse_string rest = Inr (s, rest') \<Longrightarrow> length rest' < length rest"
  using length_skip_space [of rest]
  by (cases "skip_space rest") (auto simp: parse_string_def Let_def split: if_splits dest!: parse_string_loop_length)

lemma parse_reference_length:
  assumes "parse_reference rest = Inr (reference, rest')"
  shows "length rest' < length rest"
proof -
  obtain variable r1 where r1: "read_word rest = Inr (variable, r1)"
    using assms by (auto simp: parse_reference_def andThen_Inr_iff)
  let ?r = "skip_space r1"
  obtain field where field: "(if ?r \<noteq> [] \<and> hd ?r = CHR ''.'' then read_word (tl ?r)
      else
        andThen (expect_character (CHR ''['') ?r) (\<lambda>rest.
        andThen (parse_string rest) (\<lambda>(field, rest).
        andThen (expect_character (CHR '']'') rest) (\<lambda>rest. Inr (field, rest))))) = Inr (field, rest')"
    using assms unfolding parse_reference_def Let_def by (auto simp: r1 andThen_Inr_iff split: if_splits)
  have "length rest' < length r1"
  proof (cases "?r \<noteq> [] \<and> hd ?r = CHR ''.''")
    case True
    then have "read_word (tl ?r) = Inr (field, rest')" using field by simp
    then have "length rest' < length (tl ?r)" by (rule read_word_length)
    then show ?thesis using length_skip_space [of r1] by simp
  next
    case False
    then obtain r2 r3 where "expect_character (CHR ''['') ?r = Inr r2" "parse_string r2 = Inr (field, r3)"
      "expect_character (CHR '']'') r3 = Inr rest'"
      using field unfolding if_not_P [OF False] by (auto simp: andThen_Inr_iff)
    then show ?thesis
      using length_skip_space [of r1] by (meson expect_character_length parse_string_length le_less_trans less_le_trans less_trans)
  qed
  with read_word_length [OF r1] show ?thesis by simp
qed

lemma parse_term_length: "parse_term rest = Inr (t, rest') \<Longrightarrow> length rest' < length rest"
  by (auto simp: parse_term_def Let_def andThen_Inr_iff split: if_splits
    dest: parse_string_length parse_reference_length read_word_length)

text \<open>The terms of an output, joined by \<open>+\<close>.\<close>

function parse_output_loop :: "string \<Rightarrow> ExpressionTerm list \<Rightarrow> ExpressionTerm list throws" where
  "parse_output_loop rest terms =
     (let rest = skip_space rest in
      if rest = [] then Inl InvalidArgument
      else
        andThen (parse_term rest) (\<lambda>(t, rest).
        if skip_space rest = [] then Inr (terms @ [t])
        else andThen (expect_character (CHR ''+'') rest) (\<lambda>rest. parse_output_loop rest (terms @ [t]))))"
  by pat_completeness auto
termination
proof (relation "measure (\<lambda>(rest, _). length rest)", goal_cases)
  case (2 rest terms rest1 p t rest2 rest3)
  then have "length rest3 < length rest2" "length rest2 < length rest1"
    by (auto dest: parse_term_length expect_character_length)
  then show ?case using length_skip_space [of rest] 2(1) by simp
qed simp

declare parse_output_loop.simps [simp del]

definition parse_output :: "Token \<Rightarrow> ExpressionTerm list throws" where
  "parse_output token = parse_output_loop (tok_text token) []"

definition parse_generation_output :: "Token \<Rightarrow> ExpressionTerm list throws" where
  "parse_generation_output token =
     andThen (parse_output token) (\<lambda>terms.
     andThen (for_each terms (\<lambda>t _. case t of Literal s \<Rightarrow> Inr () | _ \<Rightarrow> Inl InvalidArgument) ()) (\<lambda>_. Inr terms))"

section \<open>Branches\<close>

definition append_checked :: "Limits \<Rightarrow> string \<Rightarrow> string \<Rightarrow> string throws" where
  "append_checked limits target s =
     (if length s > string_max limits - length target then Inl InvalidArgument else Inr (target @ s))"

definition append_before :: "Limits \<Rightarrow> RoleAffix \<Rightarrow> string \<Rightarrow> RoleAffix throws" where
  "append_before limits affix s =
     andThen (append_checked limits (before_content affix) s) (\<lambda>str. Inr (affix\<lparr>before_content := str\<rparr>))"

definition append_after :: "Limits \<Rightarrow> RoleAffix \<Rightarrow> string \<Rightarrow> RoleAffix throws" where
  "append_after limits affix s =
     andThen (append_checked limits (after_content affix) s) (\<lambda>str. Inr (affix\<lparr>after_content := str\<rparr>))"

text \<open>The affix so far, and whether a content reference and an \<open>eos_token\<close> were seen.\<close>

fun compile_term :: "Limits \<Rightarrow> string \<Rightarrow> ExpressionTerm \<Rightarrow> RoleAffix \<times> bool \<times> bool \<Rightarrow> (RoleAffix \<times> bool \<times> bool) throws" where
  "compile_term limits eos_token (Literal s) (result, content_seen, eos_seen) =
     andThen (if content_seen then append_after limits result s else append_before limits result s)
       (\<lambda>result. Inr (result, content_seen, eos_seen))"
| "compile_term limits eos_token Content (result, content_seen, eos_seen) =
     (if content_seen \<or> eos_seen then Inl InvalidArgument else Inr (result, True, eos_seen))"
| "compile_term limits eos_token Eos (result, content_seen, eos_seen) =
     (if \<not> content_seen \<or> eos_seen then Inl InvalidArgument
      else andThen (append_after limits result eos_token) (\<lambda>result. Inr (result, content_seen, True)))"

definition compile_role_token ::
  "Limits \<Rightarrow> string \<Rightarrow> Token \<Rightarrow> bool \<times> RoleAffix \<times> bool \<times> bool \<Rightarrow> (bool \<times> RoleAffix \<times> bool \<times> bool) throws" where
  "compile_role_token limits eos_token token = (\<lambda>(output_seen, result, content_seen, eos_seen).
     if tok_kind token = TextToken then
       andThen (require_whitespace_text token) (\<lambda>_.
       andThen (if output_seen then append_after limits result (tok_text token) else append_before limits result (tok_text token))
         (\<lambda>result. Inr (output_seen, result, content_seen, eos_seen)))
     else if tok_kind token \<noteq> OutputToken \<or> output_seen then Inl InvalidArgument
     else
       andThen (parse_output token) (\<lambda>terms.
       andThen (for_each terms (compile_term limits eos_token) (result, content_seen, eos_seen))
         (\<lambda>(result, content_seen, eos_seen). Inr (True, result, content_seen, eos_seen))))"

definition empty_affix :: RoleAffix where
  "empty_affix = \<lparr>before_content = [], after_content = []\<rparr>"

definition compile_role_branch :: "Limits \<Rightarrow> string \<Rightarrow> Token list \<Rightarrow> RoleAffix throws" where
  "compile_role_branch limits eos_token branch =
     andThen (for_each branch (compile_role_token limits eos_token) (False, empty_affix, False, False))
       (\<lambda>(output_seen, result, content_seen, eos_seen).
         if \<not> output_seen then Inl InvalidArgument
         else if \<not> content_seen then Inl InvalidArgument
         else if \<not> eos_seen then Inl InvalidArgument
         else Inr result)"

definition compile_generation_token :: "Limits \<Rightarrow> Token \<Rightarrow> bool \<times> string \<Rightarrow> (bool \<times> string) throws" where
  "compile_generation_token limits token = (\<lambda>(output_seen, result).
     if tok_kind token = TextToken then
       andThen (require_whitespace_text token) (\<lambda>_.
       andThen (append_checked limits result (tok_text token)) (\<lambda>result. Inr (output_seen, result)))
     else if tok_kind token \<noteq> OutputToken \<or> output_seen then Inl InvalidArgument
     else
       andThen (parse_generation_output token) (\<lambda>terms.
       andThen (for_each terms (\<lambda>t result. case t of Literal s \<Rightarrow> append_checked limits result s | _ \<Rightarrow> append_checked limits result []) result)
         (\<lambda>result. Inr (True, result))))"

definition compile_generation_branch :: "Limits \<Rightarrow> Token list \<Rightarrow> string throws" where
  "compile_generation_branch limits branch =
     andThen (for_each branch (compile_generation_token limits) (False, []))
       (\<lambda>(output_seen, result). if \<not> output_seen then Inl InvalidArgument else Inr result)"

section \<open>Compilation\<close>

text \<open>The compiler's index is the rest of the tokens.\<close>

definition leading_text :: "Token list \<Rightarrow> Token list" where
  "leading_text tokens = takeWhile (\<lambda>t. tok_kind t = TextToken) tokens"

definition first_non_text :: "Token list \<Rightarrow> Token list" where
  "first_non_text tokens = dropWhile (\<lambda>t. tok_kind t = TextToken) tokens"

definition before_block :: "Token list \<Rightarrow> Token list" where
  "before_block tokens = takeWhile (\<lambda>t. tok_kind t \<noteq> BlockToken) tokens"

definition next_block :: "Token list \<Rightarrow> Token list" where
  "next_block tokens = dropWhile (\<lambda>t. tok_kind t \<noteq> BlockToken) tokens"

definition append_text_range :: "Limits \<Rightarrow> string \<Rightarrow> Token list \<Rightarrow> string throws" where
  "append_text_range limits destination tokens =
     for_each tokens (\<lambda>token destination.
       if tok_kind token \<noteq> TextToken then Inl InvalidArgument
       else andThen (require_whitespace_text token) (\<lambda>_. append_checked limits destination (tok_text token))) destination"

text \<open>A string longer than the library allows is \<open>std::length_error\<close>, a logic error.\<close>

definition prepend_loop_prefix :: "Limits \<Rightarrow> string \<Rightarrow> CompiledTemplate \<Rightarrow> CompiledTemplate throws" where
  "prepend_loop_prefix limits loop_prefix result =
     andThen
       (for_each (role_affixes result) (\<lambda>affix affixes.
          if length loop_prefix + length (before_content affix) > string_max limits then Inl LogicError
          else Inr (affixes @ [affix\<lparr>before_content := loop_prefix @ before_content affix\<rparr>])) [])
       (\<lambda>affixes. Inr (result\<lparr>role_affixes := affixes\<rparr>))"

lemma length_next_block: "next_block tokens = token # rest \<Longrightarrow> length rest < length tokens"
  using length_dropWhile_le [of "\<lambda>t. tok_kind t \<noteq> BlockToken" tokens] by (simp add: next_block_def)

function role_switch ::
  "Limits \<Rightarrow> string \<Rightarrow> Token list \<Rightarrow> nat \<Rightarrow> bool list \<Rightarrow> RoleAffix list \<Rightarrow> (nat \<times> bool list \<times> RoleAffix list \<times> Token list) throws" where
  "role_switch limits eos_token tokens branch_count seen_roles affixes =
     (case tokens of
        [] \<Rightarrow> Inl InvalidArgument
      | token # rest \<Rightarrow>
          if tok_kind token \<noteq> BlockToken then Inl InvalidArgument
          else if branch_count = 0 \<and> classify_block token \<noteq> IfOpen then Inl InvalidArgument
          else if branch_count \<noteq> 0 \<and> classify_block token \<noteq> Elif then Inl InvalidArgument
          else if branch_count \<ge> 3 then Inl InvalidArgument
          else
            andThen (parse_role_condition token) (\<lambda>role.
            andThen (role_index role) (\<lambda>role_slot.
            if seen_roles ! role_slot then Inl InvalidArgument
            else
              let seen_roles = seen_roles[role_slot := True]; branch_count = branch_count + 1 in
              andThen (compile_role_branch limits eos_token (before_block rest)) (\<lambda>affix.
              let affixes = affixes[role_slot := affix] in
              case next_block rest of
                [] \<Rightarrow> Inl InvalidArgument
              | closing # after_closing \<Rightarrow>
                  if classify_block closing = Elif then
                    if branch_count \<ge> 3 then Inl InvalidArgument
                    else role_switch limits eos_token (next_block rest) branch_count seen_roles affixes
                  else if classify_block closing = ElseBlock then Inl InvalidArgument
                  else if classify_block closing \<noteq> EndIf then Inl InvalidArgument
                  else andThen (parse_simple_block closing ''endif'') (\<lambda>_. Inr (branch_count, seen_roles, affixes, after_closing))))))"
  by pat_completeness auto
termination
  by (relation "measure (\<lambda>(_, _, tokens, _). length tokens)") (auto dest: length_next_block)

declare role_switch.simps [simp del]

text \<open>The generation branch behind its condition, up to its \<open>endif\<close>.\<close>

definition generation_branch :: "Limits \<Rightarrow> Token list \<Rightarrow> (string \<times> Token list) throws" where
  "generation_branch limits tokens =
     andThen (compile_generation_branch limits (before_block tokens)) (\<lambda>str.
     case next_block tokens of
       [] \<Rightarrow> Inl InvalidArgument
     | closing # rest \<Rightarrow>
         if classify_block closing \<noteq> EndIf then Inl InvalidArgument
         else andThen (parse_simple_block closing ''endif'') (\<lambda>_. Inr (str, rest)))"

definition opens_generation :: "Token list \<Rightarrow> bool throws" where
  "opens_generation tokens =
     (case tokens of
        [] \<Rightarrow> Inr False
      | token # _ \<Rightarrow> if classify_block token = IfOpen then is_generation_condition token else Inr False)"

definition compile_inside_loop :: "Limits \<Rightarrow> Token list \<Rightarrow> CompiledTemplate \<Rightarrow> (CompiledTemplate \<times> Token list) throws" where
  "compile_inside_loop limits tokens result =
     andThen (opens_generation (first_non_text tokens)) (\<lambda>inside.
     if inside then
       andThen (append_text_range limits (iteration_tail result) (leading_text tokens)) (\<lambda>iteration.
       andThen (generation_branch limits (tl (first_non_text tokens))) (\<lambda>(str, rest).
       Inr (result\<lparr>generation_inside_loop := True, iteration_tail := iteration, generation := str\<rparr>, rest)))
     else Inr (result, tokens))"

definition compile_endfor :: "Limits \<Rightarrow> Token list \<Rightarrow> CompiledTemplate \<Rightarrow> (CompiledTemplate \<times> Token list) throws" where
  "compile_endfor limits tokens result =
     (case first_non_text tokens of
        [] \<Rightarrow> Inl InvalidArgument
      | token # rest \<Rightarrow>
          if classify_block token \<noteq> EndFor then Inl InvalidArgument
          else
            andThen (parse_simple_block token ''endfor'') (\<lambda>_.
            if generation_inside_loop result then
              andThen (append_text_range limits (iteration_tail_after_generation result) (leading_text tokens)) (\<lambda>str.
              Inr (result\<lparr>iteration_tail_after_generation := str\<rparr>, rest))
            else
              andThen (append_text_range limits (iteration_tail result) (leading_text tokens)) (\<lambda>str.
              Inr (result\<lparr>iteration_tail := str\<rparr>, rest))))"

definition compile_suffix :: "Limits \<Rightarrow> string \<Rightarrow> Token list \<Rightarrow> CompiledTemplate \<Rightarrow> CompiledTemplate throws" where
  "compile_suffix limits loop_prefix tokens result =
     andThen (append_text_range limits (template_suffix result) tokens) (\<lambda>str.
     prepend_loop_prefix limits loop_prefix (result\<lparr>template_suffix := str\<rparr>))"

definition compile_after_loop :: "Limits \<Rightarrow> string \<Rightarrow> Token list \<Rightarrow> CompiledTemplate \<Rightarrow> CompiledTemplate throws" where
  "compile_after_loop limits loop_prefix tokens result =
     (if generation_inside_loop result then compile_suffix limits loop_prefix tokens result
      else
        (case first_non_text tokens of
           [] \<Rightarrow> compile_suffix limits loop_prefix tokens result
         | token # rest \<Rightarrow>
             if classify_block token \<noteq> IfOpen then Inl InvalidArgument
             else
               andThen (is_generation_condition token) (\<lambda>is_generation.
               if \<not> is_generation then Inl InvalidArgument
               else
                 andThen (append_text_range limits (post_loop result) (leading_text tokens)) (\<lambda>post.
                 andThen (generation_branch limits rest) (\<lambda>(str, rest).
                 compile_suffix limits loop_prefix rest (result\<lparr>post_loop := post, generation := str\<rparr>))))))"

definition empty_template :: CompiledTemplate where
  "empty_template = \<lparr>role_affixes = [empty_affix, empty_affix, empty_affix], generation = [], iteration_tail = [],
     iteration_tail_after_generation = [], generation_inside_loop = False, template_prefix = [], post_loop = [], template_suffix = []\<rparr>"

definition compile_tokens :: "Limits \<Rightarrow> string \<Rightarrow> Token list \<Rightarrow> CompiledTemplate throws" where
  "compile_tokens limits eos_token tokens =
     (case first_non_text tokens of
        [] \<Rightarrow> Inl InvalidArgument
      | for_token # rest \<Rightarrow>
          if classify_block for_token \<noteq> ForOpen then Inl InvalidArgument
          else
            andThen (append_text_range limits [] (leading_text tokens)) (\<lambda>prefix.
            andThen (parse_for for_token) (\<lambda>_.
            case first_non_text rest of
              [] \<Rightarrow> Inl InvalidArgument
            | role_token # _ \<Rightarrow>
                if classify_block role_token \<noteq> IfOpen then Inl InvalidArgument
                else
                  andThen (is_generation_condition role_token) (\<lambda>is_generation.
                  if is_generation then Inl InvalidArgument
                  else
                    andThen (append_text_range limits [] (leading_text rest)) (\<lambda>loop_prefix.
                    andThen (role_switch limits eos_token (first_non_text rest) 0 [False, False, False] (role_affixes empty_template))
                      (\<lambda>(branch_count, seen_roles, affixes, rest).
                    if branch_count \<noteq> 3 \<or> \<not> seen_roles ! 0 \<or> \<not> seen_roles ! 1 \<or> \<not> seen_roles ! 2 then Inl InvalidArgument
                    else
                      andThen (compile_inside_loop limits rest (empty_template\<lparr>template_prefix := prefix, role_affixes := affixes\<rparr>)) (\<lambda>(result, rest).
                      andThen (compile_endfor limits rest result) (\<lambda>(result, rest).
                      compile_after_loop limits loop_prefix rest result))))))))"

definition compile_template :: "Limits \<Rightarrow> string \<Rightarrow> string \<Rightarrow> CompiledTemplate throws" where
  "compile_template limits source eos_token =
     andThen (validate_utf8_and_line_endings source) (\<lambda>_.
     andThen (tokenize_template source) (compile_tokens limits eos_token))"

section \<open>Formatting\<close>

type_synonym message = "string \<times> string"

definition add_size :: "Limits \<Rightarrow> nat \<Rightarrow> nat \<Rightarrow> nat throws" where
  "add_size limits size_added output_size =
     (if size_added > string_max limits - output_size then Inl OverflowError else Inr (output_size + size_added))"

text \<open>The loops over the messages know the index and whether it is the last one.\<close>

definition size_message :: "Limits \<Rightarrow> CompiledTemplate \<Rightarrow> message list \<Rightarrow> bool \<Rightarrow> nat \<Rightarrow> nat \<Rightarrow> nat throws" where
  "size_message limits impl messages add_generation_prompt message_index output_size =
     andThen (message_role_index (fst (messages ! message_index))) (\<lambda>index.
     let affix = role_affixes impl ! index in
     andThen (add_size limits (length (before_content affix)) output_size) (\<lambda>output_size.
     andThen (add_size limits (length (snd (messages ! message_index))) output_size) (\<lambda>output_size.
     andThen (add_size limits (length (after_content affix)) output_size) (\<lambda>output_size.
     andThen (add_size limits (length (iteration_tail impl)) output_size) (\<lambda>output_size.
     andThen
       (if generation_inside_loop impl \<and> add_generation_prompt \<and> message_index + 1 = length messages
        then add_size limits (length (generation impl)) output_size else Inr output_size) (\<lambda>output_size.
     add_size limits (length (iteration_tail_after_generation impl)) output_size))))))"

definition output_message :: "CompiledTemplate \<Rightarrow> message list \<Rightarrow> bool \<Rightarrow> nat \<Rightarrow> string \<Rightarrow> string throws" where
  "output_message impl messages add_generation_prompt message_index output =
     andThen (message_role_index (fst (messages ! message_index))) (\<lambda>index.
     let affix = role_affixes impl ! index;
         output = output @ before_content affix @ snd (messages ! message_index) @ after_content affix @ iteration_tail impl;
         output = (if generation_inside_loop impl \<and> add_generation_prompt \<and> message_index + 1 = length messages
                   then output @ generation impl else output)
     in Inr (output @ iteration_tail_after_generation impl))"

definition chat_format :: "Limits \<Rightarrow> CompiledTemplate \<Rightarrow> message list \<Rightarrow> bool \<Rightarrow> string throws" where
  "chat_format limits impl messages add_generation_prompt =
     (if messages = [] then Inr []
      else
        andThen (add_size limits (length (template_prefix impl)) 0) (\<lambda>output_size.
        andThen (for_each [0..<length messages] (size_message limits impl messages add_generation_prompt) output_size) (\<lambda>output_size.
        andThen (add_size limits (length (post_loop impl)) output_size) (\<lambda>output_size.
        andThen
          (if add_generation_prompt \<and> \<not> generation_inside_loop impl
           then add_size limits (length (generation impl)) output_size else Inr output_size) (\<lambda>output_size.
        andThen (add_size limits (length (template_suffix impl)) output_size) (\<lambda>_.
        andThen (for_each messages (\<lambda>(role, content) _. validate_message_content content) ()) (\<lambda>_.
        andThen (for_each [0..<length messages] (output_message impl messages add_generation_prompt) (template_prefix impl)) (\<lambda>output.
        let output = output @ post_loop impl;
            output = (if add_generation_prompt \<and> \<not> generation_inside_loop impl then output @ generation impl else output)
        in Inr (output @ template_suffix impl)))))))))"

section \<open>Interpretation\<close>

text \<open>
  What a template means, without compilation: a tree of its blocks and an evaluation of the tree. The
  condition on the generation prompt may stand behind the loop, where the last message is over; there it
  asks for the prompt only.
\<close>

datatype condition = RoleIs string | LastAndGenerate

datatype template_node =
    TextNode string
  | OutputNode "ExpressionTerm list"
  | IfNode "(condition \<times> template_node list) list"
  | ForNode "template_node list"

record environment =
  env_role :: string
  env_content :: string
  env_last :: bool
  env_generate :: bool
  env_eos :: string

fun eval_term :: "environment \<Rightarrow> ExpressionTerm \<Rightarrow> string" where
  "eval_term env (Literal s) = s"
| "eval_term env Content = env_content env"
| "eval_term env Eos = env_eos env"

fun holds :: "environment \<Rightarrow> condition \<Rightarrow> bool" where
  "holds env (RoleIs role) = (env_role env = role)"
| "holds env LastAndGenerate = (env_last env \<and> env_generate env)"

definition message_env :: "environment \<Rightarrow> message list \<Rightarrow> nat \<Rightarrow> environment" where
  "message_env env messages k = env\<lparr>env_role := fst (messages ! k), env_content := snd (messages ! k), env_last := (k + 1 = length messages)\<rparr>"

fun eval_node :: "message list \<Rightarrow> environment \<Rightarrow> template_node \<Rightarrow> string"
and eval_nodes :: "message list \<Rightarrow> environment \<Rightarrow> template_node list \<Rightarrow> string"
and eval_arms :: "message list \<Rightarrow> environment \<Rightarrow> (condition \<times> template_node list) list \<Rightarrow> string" where
  "eval_node messages env (TextNode s) = s"
| "eval_node messages env (OutputNode terms) = concat (map (eval_term env) terms)"
| "eval_node messages env (IfNode arms) = eval_arms messages env arms"
| "eval_node messages env (ForNode body) =
     concat (map (\<lambda>k. eval_nodes messages (message_env env messages k) body) [0..<length messages])"
| "eval_nodes messages env [] = []"
| "eval_nodes messages env (n # ns) = eval_node messages env n @ eval_nodes messages env ns"
| "eval_arms messages env [] = []"
| "eval_arms messages env ((c, body) # arms) = (if holds env c then eval_nodes messages env body else eval_arms messages env arms)"

text \<open>The tree of a list of tokens.\<close>

inductive condition_of :: "Token \<Rightarrow> condition \<Rightarrow> bool" where
  "parse_role_condition token = Inr role \<Longrightarrow> condition_of token (RoleIs role)"
| "is_generation_condition token = Inr True \<Longrightarrow> condition_of token LastAndGenerate"

inductive template_nodes :: "Token list \<Rightarrow> template_node list \<Rightarrow> bool"
and template_arms :: "Token list \<Rightarrow> (condition \<times> template_node list) list \<Rightarrow> bool" where
  nodes_Nil: "template_nodes [] []"
| nodes_text: "tok_kind token = TextToken \<Longrightarrow> template_nodes tokens ns \<Longrightarrow> template_nodes (token # tokens) (TextNode (tok_text token) # ns)"
| nodes_output: "tok_kind token = OutputToken \<Longrightarrow> parse_output token = Inr terms \<Longrightarrow> template_nodes tokens ns \<Longrightarrow>
    template_nodes (token # tokens) (OutputNode terms # ns)"
| nodes_if: "classify_block token = IfOpen \<Longrightarrow> condition_of token c \<Longrightarrow> template_nodes body bs \<Longrightarrow> template_arms others arms \<Longrightarrow>
    template_nodes tokens ns \<Longrightarrow> template_nodes (token # body @ others @ tokens) (IfNode ((c, bs) # arms) # ns)"
| nodes_for: "classify_block token = ForOpen \<Longrightarrow> parse_for token = Inr () \<Longrightarrow> template_nodes body bs \<Longrightarrow>
    classify_block closing = EndFor \<Longrightarrow> parse_simple_block closing ''endfor'' = Inr () \<Longrightarrow> template_nodes tokens ns \<Longrightarrow>
    template_nodes (token # body @ closing # tokens) (ForNode bs # ns)"
| arms_end: "classify_block closing = EndIf \<Longrightarrow> parse_simple_block closing ''endif'' = Inr () \<Longrightarrow> template_arms [closing] []"
| arms_elif: "classify_block token = Elif \<Longrightarrow> condition_of token c \<Longrightarrow> template_nodes body bs \<Longrightarrow> template_arms others arms \<Longrightarrow>
    template_arms (token # body @ others) ((c, bs) # arms)"

lemma template_nodes_append:
  "template_nodes xs ns \<Longrightarrow> template_nodes ys ms \<Longrightarrow> template_nodes (xs @ ys) (ns @ ms)"
  "template_arms zs arms \<Longrightarrow> True"
proof (induction rule: template_nodes_template_arms.inducts)
  case (nodes_if token c body bs others arms tokens ns)
  then show ?case using template_nodes_template_arms.nodes_if [of token c body bs others arms "tokens @ ys" "ns @ ms"] by simp
next
  case (nodes_for token body bs closing tokens ns)
  then show ?case using template_nodes_template_arms.nodes_for [of token body bs closing "tokens @ ys" "ns @ ms"] by simp
qed (auto intro: template_nodes_template_arms.intros)

lemma eval_nodes_append: "eval_nodes messages env (ns @ ms) = eval_nodes messages env ns @ eval_nodes messages env ms"
  by (induction ns) simp_all

section \<open>Compiled pieces\<close>

lemma append_checked_Inr: "append_checked limits target s = Inr str \<Longrightarrow> str = target @ s"
  by (simp add: append_checked_def split: if_splits)

lemma append_before_Inr: "append_before limits affix s = Inr affix' \<Longrightarrow> affix' = affix\<lparr>before_content := before_content affix @ s\<rparr>"
  by (auto simp: append_before_def andThen_Inr_iff dest: append_checked_Inr)

lemma append_after_Inr: "append_after limits affix s = Inr affix' \<Longrightarrow> affix' = affix\<lparr>after_content := after_content affix @ s\<rparr>"
  by (auto simp: append_after_def andThen_Inr_iff dest: append_checked_Inr)

lemma text_range:
  assumes "append_text_range limits destination tokens = Inr str"
  shows "\<exists>ns. template_nodes tokens ns \<and> (\<forall>messages env. destination @ eval_nodes messages env ns = str)"
  using assms
proof (induction tokens arbitrary: destination)
  case Nil
  have "template_nodes [] []" by (rule nodes_Nil)
  moreover have "destination = str" using Nil by (simp add: append_text_range_def)
  ultimately show ?case by (intro exI [of _ "[]"]) simp
next
  case (Cons token tokens)
  have "tok_kind token = TextToken" and "append_text_range limits (destination @ tok_text token) tokens = Inr str"
    using Cons.prems by (auto simp: append_text_range_def andThen_Inr_iff split: if_splits dest!: append_checked_Inr)
  with Cons.IH obtain ns where ns: "template_nodes tokens ns"
    "\<forall>messages env. (destination @ tok_text token) @ eval_nodes messages env ns = str" by blast
  show ?case
    by (rule exI [of _ "TextNode (tok_text token) # ns"]) (use ns \<open>tok_kind token = TextToken\<close> in \<open>auto intro: nodes_text\<close>)
qed

text \<open>What a role branch has compiled so far, compared with what it outputs.\<close>

definition affix_value :: "RoleAffix \<Rightarrow> bool \<Rightarrow> string \<Rightarrow> string" where
  "affix_value affix content_seen content = before_content affix @ (if content_seen then content @ after_content affix else [])"

lemma compile_terms_value:
  assumes "for_each terms (compile_term limits eos_token) (affix, content_seen, eos_seen) = Inr (affix', content_seen', eos_seen')"
    and "content_seen \<or> after_content affix = []" and "env_eos env = eos_token"
  shows "affix_value affix' content_seen' (env_content env) = affix_value affix content_seen (env_content env) @ concat (map (eval_term env) terms)
     \<and> (content_seen' \<or> after_content affix' = [])"
  using assms(1,2)
proof (induction terms arbitrary: affix content_seen eos_seen)
  case Nil
  then show ?case by simp
next
  case (Cons t terms)
  obtain affix1 cs1 es1 where 1: "compile_term limits eos_token t (affix, content_seen, eos_seen) = Inr (affix1, cs1, es1)"
    and 2: "for_each terms (compile_term limits eos_token) (affix1, cs1, es1) = Inr (affix', content_seen', eos_seen')"
    using Cons.prems(1) by (auto simp: andThen_Inr_iff)
  have "affix_value affix1 cs1 (env_content env) = affix_value affix content_seen (env_content env) @ eval_term env t
     \<and> (cs1 \<or> after_content affix1 = [])"
    using 1 Cons.prems(2) assms(3)
    by (cases t) (auto simp: andThen_Inr_iff affix_value_def split: if_splits dest!: append_before_Inr append_after_Inr)
  with Cons.IH [OF 2] show ?case by simp
qed

definition branch_inv :: "bool \<Rightarrow> RoleAffix \<Rightarrow> bool \<Rightarrow> string \<Rightarrow> string \<Rightarrow> bool" where
  "branch_inv output_seen affix content_seen content out \<longleftrightarrow>
     (if content_seen then out = affix_value affix True content
      else \<not> output_seen \<longrightarrow> out = before_content affix \<and> after_content affix = [])"

lemma compile_role_tokens:
  assumes "for_each branch (compile_role_token limits eos_token) (output_seen, affix, content_seen, eos_seen)
      = Inr (output_seen', affix', content_seen', eos_seen')"
    and "content_seen \<longrightarrow> output_seen"
  shows "\<exists>ns. template_nodes branch ns \<and> (content_seen' \<longrightarrow> output_seen')
     \<and> (\<forall>messages env out. env_eos env = eos_token \<and> branch_inv output_seen affix content_seen (env_content env) out
         \<longrightarrow> branch_inv output_seen' affix' content_seen' (env_content env) (out @ eval_nodes messages env ns))"
  using assms
proof (induction branch arbitrary: output_seen affix content_seen eos_seen)
  case Nil
  then show ?case by (intro exI [of _ "[]"]) (auto intro: nodes_Nil)
next
  case (Cons token branch)
  obtain o1 affix1 cs1 es1 where 1: "compile_role_token limits eos_token token (output_seen, affix, content_seen, eos_seen) = Inr (o1, affix1, cs1, es1)"
    and 2: "for_each branch (compile_role_token limits eos_token) (o1, affix1, cs1, es1) = Inr (output_seen', affix', content_seen', eos_seen')"
    using Cons.prems(1) by (auto simp: andThen_Inr_iff)
  have "\<exists>n. template_nodes (token # tokens) (n # ns) \<and> (cs1 \<longrightarrow> o1)
      \<and> (\<forall>messages env out. env_eos env = eos_token \<and> branch_inv output_seen affix content_seen (env_content env) out
         \<longrightarrow> branch_inv o1 affix1 cs1 (env_content env) (out @ eval_node messages env n))"
    if "template_nodes tokens ns" for tokens ns
  proof (cases "tok_kind token = TextToken")
    case True
    have "branch_inv o1 affix1 cs1 content (out @ tok_text token)" "cs1 \<longrightarrow> o1"
      if "branch_inv output_seen affix content_seen content out" for content out
      using that 1 True Cons.prems(2)
      by (auto simp: compile_role_token_def andThen_Inr_iff branch_inv_def affix_value_def split: if_splits
          dest!: append_before_Inr append_after_Inr)
    moreover have "cs1 \<longrightarrow> o1" using 1 True Cons.prems(2) by (auto simp: compile_role_token_def andThen_Inr_iff)
    moreover have "template_nodes (token # tokens) (TextNode (tok_text token) # ns)" using True that by (rule nodes_text)
    ultimately show ?thesis by (intro exI [of _ "TextNode (tok_text token)"]) simp
  next
    case False
    then obtain terms where kind: "tok_kind token = OutputToken" "\<not> output_seen" and terms: "parse_output token = Inr terms"
      and loop: "for_each terms (compile_term limits eos_token) (affix, content_seen, eos_seen) = Inr (affix1, cs1, es1)" and "o1"
      using 1 by (auto simp: compile_role_token_def andThen_Inr_iff split: if_splits)
    have cs: "\<not> content_seen" using kind(2) Cons.prems(2) by blast
    have "branch_inv o1 affix1 cs1 (env_content env) (out @ concat (map (eval_term env) terms))"
      if "env_eos env = eos_token" "branch_inv output_seen affix content_seen (env_content env) out" for env out
    proof -
      have "out = before_content affix \<and> after_content affix = []" using that(2) cs kind(2) by (simp add: branch_inv_def)
      with compile_terms_value [OF loop _ that(1)] cs \<open>o1\<close> show ?thesis by (auto simp: branch_inv_def affix_value_def)
    qed
    moreover have "template_nodes (token # tokens) (OutputNode terms # ns)" using kind(1) terms that by (rule nodes_output)
    ultimately show ?thesis using \<open>o1\<close> by (intro exI [of _ "OutputNode terms"]) simp
  qed
  note step = this
  have "cs1 \<longrightarrow> o1" using step [OF nodes_Nil] by blast
  then obtain ns where ns: "template_nodes branch ns" "content_seen' \<longrightarrow> output_seen'"
    "\<forall>messages env out. env_eos env = eos_token \<and> branch_inv o1 affix1 cs1 (env_content env) out
         \<longrightarrow> branch_inv output_seen' affix' content_seen' (env_content env) (out @ eval_nodes messages env ns)"
    using Cons.IH [OF 2] by blast
  from step [OF ns(1)] obtain n where n: "template_nodes (token # branch) (n # ns)"
    "\<forall>messages env out. env_eos env = eos_token \<and> branch_inv output_seen affix content_seen (env_content env) out
         \<longrightarrow> branch_inv o1 affix1 cs1 (env_content env) (out @ eval_node messages env n)" by blast
  show ?case
    by (intro exI [of _ "n # ns"] conjI n(1) ns(2)) (use n(2) ns(3) in \<open>auto simp flip: append_assoc\<close>)
qed

lemma compile_role_branch_value:
  assumes "compile_role_branch limits eos_token branch = Inr affix"
  shows "\<exists>ns. template_nodes branch ns
     \<and> (\<forall>messages env. env_eos env = eos_token \<longrightarrow> eval_nodes messages env ns = before_content affix @ env_content env @ after_content affix)"
proof -
  obtain eos_seen where loop: "for_each branch (compile_role_token limits eos_token) (False, empty_affix, False, False) = Inr (True, affix, True, eos_seen)"
    using assms by (auto simp: compile_role_branch_def andThen_Inr_iff split: if_splits)
  from compile_role_tokens [OF this] obtain ns where ns: "template_nodes branch ns"
    "\<forall>messages env out. env_eos env = eos_token \<and> branch_inv False empty_affix False (env_content env) out
         \<longrightarrow> branch_inv True affix True (env_content env) (out @ eval_nodes messages env ns)" by blast
  have "branch_inv False empty_affix False content []" for content by (simp add: branch_inv_def empty_affix_def)
  with ns show ?thesis by (intro exI [of _ ns]) (auto simp: branch_inv_def affix_value_def)
qed

lemma split_at_block: "tokens = before_block tokens @ next_block tokens"
  by (simp add: before_block_def next_block_def)

lemma split_at_text: "tokens = leading_text tokens @ first_non_text tokens"
  by (simp add: leading_text_def first_non_text_def)

lemma role_index_less: "role_index role = Inr k \<Longrightarrow> k < 3"
  by (auto simp: role_index_def split: if_splits)

lemma role_index_inj: "role_index r = Inr k \<Longrightarrow> role_index s = Inr k \<Longrightarrow> r = s"
  by (auto simp: role_index_def split: if_splits)

lemma role_condition_index: "parse_role_condition token = Inr role \<Longrightarrow> \<exists>k. role_index role = Inr k"
  by (auto simp: parse_role_condition_def role_index_def andThen_Inr_iff split: if_splits)

text \<open>The arms of a switch give every role seen in it the value of its affix, and keep the other affixes.\<close>

definition arms_value ::
  "string \<Rightarrow> (condition \<times> template_node list) list \<Rightarrow> bool list \<Rightarrow> RoleAffix list \<Rightarrow> bool list \<Rightarrow> RoleAffix list \<Rightarrow> bool" where
  "arms_value eos_token arms seen affixes seen' affixes' \<longleftrightarrow>
     (\<forall>role k messages env. role_index role = Inr k \<longrightarrow> env_role env = role \<longrightarrow> env_eos env = eos_token \<longrightarrow>
        (seen ! k \<longrightarrow> seen' ! k \<and> affixes' ! k = affixes ! k)
        \<and> (\<not> seen ! k \<longrightarrow> seen' ! k \<longrightarrow>
             eval_arms messages env arms = before_content (affixes' ! k) @ env_content env @ after_content (affixes' ! k)))"

lemma arms_value_Cons:
  assumes k: "role_index role = Inr k" "\<not> seen ! k" and len: "length seen = 3" "length affixes = 3"
    and body: "\<forall>messages env. env_eos env = eos_token \<longrightarrow>
      eval_nodes messages env bs = before_content affix @ env_content env @ after_content affix"
    and others: "arms_value eos_token arms (seen[k := True]) (affixes[k := affix]) seen' affixes'"
  shows "arms_value eos_token ((RoleIs role, bs) # arms) seen affixes seen' affixes'"
  unfolding arms_value_def
proof (intro allI impI)
  fix r j messages and env :: environment
  assume r: "role_index r = Inr j" "env_role env = r" "env_eos env = eos_token"
  note rest = others [unfolded arms_value_def, rule_format, OF r, of messages]
  show "(seen ! j \<longrightarrow> seen' ! j \<and> affixes' ! j = affixes ! j) \<and>
      (\<not> seen ! j \<longrightarrow> seen' ! j \<longrightarrow>
        eval_arms messages env ((RoleIs role, bs) # arms) = before_content (affixes' ! j) @ env_content env @ after_content (affixes' ! j))"
  proof (cases "j = k")
    case True
    then have "r = role" using role_index_inj r(1) k(1) by simp
    moreover have "affixes' ! k = affix" using rest True role_index_less [OF k(1)] len by simp
    ultimately show ?thesis using True k(2) body r by simp
  next
    case False
    then have "r \<noteq> role" using r(1) k(1) by auto
    then show ?thesis using rest False r(2) by simp
  qed
qed

lemma role_switch_value:
  assumes "role_switch limits eos_token tokens branch_count seen affixes = Inr (count', seen', affixes', rest)"
    and "length seen = 3" "length affixes = 3"
  shows "\<exists>token body role bs others arms. tokens = token # body @ others @ rest
     \<and> classify_block token = (if branch_count = 0 then IfOpen else Elif) \<and> condition_of token (RoleIs role)
     \<and> template_nodes body bs \<and> template_arms others arms \<and> length affixes' = 3
     \<and> arms_value eos_token ((RoleIs role, bs) # arms) seen affixes seen' affixes'"
  using assms
proof (induction limits eos_token tokens branch_count seen affixes rule: role_switch.induct)
  case (1 limits eos_token tokens branch_count seen affixes)
  obtain token after where tokens: "tokens = token # after" using 1(2) by (cases tokens) (simp_all add: role_switch.simps)
  note step = 1(2) [unfolded tokens role_switch.simps [of limits eos_token "token # after" branch_count]]
  obtain role where kind: "classify_block token = (if branch_count = 0 then IfOpen else Elif)" "\<not> branch_count \<ge> 3" "tok_kind token = BlockToken"
    and role1: "parse_role_condition token = Inr role"
    using step by (auto simp: andThen_Inr_iff Let_def split: if_splits)
  obtain k where k: "role_index role = Inr k" using role_condition_index [OF role1] by blast
  have role: "parse_role_condition token = Inr role" "role_index role = Inr k" "\<not> seen ! k"
    using step role1 k kind by (auto simp: Let_def split: if_splits)
  obtain affix where affix: "compile_role_branch limits eos_token (before_block after) = Inr affix"
    using step role kind by (auto simp: andThen_Inr_iff Let_def split: if_splits)
  obtain closing after_closing where block: "next_block after = closing # after_closing"
    using step role kind affix by (cases "next_block after") (auto simp: Let_def split: if_splits)
  have cont: "(classify_block closing = Elif \<and> branch_count + 1 < 3
         \<and> role_switch limits eos_token (next_block after) (branch_count + 1) (seen[k := True]) (affixes[k := affix]) = Inr (count', seen', affixes', rest))
       \<or> (classify_block closing = EndIf \<and> parse_simple_block closing ''endif'' = Inr ()
         \<and> seen' = seen[k := True] \<and> affixes' = affixes[k := affix] \<and> rest = after_closing)"
    using step role kind affix block by (auto simp: andThen_Inr_iff Let_def split: if_splits)
  obtain bs where bs: "template_nodes (before_block after) bs"
    "\<forall>messages env. env_eos env = eos_token \<longrightarrow> eval_nodes messages env bs = before_content affix @ env_content env @ after_content affix"
    using compile_role_branch_value [OF affix] by blast
  have len: "length (seen[k := True]) = 3" "length (affixes[k := affix]) = 3" using 1(3,4) by simp_all
  note Cons = arms_value_Cons [OF role(2,3) 1(3,4) bs(2)]
  from cont show ?case
  proof
    assume c: "classify_block closing = Elif \<and> branch_count + 1 < 3
         \<and> role_switch limits eos_token (next_block after) (branch_count + 1) (seen[k := True]) (affixes[k := affix]) = Inr (count', seen', affixes', rest)"
    then obtain token2 body2 role2 bs2 others2 arms2 where ih: "next_block after = token2 # body2 @ others2 @ rest"
      "classify_block token2 = Elif" "condition_of token2 (RoleIs role2)" "template_nodes body2 bs2" "template_arms others2 arms2"
      "length affixes' = 3" "arms_value eos_token ((RoleIs role2, bs2) # arms2) (seen[k := True]) (affixes[k := affix]) seen' affixes'"
      using 1(1) [OF tokens _ _ _ _ role(1,2,3) refl refl affix refl block _ _ _ len] kind by (auto split: if_splits)
    have "template_arms (token2 # body2 @ others2) ((RoleIs role2, bs2) # arms2)" using ih(2-5) by (rule arms_elif)
    moreover have "tokens = token # before_block after @ (token2 # body2 @ others2) @ rest"
      using tokens split_at_block [of after] ih(1) by simp
    ultimately show ?thesis
      using kind(1) condition_of.intros(1) [OF role(1)] bs(1) ih(6) Cons [OF ih(7)] by blast
  next
    assume c: "classify_block closing = EndIf \<and> parse_simple_block closing ''endif'' = Inr ()
         \<and> seen' = seen[k := True] \<and> affixes' = affixes[k := affix] \<and> rest = after_closing"
    then have "template_arms [closing] []" by (blast intro: arms_end)
    moreover have "tokens = token # before_block after @ [closing] @ rest"
      using tokens split_at_block [of after] block c by simp
    moreover have "arms_value eos_token [] (seen[k := True]) (affixes[k := affix]) seen' affixes'"
      using c by (simp add: arms_value_def)
    ultimately show ?thesis
      using kind(1) condition_of.intros(1) [OF role(1)] bs(1) c 1(4) Cons by (metis length_list_update)
  qed
qed

lemma generation_literals:
  assumes "parse_generation_output token = Inr terms"
    and "for_each terms (\<lambda>t result. case t of Literal s \<Rightarrow> append_checked limits result s | _ \<Rightarrow> append_checked limits result []) result
      = Inr result'"
  shows "parse_output token = Inr terms \<and> (\<forall>env. result @ concat (map (eval_term env) terms) = result')"
proof -
  have terms: "parse_output token = Inr terms"
    and lits: "for_each terms (\<lambda>t _. case t of Literal s \<Rightarrow> Inr () | _ \<Rightarrow> Inl InvalidArgument) () = Inr ()"
    using assms(1) by (auto simp: parse_generation_output_def andThen_Inr_iff)
  have "result @ concat (map (eval_term env) terms) = result'" for env
    using lits assms(2)
  proof (induction terms arbitrary: result)
    case (Cons t terms)
    then obtain s where t: "t = Literal s" by (cases t) auto
    obtain r where "append_checked limits result s = Inr r"
      and rest: "for_each terms (\<lambda>t result. case t of Literal s \<Rightarrow> append_checked limits result s | _ \<Rightarrow> append_checked limits result []) r = Inr result'"
      using Cons.prems(2) t by (auto simp: andThen_Inr_iff)
    then have "r = result @ s" by (blast dest: append_checked_Inr)
    with Cons.IH [OF _ rest] Cons.prems(1) t show ?case by simp
  qed simp
  with terms show ?thesis by blast
qed

lemma compile_generation_tokens:
  assumes "for_each branch (compile_generation_token limits) (output_seen, result) = Inr (output_seen', result')"
  shows "\<exists>ns. template_nodes branch ns \<and> (\<forall>messages env. result @ eval_nodes messages env ns = result')"
  using assms
proof (induction branch arbitrary: output_seen result)
  case Nil
  then show ?case by (intro exI [of _ "[]"]) (auto intro: nodes_Nil)
next
  case (Cons token branch)
  obtain o1 r1 where 1: "compile_generation_token limits token (output_seen, result) = Inr (o1, r1)"
    and 2: "for_each branch (compile_generation_token limits) (o1, r1) = Inr (output_seen', result')"
    using Cons.prems by (auto simp: andThen_Inr_iff)
  obtain ns where ns: "template_nodes branch ns" "\<forall>messages env. r1 @ eval_nodes messages env ns = result'"
    using Cons.IH [OF 2] by blast
  show ?case
  proof (cases "tok_kind token = TextToken")
    case True
    then have "r1 = result @ tok_text token"
      using 1 by (auto simp: compile_generation_token_def andThen_Inr_iff dest: append_checked_Inr)
    then show ?thesis
      using ns nodes_text [OF True ns(1)] by (intro exI [of _ "TextNode (tok_text token) # ns"]) simp
  next
    case False
    then obtain terms where "tok_kind token = OutputToken" and terms: "parse_generation_output token = Inr terms"
      and loop: "for_each terms (\<lambda>t result. case t of Literal s \<Rightarrow> append_checked limits result s | _ \<Rightarrow> append_checked limits result []) result = Inr r1"
      using 1 by (auto simp: compile_generation_token_def andThen_Inr_iff split: if_splits)
    moreover note generation_literals [OF terms loop]
    ultimately show ?thesis
      using ns nodes_output [of token terms branch ns]
      by (intro exI [of _ "OutputNode terms # ns"]) (simp flip: append_assoc)
  qed
qed

lemma generation_branch_value:
  assumes "generation_branch limits tokens = Inr (str, rest)"
  shows "\<exists>body bs closing. tokens = body @ closing # rest \<and> template_nodes body bs \<and> template_arms [closing] []
     \<and> (\<forall>messages env. eval_nodes messages env bs = str)"
proof -
  have branch: "compile_generation_branch limits (before_block tokens) = Inr str"
    using assms by (cases "next_block tokens") (auto simp: generation_branch_def andThen_Inr_iff split: if_splits)
  obtain closing where block: "next_block tokens = closing # rest" and "template_arms [closing] []"
    using assms branch by (cases "next_block tokens") (auto simp: generation_branch_def andThen_Inr_iff intro: arms_end split: if_splits)
  moreover obtain bs where "template_nodes (before_block tokens) bs" "\<forall>messages env. [] @ eval_nodes messages env bs = str"
    using branch compile_generation_tokens [of "before_block tokens" limits False "[]"]
    by (auto simp: compile_generation_branch_def andThen_Inr_iff split: if_splits)
  ultimately show ?thesis using split_at_block [of tokens] by auto
qed

text \<open>The condition, the branch and its \<open>endif\<close>.\<close>

lemma generation_block:
  assumes "classify_block token = IfOpen" "is_generation_condition token = Inr True" "generation_branch limits tokens = Inr (str, rest)"
  shows "\<exists>consumed n. token # tokens = consumed @ rest \<and> template_nodes consumed [n]
     \<and> (\<forall>messages env. eval_node messages env n = (if env_last env \<and> env_generate env then str else []))"
proof -
  obtain body bs closing where g: "tokens = body @ closing # rest" "template_nodes body bs" "template_arms [closing] []"
    "\<forall>messages env. eval_nodes messages env bs = str" using generation_branch_value [OF assms(3)] by blast
  have "template_nodes (token # body @ [closing] @ []) [IfNode [(LastAndGenerate, bs)]]"
    using nodes_if [OF assms(1) condition_of.intros(2) [OF assms(2)] g(2,3) nodes_Nil] by simp
  then show ?thesis
    using g by (intro exI [of _ "token # body @ [closing]"] exI [of _ "IfNode [(LastAndGenerate, bs)]"]) simp
qed

lemma inside_loop_value:
  assumes "compile_inside_loop limits tokens result = Inr (result', rest)"
    and "iteration_tail result = []" "\<not> generation_inside_loop result"
  shows "\<exists>consumed ns inside str tail_str. tokens = consumed @ rest \<and> template_nodes consumed ns
     \<and> (result' = (if inside then result\<lparr>generation_inside_loop := True, iteration_tail := tail_str, generation := str\<rparr> else result))
     \<and> (\<forall>messages env. eval_nodes messages env ns = (if inside then tail_str @ (if env_last env \<and> env_generate env then str else []) else []))"
proof (cases "opens_generation (first_non_text tokens) = Inr True")
  case False
  then have "result' = result" "rest = tokens" using assms(1) by (auto simp: compile_inside_loop_def andThen_Inr_iff split: if_splits)
  then show ?thesis by (intro exI [of _ "[]"] exI [of _ False]) (simp add: nodes_Nil)
next
  case True
  then obtain token others where first: "first_non_text tokens = token # others" "classify_block token = IfOpen"
    "is_generation_condition token = Inr True"
    by (auto simp: opens_generation_def split: list.splits if_splits)
  obtain tail_str str where r: "append_text_range limits [] (leading_text tokens) = Inr tail_str"
    "generation_branch limits others = Inr (str, rest)"
    "result' = result\<lparr>generation_inside_loop := True, iteration_tail := tail_str, generation := str\<rparr>"
    using assms True first(1) by (auto simp: compile_inside_loop_def andThen_Inr_iff)
  obtain ns where ns: "template_nodes (leading_text tokens) ns" "\<forall>messages env. [] @ eval_nodes messages env ns = tail_str"
    using text_range [OF r(1)] by blast
  obtain consumed n where g: "token # others = consumed @ rest" "template_nodes consumed [n]"
    "\<forall>messages env. eval_node messages env n = (if env_last env \<and> env_generate env then str else [])"
    using generation_block [OF first(2,3) r(2)] by blast
  have "tokens = (leading_text tokens @ consumed) @ rest" using split_at_text [of tokens] first(1) g(1) by simp
  moreover have "template_nodes (leading_text tokens @ consumed) (ns @ [n])" using template_nodes_append(1) ns(1) g(2) by blast
  ultimately show ?thesis
    using r(3) ns(2) g(3)
    by (intro exI [of _ "leading_text tokens @ consumed"] exI [of _ "ns @ [n]"] exI [of _ True] exI [of _ str] exI [of _ tail_str])
      (simp add: eval_nodes_append)
qed

lemma endfor_value:
  assumes "compile_endfor limits tokens result = Inr (result', rest)"
    and "iteration_tail_after_generation result = []" "\<not> generation_inside_loop result \<longrightarrow> iteration_tail result = []"
  shows "\<exists>consumed ns closing str. tokens = consumed @ closing # rest \<and> template_nodes consumed ns
     \<and> classify_block closing = EndFor \<and> parse_simple_block closing ''endfor'' = Inr ()
     \<and> result' = (if generation_inside_loop result then result\<lparr>iteration_tail_after_generation := str\<rparr> else result\<lparr>iteration_tail := str\<rparr>)
     \<and> (\<forall>messages env. eval_nodes messages env ns = str)"
proof -
  obtain closing where first: "first_non_text tokens = closing # rest"
    and closing: "classify_block closing = EndFor" "parse_simple_block closing ''endfor'' = Inr ()"
    using assms(1) by (cases "first_non_text tokens") (auto simp: compile_endfor_def andThen_Inr_iff split: if_splits)
  obtain str where range: "append_text_range limits [] (leading_text tokens) = Inr str"
    and "result' = (if generation_inside_loop result then result\<lparr>iteration_tail_after_generation := str\<rparr> else result\<lparr>iteration_tail := str\<rparr>)"
    using assms first closing by (auto simp: compile_endfor_def andThen_Inr_iff split: if_splits)
  moreover obtain ns where "template_nodes (leading_text tokens) ns" "\<forall>messages env. [] @ eval_nodes messages env ns = str"
    using text_range [OF range] by blast
  ultimately show ?thesis
    using split_at_text [of tokens] first closing
    by (intro exI [of _ "leading_text tokens"] exI [of _ ns] exI [of _ closing] exI [of _ str]) simp
qed

lemma prefixed_affixes:
  assumes "for_each affixes (\<lambda>affix affixes.
          if length loop_prefix + length (before_content affix) > string_max limits then Inl LogicError
          else Inr (affixes @ [affix\<lparr>before_content := loop_prefix @ before_content affix\<rparr>])) acc = Inr affixes'"
  shows "affixes' = acc @ map (\<lambda>affix. affix\<lparr>before_content := loop_prefix @ before_content affix\<rparr>) affixes"
  using assms
proof (induction affixes arbitrary: acc)
  case (Cons affix affixes)
  show ?case
    using Cons.prems Cons.IH [of "acc @ [affix\<lparr>before_content := loop_prefix @ before_content affix\<rparr>]"] by (simp split: if_splits)
qed simp

lemma suffix_value:
  assumes "compile_suffix limits loop_prefix tokens result = Inr result'" and "template_suffix result = []"
  shows "\<exists>ns str. template_nodes tokens ns \<and> (\<forall>messages env. eval_nodes messages env ns = str)
     \<and> result' = result\<lparr>template_suffix := str,
          role_affixes := map (\<lambda>affix. affix\<lparr>before_content := loop_prefix @ before_content affix\<rparr>) (role_affixes result)\<rparr>"
proof -
  obtain str where str: "append_text_range limits [] tokens = Inr str"
    "result' = result\<lparr>template_suffix := str,
          role_affixes := map (\<lambda>affix. affix\<lparr>before_content := loop_prefix @ before_content affix\<rparr>) (role_affixes result)\<rparr>"
    using assms by (auto simp: compile_suffix_def prepend_loop_prefix_def andThen_Inr_iff dest!: prefixed_affixes)
  with text_range [OF str(1)] show ?thesis by auto
qed

lemma after_loop_value:
  assumes "compile_after_loop limits loop_prefix tokens result = Inr result'" and "template_suffix result = []" "post_loop result = []"
    and "\<not> generation_inside_loop result \<longrightarrow> generation result = []"
  shows "\<exists>ns post gen suffix. template_nodes tokens ns \<and> (generation_inside_loop result \<longrightarrow> gen = generation result)
     \<and> result' = result\<lparr>post_loop := post, generation := gen, template_suffix := suffix,
          role_affixes := map (\<lambda>affix. affix\<lparr>before_content := loop_prefix @ before_content affix\<rparr>) (role_affixes result)\<rparr>
     \<and> (\<forall>messages env. env_last env \<longrightarrow> eval_nodes messages env ns =
          post @ (if \<not> generation_inside_loop result \<and> env_generate env then gen else []) @ suffix)"
proof (cases "generation_inside_loop result \<or> first_non_text tokens = []")
  case True
  then have "compile_suffix limits loop_prefix tokens result = Inr result'"
    using assms(1) by (auto simp: compile_after_loop_def split: if_splits)
  from suffix_value [OF this assms(2)] obtain ns str where v: "template_nodes tokens ns" "\<forall>messages env. eval_nodes messages env ns = str"
    "result' = result\<lparr>template_suffix := str,
          role_affixes := map (\<lambda>affix. affix\<lparr>before_content := loop_prefix @ before_content affix\<rparr>) (role_affixes result)\<rparr>" by blast
  then show ?thesis
    using assms(3,4)
    by (intro exI [of _ ns] exI [of _ "[]"] exI [of _ "generation result"] exI [of _ str]) (cases result, auto)
next
  case False
  then obtain token others where first: "first_non_text tokens = token # others" by (cases "first_non_text tokens") auto
  obtain post gen rest where t: "classify_block token = IfOpen" "is_generation_condition token = Inr True"
    and range: "append_text_range limits [] (leading_text tokens) = Inr post" and g: "generation_branch limits others = Inr (gen, rest)"
    and suffix: "compile_suffix limits loop_prefix rest (result\<lparr>post_loop := post, generation := gen\<rparr>) = Inr result'"
    using assms(1,3) False first by (auto simp: compile_after_loop_def andThen_Inr_iff split: if_splits)
  obtain ns where ns: "template_nodes (leading_text tokens) ns" "\<forall>messages env. [] @ eval_nodes messages env ns = post"
    using text_range [OF range] by blast
  obtain consumed n where c: "token # others = consumed @ rest" "template_nodes consumed [n]"
    "\<forall>messages env. eval_node messages env n = (if env_last env \<and> env_generate env then gen else [])"
    using generation_block [OF t g] by blast
  obtain ms str where ms: "template_nodes rest ms" "\<forall>messages env. eval_nodes messages env ms = str"
    "result' = result\<lparr>post_loop := post, generation := gen, template_suffix := str,
          role_affixes := map (\<lambda>affix. affix\<lparr>before_content := loop_prefix @ before_content affix\<rparr>) (role_affixes result)\<rparr>"
    using suffix_value [OF suffix] assms(2) by auto
  have "tokens = leading_text tokens @ consumed @ rest" using split_at_text [of tokens] first c(1) by simp
  then have "template_nodes tokens (ns @ [n] @ ms)" using template_nodes_append(1) ns(1) c(2) ms(1) by metis
  then show ?thesis
    using ns(2) c(3) ms(2,3) False
    by (intro exI [of _ "ns @ [n] @ ms"] exI [of _ post] exI [of _ gen] exI [of _ str]) (simp add: eval_nodes_append)
qed

text \<open>What formatting with a compiled template outputs.\<close>

definition role_slot :: "string \<Rightarrow> nat" where
  "role_slot role = (case role_index role of Inr k \<Rightarrow> k | Inl _ \<Rightarrow> 0)"

definition message_text :: "CompiledTemplate \<Rightarrow> message list \<Rightarrow> bool \<Rightarrow> nat \<Rightarrow> string" where
  "message_text c messages add_generation_prompt k =
     (let affix = role_affixes c ! role_slot (fst (messages ! k)) in
      before_content affix @ snd (messages ! k) @ after_content affix @ iteration_tail c
      @ (if generation_inside_loop c \<and> add_generation_prompt \<and> k + 1 = length messages then generation c else [])
      @ iteration_tail_after_generation c)"

definition chat_text :: "CompiledTemplate \<Rightarrow> message list \<Rightarrow> bool \<Rightarrow> string" where
  "chat_text c messages add_generation_prompt =
     template_prefix c @ concat (map (message_text c messages add_generation_prompt) [0..<length messages]) @ post_loop c
     @ (if add_generation_prompt \<and> \<not> generation_inside_loop c then generation c else []) @ template_suffix c"

definition supported_role :: "string \<Rightarrow> bool" where
  "supported_role role \<longleftrightarrow> role \<in> {''system'', ''user'', ''assistant''}"

lemma supported_role_index: "supported_role role \<Longrightarrow> role_index role = Inr (role_slot role) \<and> role_slot role < 3"
  by (auto simp: supported_role_def role_slot_def role_index_def)

lemma compile_tokens_value:
  assumes "compile_tokens limits eos_token tokens = Inr c" and roles: "\<forall>(role, content) \<in> set messages. supported_role role"
    and env: "env_eos env = eos_token" "env_last env"
  shows "\<exists>ns. template_nodes tokens ns \<and> eval_nodes messages env ns = chat_text c messages (env_generate env)"
proof -
  obtain for_token rest1 where first: "first_non_text tokens = for_token # rest1" "classify_block for_token = ForOpen"
    using assms(1) by (cases "first_non_text tokens") (auto simp: compile_tokens_def split: if_splits)
  obtain role_token others where second: "first_non_text rest1 = role_token # others"
    using assms(1) first by (cases "first_non_text rest1") (auto simp: compile_tokens_def andThen_Inr_iff split: if_splits)
  obtain prefix loop_prefix seen affixes rest2 r3 rest3 r4 rest4 where
    range1: "append_text_range limits [] (leading_text tokens) = Inr prefix" and for_ok: "parse_for for_token = Inr ()"
    and range2: "append_text_range limits [] (leading_text rest1) = Inr loop_prefix"
    and switch: "role_switch limits eos_token (first_non_text rest1) 0 [False, False, False] (role_affixes empty_template) = Inr (3, seen, affixes, rest2)"
    and all_seen: "seen ! 0" "seen ! 1" "seen ! 2"
    and inside: "compile_inside_loop limits rest2 (empty_template\<lparr>template_prefix := prefix, role_affixes := affixes\<rparr>) = Inr (r3, rest3)"
    and endfor: "compile_endfor limits rest3 r3 = Inr (r4, rest4)" and after: "compile_after_loop limits loop_prefix rest4 r4 = Inr c"
    using assms(1) first second by (auto simp: compile_tokens_def andThen_Inr_iff split: if_splits)
  obtain ns1 where ns1: "template_nodes (leading_text tokens) ns1" "\<forall>messages env. [] @ eval_nodes messages env ns1 = prefix"
    using text_range [OF range1] by blast
  obtain ns2 where ns2: "template_nodes (leading_text rest1) ns2" "\<forall>messages env. [] @ eval_nodes messages env ns2 = loop_prefix"
    using text_range [OF range2] by blast
  obtain token body role bs others' arms where sw: "first_non_text rest1 = token # body @ others' @ rest2"
     "classify_block token = IfOpen" "condition_of token (RoleIs role)" "template_nodes body bs" "template_arms others' arms"
     "length affixes = 3" "arms_value eos_token ((RoleIs role, bs) # arms) [False, False, False] (role_affixes empty_template) seen affixes"
    using role_switch_value [OF switch] by (auto simp: empty_template_def)
  have if_node: "template_nodes (token # body @ others') [IfNode ((RoleIs role, bs) # arms)]"
    using nodes_if [OF sw(2-5) nodes_Nil] by simp
  obtain toks3 ns3 ins str tail_str where in3: "rest2 = toks3 @ rest3" "template_nodes toks3 ns3"
    "r3 = (if ins then empty_template\<lparr>template_prefix := prefix, role_affixes := affixes, generation_inside_loop := True,
       iteration_tail := tail_str, generation := str\<rparr> else empty_template\<lparr>template_prefix := prefix, role_affixes := affixes\<rparr>)"
    "\<forall>messages env. eval_nodes messages env ns3 = (if ins then tail_str @ (if env_last env \<and> env_generate env then str else []) else [])"
    using inside_loop_value [OF inside] by (auto simp: empty_template_def)
  obtain toks4 ns4 closing str4 where in4: "rest3 = toks4 @ closing # rest4" "template_nodes toks4 ns4"
    "classify_block closing = EndFor" "parse_simple_block closing ''endfor'' = Inr ()"
    "r4 = (if ins then r3\<lparr>iteration_tail_after_generation := str4\<rparr> else r3\<lparr>iteration_tail := str4\<rparr>)"
    "\<forall>messages env. eval_nodes messages env ns4 = str4"
    using endfor_value [OF endfor] in3(3) by (auto simp: empty_template_def split: if_splits)
  have "template_suffix r4 = []" "post_loop r4 = []" "\<not> generation_inside_loop r4 \<longrightarrow> generation r4 = []"
    and r4: "generation_inside_loop r4 = ins" "ins \<longrightarrow> generation r4 = str"
    using in3(3) in4(5) by (simp_all add: empty_template_def)
  from after_loop_value [OF after this(1-3), unfolded r4(1)]
  obtain ns5 post gen suffix where in5: "template_nodes rest4 ns5"
    "c = r4\<lparr>post_loop := post, generation := gen, template_suffix := suffix,
          role_affixes := map (\<lambda>affix. affix\<lparr>before_content := loop_prefix @ before_content affix\<rparr>) (role_affixes r4)\<rparr>"
    "\<forall>messages env. env_last env \<longrightarrow> eval_nodes messages env ns5 =
          post @ (if \<not> ins \<and> env_generate env then gen else []) @ suffix"
    and gen0: "ins \<longrightarrow> gen = generation r4"
    by blast
  have gen: "ins \<longrightarrow> gen = str" using gen0 r4(2) by simp
  let ?body = "ns2 @ [IfNode ((RoleIs role, bs) # arms)] @ ns3 @ ns4"
  let ?nodes = "ns1 @ [ForNode ?body] @ ns5"
  have body_nodes: "template_nodes (leading_text rest1 @ (token # body @ others') @ toks3 @ toks4) ?body"
    by (intro template_nodes_append(1) ns2(1) if_node in3(2) in4(2))
  have "tokens = leading_text tokens @ (for_token # (leading_text rest1 @ (token # body @ others') @ toks3 @ toks4) @ closing # []) @ rest4"
    using split_at_text [of tokens] split_at_text [of rest1] first(1) sw(1) in3(1) in4(1) by simp
  moreover have "template_nodes (for_token # (leading_text rest1 @ (token # body @ others') @ toks3 @ toks4) @ closing # []) [ForNode ?body]"
    by (rule nodes_for [OF first(2) for_ok body_nodes in4(3,4) nodes_Nil])
  ultimately have nodes: "template_nodes tokens ?nodes" using template_nodes_append(1) ns1(1) in5(1) by metis
  have message: "eval_nodes messages (message_env env messages k) ?body = message_text c messages (env_generate env) k"
    if "k < length messages" for k
  proof -
    let ?env = "message_env env messages k" and ?role = "fst (messages ! k)"
    have "supported_role ?role" using roles nth_mem [OF that] by (cases "messages ! k") auto
    then have slot: "role_index ?role = Inr (role_slot ?role)" "role_slot ?role < 3" by (blast dest: supported_role_index)+
    then have "seen ! role_slot ?role" using all_seen by (auto simp: less_Suc_eq numeral_3_eq_3 numeral_2_eq_2)
    moreover have "\<not> [False, False, False] ! role_slot ?role" using slot(2) by (auto simp: less_Suc_eq numeral_3_eq_3)
    ultimately have arms: "eval_arms messages ?env ((RoleIs role, bs) # arms)
        = before_content (affixes ! role_slot ?role) @ snd (messages ! k) @ after_content (affixes ! role_slot ?role)"
      using sw(7) [unfolded arms_value_def, rule_format, OF slot(1), of ?env messages] env(1) by (simp add: message_env_def)
    have "role_affixes r4 = affixes" using in3(3) in4(5) by simp
    then have affix: "role_affixes c ! role_slot ?role
        = (affixes ! role_slot ?role)\<lparr>before_content := loop_prefix @ before_content (affixes ! role_slot ?role)\<rparr>"
      using in5(2) slot(2) sw(6) by simp
    have last: "env_last ?env = (k + 1 = length messages)" "env_generate ?env = env_generate env" by (simp_all add: message_env_def)
    have fields: "iteration_tail c @ (if generation_inside_loop c \<and> env_generate env \<and> k + 1 = length messages then generation c else [])
        @ iteration_tail_after_generation c = eval_nodes messages ?env ns3 @ eval_nodes messages ?env ns4"
      using in3(3) in4(5,6) in5(2) gen in3(4) last by (simp add: empty_template_def)
    show ?thesis
      using arms ns2(2) affix fields by (simp add: message_text_def eval_nodes_append Let_def del: eval_arms.simps)
  qed
  have "eval_nodes messages env ?nodes = prefix @ concat (map (\<lambda>k. eval_nodes messages (message_env env messages k) ?body) [0..<length messages])
      @ post @ (if \<not> ins \<and> env_generate env then gen else []) @ suffix"
    using ns1(2) in5(3) env(2) by (simp add: eval_nodes_append)
  also have "map (\<lambda>k. eval_nodes messages (message_env env messages k) ?body) [0..<length messages]
      = map (message_text c messages (env_generate env)) [0..<length messages]"
    using message by (intro map_cong refl) simp
  also have "prefix @ concat (map (message_text c messages (env_generate env)) [0..<length messages])
      @ post @ (if \<not> ins \<and> env_generate env then gen else []) @ suffix = chat_text c messages (env_generate env)"
    using in3(3) in4(5) in5(2) by (auto simp: chat_text_def empty_template_def)
  finally show ?thesis using nodes by blast
qed

text \<open>A step that adds \<open>n\<close> to the size, or reports overflow.\<close>

definition adds :: "Limits \<Rightarrow> (nat \<Rightarrow> nat throws) \<Rightarrow> nat \<Rightarrow> bool" where
  "adds limits f n \<longleftrightarrow>
     (\<forall>s \<le> string_max limits. f s = (if s + n \<le> string_max limits then Inr (s + n) else Inl OverflowError))"

lemma adds_add_size [intro]: "adds limits (add_size limits n) n"
  by (auto simp: adds_def add_size_def)

lemma adds_skip [intro]: "adds limits Inr 0"
  by (simp add: adds_def)

lemma adds_then [intro]: "adds limits f n \<Longrightarrow> adds limits g m \<Longrightarrow> adds limits (\<lambda>s. andThen (f s) g) (n + m)"
  by (auto simp: adds_def add.assoc)

lemma adds_if [intro]: "adds limits f n \<Longrightarrow> adds limits (\<lambda>s. if b then f s else Inr s) (if b then n else 0)"
  by (auto simp: adds_def)

lemma adds_for_each: "\<forall>k \<in> set ks. adds limits (f k) (n k) \<Longrightarrow> adds limits (for_each ks f) (sum_list (map n ks))"
proof (induction ks)
  case Nil
  then show ?case by (simp add: adds_def)
next
  case (Cons k ks)
  then have "adds limits (\<lambda>s. andThen (f k s) (for_each ks f)) (n k + sum_list (map n ks))" by (intro adds_then) auto
  then show ?case by (simp add: adds_def)
qed

lemma message_role_slot: "supported_role role \<Longrightarrow> message_role_index role = Inr (role_slot role)"
  by (auto simp: supported_role_def message_role_index_def role_slot_def role_index_def)

lemma adds_size_message:
  assumes "supported_role (fst (messages ! k))"
  shows "adds limits (size_message limits c messages add_generation_prompt k) (length (message_text c messages add_generation_prompt k))"
proof -
  let ?affix = "role_affixes c ! role_slot (fst (messages ! k))"
  let ?last = "generation_inside_loop c \<and> add_generation_prompt \<and> k + 1 = length messages"
  have "adds limits (\<lambda>s. andThen (add_size limits (length (before_content ?affix)) s) (\<lambda>s.
      andThen (add_size limits (length (snd (messages ! k))) s) (\<lambda>s.
      andThen (add_size limits (length (after_content ?affix)) s) (\<lambda>s.
      andThen (add_size limits (length (iteration_tail c)) s) (\<lambda>s.
      andThen (if ?last then add_size limits (length (generation c)) s else Inr s)
        (add_size limits (length (iteration_tail_after_generation c))))))))
    (length (before_content ?affix) + (length (snd (messages ! k)) + (length (after_content ?affix) + (length (iteration_tail c)
      + ((if ?last then length (generation c) else 0) + length (iteration_tail_after_generation c))))))"
    by (intro adds_then adds_add_size adds_if)
  moreover have "length (message_text c messages add_generation_prompt k) = length (before_content ?affix) + (length (snd (messages ! k))
      + (length (after_content ?affix) + (length (iteration_tail c)
      + ((if ?last then length (generation c) else 0) + length (iteration_tail_after_generation c)))))"
    by (simp add: message_text_def Let_def)
  moreover have "size_message limits c messages add_generation_prompt k = (\<lambda>s. andThen (add_size limits (length (before_content ?affix)) s) (\<lambda>s.
      andThen (add_size limits (length (snd (messages ! k))) s) (\<lambda>s.
      andThen (add_size limits (length (after_content ?affix)) s) (\<lambda>s.
      andThen (add_size limits (length (iteration_tail c)) s) (\<lambda>s.
      andThen (if ?last then add_size limits (length (generation c)) s else Inr s)
        (add_size limits (length (iteration_tail_after_generation c))))))))"
    by (rule ext) (simp only: size_message_def message_role_slot [OF assms] andThen_simps Let_def)
  ultimately show ?thesis by (simp only:)
qed

lemma output_messages:
  assumes "\<forall>k \<in> set ks. supported_role (fst (messages ! k))"
  shows "for_each ks (output_message c messages add_generation_prompt) str
    = Inr (str @ concat (map (message_text c messages add_generation_prompt) ks))"
  using assms
proof (induction ks arbitrary: str)
  case (Cons k ks)
  then have "output_message c messages add_generation_prompt k str = Inr (str @ message_text c messages add_generation_prompt k)"
    by (simp add: output_message_def message_role_slot message_text_def Let_def)
  with Cons show ?case by simp
qed simp

lemma chat_format_text:
  assumes "messages \<noteq> []" and roles: "\<forall>(role, content) \<in> set messages. supported_role role"
    and contents: "\<forall>(role, content) \<in> set messages. validate_message_content content = Inr ()"
  shows "chat_format limits c messages add_generation_prompt =
     (if length (chat_text c messages add_generation_prompt) \<le> string_max limits
      then Inr (chat_text c messages add_generation_prompt) else Inl OverflowError)"
proof -
  have supported: "\<forall>k \<in> set [0..<length messages]. supported_role (fst (messages ! k))"
    using roles by (auto simp: case_prod_unfold)
  have checked: "for_each messages (\<lambda>(role, content) _. validate_message_content content) () = Inr ()"
    using contents by (induction messages) auto
  let ?outside = "add_generation_prompt \<and> \<not> generation_inside_loop c"
  let ?m = "sum_list (map (\<lambda>k. length (message_text c messages add_generation_prompt k)) [0..<length messages])"
  let ?n = "length (template_prefix c) + (?m + (length (post_loop c) + ((if ?outside then length (generation c) else 0) + length (template_suffix c))))"
  let ?sizes = "\<lambda>s. andThen (add_size limits (length (template_prefix c)) s) (\<lambda>s.
      andThen (for_each [0..<length messages] (size_message limits c messages add_generation_prompt) s) (\<lambda>s.
      andThen (add_size limits (length (post_loop c)) s) (\<lambda>s.
      andThen (if ?outside then add_size limits (length (generation c)) s else Inr s)
        (add_size limits (length (template_suffix c))))))"
  have "adds limits (for_each [0..<length messages] (size_message limits c messages add_generation_prompt)) ?m"
    using adds_size_message supported by (intro adds_for_each) blast
  then have "adds limits ?sizes ?n" by (intro adds_then adds_add_size adds_if)
  then have "?sizes 0 = (if 0 + ?n \<le> string_max limits then Inr (0 + ?n) else Inl OverflowError)"
    unfolding adds_def by blast
  then have sizes: "?sizes 0 = (if ?n \<le> string_max limits then Inr ?n else Inl OverflowError)" by (simp only: add_0)
  have total: "length (chat_text c messages add_generation_prompt) = ?n"
    by (simp add: chat_text_def length_concat comp_def)
  have "chat_format limits c messages add_generation_prompt = andThen (?sizes 0) (\<lambda>_. Inr (chat_text c messages add_generation_prompt))"
    using assms(1) output_messages [OF supported, of c add_generation_prompt "template_prefix c"]
    by (simp add: chat_format_def andThen_assoc checked chat_text_def Let_def)
  then show ?thesis unfolding sizes total by simp
qed

section \<open>The three checks of UTF-8\<close>

lemma and_mask_mod:
  "(x :: nat) AND 0x3F = x mod 64" "x AND 0x1F = x mod 32" "x AND 0x0F = x mod 16" "x AND 0x07 = x mod 8"
  using take_bit_eq_mask [of 6 x] take_bit_eq_mask [of 5 x] take_bit_eq_mask [of 4 x] take_bit_eq_mask [of 3 x]
  by (simp_all add: take_bit_eq_mod mask_eq_exp_minus_1)

lemma shifted_or: "push_bit 6 cp OR (x AND 0x3F) = cp * 64 + (x :: nat) mod 64"
proof -
  have "push_bit 6 cp + take_bit 6 x = push_bit 6 cp OR take_bit 6 x"
    by (rule disjunctive_add) (auto simp: bit_simps)
  then show ?thesis by (simp add: and_mask_mod take_bit_eq_mod push_bit_eq_mult)
qed

lemma mod_interval: "m * k \<le> x \<Longrightarrow> x < m * k + m \<Longrightarrow> x mod m = x - m * (k :: nat)"
  by (metis add_diff_cancel_left' less_diff_conv2 mod_less mod_mult_self2 ordered_cancel_comm_monoid_diff_class.add_diff_inverse mult.commute add.commute)

lemma div_64_iff: "x div 64 = (2 :: nat) \<longleftrightarrow> 0x80 \<le> x \<and> x \<le> 0xBF"
  using less_eq_div_iff_mult_less_eq [of 64 2 x] div_less_iff_less_mult [of 64 x 3] by auto

lemma continuation_bits:
  assumes "x < 256"
  shows "(x AND 0xC0 = (0x80 :: nat)) \<longleftrightarrow> 0x80 \<le> x \<and> x \<le> 0xBF"
proof -
  have "x AND push_bit 6 k = push_bit 6 (drop_bit 6 x AND k)" for k by (rule bit_eqI) (auto simp: bit_simps)
  from this [of 3] have "x AND push_bit 6 3 = push_bit 6 (drop_bit 6 x AND 3)" .
  moreover have "push_bit 6 3 = (0xC0 :: nat)" by (simp add: push_bit_eq_mult)
  moreover have "drop_bit 6 x AND 3 = x div 64 mod 4"
    using take_bit_eq_mask [of 2 "drop_bit 6 x"] by (simp add: take_bit_eq_mod mask_eq_exp_minus_1 drop_bit_eq_div)
  ultimately have "x AND 0xC0 = x div 64 mod 4 * 64" by (simp add: push_bit_eq_mult)
  moreover have "x div 64 < 4" using assms div_less_iff_less_mult [of 64 x 4] by simp
  ultimately show ?thesis using div_64_iff [of x] by auto
qed

lemma continuation_step_eq:
  "continuation_step str index cp =
     (if byte_of (str ! index) < 0x80 \<or> byte_of (str ! index) > 0xBF then Inl InvalidArgument
      else Inr (cp * 64 + (byte_of (str ! index) - 0x80)))"
proof -
  have "x mod 64 = x - 0x80" if "0x80 \<le> x" "x \<le> 0xBF" for x :: nat using mod_interval [of 64 2 x] that by simp
  then show ?thesis
    using continuation_bits [OF byte_of_less [of "str ! index"]] by (auto simp: continuation_step_def Let_def shifted_or)
qed

lemma code_point_3:
  assumes "x \<le> 15" "y \<le> 63" "z \<le> 63"
  shows "code_point_ok 3 ((x * 64 + y) * 64 + z) \<longleftrightarrow> \<not> (x = 0 \<and> y < 32) \<and> \<not> (x = 13 \<and> y \<ge> 32)"
proof -
  let ?cp = "(x * 64 + y) * 64 + z"
  have "?cp < 0x800 \<longleftrightarrow> x = 0 \<and> y < 32" using assms by (cases "x = 0") auto
  moreover have "(0xD800 \<le> ?cp \<and> ?cp \<le> 0xDFFF) \<longleftrightarrow> x = 13 \<and> y \<ge> 32"
    using assms by (cases "x < 13"; cases "x > 13") auto
  moreover have "\<not> ?cp > 0x10FFFF" using assms by simp
  ultimately show ?thesis unfolding code_point_ok_def by auto
qed

lemma code_point_4:
  assumes "w \<le> 4" "x \<le> 63" "y \<le> 63" "z \<le> 63"
  shows "code_point_ok 4 (((w * 64 + x) * 64 + y) * 64 + z) \<longleftrightarrow> \<not> (w = 0 \<and> x < 16) \<and> \<not> (w = 4 \<and> x \<ge> 16)"
proof -
  let ?cp = "((w * 64 + x) * 64 + y) * 64 + z"
  have "?cp < 0x10000 \<longleftrightarrow> w = 0 \<and> x < 16" using assms by (cases "w = 0") auto
  moreover have "?cp > 0x10FFFF \<longleftrightarrow> w = 4 \<and> x \<ge> 16" using assms by (cases "w = 4") auto
  moreover have "\<not> (0xD800 \<le> ?cp \<and> ?cp \<le> 0xDFFF) \<or> ?cp < 0x10000" by linarith
  ultimately show ?thesis unfolding code_point_ok_def by auto
qed

lemma code_point_2: "x \<le> 31 \<Longrightarrow> y \<le> 63 \<Longrightarrow> code_point_ok 2 (x * 64 + y)"
  unfolding code_point_ok_def by simp

text \<open>One sequence passes the table of lead and second bytes exactly when its code point is in range.\<close>

definition sequence_ok :: "string \<Rightarrow> nat \<Rightarrow> bool" where
  "sequence_ok str n \<longleftrightarrow> \<not> (n > 1 \<and> \<not> utf8_second_ok (byte_of (hd str)) (byte_of (str ! 1)))
     \<and> \<not> list_ex (\<lambda>index. byte_of (str ! index) < 0x80 \<or> byte_of (str ! index) > 0xBF) [1..<n]"

lemma upt_tail: "[Suc 0..<2] = [Suc 0]" "[Suc 0..<3] = [Suc 0, 2]" "[Suc 0..<4] = [Suc 0, 2, 3]"
  by (simp_all add: upt_rec)

lemma sequence_code_point:
  assumes "lead_bits (byte_of (hd str)) = Some (n, cp)"
  shows "andThen (for_each [1..<n] (continuation_step str) cp) (\<lambda>cp. if \<not> code_point_ok n cp then Inl InvalidArgument else r)
     = (if sequence_ok str n then r else Inl InvalidArgument)"
proof -
  let ?b = "byte_of (hd str)" and ?c = "\<lambda>i. byte_of (str ! i)"
  let ?cont = "\<lambda>i. \<not> (?c i < 0x80 \<or> ?c i > 0xBF)"
  consider (two) "n = 2" "0xC2 \<le> ?b" "?b \<le> 0xDF" "cp = ?b AND 0x1F" | (three) "n = 3" "0xE0 \<le> ?b" "?b \<le> 0xEF" "cp = ?b AND 0x0F"
    | (four) "n = 4" "0xF0 \<le> ?b" "?b \<le> 0xF4" "cp = ?b AND 0x07"
    using assms by (auto simp: lead_bits_def split: if_splits)
  then show ?thesis
  proof cases
    case two
    have "cp = ?b - 0xC0" using two mod_interval [of 32 6 ?b] by (simp add: and_mask_mod)
    moreover have "code_point_ok 2 ((?b - 0xC0) * 64 + (?c 1 - 0x80))" if "?cont 1"
      using that two by (intro code_point_2) auto
    ultimately show ?thesis
      using two by (auto simp: upt_tail continuation_step_eq sequence_ok_def utf8_second_ok_def Let_def)
  next
    case three
    have cp: "cp = ?b - 0xE0" using three mod_interval [of 16 14 ?b] by (simp add: and_mask_mod)
    have "code_point_ok 3 (((?b - 0xE0) * 64 + (?c 1 - 0x80)) * 64 + (?c 2 - 0x80)) \<longleftrightarrow> utf8_second_ok ?b (?c 1)"
      if "?cont 1" "?cont 2"
    proof (subst code_point_3)
      show "\<not> (?b - 0xE0 = 0 \<and> ?c 1 - 0x80 < 32) \<and> \<not> (?b - 0xE0 = 13 \<and> ?c 1 - 0x80 \<ge> 32) \<longleftrightarrow> utf8_second_ok ?b (?c 1)"
        using that three(2,3) by (auto simp: utf8_second_ok_def Let_def)
    qed (use that three(2,3) in auto)
    with cp three(1) show ?thesis
      by (cases "?cont 1"; cases "?cont 2") (auto simp: upt_tail continuation_step_eq sequence_ok_def)
  next
    case four
    have cp: "cp = ?b - 0xF0" using four mod_interval [of 8 30 ?b] by (simp add: and_mask_mod)
    have "code_point_ok 4 ((((?b - 0xF0) * 64 + (?c 1 - 0x80)) * 64 + (?c 2 - 0x80)) * 64 + (?c 3 - 0x80)) \<longleftrightarrow> utf8_second_ok ?b (?c 1)"
      if "?cont 1" "?cont 2" "?cont 3"
    proof (subst code_point_4)
      show "\<not> (?b - 0xF0 = 0 \<and> ?c 1 - 0x80 < 16) \<and> \<not> (?b - 0xF0 = 4 \<and> ?c 1 - 0x80 \<ge> 16) \<longleftrightarrow> utf8_second_ok ?b (?c 1)"
        using that four(2,3) by (auto simp: utf8_second_ok_def Let_def)
    qed (use that four(2,3) in auto)
    with cp four(1) show ?thesis
      by (cases "?cont 1"; cases "?cont 2"; cases "?cont 3") (auto simp: upt_tail continuation_step_eq sequence_ok_def)
  qed
qed

lemma lead_bits_length:
  assumes "b > 0x7F"
  shows "utf8_lead_length b = (case lead_bits b of None \<Rightarrow> Inl InvalidArgument | Some (n, _) \<Rightarrow> Inr n)"
  using assms by (auto simp: utf8_lead_length_def lead_bits_def)

lemma check_utf8_eq: "check_utf8 (\<lambda>_. False) str = validate_encode_utf8 str"
proof (induction "\<lambda>c :: char. False" str rule: check_utf8.induct)
  case (1 str)
  show ?case
  proof (cases "str = [] \<or> byte_of (hd str) \<le> 0x7F")
    case True
    show ?thesis
    proof (cases "str = []")
      case True
      then show ?thesis by (simp add: check_utf8.simps validate_encode_utf8.simps)
    next
      case ne: False
      then have "check_utf8 (\<lambda>_. False) str = check_utf8 (\<lambda>_. False) (tl str)" using True by (simp add: check_utf8.simps [of _ str])
      moreover have "validate_encode_utf8 str = validate_encode_utf8 (tl str)"
        using ne True by (simp add: validate_encode_utf8.simps [of str] utf8_lead_length_def drop_Suc)
      ultimately show ?thesis using 1(1) ne True by simp
    qed
  next
    case False
    then have ne: "str \<noteq> []" and b: "byte_of (hd str) > 0x7F" by auto
    show ?thesis
    proof (cases "lead_bits (byte_of (hd str))")
      case None
      then show ?thesis
        using ne b by (simp add: check_utf8.simps [of _ str] validate_encode_utf8.simps [of str] lead_bits_length)
    next
      case (Some p)
      then obtain n cp where p: "lead_bits (byte_of (hd str)) = Some (n, cp)" by (cases p) auto
      have "check_utf8 (\<lambda>_. False) str = (if n > length str then Inl InvalidArgument
          else if sequence_ok str n then check_utf8 (\<lambda>_. False) (drop n str) else Inl InvalidArgument)"
        using ne b p sequence_code_point [OF p, of "check_utf8 (\<lambda>_. False) (drop n str)"]
        by (simp add: check_utf8.simps [of _ str] Let_def)
      moreover have "validate_encode_utf8 str = (if n > length str then Inl InvalidArgument
          else if sequence_ok str n then validate_encode_utf8 (drop n str) else Inl InvalidArgument)"
        using ne b p by (auto simp: validate_encode_utf8.simps [of str] lead_bits_length sequence_ok_def)
      moreover have "check_utf8 (\<lambda>_. False) (drop n str) = validate_encode_utf8 (drop n str)"
        if "\<not> n > length str" "sequence_ok str n"
        using 1(2) [OF ne refl _ _ p refl that(1)] b sequence_code_point [OF p, of "Inr ()"] that(2)
        by (auto simp: andThen_Inr_iff split: if_splits)
      ultimately show ?thesis by simp
    qed
  qed
qed

section \<open>Properties\<close>

text \<open>
  C29. The formatter and the tokenizer check UTF-8 in different ways, the one by the code point it assembles, the
  other by a table of lead and second bytes. They accept the same texts and reject every other with the same
  exception, so that content the formatter accepts is text the tokenizer can encode.
\<close>

theorem content_check_agrees: "validate_message_content content = validate_encode_utf8 content"
  by (simp add: validate_message_content_def check_utf8_eq)

definition outer_environment :: "bool \<Rightarrow> string \<Rightarrow> environment" where
  "outer_environment add_generation_prompt eos_token =
     \<lparr>env_role = [], env_content = [], env_last = True, env_generate = add_generation_prompt, env_eos = eos_token\<rparr>"

text \<open>
  C11. Formatting with a compiled template is interpreting the template: whenever a template compiles, its tokens
  have a tree of blocks, and for every nonempty list of messages with supported roles and valid contents
  the formatter returns what evaluating the tree message by message gives, or reports overflow when that text is longer
  than a string can be. Compiling the template into affixes loses nothing and adds nothing.
\<close>

theorem compiled_template_interpreted:
  assumes "compile_template limits source eos_token = Inr c" and "messages \<noteq> []"
    and "list_all (\<lambda>(role, content). supported_role role \<and> validate_message_content content = Inr ()) messages"
  shows "\<exists>tokens ns. tokenize_template source = Inr tokens \<and> template_nodes tokens ns \<and>
     (let str = eval_nodes messages (outer_environment add_generation_prompt eos_token) ns in
      chat_format limits c messages add_generation_prompt = (if length str \<le> string_max limits then Inr str else Inl OverflowError))"
proof -
  obtain tokens where tokens: "tokenize_template source = Inr tokens" "compile_tokens limits eos_token tokens = Inr c"
    using assms(1) by (auto simp: compile_template_def andThen_Inr_iff)
  have m: "\<forall>(role, content) \<in> set messages. supported_role role" "\<forall>(role, content) \<in> set messages. validate_message_content content = Inr ()"
    using assms(3) by (auto simp: list_all_iff)
  obtain ns where "template_nodes tokens ns"
    "eval_nodes messages (outer_environment add_generation_prompt eos_token) ns = chat_text c messages add_generation_prompt"
    using compile_tokens_value [OF tokens(2) m(1), of "outer_environment add_generation_prompt eos_token"]
    by (auto simp: outer_environment_def)
  with chat_format_text [OF assms(2) m, of limits c add_generation_prompt] tokens(1) show ?thesis
    by (intro exI [of _ tokens] exI [of _ ns]) (simp add: Let_def)
qed

section \<open>A template\<close>

text \<open>
  A template written as segments, each a text and a tag: tokenizing it gives the texts and the tags, when no tag
  contains its closing delimiter outside of a string.
\<close>

type_synonym segment = "string \<times> bool \<times> string"

fun segment_source :: "segment \<Rightarrow> string" where
  "segment_source (t, is_output, inner) = t @ (if is_output then ''{{'' @ inner @ ''}}'' else ''{%'' @ inner @ ''%}'')"

fun segment_tokens :: "nat \<Rightarrow> segment list \<Rightarrow> Token list" where
  "segment_tokens cursor [] = []"
| "segment_tokens cursor ((t, is_output, inner) # segments) =
     (if t = [] then [] else [\<lparr>tok_kind = TextToken, tok_text = t, tok_offset = cursor\<rparr>])
     @ \<lparr>tok_kind = (if is_output then OutputToken else BlockToken), tok_text = inner, tok_offset = cursor + length t\<rparr>
     # segment_tokens (cursor + length t + 2 + length inner + 2) segments"

fun tag_text :: "char \<Rightarrow> string \<Rightarrow> char option \<Rightarrow> bool \<Rightarrow> bool" where
  "tag_text d [] quote escaped = (quote = None)"
| "tag_text d (c # cs) (Some q) escaped =
     (if escaped then tag_text d cs (Some q) False
      else if c = backslash then tag_text d cs (Some q) True
      else if c = q then tag_text d cs None escaped
      else tag_text d cs (Some q) escaped)"
| "tag_text d (c # cs) None escaped =
     (if c = quote_char \<or> c = double_quote then tag_text d cs (Some c) escaped else c \<noteq> d \<and> tag_text d cs None escaped)"

fun segment_ok :: "segment \<Rightarrow> bool" where
  "segment_ok (t, is_output, inner) \<longleftrightarrow>
     CHR ''{'' \<notin> set t \<and> inner \<noteq> [] \<and> hd inner \<noteq> CHR ''-'' \<and> last inner \<noteq> CHR ''-''
     \<and> tag_text (if is_output then CHR ''}'' else CHR ''%'') inner None False"

lemma tag_end_found:
  assumes "tag_text d inner quote escaped" and "d \<noteq> quote_char" "d \<noteq> double_quote"
  shows "tag_end_loop (pre @ inner @ d # e # post) [d, e] (length pre) quote escaped = Inr (length pre + length inner)"
  using assms
proof (induction d inner quote escaped arbitrary: pre rule: tag_text.induct)
  case (1 d quote escaped)
  then show ?case by (simp add: tag_end_loop.simps [of _ _ "length pre"] Let_def)
next
  case (2 d c cs q escaped)
  let ?source = "pre @ (c # cs) @ d # e # post"
  have at: "length pre + 1 < length ?source" "?source ! length pre = c" by (simp_all add: nth_append)
  have next_char: "tag_end_loop ?source [d, e] (length pre + 1) quote esc = Inr (length pre + length (c # cs))"
    if "tag_end_loop ((pre @ [c]) @ cs @ d # e # post) [d, e] (length (pre @ [c])) quote esc = Inr (length (pre @ [c]) + length cs)" for quote esc
    using that by simp
  show ?case
    unfolding tag_end_loop.simps [of ?source _ "length pre"]
    using at 2 next_char by (auto simp: Let_def simp del: append_assoc append.simps length_append split: if_splits)
next
  case (3 d c cs escaped)
  let ?source = "pre @ (c # cs) @ d # e # post"
  have at: "length pre + 1 < length ?source" "?source ! length pre = c" by (simp_all add: nth_append)
  have next_char: "tag_end_loop ?source [d, e] (length pre + 1) quote esc = Inr (length pre + length (c # cs))"
    if "tag_end_loop ((pre @ [c]) @ cs @ d # e # post) [d, e] (length (pre @ [c])) quote esc = Inr (length (pre @ [c]) + length cs)" for quote esc
    using that by simp
  have "take (length [d, e]) (drop (length pre) ?source) \<noteq> [d, e]" if "c \<noteq> d" using that by simp
  then show ?case
    unfolding tag_end_loop.simps [of ?source _ "length pre"]
    using at 3 next_char by (auto simp: Let_def simp del: append_assoc append.simps length_append split: if_splits)
qed

lemma str_find_brace: "CHR ''{'' \<notin> set t \<Longrightarrow> str_find ''{'' (t @ CHR ''{'' # rest) = Some (length t)"
  by (induction t) (auto simp: str_find.simps)

lemma segments_tokenized:
  assumes "list_all segment_ok segments"
  shows "tokenize_loop (pre @ concat (map segment_source segments)) (length pre) tokens = Inr (tokens @ segment_tokens (length pre) segments)"
  using assms
proof (induction segments arbitrary: pre tokens)
  case Nil
  then show ?case by (simp add: tokenize_loop.simps)
next
  case (Cons segment segments)
  obtain t is_out inner where s: "segment = (t, is_out, inner)" by (cases segment)
  let ?d = "if is_out then CHR ''}'' else CHR ''%''" and ?o = "if is_out then CHR ''{'' else CHR ''%''"
  let ?rest = "concat (map segment_source segments)"
  let ?source = "pre @ concat (map segment_source (segment # segments))"
  have ok: "CHR ''{'' \<notin> set t" "inner \<noteq> []" "hd inner \<noteq> CHR ''-''" "last inner \<noteq> CHR ''-''" "tag_text ?d inner None False"
    using Cons.prems s by simp_all
  have source: "?source = pre @ t @ CHR ''{'' # ?o # inner @ ?d # CHR ''}'' # ?rest" using s by simp
  have find: "str_find ''{'' (drop (length pre) ?source) = Some (length t)"
    unfolding source by (simp add: str_find_brace ok(1))
  have at: "length pre < length ?source" "length pre + length t + 1 < length ?source" "?source ! (length pre + length t + 1) = ?o"
    "length pre + length t + 2 < length ?source" "?source ! (length pre + length t + 2) = hd inner"
    unfolding source using ok(2) by (simp_all add: nth_append hd_conv_nth)
  have "tag_end_loop ((pre @ t @ [CHR ''{'', ?o]) @ inner @ ?d # CHR ''}'' # ?rest) [?d, CHR ''}''] (length (pre @ t @ [CHR ''{'', ?o])) None False
      = Inr (length (pre @ t @ [CHR ''{'', ?o]) + length inner)"
    by (rule tag_end_found [OF ok(5)]) auto
  then have tag: "find_tag_end ?source (length pre + length t + 2) (if is_out then ''}}'' else ''%}'') = Inr (length pre + length t + 2 + length inner)"
    unfolding source find_tag_end_def by (cases is_out) simp_all
  have closing: "?source ! (length pre + length t + 2 + length inner - 1) = last inner"
    unfolding source using ok(2) by (simp add: nth_append last_conv_nth)
  have inner: "take (length inner) (drop (length pre + length t + 2) ?source) = inner" unfolding source by simp
  have t: "take (length t) (drop (length pre) ?source) = t" unfolding source by simp
  let ?tokens = "(if t = [] then [] else [\<lparr>tok_kind = TextToken, tok_text = t, tok_offset = length pre\<rparr>])
     @ [\<lparr>tok_kind = (if is_out then OutputToken else BlockToken), tok_text = inner, tok_offset = length pre + length t\<rparr>]"
  have step: "tokenize_loop ?source (length pre) tokens = tokenize_loop ?source (length pre + length t + 2 + length inner + 2) (tokens @ ?tokens)"
    unfolding tokenize_loop.simps [of ?source "length pre"]
    using at find tag closing inner t ok(2-4) by (cases is_out; cases "t = []") (simp_all add: Let_def del: concat.simps list.map)
  have "tokenize_loop ((pre @ segment_source segment) @ ?rest) (length (pre @ segment_source segment)) (tokens @ ?tokens)
      = Inr ((tokens @ ?tokens) @ segment_tokens (length (pre @ segment_source segment)) segments)"
    using Cons.prems by (intro Cons.IH) simp
  moreover have "length (pre @ segment_source segment) = length pre + length t + 2 + length inner + 2" using s by simp
  moreover have "(pre @ segment_source segment) @ ?rest = ?source" by simp
  moreover have "segment_tokens (length pre) (segment # segments)
      = ?tokens @ segment_tokens (length pre + length t + 2 + length inner + 2) segments"
    using s by (cases "t = []") simp_all
  ultimately show ?case by (simp only: step append_assoc)
qed

lemma ascii_source:
  assumes "list_all (\<lambda>c. byte_of c \<le> 0x7F \<and> c \<noteq> carriage_return) source"
  shows "validate_utf8_and_line_endings source = Inr ()"
  using assms unfolding validate_utf8_and_line_endings_def
proof (induction source)
  case Nil
  then show ?case by (simp add: check_utf8.simps)
next
  case (Cons c source)
  then show ?case by (simp add: check_utf8.simps [of _ "c # source"])
qed

definition role_segments :: "string \<Rightarrow> string \<Rightarrow> segment list" where
  "role_segments keyword role =
     [([newline], False, '' '' @ keyword @ '' message['' @ [quote_char] @ ''role'' @ [quote_char] @ ''] == '' @ [quote_char] @ role @ [quote_char] @ '' ''),
      ([newline], True, '' '' @ [quote_char] @ ''<|'' @ role @ ''|>'' @ [newline, quote_char] @ '' + message['' @ [quote_char] @ ''content'' @ [quote_char] @ ''] + eos_token '')]"

text \<open>The template of the model the engine is made for.\<close>

definition pinned_segments :: "segment list" where
  "pinned_segments =
     [([], False, '' for message in messages '')] @ role_segments ''if'' ''user'' @ role_segments ''elif'' ''system'' @ role_segments ''elif'' ''assistant''
     @ [([newline], False, '' endif ''), ([newline], False, '' if loop.last and add_generation_prompt ''),
        ([newline], True, '' '' @ [quote_char] @ ''<|assistant|>'' @ [quote_char] @ '' ''),
        ([newline], False, '' endif ''), ([newline], False, '' endfor '')]"

definition pinned_template :: string where
  "pinned_template = concat (map segment_source pinned_segments)"

definition pinned_tokens :: "Token list" where
  "pinned_tokens =
     (let tokens = fold strip_before_block [0..<length (segment_tokens 0 pinned_segments)] (segment_tokens 0 pinned_segments) in
      fold trim_after_block [0..<length tokens] tokens)"

lemma pinned_tokenized: "tokenize_template pinned_template = Inr pinned_tokens"
proof -
  have "list_all segment_ok pinned_segments" by code_simp
  from segments_tokenized [OF this, of "[]" "[]"] show ?thesis
    by (simp add: tokenize_template_def pinned_template_def pinned_tokens_def Let_def)
qed

definition chat_limits :: Limits where
  "chat_limits = \<lparr>string_max = 100, ids_max = 100, nodes_max = 100, heap_max = 100\<rparr>"

definition pinned_compiled :: CompiledTemplate where
  "pinned_compiled =
     \<lparr>role_affixes = [\<lparr>before_content = ''<|system|>'' @ [newline], after_content = ''</s>'' @ [newline]\<rparr>,
        \<lparr>before_content = ''<|user|>'' @ [newline], after_content = ''</s>'' @ [newline]\<rparr>,
        \<lparr>before_content = ''<|assistant|>'' @ [newline], after_content = ''</s>'' @ [newline]\<rparr>],
      generation = ''<|assistant|>'' @ [newline], iteration_tail = [], iteration_tail_after_generation = [],
      generation_inside_loop = True, template_prefix = [], post_loop = [], template_suffix = []\<rparr>"

lemma pinned_compiles: "compile_template chat_limits pinned_template ''</s>'' = Inr pinned_compiled"
proof -
  have "list_all (\<lambda>c. byte_of c \<le> 0x7F \<and> c \<noteq> carriage_return) pinned_template" by code_simp
  moreover have "compile_tokens chat_limits ''</s>'' pinned_tokens = Inr pinned_compiled" by code_simp
  ultimately show ?thesis by (simp add: compile_template_def ascii_source pinned_tokenized)
qed

theorem compiled_template_interpreted_witness:
  "\<exists>tokens ns. tokenize_template pinned_template = Inr tokens \<and> template_nodes tokens ns
     \<and> eval_nodes [(''user'', ''x'')] (outer_environment True ''</s>'') ns
         = ''<|user|>'' @ [newline] @ ''x</s>'' @ [newline] @ ''<|assistant|>'' @ [newline]
     \<and> chat_format chat_limits pinned_compiled [(''user'', ''x'')] True
         = Inr (''<|user|>'' @ [newline] @ ''x</s>'' @ [newline] @ ''<|assistant|>'' @ [newline])"
proof -
  let ?str = "''<|user|>'' @ [newline] @ ''x</s>'' @ [newline] @ ''<|assistant|>'' @ [newline]"
  have "list_all (\<lambda>(role, content). supported_role role \<and> validate_message_content content = Inr ()) [(''user'', ''x'')]"
    by code_simp
  from compiled_template_interpreted [OF pinned_compiles _ this, of True] obtain tokens ns where
    t: "tokenize_template pinned_template = Inr tokens" "template_nodes tokens ns" and
    str: "chat_format chat_limits pinned_compiled [(''user'', ''x'')] True
      = (if length (eval_nodes [(''user'', ''x'')] (outer_environment True ''</s>'') ns) \<le> string_max chat_limits
         then Inr (eval_nodes [(''user'', ''x'')] (outer_environment True ''</s>'') ns) else Inl OverflowError)"
    by (auto simp: Let_def)
  moreover have out: "chat_format chat_limits pinned_compiled [(''user'', ''x'')] True = Inr ?str" by code_simp
  moreover have "eval_nodes [(''user'', ''x'')] (outer_environment True ''</s>'') ns = ?str"
    using str out by (simp split: if_splits)
  ultimately show ?thesis by blast
qed

end
