(* ===== verification/Chat_Load.thy ===== *)
theory Chat_Load
  imports Chat_Template
begin

text \<open>
  Loading a chat formatter, \<open>load_chat_formatter\<close> of \<open>src/src/chat_format.cpp\<close>: the file
  \<open>tokenizer_config.json\<close> is parsed and compared with the one supported configuration, a template is selected
  and compiled. The content of the file and the JSON parser are arguments. The property: an override is the
  template that is compiled, whatever template the file has.
\<close>

section \<open>Fields of the configuration\<close>

definition config_field :: "json \<Rightarrow> string \<Rightarrow> json throws" where
  "config_field document field = (case json_find document field of None \<Rightarrow> Inl InvalidArgument | Some value \<Rightarrow> Inr value)"

definition config_exact_keys :: "json \<Rightarrow> string list \<Rightarrow> unit throws" where
  "config_exact_keys document supported =
     (case document of
        JObject members \<Rightarrow>
          andThen (for_each members (\<lambda>(key, _) _. if key \<notin> set supported then Inl InvalidArgument else Inr ()) ())
            (\<lambda>_. for_each supported (\<lambda>key _. if json_find document key = None then Inl InvalidArgument else Inr ()) ())
      | _ \<Rightarrow> Inl InvalidArgument)"

definition config_string :: "json \<Rightarrow> string \<Rightarrow> unit throws" where
  "config_string document field =
     andThen (config_field document field) (\<lambda>value. case value of JString _ \<Rightarrow> Inr () | _ \<Rightarrow> Inl InvalidArgument)"

definition config_exact_string :: "json \<Rightarrow> string \<Rightarrow> string \<Rightarrow> unit throws" where
  "config_exact_string document field expected =
     andThen (config_field document field) (\<lambda>value.
       case value of JString s \<Rightarrow> if s \<noteq> expected then Inl InvalidArgument else Inr () | _ \<Rightarrow> Inl InvalidArgument)"

definition config_exact_bool :: "json \<Rightarrow> string \<Rightarrow> bool \<Rightarrow> unit throws" where
  "config_exact_bool document field expected =
     andThen (config_field document field) (\<lambda>value.
       case value of JBool b \<Rightarrow> if b \<noteq> expected then Inl InvalidArgument else Inr () | _ \<Rightarrow> Inl InvalidArgument)"

definition config_exact_integer :: "json \<Rightarrow> string \<Rightarrow> 64 word \<Rightarrow> unit throws" where
  "config_exact_integer document field expected =
     andThen (config_field document field) (\<lambda>value.
       let matches = (case value of
             JUnsigned n \<Rightarrow> n = expected
           | JInteger n \<Rightarrow> sint n \<ge> 0 \<and> n = expected
           | _ \<Rightarrow> False)
       in if \<not> matches then Inl InvalidArgument else Inr ())"

definition config_added_token :: "json \<Rightarrow> string \<Rightarrow> string \<Rightarrow> unit throws" where
  "config_added_token decoder key content =
     andThen (config_field decoder key) (\<lambda>value.
     andThen (config_exact_keys value [''content'', ''lstrip'', ''normalized'', ''rstrip'', ''single_word'', ''special'']) (\<lambda>_.
     andThen (config_exact_string value ''content'' content) (\<lambda>_.
     andThen (config_exact_bool value ''lstrip'' False) (\<lambda>_.
     andThen (config_exact_bool value ''normalized'' False) (\<lambda>_.
     andThen (config_exact_bool value ''rstrip'' False) (\<lambda>_.
     andThen (config_exact_bool value ''single_word'' False) (\<lambda>_.
     config_exact_bool value ''special'' True)))))))"

definition kSupportedConfigKeys :: "string list" where
  "kSupportedConfigKeys = [''added_tokens_decoder'', ''bos_token'', ''chat_template'', ''clean_up_tokenization_spaces'', ''eos_token'',
     ''legacy'', ''model_max_length'', ''pad_token'', ''padding_side'', ''sp_model_kwargs'', ''tokenizer_class'', ''unk_token'',
     ''use_default_system_prompt'']"

definition validate_metadata :: "json \<Rightarrow> bool \<Rightarrow> unit throws" where
  "validate_metadata document validate_default_template =
     (if (case document of JObject members \<Rightarrow> members = [] | _ \<Rightarrow> True) then Inl InvalidArgument
      else
        andThen (config_exact_keys document kSupportedConfigKeys) (\<lambda>_.
        andThen (config_field document ''added_tokens_decoder'') (\<lambda>decoder.
        andThen (config_exact_keys decoder [''0'', ''1'', ''2'']) (\<lambda>_.
        andThen (config_added_token decoder ''0'' ''<unk>'') (\<lambda>_.
        andThen (config_added_token decoder ''1'' ''<s>'') (\<lambda>_.
        andThen (config_added_token decoder ''2'' ''</s>'') (\<lambda>_.
        andThen (config_exact_string document ''bos_token'' ''<s>'') (\<lambda>_.
        andThen (if validate_default_template then config_string document ''chat_template''
                 else if json_find document ''chat_template'' = None then Inl InvalidArgument else Inr ()) (\<lambda>_.
        andThen (config_exact_bool document ''clean_up_tokenization_spaces'' False) (\<lambda>_.
        andThen (config_exact_string document ''eos_token'' ''</s>'') (\<lambda>_.
        andThen (config_exact_bool document ''legacy'' False) (\<lambda>_.
        andThen (config_exact_integer document ''model_max_length'' 2048) (\<lambda>_.
        andThen (config_exact_string document ''pad_token'' ''</s>'') (\<lambda>_.
        andThen (config_exact_string document ''padding_side'' ''right'') (\<lambda>_.
        andThen (config_field document ''sp_model_kwargs'') (\<lambda>kwargs.
        if kwargs \<noteq> JObject [] then Inl InvalidArgument
        else
          andThen (config_exact_string document ''tokenizer_class'' ''LlamaTokenizer'') (\<lambda>_.
          andThen (config_exact_string document ''unk_token'' ''<unk>'') (\<lambda>_.
          config_exact_bool document ''use_default_system_prompt'' False))))))))))))))))))"

definition selected_template :: "json \<Rightarrow> string option \<Rightarrow> string throws" where
  "selected_template document template_override =
     (case template_override of
        Some source \<Rightarrow> Inr source
      | None \<Rightarrow>
          andThen (config_field document ''chat_template'') (\<lambda>value.
          case value of JString source \<Rightarrow> Inr source | _ \<Rightarrow> Inl InvalidArgument))"

section \<open>Loading\<close>

definition read_file :: "string option \<Rightarrow> string throws" where
  "read_file content = (case content of None \<Rightarrow> Inl RuntimeError | Some str \<Rightarrow> Inr str)"

text \<open>The formatter's state is its template and what it compiled to.\<close>

record ChatFormatter =
  cf_selected_template :: string
  cf_compiled :: CompiledTemplate

definition load_chat_formatter :: "Limits \<Rightarrow> (string \<Rightarrow> json option) \<Rightarrow> string option \<Rightarrow> string option \<Rightarrow> ChatFormatter throws" where
  "load_chat_formatter limits json_parse content template_override =
     andThen (read_file content) (\<lambda>config_text.
     case json_parse config_text of
       None \<Rightarrow> Inl InvalidArgument
     | Some document \<Rightarrow>
         andThen (validate_metadata document (template_override = None)) (\<lambda>_.
         andThen (selected_template document template_override) (\<lambda>source.
         case json_find document ''eos_token'' of
           Some (JString eos) \<Rightarrow>
             andThen (compile_template limits source eos) (\<lambda>compiled.
             Inr \<lparr>cf_selected_template = source, cf_compiled = compiled\<rparr>)
         | _ \<Rightarrow> Inl OtherException)))"

section \<open>What loading returns\<close>

lemma config_exact_string_Inr: "config_exact_string document field expected = Inr () \<Longrightarrow> json_find document field = Some (JString expected)"
  by (auto simp: config_exact_string_def config_field_def andThen_Inr_iff split: option.split_asm json.split_asm if_split_asm)

lemma metadata_eos: "validate_metadata document b = Inr () \<Longrightarrow> json_find document ''eos_token'' = Some (JString ''</s>'')"
  unfolding validate_metadata_def andThen_Inr_iff guard_Inr_iff by (elim exE conjE) (simp add: config_exact_string_Inr)

lemma loaded_formatter:
  assumes "load_chat_formatter limits json_parse content template_override = Inr formatter"
  shows "compile_template limits (cf_selected_template formatter) ''</s>'' = Inr (cf_compiled formatter)
     \<and> (case template_override of
          Some source \<Rightarrow> cf_selected_template formatter = source
        | None \<Rightarrow> (case content of None \<Rightarrow> False
            | Some str \<Rightarrow> (case json_parse str of None \<Rightarrow> False
                | Some document \<Rightarrow> json_find document ''chat_template'' = Some (JString (cf_selected_template formatter)))))"
proof -
  obtain str where str: "content = Some str" using assms by (cases content) (auto simp: load_chat_formatter_def read_file_def)
  obtain document where document: "json_parse str = Some document"
    using assms str by (cases "json_parse str") (auto simp: load_chat_formatter_def read_file_def)
  have "andThen (validate_metadata document (template_override = None)) (\<lambda>_.
      andThen (selected_template document template_override) (\<lambda>source.
      case json_find document ''eos_token'' of
        Some (JString eos) \<Rightarrow>
          andThen (compile_template limits source eos) (\<lambda>compiled. Inr \<lparr>cf_selected_template = source, cf_compiled = compiled\<rparr>)
      | _ \<Rightarrow> Inl OtherException)) = Inr formatter"
    using assms by (simp add: load_chat_formatter_def read_file_def str document)
  then obtain source where doc: "validate_metadata document (template_override = None) = Inr ()"
    and source: "selected_template document template_override = Inr source"
    and load: "(case json_find document ''eos_token'' of
           Some (JString eos) \<Rightarrow>
             andThen (compile_template limits source eos) (\<lambda>compiled.
             Inr \<lparr>cf_selected_template = source, cf_compiled = compiled\<rparr>)
         | _ \<Rightarrow> Inl OtherException) = Inr formatter"
    unfolding andThen_Inr_iff by (elim exE conjE) (rule that; (assumption | simp))
  have "compile_template limits source ''</s>'' = Inr (cf_compiled formatter) \<and> cf_selected_template formatter = source"
    using load metadata_eos [OF doc] by (auto simp: andThen_Inr_iff)
  moreover have "json_find document ''chat_template'' = Some (JString source)" if "template_override = None"
    using source that by (auto simp: selected_template_def config_field_def andThen_Inr_iff split: option.split_asm json.split_asm)
  ultimately show ?thesis using source str document by (auto simp: selected_template_def split: option.split)
qed

section \<open>A configuration\<close>

definition added_token_json :: "string \<Rightarrow> json" where
  "added_token_json content = JObject [(''content'', JString content), (''lstrip'', JBool False), (''normalized'', JBool False),
     (''rstrip'', JBool False), (''single_word'', JBool False), (''special'', JBool True)]"

definition config_json :: "json \<Rightarrow> json" where
  "config_json chat_template = JObject [(''added_tokens_decoder'',
       JObject [(''0'', added_token_json ''<unk>''), (''1'', added_token_json ''<s>''), (''2'', added_token_json ''</s>'')]),
     (''bos_token'', JString ''<s>''), (''chat_template'', chat_template), (''clean_up_tokenization_spaces'', JBool False),
     (''eos_token'', JString ''</s>''), (''legacy'', JBool False), (''model_max_length'', JUnsigned 2048),
     (''pad_token'', JString ''</s>''), (''padding_side'', JString ''right''), (''sp_model_kwargs'', JObject []),
     (''tokenizer_class'', JString ''LlamaTokenizer''), (''unk_token'', JString ''<unk>''), (''use_default_system_prompt'', JBool False)]"

lemma config_json_fields:
  "json_find (config_json t) ''added_tokens_decoder'' =
     Some (JObject [(''0'', added_token_json ''<unk>''), (''1'', added_token_json ''<s>''), (''2'', added_token_json ''</s>'')])"
  "json_find (config_json t) ''chat_template'' = Some t" "json_find (config_json t) ''eos_token'' = Some (JString ''</s>'')"
  by (simp_all add: config_json_def)

lemma config_json_keys: "config_exact_keys (config_json t) kSupportedConfigKeys = Inr ()"
  by (simp add: config_exact_keys_def config_json_def kSupportedConfigKeys_def)

lemma config_json_tokens:
  "config_added_token (JObject [(''0'', added_token_json ''<unk>''), (''1'', added_token_json ''<s>''), (''2'', added_token_json ''</s>'')]) key content
     = Inr ()" if "(key, content) \<in> {(''0'', ''<unk>''), (''1'', ''<s>''), (''2'', ''</s>'')}"
  using that
  by (auto simp: config_added_token_def config_field_def config_exact_keys_def config_exact_string_def config_exact_bool_def added_token_json_def)

lemma config_json_accepted: "validate_metadata (config_json t) False = Inr ()"
proof -
  have "\<not> (case config_json t of JObject members \<Rightarrow> members = [] | _ \<Rightarrow> True)" by (simp add: config_json_def)
  then show ?thesis
    unfolding validate_metadata_def config_json_keys
    by (simp add: config_field_def config_json_fields config_json_tokens)
      (simp add: config_json_def config_exact_string_def config_exact_bool_def config_exact_integer_def config_exact_keys_def config_field_def)
qed

section \<open>Properties\<close>

text \<open>
  A formatter that loads holds the template that was selected, compiled with the end-of-sequence token
  \<open></s>\<close>, and nothing else. An engaged override is that template, even where the configuration's own template is
  not a string, and an override that does not compile makes loading fail instead of falling back to the
  configuration's template.
\<close>

lemma override_is_compiled:
  assumes "load_chat_formatter limits json_parse content template_override = Inr formatter"
  shows "compile_template limits (cf_selected_template formatter) ''</s>'' = Inr (cf_compiled formatter)
     \<and> (case template_override of
          Some source \<Rightarrow> cf_selected_template formatter = source
        | None \<Rightarrow> (case content of None \<Rightarrow> False
            | Some str \<Rightarrow> (case json_parse str of None \<Rightarrow> False
                | Some document \<Rightarrow> json_find document ''chat_template'' = Some (JString (cf_selected_template formatter)))))"
  by (rule loaded_formatter [OF assms])

lemma override_is_compiled_witness:
  "load_chat_formatter chat_limits (\<lambda>_. Some (config_json JNull)) (Some ''document'') (Some pinned_template)
     = Inr \<lparr>cf_selected_template = pinned_template, cf_compiled = pinned_compiled\<rparr>
   \<and> compile_template chat_limits pinned_template ''</s>'' = Inr pinned_compiled"
proof -
  have load: "load_chat_formatter chat_limits (\<lambda>_. Some (config_json JNull)) (Some ''document'') (Some pinned_template)
     = Inr \<lparr>cf_selected_template = pinned_template, cf_compiled = pinned_compiled\<rparr>"
    by (simp add: load_chat_formatter_def read_file_def config_json_accepted selected_template_def config_json_fields pinned_compiles)
  with override_is_compiled [OF load] show ?thesis by simp
qed

end
