(* ===== verification/Model_Config.thy ===== *)
theory Model_Config
  imports Json Neural_Ops
begin

text \<open>
  The configuration of a model directory, \<open>src/src/model.cpp\<close>: the readers of single fields and
  \<open>load_tinyllama_config\<close>, which derives the head plan and accepts a document only when every
  dimension the rest of the program divides by or multiplies is usable. The JSON parser and the
  conversion of a JSON number to \<open>double\<close> are third-party code, arguments here.
\<close>

section \<open>Readers of single fields\<close>

definition kSupportedKeys :: "string list" where
  "kSupportedKeys =
     [''architectures'', ''model_type'', ''num_hidden_layers'', ''hidden_size'', ''intermediate_size'',
      ''num_attention_heads'', ''num_key_value_heads'', ''vocab_size'', ''max_position_embeddings'',
      ''hidden_act'', ''rms_norm_eps'', ''rope_theta'', ''attention_bias'', ''mlp_bias'',
      ''tie_word_embeddings'', ''rope_scaling'', ''pretraining_tp'', ''torch_dtype'', ''bos_token_id'',
      ''eos_token_id'', ''initializer_range'', ''transformers_version'', ''use_cache'', ''pad_token_id'']"

text \<open>A file that cannot be opened or read is \<open>None\<close>.\<close>

definition read_config_text :: "string option \<Rightarrow> string throws" where
  "read_config_text content = (case content of None \<Rightarrow> Inl RuntimeError | Some str \<Rightarrow> Inr str)"

definition model_field :: "json \<Rightarrow> string \<Rightarrow> json throws" where
  "model_field document field =
     (case json_find document field of None \<Rightarrow> Inl InvalidArgument | Some v \<Rightarrow> Inr v)"

text \<open>The bounds against the largest \<open>size_t\<close> hold of every 64-bit integer.\<close>

definition is_positive_size :: "json \<Rightarrow> bool" where
  "is_positive_size v =
     (case v of
        JUnsigned raw \<Rightarrow> raw > 0 \<and> raw \<le> - 1
      | JInteger raw \<Rightarrow> 0 <s raw \<and> raw \<le> - 1
      | _ \<Rightarrow> False)"

text \<open>Called on integers only.\<close>

definition to_size :: "json \<Rightarrow> usize" where
  "to_size v = (case v of JUnsigned raw \<Rightarrow> raw | JInteger raw \<Rightarrow> raw | _ \<Rightarrow> 0)"

definition require_positive_size :: "json \<Rightarrow> string \<Rightarrow> usize throws" where
  "require_positive_size document field =
     andThen (model_field document field) (\<lambda>v.
     if \<not> is_positive_size v then Inl InvalidArgument else Inr (to_size v))"

definition require_exact_size :: "json \<Rightarrow> string \<Rightarrow> usize \<Rightarrow> usize throws" where
  "require_exact_size document field expected =
     andThen (model_field document field) (\<lambda>v.
     if \<not> is_positive_size v \<or> to_size v \<noteq> expected then Inl InvalidArgument else Inr expected)"

definition require_exact_string :: "json \<Rightarrow> string \<Rightarrow> string \<Rightarrow> unit throws" where
  "require_exact_string document field expected =
     andThen (model_field document field) (\<lambda>v.
     case v of JString s \<Rightarrow> if s \<noteq> expected then Inl InvalidArgument else Inr () | _ \<Rightarrow> Inl InvalidArgument)"

definition require_supported_architectures :: "json \<Rightarrow> unit throws" where
  "require_supported_architectures document =
     andThen (model_field document ''architectures'') (\<lambda>v.
     case v of
       JArray [JString s] \<Rightarrow> if s \<noteq> ''LlamaForCausalLM'' then Inl InvalidArgument else Inr ()
     | _ \<Rightarrow> Inl InvalidArgument)"

definition is_number :: "json \<Rightarrow> bool" where
  "is_number v = (case v of JUnsigned _ \<Rightarrow> True | JInteger _ \<Rightarrow> True | JOther \<Rightarrow> True | _ \<Rightarrow> False)"

definition require_positive_float :: "(json \<Rightarrow> floating) \<Rightarrow> json \<Rightarrow> string \<Rightarrow> floating throws" where
  "require_positive_float get_double document field =
     andThen (model_field document field) (\<lambda>v.
     if is_number v \<and>
        (let raw = get_double v; narrowed = to_float raw in
         isfinite raw \<and> fp_less (Finite 0) raw \<and> isfinite narrowed \<and> fp_less (Finite 0) narrowed)
     then Inr (to_float (get_double v)) else Inl InvalidArgument)"

definition require_positive_double :: "(json \<Rightarrow> floating) \<Rightarrow> json \<Rightarrow> string \<Rightarrow> floating throws" where
  "require_positive_double get_double document field =
     andThen (model_field document field) (\<lambda>v.
     if is_number v \<and> (let raw = get_double v in isfinite raw \<and> fp_less (Finite 0) raw)
     then Inr (get_double v) else Inl InvalidArgument)"

definition require_absent_or_false :: "json \<Rightarrow> string \<Rightarrow> unit throws" where
  "require_absent_or_false document field =
     (case json_find document field of
        None \<Rightarrow> Inr ()
      | Some (JBool b) \<Rightarrow> if b then Inl InvalidArgument else Inr ()
      | Some _ \<Rightarrow> Inl InvalidArgument)"

definition require_absent_or_null :: "json \<Rightarrow> string \<Rightarrow> unit throws" where
  "require_absent_or_null document field =
     (case json_find document field of
        None \<Rightarrow> Inr () | Some JNull \<Rightarrow> Inr () | Some _ \<Rightarrow> Inl InvalidArgument)"

definition require_absent_or_one :: "json \<Rightarrow> string \<Rightarrow> unit throws" where
  "require_absent_or_one document field =
     (case json_find document field of
        None \<Rightarrow> Inr ()
      | Some v \<Rightarrow> if \<not> is_positive_size v \<or> to_size v \<noteq> 1 then Inl InvalidArgument else Inr ())"

definition require_supported_keys :: "(string \<times> json) list \<Rightarrow> unit throws" where
  "require_supported_keys members =
     for_each members (\<lambda>(key, _) _. if \<not> list_ex (\<lambda>candidate. candidate = key) kSupportedKeys
                                   then Inl InvalidArgument else Inr ()) ()"

section \<open>The configuration\<close>

record TinyLlamaConfig =
  num_hidden_layers :: usize
  hidden_size :: usize
  intermediate_size :: usize
  num_attention_heads :: usize
  num_key_value_heads :: usize
  vocab_size :: usize
  max_position_embeddings :: usize
  head_dim :: usize
  bos_token_id :: usize
  eos_token_id :: usize
  rms_norm_eps :: floating
  config_rope_theta :: floating

text \<open>The checks that follow the fields: the token ids, then the head plan.\<close>

definition derive_head_plan :: "TinyLlamaConfig \<Rightarrow> TinyLlamaConfig throws" where
  "derive_head_plan config =
     (if bos_token_id config \<ge> vocab_size config then Inl InvalidArgument
      else if eos_token_id config \<ge> vocab_size config then Inl InvalidArgument
      else if hidden_size config mod num_attention_heads config \<noteq> 0 then Inl InvalidArgument
      else if num_attention_heads config mod num_key_value_heads config \<noteq> 0 then Inl InvalidArgument
      else let config = config\<lparr>head_dim := hidden_size config div num_attention_heads config\<rparr> in
      if head_dim config mod 2 \<noteq> 0 then Inl InvalidArgument
      else andThen (checked_mul (num_key_value_heads config) (head_dim config)) (\<lambda>_. Inr config))"

definition read_config_document :: "(json \<Rightarrow> floating) \<Rightarrow> json \<Rightarrow> TinyLlamaConfig throws" where
  "read_config_document get_double document =
     (case document of
        JObject members \<Rightarrow>
          if members = [] then Inl InvalidArgument else
          andThen (require_supported_keys members) (\<lambda>_.
          andThen (require_supported_architectures document) (\<lambda>_.
          andThen (require_exact_string document ''model_type'' ''llama'') (\<lambda>_.
          andThen (require_positive_size document ''num_hidden_layers'') (\<lambda>layers.
          andThen (require_positive_size document ''hidden_size'') (\<lambda>hidden.
          andThen (require_positive_size document ''intermediate_size'') (\<lambda>intermediate.
          andThen (require_positive_size document ''num_attention_heads'') (\<lambda>heads.
          andThen (require_positive_size document ''num_key_value_heads'') (\<lambda>kv_heads.
          andThen (require_positive_size document ''vocab_size'') (\<lambda>vocab.
          andThen (require_positive_size document ''max_position_embeddings'') (\<lambda>positions.
          andThen (require_exact_string document ''hidden_act'' ''silu'') (\<lambda>_.
          andThen (require_positive_float get_double document ''rms_norm_eps'') (\<lambda>eps.
          andThen (require_positive_double get_double document ''rope_theta'') (\<lambda>theta.
          andThen (require_absent_or_false document ''attention_bias'') (\<lambda>_.
          andThen (require_absent_or_false document ''mlp_bias'') (\<lambda>_.
          andThen (require_absent_or_false document ''tie_word_embeddings'') (\<lambda>_.
          andThen (require_absent_or_null document ''rope_scaling'') (\<lambda>_.
          andThen (require_absent_or_one document ''pretraining_tp'') (\<lambda>_.
          andThen (require_exact_string document ''torch_dtype'' ''bfloat16'') (\<lambda>_.
          andThen (require_exact_size document ''bos_token_id'' 1) (\<lambda>bos.
          andThen (require_exact_size document ''eos_token_id'' 2) (\<lambda>eos.
          derive_head_plan
            \<lparr>num_hidden_layers = layers, hidden_size = hidden, intermediate_size = intermediate,
             num_attention_heads = heads, num_key_value_heads = kv_heads, vocab_size = vocab,
             max_position_embeddings = positions, head_dim = 0, bos_token_id = bos, eos_token_id = eos,
             rms_norm_eps = eps, config_rope_theta = theta\<rparr>)))))))))))))))))))))
      | _ \<Rightarrow> Inl InvalidArgument)"

text \<open>The parser returns \<open>None\<close> for a text it rejects.\<close>

definition load_tinyllama_config ::
  "(string \<Rightarrow> json option) \<Rightarrow> (json \<Rightarrow> floating) \<Rightarrow> string option \<Rightarrow> TinyLlamaConfig throws" where
  "load_tinyllama_config json_parse get_double content =
     andThen (read_config_text content) (\<lambda>str.
     case json_parse str of
       None \<Rightarrow> Inl InvalidArgument
     | Some document \<Rightarrow> read_config_document get_double document)"

section \<open>What a field holds\<close>

text \<open>The value of a JSON integer.\<close>

definition json_int :: "json \<Rightarrow> int option" where
  "json_int v = (case v of JUnsigned raw \<Rightarrow> Some (uint raw) | JInteger raw \<Rightarrow> Some (sint raw) | _ \<Rightarrow> None)"

definition size_field :: "json \<Rightarrow> string \<Rightarrow> usize \<Rightarrow> bool" where
  "size_field document field n \<longleftrightarrow>
     0 < unat n \<and> (\<exists>v. json_find document field = Some v \<and> json_int v = Some (int (unat n)))"

lemma positive_signed: "0 <s (raw :: usize) \<longleftrightarrow> 0 < sint raw"
  by (simp add: word_sless_alt)

lemma positive_sint_uint: "0 < sint (raw :: usize) \<Longrightarrow> sint raw = uint raw"
  using sint_lt [of raw] by (simp add: uint_sint take_bit_int_eq_self)

lemma is_positive_size_iff: "is_positive_size v \<longleftrightarrow> (\<exists>n. json_int v = Some n \<and> 0 < n)"
  by (cases v) (auto simp: is_positive_size_def json_int_def positive_signed word_less_def)

lemma to_size_int: "json_int v = Some n \<Longrightarrow> 0 < n \<Longrightarrow> int (unat (to_size v)) = n"
  by (cases v) (auto simp: to_size_def json_int_def dest: positive_sint_uint)

lemma positive_size_value:
  "is_positive_size v \<and> to_size v = n \<longleftrightarrow> 0 < unat n \<and> json_int v = Some (int (unat n))"
proof
  assume "is_positive_size v \<and> to_size v = n"
  then obtain k where "json_int v = Some k" "0 < k" "to_size v = n" by (auto simp: is_positive_size_iff)
  moreover from this have "int (unat n) = k" using to_size_int by blast
  ultimately show "0 < unat n \<and> json_int v = Some (int (unat n))" by (metis of_nat_0_less_iff)
next
  assume n: "0 < unat n \<and> json_int v = Some (int (unat n))"
  then have "int (unat (to_size v)) = int (unat n)" using to_size_int [of v "int (unat n)"] by (metis of_nat_0_less_iff)
  then have "unat (to_size v) = unat n" by (simp only: of_nat_eq_iff)
  then have "to_size v = n" by (simp only: word_unat_eq_iff)
  moreover from n have "0 < int (unat n)" by (metis of_nat_0_less_iff)
  ultimately show "is_positive_size v \<and> to_size v = n" using n unfolding is_positive_size_iff by blast
qed

lemma model_field_iff: "model_field document field = Inr v \<longleftrightarrow> json_find document field = Some v"
  by (simp add: model_field_def split: option.split)

lemma require_positive_size_iff: "require_positive_size document field = Inr n \<longleftrightarrow> size_field document field n"
  using positive_size_value
  by (auto simp: require_positive_size_def size_field_def andThen_Inr_iff model_field_iff split: if_splits)

lemma require_exact_size_iff:
  "require_exact_size document field expected = Inr n \<longleftrightarrow> n = expected \<and> size_field document field expected"
  using positive_size_value
  by (auto simp: require_exact_size_def size_field_def andThen_Inr_iff model_field_iff split: if_splits)

lemma require_exact_string_iff:
  "require_exact_string document field expected = Inr () \<longleftrightarrow> json_find document field = Some (JString expected)"
proof -
  have "(case v of JString s \<Rightarrow> if s \<noteq> expected then Inl InvalidArgument else Inr () | _ \<Rightarrow> Inl InvalidArgument)
      = Inr () \<longleftrightarrow> v = JString expected" for v
    by (cases v) auto
  then show ?thesis by (simp add: require_exact_string_def andThen_Inr_iff model_field_iff)
qed

lemma require_supported_architectures_iff:
  "require_supported_architectures document = Inr ()
     \<longleftrightarrow> json_find document ''architectures'' = Some (JArray [JString ''LlamaForCausalLM''])"
proof -
  have "(case v of JArray [JString s] \<Rightarrow> if s \<noteq> ''LlamaForCausalLM'' then Inl InvalidArgument else Inr ()
           | _ \<Rightarrow> Inl InvalidArgument) = Inr () \<longleftrightarrow> v = JArray [JString ''LlamaForCausalLM'']" for v
    by (auto split: json.splits list.splits if_splits)
  then show ?thesis by (simp add: require_supported_architectures_def andThen_Inr_iff model_field_iff)
qed

text \<open>A positive finite number, as \<open>double\<close> and after narrowing to \<open>float\<close>.\<close>

definition positive_number :: "floating \<Rightarrow> bool" where
  "positive_number x \<longleftrightarrow> isfinite x \<and> fp_less (Finite 0) x"

lemma require_positive_double_iff:
  "require_positive_double G document field = Inr x
     \<longleftrightarrow> (\<exists>v. json_find document field = Some v \<and> is_number v \<and> x = G v \<and> positive_number x)"
  by (auto simp: require_positive_double_def andThen_Inr_iff model_field_iff positive_number_def Let_def
      split: if_splits)

lemma require_positive_float_iff:
  "require_positive_float G document field = Inr x
     \<longleftrightarrow> (\<exists>v. json_find document field = Some v \<and> is_number v \<and> positive_number (G v)
            \<and> x = to_float (G v) \<and> positive_number x)"
  by (auto simp: require_positive_float_def andThen_Inr_iff model_field_iff positive_number_def Let_def
      split: if_splits)

lemma require_absent_or_false_iff:
  "require_absent_or_false document field = Inr () \<longleftrightarrow> json_find document field \<in> {None, Some (JBool False)}"
  by (auto simp: require_absent_or_false_def split: option.splits json.splits if_splits)

lemma require_absent_or_null_iff:
  "require_absent_or_null document field = Inr () \<longleftrightarrow> json_find document field \<in> {None, Some JNull}"
  by (auto simp: require_absent_or_null_def split: option.splits json.splits)

lemma require_absent_or_one_iff:
  "require_absent_or_one document field = Inr ()
     \<longleftrightarrow> json_find document field = None \<or> size_field document field 1"
  using positive_size_value [of _ 1]
  by (auto simp: require_absent_or_one_def size_field_def split: option.splits if_splits)

lemma require_supported_keys_iff:
  "require_supported_keys members = Inr () \<longleftrightarrow> fst ` set members \<subseteq> set kSupportedKeys"
  unfolding require_supported_keys_def
  by (induction members) (auto simp: list_ex_iff andThen_unit_iff split: prod.splits if_splits)

lemmas field_iffs =
  require_positive_size_iff require_exact_size_iff require_exact_string_iff require_supported_architectures_iff
  require_positive_double_iff require_positive_float_iff require_absent_or_false_iff
  require_absent_or_null_iff require_absent_or_one_iff require_supported_keys_iff

section \<open>Accepted documents\<close>

text \<open>
  What a usable configuration is: the hidden width is the heads times their width, the key/value heads
  divide the heads, the head width is even and positive, and every count is positive.
\<close>

definition config_wf :: "TinyLlamaConfig \<Rightarrow> bool" where
  "config_wf c \<longleftrightarrow>
     0 < unat (num_hidden_layers c) \<and> 0 < unat (intermediate_size c) \<and> 0 < unat (max_position_embeddings c)
     \<and> 0 < unat (num_key_value_heads c) \<and> unat (num_key_value_heads c) dvd unat (num_attention_heads c)
     \<and> 0 < unat (head_dim c) \<and> even (unat (head_dim c))
     \<and> unat (hidden_size c) = unat (num_attention_heads c) * unat (head_dim c) \<and> 0 < unat (hidden_size c)
     \<and> bos_token_id c = 1 \<and> eos_token_id c = 2 \<and> 2 < unat (vocab_size c)
     \<and> positive_number (rms_norm_eps c) \<and> positive_number (config_rope_theta c)"

text \<open>The document says what the configuration holds, and nothing the loader does not support.\<close>

definition config_document :: "(json \<Rightarrow> floating) \<Rightarrow> json \<Rightarrow> TinyLlamaConfig \<Rightarrow> bool" where
  "config_document G document c \<longleftrightarrow>
     (\<exists>members. document = JObject members \<and> members \<noteq> [] \<and> fst ` set members \<subseteq> set kSupportedKeys)
     \<and> json_find document ''architectures'' = Some (JArray [JString ''LlamaForCausalLM''])
     \<and> json_find document ''model_type'' = Some (JString ''llama'')
     \<and> size_field document ''num_hidden_layers'' (num_hidden_layers c)
     \<and> size_field document ''hidden_size'' (hidden_size c)
     \<and> size_field document ''intermediate_size'' (intermediate_size c)
     \<and> size_field document ''num_attention_heads'' (num_attention_heads c)
     \<and> size_field document ''num_key_value_heads'' (num_key_value_heads c)
     \<and> size_field document ''vocab_size'' (vocab_size c)
     \<and> size_field document ''max_position_embeddings'' (max_position_embeddings c)
     \<and> json_find document ''hidden_act'' = Some (JString ''silu'')
     \<and> (\<exists>v. json_find document ''rms_norm_eps'' = Some v \<and> is_number v \<and> positive_number (G v)
          \<and> rms_norm_eps c = to_float (G v) \<and> positive_number (rms_norm_eps c))
     \<and> (\<exists>v. json_find document ''rope_theta'' = Some v \<and> is_number v \<and> config_rope_theta c = G v
          \<and> positive_number (config_rope_theta c))
     \<and> json_find document ''attention_bias'' \<in> {None, Some (JBool False)}
     \<and> json_find document ''mlp_bias'' \<in> {None, Some (JBool False)}
     \<and> json_find document ''tie_word_embeddings'' \<in> {None, Some (JBool False)}
     \<and> json_find document ''rope_scaling'' \<in> {None, Some JNull}
     \<and> (json_find document ''pretraining_tp'' = None \<or> size_field document ''pretraining_tp'' 1)
     \<and> json_find document ''torch_dtype'' = Some (JString ''bfloat16'')
     \<and> size_field document ''bos_token_id'' (bos_token_id c) \<and> bos_token_id c = 1
     \<and> size_field document ''eos_token_id'' (eos_token_id c) \<and> eos_token_id c = 2"

text \<open>The head plan, read as numbers.\<close>

definition head_plan :: "TinyLlamaConfig \<Rightarrow> TinyLlamaConfig \<Rightarrow> bool" where
  "head_plan c0 c \<longleftrightarrow>
     c = c0\<lparr>head_dim := head_dim c\<rparr> \<and> unat (bos_token_id c) < unat (vocab_size c)
     \<and> unat (eos_token_id c) < unat (vocab_size c)
     \<and> unat (num_key_value_heads c) dvd unat (num_attention_heads c) \<and> even (unat (head_dim c))
     \<and> unat (hidden_size c) = unat (num_attention_heads c) * unat (head_dim c)"

lemma word_mod_eq_0: "(a :: usize) mod b = 0 \<longleftrightarrow> unat b dvd unat a"
  by (simp add: word_unat_eq_iff unat_mod dvd_eq_mod_eq_0)

lemma even_usize: "even (a :: usize) \<longleftrightarrow> even (unat a)"
proof -
  have "even a \<longleftrightarrow> a mod 2 = 0" by (rule even_iff_mod_2_eq_zero)
  also have "\<dots> \<longleftrightarrow> even (unat a)" using word_mod_eq_0 [of a 2] by simp
  finally show ?thesis .
qed

lemma grouped_width_fits:
  assumes "unat kv dvd unat heads" and "0 < unat heads" and "unat (h :: usize) = unat (heads :: usize) * unat d"
  shows "\<exists>w. checked_mul kv d = Inr w \<and> unat w = unat kv * unat d"
proof -
  have "unat kv * unat d \<le> unat h"
    using assms(3) dvd_imp_le [OF assms(1,2)] by simp
  then have "unat kv * unat d < 2 ^ 64" using unat_less [of h] by linarith
  then show ?thesis by (simp add: checked_mul_cases unat_mult_small)
qed

lemma derive_head_plan_iff:
  assumes "0 < unat (num_attention_heads c0)"
  shows "derive_head_plan c0 = Inr c \<longleftrightarrow> head_plan c0 c"
proof
  assume "derive_head_plan c0 = Inr c"
  then have le: "\<not> bos_token_id c0 \<ge> vocab_size c0" "\<not> eos_token_id c0 \<ge> vocab_size c0"
    and m: "hidden_size c0 mod num_attention_heads c0 = 0" "num_attention_heads c0 mod num_key_value_heads c0 = 0"
    and c: "c = c0\<lparr>head_dim := hidden_size c0 div num_attention_heads c0\<rparr>" and e: "even (head_dim c)"
    by (simp_all only: derive_head_plan_def Let_def guard_Inr_iff andThen_Inr_iff not_not sum.inject) auto
  from e have "even (unat (head_dim c))" by (simp only: even_usize)
  with le m show "head_plan c0 c"
    by (simp add: head_plan_def c word_mod_eq_0 unat_div word_le_nat_alt)
next
  assume plan: "head_plan c0 c"
  define d where "d = head_dim c"
  have c: "c = c0\<lparr>head_dim := d\<rparr>" using plan by (simp add: head_plan_def d_def)
  have "hidden_size c0 div num_attention_heads c0 = head_dim c"
    using plan assms by (simp add: head_plan_def c word_unat_eq_iff unat_div)
  moreover have "\<exists>w. checked_mul (num_key_value_heads c) (head_dim c) = Inr w"
    using plan assms grouped_width_fits [of "num_key_value_heads c" "num_attention_heads c" "hidden_size c" "head_dim c"]
    by (auto simp: head_plan_def c)
  moreover have "head_dim c mod 2 = 0" "hidden_size c0 mod num_attention_heads c0 = 0"
    "num_attention_heads c0 mod num_key_value_heads c0 = 0"
    using plan by (auto simp: head_plan_def word_mod_eq_0 c)
  ultimately show "derive_head_plan c0 = Inr c"
    using plan by (auto simp: derive_head_plan_def head_plan_def Let_def word_le_nat_alt c)
qed

lemma derive_head_plan_errors:
  assumes "0 < unat (num_attention_heads c0)" and "derive_head_plan c0 = Inl e"
  shows "e = InvalidArgument"
proof (rule ccontr)
  assume e: "e \<noteq> InvalidArgument"
  let ?d = "hidden_size c0 div num_attention_heads c0"
  from assms(2) e have m: "hidden_size c0 mod num_attention_heads c0 = 0"
    "num_attention_heads c0 mod num_key_value_heads c0 = 0"
    and err: "checked_mul (num_key_value_heads c0) ?d = Inl e"
    by (auto simp: derive_head_plan_def Let_def andThen_Inl_iff simp del: mod_eq_0_iff_dvd split: if_splits)
  have "unat (hidden_size c0) = unat (num_attention_heads c0) * unat ?d"
    using m(1) by (simp add: word_mod_eq_0 unat_div)
  moreover have "unat (num_key_value_heads c0) dvd unat (num_attention_heads c0)"
    using m(2) by (simp only: word_mod_eq_0)
  ultimately obtain w where "checked_mul (num_key_value_heads c0) ?d = Inr w"
    using grouped_width_fits assms(1) by blast
  with err show False by simp
qed

lemma size_field_pos: "size_field document field n \<Longrightarrow> 0 < unat n"
  by (simp add: size_field_def)

lemma derive_head_plan_cases:
  assumes "derive_head_plan c0 = Inr c" and "0 < unat (num_attention_heads c0)"
  obtains d where "c = c0\<lparr>head_dim := d\<rparr>" "head_plan c0 (c0\<lparr>head_dim := d\<rparr>)"
proof -
  from assms have "head_plan c0 c" by (simp add: derive_head_plan_iff)
  moreover from this have "c = c0\<lparr>head_dim := head_dim c\<rparr>" by (simp add: head_plan_def)
  ultimately show ?thesis using that by metis
qed

text \<open>The configuration the fields of a document give, before the head width is known.\<close>

definition raw_config :: "TinyLlamaConfig \<Rightarrow> TinyLlamaConfig" where
  "raw_config c = c\<lparr>head_dim := 0\<rparr>"

lemma read_config_document_iff:
  "read_config_document G document = Inr c \<longleftrightarrow>
     (\<exists>c0. head_dim c0 = 0 \<and> config_document G document c0 \<and> derive_head_plan c0 = Inr c)"
proof (cases document)
  case (JObject members)
  show ?thesis
  proof
    assume "read_config_document G document = Inr c"
    note read = this [unfolded JObject read_config_document_def json.case guard_Inr_iff andThen_Inr_iff]
    from read show "\<exists>c0. head_dim c0 = 0 \<and> config_document G document c0 \<and> derive_head_plan c0 = Inr c"
    proof (elim exE conjE, goal_cases)
      case fields: (1 u1 u2 u3 a b d e f g h u4 l m u5 u6 u7 u8 u9 u10 j k)
      show ?case
        by (rule exI [of _ "\<lparr>num_hidden_layers = a, hidden_size = b, intermediate_size = d,
             num_attention_heads = e, num_key_value_heads = f, vocab_size = g,
             max_position_embeddings = h, head_dim = 0, bos_token_id = j, eos_token_id = k,
             rms_norm_eps = l, config_rope_theta = m\<rparr>"])
          (use fields in \<open>simp add: config_document_def JObject field_iffs\<close>)
    qed
  next
    assume "\<exists>c0. head_dim c0 = 0 \<and> config_document G document c0 \<and> derive_head_plan c0 = Inr c"
    then obtain c0 where "head_dim c0 = 0" "config_document G document c0" "derive_head_plan c0 = Inr c" by blast
    moreover obtain a b d e f g h i j k l m where "c0 = \<lparr>num_hidden_layers = a, hidden_size = b, intermediate_size = d,
             num_attention_heads = e, num_key_value_heads = f, vocab_size = g,
             max_position_embeddings = h, head_dim = i, bos_token_id = j, eos_token_id = k,
             rms_norm_eps = l, config_rope_theta = m\<rparr>" by (cases c0) auto
    ultimately have fields: "members \<noteq> []" "require_supported_keys members = Inr ()"
        "require_supported_architectures document = Inr ()"
        "require_exact_string document ''model_type'' ''llama'' = Inr ()"
        "require_positive_size document ''num_hidden_layers'' = Inr a"
        "require_positive_size document ''hidden_size'' = Inr b"
        "require_positive_size document ''intermediate_size'' = Inr d"
        "require_positive_size document ''num_attention_heads'' = Inr e"
        "require_positive_size document ''num_key_value_heads'' = Inr f"
        "require_positive_size document ''vocab_size'' = Inr g"
        "require_positive_size document ''max_position_embeddings'' = Inr h"
        "require_exact_string document ''hidden_act'' ''silu'' = Inr ()"
        "require_positive_float G document ''rms_norm_eps'' = Inr l"
        "require_positive_double G document ''rope_theta'' = Inr m"
        "require_absent_or_false document ''attention_bias'' = Inr ()"
        "require_absent_or_false document ''mlp_bias'' = Inr ()"
        "require_absent_or_false document ''tie_word_embeddings'' = Inr ()"
        "require_absent_or_null document ''rope_scaling'' = Inr ()"
        "require_absent_or_one document ''pretraining_tp'' = Inr ()"
        "require_exact_string document ''torch_dtype'' ''bfloat16'' = Inr ()"
        "require_exact_size document ''bos_token_id'' 1 = Inr j"
        "require_exact_size document ''eos_token_id'' 2 = Inr k"
      and "derive_head_plan \<lparr>num_hidden_layers = a, hidden_size = b, intermediate_size = d,
             num_attention_heads = e, num_key_value_heads = f, vocab_size = g,
             max_position_embeddings = h, head_dim = 0, bos_token_id = j, eos_token_id = k,
             rms_norm_eps = l, config_rope_theta = m\<rparr> = Inr c"
      by (auto simp: config_document_def field_iffs JObject)
    then show "read_config_document G document = Inr c"
      by (simp add: JObject read_config_document_def)
  qed
qed (simp_all add: read_config_document_def config_document_def)

lemma config_document_head_dim: "config_document G document (c\<lparr>head_dim := d\<rparr>) = config_document G document c"
  by (cases c) (simp only: config_document_def TinyLlamaConfig.simps)

lemma accepted_config_wf:
  assumes "head_dim c0 = 0" and "config_document G document c0" and "head_plan c0 c"
  shows "config_document G document c \<and> config_wf c"
proof -
  obtain d where c: "c = c0\<lparr>head_dim := d\<rparr>" using assms(3) by (auto simp: head_plan_def)
  have pos: "0 < unat (num_hidden_layers c0)" "0 < unat (hidden_size c0)" "0 < unat (intermediate_size c0)"
    "0 < unat (num_attention_heads c0)" "0 < unat (num_key_value_heads c0)" "0 < unat (max_position_embeddings c0)"
    using assms(2) by (simp_all add: config_document_def size_field_def)
  have "0 < unat d" using assms(3) pos(2) by (intro gr0I) (simp add: c head_plan_def)
  moreover have "positive_number (rms_norm_eps c0)" "positive_number (config_rope_theta c0)"
    "bos_token_id c0 = 1" "eos_token_id c0 = 2"
    using assms(2) by (auto simp only: config_document_def)
  ultimately show ?thesis
    using assms(2,3) pos by (simp add: c config_document_head_dim config_wf_def head_plan_def)
qed

lemma wf_config_accepted:
  assumes "config_document G document c" and "config_wf c"
  shows "read_config_document G document = Inr c"
proof -
  have heads: "0 < unat (num_attention_heads c)" using assms(2) by (auto simp: config_wf_def intro!: gr0I)
  have "head_plan (c\<lparr>head_dim := 0\<rparr>) c" using assms(2) by (simp add: head_plan_def config_wf_def)
  then have "derive_head_plan (c\<lparr>head_dim := 0\<rparr>) = Inr c" using heads by (simp add: derive_head_plan_iff)
  moreover have "config_document G document (c\<lparr>head_dim := 0\<rparr>)"
    using assms(1) by (simp only: config_document_head_dim)
  ultimately show ?thesis by (force simp: read_config_document_iff)
qed

lemma read_config_accepted:
  "read_config_document G document = Inr c \<longleftrightarrow> config_document G document c \<and> config_wf c"
proof
  assume "read_config_document G document = Inr c"
  then obtain c0 where "head_dim c0 = 0" and doc: "config_document G document c0" and "derive_head_plan c0 = Inr c"
    unfolding read_config_document_iff by blast
  moreover from doc have "0 < unat (num_attention_heads c0)" by (simp add: config_document_def size_field_def)
  ultimately show "config_document G document c \<and> config_wf c"
    using accepted_config_wf by (simp add: derive_head_plan_iff)
qed (use wf_config_accepted in blast)

lemma accepted_config_is_wf: "load_tinyllama_config json_parse G content = Inr c \<Longrightarrow> config_wf c"
  by (auto simp: load_tinyllama_config_def read_config_text_def read_config_accepted split: option.splits)


section \<open>Rejected documents\<close>

text \<open>
  A rejection is an invalid argument, whatever the document holds: the product of the key/value heads
  and the head width, which is checked for overflow, never overflows.
\<close>

definition rejects :: "'a throws \<Rightarrow> bool" where
  "rejects m \<longleftrightarrow> (\<forall>e. m = Inl e \<longrightarrow> e = InvalidArgument)"

lemma rejects_simps [simp]: "rejects (Inr x)" "rejects (Inl e) \<longleftrightarrow> e = InvalidArgument"
  by (auto simp: rejects_def)

lemma rejects_andThen: "rejects m \<Longrightarrow> (\<And>x. m = Inr x \<Longrightarrow> rejects (f x)) \<Longrightarrow> rejects (andThen m f)"
  by (cases m) auto

lemma rejects_model_field: "rejects (model_field document field)"
  by (simp add: model_field_def split: option.split)

lemma rejects_readers:
  "rejects (require_positive_size document field)" "rejects (require_exact_size document field n)"
  "rejects (require_exact_string document field s)" "rejects (require_positive_float G document field)"
  "rejects (require_positive_double G document field)" "rejects (require_supported_architectures document)"
  "rejects (require_absent_or_false document field)" "rejects (require_absent_or_null document field)"
  "rejects (require_absent_or_one document field)"
  unfolding require_positive_size_def require_exact_size_def require_exact_string_def
    require_positive_float_def require_positive_double_def require_supported_architectures_def
    require_absent_or_false_def require_absent_or_null_def require_absent_or_one_def
  by (auto intro!: rejects_andThen rejects_model_field split: json.split list.split option.split)

lemma rejects_supported_keys: "rejects (require_supported_keys members)"
  unfolding require_supported_keys_def
  by (induction members) (auto intro!: rejects_andThen split: prod.split)

lemma rejects_read_config: "rejects (read_config_document G document)"
proof (cases document)
  case (JObject members)
  have "rejects (derive_head_plan c0)" if "require_positive_size document field = Inr (num_attention_heads c0)" for field c0
    using derive_head_plan_errors [of c0] size_field_pos that
    by (auto simp: rejects_def require_positive_size_iff)
  then show ?thesis
    unfolding JObject read_config_document_def json.case
    by (simp, intro impI rejects_andThen rejects_readers rejects_supported_keys) (simp add: JObject)
qed (simp_all add: read_config_document_def)

lemma config_errors:
  "load_tinyllama_config json_parse G content = Inl e \<Longrightarrow>
     e = (if content = None then RuntimeError else InvalidArgument)"
  using rejects_read_config
  by (auto simp: load_tinyllama_config_def read_config_text_def rejects_def split: option.splits)

section \<open>A document\<close>

definition sample_config_json :: json where
  "sample_config_json = JObject
     [(''architectures'', JArray [JString ''LlamaForCausalLM'']), (''model_type'', JString ''llama''),
      (''num_hidden_layers'', JUnsigned 1), (''hidden_size'', JUnsigned 2), (''intermediate_size'', JUnsigned 1),
      (''num_attention_heads'', JUnsigned 1), (''num_key_value_heads'', JInteger 1), (''vocab_size'', JUnsigned 3),
      (''max_position_embeddings'', JUnsigned 8), (''hidden_act'', JString ''silu''), (''rms_norm_eps'', JUnsigned 1),
      (''rope_theta'', JUnsigned 10000), (''mlp_bias'', JBool False), (''rope_scaling'', JNull),
      (''pretraining_tp'', JUnsigned 1), (''torch_dtype'', JString ''bfloat16''),
      (''bos_token_id'', JUnsigned 1), (''eos_token_id'', JUnsigned 2)]"

definition sample_double :: "json \<Rightarrow> floating" where
  "sample_double v = (case v of JUnsigned raw \<Rightarrow> Finite (of_int (uint raw)) | _ \<Rightarrow> NaN)"

definition sample_config :: TinyLlamaConfig where
  "sample_config =
     \<lparr>num_hidden_layers = 1, hidden_size = 2, intermediate_size = 1, num_attention_heads = 1,
      num_key_value_heads = 1, vocab_size = 3, max_position_embeddings = 8, head_dim = 2,
      bos_token_id = 1, eos_token_id = 2, rms_norm_eps = Finite 1, config_rope_theta = Finite 10000\<rparr>"

lemma sample_config_loads:
  "load_tinyllama_config (\<lambda>_. Some sample_config_json) sample_double (Some ''config'') = Inr sample_config"
  by code_simp

end
