(* ===== verification/Model_Source.thy ===== *)
theory Model_Source
  imports Model_Config Safetensors
begin

text \<open>
  The mapped weight source, \<open>load_tinyllama_safetensors\<close> in \<open>src/src/model.cpp\<close>: the schema of the
  weights that a configuration requires, with its checked totals, and the selection of exactly those
  tensors from a directory of safetensors files. The theorem says when a directory is published and
  that the published inventory is the canonical one.
\<close>

section \<open>Roles and identities\<close>

datatype ModelWeightRole =
    token_embedding | final_norm | lm_head | input_norm | post_attention_norm | query_role | key_role
  | value_role | attention_output | mlp_gate | mlp_up | mlp_down

record ModelWeightId =
  weight_role :: ModelWeightRole
  weight_layer :: "usize option"

record ModelWeightInfo =
  weight_id :: ModelWeightId
  logical_shape :: TensorShape

section \<open>The schema\<close>

record WeightRoleSchema =
  schema_role :: ModelWeightRole
  schema_name :: string
  layer_scoped :: bool
  source_shape :: "usize list"
  schema_spec :: TensorSpec

record WeightPlan =
  required_count :: usize
  aggregate_logical_nbytes :: usize
  aggregate_tiled_nbytes :: usize
  plan_globals :: "WeightRoleSchema list"
  plan_layer_roles :: "WeightRoleSchema list"

abbreviation kSelectedDataType :: DataType where "kSelectedDataType \<equiv> BF16"

abbreviation kSelectedQuantization :: QuantizationFormat where "kSelectedQuantization \<equiv> NONE"

definition selected_spec :: "TensorShape \<Rightarrow> TensorSpec" where
  "selected_spec logical = \<lparr>shape = logical, data_type = kSelectedDataType, quantization = kSelectedQuantization\<rparr>"

definition adapted_logical_shape :: "usize list \<Rightarrow> usize list" where
  "adapted_logical_shape dims = (if length dims = 1 then 1 # dims else dims)"

definition make_role_schema :: "ModelWeightRole \<Rightarrow> string \<Rightarrow> bool \<Rightarrow> usize list \<Rightarrow> WeightRoleSchema throws" where
  "make_role_schema role name scoped dims =
     andThen (make_shape (adapted_logical_shape dims)) (\<lambda>logical.
     Inr \<lparr>schema_role = role, schema_name = name, layer_scoped = scoped, source_shape = dims,
          schema_spec = selected_spec logical\<rparr>)"

record SchemaTotals =
  total_logical_nbytes :: usize
  total_tiled_nbytes :: usize

definition checked_schema_totals :: "WeightRoleSchema list \<Rightarrow> SchemaTotals throws" where
  "checked_schema_totals schemas =
     for_each schemas (\<lambda>schema totals.
       andThen (element_count (shape (schema_spec schema))) (\<lambda>_.
       andThen (logical_nbytes (schema_spec schema)) (\<lambda>logical.
       andThen (checked_add (total_logical_nbytes totals) logical) (\<lambda>logical_total.
       andThen (tiled_storage_nbytes (schema_spec schema)) (\<lambda>tiled.
       andThen (checked_add (total_tiled_nbytes totals) tiled) (\<lambda>tiled_total.
       Inr \<lparr>total_logical_nbytes = logical_total, total_tiled_nbytes = tiled_total\<rparr>))))))
       \<lparr>total_logical_nbytes = 0, total_tiled_nbytes = 0\<rparr>"

definition checked_required_count :: "TinyLlamaConfig \<Rightarrow> usize throws" where
  "checked_required_count config =
     andThen (checked_mul 9 (num_hidden_layers config)) (\<lambda>layers. checked_add 3 layers)"

text \<open>The initializer lists of the two parts of the schema: role, name and source shape.\<close>

definition global_roles :: "TinyLlamaConfig \<Rightarrow> (ModelWeightRole \<times> string \<times> usize list) list" where
  "global_roles config =
     [(token_embedding, ''model.embed_tokens.weight'', [vocab_size config, hidden_size config]),
      (final_norm, ''model.norm.weight'', [hidden_size config]),
      (lm_head, ''lm_head.weight'', [vocab_size config, hidden_size config])]"

definition layer_roles :: "TinyLlamaConfig \<Rightarrow> usize \<Rightarrow> (ModelWeightRole \<times> string \<times> usize list) list" where
  "layer_roles config kv_width =
     [(input_norm, ''input_layernorm.weight'', [hidden_size config]),
      (post_attention_norm, ''post_attention_layernorm.weight'', [hidden_size config]),
      (query_role, ''self_attn.q_proj.weight'', [hidden_size config, hidden_size config]),
      (key_role, ''self_attn.k_proj.weight'', [kv_width, hidden_size config]),
      (value_role, ''self_attn.v_proj.weight'', [kv_width, hidden_size config]),
      (attention_output, ''self_attn.o_proj.weight'', [hidden_size config, hidden_size config]),
      (mlp_gate, ''mlp.gate_proj.weight'', [intermediate_size config, hidden_size config]),
      (mlp_up, ''mlp.up_proj.weight'', [intermediate_size config, hidden_size config]),
      (mlp_down, ''mlp.down_proj.weight'', [hidden_size config, intermediate_size config])]"

definition make_schemas ::
  "bool \<Rightarrow> (ModelWeightRole \<times> string \<times> usize list) list \<Rightarrow> WeightRoleSchema list throws" where
  "make_schemas scoped roles =
     for_each roles (\<lambda>(role, name, dims) schemas.
       andThen (make_role_schema role name scoped dims) (\<lambda>schema. Inr (schemas @ [schema]))) []"

definition build_weight_plan :: "TinyLlamaConfig \<Rightarrow> usize \<Rightarrow> WeightPlan throws" where
  "build_weight_plan config count =
     andThen (checked_mul (num_key_value_heads config) (head_dim config)) (\<lambda>kv_width.
     andThen (make_schemas False (global_roles config)) (\<lambda>globals_list.
     andThen (make_schemas True (layer_roles config kv_width)) (\<lambda>layer_list.
     andThen (checked_schema_totals globals_list) (\<lambda>globals_total.
     andThen (checked_schema_totals layer_list) (\<lambda>layers_total.
     andThen (checked_mul (total_logical_nbytes layers_total) (num_hidden_layers config)) (\<lambda>layers_logical.
     andThen (checked_add (total_logical_nbytes globals_total) layers_logical) (\<lambda>logical.
     andThen (checked_mul (total_tiled_nbytes layers_total) (num_hidden_layers config)) (\<lambda>layers_tiled.
     andThen (checked_add (total_tiled_nbytes globals_total) layers_tiled) (\<lambda>tiled.
     Inr \<lparr>required_count = count, aggregate_logical_nbytes = logical, aggregate_tiled_nbytes = tiled,
          plan_globals = globals_list, plan_layer_roles = layer_list\<rparr>)))))))))"

section \<open>Selection\<close>

definition weight_name :: "WeightRoleSchema \<Rightarrow> usize option \<Rightarrow> string" where
  "weight_name schema layer =
     (if \<not> layer_scoped schema then schema_name schema
      else ''model.layers.'' @ to_string (unat (the layer)) @ ''.'' @ schema_name schema)"

text \<open>Only the range error of a missing name is translated.\<close>

definition required_view :: "SafeTensorsStore \<Rightarrow> string \<Rightarrow> SafeTensorView throws" where
  "required_view store name =
     (case store_at store name of
        Inl OutOfRange \<Rightarrow> Inl InvalidArgument | Inl e \<Rightarrow> Inl e | Inr view \<Rightarrow> Inr view)"

text \<open>A borrowed span of a mapping: its path, the offset of its first byte and its length.\<close>

type_synonym payload = "string \<times> usize \<times> usize"

definition append_selected ::
  "SafeTensorsStore \<Rightarrow> WeightRoleSchema \<times> usize option
     \<Rightarrow> ModelWeightInfo list \<times> TensorSpec list \<times> payload list
     \<Rightarrow> (ModelWeightInfo list \<times> TensorSpec list \<times> payload list) throws" where
  "append_selected store = (\<lambda>(schema, layer) (weights, specs, payloads).
     andThen (required_view store (weight_name schema layer)) (\<lambda>view.
     if view_shape view \<noteq> source_shape schema \<or> view_dtype view \<noteq> kSelectedDataType then Inl InvalidArgument
     else andThen (logical_nbytes (schema_spec schema)) (\<lambda>nbytes.
     if view_nbytes view \<noteq> nbytes then Inl InvalidArgument
     else let dims = dimensions (shape (schema_spec schema)) in
     andThen (make_shape dims) (\<lambda>logical.
     Inr (weights @ [\<lparr>weight_id = \<lparr>weight_role = schema_role schema, weight_layer = layer\<rparr>, logical_shape = logical\<rparr>],
          specs @ [selected_spec logical],
          payloads @ [(view_mapping view, view_offset view, view_nbytes view)])))))"

text \<open>
  The parser throws an exception of its own, which only this boundary translates; nothing else in the
  reader throws it.
\<close>

definition open_mapped_store :: "(bytes \<Rightarrow> json option) \<Rightarrow> DirectoryEntry list \<Rightarrow> SafeTensorsStore throws" where
  "open_mapped_store header_parse entries =
     (case load_directory
             (\<lambda>header. case header_parse header of None \<Rightarrow> Inl OtherException | Some v \<Rightarrow> Inr v) entries of
        Inl OtherException \<Rightarrow> Inl RuntimeError
      | Inl e \<Rightarrow> Inl e
      | Inr store \<Rightarrow> Inr store)"

text \<open>The size of the map, which has one entry for each key.\<close>

definition store_size :: "SafeTensorsStore \<Rightarrow> nat" where
  "store_size store = length (store_keys store)"

record ModelSource =
  source_config :: TinyLlamaConfig
  source_store :: SafeTensorsStore
  source_weights :: "ModelWeightInfo list"
  source_specs :: "TensorSpec list"
  source_payloads :: "payload list"

definition tensor_spec :: "ModelSource \<Rightarrow> nat \<Rightarrow> TensorSpec throws" where
  "tensor_spec source index =
     (if index < length (source_specs source) then Inr (source_specs source ! index) else Inl OutOfRange)"

definition load_tinyllama_safetensors ::
  "(string \<Rightarrow> json option) \<Rightarrow> (json \<Rightarrow> floating) \<Rightarrow> (bytes \<Rightarrow> json option)
     \<Rightarrow> string option \<Rightarrow> DirectoryEntry list \<Rightarrow> ModelSource throws" where
  "load_tinyllama_safetensors config_parse get_double header_parse config_content entries =
     andThen (load_tinyllama_config config_parse get_double config_content) (\<lambda>config.
     andThen (checked_required_count config) (\<lambda>count.
     andThen (open_mapped_store header_parse entries) (\<lambda>store.
     if store_size store = 0 then Inl InvalidArgument
     else andThen (build_weight_plan config count) (\<lambda>plan.
     if store_size store < unat (required_count plan) then Inl InvalidArgument
     else
     andThen (for_each (plan_globals plan) (\<lambda>schema. append_selected store (schema, None)) ([], [], [])) (\<lambda>selected.
     andThen (for_each [0..<unat (num_hidden_layers config)] (\<lambda>layer.
                for_each (plan_layer_roles plan) (\<lambda>schema. append_selected store (schema, Some (of_nat layer))))
                selected) (\<lambda>(weights, specs, payloads).
     Inr \<lparr>source_config = config, source_store = store, source_weights = weights, source_specs = specs,
          source_payloads = payloads\<rparr>))))))"

section \<open>The canonical inventory\<close>

text \<open>What a source publishes, stated by role: the order, the name in the checkpoint and the stored shape.\<close>

definition layer_ids :: "nat \<Rightarrow> ModelWeightId list" where
  "layer_ids l =
     map (\<lambda>role. \<lparr>weight_role = role, weight_layer = Some (of_nat l)\<rparr>)
       [input_norm, post_attention_norm, query_role, key_role, value_role, attention_output,
        mlp_gate, mlp_up, mlp_down]"

definition canonical_ids :: "nat \<Rightarrow> ModelWeightId list" where
  "canonical_ids layers =
     map (\<lambda>role. \<lparr>weight_role = role, weight_layer = None\<rparr>) [token_embedding, final_norm, lm_head]
     @ concat (map layer_ids [0..<layers])"

fun role_name :: "ModelWeightRole \<Rightarrow> string" where
  "role_name token_embedding = ''model.embed_tokens.weight''"
| "role_name final_norm = ''model.norm.weight''"
| "role_name lm_head = ''lm_head.weight''"
| "role_name input_norm = ''input_layernorm.weight''"
| "role_name post_attention_norm = ''post_attention_layernorm.weight''"
| "role_name query_role = ''self_attn.q_proj.weight''"
| "role_name key_role = ''self_attn.k_proj.weight''"
| "role_name value_role = ''self_attn.v_proj.weight''"
| "role_name attention_output = ''self_attn.o_proj.weight''"
| "role_name mlp_gate = ''mlp.gate_proj.weight''"
| "role_name mlp_up = ''mlp.up_proj.weight''"
| "role_name mlp_down = ''mlp.down_proj.weight''"

fun role_shape :: "TinyLlamaConfig \<Rightarrow> ModelWeightRole \<Rightarrow> usize list" where
  "role_shape c role =
     (case role of
        token_embedding \<Rightarrow> [vocab_size c, hidden_size c]
      | lm_head \<Rightarrow> [vocab_size c, hidden_size c]
      | final_norm \<Rightarrow> [hidden_size c]
      | input_norm \<Rightarrow> [hidden_size c]
      | post_attention_norm \<Rightarrow> [hidden_size c]
      | query_role \<Rightarrow> [hidden_size c, hidden_size c]
      | key_role \<Rightarrow> [num_key_value_heads c * head_dim c, hidden_size c]
      | value_role \<Rightarrow> [num_key_value_heads c * head_dim c, hidden_size c]
      | attention_output \<Rightarrow> [hidden_size c, hidden_size c]
      | mlp_gate \<Rightarrow> [intermediate_size c, hidden_size c]
      | mlp_up \<Rightarrow> [intermediate_size c, hidden_size c]
      | mlp_down \<Rightarrow> [hidden_size c, intermediate_size c])"

definition checkpoint_name :: "ModelWeightId \<Rightarrow> string" where
  "checkpoint_name i =
     (case weight_layer i of
        None \<Rightarrow> role_name (weight_role i)
      | Some l \<Rightarrow> ''model.layers.'' @ to_string (unat l) @ ''.'' @ role_name (weight_role i))"

definition role_spec :: "TinyLlamaConfig \<Rightarrow> ModelWeightRole \<Rightarrow> TensorSpec" where
  "role_spec c role = selected_spec (TensorShape (adapted_logical_shape (role_shape c role)))"

text \<open>The store has the tensor of an entry, with the shape, type and length the configuration requires.\<close>

definition provides :: "SafeTensorsStore \<Rightarrow> TinyLlamaConfig \<Rightarrow> ModelWeightId \<Rightarrow> bool" where
  "provides store c i =
     (case tensors_map store (checkpoint_name i) of
        None \<Rightarrow> False
      | Some view \<Rightarrow> view_shape view = role_shape c (weight_role i) \<and> view_dtype view = BF16
          \<and> unat (view_nbytes view) = 2 * logical_elements (shape (role_spec c (weight_role i))))"

definition payload_of :: "SafeTensorsStore \<Rightarrow> ModelWeightId \<Rightarrow> payload" where
  "payload_of store i =
     (case tensors_map store (checkpoint_name i) of
        None \<Rightarrow> ([], 0, 0) | Some view \<Rightarrow> (view_mapping view, view_offset view, view_nbytes view))"

definition published :: "TinyLlamaConfig \<Rightarrow> SafeTensorsStore \<Rightarrow> ModelSource" where
  "published c store =
     (let ids = canonical_ids (unat (num_hidden_layers c)) in
      \<lparr>source_config = c, source_store = store,
       source_weights = map (\<lambda>i. \<lparr>weight_id = i, logical_shape = shape (role_spec c (weight_role i))\<rparr>) ids,
       source_specs = map (\<lambda>i. role_spec c (weight_role i)) ids,
       source_payloads = map (payload_of store) ids\<rparr>)"

text \<open>The bytes of all weights in the tiled layout, and of each weight in bits, can be counted.\<close>

definition tiled_of :: "TinyLlamaConfig \<Rightarrow> ModelWeightRole \<Rightarrow> nat" where
  "tiled_of c role = tiled_elements (shape (role_spec c role))"

definition weights_fit :: "TinyLlamaConfig \<Rightarrow> bool" where
  "weights_fit c \<longleftrightarrow>
     (let roles = map weight_role (canonical_ids (unat (num_hidden_layers c))) in
      list_all (\<lambda>role. 16 * tiled_of c role + 7 < 2 ^ 64) roles
      \<and> (\<Sum>role \<leftarrow> roles. 2 * tiled_of c role) < 2 ^ 64)"

section \<open>Names\<close>

lemma length_canonical_ids: "length (canonical_ids n) = 3 + 9 * n"
  by (simp add: canonical_ids_def layer_ids_def length_concat comp_def sum_list_triv)

lemma role_name_no_layer: "role_name role \<noteq> ''model.layers.'' @ rest"
  by (cases role) simp_all

lemma role_name_inj: "role_name a = role_name b \<longleftrightarrow> a = b"
  by (cases a; cases b) simp_all

lemma digits_no_dot: "takeWhile (\<lambda>c. c \<noteq> CHR ''.'') (to_string n @ CHR ''.'' # rest) = to_string n"
proof -
  have "c \<noteq> CHR ''.''" if "c \<in> set (to_string n)" for c
    using to_string_digits [OF that] by auto
  then show ?thesis by (simp add: takeWhile_append2)
qed

lemma checkpoint_name_inj: "checkpoint_name i = checkpoint_name j \<longleftrightarrow> i = (j :: ModelWeightId)"
proof
  assume eq: "checkpoint_name i = checkpoint_name j"
  have layered: "checkpoint_name k = ''model.layers.'' @ to_string (unat a) @ ''.'' @ role_name (weight_role k)"
    if "weight_layer k = Some a" for k a
    by (simp only: checkpoint_name_def option.case that)
  have global: "checkpoint_name k = role_name (weight_role k)" if "weight_layer k = None" for k
    by (simp only: checkpoint_name_def option.case that)
  show "i = j"
  proof (cases "weight_layer i"; cases "weight_layer j")
    fix a b
    assume ab: "weight_layer i = Some a" "weight_layer j = Some b"
    with eq have names: "to_string (unat a) @ ''.'' @ role_name (weight_role i)
        = to_string (unat b) @ ''.'' @ role_name (weight_role j)"
      by (simp add: layered)
    then have "takeWhile (\<lambda>c. c \<noteq> CHR ''.'') (to_string (unat a) @ CHR ''.'' # role_name (weight_role i))
        = takeWhile (\<lambda>c. c \<noteq> CHR ''.'') (to_string (unat b) @ CHR ''.'' # role_name (weight_role j))"
      by simp
    then have "a = b" by (simp only: digits_no_dot to_string_eq_iff word_unat_eq_iff)
    with names have "weight_role i = weight_role j" by (simp add: role_name_inj)
    with ab \<open>a = b\<close> show "i = j" by (cases i; cases j) simp
  next
    assume "weight_layer i = None" "weight_layer j = None"
    with eq show "i = j" by (cases i; cases j) (simp add: global role_name_inj)
  next
    fix b
    assume "weight_layer i = None" "weight_layer j = Some b"
    with eq show "i = j" using role_name_no_layer by (metis global layered)
  next
    fix a
    assume "weight_layer i = Some a" "weight_layer j = None"
    with eq show "i = j" using role_name_no_layer by (metis global layered)
  qed
qed simp

lemma distinct_layer_ids: "distinct (layer_ids l)"
  by (simp add: layer_ids_def)

lemma layer_ids_layer: "i \<in> set (layer_ids l) \<Longrightarrow> weight_layer i = Some (of_nat l)"
  by (auto simp: layer_ids_def)

lemma distinct_canonical_ids:
  assumes "n < 2 ^ 64"
  shows "distinct (canonical_ids n)"
proof -
  have "distinct (concat (map layer_ids [0..<m]))" if "m \<le> n" for m
    using that
  proof (induction m)
    case (Suc m)
    have "(of_nat l :: usize) \<noteq> of_nat m" if "l < m" for l
      using that Suc.prems assms by (simp add: word_unat_eq_iff unat_of_nat_fits)
    then have "i \<notin> set (layer_ids m)" if "l < m" "i \<in> set (layer_ids l)" for l i
      using that layer_ids_layer [of i l] layer_ids_layer [of i m] by auto
    with Suc distinct_layer_ids show ?case by auto
  qed simp
  moreover have "weight_layer i \<noteq> None" if "i \<in> set (concat (map layer_ids [0..<n]))" for i
    using that layer_ids_layer by fastforce
  ultimately show ?thesis by (fastforce simp: canonical_ids_def)
qed

section \<open>The plan of an accepted configuration\<close>

definition schema_of :: "TinyLlamaConfig \<Rightarrow> ModelWeightRole \<Rightarrow> WeightRoleSchema" where
  "schema_of c role =
     \<lparr>schema_role = role, schema_name = role_name role,
      layer_scoped = (role \<notin> {token_embedding, final_norm, lm_head}),
      source_shape = role_shape c role, schema_spec = role_spec c role\<rparr>"

lemma word_nonzero: "0 < unat (n :: usize) \<longleftrightarrow> n \<noteq> 0"
  by (simp add: unat_gt_0)

lemma grouped_width:
  assumes "config_wf c"
  shows "checked_mul (num_key_value_heads c) (head_dim c) = Inr (num_key_value_heads c * head_dim c)"
    and "num_key_value_heads c * head_dim c \<noteq> 0"
proof -
  have heads: "0 < unat (num_attention_heads c)" using assms by (auto simp: config_wf_def intro!: gr0I)
  then obtain w where w: "checked_mul (num_key_value_heads c) (head_dim c) = Inr w"
      "unat w = unat (num_key_value_heads c) * unat (head_dim c)"
    using grouped_width_fits assms unfolding config_wf_def by blast
  then have "w = num_key_value_heads c * head_dim c" by (auto simp: checked_mul_cases split: if_splits)
  moreover have "0 < unat w" using w(2) assms by (simp add: config_wf_def)
  ultimately show "checked_mul (num_key_value_heads c) (head_dim c) = Inr (num_key_value_heads c * head_dim c)"
    "num_key_value_heads c * head_dim c \<noteq> 0" using w(1) by (auto simp: word_nonzero)
qed

lemma role_shape_positive:
  assumes "config_wf c"
  shows "0 \<notin> set (role_shape c role)" "length (role_shape c role) \<in> {1, 2}"
proof -
  have "hidden_size c \<noteq> 0" "intermediate_size c \<noteq> 0" "vocab_size c \<noteq> 0"
    using assms by (auto simp: config_wf_def word_nonzero [symmetric])
  then show "0 \<notin> set (role_shape c role)" "length (role_shape c role) \<in> {1, 2}"
    using grouped_width(2) [OF assms] by (cases role; simp)+
qed

lemma role_spec_valid:
  assumes "config_wf c"
  shows "make_shape (adapted_logical_shape (role_shape c role)) = Inr (shape (role_spec c role))"
    and "supported_spec (role_spec c role)" and "leaf_width (role_spec c role) = 16"
proof -
  have v: "valid_shape (TensorShape (adapted_logical_shape (role_shape c role)))"
    using role_shape_positive [OF assms, of role] by (auto simp: adapted_logical_shape_def valid_shape_def rank_def)
  then show "make_shape (adapted_logical_shape (role_shape c role)) = Inr (shape (role_spec c role))"
    by (simp add: make_shape_Inr_iff role_spec_def selected_spec_def)
  show "supported_spec (role_spec c role)"
    using v by (simp add: supported_spec_def role_spec_def selected_spec_def)
  show "leaf_width (role_spec c role) = 16" by (simp add: leaf_width_def role_spec_def selected_spec_def)
qed

lemma make_role_schema_ok:
  assumes "config_wf c"
  shows "make_role_schema role (role_name role) (role \<notin> {token_embedding, final_norm, lm_head}) (role_shape c role)
    = Inr (schema_of c role)"
  using role_spec_valid(1) [OF assms, of role]
  by (simp add: make_role_schema_def schema_of_def role_spec_def selected_spec_def)

lemma make_schemas_map:
  assumes "\<And>role name dims. (role, name, dims) \<in> set roles \<Longrightarrow> make_role_schema role name scoped dims = Inr (f role)"
  shows "make_schemas scoped roles = Inr (map (f \<circ> fst) roles)"
proof -
  have "for_each roles (\<lambda>(role, name, dims) schemas.
       andThen (make_role_schema role name scoped dims) (\<lambda>schema. Inr (schemas @ [schema]))) ss
     = Inr (ss @ map (f \<circ> fst) roles)" for ss
    using assms by (induction roles arbitrary: ss) (auto split: prod.split)
  from this [of "[]"] show ?thesis by (simp add: make_schemas_def)
qed

abbreviation global_role_list :: "ModelWeightRole list" where
  "global_role_list \<equiv> [token_embedding, final_norm, lm_head]"

abbreviation layer_role_list :: "ModelWeightRole list" where
  "layer_role_list \<equiv> [input_norm, post_attention_norm, query_role, key_role, value_role, attention_output,
     mlp_gate, mlp_up, mlp_down]"

lemma make_schemas_ok:
  assumes "config_wf c"
  shows "make_schemas False (global_roles c) = Inr (map (schema_of c) global_role_list)"
    and "make_schemas True (layer_roles c (num_key_value_heads c * head_dim c)) = Inr (map (schema_of c) layer_role_list)"
proof -
  note ok = make_role_schema_ok [OF assms]
  have "make_schemas False (global_roles c) = Inr (map (schema_of c \<circ> fst) (global_roles c))"
    using ok [of token_embedding] ok [of final_norm] ok [of lm_head]
    by (intro make_schemas_map) (auto simp: global_roles_def)
  then show "make_schemas False (global_roles c) = Inr (map (schema_of c) global_role_list)"
    by (simp add: global_roles_def)
  have "make_schemas True (layer_roles c (num_key_value_heads c * head_dim c))
      = Inr (map (schema_of c \<circ> fst) (layer_roles c (num_key_value_heads c * head_dim c)))"
    using ok [of input_norm] ok [of post_attention_norm] ok [of query_role] ok [of key_role] ok [of value_role]
      ok [of attention_output] ok [of mlp_gate] ok [of mlp_up] ok [of mlp_down]
    by (intro make_schemas_map) (auto simp: layer_roles_def)
  then show "make_schemas True (layer_roles c (num_key_value_heads c * head_dim c)) = Inr (map (schema_of c) layer_role_list)"
    by (simp add: layer_roles_def)
qed

section \<open>Totals\<close>

abbreviation logical_of :: "TinyLlamaConfig \<Rightarrow> ModelWeightRole \<Rightarrow> nat" where
  "logical_of c role \<equiv> logical_elements (shape (role_spec c role))"

lemma logical_le_tiled_of:
  assumes "config_wf c"
  shows "logical_of c role \<le> tiled_of c role"
  using role_spec_valid(2) [OF assms, of role] logical_le_tiled by (simp add: supported_spec_def tiled_of_def)

lemma packed_sixteen: "packed_bytes (n * 16) = 2 * n"
  by (simp add: packed_bytes_def)

lemma if_of_nat_Inr:
  assumes "b \<Longrightarrow> n < 2 ^ 64"
  shows "(if b then Inr (of_nat n) else Inl e) = Inr (y :: usize) \<longleftrightarrow> b \<and> unat y = n"
  using assms by (auto simp: unat_of_nat_fits)

lemma role_bytes:
  assumes "config_wf c"
  shows "element_count (shape (role_spec c role)) = Inr x \<longleftrightarrow> unat x = logical_of c role"
    and "logical_nbytes (role_spec c role) = Inr y \<longleftrightarrow> 16 * logical_of c role + 7 < 2 ^ 64 \<and> unat y = 2 * logical_of c role"
    and "tiled_storage_nbytes (role_spec c role) = Inr z \<longleftrightarrow> 16 * tiled_of c role + 7 < 2 ^ 64 \<and> unat z = 2 * tiled_of c role"
proof -
  note s = role_spec_valid(2,3) [OF assms, of role]
  then have v: "valid_shape (shape (role_spec c role))" by (simp add: supported_spec_def)
  show "element_count (shape (role_spec c role)) = Inr x \<longleftrightarrow> unat x = logical_of c role"
    unfolding element_count_cases [OF v] by (subst if_of_nat_Inr) (use unat_less [of x] in auto)
  have sized: "(if n * 16 + 7 < 2 ^ 64 then Inr (of_nat (packed_bytes (n * 16))) else Inl e) = (Inr y :: usize throws)
      \<longleftrightarrow> 16 * n + 7 < 2 ^ 64 \<and> unat y = 2 * n" for n y and e :: exn
    by (subst if_of_nat_Inr) (auto simp: packed_sixteen mult.commute)
  show "logical_nbytes (role_spec c role) = Inr y \<longleftrightarrow> 16 * logical_of c role + 7 < 2 ^ 64 \<and> unat y = 2 * logical_of c role"
    unfolding logical_nbytes_cases [OF s(1)] s(2) by (rule sized)
  show "tiled_storage_nbytes (role_spec c role) = Inr z \<longleftrightarrow> 16 * tiled_of c role + 7 < 2 ^ 64 \<and> unat z = 2 * tiled_of c role"
    unfolding tiled_storage_nbytes_cases [OF s(1)] s(2) tiled_of_def by (rule sized)
qed

lemma schema_totals_loop:
  assumes "config_wf c"
  shows "for_each (map (schema_of c) roles) (\<lambda>schema totals.
       andThen (element_count (shape (schema_spec schema))) (\<lambda>_.
       andThen (logical_nbytes (schema_spec schema)) (\<lambda>logical.
       andThen (checked_add (total_logical_nbytes totals) logical) (\<lambda>logical_total.
       andThen (tiled_storage_nbytes (schema_spec schema)) (\<lambda>tiled.
       andThen (checked_add (total_tiled_nbytes totals) tiled) (\<lambda>tiled_total.
       Inr \<lparr>total_logical_nbytes = logical_total, total_tiled_nbytes = tiled_total\<rparr>)))))) t0 = Inr t
     \<longleftrightarrow> list_all (\<lambda>role. 16 * tiled_of c role + 7 < 2 ^ 64) roles
       \<and> unat (total_logical_nbytes t) = unat (total_logical_nbytes t0) + (\<Sum>role \<leftarrow> roles. 2 * logical_of c role)
       \<and> unat (total_tiled_nbytes t) = unat (total_tiled_nbytes t0) + (\<Sum>role \<leftarrow> roles. 2 * tiled_of c role)"
    (is "for_each _ ?f t0 = _ \<longleftrightarrow> _")
proof (induction roles arbitrary: t0)
  case Nil
  then show ?case by (cases t; cases t0) (auto simp: word_unat_eq_iff)
next
  case (Cons role roles)
  have step: "?f (schema_of c role) t0 = Inr t1 \<longleftrightarrow> 16 * tiled_of c role + 7 < 2 ^ 64
      \<and> unat (total_logical_nbytes t1) = unat (total_logical_nbytes t0) + 2 * logical_of c role
      \<and> unat (total_tiled_nbytes t1) = unat (total_tiled_nbytes t0) + 2 * tiled_of c role" for t1
  proof -
    let ?R = "16 * tiled_of c role + 7 < 2 ^ 64
      \<and> unat (total_logical_nbytes t1) = unat (total_logical_nbytes t0) + 2 * logical_of c role
      \<and> unat (total_tiled_nbytes t1) = unat (total_tiled_nbytes t0) + 2 * tiled_of c role"
    have le: "logical_of c role \<le> tiled_of c role" by (rule logical_le_tiled_of [OF assms])
    show ?thesis
    proof
      assume ?R
      then have fit: "16 * tiled_of c role + 7 < 2 ^ 64" by simp
      define x l z :: usize where "x = of_nat (logical_of c role)" and "l = of_nat (2 * logical_of c role)"
        and "z = of_nat (2 * tiled_of c role)"
      have "logical_of c role < 2 ^ 64" "2 * logical_of c role < 2 ^ 64" "2 * tiled_of c role < 2 ^ 64"
        using fit le by simp_all
      then have u: "unat x = logical_of c role" "unat l = 2 * logical_of c role" "unat z = 2 * tiled_of c role"
        by (simp_all only: x_def l_def z_def unat_of_nat_fits)
      then have "element_count (shape (role_spec c role)) = Inr x" "logical_nbytes (role_spec c role) = Inr l"
        "tiled_storage_nbytes (role_spec c role) = Inr z"
        using fit le by (simp_all add: role_bytes [OF assms])
      moreover have "checked_add (total_logical_nbytes t0) l = Inr (total_logical_nbytes t1)"
        "checked_add (total_tiled_nbytes t0) z = Inr (total_tiled_nbytes t1)"
        using \<open>?R\<close> u by (simp_all add: checked_add_Inr)
      ultimately show "?f (schema_of c role) t0 = Inr t1" by (simp add: schema_of_def)
    qed (auto simp: schema_of_def andThen_Inr_iff role_bytes [OF assms] checked_add_Inr)
  qed
  show ?case
  proof
    assume "for_each (map (schema_of c) (role # roles)) ?f t0 = Inr t"
    then have "andThen (?f (schema_of c role) t0) (for_each (map (schema_of c) roles) ?f) = Inr t"
      by (simp only: list.map for_each.simps)
    then obtain t1 where "?f (schema_of c role) t0 = Inr t1" "for_each (map (schema_of c) roles) ?f t1 = Inr t"
      by (rule andThen_Inr_iff [THEN iffD1, elim_format]) blast
    then show "list_all (\<lambda>role. 16 * tiled_of c role + 7 < 2 ^ 64) (role # roles)
       \<and> unat (total_logical_nbytes t) = unat (total_logical_nbytes t0) + (\<Sum>role \<leftarrow> role # roles. 2 * logical_of c role)
       \<and> unat (total_tiled_nbytes t) = unat (total_tiled_nbytes t0) + (\<Sum>role \<leftarrow> role # roles. 2 * tiled_of c role)"
      by (simp only: step Cons.IH list.pred_inject list.map sum_list.Cons add.assoc simp_thms)
  next
    assume R: "list_all (\<lambda>role. 16 * tiled_of c role + 7 < 2 ^ 64) (role # roles)
       \<and> unat (total_logical_nbytes t) = unat (total_logical_nbytes t0) + (\<Sum>role \<leftarrow> role # roles. 2 * logical_of c role)
       \<and> unat (total_tiled_nbytes t) = unat (total_tiled_nbytes t0) + (\<Sum>role \<leftarrow> role # roles. 2 * tiled_of c role)"
    define t1 where "t1 = \<lparr>total_logical_nbytes = of_nat (unat (total_logical_nbytes t0) + 2 * logical_of c role) :: usize,
        total_tiled_nbytes = of_nat (unat (total_tiled_nbytes t0) + 2 * tiled_of c role)\<rparr>"
    have "unat (total_logical_nbytes t0) + 2 * logical_of c role < 2 ^ 64" "unat (total_tiled_nbytes t0) + 2 * tiled_of c role < 2 ^ 64"
      using R unat_less [of "total_logical_nbytes t"] unat_less [of "total_tiled_nbytes t"] by simp_all
    then have u: "unat (total_logical_nbytes t1) = unat (total_logical_nbytes t0) + 2 * logical_of c role"
      "unat (total_tiled_nbytes t1) = unat (total_tiled_nbytes t0) + 2 * tiled_of c role"
      by (simp_all only: t1_def SchemaTotals.simps unat_of_nat_fits)
    then have "?f (schema_of c role) t0 = Inr t1" using R by (simp only: step list.pred_inject simp_thms)
    moreover have "for_each (map (schema_of c) roles) ?f t1 = Inr t"
      using R u by (simp only: Cons.IH list.pred_inject list.map sum_list.Cons add.assoc simp_thms)
    ultimately show "for_each (map (schema_of c) (role # roles)) ?f t0 = Inr t" by simp
  qed
qed

lemma canonical_roles:
  "map weight_role (canonical_ids n) = global_role_list @ concat (replicate n layer_role_list)"
proof -
  have "map weight_role (layer_ids l) = layer_role_list" for l by (simp add: layer_ids_def)
  then have "map weight_role (concat (map layer_ids [0..<n])) = concat (replicate n layer_role_list)"
    by (simp add: map_concat comp_def map_replicate_const)
  then show ?thesis by (simp add: canonical_ids_def)
qed

lemma sum_canonical_roles:
  "(\<Sum>role \<leftarrow> map weight_role (canonical_ids n). f role)
     = (\<Sum>role \<leftarrow> global_role_list. f role) + n * (\<Sum>role \<leftarrow> layer_role_list. (f role :: nat))"
proof -
  have "(\<Sum>role \<leftarrow> concat (replicate n xs). f role) = n * (\<Sum>role \<leftarrow> xs. f role)" for xs
    by (induction n) simp_all
  then show ?thesis by (simp only: canonical_roles map_append sum_list_append)
qed

lemma all_canonical_roles:
  assumes "0 < n"
  shows "list_all P (map weight_role (canonical_ids n)) \<longleftrightarrow> list_all P global_role_list \<and> list_all P layer_role_list"
proof -
  have "list_all P (concat (replicate n xs)) \<longleftrightarrow> list_all P xs" for xs
    using assms by (auto simp: list_all_iff)
  then show ?thesis by (simp only: canonical_roles list_all_append)
qed

lemma schema_totals_iff:
  assumes "config_wf c"
  shows "checked_schema_totals (map (schema_of c) roles) = Inr t \<longleftrightarrow>
     list_all (\<lambda>role. 16 * tiled_of c role + 7 < 2 ^ 64) roles
     \<and> unat (total_logical_nbytes t) = (\<Sum>role \<leftarrow> roles. 2 * logical_of c role)
     \<and> unat (total_tiled_nbytes t) = (\<Sum>role \<leftarrow> roles. 2 * tiled_of c role)"
  unfolding checked_schema_totals_def schema_totals_loop [OF assms] by simp

lemma sum_logical_le_tiled:
  assumes "config_wf c"
  shows "(\<Sum>role \<leftarrow> roles. 2 * logical_of c role) \<le> (\<Sum>role \<leftarrow> roles. 2 * tiled_of c role)"
  by (rule sum_list_mono) (simp add: logical_le_tiled_of [OF assms])

lemma schema_totals_exist:
  assumes "config_wf c" and "list_all (\<lambda>role. 16 * tiled_of c role + 7 < 2 ^ 64) roles"
    and "(\<Sum>role \<leftarrow> roles. 2 * tiled_of c role) < 2 ^ 64"
  obtains t where "checked_schema_totals (map (schema_of c) roles) = Inr t"
    "unat (total_logical_nbytes t) = (\<Sum>role \<leftarrow> roles. 2 * logical_of c role)"
    "unat (total_tiled_nbytes t) = (\<Sum>role \<leftarrow> roles. 2 * tiled_of c role)"
proof -
  let ?t = "\<lparr>total_logical_nbytes = of_nat (\<Sum>role \<leftarrow> roles. 2 * logical_of c role),
    total_tiled_nbytes = of_nat (\<Sum>role \<leftarrow> roles. 2 * tiled_of c role)\<rparr>"
  have "(\<Sum>role \<leftarrow> roles. 2 * logical_of c role) < 2 ^ 64"
    using sum_logical_le_tiled [OF assms(1), of roles] assms(3) by linarith
  then have u: "unat (total_logical_nbytes ?t) = (\<Sum>role \<leftarrow> roles. 2 * logical_of c role)"
    "unat (total_tiled_nbytes ?t) = (\<Sum>role \<leftarrow> roles. 2 * tiled_of c role)"
    using assms(3) by (simp_all only: SchemaTotals.simps unat_of_nat_fits)
  show thesis
    by (rule that [of ?t, OF _ u]) (use assms(2) u in \<open>simp only: schema_totals_iff [OF assms(1)] simp_thms\<close>)
qed

lemma weights_fit_iff:
  assumes "config_wf c"
  shows "weights_fit c \<longleftrightarrow>
     list_all (\<lambda>role. 16 * tiled_of c role + 7 < 2 ^ 64) global_role_list
     \<and> list_all (\<lambda>role. 16 * tiled_of c role + 7 < 2 ^ 64) layer_role_list
     \<and> (\<Sum>role \<leftarrow> global_role_list. 2 * tiled_of c role)
        + unat (num_hidden_layers c) * (\<Sum>role \<leftarrow> layer_role_list. 2 * tiled_of c role) < 2 ^ 64"
proof -
  have "0 < unat (num_hidden_layers c)" using assms by (simp add: config_wf_def)
  then show ?thesis by (simp only: weights_fit_def Let_def all_canonical_roles sum_canonical_roles conj_assoc)
qed

definition plan_of :: "TinyLlamaConfig \<Rightarrow> WeightPlan \<Rightarrow> bool" where
  "plan_of c plan \<longleftrightarrow> plan_globals plan = map (schema_of c) global_role_list
     \<and> plan_layer_roles plan = map (schema_of c) layer_role_list"

lemma build_weight_plan_parts:
  assumes "config_wf c"
  shows "build_weight_plan c n =
     andThen (checked_schema_totals (map (schema_of c) global_role_list)) (\<lambda>globals_total.
     andThen (checked_schema_totals (map (schema_of c) layer_role_list)) (\<lambda>layers_total.
     andThen (checked_mul (total_logical_nbytes layers_total) (num_hidden_layers c)) (\<lambda>layers_logical.
     andThen (checked_add (total_logical_nbytes globals_total) layers_logical) (\<lambda>logical.
     andThen (checked_mul (total_tiled_nbytes layers_total) (num_hidden_layers c)) (\<lambda>layers_tiled.
     andThen (checked_add (total_tiled_nbytes globals_total) layers_tiled) (\<lambda>tiled.
     Inr \<lparr>required_count = n, aggregate_logical_nbytes = logical, aggregate_tiled_nbytes = tiled,
          plan_globals = map (schema_of c) global_role_list, plan_layer_roles = map (schema_of c) layer_role_list\<rparr>))))))"
  by (simp only: build_weight_plan_def grouped_width(1) [OF assms] make_schemas_ok [OF assms] andThen_simps)

lemma build_weight_plan_fits:
  assumes "config_wf c" and "build_weight_plan c n = Inr plan"
  shows "weights_fit c \<and> plan_of c plan \<and> required_count plan = n"
proof -
  obtain g l a b d e where g: "checked_schema_totals (map (schema_of c) global_role_list) = Inr g"
    and l: "checked_schema_totals (map (schema_of c) layer_role_list) = Inr l"
    and sums: "checked_mul (total_tiled_nbytes l) (num_hidden_layers c) = Inr d"
      "checked_add (total_tiled_nbytes g) d = Inr e"
    and plan: "plan = \<lparr>required_count = n, aggregate_logical_nbytes = b, aggregate_tiled_nbytes = e,
          plan_globals = map (schema_of c) global_role_list, plan_layer_roles = map (schema_of c) layer_role_list\<rparr>"
    using assms(2) unfolding build_weight_plan_parts [OF assms(1)] andThen_Inr_iff by blast
  have "unat e = (\<Sum>role \<leftarrow> global_role_list. 2 * tiled_of c role)
      + (\<Sum>role \<leftarrow> layer_role_list. 2 * tiled_of c role) * unat (num_hidden_layers c)"
    using sums g l unfolding schema_totals_iff [OF assms(1)] checked_mul_Inr checked_add_Inr by simp
  then have "(\<Sum>role \<leftarrow> global_role_list. 2 * tiled_of c role)
      + unat (num_hidden_layers c) * (\<Sum>role \<leftarrow> layer_role_list. 2 * tiled_of c role) < 2 ^ 64"
    using unat_less [of e] by (simp only: mult.commute)
  then show ?thesis
    using g l unfolding weights_fit_iff [OF assms(1)] schema_totals_iff [OF assms(1)] by (simp only: plan plan_of_def WeightPlan.simps simp_thms)
qed

lemma checked_add_fits: "unat a + unat b < 2 ^ 64 \<Longrightarrow> checked_add a b = Inr (a + b) \<and> unat (a + b) = unat a + unat b"
  by (simp add: checked_add_cases unat_add_small)

lemma checked_mul_fits: "unat a * unat b < 2 ^ 64 \<Longrightarrow> checked_mul a b = Inr (a * b) \<and> unat (a * b) = unat a * unat b"
  by (simp add: checked_mul_cases unat_mult_small)

lemma build_weight_plan_exists:
  assumes "config_wf c" and "weights_fit c"
  shows "\<exists>plan. build_weight_plan c n = Inr plan"
proof -
  let ?N = "unat (num_hidden_layers c)"
  define G L where "G = (\<Sum>role \<leftarrow> global_role_list. 2 * tiled_of c role)" and "L = (\<Sum>role \<leftarrow> layer_role_list. 2 * tiled_of c role)"
  have fit: "G + ?N * L < 2 ^ 64" and ok: "list_all (\<lambda>role. 16 * tiled_of c role + 7 < 2 ^ 64) global_role_list"
    "list_all (\<lambda>role. 16 * tiled_of c role + 7 < 2 ^ 64) layer_role_list"
    using assms(2) unfolding weights_fit_iff [OF assms(1)] G_def L_def by blast+
  have N: "1 \<le> ?N" using assms(1) by (simp add: config_wf_def)
  then have "L \<le> ?N * L" by simp
  then have "G < 2 ^ 64" "L < 2 ^ 64" using fit by linarith+
  then obtain g l where g: "checked_schema_totals (map (schema_of c) global_role_list) = Inr g"
      "unat (total_logical_nbytes g) \<le> G" "unat (total_tiled_nbytes g) = G"
    and l: "checked_schema_totals (map (schema_of c) layer_role_list) = Inr l"
      "unat (total_logical_nbytes l) \<le> L" "unat (total_tiled_nbytes l) = L"
    using schema_totals_exist [OF assms(1) ok(1)] schema_totals_exist [OF assms(1) ok(2)]
      sum_logical_le_tiled [OF assms(1)] unfolding G_def L_def by metis
  have sum: "unat a + unat b * ?N < 2 ^ 64" if "unat a \<le> G" "unat b \<le> L" for a b :: usize
  proof -
    have "unat b * ?N \<le> ?N * L" using that(2) by (simp add: mult.commute)
    then show ?thesis using that(1) fit by linarith
  qed
  have parts: "\<exists>d e. checked_mul b (num_hidden_layers c) = Inr d \<and> checked_add a d = Inr e"
    if "unat a \<le> G" "unat b \<le> L" for a b :: usize
  proof -
    have "unat b * ?N < 2 ^ 64" using sum [OF that] by linarith
    note mul = checked_mul_fits [OF this]
    then have "unat a + unat (b * num_hidden_layers c) < 2 ^ 64" using sum [OF that] by simp
    from checked_add_fits [OF this] mul show ?thesis by blast
  qed
  obtain d e where "checked_mul (total_logical_nbytes l) (num_hidden_layers c) = Inr d"
      "checked_add (total_logical_nbytes g) d = Inr e"
    using parts [OF g(2) l(2)] by blast
  moreover obtain d' e' where "checked_mul (total_tiled_nbytes l) (num_hidden_layers c) = Inr d'"
      "checked_add (total_tiled_nbytes g) d' = Inr e'"
    using parts [of "total_tiled_nbytes g" "total_tiled_nbytes l"] g(3) l(3) by auto
  ultimately show ?thesis unfolding build_weight_plan_parts [OF assms(1)] g(1) l(1) by simp
qed

section \<open>Selecting the inventory\<close>

definition entry_info :: "TinyLlamaConfig \<Rightarrow> ModelWeightId \<Rightarrow> ModelWeightInfo" where
  "entry_info c i = \<lparr>weight_id = i, logical_shape = shape (role_spec c (weight_role i))\<rparr>"

definition canonical :: "ModelWeightId \<Rightarrow> bool" where
  "canonical i \<longleftrightarrow> (weight_layer i = None \<longleftrightarrow> weight_role i \<in> {token_embedding, final_norm, lm_head})"

lemma canonical_ids_canonical: "i \<in> set (canonical_ids n) \<Longrightarrow> canonical i"
  by (auto simp: canonical_ids_def layer_ids_def canonical_def)

lemma weight_name_canonical:
  "canonical i \<Longrightarrow> weight_name (schema_of c (weight_role i)) (weight_layer i) = checkpoint_name i"
  by (auto simp: weight_name_def schema_of_def checkpoint_name_def canonical_def split: option.split)

lemma required_view_cases:
  "required_view store name = (case tensors_map store name of None \<Rightarrow> Inl InvalidArgument | Some view \<Rightarrow> Inr view)"
  by (simp add: required_view_def store_at_def split: option.split)

lemma append_selected_entry:
  assumes "config_wf c" and "canonical i" and "16 * tiled_of c (weight_role i) + 7 < 2 ^ 64"
  shows "append_selected store (schema_of c (weight_role i), weight_layer i) (ws, ss, ps) =
     (if provides store c i
      then Inr (ws @ [entry_info c i], ss @ [role_spec c (weight_role i)], ps @ [payload_of store i])
      else Inl InvalidArgument)"
proof -
  let ?role = "weight_role i"
  have bits: "16 * logical_of c ?role + 7 < 2 ^ 64"
    using assms(3) logical_le_tiled_of [OF assms(1), of ?role] by linarith
  then have "2 * logical_of c ?role < 2 ^ 64" by linarith
  then obtain nbytes :: usize where n: "unat nbytes = 2 * logical_of c ?role" using unat_of_nat_fits by blast
  then have bytes: "logical_nbytes (role_spec c ?role) = Inr nbytes"
    using bits role_bytes(2) [OF assms(1)] by blast
  have "TensorShape (dimensions s) = s" for s by (cases s) simp
  moreover have "valid_shape (shape (role_spec c ?role))"
    using role_spec_valid(2) [OF assms(1), of ?role] by (simp add: supported_spec_def)
  ultimately have again: "make_shape (dimensions (shape (role_spec c ?role))) = Inr (shape (role_spec c ?role))"
    by (simp add: make_shape_Inr_iff)
  have spec: "selected_spec (shape (role_spec c ?role)) = role_spec c ?role"
    by (simp add: role_spec_def selected_spec_def)
  show ?thesis
    unfolding append_selected_def prod.case weight_name_canonical [OF assms(2)] required_view_cases
    by (simp add: schema_of_def bytes again spec provides_def payload_of_def entry_info_def Let_def
        word_unat_eq_iff n del: role_shape.simps split: option.split)
qed

lemma select_entries:
  assumes "config_wf c" and "\<And>i. i \<in> set ids \<Longrightarrow> canonical i \<and> 16 * tiled_of c (weight_role i) + 7 < 2 ^ 64"
  shows "for_each ids (\<lambda>i. append_selected store (schema_of c (weight_role i), weight_layer i)) (ws, ss, ps) =
     (if list_all (provides store c) ids
      then Inr (ws @ map (entry_info c) ids, ss @ map (\<lambda>i. role_spec c (weight_role i)) ids, ps @ map (payload_of store) ids)
      else Inl InvalidArgument)"
  using assms(2)
proof (induction ids arbitrary: ws ss ps)
  case (Cons i ids)
  then show ?case using append_selected_entry [OF assms(1), of i store] by simp
qed simp

lemma selection_loops:
  "andThen (for_each (map (schema_of c) global_role_list) (\<lambda>schema. append_selected store (schema, None)) s)
     (for_each [0..<n] (\<lambda>layer. for_each (map (schema_of c) layer_role_list)
        (\<lambda>schema. append_selected store (schema, Some (of_nat layer)))))
   = for_each (canonical_ids n) (\<lambda>i. append_selected store (schema_of c (weight_role i), weight_layer i)) s"
proof -
  have layer: "for_each (layer_ids l) (\<lambda>i. append_selected store (schema_of c (weight_role i), weight_layer i))
      = for_each (map (schema_of c) layer_role_list) (\<lambda>schema. append_selected store (schema, Some (of_nat l)))" for l
    by (rule ext) (simp only: layer_ids_def for_each_map ModelWeightId.simps)
  have "for_each (concat (map layer_ids [0..<n])) (\<lambda>i. append_selected store (schema_of c (weight_role i), weight_layer i))
      = for_each [0..<n] (\<lambda>layer. for_each (map (schema_of c) layer_role_list)
          (\<lambda>schema. append_selected store (schema, Some (of_nat layer))))"
    by (rule ext) (simp only: for_each_concat for_each_map layer)
  then show ?thesis
    by (simp only: canonical_ids_def for_each_append for_each_map ModelWeightId.simps)
qed

section \<open>Stores\<close>

definition keys_ok :: "SafeTensorsStore \<Rightarrow> bool" where
  "keys_ok store \<longleftrightarrow> distinct (store_keys store) \<and> set (store_keys store) = dom (tensors_map store)"

lemma store_insert_keys_ok: "keys_ok store \<Longrightarrow> keys_ok (fst (store_insert store name view))"
  by (auto simp: keys_ok_def store_insert_def)

lemma insert_shard_keys_ok: "insert_shard base shard keys = Inr store \<Longrightarrow> keys_ok base \<Longrightarrow> keys_ok store"
proof (induction keys arbitrary: base)
  case (Cons key keys)
  then obtain view where "store_at shard key = Inr view" by (cases "store_at shard key") auto
  then have "insert_shard (fst (store_insert base key view)) shard keys = Inr store"
    using Cons.prems(1) by (cases "store_insert base key view") (auto split: if_splits)
  then show ?case using Cons.IH Cons.prems(2) store_insert_keys_ok by blast
qed simp

lemma load_shards_keys_ok: "load_shards p base es = Inr store \<Longrightarrow> keys_ok base \<Longrightarrow> keys_ok store"
proof (induction es arbitrary: base)
  case (Cons e es)
  then obtain shard base' where "insert_shard base shard (store_keys shard) = Inr base'" "load_shards p base' es = Inr store"
    by (auto simp: andThen_Inr_iff)
  then show ?case using Cons.IH Cons.prems(2) insert_shard_keys_ok by blast
qed simp

lemma open_mapped_store_keys_ok:
  assumes "open_mapped_store p entries = Inr store"
  shows "keys_ok store"
proof -
  have "load_directory (\<lambda>header. case p header of None \<Rightarrow> Inl OtherException | Some v \<Rightarrow> Inr v) entries = Inr store"
    using assms by (auto simp: open_mapped_store_def split: sum.splits exn.splits)
  moreover have "keys_ok empty_store" by (simp add: keys_ok_def empty_store_def)
  ultimately show ?thesis unfolding load_directory_def by (rule load_shards_keys_ok)
qed

text \<open>A store that has every required tensor passes the two checks of its size.\<close>

lemma provided_store_size:
  assumes "keys_ok store" and "list_all (provides store c) (canonical_ids n)" and "n < 2 ^ 64"
  shows "3 + 9 * n \<le> store_size store"
proof -
  let ?names = "checkpoint_name ` set (canonical_ids n)"
  have "?names \<subseteq> set (store_keys store)"
    using assms(1,2) by (auto simp: list_all_iff keys_ok_def provides_def split: option.splits)
  then have "card ?names \<le> card (set (store_keys store))" by (intro card_mono) simp_all
  moreover have "inj_on checkpoint_name (set (canonical_ids n))"
    by (simp add: inj_on_def checkpoint_name_inj)
  then have "card ?names = 3 + 9 * n"
    using distinct_card [OF distinct_canonical_ids [OF assms(3)]] by (simp add: card_image length_canonical_ids)
  ultimately show ?thesis
    using assms(1) distinct_card [of "store_keys store"] by (simp add: keys_ok_def store_size_def)
qed

section \<open>The published source\<close>

lemma required_count_ok:
  assumes "config_wf c" and "weights_fit c"
  obtains count where "checked_required_count c = Inr count" "unat count = 3 + 9 * unat (num_hidden_layers c)"
proof -
  let ?N = "unat (num_hidden_layers c)"
  let ?L = "\<Sum>role \<leftarrow> layer_role_list. 2 * tiled_of c role"
  have pos: "1 \<le> tiled_of c role" for role
  proof -
    have v: "valid_shape (shape (role_spec c role))" using role_spec_valid(2) [OF assms(1), of role] by (simp add: supported_spec_def)
    then have "0 < logical_of c role"
      using extents_pos [OF v] by (auto simp: logical_elements_def prod_list_zero_iff intro!: gr0I)
    then show ?thesis using logical_le_tiled_of [OF assms(1), of role] by linarith
  qed
  have "9 \<le> ?L" "3 \<le> (\<Sum>role \<leftarrow> global_role_list. 2 * tiled_of c role)"
    using pos [of input_norm] pos [of post_attention_norm] pos [of query_role] pos [of key_role] pos [of value_role]
      pos [of attention_output] pos [of mlp_gate] pos [of mlp_up] pos [of mlp_down] pos [of token_embedding]
      pos [of final_norm] pos [of lm_head]
    by simp_all
  moreover from this have "?N * 9 \<le> ?N * ?L" by (intro mult_le_mono2)
  ultimately have fit: "3 + 9 * ?N < 2 ^ 64" using assms(2) unfolding weights_fit_iff [OF assms(1)] by linarith
  have nine: "unat (9 :: usize) = 9" and three: "unat (3 :: usize) = 3" by simp_all
  have "unat (9 :: usize) * ?N < 2 ^ 64" using fit nine by simp
  note mul = checked_mul_fits [OF this]
  then have "unat (3 :: usize) + unat (9 * num_hidden_layers c) < 2 ^ 64" using fit nine three by simp
  note add = checked_add_fits [OF this]
  show thesis
    by (rule that [of "3 + 9 * num_hidden_layers c"])
      (use mul add nine three in \<open>simp_all add: checked_required_count_def\<close>)
qed

lemma checked_required_count_value:
  "checked_required_count c = Inr count \<Longrightarrow> unat count = 3 + 9 * unat (num_hidden_layers c)"
  by (auto simp: checked_required_count_def andThen_Inr_iff checked_mul_Inr checked_add_Inr)

lemma select_published:
  assumes "config_wf c" and "weights_fit c" and "plan_of c plan"
  shows "andThen (for_each (plan_globals plan) (\<lambda>schema. append_selected store (schema, None)) ([], [], []))
     (\<lambda>selected. andThen (for_each [0..<unat (num_hidden_layers c)] (\<lambda>layer.
                for_each (plan_layer_roles plan) (\<lambda>schema. append_selected store (schema, Some (of_nat layer)))) selected)
       (\<lambda>(weights, specs, payloads).
          Inr \<lparr>source_config = c, source_store = store, source_weights = weights, source_specs = specs,
               source_payloads = payloads\<rparr>))
   = (if list_all (provides store c) (canonical_ids (unat (num_hidden_layers c))) then Inr (published c store)
      else Inl InvalidArgument)"
proof -
  let ?ids = "canonical_ids (unat (num_hidden_layers c))"
  have bits: "canonical i \<and> 16 * tiled_of c (weight_role i) + 7 < 2 ^ 64" if "i \<in> set ?ids" for i
    using that assms(2) canonical_ids_canonical by (auto simp: weights_fit_def Let_def list_all_iff)
  show ?thesis
    using select_entries [OF assms(1) bits, where store = store and ws = "[]" and ss = "[]" and ps = "[]"] selection_loops [where c = c and store = store and s = "([], [], [])"] assms(3)
    unfolding plan_of_def
    by (simp add: andThen_assoc [symmetric] published_def Let_def entry_info_def [abs_def])
qed

section \<open>Loading\<close>

lemma loaded_source:
  assumes load: "load_tinyllama_safetensors config_parse G header_parse content entries = Inr source"
  obtains c store where "load_tinyllama_config config_parse G content = Inr c"
    and "open_mapped_store header_parse entries = Inr store" and "config_wf c" and "weights_fit c"
    and "list_all (provides store c) (canonical_ids (unat (num_hidden_layers c)))" and "source = published c store"
proof -
  from load obtain c count store plan where c: "load_tinyllama_config config_parse G content = Inr c"
    and store: "open_mapped_store header_parse entries = Inr store"
    and plan: "build_weight_plan c count = Inr plan"
    and rest: "andThen (for_each (plan_globals plan) (\<lambda>schema. append_selected store (schema, None)) ([], [], []))
     (\<lambda>selected. andThen (for_each [0..<unat (num_hidden_layers c)] (\<lambda>layer.
                for_each (plan_layer_roles plan) (\<lambda>schema. append_selected store (schema, Some (of_nat layer)))) selected)
       (\<lambda>(weights, specs, payloads).
          Inr \<lparr>source_config = c, source_store = store, source_weights = weights, source_specs = specs,
               source_payloads = payloads\<rparr>)) = Inr source"
    unfolding load_tinyllama_safetensors_def andThen_Inr_iff [where m = "load_tinyllama_config config_parse G content"]
      andThen_Inr_iff [where m = "checked_required_count _"] andThen_Inr_iff [where m = "open_mapped_store _ _"]
      andThen_Inr_iff [where m = "build_weight_plan _ _"] guard_Inr_iff
    by blast
  have wf: "config_wf c" using accepted_config_is_wf [OF c] .
  note fits = build_weight_plan_fits [OF wf plan]
  have "list_all (provides store c) (canonical_ids (unat (num_hidden_layers c)))" "source = published c store"
    using rest select_published [OF wf, of plan store] fits by (simp_all split: if_splits)
  with that [OF c store wf] fits show thesis by blast
qed

lemma source_loads:
  assumes c: "load_tinyllama_config config_parse G content = Inr c"
    and store: "open_mapped_store header_parse entries = Inr store" and fit: "weights_fit c"
    and prov: "list_all (provides store c) (canonical_ids (unat (num_hidden_layers c)))"
  shows "load_tinyllama_safetensors config_parse G header_parse content entries = Inr (published c store)"
proof -
  have wf: "config_wf c" using accepted_config_is_wf [OF c] .
  obtain count where count: "checked_required_count c = Inr count" "unat count = 3 + 9 * unat (num_hidden_layers c)"
    by (rule required_count_ok [OF wf fit])
  obtain plan where plan: "build_weight_plan c count = Inr plan" using build_weight_plan_exists [OF wf fit] by blast
  note fits = build_weight_plan_fits [OF wf plan]
  have "3 + 9 * unat (num_hidden_layers c) \<le> store_size store"
    by (rule provided_store_size [OF open_mapped_store_keys_ok [OF store] prov unat_less])
  then have "store_size store \<noteq> 0" "\<not> store_size store < unat (required_count plan)" using fits count(2) by simp_all
  then show ?thesis
    using select_published [OF wf fit, of plan store] fits prov
    by (simp add: load_tinyllama_safetensors_def c count(1) store plan)
qed

text \<open>
  C13. A directory is published exactly when its configuration is accepted, its files open, all weights of
  the configuration can be sized in the tiled layout, and the files have every required tensor with the
  required shape, the type BF16 and that many bytes. The published inventory is then the canonical one:
  the three globals and, layer by layer, the nine roles of each layer, with the stored names, the adapted
  shapes and the tensors' own bytes. The number of tensors, compared before any is named, rejects
  nothing that the selection would accept.
\<close>

theorem source_published:
  "load_tinyllama_safetensors config_parse G header_parse content entries = Inr source \<longleftrightarrow>
     (\<exists>c store. load_tinyllama_config config_parse G content = Inr c
        \<and> open_mapped_store header_parse entries = Inr store \<and> weights_fit c
        \<and> list_all (provides store c) (canonical_ids (unat (num_hidden_layers c)))
        \<and> source = published c store)"
  using loaded_source [of config_parse G header_parse content entries source]
    source_loads [of config_parse G content _ header_parse entries] by metis

text \<open>A directory with one layer: twelve tensors of 80 bytes in one file.\<close>

definition sample_shapes :: "(ModelWeightId \<times> usize list \<times> usize) list" where
  "sample_shapes =
     (let g = \<lambda>role. \<lparr>weight_role = role, weight_layer = None\<rparr>; l = \<lambda>role. \<lparr>weight_role = role, weight_layer = Some 0\<rparr> in
      [(g token_embedding, [3, 2], 0), (g final_norm, [2], 12), (g lm_head, [3, 2], 16), (l input_norm, [2], 28),
       (l post_attention_norm, [2], 32), (l query_role, [2, 2], 36), (l key_role, [2, 2], 44), (l value_role, [2, 2], 52),
       (l attention_output, [2, 2], 60), (l mlp_gate, [1, 2], 68), (l mlp_up, [1, 2], 72), (l mlp_down, [2, 1], 76)])"

definition sample_tensor_json :: "ModelWeightId \<times> usize list \<times> usize \<Rightarrow> string \<times> json" where
  "sample_tensor_json = (\<lambda>(i, dims, offset). (checkpoint_name i, JObject
     [(''dtype'', JString ''BF16''), (''shape'', JArray (map JUnsigned dims)),
      (''data_offsets'', JArray [JUnsigned offset, JUnsigned (offset + 2 * foldl (*) 1 dims)])]))"

definition sample_header_json :: json where
  "sample_header_json = JObject (map sample_tensor_json sample_shapes)"

definition sample_shard :: DirectoryEntry where
  "sample_shard = \<lparr>entry_path = ''m.safetensors'', entry_regular = True,
     entry_content = Some (1 # replicate 88 0)\<rparr>"

definition sample_record :: "ModelWeightId \<times> usize list \<times> usize \<Rightarrow> TensorRecord" where
  "sample_record = (\<lambda>(i, dims, offset).
     \<lparr>rec_name = checkpoint_name i, rec_dtype = BF16, rec_shape = dims, rec_begin = offset,
      rec_end = offset + 2 * foldl (*) 1 dims\<rparr>)"

lemma sample_records:
  "load_records 80 (map sample_tensor_json sample_shapes) = Inr (map sample_record sample_shapes)"
  "check_cover 80 0 (physical_order (map sample_record sample_shapes)) = Inr ()"
  "shard_entries [sample_shard] = [sample_shard]"
  "distinct (map rec_name (map sample_record sample_shapes))"
  by code_simp+

lemma insert_shard_all:
  assumes "distinct keys" and "\<And>k. k \<in> set keys \<Longrightarrow> tensors_map shard k \<noteq> None \<and> tensors_map base k = None"
  shows "\<exists>store. insert_shard base shard keys = Inr store
    \<and> tensors_map store = (\<lambda>k. if k \<in> set keys then tensors_map shard k else tensors_map base k)"
  using assms
proof (induction keys arbitrary: base)
  case (Cons key keys)
  obtain view where view: "tensors_map shard key = Some view" using Cons.prems(2) [of key] by auto
  let ?base = "base\<lparr>tensors_map := (tensors_map base)(key \<mapsto> view), store_keys := store_keys base @ [key]\<rparr>"
  have "store_insert base key view = (?base, True)" using Cons.prems(2) [of key] by (simp add: store_insert_def)
  moreover have "tensors_map shard k \<noteq> None \<and> tensors_map ?base k = None" if "k \<in> set keys" for k
    using Cons.prems that by auto
  then obtain store where "insert_shard ?base shard keys = Inr store"
      "tensors_map store = (\<lambda>k. if k \<in> set keys then tensors_map shard k else tensors_map ?base k)"
    using Cons.IH [of ?base] Cons.prems(1) by auto
  moreover have "(\<lambda>k. if k \<in> set keys then tensors_map shard k else tensors_map ?base k)
      = (\<lambda>k. if k \<in> set (key # keys) then tensors_map shard k else tensors_map base k)"
    using Cons.prems(1) view by auto
  ultimately show ?case using view by (simp add: store_at_def)
qed simp

lemma sample_store_opens:
  "\<exists>store. open_mapped_store (\<lambda>_. Some sample_header_json) [sample_shard] = Inr store
    \<and> (\<forall>x \<in> set sample_shapes. tensors_map store (checkpoint_name (fst x)) = Some (record_view ''m.safetensors'' 9 (sample_record x)))"
proof -
  let ?rs = "map sample_record sample_shapes" and ?raw = "1 # replicate 88 (0 :: 8 word)"
  let ?parse = "\<lambda>_ :: bytes. Inr sample_header_json"
  define file_store where "file_store = foldl (insert_record ''m.safetensors'' 9) empty_store ?rs"
  have header: "read_le_u64 ?raw = 1" "of_nat (length ?raw) = (89 :: usize)" by code_simp+
  have loaded: "load_file ?parse ''m.safetensors'' (Some ?raw) = Inr file_store"
    using sample_records(1,2)
    by (simp add: load_file_def mapped_file_def header [simplified] kMaxHeaderSize_def sample_header_json_def Let_def
        file_store_def word_less_nat_alt)
  have entries: "store_keys file_store = map rec_name ?rs"
    "\<And>name v. tensors_map file_store name = Some v \<longleftrightarrow> (\<exists>r \<in> set ?rs. rec_name r = name \<and> v = record_view ''m.safetensors'' 9 r)"
    using insert_records [OF sample_records(4), of empty_store "''m.safetensors''" 9]
    by (simp_all add: file_store_def empty_store_def)
  have known: "tensors_map file_store k \<noteq> None \<and> tensors_map empty_store k = None" if "k \<in> set (store_keys file_store)" for k
    using that unfolding entries(1) by (auto simp: entries(2) empty_store_def)
  have "distinct (store_keys file_store)" using sample_records(4) by (simp only: entries(1))
  from insert_shard_all [OF this known] obtain store where
    store: "insert_shard empty_store file_store (store_keys file_store) = Inr store"
      "tensors_map store = (\<lambda>k. if k \<in> set (store_keys file_store) then tensors_map file_store k else tensors_map empty_store k)"
    by blast
  have "open_mapped_store (\<lambda>_. Some sample_header_json) [sample_shard] = Inr store"
    using store(1) loaded
    by (simp add: open_mapped_store_def load_directory_def sample_records(3)) (simp add: sample_shard_def)
  moreover have "tensors_map store (checkpoint_name (fst x)) = Some (record_view ''m.safetensors'' 9 (sample_record x))"
    if "x \<in> set sample_shapes" for x
  proof -
    have "rec_name (sample_record x) = checkpoint_name (fst x)" by (cases x) (simp add: sample_record_def)
    moreover have "sample_record x \<in> set ?rs" using that by simp
    ultimately have "tensors_map file_store (checkpoint_name (fst x)) = Some (record_view ''m.safetensors'' 9 (sample_record x))"
      "checkpoint_name (fst x) \<in> set (store_keys file_store)"
      unfolding entries(1) entries(2) by force+
    then show ?thesis by (simp add: store(2))
  qed
  ultimately show ?thesis by blast
qed

lemma sample_weights:
  "canonical_ids (unat (num_hidden_layers sample_config)) = map fst sample_shapes"
  "list_all (\<lambda>(i, dims, offset). dims = role_shape sample_config (weight_role i)
     \<and> unat (offset + 2 * foldl (*) 1 dims - offset) = 2 * logical_elements (shape (role_spec sample_config (weight_role i)))) sample_shapes"
  "list_all (\<lambda>role. tiled_of sample_config role = 256) (map weight_role (map fst sample_shapes))"
  "length sample_shapes = 12"
  by code_simp+

lemma sample_weights_fit: "weights_fit sample_config"
proof -
  have "map (\<lambda>role. 2 * tiled_of sample_config role) (map weight_role (map fst sample_shapes)) = map (\<lambda>_. 512) sample_shapes"
    using sample_weights(3) by (simp add: list_all_iff)
  then have "(\<Sum>role \<leftarrow> map weight_role (map fst sample_shapes). 2 * tiled_of sample_config role) = 512 * 12"
    by (simp only: map_replicate_const sample_weights(4) sum_list_replicate) simp
  moreover have "list_all (\<lambda>role. 16 * tiled_of sample_config role + 7 < 2 ^ 64) (map weight_role (map fst sample_shapes))"
    using sample_weights(3) unfolding list_all_iff by simp
  ultimately show ?thesis unfolding weights_fit_def Let_def sample_weights(1) by simp
qed

lemma sample_provided:
  assumes "\<And>x. x \<in> set sample_shapes \<Longrightarrow>
      tensors_map store (checkpoint_name (fst x)) = Some (record_view ''m.safetensors'' 9 (sample_record x))"
  shows "list_all (provides store sample_config) (canonical_ids (unat (num_hidden_layers sample_config)))"
proof -
  have "provides store sample_config (fst x)" if "x \<in> set sample_shapes" for x
    using assms [OF that] sample_weights(2) that
    by (cases x) (auto simp: provides_def record_view_def sample_record_def list_all_iff simp del: role_shape.simps)
  then show ?thesis by (simp add: sample_weights(1) list_all_iff)
qed

theorem source_published_witness:
  "\<exists>source. load_tinyllama_safetensors (\<lambda>_. Some sample_config_json) sample_double (\<lambda>_. Some sample_header_json)
       (Some ''config'') [sample_shard] = Inr source
     \<and> length (source_weights source) = 12 \<and> source_payloads source ! 3 = (''m.safetensors'', 37, 4)
     \<and> dimensions (shape (source_specs source ! 3)) = [1, 2]"
proof -
  obtain store where open_: "open_mapped_store (\<lambda>_. Some sample_header_json) [sample_shard] = Inr store"
    and views: "\<And>x. x \<in> set sample_shapes \<Longrightarrow>
      tensors_map store (checkpoint_name (fst x)) = Some (record_view ''m.safetensors'' 9 (sample_record x))"
    using sample_store_opens by blast
  note prov = sample_provided [OF views]
  have load: "load_tinyllama_safetensors (\<lambda>_. Some sample_config_json) sample_double (\<lambda>_. Some sample_header_json)
       (Some ''config'') [sample_shard] = Inr (published sample_config store)"
    unfolding source_published using sample_config_loads open_ sample_weights_fit prov by blast
  let ?i = "\<lparr>weight_role = input_norm, weight_layer = Some 0\<rparr> :: ModelWeightId"
  have third: "map fst sample_shapes ! 3 = ?i" "length sample_shapes = 12" by code_simp+
  have "(?i, [2], 28) \<in> set sample_shapes" by (simp add: sample_shapes_def)
  from views [OF this] have "payload_of store ?i = (''m.safetensors'', 37, 4)"
    by (simp add: payload_of_def record_view_def sample_record_def)
  moreover have "dimensions (shape (role_spec sample_config input_norm)) = [1, 2]" by code_simp
  ultimately show ?thesis
    using load third
    by (intro exI [of _ "published sample_config store"]) (simp add: published_def Let_def sample_weights(1))
qed

end
