(* ===== verification/Model_Upload.thy ===== *)
theory Model_Upload
  imports Model_Source Cpu_Elements
begin

text \<open>
  The realization of a source on a device, \<open>ModelSource::upload_weights\<close> in \<open>src/src/model.cpp\<close>: the
  complete binding of destinations is validated, then every payload is copied into its destination. The
  theorem is about the CPU backend: an upload either writes nothing or gives every element of every
  weight the value stored in the file.
\<close>

section \<open>The destination binding\<close>

text \<open>A destination is a pointer to an owner, \<open>None\<close> the null pointer. The totals are the logical and the tiled bytes.\<close>

definition bind_destination ::
  "store \<Rightarrow> device_ref \<Rightarrow> TensorSpec \<times> tensor_ref option \<Rightarrow> usize \<times> usize \<Rightarrow> (usize \<times> usize) throws" where
  "bind_destination st device = (\<lambda>(expected, destination) (logical_total, tiled_total).
     case destination of
       None \<Rightarrow> Inl InvalidArgument
     | Some owner \<Rightarrow>
         let full = full_view (st owner) in
         if owner_identity full \<noteq> Some owner then Inl InvalidArgument
         else if view_device st full \<noteq> Some device then Inl InvalidArgument
         else let actual = spec full in
         andThen (logical_nbytes actual) (\<lambda>logical.
         andThen (checked_add logical_total logical) (\<lambda>logical_total.
         andThen (tiled_storage_nbytes actual) (\<lambda>tiled.
         andThen (checked_add tiled_total tiled) (\<lambda>tiled_total.
         if actual \<noteq> expected then Inl InvalidArgument else Inr (logical_total, tiled_total))))))"

fun adjacent_repeat :: "'a list \<Rightarrow> bool" where
  "adjacent_repeat (x # y # xs) = (x = y \<or> adjacent_repeat (y # xs))"
| "adjacent_repeat _ = False"

text \<open>The pointers are compared by their addresses.\<close>

definition repeated_owner :: "tensor_ref option list \<Rightarrow> bool" where
  "repeated_owner destinations =
     (let order = sort_key (\<lambda>i. the (destinations ! i)) [0..<length destinations] in
      adjacent_repeat (map (\<lambda>i. the (destinations ! i)) order))"

text \<open>The requirement of each owner is a virtual function of its backend.\<close>

definition maximal_requirements ::
  "(tensor_ref \<Rightarrow> usize \<Rightarrow> WorkspaceRequirements throws) \<Rightarrow> store \<Rightarrow> tensor_ref option list \<Rightarrow> WorkspaceRequirements throws" where
  "maximal_requirements transfer_requirements st destinations =
     andThen (for_each destinations (\<lambda>destination maximum.
       let owner = the destination in
       andThen (copy_from_host_workspace_requirements (transfer_requirements owner) (full_view (st owner))) (\<lambda>required.
       Inr \<lparr>req_bytes = max (req_bytes maximum) (req_bytes required),
            req_alignment = max (req_alignment maximum) (req_alignment required)\<rparr>))
       \<lparr>req_bytes = 0, req_alignment = 1\<rparr>) (\<lambda>maximum.
     if req_bytes maximum = 0 then Inr \<lparr>req_bytes = 0, req_alignment = 1\<rparr> else Inr maximum)"

definition validate_destination_binding ::
  "(tensor_ref \<Rightarrow> usize \<Rightarrow> WorkspaceRequirements throws) \<Rightarrow> DataType list \<Rightarrow> store \<Rightarrow> ModelSource \<Rightarrow> device_ref
     \<Rightarrow> tensor_ref option list \<Rightarrow> WorkspaceRequirements throws" where
  "validate_destination_binding transfer_requirements supported st source device destinations =
     (let expected_specs = source_specs source in
      if length destinations \<noteq> length expected_specs then Inl InvalidArgument
      else if kSelectedDataType \<notin> set supported then Inl InvalidArgument
      else andThen (for_each (zip expected_specs destinations) (bind_destination st device) (0, 0)) (\<lambda>_.
      if repeated_owner destinations then Inl InvalidArgument
      else maximal_requirements transfer_requirements st destinations))"

section \<open>The upload\<close>

text \<open>
  The hooks are the bytes of a mapped span and the virtual transfer of the owner's backend, which may leave
  any state behind when it throws. The operands' objects do not change.
\<close>

definition upload_workspace ::
  "Objects \<Rightarrow> device_ref \<Rightarrow> tensor_ref option list \<Rightarrow> RawWorkspaceView \<Rightarrow> WorkspaceRequirements \<Rightarrow> unit throws" where
  "upload_workspace ob device destinations workspace requirements =
     (if req_bytes requirements \<noteq> 0 then
        for_each destinations (\<lambda>destination _.
          andThen (validated_workspace (live_workspaces ob) (workspaces ob) (tensors ob) device workspace
                    (req_bytes requirements) (req_alignment requirements) [full_view (tensors ob (the destination))])
            (\<lambda>_. Inr ())) ()
      else Inr ())"

definition upload_payload ::
  "(payload \<Rightarrow> 's \<Rightarrow> byte list) \<Rightarrow> (TensorView \<Rightarrow> payload \<Rightarrow> RawWorkspaceView \<Rightarrow> 's \<Rightarrow> 's effect) \<Rightarrow> store \<Rightarrow> RawWorkspaceView
     \<Rightarrow> tensor_ref option \<times> payload \<Rightarrow> 's \<Rightarrow> 's effect" where
  "upload_payload payload_bytes region_from_host_hook st workspace = (\<lambda>(destination, payload) s.
     reading (copy_from_host (\<lambda>v _ s. Inr (region_from_host_hook v payload workspace s)) (full_view (st (the destination)))
               (payload_bytes payload s) s)
       (\<lambda>outcome _. outcome) s)"

definition upload_weights ::
  "(tensor_ref \<Rightarrow> usize \<Rightarrow> WorkspaceRequirements throws) \<Rightarrow> DataType list \<Rightarrow> (payload \<Rightarrow> 's \<Rightarrow> byte list)
     \<Rightarrow> (TensorView \<Rightarrow> payload \<Rightarrow> RawWorkspaceView \<Rightarrow> 's \<Rightarrow> 's effect)
     \<Rightarrow> Objects \<Rightarrow> ModelSource \<Rightarrow> device_ref \<Rightarrow> tensor_ref option list \<Rightarrow> RawWorkspaceView \<Rightarrow> 's \<Rightarrow> 's effect" where
  "upload_weights transfer_requirements supported payload_bytes region_from_host_hook ob source device destinations workspace =
     reading (validate_destination_binding transfer_requirements supported (tensors ob) source device destinations) (\<lambda>requirements.
     reading (upload_workspace ob device destinations workspace requirements) (\<lambda>_.
     effects (zip destinations (source_payloads source))
       (upload_payload payload_bytes region_from_host_hook (tensors ob) workspace)))"

text \<open>The leaf types every backend with the standard layout advertises, in the order of the array.\<close>

definition kStandardSupportedDataTypes :: "DataType list" where
  "kStandardSupportedDataTypes =
     [BOOL, I2, U2, I4, U4, I8, U8, I16, U16, I32, U32, I64, U64, F4_E2M1, F6_E2M3, F6_E3M2,
      F8_E4M3FN, F8_E5M2, F8_E8M0, F16, BF16, F32, F64]"

text \<open>
  The CPU backend needs no scratch. A payload lies at its offset in the mapping of its file; what a
  transfer that throws has written is not described, and an argument.
\<close>

definition cpu_transfer_requirements :: "tensor_ref \<Rightarrow> usize \<Rightarrow> WorkspaceRequirements throws" where
  "cpu_transfer_requirements owner nbytes = Inr \<lparr>req_bytes = 0, req_alignment = 1\<rparr>"

definition payload_address :: "(string \<Rightarrow> usize) \<Rightarrow> payload \<Rightarrow> usize" where
  "payload_address mapping = (\<lambda>(path, offset, nbytes). mapping path + offset)"

definition payload_size :: "payload \<Rightarrow> usize" where
  "payload_size = (\<lambda>(path, offset, nbytes). nbytes)"

definition cpu_region_from_host ::
  "(string \<Rightarrow> usize) \<Rightarrow> (TensorView \<Rightarrow> payload \<Rightarrow> memory \<Rightarrow> memory) \<Rightarrow> store
     \<Rightarrow> TensorView \<Rightarrow> payload \<Rightarrow> RawWorkspaceView \<Rightarrow> memory \<Rightarrow> memory effect" where
  "cpu_region_from_host mapping left st v payload workspace mem =
     (case region_from_host (storage_handle (st (the (owner_identity v)))) v (payload_address mapping payload) mem of
        Inl e \<Rightarrow> (left v payload mem, Inl e)
      | Inr mem \<Rightarrow> (mem, Inr ()))"

definition cpu_upload_weights ::
  "(string \<Rightarrow> usize) \<Rightarrow> (TensorView \<Rightarrow> payload \<Rightarrow> memory \<Rightarrow> memory) \<Rightarrow> Objects \<Rightarrow> ModelSource \<Rightarrow> device_ref
     \<Rightarrow> tensor_ref option list \<Rightarrow> RawWorkspaceView \<Rightarrow> memory \<Rightarrow> memory effect" where
  "cpu_upload_weights mapping left ob =
     upload_weights cpu_transfer_requirements kStandardSupportedDataTypes
       (\<lambda>payload. span_bytes (payload_address mapping payload) (payload_size payload))
       (cpu_region_from_host mapping left (tensors ob)) ob"

section \<open>Accepted bindings\<close>

text \<open>One owner for each entry, on the device, with the entry's specification, and none twice.\<close>

definition binding_accepted :: "store \<Rightarrow> device_ref \<Rightarrow> ModelSource \<Rightarrow> tensor_ref option list \<Rightarrow> bool" where
  "binding_accepted st device source destinations \<longleftrightarrow>
     list_all2 (\<lambda>expected destination. \<exists>owner. destination = Some owner \<and> tensor_device (st owner) = device
                  \<and> spec (full_view (st owner)) = expected) (source_specs source) destinations
     \<and> distinct destinations"

lemma bind_destination_binds:
  "bind_destination st device (expected, destination) totals = Inr totals' \<Longrightarrow>
     \<exists>owner. destination = Some owner \<and> tensor_device (st owner) = device \<and> spec (full_view (st owner)) = expected"
  by (cases totals) (auto simp: bind_destination_def Let_def andThen_Inr_iff view_device_def split: option.splits if_splits)

lemma bind_loop_binds:
  assumes "for_each (zip expected destinations) (bind_destination st device) totals = Inr totals'"
    and "length destinations = length expected"
  shows "list_all2 (\<lambda>expected destination. \<exists>owner. destination = Some owner \<and> tensor_device (st owner) = device
                  \<and> spec (full_view (st owner)) = expected) expected destinations"
  using assms(2,1)
proof (induction destinations expected arbitrary: totals rule: list_induct2)
  case (Cons d ds x xs)
  from Cons.prems obtain mid where mid: "bind_destination st device (x, d) totals = Inr mid"
      "for_each (zip xs ds) (bind_destination st device) mid = Inr totals'"
    by (auto simp: andThen_Inr_iff)
  show ?case using bind_destination_binds [OF mid(1)] Cons.IH [OF mid(2)] by simp
qed simp

text \<open>The specifications of a source can be sized, and their totals do not overflow.\<close>

definition sizes_fit :: "TensorSpec list \<Rightarrow> bool" where
  "sizes_fit specs \<longleftrightarrow>
     (\<forall>s \<in> set specs. \<exists>l t. logical_nbytes s = Inr l \<and> tiled_storage_nbytes s = Inr t
        \<and> unat l \<le> 2 * tiled_elements (shape s) \<and> unat t = 2 * tiled_elements (shape s))
     \<and> (\<Sum>s \<leftarrow> specs. 2 * tiled_elements (shape s)) < 2 ^ 64"

lemma bind_loop_accepts:
  assumes "list_all2 (\<lambda>expected destination. \<exists>owner. destination = Some owner \<and> tensor_device (st owner) = device
                  \<and> spec (full_view (st owner)) = expected) expected destinations"
    and "\<And>owner. Some owner \<in> set destinations \<Longrightarrow> owner_identity (full_view (st owner)) = Some owner"
    and "\<forall>s \<in> set expected. \<exists>l t. logical_nbytes s = Inr l \<and> tiled_storage_nbytes s = Inr t
        \<and> unat l \<le> 2 * tiled_elements (shape s) \<and> unat t = 2 * tiled_elements (shape s)"
    and "unat logical + (\<Sum>s \<leftarrow> expected. 2 * tiled_elements (shape s)) < 2 ^ 64"
    and "unat tiled + (\<Sum>s \<leftarrow> expected. 2 * tiled_elements (shape s)) < 2 ^ 64"
  shows "\<exists>totals. for_each (zip expected destinations) (bind_destination st device) (logical, tiled) = Inr totals"
  using assms
proof (induction arbitrary: logical tiled rule: list_all2_induct)
  case (Cons x xs d ds)
  from Cons.hyps(1) obtain owner where owner: "d = Some owner" "tensor_device (st owner) = device" "spec (full_view (st owner)) = x"
    by blast
  have own: "owner_identity (full_view (st owner)) = Some owner" using Cons.prems(1) owner(1) by simp
  from Cons.prems(2) obtain l t where sizes: "logical_nbytes x = Inr l" "tiled_storage_nbytes x = Inr t"
      "unat l \<le> 2 * tiled_elements (shape x)" "unat t = 2 * tiled_elements (shape x)" by auto
  have adds: "checked_add logical l = Inr (logical + l)" "unat (logical + l) = unat logical + unat l"
      "checked_add tiled t = Inr (tiled + t)" "unat (tiled + t) = unat tiled + unat t"
    using checked_add_fits [of logical l] checked_add_fits [of tiled t] Cons.prems(3,4) sizes(3,4) by simp_all
  have "bind_destination st device (x, d) (logical, tiled) = Inr (logical + l, tiled + t)"
    by (simp add: bind_destination_def owner own view_device_def sizes adds)
  moreover have "\<exists>totals. for_each (zip xs ds) (bind_destination st device) (logical + l, tiled + t) = Inr totals"
    by (rule Cons.IH) (use Cons.prems adds sizes(3,4) in auto)
  ultimately show ?case by simp
qed simp

lemma adjacent_repeat_sorted: "sorted xs \<Longrightarrow> adjacent_repeat xs \<longleftrightarrow> \<not> distinct (xs :: nat list)"
proof (induction xs rule: adjacent_repeat.induct)
  case (1 x y xs)
  then show ?case by (cases "x = y") (auto intro: order_antisym)
qed simp_all

lemma map_sort_key: "map f (sort_key f xs) = sort (map f xs)"
proof (induction xs)
  case (Cons x xs)
  have "map f (insort_key f x ys) = insort (f x) (map f ys)" for ys by (induction ys) simp_all
  with Cons.IH show ?case by simp
qed simp

lemma repeated_owner_iff:
  assumes "None \<notin> set destinations"
  shows "repeated_owner destinations \<longleftrightarrow> \<not> distinct destinations"
proof -
  let ?f = "\<lambda>i. the (destinations ! i)"
  have "map ?f (sort_key ?f [0..<length destinations]) = sort (map ?f [0..<length destinations])"
    by (rule map_sort_key)
  also have "map ?f [0..<length destinations] = map the destinations"
    by (rule nth_equalityI) simp_all
  finally have "repeated_owner destinations \<longleftrightarrow> \<not> distinct (map the destinations)"
    by (simp add: repeated_owner_def adjacent_repeat_sorted)
  moreover have "inj_on the (set destinations)"
    using assms by (intro inj_onI) (metis option.expand)
  ultimately show ?thesis by (simp add: distinct_map)
qed

lemma cpu_maximal_requirements:
  assumes "\<And>d. d \<in> set destinations \<Longrightarrow> \<exists>n. logical_nbytes (spec (full_view (st (the d)))) = Inr n"
  shows "maximal_requirements cpu_transfer_requirements st destinations = Inr \<lparr>req_bytes = 0, req_alignment = 1\<rparr>"
proof -
  have "for_each ds (\<lambda>destination maximum.
       let owner = the destination in
       andThen (copy_from_host_workspace_requirements (cpu_transfer_requirements owner) (full_view (st owner))) (\<lambda>required.
       Inr \<lparr>req_bytes = max (req_bytes maximum) (req_bytes required),
            req_alignment = max (req_alignment maximum) (req_alignment required)\<rparr>))
       \<lparr>req_bytes = 0, req_alignment = 1\<rparr> = Inr \<lparr>req_bytes = 0, req_alignment = 1\<rparr>" if "set ds \<subseteq> set destinations" for ds
    using that
  proof (induction ds)
    case (Cons d ds)
    then obtain n where "logical_nbytes (spec (full_view (st (the d)))) = Inr n" using assms by force
    with Cons show ?case by (simp add: copy_from_host_workspace_requirements_def cpu_transfer_requirements_def)
  qed simp
  then show ?thesis by (simp add: maximal_requirements_def)
qed

text \<open>The inventory of a loaded source: every entry can be sized, and its payload has its logical bytes.\<close>

lemma published_sizes:
  assumes "load_tinyllama_safetensors config_parse G header_parse content entries = Inr source"
  shows "sizes_fit (source_specs source)"
    and "list_all2 (\<lambda>s p. logical_nbytes s = Inr (payload_size p) \<and> data_type s = BF16) (source_specs source) (source_payloads source)"
proof -
  obtain c store where wf: "config_wf c" and fit: "weights_fit c"
    and prov: "list_all (provides store c) (canonical_ids (unat (num_hidden_layers c)))" and src: "source = published c store"
    by (rule loaded_source [OF assms])
  let ?ids = "canonical_ids (unat (num_hidden_layers c))"
  have specs: "source_specs source = map (role_spec c) (map weight_role ?ids)"
    and payloads: "source_payloads source = map (payload_of store) ?ids"
    by (simp_all add: src published_def Let_def comp_def)
  have small: "16 * tiled_of c role + 7 < 2 ^ 64" "16 * logical_of c role + 7 < 2 ^ 64" if "role \<in> set (map weight_role ?ids)" for role
    using fit that logical_le_tiled_of [OF wf, of role] by (simp_all add: weights_fit_def Let_def list_all_iff) fastforce+
  have "\<exists>l t. logical_nbytes s = Inr l \<and> tiled_storage_nbytes s = Inr t
        \<and> unat l \<le> 2 * tiled_elements (shape s) \<and> unat t = 2 * tiled_elements (shape s)" if s: "s \<in> set (source_specs source)" for s
  proof -
    obtain role where role: "role \<in> set (map weight_role ?ids)" "s = role_spec c role"
      using s unfolding specs by auto
    have word: "\<exists>x :: usize. unat x = 2 * n" if "16 * n + 7 < 2 ^ 64" for n
      by (rule exI [of _ "of_nat (2 * n)"], rule unat_of_nat_fits) (use that in simp)
    obtain l t :: usize where l: "unat l = 2 * logical_of c role" and t: "unat t = 2 * tiled_of c role"
      using word small [OF role(1)] by blast
    have "logical_nbytes s = Inr l" "tiled_storage_nbytes s = Inr t"
      unfolding role(2) role_bytes(2,3) [OF wf] using small [OF role(1)] l t by blast+
    then show ?thesis
      using l t logical_le_tiled_of [OF wf, of role] by (simp add: tiled_of_def role(2))
  qed
  moreover have "(\<Sum>s \<leftarrow> source_specs source. 2 * tiled_elements (shape s)) < 2 ^ 64"
    using fit by (simp add: weights_fit_def Let_def specs tiled_of_def comp_def)
  ultimately show "sizes_fit (source_specs source)" by (simp add: sizes_fit_def)
  have "logical_nbytes (role_spec c (weight_role i)) = Inr (payload_size (payload_of store i))" if i: "i \<in> set ?ids" for i
  proof -
    have "provides store c i" using prov i by (simp add: list_all_iff)
    then have "unat (payload_size (payload_of store i)) = 2 * logical_of c (weight_role i)"
      by (simp add: provides_def payload_of_def payload_size_def split: option.splits)
    then show ?thesis unfolding role_bytes(2) [OF wf] using small(2) [of "weight_role i"] i by simp
  qed
  then show "list_all2 (\<lambda>s p. logical_nbytes s = Inr (payload_size p) \<and> data_type s = BF16) (source_specs source) (source_payloads source)"
    by (simp add: specs payloads list_all2_conv_all_nth role_spec_def selected_spec_def)
qed

section \<open>The copies\<close>

text \<open>Every element of the owner has the bits of the payload, element by element in row-major order.\<close>

definition weight_stored :: "(string \<Rightarrow> usize) \<Rightarrow> store \<Rightarrow> memory \<Rightarrow> memory \<Rightarrow> tensor_ref \<Rightarrow> payload \<Rightarrow> bool" where
  "weight_stored mapping st mem mem' owner payload \<longleftrightarrow>
     (let v = full_view (st owner); w = leaf_width (spec v) in
      \<forall>cs r c k. cell v cs r c \<and> k < w \<longrightarrow>
        mem_bit mem' (element_bit st owner v cs r c + k) = mem_bit mem (host_pos (payload_address mapping payload) w v cs r c + k))"

text \<open>A constructed owner and a payload of its size, apart in memory.\<close>

definition uploadable :: "(string \<Rightarrow> usize) \<Rightarrow> store \<Rightarrow> device_ref \<Rightarrow> tensor_ref \<times> payload \<Rightarrow> bool" where
  "uploadable mapping st device = (\<lambda>(owner, payload).
     let v = full_view (st owner) in
     derived_operand st device owner v \<and> data_type (spec v) \<noteq> BOOL
     \<and> logical_nbytes (spec v) = Inr (payload_size payload)
     \<and> unat (payload_address mapping payload) + unat (payload_size payload) < 2 ^ 64)"

definition payload_span :: "(string \<Rightarrow> usize) \<Rightarrow> payload \<Rightarrow> nat set" where
  "payload_span mapping payload = Prelude.span (payload_address mapping payload) (payload_size payload)"

abbreviation owner_span :: "store \<Rightarrow> tensor_ref \<Rightarrow> nat set" where
  "owner_span st owner \<equiv> storage_span st (full_view (st owner))"

lemma upload_one:
  assumes "uploadable mapping st device (owner, payload)" and "owner_span st owner \<inter> payload_span mapping payload = {}"
  shows "\<exists>mem'. upload_payload (\<lambda>payload. span_bytes (payload_address mapping payload) (payload_size payload))
       (cpu_region_from_host mapping left st) st workspace (Some owner, payload) mem = (mem', Inr ())
    \<and> weight_stored mapping st mem mem' owner payload \<and> writes_only st owner (full_view (st owner)) mem mem'"
proof -
  let ?v = "full_view (st owner)" and ?n = "payload_size payload"
  from assms(1) have a: "derived_operand st device owner ?v" "data_type (spec ?v) \<noteq> BOOL"
      "logical_nbytes (spec ?v) = Inr ?n" "unat (payload_address mapping payload) + unat ?n < 2 ^ 64"
    by (auto simp: uploadable_def Let_def)
  have id: "owner_identity ?v = Some owner" by (rule derived_operand_view [OF a(1)])
  have len: "length (span_bytes h n m) = unat n" for h n m by (simp add: span_bytes_def)
  obtain mem' where "region_from_host (owner_address st owner) ?v (payload_address mapping payload) mem = Inr mem'"
      "weight_stored mapping st mem mem' owner payload" "writes_only st owner ?v mem mem'"
    using view_filled_from_host [OF a(1,3,4), of mem] assms(2) unfolding payload_span_def weight_stored_def writes_only_def Let_def by metis
  then show ?thesis
    by (simp add: upload_payload_def copy_from_host_def a(2,3) len reading_def cpu_region_from_host_def id)
qed

text \<open>Bits of a payload are outside of the elements of an owner that is apart from it.\<close>

lemma payload_bit_kept:
  assumes "writes_only st owner (full_view (st owner)) mem mem'" and "uploadable mapping st device (owner, payload)"
    and "uploadable mapping st device (owner', payload')" and "owner_span st owner \<inter> payload_span mapping payload' = {}"
    and "cell (full_view (st owner')) cs r c" and "k < leaf_width (spec (full_view (st owner')))"
  shows "mem_bit mem' (host_pos (payload_address mapping payload') (leaf_width (spec (full_view (st owner')))) (full_view (st owner')) cs r c + k)
    = mem_bit mem (host_pos (payload_address mapping payload') (leaf_width (spec (full_view (st owner')))) (full_view (st owner')) cs r c + k)"
    (is "mem_bit mem' ?a = mem_bit mem ?a")
proof -
  let ?v = "full_view (st owner)" and ?v' = "full_view (st owner')" and ?p = "payload_address mapping payload'"
  have d: "derived_operand st device owner ?v" "derived_operand st device owner' ?v'"
      and n: "logical_nbytes (spec ?v') = Inr (payload_size payload')"
    using assms(2,3) by (simp_all add: uploadable_def Let_def)
  obtain P bits where v': "storage_view (owner_address st owner') P bits ?v'" "unat bits = leaf_width (spec ?v')"
    by (rule derived_operand_view [OF d(2)])
  have "supported_spec (spec ?v')" by (rule derived_operand_storage [OF d(2)])
  then have size: "unat (payload_size payload') = packed_bytes (host_bits (unat bits) ?v')"
    using logical_nbytes_span(1) [OF v'(1) _ n] by simp
  have "?a < 8 * unat ?p + host_bits (unat bits) ?v'" "8 * unat ?p \<le> ?a"
    using host_pos_less [OF assms(5,6), of ?p] v'(2) by simp_all
  then have "?a div 8 \<in> payload_span mapping payload'"
    using packed_bytes_bounds(1) [of "host_bits (unat bits) ?v'"] size by (auto simp: payload_span_def Prelude.span_def)
  then have "?a div 8 \<notin> owner_span st owner" using assms(4) by blast
  then have "?a \<noteq> element_bit st owner ?v cs r c + k" if "cell ?v cs r c" "k < leaf_width (spec ?v)" for cs r c k
    using derived_operand_view [OF d(1)] that by metis
  then show ?thesis using assms(1) unfolding writes_only_def by blast
qed

lemma upload_loop:
  assumes "\<And>q. q \<in> set qs \<Longrightarrow> uploadable mapping st device q"
    and "distinct (map fst qs)"
    and "\<And>q q'. q \<in> set qs \<Longrightarrow> q' \<in> set qs \<Longrightarrow> owner_span st (fst q) \<inter> payload_span mapping (snd q') = {}"
    and "\<And>q q'. q \<in> set qs \<Longrightarrow> q' \<in> set qs \<Longrightarrow> fst q \<noteq> fst q' \<Longrightarrow> owner_span st (fst q) \<inter> owner_span st (fst q') = {}"
  shows "\<exists>mem'. effects (map (\<lambda>q. (Some (fst q), snd q)) qs)
         (upload_payload (\<lambda>payload. span_bytes (payload_address mapping payload) (payload_size payload))
            (cpu_region_from_host mapping left st) st workspace) mem = (mem', Inr ())
    \<and> (\<forall>q \<in> set qs. weight_stored mapping st mem mem' (fst q) (snd q))
    \<and> (\<forall>a. (\<forall>q \<in> set qs. \<forall>cs r c k. cell (full_view (st (fst q))) cs r c \<and> k < leaf_width (spec (full_view (st (fst q))))
            \<longrightarrow> a \<noteq> element_bit st (fst q) (full_view (st (fst q))) cs r c + k) \<longrightarrow> mem_bit mem' a = mem_bit mem a)"
  using assms
proof (induction qs arbitrary: mem)
  case (Cons q qs)
  obtain owner payload where q: "q = (owner, payload)" by (cases q)
  let ?f = "upload_payload (\<lambda>payload. span_bytes (payload_address mapping payload) (payload_size payload))
            (cpu_region_from_host mapping left st) st workspace"
  have up: "uploadable mapping st device (owner, payload)" using Cons.prems(1) q by simp
  note tail = list.set_intros(2) [of _ qs q]
  have dist: "distinct (map fst qs)" using Cons.prems(2) by simp
  obtain mem1 where one: "?f (Some owner, payload) mem = (mem1, Inr ())" "weight_stored mapping st mem mem1 owner payload"
      "writes_only st owner (full_view (st owner)) mem mem1"
    using upload_one [OF up, of left workspace mem] Cons.prems(3) [of q q] q by auto
  obtain mem' where rest: "effects (map (\<lambda>q. (Some (fst q), snd q)) qs) ?f mem1 = (mem', Inr ())"
      "\<And>q. q \<in> set qs \<Longrightarrow> weight_stored mapping st mem1 mem' (fst q) (snd q)"
      "\<And>a. (\<And>q cs r c k. q \<in> set qs \<Longrightarrow> cell (full_view (st (fst q))) cs r c \<Longrightarrow> k < leaf_width (spec (full_view (st (fst q))))
            \<Longrightarrow> a \<noteq> element_bit st (fst q) (full_view (st (fst q))) cs r c + k) \<Longrightarrow> mem_bit mem' a = mem_bit mem1 a"
    using Cons.IH [of mem1, OF Cons.prems(1) [OF tail] dist Cons.prems(3) [OF tail tail] Cons.prems(4) [OF tail tail]]
    by blast
  have others: "weight_stored mapping st mem mem' (fst x) (snd x)" if x: "x \<in> set qs" for x
    unfolding weight_stored_def Let_def
  proof (intro allI impI, elim conjE)
    fix cs r c k
    assume c: "cell (full_view (st (fst x))) cs r c" "k < leaf_width (spec (full_view (st (fst x))))"
    have "uploadable mapping st device (fst x, snd x)" "owner_span st owner \<inter> payload_span mapping (snd x) = {}"
      using Cons.prems(1) [of x] Cons.prems(3) [of q x] x q by simp_all
    note kept = payload_bit_kept [OF one(3) up this c]
    show "mem_bit mem' (element_bit st (fst x) (full_view (st (fst x))) cs r c + k)
        = mem_bit mem (host_pos (payload_address mapping (snd x)) (leaf_width (spec (full_view (st (fst x))))) (full_view (st (fst x))) cs r c + k)"
      using rest(2) [OF x] c kept unfolding weight_stored_def Let_def by simp
  qed
  have first: "weight_stored mapping st mem mem' owner payload"
    unfolding weight_stored_def Let_def
  proof (intro allI impI, elim conjE)
    fix cs r c k
    let ?v = "full_view (st owner)"
    assume c: "cell ?v cs r c" "k < leaf_width (spec ?v)"
    have "mem_bit mem' (element_bit st owner ?v cs r c + k) = mem_bit mem1 (element_bit st owner ?v cs r c + k)"
    proof (rule rest(3))
      fix x :: "tensor_ref \<times> payload" and cs' r' c' k'
      let ?u = "full_view (st (fst x))"
      assume x: "x \<in> set qs" "cell ?u cs' r' c'" "k' < leaf_width (spec ?u)"
      have "fst x \<noteq> owner" using Cons.prems(2) x(1) q by (auto simp: image_iff)
      then have "owner_span st owner \<inter> owner_span st (fst x) = {}" using Cons.prems(4) [of q x] x(1) q by simp
      moreover have "derived_operand st device owner ?v" using up by (simp add: uploadable_def Let_def)
      moreover have "derived_operand st device (fst x) ?u"
        using Cons.prems(1) [of x] x(1) by (cases x) (simp add: uploadable_def Let_def)
      ultimately show "element_bit st owner ?v cs r c + k \<noteq> element_bit st (fst x) ?u cs' r' c' + k'"
        using operands_apart [OF _ _ _ c x(2,3)] by blast
    qed
    also have "\<dots> = mem_bit mem (host_pos (payload_address mapping payload) (leaf_width (spec ?v)) ?v cs r c + k)"
      using one(2) c unfolding weight_stored_def Let_def by blast
    finally show "mem_bit mem' (element_bit st owner ?v cs r c + k)
        = mem_bit mem (host_pos (payload_address mapping payload) (leaf_width (spec ?v)) ?v cs r c + k)" .
  qed
  have "effects (map (\<lambda>q. (Some (fst q), snd q)) (q # qs)) ?f mem = (mem', Inr ())"
    using one(1) rest(1) by (simp add: q then_do_def)
  moreover have "mem_bit mem' a = mem_bit mem a"
    if a: "\<forall>x \<in> set (q # qs). \<forall>cs r c k. cell (full_view (st (fst x))) cs r c \<and> k < leaf_width (spec (full_view (st (fst x))))
            \<longrightarrow> a \<noteq> element_bit st (fst x) (full_view (st (fst x))) cs r c + k" for a
  proof -
    have "mem_bit mem' a = mem_bit mem1 a" by (rule rest(3)) (use a in simp)
    moreover have "mem_bit mem1 a = mem_bit mem a" using one(3) a q unfolding writes_only_def by simp
    ultimately show ?thesis by simp
  qed
  ultimately show ?case using first others q by (intro exI [of _ mem']) auto
qed simp

section \<open>Realized weights\<close>

lemma cpu_binding:
  assumes "sizes_fit (source_specs source)"
    and own: "\<And>owner. Some owner \<in> set destinations \<Longrightarrow> owner_identity (full_view (st owner)) = Some owner"
  shows "validate_destination_binding cpu_transfer_requirements kStandardSupportedDataTypes st source device destinations = Inr r
    \<longleftrightarrow> binding_accepted st device source destinations \<and> r = \<lparr>req_bytes = 0, req_alignment = 1\<rparr>"
    (is "?validate = _ \<longleftrightarrow> _")
proof -
  let ?bound = "list_all2 (\<lambda>expected destination. \<exists>owner. destination = Some owner \<and> tensor_device (st owner) = device
                  \<and> spec (full_view (st owner)) = expected) (source_specs source) destinations"
  have supported: "kSelectedDataType \<in> set kStandardSupportedDataTypes" by (simp add: kStandardSupportedDataTypes_def)
  have bound: ?bound if "?validate = Inr r'" for r'
    using that bind_loop_binds
    by (auto simp: validate_destination_binding_def Let_def andThen_Inr_iff split: if_splits)
  have validate: "?validate = (if distinct destinations then Inr \<lparr>req_bytes = 0, req_alignment = 1\<rparr> else Inl InvalidArgument)"
    if b: ?bound
  proof -
    obtain totals where totals: "for_each (zip (source_specs source) destinations) (bind_destination st device) (0, 0) = Inr totals"
      using bind_loop_accepts [OF b own, of 0 0] assms(1) unfolding sizes_fit_def by auto
    have known: "None \<notin> set destinations" using b by (auto simp: list_all2_conv_all_nth in_set_conv_nth)
    have "\<exists>n. logical_nbytes (spec (full_view (st (the d)))) = Inr n" if "d \<in> set destinations" for d
      using b that assms(1) unfolding sizes_fit_def by (fastforce simp: list_all2_conv_all_nth in_set_conv_nth)
    then show ?thesis
      using list_all2_lengthD [OF b]
      by (simp add: validate_destination_binding_def supported totals repeated_owner_iff [OF known] cpu_maximal_requirements)
  qed
  show ?thesis
  proof
    assume r: "?validate = Inr r"
    with validate [OF bound [OF r]] show "binding_accepted st device source destinations \<and> r = \<lparr>req_bytes = 0, req_alignment = 1\<rparr>"
      using bound [OF r] by (simp add: binding_accepted_def split: if_splits)
  next
    assume "binding_accepted st device source destinations \<and> r = \<lparr>req_bytes = 0, req_alignment = 1\<rparr>"
    then show "?validate = Inr r" using validate by (simp add: binding_accepted_def)
  qed
qed

text \<open>The pairs of owner and payload that an accepted binding copies.\<close>

lemma accepted_pairs:
  assumes accepted: "binding_accepted st device source destinations"
    and sizes: "list_all2 (\<lambda>s p. logical_nbytes s = Inr (payload_size p) \<and> data_type s = BF16) (source_specs source) (source_payloads source)"
    and built: "\<And>owner. Some owner \<in> set destinations
      \<Longrightarrow> derived_operand st (tensor_device (st owner)) owner (full_view (st owner))"
    and mapped: "\<And>p. p \<in> set (source_payloads source) \<Longrightarrow> unat (payload_address mapping p) + unat (payload_size p) < 2 ^ 64"
  obtains qs where "map (\<lambda>q. (Some (fst q), snd q)) qs = zip destinations (source_payloads source)" and "distinct (map fst qs)"
    and "\<And>q. q \<in> set qs \<Longrightarrow> uploadable mapping st device q"
    and "\<And>q. q \<in> set qs \<Longrightarrow> Some (fst q) \<in> set destinations" and "\<And>q. q \<in> set qs \<Longrightarrow> snd q \<in> set (source_payloads source)"
    and "\<And>i. i < length destinations \<Longrightarrow> (the (destinations ! i), source_payloads source ! i) \<in> set qs"
proof -
  let ?payloads = "source_payloads source"
  define qs where "qs = zip (map the destinations) ?payloads"
  have bound: "destinations ! i = Some (the (destinations ! i)) \<and> tensor_device (st (the (destinations ! i))) = device
      \<and> spec (full_view (st (the (destinations ! i)))) = source_specs source ! i"
    "logical_nbytes (source_specs source ! i) = Inr (payload_size (?payloads ! i))" "data_type (source_specs source ! i) = BF16"
    if "i < length destinations" for i
    using accepted sizes that by (auto simp: binding_accepted_def list_all2_conv_all_nth)
  have len: "length ?payloads = length destinations" "length (source_specs source) = length destinations"
    using accepted list_all2_lengthD [OF sizes] by (simp_all add: binding_accepted_def list_all2_conv_all_nth)
  have q: "\<exists>i < length destinations. q = (the (destinations ! i), ?payloads ! i)" if "q \<in> set qs" for q
    using that len by (auto simp: qs_def in_set_zip)
  have elems: "map (\<lambda>q. (Some (fst q), snd q)) qs = zip destinations ?payloads"
    by (rule nth_equalityI) (use len bound(1) in \<open>auto simp: qs_def\<close>)
  have "map the destinations = map fst qs" using len by (simp add: qs_def)
  moreover have "None \<notin> set destinations" using bound(1) by (metis in_set_conv_nth option.distinct(1))
  then have "inj_on the (set destinations)" by (intro inj_onI) (metis option.expand)
  ultimately have dist: "distinct (map fst qs)" using accepted by (metis binding_accepted_def distinct_map)
  have in_dest: "Some (fst q) \<in> set destinations" "snd q \<in> set ?payloads" if "q \<in> set qs" for q
    using q [OF that] bound(1) len by (metis fst_conv snd_conv nth_mem)+
  have up: "uploadable mapping st device q" if q': "q \<in> set qs" for q
    using q [OF q'] built [OF in_dest(1) [OF q']] mapped [OF in_dest(2) [OF q']] bound by (auto simp: uploadable_def Let_def)
  have pair: "(the (destinations ! i), ?payloads ! i) \<in> set qs" if "i < length destinations" for i
  proof -
    have "qs ! i = (the (destinations ! i), ?payloads ! i)" "i < length qs" using that len by (simp_all add: qs_def)
    then show ?thesis using nth_mem [of i qs] by simp
  qed
  show thesis by (rule that [OF elems dist up in_dest pair])
qed

text \<open>
  C22. An upload to the CPU backend writes all weights or nothing. Let the source be loaded, the destinations
  be constructed owners whose storages are apart from each other and from the mapped payloads. If there is
  one owner on the device for each entry, in order, with the entry's specification and none twice, the
  upload returns, every element of destination \<open>i\<close> has the bits that the payload of entry \<open>i\<close> has for
  it in row-major order, and no other bit of memory changes. Otherwise it throws and memory is
  unchanged, whatever a transfer would leave behind.
\<close>

theorem weights_realized:
  assumes load: "load_tinyllama_safetensors config_parse G header_parse content entries = Inr source"
    and built: "\<And>owner. Some owner \<in> set destinations
      \<Longrightarrow> derived_operand (tensors ob) (tensor_device (tensors ob owner)) owner (full_view (tensors ob owner))"
    and apart: "\<And>a b. Some a \<in> set destinations \<Longrightarrow> Some b \<in> set destinations \<Longrightarrow> a \<noteq> b
      \<Longrightarrow> owner_span (tensors ob) a \<inter> owner_span (tensors ob) b = {}"
    and mapped: "\<And>p. p \<in> set (source_payloads source) \<Longrightarrow> unat (payload_address mapping p) + unat (payload_size p) < 2 ^ 64"
      "\<And>a p. Some a \<in> set destinations \<Longrightarrow> p \<in> set (source_payloads source)
         \<Longrightarrow> owner_span (tensors ob) a \<inter> payload_span mapping p = {}"
  shows "if binding_accepted (tensors ob) device source destinations
    then \<exists>mem'. cpu_upload_weights mapping left ob source device destinations workspace mem = (mem', Inr ())
      \<and> (\<forall>i < length destinations.
           weight_stored mapping (tensors ob) mem mem' (the (destinations ! i)) (source_payloads source ! i))
      \<and> (\<forall>a. (\<forall>owner cs r c k. Some owner \<in> set destinations \<and> cell (full_view (tensors ob owner)) cs r c
               \<and> k < leaf_width (spec (full_view (tensors ob owner)))
               \<longrightarrow> a \<noteq> element_bit (tensors ob) owner (full_view (tensors ob owner)) cs r c + k)
           \<longrightarrow> mem_bit mem' a = mem_bit mem a)
    else \<exists>e. cpu_upload_weights mapping left ob source device destinations workspace mem = (mem, Inl e)"
proof -
  let ?st = "tensors ob" and ?payloads = "source_payloads source"
  note sizes = published_sizes [OF load]
  have own: "owner_identity (full_view (?st owner)) = Some owner" if "Some owner \<in> set destinations" for owner
    by (rule derived_operand_view [OF built [OF that]])
  note binding = cpu_binding [OF sizes(1) own, of destinations device, simplified]
  show ?thesis
  proof (cases "binding_accepted ?st device source destinations")
    case False
    then obtain e where "validate_destination_binding cpu_transfer_requirements kStandardSupportedDataTypes ?st source device destinations = Inl e"
      using binding by (metis sum.exhaust)
    then show ?thesis using False by (auto simp: cpu_upload_weights_def upload_weights_def reading_def)
  next
    case True
    obtain qs where elems: "map (\<lambda>q. (Some (fst q), snd q)) qs = zip destinations ?payloads" and dist: "distinct (map fst qs)"
      and up: "\<And>q. q \<in> set qs \<Longrightarrow> uploadable mapping ?st device q"
      and in_dest: "\<And>q. q \<in> set qs \<Longrightarrow> Some (fst q) \<in> set destinations" "\<And>q. q \<in> set qs \<Longrightarrow> snd q \<in> set ?payloads"
      and pair: "\<And>i. i < length destinations \<Longrightarrow> (the (destinations ! i), ?payloads ! i) \<in> set qs"
      using accepted_pairs [OF True sizes(2) built mapped(1)] by blast
    obtain mem' where run: "effects (zip destinations ?payloads)
         (upload_payload (\<lambda>payload. span_bytes (payload_address mapping payload) (payload_size payload))
            (cpu_region_from_host mapping left ?st) ?st workspace) mem = (mem', Inr ())"
      and stored: "\<And>q. q \<in> set qs \<Longrightarrow> weight_stored mapping ?st mem mem' (fst q) (snd q)"
      and frame: "\<And>a. (\<And>q cs r c k. q \<in> set qs \<Longrightarrow> cell (full_view (?st (fst q))) cs r c
            \<Longrightarrow> k < leaf_width (spec (full_view (?st (fst q)))) \<Longrightarrow> a \<noteq> element_bit ?st (fst q) (full_view (?st (fst q))) cs r c + k)
          \<Longrightarrow> mem_bit mem' a = mem_bit mem a"
      using upload_loop [OF up dist mapped(2) [OF in_dest(1) in_dest(2)] apart [OF in_dest(1) in_dest(1)], of left workspace mem]
      unfolding elems by blast
    have validated: "validate_destination_binding cpu_transfer_requirements kStandardSupportedDataTypes ?st source device destinations
        = Inr \<lparr>req_bytes = 0, req_alignment = 1\<rparr>"
      using True binding by simp
    have "cpu_upload_weights mapping left ob source device destinations workspace mem = (mem', Inr ())"
      by (simp add: cpu_upload_weights_def upload_weights_def reading_def validated upload_workspace_def run)
    moreover have "weight_stored mapping ?st mem mem' (the (destinations ! i)) (?payloads ! i)" if "i < length destinations" for i
      using stored [OF pair [OF that]] by simp
    moreover have "mem_bit mem' a = mem_bit mem a"
      if "\<forall>owner cs r c k. Some owner \<in> set destinations \<and> cell (full_view (?st owner)) cs r c
               \<and> k < leaf_width (spec (full_view (?st owner))) \<longrightarrow> a \<noteq> element_bit ?st owner (full_view (?st owner)) cs r c + k" for a
      using that in_dest(1) by (intro frame) blast
    ultimately show ?thesis using True by (simp only: if_True) blast
  qed
qed

text \<open>Twelve owners on device 1, 512 bytes each, behind the mapped file of the sample directory.\<close>

definition sample_owner :: "tensor_ref \<Rightarrow> Tensor" where
  "sample_owner i = \<lparr>tensor_device = 1,
     full_view = \<lparr>owner_identity = Some i, spec = role_spec sample_config (weight_role (map fst sample_shapes ! i)),
       plane_offset = 0, plane_strides = []\<rparr>,
     storage_handle = 8192 + 512 * of_nat i\<rparr>"

definition sample_objects :: Objects where
  "sample_objects = \<lparr>ops_device = Some 1, tensors = sample_owner, workspaces = \<lambda>_. \<lparr>workspace_device = 0, workspace_bytes = 0, workspace_address = 0\<rparr>,
     live_workspaces = {}\<rparr>"

lemma role_owner_built:
  assumes wf: "config_wf c" and owner: "full_view (st i) = \<lparr>owner_identity = Some i, spec = role_spec c role, plane_offset = 0, plane_strides = []\<rparr>"
    and n: "tiled_storage_nbytes (role_spec c role) = Inr n" "unat (storage_handle (st i)) + unat n < 2 ^ 64" "storage_handle (st i) \<noteq> 0"
  shows "derived_operand st (tensor_device (st i)) i (full_view (st i))"
proof -
  note sup = role_spec_valid(2) [OF wf, of role]
  then have valid: "valid_shape (shape (role_spec c role))" by (simp add: supported_spec_def)
  have "rank (shape (role_spec c role)) = 2"
    using role_shape_positive(2) [OF wf, of role] by (auto simp: rank_def role_spec_def selected_spec_def adapted_logical_shape_def)
  then have "leading_dimensions_of (role_spec c role) = []" by (simp add: leading_dimensions_of_def)
  moreover have "validate (role_spec c role) = Inr ()" using sup valid by (simp add: validate_Inr_iff)
  ultimately have "make_tensor i (role_spec c role) (tensor_device (st i)) (storage_handle (st i)) = Inr (st i)"
    using owner by (simp add: make_tensor_def validated_dense_plane_strides_def dense_plane_strides_def)
  then show ?thesis
    unfolding derived_operand_def using valid n derived_view.full by blast
qed

lemma sample_config_wf: "config_wf sample_config"
  using sample_config_loads by (rule accepted_config_is_wf)

lemma sample_owner_facts:
  assumes "i < 12"
  shows "derived_operand sample_owner 1 i (full_view (sample_owner i))" and "owner_span sample_owner i = {8192 + 512 * i..<8192 + 512 * i + 512}"
proof -
  let ?role = "weight_role (map fst sample_shapes ! i)"
  have "?role \<in> set (map weight_role (map fst sample_shapes))" 
    using nth_mem [of i "map weight_role (map fst sample_shapes)"] assms sample_weights(4) by simp
  then have "tiled_of sample_config ?role = 256" using sample_weights(3) by (simp only: list_all_iff)
  then have n: "tiled_storage_nbytes (role_spec sample_config ?role) = Inr 512"
    unfolding role_bytes(3) [OF sample_config_wf] by simp
  have "unat (of_nat (8192 + 512 * i) :: usize) = 8192 + 512 * i" by (rule unat_of_nat_fits) (use assms in simp)
  then have h: "unat (storage_handle (sample_owner i)) = 8192 + 512 * i" by (simp add: sample_owner_def)
  have "derived_operand sample_owner (tensor_device (sample_owner i)) i (full_view (sample_owner i))"
    by (rule role_owner_built [OF sample_config_wf, where role = ?role, OF _ n])
       (use h assms in \<open>auto simp: sample_owner_def\<close>)
  then show d: "derived_operand sample_owner 1 i (full_view (sample_owner i))" by (simp add: sample_owner_def)
  have "owner_span sample_owner i = Prelude.span (storage_handle (sample_owner i)) 512"
    by (rule derived_operand_facts [OF d]) (use n in \<open>simp add: sample_owner_def\<close>)
  then show "owner_span sample_owner i = {8192 + 512 * i..<8192 + 512 * i + 512}" by (simp add: Prelude.span_def h)
qed

lemma sample_payload_facts:
  "list_all (\<lambda>(i, dims, offset). unat (4096 + (9 + offset) :: usize) + unat (2 * foldl (*) 1 dims :: usize) \<le> 8192) sample_shapes"
  by (simp add: sample_shapes_def)

lemma sample_third:
  "sample_shapes ! 3 = (\<lparr>weight_role = input_norm, weight_layer = Some 0\<rparr>, [2], 28)"
  "full_view (sample_owner 3) = \<lparr>owner_identity = Some 3, spec = selected_spec (TensorShape [1, 2]), plane_offset = 0, plane_strides = []\<rparr>"
  "owner_address sample_owner 3 = 9728"
  by (simp_all add: sample_shapes_def sample_owner_def role_spec_def sample_config_def adapted_logical_shape_def Let_def)

lemma sample_element_facts:
  "cell (full_view (sample_owner 3)) [] 0 0" "leaf_width (spec (full_view (sample_owner 3))) = 16"
  "element_pos 9728 16 (full_view (sample_owner 3)) [] 0 0 = 8 * 9728"
  "host_pos 4133 16 (full_view (sample_owner 3)) [] 0 0 = 8 * 4133"
  by (simp_all add: sample_third(2) cell_def leading_coords_def lead_extents_def leading_def extents_def rank_def rows_of_def
      columns_of_def selected_spec_def leaf_width_def element_pos_def plane_slot_def view_plane_def host_pos_def host_index_def
      lead_strides_def)

lemma sample_source:
  obtains source where "load_tinyllama_safetensors (\<lambda>_. Some sample_config_json) sample_double (\<lambda>_. Some sample_header_json)
       (Some ''config'') [sample_shard] = Inr source"
    and "source_specs source = map (\<lambda>i. spec (full_view (sample_owner i))) [0..<12]"
    and "\<And>p. p \<in> set (source_payloads source) \<Longrightarrow> unat (payload_address (\<lambda>_. 4096) p) + unat (payload_size p) \<le> 8192"
    and "payload_address (\<lambda>_. 4096) (source_payloads source ! 3) = 4133"
proof -
  obtain store where open_: "open_mapped_store (\<lambda>_. Some sample_header_json) [sample_shard] = Inr store"
    and views: "\<And>x. x \<in> set sample_shapes \<Longrightarrow>
      tensors_map store (checkpoint_name (fst x)) = Some (record_view ''m.safetensors'' 9 (sample_record x))"
    using sample_store_opens by blast
  define source where "source = published sample_config store"
  have load: "load_tinyllama_safetensors (\<lambda>_. Some sample_config_json) sample_double (\<lambda>_. Some sample_header_json)
       (Some ''config'') [sample_shard] = Inr source"
    unfolding source_def by (rule source_loads [OF sample_config_loads open_ sample_weights_fit sample_provided [OF views]])
  have payload: "payload_of store (fst x) = (''m.safetensors'', 9 + snd (snd x), 2 * foldl (*) 1 (fst (snd x)))"
    if "x \<in> set sample_shapes" for x
    using views [OF that] by (cases x) (simp add: payload_of_def record_view_def sample_record_def)
  have specs: "source_specs source = map (\<lambda>i. spec (full_view (sample_owner i))) [0..<12]"
    and payloads: "source_payloads source = map (payload_of store) (map fst sample_shapes)"
    by (rule nth_equalityI)
       (simp_all add: source_def published_def Let_def sample_weights(1,4) sample_owner_def)
  have spans: "unat (payload_address (\<lambda>_. 4096) p) + unat (payload_size p) \<le> 8192" if p: "p \<in> set (source_payloads source)" for p
  proof -
    obtain x where x: "x \<in> set sample_shapes" "p = payload_of store (fst x)" using p payloads by auto
    then show ?thesis
      using sample_payload_facts unfolding x(2) payload [OF x(1)] list_all_iff
      by (auto simp: payload_address_def payload_size_def)
  qed
  have "sample_shapes ! 3 \<in> set sample_shapes" using sample_weights(4) by simp
  note third = payload [OF this, unfolded sample_third(1), simplified]
  have "source_payloads source ! 3 = (''m.safetensors'', 37, 4)"
    using sample_weights(4) third by (simp add: payloads sample_third(1))
  then have address: "payload_address (\<lambda>_. 4096) (source_payloads source ! 3) = 4133" by (simp add: payload_address_def)
  show thesis by (rule that [OF load specs spans address])
qed

theorem weights_realized_witness:
  "\<exists>source mem'. load_tinyllama_safetensors (\<lambda>_. Some sample_config_json) sample_double (\<lambda>_. Some sample_header_json)
       (Some ''config'') [sample_shard] = Inr source
     \<and> cpu_upload_weights (\<lambda>_. 4096) (\<lambda>_ _ _ _. 0) sample_objects source 1 (map Some [0..<12]) empty_workspace_view of_nat = (mem', Inr ())
     \<and> mem_bit mem' (8 * 9728)"
proof -
  obtain source where load: "load_tinyllama_safetensors (\<lambda>_. Some sample_config_json) sample_double (\<lambda>_. Some sample_header_json)
       (Some ''config'') [sample_shard] = Inr source"
    and specs: "source_specs source = map (\<lambda>i. spec (full_view (sample_owner i))) [0..<12]"
    and spans: "\<And>p. p \<in> set (source_payloads source) \<Longrightarrow> unat (payload_address (\<lambda>_. 4096) p) + unat (payload_size p) \<le> 8192"
    and address: "payload_address (\<lambda>_. 4096) (source_payloads source ! 3) = 4133"
    using sample_source by blast
  have owners: "i < 12" if "Some i \<in> set (map Some [0..<12])" for i :: nat using that by auto
  have dev: "tensors sample_objects = sample_owner" "tensor_device (sample_owner i) = 1" for i
    by (simp_all add: sample_objects_def sample_owner_def)
  have accepted: "binding_accepted (tensors sample_objects) 1 source (map Some [0..<12])"
    by (simp add: binding_accepted_def specs dev list_all2_conv_all_nth distinct_map inj_on_def)
  have "if binding_accepted (tensors sample_objects) 1 source (map Some [0..<12])
    then \<exists>mem'. cpu_upload_weights (\<lambda>_. 4096) (\<lambda>_ _ _ _. 0) sample_objects source 1 (map Some [0..<12]) empty_workspace_view of_nat = (mem', Inr ())
      \<and> (\<forall>i < length (map Some [0..<12]). weight_stored (\<lambda>_. 4096) (tensors sample_objects) of_nat mem'
           (the (map Some [0..<12] ! i)) (source_payloads source ! i))
      \<and> (\<forall>a. (\<forall>owner cs r c k. Some owner \<in> set (map Some [0..<12]) \<and> cell (full_view (tensors sample_objects owner)) cs r c
               \<and> k < leaf_width (spec (full_view (tensors sample_objects owner)))
               \<longrightarrow> a \<noteq> element_bit (tensors sample_objects) owner (full_view (tensors sample_objects owner)) cs r c + k)
           \<longrightarrow> mem_bit mem' a = mem_bit of_nat a)
    else \<exists>e. cpu_upload_weights (\<lambda>_. 4096) (\<lambda>_ _ _ _. 0) sample_objects source 1 (map Some [0..<12]) empty_workspace_view of_nat = (of_nat, Inl e)"
  proof (rule weights_realized [OF load])
    fix a b :: nat and p
    assume a: "Some a \<in> set (map Some [0..<12])"
    note fa = sample_owner_facts [OF owners [OF a]]
    show "derived_operand (tensors sample_objects) (tensor_device (tensors sample_objects a)) a (full_view (tensors sample_objects a))"
      using fa(1) by (simp add: dev)
    { assume b: "Some b \<in> set (map Some [0..<12])" "a \<noteq> b"
      show "owner_span (tensors sample_objects) a \<inter> owner_span (tensors sample_objects) b = {}"
        using b(2) sample_owner_facts(2) [OF owners [OF b(1)]] fa(2) by (auto simp: dev) }
    { assume "p \<in> set (source_payloads source)"
      then show "owner_span (tensors sample_objects) a \<inter> payload_span (\<lambda>_. 4096) p = {}"
        using spans [of p] fa(2) by (auto simp: dev payload_span_def Prelude.span_def) }
  next
    fix p
    assume "p \<in> set (source_payloads source)"
    then show "unat (payload_address (\<lambda>_. 4096) p) + unat (payload_size p) < 2 ^ 64" using spans [of p] by simp
  qed
  then obtain mem' where run: "cpu_upload_weights (\<lambda>_. 4096) (\<lambda>_ _ _ _. 0) sample_objects source 1 (map Some [0..<12]) empty_workspace_view of_nat = (mem', Inr ())"
    and stored: "weight_stored (\<lambda>_. 4096) sample_owner of_nat mem' 3 (source_payloads source ! 3)"
    using accepted by (auto simp: dev split: if_splits dest!: spec [where x = 3])
  from stored sample_element_facts(1) address have "mem_bit mem' (element_pos 9728 16 (full_view (sample_owner 3)) [] 0 0 + 0)
      = mem_bit of_nat (host_pos 4133 16 (full_view (sample_owner 3)) [] 0 0 + 0)"
    unfolding weight_stored_def Let_def sample_element_facts(2) sample_third(3) by (metis zero_less_numeral)
  then have "mem_bit mem' (8 * 9728) = mem_bit of_nat (8 * 4133)"
    unfolding sample_element_facts(3,4) by (simp only: add_0_right)
  moreover have "mem_bit of_nat (8 * 4133)" by (simp add: mem_bit_def)
  ultimately show ?thesis using load run by blast
qed

end
