(* ===== verification/Spec2Isabelle.thy ===== *)
theory Spec2Isabelle
  imports Allocators Neural_Ops Queue_Admission Registry Safetensors Token_Selection Cpu_Copy Cpu_Binary Cpu_Embedding Chat_Load Model_Upload
begin

text \<open>
  iom is an inference engine for language models. A \<^emph>\<open>device\<close> owns tensors whose matrices are stored as
  16x16 tiles of packed elements; \<^emph>\<open>views\<close> select planes of an owner without copying. A client submits
  operations on views to a device's queue. The common part of the queue (\<open>DeviceOps\<close>) validates every
  request, takes an immutable snapshot, admits it in order with bounded credits and hands it to a
  backend; the backend registers the owners as in use, runs the operation and completes its sequence
  number, on which the client waits. Around that core are the allocators that provide storage, the reader of model files,
  token selection, the tokenizer, chat formatting and the session that drives a model.

  \<^bold>\<open>Conventions.\<close> \<open>size_t\<close> and \<open>uint64_t\<close> are \<open>64 word\<close>, so that every sum and product wraps as in the
  code unless the code checks it (\<open>checked_add\<close>, \<open>checked_mul\<close> of \<open>Prelude\<close>). A function that may throw
  returns \<open>'a throws\<close>: \<open>Inl\<close> an exception, \<open>Inr\<close> a value, sequenced by \<open>andThen\<close>; checks stand in the code's order.
  Code that may write and then throw, where that matters, returns \<open>'s effect\<close>: the state it leaves together with its outcome.
  Pointers are numbers, objects behind them are read through a store, and the bytes of the CPU
  backend are one memory shared by all operands. Virtual functions of a backend, the JSON parser, the bytes of
  files and the clock are arguments of the definitions that use them. Every definition is total and none takes fuel: loops are
  structural recursion, recursion over the index list of the code's loop, or recursion with a measure that is shown to decrease.
  Sizes of containers are natural numbers compared with the same limits as in the code (\<open>size_max\<close>, \<open>max_size\<close>).

  \<^bold>\<open>Theories.\<close>
  \<^item> \<open>Prelude\<close>: words, exceptions, checked arithmetic (\<open>src/src/iom_internal.hpp\<close>), shared lemmas and simplification collections.
  \<^item> \<open>Tensor_Core\<close> (\<open>src/include/iom/tensor.hpp\<close>, \<open>src/src/tensor.cpp\<close>): element encodings, shapes, byte counts and the tiled
    layout. Counts are exact or report overflow; slots are in range and distinct.
  \<^item> \<open>Tensor_Views\<close> (\<open>src/src/tensor_view.cpp\<close>): owners, views and the transforms \<open>slice\<close>, \<open>select\<close>, \<open>permute\<close>,
    \<open>reshape_leading\<close>. A derived view addresses planes of its owner only, each plane once.
  \<^item> \<open>Allocators\<close> (\<open>src/src/alloc.cpp\<close>, \<open>aligned_storage.hpp\<close>): bump, best-fit and fixed-size allocators behind the locale
    \<open>allocator\<close>, interpreted on all three. Storages are aligned, disjoint and inside the buffer; freeing undoes allocating.
  \<^item> \<open>Admission\<close> (\<open>src/src/device_ops.cpp\<close>, \<open>src/src/workspace.cpp\<close>, \<open>src/include/iom/oid.hpp\<close>): the validation all operations share and raw
    workspaces. Whatever is admitted stays inside its storage, and derived views are always admitted.
  \<^item> \<open>Operations\<close> (\<open>device_ops_copy.cpp\<close>, \<open>device_ops_binary.cpp\<close>, \<open>device_ops_cache_append.cpp\<close>, \<open>device_ops_embedding.cpp\<close>,
    \<open>device_ops_rmsnorm.cpp\<close>) and \<open>Neural_Ops\<close> (\<open>device_ops_neural.cpp\<close>): the facades, from validation to the request. The
    lemmas say exactly which requests are accepted and that a rejected one has no effect.
  \<^item> \<open>Queue_Admission\<close> (\<open>src/src/device_ops.cpp\<close>): tokens, queue identifiers, credits, the FIFO of admitted operations, completion,
    waiting and teardown as functions on the queue's state, and a step relation over all interleavings of the threads. An
    invariant of every reachable state; dispatch in order; \<open>close_and_drain\<close> ends with no parked operation; two interleavings in
    which the code does not do what it says.
  \<^item> \<open>Registry\<close> (\<open>src/include/iom/detail/\<close>: \<open>fence.hpp\<close>, \<open>outstanding_work_registry_core.hpp\<close>, \<open>workspace_registry.hpp\<close>,
    \<open>outstanding_work_cleanup.hpp\<close>): which storage queued work still uses, release or quarantine, workspace leases.
  \<^item> \<open>Safetensors\<close> (\<open>src/src/safetensors.cpp\<close>, \<open>src/src/mmap.cpp\<close>): an accepted file is tiled by its tensors.
  \<^item> \<open>Token_Selection\<close> (\<open>src/src/token_selection.cpp\<close>): the selected token is the first of the largest logits.
  \<^item> \<open>Bpe\<close>, \<open>Utf8\<close>, \<open>Tokenizer\<close>, \<open>Tokenizer_Load\<close> (\<open>src/src/tokenizer.cpp\<close>) over the documents of \<open>Json\<close>: the merge loop over linked
    symbols and a queue of candidates equals the reference that rescans the list; the UTF-8 check accepts exactly
    the encodings of scalar values; a loaded file has the invariant \<open>tokenizer_ok\<close>; with it encoding always returns what the reference
    computes, and decoding gives the text back. The priority queue is a list in the order of its comparison; entries it does not tell
    apart stay in the order of their insertion, and only one of them is not stale. The \<open>max_size\<close> of the
    containers are the record \<open>Limits\<close>; \<open>fits\<close> says that a text is within them.
  \<^item> \<open>Chat_Template\<close>, \<open>Chat_Load\<close> (\<open>src/src/chat_format.cpp\<close>): the subset of Jinja that chat templates are written in, its tokens and
    expressions, the compiler into affixes and the formatter. A tree of blocks with an evaluation says what a template means;
    formatting with the compiled template outputs the same. The formatter's check of UTF-8 agrees with the tokenizer's.
  \<^item> \<open>Model_Config\<close>, \<open>Model_Source\<close>, \<open>Model_Upload\<close> (\<open>src/src/model.cpp\<close>): the configuration of a model, the weights it requires, their
    selection from the mapped files and the upload to a device. A configuration is accepted exactly when it is usable; a directory is
    published exactly when it has every required tensor; an upload gives every element of every weight its stored bits or writes nothing.
  \<^item> \<open>Cpu_Memory\<close>, \<open>Cpu_Transfers\<close>, \<open>Cpu_Elements\<close> (\<open>src/src/cpu/transfer_helpers.hpp\<close>, \<open>src/src/cpu/tensor.cpp\<close>): packed elements in byte memory, the byte,
    word and bit paths of the copies, the walks over tile rows, and transfers between a view and host memory. Every optimised
    path moves exactly the addressed bits; a round trip through a view returns the bytes written.
  \<^item> \<open>Cpu_Copy\<close>, \<open>Cpu_Binary\<close>, \<open>Cpu_Embedding\<close> (\<open>src/src/cpu/queue.cpp\<close>): the tasks of the CPU queue for copy, cache append, the binary operations
    and embedding. Each property starts from a request that admission accepted and gives every element of the output and that
    no other bit of memory changes.

  \<^bold>\<open>Not modelled.\<close> The AVX-512 kernels and the kernels for CUDA, ROCm and SYCL consist of vendor intrinsics and device arithmetic
  whose meaning is not in the source; the backends' drivers and queues are calls of the vendors' runtimes. The factory
  \<open>load_tinyllama_model\<close>, which creates owners through a device's virtual functions around the modelled upload, is left out. The messages of exceptions, the
  text of diagnostics and the logging are left out everywhere.

  \<^bold>\<open>What modelling showed.\<close> \<open>validate_sdpa\<close> never compares the width of keys and queries (\<open>sdpa_key_width_unchecked\<close>); an operation
  parked for lack of resources can miss its last wake-up (\<open>exhaustion_loses_wakeup\<close>); a wait can return while its operation
  executes (\<open>wait_returns_while_executing\<close>); a copy between overlapping windows of one owner is accepted and propagates planes
  (\<open>overlapping_copy_propagates\<close>).
\<close>

end
